(* ===== verification/Bray_Prelude.thy ===== *)
theory Bray_Prelude
  imports Main "HOL-Library.Monad_Syntax"
begin

text \<open>
  What every component of the development shares: the conventions of the model, the
  collections of rewrite rules the component proofs pass to the simplifier, and generic lemmas
  on lists, options and index loops.

  A Rust computation that may panic (a failed \<open>assert!\<close>, an explicit \<open>panic!\<close>, a slice off a
  character boundary) returns \<open>'a run\<close>: \<open>Some\<close> is an ordinary return and \<open>None\<close> is the panic.
  A Rust \<open>Option\<close> inside such a computation is an option inside the option. The sizes
  \<open>usize\<close> are \<open>nat\<close>; where the source checks a width (\<open>u32\<close>, \<open>u64\<close>), the check is written out.
\<close>

type_synonym 'a run = "'a option"

abbreviation panic :: "'a run" where
  "panic \<equiv> None"

definition u32_max :: nat where
  "u32_max = 4294967295"

definition u64_max :: nat where
  "u64_max = 18446744073709551615"

text \<open>\<open>run_simps\<close> holds the equations that step through \<open>run\<close> computations.\<close>

named_theorems run_simps

lemma bind_Some_conv [run_simps]:
  "(m \<bind> f) = Some y \<longleftrightarrow> (\<exists>x. m = Some x \<and> f x = Some y)"
  by (cases m) auto

text \<open>\<open>assert!(b)\<close>: continue, or panic.\<close>

definition assert_run :: "bool \<Rightarrow> unit run" where
  "assert_run b = (if b then Some () else panic)"

lemma assert_run_simps [simp, run_simps]:
  "assert_run True = Some ()"
  "assert_run False = panic"
  "assert_run b = Some u \<longleftrightarrow> b"
  by (simp_all add: assert_run_def)

text \<open>\<open>slice.get(i).copied()\<close>: the element, or nothing past the end.\<close>

definition get :: "'a list \<Rightarrow> nat \<Rightarrow> 'a option" where
  "get xs i = (if i < length xs then Some (xs ! i) else None)"

lemma get_Some_iff: "get xs i = Some x \<longleftrightarrow> i < length xs \<and> xs ! i = x"
  by (auto simp: get_def)

lemma get_None_iff: "get xs i = None \<longleftrightarrow> length xs \<le> i"
  by (auto simp: get_def)

text \<open>
  The loop shape \<open>while let Some(x) = xs.get(i) \<and> p x { i += 1 }\<close>: the first index from \<open>i\<close> on
  where the slice ends or the predicate fails.
\<close>

function index_while :: "('a \<Rightarrow> bool) \<Rightarrow> 'a list \<Rightarrow> nat \<Rightarrow> nat" where
  "index_while p xs i = (if i < length xs \<and> p (xs ! i) then index_while p xs (Suc i) else i)"
  by pat_completeness auto
termination
  by (relation "measure (\<lambda>(p, xs, i). length xs - i)") auto

declare index_while.simps [simp del]

lemma index_while_ge: "i \<le> index_while p xs i"
proof (induction p xs i rule: index_while.induct)
  case (1 p xs i)
  then show ?case
    by (cases "i < length xs \<and> p (xs ! i)") (auto simp: index_while.simps [of p xs i])
qed

lemma index_while_le: "i \<le> length xs \<Longrightarrow> index_while p xs i \<le> length xs"
proof (induction p xs i rule: index_while.induct)
  case (1 p xs i)
  then show ?case
    by (cases "i < length xs \<and> p (xs ! i)") (auto simp: index_while.simps [of p xs i])
qed

lemma index_while_stop:
  "index_while p xs i < length xs \<Longrightarrow> \<not> p (xs ! index_while p xs i)"
proof (induction p xs i rule: index_while.induct)
  case (1 p xs i)
  then show ?case
    by (cases "i < length xs \<and> p (xs ! i)") (auto simp: index_while.simps [of p xs i])
qed

lemma index_while_run:
  "i \<le> j \<Longrightarrow> j < index_while p xs i \<Longrightarrow> p (xs ! j)"
proof (induction p xs i rule: index_while.induct)
  case (1 p xs i)
  show ?case
  proof (cases "i < length xs \<and> p (xs ! i)")
    case True
    show ?thesis
    proof (cases "j = i")
      case False
      with True "1.prems" show ?thesis
        by (intro "1.IH") (auto simp: index_while.simps [of p xs i])
    qed (use True in simp)
  qed (use "1.prems" in \<open>auto simp: index_while.simps [of p xs i]\<close>)
qed

lemma index_while_gt: "i < length xs \<Longrightarrow> p (xs ! i) \<Longrightarrow> i < index_while p xs i"
  using index_while_ge [of "Suc i" p xs] by (simp add: index_while.simps [of p xs i])

lemma index_while_eqI:
  assumes "i \<le> j" "j \<le> length xs" "\<And>k. i \<le> k \<Longrightarrow> k < j \<Longrightarrow> p (xs ! k)"
    and "j < length xs \<Longrightarrow> \<not> p (xs ! j)"
  shows "index_while p xs i = j"
proof (rule ccontr)
  let ?m = "index_while p xs i"
  assume "?m \<noteq> j"
  then consider "?m < j" | "j < ?m" by linarith
  then show False
  proof cases
    case 1
    with assms index_while_ge [of i p xs] index_while_stop [of p xs i] show False by auto
  next
    case 2
    with assms index_while_le [of i xs p] index_while_run [of i j p xs] show False by auto
  qed
qed

lemmas index_while_bounds = index_while_ge index_while_le

text \<open>Slices of a list between two positions.\<close>

definition segment :: "'a list \<Rightarrow> nat \<Rightarrow> nat \<Rightarrow> 'a list" where
  "segment xs i j = take (j - i) (drop i xs)"

lemma length_segment: "j \<le> length xs \<Longrightarrow> length (segment xs i j) = j - i"
  by (simp add: segment_def)

lemma segment_self [simp]: "segment xs i i = []"
  by (simp add: segment_def)

lemma segment_all [simp]: "segment xs 0 (length xs) = xs"
  by (simp add: segment_def)

lemma segment_append: "i \<le> j \<Longrightarrow> j \<le> k \<Longrightarrow> segment xs i j @ segment xs j k = segment xs i k"
proof -
  assume "i \<le> j" "j \<le> k"
  then obtain m n where "j = i + m" "k = i + m + n"
    by (metis le_add_diff_inverse)
  then show ?thesis
    by (simp add: segment_def take_add add.commute)
qed

lemma nth_segment: "j \<le> length xs \<Longrightarrow> k < j - i \<Longrightarrow> segment xs i j ! k = xs ! (i + k)"
  by (simp add: segment_def)

lemma segment_Cons:
  "i < j \<Longrightarrow> j \<le> length xs \<Longrightarrow> segment xs i j = xs ! i # segment xs (Suc i) j"
  by (simp add: segment_def Cons_nth_drop_Suc [symmetric] Suc_diff_Suc [symmetric])

lemma segment_snoc:
  "i \<le> j \<Longrightarrow> j < length xs \<Longrightarrow> segment xs i (Suc j) = segment xs i j @ [xs ! j]"
  by (simp add: segment_def Suc_diff_le take_Suc_conv_app_nth)

text \<open>The run an \<open>index_while\<close> loop passes over, as a list.\<close>

abbreviation run_of :: "('a \<Rightarrow> bool) \<Rightarrow> 'a list \<Rightarrow> nat \<Rightarrow> 'a list" where
  "run_of p xs i \<equiv> segment xs i (index_while p xs i)"

lemma run_of_stop: "\<not> (i < length xs \<and> p (xs ! i)) \<Longrightarrow> run_of p xs i = []"
  by (auto simp: index_while.simps [of p xs i])

lemma run_of_step:
  assumes "i < length xs" "p (xs ! i)"
  shows "run_of p xs i = xs ! i # run_of p xs (Suc i)"
  using assms index_while_gt [of i xs p] index_while_le [of i xs p]
  by (simp add: segment_Cons index_while.simps [of p xs i])

lemma run_of_eqI:
  assumes "segment xs i (i + length w + 1) = w @ [c]" "i + length w < length xs"
    and "\<And>x. x \<in> set w \<Longrightarrow> p x" "\<not> p c"
  shows "index_while p xs i = i + length w" "run_of p xs i = w"
proof -
  have seg: "segment xs i (i + length w) = w" "xs ! (i + length w) = c"
    using assms(1,2) segment_snoc [of i "i + length w" xs] by auto
  have "p (xs ! k)" if "i \<le> k" "k < i + length w" for k
  proof -
    have "xs ! k = w ! (k - i)"
      using that assms(2) nth_segment [of "i + length w" xs "k - i" i] seg(1) by auto
    with that assms(3) show ?thesis by simp
  qed
  with assms seg show "index_while p xs i = i + length w"
    by (intro index_while_eqI) auto
  with seg show "run_of p xs i = w" by simp
qed

text \<open>
  A component that is a state machine promises an invariant: it holds initially and every step
  keeps it. What the clients use is that it holds in every reachable state.
\<close>

locale transition_invariant =
  fixes initial :: "'s \<Rightarrow> bool"
    and step :: "'s \<Rightarrow> 's \<Rightarrow> bool"
    and invariant :: "'s \<Rightarrow> bool"
  assumes initial_ok: "initial s \<Longrightarrow> invariant s"
    and step_ok: "invariant s \<Longrightarrow> step s t \<Longrightarrow> invariant t"
begin

lemma steps_ok: "step\<^sup>*\<^sup>* s t \<Longrightarrow> invariant s \<Longrightarrow> invariant t"
  by (induction rule: rtranclp_induct) (auto intro: step_ok)

lemma reachable_ok: "initial s \<Longrightarrow> step\<^sup>*\<^sup>* s t \<Longrightarrow> invariant t"
  by (blast intro: initial_ok steps_ok)

end

end
