(* ===== verification/Utf8_Text.thy ===== *)
theory Utf8_Text
  imports Bray_Prelude
begin

text \<open>
  Rust's \<open>str\<close>. A text is its list of UTF-8 bytes, so a \<open>string\<close> of the model is a byte
  list and every offset is a byte offset; a Rust \<open>char\<close> is its Unicode scalar value, a \<open>nat\<close>.
  The definitions model what the sources use of the standard library: the boundary test, slicing,
  \<open>chars().next()\<close>, \<open>char_indices\<close>, \<open>len_utf8\<close> and \<open>len_utf16\<close>. \<open>valid_utf8\<close> is the type
  invariant of \<open>str\<close>; the lemmas show that boundaries, decoded characters and byte lengths fit
  together on every valid text.
\<close>

abbreviation byte_val :: "char \<Rightarrow> nat" where
  "byte_val \<equiv> of_char"

definition is_scalar :: "nat \<Rightarrow> bool" where
  "is_scalar c \<longleftrightarrow> c < 0xD800 \<or> 0xDFFF < c \<and> c < 0x110000"

definition len_utf8 :: "nat \<Rightarrow> nat" where
  "len_utf8 c = (if c < 0x80 then 1 else if c < 0x800 then 2 else if c < 0x10000 then 3 else 4)"

definition len_utf16 :: "nat \<Rightarrow> nat" where
  "len_utf16 c = (if c < 0x10000 then 1 else 2)"

definition encode_utf8 :: "nat \<Rightarrow> string" where
  "encode_utf8 c =
     (if c < 0x80 then [char_of c]
      else if c < 0x800 then [char_of (192 + c div 64), char_of (128 + c mod 64)]
      else if c < 0x10000 then
        [char_of (224 + c div 4096), char_of (128 + c div 64 mod 64), char_of (128 + c mod 64)]
      else
        [char_of (240 + c div 262144), char_of (128 + c div 4096 mod 64),
         char_of (128 + c div 64 mod 64), char_of (128 + c mod 64)])"

definition is_continuation :: "char \<Rightarrow> bool" where
  "is_continuation b \<longleftrightarrow> 128 \<le> byte_val b \<and> byte_val b < 192"

definition is_char_boundary :: "string \<Rightarrow> nat \<Rightarrow> bool" where
  "is_char_boundary s i \<longleftrightarrow>
     i = 0 \<or> i = length s \<or> i < length s \<and> \<not> is_continuation (s ! i)"

text \<open>The six payload bits of the \<open>k\<close>-th byte of a character, as the decoder reads them.\<close>

definition payload :: "string \<Rightarrow> nat \<Rightarrow> nat" where
  "payload s k = (if k < length s then byte_val (s ! k) mod 64 else 0)"

definition next_char :: "string \<Rightarrow> nat option" where
  "next_char s = (case s of
     [] \<Rightarrow> None
   | x # _ \<Rightarrow>
       Some (if byte_val x < 128 then byte_val x
             else if byte_val x < 224 then byte_val x mod 32 * 64 + payload s 1
             else if byte_val x < 240 then
               byte_val x mod 16 * 4096 + payload s 1 * 64 + payload s 2
             else byte_val x mod 8 * 262144 + payload s 1 * 4096 + payload s 2 * 64 + payload s 3))"

lemma len_utf8_pos [simp]: "0 < len_utf8 c"
  by (simp add: len_utf8_def)

lemma len_utf8_le_4: "len_utf8 c \<le> 4"
  by (simp add: len_utf8_def)

function str_chars :: "string \<Rightarrow> nat list" where
  "str_chars s = (case next_char s of
     None \<Rightarrow> []
   | Some c \<Rightarrow> c # str_chars (drop (len_utf8 c) s))"
  by pat_completeness auto
termination
proof (relation "measure length", goal_cases)
  case (2 s c)
  then have "s \<noteq> []"
    by (auto simp: next_char_def split: list.splits)
  then show ?case
    by (cases s) (auto simp: len_utf8_def)
qed simp

declare str_chars.simps [simp del]

definition valid_utf8 :: "string \<Rightarrow> bool" where
  "valid_utf8 s \<longleftrightarrow> list_all is_scalar (str_chars s) \<and> concat (map encode_utf8 (str_chars s)) = s"

text \<open>\<open>&s[i..]\<close> and \<open>&s[i..j]\<close> through \<open>str::get\<close>.\<close>

definition str_get_from :: "string \<Rightarrow> nat \<Rightarrow> string option" where
  "str_get_from s i = (if is_char_boundary s i then Some (drop i s) else None)"

definition str_get_range :: "string \<Rightarrow> nat \<Rightarrow> nat \<Rightarrow> string option" where
  "str_get_range s i j =
     (if i \<le> j \<and> is_char_boundary s i \<and> is_char_boundary s j then Some (segment s i j) else None)"

lemma next_char_Nil [simp]: "next_char [] = None"
  by (simp add: next_char_def)

lemma next_char_None_iff [simp]: "next_char s = None \<longleftrightarrow> s = []"
  by (simp add: next_char_def split: list.splits)

lemma length_encode_utf8 [simp]: "length (encode_utf8 c) = len_utf8 c"
  by (simp add: encode_utf8_def len_utf8_def)

lemma encode_utf8_nonempty [simp]: "encode_utf8 c \<noteq> []"
  by (simp add: encode_utf8_def)

lemma is_scalar_bound: "is_scalar c \<Longrightarrow> c < 0x110000"
  by (auto simp: is_scalar_def)

lemma byte_val_less [simp]: "byte_val b < 256"
  by (metis of_char_mod_256 mod_less_divisor zero_less_numeral)

subsection \<open>Encoding and decoding one character\<close>

lemma encode_utf8_head:
  assumes "is_scalar c"
  shows "\<not> is_continuation (encode_utf8 c ! 0)"
    and "byte_val (encode_utf8 c ! 0) < 128 \<longleftrightarrow> c < 128"
  using is_scalar_bound [OF assms]
  by (auto simp: encode_utf8_def is_continuation_def)

lemma encode_utf8_tail:
  assumes "is_scalar c" "0 < i" "i < len_utf8 c"
  shows "is_continuation (encode_utf8 c ! i)"
proof -
  have m: "(128 + x mod 64) mod 256 = 128 + x mod 64" "128 + x mod 64 < 192" for x :: nat
    by simp_all
  from assms len_utf8_le_4 [of c] consider "i = 1" | "i = 2" | "i = 3"
    by linarith
  then show ?thesis
    using assms(3) m
    by cases (simp_all add: encode_utf8_def is_continuation_def len_utf8_def split: if_splits)
qed

lemma base64_digits:
  fixes c :: nat
  shows "c div 4096 * 4096 + c div 64 mod 64 * 64 + c mod 64 = c"
    and "c div 262144 * 262144 + c div 4096 mod 64 * 4096 + c div 64 mod 64 * 64 + c mod 64 = c"
proof -
  have d: "c div 4096 = c div 64 div 64" "c div 262144 = c div 64 div 64 div 64"
    by (simp_all flip: div_mult2_eq)
  show "c div 4096 * 4096 + c div 64 mod 64 * 64 + c mod 64 = c"
    unfolding d using div_mult_mod_eq [of c 64] div_mult_mod_eq [of "c div 64" 64] by linarith
  show "c div 262144 * 262144 + c div 4096 mod 64 * 4096 + c div 64 mod 64 * 64 + c mod 64 = c"
    unfolding d
    using div_mult_mod_eq [of c 64] div_mult_mod_eq [of "c div 64" 64]
      div_mult_mod_eq [of "c div 64 div 64" 64] by linarith
qed

lemma mod_add_small:
  fixes a k n x :: nat
  shows "x < n \<Longrightarrow> a = k * n \<Longrightarrow> (a + x) mod n = x"
  by simp

lemma payload_encoded [simp]:
  fixes x :: nat
  shows "(128 + x mod 64) mod 256 = 128 + x mod 64"
    and "(128 + x mod 64) mod 64 = x mod 64"
  using mod_add_small [of "x mod 64" 64 128 2] by simp_all

lemma next_char_encode:
  assumes "is_scalar c"
  shows "next_char (encode_utf8 c @ r) = Some c"
proof -
  have b: "c < 0x110000"
    by (rule is_scalar_bound [OF assms])
  consider "c < 0x80" | "0x80 \<le> c" "c < 0x800" | "0x800 \<le> c" "c < 0x10000" | "0x10000 \<le> c"
    by linarith
  then show ?thesis
  proof cases
    case 1
    then show ?thesis
      by (simp add: next_char_def encode_utf8_def)
  next
    case 2
    then have "c div 64 < 32" by simp
    then have "(192 + c div 64) mod 32 = c div 64"
      by (intro mod_add_small [where k = 6]) simp_all
    with 2 \<open>c div 64 < 32\<close> show ?thesis
      by (simp add: next_char_def encode_utf8_def payload_def)
  next
    case 3
    then have "c div 4096 < 16" by simp
    then have "(224 + c div 4096) mod 16 = c div 4096"
      by (intro mod_add_small [where k = 14]) simp_all
    with 3 \<open>c div 4096 < 16\<close> base64_digits(1) [of c] show ?thesis
      by (simp add: next_char_def encode_utf8_def payload_def)
  next
    case 4
    from b have "c div 262144 < 8" by simp
    then have "(240 + c div 262144) mod 8 = c div 262144"
      by (intro mod_add_small [where k = 30]) simp_all
    with 4 \<open>c div 262144 < 8\<close> base64_digits(2) [of c] show ?thesis
      by (simp add: next_char_def encode_utf8_def payload_def)
  qed
qed

lemma str_chars_Nil [simp]: "str_chars [] = []"
  by (simp add: str_chars.simps)

lemma str_chars_encode:
  "is_scalar c \<Longrightarrow> str_chars (encode_utf8 c @ r) = c # str_chars r"
  by (simp add: str_chars.simps [of "encode_utf8 c @ r"] next_char_encode)

lemma valid_utf8_Nil [simp]: "valid_utf8 []"
  by (simp add: valid_utf8_def)

lemma valid_utf8_Cons [simp]: "is_scalar c \<Longrightarrow> valid_utf8 (encode_utf8 c @ r) \<longleftrightarrow> valid_utf8 r"
  by (simp add: valid_utf8_def str_chars_encode)

text \<open>Every valid text is a sequence of encoded characters.\<close>

lemma valid_utf8_cases:
  assumes "valid_utf8 s"
  obtains "s = []" | c r where "is_scalar c" "s = encode_utf8 c @ r" "valid_utf8 r"
proof (cases "next_char s")
  case None
  then show ?thesis using that(1) by simp
next
  case (Some c)
  then have cs: "str_chars s = c # str_chars (drop (len_utf8 c) s)"
    by (simp add: str_chars.simps [of s])
  with assms have c: "is_scalar c"
    and s: "s = encode_utf8 c @ concat (map encode_utf8 (str_chars (drop (len_utf8 c) s)))"
    by (auto simp: valid_utf8_def)
  from s have "drop (len_utf8 c) s = concat (map encode_utf8 (str_chars (drop (len_utf8 c) s)))"
    by (metis append_eq_conv_conj length_encode_utf8)
  with c s assms show ?thesis
    using that(2) [OF c s] by (metis c valid_utf8_Cons)
qed

lemma valid_utf8_induct [consumes 1, case_names Nil Cons]:
  assumes "valid_utf8 s"
    and "P []"
    and "\<And>c r. is_scalar c \<Longrightarrow> valid_utf8 r \<Longrightarrow> P r \<Longrightarrow> P (encode_utf8 c @ r)"
  shows "P s"
  using assms(1)
proof (induction "length s" arbitrary: s rule: less_induct)
  case less
  from less.prems show ?case
  proof (cases rule: valid_utf8_cases)
    case (2 c r)
    then have "length r < length s" by simp
    then have "P r" using less.hyps 2 by blast
    with 2 assms(3) show ?thesis by blast
  qed (use assms(2) in simp)
qed

subsection \<open>Character boundaries of a valid text\<close>

lemma is_char_boundary_0 [simp]: "is_char_boundary s 0"
  and is_char_boundary_length [simp]: "is_char_boundary s (length s)"
  by (simp_all add: is_char_boundary_def)

lemma is_char_boundary_le: "is_char_boundary s i \<Longrightarrow> i \<le> length s"
  by (auto simp: is_char_boundary_def)

lemma valid_head_not_continuation:
  "valid_utf8 s \<Longrightarrow> s \<noteq> [] \<Longrightarrow> \<not> is_continuation (s ! 0)"
  by (erule valid_utf8_cases) (auto simp: nth_append encode_utf8_head)

lemma boundary_append:
  assumes "is_scalar c" "valid_utf8 r" "is_char_boundary (encode_utf8 c @ r) i" "i \<noteq> 0"
  shows "len_utf8 c \<le> i \<and> is_char_boundary r (i - len_utf8 c)"
proof -
  have "len_utf8 c \<le> i"
  proof (rule ccontr)
    assume "\<not> len_utf8 c \<le> i"
    then have i: "i < len_utf8 c" by simp
    then have "is_continuation ((encode_utf8 c @ r) ! i)"
      using assms by (simp add: nth_append encode_utf8_tail)
    with i assms(3,4) show False
      by (simp add: is_char_boundary_def)
  qed
  with assms(3) show ?thesis
    by (auto simp: is_char_boundary_def nth_append)
qed

text \<open>A valid text splits at a boundary into two valid texts.\<close>

lemma valid_split:
  assumes "valid_utf8 s" "is_char_boundary s i"
  shows "valid_utf8 (take i s)" and "valid_utf8 (drop i s)"
proof -
  have "valid_utf8 (take i s) \<and> valid_utf8 (drop i s)"
    using assms
  proof (induction s arbitrary: i rule: valid_utf8_induct)
    case (Cons c r)
    show ?case
    proof (cases "i = 0")
      case False
      with Cons boundary_append [OF Cons.hyps Cons.prems] show ?thesis
        by simp
    qed (use Cons in simp)
  qed simp
  then show "valid_utf8 (take i s)" "valid_utf8 (drop i s)" by auto
qed

lemma valid_utf8_append: "valid_utf8 s \<Longrightarrow> valid_utf8 t \<Longrightarrow> valid_utf8 (s @ t)"
  by (induction s rule: valid_utf8_induct) simp_all

lemma boundary_drop:
  assumes "valid_utf8 s" "is_char_boundary s i" "is_char_boundary (drop i s) k"
  shows "is_char_boundary s (i + k)"
proof (cases "k = 0 \<or> k = length (drop i s)")
  case True
  with assms is_char_boundary_le [OF assms(2)] show ?thesis
    by (auto simp: is_char_boundary_def)
next
  case False
  with assms(3) is_char_boundary_le [OF assms(2)] show ?thesis
    by (auto simp: is_char_boundary_def)
qed

lemma segment_valid:
  assumes "valid_utf8 s" "is_char_boundary s i" "is_char_boundary s j" "i \<le> j"
  shows "valid_utf8 (segment s i j)"
proof (cases "i = j")
  case False
  have "is_char_boundary (drop i s) (j - i)"
    using assms False by (auto simp: is_char_boundary_def)
  with assms show ?thesis
    unfolding segment_def by (intro valid_split(1) [OF valid_split(2)])
qed simp

text \<open>
  Decoding at a boundary: the character, that its bytes are its encoding, and that the offset
  after it is a boundary again.
\<close>

lemma boundary_char:
  assumes "valid_utf8 s" "is_char_boundary s i" "i < length s"
  obtains c where "is_scalar c" "next_char (drop i s) = Some c"
    "segment s i (i + len_utf8 c) = encode_utf8 c"
    "i + len_utf8 c \<le> length s" "is_char_boundary s (i + len_utf8 c)"
    "byte_val (s ! i) < 128 \<longleftrightarrow> c < 128" "c < 128 \<longrightarrow> c = byte_val (s ! i)"
proof -
  have v: "valid_utf8 (drop i s)"
    by (rule valid_split(2) [OF assms(1,2)])
  with assms(3) obtain c r where c: "is_scalar c" "drop i s = encode_utf8 c @ r" "valid_utf8 r"
    by (auto elim: valid_utf8_cases)
  have n: "next_char (drop i s) = Some c"
    by (simp add: c next_char_encode)
  have l: "i + len_utf8 c \<le> length s"
  proof -
    have "len_utf8 c \<le> length (drop i s)" by (simp add: c(2))
    with assms(3) show ?thesis by simp
  qed
  have s: "segment s i (i + len_utf8 c) = encode_utf8 c"
    by (simp add: segment_def c(2))
  have hd: "s ! i = encode_utf8 c ! 0"
  proof -
    have "s ! i = drop i s ! 0" using assms(3) by simp
    then show ?thesis by (simp add: c(2) nth_append)
  qed
  have "is_char_boundary (drop i s) (len_utf8 c)"
    using valid_head_not_continuation [OF c(3)] by (auto simp: c(2) is_char_boundary_def nth_append)
  then have b: "is_char_boundary s (i + len_utf8 c)"
    by (rule boundary_drop [OF assms(1,2)])
  have h1: "byte_val (s ! i) < 128 \<longleftrightarrow> c < 128"
    unfolding hd by (rule encode_utf8_head(2) [OF c(1)])
  have h2: "c < 128 \<longrightarrow> c = byte_val (s ! i)"
    by (simp add: hd encode_utf8_def)
  show ?thesis
    by (rule that [OF c(1) n s l b h1 h2])
qed

lemma ascii_boundary: "i < length s \<Longrightarrow> byte_val (s ! i) < 128 \<Longrightarrow> is_char_boundary s i"
  by (simp add: is_char_boundary_def is_continuation_def)

lemma ascii_next_boundary:
  assumes "valid_utf8 s" "i < length s" "byte_val (s ! i) < 128"
  shows "is_char_boundary s (Suc i)"
proof -
  have b: "is_char_boundary s i" by (rule ascii_boundary [OF assms(2,3)])
  obtain c where "is_char_boundary s (i + len_utf8 c)" "byte_val (s ! i) < 128 \<longleftrightarrow> c < 128"
    by (rule boundary_char [OF assms(1) b assms(2)])
  with assms(3) show ?thesis by (simp add: len_utf8_def)
qed

lemma next_char_ascii:
  "i < length s \<Longrightarrow> byte_val (s ! i) < 128 \<Longrightarrow> next_char (drop i s) = Some (byte_val (s ! i))"
  by (simp add: next_char_def flip: Cons_nth_drop_Suc)

lemma valid_utf8_ascii: "list_all (\<lambda>b. byte_val b < 128) s \<Longrightarrow> valid_utf8 s"
proof (induction s)
  case (Cons b s)
  then have "encode_utf8 (byte_val b) = [b]" "is_scalar (byte_val b)"
    by (auto simp: encode_utf8_def is_scalar_def)
  with Cons show ?case
    using valid_utf8_Cons [of "byte_val b" s] by simp
qed simp

end
