(* ===== verification/Source_Text.thy ===== *)
theory Source_Text
  imports Utf8_Text "HOL-Library.Word"
begin

text \<open>
  The source text layer (\<open>crates/bray-source\<close>): compact byte offsets and ranges (\<open>text.rs\<close>),
  source identities and origins (\<open>id.rs\<close>, \<open>identity.rs\<close>, \<open>origin.rs\<close>), immutable
  snapshots with their checksum (\<open>snapshot.rs\<close>), and edits (\<open>edit.rs\<close>). A \<open>TextSize\<close> is a
  \<open>nat\<close> that never exceeds \<open>u32_max\<close>: every constructor that could leave the width checks it.
  The lemmas give the order structure of ranges, what an edit does to a snapshot on every branch,
  and that the checksum tells apart texts that differ in one byte.
\<close>

unbundle bit_operations_syntax

subsection \<open>Byte offsets\<close>

type_synonym text_size = nat

datatype text_size_overflow = TextSizeOverflow nat

definition text_size_try_from :: "nat \<Rightarrow> text_size_overflow + text_size" where
  "text_size_try_from bytes = (if bytes \<le> u32_max then Inr bytes else Inl (TextSizeOverflow bytes))"

definition text_size_checked_add :: "text_size \<Rightarrow> text_size \<Rightarrow> text_size option" where
  "text_size_checked_add a b = (if a + b \<le> u32_max then Some (a + b) else None)"

subsection \<open>Half-open byte ranges\<close>

record text_range =
  tr_start :: text_size
  tr_end :: text_size

definition text_range_new :: "text_size \<Rightarrow> text_size \<Rightarrow> text_range run" where
  "text_range_new s e = do { assert_run (s \<le> e); Some \<lparr>tr_start = s, tr_end = e\<rparr> }"

definition text_range_try_new :: "text_size \<Rightarrow> text_size \<Rightarrow> text_range option" where
  "text_range_try_new s e = (if s \<le> e then Some \<lparr>tr_start = s, tr_end = e\<rparr> else None)"

definition text_range_empty :: "text_size \<Rightarrow> text_range" where
  "text_range_empty offset = \<lparr>tr_start = offset, tr_end = offset\<rparr>"

definition text_range_with_len :: "text_size \<Rightarrow> text_size \<Rightarrow> text_range option" where
  "text_range_with_len s n = (case text_size_checked_add s n of
     Some e \<Rightarrow> Some \<lparr>tr_start = s, tr_end = e\<rparr>
   | None \<Rightarrow> None)"

definition text_range_len :: "text_range \<Rightarrow> text_size run" where
  "text_range_len r = (if tr_start r \<le> tr_end r then Some (tr_end r - tr_start r) else panic)"

definition text_range_is_empty :: "text_range \<Rightarrow> bool" where
  "text_range_is_empty r \<longleftrightarrow> tr_start r = tr_end r"

definition text_range_slice_str :: "text_range \<Rightarrow> string \<Rightarrow> string option" where
  "text_range_slice_str r t = str_get_range t (tr_start r) (tr_end r)"

definition text_range_slice_bytes :: "text_range \<Rightarrow> string \<Rightarrow> string option" where
  "text_range_slice_bytes r b =
     (if tr_start r \<le> tr_end r \<and> tr_end r \<le> length b then Some (segment b (tr_start r) (tr_end r))
      else None)"

definition text_range_contains :: "text_range \<Rightarrow> text_size \<Rightarrow> bool" where
  "text_range_contains r offset \<longleftrightarrow> tr_start r \<le> offset \<and> offset < tr_end r"

definition text_range_contains_range :: "text_range \<Rightarrow> text_range \<Rightarrow> bool" where
  "text_range_contains_range r q \<longleftrightarrow> tr_start r \<le> tr_start q \<and> tr_end q \<le> tr_end r"

definition text_range_cover :: "text_range \<Rightarrow> text_range \<Rightarrow> text_range" where
  "text_range_cover r q =
     (let s = (if tr_start r \<le> tr_start q then tr_start r else tr_start q);
          e = (if tr_end q \<le> tr_end r then tr_end r else tr_end q)
      in \<lparr>tr_start = s, tr_end = e\<rparr>)"

definition text_range_wf :: "text_range \<Rightarrow> bool" where
  "text_range_wf r \<longleftrightarrow> tr_start r \<le> tr_end r \<and> tr_end r \<le> u32_max"

subsection \<open>Snapshots\<close>

type_synonym source_id = nat
type_synonym source_identity = nat
type_synonym source_version = nat

datatype source_origin =
    FileOrigin string
  | VirtualOrigin string
  | GeneratedOrigin string
  | LspDocumentOrigin string
  | TestFixtureOrigin string
  | StdinOrigin

type_synonym checksum = "64 word"

definition fnv_offset_basis :: checksum where
  "fnv_offset_basis = 0xcbf29ce484222325"

definition fnv_prime :: checksum where
  "fnv_prime = 0x00000100000001b3"

definition checksum_step :: "char \<Rightarrow> checksum \<Rightarrow> checksum" where
  "checksum_step b h = (h XOR word_of_nat (byte_val b)) * fnv_prime"

definition checksum_for_bytes :: "string \<Rightarrow> checksum" where
  "checksum_for_bytes bs = fold checksum_step bs fnv_offset_basis"

record source_snapshot =
  snap_source_id :: source_id
  snap_identity :: source_identity
  snap_origin :: source_origin
  snap_version :: source_version
  snap_checksum :: checksum
  snap_text_len :: text_size
  snap_text :: string

definition snapshot_new ::
    "source_id \<Rightarrow> source_identity \<Rightarrow> source_origin \<Rightarrow> source_version \<Rightarrow> string
     \<Rightarrow> text_size_overflow + source_snapshot" where
  "snapshot_new sid ident org ver t = (case text_size_try_from (length t) of
     Inl e \<Rightarrow> Inl e
   | Inr n \<Rightarrow> Inr \<lparr>snap_source_id = sid, snap_identity = ident, snap_origin = org,
       snap_version = ver, snap_checksum = checksum_for_bytes t, snap_text_len = n,
       snap_text = t\<rparr>)"

definition snapshot_text_slice :: "source_snapshot \<Rightarrow> text_range \<Rightarrow> string option" where
  "snapshot_text_slice s r = text_range_slice_str r (snap_text s)"

definition snapshot_full_range :: "source_snapshot \<Rightarrow> text_range run" where
  "snapshot_full_range s = text_range_new 0 (snap_text_len s)"

text \<open>
  The invariant of a snapshot: its text is UTF-8, fits the compact offsets, and the cached length
  and checksum belong to it.
\<close>

definition snapshot_wf :: "source_snapshot \<Rightarrow> bool" where
  "snapshot_wf s \<longleftrightarrow> valid_utf8 (snap_text s) \<and> snap_text_len s = length (snap_text s)
     \<and> length (snap_text s) \<le> u32_max \<and> snap_checksum s = checksum_for_bytes (snap_text s)"

subsection \<open>Edits\<close>

record source_edit =
  edit_range :: text_range
  edit_replacement :: string

datatype source_edit_error =
    RangeOutOfBounds text_range text_size
  | InvalidUtf8Boundary text_range
  | TextTooLarge text_size_overflow

text \<open>
  \<open>String::len\<close> never exceeds \<open>usize_max\<close>, the width of the host's \<open>usize\<close>; the edited length is
  computed with \<open>checked_sub\<close> and \<open>checked_add\<close> at that width.
\<close>

definition apply_edit ::
    "nat \<Rightarrow> source_snapshot \<Rightarrow> source_id \<Rightarrow> source_version \<Rightarrow> source_edit
     \<Rightarrow> source_edit_error + source_snapshot" where
  "apply_edit usize_max s sid ver edit =
     (let r = edit_range edit; t = snap_text s in
      if snap_text_len s < tr_end r then Inl (RangeOutOfBounds r (snap_text_len s))
      else case str_get_range t 0 (tr_start r) of
        None \<Rightarrow> Inl (InvalidUtf8Boundary r)
      | Some prefix \<Rightarrow>
          (case str_get_from t (tr_end r) of
             None \<Rightarrow> Inl (InvalidUtf8Boundary r)
           | Some suffix \<Rightarrow>
               (if length t < tr_end r - tr_start r
                   \<or> usize_max < length t - (tr_end r - tr_start r) + length (edit_replacement edit)
                then Inl (TextTooLarge (TextSizeOverflow usize_max))
                else case snapshot_new sid (snap_identity s) (snap_origin s) ver
                       (prefix @ edit_replacement edit @ suffix) of
                       Inl e \<Rightarrow> Inl (TextTooLarge e)
                     | Inr s' \<Rightarrow> Inr s')))"

subsection \<open>Ranges form a lattice of intervals\<close>

lemma text_range_wf_new: "text_range_new s e = Some r \<Longrightarrow> e \<le> u32_max \<Longrightarrow> text_range_wf r"
  by (auto simp: text_range_new_def text_range_wf_def run_simps)

lemma text_range_wf_try_new: "text_range_try_new s e = Some r \<Longrightarrow> e \<le> u32_max \<Longrightarrow> text_range_wf r"
  by (auto simp: text_range_try_new_def text_range_wf_def split: if_splits)

lemma text_range_wf_with_len: "text_range_with_len s n = Some r \<Longrightarrow> text_range_wf r"
  by (auto simp: text_range_with_len_def text_size_checked_add_def text_range_wf_def
      split: if_splits)

lemma text_range_wf_cover:
  "text_range_wf r \<Longrightarrow> text_range_wf q \<Longrightarrow> text_range_wf (text_range_cover r q)"
  by (auto simp: text_range_cover_def text_range_wf_def Let_def)

lemma text_range_cover_upper:
  "text_range_contains_range (text_range_cover r q) r"
  "text_range_contains_range (text_range_cover r q) q"
  by (auto simp: text_range_cover_def text_range_contains_range_def Let_def)

lemma text_range_cover_least:
  "text_range_contains_range b r \<Longrightarrow> text_range_contains_range b q
   \<Longrightarrow> text_range_contains_range b (text_range_cover r q)"
  by (auto simp: text_range_cover_def text_range_contains_range_def Let_def)

lemma text_range_new_simps [simp, run_simps]:
  "text_range_new s e = Some r \<longleftrightarrow> s \<le> e \<and> r = \<lparr>tr_start = s, tr_end = e\<rparr>"
  by (auto simp: text_range_new_def run_simps)

text \<open>
  The cover of two ranges is their least upper bound under containment: the ranges that contain
  both are exactly the ranges that contain the cover.
\<close>

theorem cover_is_least_upper_bound:
  "text_range_contains_range b r \<and> text_range_contains_range b q
   \<longleftrightarrow> text_range_contains_range b (text_range_cover r q)"
  by (auto simp: text_range_cover_def text_range_contains_range_def Let_def)

subsection \<open>The checksum\<close>

lemma fnv_prime_invertible: "fnv_prime * 14886173955864302971 = 1"
  by (simp add: fnv_prime_def)

lemma checksum_step_inj: "checksum_step b h = checksum_step b h' \<Longrightarrow> h = h'"
proof -
  assume "checksum_step b h = checksum_step b h'"
  then have "(h XOR word_of_nat (byte_val b)) * (fnv_prime * 14886173955864302971)
      = (h' XOR word_of_nat (byte_val b)) * (fnv_prime * 14886173955864302971)"
    by (simp only: checksum_step_def mult.assoc [symmetric])
  then have "h XOR word_of_nat (byte_val b) = h' XOR word_of_nat (byte_val b)"
    by (simp only: fnv_prime_invertible mult_1_right)
  then have "(h XOR word_of_nat (byte_val b)) XOR word_of_nat (byte_val b)
      = (h' XOR word_of_nat (byte_val b)) XOR word_of_nat (byte_val b)"
    by simp
  then show ?thesis by (simp only: xor.assoc xor_self_eq xor.right_neutral)
qed

lemma checksum_step_byte_inj: "checksum_step b h = checksum_step b' h \<Longrightarrow> b = b'"
proof -
  assume "checksum_step b h = checksum_step b' h"
  then have "(h XOR word_of_nat (byte_val b)) * (fnv_prime * 14886173955864302971)
      = (h XOR word_of_nat (byte_val b')) * (fnv_prime * 14886173955864302971)"
    by (simp only: checksum_step_def mult.assoc [symmetric])
  then have "h XOR word_of_nat (byte_val b) = h XOR word_of_nat (byte_val b')"
    by (simp only: fnv_prime_invertible mult_1_right)
  then have "h XOR (h XOR word_of_nat (byte_val b)) = h XOR (h XOR word_of_nat (byte_val b'))"
    by simp
  then have eq: "(word_of_nat (byte_val b) :: checksum) = word_of_nat (byte_val b')"
    by (simp only: xor.assoc [symmetric] xor_self_eq xor.left_neutral)
  have "unat (word_of_nat (byte_val c) :: checksum) = byte_val c" for c
  proof -
    have "byte_val c < 18446744073709551616" using byte_val_less [of c] by linarith
    then show ?thesis by (simp add: unat_of_nat)
  qed
  from this [of b] this [of b'] eq show ?thesis
    by (metis of_char_eq_iff)
qed

lemma checksum_fold_inj: "fold checksum_step bs h = fold checksum_step bs h' \<Longrightarrow> h = h'"
  by (induction bs arbitrary: h h') (auto dest: checksum_step_inj)

text \<open>
  Replacing one byte of a text by a different one always changes the checksum that the
  incremental source cache compares.
\<close>

theorem checksum_detects_byte_change:
  assumes "a \<noteq> b"
  shows "checksum_for_bytes (p @ a # q) \<noteq> checksum_for_bytes (p @ b # q)"
  using assms checksum_fold_inj checksum_step_byte_inj
  by (fastforce simp: checksum_for_bytes_def)

theorem checksum_detects_byte_change_witness:
  "checksum_for_bytes (''mod'' @ CHR ''u'' # ''le'') \<noteq> checksum_for_bytes (''mod'' @ CHR ''e'' # ''le'')"
  by (rule checksum_detects_byte_change) simp

subsection \<open>Edits\<close>

lemma snapshot_new_wf:
  "valid_utf8 t \<Longrightarrow> snapshot_new sid i org v t = Inr s \<Longrightarrow> snapshot_wf s"
  by (auto simp: snapshot_new_def snapshot_wf_def text_size_try_from_def split: if_splits)

lemma apply_edit_cases:
  assumes "snapshot_wf s" "tr_start (edit_range e) \<le> tr_end (edit_range e)" "u32_max \<le> m"
  shows "apply_edit m s sid v e =
     (let r = edit_range e; t = snap_text s;
          t' = take (tr_start r) t @ edit_replacement e @ drop (tr_end r) t in
      if length t < tr_end r then Inl (RangeOutOfBounds r (length t))
      else if \<not> is_char_boundary t (tr_start r) \<or> \<not> is_char_boundary t (tr_end r)
        then Inl (InvalidUtf8Boundary r)
      else if m < length t' then Inl (TextTooLarge (TextSizeOverflow m))
      else if u32_max < length t' then Inl (TextTooLarge (TextSizeOverflow (length t')))
      else Inr \<lparr>snap_source_id = sid, snap_identity = snap_identity s, snap_origin = snap_origin s,
        snap_version = v, snap_checksum = checksum_for_bytes t', snap_text_len = length t',
        snap_text = t'\<rparr>)"
proof -
  let ?r = "edit_range e" and ?t = "snap_text s"
  have len: "length ?t - (tr_end ?r - tr_start ?r) + length (edit_replacement e)
      = length (take (tr_start ?r) ?t @ edit_replacement e @ drop (tr_end ?r) ?t)"
    if "tr_end ?r \<le> length ?t"
    using that assms(2) by simp
  show ?thesis
    using assms len
    by (auto simp: apply_edit_def snapshot_wf_def str_get_range_def str_get_from_def segment_def
        snapshot_new_def text_size_try_from_def Let_def)
qed

lemma apply_edit_wf:
  assumes "snapshot_wf s" "valid_utf8 (edit_replacement e)"
    and "tr_start (edit_range e) \<le> tr_end (edit_range e)" "u32_max \<le> m"
    and "apply_edit m s sid v e = Inr s'"
  shows "snapshot_wf s'"
proof -
  have t: "valid_utf8 (snap_text s)" using assms(1) by (simp add: snapshot_wf_def)
  from assms(5) apply_edit_cases [OF assms(1,3,4), of sid v]
  have b: "is_char_boundary (snap_text s) (tr_start (edit_range e))"
    "is_char_boundary (snap_text s) (tr_end (edit_range e))"
    by (auto simp: Let_def split: if_splits)
  have "valid_utf8 (take (tr_start (edit_range e)) (snap_text s) @ edit_replacement e
      @ drop (tr_end (edit_range e)) (snap_text s))"
    by (intro valid_utf8_append valid_split t b assms(2))
  with assms(5) apply_edit_cases [OF assms(1,3,4), of sid v] show ?thesis
    by (auto simp: Let_def snapshot_wf_def split: if_splits)
qed



end
