(* ===== verification/Line_Index.thy ===== *)
theory Line_Index
  imports Source_Text
begin

text \<open>
  Line breaks (\<open>crates/bray-source/src/newline.rs\<close>) and the line index that maps byte offsets to
  editor positions and back (\<open>crates/bray-source/src/line_index.rs\<close>). The index is built by one
  pass over the characters of the text; the queries search sorted tables. The invariant
  \<open>lines_wf\<close> of the tables holds for every index that \<open>line_index_new\<close> builds, and the two
  conversions between offsets and LSP positions are inverse to each other.
\<close>

subsection \<open>Line breaks\<close>

abbreviation CR :: nat where "CR \<equiv> 13"
abbreviation LF :: nat where "LF \<equiv> 10"

datatype source_line_break_kind = LineFeed | CarriageReturnLineFeed

definition byte_len :: "source_line_break_kind \<Rightarrow> nat" where
  "byte_len k = (case k of LineFeed \<Rightarrow> 1 | CarriageReturnLineFeed \<Rightarrow> 2)"

definition line_break_kind :: "nat \<Rightarrow> nat option \<Rightarrow> source_line_break_kind option" where
  "line_break_kind c next_c =
     (if c = CR \<and> next_c = Some LF then Some CarriageReturnLineFeed
      else if c = LF then Some LineFeed
      else None)"

record indexed_line_break =
  lb_byte_len :: nat
  lb_consumes_next :: bool

definition source_line_break :: "nat \<Rightarrow> nat option \<Rightarrow> indexed_line_break option" where
  "source_line_break c next_c =
     (if c = CR \<and> next_c \<noteq> Some LF then Some \<lparr>lb_byte_len = 1, lb_consumes_next = False\<rparr>
      else case line_break_kind c next_c of
        None \<Rightarrow> None
      | Some k \<Rightarrow> Some \<lparr>lb_byte_len = byte_len k,
                        lb_consumes_next = (k = CarriageReturnLineFeed)\<rparr>)"

subsection \<open>The tables of one line\<close>

record line_metrics =
  lm_start :: text_size
  lm_end :: text_size
  character_offsets :: "text_size list"
  utf16_columns :: "nat list"
  utf16_len :: nat

definition line_metrics_new :: "text_size \<Rightarrow> line_metrics" where
  "line_metrics_new s =
     \<lparr>lm_start = s, lm_end = s, character_offsets = [], utf16_columns = [], utf16_len = 0\<rparr>"

definition push_character :: "line_metrics \<Rightarrow> text_size \<Rightarrow> nat \<Rightarrow> line_metrics" where
  "push_character m offset c =
     m\<lparr>character_offsets := character_offsets m @ [offset],
       utf16_columns := utf16_columns m @ [utf16_len m],
       utf16_len := utf16_len m + (if len_utf16 c = 1 then 1 else 2)\<rparr>"

subsection \<open>Building the index\<close>

text \<open>\<open>str::char_indices\<close>: every character with the byte offset it starts at.\<close>

fun indices_from :: "nat \<Rightarrow> nat list \<Rightarrow> (nat \<times> nat) list" where
  "indices_from i [] = []"
| "indices_from i (c # cs) = (i, c) # indices_from (i + len_utf8 c) cs"

definition char_indices :: "string \<Rightarrow> (nat \<times> nat) list" where
  "char_indices t = indices_from 0 (str_chars t)"

definition peek_character :: "(nat \<times> nat) list \<Rightarrow> nat option" where
  "peek_character cs = (case cs of [] \<Rightarrow> None | (_, c) # _ \<Rightarrow> Some c)"

function index_lines ::
    "line_metrics \<Rightarrow> line_metrics list \<Rightarrow> (nat \<times> nat) list
     \<Rightarrow> text_size_overflow + (line_metrics list \<times> line_metrics)" where
  "index_lines current lines [] = Inr (lines, current)"
| "index_lines current lines ((byte_index, c) # rest) =
     (case text_size_try_from byte_index of
        Inl e \<Rightarrow> Inl e
      | Inr offset \<Rightarrow>
          (case source_line_break c (peek_character rest) of
             Some lb \<Rightarrow>
               (let lines' = lines @ [current\<lparr>lm_end := offset\<rparr>];
                    rest' = (if lb_consumes_next lb then drop 1 rest else rest)
                in case text_size_try_from (byte_index + lb_byte_len lb) of
                     Inl e \<Rightarrow> Inl e
                   | Inr next_start \<Rightarrow> index_lines (line_metrics_new next_start) lines' rest')
           | None \<Rightarrow> index_lines (push_character current offset c) lines rest))"
  by pat_completeness auto
termination
  by (relation "measure (\<lambda>(_, _, cs). length cs)") auto

record line_index =
  li_text_len :: text_size
  li_lines :: "line_metrics list"

definition line_index_new :: "string \<Rightarrow> text_size_overflow + line_index" where
  "line_index_new t = (case text_size_try_from (length t) of
     Inl e \<Rightarrow> Inl e
   | Inr n \<Rightarrow>
       (case index_lines (line_metrics_new 0) [] (char_indices t) of
          Inl e \<Rightarrow> Inl e
        | Inr (lines, current) \<Rightarrow>
            Inr \<lparr>li_text_len = n, li_lines = lines @ [current\<lparr>lm_end := n\<rparr>]\<rparr>))"

subsection \<open>Queries\<close>

record line_column =
  lc_line :: nat
  lc_column :: nat

record lsp_position =
  lsp_line :: nat
  lsp_character :: nat

record resolved_position =
  rp_line_column :: line_column
  rp_lsp_position :: lsp_position

definition line_column_new :: "nat \<Rightarrow> nat \<Rightarrow> line_column run" where
  "line_column_new line column = do {
     assert_run (0 < line);
     assert_run (0 < column);
     Some \<lparr>lc_line = line, lc_column = column\<rparr>
   }"

text \<open>
  \<open>slice::binary_search\<close> on a strictly increasing slice: the position of the element, or the
  position where inserting it keeps the order.
\<close>

datatype search_result = Found nat | Insertion nat

definition binary_search :: "nat list \<Rightarrow> nat \<Rightarrow> search_result" where
  "binary_search xs x =
     (let i = length (takeWhile (\<lambda>y. y < x) xs)
      in if i < length xs \<and> xs ! i = x then Found i else Insertion i)"

definition checked_succ_u32 :: "nat \<Rightarrow> nat option" where
  "checked_succ_u32 n = (if n + 1 \<le> u32_max then Some (n + 1) else None)"

definition line_position :: "line_metrics \<Rightarrow> text_size \<Rightarrow> nat \<Rightarrow> resolved_position option run" where
  "line_position m offset line_number =
     (if offset < lm_start m \<or> lm_end m < offset then Some None
      else
        case (case binary_search (character_offsets m) offset of
                Found i \<Rightarrow> Some i
              | Insertion i \<Rightarrow> (if offset = lm_end m then Some i else None)) of
          None \<Rightarrow> Some None
        | Some i \<Rightarrow>
            (if u32_max < i then Some None
             else case (checked_succ_u32 line_number, checked_succ_u32 i) of
                 (Some line, Some column) \<Rightarrow> do {
                   lc \<leftarrow> line_column_new line column;
                   let utf16_column = (case get (utf16_columns m) i of
                                         Some c \<Rightarrow> c
                                       | None \<Rightarrow> utf16_len m);
                   Some (Some \<lparr>rp_line_column = lc,
                     rp_lsp_position = \<lparr>lsp_line = line_number, lsp_character = utf16_column\<rparr>\<rparr>)
                 }
               | _ \<Rightarrow> Some None))"

definition offset_for_lsp_character :: "line_metrics \<Rightarrow> nat \<Rightarrow> text_size option" where
  "offset_for_lsp_character m c = (case binary_search (utf16_columns m) c of
     Found i \<Rightarrow> get (character_offsets m) i
   | Insertion i \<Rightarrow>
       (if i = length (utf16_columns m) \<and> c = utf16_len m then Some (lm_end m) else None))"

definition line_index_for_offset :: "line_index \<Rightarrow> text_size \<Rightarrow> nat option" where
  "line_index_for_offset idx offset = (case binary_search (map lm_start (li_lines idx)) offset of
     Found i \<Rightarrow> Some i
   | Insertion i \<Rightarrow> (if i = 0 then None else Some (i - 1)))"

definition index_position :: "line_index \<Rightarrow> text_size \<Rightarrow> resolved_position option run" where
  "index_position idx offset =
     (if li_text_len idx < offset then Some None
      else case line_index_for_offset idx offset of
        None \<Rightarrow> Some None
      | Some i \<Rightarrow>
          (case get (li_lines idx) i of
             None \<Rightarrow> Some None
           | Some m \<Rightarrow> (if u32_max < i then Some None else line_position m offset i)))"

definition line_start :: "line_index \<Rightarrow> nat \<Rightarrow> text_size option" where
  "line_start idx line = map_option lm_start (get (li_lines idx) line)"

definition index_line_column :: "line_index \<Rightarrow> text_size \<Rightarrow> line_column option run" where
  "index_line_column idx offset = map_option (map_option rp_line_column) (index_position idx offset)"

definition index_lsp_position :: "line_index \<Rightarrow> text_size \<Rightarrow> lsp_position option run" where
  "index_lsp_position idx offset = map_option (map_option rp_lsp_position) (index_position idx offset)"

definition offset_for_lsp_position :: "line_index \<Rightarrow> lsp_position \<Rightarrow> text_size option" where
  "offset_for_lsp_position idx p = (case get (li_lines idx) (lsp_line p) of
     None \<Rightarrow> None
   | Some m \<Rightarrow> offset_for_lsp_character m (lsp_character p))"

text \<open>The derived order of \<open>LspPosition\<close>: lines first, then characters.\<close>

definition lsp_less :: "lsp_position \<Rightarrow> lsp_position \<Rightarrow> bool" where
  "lsp_less p q \<longleftrightarrow> lsp_line p < lsp_line q
     \<or> lsp_line p = lsp_line q \<and> lsp_character p < lsp_character q"

definition text_range_for_lsp_range ::
    "line_index \<Rightarrow> lsp_position \<Rightarrow> lsp_position \<Rightarrow> text_range option" where
  "text_range_for_lsp_range idx p q =
     (if lsp_less q p then None
      else do {
        s \<leftarrow> offset_for_lsp_position idx p;
        e \<leftarrow> offset_for_lsp_position idx q;
        text_range_try_new s e
      })"

subsection \<open>Searching strictly increasing tables\<close>

lemma takeWhile_less_sorted:
  "sorted_wrt (<) (xs :: nat list) \<Longrightarrow> i < length xs
   \<Longrightarrow> length (takeWhile (\<lambda>y. y < xs ! i) xs) = i"
proof (induction xs arbitrary: i)
  case (Cons x xs)
  show ?case
  proof (cases i)
    case (Suc j)
    with Cons.prems have "x < xs ! j" by simp
    with Suc Cons show ?thesis by simp
  qed simp
qed simp

lemma binary_search_nth:
  "sorted_wrt (<) xs \<Longrightarrow> i < length xs \<Longrightarrow> binary_search xs (xs ! i) = Found i"
  by (simp add: binary_search_def takeWhile_less_sorted)

lemma binary_search_Found: "binary_search xs x = Found i \<Longrightarrow> i < length xs \<and> xs ! i = x"
  by (auto simp: binary_search_def Let_def split: if_splits)

lemma binary_search_above:
  "\<forall>y \<in> set xs. y < x \<Longrightarrow> binary_search xs x = Insertion (length xs)"
  by (simp add: binary_search_def takeWhile_eq_all_conv [THEN iffD2] Let_def)

lemma binary_search_Insertion:
  assumes "binary_search xs x = Insertion i" "sorted_wrt (<) xs"
  shows "i \<le> length xs \<and> (\<forall>j < i. xs ! j < x) \<and> (\<forall>j. i \<le> j \<longrightarrow> j < length xs \<longrightarrow> x < xs ! j)"
proof -
  let ?n = "length (takeWhile (\<lambda>y. y < x) xs)"
  have i: "i = ?n" "\<not> (?n < length xs \<and> xs ! ?n = x)"
    using assms(1) by (auto simp: binary_search_def Let_def split: if_splits)
  have below: "xs ! j < x" if "j < ?n" for j
    using that by (metis nth_mem set_takeWhileD takeWhile_nth)
  have above: "x < xs ! j" if "?n \<le> j" "j < length xs" for j
  proof -
    have "\<not> xs ! ?n < x"
      using that nth_length_takeWhile [of "\<lambda>y. y < x" xs] by simp
    moreover have "xs ! ?n \<noteq> x" using that i(2) by auto
    moreover have "xs ! ?n \<le> xs ! j"
      using that assms(2) by (cases "?n = j") (auto simp: sorted_wrt_iff_nth_less less_imp_le)
    ultimately show ?thesis by simp
  qed
  from i below above show ?thesis
    by (auto simp: length_takeWhile_le)
qed

subsection \<open>The invariant of the tables\<close>

definition metrics_upto :: "line_metrics \<Rightarrow> nat \<Rightarrow> bool" where
  "metrics_upto m p \<longleftrightarrow> lm_start m \<le> p
     \<and> length (character_offsets m) = length (utf16_columns m)
     \<and> sorted_wrt (<) (character_offsets m) \<and> sorted_wrt (<) (utf16_columns m)
     \<and> (\<forall>x \<in> set (character_offsets m). lm_start m \<le> x \<and> x < p)
     \<and> (\<forall>c \<in> set (utf16_columns m). c < utf16_len m)
     \<and> utf16_len m \<le> p - lm_start m
     \<and> length (character_offsets m) \<le> p - lm_start m"

definition lines_wf :: "line_metrics list \<Rightarrow> bool" where
  "lines_wf ls \<longleftrightarrow> (\<forall>m \<in> set ls. metrics_upto m (lm_end m))
     \<and> sorted_wrt (\<lambda>a b. lm_end a < lm_start b) ls"

lemma metrics_upto_new [simp]: "metrics_upto (line_metrics_new p) p"
  by (simp add: metrics_upto_def line_metrics_new_def)

lemma len_utf16_le_utf8: "(if len_utf16 c = 1 then 1 else 2) \<le> len_utf8 c"
  by (simp add: len_utf16_def len_utf8_def)

lemma metrics_upto_push:
  assumes "metrics_upto m p"
  shows "metrics_upto (push_character m p c) (p + len_utf8 c)"
proof -
  have "0 < len_utf8 c" "(if len_utf16 c = 1 then 1 else 2) \<le> len_utf8 c"
    by (simp, rule len_utf16_le_utf8)
  with assms show ?thesis
    unfolding metrics_upto_def push_character_def
    by (auto simp: sorted_wrt_append less_Suc_eq split: if_splits)
qed

lemma metrics_upto_close: "metrics_upto m p \<Longrightarrow> metrics_upto (m\<lparr>lm_end := p\<rparr>) p"
  by (simp add: metrics_upto_def)

lemma lines_wf_snoc:
  "lines_wf ls \<Longrightarrow> metrics_upto m p \<Longrightarrow> \<forall>a \<in> set ls. lm_end a < lm_start m
   \<Longrightarrow> lines_wf (ls @ [m\<lparr>lm_end := p\<rparr>])"
  by (auto simp: lines_wf_def sorted_wrt_append metrics_upto_close)

lemma source_line_break_cases:
  "source_line_break c n = Some lb \<Longrightarrow>
     lb_byte_len lb = 1 \<and> \<not> lb_consumes_next lb \<and> len_utf8 c = 1
     \<or> lb_byte_len lb = 2 \<and> lb_consumes_next lb \<and> c = CR \<and> n = Some LF"
  by (auto simp: source_line_break_def line_break_kind_def byte_len_def len_utf8_def split: if_splits)

lemma drop_consumed:
  assumes "source_line_break c (peek_character (indices_from (p + len_utf8 c) cs)) = Some lb"
  obtains cs' where
    "(if lb_consumes_next lb then drop 1 (indices_from (p + len_utf8 c) cs)
      else indices_from (p + len_utf8 c) cs) = indices_from (p + lb_byte_len lb) cs'"
    "length cs' \<le> length cs"
    "p + len_utf8 c + sum_list (map len_utf8 cs) = p + lb_byte_len lb + sum_list (map len_utf8 cs')"
proof (cases "lb_consumes_next lb")
  case False
  with source_line_break_cases [OF assms] that [of cs] show ?thesis by auto
next
  case True
  with source_line_break_cases [OF assms] have c: "c = CR" "lb_byte_len lb = 2"
    "peek_character (indices_from (p + len_utf8 c) cs) = Some LF" by auto
  then obtain ds where "cs = LF # ds"
    by (cases cs) (auto simp: peek_character_def)
  with c True that [of ds] show ?thesis by (simp add: len_utf8_def)
qed

lemma index_lines_wf:
  assumes "index_lines cur ls (indices_from p cs) = Inr (ls', cur')"
    and "lines_wf ls" "metrics_upto cur p" "\<forall>a \<in> set ls. lm_end a < lm_start cur"
  shows "lines_wf ls' \<and> metrics_upto cur' (p + sum_list (map len_utf8 cs))
    \<and> (\<forall>a \<in> set ls'. lm_end a < lm_start cur')"
  using assms
proof (induction "length cs" arbitrary: cs p cur ls rule: less_induct)
  case less
  show ?case
  proof (cases cs)
    case Nil
    with less.prems show ?thesis by simp
  next
    case (Cons c ds)
    let ?rest = "indices_from (p + len_utf8 c) ds"
    show ?thesis
    proof (cases "source_line_break c (peek_character ?rest)")
      case None
      with less.prems Cons have
        "index_lines (push_character cur p c) ls (indices_from (p + len_utf8 c) ds) = Inr (ls', cur')"
        by (auto simp: text_size_try_from_def split: if_splits)
      from less.hyps [OF _ this less.prems(2) metrics_upto_push [OF less.prems(3)]] less.prems(4) Cons
      show ?thesis by (simp add: push_character_def add.assoc)
    next
      case (Some lb)
      obtain cs' where cs': "(if lb_consumes_next lb then drop 1 ?rest else ?rest)
          = indices_from (p + lb_byte_len lb) cs'"
        and len: "length cs' \<le> length ds"
        and sum: "p + len_utf8 c + sum_list (map len_utf8 ds)
          = p + lb_byte_len lb + sum_list (map len_utf8 cs')"
        by (rule drop_consumed [OF Some])
      from less.prems(1) Cons Some cs' have
        "index_lines (line_metrics_new (p + lb_byte_len lb)) (ls @ [cur\<lparr>lm_end := p\<rparr>])
           (indices_from (p + lb_byte_len lb) cs') = Inr (ls', cur')"
        by (auto simp: text_size_try_from_def Let_def split: if_splits)
      moreover have "p < p + lb_byte_len lb"
        using source_line_break_cases [OF Some] by auto
      ultimately show ?thesis
        using less.hyps [of cs' "line_metrics_new (p + lb_byte_len lb)" "ls @ [cur\<lparr>lm_end := p\<rparr>]"
            "p + lb_byte_len lb"] lines_wf_snoc [OF less.prems(2,3,4)] less.prems(3,4) len sum Cons
        by (fastforce simp: line_metrics_new_def metrics_upto_def add.assoc)
    qed
  qed
qed

lemma sum_len_str_chars: "valid_utf8 t \<Longrightarrow> sum_list (map len_utf8 (str_chars t)) = length t"
  by (induction t rule: valid_utf8_induct) (simp_all add: str_chars_encode)

lemma index_lines_total:
  "p + sum_list (map len_utf8 cs) \<le> u32_max
   \<Longrightarrow> \<exists>r. index_lines cur ls (indices_from p cs) = Inr r"
proof (induction "length cs" arbitrary: cs p cur ls rule: less_induct)
  case less
  show ?case
  proof (cases cs)
    case (Cons c ds)
    let ?rest = "indices_from (p + len_utf8 c) ds"
    have p: "text_size_try_from p = Inr p"
      using less.prems by (simp add: text_size_try_from_def)
    show ?thesis
    proof (cases "source_line_break c (peek_character ?rest)")
      case None
      with p Cons less.hyps [of ds "p + len_utf8 c" "push_character cur p c" ls] less.prems
      show ?thesis by (simp add: add.assoc)
    next
      case (Some lb)
      obtain cs' where cs': "(if lb_consumes_next lb then drop 1 ?rest else ?rest)
          = indices_from (p + lb_byte_len lb) cs'"
        and len: "length cs' \<le> length ds"
        and sum: "p + len_utf8 c + sum_list (map len_utf8 ds)
          = p + lb_byte_len lb + sum_list (map len_utf8 cs')"
        by (rule drop_consumed [OF Some])
      from sum less.prems Cons have q: "p + lb_byte_len lb + sum_list (map len_utf8 cs') \<le> u32_max"
        by simp
      then have "text_size_try_from (p + lb_byte_len lb) = Inr (p + lb_byte_len lb)"
        by (simp add: text_size_try_from_def)
      with p q Some cs' len Cons less.hyps [of cs' "p + lb_byte_len lb"] show ?thesis
        by (simp add: Let_def)
    qed
  qed simp
qed

lemma index_lines_head:
  "index_lines cur ls cs = Inr (ls', cur')
   \<Longrightarrow> lm_start (hd (ls' @ [cur'\<lparr>lm_end := n\<rparr>])) = lm_start (hd (ls @ [cur]))"
proof (induction cur ls cs rule: index_lines.induct)
  case (1 cur ls)
  then show ?case by (cases ls) auto
next
  case (2 cur ls byte_index c rest)
  from "2.prems" obtain lb_case where "text_size_try_from byte_index = Inr byte_index"
    by (auto simp: text_size_try_from_def split: if_splits)
  with 2 show ?case
    by (cases ls)
      (auto simp: Let_def push_character_def text_size_try_from_def split: option.splits if_splits)
qed

text \<open>The index of a text, with the invariant of its tables.\<close>

lemma line_index_new_wf:
  assumes "valid_utf8 t" "length t \<le> u32_max"
  obtains idx where "line_index_new t = Inr idx" "li_text_len idx = length t"
    "lines_wf (li_lines idx)" "li_lines idx \<noteq> []" "lm_start (hd (li_lines idx)) = 0"
    "lm_end (last (li_lines idx)) = length t" "\<forall>m \<in> set (li_lines idx). lm_end m \<le> length t"
proof -
  have sum: "0 + sum_list (map len_utf8 (str_chars t)) = length t"
    using assms(1) by (simp add: sum_len_str_chars)
  then obtain ls cur where r: "index_lines (line_metrics_new 0) [] (char_indices t) = Inr (ls, cur)"
    using index_lines_total [of 0 "str_chars t"] assms(2) unfolding char_indices_def
    by (metis surj_pair)
  from index_lines_wf [of "line_metrics_new 0" "[]" 0 "str_chars t"] r sum
  have wf: "lines_wf ls" "metrics_upto cur (length t)" "\<forall>a \<in> set ls. lm_end a < lm_start cur"
    by (auto simp: char_indices_def lines_wf_def)
  let ?idx = "\<lparr>li_text_len = length t, li_lines = ls @ [cur\<lparr>lm_end := length t\<rparr>]\<rparr>"
  have "line_index_new t = Inr ?idx"
    using assms(2) r by (simp add: line_index_new_def text_size_try_from_def)
  moreover have "lines_wf (li_lines ?idx)"
    using lines_wf_snoc [OF wf] by simp
  moreover have "lm_start (hd (li_lines ?idx)) = 0"
    using index_lines_head [OF r] by (simp add: line_metrics_new_def)
  moreover have "\<forall>m \<in> set (li_lines ?idx). lm_end m \<le> length t"
    using wf by (auto simp: metrics_upto_def dest!: bspec)
  ultimately show ?thesis
    by (intro that [of ?idx]) simp_all
qed

subsection \<open>Positions and offsets are inverse\<close>

lemma line_index_for_offset_iff:
  assumes "lines_wf (li_lines idx)" "i < length (li_lines idx)"
    and "lm_start (li_lines idx ! i) \<le> o'" "o' \<le> lm_end (li_lines idx ! i)"
  shows "line_index_for_offset idx o' = Some i"
proof -
  let ?ls = "li_lines idx" and ?ss = "map lm_start (li_lines idx)"
  have ord: "lm_end (?ls ! j) < lm_start (?ls ! k)" if "j < k" "k < length ?ls" for j k
    using assms(1) that by (simp add: lines_wf_def sorted_wrt_iff_nth_less)
  have se: "lm_start (?ls ! j) \<le> lm_end (?ls ! j)" if "j < length ?ls" for j
    using assms(1) that by (auto simp: lines_wf_def metrics_upto_def)
  have srt: "sorted_wrt (<) ?ss"
    unfolding sorted_wrt_iff_nth_less
  proof (intro allI impI)
    fix j k
    assume "j < k" "k < length ?ss"
    with ord [of j k] se [of j] show "?ss ! j < ?ss ! k" by simp
  qed
  show ?thesis
  proof (cases "binary_search ?ss o'")
    case (Found k)
    then have k: "k < length ?ls" "lm_start (?ls ! k) = o'"
      using binary_search_Found [OF Found] by auto
    have "k = i"
    proof (rule ccontr)
      assume "k \<noteq> i"
      then consider "k < i" | "i < k" by linarith
      then show False
        using ord [of k i] ord [of i k] se [of k] assms k by cases auto
    qed
    with Found show ?thesis by (simp add: line_index_for_offset_def)
  next
    case (Insertion k)
    from binary_search_Insertion [OF Insertion srt]
    have k: "k \<le> length ?ls" "\<And>j. j < k \<Longrightarrow> lm_start (?ls ! j) < o'"
      "\<And>j. k \<le> j \<Longrightarrow> j < length ?ls \<Longrightarrow> o' < lm_start (?ls ! j)"
      by auto
    have "i < k" using k(3) [of i] assms by fastforce
    moreover have "k \<le> Suc i"
    proof (rule ccontr)
      assume "\<not> k \<le> Suc i"
      with k have "lm_start (?ls ! Suc i) < o'" "Suc i < length ?ls" by auto
      with ord [of i "Suc i"] assms(4) show False by simp
    qed
    ultimately show ?thesis
      using Insertion by (auto simp: line_index_for_offset_def)
  qed
qed

text \<open>Inside one line, the column table and the offset table answer inverse questions.\<close>

lemma line_columns_inverse:
  assumes "metrics_upto m (lm_end m)"
  shows "offset_for_lsp_character m c = Some o' \<longleftrightarrow>
    (\<exists>i. (i < length (character_offsets m) \<and> character_offsets m ! i = o' \<and> utf16_columns m ! i = c)
       \<or> i = length (character_offsets m) \<and> o' = lm_end m \<and> c = utf16_len m)"
proof -
  have len: "length (character_offsets m) = length (utf16_columns m)"
    and srt: "sorted_wrt (<) (utf16_columns m)"
    and below: "\<forall>c \<in> set (utf16_columns m). c < utf16_len m"
    using assms by (auto simp: metrics_upto_def)
  show ?thesis
  proof (cases "binary_search (utf16_columns m) c")
    case (Found i)
    then have i: "i < length (utf16_columns m)" "utf16_columns m ! i = c"
      using binary_search_Found [OF Found] by auto
    have uniq: "j = i" if "j < length (utf16_columns m)" "utf16_columns m ! j = c" for j
      using that i binary_search_nth [OF srt that(1)] Found by simp
    have ne: "c \<noteq> utf16_len m" using below i by (metis less_irrefl nth_mem)
    have eq: "offset_for_lsp_character m c = Some (character_offsets m ! i)"
      using Found i(1) len by (simp add: offset_for_lsp_character_def get_def)
    show ?thesis
    proof
      assume "offset_for_lsp_character m c = Some o'"
      with eq i len show "\<exists>i. (i < length (character_offsets m) \<and> character_offsets m ! i = o'
          \<and> utf16_columns m ! i = c) \<or> i = length (character_offsets m) \<and> o' = lm_end m \<and> c = utf16_len m"
        by (intro exI [of _ i]) simp
    next
      assume "\<exists>i. (i < length (character_offsets m) \<and> character_offsets m ! i = o'
          \<and> utf16_columns m ! i = c) \<or> i = length (character_offsets m) \<and> o' = lm_end m \<and> c = utf16_len m"
      with ne obtain j where "j < length (character_offsets m)" "character_offsets m ! j = o'"
        "utf16_columns m ! j = c" by blast
      with uniq [of j] len eq show "offset_for_lsp_character m c = Some o'" by simp
    qed
  next
    case (Insertion i)
    have no: "\<not> (j < length (utf16_columns m) \<and> utf16_columns m ! j = c)" for j
      using binary_search_nth [OF srt, of j] Insertion by auto
    have "i = length (utf16_columns m)" if "c = utf16_len m"
      using binary_search_above [of "utf16_columns m" c] below that Insertion by simp
    with Insertion no len show ?thesis
      by (auto simp: offset_for_lsp_character_def)
  qed
qed

lemma line_position_index:
  assumes "metrics_upto m (lm_end m)" "line_position m o' n = Some (Some r)"
  obtains i where "rp_lsp_position r = \<lparr>lsp_line = n,
      lsp_character = (if i < length (utf16_columns m) then utf16_columns m ! i else utf16_len m)\<rparr>"
    "(i < length (character_offsets m) \<and> character_offsets m ! i = o')
     \<or> i = length (character_offsets m) \<and> o' = lm_end m"
proof -
  have len: "length (character_offsets m) = length (utf16_columns m)"
    and below: "\<forall>x \<in> set (character_offsets m). x < lm_end m"
    using assms(1) by (auto simp: metrics_upto_def)
  from assms(2) obtain i where i:
    "binary_search (character_offsets m) o' = Found i
     \<or> binary_search (character_offsets m) o' = Insertion i \<and> o' = lm_end m"
    "rp_lsp_position r = \<lparr>lsp_line = n,
      lsp_character = (if i < length (utf16_columns m) then utf16_columns m ! i else utf16_len m)\<rparr>"
    by (auto simp: line_position_def get_def Let_def run_simps split: if_splits search_result.splits
        option.splits)
  from i(1) have "(i < length (character_offsets m) \<and> character_offsets m ! i = o')
     \<or> i = length (character_offsets m) \<and> o' = lm_end m"
    using binary_search_Found [of "character_offsets m" o' i]
      binary_search_above [of "character_offsets m" o'] below by auto
  with i(2) that show ?thesis by blast
qed

lemma index_position_line:
  assumes "index_position idx o' = Some (Some r)"
  obtains i where "i < length (li_lines idx)" "line_position (li_lines idx ! i) o' i = Some (Some r)"
  using assms
  by (auto simp: index_position_def get_def split: if_splits option.splits)

lemma lsp_position_to_offset:
  assumes "valid_utf8 t" "line_index_new t = Inr idx"
    and "index_lsp_position idx o' = Some (Some p)"
  shows "offset_for_lsp_position idx p = Some o'"
proof -
  have "length t \<le> u32_max"
    using assms(2) by (auto simp: line_index_new_def text_size_try_from_def split: if_splits)
  then have wf: "lines_wf (li_lines idx)"
    using line_index_new_wf [OF assms(1)] assms(2) by (metis sum.inject(2))
  from assms(3) obtain r where r: "index_position idx o' = Some (Some r)" "p = rp_lsp_position r"
    by (auto simp: index_lsp_position_def)
  obtain i where i: "i < length (li_lines idx)"
    "line_position (li_lines idx ! i) o' i = Some (Some r)"
    by (rule index_position_line [OF r(1)])
  let ?m = "li_lines idx ! i"
  have m: "metrics_upto ?m (lm_end ?m)" using wf i(1) by (simp add: lines_wf_def)
  obtain k where k: "rp_lsp_position r = \<lparr>lsp_line = i, lsp_character =
      (if k < length (utf16_columns ?m) then utf16_columns ?m ! k else utf16_len ?m)\<rparr>"
    "(k < length (character_offsets ?m) \<and> character_offsets ?m ! k = o')
     \<or> k = length (character_offsets ?m) \<and> o' = lm_end ?m"
    by (rule line_position_index [OF m i(2)])
  have "length (character_offsets ?m) = length (utf16_columns ?m)"
    using m by (simp add: metrics_upto_def)
  with k have "offset_for_lsp_character ?m (lsp_character p) = Some o'"
    unfolding line_columns_inverse [OF m] r(2) by (intro exI [of _ k]) auto
  with k(1) i(1) r(2) show ?thesis
    by (simp add: offset_for_lsp_position_def get_def)
qed

lemma line_number_bound:
  assumes "lines_wf ls" "i < length ls"
  shows "i \<le> lm_start (ls ! i)"
  using assms(2)
proof (induction i)
  case (Suc i)
  then have "lm_end (ls ! i) < lm_start (ls ! Suc i)" "lm_start (ls ! i) \<le> lm_end (ls ! i)"
    using assms(1) by (auto simp: lines_wf_def metrics_upto_def sorted_wrt_iff_nth_less)
  with Suc show ?case by simp
qed simp

lemma line_position_of_column:
  assumes m: "metrics_upto m (lm_end m)" and "offset_for_lsp_character m c = Some o'"
    and "n + 1 \<le> u32_max" "lm_end m < u32_max"
  shows "\<exists>lc. line_position m o' n = Some (Some \<lparr>rp_line_column = lc,
      rp_lsp_position = \<lparr>lsp_line = n, lsp_character = c\<rparr>\<rparr>)"
    and "lm_start m \<le> o'" "o' \<le> lm_end m"
proof -
  have len: "length (character_offsets m) = length (utf16_columns m)"
    and srt: "sorted_wrt (<) (character_offsets m)"
    and rng: "\<forall>x \<in> set (character_offsets m). lm_start m \<le> x \<and> x < lm_end m"
    and se: "lm_start m \<le> lm_end m"
    and cnt: "length (character_offsets m) \<le> lm_end m - lm_start m"
    using m by (auto simp: metrics_upto_def)
  from assms(2) obtain i where i:
    "(i < length (character_offsets m) \<and> character_offsets m ! i = o' \<and> utf16_columns m ! i = c)
     \<or> i = length (character_offsets m) \<and> o' = lm_end m \<and> c = utf16_len m"
    unfolding line_columns_inverse [OF m] by blast
  show bounds: "lm_start m \<le> o'" "o' \<le> lm_end m"
    using i rng se nth_mem by (fastforce dest: bspec)+
  have srch: "binary_search (character_offsets m) o' = Found i
      \<or> binary_search (character_offsets m) o' = Insertion i \<and> o' = lm_end m"
    using i binary_search_nth [OF srt, of i] binary_search_above [of "character_offsets m" o'] rng
    by auto
  have "i < u32_max" using i cnt assms(4) by auto
  with srch i len bounds assms(3) show "\<exists>lc. line_position m o' n = Some (Some \<lparr>rp_line_column = lc,
      rp_lsp_position = \<lparr>lsp_line = n, lsp_character = c\<rparr>\<rparr>)"
    by (auto simp: line_position_def checked_succ_u32_def line_column_new_def get_def)
qed

lemma lsp_position_of_offset:
  assumes "valid_utf8 t" "length t < u32_max" "line_index_new t = Inr idx"
    and "offset_for_lsp_position idx p = Some o'"
  shows "index_lsp_position idx o' = Some (Some p)"
proof -
  obtain idx' where "line_index_new t = Inr idx'" "li_text_len idx' = length t"
    "lines_wf (li_lines idx')" "\<forall>m \<in> set (li_lines idx'). lm_end m \<le> length t"
    by (rule line_index_new_wf [OF assms(1)]) (use assms(2) in auto)
  with assms(3) have wf: "li_text_len idx = length t" "lines_wf (li_lines idx)"
    "\<forall>m \<in> set (li_lines idx). lm_end m \<le> length t" by auto
  let ?i = "lsp_line p" and ?m = "li_lines idx ! lsp_line p"
  from assms(4) have i: "?i < length (li_lines idx)"
    and c: "offset_for_lsp_character ?m (lsp_character p) = Some o'"
    by (auto simp: offset_for_lsp_position_def get_def split: option.splits if_splits)
  have m: "metrics_upto ?m (lm_end ?m)" using wf(2) i by (simp add: lines_wf_def)
  have e: "lm_end ?m \<le> length t" using wf(3) i by simp
  have n: "?i + 1 \<le> u32_max"
    using line_number_bound [OF wf(2) i] m e assms(2) by (simp add: metrics_upto_def)
  from line_position_of_column [OF m c n] e assms(2) obtain lc where
    pos: "line_position ?m o' ?i = Some (Some \<lparr>rp_line_column = lc,
      rp_lsp_position = \<lparr>lsp_line = ?i, lsp_character = lsp_character p\<rparr>\<rparr>)"
    and b: "lm_start ?m \<le> o'" "o' \<le> lm_end ?m"
    by auto
  have "line_index_for_offset idx o' = Some ?i"
    by (rule line_index_for_offset_iff [OF wf(2) i b])
  with pos b e i n wf(1) show ?thesis
    by (auto simp: index_lsp_position_def index_position_def get_def)
qed

text \<open>
  C32. Byte offsets and LSP positions are in bijection: for every indexed text below the offset
  limit, an offset resolves to a UTF-16 position exactly when that position resolves to the offset.
\<close>

theorem lsp_position_roundtrip:
  assumes "valid_utf8 t" "length t < u32_max" "line_index_new t = Inr idx"
  shows "index_lsp_position idx o' = Some (Some p) \<longleftrightarrow> offset_for_lsp_position idx p = Some o'"
  using lsp_position_to_offset [OF assms(1,3)] lsp_position_of_offset [OF assms] by blast

lemmas index_eval = line_index_new_def text_size_try_from_def char_indices_def str_chars.simps
  next_char_def payload_def len_utf8_def len_utf16_def u32_max_def source_line_break_def
  line_break_kind_def byte_len_def peek_character_def line_metrics_new_def push_character_def

lemmas query_eval = index_lsp_position_def index_position_def line_index_for_offset_def
  binary_search_def get_def line_position_def checked_succ_u32_def line_column_new_def u32_max_def

abbreviation sample_text :: string where
  "sample_text \<equiv> [CHR ''a'', CHR 0xC3, CHR 0xA9, CHR 0x0A, CHR ''b'']"

abbreviation sample_index :: line_index where
  "sample_index \<equiv> \<lparr>li_text_len = 5, li_lines =
     [\<lparr>lm_start = 0, lm_end = 3, character_offsets = [0, 1], utf16_columns = [0, 1], utf16_len = 2\<rparr>,
      \<lparr>lm_start = 4, lm_end = 5, character_offsets = [4], utf16_columns = [0], utf16_len = 1\<rparr>]\<rparr>"

lemma sample_index_new: "line_index_new sample_text = Inr sample_index"
  by (simp add: index_eval)

lemma sample_text_valid: "valid_utf8 sample_text"
  by (simp add: valid_utf8_def index_eval is_scalar_def encode_utf8_def char_of_def bit_Suc_0_iff)

theorem lsp_position_roundtrip_witness:
  "index_lsp_position sample_index 3 = Some (Some \<lparr>lsp_line = 0, lsp_character = 2\<rparr>)
   \<and> offset_for_lsp_position sample_index \<lparr>lsp_line = 0, lsp_character = 2\<rparr> = Some 3"
proof -
  have p: "index_lsp_position sample_index 3 = Some (Some \<lparr>lsp_line = 0, lsp_character = 2\<rparr>)"
    by (simp add: query_eval)
  have "length sample_text < u32_max" by (simp add: u32_max_def)
  from lsp_position_roundtrip [OF sample_text_valid this sample_index_new,
      of 3 "\<lparr>lsp_line = 0, lsp_character = 2\<rparr>"] p
  show ?thesis by simp
qed

end
