(* ===== verification/Syntax_Kinds.thy ===== *)
theory Syntax_Kinds
  imports Bray_Prelude
begin

text \<open>
  The syntax vocabulary (\<open>crates/bray-syntax/src/kind.rs\<close>, \<open>fixed_text.rs\<close>). \<open>SyntaxKind\<close> is
  a fieldless enum with \<open>repr(u16)\<close>; a kind of the model is its discriminant, in the order the enum
  declares the variants, and every variant is a name for its discriminant. The classification
  functions list the variants the source lists. The fixed spellings are one table that both
  directions read.
\<close>

datatype syntax_kind = SyntaxKind (discriminant: nat)

abbreviation CompilationUnit :: syntax_kind where "CompilationUnit \<equiv> SyntaxKind 0"
abbreviation SourceUnit :: syntax_kind where "SourceUnit \<equiv> SyntaxKind 1"
abbreviation SourceUnitModuleDeclaration :: syntax_kind where "SourceUnitModuleDeclaration \<equiv> SyntaxKind 2"
abbreviation BlockModuleDeclaration :: syntax_kind where "BlockModuleDeclaration \<equiv> SyntaxKind 3"
abbreviation ModuleDirectives :: syntax_kind where "ModuleDirectives \<equiv> SyntaxKind 4"
abbreviation TargetDirective :: syntax_kind where "TargetDirective \<equiv> SyntaxKind 5"
abbreviation TestDirective :: syntax_kind where "TestDirective \<equiv> SyntaxKind 6"
abbreviation LinkDirective :: syntax_kind where "LinkDirective \<equiv> SyntaxKind 7"
abbreviation AbiDirective :: syntax_kind where "AbiDirective \<equiv> SyntaxKind 8"
abbreviation SymbolDirective :: syntax_kind where "SymbolDirective \<equiv> SyntaxKind 9"
abbreviation EntrypointDirective :: syntax_kind where "EntrypointDirective \<equiv> SyntaxKind 10"
abbreviation DirectiveArgumentList :: syntax_kind where "DirectiveArgumentList \<equiv> SyntaxKind 11"
abbreviation DirectiveArgument :: syntax_kind where "DirectiveArgument \<equiv> SyntaxKind 12"
abbreviation ModuleModifiers :: syntax_kind where "ModuleModifiers \<equiv> SyntaxKind 13"
abbreviation ModuleBody :: syntax_kind where "ModuleBody \<equiv> SyntaxKind 14"
abbreviation UsingDeclaration :: syntax_kind where "UsingDeclaration \<equiv> SyntaxKind 15"
abbreviation ExportDeclaration :: syntax_kind where "ExportDeclaration \<equiv> SyntaxKind 16"
abbreviation ConstantDeclaration :: syntax_kind where "ConstantDeclaration \<equiv> SyntaxKind 17"
abbreviation ConstantModifiers :: syntax_kind where "ConstantModifiers \<equiv> SyntaxKind 18"
abbreviation StaticDeclaration :: syntax_kind where "StaticDeclaration \<equiv> SyntaxKind 19"
abbreviation StaticDirectives :: syntax_kind where "StaticDirectives \<equiv> SyntaxKind 20"
abbreviation ThreadLocalDirective :: syntax_kind where "ThreadLocalDirective \<equiv> SyntaxKind 21"
abbreviation StaticDeclarationModifiers :: syntax_kind where "StaticDeclarationModifiers \<equiv> SyntaxKind 22"
abbreviation FunctionDeclaration :: syntax_kind where "FunctionDeclaration \<equiv> SyntaxKind 23"
abbreviation FunctionDirectives :: syntax_kind where "FunctionDirectives \<equiv> SyntaxKind 24"
abbreviation FunctionModifiers :: syntax_kind where "FunctionModifiers \<equiv> SyntaxKind 25"
abbreviation GenericParameterList :: syntax_kind where "GenericParameterList \<equiv> SyntaxKind 26"
abbreviation GenericTypeParameter :: syntax_kind where "GenericTypeParameter \<equiv> SyntaxKind 27"
abbreviation GenericConstParameter :: syntax_kind where "GenericConstParameter \<equiv> SyntaxKind 28"
abbreviation GenericArgumentList :: syntax_kind where "GenericArgumentList \<equiv> SyntaxKind 29"
abbreviation GenericArgument :: syntax_kind where "GenericArgument \<equiv> SyntaxKind 30"
abbreviation TypeFormArgumentList :: syntax_kind where "TypeFormArgumentList \<equiv> SyntaxKind 31"
abbreviation TypeFormArgument :: syntax_kind where "TypeFormArgument \<equiv> SyntaxKind 32"
abbreviation PredicateDeclaration :: syntax_kind where "PredicateDeclaration \<equiv> SyntaxKind 33"
abbreviation PredicateModifiers :: syntax_kind where "PredicateModifiers \<equiv> SyntaxKind 34"
abbreviation PredicateParameterList :: syntax_kind where "PredicateParameterList \<equiv> SyntaxKind 35"
abbreviation PredicateParameter :: syntax_kind where "PredicateParameter \<equiv> SyntaxKind 36"
abbreviation CallableContractDeclaration :: syntax_kind where "CallableContractDeclaration \<equiv> SyntaxKind 37"
abbreviation CallableContractModifiers :: syntax_kind where "CallableContractModifiers \<equiv> SyntaxKind 38"
abbreviation RequiresClause :: syntax_kind where "RequiresClause \<equiv> SyntaxKind 39"
abbreviation EnsuresClause :: syntax_kind where "EnsuresClause \<equiv> SyntaxKind 40"
abbreviation WhenClause :: syntax_kind where "WhenClause \<equiv> SyntaxKind 41"
abbreviation ExecutesClause :: syntax_kind where "ExecutesClause \<equiv> SyntaxKind 42"
abbreviation ExecutionProperty :: syntax_kind where "ExecutionProperty \<equiv> SyntaxKind 43"
abbreviation WithClause :: syntax_kind where "WithClause \<equiv> SyntaxKind 44"
abbreviation UsesClause :: syntax_kind where "UsesClause \<equiv> SyntaxKind 45"
abbreviation OverloadModifiers :: syntax_kind where "OverloadModifiers \<equiv> SyntaxKind 46"
abbreviation CallableOverloadDeclaration :: syntax_kind where "CallableOverloadDeclaration \<equiv> SyntaxKind 47"
abbreviation ImplementationOverloadDeclaration :: syntax_kind where "ImplementationOverloadDeclaration \<equiv> SyntaxKind 48"
abbreviation ImplementationOverloadSubject :: syntax_kind where "ImplementationOverloadSubject \<equiv> SyntaxKind 49"
abbreviation OverloadArmList :: syntax_kind where "OverloadArmList \<equiv> SyntaxKind 50"
abbreviation OverloadArm :: syntax_kind where "OverloadArm \<equiv> SyntaxKind 51"
abbreviation StructDeclaration :: syntax_kind where "StructDeclaration \<equiv> SyntaxKind 52"
abbreviation TypeDirectives :: syntax_kind where "TypeDirectives \<equiv> SyntaxKind 53"
abbreviation LayoutDirective :: syntax_kind where "LayoutDirective \<equiv> SyntaxKind 54"
abbreviation CopyDirective :: syntax_kind where "CopyDirective \<equiv> SyntaxKind 55"
abbreviation TagDirective :: syntax_kind where "TagDirective \<equiv> SyntaxKind 56"
abbreviation TypeModifiers :: syntax_kind where "TypeModifiers \<equiv> SyntaxKind 57"
abbreviation StructBody :: syntax_kind where "StructBody \<equiv> SyntaxKind 58"
abbreviation FieldModifiers :: syntax_kind where "FieldModifiers \<equiv> SyntaxKind 59"
abbreviation StructFieldDeclaration :: syntax_kind where "StructFieldDeclaration \<equiv> SyntaxKind 60"
abbreviation UnionDeclaration :: syntax_kind where "UnionDeclaration \<equiv> SyntaxKind 61"
abbreviation UnionBody :: syntax_kind where "UnionBody \<equiv> SyntaxKind 62"
abbreviation VariantDirectives :: syntax_kind where "VariantDirectives \<equiv> SyntaxKind 63"
abbreviation UnionVariantDeclaration :: syntax_kind where "UnionVariantDeclaration \<equiv> SyntaxKind 64"
abbreviation UnionVariantPayload :: syntax_kind where "UnionVariantPayload \<equiv> SyntaxKind 65"
abbreviation UnionPayloadField :: syntax_kind where "UnionPayloadField \<equiv> SyntaxKind 66"
abbreviation PayloadFieldModifiers :: syntax_kind where "PayloadFieldModifiers \<equiv> SyntaxKind 67"
abbreviation TraitDeclaration :: syntax_kind where "TraitDeclaration \<equiv> SyntaxKind 68"
abbreviation TraitModifiers :: syntax_kind where "TraitModifiers \<equiv> SyntaxKind 69"
abbreviation TraitBody :: syntax_kind where "TraitBody \<equiv> SyntaxKind 70"
abbreviation TraitConstantMemberDeclaration :: syntax_kind where "TraitConstantMemberDeclaration \<equiv> SyntaxKind 71"
abbreviation TraitTypeMemberDeclaration :: syntax_kind where "TraitTypeMemberDeclaration \<equiv> SyntaxKind 72"
abbreviation TraitPredicateMemberModifiers :: syntax_kind where "TraitPredicateMemberModifiers \<equiv> SyntaxKind 73"
abbreviation TraitPredicateMemberDeclaration :: syntax_kind where "TraitPredicateMemberDeclaration \<equiv> SyntaxKind 74"
abbreviation TraitCallableMemberModifiers :: syntax_kind where "TraitCallableMemberModifiers \<equiv> SyntaxKind 75"
abbreviation TraitCallableMemberDeclaration :: syntax_kind where "TraitCallableMemberDeclaration \<equiv> SyntaxKind 76"
abbreviation ImplementationSubject :: syntax_kind where "ImplementationSubject \<equiv> SyntaxKind 77"
abbreviation TraitApplication :: syntax_kind where "TraitApplication \<equiv> SyntaxKind 78"
abbreviation InherentImplementationDeclaration :: syntax_kind where "InherentImplementationDeclaration \<equiv> SyntaxKind 79"
abbreviation ImplementationBody :: syntax_kind where "ImplementationBody \<equiv> SyntaxKind 80"
abbreviation ImplementationTypeMemberBinding :: syntax_kind where "ImplementationTypeMemberBinding \<equiv> SyntaxKind 81"
abbreviation UnnamedTraitImplementationDeclaration :: syntax_kind where "UnnamedTraitImplementationDeclaration \<equiv> SyntaxKind 82"
abbreviation NamedTraitImplementationDeclaration :: syntax_kind where "NamedTraitImplementationDeclaration \<equiv> SyntaxKind 83"
abbreviation ConstructorMemberModifiers :: syntax_kind where "ConstructorMemberModifiers \<equiv> SyntaxKind 84"
abbreviation TypeConstructorMemberDeclaration :: syntax_kind where "TypeConstructorMemberDeclaration \<equiv> SyntaxKind 85"
abbreviation AsyncCapableLifecycleMemberModifiers :: syntax_kind where "AsyncCapableLifecycleMemberModifiers \<equiv> SyntaxKind 86"
abbreviation ScopeEnterMemberModifiers :: syntax_kind where "ScopeEnterMemberModifiers \<equiv> SyntaxKind 87"
abbreviation SyncLifecycleMemberModifiers :: syntax_kind where "SyncLifecycleMemberModifiers \<equiv> SyntaxKind 88"
abbreviation FinalizerMemberDeclaration :: syntax_kind where "FinalizerMemberDeclaration \<equiv> SyntaxKind 89"
abbreviation DestructorMemberDeclaration :: syntax_kind where "DestructorMemberDeclaration \<equiv> SyntaxKind 90"
abbreviation ScopeEnterMemberDeclaration :: syntax_kind where "ScopeEnterMemberDeclaration \<equiv> SyntaxKind 91"
abbreviation ScopeExitMemberDeclaration :: syntax_kind where "ScopeExitMemberDeclaration \<equiv> SyntaxKind 92"
abbreviation TraitFinalizerRequirementDeclaration :: syntax_kind where "TraitFinalizerRequirementDeclaration \<equiv> SyntaxKind 93"
abbreviation TraitDestructorRequirementDeclaration :: syntax_kind where "TraitDestructorRequirementDeclaration \<equiv> SyntaxKind 94"
abbreviation TraitScopeEnterRequirementDeclaration :: syntax_kind where "TraitScopeEnterRequirementDeclaration \<equiv> SyntaxKind 95"
abbreviation TraitScopeExitRequirementDeclaration :: syntax_kind where "TraitScopeExitRequirementDeclaration \<equiv> SyntaxKind 96"
abbreviation TypeCallableMemberModifiers :: syntax_kind where "TypeCallableMemberModifiers \<equiv> SyntaxKind 97"
abbreviation TypeCallableMemberDeclaration :: syntax_kind where "TypeCallableMemberDeclaration \<equiv> SyntaxKind 98"
abbreviation CallableDirectives :: syntax_kind where "CallableDirectives \<equiv> SyntaxKind 99"
abbreviation CallableModifiers :: syntax_kind where "CallableModifiers \<equiv> SyntaxKind 100"
abbreviation ParameterList :: syntax_kind where "ParameterList \<equiv> SyntaxKind 101"
abbreviation Parameter :: syntax_kind where "Parameter \<equiv> SyntaxKind 102"
abbreviation ParameterModifiers :: syntax_kind where "ParameterModifiers \<equiv> SyntaxKind 103"
abbreviation CallableResultClause :: syntax_kind where "CallableResultClause \<equiv> SyntaxKind 104"
abbreviation CallableBodyBlockExpression :: syntax_kind where "CallableBodyBlockExpression \<equiv> SyntaxKind 105"
abbreviation Expression :: syntax_kind where "Expression \<equiv> SyntaxKind 106"
abbreviation PrimaryExpression :: syntax_kind where "PrimaryExpression \<equiv> SyntaxKind 107"
abbreviation AccessExpression :: syntax_kind where "AccessExpression \<equiv> SyntaxKind 108"
abbreviation MemberAccessOperation :: syntax_kind where "MemberAccessOperation \<equiv> SyntaxKind 109"
abbreviation ElementIndexOperation :: syntax_kind where "ElementIndexOperation \<equiv> SyntaxKind 110"
abbreviation CallOperation :: syntax_kind where "CallOperation \<equiv> SyntaxKind 111"
abbreviation SliceIndexOperation :: syntax_kind where "SliceIndexOperation \<equiv> SyntaxKind 112"
abbreviation NullablePropagationOperation :: syntax_kind where "NullablePropagationOperation \<equiv> SyntaxKind 113"
abbreviation ConversionOperation :: syntax_kind where "ConversionOperation \<equiv> SyntaxKind 114"
abbreviation ArgumentList :: syntax_kind where "ArgumentList \<equiv> SyntaxKind 115"
abbreviation Argument :: syntax_kind where "Argument \<equiv> SyntaxKind 116"
abbreviation StructConstructionBody :: syntax_kind where "StructConstructionBody \<equiv> SyntaxKind 117"
abbreviation StructFieldInitializer :: syntax_kind where "StructFieldInitializer \<equiv> SyntaxKind 118"
abbreviation LiteralExpression :: syntax_kind where "LiteralExpression \<equiv> SyntaxKind 119"
abbreviation UnitExpression :: syntax_kind where "UnitExpression \<equiv> SyntaxKind 120"
abbreviation AbsenceExpression :: syntax_kind where "AbsenceExpression \<equiv> SyntaxKind 121"
abbreviation GroupedExpression :: syntax_kind where "GroupedExpression \<equiv> SyntaxKind 122"
abbreviation TupleExpression :: syntax_kind where "TupleExpression \<equiv> SyntaxKind 123"
abbreviation ArrayExpression :: syntax_kind where "ArrayExpression \<equiv> SyntaxKind 124"
abbreviation GeneralGeneratorExpression :: syntax_kind where "GeneralGeneratorExpression \<equiv> SyntaxKind 125"
abbreviation GeneratorIterationExpression :: syntax_kind where "GeneratorIterationExpression \<equiv> SyntaxKind 126"
abbreviation LeadingDotVariantExpression :: syntax_kind where "LeadingDotVariantExpression \<equiv> SyntaxKind 127"
abbreviation BlockExpression :: syntax_kind where "BlockExpression \<equiv> SyntaxKind 128"
abbreviation BlockItem :: syntax_kind where "BlockItem \<equiv> SyntaxKind 129"
abbreviation LocalBindingDeclaration :: syntax_kind where "LocalBindingDeclaration \<equiv> SyntaxKind 130"
abbreviation SequencedExpression :: syntax_kind where "SequencedExpression \<equiv> SyntaxKind 131"
abbreviation ConditionalExpression :: syntax_kind where "ConditionalExpression \<equiv> SyntaxKind 132"
abbreviation ConditionalElse :: syntax_kind where "ConditionalElse \<equiv> SyntaxKind 133"
abbreviation MatchExpression :: syntax_kind where "MatchExpression \<equiv> SyntaxKind 134"
abbreviation MatchSubject :: syntax_kind where "MatchSubject \<equiv> SyntaxKind 135"
abbreviation MatchBody :: syntax_kind where "MatchBody \<equiv> SyntaxKind 136"
abbreviation MatchArm :: syntax_kind where "MatchArm \<equiv> SyntaxKind 137"
abbreviation WhileExpression :: syntax_kind where "WhileExpression \<equiv> SyntaxKind 138"
abbreviation ForExpression :: syntax_kind where "ForExpression \<equiv> SyntaxKind 139"
abbreviation IterationSource :: syntax_kind where "IterationSource \<equiv> SyntaxKind 140"
abbreviation LoopExpression :: syntax_kind where "LoopExpression \<equiv> SyntaxKind 141"
abbreviation WithExpression :: syntax_kind where "WithExpression \<equiv> SyntaxKind 142"
abbreviation LambdaExpression :: syntax_kind where "LambdaExpression \<equiv> SyntaxKind 143"
abbreviation BorrowExpression :: syntax_kind where "BorrowExpression \<equiv> SyntaxKind 144"
abbreviation TrustBoundaryExpression :: syntax_kind where "TrustBoundaryExpression \<equiv> SyntaxKind 145"
abbreviation AssertionExpression :: syntax_kind where "AssertionExpression \<equiv> SyntaxKind 146"
abbreviation ResultPropagationExpression :: syntax_kind where "ResultPropagationExpression \<equiv> SyntaxKind 147"
abbreviation CatchExpression :: syntax_kind where "CatchExpression \<equiv> SyntaxKind 148"
abbreviation AwaitExpression :: syntax_kind where "AwaitExpression \<equiv> SyntaxKind 149"
abbreviation TypeFormConstructionExpression :: syntax_kind where "TypeFormConstructionExpression \<equiv> SyntaxKind 150"
abbreviation BooleanFoldExpression :: syntax_kind where "BooleanFoldExpression \<equiv> SyntaxKind 151"
abbreviation YieldExpression :: syntax_kind where "YieldExpression \<equiv> SyntaxKind 152"
abbreviation ReturnExpression :: syntax_kind where "ReturnExpression \<equiv> SyntaxKind 153"
abbreviation PanicExpression :: syntax_kind where "PanicExpression \<equiv> SyntaxKind 154"
abbreviation BreakExpression :: syntax_kind where "BreakExpression \<equiv> SyntaxKind 155"
abbreviation ContinueExpression :: syntax_kind where "ContinueExpression \<equiv> SyntaxKind 156"
abbreviation IrrefutablePattern :: syntax_kind where "IrrefutablePattern \<equiv> SyntaxKind 157"
abbreviation IrrefutablePatternEntry :: syntax_kind where "IrrefutablePatternEntry \<equiv> SyntaxKind 158"
abbreviation CasePattern :: syntax_kind where "CasePattern \<equiv> SyntaxKind 159"
abbreviation CasePatternEntry :: syntax_kind where "CasePatternEntry \<equiv> SyntaxKind 160"
abbreviation TypeExpression :: syntax_kind where "TypeExpression \<equiv> SyntaxKind 161"
abbreviation TypeAnnotation :: syntax_kind where "TypeAnnotation \<equiv> SyntaxKind 162"
abbreviation TypedIdentifier :: syntax_kind where "TypedIdentifier \<equiv> SyntaxKind 163"
abbreviation Path :: syntax_kind where "Path \<equiv> SyntaxKind 164"
abbreviation IdentifierList :: syntax_kind where "IdentifierList \<equiv> SyntaxKind 165"
abbreviation IdentifierListItem :: syntax_kind where "IdentifierListItem \<equiv> SyntaxKind 166"
abbreviation SkippedSyntax :: syntax_kind where "SkippedSyntax \<equiv> SyntaxKind 167"
abbreviation EndOfFileToken :: syntax_kind where "EndOfFileToken \<equiv> SyntaxKind 168"
abbreviation InvalidToken :: syntax_kind where "InvalidToken \<equiv> SyntaxKind 169"
abbreviation IdentifierToken :: syntax_kind where "IdentifierToken \<equiv> SyntaxKind 170"
abbreviation TupleElementIndexToken :: syntax_kind where "TupleElementIndexToken \<equiv> SyntaxKind 171"
abbreviation DecimalIntegerLiteralToken :: syntax_kind where "DecimalIntegerLiteralToken \<equiv> SyntaxKind 172"
abbreviation BinaryIntegerLiteralToken :: syntax_kind where "BinaryIntegerLiteralToken \<equiv> SyntaxKind 173"
abbreviation HexadecimalIntegerLiteralToken :: syntax_kind where "HexadecimalIntegerLiteralToken \<equiv> SyntaxKind 174"
abbreviation RealLiteralToken :: syntax_kind where "RealLiteralToken \<equiv> SyntaxKind 175"
abbreviation ImaginaryLiteralToken :: syntax_kind where "ImaginaryLiteralToken \<equiv> SyntaxKind 176"
abbreviation CharacterLiteralToken :: syntax_kind where "CharacterLiteralToken \<equiv> SyntaxKind 177"
abbreviation StringLiteralToken :: syntax_kind where "StringLiteralToken \<equiv> SyntaxKind 178"
abbreviation ByteStringLiteralToken :: syntax_kind where "ByteStringLiteralToken \<equiv> SyntaxKind 179"
abbreviation AllKeyword :: syntax_kind where "AllKeyword \<equiv> SyntaxKind 180"
abbreviation AnyKeyword :: syntax_kind where "AnyKeyword \<equiv> SyntaxKind 181"
abbreviation AsKeyword :: syntax_kind where "AsKeyword \<equiv> SyntaxKind 182"
abbreviation AssertKeyword :: syntax_kind where "AssertKeyword \<equiv> SyntaxKind 183"
abbreviation AsyncKeyword :: syntax_kind where "AsyncKeyword \<equiv> SyntaxKind 184"
abbreviation AwaitKeyword :: syntax_kind where "AwaitKeyword \<equiv> SyntaxKind 185"
abbreviation BoxKeyword :: syntax_kind where "BoxKeyword \<equiv> SyntaxKind 186"
abbreviation BreakKeyword :: syntax_kind where "BreakKeyword \<equiv> SyntaxKind 187"
abbreviation CallableKeyword :: syntax_kind where "CallableKeyword \<equiv> SyntaxKind 188"
abbreviation CaseKeyword :: syntax_kind where "CaseKeyword \<equiv> SyntaxKind 189"
abbreviation CatchKeyword :: syntax_kind where "CatchKeyword \<equiv> SyntaxKind 190"
abbreviation ConstKeyword :: syntax_kind where "ConstKeyword \<equiv> SyntaxKind 191"
abbreviation ConstructKeyword :: syntax_kind where "ConstructKeyword \<equiv> SyntaxKind 192"
abbreviation ConsumeKeyword :: syntax_kind where "ConsumeKeyword \<equiv> SyntaxKind 193"
abbreviation ContinueKeyword :: syntax_kind where "ContinueKeyword \<equiv> SyntaxKind 194"
abbreviation DestructKeyword :: syntax_kind where "DestructKeyword \<equiv> SyntaxKind 195"
abbreviation EachKeyword :: syntax_kind where "EachKeyword \<equiv> SyntaxKind 196"
abbreviation ElseKeyword :: syntax_kind where "ElseKeyword \<equiv> SyntaxKind 197"
abbreviation EnsuresKeyword :: syntax_kind where "EnsuresKeyword \<equiv> SyntaxKind 198"
abbreviation ExecutesKeyword :: syntax_kind where "ExecutesKeyword \<equiv> SyntaxKind 199"
abbreviation EnterKeyword :: syntax_kind where "EnterKeyword \<equiv> SyntaxKind 200"
abbreviation ExitKeyword :: syntax_kind where "ExitKeyword \<equiv> SyntaxKind 201"
abbreviation ExportKeyword :: syntax_kind where "ExportKeyword \<equiv> SyntaxKind 202"
abbreviation ExternKeyword :: syntax_kind where "ExternKeyword \<equiv> SyntaxKind 203"
abbreviation FalseKeyword :: syntax_kind where "FalseKeyword \<equiv> SyntaxKind 204"
abbreviation FinalizeKeyword :: syntax_kind where "FinalizeKeyword \<equiv> SyntaxKind 205"
abbreviation ForKeyword :: syntax_kind where "ForKeyword \<equiv> SyntaxKind 206"
abbreviation FuncKeyword :: syntax_kind where "FuncKeyword \<equiv> SyntaxKind 207"
abbreviation IfKeyword :: syntax_kind where "IfKeyword \<equiv> SyntaxKind 208"
abbreviation ImplKeyword :: syntax_kind where "ImplKeyword \<equiv> SyntaxKind 209"
abbreviation InKeyword :: syntax_kind where "InKeyword \<equiv> SyntaxKind 210"
abbreviation InternalKeyword :: syntax_kind where "InternalKeyword \<equiv> SyntaxKind 211"
abbreviation LambdaKeyword :: syntax_kind where "LambdaKeyword \<equiv> SyntaxKind 212"
abbreviation LetKeyword :: syntax_kind where "LetKeyword \<equiv> SyntaxKind 213"
abbreviation LoopKeyword :: syntax_kind where "LoopKeyword \<equiv> SyntaxKind 214"
abbreviation MatchKeyword :: syntax_kind where "MatchKeyword \<equiv> SyntaxKind 215"
abbreviation MatchesKeyword :: syntax_kind where "MatchesKeyword \<equiv> SyntaxKind 216"
abbreviation ModuleKeyword :: syntax_kind where "ModuleKeyword \<equiv> SyntaxKind 217"
abbreviation MoveKeyword :: syntax_kind where "MoveKeyword \<equiv> SyntaxKind 218"
abbreviation MutKeyword :: syntax_kind where "MutKeyword \<equiv> SyntaxKind 219"
abbreviation NoneKeyword :: syntax_kind where "NoneKeyword \<equiv> SyntaxKind 220"
abbreviation OverloadKeyword :: syntax_kind where "OverloadKeyword \<equiv> SyntaxKind 221"
abbreviation PanicKeyword :: syntax_kind where "PanicKeyword \<equiv> SyntaxKind 222"
abbreviation PosKeyword :: syntax_kind where "PosKeyword \<equiv> SyntaxKind 223"
abbreviation PredicateKeyword :: syntax_kind where "PredicateKeyword \<equiv> SyntaxKind 224"
abbreviation PublicKeyword :: syntax_kind where "PublicKeyword \<equiv> SyntaxKind 225"
abbreviation RequiresKeyword :: syntax_kind where "RequiresKeyword \<equiv> SyntaxKind 226"
abbreviation ReturnKeyword :: syntax_kind where "ReturnKeyword \<equiv> SyntaxKind 227"
abbreviation SelfValueKeyword :: syntax_kind where "SelfValueKeyword \<equiv> SyntaxKind 228"
abbreviation SelfTypeKeyword :: syntax_kind where "SelfTypeKeyword \<equiv> SyntaxKind 229"
abbreviation StaticKeyword :: syntax_kind where "StaticKeyword \<equiv> SyntaxKind 230"
abbreviation StructKeyword :: syntax_kind where "StructKeyword \<equiv> SyntaxKind 231"
abbreviation TraitKeyword :: syntax_kind where "TraitKeyword \<equiv> SyntaxKind 232"
abbreviation TrustedKeyword :: syntax_kind where "TrustedKeyword \<equiv> SyntaxKind 233"
abbreviation TrueKeyword :: syntax_kind where "TrueKeyword \<equiv> SyntaxKind 234"
abbreviation TryKeyword :: syntax_kind where "TryKeyword \<equiv> SyntaxKind 235"
abbreviation TypeKeyword :: syntax_kind where "TypeKeyword \<equiv> SyntaxKind 236"
abbreviation UnionKeyword :: syntax_kind where "UnionKeyword \<equiv> SyntaxKind 237"
abbreviation UnitKeyword :: syntax_kind where "UnitKeyword \<equiv> SyntaxKind 238"
abbreviation UsingKeyword :: syntax_kind where "UsingKeyword \<equiv> SyntaxKind 239"
abbreviation UsesKeyword :: syntax_kind where "UsesKeyword \<equiv> SyntaxKind 240"
abbreviation ViewKeyword :: syntax_kind where "ViewKeyword \<equiv> SyntaxKind 241"
abbreviation WhenKeyword :: syntax_kind where "WhenKeyword \<equiv> SyntaxKind 242"
abbreviation WhileKeyword :: syntax_kind where "WhileKeyword \<equiv> SyntaxKind 243"
abbreviation WithKeyword :: syntax_kind where "WithKeyword \<equiv> SyntaxKind 244"
abbreviation YieldKeyword :: syntax_kind where "YieldKeyword \<equiv> SyntaxKind 245"
abbreviation ArrowToken :: syntax_kind where "ArrowToken \<equiv> SyntaxKind 246"
abbreviation EqualsEqualsToken :: syntax_kind where "EqualsEqualsToken \<equiv> SyntaxKind 247"
abbreviation BangEqualsToken :: syntax_kind where "BangEqualsToken \<equiv> SyntaxKind 248"
abbreviation LessEqualsToken :: syntax_kind where "LessEqualsToken \<equiv> SyntaxKind 249"
abbreviation GreaterEqualsToken :: syntax_kind where "GreaterEqualsToken \<equiv> SyntaxKind 250"
abbreviation AmpersandAmpersandToken :: syntax_kind where "AmpersandAmpersandToken \<equiv> SyntaxKind 251"
abbreviation PipePipeToken :: syntax_kind where "PipePipeToken \<equiv> SyntaxKind 252"
abbreviation LessLessToken :: syntax_kind where "LessLessToken \<equiv> SyntaxKind 253"
abbreviation GreaterGreaterToken :: syntax_kind where "GreaterGreaterToken \<equiv> SyntaxKind 254"
abbreviation StarStarToken :: syntax_kind where "StarStarToken \<equiv> SyntaxKind 255"
abbreviation PlusEqualsToken :: syntax_kind where "PlusEqualsToken \<equiv> SyntaxKind 256"
abbreviation MinusEqualsToken :: syntax_kind where "MinusEqualsToken \<equiv> SyntaxKind 257"
abbreviation StarEqualsToken :: syntax_kind where "StarEqualsToken \<equiv> SyntaxKind 258"
abbreviation SlashEqualsToken :: syntax_kind where "SlashEqualsToken \<equiv> SyntaxKind 259"
abbreviation PercentEqualsToken :: syntax_kind where "PercentEqualsToken \<equiv> SyntaxKind 260"
abbreviation AtEqualsToken :: syntax_kind where "AtEqualsToken \<equiv> SyntaxKind 261"
abbreviation AmpersandEqualsToken :: syntax_kind where "AmpersandEqualsToken \<equiv> SyntaxKind 262"
abbreviation PipeEqualsToken :: syntax_kind where "PipeEqualsToken \<equiv> SyntaxKind 263"
abbreviation CaretEqualsToken :: syntax_kind where "CaretEqualsToken \<equiv> SyntaxKind 264"
abbreviation LessLessEqualsToken :: syntax_kind where "LessLessEqualsToken \<equiv> SyntaxKind 265"
abbreviation GreaterGreaterEqualsToken :: syntax_kind where "GreaterGreaterEqualsToken \<equiv> SyntaxKind 266"
abbreviation StarStarEqualsToken :: syntax_kind where "StarStarEqualsToken \<equiv> SyntaxKind 267"
abbreviation EllipsisToken :: syntax_kind where "EllipsisToken \<equiv> SyntaxKind 268"
abbreviation DotDotToken :: syntax_kind where "DotDotToken \<equiv> SyntaxKind 269"
abbreviation OpenParenToken :: syntax_kind where "OpenParenToken \<equiv> SyntaxKind 270"
abbreviation CloseParenToken :: syntax_kind where "CloseParenToken \<equiv> SyntaxKind 271"
abbreviation OpenBraceToken :: syntax_kind where "OpenBraceToken \<equiv> SyntaxKind 272"
abbreviation CloseBraceToken :: syntax_kind where "CloseBraceToken \<equiv> SyntaxKind 273"
abbreviation OpenBracketToken :: syntax_kind where "OpenBracketToken \<equiv> SyntaxKind 274"
abbreviation CloseBracketToken :: syntax_kind where "CloseBracketToken \<equiv> SyntaxKind 275"
abbreviation CommaToken :: syntax_kind where "CommaToken \<equiv> SyntaxKind 276"
abbreviation SemicolonToken :: syntax_kind where "SemicolonToken \<equiv> SyntaxKind 277"
abbreviation ColonToken :: syntax_kind where "ColonToken \<equiv> SyntaxKind 278"
abbreviation DotToken :: syntax_kind where "DotToken \<equiv> SyntaxKind 279"
abbreviation QuestionToken :: syntax_kind where "QuestionToken \<equiv> SyntaxKind 280"
abbreviation EqualsToken :: syntax_kind where "EqualsToken \<equiv> SyntaxKind 281"
abbreviation PlusToken :: syntax_kind where "PlusToken \<equiv> SyntaxKind 282"
abbreviation MinusToken :: syntax_kind where "MinusToken \<equiv> SyntaxKind 283"
abbreviation StarToken :: syntax_kind where "StarToken \<equiv> SyntaxKind 284"
abbreviation SlashToken :: syntax_kind where "SlashToken \<equiv> SyntaxKind 285"
abbreviation PercentToken :: syntax_kind where "PercentToken \<equiv> SyntaxKind 286"
abbreviation AtToken :: syntax_kind where "AtToken \<equiv> SyntaxKind 287"
abbreviation AmpersandToken :: syntax_kind where "AmpersandToken \<equiv> SyntaxKind 288"
abbreviation PipeToken :: syntax_kind where "PipeToken \<equiv> SyntaxKind 289"
abbreviation CaretToken :: syntax_kind where "CaretToken \<equiv> SyntaxKind 290"
abbreviation TildeToken :: syntax_kind where "TildeToken \<equiv> SyntaxKind 291"
abbreviation BangToken :: syntax_kind where "BangToken \<equiv> SyntaxKind 292"
abbreviation LessToken :: syntax_kind where "LessToken \<equiv> SyntaxKind 293"
abbreviation GreaterToken :: syntax_kind where "GreaterToken \<equiv> SyntaxKind 294"
abbreviation UnderscoreToken :: syntax_kind where "UnderscoreToken \<equiv> SyntaxKind 295"
abbreviation WhitespaceTrivia :: syntax_kind where "WhitespaceTrivia \<equiv> SyntaxKind 296"
abbreviation LineCommentTrivia :: syntax_kind where "LineCommentTrivia \<equiv> SyntaxKind 297"
abbreviation BlockCommentTrivia :: syntax_kind where "BlockCommentTrivia \<equiv> SyntaxKind 298"
abbreviation DocumentationLineCommentTrivia :: syntax_kind where "DocumentationLineCommentTrivia \<equiv> SyntaxKind 299"
abbreviation DocumentationBlockCommentTrivia :: syntax_kind where "DocumentationBlockCommentTrivia \<equiv> SyntaxKind 300"

definition syntax_kind_count :: nat where
  "syntax_kind_count = 301"

definition is_node :: "syntax_kind \<Rightarrow> bool" where
  "is_node k \<longleftrightarrow> k \<in> set [
     SourceUnit, CompilationUnit, SourceUnitModuleDeclaration, BlockModuleDeclaration,
     ModuleDirectives, TargetDirective, TestDirective, LinkDirective, AbiDirective,
     SymbolDirective, EntrypointDirective, DirectiveArgumentList, DirectiveArgument,
     ModuleModifiers, ModuleBody, UsingDeclaration, ExportDeclaration, ConstantDeclaration,
     ConstantModifiers, StaticDeclaration, StaticDirectives, ThreadLocalDirective,
     StaticDeclarationModifiers, FunctionDeclaration, FunctionDirectives, FunctionModifiers,
     GenericParameterList, GenericTypeParameter, GenericConstParameter, GenericArgumentList,
     GenericArgument, TypeFormArgumentList, TypeFormArgument, PredicateDeclaration,
     PredicateModifiers, PredicateParameterList, PredicateParameter,
     CallableContractDeclaration, CallableContractModifiers, RequiresClause, EnsuresClause,
     WhenClause, ExecutesClause, ExecutionProperty, WithClause, UsesClause, OverloadModifiers,
     CallableOverloadDeclaration, ImplementationOverloadDeclaration,
     ImplementationOverloadSubject, OverloadArmList, OverloadArm, StructDeclaration,
     TypeDirectives, LayoutDirective, CopyDirective, TagDirective, TypeModifiers, StructBody,
     FieldModifiers, StructFieldDeclaration, UnionDeclaration, UnionBody, VariantDirectives,
     UnionVariantDeclaration, UnionVariantPayload, UnionPayloadField, PayloadFieldModifiers,
     TraitDeclaration, TraitModifiers, TraitBody, TraitConstantMemberDeclaration,
     TraitTypeMemberDeclaration, TraitPredicateMemberModifiers,
     TraitPredicateMemberDeclaration, TraitCallableMemberModifiers,
     TraitCallableMemberDeclaration, ImplementationSubject, TraitApplication,
     InherentImplementationDeclaration, ImplementationBody, ImplementationTypeMemberBinding,
     UnnamedTraitImplementationDeclaration, NamedTraitImplementationDeclaration,
     ConstructorMemberModifiers, TypeConstructorMemberDeclaration,
     AsyncCapableLifecycleMemberModifiers, ScopeEnterMemberModifiers,
     SyncLifecycleMemberModifiers, FinalizerMemberDeclaration, DestructorMemberDeclaration,
     ScopeEnterMemberDeclaration, ScopeExitMemberDeclaration,
     TraitFinalizerRequirementDeclaration, TraitDestructorRequirementDeclaration,
     TraitScopeEnterRequirementDeclaration, TraitScopeExitRequirementDeclaration,
     TypeCallableMemberModifiers, TypeCallableMemberDeclaration, CallableDirectives,
     CallableModifiers, ParameterList, Parameter, ParameterModifiers, CallableResultClause,
     CallableBodyBlockExpression, Expression, PrimaryExpression, AccessExpression,
     MemberAccessOperation, ElementIndexOperation, CallOperation, SliceIndexOperation,
     NullablePropagationOperation, ConversionOperation, ArgumentList, Argument,
     StructConstructionBody, StructFieldInitializer, LiteralExpression, UnitExpression,
     AbsenceExpression, GroupedExpression, TupleExpression, ArrayExpression,
     GeneralGeneratorExpression, GeneratorIterationExpression, LeadingDotVariantExpression,
     BlockExpression, BlockItem, LocalBindingDeclaration, SequencedExpression,
     ConditionalExpression, ConditionalElse, MatchExpression, MatchSubject, MatchBody,
     MatchArm, WhileExpression, ForExpression, IterationSource, LoopExpression, WithExpression,
     LambdaExpression, BorrowExpression, TrustBoundaryExpression, AssertionExpression,
     ResultPropagationExpression, CatchExpression, AwaitExpression,
     TypeFormConstructionExpression, BooleanFoldExpression, YieldExpression, ReturnExpression,
     PanicExpression, BreakExpression, ContinueExpression, IrrefutablePattern,
     IrrefutablePatternEntry, CasePattern, CasePatternEntry, TypeExpression, TypeAnnotation,
     TypedIdentifier, Path, IdentifierList, IdentifierListItem, SkippedSyntax]"

definition is_trivia :: "syntax_kind \<Rightarrow> bool" where
  "is_trivia k \<longleftrightarrow> k \<in> set [
     WhitespaceTrivia, LineCommentTrivia, BlockCommentTrivia, DocumentationLineCommentTrivia,
     DocumentationBlockCommentTrivia]"

definition is_token :: "syntax_kind \<Rightarrow> bool" where
  "is_token k \<longleftrightarrow> \<not> is_node k \<and> \<not> is_trivia k"

definition is_keyword :: "syntax_kind \<Rightarrow> bool" where
  "is_keyword k \<longleftrightarrow> k \<in> set [
     AllKeyword, AnyKeyword, AsKeyword, AssertKeyword, AsyncKeyword, AwaitKeyword, BoxKeyword,
     BreakKeyword, CallableKeyword, CaseKeyword, CatchKeyword, ConstKeyword, ConstructKeyword,
     ConsumeKeyword, ContinueKeyword, DestructKeyword, EachKeyword, ElseKeyword,
     EnsuresKeyword, ExecutesKeyword, EnterKeyword, ExitKeyword, ExportKeyword, ExternKeyword,
     FalseKeyword, FinalizeKeyword, ForKeyword, FuncKeyword, IfKeyword, ImplKeyword, InKeyword,
     InternalKeyword, LambdaKeyword, LetKeyword, LoopKeyword, MatchKeyword, MatchesKeyword,
     ModuleKeyword, MoveKeyword, MutKeyword, NoneKeyword, OverloadKeyword, PanicKeyword,
     PosKeyword, PredicateKeyword, PublicKeyword, RequiresKeyword, ReturnKeyword,
     SelfValueKeyword, SelfTypeKeyword, StaticKeyword, StructKeyword, TraitKeyword,
     TrustedKeyword, TrueKeyword, TryKeyword, TypeKeyword, UnionKeyword, UnitKeyword,
     UsingKeyword, UsesKeyword, ViewKeyword, WhenKeyword, WhileKeyword, WithKeyword,
     YieldKeyword]"

definition is_literal :: "syntax_kind \<Rightarrow> bool" where
  "is_literal k \<longleftrightarrow> k \<in> set [
     DecimalIntegerLiteralToken, BinaryIntegerLiteralToken, HexadecimalIntegerLiteralToken,
     RealLiteralToken, ImaginaryLiteralToken, CharacterLiteralToken, StringLiteralToken,
     ByteStringLiteralToken]"

definition is_expression_operator :: "syntax_kind \<Rightarrow> bool" where
  "is_expression_operator k \<longleftrightarrow> k \<in> set [
     EqualsToken, PlusEqualsToken, MinusEqualsToken, StarEqualsToken, SlashEqualsToken,
     PercentEqualsToken, AtEqualsToken, AmpersandEqualsToken, PipeEqualsToken,
     CaretEqualsToken, LessLessEqualsToken, GreaterGreaterEqualsToken, StarStarEqualsToken,
     EllipsisToken, DotDotToken, PipePipeToken, AmpersandAmpersandToken, EqualsEqualsToken,
     MatchesKeyword, BangEqualsToken, LessToken, LessEqualsToken, GreaterToken,
     GreaterEqualsToken, PipeToken, CaretToken, AmpersandToken, LessLessToken,
     GreaterGreaterToken, PlusToken, MinusToken, StarToken, SlashToken, PercentToken, AtToken,
     StarStarToken, TildeToken, BangToken, ColonToken]"

definition is_visibility_modifier :: "syntax_kind \<Rightarrow> bool" where
  "is_visibility_modifier k \<longleftrightarrow> k \<in> {PublicKeyword, InternalKeyword}"

definition is_block_shaped_expression :: "syntax_kind \<Rightarrow> bool" where
  "is_block_shaped_expression k \<longleftrightarrow> k \<in> {BlockExpression, ConditionalExpression, MatchExpression,
     WhileExpression, ForExpression, LoopExpression, WithExpression}"

definition is_pattern_literal :: "syntax_kind \<Rightarrow> bool" where
  "is_pattern_literal k \<longleftrightarrow> is_literal k \<or> k \<in> {TrueKeyword, FalseKeyword}"

definition is_contribution_gate_directive :: "syntax_kind \<Rightarrow> bool" where
  "is_contribution_gate_directive k \<longleftrightarrow> k \<in> {TargetDirective, TestDirective}"

definition directive_names :: "(syntax_kind \<times> string) list" where
  "directive_names = [
     (TargetDirective, ''target''), (TestDirective, ''test''), (LinkDirective, ''link''),
     (LayoutDirective, ''layout''), (CopyDirective, ''copy''), (TagDirective, ''tag''),
     (AbiDirective, ''abi''), (SymbolDirective, ''symbol''),
     (EntrypointDirective, ''entrypoint''), (ThreadLocalDirective, ''thread_local'')]"

definition directive_from_name :: "string \<Rightarrow> syntax_kind option" where
  "directive_from_name name = map_option fst (find (\<lambda>(_, candidate). candidate = name) directive_names)"

definition directive_name :: "syntax_kind \<Rightarrow> string option" where
  "directive_name k = map_option snd (find (\<lambda>(kind, _). kind = k) directive_names)"

definition fixed_syntax_text :: "(string \<times> syntax_kind) list" where
  "fixed_syntax_text = [
     (''all'', AllKeyword), (''any'', AnyKeyword), (''as'', AsKeyword),
     (''assert'', AssertKeyword), (''async'', AsyncKeyword), (''await'', AwaitKeyword),
     (''box'', BoxKeyword), (''break'', BreakKeyword), (''callable'', CallableKeyword),
     (''case'', CaseKeyword), (''catch'', CatchKeyword), (''const'', ConstKeyword),
     (''construct'', ConstructKeyword), (''consume'', ConsumeKeyword),
     (''continue'', ContinueKeyword), (''destruct'', DestructKeyword), (''each'', EachKeyword),
     (''else'', ElseKeyword), (''ensures'', EnsuresKeyword), (''executes'', ExecutesKeyword),
     (''enter'', EnterKeyword), (''exit'', ExitKeyword), (''export'', ExportKeyword),
     (''extern'', ExternKeyword), (''false'', FalseKeyword), (''finalize'', FinalizeKeyword),
     (''for'', ForKeyword), (''func'', FuncKeyword), (''if'', IfKeyword),
     (''impl'', ImplKeyword), (''in'', InKeyword), (''internal'', InternalKeyword),
     (''lambda'', LambdaKeyword), (''let'', LetKeyword), (''loop'', LoopKeyword),
     (''match'', MatchKeyword), (''matches'', MatchesKeyword), (''module'', ModuleKeyword),
     (''move'', MoveKeyword), (''mut'', MutKeyword), (''none'', NoneKeyword),
     (''overload'', OverloadKeyword), (''panic'', PanicKeyword), (''pos'', PosKeyword),
     (''predicate'', PredicateKeyword), (''public'', PublicKeyword),
     (''requires'', RequiresKeyword), (''return'', ReturnKeyword),
     (''self'', SelfValueKeyword), (''Self'', SelfTypeKeyword), (''static'', StaticKeyword),
     (''struct'', StructKeyword), (''trait'', TraitKeyword), (''trusted'', TrustedKeyword),
     (''true'', TrueKeyword), (''try'', TryKeyword), (''type'', TypeKeyword),
     (''union'', UnionKeyword), (''unit'', UnitKeyword), (''using'', UsingKeyword),
     (''uses'', UsesKeyword), (''view'', ViewKeyword), (''when'', WhenKeyword),
     (''while'', WhileKeyword), (''with'', WithKeyword), (''yield'', YieldKeyword),
     (''->'', ArrowToken), (''=='', EqualsEqualsToken), (''!='', BangEqualsToken),
     (''<='', LessEqualsToken), (''>='', GreaterEqualsToken),
     (''&&'', AmpersandAmpersandToken), (''||'', PipePipeToken), (''<<'', LessLessToken),
     (''>>'', GreaterGreaterToken), (''**'', StarStarToken), (''+='', PlusEqualsToken),
     (''-='', MinusEqualsToken), (''*='', StarEqualsToken), (''/='', SlashEqualsToken),
     (''%='', PercentEqualsToken), (''@='', AtEqualsToken), (''&='', AmpersandEqualsToken),
     (''|='', PipeEqualsToken), (''^='', CaretEqualsToken), (''<<='', LessLessEqualsToken),
     (''>>='', GreaterGreaterEqualsToken), (''**='', StarStarEqualsToken),
     (''...'', EllipsisToken), (''..'', DotDotToken), ('':'', ColonToken), (''.'', DotToken),
     (''?'', QuestionToken), (''='', EqualsToken), (''+'', PlusToken), (''-'', MinusToken),
     (''*'', StarToken), (''/'', SlashToken), (''%'', PercentToken), (''@'', AtToken),
     (''&'', AmpersandToken), (''|'', PipeToken), (''^'', CaretToken), (''~'', TildeToken),
     (''!'', BangToken), (''<'', LessToken), (''>'', GreaterToken), (''('', OpenParenToken),
     ('')'', CloseParenToken), (''{'', OpenBraceToken), (''}'', CloseBraceToken),
     (''['', OpenBracketToken), ('']'', CloseBracketToken), ('','', CommaToken),
     ('';'', SemicolonToken), (''_'', UnderscoreToken)]"

definition fixed_text :: "syntax_kind \<Rightarrow> string option" where
  "fixed_text k = map_option fst (find (\<lambda>(_, kind). kind = k) fixed_syntax_text)"

definition from_fixed_text :: "string \<Rightarrow> syntax_kind option" where
  "from_fixed_text t = map_option snd (find (\<lambda>(text, _). text = t) fixed_syntax_text)"

subsection \<open>The spelling table\<close>

lemma fixed_text_distinct:
  "distinct (map fst fixed_syntax_text)" "distinct (map snd fixed_syntax_text)"
  unfolding fixed_syntax_text_def by simp_all

lemma find_fst_map_of: "map_option snd (find (\<lambda>(a, _). a = x) ps) = map_of ps x"
  by (induction ps) auto

lemma find_snd_map_of:
  "map_option fst (find (\<lambda>(_, b). b = y) ps) = map_of (map (\<lambda>(a, b). (b, a)) ps) y"
  by (induction ps) auto

lemma map_of_swap:
  assumes "distinct (map fst ps)" "distinct (map snd ps)"
  shows "map_of ps x = Some y \<longleftrightarrow> map_of (map (\<lambda>(a, b). (b, a)) ps) y = Some x"
proof -
  have "distinct (map fst (map (\<lambda>(a, b). (b, a)) ps))"
    using assms(2) by (simp add: comp_def case_prod_beta)
  with assms show ?thesis
    by (subst (1 2) map_of_eq_Some_iff) auto
qed

lemma from_fixed_text_iff: "from_fixed_text t = Some k \<longleftrightarrow> fixed_text k = Some t"
  unfolding from_fixed_text_def fixed_text_def find_fst_map_of find_snd_map_of
  by (rule map_of_swap [OF fixed_text_distinct])

text \<open>
  The two directions of the fixed-spelling table agree: a spelling classifies to a kind exactly
  when that kind is printed with the spelling.
\<close>

theorem fixed_text_roundtrip: "from_fixed_text t = Some k \<longleftrightarrow> fixed_text k = Some t"
  by (rule from_fixed_text_iff)

lemma directive_names_roundtrip: "directive_from_name n = Some k \<longleftrightarrow> directive_name k = Some n"
proof -
  have "distinct (map snd directive_names)" "distinct (map fst directive_names)"
    unfolding directive_names_def by simp_all
  then show ?thesis
    unfolding directive_from_name_def directive_name_def find_fst_map_of find_snd_map_of
    by (subst map_of_swap) (auto simp: comp_def case_prod_beta)
qed

subsection \<open>Token kinds\<close>

lemma is_node_discriminant: "is_node k \<Longrightarrow> discriminant k < 168"
  unfolding is_node_def by (simp only: set_simps insert_iff empty_iff) auto

lemma is_trivia_discriminant: "is_trivia k \<Longrightarrow> 296 \<le> discriminant k"
  unfolding is_trivia_def by auto

lemma is_tokenI [simp]: "168 \<le> discriminant k \<Longrightarrow> discriminant k < 296 \<Longrightarrow> is_token k"
  using is_node_discriminant is_trivia_discriminant unfolding is_token_def by fastforce

text \<open>Every fixed spelling is nonempty and belongs to a token kind.\<close>

lemma from_fixed_text_token:
  assumes "from_fixed_text t = Some k"
  shows "is_token k" and "t \<noteq> []" and "k \<noteq> EndOfFileToken" and "k \<noteq> InvalidToken"
proof -
  from assms have tk: "(t, k) \<in> set fixed_syntax_text"
    unfolding from_fixed_text_def find_fst_map_of by (rule map_of_SomeD)
  have "list_all (\<lambda>(t, k). t \<noteq> [] \<and> 180 \<le> discriminant k \<and> discriminant k < 296) fixed_syntax_text"
    unfolding fixed_syntax_text_def by simp
  with tk have "t \<noteq> [] \<and> 180 \<le> discriminant k \<and> discriminant k < 296"
    by (auto simp: list_all_iff)
  then show "is_token k" "t \<noteq> []" "k \<noteq> EndOfFileToken" "k \<noteq> InvalidToken"
    by auto
qed

text \<open>Kinds without a fixed spelling come before the keywords.\<close>

lemma fixed_text_discriminant:
  assumes "fixed_text k = Some t"
  shows "180 \<le> discriminant k"
proof -
  from assms have "from_fixed_text t = Some k" by (simp add: from_fixed_text_iff)
  then have tk: "(t, k) \<in> set fixed_syntax_text"
    unfolding from_fixed_text_def find_fst_map_of by (rule map_of_SomeD)
  have "list_all (\<lambda>(t, k). 180 \<le> discriminant k) fixed_syntax_text"
    unfolding fixed_syntax_text_def by simp
  with tk show ?thesis by (auto simp: list_all_iff)
qed



end
