(* ===== verification/Syntax_Tokens.thy ===== *)
theory Syntax_Tokens
  imports Syntax_Kinds Source_Text
begin

text \<open>
  Tokens and trivia (\<open>crates/bray-syntax/src/token.rs\<close>, \<open>trivia.rs\<close>). A token keeps its kind, its
  byte range, its presence and the trivia attached on both sides; text is resolved from the source
  by range. The constructors assert what the source asserts.
\<close>

record syntax_trivia =
  trivia_kind :: syntax_kind
  trivia_range :: text_range

definition trivia_new :: "syntax_kind \<Rightarrow> text_range \<Rightarrow> syntax_trivia run" where
  "trivia_new k r = do { assert_run (is_trivia k); Some \<lparr>trivia_kind = k, trivia_range = r\<rparr> }"

abbreviation trivia_start :: "syntax_trivia \<Rightarrow> text_size" where
  "trivia_start t \<equiv> tr_start (trivia_range t)"

abbreviation trivia_end :: "syntax_trivia \<Rightarrow> text_size" where
  "trivia_end t \<equiv> tr_end (trivia_range t)"

datatype token_presence = Present | Missing

record syntax_token =
  tok_kind :: syntax_kind
  tok_range :: text_range
  tok_presence :: token_presence
  leading_trivia :: "syntax_trivia list"
  trailing_trivia :: "syntax_trivia list"

definition token_with_trivia_and_presence ::
    "syntax_kind \<Rightarrow> text_range \<Rightarrow> token_presence \<Rightarrow> syntax_trivia list \<Rightarrow> syntax_trivia list
     \<Rightarrow> syntax_token run" where
  "token_with_trivia_and_presence k r p lead trail = do {
     assert_run (is_token k);
     assert_run (p = Present \<or> text_range_is_empty r \<and> lead = [] \<and> trail = []);
     Some \<lparr>tok_kind = k, tok_range = r, tok_presence = p, leading_trivia = lead,
       trailing_trivia = trail\<rparr>
   }"

definition token_with_trivia ::
    "syntax_kind \<Rightarrow> text_range \<Rightarrow> syntax_trivia list \<Rightarrow> syntax_trivia list \<Rightarrow> syntax_token run" where
  "token_with_trivia k r lead trail = token_with_trivia_and_presence k r Present lead trail"

definition token_new :: "syntax_kind \<Rightarrow> text_range \<Rightarrow> syntax_token run" where
  "token_new k r = token_with_trivia k r [] []"

definition token_end_of_file :: "text_size \<Rightarrow> syntax_token run" where
  "token_end_of_file offset = token_new EndOfFileToken (text_range_empty offset)"

definition token_missing :: "syntax_kind \<Rightarrow> text_size \<Rightarrow> syntax_token run" where
  "token_missing k offset = token_with_trivia_and_presence k (text_range_empty offset) Missing [] []"

definition token_invalid :: "text_range \<Rightarrow> syntax_token run" where
  "token_invalid r = token_new InvalidToken r"

definition token_with_kind :: "syntax_kind \<Rightarrow> syntax_token \<Rightarrow> syntax_token run" where
  "token_with_kind k t = do { assert_run (is_token k); Some (t\<lparr>tok_kind := k\<rparr>) }"

definition with_leading_trivia :: "syntax_trivia list \<Rightarrow> syntax_token \<Rightarrow> syntax_token run" where
  "with_leading_trivia ts t = do {
     assert_run (tok_presence t = Present \<or> ts = []);
     Some (t\<lparr>leading_trivia := ts\<rparr>)
   }"

definition with_trailing_trivia :: "syntax_trivia list \<Rightarrow> syntax_token \<Rightarrow> syntax_token run" where
  "with_trailing_trivia ts t = do {
     assert_run (tok_presence t = Present \<or> ts = []);
     Some (t\<lparr>trailing_trivia := ts\<rparr>)
   }"

definition is_end_of_file :: "syntax_token \<Rightarrow> bool" where
  "is_end_of_file t \<longleftrightarrow> tok_kind t = EndOfFileToken"

abbreviation tok_start :: "syntax_token \<Rightarrow> text_size" where
  "tok_start t \<equiv> tr_start (tok_range t)"

abbreviation tok_end :: "syntax_token \<Rightarrow> text_size" where
  "tok_end t \<equiv> tr_end (tok_range t)"

definition full_range :: "syntax_token \<Rightarrow> text_range" where
  "full_range t =
     (let with_leading = (case leading_trivia t of
            [] \<Rightarrow> tok_range t
          | first # _ \<Rightarrow> text_range_cover (trivia_range first) (tok_range t))
      in if trailing_trivia t = [] then with_leading
         else text_range_cover with_leading (trivia_range (last (trailing_trivia t))))"

definition trivia_text :: "syntax_trivia \<Rightarrow> string \<Rightarrow> string option" where
  "trivia_text t source = text_range_slice_str (trivia_range t) source"

definition token_source_text :: "syntax_token \<Rightarrow> string \<Rightarrow> string option" where
  "token_source_text t source = text_range_slice_str (tok_range t) source"

definition required_text :: "string \<Rightarrow> text_range \<Rightarrow> string run" where
  "required_text source r = text_range_slice_str r source"

fun required_texts :: "string \<Rightarrow> text_range list \<Rightarrow> string run" where
  "required_texts source [] = Some []"
| "required_texts source (r # rs) = do {
     t \<leftarrow> required_text source r;
     ts \<leftarrow> required_texts source rs;
     Some (t @ ts)
   }"

definition token_full_text :: "syntax_token \<Rightarrow> string \<Rightarrow> string run" where
  "token_full_text t source =
     required_texts source (map trivia_range (leading_trivia t) @ [tok_range t]
       @ map trivia_range (trailing_trivia t))"

subsection \<open>Contiguous ranges\<close>

text \<open>
  \<open>tiles source i rs j\<close>: the ranges \<open>rs\<close> cover the source from \<open>i\<close> to \<open>j\<close> without gap or overlap,
  and every cut is a character boundary.
\<close>

fun tiles :: "string \<Rightarrow> nat \<Rightarrow> text_range list \<Rightarrow> nat \<Rightarrow> bool" where
  "tiles source i [] j \<longleftrightarrow> i = j \<and> is_char_boundary source i"
| "tiles source i (r # rs) j \<longleftrightarrow>
     tr_start r = i \<and> i \<le> tr_end r \<and> is_char_boundary source i \<and> tiles source (tr_end r) rs j"

lemma tiles_bounds: "tiles s i rs j \<Longrightarrow> i \<le> j \<and> is_char_boundary s i \<and> is_char_boundary s j"
  by (induction rs arbitrary: i) fastforce+

lemma tiles_append:
  "tiles s i (rs @ qs) k \<longleftrightarrow> (\<exists>j. tiles s i rs j \<and> tiles s j qs k)"
  by (induction rs arbitrary: i) (auto dest: tiles_bounds)

text \<open>Tiling ranges resolve to exactly the text between the two ends.\<close>

lemma tiles_required_texts: "tiles s i rs j \<Longrightarrow> required_texts s rs = Some (segment s i j)"
proof (induction rs arbitrary: i)
  case (Cons r rs)
  then have b: "is_char_boundary s (tr_end r)" "tr_end r \<le> j"
    using tiles_bounds [of s "tr_end r" rs j] by auto
  from Cons have "required_texts s rs = Some (segment s (tr_end r) j)" by simp
  with Cons.prems b show ?case
    by (simp add: required_text_def text_range_slice_str_def str_get_range_def segment_append)
qed simp

text \<open>The ranges of a token in source order, and the condition that its trivia touch it.\<close>

definition token_ranges :: "syntax_token \<Rightarrow> text_range list" where
  "token_ranges t = map trivia_range (leading_trivia t) @ [tok_range t]
     @ map trivia_range (trailing_trivia t)"

lemma token_full_text_tiles:
  "tiles s i (token_ranges t) j \<Longrightarrow> token_full_text t s = Some (segment s i j)"
  unfolding token_full_text_def token_ranges_def by (rule tiles_required_texts)

fun full_texts :: "string \<Rightarrow> syntax_token list \<Rightarrow> string run" where
  "full_texts source [] = Some []"
| "full_texts source (t # ts) = do {
     x \<leftarrow> token_full_text t source;
     xs \<leftarrow> full_texts source ts;
     Some (x @ xs)
   }"

lemma tiles_full_texts:
  "tiles source i (concat (map token_ranges ts)) j \<Longrightarrow> full_texts source ts = Some (segment source i j)"
proof (induction ts arbitrary: i)
  case (Cons t ts)
  then obtain k where k: "tiles source i (token_ranges t) k"
    "tiles source k (concat (map token_ranges ts)) j" by (auto simp: tiles_append)
  then have "i \<le> k" "k \<le> j" by (auto dest: tiles_bounds)
  with k Cons.IH [OF k(2)] token_full_text_tiles [OF k(1)] show ?case by (simp add: segment_append)
qed auto

lemma tiles_first: "tiles s i (r # rs) j \<Longrightarrow> tr_start r = i"
  by simp

lemma tiles_last: "tiles s i rs j \<Longrightarrow> rs \<noteq> [] \<Longrightarrow> tr_end (last rs) = j"
  by (induction rs arbitrary: i) auto

lemma full_range_tiles:
  assumes "tiles s i (token_ranges t) j"
  shows "full_range t = \<lparr>tr_start = i, tr_end = j\<rparr>"
proof -
  from assms obtain a b where lead: "tiles s i (map trivia_range (leading_trivia t)) a"
    and tok: "tr_start (tok_range t) = a" "a \<le> tr_end (tok_range t)" "tr_end (tok_range t) = b"
    and trail: "tiles s b (map trivia_range (trailing_trivia t)) j"
    by (auto simp: token_ranges_def tiles_append)
  have ia: "i \<le> a" and bj: "b \<le> j"
    using tiles_bounds [OF lead] tiles_bounds [OF trail] by auto
  have first: "(case leading_trivia t of [] \<Rightarrow> tok_range t
      | f # _ \<Rightarrow> text_range_cover (trivia_range f) (tok_range t)) = \<lparr>tr_start = i, tr_end = b\<rparr>"
  proof (cases "leading_trivia t")
    case Nil
    with lead tok show ?thesis by simp
  next
    case (Cons f fs)
    with lead have "tr_start (trivia_range f) = i" "tr_end (trivia_range f) \<le> a"
      using tiles_bounds [of s "tr_end (trivia_range f)" "map trivia_range fs" a] by auto
    with Cons tok ia show ?thesis by (simp add: text_range_cover_def)
  qed
  show ?thesis
  proof (cases "trailing_trivia t = []")
    case True
    with trail first show ?thesis by (simp add: full_range_def)
  next
    case False
    then have "tr_end (trivia_range (last (trailing_trivia t))) = j"
      using tiles_last [OF trail] by (simp add: last_map)
    moreover have "b \<le> tr_start (trivia_range (last (trailing_trivia t)))"
    proof -
      from False obtain xs x where x: "trailing_trivia t = xs @ [x]"
        by (metis rev_exhaust)
      with trail obtain c where "tiles s b (map trivia_range xs) c" "tr_start (trivia_range x) = c"
        by (auto simp: tiles_append)
      with tiles_bounds [of s b "map trivia_range xs" c] x show ?thesis by simp
    qed
    ultimately show ?thesis
      using False first tok ia bj by (simp add: full_range_def text_range_cover_def)
  qed
qed

lemma token_new_simps [simp, run_simps]:
  "token_new k r = Some t \<longleftrightarrow> is_token k \<and> t = \<lparr>tok_kind = k, tok_range = r, tok_presence = Present,
     leading_trivia = [], trailing_trivia = []\<rparr>"
  by (auto simp: token_new_def token_with_trivia_def token_with_trivia_and_presence_def run_simps)

lemma trivia_new_simps [simp, run_simps]:
  "trivia_new k r = Some t \<longleftrightarrow> is_trivia k \<and> t = \<lparr>trivia_kind = k, trivia_range = r\<rparr>"
  by (auto simp: trivia_new_def run_simps)

end
