(* ===== verification/Green_Tree.thy ===== *)
theory Green_Tree
  imports Syntax_Tokens
begin

text \<open>
  The syntax tree (\<open>crates/bray-syntax/src/green.rs\<close>, \<open>builder.rs\<close>). A green node stores a kind,
  the width of its children and the children; a green token stores widths only, so that the
  positions are computed from the start of the tree while iterating. The iterators keep an explicit
  stack of child cursors, as the code does; the top of the code's stack is the head of the list
  here. Widths are added with a check that panics on overflow.

  The lemmas show that the constructors build well-formed trees, that a token survives the way into
  the tree and back, that the iterators return exactly the tokens and nodes of the tree in source
  order, and that this sequence depends on the leaves alone and not on how they are nested.
\<close>

subsection \<open>Tokens without positions\<close>

record green_trivia =
  green_trivia_kind :: syntax_kind
  green_trivia_width :: text_size

record green_token =
  green_kind :: syntax_kind
  green_width :: text_size
  green_presence :: token_presence
  green_full_width :: text_size
  green_leading :: "green_trivia list"
  green_trailing :: "green_trivia list"

definition green_checked_add :: "text_size \<Rightarrow> text_size \<Rightarrow> text_size run" where
  "green_checked_add lhs rhs = (case text_size_checked_add lhs rhs of
     Some v \<Rightarrow> Some v
   | None \<Rightarrow> panic)"

definition from_syntax_trivia :: "syntax_trivia \<Rightarrow> green_trivia run" where
  "from_syntax_trivia t = do {
     w \<leftarrow> text_range_len (trivia_range t);
     Some \<lparr>green_trivia_kind = trivia_kind t, green_trivia_width = w\<rparr>
   }"

definition green_syntax_trivia :: "green_trivia \<Rightarrow> text_size \<Rightarrow> syntax_trivia run" where
  "green_syntax_trivia g start = do {
     e \<leftarrow> green_checked_add start (green_trivia_width g);
     r \<leftarrow> text_range_new start e;
     trivia_new (green_trivia_kind g) r
   }"

fun trivia_width_loop :: "text_size \<Rightarrow> green_trivia list \<Rightarrow> text_size run" where
  "trivia_width_loop full_width [] = Some full_width"
| "trivia_width_loop full_width (t # ts) = do {
     w \<leftarrow> green_checked_add full_width (green_trivia_width t);
     trivia_width_loop w ts
   }"

definition full_width_for_token ::
    "text_size \<Rightarrow> green_trivia list \<Rightarrow> green_trivia list \<Rightarrow> text_size run" where
  "full_width_for_token width lead trail = trivia_width_loop width (lead @ trail)"

definition from_syntax_token :: "syntax_token \<Rightarrow> green_token run" where
  "from_syntax_token t = do {
     lead \<leftarrow> those (map from_syntax_trivia (leading_trivia t));
     trail \<leftarrow> those (map from_syntax_trivia (trailing_trivia t));
     w \<leftarrow> text_range_len (tok_range t);
     full \<leftarrow> full_width_for_token w lead trail;
     Some \<lparr>green_kind = tok_kind t, green_width = w, green_presence = tok_presence t,
       green_full_width = full, green_leading = lead, green_trailing = trail\<rparr>
   }"

fun syntax_trivia_list :: "green_trivia list \<Rightarrow> text_size \<Rightarrow> (syntax_trivia list \<times> text_size) run" where
  "syntax_trivia_list [] offset = Some ([], offset)"
| "syntax_trivia_list (g # gs) offset = do {
     t \<leftarrow> green_syntax_trivia g offset;
     (ts, e) \<leftarrow> syntax_trivia_list gs (trivia_end t);
     Some (t # ts, e)
   }"

definition green_syntax_token :: "green_token \<Rightarrow> text_size \<Rightarrow> syntax_token run" where
  "green_syntax_token g start = do {
     (lead, token_start) \<leftarrow> syntax_trivia_list (green_leading g) start;
     token_end \<leftarrow> green_checked_add token_start (green_width g);
     (trail, _) \<leftarrow> syntax_trivia_list (green_trailing g) token_end;
     r \<leftarrow> text_range_new token_start token_end;
     token_with_trivia_and_presence (green_kind g) r (green_presence g) lead trail
   }"

subsection \<open>Nodes\<close>

datatype green_element =
    TokenElement green_token
  | NodeElement green_node
and green_node =
    GreenNode (node_kind: syntax_kind) (node_full_width: text_size) (node_children: "green_element list")

fun element_full_width :: "green_element \<Rightarrow> text_size" where
  "element_full_width (TokenElement t) = green_full_width t"
| "element_full_width (NodeElement n) = node_full_width n"

fun children_width_loop :: "text_size \<Rightarrow> green_element list \<Rightarrow> text_size run" where
  "children_width_loop width [] = Some width"
| "children_width_loop width (c # cs) = do {
     w \<leftarrow> green_checked_add width (element_full_width c);
     children_width_loop w cs
   }"

definition full_width_for_children :: "green_element list \<Rightarrow> text_size run" where
  "full_width_for_children children = children_width_loop 0 children"

definition green_node_new :: "syntax_kind \<Rightarrow> green_element list \<Rightarrow> green_node run" where
  "green_node_new kind children = do {
     assert_run (is_node kind);
     w \<leftarrow> full_width_for_children children;
     Some (GreenNode kind w children)
   }"

definition element_from_token :: "syntax_token \<Rightarrow> green_element run" where
  "element_from_token t = do { g \<leftarrow> from_syntax_token t; Some (TokenElement g) }"

text \<open>
  \<open>last_token\<close> follows the last child of each node down to a token. It finds nothing where that
  path ends in a node without children.
\<close>

fun last_token :: "green_element list \<Rightarrow> (syntax_kind \<times> token_presence) option" where
  "last_token [] = None"
| "last_token [TokenElement t] = Some (green_kind t, green_presence t)"
| "last_token [NodeElement (GreenNode k w cs)] = last_token cs"
| "last_token (_ # c # cs) = last_token (c # cs)"

subsection \<open>Iterators\<close>

record green_child_cursor =
  cursor_children :: "green_element list"
  cursor_offset :: text_size

definition green_iter_new :: "green_element list \<Rightarrow> text_size \<Rightarrow> green_child_cursor list" where
  "green_iter_new children start = [\<lparr>cursor_children = children, cursor_offset = start\<rparr>]"

text \<open>The work left on a stack of cursors, which every turn of an iterator loop reduces.\<close>

definition stack_size :: "green_child_cursor list \<Rightarrow> nat" where
  "stack_size stack = sum_list (map (\<lambda>c. Suc (size_list size (cursor_children c))) stack)"

lemma stack_size_simps [simp]:
  "stack_size [] = 0"
  "stack_size (\<lparr>cursor_children = cs, cursor_offset = i\<rparr> # stack)
     = Suc (size_list size cs) + stack_size stack"
  by (simp_all add: stack_size_def)

function token_iter_next ::
    "green_child_cursor list \<Rightarrow> (syntax_token option \<times> green_child_cursor list) run" where
  "token_iter_next [] = Some (None, [])"
| "token_iter_next (\<lparr>cursor_children = [], cursor_offset = start\<rparr> # stack) = token_iter_next stack"
| "token_iter_next (\<lparr>cursor_children = TokenElement t # cs, cursor_offset = start\<rparr> # stack) = do {
     offset \<leftarrow> green_checked_add start (green_full_width t);
     token \<leftarrow> green_syntax_token t start;
     Some (Some token, \<lparr>cursor_children = cs, cursor_offset = offset\<rparr> # stack)
   }"
| "token_iter_next (\<lparr>cursor_children = NodeElement n # cs, cursor_offset = start\<rparr> # stack) = do {
     offset \<leftarrow> green_checked_add start (node_full_width n);
     token_iter_next (\<lparr>cursor_children = node_children n, cursor_offset = start\<rparr>
       # \<lparr>cursor_children = cs, cursor_offset = offset\<rparr> # stack)
   }"
  by (metis (full_types) green_child_cursor.cases green_element.exhaust list.exhaust) auto
termination
proof (relation "measure stack_size")
  fix n cs start stack offset
  show "(\<lparr>cursor_children = node_children n, cursor_offset = start\<rparr>
       # \<lparr>cursor_children = cs, cursor_offset = offset\<rparr> # stack,
     \<lparr>cursor_children = NodeElement n # cs, cursor_offset = start\<rparr> # stack) \<in> measure stack_size"
    by (cases n) simp
qed auto

partial_function (option) token_iter_collect :: "green_child_cursor list \<Rightarrow> syntax_token list run" where
  "token_iter_collect stack = do {
     (t, stack') \<leftarrow> token_iter_next stack;
     (case t of
        None \<Rightarrow> Some []
      | Some token \<Rightarrow> do { ts \<leftarrow> token_iter_collect stack'; Some (token # ts) })
   }"

declare token_iter_collect.simps [code]

definition syntax_tokens :: "green_node \<Rightarrow> text_size \<Rightarrow> syntax_token list run" where
  "syntax_tokens node start = token_iter_collect (green_iter_new (node_children node) start)"

function skipped_iter_next ::
    "green_child_cursor list \<Rightarrow> ((green_node \<times> text_size) option \<times> green_child_cursor list) run" where
  "skipped_iter_next [] = Some (None, [])"
| "skipped_iter_next (\<lparr>cursor_children = [], cursor_offset = start\<rparr> # stack) = skipped_iter_next stack"
| "skipped_iter_next (\<lparr>cursor_children = TokenElement t # cs, cursor_offset = start\<rparr> # stack) = do {
     offset \<leftarrow> green_checked_add start (green_full_width t);
     skipped_iter_next (\<lparr>cursor_children = cs, cursor_offset = offset\<rparr> # stack)
   }"
| "skipped_iter_next (\<lparr>cursor_children = NodeElement n # cs, cursor_offset = start\<rparr> # stack) = do {
     offset \<leftarrow> green_checked_add start (node_full_width n);
     (if node_kind n = SkippedSyntax
      then Some (Some (n, start), \<lparr>cursor_children = cs, cursor_offset = offset\<rparr> # stack)
      else skipped_iter_next (\<lparr>cursor_children = node_children n, cursor_offset = start\<rparr>
        # \<lparr>cursor_children = cs, cursor_offset = offset\<rparr> # stack))
   }"
  by (metis (full_types) green_child_cursor.cases green_element.exhaust list.exhaust) auto
termination
proof (relation "measure stack_size")
  fix n cs start stack offset
  show "(\<lparr>cursor_children = node_children n, cursor_offset = start\<rparr>
       # \<lparr>cursor_children = cs, cursor_offset = offset\<rparr> # stack,
     \<lparr>cursor_children = NodeElement n # cs, cursor_offset = start\<rparr> # stack) \<in> measure stack_size"
    by (cases n) simp
qed auto

partial_function (option) skipped_iter_collect ::
    "green_child_cursor list \<Rightarrow> (green_node \<times> text_size) list run" where
  "skipped_iter_collect stack = do {
     (n, stack') \<leftarrow> skipped_iter_next stack;
     (case n of
        None \<Rightarrow> Some []
      | Some node \<Rightarrow> do { ns \<leftarrow> skipped_iter_collect stack'; Some (node # ns) })
   }"

declare skipped_iter_collect.simps [code]

definition skipped_syntax_nodes :: "green_node \<Rightarrow> text_size \<Rightarrow> (green_node \<times> text_size) list run" where
  "skipped_syntax_nodes node start = skipped_iter_collect (green_iter_new (node_children node) start)"

partial_function (option) any_missing :: "green_child_cursor list \<Rightarrow> bool run" where
  "any_missing stack = do {
     (t, stack') \<leftarrow> token_iter_next stack;
     (case t of
        None \<Rightarrow> Some False
      | Some token \<Rightarrow> if tok_presence token = Missing then Some True else any_missing stack')
   }"

declare any_missing.simps [code]

definition contains_recovery :: "green_node \<Rightarrow> text_size \<Rightarrow> bool run" where
  "contains_recovery node start = do {
     missing \<leftarrow> any_missing (green_iter_new (node_children node) start);
     (if missing then Some True
      else do {
        (n, _) \<leftarrow> skipped_iter_next (green_iter_new (node_children node) start);
        Some (n \<noteq> None)
      })
   }"

text \<open>The direct children: the tokens, and the nodes of one kind with their starts.\<close>

fun child_tokens_loop :: "green_element list \<Rightarrow> text_size \<Rightarrow> syntax_token list run" where
  "child_tokens_loop [] offset = Some []"
| "child_tokens_loop (child # cs) offset = do {
     offset' \<leftarrow> green_checked_add offset (element_full_width child);
     (case child of
        TokenElement t \<Rightarrow> do {
          token \<leftarrow> green_syntax_token t offset;
          ts \<leftarrow> child_tokens_loop cs offset';
          Some (token # ts)
        }
      | NodeElement n \<Rightarrow> child_tokens_loop cs offset')
   }"

definition child_tokens :: "green_node \<Rightarrow> text_size \<Rightarrow> syntax_token list run" where
  "child_tokens node start = child_tokens_loop (node_children node) start"

fun child_token_find :: "(syntax_kind \<Rightarrow> bool) \<Rightarrow> green_element list \<Rightarrow> text_size \<Rightarrow> syntax_token option run" where
  "child_token_find p [] offset = Some None"
| "child_token_find p (child # cs) offset = do {
     offset' \<leftarrow> green_checked_add offset (element_full_width child);
     (case child of
        TokenElement t \<Rightarrow> do {
          token \<leftarrow> green_syntax_token t offset;
          (if p (tok_kind token) then Some (Some token) else child_token_find p cs offset')
        }
      | NodeElement n \<Rightarrow> child_token_find p cs offset')
   }"

definition first_child_token_matching ::
    "green_node \<Rightarrow> text_size \<Rightarrow> (syntax_kind \<Rightarrow> bool) \<Rightarrow> syntax_token option run" where
  "first_child_token_matching node start p = child_token_find p (node_children node) start"

definition first_child_token :: "green_node \<Rightarrow> text_size \<Rightarrow> syntax_kind \<Rightarrow> syntax_token option run" where
  "first_child_token node start kind = first_child_token_matching node start (\<lambda>k. k = kind)"

fun child_node_next ::
    "syntax_kind \<Rightarrow> green_element list \<Rightarrow> text_size
     \<Rightarrow> ((green_node \<times> text_size) option \<times> green_element list \<times> text_size) run" where
  "child_node_next kind [] offset = Some (None, [], offset)"
| "child_node_next kind (child # cs) offset = do {
     offset' \<leftarrow> green_checked_add offset (element_full_width child);
     (case child of
        TokenElement t \<Rightarrow> child_node_next kind cs offset'
      | NodeElement n \<Rightarrow>
          if node_kind n = kind then Some (Some (n, offset), cs, offset')
          else child_node_next kind cs offset')
   }"

partial_function (option) child_nodes_loop ::
    "syntax_kind \<Rightarrow> green_element list \<Rightarrow> text_size \<Rightarrow> (green_node \<times> text_size) list run" where
  "child_nodes_loop kind children offset = do {
     (n, cs, offset') \<leftarrow> child_node_next kind children offset;
     (case n of
        None \<Rightarrow> Some []
      | Some node \<Rightarrow> do { ns \<leftarrow> child_nodes_loop kind cs offset'; Some (node # ns) })
   }"

declare child_nodes_loop.simps [code]

definition child_nodes :: "green_node \<Rightarrow> text_size \<Rightarrow> syntax_kind \<Rightarrow> (green_node \<times> text_size) list run" where
  "child_nodes node start kind = child_nodes_loop kind (node_children node) start"

text \<open>The text of a node: the texts of its tokens, one after the other, as the writer receives them.\<close>

definition write_source_text :: "green_node \<Rightarrow> string \<Rightarrow> text_size \<Rightarrow> string run" where
  "write_source_text node source start = do {
     ts \<leftarrow> syntax_tokens node start;
     full_texts source ts
   }"

subsection \<open>Builders\<close>

record 'a required_syntax_slot =
  slot_name :: string
  slot_value :: "'a option"

definition slot_new :: "string \<Rightarrow> 'a required_syntax_slot" where
  "slot_new name = \<lparr>slot_name = name, slot_value = None\<rparr>"

definition slot_set :: "'a \<Rightarrow> 'a required_syntax_slot \<Rightarrow> 'a required_syntax_slot run" where
  "slot_set v slot = (if slot_value slot \<noteq> None then panic else Some (slot\<lparr>slot_value := Some v\<rparr>))"

definition slot_into_value :: "'a required_syntax_slot \<Rightarrow> 'a run" where
  "slot_into_value slot = (case slot_value slot of Some v \<Rightarrow> Some v | None \<Rightarrow> panic)"

record green_node_builder =
  builder_children :: "green_element list"

definition builder_new :: green_node_builder where
  "builder_new = \<lparr>builder_children = []\<rparr>"

definition push_element :: "green_element \<Rightarrow> green_node_builder \<Rightarrow> green_node_builder" where
  "push_element e b = b\<lparr>builder_children := builder_children b @ [e]\<rparr>"

definition push_node :: "green_node \<Rightarrow> green_node_builder \<Rightarrow> green_node_builder" where
  "push_node n b = push_element (NodeElement n) b"

definition push_elements :: "green_element list \<Rightarrow> green_node_builder \<Rightarrow> green_node_builder" where
  "push_elements es b = b\<lparr>builder_children := builder_children b @ es\<rparr>"

definition push_token :: "syntax_token \<Rightarrow> green_node_builder \<Rightarrow> green_node_builder run" where
  "push_token t b = do { e \<leftarrow> element_from_token t; Some (push_element e b) }"

definition push_tokens :: "syntax_token list \<Rightarrow> green_node_builder \<Rightarrow> green_node_builder run" where
  "push_tokens ts b = do { es \<leftarrow> those (map element_from_token ts); Some (push_elements es b) }"

definition builder_build :: "syntax_kind \<Rightarrow> green_node_builder \<Rightarrow> green_node run" where
  "builder_build kind b = green_node_new kind (builder_children b)"

fun skipped_tokens_loop ::
    "syntax_token list \<Rightarrow> green_node_builder \<Rightarrow> bool \<Rightarrow> (green_node_builder \<times> bool) run" where
  "skipped_tokens_loop [] b has_tokens = Some (b, has_tokens)"
| "skipped_tokens_loop (t # ts) b has_tokens = do {
     assert_run (tok_presence t = Present);
     b' \<leftarrow> push_token t b;
     skipped_tokens_loop ts b' True
   }"

definition skipped_syntax_node :: "syntax_token list \<Rightarrow> green_node option run" where
  "skipped_syntax_node ts = do {
     (b, has_tokens) \<leftarrow> skipped_tokens_loop ts builder_new False;
     (if has_tokens then do { n \<leftarrow> builder_build SkippedSyntax b; Some (Some n) } else Some None)
   }"

definition push_skipped_tokens :: "syntax_token list \<Rightarrow> green_node_builder \<Rightarrow> green_node_builder run" where
  "push_skipped_tokens ts b = do {
     on \<leftarrow> skipped_syntax_node ts;
     (case on of Some n \<Rightarrow> Some (push_node n b) | None \<Rightarrow> Some b)
   }"

definition builder_last_token :: "green_node_builder \<Rightarrow> (syntax_kind \<times> token_presence) option" where
  "builder_last_token b =
     (if builder_children b = [] then None
      else case last (builder_children b) of
        TokenElement t \<Rightarrow> Some (green_kind t, green_presence t)
      | NodeElement n \<Rightarrow> last_token (node_children n))"

definition require_token_kind :: "syntax_kind \<Rightarrow> syntax_kind \<Rightarrow> unit run" where
  "require_token_kind actual expected = assert_run (actual = expected)"

subsection \<open>Widths\<close>

lemma green_checked_add_Some [simp, run_simps]:
  "green_checked_add a b = Some c \<longleftrightarrow> a + b \<le> u32_max \<and> c = a + b"
  by (auto simp: green_checked_add_def text_size_checked_add_def)

lemma green_checked_add_ok [simp]: "a + b \<le> u32_max \<Longrightarrow> green_checked_add a b = Some (a + b)"
  by simp

abbreviation trivia_width :: "green_trivia list \<Rightarrow> text_size" where
  "trivia_width gs \<equiv> sum_list (map green_trivia_width gs)"

abbreviation elements_width :: "green_element list \<Rightarrow> text_size" where
  "elements_width es \<equiv> sum_list (map element_full_width es)"

lemma trivia_width_loop_ok: "w + trivia_width gs \<le> u32_max \<Longrightarrow> trivia_width_loop w gs = Some (w + trivia_width gs)"
  by (induction gs arbitrary: w) (auto simp: run_simps)

lemma trivia_width_loop_Some: "trivia_width_loop w gs = Some v \<Longrightarrow> v = w + trivia_width gs"
  by (induction gs arbitrary: w) (force simp: run_simps)+

lemma children_width_loop_ok: "w + elements_width es \<le> u32_max \<Longrightarrow> children_width_loop w es = Some (w + elements_width es)"
  by (induction es arbitrary: w) (auto simp: run_simps)

lemma children_width_loop_Some: "children_width_loop w es = Some v \<Longrightarrow> v = w + elements_width es \<and> (w \<le> u32_max \<longrightarrow> v \<le> u32_max)"
  by (induction es arbitrary: w) (force simp: run_simps)+

lemma full_width_for_children_Some [simp, run_simps]:
  "full_width_for_children es = Some v \<longleftrightarrow> elements_width es \<le> u32_max \<and> v = elements_width es"
  using children_width_loop_ok [of 0 es] children_width_loop_Some [of 0 es v]
  by (auto simp: full_width_for_children_def)

subsection \<open>Placing a green token\<close>

fun place_trivia :: "green_trivia list \<Rightarrow> text_size \<Rightarrow> syntax_trivia list" where
  "place_trivia [] i = []"
| "place_trivia (g # gs) i =
     \<lparr>trivia_kind = green_trivia_kind g, trivia_range = \<lparr>tr_start = i, tr_end = i + green_trivia_width g\<rparr>\<rparr>
     # place_trivia gs (i + green_trivia_width g)"

definition place_token :: "green_token \<Rightarrow> text_size \<Rightarrow> syntax_token" where
  "place_token g i =
     (let a = i + trivia_width (green_leading g); b = a + green_width g
      in \<lparr>tok_kind = green_kind g, tok_range = \<lparr>tr_start = a, tr_end = b\<rparr>,
          tok_presence = green_presence g, leading_trivia = place_trivia (green_leading g) i,
          trailing_trivia = place_trivia (green_trailing g) b\<rparr>)"

text \<open>What the constructors of green tokens guarantee.\<close>

definition green_token_wf :: "green_token \<Rightarrow> bool" where
  "green_token_wf g \<longleftrightarrow> is_token (green_kind g)
     \<and> (\<forall>x \<in> set (green_leading g) \<union> set (green_trailing g). is_trivia (green_trivia_kind x))
     \<and> green_full_width g = green_width g + trivia_width (green_leading g) + trivia_width (green_trailing g)
     \<and> (green_presence g = Missing \<longrightarrow> green_width g = 0 \<and> green_leading g = [] \<and> green_trailing g = [])"

lemma missing_width: "green_token_wf g \<Longrightarrow> green_presence g = Missing \<Longrightarrow> green_full_width g = 0"
  by (simp add: green_token_wf_def)

lemma green_syntax_trivia_Some:
  "is_trivia (green_trivia_kind g) \<Longrightarrow> i + green_trivia_width g \<le> u32_max
   \<Longrightarrow> green_syntax_trivia g i = Some \<lparr>trivia_kind = green_trivia_kind g,
      trivia_range = \<lparr>tr_start = i, tr_end = i + green_trivia_width g\<rparr>\<rparr>"
  by (auto simp: green_syntax_trivia_def text_range_new_def run_simps)

lemma syntax_trivia_list_Some:
  "\<forall>x \<in> set gs. is_trivia (green_trivia_kind x) \<Longrightarrow> i + trivia_width gs \<le> u32_max
   \<Longrightarrow> syntax_trivia_list gs i = Some (place_trivia gs i, i + trivia_width gs)"
  by (induction gs arbitrary: i) (auto simp: green_syntax_trivia_Some add.assoc)

lemma place_trivia_Nil [simp]: "place_trivia gs i = [] \<longleftrightarrow> gs = []"
  by (cases gs) auto

lemma green_syntax_token_Some:
  assumes "green_token_wf g" "i + green_full_width g \<le> u32_max"
  shows "green_syntax_token g i = Some (place_token g i)"
proof -
  let ?a = "i + trivia_width (green_leading g)" and ?b = "i + trivia_width (green_leading g) + green_width g"
  have lead: "syntax_trivia_list (green_leading g) i = Some (place_trivia (green_leading g) i, ?a)"
    using assms by (intro syntax_trivia_list_Some) (auto simp: green_token_wf_def)
  have trail: "syntax_trivia_list (green_trailing g) ?b
      = Some (place_trivia (green_trailing g) ?b, ?b + trivia_width (green_trailing g))"
    using assms by (intro syntax_trivia_list_Some) (auto simp: green_token_wf_def)
  have add: "green_checked_add ?a (green_width g) = Some ?b"
    using assms by (simp add: green_token_wf_def)
  have p: "green_presence g = Present \<or> green_presence g = Missing"
    by (cases "green_presence g") auto
  show ?thesis
    using lead trail add assms(1) p
    by (auto simp: green_syntax_token_def place_token_def green_token_wf_def text_range_new_def
        token_with_trivia_and_presence_def text_range_is_empty_def Let_def run_simps)
qed

subsection \<open>A token through the tree\<close>

definition token_ok :: "syntax_token \<Rightarrow> bool" where
  "token_ok t \<longleftrightarrow> is_token (tok_kind t)
     \<and> (\<forall>x \<in> set (leading_trivia t) \<union> set (trailing_trivia t). is_trivia (trivia_kind x))
     \<and> (tok_presence t = Missing \<longrightarrow> text_range_is_empty (tok_range t)
          \<and> leading_trivia t = [] \<and> trailing_trivia t = [])"

lemma token_missing_ok: "token_missing k i = Some t \<Longrightarrow> token_ok t"
  by (auto simp: token_missing_def token_with_trivia_and_presence_def token_ok_def run_simps)

lemma those_Some_iff: "those xs = Some ys \<longleftrightarrow> xs = map Some ys"
  by (induction xs arbitrary: ys) (auto split: option.splits)

abbreviation trivia_greens :: "syntax_trivia list \<Rightarrow> green_trivia list" where
  "trivia_greens ts \<equiv> map (\<lambda>t. \<lparr>green_trivia_kind = trivia_kind t,
     green_trivia_width = trivia_end t - trivia_start t\<rparr>) ts"

lemma from_syntax_trivias_Some:
  "those (map from_syntax_trivia ts) = Some gs \<Longrightarrow> gs = trivia_greens ts"
  by (induction ts arbitrary: gs)
    (auto simp: those_Some_iff from_syntax_trivia_def text_range_len_def run_simps Cons_eq_map_conv
      split: if_splits)

lemma from_syntax_token_wf:
  assumes "from_syntax_token t = Some g" "token_ok t"
  shows "green_token_wf g" "green_presence g = tok_presence t" "green_kind g = tok_kind t"
proof -
  from assms(1) obtain lead trail w full
    where g: "those (map from_syntax_trivia (leading_trivia t)) = Some lead"
      "those (map from_syntax_trivia (trailing_trivia t)) = Some trail"
      "text_range_len (tok_range t) = Some w" "full_width_for_token w lead trail = Some full"
      "g = \<lparr>green_kind = tok_kind t, green_width = w, green_presence = tok_presence t,
        green_full_width = full, green_leading = lead, green_trailing = trail\<rparr>"
    by (auto simp: from_syntax_token_def run_simps)
  note lead = from_syntax_trivias_Some [OF g(1)] and trail = from_syntax_trivias_Some [OF g(2)]
  from g(4) have full: "full = w + trivia_width lead + trivia_width trail"
    by (auto simp: full_width_for_token_def dest: trivia_width_loop_Some)
  from g(3) have w: "w = tok_end t - tok_start t" by (auto simp: text_range_len_def split: if_splits)
  show "green_token_wf g"
    using assms(2) lead trail full w g(5)
    by (auto simp: green_token_wf_def token_ok_def text_range_is_empty_def)
  show "green_presence g = tok_presence t" "green_kind g = tok_kind t" by (simp_all add: g(5))
qed

lemma place_trivia_tiles:
  "tiles s i (map trivia_range ts) j
   \<Longrightarrow> place_trivia (trivia_greens ts) i = ts \<and> i + trivia_width (trivia_greens ts) = j"
proof (induction ts arbitrary: i)
  case (Cons t ts)
  then have "place_trivia (trivia_greens ts) (trivia_end t) = ts"
    "trivia_end t + trivia_width (trivia_greens ts) = j" by auto
  with Cons.prems show ?case by (cases t) auto
qed simp

text \<open>
  A token whose trivia touch it comes back unchanged when it is placed where it started.
\<close>

lemma token_round_trip:
  assumes tl: "tiles s i (token_ranges t) j" and j: "j \<le> u32_max"
  obtains g where "from_syntax_token t = Some g" "place_token g i = t" "i + green_full_width g = j"
proof -
  let ?lead = "trivia_greens (leading_trivia t)" and ?trail = "trivia_greens (trailing_trivia t)"
  from tl obtain a b where lead: "tiles s i (map trivia_range (leading_trivia t)) a"
    and tok: "tok_start t = a" "a \<le> tok_end t" "tok_end t = b"
    and trail: "tiles s b (map trivia_range (trailing_trivia t)) j"
    by (auto simp: token_ranges_def tiles_append)
  have tr: "those (map from_syntax_trivia ts) = Some (trivia_greens ts)"
    if "tiles s x (map trivia_range ts) y" for ts x y
    using that by (induction ts arbitrary: x) (auto simp: from_syntax_trivia_def text_range_len_def)
  note pl = place_trivia_tiles [OF lead] and pt = place_trivia_tiles [OF trail]
  let ?w = "b - a"
  have len: "text_range_len (tok_range t) = Some ?w"
    using tok by (simp add: text_range_len_def)
  have sum: "i + (?w + trivia_width ?lead + trivia_width ?trail) = j"
    using pl pt tok by auto
  then have full: "full_width_for_token ?w ?lead ?trail = Some (?w + trivia_width ?lead + trivia_width ?trail)"
    using trivia_width_loop_ok [of ?w "?lead @ ?trail"] j
    by (simp add: full_width_for_token_def add.assoc)
  let ?g = "\<lparr>green_kind = tok_kind t, green_width = ?w, green_presence = tok_presence t,
    green_full_width = ?w + trivia_width ?lead + trivia_width ?trail,
    green_leading = ?lead, green_trailing = ?trail\<rparr>"
  show ?thesis
  proof (rule that [of ?g])
    show "from_syntax_token t = Some ?g"
      using tr [OF lead] tr [OF trail] len full by (simp add: from_syntax_token_def)
    show "place_token ?g i = t"
      using pl pt tok by (cases t) (auto simp: place_token_def Let_def)
    show "i + green_full_width ?g = j" using sum by simp
  qed
qed

subsection \<open>Well-formed trees\<close>

text \<open>
  The specification side: the leaves of a list of elements in source order, and the invariant that
  every stored width is the width of the children.
\<close>

fun leaves :: "green_element list \<Rightarrow> green_token list" where
  "leaves [] = []"
| "leaves (TokenElement t # es) = t # leaves es"
| "leaves (NodeElement (GreenNode k w cs) # es) = leaves cs @ leaves es"

fun elements_wf :: "green_element list \<Rightarrow> bool" where
  "elements_wf [] \<longleftrightarrow> True"
| "elements_wf (TokenElement t # es) \<longleftrightarrow> green_token_wf t \<and> elements_wf es"
| "elements_wf (NodeElement (GreenNode k w cs) # es) \<longleftrightarrow>
     is_node k \<and> w = elements_width cs \<and> elements_wf cs \<and> elements_wf es"

definition node_wf :: "green_node \<Rightarrow> bool" where
  "node_wf n \<longleftrightarrow> elements_wf [NodeElement n]"

lemma node_wf_simp [simp]:
  "node_wf (GreenNode k w cs) \<longleftrightarrow> is_node k \<and> w = elements_width cs \<and> elements_wf cs"
  by (simp add: node_wf_def)

lemma elements_wf_node [simp]: "elements_wf (NodeElement n # es) \<longleftrightarrow> node_wf n \<and> elements_wf es"
  by (cases n) simp

lemma leaves_node [simp]: "leaves (NodeElement n # es) = leaves (node_children n) @ leaves es"
  by (cases n) simp

lemma node_wfD: "node_wf n \<Longrightarrow> node_full_width n = elements_width (node_children n) \<and> elements_wf (node_children n)"
  by (cases n) simp

lemma elements_wf_append [simp]: "elements_wf (es @ fs) \<longleftrightarrow> elements_wf es \<and> elements_wf fs"
  by (induction es rule: elements_wf.induct) auto

lemma leaves_append [simp]: "leaves (es @ fs) = leaves es @ leaves fs"
  by (induction es rule: leaves.induct) auto

lemma green_node_new_Some:
  "green_node_new k es = Some n \<longleftrightarrow> is_node k \<and> elements_width es \<le> u32_max
     \<and> n = GreenNode k (elements_width es) es"
  by (auto simp: green_node_new_def run_simps)

lemma green_node_new_wf: "green_node_new k es = Some n \<Longrightarrow> elements_wf es \<Longrightarrow> node_wf n"
  by (auto simp: green_node_new_Some)

lemma elements_width_leaves:
  "elements_wf es \<Longrightarrow> elements_width es = sum_list (map green_full_width (leaves es))"
  by (induction es rule: leaves.induct) auto

lemma leaves_wf: "elements_wf es \<Longrightarrow> t \<in> set (leaves es) \<Longrightarrow> green_token_wf t"
  by (induction es rule: leaves.induct) auto

text \<open>The tokens of a tree at a start offset, by recursion over the tree and over its leaves.\<close>

fun element_tokens :: "green_element list \<Rightarrow> text_size \<Rightarrow> syntax_token list" where
  "element_tokens [] i = []"
| "element_tokens (TokenElement t # es) i = place_token t i # element_tokens es (i + green_full_width t)"
| "element_tokens (NodeElement (GreenNode k w cs) # es) i = element_tokens cs i @ element_tokens es (i + w)"

fun place_tokens :: "green_token list \<Rightarrow> text_size \<Rightarrow> syntax_token list" where
  "place_tokens [] i = []"
| "place_tokens (g # gs) i = place_token g i # place_tokens gs (i + green_full_width g)"

lemma place_tokens_append:
  "place_tokens (gs @ hs) i = place_tokens gs i @ place_tokens hs (i + sum_list (map green_full_width gs))"
  by (induction gs arbitrary: i) (auto simp: add.assoc)

lemma element_tokens_leaves:
  "elements_wf es \<Longrightarrow> element_tokens es i = place_tokens (leaves es) i"
  by (induction es i rule: element_tokens.induct)
    (auto simp: place_tokens_append elements_width_leaves)

lemma element_tokens_node [simp]:
  "element_tokens (NodeElement n # es) i
     = element_tokens (node_children n) i @ element_tokens es (i + node_full_width n)"
  by (cases n) simp

subsection \<open>The token iterator\<close>

abbreviation cursor_end :: "green_child_cursor \<Rightarrow> text_size" where
  "cursor_end c \<equiv> cursor_offset c + elements_width (cursor_children c)"

definition stack_wf :: "green_child_cursor list \<Rightarrow> bool" where
  "stack_wf stack \<longleftrightarrow> (\<forall>c \<in> set stack. elements_wf (cursor_children c) \<and> cursor_end c \<le> u32_max)"

lemma stack_wf_simps [simp]:
  "stack_wf []"
  "stack_wf (c # stack) \<longleftrightarrow> elements_wf (cursor_children c) \<and> cursor_end c \<le> u32_max \<and> stack_wf stack"
  by (auto simp: stack_wf_def)

definition stack_tokens :: "green_child_cursor list \<Rightarrow> syntax_token list" where
  "stack_tokens stack = concat (map (\<lambda>c. element_tokens (cursor_children c) (cursor_offset c)) stack)"

lemma stack_tokens_simps [simp]:
  "stack_tokens [] = []"
  "stack_tokens (c # stack) = element_tokens (cursor_children c) (cursor_offset c) @ stack_tokens stack"
  by (simp_all add: stack_tokens_def)

lemma token_iter_next_spec:
  "stack_wf stack \<Longrightarrow> \<exists>t stack'. token_iter_next stack = Some (t, stack') \<and> stack_wf stack'
     \<and> (case t of None \<Rightarrow> stack_tokens stack = [] | Some x \<Rightarrow> stack_tokens stack = x # stack_tokens stack'
        \<and> stack_size stack' < stack_size stack)"
proof (induction stack rule: token_iter_next.induct)
  case (2 start stack)
  then obtain t stack' where *: "token_iter_next stack = Some (t, stack')" "stack_wf stack'"
    "case t of None \<Rightarrow> stack_tokens stack = [] | Some x \<Rightarrow> stack_tokens stack = x # stack_tokens stack'
      \<and> stack_size stack' < stack_size stack" by auto
  then show ?case by (auto split: option.splits)
next
  case (3 t cs start stack)
  then show ?case by (auto simp: green_syntax_token_Some green_checked_add_ok)
next
  case (4 n cs start stack)
  let ?child = "\<lparr>cursor_children = node_children n, cursor_offset = start\<rparr>"
  let ?rest = "\<lparr>cursor_children = cs, cursor_offset = start + node_full_width n\<rparr>"
  from "4.prems" have wf: "stack_wf (?child # ?rest # stack)" "start + node_full_width n \<le> u32_max"
    by (auto dest: node_wfD)
  from wf(2) have add: "green_checked_add start (node_full_width n) = Some (start + node_full_width n)" by simp
  have size: "stack_size (?child # ?rest # stack) < stack_size (\<lparr>cursor_children = NodeElement n # cs, cursor_offset = start\<rparr> # stack)"
    by (cases n) simp
  from "4.IH" [OF add wf(1)] obtain t stack'
    where *: "token_iter_next (?child # ?rest # stack) = Some (t, stack')" "stack_wf stack'"
      "case t of None \<Rightarrow> stack_tokens (?child # ?rest # stack) = []
       | Some x \<Rightarrow> stack_tokens (?child # ?rest # stack) = x # stack_tokens stack'
        \<and> stack_size stack' < stack_size (?child # ?rest # stack)" by blast
  have "stack_tokens (\<lparr>cursor_children = NodeElement n # cs, cursor_offset = start\<rparr> # stack)
      = stack_tokens (?child # ?rest # stack)" by simp
  with * size add show ?case
    by (intro exI [of _ t] exI [of _ stack']) (simp split: option.splits)
qed simp

lemma token_iter_collect_spec: "stack_wf stack \<Longrightarrow> token_iter_collect stack = Some (stack_tokens stack)"
proof (induction stack rule: measure_induct_rule [of stack_size])
  case (less stack)
  from token_iter_next_spec [OF less.prems] obtain t stack'
    where n: "token_iter_next stack = Some (t, stack')" "stack_wf stack'"
      "case t of None \<Rightarrow> stack_tokens stack = [] | Some x \<Rightarrow> stack_tokens stack = x # stack_tokens stack'
        \<and> stack_size stack' < stack_size stack" by blast
  with less.IH [of stack'] show ?case
    by (subst token_iter_collect.simps) (auto split: option.splits)
qed

lemma any_missing_spec:
  "stack_wf stack \<Longrightarrow> any_missing stack = Some (\<exists>t \<in> set (stack_tokens stack). tok_presence t = Missing)"
proof (induction stack rule: measure_induct_rule [of stack_size])
  case (less stack)
  from token_iter_next_spec [OF less.prems] obtain t stack'
    where n: "token_iter_next stack = Some (t, stack')" "stack_wf stack'"
      "case t of None \<Rightarrow> stack_tokens stack = [] | Some x \<Rightarrow> stack_tokens stack = x # stack_tokens stack'
        \<and> stack_size stack' < stack_size stack" by blast
  with less.IH [of stack'] show ?case
    by (subst any_missing.simps) (auto split: option.splits)
qed

lemma syntax_tokens_spec:
  assumes "node_wf n" "i + node_full_width n \<le> u32_max"
  shows "syntax_tokens n i = Some (place_tokens (leaves (node_children n)) i)"
  using assms token_iter_collect_spec [of "green_iter_new (node_children n) i"]
  by (auto simp: syntax_tokens_def green_iter_new_def element_tokens_leaves dest: node_wfD)

subsection \<open>The other iterators\<close>

fun skipped_in :: "green_element list \<Rightarrow> text_size \<Rightarrow> (green_node \<times> text_size) list" where
  "skipped_in [] i = []"
| "skipped_in (TokenElement t # es) i = skipped_in es (i + green_full_width t)"
| "skipped_in (NodeElement (GreenNode k w cs) # es) i =
     (if k = SkippedSyntax then [(GreenNode k w cs, i)] else skipped_in cs i) @ skipped_in es (i + w)"

lemma skipped_in_node [simp]:
  "skipped_in (NodeElement n # es) i =
     (if node_kind n = SkippedSyntax then [(n, i)] else skipped_in (node_children n) i)
       @ skipped_in es (i + node_full_width n)"
  by (cases n) simp

definition stack_skipped :: "green_child_cursor list \<Rightarrow> (green_node \<times> text_size) list" where
  "stack_skipped stack = concat (map (\<lambda>c. skipped_in (cursor_children c) (cursor_offset c)) stack)"

lemma stack_skipped_simps [simp]:
  "stack_skipped [] = []"
  "stack_skipped (c # stack) = skipped_in (cursor_children c) (cursor_offset c) @ stack_skipped stack"
  by (simp_all add: stack_skipped_def)

lemma skipped_iter_next_spec:
  "stack_wf stack \<Longrightarrow> \<exists>t stack'. skipped_iter_next stack = Some (t, stack') \<and> stack_wf stack'
     \<and> (case t of None \<Rightarrow> stack_skipped stack = [] | Some x \<Rightarrow> stack_skipped stack = x # stack_skipped stack'
        \<and> stack_size stack' < stack_size stack)"
proof (induction stack rule: skipped_iter_next.induct)
  case (2 start stack)
  then obtain t stack' where *: "skipped_iter_next stack = Some (t, stack')" "stack_wf stack'"
    "case t of None \<Rightarrow> stack_skipped stack = [] | Some x \<Rightarrow> stack_skipped stack = x # stack_skipped stack'
      \<and> stack_size stack' < stack_size stack" by auto
  then show ?case by (auto split: option.splits)
next
  case (3 t cs start stack)
  let ?rest = "\<lparr>cursor_children = cs, cursor_offset = start + green_full_width t\<rparr>"
  from "3.prems" have "stack_wf (?rest # stack)"
    and add: "green_checked_add start (green_full_width t) = Some (start + green_full_width t)" by auto
  from "3.IH" [OF add this(1)] obtain u stack'
    where "skipped_iter_next (?rest # stack) = Some (u, stack')" "stack_wf stack'"
      "case u of None \<Rightarrow> stack_skipped (?rest # stack) = []
       | Some x \<Rightarrow> stack_skipped (?rest # stack) = x # stack_skipped stack'
        \<and> stack_size stack' < stack_size (?rest # stack)" by blast
  with add show ?case by (intro exI [of _ u] exI [of _ stack']) (simp split: option.splits)
next
  case (4 n cs start stack)
  let ?child = "\<lparr>cursor_children = node_children n, cursor_offset = start\<rparr>"
  let ?rest = "\<lparr>cursor_children = cs, cursor_offset = start + node_full_width n\<rparr>"
  from "4.prems" have wf: "stack_wf (?child # ?rest # stack)" "start + node_full_width n \<le> u32_max"
    by (auto dest: node_wfD)
  from wf(2) have add: "green_checked_add start (node_full_width n) = Some (start + node_full_width n)" by simp
  show ?case
  proof (cases "node_kind n = SkippedSyntax")
    case True
    with wf show ?thesis by simp
  next
    case False
    have size: "stack_size (?child # ?rest # stack)
        < stack_size (\<lparr>cursor_children = NodeElement n # cs, cursor_offset = start\<rparr> # stack)"
      by (cases n) simp
    from "4.IH" [OF add False wf(1)] obtain u stack'
      where "skipped_iter_next (?child # ?rest # stack) = Some (u, stack')" "stack_wf stack'"
        "case u of None \<Rightarrow> stack_skipped (?child # ?rest # stack) = []
         | Some x \<Rightarrow> stack_skipped (?child # ?rest # stack) = x # stack_skipped stack'
          \<and> stack_size stack' < stack_size (?child # ?rest # stack)" by blast
    with size add wf False show ?thesis
      by (intro exI [of _ u] exI [of _ stack']) (simp split: option.splits)
  qed
qed simp

lemma skipped_iter_collect_spec:
  "stack_wf stack \<Longrightarrow> skipped_iter_collect stack = Some (stack_skipped stack)"
proof (induction stack rule: measure_induct_rule [of stack_size])
  case (less stack)
  from skipped_iter_next_spec [OF less.prems] obtain t stack'
    where n: "skipped_iter_next stack = Some (t, stack')" "stack_wf stack'"
      "case t of None \<Rightarrow> stack_skipped stack = [] | Some x \<Rightarrow> stack_skipped stack = x # stack_skipped stack'
        \<and> stack_size stack' < stack_size stack" by blast
  with less.IH [of stack'] show ?case
    by (subst skipped_iter_collect.simps) (auto split: option.splits)
qed

lemma stack_wf_start: "node_wf n \<Longrightarrow> i + node_full_width n \<le> u32_max \<Longrightarrow> stack_wf (green_iter_new (node_children n) i)"
  by (auto simp: green_iter_new_def dest: node_wfD)

lemma place_token_presence [simp]: "tok_presence (place_token g i) = green_presence g"
  by (simp add: place_token_def Let_def)

lemma place_token_kind [simp]: "tok_kind (place_token g i) = green_kind g"
  by (simp add: place_token_def Let_def)

lemma place_tokens_missing:
  "(\<exists>t \<in> set (place_tokens gs i). tok_presence t = Missing) \<longleftrightarrow> (\<exists>g \<in> set gs. green_presence g = Missing)"
  by (induction gs arbitrary: i) auto

text \<open>Whether a node of kind \<open>SkippedSyntax\<close> occurs among the descendants.\<close>

fun has_skipped :: "green_element list \<Rightarrow> bool" where
  "has_skipped [] \<longleftrightarrow> False"
| "has_skipped (TokenElement t # es) \<longleftrightarrow> has_skipped es"
| "has_skipped (NodeElement (GreenNode k w cs) # es) \<longleftrightarrow> k = SkippedSyntax \<or> has_skipped cs \<or> has_skipped es"

lemma skipped_in_Nil: "skipped_in es i = [] \<longleftrightarrow> \<not> has_skipped es"
  by (induction es i rule: skipped_in.induct) auto

lemma contains_recovery_spec:
  assumes "node_wf n" "i + node_full_width n \<le> u32_max"
  shows "contains_recovery n i = Some
    ((\<exists>g \<in> set (leaves (node_children n)). green_presence g = Missing) \<or> has_skipped (node_children n))"
proof -
  let ?stack = "green_iter_new (node_children n) i"
  note wf = stack_wf_start [OF assms]
  have "stack_tokens ?stack = place_tokens (leaves (node_children n)) i"
    using assms(1) by (auto simp: green_iter_new_def element_tokens_leaves dest: node_wfD)
  then have m: "any_missing ?stack = Some (\<exists>g \<in> set (leaves (node_children n)). green_presence g = Missing)"
    by (simp add: any_missing_spec [OF wf] place_tokens_missing)
  from skipped_iter_next_spec [OF wf] obtain t stack'
    where t: "skipped_iter_next ?stack = Some (t, stack')"
      "case t of None \<Rightarrow> stack_skipped ?stack = [] | Some x \<Rightarrow> stack_skipped ?stack = x # stack_skipped stack'"
    by (auto split: option.splits)
  have "stack_skipped ?stack = skipped_in (node_children n) i" by (simp add: green_iter_new_def)
  with t(2) have "t \<noteq> None \<longleftrightarrow> has_skipped (node_children n)"
    using skipped_in_Nil [of "node_children n" i] by (auto split: option.splits)
  with m t(1) show ?thesis by (simp add: contains_recovery_def)
qed

text \<open>
  A node is reported as recovered exactly when one of its tokens is missing or a skipped-syntax
  node occurs below it, at any depth: the two iterators reach every descendant and neither panics.
\<close>

theorem contains_recovery_correct:
  assumes "node_wf n" "i + node_full_width n \<le> u32_max"
  shows "contains_recovery n i = Some
    ((\<exists>g \<in> set (leaves (node_children n)). green_presence g = Missing) \<or> has_skipped (node_children n))"
  by (rule contains_recovery_spec [OF assms])

theorem contains_recovery_correct_witness:
  "contains_recovery (GreenNode SourceUnit 0 [NodeElement (GreenNode SkippedSyntax 0 [])]) 0 = Some True"
proof -
  let ?n = "GreenNode SourceUnit 0 [NodeElement (GreenNode SkippedSyntax 0 [])]"
  have "node_wf ?n" by (simp add: is_node_def)
  moreover have "0 + node_full_width ?n \<le> u32_max" by simp
  ultimately show ?thesis using contains_recovery_correct [of ?n 0] by simp
qed

subsection \<open>Direct children\<close>

fun children_at :: "green_element list \<Rightarrow> text_size \<Rightarrow> (green_element \<times> text_size) list" where
  "children_at [] i = []"
| "children_at (e # es) i = (e, i) # children_at es (i + element_full_width e)"

definition node_of_kind :: "syntax_kind \<Rightarrow> green_element \<times> text_size \<Rightarrow> (green_node \<times> text_size) list" where
  "node_of_kind k c = (case fst c of
     NodeElement n \<Rightarrow> if node_kind n = k then [(n, snd c)] else []
   | TokenElement t \<Rightarrow> [])"

lemma child_node_next_spec:
  "i + elements_width es \<le> u32_max \<Longrightarrow> \<exists>on fs j. child_node_next k es i = Some (on, fs, j)
     \<and> j + elements_width fs \<le> u32_max
     \<and> (case on of None \<Rightarrow> concat (map (node_of_kind k) (children_at es i)) = []
        | Some n \<Rightarrow> concat (map (node_of_kind k) (children_at es i))
            = n # concat (map (node_of_kind k) (children_at fs j)) \<and> length fs < length es)"
proof (induction es arbitrary: i)
  case (Cons e es)
  from Cons.prems have le: "i + element_full_width e \<le> u32_max"
    "i + element_full_width e + elements_width es \<le> u32_max" by auto
  from Cons.IH [OF le(2)] obtain on fs j where
    ih: "child_node_next k es (i + element_full_width e) = Some (on, fs, j)" "j + elements_width fs \<le> u32_max"
      "case on of None \<Rightarrow> concat (map (node_of_kind k) (children_at es (i + element_full_width e))) = []
        | Some n \<Rightarrow> concat (map (node_of_kind k) (children_at es (i + element_full_width e)))
            = n # concat (map (node_of_kind k) (children_at fs j)) \<and> length fs < length es" by blast
  show ?case
  proof (cases "\<exists>n. e = NodeElement n \<and> node_kind n = k")
    case True
    with le show ?thesis by (auto simp: node_of_kind_def)
  next
    case False
    then have "child_node_next k (e # es) i = child_node_next k es (i + element_full_width e)"
      "node_of_kind k (e, i) = []"
      using le(1) by (auto simp: node_of_kind_def split: green_element.splits)
    with ih show ?thesis by (auto split: option.splits)
  qed
qed simp

lemma child_nodes_loop_spec:
  "i + elements_width es \<le> u32_max
   \<Longrightarrow> child_nodes_loop k es i = Some (concat (map (node_of_kind k) (children_at es i)))"
proof (induction es arbitrary: i rule: measure_induct_rule [of length])
  case (less es)
  from child_node_next_spec [OF less.prems, of k] obtain on fs j where
    n: "child_node_next k es i = Some (on, fs, j)" "j + elements_width fs \<le> u32_max"
      "case on of None \<Rightarrow> concat (map (node_of_kind k) (children_at es i)) = []
        | Some n \<Rightarrow> concat (map (node_of_kind k) (children_at es i))
            = n # concat (map (node_of_kind k) (children_at fs j)) \<and> length fs < length es" by blast
  with less.IH [of fs j] show ?case
    by (subst child_nodes_loop.simps) (auto split: option.splits)
qed

definition tokens_among :: "(green_element \<times> text_size) list \<Rightarrow> syntax_token list" where
  "tokens_among cs = concat (map (\<lambda>c. case fst c of TokenElement t \<Rightarrow> [place_token t (snd c)] | NodeElement n \<Rightarrow> []) cs)"

lemma child_tokens_loop_spec:
  "elements_wf es \<Longrightarrow> i + elements_width es \<le> u32_max
   \<Longrightarrow> child_tokens_loop es i = Some (tokens_among (children_at es i))"
proof (induction es arbitrary: i)
  case (Cons e es)
  then show ?case
    by (cases e) (auto simp: tokens_among_def green_syntax_token_Some)
qed (simp add: tokens_among_def)

lemma child_token_find_spec:
  "elements_wf es \<Longrightarrow> i + elements_width es \<le> u32_max
   \<Longrightarrow> child_token_find p es i = Some (find (\<lambda>t. p (tok_kind t)) (tokens_among (children_at es i)))"
proof (induction es arbitrary: i)
  case (Cons e es)
  then show ?case
    by (cases e) (auto simp: tokens_among_def green_syntax_token_Some)
qed (simp add: tokens_among_def)

text \<open>
  The direct child accessors: on a well-formed node they return, and what they return are the
  child tokens, the first of them that the predicate accepts, and the child nodes of the kind, each
  placed after the children in front of it.
\<close>

theorem direct_children_correct:
  assumes "node_wf n" "i + node_full_width n \<le> u32_max"
  shows "child_tokens n i = Some (tokens_among (children_at (node_children n) i))
    \<and> first_child_token_matching n i p
        = Some (find (\<lambda>t. p (tok_kind t)) (tokens_among (children_at (node_children n) i)))
    \<and> child_nodes n i k = Some (concat (map (node_of_kind k) (children_at (node_children n) i)))"
  using assms node_wfD [OF assms(1)]
  by (auto simp: child_tokens_def first_child_token_matching_def child_nodes_def
      child_tokens_loop_spec child_token_find_spec child_nodes_loop_spec)

theorem direct_children_correct_witness:
  "child_nodes (GreenNode SourceUnit 0 [NodeElement (GreenNode SkippedSyntax 0 [])]) 7 SkippedSyntax
     = Some [(GreenNode SkippedSyntax 0 [], 7)]"
proof -
  let ?n = "GreenNode SourceUnit 0 [NodeElement (GreenNode SkippedSyntax 0 [])]"
  have "node_wf ?n" by (simp add: is_node_def)
  moreover have "7 + node_full_width ?n \<le> u32_max" by (simp add: u32_max_def)
  ultimately show ?thesis
    using direct_children_correct [of ?n 7 "\<lambda>k. True" SkippedSyntax] by (simp add: node_of_kind_def)
qed

subsection \<open>The last token\<close>

lemma last_token_leaf:
  "last_token es = Some (k, p) \<Longrightarrow> \<exists>gs g. leaves es = gs @ [g] \<and> green_kind g = k \<and> green_presence g = p"
proof (induction es rule: last_token.induct)
  case (4 e c cs)
  then obtain gs g where "leaves (c # cs) = gs @ [g]" "green_kind g = k" "green_presence g = p" by auto
  moreover have "leaves (e # c # cs) = leaves [e] @ leaves (c # cs)"
    using leaves_append [of "[e]" "c # cs"] by simp
  ultimately show ?case by simp
qed auto

lemma last_token_Cons: "es \<noteq> [] \<Longrightarrow> last_token (e # es) = last_token es"
  by (cases es) auto

lemma last_token_snoc [simp]: "last_token (es @ [e]) = last_token [e]"
  by (induction es) (auto simp: last_token_Cons)

text \<open>The builder finds the same token as the node it builds.\<close>

lemma builder_last_token_eq: "builder_last_token b = last_token (builder_children b)"
proof (cases "builder_children b" rule: rev_cases)
  case (snoc es e)
  then show ?thesis
  proof (cases e)
    case (NodeElement n)
    with snoc show ?thesis by (cases n) (simp add: builder_last_token_def)
  qed (simp add: builder_last_token_def)
qed (simp add: builder_last_token_def)

lemma last_token_empty_node:
  "last_token [TokenElement t, NodeElement (GreenNode k 0 [])] = None"
  by simp

subsection \<open>Builders\<close>

definition builder_wf :: "green_node_builder \<Rightarrow> bool" where
  "builder_wf b \<longleftrightarrow> elements_wf (builder_children b)"

abbreviation builder_leaves :: "green_node_builder \<Rightarrow> green_token list" where
  "builder_leaves b \<equiv> leaves (builder_children b)"

lemma builder_new_simps [simp]: "builder_wf builder_new" "builder_leaves builder_new = []"
  by (simp_all add: builder_wf_def builder_new_def)

lemma push_node_simps [simp]:
  "builder_wf (push_node n b) \<longleftrightarrow> builder_wf b \<and> node_wf n"
  "builder_leaves (push_node n b) = builder_leaves b @ leaves (node_children n)"
  by (auto simp: builder_wf_def push_node_def push_element_def)

lemma push_token_Some:
  "push_token t b = Some b' \<longleftrightarrow> (\<exists>g. from_syntax_token t = Some g \<and> b' = push_element (TokenElement g) b)"
  by (auto simp: push_token_def element_from_token_def run_simps)

lemma push_token_element_simps [simp]:
  "builder_wf (push_element (TokenElement g) b) \<longleftrightarrow> builder_wf b \<and> green_token_wf g"
  "builder_leaves (push_element (TokenElement g) b) = builder_leaves b @ [g]"
  by (auto simp: builder_wf_def push_element_def)

lemma skipped_tokens_loop_ok:
  assumes "builder_wf b"
    and "\<forall>t \<in> set ts. tok_presence t = Present \<and> token_ok t"
    and "map from_syntax_token ts = map Some gs"
  shows "skipped_tokens_loop ts b h = Some (b\<lparr>builder_children := builder_children b @ map TokenElement gs\<rparr>, h \<or> ts \<noteq> [])"
  using assms
proof (induction ts arbitrary: b gs h)
  case (Cons t ts)
  then obtain g gs' where g: "gs = g # gs'" "from_syntax_token t = Some g" "map from_syntax_token ts = map Some gs'"
    by (auto simp: Cons_eq_map_conv)
  from g(2) Cons.prems have "green_token_wf g" by (auto dest: from_syntax_token_wf)
  with Cons.prems have "builder_wf (push_element (TokenElement g) b)" by simp
  from Cons.IH [OF this _ g(3), of True] Cons.prems g show ?case
    by (auto simp: push_token_def element_from_token_def push_element_def)
qed simp

lemma leaves_tokens [simp]: "leaves (map TokenElement gs) = gs"
  by (induction gs) auto

lemma elements_wf_tokens [simp]: "elements_wf (map TokenElement gs) \<longleftrightarrow> (\<forall>g \<in> set gs. green_token_wf g)"
  by (induction gs) auto

text \<open>
  Skipped tokens are kept: they become the leaves of one more node, and an empty list adds nothing.
\<close>

lemma push_skipped_tokens_ok:
  assumes "builder_wf b" "\<forall>t \<in> set ts. tok_presence t = Present \<and> token_ok t"
    and gs: "map from_syntax_token ts = map Some gs" "sum_list (map green_full_width gs) \<le> u32_max"
  obtains b' where "push_skipped_tokens ts b = Some b'" "builder_wf b'" "builder_leaves b' = builder_leaves b @ gs"
proof (cases "ts = []")
  case True
  with assms show ?thesis
    by (intro that [of b]) (simp_all add: push_skipped_tokens_def skipped_syntax_node_def)
next
  case False
  let ?n = "GreenNode SkippedSyntax (elements_width (map TokenElement gs)) (map TokenElement gs)"
  have wf: "\<forall>g \<in> set gs. green_token_wf g"
  proof
    fix g assume "g \<in> set gs"
    with gs(1) have "Some g \<in> from_syntax_token ` set ts" by (metis imageI list.set_map)
    with assms(2) show "green_token_wf g" by (metis from_syntax_token_wf(1) imageE)
  qed
  have "elements_width (map TokenElement gs) \<le> u32_max" using gs(2) by (simp add: comp_def)
  moreover have "is_node SkippedSyntax" by (simp add: is_node_def)
  ultimately have "builder_build SkippedSyntax \<lparr>builder_children = map TokenElement gs\<rparr> = Some ?n"
    by (simp add: builder_build_def green_node_new_Some)
  with skipped_tokens_loop_ok [OF _ assms(2) gs(1), of builder_new False] False
  have "push_skipped_tokens ts b = Some (push_node ?n b)"
    by (simp add: push_skipped_tokens_def skipped_syntax_node_def builder_new_def builder_wf_def)
  moreover have "node_wf ?n" using wf by (simp add: is_node_def)
  ultimately show ?thesis using assms(1) by (intro that [of "push_node ?n b"]) simp_all
qed

end
