(* ===== verification/Diagnostics.thy ===== *)
theory Diagnostics
  imports Source_Text Syntax_Kinds "HOL-Library.Product_Lexorder" "HOL-Library.Multiset"
begin

text \<open>
  Diagnostic records (\<open>crates/bray-diagnostics/src/diagnostic.rs\<close> and the label, note,
  suggestion and argument types it is made of), and what a bag of diagnostics contains
  (\<open>bag.rs\<close>), as the list its iterator yields. Of the enumerations of kinds, the constructors
  are those the lexer and the parser report.
\<close>

record source_span =
  span_source_id :: source_id
  span_range :: text_range

datatype severity_kind = SeverityError | SeverityWarning | SeverityNote | SeverityHelp

datatype diagnostic_kind =
    LexicalMisplacedBom
  | LexicalLoneCarriageReturn
  | LexicalInvalidCharacter
  | LexicalNonAsciiIdentifier
  | LexicalInvalidIdentifier
  | LexicalInvalidOperatorOrPunctuation
  | LexicalMalformedNumericLiteral
  | LexicalInvalidNumericSuffix
  | LexicalMalformedCharacterLiteral
  | LexicalUnterminatedCharacterLiteral
  | LexicalUnterminatedStringLiteral
  | LexicalUnknownEscape
  | LexicalInvalidUnicodeEscape
  | LexicalUnterminatedBlockComment
  | SyntaxExpectedToken
  | SyntaxExpectedExpression
  | SyntaxUnexpectedEof
  | SyntaxInvalidDirectiveTarget
  | SyntaxNestingLimitExceeded

datatype diagnostic_label_kind =
    LabelMisplacedBom
  | LabelLoneCarriageReturn
  | LabelInvalidCharacter
  | LabelNonAsciiIdentifier
  | LabelInvalidIdentifier
  | LabelInvalidOperatorOrPunctuation
  | LabelMalformedLiteral
  | LabelInvalidNumericSuffix
  | LabelUnterminatedCharacterLiteralStart
  | LabelUnterminatedStringLiteralStart
  | LabelUnknownEscape
  | LabelInvalidUnicodeEscape
  | LabelUnterminatedBlockCommentStart
  | LabelExpectedTokenInsertionPoint
  | LabelExpectedExpression
  | LabelNestingLimitExceeded
  | LabelUnexpectedEof
  | LabelInvalidDeclaration

datatype diagnostic_label_style = PrimaryLabel | SecondaryLabel

datatype diagnostic_note_kind =
    BomOnlyAllowedAtStart
  | LineBreaksMustBeLfOrCrlf
  | CharacterNotAccepted
  | IdentifiersMustBeAscii
  | IdentifierSpellingMustBeValid
  | OnlyImaginaryNumericSuffix
  | CharacterLiteralMustContainOneScalar
  | CharacterLiteralNeedsTerminator
  | StringLiteralNeedsTerminator
  | EscapeMustBeKnown
  | UnicodeEscapeMustBeScalar
  | BlockCommentNeedsTerminator

datatype diagnostic_suggestion_kind =
    InsertExpectedSyntax
  | ReplaceWithLineFeed
  | AddTerminator
  | FormatSource
  | ExplicitlyDiscardResult

datatype diagnostic_suggestion_applicability = MachineApplicable | MaybeApplicable | ManualSuggestion

datatype diagnostic_suggestion_build_error = MissingEdit | ManualWithEdits | OverlappingEdits

datatype diagnostic_related_location_kind =
    FirstDeclaration
  | FirstDirective
  | ConflictingDeclaration
  | RequirementOrigin
  | BorrowOrigin
  | DependencyStorageOrigin
  | MoveOrigin
  | AllocationOrigin
  | InitializationOrigin
  | DeallocationOrigin
  | ConflictingDependency
  | RepresentationMember
  | NonCopyableMember
  | RepresentationCycleLocation
  | CoveredByPattern
  | SelectionCandidate

datatype diagnostic_arg =
    CharacterArg nat
  | ExpectedSyntaxKindArg syntax_kind
  | ActualSyntaxKindArg syntax_kind
  | DirectiveKindArg syntax_kind
  | TokenTextArg string
  | MaximumCountArg nat

record diagnostic_label =
  label_kind :: diagnostic_label_kind
  label_style :: diagnostic_label_style
  label_span :: source_span
  label_args :: "diagnostic_arg list"

record diagnostic_note =
  note_kind :: diagnostic_note_kind
  note_args :: "diagnostic_arg list"

record diagnostic_source_edit =
  dedit_span :: source_span
  dedit_replacement :: string

record diagnostic_suggestion =
  suggestion_kind :: diagnostic_suggestion_kind
  suggestion_applicability :: diagnostic_suggestion_applicability
  suggestion_edits :: "diagnostic_source_edit list"
  suggestion_args :: "diagnostic_arg list"

record diagnostic_related_location =
  related_kind :: diagnostic_related_location_kind
  related_span :: source_span
  related_args :: "diagnostic_arg list"

record diagnostic =
  diag_id :: nat
  diag_kind :: diagnostic_kind
  diag_severity :: severity_kind
  diag_primary_span :: "source_span option"
  diag_labels :: "diagnostic_label list"
  diag_notes :: "diagnostic_note list"
  diag_related_locations :: "diagnostic_related_location list"
  diag_suggestions :: "diagnostic_suggestion list"
  diag_args :: "diagnostic_arg list"

subsection \<open>Building a diagnostic\<close>

definition diagnostic_new :: "nat \<Rightarrow> diagnostic_kind \<Rightarrow> severity_kind \<Rightarrow> diagnostic" where
  "diagnostic_new i k s = \<lparr>diag_id = i, diag_kind = k, diag_severity = s, diag_primary_span = None,
     diag_labels = [], diag_notes = [], diag_related_locations = [], diag_suggestions = [],
     diag_args = []\<rparr>"

definition with_primary_span :: "source_span \<Rightarrow> diagnostic \<Rightarrow> diagnostic" where
  "with_primary_span sp d = d\<lparr>diag_primary_span := Some sp\<rparr>"

definition with_arg :: "diagnostic_arg \<Rightarrow> diagnostic \<Rightarrow> diagnostic" where
  "with_arg a d = d\<lparr>diag_args := diag_args d @ [a]\<rparr>"

definition with_label :: "diagnostic_label \<Rightarrow> diagnostic \<Rightarrow> diagnostic" where
  "with_label l d = d\<lparr>diag_labels := diag_labels d @ [l]\<rparr>"

definition with_note :: "diagnostic_note \<Rightarrow> diagnostic \<Rightarrow> diagnostic" where
  "with_note n d = (if n \<in> set (diag_notes d) then d else d\<lparr>diag_notes := diag_notes d @ [n]\<rparr>)"

definition with_suggestion :: "diagnostic_suggestion \<Rightarrow> diagnostic \<Rightarrow> diagnostic" where
  "with_suggestion s d = d\<lparr>diag_suggestions := diag_suggestions d @ [s]\<rparr>"

definition label_primary :: "diagnostic_label_kind \<Rightarrow> source_span \<Rightarrow> diagnostic_label" where
  "label_primary k sp = \<lparr>label_kind = k, label_style = PrimaryLabel, label_span = sp, label_args = []\<rparr>"

definition label_with_arg :: "diagnostic_arg \<Rightarrow> diagnostic_label \<Rightarrow> diagnostic_label" where
  "label_with_arg a l = l\<lparr>label_args := label_args l @ [a]\<rparr>"

definition note_new :: "diagnostic_note_kind \<Rightarrow> diagnostic_note" where
  "note_new k = \<lparr>note_kind = k, note_args = []\<rparr>"

definition note_with_arg :: "diagnostic_arg \<Rightarrow> diagnostic_note \<Rightarrow> diagnostic_note" where
  "note_with_arg a n = n\<lparr>note_args := note_args n @ [a]\<rparr>"

definition label_secondary :: "diagnostic_label_kind \<Rightarrow> source_span \<Rightarrow> diagnostic_label" where
  "label_secondary k sp = \<lparr>label_kind = k, label_style = SecondaryLabel, label_span = sp, label_args = []\<rparr>"

definition related_new ::
    "diagnostic_related_location_kind \<Rightarrow> source_span \<Rightarrow> diagnostic_related_location" where
  "related_new k sp = \<lparr>related_kind = k, related_span = sp, related_args = []\<rparr>"

definition with_optional_arg :: "diagnostic_arg option \<Rightarrow> diagnostic \<Rightarrow> diagnostic" where
  "with_optional_arg a d = (case a of Some x \<Rightarrow> with_arg x d | None \<Rightarrow> d)"

definition with_related_location :: "diagnostic_related_location \<Rightarrow> diagnostic \<Rightarrow> diagnostic" where
  "with_related_location l d =
     (if l \<in> set (diag_related_locations d) then d
      else d\<lparr>diag_related_locations := diag_related_locations d @ [l]\<rparr>)"

definition manual_suggestion :: "diagnostic_suggestion_kind \<Rightarrow> diagnostic_suggestion" where
  "manual_suggestion k = \<lparr>suggestion_kind = k, suggestion_applicability = ManualSuggestion,
     suggestion_edits = [], suggestion_args = []\<rparr>"

definition one_edit ::
    "diagnostic_suggestion_kind \<Rightarrow> diagnostic_suggestion_applicability \<Rightarrow> diagnostic_source_edit
     \<Rightarrow> diagnostic_suggestion" where
  "one_edit k a e = \<lparr>suggestion_kind = k, suggestion_applicability = a,
     suggestion_edits = [e], suggestion_args = []\<rparr>"

definition machine_edit ::
    "diagnostic_suggestion_kind \<Rightarrow> diagnostic_source_edit \<Rightarrow> diagnostic_suggestion" where
  "machine_edit k e = one_edit k MachineApplicable e"

definition maybe_edit ::
    "diagnostic_suggestion_kind \<Rightarrow> diagnostic_source_edit \<Rightarrow> diagnostic_suggestion" where
  "maybe_edit k e = one_edit k MaybeApplicable e"

definition suggestion_with_arg :: "diagnostic_arg \<Rightarrow> diagnostic_suggestion \<Rightarrow> diagnostic_suggestion" where
  "suggestion_with_arg a s = s\<lparr>suggestion_args := suggestion_args s @ [a]\<rparr>"

text \<open>The derived order of spans: by source, then by start, then by end.\<close>

definition span_key :: "source_span \<Rightarrow> nat \<times> nat \<times> nat" where
  "span_key sp = (span_source_id sp, tr_start (span_range sp), tr_end (span_range sp))"

definition edits_overlap :: "diagnostic_source_edit \<Rightarrow> diagnostic_source_edit \<Rightarrow> bool" where
  "edits_overlap left right \<longleftrightarrow>
     (let l = dedit_span left; r = dedit_span right in
      span_source_id l = span_source_id r
      \<and> (tr_start (span_range l) = tr_start (span_range r)
           \<or> tr_start (span_range r) < tr_end (span_range l)))"

fun any_window :: "('a \<Rightarrow> 'a \<Rightarrow> bool) \<Rightarrow> 'a list \<Rightarrow> bool" where
  "any_window p (x # y # zs) \<longleftrightarrow> p x y \<or> any_window p (y # zs)"
| "any_window p _ \<longleftrightarrow> False"

definition try_edits ::
    "diagnostic_suggestion_kind \<Rightarrow> diagnostic_suggestion_applicability \<Rightarrow> diagnostic_source_edit list
     \<Rightarrow> diagnostic_suggestion_build_error + diagnostic_suggestion" where
  "try_edits k a es =
     (if a = ManualSuggestion then Inl ManualWithEdits
      else if es = [] then Inl MissingEdit
      else (let sorted_edits = sort_key (\<lambda>e. span_key (dedit_span e)) es in
        if any_window edits_overlap sorted_edits then Inl OverlappingEdits
        else Inr \<lparr>suggestion_kind = k, suggestion_applicability = a,
          suggestion_edits = sorted_edits, suggestion_args = []\<rparr>))"

text \<open>The structured content that deduplication compares: everything but the record identity.\<close>

definition duplicate_key :: "diagnostic \<Rightarrow> diagnostic" where
  "duplicate_key d = d\<lparr>diag_id := 0\<rparr>"

lemmas diagnostic_builders = diagnostic_new_def with_primary_span_def with_arg_def with_label_def
  with_note_def with_suggestion_def label_primary_def label_with_arg_def note_new_def
  machine_edit_def one_edit_def

subsection \<open>Edits of a suggestion\<close>

text \<open>Two edits can be applied together: in different sources, or at different places apart.\<close>

definition compatible_edits :: "diagnostic_source_edit \<Rightarrow> diagnostic_source_edit \<Rightarrow> bool" where
  "compatible_edits x y \<longleftrightarrow>
     (let l = dedit_span x; r = dedit_span y in
      span_source_id l = span_source_id r \<longrightarrow>
        tr_start (span_range l) \<noteq> tr_start (span_range r)
        \<and> (tr_end (span_range l) \<le> tr_start (span_range r)
             \<or> tr_end (span_range r) \<le> tr_start (span_range l)))"

definition edit_wf :: "diagnostic_source_edit \<Rightarrow> bool" where
  "edit_wf e \<longleftrightarrow> text_range_wf (span_range (dedit_span e))"

lemma any_window_successively: "any_window p xs \<longleftrightarrow> \<not> successively (\<lambda>x y. \<not> p x y) xs"
  by (induction p xs rule: any_window.induct) auto

definition edit_before :: "diagnostic_source_edit \<Rightarrow> diagnostic_source_edit \<Rightarrow> bool" where
  "edit_before x y \<longleftrightarrow> edit_wf x \<and> edit_wf y \<and> span_key (dedit_span x) \<le> span_key (dedit_span y)
     \<and> \<not> edits_overlap x y"

text \<open>The order of spans and the relations between edits, field by field.\<close>

lemma span_key_le:
  "span_key a \<le> span_key b \<longleftrightarrow> span_source_id a < span_source_id b
     \<or> span_source_id a = span_source_id b
       \<and> (tr_start (span_range a) < tr_start (span_range b)
          \<or> tr_start (span_range a) = tr_start (span_range b)
            \<and> tr_end (span_range a) \<le> tr_end (span_range b))"
  by (auto simp: span_key_def less_eq_prod_def)

lemma edit_before_iff:
  "edit_before x y \<longleftrightarrow> edit_wf x \<and> edit_wf y
     \<and> (span_source_id (dedit_span x) < span_source_id (dedit_span y)
        \<or> span_source_id (dedit_span x) = span_source_id (dedit_span y)
          \<and> tr_start (span_range (dedit_span x)) < tr_start (span_range (dedit_span y))
          \<and> tr_end (span_range (dedit_span x)) \<le> tr_start (span_range (dedit_span y)))"
  unfolding edit_before_def span_key_le edits_overlap_def Let_def by auto

lemma edit_before_compatible:
  assumes "edit_wf x" "edit_wf y" "span_key (dedit_span x) \<le> span_key (dedit_span y)"
  shows "edit_before x y \<longleftrightarrow> compatible_edits x y"
  using assms unfolding edit_before_iff span_key_le compatible_edits_def Let_def edit_wf_def text_range_wf_def
  by auto

lemma edit_before_trans: "transp edit_before"
proof (rule transpI)
  fix x y z
  assume xy: "edit_before x y" and yz: "edit_before y z"
  have "tr_start (span_range (dedit_span y)) \<le> tr_end (span_range (dedit_span y))"
    using xy by (simp add: edit_before_iff edit_wf_def text_range_wf_def)
  with xy yz show "edit_before x z"
    unfolding edit_before_iff by (elim conjE disjE) simp_all
qed

text \<open>All pairs of entries of a list are related; for a symmetric relation the order is irrelevant.\<close>

fun all_pairs :: "('a \<Rightarrow> 'a \<Rightarrow> bool) \<Rightarrow> 'a list \<Rightarrow> bool" where
  "all_pairs p [] \<longleftrightarrow> True"
| "all_pairs p (x # xs) \<longleftrightarrow> list_all (p x) xs \<and> all_pairs p xs"

lemma all_pairs_insort:
  assumes "\<And>x y. p x y \<longleftrightarrow> p y x"
  shows "all_pairs p (insort_key f x xs) \<longleftrightarrow> list_all (p x) xs \<and> all_pairs p xs"
  by (induction xs) (auto simp: list_all_iff set_insort_key assms)

lemma all_pairs_sort:
  assumes "\<And>x y. p x y \<longleftrightarrow> p y x"
  shows "all_pairs p (sort_key f xs) \<longleftrightarrow> all_pairs p xs"
  by (induction xs) (auto simp: all_pairs_insort [OF assms] list_all_iff)

lemma all_pairs_sorted_wrt: "all_pairs p xs \<longleftrightarrow> sorted_wrt p xs"
  by (induction xs) (auto simp: list_all_iff)

lemma successively_edit_before:
  assumes "successively (\<lambda>x y. span_key (dedit_span x) \<le> span_key (dedit_span y)) xs"
    "\<forall>x \<in> set xs. edit_wf x"
  shows "successively (\<lambda>x y. \<not> edits_overlap x y) xs \<longleftrightarrow> successively edit_before xs"
  using assms by (induction xs rule: induct_list012) (auto simp: edit_before_def)

lemma sorted_edits_overlap:
  assumes "list_all edit_wf es"
  shows "any_window edits_overlap (sort_key (\<lambda>e. span_key (dedit_span e)) es)
    \<longleftrightarrow> \<not> all_pairs compatible_edits es"
proof -
  let ?k = "\<lambda>e. span_key (dedit_span e)"
  let ?xs = "sort_key ?k es"
  have wf: "\<forall>x \<in> set ?xs. edit_wf x" using assms by (simp add: list_all_iff)
  have wf_nth: "edit_wf (?xs ! i)" if "i < length es" for i
    using that wf nth_mem [of i ?xs] by (metis length_sort)
  have srt: "sorted_wrt (\<lambda>x y. ?k x \<le> ?k y) ?xs"
    using sorted_sort_key [of ?k es] by (simp add: sorted_wrt_map)
  have pair: "edit_before (?xs ! i) (?xs ! j) \<longleftrightarrow> compatible_edits (?xs ! i) (?xs ! j)"
    if "i < j" "j < length es" for i j
    using that sorted_wrt_nth_less [OF srt, of i j] by (intro edit_before_compatible wf_nth) auto
  have "\<not> any_window edits_overlap ?xs \<longleftrightarrow> successively edit_before ?xs"
    unfolding any_window_successively
    using successively_edit_before [OF successively_if_sorted_wrt [OF srt] wf] by simp
  also have "\<dots> \<longleftrightarrow> sorted_wrt edit_before ?xs"
    by (rule successively_conv_sorted_wrt [OF edit_before_trans])
  also have "\<dots> \<longleftrightarrow> sorted_wrt compatible_edits ?xs"
    unfolding sorted_wrt_iff_nth_less using pair by simp
  also have "\<dots> \<longleftrightarrow> all_pairs compatible_edits es"
    unfolding all_pairs_sorted_wrt [symmetric]
    by (rule all_pairs_sort) (auto simp: compatible_edits_def Let_def)
  finally show ?thesis by blast
qed

text \<open>
  The edits of an applicable suggestion: they are accepted exactly when the suggestion is not
  manual, there is an edit, and every two of them can be applied together (different sources, or
  disjoint ranges that start apart), although the code compares neighbours only; the suggestion
  then holds the given edits in span order.
\<close>

theorem try_edits_correct:
  assumes "list_all edit_wf es"
  shows "((\<exists>s. try_edits k a es = Inr s)
      \<longleftrightarrow> a \<noteq> ManualSuggestion \<and> es \<noteq> [] \<and> all_pairs compatible_edits es)
    \<and> (\<forall>s. try_edits k a es = Inr s \<longrightarrow> mset (suggestion_edits s) = mset es
      \<and> sorted (map (\<lambda>e. span_key (dedit_span e)) (suggestion_edits s)))"
  using sorted_edits_overlap [OF assms] by (auto simp: try_edits_def Let_def split: if_splits)

theorem try_edits_correct_witness:
  "\<exists>s. try_edits FormatSource MaybeApplicable
     [\<lparr>dedit_span = \<lparr>span_source_id = 1, span_range = \<lparr>tr_start = 5, tr_end = 7\<rparr>\<rparr>, dedit_replacement = ''b''\<rparr>,
      \<lparr>dedit_span = \<lparr>span_source_id = 1, span_range = \<lparr>tr_start = 2, tr_end = 5\<rparr>\<rparr>, dedit_replacement = ''a''\<rparr>]
     = Inr s"
proof -
  let ?es = "[\<lparr>dedit_span = \<lparr>span_source_id = 1, span_range = \<lparr>tr_start = 5, tr_end = 7\<rparr>\<rparr>, dedit_replacement = ''b''\<rparr>,
      \<lparr>dedit_span = \<lparr>span_source_id = 1, span_range = \<lparr>tr_start = 2, tr_end = 5\<rparr>\<rparr>, dedit_replacement = ''a''\<rparr>]"
  have "list_all edit_wf ?es" by (simp add: edit_wf_def text_range_wf_def u32_max_def)
  from try_edits_correct [OF this, of FormatSource MaybeApplicable] show ?thesis
    by (simp add: compatible_edits_def)
qed

subsection \<open>The contents of a bag\<close>

text \<open>
  \<open>dedup_by key ds\<close> keeps the first diagnostic of every key. A merge of two nonempty bags yields
  the concatenation without duplicates; a merge with an empty bag is the other bag.
\<close>

fun dedup_from :: "('d \<Rightarrow> 'k) \<Rightarrow> 'k set \<Rightarrow> 'd list \<Rightarrow> 'd list" where
  "dedup_from key seen [] = []"
| "dedup_from key seen (d # ds) =
     (if key d \<in> seen then dedup_from key seen ds
      else d # dedup_from key (insert (key d) seen) ds)"

definition dedup_by :: "('d \<Rightarrow> 'k) \<Rightarrow> 'd list \<Rightarrow> 'd list" where
  "dedup_by key ds = dedup_from key {} ds"

definition bag_merge :: "('d \<Rightarrow> 'k) \<Rightarrow> 'd list \<Rightarrow> 'd list \<Rightarrow> 'd list" where
  "bag_merge key a b = (if a = [] then b else if b = [] then a else dedup_by key (a @ b))"

type_synonym bag = "diagnostic list"

definition merged :: "bag \<Rightarrow> bag \<Rightarrow> bag" where
  "merged = bag_merge duplicate_key"

lemma dedup_from_keys:
  "key ` set (dedup_from key seen ds) = key ` set ds - seen"
  by (induction ds arbitrary: seen) auto

lemma dedup_from_distinct: "distinct (map key (dedup_from key seen ds))"
  by (induction ds arbitrary: seen) (auto simp: dedup_from_keys simp flip: image_set)

lemma dedup_from_subset: "set (dedup_from key seen ds) \<subseteq> set ds"
proof (induction ds arbitrary: seen)
  case (Cons d ds)
  from Cons [of seen] Cons [of "insert (key d) seen"] show ?case by auto
qed simp

lemma dedup_from_append:
  "dedup_from key seen (xs @ ys)
   = dedup_from key seen xs @ dedup_from key (seen \<union> key ` set xs) ys"
  by (induction xs arbitrary: seen) (auto simp: insert_absorb)

lemma dedup_from_id: "distinct (map key ds) \<Longrightarrow> seen \<inter> key ` set ds = {} \<Longrightarrow> dedup_from key seen ds = ds"
proof (induction ds arbitrary: seen)
  case (Cons d ds)
  then have "insert (key d) seen \<inter> key ` set ds = {}" by auto
  with Cons show ?case by auto
qed simp

lemma dedup_by_id: "distinct (map key ds) \<Longrightarrow> dedup_by key ds = ds"
  by (simp add: dedup_by_def dedup_from_id)

text \<open>What a merge contains: no key twice, every key of either side, nothing else.\<close>

lemma bag_merge_keys: "key ` set (bag_merge key a b) = key ` set a \<union> key ` set b"
  by (auto simp: bag_merge_def dedup_by_def dedup_from_keys image_Un [symmetric])

lemma bag_merge_distinct:
  "distinct (map key a) \<Longrightarrow> distinct (map key b) \<Longrightarrow> distinct (map key (bag_merge key a b))"
  by (simp add: bag_merge_def dedup_by_def dedup_from_distinct)

lemma bag_merge_subset: "set (bag_merge key a b) \<subseteq> set a \<union> set b"
  using dedup_from_subset [of key "{}" "a @ b"] by (auto simp: bag_merge_def dedup_by_def)

lemma bag_merge_Nil [simp]: "bag_merge key a [] = a" "bag_merge key [] a = a"
  by (auto simp: bag_merge_def)

lemma bag_merge_prefix:
  assumes "distinct (map key a)"
  shows "bag_merge key a b = a @ (if a = [] then b else dedup_from key (key ` set a) b)"
  using assms by (auto simp: bag_merge_def dedup_by_def dedup_from_append dedup_from_id
      intro: list.exhaust [of b])

end
