(* ===== verification/Lexer_Text.thy ===== *)
theory Lexer_Text
  imports Syntax_Tokens Diagnostics
begin

text \<open>
  The layer every lexical scanner stands on: the character access helpers
  (\<open>crates/bray-parser/src/lexer/text.rs\<close>), the result of scanning one token (\<open>scan.rs\<close>) and the
  lexical diagnostics (\<open>diagnostic.rs\<close>). The lemmas say when the helpers return: on a well-formed
  snapshot, at a character boundary.
\<close>

subsection \<open>Character access\<close>

definition text_size_from_usize :: "nat \<Rightarrow> text_size run" where
  "text_size_from_usize n = (case text_size_try_from n of Inr t \<Rightarrow> Some t | Inl _ \<Rightarrow> panic)"

definition first_character :: "source_snapshot \<Rightarrow> text_size \<Rightarrow> nat option run" where
  "first_character s start = (case str_get_from (snap_text s) start of
     Some remainder \<Rightarrow> Some (next_char remainder)
   | None \<Rightarrow> panic)"

definition character_len_at :: "source_snapshot \<Rightarrow> nat \<Rightarrow> nat option" where
  "character_len_at s i = (case str_get_from (snap_text s) i of
     None \<Rightarrow> None
   | Some remainder \<Rightarrow> map_option len_utf8 (next_char remainder))"

definition offset_after_character :: "text_size \<Rightarrow> nat \<Rightarrow> text_size run" where
  "offset_after_character start c = do {
     n \<leftarrow> text_size_from_usize (len_utf8 c);
     text_size_checked_add start n
   }"

definition make_token :: "syntax_kind \<Rightarrow> text_size \<Rightarrow> text_size \<Rightarrow> syntax_token run" where
  "make_token k start e = do { r \<leftarrow> text_range_new start e; token_new k r }"

definition make_scalar_token :: "syntax_kind \<Rightarrow> text_size \<Rightarrow> nat \<Rightarrow> syntax_token run" where
  "make_scalar_token k start c = do { e \<leftarrow> offset_after_character start c; make_token k start e }"

definition token_text :: "source_snapshot \<Rightarrow> text_range \<Rightarrow> string run" where
  "token_text s r = snapshot_text_slice s r"

text \<open>ASCII classes of bytes and characters.\<close>

definition is_ascii_digit :: "nat \<Rightarrow> bool" where
  "is_ascii_digit c \<longleftrightarrow> 48 \<le> c \<and> c \<le> 57"

definition is_ascii_alphabetic :: "nat \<Rightarrow> bool" where
  "is_ascii_alphabetic c \<longleftrightarrow> 65 \<le> c \<and> c \<le> 90 \<or> 97 \<le> c \<and> c \<le> 122"

definition is_ascii_alphanumeric :: "nat \<Rightarrow> bool" where
  "is_ascii_alphanumeric c \<longleftrightarrow> is_ascii_alphabetic c \<or> is_ascii_digit c"

definition is_ascii_hexdigit :: "nat \<Rightarrow> bool" where
  "is_ascii_hexdigit c \<longleftrightarrow> is_ascii_digit c \<or> 65 \<le> c \<and> c \<le> 70 \<or> 97 \<le> c \<and> c \<le> 102"

lemmas ascii_defs = is_ascii_digit_def is_ascii_alphabetic_def is_ascii_alphanumeric_def
  is_ascii_hexdigit_def

subsection \<open>The result of scanning one token\<close>

record token_scan =
  scan_token :: syntax_token
  scan_diagnostics :: bag

definition scan_clean :: "syntax_token \<Rightarrow> token_scan" where
  "scan_clean t = \<lparr>scan_token = t, scan_diagnostics = []\<rparr>"

definition scan_with_diagnostic :: "syntax_token \<Rightarrow> diagnostic \<Rightarrow> token_scan" where
  "scan_with_diagnostic t d = \<lparr>scan_token = t, scan_diagnostics = [d]\<rparr>"

definition scan_with_diagnostics :: "syntax_token \<Rightarrow> bag \<Rightarrow> token_scan" where
  "scan_with_diagnostics t ds = \<lparr>scan_token = t, scan_diagnostics = ds\<rparr>"

subsection \<open>Lexical diagnostics\<close>

definition diag_span :: "source_snapshot \<Rightarrow> text_range \<Rightarrow> source_span" where
  "diag_span s r = \<lparr>span_source_id = snap_source_id s, span_range = r\<rparr>"

definition diagnostic_id :: "text_size \<Rightarrow> nat" where
  "diagnostic_id start = start"

definition replacement_suggestion ::
    "source_span \<Rightarrow> diagnostic_suggestion_kind \<Rightarrow> string \<Rightarrow> diagnostic_suggestion" where
  "replacement_suggestion sp k replacement =
     machine_edit k \<lparr>dedit_span = sp, dedit_replacement = replacement\<rparr>"

definition terminator_suggestion ::
    "source_snapshot \<Rightarrow> text_range \<Rightarrow> string \<Rightarrow> diagnostic_suggestion" where
  "terminator_suggestion s r terminator =
     replacement_suggestion (diag_span s (text_range_empty (tr_end r))) AddTerminator terminator"

definition lexical_diagnostic ::
    "source_snapshot \<Rightarrow> diagnostic_kind \<Rightarrow> diagnostic_label_kind \<Rightarrow> text_range \<Rightarrow> diagnostic" where
  "lexical_diagnostic s k l r =
     with_label (label_primary l (diag_span s r))
       (with_primary_span (diag_span s r) (diagnostic_new (diagnostic_id (tr_start r)) k SeverityError))"

definition character_diagnostic ::
    "source_snapshot \<Rightarrow> text_range \<Rightarrow> nat \<Rightarrow> diagnostic_kind \<Rightarrow> diagnostic_label_kind
     \<Rightarrow> diagnostic_note_kind \<Rightarrow> diagnostic" where
  "character_diagnostic s r c k l n =
     with_note (note_new n)
       (with_label (label_with_arg (CharacterArg c) (label_primary l (diag_span s r)))
         (with_arg (CharacterArg c)
           (with_primary_span (diag_span s r)
             (diagnostic_new (diagnostic_id (tr_start r)) k SeverityError))))"

definition misplaced_bom :: "source_snapshot \<Rightarrow> text_range \<Rightarrow> diagnostic" where
  "misplaced_bom s r = with_note (note_new BomOnlyAllowedAtStart)
     (lexical_diagnostic s LexicalMisplacedBom LabelMisplacedBom r)"

definition lone_carriage_return :: "source_snapshot \<Rightarrow> text_range \<Rightarrow> diagnostic" where
  "lone_carriage_return s r =
     with_suggestion (replacement_suggestion (diag_span s r) ReplaceWithLineFeed [CHR 0x0A])
       (with_note (note_new LineBreaksMustBeLfOrCrlf)
         (lexical_diagnostic s LexicalLoneCarriageReturn LabelLoneCarriageReturn r))"

definition invalid_character :: "source_snapshot \<Rightarrow> text_range \<Rightarrow> nat \<Rightarrow> diagnostic" where
  "invalid_character s r c =
     character_diagnostic s r c LexicalInvalidCharacter LabelInvalidCharacter CharacterNotAccepted"

definition non_ascii_identifier :: "source_snapshot \<Rightarrow> text_range \<Rightarrow> nat \<Rightarrow> diagnostic" where
  "non_ascii_identifier s r c =
     character_diagnostic s r c LexicalNonAsciiIdentifier LabelNonAsciiIdentifier
       IdentifiersMustBeAscii"

definition invalid_identifier :: "source_snapshot \<Rightarrow> text_range \<Rightarrow> diagnostic" where
  "invalid_identifier s r = with_note (note_new IdentifierSpellingMustBeValid)
     (lexical_diagnostic s LexicalInvalidIdentifier LabelInvalidIdentifier r)"

definition invalid_operator_or_punctuation :: "source_snapshot \<Rightarrow> text_range \<Rightarrow> diagnostic" where
  "invalid_operator_or_punctuation s r =
     lexical_diagnostic s LexicalInvalidOperatorOrPunctuation LabelInvalidOperatorOrPunctuation r"

definition malformed_numeric_literal :: "source_snapshot \<Rightarrow> text_range \<Rightarrow> diagnostic" where
  "malformed_numeric_literal s r =
     lexical_diagnostic s LexicalMalformedNumericLiteral LabelMalformedLiteral r"

definition with_optional_character :: "nat option \<Rightarrow> diagnostic \<Rightarrow> diagnostic" where
  "with_optional_character c d = (case c of Some x \<Rightarrow> with_arg (CharacterArg x) d | None \<Rightarrow> d)"

definition invalid_numeric_suffix ::
    "source_snapshot \<Rightarrow> text_range \<Rightarrow> nat option \<Rightarrow> diagnostic" where
  "invalid_numeric_suffix s r suffix_start = with_optional_character suffix_start
     (with_note (note_new OnlyImaginaryNumericSuffix)
       (lexical_diagnostic s LexicalInvalidNumericSuffix LabelInvalidNumericSuffix r))"

definition malformed_character_literal :: "source_snapshot \<Rightarrow> text_range \<Rightarrow> diagnostic" where
  "malformed_character_literal s r = with_note (note_new CharacterLiteralMustContainOneScalar)
     (lexical_diagnostic s LexicalMalformedCharacterLiteral LabelMalformedLiteral r)"

definition unterminated_character_literal :: "source_snapshot \<Rightarrow> text_range \<Rightarrow> diagnostic" where
  "unterminated_character_literal s r =
     with_suggestion (terminator_suggestion s r [CHR 0x27])
       (with_note (note_new CharacterLiteralNeedsTerminator)
         (lexical_diagnostic s LexicalUnterminatedCharacterLiteral
           LabelUnterminatedCharacterLiteralStart r))"

definition unterminated_string_literal :: "source_snapshot \<Rightarrow> text_range \<Rightarrow> diagnostic" where
  "unterminated_string_literal s r =
     with_suggestion (terminator_suggestion s r [CHR 0x22])
       (with_note (note_new StringLiteralNeedsTerminator)
         (lexical_diagnostic s LexicalUnterminatedStringLiteral
           LabelUnterminatedStringLiteralStart r))"

definition unknown_escape :: "source_snapshot \<Rightarrow> text_range \<Rightarrow> nat option \<Rightarrow> diagnostic" where
  "unknown_escape s r escaped = with_optional_character escaped
     (with_note (note_new EscapeMustBeKnown)
       (lexical_diagnostic s LexicalUnknownEscape LabelUnknownEscape r))"

definition invalid_unicode_escape :: "source_snapshot \<Rightarrow> text_range \<Rightarrow> diagnostic" where
  "invalid_unicode_escape s r = with_note (note_new UnicodeEscapeMustBeScalar)
     (lexical_diagnostic s LexicalInvalidUnicodeEscape LabelInvalidUnicodeEscape r)"

definition block_comment_terminators :: "nat \<Rightarrow> string" where
  "block_comment_terminators remaining_depth = concat (replicate remaining_depth ''*/'')"

definition unterminated_block_comment ::
    "source_snapshot \<Rightarrow> text_range \<Rightarrow> nat \<Rightarrow> diagnostic" where
  "unterminated_block_comment s r remaining_depth =
     with_suggestion (terminator_suggestion s r (block_comment_terminators remaining_depth))
       (with_note (note_new BlockCommentNeedsTerminator)
         (lexical_diagnostic s LexicalUnterminatedBlockComment
           LabelUnterminatedBlockCommentStart r))"

lemmas lexical_diagnostic_defs = misplaced_bom_def lone_carriage_return_def invalid_character_def
  non_ascii_identifier_def invalid_identifier_def invalid_operator_or_punctuation_def
  malformed_numeric_literal_def invalid_numeric_suffix_def malformed_character_literal_def
  unterminated_character_literal_def unterminated_string_literal_def unknown_escape_def
  invalid_unicode_escape_def unterminated_block_comment_def with_optional_character_def
  lexical_diagnostic_def character_diagnostic_def terminator_suggestion_def
  replacement_suggestion_def diag_span_def diagnostic_id_def diagnostic_builders

text \<open>Every lexical diagnostic is an error whose primary span is the range it reports.\<close>

definition reports :: "source_snapshot \<Rightarrow> text_range \<Rightarrow> diagnostic \<Rightarrow> bool" where
  "reports s r d \<longleftrightarrow> diag_severity d = SeverityError \<and> diag_primary_span d = Some (diag_span s r)
     \<and> diag_id d = tr_start r \<and> diag_labels d \<noteq> []
     \<and> (\<forall>l \<in> set (diag_labels d). label_span l = diag_span s r)"

lemma lexical_reports [simp]:
  "reports s r (misplaced_bom s r)"
  "reports s r (lone_carriage_return s r)"
  "reports s r (invalid_character s r c)"
  "reports s r (non_ascii_identifier s r c)"
  "reports s r (invalid_identifier s r)"
  "reports s r (invalid_operator_or_punctuation s r)"
  "reports s r (malformed_numeric_literal s r)"
  "reports s r (invalid_numeric_suffix s r oc)"
  "reports s r (malformed_character_literal s r)"
  "reports s r (unterminated_character_literal s r)"
  "reports s r (unterminated_string_literal s r)"
  "reports s r (unknown_escape s r oc)"
  "reports s r (invalid_unicode_escape s r)"
  "reports s r (unterminated_block_comment s r n)"
  by (simp_all add: reports_def lexical_diagnostic_defs split: option.splits)

subsection \<open>When the helpers return\<close>

abbreviation boundary :: "source_snapshot \<Rightarrow> nat \<Rightarrow> bool" where
  "boundary s i \<equiv> is_char_boundary (snap_text s) i"

abbreviation text_length :: "source_snapshot \<Rightarrow> nat" where
  "text_length s \<equiv> length (snap_text s)"

abbreviation byte_at :: "source_snapshot \<Rightarrow> nat \<Rightarrow> nat" where
  "byte_at s i \<equiv> byte_val (snap_text s ! i)"

lemma wf_valid: "snapshot_wf s \<Longrightarrow> valid_utf8 (snap_text s)"
  and wf_text_len [simp]: "snapshot_wf s \<Longrightarrow> snap_text_len s = text_length s"
  and wf_width: "snapshot_wf s \<Longrightarrow> text_length s \<le> u32_max"
  by (simp_all add: snapshot_wf_def)

text \<open>A snapshot of an unnamed text, as the standard input gives one.\<close>

definition text_snapshot :: "string \<Rightarrow> source_snapshot" where
  "text_snapshot t = \<lparr>snap_source_id = 0, snap_identity = 0, snap_origin = StdinOrigin,
     snap_version = 0, snap_checksum = checksum_for_bytes t, snap_text_len = length t,
     snap_text = t\<rparr>"

lemma snap_text_text_snapshot [simp]: "snap_text (text_snapshot t) = t"
  by (simp add: text_snapshot_def)

lemma text_snapshot_wf:
  "list_all (\<lambda>b. byte_val b < 128) t \<Longrightarrow> length t \<le> u32_max \<Longrightarrow> snapshot_wf (text_snapshot t)"
  by (simp add: text_snapshot_def snapshot_wf_def valid_utf8_ascii)

lemma boundary_le: "boundary s i \<Longrightarrow> i \<le> text_length s"
  by (rule is_char_boundary_le)

lemma text_size_from_usize_ok [simp]:
  "snapshot_wf s \<Longrightarrow> n \<le> text_length s \<Longrightarrow> text_size_from_usize n = Some n"
  using wf_width [of s] by (simp add: text_size_from_usize_def text_size_try_from_def)

lemma text_size_from_usize_Some: "text_size_from_usize n = Some m \<Longrightarrow> m = n"
  by (auto simp: text_size_from_usize_def text_size_try_from_def split: if_splits)

lemma first_character_end [simp]: "first_character s (text_length s) = Some None"
  by (simp add: first_character_def str_get_from_def)

lemma character_len_at_end [simp]: "character_len_at s (text_length s) = None"
  by (simp add: character_len_at_def str_get_from_def)

text \<open>At a boundary inside the text: the character and the boundary after it.\<close>

lemma character_at:
  assumes "snapshot_wf s" "boundary s i" "i < text_length s"
  obtains c where "first_character s i = Some (Some c)" "character_len_at s i = Some (len_utf8 c)"
    "offset_after_character i c = Some (i + len_utf8 c)"
    "boundary s (i + len_utf8 c)" "i + len_utf8 c \<le> text_length s" "is_scalar c"
    "c < 128 \<longleftrightarrow> byte_at s i < 128" "c < 128 \<longrightarrow> c = byte_at s i"
    "segment (snap_text s) i (i + len_utf8 c) = encode_utf8 c"
proof -
  obtain c where c: "is_scalar c" "next_char (drop i (snap_text s)) = Some c"
    "segment (snap_text s) i (i + len_utf8 c) = encode_utf8 c"
    "i + len_utf8 c \<le> text_length s" "boundary s (i + len_utf8 c)"
    "byte_at s i < 128 \<longleftrightarrow> c < 128" "c < 128 \<longrightarrow> c = byte_at s i"
    by (rule boundary_char [OF wf_valid [OF assms(1)] assms(2,3)])
  have "offset_after_character i c = Some (i + len_utf8 c)"
    using c(4) wf_width [OF assms(1)] len_utf8_le_4 [of c]
    by (simp add: offset_after_character_def text_size_from_usize_def text_size_try_from_def
        text_size_checked_add_def)
  with c assms show ?thesis
    by (intro that [of c]) (simp_all add: first_character_def character_len_at_def str_get_from_def)
qed

lemma first_character_ascii:
  "i < text_length s \<Longrightarrow> byte_at s i < 128 \<Longrightarrow> first_character s i = Some (Some (byte_at s i))"
  by (simp add: first_character_def str_get_from_def ascii_boundary next_char_ascii)

lemma offset_after_ascii:
  "snapshot_wf s \<Longrightarrow> i < text_length s \<Longrightarrow> c < 128 \<Longrightarrow> offset_after_character i c = Some (Suc i)"
  using wf_width [of s]
  by (simp add: offset_after_character_def text_size_from_usize_def text_size_try_from_def
      text_size_checked_add_def len_utf8_def u32_max_def)

lemma boundary_Suc:
  "snapshot_wf s \<Longrightarrow> i < text_length s \<Longrightarrow> byte_at s i < 128 \<Longrightarrow> boundary s (Suc i)"
  using ascii_next_boundary [OF wf_valid] .

text \<open>
  A loop over bytes that stops at the end or before an ASCII byte, or that runs over ASCII bytes
  only, ends on a boundary.
\<close>

lemma boundary_if_ascii_stop:
  "i \<le> text_length s \<Longrightarrow> (i < text_length s \<longrightarrow> byte_at s i < 128) \<Longrightarrow> boundary s i"
  by (cases "i = text_length s") (auto intro: ascii_boundary)

lemma boundary_if_ascii_run:
  assumes "snapshot_wf s" "boundary s i" "i \<le> j" "j \<le> text_length s"
    and "\<And>k. i \<le> k \<Longrightarrow> k < j \<Longrightarrow> byte_at s k < 128"
  shows "boundary s j"
proof (cases "i = j")
  case False
  with assms have "boundary s (Suc (j - 1))"
    by (intro boundary_Suc) auto
  with False assms(3) show ?thesis by simp
qed (use assms in simp)

text \<open>A stretch of ASCII bytes inside the text; scanners compose such stretches.\<close>

definition ascii_run :: "string \<Rightarrow> nat \<Rightarrow> nat \<Rightarrow> bool" where
  "ascii_run t i j \<longleftrightarrow> i \<le> j \<and> j \<le> length t \<and> (\<forall>k. i \<le> k \<longrightarrow> k < j \<longrightarrow> byte_val (t ! k) < 128)"

lemma ascii_run_refl: "i \<le> length t \<Longrightarrow> ascii_run t i i"
  by (simp add: ascii_run_def)

lemma ascii_run_trans: "ascii_run t i j \<Longrightarrow> ascii_run t j k \<Longrightarrow> ascii_run t i k"
  unfolding ascii_run_def by (metis le_trans linorder_not_le)

lemma ascii_run_step: "i < length t \<Longrightarrow> byte_val (t ! i) < 128 \<Longrightarrow> ascii_run t i (Suc i)"
  by (auto simp: ascii_run_def less_Suc_eq_le)

lemma ascii_run_get: "get t i = Some b \<Longrightarrow> byte_val b < 128 \<Longrightarrow> ascii_run t i (Suc i)"
  by (auto simp: get_Some_iff intro: ascii_run_step)

lemma ascii_run_while:
  "i \<le> length t \<Longrightarrow> (\<And>b. p b \<Longrightarrow> byte_val b < 128) \<Longrightarrow> ascii_run t i (index_while p t i)"
  unfolding ascii_run_def by (auto simp: index_while_bounds dest: index_while_run)

lemma ascii_run_boundary: "snapshot_wf s \<Longrightarrow> boundary s i \<Longrightarrow> ascii_run (snap_text s) i j \<Longrightarrow> boundary s j"
  by (rule boundary_if_ascii_run) (auto simp: ascii_run_def)

lemma ascii_run_bounds: "ascii_run t i j \<Longrightarrow> i \<le> j \<and> j \<le> length t"
  by (simp add: ascii_run_def)

subsection \<open>The contract of a scanner\<close>

text \<open>
  \<open>good_scan s start r\<close>: the scan returned a present token without trivia that starts at \<open>start\<close>,
  is not empty, ends on a boundary and is not the end-of-file marker; the token is invalid exactly
  when the scan reports a diagnostic, there is at most one, and it points at the token.
\<close>

definition good_scan :: "source_snapshot \<Rightarrow> text_size \<Rightarrow> token_scan run \<Rightarrow> bool" where
  "good_scan s start r \<longleftrightarrow> (case r of
     None \<Rightarrow> False
   | Some sc \<Rightarrow>
       tok_start (scan_token sc) = start \<and> start < tok_end (scan_token sc)
       \<and> boundary s (tok_end (scan_token sc))
       \<and> is_token (tok_kind (scan_token sc)) \<and> tok_kind (scan_token sc) \<noteq> EndOfFileToken
       \<and> tok_presence (scan_token sc) = Present
       \<and> leading_trivia (scan_token sc) = [] \<and> trailing_trivia (scan_token sc) = []
       \<and> (tok_kind (scan_token sc) = InvalidToken \<longleftrightarrow> scan_diagnostics sc \<noteq> [])
       \<and> length (scan_diagnostics sc) \<le> 1
       \<and> (\<forall>d \<in> set (scan_diagnostics sc). reports s (tok_range (scan_token sc)) d))"

text \<open>How scanners build their results.\<close>

definition clean_token :: "syntax_kind \<Rightarrow> text_size \<Rightarrow> text_size \<Rightarrow> token_scan run" where
  "clean_token k start e = do { t \<leftarrow> make_token k start e; Some (scan_clean t) }"

definition clean_token_at :: "syntax_kind \<Rightarrow> text_size \<Rightarrow> nat \<Rightarrow> token_scan run" where
  "clean_token_at k start i = do { e \<leftarrow> text_size_from_usize i; clean_token k start e }"

definition invalid_token_with ::
    "text_size \<Rightarrow> text_size \<Rightarrow> (text_range \<Rightarrow> diagnostic) \<Rightarrow> token_scan run" where
  "invalid_token_with start e report = do {
     r \<leftarrow> text_range_new start e;
     t \<leftarrow> make_token InvalidToken start e;
     Some (scan_with_diagnostic t (report r))
   }"

lemma good_clean_token:
  assumes "start < e" "boundary s e" "is_token k" "k \<noteq> EndOfFileToken" "k \<noteq> InvalidToken"
  shows "good_scan s start (clean_token k start e)"
proof -
  have "clean_token k start e = Some (scan_clean \<lparr>tok_kind = k,
      tok_range = \<lparr>tr_start = start, tr_end = e\<rparr>, tok_presence = Present, leading_trivia = [],
      trailing_trivia = []\<rparr>)"
    using assms by (auto simp: clean_token_def make_token_def run_simps)
  with assms show ?thesis by (simp add: good_scan_def scan_clean_def)
qed

lemma good_clean_token_at:
  assumes "snapshot_wf s" "start < i" "boundary s i" "is_token k" "k \<noteq> EndOfFileToken"
    "k \<noteq> InvalidToken"
  shows "good_scan s start (clean_token_at k start i)"
  using assms good_clean_token [OF assms(2-6)] boundary_le [OF assms(3)]
  by (simp add: clean_token_at_def)

lemma good_invalid_token:
  assumes "start < e" "boundary s e" "\<And>r. reports s r (report r)"
  shows "good_scan s start (invalid_token_with start e report)"
proof -
  have "invalid_token_with start e report = Some (scan_with_diagnostic \<lparr>tok_kind = InvalidToken,
      tok_range = \<lparr>tr_start = start, tr_end = e\<rparr>, tok_presence = Present, leading_trivia = [],
      trailing_trivia = []\<rparr> (report \<lparr>tr_start = start, tr_end = e\<rparr>))"
    using assms(1) by (auto simp: invalid_token_with_def make_token_def run_simps)
  with assms show ?thesis by (simp add: good_scan_def scan_with_diagnostic_def)
qed

text \<open>
  The interface between the scanners of single tokens and the driver that calls them: inside a
  well-formed snapshot, at a boundary where the scanner applies, the scan is good.
\<close>

locale token_scanner =
  fixes scan :: "source_snapshot \<Rightarrow> text_size \<Rightarrow> token_scan run"
    and applies :: "source_snapshot \<Rightarrow> text_size \<Rightarrow> bool"
  assumes good: "snapshot_wf s \<Longrightarrow> boundary s start \<Longrightarrow> start < text_length s \<Longrightarrow> applies s start
    \<Longrightarrow> good_scan s start (scan s start)"
begin

lemma returns:
  assumes "snapshot_wf s" "boundary s start" "start < text_length s" "applies s start"
  obtains sc where "scan s start = Some sc"
  using good [OF assms] by (auto simp: good_scan_def split: option.splits)

lemma progress:
  assumes "snapshot_wf s" "boundary s start" "start < text_length s" "applies s start"
    and "scan s start = Some sc"
  shows "start < tok_end (scan_token sc) \<and> tok_end (scan_token sc) \<le> text_length s"
  using good [OF assms(1-4)] assms(5) by (auto simp: good_scan_def intro: boundary_le)

lemma token_text_valid:
  assumes "snapshot_wf s" "boundary s start" "start < text_length s" "applies s start"
    and "scan s start = Some sc"
  shows "\<exists>t. token_text s (tok_range (scan_token sc)) = Some t \<and> t \<noteq> [] \<and> valid_utf8 t"
proof -
  let ?e = "tok_end (scan_token sc)"
  from good [OF assms(1-4)] assms(5) have e: "tok_start (scan_token sc) = start" "start < ?e"
    "boundary s ?e" by (auto simp: good_scan_def)
  have "segment (snap_text s) start ?e \<noteq> []"
    using e boundary_le [OF e(3)] length_segment [of ?e "snap_text s" start] by fastforce
  with e assms show ?thesis
    by (simp add: token_text_def snapshot_text_slice_def text_range_slice_str_def str_get_range_def
        segment_valid [OF wf_valid])
qed

end

end
