(* ===== verification/Lexer_Numeric.thy ===== *)
theory Lexer_Numeric
  imports Lexer_Text
begin

text \<open>
  Numeric literals and tuple element indices
  (\<open>crates/bray-parser/src/lexer/literal/numeric.rs\<close>): digit sequences with separators, radix
  prefixes, fractions, exponents, the imaginary suffix, and the recovery of a malformed literal.
  The lemmas characterise the digit sequences that are accepted by the grammar of separated digits,
  and show that both scanners meet the scanner contract.
\<close>

datatype radix = BinaryRadix | HexadecimalRadix

record digit_sequence_scan =
  ds_end :: nat
  ds_saw_digit :: bool
  ds_valid :: bool

record numeric_scan =
  ns_kind :: syntax_kind
  ns_end :: nat
  ns_valid :: bool

datatype numeric_literal_error = InvalidSuffix "nat option" | MalformedNumeric

subsection \<open>Digit sequences\<close>

function digit_loop ::
    "(nat \<Rightarrow> bool) \<Rightarrow> string \<Rightarrow> nat \<Rightarrow> bool \<Rightarrow> bool \<Rightarrow> bool \<Rightarrow> nat \<times> bool \<times> bool \<times> bool" where
  "digit_loop is_digit bytes i saw_digit previous_was_separator valid =
     (case get bytes i of
        None \<Rightarrow> (i, saw_digit, previous_was_separator, valid)
      | Some byte \<Rightarrow>
          (if is_digit (byte_val byte) then digit_loop is_digit bytes (i + 1) True False valid
           else if byte = CHR ''_'' then
             (let next_is_digit = (case get bytes (i + 1) of
                    Some n \<Rightarrow> is_digit (byte_val n) | None \<Rightarrow> False)
              in digit_loop is_digit bytes (i + 1) saw_digit True
                   (if \<not> saw_digit \<or> previous_was_separator \<or> \<not> next_is_digit then False else valid))
           else (i, saw_digit, previous_was_separator, valid)))"
  by pat_completeness auto
termination
  by (relation "measure (\<lambda>(_, bytes, i, _). length bytes - i)") (auto simp: get_Some_iff)

declare digit_loop.simps [simp del]

definition scan_digit_sequence :: "string \<Rightarrow> nat \<Rightarrow> (nat \<Rightarrow> bool) \<Rightarrow> digit_sequence_scan" where
  "scan_digit_sequence bytes start is_digit =
     (case digit_loop is_digit bytes start False False True of
        (i, saw_digit, previous_was_separator, valid) \<Rightarrow>
          \<lparr>ds_end = i, ds_saw_digit = saw_digit,
           ds_valid = (valid \<and> saw_digit \<and> \<not> previous_was_separator)\<rparr>)"

definition decimal_digits_end :: "string \<Rightarrow> nat \<Rightarrow> nat" where
  "decimal_digits_end bytes start = index_while (\<lambda>b. is_ascii_digit (byte_val b)) bytes start"

subsection \<open>Integers and reals\<close>

definition has_radix_prefix :: "string \<Rightarrow> nat \<Rightarrow> char \<Rightarrow> char \<Rightarrow> bool" where
  "has_radix_prefix bytes start lower upper \<longleftrightarrow>
     get bytes start = Some (CHR ''0'')
     \<and> (case get bytes (start + 1) of Some b \<Rightarrow> b = lower \<or> b = upper | None \<Rightarrow> False)"

definition radix_digit :: "radix \<Rightarrow> nat \<Rightarrow> bool" where
  "radix_digit radix b = (case radix of
     BinaryRadix \<Rightarrow> b = 48 \<or> b = 49
   | HexadecimalRadix \<Rightarrow> is_ascii_hexdigit b)"

definition scan_radix_integer :: "string \<Rightarrow> nat \<Rightarrow> radix \<Rightarrow> numeric_scan" where
  "scan_radix_integer bytes start radix =
     (let digits = scan_digit_sequence bytes (start + 2) (radix_digit radix)
      in \<lparr>ns_kind = (case radix of BinaryRadix \<Rightarrow> BinaryIntegerLiteralToken
                                  | HexadecimalRadix \<Rightarrow> HexadecimalIntegerLiteralToken),
          ns_end = ds_end digits,
          ns_valid = (ds_valid digits \<and> ds_saw_digit digits)\<rparr>)"

definition scan_exponent_part :: "string \<Rightarrow> nat \<Rightarrow> digit_sequence_scan" where
  "scan_exponent_part bytes marker =
     (let digit_start = (case get bytes (marker + 1) of
            Some b \<Rightarrow> (if b = CHR ''+'' \<or> b = CHR ''-'' then marker + 2 else marker + 1)
          | None \<Rightarrow> marker + 1);
          digits = scan_digit_sequence bytes digit_start is_ascii_digit
      in \<lparr>ds_end = ds_end digits, ds_saw_digit = ds_saw_digit digits,
          ds_valid = (ds_valid digits \<and> ds_saw_digit digits)\<rparr>)"

definition is_exponent_marker :: "char option \<Rightarrow> bool" where
  "is_exponent_marker b \<longleftrightarrow> b = Some (CHR ''e'') \<or> b = Some (CHR ''E'')"

definition scan_decimal_numeric :: "string \<Rightarrow> nat \<Rightarrow> numeric_scan" where
  "scan_decimal_numeric bytes start =
     (let integer_digits = scan_digit_sequence bytes start is_ascii_digit;
          e0 = ds_end integer_digits;
          v0 = (ds_valid integer_digits \<and> ds_saw_digit integer_digits)
      in if get bytes e0 = Some (CHR ''.'')
            \<and> (case get bytes (e0 + 1) of Some b \<Rightarrow> is_ascii_digit (byte_val b) | None \<Rightarrow> False) then
           (let fraction_digits = scan_digit_sequence bytes (e0 + 1) is_ascii_digit;
                e1 = ds_end fraction_digits;
                v1 = (v0 \<and> ds_valid fraction_digits \<and> ds_saw_digit fraction_digits)
            in if is_exponent_marker (get bytes e1) then
                 (let exponent = scan_exponent_part bytes e1
                  in \<lparr>ns_kind = RealLiteralToken, ns_end = ds_end exponent,
                      ns_valid = (v1 \<and> ds_valid exponent)\<rparr>)
               else \<lparr>ns_kind = RealLiteralToken, ns_end = e1, ns_valid = v1\<rparr>)
         else if is_exponent_marker (get bytes e0) then
           (let exponent = scan_exponent_part bytes e0
            in \<lparr>ns_kind = RealLiteralToken, ns_end = ds_end exponent,
                ns_valid = (v0 \<and> ds_valid exponent)\<rparr>)
         else \<lparr>ns_kind = DecimalIntegerLiteralToken, ns_end = e0, ns_valid = v0\<rparr>)"

subsection \<open>Recovery\<close>

definition is_numeric_suffix_byte :: "char \<Rightarrow> bool" where
  "is_numeric_suffix_byte b \<longleftrightarrow> is_ascii_alphanumeric (byte_val b) \<or> b = CHR ''_''"

function invalid_numeric_loop :: "string \<Rightarrow> nat \<Rightarrow> bool \<Rightarrow> nat" where
  "invalid_numeric_loop bytes i previous_was_exponent_marker =
     (case get bytes i of
        None \<Rightarrow> i
      | Some byte \<Rightarrow>
          (if is_numeric_suffix_byte byte then
             invalid_numeric_loop bytes (i + 1) (byte = CHR ''e'' \<or> byte = CHR ''E'')
           else if byte = CHR ''.'' \<and> get bytes (i + 1) \<noteq> Some (CHR ''.'') then
             invalid_numeric_loop bytes (i + 1) False
           else if (byte = CHR ''+'' \<or> byte = CHR ''-'') \<and> previous_was_exponent_marker then
             invalid_numeric_loop bytes (i + 1) False
           else i))"
  by pat_completeness auto
termination
  by (relation "measure (\<lambda>(bytes, i, _). length bytes - i)") (auto simp: get_Some_iff)

declare invalid_numeric_loop.simps [simp del]

definition invalid_numeric_like_end :: "source_snapshot \<Rightarrow> text_size \<Rightarrow> text_size run" where
  "invalid_numeric_like_end s start =
     (let i = invalid_numeric_loop (snap_text s) start False
      in if i = start then do {
           oc \<leftarrow> first_character s start;
           case oc of Some c \<Rightarrow> offset_after_character start c | None \<Rightarrow> Some start
         }
         else text_size_from_usize i)"

definition make_invalid_numeric_token ::
    "source_snapshot \<Rightarrow> text_size \<Rightarrow> numeric_literal_error \<Rightarrow> token_scan run" where
  "make_invalid_numeric_token s start err = do {
     e \<leftarrow> invalid_numeric_like_end s start;
     invalid_token_with start e (\<lambda>r. case err of
       InvalidSuffix suffix_start \<Rightarrow> invalid_numeric_suffix s r suffix_start
     | MalformedNumeric \<Rightarrow> malformed_numeric_literal s r)
   }"

subsection \<open>The scanners\<close>

definition scan_numeric_literal :: "source_snapshot \<Rightarrow> text_size \<Rightarrow> token_scan run" where
  "scan_numeric_literal s start =
     (let bytes = snap_text s;
          scan = (if has_radix_prefix bytes start (CHR ''b'') (CHR ''B'')
                    then scan_radix_integer bytes start BinaryRadix
                  else if has_radix_prefix bytes start (CHR ''x'') (CHR ''X'')
                    then scan_radix_integer bytes start HexadecimalRadix
                  else scan_decimal_numeric bytes start)
      in if \<not> ns_valid scan then make_invalid_numeric_token s start MalformedNumeric
         else
           (let imaginary = (get bytes (ns_end scan) = Some (CHR ''i''));
                e = (if imaginary then ns_end scan + 1 else ns_end scan);
                kind = (if imaginary then ImaginaryLiteralToken else ns_kind scan)
            in case get bytes e of
                 Some suffix_byte \<Rightarrow>
                   (if is_numeric_suffix_byte suffix_byte then
                      (if \<not> imaginary \<and> is_ascii_digit (byte_val suffix_byte)
                       then make_invalid_numeric_token s start MalformedNumeric
                       else do {
                         at \<leftarrow> text_size_from_usize e;
                         oc \<leftarrow> first_character s at;
                         make_invalid_numeric_token s start (InvalidSuffix oc)
                       })
                    else clean_token_at kind start e)
               | None \<Rightarrow> clean_token_at kind start e))"

definition tuple_index_text_is_valid :: "string \<Rightarrow> nat \<Rightarrow> nat \<Rightarrow> bool" where
  "tuple_index_text_is_valid bytes start e \<longleftrightarrow>
     (if e = start + 1 then True
      else case get bytes start of Some b \<Rightarrow> 49 \<le> byte_val b \<and> byte_val b \<le> 57 | None \<Rightarrow> False)"

definition scan_tuple_element_index_token :: "source_snapshot \<Rightarrow> text_size \<Rightarrow> token_scan run" where
  "scan_tuple_element_index_token s start =
     (let bytes = snap_text s; e = decimal_digits_end bytes start
      in if \<not> tuple_index_text_is_valid bytes start e
            \<or> (case get bytes e of Some b \<Rightarrow> is_numeric_suffix_byte b | None \<Rightarrow> False)
         then make_invalid_numeric_token s start MalformedNumeric
         else clean_token_at TupleElementIndexToken start e)"

subsection \<open>Separated digits\<close>

text \<open>The grammar of a digit sequence: digits, with single separators between digits only.\<close>

fun separated_digits :: "(nat \<Rightarrow> bool) \<Rightarrow> string \<Rightarrow> bool" where
  "separated_digits p [] = False"
| "separated_digits p [b] = p (byte_val b)"
| "separated_digits p (b # c # bs) =
     (p (byte_val b)
      \<and> (if c = CHR ''_'' then separated_digits p bs else separated_digits p (c # bs)))"

abbreviation digit_or_separator :: "(nat \<Rightarrow> bool) \<Rightarrow> char \<Rightarrow> bool" where
  "digit_or_separator p b \<equiv> p (byte_val b) \<or> b = CHR ''_''"

lemma separated_digits_head: "separated_digits p bs \<Longrightarrow> bs \<noteq> [] \<and> p (byte_val (hd bs))"
  by (cases "(p, bs)" rule: separated_digits.cases) auto

text \<open>The loop stops where the run of digits and separators stops.\<close>

lemma digit_loop_end:
  "fst (digit_loop p bytes i saw prev valid) = index_while (digit_or_separator p) bytes i"
proof (induction p bytes i saw prev valid rule: digit_loop.induct)
  case (1 p bytes i saw prev valid)
  then show ?case
    by (auto simp: digit_loop.simps [of p bytes i] index_while.simps [of _ bytes i] get_def Let_def)
qed

text \<open>What the loop has found out about the run, from any state of its flags.\<close>

lemma digit_loop_spec:
  assumes "\<not> p 95"
  shows "(case digit_loop p bytes i saw prev valid of (_, saw', prev', valid') \<Rightarrow>
       valid' \<and> saw' \<and> \<not> prev') \<longleftrightarrow>
     valid \<and> (let w = run_of (digit_or_separator p) bytes i in
       if w = [] then saw \<and> \<not> prev
       else separated_digits p w \<or> saw \<and> \<not> prev \<and> hd w = CHR ''_'' \<and> separated_digits p (tl w))"
  using assms
proof (induction p bytes i saw prev valid rule: digit_loop.induct)
  case (1 p bytes i saw prev valid)
  let ?q = "digit_or_separator p"
  let ?w = "run_of ?q bytes (Suc i)"
  have us: "byte_val (CHR ''_'') = 95" by simp
  consider (stop) "\<not> (i < length bytes \<and> ?q (bytes ! i))"
    | (digit) "i < length bytes" "p (byte_val (bytes ! i))"
    | (sep) "i < length bytes" "\<not> p (byte_val (bytes ! i))" "bytes ! i = CHR ''_''"
    by blast
  then show ?case
  proof cases
    case stop
    then show ?thesis
      by (auto simp: digit_loop.simps [of p bytes i] run_of_stop get_def)
  next
    case digit
    have run: "run_of ?q bytes i = bytes ! i # ?w"
      using digit by (intro run_of_step) auto
    have "separated_digits p (bytes ! i # ?w) \<longleftrightarrow>
      (?w = [] \<or> separated_digits p ?w \<or> hd ?w = CHR ''_'' \<and> separated_digits p (tl ?w))"
    proof (cases ?w)
      case (Cons c r)
      with digit "1.prems" us show ?thesis
        by (cases r) auto
    qed (use digit in simp)
    moreover have "bytes ! i \<noteq> CHR ''_''" using digit "1.prems" us by metis
    ultimately show ?thesis
      using digit "1.IH"(1) "1.prems"
      by (simp add: digit_loop.simps [of p bytes i saw] run get_def Let_def)
  next
    case sep
    have run: "run_of ?q bytes i = bytes ! i # ?w"
      using sep by (intro run_of_step) auto
    have sw: "\<not> separated_digits p (bytes ! i # ?w)"
      using separated_digits_head [of p "bytes ! i # ?w"] sep by auto
    have nxt: "Suc i < length bytes \<and> p (byte_val (bytes ! Suc i))" if "separated_digits p ?w"
    proof -
      from separated_digits_head [OF that] have "?w \<noteq> []" "p (byte_val (hd ?w))" by auto
      moreover have "Suc i < length bytes \<and> ?q (bytes ! Suc i)"
        using \<open>?w \<noteq> []\<close> run_of_stop [of "Suc i" bytes ?q] by blast
      ultimately show ?thesis
        using run_of_step [of "Suc i" bytes ?q] by simp
    qed
    show ?thesis
      using sep sw nxt "1.IH"(2) "1.prems"
      by (cases "?w = []") (auto simp: digit_loop.simps [of p bytes i saw] run get_def Let_def)
  qed
qed

lemma ascii_digit_range: "is_ascii_digit b \<Longrightarrow> b < 128" "is_ascii_hexdigit b \<Longrightarrow> b < 128"
  "radix_digit r b \<Longrightarrow> b < 128" "is_ascii_alphanumeric b \<Longrightarrow> b < 128"
  by (auto simp: ascii_defs radix_digit_def split: radix.splits)

text \<open>
  A digit sequence with separators: the scan covers exactly the longest run of digits and
  underscores, and accepts it exactly when it is separated digits, that is one or more digits with
  single underscores between digits only.
\<close>

theorem scan_digit_sequence_correct:
  assumes "\<not> is_digit 95"
  shows "ds_end (scan_digit_sequence bytes start is_digit)
       = index_while (digit_or_separator is_digit) bytes start
   \<and> (ds_valid (scan_digit_sequence bytes start is_digit)
       \<longleftrightarrow> separated_digits is_digit
             (segment bytes start (ds_end (scan_digit_sequence bytes start is_digit))))"
proof -
  let ?r = "digit_loop is_digit bytes start False False True"
  have e: "fst ?r = index_while (digit_or_separator is_digit) bytes start"
    by (rule digit_loop_end)
  obtain i saw prev v where r: "?r = (i, saw, prev, v)" by (cases ?r) auto
  show ?thesis
    using digit_loop_spec [where p = is_digit and bytes = bytes and i = start and saw = False
        and prev = False and valid = True, OF assms] e r
    by (auto simp: scan_digit_sequence_def Let_def)
qed

theorem scan_digit_sequence_correct_witness:
  "ds_end (scan_digit_sequence ''1_000;'' 0 is_ascii_digit) = 5
   \<and> ds_valid (scan_digit_sequence ''1_000;'' 0 is_ascii_digit)
   \<and> separated_digits is_ascii_digit ''1_000''"
proof -
  have "\<not> is_ascii_digit 95" by (simp add: is_ascii_digit_def)
  from scan_digit_sequence_correct [where is_digit = is_ascii_digit and bytes = "''1_000;''"
      and start = 0, OF this] show ?thesis
    by (simp add: index_while.simps is_ascii_digit_def segment_def)
qed

subsection \<open>The scanner contract\<close>

lemma digit_sequence_run:
  assumes "i \<le> length bytes" "\<And>b. p b \<Longrightarrow> b < 128"
  shows "ascii_run bytes i (ds_end (scan_digit_sequence bytes i p))"
proof -
  have "ds_end (scan_digit_sequence bytes i p) = index_while (digit_or_separator p) bytes i"
    using digit_loop_end [of p bytes i False False True]
    by (auto simp: scan_digit_sequence_def split: prod.splits)
  with assms show ?thesis by (auto intro!: ascii_run_while)
qed

lemma exponent_run:
  assumes "is_exponent_marker (get bytes m)"
  shows "ascii_run bytes m (ds_end (scan_exponent_part bytes m))"
proof -
  obtain b where "get bytes m = Some b" "byte_val b < 128"
    using assms by (auto simp: is_exponent_marker_def)
  then have m: "ascii_run bytes m (Suc m)" "m < length bytes"
    by (auto simp: get_Some_iff intro: ascii_run_step)
  have run: "ascii_run bytes i (ds_end (scan_digit_sequence bytes i is_ascii_digit))"
    if "i \<le> length bytes" for i
    using that by (rule digit_sequence_run) (rule ascii_digit_range)
  show ?thesis
  proof (cases "get bytes (m + 1) = Some (CHR ''+'') \<or> get bytes (m + 1) = Some (CHR ''-'')")
    case True
    then have "ascii_run bytes (Suc m) (Suc (Suc m))"
      by (auto intro: ascii_run_get)
    with m(1) have two: "ascii_run bytes m (m + 2)" by (auto intro: ascii_run_trans)
    from ascii_run_trans [OF two run] ascii_run_bounds [OF two] True show ?thesis
      by (auto simp: scan_exponent_part_def Let_def)
  next
    case False
    with m run [of "m + 1"] show ?thesis
      by (auto simp: scan_exponent_part_def Let_def split: option.splits intro: ascii_run_trans)
  qed
qed

lemma decimal_numeric_run:
  assumes "start \<le> length bytes"
  shows "ascii_run bytes start (ns_end (scan_decimal_numeric bytes start))"
proof -
  have run: "ascii_run bytes i (ds_end (scan_digit_sequence bytes i is_ascii_digit))"
    if "i \<le> length bytes" for i
    using that by (rule digit_sequence_run) (rule ascii_digit_range)
  let ?e0 = "ds_end (scan_digit_sequence bytes start is_ascii_digit)"
  let ?e1 = "ds_end (scan_digit_sequence bytes (?e0 + 1) is_ascii_digit)"
  have r0: "ascii_run bytes start ?e0" by (rule run [OF assms])
  have r1: "ascii_run bytes start ?e1" if "get bytes ?e0 = Some (CHR ''.'')"
  proof -
    have "ascii_run bytes ?e0 (Suc ?e0)"
      using that by (auto intro: ascii_run_get)
    with r0 run [of "?e0 + 1"] show ?thesis
      by (auto dest: ascii_run_bounds intro: ascii_run_trans)
  qed
  show ?thesis
    using r0 r1 exponent_run
    by (auto simp: scan_decimal_numeric_def Let_def intro: ascii_run_trans)
qed

lemma radix_integer_run:
  assumes "start + 2 \<le> length bytes"
  shows "ascii_run bytes (start + 2) (ns_end (scan_radix_integer bytes start radix))"
  using digit_sequence_run [OF assms, of "radix_digit radix"] ascii_digit_range(3)
  by (auto simp: scan_radix_integer_def Let_def)

lemma radix_prefix_run:
  assumes "has_radix_prefix bytes start l u" "byte_val l < 128" "byte_val u < 128"
  shows "ascii_run bytes start (start + 2)"
proof -
  have "ascii_run bytes start (Suc start)"
    using assms by (auto simp: has_radix_prefix_def intro: ascii_run_get)
  moreover have "ascii_run bytes (Suc start) (Suc (Suc start))"
    using assms by (auto simp: has_radix_prefix_def split: option.splits intro: ascii_run_get)
  ultimately show ?thesis by (auto intro: ascii_run_trans)
qed

lemma invalid_numeric_run:
  "i \<le> length bytes \<Longrightarrow> ascii_run bytes i (invalid_numeric_loop bytes i prev)"
proof (induction bytes i prev rule: invalid_numeric_loop.induct)
  case (1 bytes i prev)
  show ?case
  proof (cases "get bytes i")
    case None
    with "1.prems" show ?thesis
      by (simp add: invalid_numeric_loop.simps [of bytes i] ascii_run_refl)
  next
    case (Some b)
    then have i: "i + 1 \<le> length bytes" by (simp add: get_Some_iff)
    have step: "ascii_run bytes i (invalid_numeric_loop bytes (i + 1) q)"
      if "byte_val b < 128" "ascii_run bytes (i + 1) (invalid_numeric_loop bytes (i + 1) q)" for q
      using ascii_run_get [OF Some that(1)] that(2) by (auto intro: ascii_run_trans)
    show ?thesis
      using Some "1.IH" [OF Some] i step "1.prems"
      by (auto simp: invalid_numeric_loop.simps [of bytes i] is_numeric_suffix_byte_def
          ascii_run_refl dest: ascii_digit_range)
  qed
qed

lemma good_invalid_numeric:
  assumes "snapshot_wf s" "boundary s start" "start < text_length s"
  shows "good_scan s start (make_invalid_numeric_token s start err)"
proof -
  obtain c where c: "first_character s start = Some (Some c)"
    "offset_after_character start c = Some (start + len_utf8 c)" "boundary s (start + len_utf8 c)"
    by (rule character_at [OF assms])
  let ?i = "invalid_numeric_loop (snap_text s) start False"
  have run: "ascii_run (snap_text s) start ?i"
    using assms(3) by (intro invalid_numeric_run) simp
  have "\<exists>e > start. invalid_numeric_like_end s start = Some e \<and> boundary s e"
  proof (cases "?i = start")
    case True
    with c show ?thesis by (auto simp: invalid_numeric_like_end_def)
  next
    case False
    with run ascii_run_boundary [OF assms(1,2) run] assms(1) show ?thesis
      by (auto simp: invalid_numeric_like_end_def dest: ascii_run_bounds)
  qed
  then obtain e where "start < e" "invalid_numeric_like_end s start = Some e" "boundary s e"
    by blast
  then show ?thesis
    by (auto simp: make_invalid_numeric_token_def intro!: good_invalid_token
        split: numeric_literal_error.splits)
qed

lemma decimal_numeric_progress:
  assumes "start < length bytes" "is_ascii_digit (byte_val (bytes ! start))"
  shows "start < ns_end (scan_decimal_numeric bytes start)"
proof -
  let ?e0 = "ds_end (scan_digit_sequence bytes start is_ascii_digit)"
  have "?e0 = index_while (digit_or_separator is_ascii_digit) bytes start"
    using digit_loop_end [of is_ascii_digit bytes start False False True]
    by (auto simp: scan_digit_sequence_def split: prod.splits)
  with assms have e0: "start < ?e0" by (auto intro: index_while_gt)
  have e1: "i \<le> ds_end (scan_digit_sequence bytes i is_ascii_digit)" for i
    using digit_loop_end [of is_ascii_digit bytes i False False True] index_while_ge
    by (fastforce simp: scan_digit_sequence_def split: prod.splits)
  have ex: "i \<le> ds_end (scan_exponent_part bytes i)" for i
    using e1 [of "i + 1"] e1 [of "i + 2"]
    by (auto simp: scan_exponent_part_def Let_def split: option.splits)
  show ?thesis
    using e0 e1 [of "Suc ?e0"] ex [of ?e0] ex [of "ds_end (scan_digit_sequence bytes (Suc ?e0) is_ascii_digit)"]
    by (auto simp: scan_decimal_numeric_def Let_def)
qed

abbreviation at_digit :: "source_snapshot \<Rightarrow> text_size \<Rightarrow> bool" where
  "at_digit s start \<equiv> is_ascii_digit (byte_at s start)"

lemma numeric_kinds: "is_token (ns_kind (scan_radix_integer bytes start r))
    \<and> ns_kind (scan_radix_integer bytes start r) \<notin> {EndOfFileToken, InvalidToken}"
  "is_token (ns_kind (scan_decimal_numeric bytes start))
    \<and> ns_kind (scan_decimal_numeric bytes start) \<notin> {EndOfFileToken, InvalidToken}"
  by (auto simp: scan_radix_integer_def scan_decimal_numeric_def Let_def split: radix.splits)

interpretation numeric: token_scanner scan_numeric_literal at_digit
proof
  fix s start
  assume wf: "snapshot_wf s" and b: "boundary s start" and l: "start < text_length s"
    and d: "at_digit s start"
  let ?t = "snap_text s"
  define scan where "scan = (if has_radix_prefix ?t start (CHR ''b'') (CHR ''B'')
                    then scan_radix_integer ?t start BinaryRadix
                  else if has_radix_prefix ?t start (CHR ''x'') (CHR ''X'')
                    then scan_radix_integer ?t start HexadecimalRadix
                  else scan_decimal_numeric ?t start)"
  have radix: "ascii_run ?t start (ns_end (scan_radix_integer ?t start r))
      \<and> start < ns_end (scan_radix_integer ?t start r)"
    if "ascii_run ?t start (start + 2)" for r
  proof -
    from ascii_run_bounds [OF that]
    have r: "ascii_run ?t (start + 2) (ns_end (scan_radix_integer ?t start r))"
      by (intro radix_integer_run) simp
    from ascii_run_trans [OF that r] ascii_run_bounds [OF r] show ?thesis by linarith
  qed
  have run: "ascii_run ?t start (ns_end scan)" and pos: "start < ns_end scan"
    using radix radix_prefix_run [of ?t start] decimal_numeric_run [of start ?t]
      decimal_numeric_progress [OF l] l d
    by (auto simp: scan_def)
  have kind: "is_token (ns_kind scan)" "ns_kind scan \<notin> {EndOfFileToken, InvalidToken}"
    using numeric_kinds by (auto simp: scan_def)
  define e where "e = (if get ?t (ns_end scan) = Some (CHR ''i'') then ns_end scan + 1 else ns_end scan)"
  define kind where "kind = (if get ?t (ns_end scan) = Some (CHR ''i'') then ImaginaryLiteralToken
     else ns_kind scan)"
  have "ascii_run ?t start e"
    using run ascii_run_get [of ?t "ns_end scan" "CHR ''i''"]
    by (auto simp: e_def intro: ascii_run_trans)
  then have e: "boundary s e" "start < e" "e \<le> text_length s"
    using pos by (auto simp: e_def intro: ascii_run_boundary [OF wf b] dest: ascii_run_bounds)
  have k: "is_token kind" "kind \<noteq> EndOfFileToken" "kind \<noteq> InvalidToken"
    using kind by (auto simp: kind_def)
  have clean: "good_scan s start (clean_token_at kind start e)"
    by (rule good_clean_token_at [OF wf e(2,1) k])
  note bad = good_invalid_numeric [OF wf b l]
  have suffix: "\<exists>oc. text_size_from_usize e = Some e \<and> first_character s e = Some oc"
    using wf e character_at [OF wf e(1)] first_character_end [of s]
    by (cases "e = text_length s") (auto simp: le_less)
  show "good_scan s start (scan_numeric_literal s start)"
    using clean bad suffix
    unfolding scan_numeric_literal_def Let_def
    by (fold scan_def, fold e_def kind_def) (auto split: option.splits)
qed

interpretation tuple_index: token_scanner scan_tuple_element_index_token at_digit
proof
  fix s start
  assume wf: "snapshot_wf s" and b: "boundary s start" and l: "start < text_length s"
    and d: "at_digit s start"
  let ?e = "decimal_digits_end (snap_text s) start"
  have "ascii_run (snap_text s) start ?e"
    unfolding decimal_digits_end_def using l
    by (intro ascii_run_while) (auto dest: ascii_digit_range)
  then have e: "boundary s ?e" by (rule ascii_run_boundary [OF wf b])
  have pos: "start < ?e"
    unfolding decimal_digits_end_def using l d by (intro index_while_gt)
  have "good_scan s start (clean_token_at TupleElementIndexToken start ?e)"
    by (rule good_clean_token_at [OF wf pos e]) auto
  then show "good_scan s start (scan_tuple_element_index_token s start)"
    using good_invalid_numeric [OF wf b l]
    by (simp add: scan_tuple_element_index_token_def Let_def)
qed

end
