(* ===== verification/Lexer_Quoted.thy ===== *)
theory Lexer_Quoted
  imports Lexer_Text
begin

text \<open>
  Character, string and byte string literals
  (\<open>crates/bray-parser/src/lexer/literal/quoted.rs\<close>): escapes, unicode escapes, the two scanners
  and the recovery of a malformed literal. The lemmas characterise the escapes and the literals
  that are accepted by a grammar, and show that both scanners meet the scanner contract.
\<close>

datatype escape_mode = EscapeCharacter | EscapeString | EscapeByteString

datatype escape_error = EscapeInvalidUnicode | EscapeUnknown "nat option" | EscapeUnterminated

datatype escape_scan = EscapeValid nat | EscapeInvalid escape_error

datatype character_literal_error =
    CharacterInvalidUnicodeEscape
  | CharacterMalformed
  | CharacterUnknownEscape "nat option"
  | CharacterUnterminated

datatype character_body_scan = BodyValid nat | BodyInvalid character_literal_error

datatype string_literal_error =
    StringInvalidUnicodeEscape
  | StringUnknownEscape "nat option"
  | StringUnterminated

abbreviation is_line_end :: "char \<Rightarrow> bool" where
  "is_line_end b \<equiv> b = CHR 0x0A \<or> b = CHR 0x0D"

subsection \<open>Escapes\<close>

definition hex_digit_value :: "char \<Rightarrow> nat option" where
  "hex_digit_value b =
     (let n = byte_val b in
      if 48 \<le> n \<and> n \<le> 57 then Some (n - 48)
      else if 97 \<le> n \<and> n \<le> 102 then Some (n - 97 + 10)
      else if 65 \<le> n \<and> n \<le> 70 then Some (n - 65 + 10)
      else None)"

text \<open>
  The digit loop of a unicode escape; \<open>None\<close> is the early return of an invalid escape. The value is
  a \<open>u32\<close> updated by checked operations.
\<close>

function unicode_digits :: "string \<Rightarrow> nat \<Rightarrow> nat \<Rightarrow> nat \<Rightarrow> (nat \<times> nat) option" where
  "unicode_digits bytes digits_start i v =
     (case get bytes i of
        None \<Rightarrow> Some (i, v)
      | Some byte \<Rightarrow>
          (if byte = CHR ''}'' then Some (i, v)
           else if i - digits_start = 6 then None
           else (case hex_digit_value byte of
               None \<Rightarrow> None
             | Some digit \<Rightarrow>
                 (if u32_max < v * 16 \<or> u32_max < v * 16 + digit then None
                  else unicode_digits bytes digits_start (i + 1) (v * 16 + digit)))))"
  by pat_completeness auto
termination
  by (relation "measure (\<lambda>(bytes, _, i, _). length bytes - i)") (auto simp: get_Some_iff)

declare unicode_digits.simps [simp del]

definition scan_unicode_escape :: "string \<Rightarrow> nat \<Rightarrow> escape_scan" where
  "scan_unicode_escape bytes backslash_index =
     (if get bytes (backslash_index + 2) \<noteq> Some (CHR ''{'') then EscapeInvalid EscapeInvalidUnicode
      else (let digits_start = backslash_index + 3 in
        case unicode_digits bytes digits_start digits_start 0 of
          None \<Rightarrow> EscapeInvalid EscapeInvalidUnicode
        | Some (i, v) \<Rightarrow>
            (if i = digits_start \<or> get bytes i \<noteq> Some (CHR ''}'')
             then EscapeInvalid EscapeInvalidUnicode
             else if \<not> is_scalar v then EscapeInvalid EscapeInvalidUnicode
             else EscapeValid (i + 1))))"

definition scan_escape_sequence ::
    "source_snapshot \<Rightarrow> nat \<Rightarrow> escape_mode \<Rightarrow> escape_scan run" where
  "scan_escape_sequence s backslash_index mode =
     (let bytes = snap_text s in
      case get bytes (backslash_index + 1) of
        None \<Rightarrow> Some (EscapeInvalid EscapeUnterminated)
      | Some b \<Rightarrow>
          (if b \<in> {CHR 0x22, CHR 0x5C, CHR ''n'', CHR ''r'', CHR ''t'', CHR ''0''}
           then Some (EscapeValid (backslash_index + 2))
           else if b = CHR 0x27 \<and> mode = EscapeCharacter
             then Some (EscapeValid (backslash_index + 2))
           else if b = CHR ''x'' \<and> mode = EscapeByteString then
             Some (if backslash_index + 4 \<le> length bytes
                      \<and> list_all (\<lambda>d. hex_digit_value d \<noteq> None)
                          (segment bytes (backslash_index + 2) (backslash_index + 4))
                   then EscapeValid (backslash_index + 4)
                   else EscapeInvalid (EscapeUnknown (Some (byte_val (CHR ''x'')))))
           else if b = CHR ''u'' then Some (scan_unicode_escape bytes backslash_index)
           else if is_line_end b then Some (EscapeInvalid EscapeUnterminated)
           else do {
             at \<leftarrow> text_size_from_usize (backslash_index + 1);
             oc \<leftarrow> first_character s at;
             Some (EscapeInvalid (EscapeUnknown oc))
           }))"

subsection \<open>Recovery\<close>

lemma character_len_at_pos: "character_len_at s i = Some n \<Longrightarrow> 0 < n"
  by (auto simp: character_len_at_def len_utf8_pos split: option.splits)

function recovery_loop :: "source_snapshot \<Rightarrow> char \<Rightarrow> nat \<Rightarrow> nat" where
  "recovery_loop s quote i =
     (case get (snap_text s) i of
        None \<Rightarrow> i
      | Some byte \<Rightarrow>
          (if is_line_end byte then i
           else if byte = quote then i + 1
           else if byte = CHR 0x5C then
             (case character_len_at s (i + 1) of
                Some n \<Rightarrow> recovery_loop s quote (i + 1 + n)
              | None \<Rightarrow> recovery_loop s quote (i + 1))
           else (case character_len_at s i of
                Some n \<Rightarrow> recovery_loop s quote (i + n)
              | None \<Rightarrow> i)))"
  by pat_completeness auto
termination
  by (relation "measure (\<lambda>(s, _, i). text_length s - i)")
    (auto simp: get_Some_iff dest: character_len_at_pos)

declare recovery_loop.simps [simp del]

definition quoted_literal_recovery_end ::
    "source_snapshot \<Rightarrow> text_size \<Rightarrow> char \<Rightarrow> text_size run" where
  "quoted_literal_recovery_end s start quote =
     (let i = (if quote = CHR 0x22 \<and> get (snap_text s) start = Some (CHR ''b'')
               then start + 2 else start + 1)
      in text_size_from_usize (recovery_loop s quote i))"

definition make_invalid_character_literal_token ::
    "source_snapshot \<Rightarrow> text_size \<Rightarrow> character_literal_error \<Rightarrow> token_scan run" where
  "make_invalid_character_literal_token s start err = do {
     e \<leftarrow> quoted_literal_recovery_end s start (CHR 0x27);
     invalid_token_with start e (\<lambda>r. case err of
       CharacterInvalidUnicodeEscape \<Rightarrow> invalid_unicode_escape s r
     | CharacterMalformed \<Rightarrow> malformed_character_literal s r
     | CharacterUnknownEscape c \<Rightarrow> unknown_escape s r c
     | CharacterUnterminated \<Rightarrow> unterminated_character_literal s r)
   }"

definition make_invalid_string_literal_token ::
    "source_snapshot \<Rightarrow> text_size \<Rightarrow> string_literal_error \<Rightarrow> token_scan run" where
  "make_invalid_string_literal_token s start err = do {
     e \<leftarrow> quoted_literal_recovery_end s start (CHR 0x22);
     invalid_token_with start e (\<lambda>r. case err of
       StringInvalidUnicodeEscape \<Rightarrow> invalid_unicode_escape s r
     | StringUnknownEscape c \<Rightarrow> unknown_escape s r c
     | StringUnterminated \<Rightarrow> unterminated_string_literal s r)
   }"

subsection \<open>The scanners\<close>

definition scan_character_literal_body :: "source_snapshot \<Rightarrow> nat \<Rightarrow> character_body_scan run" where
  "scan_character_literal_body s i =
     (case get (snap_text s) i of
        None \<Rightarrow> Some (BodyInvalid CharacterUnterminated)
      | Some byte \<Rightarrow>
          (if byte = CHR 0x5C then do {
             r \<leftarrow> scan_escape_sequence s i EscapeCharacter;
             Some (case r of
               EscapeValid e \<Rightarrow> BodyValid e
             | EscapeInvalid EscapeUnterminated \<Rightarrow> BodyInvalid CharacterUnterminated
             | EscapeInvalid (EscapeUnknown c) \<Rightarrow> BodyInvalid (CharacterUnknownEscape c)
             | EscapeInvalid EscapeInvalidUnicode \<Rightarrow> BodyInvalid CharacterInvalidUnicodeEscape)
           }
           else if byte = CHR 0x27 then Some (BodyInvalid CharacterMalformed)
           else if is_line_end byte then Some (BodyInvalid CharacterUnterminated)
           else if byte_val byte < 128 then Some (BodyValid (i + 1))
           else Some (case character_len_at s i of
               Some n \<Rightarrow> BodyValid (i + n)
             | None \<Rightarrow> BodyInvalid CharacterUnterminated)))"

definition scan_character_literal :: "source_snapshot \<Rightarrow> text_size \<Rightarrow> token_scan run" where
  "scan_character_literal s start = do {
     body \<leftarrow> scan_character_literal_body s (start + 1);
     case body of
       BodyInvalid err \<Rightarrow> make_invalid_character_literal_token s start err
     | BodyValid i \<Rightarrow>
         (case get (snap_text s) i of
            None \<Rightarrow> make_invalid_character_literal_token s start CharacterUnterminated
          | Some b \<Rightarrow>
              (if b = CHR 0x27 then clean_token_at CharacterLiteralToken start (i + 1)
               else if is_line_end b
                 then make_invalid_character_literal_token s start CharacterUnterminated
               else make_invalid_character_literal_token s start CharacterMalformed))
   }"

lemma unicode_digits_end:
  "unicode_digits bytes d i v = Some (j, w) \<Longrightarrow> i \<le> j"
proof (induction bytes d i v rule: unicode_digits.induct)
  case (1 bytes d i v)
  from "1.prems" "1.IH" show ?case
    by (auto simp: unicode_digits.simps [of bytes d i] split: option.splits if_splits)
      (meson Suc_leD)
qed

lemma escape_progress:
  "scan_escape_sequence s i mode = Some (EscapeValid e) \<Longrightarrow> i < e"
  using unicode_digits_end [of "snap_text s" "i + 3" "i + 3" 0]
  by (fastforce simp: scan_escape_sequence_def scan_unicode_escape_def Let_def run_simps
      split: option.splits if_splits)

function string_loop :: "source_snapshot \<Rightarrow> text_size \<Rightarrow> bool \<Rightarrow> nat \<Rightarrow> token_scan run" where
  "string_loop s start byte_string i =
     (case get (snap_text s) i of
        None \<Rightarrow> make_invalid_string_literal_token s start StringUnterminated
      | Some byte \<Rightarrow>
          (if byte = CHR 0x22 then
             clean_token_at (if byte_string then ByteStringLiteralToken else StringLiteralToken)
               start (i + 1)
           else if is_line_end byte then
             make_invalid_string_literal_token s start StringUnterminated
           else if byte = CHR 0x5C then
             (case scan_escape_sequence s i
                     (if byte_string then EscapeByteString else EscapeString) of
                None \<Rightarrow> panic
              | Some (EscapeValid e) \<Rightarrow> string_loop s start byte_string e
              | Some (EscapeInvalid EscapeUnterminated) \<Rightarrow>
                  make_invalid_string_literal_token s start StringUnterminated
              | Some (EscapeInvalid (EscapeUnknown c)) \<Rightarrow>
                  make_invalid_string_literal_token s start (StringUnknownEscape c)
              | Some (EscapeInvalid EscapeInvalidUnicode) \<Rightarrow>
                  make_invalid_string_literal_token s start StringInvalidUnicodeEscape)
           else if byte_val byte < 128 then string_loop s start byte_string (i + 1)
           else (case character_len_at s i of
               Some n \<Rightarrow> string_loop s start byte_string (i + n)
             | None \<Rightarrow> make_invalid_string_literal_token s start StringUnterminated)))"
  by pat_completeness auto
termination
  by (relation "measure (\<lambda>(s, _, _, i). text_length s - i)")
    (auto simp: get_Some_iff dest: character_len_at_pos escape_progress)

declare string_loop.simps [simp del]

definition scan_string_literal :: "source_snapshot \<Rightarrow> text_size \<Rightarrow> bool \<Rightarrow> token_scan run" where
  "scan_string_literal s start byte_string =
     string_loop s start byte_string (start + 1 + (if byte_string then 1 else 0))"

subsection \<open>Unicode escapes\<close>

text \<open>The value of a list of hexadecimal digits.\<close>

definition hex_value :: "string \<Rightarrow> nat" where
  "hex_value ds = foldl (\<lambda>v b. v * 16 + the (hex_digit_value b)) 0 ds"

definition is_hex_text :: "string \<Rightarrow> bool" where
  "is_hex_text ds = list_all (\<lambda>b. hex_digit_value b \<noteq> None) ds"

lemma hex_digit_bound: "hex_digit_value b = Some d \<Longrightarrow> d < 16 \<and> byte_val b < 128"
  by (auto simp: hex_digit_value_def Let_def split: if_splits)

text \<open>The loop reads the run up to the brace, fails on a digit too many and never overflows.\<close>

lemma unicode_digits_spec:
  assumes "n \<le> 6" "v < 16 ^ n"
  shows "unicode_digits bytes d (d + n) v =
    (let w = run_of (\<lambda>b. b \<noteq> CHR ''}'') bytes (d + n) in
     if is_hex_text w \<and> n + length w \<le> 6
     then Some (d + n + length w, foldl (\<lambda>v b. v * 16 + the (hex_digit_value b)) v w)
     else None)"
  using assms
proof (induction "6 - n" arbitrary: n v rule: less_induct)
  case less
  let ?i = "d + n" and ?q = "\<lambda>b. b \<noteq> CHR ''}''"
  let ?w = "run_of ?q bytes (Suc ?i)"
  show ?case
  proof (cases "?i < length bytes \<and> bytes ! ?i \<noteq> CHR ''}''")
    case False
    then show ?thesis
      using less.prems run_of_stop [of ?i bytes ?q]
      by (auto simp: unicode_digits.simps [of bytes d ?i] get_def is_hex_text_def)
  next
    case True
    then have run: "run_of ?q bytes ?i = bytes ! ?i # ?w"
      by (intro run_of_step) auto
    show ?thesis
    proof (cases "n < 6 \<and> hex_digit_value (bytes ! ?i) \<noteq> None")
      case False
      with True less.prems show ?thesis
        by (auto simp: unicode_digits.simps [of bytes d ?i] get_def is_hex_text_def run)
    next
      case h: True
      then obtain x where x: "hex_digit_value (bytes ! ?i) = Some x" by auto
      have v': "v * 16 + x < 16 ^ Suc n"
        using less.prems(2) hex_digit_bound [OF x] by simp
      have "(16::nat) ^ Suc n \<le> 16 ^ 6"
        using h by (intro power_increasing) auto
      with v' have u: "v * 16 + x \<le> u32_max" by (simp add: u32_max_def)
      have lt: "6 - Suc n < 6 - n" using h by linarith
      have "unicode_digits bytes d ?i v = unicode_digits bytes d (d + Suc n) (v * 16 + x)"
        using True h x u by (simp add: unicode_digits.simps [of bytes d ?i] get_def)
      also have "\<dots> = (let w = ?w in
         if is_hex_text w \<and> Suc n + length w \<le> 6
         then Some (d + Suc n + length w, foldl (\<lambda>v b. v * 16 + the (hex_digit_value b)) (v * 16 + x) w)
         else None)"
        using less.hyps [OF lt] h v' by simp
      finally show ?thesis
        using x by (simp add: run is_hex_text_def Let_def)
    qed
  qed
qed

lemma hex_text_no_brace: "is_hex_text ds \<Longrightarrow> b \<in> set ds \<Longrightarrow> b \<noteq> CHR ''}''"
  by (auto simp: is_hex_text_def list_all_iff hex_digit_value_def)

text \<open>The digits of an accepted unicode escape: at most six, naming a scalar value.\<close>

definition unicode_escape_digits :: "string \<Rightarrow> bool" where
  "unicode_escape_digits ds \<longleftrightarrow>
     is_hex_text ds \<and> 1 \<le> length ds \<and> length ds \<le> 6 \<and> is_scalar (hex_value ds)"

lemma scan_unicode_escape_iff:
  "scan_unicode_escape bytes i = EscapeValid e \<longleftrightarrow>
   (\<exists>ds. unicode_escape_digits ds \<and> e = i + 4 + length ds \<and> e \<le> length bytes
      \<and> segment bytes (i + 2) e = CHR ''{'' # ds @ [CHR ''}''])"
  (is "?L \<longleftrightarrow> (\<exists>ds. ?R ds)")
proof -
  let ?q = "\<lambda>b. b \<noteq> CHR ''}''"
  let ?w = "run_of ?q bytes (i + 3)" and ?j = "index_while ?q bytes (i + 3)"
  note spec = unicode_digits_spec [of 0 0 bytes "i + 3", folded hex_value_def]
  have jw: "?j = i + 3 + length ?w" if "i + 3 \<le> length bytes"
    using that index_while_ge [of "i + 3" ?q bytes] index_while_le [of "i + 3" bytes ?q]
    by (simp add: length_segment)
  have open_seg: "segment bytes (i + 2) k = bytes ! (i + 2) # segment bytes (i + 3) k"
    if "i + 2 < k" "k \<le> length bytes" for k
    using that segment_Cons [of "i + 2" k bytes] by (simp add: numeral_3_eq_3)
  show ?thesis
  proof
    assume ?L
    then have w: "get bytes (i + 2) = Some (CHR ''{'')" "is_hex_text ?w" "length ?w \<le> 6"
      "get bytes (i + 3 + length ?w) = Some (CHR ''}'')" "?w \<noteq> []" "is_scalar (hex_value ?w)"
      "e = i + 4 + length ?w"
      using spec by (auto simp: scan_unicode_escape_def Let_def split: if_splits)
    then have len: "i + 3 + length ?w < length bytes" by (auto simp: get_Some_iff)
    have j: "?j = i + 3 + length ?w" by (rule jw) (use len in simp)
    then have e: "e = Suc ?j" using w(7) by linarith
    have close: "?j < length bytes" "bytes ! ?j = CHR ''}''"
      using w(4) unfolding j [symmetric] get_Some_iff by auto
    have "segment bytes (i + 3) e = ?w @ [CHR ''}'']"
      unfolding e using segment_snoc [OF index_while_ge close(1)] close(2) by simp
    with w len open_seg [of e] have "?R ?w"
      by (auto simp: unicode_escape_digits_def get_Some_iff Suc_le_eq)
    then show "\<exists>ds. ?R ds" by blast
  next
    assume "\<exists>ds. ?R ds"
    then obtain ds where ds: "?R ds" by blast
    then have seg: "bytes ! (i + 2) = CHR ''{''" "segment bytes (i + 3) e = ds @ [CHR ''}'']"
      using open_seg [of e] by auto
    have e: "e = Suc (i + 3 + length ds)" using ds by simp
    have w: "?w = ds"
      using ds seg(2) by (intro run_of_eqI) (auto simp: unicode_escape_digits_def e
          dest: hex_text_no_brace)
    have close: "bytes ! (i + 3 + length ds) = CHR ''}''"
      using ds seg(2) segment_snoc [of "i + 3" "i + 3 + length ds" bytes] by (auto simp: e)
    show ?L
      using ds spec seg w close
      by (auto simp: scan_unicode_escape_def get_def unicode_escape_digits_def Let_def)
  qed
qed

text \<open>
  A unicode escape is accepted exactly when, after the backslash and the \<open>u\<close>, it reads an open
  brace, one to six hexadecimal digits whose value is a Unicode scalar value (so no surrogate and
  nothing above the last code point), and a close brace; the scan then ends right after the brace.
\<close>

theorem scan_unicode_escape_correct:
  "scan_unicode_escape bytes i = EscapeValid e \<longleftrightarrow>
   (\<exists>ds. unicode_escape_digits ds \<and> e = i + 4 + length ds \<and> e \<le> length bytes
      \<and> segment bytes (i + 2) e = CHR ''{'' # ds @ [CHR ''}''])"
  by (rule scan_unicode_escape_iff)

subsection \<open>The grammar of escapes and bodies\<close>

definition simple_escapes :: "escape_mode \<Rightarrow> string" where
  "simple_escapes mode = [CHR 0x22, CHR 0x5C, CHR ''n'', CHR ''r'', CHR ''t'', CHR ''0'']
     @ (if mode = EscapeCharacter then [CHR 0x27] else [])"

inductive escape_text :: "escape_mode \<Rightarrow> string \<Rightarrow> bool" where
  simple: "b \<in> set (simple_escapes mode) \<Longrightarrow> escape_text mode [CHR 0x5C, b]"
| byte: "is_hex_text [h, l] \<Longrightarrow> escape_text EscapeByteString [CHR 0x5C, CHR ''x'', h, l]"
| unicode: "unicode_escape_digits ds
    \<Longrightarrow> escape_text mode ([CHR 0x5C, CHR ''u'', CHR ''{''] @ ds @ [CHR ''}''])"

inductive string_body :: "escape_mode \<Rightarrow> string \<Rightarrow> bool" where
  empty: "string_body mode []"
| plain: "is_scalar c \<Longrightarrow> c \<notin> {10, 13, 34, 92} \<Longrightarrow> string_body mode t
    \<Longrightarrow> string_body mode (encode_utf8 c @ t)"
| escape: "escape_text mode e \<Longrightarrow> string_body mode t \<Longrightarrow> string_body mode (e @ t)"

text \<open>A scan of an escape is valid exactly on the escapes of the grammar.\<close>

lemma segment_two: "i + 2 \<le> length xs \<Longrightarrow> segment xs i (i + 2) = [xs ! i, xs ! (i + 1)]"
  by (simp add: segment_Cons)

lemma segment_four:
  "i + 4 \<le> length xs \<Longrightarrow> segment xs i (i + 4) = [xs ! i, xs ! (i + 1), xs ! (i + 2), xs ! (i + 3)]"
  by (simp add: segment_Cons eval_nat_numeral)

lemma escape_valid_sound:
  assumes "scan_escape_sequence s i mode = Some (EscapeValid e)"
    and "get (snap_text s) i = Some (CHR 0x5C)"
  shows "e \<le> text_length s \<and> escape_text mode (segment (snap_text s) i e)"
proof -
  let ?t = "snap_text s"
  obtain b where b: "get ?t (i + 1) = Some b"
    using assms(1) by (cases "get ?t (i + 1)") (auto simp: scan_escape_sequence_def)
  have t: "?t ! i = CHR 0x5C" "?t ! (i + 1) = b" "i + 2 \<le> text_length s"
    using assms(2) b by (auto simp: get_Some_iff)
  consider (simple) "b \<in> set (simple_escapes mode)" "e = i + 2"
    | (byte) "b = CHR ''x''" "mode = EscapeByteString" "e = i + 4" "i + 4 \<le> text_length s"
        "is_hex_text (segment ?t (i + 2) (i + 4))"
    | (unicode) "b = CHR ''u''" "scan_unicode_escape ?t i = EscapeValid e"
    using assms(1) b
    by (auto simp: scan_escape_sequence_def simple_escapes_def is_hex_text_def run_simps Let_def
        split: if_splits)
  then show ?thesis
  proof cases
    case simple
    with t segment_two [OF t(3)] escape_text.simple [OF simple(1)] show ?thesis by simp
  next
    case byte
    then have "is_hex_text [?t ! (i + 2), ?t ! (i + 3)]"
      using segment_two [of "i + 2" ?t] by (simp add: eval_nat_numeral)
    from escape_text.byte [OF this] byte t segment_four [OF byte(4)] show ?thesis by simp
  next
    case unicode
    then obtain ds where ds: "unicode_escape_digits ds" "e = i + 4 + length ds"
      "e \<le> text_length s" "segment ?t (i + 2) e = CHR ''{'' # ds @ [CHR ''}'']"
      by (auto simp: scan_unicode_escape_iff)
    have "segment ?t i e = segment ?t i (i + 2) @ segment ?t (i + 2) e"
      using ds by (intro segment_append [symmetric]) auto
    with ds t unicode escape_text.unicode [OF ds(1), of mode] segment_two [OF t(3)] show ?thesis
      by simp
  qed
qed

lemma drop_get:
  assumes "drop i t = u @ r" "k < length u"
  shows "get t (i + k) = Some (u ! k)" "i + length u \<le> length t" "segment t i (i + length u) = u"
proof -
  have "length t - i = length u + length r" by (metis assms(1) length_append length_drop)
  moreover have "t ! (i + k) = (u @ r) ! k"
    using assms nth_drop [of i t k] calculation by simp
  ultimately show "get t (i + k) = Some (u ! k)" "i + length u \<le> length t"
    using assms(2) by (auto simp: get_def nth_append)
  show "segment t i (i + length u) = u" by (simp add: segment_def assms(1))
qed

lemma drop_past: "drop i t = u @ r \<Longrightarrow> drop (i + length u) t = r"
  by (metis add.commute append_eq_conv_conj drop_drop)

lemma escape_valid_complete:
  assumes "escape_text mode e" "drop i (snap_text s) = e @ r"
  shows "scan_escape_sequence s i mode = Some (EscapeValid (i + length e))"
  using assms
proof cases
  case (simple b)
  then have "get (snap_text s) (i + 1) = Some b"
    using drop_get(1) [OF assms(2), of 1] by simp
  with simple show ?thesis
    by (auto simp: scan_escape_sequence_def simple_escapes_def split: if_splits)
next
  case (byte h l)
  have "get (snap_text s) (i + 1) = Some (CHR ''x'')" "i + 4 \<le> text_length s"
    using byte drop_get(1,2) [OF assms(2), of 1] by simp_all
  moreover have "segment (snap_text s) (i + 2) (i + 4) = [h, l]"
  proof -
    have "drop (i + 2) (snap_text s) = [h, l] @ r"
      using assms(2) byte drop_past [of i "snap_text s" "[CHR 0x5C, CHR ''x'']" "[h, l] @ r"] by simp
    from drop_get(3) [OF this, of 0] show ?thesis by (simp add: eval_nat_numeral)
  qed
  ultimately show ?thesis
    using byte by (simp add: scan_escape_sequence_def is_hex_text_def)
next
  case (unicode ds)
  have "get (snap_text s) (i + 1) = Some (CHR ''u'')" "i + length e \<le> text_length s"
    using unicode drop_get(1,2) [OF assms(2), of 1] by simp_all
  moreover have "segment (snap_text s) (i + 2) (i + length e) = CHR ''{'' # ds @ [CHR ''}'']"
  proof -
    have "drop (i + 2) (snap_text s) = (CHR ''{'' # ds @ [CHR ''}'']) @ r"
      using assms(2) unicode
        drop_past [of i "snap_text s" "[CHR 0x5C, CHR ''u'']" "(CHR ''{'' # ds @ [CHR ''}'']) @ r"]
      by simp
    from drop_get(3) [OF this, of 0] unicode show ?thesis by simp
  qed
  moreover have "scan_unicode_escape (snap_text s) i = EscapeValid (i + length e)"
    unfolding scan_unicode_escape_iff
    using unicode calculation by (intro exI [of _ ds]) simp
  ultimately show ?thesis
    by (simp add: scan_escape_sequence_def)
qed

abbreviation string_mode :: "bool \<Rightarrow> escape_mode" where
  "string_mode byte_string \<equiv> (if byte_string then EscapeByteString else EscapeString)"

abbreviation string_kind :: "bool \<Rightarrow> syntax_kind" where
  "string_kind byte_string \<equiv> (if byte_string then ByteStringLiteralToken else StringLiteralToken)"

lemma plain_char_step:
  assumes "is_scalar c" "c \<notin> {10, 13, 34, 92}" "drop i (snap_text s) = encode_utf8 c @ r"
  shows "string_loop s start bs i = string_loop s start bs (i + len_utf8 c)"
proof -
  let ?b = "encode_utf8 c ! 0"
  have b: "get (snap_text s) i = Some ?b"
    using drop_get(1) [OF assms(3), of 0] by simp
  have bnd: "boundary s i"
    using b encode_utf8_head(1) [OF assms(1)] by (auto simp: is_char_boundary_def get_Some_iff)
  show ?thesis
  proof (cases "c < 128")
    case True
    then have "byte_val ?b = c" "len_utf8 c = 1" by (simp_all add: encode_utf8_def len_utf8_def)
    with assms(2) b True show ?thesis
      by (subst string_loop.simps) (auto simp del: string_loop.simps)
  next
    case False
    with encode_utf8_head(2) [OF assms(1)] have "\<not> byte_val ?b < 128" by simp
    moreover have "character_len_at s i = Some (len_utf8 c)"
      using bnd assms(3) by (simp add: character_len_at_def str_get_from_def next_char_encode assms(1))
    ultimately show ?thesis
      using b by (subst string_loop.simps) (auto simp del: string_loop.simps)
  qed
qed

lemma escape_text_head: "escape_text mode e \<Longrightarrow> e \<noteq> [] \<and> e ! 0 = CHR 0x5C"
  by (cases rule: escape_text.cases) auto

lemma string_loop_complete:
  assumes "string_body (string_mode bs) body" "drop i (snap_text s) = body @ CHR 0x22 # r"
  shows "string_loop s start bs i
    = clean_token_at (string_kind bs) start (i + length body + 1)"
  using assms
proof (induction "string_mode bs" body arbitrary: i)
  case empty
  then show ?case
    using drop_get(1) [of i "snap_text s" "[CHR 0x22]" r 0] by (simp add: string_loop.simps [of s start bs i])
next
  case (plain c t)
  then have d: "drop i (snap_text s) = encode_utf8 c @ t @ CHR 0x22 # r" by simp
  then have "drop (i + len_utf8 c) (snap_text s) = t @ CHR 0x22 # r"
    using drop_past [OF d] by simp
  with plain.hyps plain_char_step [OF plain.hyps(1,2) d] show ?case
    by (simp add: add.assoc)
next
  case (escape e t)
  then have d: "drop i (snap_text s) = e @ t @ CHR 0x22 # r" by simp
  then have "drop (i + length e) (snap_text s) = t @ CHR 0x22 # r"
    by (rule drop_past)
  moreover have "get (snap_text s) i = Some (CHR 0x5C)"
    using drop_get(1) [OF d, of 0] escape_text_head [OF escape.hyps(1)] by simp
  moreover note escape_valid_complete [OF escape.hyps(1) d]
  ultimately show ?case
    using escape.hyps by (simp add: string_loop.simps [of s start bs i] add.assoc)
qed

lemma invalid_token_kind:
  "invalid_token_with start e f = Some sc \<Longrightarrow> tok_kind (scan_token sc) = InvalidToken"
  by (auto simp: invalid_token_with_def make_token_def scan_with_diagnostic_def run_simps)

lemma invalid_literal_kind:
  "make_invalid_string_literal_token s start err = Some sc \<Longrightarrow> tok_kind (scan_token sc) = InvalidToken"
  "make_invalid_character_literal_token s start cerr = Some sc
    \<Longrightarrow> tok_kind (scan_token sc) = InvalidToken"
  by (auto simp: make_invalid_string_literal_token_def make_invalid_character_literal_token_def
      run_simps dest: invalid_token_kind)

text \<open>At a boundary that is not the end, the text goes on with an encoded character.\<close>

lemma boundary_drop_encode:
  assumes "snapshot_wf s" "boundary s i" "get (snap_text s) i = Some b"
  obtains c r where "is_scalar c" "drop i (snap_text s) = encode_utf8 c @ r"
    "character_len_at s i = Some (len_utf8 c)" "boundary s (i + len_utf8 c)"
    "c < 128 \<longleftrightarrow> byte_val b < 128" "c < 128 \<longrightarrow> c = byte_val b"
proof -
  have l: "i < text_length s" "snap_text s ! i = b" using assms(3) by (auto simp: get_Some_iff)
  obtain c where c: "is_scalar c" "segment (snap_text s) i (i + len_utf8 c) = encode_utf8 c"
    "character_len_at s i = Some (len_utf8 c)" "boundary s (i + len_utf8 c)"
    "c < 128 \<longleftrightarrow> byte_val b < 128" "c < 128 \<longrightarrow> c = byte_val b"
    using character_at [OF assms(1,2) l(1)] l(2) by metis
  then have "drop i (snap_text s) = encode_utf8 c @ drop (len_utf8 c) (drop i (snap_text s))"
    using append_take_drop_id [of "len_utf8 c" "drop i (snap_text s)"] by (simp add: segment_def)
  with c show ?thesis by (intro that [of c]) auto
qed

lemma escape_run:
  assumes "scan_escape_sequence s i mode = Some (EscapeValid e)" "get (snap_text s) i = Some (CHR 0x5C)"
  shows "ascii_run (snap_text s) i e"
    and "\<exists>x r. escape_text mode x \<and> drop i (snap_text s) = x @ r \<and> e = i + length x"
proof -
  let ?x = "segment (snap_text s) i e"
  from escape_valid_sound [OF assms] have x: "e \<le> text_length s" "escape_text mode ?x" by auto
  have i: "i < e" by (rule escape_progress [OF assms(1)])
  have len: "length ?x = e - i" by (simp add: length_segment x)
  have "list_all (\<lambda>b. byte_val b < 128) ?x"
    using x(2)
  proof cases
    case (unicode ds)
    then show ?thesis
      by (auto simp: list_all_iff unicode_escape_digits_def is_hex_text_def dest!: hex_digit_bound)
  qed (auto simp: simple_escapes_def is_hex_text_def dest: hex_digit_bound split: if_splits)
  then have "byte_val (?x ! (k - i)) < 128" if "i \<le> k" "k < e" for k
    using that len by (auto simp: list_all_length)
  with x(1) i show "ascii_run (snap_text s) i e"
    by (auto simp: ascii_run_def nth_segment)
  have "drop i (snap_text s) = ?x @ drop (e - i) (drop i (snap_text s))"
    by (simp add: segment_def del: drop_drop)
  with x(2) len i show "\<exists>x r. escape_text mode x \<and> drop i (snap_text s) = x @ r \<and> e = i + length x"
    by (intro exI [of _ ?x] exI conjI) auto
qed

lemma byte_val_delimiters:
  "byte_val b = 34 \<longleftrightarrow> b = CHR 0x22" "byte_val b = 92 \<longleftrightarrow> b = CHR 0x5C"
  "byte_val b = 10 \<longleftrightarrow> b = CHR 0x0A" "byte_val b = 13 \<longleftrightarrow> b = CHR 0x0D"
  "byte_val b = 39 \<longleftrightarrow> b = CHR 0x27"
  using of_char_eq_iff [where 'a = nat, of b "CHR 0x22"] of_char_eq_iff [where 'a = nat, of b "CHR 0x5C"]
    of_char_eq_iff [where 'a = nat, of b "CHR 0x0A"] of_char_eq_iff [where 'a = nat, of b "CHR 0x0D"]
    of_char_eq_iff [where 'a = nat, of b "CHR 0x27"]
  by simp_all

lemma string_loop_sound:
  assumes "snapshot_wf s" "boundary s i" "string_loop s start bs i = Some sc"
    "tok_kind (scan_token sc) \<noteq> InvalidToken"
  shows "\<exists>body r. string_body (string_mode bs) body \<and> drop i (snap_text s) = body @ CHR 0x22 # r"
  using assms
proof (induction s start bs i rule: string_loop.induct)
  case (1 s start bs i)
  from "1.prems" obtain b where b: "get (snap_text s) i = Some b"
    by (cases "get (snap_text s) i")
      (auto simp: string_loop.simps [of s start bs i] dest: invalid_literal_kind)
  obtain c r where c: "is_scalar c" "drop i (snap_text s) = encode_utf8 c @ r"
    "character_len_at s i = Some (len_utf8 c)" "boundary s (i + len_utf8 c)"
    "c < 128 \<longleftrightarrow> byte_val b < 128" "c < 128 \<longrightarrow> c = byte_val b"
    by (rule boundary_drop_encode [OF "1.prems"(1,2) b])
  have enc: "byte_val b < 128 \<Longrightarrow> encode_utf8 c = [b]"
    using c(5,6) by (auto simp: encode_utf8_def)
  have "b = CHR 0x22 \<or> is_line_end b \<or> b = CHR 0x5C" if "c \<in> {10, 13, 34, 92}"
  proof -
    from that c(6) have "byte_val b = c" by auto
    with that byte_val_delimiters [of b] show ?thesis by blast
  qed
  then consider (close) "b = CHR 0x22" | (line) "is_line_end b" | (escape) "b = CHR 0x5C"
    | (plain) "c \<notin> {10, 13, 34, 92}" "b \<notin> {CHR 0x22, CHR 0x5C}" "\<not> is_line_end b"
    by blast
  then show ?case
  proof cases
    case close
    then have "encode_utf8 c = [CHR 0x22]" using enc by simp
    with c(2) string_body.empty show ?thesis by fastforce
  next
    case line
    with "1.prems" b show ?thesis
      by (auto simp: string_loop.simps [of s start bs i] dest: invalid_literal_kind)
  next
    case escape
    with "1.prems" b obtain e where e: "scan_escape_sequence s i (string_mode bs) = Some (EscapeValid e)"
        "string_loop s start bs e = Some sc"
      by (simp add: string_loop.simps [of s start bs i] split: option.splits escape_scan.splits
          escape_error.splits) (auto dest: invalid_literal_kind)
    from escape_run [OF e(1)] b escape obtain x r'
      where x: "escape_text (string_mode bs) x" "drop i (snap_text s) = x @ r'" "e = i + length x"
        and run: "ascii_run (snap_text s) i e" by auto
    have "\<exists>body r. string_body (string_mode bs) body \<and> drop e (snap_text s) = body @ CHR 0x22 # r"
      using "1.IH"(1) [OF b _ _ _ e(1)] escape e(2) "1.prems" ascii_run_boundary [OF "1.prems"(1,2) run]
      by auto
    with x show ?thesis using drop_past [OF x(2)] string_body.escape [OF x(1)]
      by (metis append.assoc)
  next
    case plain
    have "\<exists>body r. string_body (string_mode bs) body
        \<and> drop (i + len_utf8 c) (snap_text s) = body @ CHR 0x22 # r"
    proof (cases "byte_val b < 128")
      case True
      with c(5) have "len_utf8 c = 1" by (simp add: len_utf8_def)
      with "1.IH"(2) [OF b] True plain "1.prems" c(4) plain_char_step [OF c(1) plain(1) c(2), of start bs]
      show ?thesis by simp
    next
      case False
      with "1.IH"(3) [OF b _ _ _ _ c(3)] plain "1.prems" c(4)
        plain_char_step [OF c(1) plain(1) c(2), of start bs]
      show ?thesis by simp
    qed
    with drop_past [OF c(2)] string_body.plain [OF c(1) plain(1)] c(2) show ?thesis
      by (metis append.assoc length_encode_utf8)
  qed
qed

subsection \<open>The scanner contract\<close>

lemma recovery_boundary:
  assumes "snapshot_wf s" "boundary s i" "byte_val quote < 128"
  shows "boundary s (recovery_loop s quote i) \<and> i \<le> recovery_loop s quote i"
  using assms
proof (induction s quote i rule: recovery_loop.induct)
  case (1 s quote i)
  show ?case
  proof (cases "get (snap_text s) i")
    case None
    with "1.prems" show ?thesis by (simp add: recovery_loop.simps [of s quote i])
  next
    case (Some b)
    obtain c r where c: "character_len_at s i = Some (len_utf8 c)" "boundary s (i + len_utf8 c)"
      by (rule boundary_drop_encode [OF "1.prems"(1,2) Some])
    have suc: "boundary s (i + 1)" if "byte_val b < 128"
      using that Some "1.prems"(1) boundary_Suc [of s i] by (auto simp: get_Some_iff)
    consider (line) "is_line_end b" | (quote) "\<not> is_line_end b" "b = quote"
      | (escape) "\<not> is_line_end b" "b \<noteq> quote" "b = CHR 0x5C"
      | (plain) "\<not> is_line_end b" "b \<noteq> quote" "b \<noteq> CHR 0x5C" by blast
    then show ?thesis
    proof cases
      case escape
      with suc have s1: "boundary s (i + 1)" by simp
      have "boundary s (i + 1 + n)" if n: "character_len_at s (i + 1) = Some n" for n
      proof -
        have "get (snap_text s) (i + 1) \<noteq> None"
          using n boundary_le [OF s1]
          by (cases "i + 1 = text_length s") (simp_all add: get_None_iff)
        then obtain b' where "get (snap_text s) (i + 1) = Some b'" by blast
        then obtain c' where "character_len_at s (i + 1) = Some (len_utf8 c')"
          "boundary s (i + 1 + len_utf8 c')"
          by (rule boundary_drop_encode [OF "1.prems"(1) s1])
        with n show ?thesis by simp
      qed
      with escape s1 "1.IH"(1,2) [OF Some] "1.prems" Some show ?thesis
        by (cases "character_len_at s (i + 1)") (force simp: recovery_loop.simps [of s quote i])+
    next
      case plain
      with "1.IH"(3) [OF Some _ _ _ c(1)] "1.prems" Some c show ?thesis
        by (auto simp: recovery_loop.simps [of s quote i])
    qed (use "1.prems" Some suc in \<open>auto simp: recovery_loop.simps [of s quote i]\<close>)
  qed
qed

text \<open>Where the two scanners are called: at their opening delimiter.\<close>

abbreviation at_character :: "source_snapshot \<Rightarrow> text_size \<Rightarrow> bool" where
  "at_character s start \<equiv> snap_text s ! start = CHR 0x27"

abbreviation at_string :: "bool \<Rightarrow> source_snapshot \<Rightarrow> text_size \<Rightarrow> bool" where
  "at_string byte_string s start \<equiv>
     (if byte_string then snap_text s ! start = CHR ''b'' \<and> get (snap_text s) (start + 1) = Some (CHR 0x22)
      else snap_text s ! start = CHR 0x22)"

lemma good_invalid_literal:
  assumes "snapshot_wf s" "boundary s start" "start < text_length s"
  shows "at_character s start \<Longrightarrow> good_scan s start (make_invalid_character_literal_token s start cerr)"
    and "at_string bs s start \<Longrightarrow> good_scan s start (make_invalid_string_literal_token s start serr)"
proof -
  have good: "\<exists>e. quoted_literal_recovery_end s start q = Some e \<and> start < e \<and> boundary s e"
    if "byte_val q < 128" "boundary s i" "start < i"
      "i = (if q = CHR 0x22 \<and> get (snap_text s) start = Some (CHR ''b'') then start + 2 else start + 1)"
    for q i
    using recovery_boundary [OF assms(1) that(2,1)] assms(1) that boundary_le
    by (fastforce simp: quoted_literal_recovery_end_def)
  show "good_scan s start (make_invalid_character_literal_token s start cerr)" if "at_character s start"
    using that assms boundary_Suc [OF assms(1,3)] good [of "CHR 0x27" "start + 1"]
    by (auto simp: make_invalid_character_literal_token_def intro!: good_invalid_token
        split: character_literal_error.splits)
  have "boundary s (start + 2)" if "bs" "at_string bs s start"
    using that boundary_Suc [OF assms(1), of "start + 1"] by (auto simp: get_Some_iff)
  moreover have "boundary s (start + 1)" if "\<not> bs" "at_string bs s start"
    using that boundary_Suc [OF assms(1,3)] by auto
  ultimately show "good_scan s start (make_invalid_string_literal_token s start serr)"
    if "at_string bs s start"
    using that assms good [of "CHR 0x22"]
    by (cases bs) (auto simp: make_invalid_string_literal_token_def get_def intro!: good_invalid_token
        split: string_literal_error.splits)
qed

lemma escape_returns:
  assumes "snapshot_wf s" "get (snap_text s) i = Some (CHR 0x5C)"
  shows "\<exists>r. scan_escape_sequence s i mode = Some r"
proof (cases "get (snap_text s) (i + 1)")
  case (Some b)
  have "boundary s (i + 1)"
    using assms boundary_Suc [of s i] by (auto simp: get_Some_iff)
  moreover have l: "i + 1 < text_length s" using Some by (simp add: get_Some_iff)
  ultimately obtain c where "first_character s (i + 1) = Some (Some c)"
    by (rule character_at [OF assms(1)])
  moreover have "text_size_from_usize (i + 1) = Some (i + 1)"
    using assms(1) l by simp
  ultimately show ?thesis
    using Some by (auto simp: scan_escape_sequence_def Let_def)
qed (simp add: scan_escape_sequence_def)

lemma string_loop_good:
  assumes "snapshot_wf s" "boundary s start" "start < text_length s" "at_string bs s start"
    "boundary s i" "start < i"
  shows "good_scan s start (string_loop s start bs i)"
  using assms
proof (induction s start bs i rule: string_loop.induct)
  case (1 s start bs i)
  note bad = good_invalid_literal(2) [OF "1.prems"(1-4)]
  note eq = string_loop.simps [of s start bs i]
  show ?case
  proof (cases "get (snap_text s) i")
    case None
    with bad show ?thesis by (simp add: eq)
  next
    case (Some b)
    have suc: "boundary s (i + 1)" if "byte_val b < 128"
      using that Some "1.prems"(1) boundary_Suc [of s i] by (auto simp: get_Some_iff)
    consider (close) "b = CHR 0x22" | (line) "is_line_end b" | (escape) "b = CHR 0x5C"
      | (ascii) "b \<notin> {CHR 0x22, CHR 0x5C}" "\<not> is_line_end b" "byte_val b < 128"
      | (other) "b \<notin> {CHR 0x22, CHR 0x5C}" "\<not> is_line_end b" "\<not> byte_val b < 128"
      by blast
    then show ?thesis
    proof cases
      case close
      then have "good_scan s start (clean_token_at (string_kind bs) start (i + 1))"
        using "1.prems" suc by (intro good_clean_token_at) auto
      with close Some show ?thesis by (simp add: eq)
    next
      case line
      with bad Some show ?thesis by (auto simp: eq)
    next
      case escape
      with escape_returns [of s i] Some "1.prems" obtain r
        where r: "scan_escape_sequence s i (string_mode bs) = Some r" by metis
      show ?thesis
      proof (cases r)
        case (EscapeValid e)
        with r escape_run(1) [of s i _ e] Some escape have run: "ascii_run (snap_text s) i e" by simp
        from "1.IH"(1) [OF Some _ _ escape r EscapeValid] escape "1.prems"
          ascii_run_boundary [OF "1.prems"(1,5) run] ascii_run_bounds [OF run]
        have "good_scan s start (string_loop s start bs e)" by simp
        with escape Some r EscapeValid show ?thesis by (simp add: eq)
      next
        case (EscapeInvalid err)
        with bad escape Some r show ?thesis by (cases err) (simp_all add: eq)
      qed
    next
      case ascii
      with "1.IH"(2) [OF Some] suc "1.prems" have "good_scan s start (string_loop s start bs (i + 1))"
        by simp
      with ascii Some show ?thesis by (simp add: eq)
    next
      case other
      obtain c r where c: "character_len_at s i = Some (len_utf8 c)" "boundary s (i + len_utf8 c)"
        by (rule boundary_drop_encode [OF "1.prems"(1,5) Some])
      with "1.IH"(3) [OF Some _ _ _ _ c(1)] other "1.prems"
      have "good_scan s start (string_loop s start bs (i + len_utf8 c))" by simp
      with other Some c show ?thesis by (simp add: eq)
    qed
  qed
qed

lemma string_opening:
  assumes "snapshot_wf s" "start < text_length s" "at_string bs s start"
  shows "boundary s (start + 1 + (if bs then 1 else 0))"
proof (cases bs)
  case True
  with assms have "start + 1 < text_length s" "byte_at s (start + 1) < 128"
    by (auto simp: get_Some_iff)
  from boundary_Suc [OF assms(1) this] True show ?thesis by simp
next
  case False
  with assms boundary_Suc [OF assms(1,2)] show ?thesis by simp
qed

interpretation plain_string: token_scanner "\<lambda>s start. scan_string_literal s start False" "at_string False"
  by unfold_locales
    (auto simp: scan_string_literal_def intro!: string_loop_good dest: string_opening [where bs = False])

interpretation byte_string: token_scanner "\<lambda>s start. scan_string_literal s start True" "at_string True"
  by unfold_locales
    (auto simp: scan_string_literal_def intro!: string_loop_good dest: string_opening [where bs = True])

lemma character_body_returns:
  assumes "snapshot_wf s" "boundary s i"
  shows "\<exists>r. scan_character_literal_body s i = Some r
    \<and> (\<forall>e. r = BodyValid e \<longrightarrow> boundary s e \<and> i < e)"
proof (cases "get (snap_text s) i")
  case (Some b)
  obtain c r where c: "character_len_at s i = Some (len_utf8 c)" "boundary s (i + len_utf8 c)"
    by (rule boundary_drop_encode [OF assms Some])
  have suc: "boundary s (i + 1)" if "byte_val b < 128"
    using that Some assms(1) boundary_Suc [of s i] by (auto simp: get_Some_iff)
  show ?thesis
  proof (cases "b = CHR 0x5C")
    case True
    with escape_returns [OF assms(1)] Some obtain r
      where r: "scan_escape_sequence s i EscapeCharacter = Some r" by metis
    have "boundary s e \<and> i < e" if "r = EscapeValid e" for e
      using that r True Some escape_run(1) [of s i EscapeCharacter e]
        escape_progress [of s i EscapeCharacter e] ascii_run_boundary [OF assms] by auto
    with r True Some show ?thesis
      by (auto simp: scan_character_literal_body_def split: escape_scan.splits escape_error.splits)
  next
    case False
    with Some c suc show ?thesis by (auto simp: scan_character_literal_body_def)
  qed
qed (simp add: scan_character_literal_body_def)

interpretation character: token_scanner scan_character_literal at_character
proof
  fix s start
  assume wf: "snapshot_wf s" and b: "boundary s start" and l: "start < text_length s"
    and at: "at_character s start"
  note bad = good_invalid_literal(1) [OF wf b l at]
  have "boundary s (start + 1)" using boundary_Suc [OF wf l] at by simp
  from character_body_returns [OF wf this] obtain r
    where r: "scan_character_literal_body s (start + 1) = Some r"
      "\<And>e. r = BodyValid e \<Longrightarrow> boundary s e \<and> start + 1 < e" by blast
  show "good_scan s start (scan_character_literal s start)"
  proof (cases r)
    case (BodyValid i)
    with r(2) have i: "boundary s i" "start + 1 < i" by auto
    have "good_scan s start (clean_token_at CharacterLiteralToken start (i + 1))"
      if "get (snap_text s) i = Some (CHR 0x27)"
      using that i boundary_Suc [OF wf, of i]
      by (intro good_clean_token_at [OF wf]) (auto simp: get_Some_iff)
    with r(1) BodyValid bad show ?thesis
      by (auto simp: scan_character_literal_def split: option.splits)
  next
    case (BodyInvalid err)
    with r(1) bad show ?thesis by (simp add: scan_character_literal_def)
  qed
qed

subsection \<open>The literals that are accepted\<close>

abbreviation string_opening_text :: "bool \<Rightarrow> string" where
  "string_opening_text byte_string \<equiv> (if byte_string then [CHR ''b'', CHR 0x22] else [CHR 0x22])"

definition string_literal_text :: "bool \<Rightarrow> string \<Rightarrow> bool" where
  "string_literal_text byte_string t \<longleftrightarrow>
     (\<exists>body. string_body (string_mode byte_string) body
        \<and> t = string_opening_text byte_string @ body @ [CHR 0x22])"

lemma string_opening_drop:
  assumes "start < text_length s" "at_string bs s start"
  shows "drop start (snap_text s) = string_opening_text bs
    @ drop (start + 1 + (if bs then 1 else 0)) (snap_text s)"
  using assms by (auto simp: get_Some_iff simp flip: Cons_nth_drop_Suc)

text \<open>
  C26. A string or byte string literal is accepted exactly when the text from its opening on is a
  literal of the grammar: the opening delimiter, then plain characters (no line break, quote or
  backslash) and well-formed escapes of the mode, then the closing quote. The token then has the
  kind of the literal and covers exactly that text; otherwise the scanner returns an invalid token.
\<close>

theorem scan_string_literal_correct:
  assumes "snapshot_wf s" "boundary s start" "start < text_length s" "at_string bs s start"
  shows "\<exists>sc. scan_string_literal s start bs = Some sc \<and> tok_start (scan_token sc) = start
    \<and> (if \<exists>e \<le> text_length s. string_literal_text bs (segment (snap_text s) start e)
       then tok_kind (scan_token sc) = string_kind bs
         \<and> string_literal_text bs (segment (snap_text s) start (tok_end (scan_token sc)))
       else tok_kind (scan_token sc) = InvalidToken)"
proof -
  let ?t = "snap_text s" and ?i = "start + 1 + (if bs then 1 else 0)" and ?o = "string_opening_text bs"
  have b: "boundary s ?i" by (rule string_opening [OF assms(1,3,4)])
  have good: "good_scan s start (string_loop s start bs ?i)"
    by (rule string_loop_good [OF assms b]) simp
  then obtain sc where sc: "string_loop s start bs ?i = Some sc" "tok_start (scan_token sc) = start"
    by (auto simp: good_scan_def split: option.splits)
  have open_drop: "drop start ?t = ?o @ drop ?i ?t" by (rule string_opening_drop [OF assms(3,4)])
  have lo: "?i = start + length ?o" by simp
  have accepted: "tok_kind (scan_token sc) = string_kind bs
      \<and> string_literal_text bs (segment ?t start (tok_end (scan_token sc)))"
    if body: "string_body (string_mode bs) body" "drop ?i ?t = body @ CHR 0x22 # r" for body r
  proof -
    let ?e = "?i + length body + 1"
    have "drop start ?t = (?o @ body @ [CHR 0x22]) @ r" using open_drop body(2) by simp
    from drop_get(2,3) [OF this, of 0]
    have e: "?e \<le> text_length s" "segment ?t start ?e = ?o @ body @ [CHR 0x22]"
      by (cases bs; simp)+
    have "clean_token_at (string_kind bs) start ?e = Some sc"
      using string_loop_complete [OF body] sc(1) by simp
    with assms(1) e(1) have "tok_kind (scan_token sc) = string_kind bs" "tok_end (scan_token sc) = ?e"
      by (auto simp: clean_token_at_def clean_token_def make_token_def scan_clean_def run_simps)
    with e body show ?thesis by (auto simp: string_literal_text_def)
  qed
  show ?thesis
  proof (cases "\<exists>e \<le> text_length s. string_literal_text bs (segment ?t start e)")
    case True
    then obtain e body where e: "e \<le> text_length s" "string_body (string_mode bs) body"
      "segment ?t start e = ?o @ body @ [CHR 0x22]" by (auto simp: string_literal_text_def)
    obtain r where "drop start ?t = segment ?t start e @ r"
      by (metis segment_def append_take_drop_id)
    then have "?o @ drop ?i ?t = ?o @ body @ CHR 0x22 # r"
      unfolding e(3) open_drop by (simp only: append.assoc append_Cons append_Nil)
    then have "drop ?i ?t = body @ CHR 0x22 # r" by (simp only: same_append_eq)
    from accepted [OF e(2) this] sc True show ?thesis
      by (cases bs) (simp_all add: scan_string_literal_def)
  next
    case False
    have "tok_kind (scan_token sc) = InvalidToken"
    proof (rule ccontr)
      assume k: "tok_kind (scan_token sc) \<noteq> InvalidToken"
      from string_loop_sound [OF assms(1) b sc(1) k] accepted
      have "string_literal_text bs (segment ?t start (tok_end (scan_token sc)))" by blast
      moreover have "tok_end (scan_token sc) \<le> text_length s"
        using good sc by (auto simp: good_scan_def intro: boundary_le)
      ultimately show False using False by blast
    qed
    with sc False show ?thesis by (cases bs) (simp_all add: scan_string_literal_def)
  qed
qed

theorem scan_string_literal_correct_witness:
  "\<exists>sc. scan_string_literal (text_snapshot [CHR 0x22, CHR ''a'', CHR 0x22]) 0 False = Some sc
    \<and> tok_kind (scan_token sc) = StringLiteralToken"
proof -
  let ?t = "[CHR 0x22, CHR ''a'', CHR 0x22]"
  have wf: "snapshot_wf (text_snapshot ?t)"
    by (rule text_snapshot_wf) (simp_all add: u32_max_def)
  have "string_body EscapeString (encode_utf8 97 @ [])"
    by (intro string_body.intros) (simp_all add: is_scalar_def)
  moreover have "char_of (byte_val (CHR ''a'')) = CHR ''a''"
    by (rule char_of_char)
  ultimately have "string_literal_text False ?t"
    unfolding string_literal_text_def by (intro exI [of _ "''a''"]) (simp add: encode_utf8_def)
  then have "\<exists>e \<le> text_length (text_snapshot ?t).
      string_literal_text False (segment (snap_text (text_snapshot ?t)) 0 e)"
    by (intro exI [of _ 3]) (simp add: segment_def)
  with scan_string_literal_correct [OF wf, of 0 False] show ?thesis by auto
qed

end
