(* ===== verification/Lexer_Trivia.thy ===== *)
theory Lexer_Trivia
  imports Lexer_Text
begin

text \<open>
  Trivia (\<open>crates/bray-parser/src/lexer/trivia.rs\<close>): whitespace, line comments, nested block
  comments, and the two loops that collect the trivia around a token. The loops are
  \<open>partial_function\<close>s, so a loop that does not end has no value; the lemmas show that on a
  well-formed snapshot every scan returns, that the trivia tile the text they cover, and that a block
  comment ends where the bracketing of its markers closes.
\<close>

datatype trivia_position = Leading | Trailing

record trivia_item =
  item_trivia :: syntax_trivia
  contains_line_break :: bool
  item_diagnostics :: bag

record trivia_scan =
  scan_trivia :: "syntax_trivia list"
  scan_end :: text_size
  reached_eof :: bool
  trivia_diagnostics :: bag

subsection \<open>Single trivia\<close>

definition make_trivia_item ::
    "syntax_kind \<Rightarrow> text_size \<Rightarrow> text_size \<Rightarrow> bool \<Rightarrow> trivia_item run" where
  "make_trivia_item k start e line_break = do {
     r \<leftarrow> text_range_new start e;
     t \<leftarrow> trivia_new k r;
     Some \<lparr>item_trivia = t, contains_line_break = line_break, item_diagnostics = []\<rparr>
   }"

definition starts_with :: "source_snapshot \<Rightarrow> text_size \<Rightarrow> string \<Rightarrow> bool run" where
  "starts_with s start t = (case str_get_from (snap_text s) start of
     Some source_text \<Rightarrow> Some (take (length t) source_text = t)
   | None \<Rightarrow> panic)"

definition next_utf8_character_len :: "source_snapshot \<Rightarrow> text_size \<Rightarrow> nat run" where
  "next_utf8_character_len s start = (case character_len_at s start of
     Some n \<Rightarrow> Some n
   | None \<Rightarrow> (if start = snap_text_len s then Some 0 else panic))"

function whitespace_loop :: "string \<Rightarrow> trivia_position \<Rightarrow> nat \<Rightarrow> bool \<Rightarrow> nat \<times> bool" where
  "whitespace_loop bytes position i line_break =
     (case get bytes i of
        None \<Rightarrow> (i, line_break)
      | Some byte \<Rightarrow>
          (if byte = CHR '' '' \<or> byte = CHR 0x09 then
             whitespace_loop bytes position (i + 1) line_break
           else if byte = CHR 0x0A then
             (if position = Trailing then (i + 1, True)
              else whitespace_loop bytes position (i + 1) True)
           else if byte = CHR 0x0D \<and> get bytes (i + 1) = Some (CHR 0x0A) then
             (if position = Trailing then (i + 2, True)
              else whitespace_loop bytes position (i + 2) True)
           else (i, line_break)))"
  by pat_completeness auto
termination
  by (relation "measure (\<lambda>(bytes, _, i, _). length bytes - i)") (auto simp: get_Some_iff)

declare whitespace_loop.simps [simp del]

definition scan_whitespace_trivia ::
    "source_snapshot \<Rightarrow> text_size \<Rightarrow> trivia_position \<Rightarrow> trivia_item run" where
  "scan_whitespace_trivia s start position =
     (case whitespace_loop (snap_text s) position start False of
        (i, line_break) \<Rightarrow> do {
          e \<leftarrow> text_size_from_usize i;
          make_trivia_item WhitespaceTrivia start e line_break
        })"

definition scan_line_comment_trivia :: "source_snapshot \<Rightarrow> text_size \<Rightarrow> trivia_item run" where
  "scan_line_comment_trivia s start =
     (let i = index_while (\<lambda>b. \<not> (b = CHR 0x0A \<or> b = CHR 0x0D)) (snap_text s) (start + 2)
      in do {
        doc \<leftarrow> starts_with s start ''///'';
        e \<leftarrow> text_size_from_usize i;
        make_trivia_item (if doc then DocumentationLineCommentTrivia else LineCommentTrivia)
          start e False
      })"

text \<open>
  The loop of a block comment; the depth is a \<open>u32\<close> whose increment and decrement are checked.
\<close>

partial_function (option) block_comment_loop ::
    "source_snapshot \<Rightarrow> nat \<Rightarrow> nat \<Rightarrow> bool \<Rightarrow> (nat \<times> nat \<times> bool) run" where
  "block_comment_loop s i depth line_break =
     (let bytes = snap_text s in
      if \<not> i < length bytes then Some (i, depth, line_break)
      else if get bytes i = Some (CHR 0x0A) then block_comment_loop s (i + 1) depth True
      else if get bytes i = Some (CHR 0x0D) \<and> get bytes (i + 1) = Some (CHR 0x0A)
        then block_comment_loop s (i + 2) depth True
      else if get bytes i = Some (CHR ''/'') \<and> get bytes (i + 1) = Some (CHR ''*'')
        then do {
          assert_run (depth + 1 \<le> u32_max);
          block_comment_loop s (i + 2) (depth + 1) line_break
        }
      else if get bytes i = Some (CHR ''*'') \<and> get bytes (i + 1) = Some (CHR ''/'')
        then do {
          assert_run (1 \<le> depth);
          (if depth - 1 = 0 then Some (i + 2, depth - 1, line_break)
           else block_comment_loop s (i + 2) (depth - 1) line_break)
        }
      else do {
        at \<leftarrow> text_size_from_usize i;
        n \<leftarrow> next_utf8_character_len s at;
        block_comment_loop s (i + n) depth line_break
      })"

declare block_comment_loop.simps [code]

definition scan_block_comment_trivia :: "source_snapshot \<Rightarrow> text_size \<Rightarrow> trivia_item run" where
  "scan_block_comment_trivia s start = do {
     (i, depth, line_break) \<leftarrow> block_comment_loop s (start + 2) 1 False;
     doc \<leftarrow> starts_with s start ''/**'';
     e \<leftarrow> text_size_from_usize i;
     item \<leftarrow> make_trivia_item
       (if doc then DocumentationBlockCommentTrivia else BlockCommentTrivia) start e line_break;
     (if depth = 0 then Some item
      else do {
        r \<leftarrow> text_range_new start e;
        Some (item\<lparr>item_diagnostics :=
          item_diagnostics item @ [unterminated_block_comment s r depth]\<rparr>)
      })
   }"

definition scan_trivia_at ::
    "source_snapshot \<Rightarrow> text_size \<Rightarrow> trivia_position \<Rightarrow> trivia_item option run" where
  "scan_trivia_at s start position =
     (let bytes = snap_text s in
      case get bytes start of
        None \<Rightarrow> Some None
      | Some b \<Rightarrow>
          (if b = CHR '' '' \<or> b = CHR 0x09 \<or> b = CHR 0x0A
             then map_option Some (scan_whitespace_trivia s start position)
           else if b = CHR 0x0D \<and> get bytes (start + 1) = Some (CHR 0x0A)
             then map_option Some (scan_whitespace_trivia s start position)
           else if b = CHR ''/'' \<and> get bytes (start + 1) = Some (CHR ''/'')
             then map_option Some (scan_line_comment_trivia s start)
           else if b = CHR ''/'' \<and> get bytes (start + 1) = Some (CHR ''*'')
             then map_option Some (scan_block_comment_trivia s start)
           else Some None))"

subsection \<open>The trivia around a token\<close>

definition trivia_scan_done :: "source_snapshot \<Rightarrow> syntax_trivia list \<Rightarrow> text_size \<Rightarrow> bag \<Rightarrow> trivia_scan" where
  "trivia_scan_done s trivia cursor ds =
     \<lparr>scan_trivia = trivia, scan_end = cursor, reached_eof = (cursor = snap_text_len s),
      trivia_diagnostics = ds\<rparr>"

partial_function (option) leading_loop ::
    "source_snapshot \<Rightarrow> text_size \<Rightarrow> syntax_trivia list \<Rightarrow> bag \<Rightarrow> trivia_scan run" where
  "leading_loop s cursor trivia ds = do {
     oi \<leftarrow> scan_trivia_at s cursor Leading;
     case oi of
       None \<Rightarrow> Some (trivia_scan_done s trivia cursor ds)
     | Some item \<Rightarrow>
         leading_loop s (trivia_end (item_trivia item)) (trivia @ [item_trivia item])
           (merged ds (item_diagnostics item))
   }"

declare leading_loop.simps [code]

definition scan_leading_trivia :: "source_snapshot \<Rightarrow> text_size \<Rightarrow> trivia_scan run" where
  "scan_leading_trivia s start = leading_loop s start [] []"

partial_function (option) trailing_loop ::
    "source_snapshot \<Rightarrow> text_size \<Rightarrow> syntax_trivia list \<Rightarrow> bag \<Rightarrow> trivia_scan run" where
  "trailing_loop s cursor trivia ds = do {
     oi \<leftarrow> scan_trivia_at s cursor Trailing;
     case oi of
       None \<Rightarrow> Some (trivia_scan_done s trivia cursor ds)
     | Some item \<Rightarrow>
         (let cursor' = trivia_end (item_trivia item); trivia' = trivia @ [item_trivia item];
              ds' = merged ds (item_diagnostics item)
          in if contains_line_break item then Some (trivia_scan_done s trivia' cursor' ds')
             else trailing_loop s cursor' trivia' ds')
   }"

declare trailing_loop.simps [code]

definition scan_trailing_trivia :: "source_snapshot \<Rightarrow> text_size \<Rightarrow> trivia_scan run" where
  "scan_trailing_trivia s start = trailing_loop s start [] []"

subsection \<open>Block comments close their nesting\<close>

text \<open>
  The reference: read the bytes after the opening marker, opening and closing a level at each
  marker; the result is the number of bytes read until the nesting closes (or all of them) and the
  number of levels left open.
\<close>

fun comment_scan :: "nat \<Rightarrow> string \<Rightarrow> nat \<times> nat" where
  "comment_scan d [] = (0, d)"
| "comment_scan d [b] = (1, d)"
| "comment_scan d (b # c # r) =
     (if b = CHR ''/'' \<and> c = CHR ''*'' then apfst ((+) 2) (comment_scan (d + 1) r)
      else if b = CHR ''*'' \<and> c = CHR ''/'' then
        (if d = 1 then (2, 0) else apfst ((+) 2) (comment_scan (d - 1) r))
      else apfst Suc (comment_scan d (c # r)))"

lemma comment_scan_skip:
  assumes "\<not> (b = CHR ''/'' \<and> r \<noteq> [] \<and> hd r = CHR ''*'')"
    "\<not> (b = CHR ''*'' \<and> r \<noteq> [] \<and> hd r = CHR ''/'')"
  shows "comment_scan d (b # r) = apfst Suc (comment_scan d r)"
  using assms by (cases r) auto

lemma plus_Suc_0 [simp]: "(+) (Suc 0) = Suc"
  by auto

lemma comment_scan_high:
  assumes "list_all (\<lambda>b. 128 \<le> byte_val b) u"
  shows "comment_scan d (u @ r) = apfst ((+) (length u)) (comment_scan d r)"
  using assms
proof (induction u)
  case (Cons b u)
  then have "b \<noteq> CHR ''/''" "b \<noteq> CHR ''*''" by auto
  then have "comment_scan d (b # u @ r) = apfst Suc (comment_scan d (u @ r))"
    by (intro comment_scan_skip) auto
  with Cons show ?case by (cases "comment_scan d r") simp
qed (cases "comment_scan d r", simp)

lemma comment_scan_bounds: "fst (comment_scan d t) \<le> length t"
  by (induction d t rule: comment_scan.induct) auto

lemma encode_utf8_high:
  assumes "is_scalar c" "\<not> c < 128"
  shows "list_all (\<lambda>b. 128 \<le> byte_val b) (encode_utf8 c)"
proof -
  have "128 \<le> byte_val (encode_utf8 c ! k)" if "k < len_utf8 c" for k
    using that assms encode_utf8_head(2) [OF assms(1)] encode_utf8_tail [OF assms(1), of k]
    by (cases "k = 0") (auto simp: is_continuation_def)
  then show ?thesis by (simp add: list_all_length)
qed

text \<open>The state the loop must reach from position \<open>i\<close> at depth \<open>d\<close>.\<close>

definition block_result :: "source_snapshot \<Rightarrow> nat \<Rightarrow> nat \<Rightarrow> bool \<Rightarrow> nat \<times> nat \<times> bool" where
  "block_result s i d line_break =
     (let u = drop i (snap_text s); (n, left) = comment_scan d u
      in (i + n, left, line_break \<or> CHR 0x0A \<in> set (take n u)))"

lemma block_result_step:
  assumes "drop i (snap_text s) = u @ r"
    "comment_scan d (drop i (snap_text s)) = apfst ((+) (length u)) (comment_scan d' r)"
  shows "block_result s i d lb = block_result s (i + length u) d' (lb \<or> CHR 0x0A \<in> set u)"
proof -
  have "drop (i + length u) (snap_text s) = r"
    by (metis assms(1) add.commute append_eq_conv_conj drop_drop)
  with assms show ?thesis
    by (cases "comment_scan d' r") (simp add: block_result_def)
qed

text \<open>A character that starts no marker and is no line feed is passed over as a whole.\<close>

lemma comment_character:
  assumes "snapshot_wf s" "boundary s i" "i < text_length s" "snap_text s ! i \<noteq> CHR 0x0A"
    and other: "\<not> (snap_text s ! i = CHR ''/'' \<and> get (snap_text s) (i + 1) = Some (CHR ''*''))"
      "\<not> (snap_text s ! i = CHR ''*'' \<and> get (snap_text s) (i + 1) = Some (CHR ''/''))"
  obtains u where "character_len_at s i = Some (length u)" "boundary s (i + length u)" "u \<noteq> []"
    "drop i (snap_text s) = u @ drop (i + length u) (snap_text s)" "CHR 0x0A \<notin> set u"
    "comment_scan d (drop i (snap_text s)) = apfst ((+) (length u)) (comment_scan d (drop (i + length u) (snap_text s)))"
proof -
  let ?t = "snap_text s"
  obtain c where c: "character_len_at s i = Some (len_utf8 c)" "boundary s (i + len_utf8 c)"
    "is_scalar c" "segment ?t i (i + len_utf8 c) = encode_utf8 c"
    by (rule character_at [OF assms(1-3)])
  have hd: "drop i ?t = ?t ! i # drop (i + 1) ?t" using assms(3) by (simp add: Cons_nth_drop_Suc)
  have d: "drop i ?t = encode_utf8 c @ drop (i + len_utf8 c) ?t"
    using append_take_drop_id [of "len_utf8 c" "drop i ?t"] c(4) by (simp add: segment_def add.commute)
  have "comment_scan d (drop i ?t) = apfst ((+) (len_utf8 c)) (comment_scan d (drop (i + len_utf8 c) ?t)) \<and> CHR 0x0A \<notin> set (encode_utf8 c)"
  proof (cases "c < 128")
    case True
    then have "len_utf8 c = 1" "encode_utf8 c = [?t ! i]" using d hd by (simp_all add: len_utf8_def encode_utf8_def)
    moreover have "comment_scan d (?t ! i # drop (i + 1) ?t) = apfst Suc (comment_scan d (drop (i + 1) ?t))"
      using other by (intro comment_scan_skip) (auto simp: get_def hd_drop_conv_nth)
    ultimately show ?thesis using hd assms(4) by simp
  next
    case False
    note h = encode_utf8_high [OF c(3) False]
    from comment_scan_high [OF h] d have "comment_scan d (drop i ?t) = apfst ((+) (len_utf8 c)) (comment_scan d (drop (i + len_utf8 c) ?t))"
      by (metis length_encode_utf8)
    with h show ?thesis by (auto simp: list_all_iff)
  qed
  then show ?thesis using c d that [of "encode_utf8 c"] by simp
qed

lemma block_comment_loop_spec:
  assumes "snapshot_wf s" "boundary s i" "1 \<le> d" "d < i"
  shows "block_comment_loop s i d lb = Some (block_result s i d lb)"
  using assms
proof (induction "text_length s - i" arbitrary: i d lb rule: less_induct)
  case less
  let ?t = "snap_text s"
  note eq = block_comment_loop.simps [of s i d lb]
  show ?case
  proof (cases "i < text_length s")
    case False
    with boundary_le [OF less.prems(2)] show ?thesis
      by (subst block_comment_loop.simps) (simp add: block_result_def)
  next
    case l: True
    have hd: "drop i ?t = [?t ! i] @ drop (i + 1) ?t"
      using l by (simp add: Cons_nth_drop_Suc)
    have two: "drop i ?t = [?t ! i, b] @ drop (i + 2) ?t" "i + 2 \<le> text_length s"
      if "get ?t (i + 1) = Some b" for b
      using that l by (auto simp: get_Some_iff Cons_nth_drop_Suc)
    have step: "block_comment_loop s (i + length u) d' lb' = Some (block_result s i d lb)"
      if "drop i ?t = u @ r" "u \<noteq> []" "boundary s (i + length u)" "1 \<le> d'" "d' < i + length u"
        "comment_scan d (drop i ?t) = apfst ((+) (length u)) (comment_scan d' r)"
        "lb' = (lb \<or> CHR 0x0A \<in> set u)" for u r d' lb'
    proof -
      have "0 < length u" using that(2) by simp
      with l have "text_length s - (i + length u) < text_length s - i" by linarith
      from less.hyps [OF this less.prems(1) that(3-5)] block_result_step [OF that(1,6), of lb] that(7)
      show ?thesis by simp
    qed
    have wide: "depth + 1 \<le> u32_max" if "depth < i" for depth
      using that l wf_width [OF less.prems(1)] by linarith
    have suc: "boundary s (i + 1)" if "byte_at s i < 128"
      using boundary_Suc [OF less.prems(1) l that] by simp
    have suc2: "boundary s (i + 2)" if "get ?t (i + 1) = Some b" "byte_val b < 128" for b
      using that boundary_Suc [OF less.prems(1), of "i + 1"] by (auto simp: get_Some_iff)
    consider (lf) "?t ! i = CHR 0x0A"
      | (crlf) "?t ! i = CHR 0x0D" "get ?t (i + 1) = Some (CHR 0x0A)"
      | (enter) "?t ! i = CHR ''/''" "get ?t (i + 1) = Some (CHR ''*'')"
      | (leave) "?t ! i = CHR ''*''" "get ?t (i + 1) = Some (CHR ''/'')"
      | (other) "?t ! i \<noteq> CHR 0x0A" "\<not> (?t ! i = CHR 0x0D \<and> get ?t (i + 1) = Some (CHR 0x0A))"
          "\<not> (?t ! i = CHR ''/'' \<and> get ?t (i + 1) = Some (CHR ''*''))"
          "\<not> (?t ! i = CHR ''*'' \<and> get ?t (i + 1) = Some (CHR ''/''))"
      by blast
    then show ?thesis
    proof cases
      case lf
      have "comment_scan d (drop i ?t) = apfst ((+) 1) (comment_scan d (drop (i + 1) ?t))"
        unfolding hd using lf by (simp add: comment_scan_skip)
      with step [OF hd, of d True] suc lf l less.prems show ?thesis by (simp add: eq get_def)
    next
      case crlf
      note two = two [OF crlf(2)]
      have "comment_scan d (drop i ?t) = apfst ((+) 2) (comment_scan d (drop (i + 2) ?t))"
        unfolding two using crlf
        by (cases "comment_scan d (drop (i + 2) ?t)") (simp add: comment_scan_skip)
      with step [OF two(1), of d True] suc2 [OF crlf(2)] crlf l less.prems two(2)
      show ?thesis by (simp add: eq get_Some_iff)
    next
      case enter
      note two = two [OF enter(2)]
      have "comment_scan d (drop i ?t) = apfst ((+) 2) (comment_scan (d + 1) (drop (i + 2) ?t))"
        unfolding two using enter by simp
      with step [OF two(1), of "d + 1" lb] suc2 [OF enter(2)] enter l less.prems two(2) wide
      show ?thesis by (simp add: eq get_Some_iff)
    next
      case leave
      note two = two [OF leave(2)]
      show ?thesis
      proof (cases "d = 1")
        case True
        have "comment_scan d (drop i ?t) = (2, 0)"
          unfolding two using True leave by simp
        moreover have "take 2 (drop i ?t) = ''*/''"
          unfolding two using leave by simp
        ultimately show ?thesis
          using True leave l by (subst eq) (simp add: get_Some_iff block_result_def)
      next
        case False
        have "comment_scan d (drop i ?t) = apfst ((+) 2) (comment_scan (d - 1) (drop (i + 2) ?t))"
          unfolding two using leave False by simp
        with step [OF two(1), of "d - 1" lb] suc2 [OF leave(2)] leave l less.prems two(2) False
        show ?thesis by (simp add: eq get_Some_iff)
      qed
    next
      case other
      obtain u where u: "character_len_at s i = Some (length u)" "boundary s (i + length u)" "u \<noteq> []"
        "drop i ?t = u @ drop (i + length u) ?t" "CHR 0x0A \<notin> set u"
        "comment_scan d (drop i ?t) = apfst ((+) (length u)) (comment_scan d (drop (i + length u) ?t))"
        by (rule comment_character [OF less.prems(1,2) l other(1,3,4)])
      have "block_comment_loop s (i + length u) d lb = Some (block_result s i d lb)"
        using step [OF u(4), of d lb] u less.prems by simp
      moreover have "get ?t i = Some (?t ! i)" using l by (simp add: get_def)
      ultimately show ?thesis
        using other l u less.prems by (auto simp: eq Let_def next_utf8_character_len_def)
    qed
  qed
qed

lemma block_result_bounds:
  assumes "block_result s i d lb = (j, left, lb')" "i \<le> text_length s"
  shows "i \<le> j" "j \<le> text_length s"
  using assms comment_scan_bounds [of d "drop i (snap_text s)"]
  by (auto simp: block_result_def Let_def split: prod.splits)

lemma comment_scan_stop:
  "comment_scan d u = (n, left) \<Longrightarrow> n < length u \<Longrightarrow> 0 < n \<and> u ! (n - 1) = CHR ''/''"
proof (induction d u arbitrary: n rule: comment_scan.induct)
  case (3 d b c r)
  consider (enter) "b = CHR ''/''" "c = CHR ''*''" | (leave) "b = CHR ''*''" "c = CHR ''/''"
    | (skip) "\<not> (b = CHR ''/'' \<and> c = CHR ''*'')" "\<not> (b = CHR ''*'' \<and> c = CHR ''/'')" by blast
  then show ?case
  proof cases
    case enter
    with "3.prems" obtain m where "comment_scan (d + 1) r = (m, left)" "n = 2 + m"
      by (cases "comment_scan (d + 1) r") auto
    with "3.IH"(1) [OF _ this(1)] "3.prems" enter show ?thesis by (auto simp: nth_Cons')
  next
    case leave
    show ?thesis
    proof (cases "d = 1")
      case False
      with leave "3.prems" obtain m where "comment_scan (d - 1) r = (m, left)" "n = 2 + m"
        by (cases "comment_scan (d - 1) r") auto
      with "3.IH"(2) [OF _ _ _ this(1)] "3.prems" leave False show ?thesis by (auto simp: nth_Cons')
    qed (use leave "3.prems" in auto)
  next
    case skip
    with "3.prems" obtain m where "comment_scan d (c # r) = (m, left)" "n = Suc m"
      by (cases "comment_scan d (c # r)") auto
    with "3.IH"(3) [OF _ _ this(1)] "3.prems" skip show ?thesis by (auto simp: nth_Cons')
  qed
qed auto

lemma comment_scan_open: "comment_scan d u = (n, left) \<Longrightarrow> 0 < d \<Longrightarrow> 0 < left \<Longrightarrow> n = length u"
proof (induction d u arbitrary: n rule: comment_scan.induct)
  case (3 d b c r)
  from "3.prems" "3.IH" show ?case
    by (cases "comment_scan (d + 1) r"; cases "comment_scan (d - 1) r"; cases "comment_scan d (c # r)")
      (auto split: if_splits)
qed auto

lemma block_result_boundary:
  assumes "snapshot_wf s" "i \<le> text_length s" "block_result s i d lb = (j, left, lb')"
  shows "boundary s j"
proof -
  obtain n where n: "comment_scan d (drop i (snap_text s)) = (n, left)" "j = i + n"
    using assms(3) by (auto simp: block_result_def Let_def split: prod.splits)
  show ?thesis
  proof (cases "n < length (drop i (snap_text s))")
    case True
    from comment_scan_stop [OF n(1) True] True
    have "0 < n" "snap_text s ! (i + n - 1) = CHR ''/''" by auto
    with True boundary_Suc [OF assms(1), of "i + n - 1"] n(2) show ?thesis by simp
  next
    case False
    with comment_scan_bounds [of d "drop i (snap_text s)"] n assms(2) have "j = text_length s" by simp
    then show ?thesis by simp
  qed
qed

lemma trivia_kinds [simp]:
  "is_trivia WhitespaceTrivia" "is_trivia LineCommentTrivia" "is_trivia DocumentationLineCommentTrivia"
  "is_trivia BlockCommentTrivia" "is_trivia DocumentationBlockCommentTrivia"
  by (simp_all add: is_trivia_def)

lemma block_comment_item:
  assumes "snapshot_wf s" "get (snap_text s) start = Some (CHR ''/'')"
    "get (snap_text s) (start + 1) = Some (CHR ''*'')"
    and "comment_scan 1 (drop (start + 2) (snap_text s)) = (n, left)"
  shows "\<exists>item. scan_block_comment_trivia s start = Some item
    \<and> trivia_range (item_trivia item) = \<lparr>tr_start = start, tr_end = start + 2 + n\<rparr>
    \<and> is_trivia (trivia_kind (item_trivia item))
    \<and> (contains_line_break item \<longleftrightarrow> CHR 0x0A \<in> set (segment (snap_text s) (start + 2) (start + 2 + n)))
    \<and> item_diagnostics item = (if left = 0 then []
        else [unterminated_block_comment s (trivia_range (item_trivia item)) left])
    \<and> (left \<noteq> 0 \<longrightarrow> start + 2 + n = text_length s)"
proof -
  have l: "start < text_length s" "start + 2 \<le> text_length s" "byte_at s start < 128"
    using assms(2,3) by (auto simp: get_Some_iff)
  have b: "boundary s (start + 2)" "boundary s start"
    using assms(1,2,3) boundary_Suc [of s "start + 1"] ascii_boundary [of start "snap_text s"]
    by (auto simp: get_Some_iff)
  let ?lb = "CHR 0x0A \<in> set (take n (drop (start + 2) (snap_text s)))"
  have res: "block_comment_loop s (start + 2) 1 False = Some (start + 2 + n, left, ?lb)"
    using block_comment_loop_spec [OF assms(1) b(1), of 1 False] assms(4)
    by (simp add: block_result_def)
  have n: "start + 2 + n \<le> text_length s" and full: "left \<noteq> 0 \<longrightarrow> start + 2 + n = text_length s"
    using comment_scan_bounds [of 1 "drop (start + 2) (snap_text s)"] comment_scan_open [OF assms(4)]
      assms(4) l by auto
  have sw: "starts_with s start ''/**'' = Some (take 3 (drop start (snap_text s)) = ''/**'')"
    using b(2) by (simp add: starts_with_def str_get_from_def eval_nat_numeral)
  from res n full assms(1) sw show ?thesis
    by (auto simp: scan_block_comment_trivia_def make_trivia_item_def segment_def run_simps)
qed

text \<open>
  C27. A block comment nests: scanned at its opening marker, it ends exactly where the markers after
  the opening close the nesting (or at the end of the text), whatever characters and line breaks it
  holds; it reports a diagnostic, carrying the number of levels left open, exactly when the nesting
  never closes.
\<close>

theorem scan_block_comment_correct:
  assumes "snapshot_wf s" "get (snap_text s) start = Some (CHR ''/'')"
    "get (snap_text s) (start + 1) = Some (CHR ''*'')"
    and "comment_scan 1 (drop (start + 2) (snap_text s)) = (n, left)"
  shows "\<exists>item. scan_block_comment_trivia s start = Some item
    \<and> trivia_range (item_trivia item) = \<lparr>tr_start = start, tr_end = start + 2 + n\<rparr>
    \<and> is_trivia (trivia_kind (item_trivia item))
    \<and> (contains_line_break item \<longleftrightarrow> CHR 0x0A \<in> set (segment (snap_text s) (start + 2) (start + 2 + n)))
    \<and> item_diagnostics item = (if left = 0 then []
        else [unterminated_block_comment s (trivia_range (item_trivia item)) left])
    \<and> (left \<noteq> 0 \<longrightarrow> start + 2 + n = text_length s)"
  by (rule block_comment_item [OF assms])

theorem scan_block_comment_correct_witness:
  "\<exists>item. scan_block_comment_trivia (text_snapshot ''/*a/*b*/c*/d'') 0 = Some item
     \<and> trivia_range (item_trivia item) = \<lparr>tr_start = 0, tr_end = 11\<rparr> \<and> item_diagnostics item = []"
proof -
  have "snapshot_wf (text_snapshot ''/*a/*b*/c*/d'')"
    by (rule text_snapshot_wf) (simp_all add: u32_max_def)
  from scan_block_comment_correct [OF this, of 0 9 0] show ?thesis
    by (auto simp: get_def)
qed

subsection \<open>Every trivia scan returns\<close>

text \<open>The only trivia that reports a diagnostic is a block comment that runs to the end of the text.\<close>

definition open_comment :: "source_snapshot \<Rightarrow> text_range \<Rightarrow> diagnostic \<Rightarrow> bool" where
  "open_comment s r d \<longleftrightarrow> reports s r d \<and> tr_end r = text_length s
     \<and> diag_kind d = LexicalUnterminatedBlockComment"

lemma unterminated_block_comment_kind [simp]:
  "diag_kind (unterminated_block_comment s r n) = LexicalUnterminatedBlockComment"
  by (simp add: lexical_diagnostic_defs)

definition good_item :: "source_snapshot \<Rightarrow> text_size \<Rightarrow> trivia_item \<Rightarrow> bool" where
  "good_item s start item \<longleftrightarrow>
     trivia_start (item_trivia item) = start \<and> start < trivia_end (item_trivia item)
     \<and> boundary s (trivia_end (item_trivia item)) \<and> is_trivia (trivia_kind (item_trivia item))
     \<and> length (item_diagnostics item) \<le> 1
     \<and> (\<forall>d \<in> set (item_diagnostics item). open_comment s (trivia_range (item_trivia item)) d)"

lemma whitespace_run:
  "i \<le> length bytes \<Longrightarrow> ascii_run bytes i (fst (whitespace_loop bytes position i lb))"
proof (induction bytes position i lb rule: whitespace_loop.induct)
  case (1 bytes position i lb)
  note eq = whitespace_loop.simps [of bytes position i lb]
  show ?case
  proof (cases "get bytes i")
    case None
    with "1.prems" show ?thesis by (simp add: eq ascii_run_refl)
  next
    case (Some b)
    have one: "ascii_run bytes i (i + 1)" if "byte_val b < 128"
      using ascii_run_get [OF Some that] by simp
    have two: "ascii_run bytes i (i + 2)" if "byte_val b < 128" "get bytes (i + 1) = Some (CHR 0x0A)"
      using ascii_run_trans [OF one [OF that(1)] ascii_run_get [OF that(2)]] by simp
    have l: "i + 1 \<le> length bytes" using Some by (simp add: get_Some_iff)
    have l2: "i + 2 \<le> length bytes" if "get bytes (i + 1) = Some (CHR 0x0A)"
      using that by (simp add: get_Some_iff)
    show ?thesis
      using Some "1.IH" [OF Some] l l2 one two "1.prems"
      by (auto simp: eq ascii_run_refl intro: ascii_run_trans)
  qed
qed

lemma whitespace_progress:
  assumes "get bytes i = Some b"
    "b = CHR '' '' \<or> b = CHR 0x09 \<or> b = CHR 0x0A \<or> b = CHR 0x0D \<and> get bytes (i + 1) = Some (CHR 0x0A)"
  shows "i < fst (whitespace_loop bytes position i lb)"
proof -
  have le: "j \<le> fst (whitespace_loop bytes position j lb')" if "j \<le> length bytes" for j lb'
    using whitespace_run [OF that] by (rule ascii_run_bounds [THEN conjunct1])
  have "i + 1 \<le> length bytes" using assms(1) by (simp add: get_Some_iff)
  moreover have "i + 2 \<le> length bytes" if "get bytes (i + 1) = Some (CHR 0x0A)"
    using that by (simp add: get_Some_iff)
  ultimately show ?thesis
    using assms le [of "i + 1"] le [of "i + 2"]
    by (subst whitespace_loop.simps) (auto simp: Suc_le_eq dest: Suc_lessD)
qed

lemma whitespace_good:
  assumes "snapshot_wf s" "boundary s start" "get (snap_text s) start = Some b"
    "b = CHR '' '' \<or> b = CHR 0x09 \<or> b = CHR 0x0A
     \<or> b = CHR 0x0D \<and> get (snap_text s) (start + 1) = Some (CHR 0x0A)"
  shows "\<exists>item. scan_whitespace_trivia s start position = Some item \<and> good_item s start item"
proof -
  obtain i lb where w: "whitespace_loop (snap_text s) position start False = (i, lb)" by force
  have run: "ascii_run (snap_text s) start i"
    using whitespace_run [of start "snap_text s" position False] boundary_le [OF assms(2)] w by simp
  have "start < i" using whitespace_progress [OF assms(3,4), of position False] w by simp
  with run ascii_run_boundary [OF assms(1,2) run] ascii_run_bounds [OF run] assms(1) w show ?thesis
    by (auto simp: scan_whitespace_trivia_def make_trivia_item_def good_item_def run_simps)
qed

lemma line_comment_good:
  assumes "snapshot_wf s" "boundary s start" "start + 2 \<le> text_length s"
  shows "\<exists>item. scan_line_comment_trivia s start = Some item \<and> good_item s start item"
proof -
  let ?q = "\<lambda>b. \<not> (b = CHR 0x0A \<or> b = CHR 0x0D)"
  let ?i = "index_while ?q (snap_text s) (start + 2)"
  have i: "start + 2 \<le> ?i" "?i \<le> text_length s"
    using assms(3) by (auto intro: index_while_bounds)
  have "boundary s ?i"
    using i(2) index_while_stop [of ?q "snap_text s" "start + 2"]
    by (intro boundary_if_ascii_stop) auto
  with i assms show ?thesis
    by (auto simp: scan_line_comment_trivia_def starts_with_def str_get_from_def make_trivia_item_def
        good_item_def run_simps)
qed

lemma block_comment_good:
  assumes "snapshot_wf s" "get (snap_text s) start = Some (CHR ''/'')"
    "get (snap_text s) (start + 1) = Some (CHR ''*'')"
  shows "\<exists>item. scan_block_comment_trivia s start = Some item \<and> good_item s start item"
proof -
  obtain n left where n: "comment_scan 1 (drop (start + 2) (snap_text s)) = (n, left)" by force
  have "boundary s (start + 2 + n)"
    using assms(3) n
    by (intro block_result_boundary [OF assms(1), of "start + 2" 1 False])
      (auto simp: block_result_def get_Some_iff)
  with block_comment_item [OF assms n] show ?thesis
    by (fastforce simp: good_item_def open_comment_def)
qed

lemma scan_trivia_at_good:
  assumes "snapshot_wf s" "boundary s start"
  shows "\<exists>oi. scan_trivia_at s start position = Some oi \<and> (\<forall>item. oi = Some item \<longrightarrow> good_item s start item)"
proof (cases "get (snap_text s) start")
  case (Some b)
  have l2: "start + 2 \<le> text_length s" if "get (snap_text s) (start + 1) = Some c" for c
    using that by (simp add: get_Some_iff)
  show ?thesis
    using whitespace_good [OF assms Some, of position] line_comment_good [OF assms] l2
      block_comment_good [OF assms(1), of start] Some
    by (auto simp: scan_trivia_at_def Let_def)
qed (simp add: scan_trivia_at_def)

subsection \<open>The loops collect a chain of trivia\<close>

fun item_chain ::
    "source_snapshot \<Rightarrow> trivia_position \<Rightarrow> text_size \<Rightarrow> trivia_item list \<Rightarrow> text_size \<Rightarrow> bool" where
  "item_chain s position i [] j \<longleftrightarrow> i = j"
| "item_chain s position i (item # items) j \<longleftrightarrow>
     scan_trivia_at s i position = Some (Some item)
     \<and> item_chain s position (trivia_end (item_trivia item)) items j"

definition all_diagnostics :: "bag \<Rightarrow> trivia_item list \<Rightarrow> bag" where
  "all_diagnostics ds items = foldl merged ds (map item_diagnostics items)"

lemma chain_good:
  assumes "snapshot_wf s" "boundary s i" "item_chain s position i items j"
  shows "tiles (snap_text s) i (map (trivia_range \<circ> item_trivia) items) j
    \<and> (\<forall>item \<in> set items. \<exists>k. good_item s k item)"
  using assms(2,3)
proof (induction items arbitrary: i)
  case (Cons item items)
  then have g: "good_item s i item" using scan_trivia_at_good [OF assms(1), of i position] by auto
  then have "boundary s (trivia_end (item_trivia item))" by (simp add: good_item_def)
  from Cons.IH [OF this] Cons.prems g show ?case by (auto simp: good_item_def)
qed simp

lemma leading_loop_spec:
  assumes "snapshot_wf s" "boundary s i"
  shows "\<exists>items e. leading_loop s i tr ds
      = Some (trivia_scan_done s (tr @ map item_trivia items) e (all_diagnostics ds items))
    \<and> item_chain s Leading i items e \<and> scan_trivia_at s e Leading = Some None \<and> boundary s e"
  using assms(2)
proof (induction "text_length s - i" arbitrary: i tr ds rule: less_induct)
  case less
  note eq = leading_loop.simps [of s i tr ds]
  from scan_trivia_at_good [OF assms(1) less.prems, of Leading] obtain oi
    where oi: "scan_trivia_at s i Leading = Some oi" "\<And>item. oi = Some item \<Longrightarrow> good_item s i item"
    by blast
  show ?case
  proof (cases oi)
    case None
    with oi(1) less.prems show ?thesis
      by (intro exI [of _ "[]"] exI [of _ i]) (simp add: eq all_diagnostics_def)
  next
    case (Some item)
    let ?k = "trivia_end (item_trivia item)"
    from oi(2) [OF Some] have k: "i < ?k" "boundary s ?k" by (auto simp: good_item_def)
    then have "text_length s - ?k < text_length s - i" using boundary_le [OF k(2)] by linarith
    from less.hyps [OF this k(2), of "tr @ [item_trivia item]" "merged ds (item_diagnostics item)"]
    obtain items e where r: "leading_loop s ?k (tr @ [item_trivia item]) (merged ds (item_diagnostics item))
      = Some (trivia_scan_done s ((tr @ [item_trivia item]) @ map item_trivia items) e
          (all_diagnostics (merged ds (item_diagnostics item)) items))"
      "item_chain s Leading ?k items e" "scan_trivia_at s e Leading = Some None" "boundary s e" by blast
    with oi(1) Some show ?thesis
      by (intro exI [of _ "item # items"] exI [of _ e]) (simp add: eq all_diagnostics_def)
  qed
qed

lemma trailing_loop_spec:
  assumes "snapshot_wf s" "boundary s i"
  shows "\<exists>items e. trailing_loop s i tr ds
      = Some (trivia_scan_done s (tr @ map item_trivia items) e (all_diagnostics ds items))
    \<and> item_chain s Trailing i items e \<and> boundary s e
    \<and> (scan_trivia_at s e Trailing = Some None \<or> items \<noteq> [] \<and> contains_line_break (last items))
    \<and> (\<forall>item \<in> set (butlast items). \<not> contains_line_break item)"
  using assms(2)
proof (induction "text_length s - i" arbitrary: i tr ds rule: less_induct)
  case less
  note eq = trailing_loop.simps [of s i tr ds]
  from scan_trivia_at_good [OF assms(1) less.prems, of Trailing] obtain oi
    where oi: "scan_trivia_at s i Trailing = Some oi" "\<And>item. oi = Some item \<Longrightarrow> good_item s i item"
    by blast
  show ?case
  proof (cases oi)
    case None
    with oi(1) less.prems show ?thesis
      by (intro exI [of _ "[]"] exI [of _ i]) (simp add: eq all_diagnostics_def)
  next
    case (Some item)
    let ?k = "trivia_end (item_trivia item)"
    from oi(2) [OF Some] have k: "i < ?k" "boundary s ?k" by (auto simp: good_item_def)
    show ?thesis
    proof (cases "contains_line_break item")
      case True
      with oi(1) Some k show ?thesis
        by (intro exI [of _ "[item]"] exI [of _ ?k]) (simp add: eq all_diagnostics_def)
    next
      case False
      from k have "text_length s - ?k < text_length s - i" using boundary_le [OF k(2)] by linarith
      from less.hyps [OF this k(2), of "tr @ [item_trivia item]" "merged ds (item_diagnostics item)"]
      obtain items e where r: "trailing_loop s ?k (tr @ [item_trivia item]) (merged ds (item_diagnostics item))
          = Some (trivia_scan_done s ((tr @ [item_trivia item]) @ map item_trivia items) e
              (all_diagnostics (merged ds (item_diagnostics item)) items))"
        "item_chain s Trailing ?k items e" "boundary s e"
        "scan_trivia_at s e Trailing = Some None \<or> items \<noteq> [] \<and> contains_line_break (last items)"
        "\<forall>item \<in> set (butlast items). \<not> contains_line_break item" by blast
      with oi(1) Some False show ?thesis
        by (intro exI [of _ "item # items"] exI [of _ e]) (auto simp: eq all_diagnostics_def)
    qed
  qed
qed

lemma all_diagnostics_facts:
  assumes "\<forall>item \<in> set items. length (item_diagnostics item) \<le> 1" "distinct (map duplicate_key ds)"
  shows "distinct (map duplicate_key (all_diagnostics ds items))"
    and "set (all_diagnostics ds items) \<subseteq> set ds \<union> (\<Union>item \<in> set items. set (item_diagnostics item))"
    and "duplicate_key ` set (all_diagnostics ds items)
      = duplicate_key ` (set ds \<union> (\<Union>item \<in> set items. set (item_diagnostics item)))"
proof -
  have "distinct (map duplicate_key (all_diagnostics ds items))
    \<and> set (all_diagnostics ds items) \<subseteq> set ds \<union> (\<Union>item \<in> set items. set (item_diagnostics item))
    \<and> duplicate_key ` set (all_diagnostics ds items)
      = duplicate_key ` (set ds \<union> (\<Union>item \<in> set items. set (item_diagnostics item)))"
    using assms
  proof (induction items arbitrary: ds)
    case (Cons item items)
    have "distinct (map duplicate_key (item_diagnostics item))"
      using Cons.prems(1) by (cases "item_diagnostics item") auto
    then have "distinct (map duplicate_key (merged ds (item_diagnostics item)))"
      unfolding merged_def using Cons.prems(2) by (rule bag_merge_distinct [rotated])
    from Cons.IH [OF _ this] Cons.prems(1)
      bag_merge_subset [of duplicate_key ds "item_diagnostics item", folded merged_def]
      bag_merge_keys [of duplicate_key ds "item_diagnostics item", folded merged_def]
    show ?case by (auto simp: all_diagnostics_def image_Un)
  qed (auto simp: all_diagnostics_def)
  then show "distinct (map duplicate_key (all_diagnostics ds items))"
    and "set (all_diagnostics ds items) \<subseteq> set ds \<union> (\<Union>item \<in> set items. set (item_diagnostics item))"
    and "duplicate_key ` set (all_diagnostics ds items)
      = duplicate_key ` (set ds \<union> (\<Union>item \<in> set items. set (item_diagnostics item)))"
    by blast+
qed

text \<open>What the driver uses of a trivia scan.\<close>

definition good_trivia :: "source_snapshot \<Rightarrow> text_size \<Rightarrow> trivia_scan \<Rightarrow> bool" where
  "good_trivia s start ts \<longleftrightarrow>
     tiles (snap_text s) start (map trivia_range (scan_trivia ts)) (scan_end ts)
     \<and> (\<forall>t \<in> set (scan_trivia ts). is_trivia (trivia_kind t) \<and> trivia_start t < trivia_end t)
     \<and> (reached_eof ts \<longleftrightarrow> scan_end ts = text_length s)
     \<and> distinct (map duplicate_key (trivia_diagnostics ts))
     \<and> (\<forall>d \<in> set (trivia_diagnostics ts). \<exists>t \<in> set (scan_trivia ts). open_comment s (trivia_range t) d)"

lemma chain_good_trivia:
  assumes "snapshot_wf s" "boundary s i" "item_chain s position i items e"
  shows "good_trivia s i (trivia_scan_done s (map item_trivia items) e (all_diagnostics [] items))"
proof -
  note c = chain_good [OF assms]
  then have one: "\<forall>item \<in> set items. length (item_diagnostics item) \<le> 1" by (auto simp: good_item_def)
  have "\<exists>t \<in> item_trivia ` set items. open_comment s (trivia_range t) d"
    if "d \<in> set (all_diagnostics [] items)" for d
    using that all_diagnostics_facts(2) [OF one, of "[]"] c by (fastforce simp: good_item_def)
  with c assms(1) all_diagnostics_facts(1) [OF one, of "[]"] show ?thesis
    by (auto simp: good_trivia_def trivia_scan_done_def good_item_def)
qed

lemma leading_trivia_good:
  assumes "snapshot_wf s" "boundary s i"
  shows "\<exists>ts. scan_leading_trivia s i = Some ts \<and> good_trivia s i ts \<and> boundary s (scan_end ts)
    \<and> scan_trivia_at s (scan_end ts) Leading = Some None"
  using leading_loop_spec [OF assms, of "[]" "[]"] chain_good_trivia [OF assms, of Leading]
  by (fastforce simp: scan_leading_trivia_def trivia_scan_done_def)

lemma trailing_trivia_good:
  assumes "snapshot_wf s" "boundary s i"
  shows "\<exists>ts. scan_trailing_trivia s i = Some ts \<and> good_trivia s i ts \<and> boundary s (scan_end ts)"
  using trailing_loop_spec [OF assms, of "[]" "[]"] chain_good_trivia [OF assms, of Trailing]
  by (fastforce simp: scan_trailing_trivia_def trivia_scan_done_def)

end
