(* ===== verification/Lexer_Scanner.thy ===== *)
theory Lexer_Scanner
  imports Lexer_Numeric Lexer_Quoted Lexer_Trivia
begin

text \<open>
  The scanner of one token (\<open>crates/bray-parser/src/lexer/scanner.rs\<close>): its modes, identifiers and
  keywords, operators and punctuation, invalid text, and the driver \<open>scan_token_at\<close> that attaches
  the trivia.

  The Unicode table behind \<open>char::is_alphanumeric\<close> is the parameter \<open>ua\<close> of the definitions that
  ask for it; they ask for it outside ASCII only, and nothing is assumed of it.
\<close>

datatype lexer_scan_mode = Normal | TypePunctuation | TupleElementIndexAfterDot

datatype identifier_scan_end = IdentifierValid text_size | IdentifierInvalid text_size

type_synonym unicode_alphanumeric = "nat \<Rightarrow> bool"

subsection \<open>Character classes\<close>

definition is_non_ascii_identifier_character :: "unicode_alphanumeric \<Rightarrow> nat \<Rightarrow> bool" where
  "is_non_ascii_identifier_character ua c \<longleftrightarrow> \<not> c < 128 \<and> ua c"

definition is_ascii_identifier_continue :: "char \<Rightarrow> bool" where
  "is_ascii_identifier_continue b \<longleftrightarrow> is_ascii_alphanumeric (byte_val b) \<or> b = CHR ''_''"

definition is_operator_cluster_character :: "nat \<Rightarrow> bool" where
  "is_operator_cluster_character c \<longleftrightarrow> c \<in> set (map byte_val ''-=!<>&|*.+/%@^~?:'')"

definition keyword_kind :: "string \<Rightarrow> syntax_kind option" where
  "keyword_kind t = Option.bind (from_fixed_text t) (\<lambda>k. if is_keyword k then Some k else None)"

definition operator_or_punctuation_kind :: "string \<Rightarrow> syntax_kind option" where
  "operator_or_punctuation_kind t = from_fixed_text t"

definition from_fixed_character :: "nat \<Rightarrow> syntax_kind option" where
  "from_fixed_character c = from_fixed_text (encode_utf8 c)"

definition delimiter_or_separator_kind :: "nat \<Rightarrow> syntax_kind option" where
  "delimiter_or_separator_kind c = Option.bind (from_fixed_character c) (\<lambda>k.
     if k \<in> {OpenParenToken, CloseParenToken, OpenBraceToken, CloseBraceToken, OpenBracketToken,
             CloseBracketToken, CommaToken, SemicolonToken} then Some k else None)"

subsection \<open>Ends of identifiers and operators\<close>

partial_function (option) invalid_identifier_loop ::
    "unicode_alphanumeric \<Rightarrow> source_snapshot \<Rightarrow> text_size \<Rightarrow> text_size run" where
  "invalid_identifier_loop ua s e = do {
     oc \<leftarrow> first_character s e;
     case oc of
       None \<Rightarrow> Some e
     | Some c \<Rightarrow>
         (if c < 128 then
            (if is_ascii_alphanumeric c \<or> c = 95 then do {
               e' \<leftarrow> offset_after_character e c;
               invalid_identifier_loop ua s e'
             }
             else Some e)
          else if is_non_ascii_identifier_character ua c then do {
            e' \<leftarrow> offset_after_character e c;
            invalid_identifier_loop ua s e'
          }
          else Some e)
   }"

declare invalid_identifier_loop.simps [code]

definition invalid_identifier_like_end ::
    "unicode_alphanumeric \<Rightarrow> source_snapshot \<Rightarrow> text_size \<Rightarrow> text_size run" where
  "invalid_identifier_like_end ua s start = do {
     e \<leftarrow> invalid_identifier_loop ua s start;
     if e = start then do {
       oc \<leftarrow> first_character s start;
       case oc of Some c \<Rightarrow> offset_after_character start c | None \<Rightarrow> Some start
     }
     else Some e
   }"

definition identifier_like_end ::
    "unicode_alphanumeric \<Rightarrow> source_snapshot \<Rightarrow> text_size \<Rightarrow> identifier_scan_end run" where
  "identifier_like_end ua s start = do {
     e \<leftarrow> text_size_from_usize (index_while is_ascii_identifier_continue (snap_text s) start);
     oc \<leftarrow> first_character s e;
     (if (case oc of Some c \<Rightarrow> is_non_ascii_identifier_character ua c | None \<Rightarrow> False)
      then map_option IdentifierInvalid (invalid_identifier_like_end ua s start)
      else Some (IdentifierValid e))
   }"

partial_function (option) first_non_ascii_identifier_character ::
    "unicode_alphanumeric \<Rightarrow> source_snapshot \<Rightarrow> text_size \<Rightarrow> text_size \<Rightarrow> nat option run" where
  "first_non_ascii_identifier_character ua s cursor e =
     (if cursor < e then do {
        oc \<leftarrow> first_character s cursor;
        case oc of
          None \<Rightarrow> Some None
        | Some c \<Rightarrow>
            (if is_non_ascii_identifier_character ua c then Some (Some c)
             else do {
               cursor' \<leftarrow> offset_after_character cursor c;
               first_non_ascii_identifier_character ua s cursor' e
             })
      }
      else Some None)"

declare first_non_ascii_identifier_character.simps [code]

function operator_loop :: "string \<Rightarrow> nat \<Rightarrow> nat \<Rightarrow> nat" where
  "operator_loop bytes start i =
     (case get bytes i of
        None \<Rightarrow> i
      | Some byte \<Rightarrow>
          (if (byte = CHR ''.'' \<or> byte = CHR '':'') \<and> start < i \<and> bytes ! (i - 1) = CHR ''>'' then i
           else if is_operator_cluster_character (byte_val byte) then operator_loop bytes start (i + 1)
           else i))"
  by pat_completeness auto
termination
  by (relation "measure (\<lambda>(bytes, _, i). length bytes - i)") (auto simp: get_Some_iff)

declare operator_loop.simps [simp del]

definition operator_cluster_end :: "source_snapshot \<Rightarrow> text_size \<Rightarrow> text_size run" where
  "operator_cluster_end s start = text_size_from_usize (operator_loop (snap_text s) start start)"

subsection \<open>Tokens\<close>

definition clean_end_of_file :: "text_size \<Rightarrow> token_scan run" where
  "clean_end_of_file start = map_option scan_clean (token_end_of_file start)"

definition clean_scalar_token :: "syntax_kind \<Rightarrow> text_size \<Rightarrow> nat \<Rightarrow> token_scan run" where
  "clean_scalar_token k start c = map_option scan_clean (make_scalar_token k start c)"

definition scan_invalid_identifier_like_token ::
    "unicode_alphanumeric \<Rightarrow> source_snapshot \<Rightarrow> text_size \<Rightarrow> text_size \<Rightarrow> token_scan run" where
  "scan_invalid_identifier_like_token ua s start e = do {
     r \<leftarrow> text_range_new start e;
     t \<leftarrow> make_token InvalidToken start e;
     oc \<leftarrow> first_non_ascii_identifier_character ua s start e;
     Some (case oc of
       Some c \<Rightarrow> scan_with_diagnostic t (non_ascii_identifier s r c)
     | None \<Rightarrow> scan_with_diagnostic t (invalid_identifier s r))
   }"

definition scan_identifier_or_keyword ::
    "unicode_alphanumeric \<Rightarrow> source_snapshot \<Rightarrow> text_size \<Rightarrow> token_scan run" where
  "scan_identifier_or_keyword ua s start = do {
     r \<leftarrow> identifier_like_end ua s start;
     case r of
       IdentifierValid e \<Rightarrow> do {
         range \<leftarrow> text_range_new start e;
         t \<leftarrow> token_text s range;
         clean_token (case keyword_kind t of Some k \<Rightarrow> k | None \<Rightarrow> IdentifierToken) start e
       }
     | IdentifierInvalid e \<Rightarrow> scan_invalid_identifier_like_token ua s start e
   }"

definition scan_underscore_or_invalid_identifier ::
    "unicode_alphanumeric \<Rightarrow> source_snapshot \<Rightarrow> text_size \<Rightarrow> token_scan run" where
  "scan_underscore_or_invalid_identifier ua s start = do {
     e \<leftarrow> offset_after_character start 95;
     oc \<leftarrow> first_character s e;
     (if (case oc of
            Some c \<Rightarrow> is_ascii_alphanumeric c \<or> c = 95 \<or> is_non_ascii_identifier_character ua c
          | None \<Rightarrow> False)
      then do {
        e' \<leftarrow> invalid_identifier_like_end ua s start;
        scan_invalid_identifier_like_token ua s start e'
      }
      else clean_token UnderscoreToken start e)
   }"

definition scan_operator_or_punctuation_token ::
    "source_snapshot \<Rightarrow> text_size \<Rightarrow> token_scan run" where
  "scan_operator_or_punctuation_token s start =
     (let rest = (if start \<le> length (snap_text s) then drop start (snap_text s) else []);
          repeated = (if take 3 rest = ''&&&'' then Some (AmpersandAmpersandToken, byte_val (CHR ''&''))
                      else if take 3 rest = ''>>>'' then Some (GreaterGreaterToken, byte_val (CHR ''>''))
                      else None)
      in case repeated of
           Some (k, c) \<Rightarrow> do {
             e1 \<leftarrow> offset_after_character start c;
             e \<leftarrow> offset_after_character e1 c;
             clean_token k start e
           }
         | None \<Rightarrow> do {
             e \<leftarrow> operator_cluster_end s start;
             r \<leftarrow> text_range_new start e;
             t \<leftarrow> token_text s r;
             (case operator_or_punctuation_kind t of
                Some k \<Rightarrow> clean_token k start e
              | None \<Rightarrow> invalid_token_with start e (invalid_operator_or_punctuation s))
           })"

definition scan_invalid_scalar_token :: "source_snapshot \<Rightarrow> text_size \<Rightarrow> token_scan run" where
  "scan_invalid_scalar_token s start = do {
     oc \<leftarrow> first_character s start;
     case oc of
       None \<Rightarrow> clean_end_of_file start
     | Some c \<Rightarrow> do {
         t \<leftarrow> make_scalar_token InvalidToken start c;
         let range = tok_range t in
         Some (scan_with_diagnostic t
           (if c = 0xFEFF then misplaced_bom s range
            else if c = 13 then lone_carriage_return s range
            else invalid_character s range c))
       }
   }"

definition scan_normal_token ::
    "unicode_alphanumeric \<Rightarrow> source_snapshot \<Rightarrow> text_size \<Rightarrow> token_scan run" where
  "scan_normal_token ua s start = do {
     oc \<leftarrow> first_character s start;
     case oc of
       None \<Rightarrow> clean_end_of_file start
     | Some c \<Rightarrow>
         (if is_ascii_alphabetic c then
            (if c = byte_val (CHR ''b'') \<and> get (snap_text s) (start + 1) = Some (CHR 0x22)
             then scan_string_literal s start True
             else scan_identifier_or_keyword ua s start)
          else if c = byte_val (CHR ''_'') then scan_underscore_or_invalid_identifier ua s start
          else if is_ascii_digit c then scan_numeric_literal s start
          else if c = 39 then scan_character_literal s start
          else if c = 34 then scan_string_literal s start False
          else case delimiter_or_separator_kind c of
            Some k \<Rightarrow> clean_scalar_token k start c
          | None \<Rightarrow>
              (if is_operator_cluster_character c then scan_operator_or_punctuation_token s start
               else if is_non_ascii_identifier_character ua c then do {
                 e \<leftarrow> invalid_identifier_like_end ua s start;
                 scan_invalid_identifier_like_token ua s start e
               }
               else scan_invalid_scalar_token s start))
   }"

definition scan_tuple_element_index_or_normal ::
    "unicode_alphanumeric \<Rightarrow> source_snapshot \<Rightarrow> text_size \<Rightarrow> token_scan run" where
  "scan_tuple_element_index_or_normal ua s start = do {
     oc \<leftarrow> first_character s start;
     case oc of
       None \<Rightarrow> clean_end_of_file start
     | Some c \<Rightarrow> (if is_ascii_digit c then scan_tuple_element_index_token s start
                 else scan_normal_token ua s start)
   }"

definition scan_token_core ::
    "unicode_alphanumeric \<Rightarrow> source_snapshot \<Rightarrow> text_size \<Rightarrow> lexer_scan_mode \<Rightarrow> token_scan run" where
  "scan_token_core ua s start mode = (case mode of
     Normal \<Rightarrow> scan_normal_token ua s start
   | TypePunctuation \<Rightarrow> do {
       oc \<leftarrow> first_character s start;
       (if oc = Some (byte_val (CHR ''>''))
          then clean_scalar_token GreaterToken start (byte_val (CHR ''>''))
        else if oc = Some (byte_val (CHR ''&''))
          then clean_scalar_token AmpersandToken start (byte_val (CHR ''&''))
        else scan_normal_token ua s start)
     }
   | TupleElementIndexAfterDot \<Rightarrow> scan_tuple_element_index_or_normal ua s start)"

definition scan_token_at ::
    "unicode_alphanumeric \<Rightarrow> source_snapshot \<Rightarrow> text_size \<Rightarrow> lexer_scan_mode \<Rightarrow> token_scan run" where
  "scan_token_at ua s start mode = do {
     assert_run (\<not> snap_text_len s < start);
     lead \<leftarrow> scan_leading_trivia s start;
     let token_start = scan_end lead; diagnostics = trivia_diagnostics lead in
     (if token_start = snap_text_len s then do {
        eof \<leftarrow> token_end_of_file token_start;
        t \<leftarrow> with_leading_trivia (scan_trivia lead) eof;
        Some (scan_with_diagnostics t diagnostics)
      }
      else do {
        core \<leftarrow> scan_token_core ua s token_start mode;
        let diagnostics = merged diagnostics (scan_diagnostics core);
            token = scan_token core in do {
        trail \<leftarrow> scan_trailing_trivia s (tok_end token);
        let diagnostics = merged diagnostics (trivia_diagnostics trail) in do {
        t \<leftarrow> with_leading_trivia (scan_trivia lead) token;
        (if reached_eof trail then Some (scan_with_diagnostics t diagnostics)
         else do {
           t' \<leftarrow> with_trailing_trivia (scan_trivia trail) t;
           Some (scan_with_diagnostics t' diagnostics)
         })}}
      })
   }"

subsection \<open>The scanner contract of identifiers\<close>

lemma good_text:
  assumes "snapshot_wf s" "boundary s i" "boundary s j" "i \<le> j"
  shows "text_range_new i j = Some \<lparr>tr_start = i, tr_end = j\<rparr>"
    and "token_text s \<lparr>tr_start = i, tr_end = j\<rparr> = Some (segment (snap_text s) i j)"
  using assms
  by (auto simp: run_simps token_text_def snapshot_text_slice_def text_range_slice_str_def
      str_get_range_def text_range_new_def)

lemma invalid_identifier_loop_returns:
  assumes "snapshot_wf s" "boundary s e"
  shows "\<exists>e'. invalid_identifier_loop ua s e = Some e' \<and> e \<le> e' \<and> boundary s e'"
  using assms(2)
proof (induction "text_length s - e" arbitrary: e rule: less_induct)
  case less
  note eq = invalid_identifier_loop.simps [of ua s e]
  show ?case
  proof (cases "e = text_length s")
    case True
    then show ?thesis by (subst eq) simp
  next
    case False
    with boundary_le [OF less.prems] have l: "e < text_length s" by simp
    obtain c where c: "first_character s e = Some (Some c)"
      "offset_after_character e c = Some (e + len_utf8 c)" "boundary s (e + len_utf8 c)"
      by (rule character_at [OF assms(1) less.prems l])
    have "text_length s - (e + len_utf8 c) < text_length s - e" using l len_utf8_pos [of c] by linarith
    from less.hyps [OF this c(3)] c less.prems show ?thesis
      by (auto simp: eq intro: add_leD1)
  qed
qed

lemma invalid_identifier_end:
  assumes "snapshot_wf s" "boundary s start" "start < text_length s"
  obtains e where "invalid_identifier_like_end ua s start = Some e" "start < e" "boundary s e"
proof -
  from invalid_identifier_loop_returns [OF assms(1,2), of ua] obtain e
    where e: "invalid_identifier_loop ua s start = Some e" "start \<le> e" "boundary s e" by blast
  obtain c where c: "first_character s start = Some (Some c)"
    "offset_after_character start c = Some (start + len_utf8 c)" "boundary s (start + len_utf8 c)"
    by (rule character_at [OF assms])
  show ?thesis
  proof (cases "e = start")
    case True
    with e c show ?thesis
      by (intro that [of "start + len_utf8 c"]) (simp_all add: invalid_identifier_like_end_def)
  next
    case False
    with e show ?thesis by (intro that [of e]) (simp_all add: invalid_identifier_like_end_def)
  qed
qed

lemma first_non_ascii_returns:
  assumes "snapshot_wf s" "boundary s i" "e \<le> text_length s"
  shows "\<exists>oc. first_non_ascii_identifier_character ua s i e = Some oc"
  using assms(2)
proof (induction "text_length s - i" arbitrary: i rule: less_induct)
  case less
  note eq = first_non_ascii_identifier_character.simps [of ua s i e]
  show ?case
  proof (cases "i < e")
    case True
    with assms(3) have l: "i < text_length s" by simp
    obtain c where c: "first_character s i = Some (Some c)"
      "offset_after_character i c = Some (i + len_utf8 c)" "boundary s (i + len_utf8 c)"
      by (rule character_at [OF assms(1) less.prems l])
    have "text_length s - (i + len_utf8 c) < text_length s - i" using l len_utf8_pos [of c] by linarith
    from less.hyps [OF this c(3)] c show ?thesis by (auto simp: eq)
  qed (simp add: eq)
qed

lemma good_invalid_identifier:
  assumes "snapshot_wf s" "boundary s start" "start < e" "boundary s e"
  shows "good_scan s start (scan_invalid_identifier_like_token ua s start e)"
proof -
  from first_non_ascii_returns [OF assms(1,2) boundary_le [OF assms(4)]] obtain oc
    where oc: "first_non_ascii_identifier_character ua s start e = Some oc" by blast
  define report where "report r = (case oc of
      Some c \<Rightarrow> non_ascii_identifier s r c | None \<Rightarrow> invalid_identifier s r)" for r
  have "scan_invalid_identifier_like_token ua s start e = invalid_token_with start e report"
    using oc by (cases oc) (simp_all add: scan_invalid_identifier_like_token_def invalid_token_with_def
        report_def)
  moreover have "reports s r (report r)" for r by (simp add: report_def split: option.splits)
  ultimately show ?thesis using good_invalid_token [OF assms(3,4)] by simp
qed

lemma identifier_run:
  "start \<le> text_length s
   \<Longrightarrow> ascii_run (snap_text s) start (index_while is_ascii_identifier_continue (snap_text s) start)"
  by (rule ascii_run_while) (auto simp: is_ascii_identifier_continue_def dest: ascii_digit_range)

lemma keyword_kind_token:
  assumes "keyword_kind t = Some k"
  shows "is_token k" "k \<noteq> EndOfFileToken" "k \<noteq> InvalidToken"
  using assms from_fixed_text_token [of t k]
  by (auto simp: keyword_kind_def bind_eq_Some_conv split: if_splits)

abbreviation at_letter :: "source_snapshot \<Rightarrow> text_size \<Rightarrow> bool" where
  "at_letter s start \<equiv> is_ascii_alphabetic (byte_at s start)"

lemma at_boundary_character:
  assumes "snapshot_wf s" "boundary s i"
  obtains oc where "first_character s i = Some oc"
  using assms character_at [OF assms] first_character_end [of s] boundary_le [OF assms(2)]
  by (cases "i = text_length s") (auto simp: le_neq_implies_less)

interpretation identifiers: token_scanner "scan_identifier_or_keyword ua" at_letter for ua
proof
  fix s start
  assume wf: "snapshot_wf s" and b: "boundary s start" and l: "start < text_length s"
    and a: "at_letter s start"
  let ?e = "index_while is_ascii_identifier_continue (snap_text s) start"
  have run: "ascii_run (snap_text s) start ?e" using l by (intro identifier_run) simp
  have e: "boundary s ?e" by (rule ascii_run_boundary [OF wf b run])
  have pos: "start < ?e"
    using l a by (intro index_while_gt) (simp_all add: is_ascii_identifier_continue_def ascii_defs)
  obtain oc where oc: "first_character s ?e = Some oc" by (rule at_boundary_character [OF wf e])
  obtain e' where e': "invalid_identifier_like_end ua s start = Some e'" "start < e'" "boundary s e'"
    by (rule invalid_identifier_end [OF wf b l])
  have n: "text_size_from_usize ?e = Some ?e" using wf boundary_le [OF e] by simp
  define k where "k = (case keyword_kind (segment (snap_text s) start ?e) of
    Some k \<Rightarrow> k | None \<Rightarrow> IdentifierToken)"
  have k: "is_token k" "k \<noteq> EndOfFileToken" "k \<noteq> InvalidToken"
    by (auto simp: k_def dest: keyword_kind_token split: option.splits)
  show "good_scan s start (scan_identifier_or_keyword ua s start)"
  proof (cases "case oc of Some c \<Rightarrow> is_non_ascii_identifier_character ua c | None \<Rightarrow> False")
    case True
    with oc n e' good_invalid_identifier [OF wf b e'(2,3)] show ?thesis
      by (simp add: scan_identifier_or_keyword_def identifier_like_end_def)
  next
    case False
    with oc n good_text [OF wf b e] pos good_clean_token [OF pos e k] show ?thesis
      by (simp add: scan_identifier_or_keyword_def identifier_like_end_def k_def text_range_new_def)
  qed
qed

abbreviation at_underscore :: "source_snapshot \<Rightarrow> text_size \<Rightarrow> bool" where
  "at_underscore s start \<equiv> byte_at s start = 95"

interpretation underscores: token_scanner "scan_underscore_or_invalid_identifier ua" at_underscore for ua
proof
  fix s start
  assume wf: "snapshot_wf s" and b: "boundary s start" and l: "start < text_length s"
    and a: "at_underscore s start"
  have e: "boundary s (Suc start)" "offset_after_character start 95 = Some (Suc start)"
    using boundary_Suc [OF wf l] offset_after_ascii [OF wf l] a by auto
  obtain oc where oc: "first_character s (Suc start) = Some oc"
    by (rule at_boundary_character [OF wf e(1)])
  obtain e' where e': "invalid_identifier_like_end ua s start = Some e'" "start < e'" "boundary s e'"
    by (rule invalid_identifier_end [OF wf b l])
  have "good_scan s start (clean_token UnderscoreToken start (Suc start))"
    by (rule good_clean_token [OF _ e(1)]) auto
  with oc e e' good_invalid_identifier [OF wf b e'(2,3), of ua]
  show "good_scan s start (scan_underscore_or_invalid_identifier ua s start)"
    by (simp add: scan_underscore_or_invalid_identifier_def)
qed

subsection \<open>The scanner contract of operators and invalid text\<close>

lemma cluster_ascii: "is_operator_cluster_character c \<Longrightarrow> c < 128"
  by (auto simp: is_operator_cluster_character_def)

lemma operator_run: "i \<le> length bytes \<Longrightarrow> ascii_run bytes i (operator_loop bytes start i)"
proof (induction bytes start i rule: operator_loop.induct)
  case (1 bytes start i)
  note eq = operator_loop.simps [of bytes start i]
  show ?case
  proof (cases "get bytes i")
    case None
    with "1.prems" show ?thesis by (simp add: eq ascii_run_refl)
  next
    case (Some b)
    have l: "i + 1 \<le> length bytes" using Some by (simp add: get_Some_iff)
    show ?thesis
      using Some "1.IH" [OF Some _ _ l] "1.prems" ascii_run_get [OF Some] cluster_ascii
      by (auto simp: eq ascii_run_refl intro: ascii_run_trans)
  qed
qed

lemma operator_progress:
  assumes "start < length bytes" "is_operator_cluster_character (byte_val (bytes ! start))"
  shows "start < operator_loop bytes start start"
proof -
  have "start + 1 \<le> operator_loop bytes start (start + 1)"
    using assms ascii_run_bounds [OF operator_run [of "start + 1" bytes start]] by simp
  with assms show ?thesis by (subst operator_loop.simps) (simp add: get_def)
qed

abbreviation at_operator :: "source_snapshot \<Rightarrow> text_size \<Rightarrow> bool" where
  "at_operator s start \<equiv> is_operator_cluster_character (byte_at s start)"

lemma good_two_characters:
  assumes "snapshot_wf s" "start + 2 \<le> text_length s" "byte_at s start = c" "byte_at s (start + 1) = c"
    "c < 128" "is_token k" "k \<noteq> EndOfFileToken" "k \<noteq> InvalidToken"
  shows "good_scan s start (do { e1 \<leftarrow> offset_after_character start c;
    e \<leftarrow> offset_after_character e1 c; clean_token k start e })"
proof -
  have "offset_after_character start c = Some (Suc start)"
    "offset_after_character (Suc start) c = Some (Suc (Suc start))"
    using assms(2,5) by (auto intro!: offset_after_ascii [OF assms(1)])
  moreover have "boundary s (Suc (Suc start))"
    using assms(2,4,5) by (intro boundary_Suc [OF assms(1)]) auto
  ultimately show ?thesis using assms(6-8) by (auto intro!: good_clean_token)
qed

interpretation operators: token_scanner scan_operator_or_punctuation_token at_operator
proof
  fix s start
  assume wf: "snapshot_wf s" and b: "boundary s start" and l: "start < text_length s"
    and a: "at_operator s start"
  let ?t = "snap_text s"
  let ?e = "operator_loop ?t start start"
  have run: "ascii_run ?t start ?e" using l by (intro operator_run) simp
  have e: "boundary s ?e" by (rule ascii_run_boundary [OF wf b run])
  have pos: "start < ?e" by (rule operator_progress [OF l a])
  have n: "text_size_from_usize ?e = Some ?e" using wf boundary_le [OF e] by simp
  have triple: "start + 2 \<le> text_length s \<and> byte_at s start = byte_val c \<and> byte_at s (start + 1) = byte_val c"
    if "take 3 (drop start ?t) = [c, c, c]" for c
  proof -
    have len: "3 \<le> length (drop start ?t)"
      using arg_cong [OF that, of length] by simp
    have "take 3 (drop start ?t) ! k = ?t ! (start + k)" if "k < 3" for k
      using that len by simp
    from this [of 0] this [of 1] that len show ?thesis by simp
  qed
  have amp: "good_scan s start (do { e1 \<leftarrow> offset_after_character start (byte_val (CHR ''&''));
      e \<leftarrow> offset_after_character e1 (byte_val (CHR ''&'')); clean_token AmpersandAmpersandToken start e })"
    if "take 3 (drop start ?t) = ''&&&''"
    using triple [OF that] by (intro good_two_characters [OF wf]) auto
  have gt: "good_scan s start (do { e1 \<leftarrow> offset_after_character start (byte_val (CHR ''>''));
      e \<leftarrow> offset_after_character e1 (byte_val (CHR ''>'')); clean_token GreaterGreaterToken start e })"
    if "take 3 (drop start ?t) = ''>>>''"
    using triple [OF that] by (intro good_two_characters [OF wf]) auto
  have kinds: "good_scan s start (clean_token k start ?e)"
    if "operator_or_punctuation_kind (segment ?t start ?e) = Some k" for k
    using that by (intro good_clean_token [OF pos e])
      (auto simp: operator_or_punctuation_kind_def dest: from_fixed_text_token)
  have "good_scan s start (do {
       e \<leftarrow> operator_cluster_end s start;
       r \<leftarrow> text_range_new start e;
       t \<leftarrow> token_text s r;
       (case operator_or_punctuation_kind t of
          Some k \<Rightarrow> clean_token k start e
        | None \<Rightarrow> invalid_token_with start e (invalid_operator_or_punctuation s))
     })"
    using n good_text [OF wf b e] pos kinds good_invalid_token [OF pos e, of "invalid_operator_or_punctuation s"]
    by (auto simp: operator_cluster_end_def text_range_new_def split: option.splits)
  with amp gt l show "good_scan s start (scan_operator_or_punctuation_token s start)"
    unfolding scan_operator_or_punctuation_token_def Let_def by simp
qed

lemma good_clean_scalar:
  assumes "offset_after_character start c = Some e" "start < e" "boundary s e" "is_token k"
    "k \<noteq> EndOfFileToken" "k \<noteq> InvalidToken"
  shows "good_scan s start (clean_scalar_token k start c)"
proof -
  have "clean_scalar_token k start c = clean_token k start e"
    by (cases "make_token k start e")
      (simp_all add: clean_scalar_token_def make_scalar_token_def clean_token_def assms(1))
  with good_clean_token [OF assms(2-6)] show ?thesis by simp
qed

lemma invalid_scalar_good:
  assumes "snapshot_wf s" "boundary s start" "start < text_length s"
  shows "good_scan s start (scan_invalid_scalar_token s start)"
proof -
  obtain c where c: "first_character s start = Some (Some c)"
    "offset_after_character start c = Some (start + len_utf8 c)" "boundary s (start + len_utf8 c)"
    by (rule character_at [OF assms])
  define report where "report r = (if c = 0xFEFF then misplaced_bom s r
            else if c = 13 then lone_carriage_return s r
            else invalid_character s r c)" for r
  have "scan_invalid_scalar_token s start = invalid_token_with start (start + len_utf8 c) report"
    using c(1,2) by (simp add: scan_invalid_scalar_token_def make_scalar_token_def make_token_def
        invalid_token_with_def report_def text_range_new_def token_new_def Let_def
        token_with_trivia_def token_with_trivia_and_presence_def)
  then show ?thesis
    using good_invalid_token [OF _ c(3), of start report] by (simp add: report_def)
qed

subsection \<open>Every token\<close>

lemma delimiter_kind_token:
  assumes "delimiter_or_separator_kind c = Some k"
  shows "is_token k" "k \<noteq> EndOfFileToken" "k \<noteq> InvalidToken"
  using assms by (auto simp: delimiter_or_separator_kind_def bind_eq_Some_conv split: if_splits)

lemma byte_val_b: "byte_val b = 98 \<longleftrightarrow> b = CHR ''b''"
  using of_char_eq_iff [where 'a = nat, of b "CHR ''b''"] by simp

lemma normal_token_good:
  assumes "snapshot_wf s" "boundary s start" "start < text_length s"
  shows "good_scan s start (scan_normal_token ua s start)"
proof -
  obtain c where c: "first_character s start = Some (Some c)"
    "offset_after_character start c = Some (start + len_utf8 c)" "boundary s (start + len_utf8 c)"
    "c < 128 \<longrightarrow> c = byte_at s start"
    by (rule character_at [OF assms])
  obtain e where e: "invalid_identifier_like_end ua s start = Some e" "start < e" "boundary s e"
    by (rule invalid_identifier_end [OF assms])
  have letter: "c < 128" if "is_ascii_alphabetic c" using that by (auto simp: ascii_defs)
  have digit: "c < 128" if "is_ascii_digit c" using that by (simp add: ascii_defs)
  have id: "good_scan s start (scan_identifier_or_keyword ua s start)" if "is_ascii_alphabetic c"
    using that letter c(4) by (intro identifiers.good [OF assms]) auto
  have bs: "good_scan s start (scan_string_literal s start True)"
    if "c = 98" "get (snap_text s) (start + 1) = Some (CHR 0x22)"
    using that c(4) byte_val_b by (intro byte_string.good [OF assms]) auto
  have us: "good_scan s start (scan_underscore_or_invalid_identifier ua s start)" if "c = 95"
    using that c(4) by (intro underscores.good [OF assms]) auto
  have num: "good_scan s start (scan_numeric_literal s start)" if "is_ascii_digit c"
    using that digit c(4) by (intro numeric.good [OF assms]) auto
  have ch: "good_scan s start (scan_character_literal s start)" if "c = 39"
    using that c(4) byte_val_delimiters(5) by (intro character.good [OF assms]) auto
  have str: "good_scan s start (scan_string_literal s start False)" if "c = 34"
    using that c(4) byte_val_delimiters(1) by (intro plain_string.good [OF assms]) auto
  have op: "good_scan s start (scan_operator_or_punctuation_token s start)"
    if "is_operator_cluster_character c"
    using that c(4) cluster_ascii [OF that] by (intro operators.good [OF assms]) auto
  have del: "good_scan s start (clean_scalar_token k start c)"
    if "delimiter_or_separator_kind c = Some k" for k
    by (rule good_clean_scalar [OF c(2) _ c(3) delimiter_kind_token [OF that]]) simp
  have inv: "good_scan s start (do { e \<leftarrow> invalid_identifier_like_end ua s start;
      scan_invalid_identifier_like_token ua s start e })"
    using e good_invalid_identifier [OF assms(1,2) e(2,3), of ua] by simp
  show ?thesis
    using c(1) id bs us num ch str op del inv invalid_scalar_good [OF assms]
    by (auto simp: scan_normal_token_def split: option.split)
qed

lemma token_core_good:
  assumes "snapshot_wf s" "boundary s start" "start < text_length s"
  shows "good_scan s start (scan_token_core ua s start mode)"
proof -
  obtain c where c: "first_character s start = Some (Some c)"
    "offset_after_character start c = Some (start + len_utf8 c)" "boundary s (start + len_utf8 c)"
    "c < 128 \<longrightarrow> c = byte_at s start"
    by (rule character_at [OF assms])
  note normal = normal_token_good [OF assms, of ua]
  have scalar: "good_scan s start (clean_scalar_token k start c)"
    if "is_token k" "k \<noteq> EndOfFileToken" "k \<noteq> InvalidToken" for k
    by (rule good_clean_scalar [OF c(2) _ c(3) that]) simp
  show ?thesis
  proof (cases mode)
    case Normal
    with normal show ?thesis by (simp add: scan_token_core_def)
  next
    case TypePunctuation
    then show ?thesis
      using c(1) scalar [of GreaterToken] scalar [of AmpersandToken] normal
      by (auto simp: scan_token_core_def)
  next
    case TupleElementIndexAfterDot
    have "good_scan s start (scan_tuple_element_index_token s start)" if "is_ascii_digit c"
      using that c(4) by (intro tuple_index.good [OF assms]) (auto simp: ascii_defs)
    with TupleElementIndexAfterDot c(1) normal show ?thesis
      by (simp add: scan_token_core_def scan_tuple_element_index_or_normal_def)
  qed
qed

subsection \<open>Spelling\<close>

lemma identifier_no_keyword: "\<not> is_keyword IdentifierToken"
  by (simp add: is_keyword_def)

text \<open>
  C38. Identifiers and keywords: at a letter, the token takes the longest run of letters, digits and
  underscores; it is the keyword whose spelling is that run when there is one, and an identifier
  otherwise. When a non-ASCII identifier character follows the run, the token is invalid.
\<close>

theorem scan_identifier_or_keyword_correct:
  assumes "snapshot_wf s" "boundary s start" "start < text_length s" "at_letter s start"
    and "e = index_while is_ascii_identifier_continue (snap_text s) start"
    and "w = segment (snap_text s) start e" "first_character s e = Some oc"
  shows "\<exists>sc. scan_identifier_or_keyword ua s start = Some sc
    \<and> (if \<exists>c. oc = Some c \<and> is_non_ascii_identifier_character ua c
       then tok_kind (scan_token sc) = InvalidToken
       else tok_range (scan_token sc) = \<lparr>tr_start = start, tr_end = e\<rparr> \<and> scan_diagnostics sc = []
         \<and> (\<forall>k. is_keyword k \<longrightarrow> (tok_kind (scan_token sc) = k \<longleftrightarrow> fixed_text k = Some w))
         \<and> (is_keyword (tok_kind (scan_token sc)) \<or> tok_kind (scan_token sc) = IdentifierToken))"
proof -
  have run: "ascii_run (snap_text s) start e" using assms(3,5) by (auto intro: identifier_run)
  have e: "boundary s e" by (rule ascii_run_boundary [OF assms(1,2) run])
  have pos: "start < e" unfolding assms(5)
    using assms(3,4) by (intro index_while_gt) (simp_all add: is_ascii_identifier_continue_def ascii_defs)
  have n: "text_size_from_usize e = Some e" using assms(1) boundary_le [OF e] by simp
  note idend = identifier_like_end_def [of ua s start, folded assms(5)]
  show ?thesis
  proof (cases "\<exists>c. oc = Some c \<and> is_non_ascii_identifier_character ua c")
    case True
    obtain e' where e': "invalid_identifier_like_end ua s start = Some e'" "start < e'" "boundary s e'"
      by (rule invalid_identifier_end [OF assms(1-3)])
    from first_non_ascii_returns [OF assms(1,2) boundary_le [OF e'(3)]] obtain oc'
      where "first_non_ascii_identifier_character ua s start e' = Some oc'" by blast
    with True assms(7) n e' show ?thesis
      by (auto simp: scan_identifier_or_keyword_def idend scan_invalid_identifier_like_token_def
          make_token_def text_range_new_def token_new_def token_with_trivia_def token_with_trivia_and_presence_def
          scan_with_diagnostic_def split: option.split)
  next
    case False
    let ?k = "case keyword_kind w of Some k \<Rightarrow> k | None \<Rightarrow> IdentifierToken"
    have k: "is_token ?k" by (auto dest: keyword_kind_token split: option.splits)
    from False have nf: "\<not> (case oc of None \<Rightarrow> False | Some c \<Rightarrow> is_non_ascii_identifier_character ua c)"
      by (auto split: option.splits)
    have "scan_identifier_or_keyword ua s start = Some (scan_clean \<lparr>tok_kind = ?k,
        tok_range = \<lparr>tr_start = start, tr_end = e\<rparr>, tok_presence = Present, leading_trivia = [],
        trailing_trivia = []\<rparr>)"
      using nf assms(7) n k pos good_text(2) [OF assms(1,2) e, folded assms(6)]
      by (simp add: scan_identifier_or_keyword_def idend clean_token_def make_token_def
          text_range_new_def token_new_def token_with_trivia_def token_with_trivia_and_presence_def)
    moreover have "is_keyword k \<longrightarrow> (?k = k \<longleftrightarrow> fixed_text k = Some w)" for k
      by (auto simp: keyword_kind_def bind_eq_Some_conv from_fixed_text_iff [symmetric] identifier_no_keyword
          split: option.splits if_splits)
    moreover have "is_keyword ?k \<or> ?k = IdentifierToken"
      by (auto simp: keyword_kind_def bind_eq_Some_conv split: option.splits if_splits)
    ultimately show ?thesis using False by (auto simp: scan_clean_def)
  qed
qed

theorem scan_identifier_or_keyword_correct_witness:
  "\<exists>sc. scan_identifier_or_keyword (\<lambda>_. False) (text_snapshot ''let x'') 0 = Some sc
    \<and> tok_kind (scan_token sc) = LetKeyword"
proof -
  let ?s = "text_snapshot ''let x''"
  have wf: "snapshot_wf ?s" by (rule text_snapshot_wf) (simp_all add: u32_max_def)
  have e: "3 = index_while is_ascii_identifier_continue (snap_text ?s) 0"
    by (simp add: index_while.simps is_ascii_identifier_continue_def ascii_defs)
  have c: "first_character ?s 3 = Some (Some (byte_at ?s 3))"
    by (rule first_character_ascii) simp_all
  have k: "is_keyword LetKeyword" "fixed_text LetKeyword = Some ''let''"
    by (simp_all add: is_keyword_def fixed_text_def fixed_syntax_text_def)
  have w: "segment (snap_text ?s) 0 3 = ''let''" by (simp add: segment_def)
  have ascii: "\<not> is_non_ascii_identifier_character (\<lambda>_. False) x" for x
    by (simp add: is_non_ascii_identifier_character_def)
  from scan_identifier_or_keyword_correct [OF wf _ _ _ e refl c, of "\<lambda>_. False"] k w ascii
  show ?thesis by (auto simp: ascii_defs)
qed

subsubsection \<open>Fixed spellings\<close>

text \<open>\<open>spelled s r\<close>: a scanned token whose kind has a fixed spelling has that text.\<close>

definition spelled :: "source_snapshot \<Rightarrow> token_scan run \<Rightarrow> bool" where
  "spelled s r \<longleftrightarrow> (\<forall>sc t. r = Some sc \<longrightarrow> fixed_text (tok_kind (scan_token sc)) = Some t
     \<longrightarrow> token_text s (tok_range (scan_token sc)) = Some t)"

lemma spelled_low:
  assumes "\<And>sc. r = Some sc \<Longrightarrow> discriminant (tok_kind (scan_token sc)) < 180"
  shows "spelled s r"
  using assms by (fastforce simp: spelled_def dest: fixed_text_discriminant)

lemma spelled_None [simp]: "spelled s None"
  by (simp add: spelled_def)

lemma spelled_bind: "(\<And>x. m = Some x \<Longrightarrow> spelled s (f x)) \<Longrightarrow> spelled s (m \<bind> f)"
  by (cases m) auto

lemma clean_token_at_kind: "clean_token_at k start e = Some sc \<Longrightarrow> tok_kind (scan_token sc) = k"
  by (auto simp: clean_token_at_def clean_token_def make_token_def scan_clean_def run_simps)

lemma invalid_numeric_kind:
  "make_invalid_numeric_token s start err = Some sc \<Longrightarrow> tok_kind (scan_token sc) = InvalidToken"
  by (auto simp: make_invalid_numeric_token_def run_simps dest: invalid_token_kind)

lemma numeric_spelled: "spelled s (scan_numeric_literal s start)"
proof (rule spelled_low)
  fix sc
  assume "scan_numeric_literal s start = Some sc"
  moreover have "discriminant (ns_kind (scan_radix_integer b i r)) < 180"
    "discriminant (ns_kind (scan_decimal_numeric b i)) < 180" for b i r
    by (auto simp: scan_radix_integer_def scan_decimal_numeric_def Let_def split: radix.splits)
  ultimately show "discriminant (tok_kind (scan_token sc)) < 180"
    unfolding scan_numeric_literal_def Let_def
    by (auto simp: run_simps dest!: clean_token_at_kind invalid_numeric_kind
        split: if_splits option.splits)
qed

lemma tuple_index_spelled: "spelled s (scan_tuple_element_index_token s start)"
  by (rule spelled_low) (auto simp: scan_tuple_element_index_token_def Let_def
      dest!: clean_token_at_kind invalid_numeric_kind split: if_splits)

lemma string_spelled:
  assumes "snapshot_wf s" "start < text_length s" "at_string bs s start"
  shows "spelled s (scan_string_literal s start bs)"
proof (rule spelled_low)
  fix sc
  assume sc: "scan_string_literal s start bs = Some sc"
  let ?i = "start + 1 + (if bs then 1 else 0)"
  show "discriminant (tok_kind (scan_token sc)) < 180"
  proof (cases "tok_kind (scan_token sc) = InvalidToken")
    case False
    from sc have l: "string_loop s start bs ?i = Some sc" by (simp add: scan_string_literal_def)
    from string_loop_sound [OF assms(1) string_opening [OF assms] l False] obtain body r
      where "string_body (string_mode bs) body" "drop ?i (snap_text s) = body @ CHR 0x22 # r" by blast
    from string_loop_complete [OF this, of start] l
    have "tok_kind (scan_token sc) = string_kind bs" by (auto dest: clean_token_at_kind)
    then show ?thesis by simp
  qed simp
qed

lemma character_spelled: "spelled s (scan_character_literal s start)"
proof (rule spelled_low)
  fix sc
  assume "scan_character_literal s start = Some sc"
  then obtain body where b: "scan_character_literal_body s (start + 1) = Some body"
    by (auto simp: scan_character_literal_def run_simps)
  have "tok_kind (scan_token sc) \<in> {CharacterLiteralToken, InvalidToken}"
  proof (cases body)
    case (BodyValid i)
    with b \<open>scan_character_literal s start = Some sc\<close> show ?thesis
      by (cases "get (snap_text s) i")
        (auto simp: scan_character_literal_def dest: clean_token_at_kind invalid_literal_kind(2)
          split: if_splits)
  next
    case (BodyInvalid err)
    with b \<open>scan_character_literal s start = Some sc\<close> show ?thesis
      by (auto simp: scan_character_literal_def dest: invalid_literal_kind(2))
  qed
  then show "discriminant (tok_kind (scan_token sc)) < 180" by auto
qed

lemma clean_token_spelled:
  assumes "snapshot_wf s" "boundary s start" "boundary s e"
    "\<And>t. fixed_text k = Some t \<Longrightarrow> segment (snap_text s) start e = t"
  shows "spelled s (clean_token k start e)"
  using assms(4) good_text(2) [OF assms(1-3)]
  by (auto simp: spelled_def clean_token_def make_token_def scan_clean_def run_simps)

lemma invalid_identifier_spelled: "spelled s (scan_invalid_identifier_like_token ua s start e)"
  by (rule spelled_low) (auto simp: scan_invalid_identifier_like_token_def make_token_def
      scan_with_diagnostic_def run_simps split: option.splits)

lemma identifier_spelled:
  assumes "snapshot_wf s" "boundary s start" "start < text_length s"
  shows "spelled s (scan_identifier_or_keyword ua s start)"
proof -
  let ?e = "index_while is_ascii_identifier_continue (snap_text s) start"
  let ?w = "segment (snap_text s) start ?e"
  let ?k = "case keyword_kind ?w of Some k \<Rightarrow> k | None \<Rightarrow> IdentifierToken"
  have e: "boundary s ?e"
    using assms(3) by (intro ascii_run_boundary [OF assms(1,2) identifier_run]) simp
  have w: "?w = t" if "fixed_text ?k = Some t" for t
    using that fixed_text_discriminant [of IdentifierToken]
    by (auto simp: keyword_kind_def bind_eq_Some_conv from_fixed_text_iff split: option.splits if_splits)
  have n: "text_size_from_usize ?e = Some ?e" using assms(1) boundary_le [OF e] by simp
  have le: "start \<le> ?e" by (rule index_while_ge)
  show ?thesis
    unfolding scan_identifier_or_keyword_def
  proof (rule spelled_bind)
    fix r
    assume r: "identifier_like_end ua s start = Some r"
    show "spelled s (case r of IdentifierValid e \<Rightarrow> do {
        range \<leftarrow> text_range_new start e; t \<leftarrow> token_text s range;
        clean_token (case keyword_kind t of Some k \<Rightarrow> k | None \<Rightarrow> IdentifierToken) start e }
      | IdentifierInvalid e \<Rightarrow> scan_invalid_identifier_like_token ua s start e)"
    proof (cases r)
      case (IdentifierValid e')
      with r n have "e' = ?e" by (auto simp: identifier_like_end_def run_simps split: if_splits)
      with IdentifierValid good_text [OF assms(1,2) e le] le clean_token_spelled [OF assms(1,2) e w]
      show ?thesis by (simp add: text_range_new_def)
    qed (simp add: invalid_identifier_spelled)
  qed
qed

lemma underscore_spelled:
  assumes "snapshot_wf s" "boundary s start" "start < text_length s" "at_underscore s start"
  shows "spelled s (scan_underscore_or_invalid_identifier ua s start)"
proof -
  have e: "offset_after_character start 95 = Some (Suc start)" "boundary s (Suc start)"
    using boundary_Suc [OF assms(1,3)] offset_after_ascii [OF assms(1,3)] assms(4) by auto
  have c: "snap_text s ! start = CHR ''_''"
    using assms(4) of_char_eq_iff [where 'a = nat, of "snap_text s ! start" "CHR ''_''"] by simp
  have "segment (snap_text s) start (Suc start) = ''_''"
    using assms(3) c by (simp add: segment_Cons)
  moreover have "fixed_text UnderscoreToken = Some ''_''"
    by (simp add: fixed_text_def fixed_syntax_text_def)
  ultimately have "spelled s (clean_token UnderscoreToken start (Suc start))"
    by (intro clean_token_spelled [OF assms(1,2) e(2)]) auto
  with e(1) show ?thesis
    unfolding scan_underscore_or_invalid_identifier_def
    by (auto intro!: spelled_bind invalid_identifier_spelled)
qed

lemma triple_segment:
  assumes "take 3 (drop i t) = [c, c, c]"
  shows "i + 2 < length t" "segment t i (i + 2) = [c, c]" "t ! i = c" "t ! (i + 1) = c"
proof -
  show l: "i + 2 < length t" using arg_cong [OF assms, of length] by simp
  have "take 2 (take 3 (drop i t)) = [c, c]" unfolding assms by simp
  then show "segment t i (i + 2) = [c, c]" by (simp add: segment_def)
  with l show "t ! i = c" "t ! (i + 1) = c" by (simp_all add: segment_Cons)
qed

lemma operator_spelled:
  assumes "snapshot_wf s" "boundary s start" "start < text_length s"
  shows "spelled s (scan_operator_or_punctuation_token s start)"
proof -
  let ?t = "snap_text s" and ?e = "operator_loop (snap_text s) start start"
  have run: "ascii_run ?t start ?e" using assms(3) by (intro operator_run) simp
  have e: "boundary s ?e" by (rule ascii_run_boundary [OF assms(1,2) run])
  have le: "start \<le> ?e" using ascii_run_bounds [OF run] by simp
  have n: "operator_cluster_end s start = Some ?e"
    using assms(1) boundary_le [OF e] by (simp add: operator_cluster_end_def)
  have two: "spelled s (do { e1 \<leftarrow> offset_after_character start (byte_val c);
      e \<leftarrow> offset_after_character e1 (byte_val c); clean_token k start e })"
    if "take 3 (drop start ?t) = [c, c, c]" "byte_val c < 128" "fixed_text k = Some [c, c]" for c k
  proof -
    note tr = triple_segment [OF that(1)]
    have o: "offset_after_character start (byte_val c) = Some (Suc start)"
      "offset_after_character (Suc start) (byte_val c) = Some (start + 2)"
      using tr(1) that(2) assms(3) offset_after_ascii [OF assms(1), of start "byte_val c"]
        offset_after_ascii [OF assms(1), of "Suc start" "byte_val c"] by auto
    have "boundary s (start + 2)"
      using tr that(2) boundary_Suc [OF assms(1), of "start + 1"] by simp
    then show ?thesis
      unfolding o bind.bind_lunit using tr(2) that(3) by (intro clean_token_spelled [OF assms(1,2)]) auto
  qed
  have rest: "spelled s (case operator_or_punctuation_kind (segment ?t start ?e) of
      Some k \<Rightarrow> clean_token k start ?e
    | None \<Rightarrow> invalid_token_with start ?e (invalid_operator_or_punctuation s))"
  proof (cases "operator_or_punctuation_kind (segment ?t start ?e)")
    case None
    then show ?thesis by (auto intro!: spelled_low dest: invalid_token_kind)
  next
    case (Some k)
    then have "fixed_text k = Some (segment ?t start ?e)"
      by (simp add: operator_or_punctuation_kind_def from_fixed_text_iff)
    with Some show ?thesis by (auto intro!: clean_token_spelled [OF assms(1,2) e])
  qed
  have f: "fixed_text AmpersandAmpersandToken = Some ''&&''" "fixed_text GreaterGreaterToken = Some ''>>''"
    by (simp_all add: fixed_text_def fixed_syntax_text_def)
  show ?thesis
    unfolding scan_operator_or_punctuation_token_def Let_def
    using two [of "CHR ''&''" AmpersandAmpersandToken] two [of "CHR ''>''" GreaterGreaterToken] f rest n
      good_text [OF assms(1,2) e le] assms(3) le
    by (simp add: text_range_new_def)
qed

lemma invalid_scalar_spelled: "spelled s (scan_invalid_scalar_token s start)"
  by (rule spelled_low) (auto simp: scan_invalid_scalar_token_def make_scalar_token_def make_token_def
      scan_with_diagnostic_def clean_end_of_file_def token_end_of_file_def scan_clean_def run_simps Let_def
      split: option.splits if_splits)

lemma scalar_spelled:
  assumes "snapshot_wf s" "boundary s start" "boundary s (start + len_utf8 c)"
    "offset_after_character start c = Some (start + len_utf8 c)"
    "segment (snap_text s) start (start + len_utf8 c) = encode_utf8 c" "fixed_text k = Some (encode_utf8 c)"
  shows "spelled s (clean_scalar_token k start c)"
proof -
  have "clean_scalar_token k start c = clean_token k start (start + len_utf8 c)"
    by (cases "make_token k start (start + len_utf8 c)")
      (simp_all add: clean_scalar_token_def make_scalar_token_def clean_token_def assms(4))
  moreover have "spelled s (clean_token k start (start + len_utf8 c))"
    by (rule clean_token_spelled [OF assms(1-3)]) (use assms(5,6) in simp)
  ultimately show ?thesis by simp
qed

lemma normal_token_spelled:
  assumes "snapshot_wf s" "boundary s start" "start < text_length s"
  shows "spelled s (scan_normal_token ua s start)"
proof -
  obtain c where c: "first_character s start = Some (Some c)"
    "offset_after_character start c = Some (start + len_utf8 c)" "boundary s (start + len_utf8 c)"
    "c < 128 \<longrightarrow> c = byte_at s start" "segment (snap_text s) start (start + len_utf8 c) = encode_utf8 c"
    by (rule character_at [OF assms])
  have del: "spelled s (clean_scalar_token k start c)" if "delimiter_or_separator_kind c = Some k" for k
    using that c by (intro scalar_spelled [OF assms(1,2)])
      (auto simp: delimiter_or_separator_kind_def from_fixed_character_def bind_eq_Some_conv
        from_fixed_text_iff split: if_splits)
  have bs: "spelled s (scan_string_literal s start True)"
    if "c = 98" "get (snap_text s) (start + 1) = Some (CHR 0x22)"
    using that c(4) byte_val_b by (intro string_spelled [OF assms(1,3)]) auto
  have str: "spelled s (scan_string_literal s start False)" if "c = 34"
    using that c(4) byte_val_delimiters(1) by (intro string_spelled [OF assms(1,3)]) auto
  have us: "spelled s (scan_underscore_or_invalid_identifier ua s start)" if "c = 95"
    using that c(4) by (intro underscore_spelled [OF assms]) auto
  have inv: "spelled s (do { e \<leftarrow> invalid_identifier_like_end ua s start;
      scan_invalid_identifier_like_token ua s start e })"
    by (intro spelled_bind invalid_identifier_spelled)
  show ?thesis
    using c(1) del bs str us inv numeric_spelled character_spelled identifier_spelled [OF assms]
      operator_spelled [OF assms] invalid_scalar_spelled
    by (auto simp: scan_normal_token_def split: option.split)
qed

lemma token_core_spelled:
  assumes "snapshot_wf s" "boundary s start" "start < text_length s"
  shows "spelled s (scan_token_core ua s start mode)"
proof -
  obtain c where c: "first_character s start = Some (Some c)"
    "offset_after_character start c = Some (start + len_utf8 c)" "boundary s (start + len_utf8 c)"
    "c < 128 \<longrightarrow> c = byte_at s start" "segment (snap_text s) start (start + len_utf8 c) = encode_utf8 c"
    by (rule character_at [OF assms])
  have enc: "encode_utf8 (byte_val b) = [b]" if "byte_val b < 128" for b
    using that by (simp add: encode_utf8_def)
  have f: "fixed_text GreaterToken = Some ''>''" "fixed_text AmpersandToken = Some ''&''"
    by (simp_all add: fixed_text_def fixed_syntax_text_def)
  have gt: "spelled s (clean_scalar_token GreaterToken start (byte_val (CHR ''>'')))"
    if "c = byte_val (CHR ''>'')"
    using c enc [of "CHR ''>''"] f unfolding that by (intro scalar_spelled [OF assms(1,2)]) simp_all
  have amp: "spelled s (clean_scalar_token AmpersandToken start (byte_val (CHR ''&'')))"
    if "c = byte_val (CHR ''&'')"
    using c enc [of "CHR ''&''"] f unfolding that by (intro scalar_spelled [OF assms(1,2)]) simp_all
  show ?thesis
    using c(1) gt amp normal_token_spelled [OF assms, of ua] tuple_index_spelled
    by (auto simp: scan_token_core_def scan_tuple_element_index_or_normal_def
        split: lexer_scan_mode.split)
qed

text \<open>
  C25. The kind of a token determines its text: in every scan mode, at every position inside the
  text, the scanner returns a token, and if its kind has a fixed spelling (a keyword, an operator, a
  delimiter) the text of the token is exactly that spelling.
\<close>

theorem scan_token_core_spelling:
  assumes "snapshot_wf s" "boundary s start" "start < text_length s"
  shows "\<exists>sc. scan_token_core ua s start mode = Some sc \<and> tok_start (scan_token sc) = start
    \<and> start < tok_end (scan_token sc)
    \<and> (\<forall>t. fixed_text (tok_kind (scan_token sc)) = Some t
         \<longrightarrow> token_text s (tok_range (scan_token sc)) = Some t)"
  using token_core_good [OF assms, of ua mode] token_core_spelled [OF assms, of ua mode]
  by (auto simp: good_scan_def spelled_def split: option.splits)

theorem scan_token_core_spelling_witness:
  "\<exists>sc. scan_token_core (\<lambda>_. False) (text_snapshot ''>>= x'') 0 TypePunctuation = Some sc
    \<and> tok_start (scan_token sc) = 0 \<and> 0 < tok_end (scan_token sc)"
proof -
  have "snapshot_wf (text_snapshot ''>>= x'')"
    by (rule text_snapshot_wf) (simp_all add: u32_max_def)
  from scan_token_core_spelling [OF this, of 0 "\<lambda>_. False" TypePunctuation] show ?thesis by auto
qed

subsection \<open>A token with its trivia\<close>

text \<open>
  \<open>good_token s start t\<close>: the trivia and the token tile the text from \<open>start\<close> on; a token is empty
  exactly when it is the end of file, which stands at the end of the text.
\<close>

definition good_token :: "source_snapshot \<Rightarrow> text_size \<Rightarrow> syntax_token \<Rightarrow> bool" where
  "good_token s start t \<longleftrightarrow>
     tiles (snap_text s) start (token_ranges t) (tr_end (full_range t))
     \<and> tok_presence t = Present \<and> is_token (tok_kind t)
     \<and> (\<forall>x \<in> set (leading_trivia t) \<union> set (trailing_trivia t). is_trivia (trivia_kind x))
     \<and> (if is_end_of_file t
        then tok_range t = text_range_empty (text_length s) \<and> trailing_trivia t = []
        else tok_start t < tok_end t)"

text \<open>
  \<open>good_diagnostics s t ds\<close>: no diagnostic twice; each reports the token, which is then invalid, or
  a block comment left open at the end of the text; an invalid token is reported.
\<close>

definition good_diagnostics :: "source_snapshot \<Rightarrow> syntax_token \<Rightarrow> bag \<Rightarrow> bool" where
  "good_diagnostics s t ds \<longleftrightarrow>
     distinct (map duplicate_key ds)
     \<and> (\<forall>d \<in> set ds. tok_kind t = InvalidToken \<and> reports s (tok_range t) d \<or> (\<exists>r. open_comment s r d))
     \<and> (tok_kind t = InvalidToken \<longrightarrow> (\<exists>d \<in> set ds. reports s (tok_range t) d))"

lemma duplicate_key_fields:
  assumes "duplicate_key d = duplicate_key d'"
  shows "diag_kind d = diag_kind d'" "diag_severity d = diag_severity d'"
    "diag_primary_span d = diag_primary_span d'" "diag_labels d = diag_labels d'"
  using assms by (cases d; cases d'; simp add: duplicate_key_def)+

lemma reports_key:
  assumes "duplicate_key d = duplicate_key d'" "reports s r d" "reports s r' d'"
  shows "reports s r d'"
proof -
  from assms duplicate_key_fields [OF assms(1)] have "diag_span s r = diag_span s r'"
    by (simp add: reports_def)
  then have "r = r'" by (simp add: diag_span_def)
  with assms(3) show ?thesis by simp
qed

lemma merged_reports:
  assumes "d \<in> set a \<union> set b" "reports s r d" "\<forall>d \<in> set a \<union> set b. \<exists>r. reports s r d"
  shows "\<exists>d' \<in> set (merged a b). reports s r d'"
proof -
  have "duplicate_key d \<in> duplicate_key ` set (merged a b)"
    using assms(1) bag_merge_keys [of duplicate_key a b] by (auto simp: merged_def)
  then obtain d' where d': "d' \<in> set (merged a b)" "duplicate_key d = duplicate_key d'" by auto
  moreover obtain r' where "reports s r' d'"
    using assms(3) d'(1) bag_merge_subset [of duplicate_key a b] by (auto simp: merged_def)
  ultimately show ?thesis using reports_key [OF _ assms(2)] by blast
qed

lemma merged_facts:
  "distinct (map duplicate_key a) \<Longrightarrow> distinct (map duplicate_key b)
    \<Longrightarrow> distinct (map duplicate_key (merged a b))"
  "set (merged a b) \<subseteq> set a \<union> set b"
  unfolding merged_def by (simp_all add: bag_merge_distinct bag_merge_subset)

lemma merged_good_diagnostics:
  assumes "good_diagnostics s t ds" "distinct (map duplicate_key es)" "\<forall>d \<in> set es. \<exists>r. open_comment s r d"
  shows "good_diagnostics s t (merged es ds)" "good_diagnostics s t (merged ds es)"
proof -
  have all: "\<forall>d \<in> set es \<union> set ds. \<exists>r. reports s r d"
    using assms by (auto simp: good_diagnostics_def open_comment_def)
  then have all': "\<forall>d \<in> set ds \<union> set es. \<exists>r. reports s r d" by blast
  show "good_diagnostics s t (merged es ds)"
    using assms merged_facts [of es ds] merged_reports [OF _ _ all]
    unfolding good_diagnostics_def by (meson UnE UnI2 in_mono)
  show "good_diagnostics s t (merged ds es)"
    using assms merged_facts [of ds es] merged_reports [OF _ _ all']
    unfolding good_diagnostics_def by (meson UnE UnI1 in_mono)
qed

lemma scan_token_at_good:
  assumes "snapshot_wf s" "boundary s start"
  shows "\<exists>sc. scan_token_at ua s start mode = Some sc \<and> good_token s start (scan_token sc)
    \<and> good_diagnostics s (scan_token sc) (scan_diagnostics sc)"
proof -
  from leading_trivia_good [OF assms] obtain lead where lead: "scan_leading_trivia s start = Some lead"
    "good_trivia s start lead" "boundary s (scan_end lead)" by blast
  have st: "\<not> snap_text_len s < start" using assms(1) boundary_le [OF assms(2)] by simp
  note tl = lead(2) [unfolded good_trivia_def]
  show ?thesis
  proof (cases "scan_end lead = text_length s")
    case True
    let ?t = "\<lparr>tok_kind = EndOfFileToken, tok_range = text_range_empty (text_length s),
      tok_presence = Present, leading_trivia = scan_trivia lead, trailing_trivia = []\<rparr>"
    have tt: "tiles (snap_text s) start (token_ranges ?t) (text_length s)"
      using tl True by (simp add: token_ranges_def tiles_append text_range_empty_def)
    then have "good_token s start ?t"
      using tl full_range_tiles [OF tt] by (simp add: good_token_def is_end_of_file_def)
    moreover have "good_diagnostics s ?t (trivia_diagnostics lead)"
      using tl by (auto simp: good_diagnostics_def)
    moreover have "scan_token_at ua s start mode
        = Some (scan_with_diagnostics ?t (trivia_diagnostics lead))"
      using lead(1) st True assms(1)
      by (simp add: scan_token_at_def token_end_of_file_def token_new_def
          token_with_trivia_def token_with_trivia_and_presence_def with_leading_trivia_def)
    ultimately show ?thesis by (simp add: scan_with_diagnostics_def)
  next
    case False
    with boundary_le [OF lead(3)] have l: "scan_end lead < text_length s" by simp
    from token_core_good [OF assms(1) lead(3) l, of ua mode] obtain core
      where core: "scan_token_core ua s (scan_end lead) mode = Some core"
        and g: "good_scan s (scan_end lead) (Some core)"
      by (auto simp: good_scan_def split: option.splits)
    let ?k = "scan_token core"
    from g have b: "boundary s (tok_end ?k)" and lt: "tok_start ?k < tok_end ?k"
      and ts: "tok_start ?k = scan_end lead" and kind: "is_token (tok_kind ?k)" "tok_kind ?k \<noteq> EndOfFileToken"
      and p: "tok_presence ?k = Present" by (auto simp: good_scan_def)
    from trailing_trivia_good [OF assms(1) b] obtain trail
      where trail: "scan_trailing_trivia s (tok_end ?k) = Some trail" "good_trivia s (tok_end ?k) trail"
        "boundary s (scan_end trail)" by blast
    note tr = trail(2) [unfolded good_trivia_def]
    define kept where "kept = (if reached_eof trail then [] else scan_trivia trail)"
    let ?t = "?k\<lparr>leading_trivia := scan_trivia lead, trailing_trivia := kept\<rparr>"
    let ?ds = "merged (merged (trivia_diagnostics lead) (scan_diagnostics core)) (trivia_diagnostics trail)"
    have "\<exists>e. tiles (snap_text s) (tok_end ?k) (map trivia_range kept) e"
      using tr b by (auto simp: kept_def)
    then obtain e where e: "tiles (snap_text s) start (token_ranges ?t) e"
      using tl lead(3) ts lt by (auto simp: token_ranges_def tiles_append)
    have "good_token s start ?t"
      using e full_range_tiles [OF e] kind p lt tl tr
      by (auto simp: good_token_def is_end_of_file_def kept_def split: if_splits)
    moreover have "good_diagnostics s ?t ?ds"
    proof -
      have "distinct (map duplicate_key (scan_diagnostics core))"
        using g by (cases "scan_diagnostics core") (auto simp: good_scan_def)
      moreover have "tok_kind ?k = InvalidToken \<and> reports s (tok_range ?k) d"
        if "d \<in> set (scan_diagnostics core)" for d
        using that g by (auto simp: good_scan_def)
      moreover have "\<exists>d \<in> set (scan_diagnostics core). reports s (tok_range ?k) d"
        if "tok_kind ?k = InvalidToken"
        using that g by (cases "scan_diagnostics core") (auto simp: good_scan_def)
      ultimately have "good_diagnostics s ?t (scan_diagnostics core)"
        by (simp add: good_diagnostics_def)
      then show ?thesis
        using tl tr by (intro merged_good_diagnostics) auto
    qed
    moreover have "?k\<lparr>leading_trivia := scan_trivia lead, trailing_trivia := []\<rparr>
        = ?k\<lparr>leading_trivia := scan_trivia lead\<rparr>"
      using g by (cases ?k) (simp add: good_scan_def)
    then have "scan_token_at ua s start mode = Some (scan_with_diagnostics ?t ?ds)"
      using lead(1) st False assms(1) core trail(1) p
      by (simp add: scan_token_at_def with_leading_trivia_def with_trailing_trivia_def kept_def Let_def)
    ultimately show ?thesis by (simp add: scan_with_diagnostics_def)
  qed
qed

end
