(* ===== verification/Lexer_Stream.thy ===== *)
theory Lexer_Stream
  imports Lexer_Scanner
begin

text \<open>
  The lazy token source with its two cache policies (\<open>crates/bray-parser/src/lexer/token_source.rs\<close>)
  and the lexing of a source unit (\<open>stream.rs\<close>). An operation on \<open>&mut self\<close> takes the token source
  and returns it updated. The lemmas relate the cached operations to the ones that scan again for
  every request, and show that lexing a well-formed snapshot ends, loses no text and reports every
  invalid token.
\<close>

datatype lexer_cache_policy = CacheTokens | DoNotCacheTokens

record lexer_token_source =
  src_snapshot :: source_snapshot
  src_cursor :: text_size
  src_cache_policy :: lexer_cache_policy
  src_cached_tokens :: "syntax_token list"
  src_diagnostics :: bag

type_synonym 'a lexing = "('a \<times> lexer_token_source) run"

definition with_cache_policy :: "source_snapshot \<Rightarrow> lexer_cache_policy \<Rightarrow> lexer_token_source" where
  "with_cache_policy s policy = \<lparr>src_snapshot = s, src_cursor = 0, src_cache_policy = policy,
     src_cached_tokens = [], src_diagnostics = []\<rparr>"

definition token_source_new :: "source_snapshot \<Rightarrow> lexer_token_source" where
  "token_source_new s = with_cache_policy s CacheTokens"

subsection \<open>Scanning\<close>

definition record_diagnostics :: "bag \<Rightarrow> lexer_token_source \<Rightarrow> lexer_token_source" where
  "record_diagnostics ds src =
     (if ds = [] then src else src\<lparr>src_diagnostics := merged (src_diagnostics src) ds\<rparr>)"

definition source_scan_token_at ::
    "unicode_alphanumeric \<Rightarrow> lexer_token_source \<Rightarrow> text_size \<Rightarrow> lexer_scan_mode \<Rightarrow> syntax_token lexing" where
  "source_scan_token_at ua src offset mode = do {
     scan \<leftarrow> scan_token_at ua (src_snapshot src) offset mode;
     Some (scan_token scan, record_diagnostics (scan_diagnostics scan) src)
   }"

definition fill_with_eof :: "syntax_token list \<Rightarrow> nat \<Rightarrow> text_size \<Rightarrow> syntax_token list run" where
  "fill_with_eof tokens len offset = do {
     eof \<leftarrow> token_end_of_file offset;
     Some (tokens @ replicate (len - length tokens) eof)
   }"

abbreviation full_end :: "syntax_token \<Rightarrow> text_size" where
  "full_end t \<equiv> tr_end (full_range t)"

partial_function (option) ensure_cached ::
    "unicode_alphanumeric \<Rightarrow> lexer_token_source \<Rightarrow> nat \<Rightarrow> lexer_token_source run" where
  "ensure_cached ua src distance =
     (if length (src_cached_tokens src) \<le> distance then
        (if src_cached_tokens src \<noteq> [] \<and> is_end_of_file (last (src_cached_tokens src)) then do {
           tokens \<leftarrow> fill_with_eof (src_cached_tokens src) (distance + 1)
             (tok_start (last (src_cached_tokens src)));
           Some (src\<lparr>src_cached_tokens := tokens\<rparr>)
         }
         else do {
           (token, src') \<leftarrow> source_scan_token_at ua src
             (if src_cached_tokens src = [] then src_cursor src
              else full_end (last (src_cached_tokens src))) Normal;
           ensure_cached ua (src'\<lparr>src_cached_tokens := src_cached_tokens src' @ [token]\<rparr>) distance
         })
      else Some src)"

declare ensure_cached.simps [code]

subsection \<open>Lookahead\<close>

definition cached_lookahead ::
    "unicode_alphanumeric \<Rightarrow> lexer_token_source \<Rightarrow> nat \<Rightarrow> syntax_token lexing" where
  "cached_lookahead ua src distance = do {
     src' \<leftarrow> ensure_cached ua src distance;
     case get (src_cached_tokens src') distance of
       Some token \<Rightarrow> Some (token, src')
     | None \<Rightarrow> panic
   }"

fun uncached_loop ::
    "unicode_alphanumeric \<Rightarrow> lexer_token_source \<Rightarrow> syntax_token \<Rightarrow> nat \<Rightarrow> syntax_token lexing" where
  "uncached_loop ua src token 0 = Some (token, src)"
| "uncached_loop ua src token (Suc n) =
     (if is_end_of_file token then Some (token, src)
      else do {
        (token', src') \<leftarrow> source_scan_token_at ua src (full_end token) Normal;
        uncached_loop ua src' token' n
      })"

definition uncached_lookahead ::
    "unicode_alphanumeric \<Rightarrow> lexer_token_source \<Rightarrow> nat \<Rightarrow> syntax_token lexing" where
  "uncached_lookahead ua src distance = do {
     (token, src') \<leftarrow> source_scan_token_at ua src (src_cursor src) Normal;
     uncached_loop ua src' token distance
   }"

definition lookahead ::
    "unicode_alphanumeric \<Rightarrow> lexer_token_source \<Rightarrow> nat \<Rightarrow> syntax_token lexing" where
  "lookahead ua src distance = (case src_cache_policy src of
     CacheTokens \<Rightarrow> cached_lookahead ua src distance
   | DoNotCacheTokens \<Rightarrow> uncached_lookahead ua src distance)"

definition peek :: "unicode_alphanumeric \<Rightarrow> lexer_token_source \<Rightarrow> syntax_token lexing" where
  "peek ua src = lookahead ua src 0"

definition cached_lookahead_window ::
    "unicode_alphanumeric \<Rightarrow> lexer_token_source \<Rightarrow> nat \<Rightarrow> syntax_token list lexing" where
  "cached_lookahead_window ua src len = do {
     src' \<leftarrow> ensure_cached ua src (len - 1);
     Some (take len (src_cached_tokens src'), src')
   }"

partial_function (option) window_loop ::
    "unicode_alphanumeric \<Rightarrow> lexer_token_source \<Rightarrow> nat \<Rightarrow> syntax_token list \<Rightarrow> text_size
     \<Rightarrow> syntax_token list lexing" where
  "window_loop ua src len tokens offset =
     (if length tokens < len then do {
        (token, src') \<leftarrow> source_scan_token_at ua src offset Normal;
        (if is_end_of_file token then do {
           filled \<leftarrow> fill_with_eof (tokens @ [token]) len (full_end token);
           Some (filled, src')
         }
         else window_loop ua src' len (tokens @ [token]) (full_end token))
      }
      else Some (tokens, src))"

declare window_loop.simps [code]

definition uncached_lookahead_window ::
    "unicode_alphanumeric \<Rightarrow> lexer_token_source \<Rightarrow> nat \<Rightarrow> syntax_token list lexing" where
  "uncached_lookahead_window ua src len = window_loop ua src len [] (src_cursor src)"

definition lookahead_window ::
    "unicode_alphanumeric \<Rightarrow> lexer_token_source \<Rightarrow> nat \<Rightarrow> syntax_token list lexing" where
  "lookahead_window ua src len =
     (if len = 0 then Some ([], src)
      else case src_cache_policy src of
        CacheTokens \<Rightarrow> cached_lookahead_window ua src len
      | DoNotCacheTokens \<Rightarrow> uncached_lookahead_window ua src len)"

subsection \<open>Consuming\<close>

definition advance_after_consuming :: "syntax_token \<Rightarrow> lexer_token_source \<Rightarrow> lexer_token_source" where
  "advance_after_consuming token src =
     (if is_end_of_file token then src\<lparr>src_cursor := full_end token\<rparr>
      else if src_cache_policy src = CacheTokens \<and> src_cached_tokens src \<noteq> []
        then src\<lparr>src_cursor := full_end token, src_cached_tokens := tl (src_cached_tokens src)\<rparr>
      else src\<lparr>src_cursor := full_end token\<rparr>)"

definition consume :: "unicode_alphanumeric \<Rightarrow> lexer_token_source \<Rightarrow> syntax_token lexing" where
  "consume ua src = do {
     (token, src') \<leftarrow> lookahead ua src 0;
     Some (token, advance_after_consuming token src')
   }"

definition consume_with_mode ::
    "unicode_alphanumeric \<Rightarrow> lexer_token_source \<Rightarrow> lexer_scan_mode \<Rightarrow> syntax_token lexing" where
  "consume_with_mode ua src mode = do {
     (token, src') \<leftarrow> source_scan_token_at ua (src\<lparr>src_cached_tokens := []\<rparr>) (src_cursor src) mode;
     Some (token, src'\<lparr>src_cursor := full_end token\<rparr>)
   }"

definition consume_tuple_element_index_after_dot ::
    "unicode_alphanumeric \<Rightarrow> lexer_token_source \<Rightarrow> syntax_token lexing" where
  "consume_tuple_element_index_after_dot ua src = consume_with_mode ua src TupleElementIndexAfterDot"

definition consume_type_punctuation ::
    "unicode_alphanumeric \<Rightarrow> lexer_token_source \<Rightarrow> syntax_token lexing" where
  "consume_type_punctuation ua src = consume_with_mode ua src TypePunctuation"

definition at_generic_close :: "lexer_token_source \<Rightarrow> bool run" where
  "at_generic_close src = do {
     lead \<leftarrow> scan_leading_trivia (src_snapshot src) (src_cursor src);
     oc \<leftarrow> first_character (src_snapshot src) (scan_end lead);
     Some (oc = Some (byte_val (CHR ''>'')))
   }"

subsection \<open>Lexing a source unit\<close>

record lex_result =
  lex_tokens :: "syntax_token list"
  lex_diagnostics :: bag

partial_function (option) drain_loop ::
    "unicode_alphanumeric \<Rightarrow> lexer_token_source \<Rightarrow> syntax_token list \<Rightarrow> syntax_token list lexing" where
  "drain_loop ua src tokens = do {
     (token, src') \<leftarrow> consume ua src;
     (if is_end_of_file token then Some (tokens @ [token], src')
      else drain_loop ua src' (tokens @ [token]))
   }"

declare drain_loop.simps [code]

definition drain_tokens :: "unicode_alphanumeric \<Rightarrow> lexer_token_source \<Rightarrow> syntax_token list lexing" where
  "drain_tokens ua src = drain_loop ua src []"

definition lex_source_unit :: "unicode_alphanumeric \<Rightarrow> source_snapshot \<Rightarrow> lex_result run" where
  "lex_source_unit ua s = do {
     (tokens, src) \<leftarrow> drain_tokens ua (token_source_new s);
     Some \<lparr>lex_tokens = tokens, lex_diagnostics = src_diagnostics src\<rparr>
   }"

subsection \<open>The token at a position\<close>

definition token_at :: "unicode_alphanumeric \<Rightarrow> source_snapshot \<Rightarrow> text_size \<Rightarrow> syntax_token" where
  "token_at ua s i = scan_token (the (scan_token_at ua s i Normal))"

definition diagnostics_at :: "unicode_alphanumeric \<Rightarrow> source_snapshot \<Rightarrow> text_size \<Rightarrow> bag" where
  "diagnostics_at ua s i = scan_diagnostics (the (scan_token_at ua s i Normal))"

lemma token_at_good:
  assumes "snapshot_wf s" "boundary s i"
  shows "good_token s i (token_at ua s i)"
    and "good_diagnostics s (token_at ua s i) (diagnostics_at ua s i)"
  using scan_token_at_good [OF assms, of ua Normal] by (auto simp: token_at_def diagnostics_at_def)

lemma source_scan_token:
  assumes "snapshot_wf (src_snapshot src)" "boundary (src_snapshot src) i"
  shows "source_scan_token_at ua src i Normal
    = Some (token_at ua (src_snapshot src) i,
        record_diagnostics (diagnostics_at ua (src_snapshot src) i) src)"
  using scan_token_at_good [OF assms, of ua Normal]
  by (auto simp: source_scan_token_at_def token_at_def diagnostics_at_def)

lemma record_diagnostics_simps [simp]:
  "src_snapshot (record_diagnostics ds src) = src_snapshot src"
  "src_cursor (record_diagnostics ds src) = src_cursor src"
  "src_cache_policy (record_diagnostics ds src) = src_cache_policy src"
  "src_cached_tokens (record_diagnostics ds src) = src_cached_tokens src"
  "src_diagnostics (record_diagnostics ds src) = merged (src_diagnostics src) ds"
  by (simp_all add: record_diagnostics_def merged_def)

definition bare_eof :: "text_size \<Rightarrow> syntax_token" where
  "bare_eof n = \<lparr>tok_kind = EndOfFileToken, tok_range = text_range_empty n, tok_presence = Present,
     leading_trivia = [], trailing_trivia = []\<rparr>"

lemma token_end_of_file_simp [simp]: "token_end_of_file n = Some (bare_eof n)"
  by (simp add: token_end_of_file_def bare_eof_def)

lemma good_token_end:
  assumes "good_token s i t"
  shows "boundary s (full_end t)" "full_end t \<le> text_length s"
    "is_end_of_file t \<Longrightarrow> full_end t = text_length s \<and> tok_start t = text_length s"
    "\<not> is_end_of_file t \<Longrightarrow> i < full_end t"
proof -
  from assms have tl: "tiles (snap_text s) i (token_ranges t) (full_end t)" by (simp add: good_token_def)
  then show b: "boundary s (full_end t)" "full_end t \<le> text_length s"
    using tiles_bounds [OF tl] boundary_le by auto
  from tl obtain a where a: "tiles (snap_text s) i (map trivia_range (leading_trivia t)) a"
    "tok_start t = a" "tiles (snap_text s) (tok_end t) (map trivia_range (trailing_trivia t)) (full_end t)"
    by (auto simp: token_ranges_def tiles_append)
  show "full_end t = text_length s \<and> tok_start t = text_length s" if "is_end_of_file t"
    using that assms a(3) by (simp add: good_token_def text_range_empty_def)
  show "i < full_end t" if "\<not> is_end_of_file t"
    using that assms tiles_bounds [OF a(1)] tiles_bounds [OF a(3)] a(2) by (auto simp: good_token_def)
qed

text \<open>The operations keep the source, its position and its policy.\<close>

definition same_position :: "lexer_token_source \<Rightarrow> lexer_token_source \<Rightarrow> bool" where
  "same_position src src' \<longleftrightarrow> src_snapshot src' = src_snapshot src \<and> src_cursor src' = src_cursor src
     \<and> src_cache_policy src' = src_cache_policy src"

lemma consume_fresh:
  assumes "snapshot_wf (src_snapshot src)" "boundary (src_snapshot src) (src_cursor src)"
    "src_cached_tokens src = []"
  shows "let t = token_at ua (src_snapshot src) (src_cursor src) in
    consume ua src = Some (t, record_diagnostics (diagnostics_at ua (src_snapshot src) (src_cursor src))
      src\<lparr>src_cursor := full_end t, src_cached_tokens :=
        (if src_cache_policy src = CacheTokens \<and> is_end_of_file t then [t] else [])\<rparr>)"
proof -
  let ?t = "token_at ua (src_snapshot src) (src_cursor src)"
  note scan = source_scan_token [OF assms(1,2), of ua]
  have "lookahead ua src 0 = Some (?t, (record_diagnostics
      (diagnostics_at ua (src_snapshot src) (src_cursor src)) src)\<lparr>src_cached_tokens :=
        (if src_cache_policy src = CacheTokens then [?t] else [])\<rparr>)"
  proof (cases "src_cache_policy src")
    case CacheTokens
    then show ?thesis
      using scan assms(3)
      by (simp add: lookahead_def cached_lookahead_def ensure_cached.simps get_def)
  next
    case DoNotCacheTokens
    then show ?thesis
      using scan assms(3)
      by (simp add: lookahead_def uncached_lookahead_def)
  qed
  then show ?thesis
    by (cases "src_cache_policy src")
      (auto simp: consume_def advance_after_consuming_def record_diagnostics_def Let_def)
qed

subsection \<open>The token stream of a text\<close>

fun lexed :: "unicode_alphanumeric \<Rightarrow> source_snapshot \<Rightarrow> text_size \<Rightarrow> syntax_token list \<Rightarrow> bool" where
  "lexed ua s i [] \<longleftrightarrow> False"
| "lexed ua s i (t # ts) \<longleftrightarrow>
     t = token_at ua s i \<and> (if is_end_of_file t then ts = [] else lexed ua s (full_end t) ts)"

text \<open>What the diagnostics of a run over the tokens \<open>ts\<close> are.\<close>

definition stream_diagnostics :: "source_snapshot \<Rightarrow> syntax_token list \<Rightarrow> bag \<Rightarrow> bool" where
  "stream_diagnostics s ts ds \<longleftrightarrow>
     distinct (map duplicate_key ds)
     \<and> (\<forall>d \<in> set ds. (\<exists>t \<in> set ts. tok_kind t = InvalidToken \<and> reports s (tok_range t) d)
          \<or> (\<exists>r. open_comment s r d))
     \<and> (\<forall>t \<in> set ts. tok_kind t = InvalidToken \<longrightarrow> (\<exists>d \<in> set ds. reports s (tok_range t) d))"

lemma stream_diagnostics_step:
  assumes "stream_diagnostics s ts ds" "good_diagnostics s t es"
  shows "stream_diagnostics s (ts @ [t]) (merged ds es)"
proof -
  have all: "\<forall>d \<in> set ds \<union> set es. \<exists>r. reports s r d"
    using assms by (auto simp: stream_diagnostics_def good_diagnostics_def open_comment_def)
  have "distinct (map duplicate_key (merged ds es))"
    using assms by (intro merged_facts) (auto simp: stream_diagnostics_def good_diagnostics_def)
  moreover have "(\<exists>x \<in> set (ts @ [t]). tok_kind x = InvalidToken \<and> reports s (tok_range x) d)
      \<or> (\<exists>r. open_comment s r d)" if "d \<in> set (merged ds es)" for d
    using that merged_facts(2) [of ds es] assms
    by (auto simp: stream_diagnostics_def good_diagnostics_def)
  moreover have "\<exists>d \<in> set (merged ds es). reports s (tok_range x) d"
    if x: "x \<in> set (ts @ [t])" "tok_kind x = InvalidToken" for x
  proof -
    have "\<exists>d \<in> set ds \<union> set es. reports s (tok_range x) d"
      using x assms unfolding stream_diagnostics_def good_diagnostics_def
      by (cases "x = t") (simp, blast)+
    with merged_reports [OF _ _ all] show ?thesis by blast
  qed
  ultimately show ?thesis by (simp add: stream_diagnostics_def)
qed

lemma drain_loop_spec:
  assumes "snapshot_wf (src_snapshot src)" "boundary (src_snapshot src) (src_cursor src)"
    "src_cached_tokens src = []" "stream_diagnostics (src_snapshot src) acc (src_diagnostics src)"
  shows "\<exists>ts src'. drain_loop ua src acc = Some (acc @ ts, src')
    \<and> lexed ua (src_snapshot src) (src_cursor src) ts
    \<and> stream_diagnostics (src_snapshot src) (acc @ ts) (src_diagnostics src')"
  using assms
proof (induction "text_length (src_snapshot src) - src_cursor src" arbitrary: src acc rule: less_induct)
  case less
  let ?s = "src_snapshot src" and ?i = "src_cursor src"
  let ?t = "token_at ua ?s ?i"
  note good = token_at_good [OF less.prems(1,2), of ua]
  note good_end = good_token_end [OF good(1)]
  obtain src' where c: "consume ua src = Some (?t, src')" "src_snapshot src' = ?s"
    "src_cursor src' = full_end ?t" "src_diagnostics src' = merged (src_diagnostics src) (diagnostics_at ua ?s ?i)"
    "\<not> is_end_of_file ?t \<longrightarrow> src_cached_tokens src' = []"
    using consume_fresh [OF less.prems(1-3), of ua] by (auto simp: Let_def)
  have ds: "stream_diagnostics ?s (acc @ [?t]) (src_diagnostics src')"
    unfolding c(4) by (rule stream_diagnostics_step [OF less.prems(4) good(2)])
  show ?case
  proof (cases "is_end_of_file ?t")
    case True
    with c ds show ?thesis
      by (intro exI [of _ "[?t]"] exI [of _ src']) (simp add: drain_loop.simps [of ua src acc])
  next
    case False
    with good_end have "?i < full_end ?t" "full_end ?t \<le> text_length ?s" by auto
    then have "text_length (src_snapshot src') - src_cursor src' < text_length ?s - ?i"
      using c by simp
    from less.hyps [OF this, of "acc @ [?t]"] less.prems(1) c ds good_end(1) False
    obtain ts src'' where "drain_loop ua src' (acc @ [?t]) = Some ((acc @ [?t]) @ ts, src'')"
      "lexed ua ?s (full_end ?t) ts" "stream_diagnostics ?s ((acc @ [?t]) @ ts) (src_diagnostics src'')"
      by auto
    with False c show ?thesis
      by (intro exI [of _ "?t # ts"] exI [of _ src'']) (simp add: drain_loop.simps [of ua src acc])
  qed
qed

lemma lex_source_unit_spec:
  assumes "snapshot_wf s"
  shows "\<exists>r. lex_source_unit ua s = Some r \<and> lexed ua s 0 (lex_tokens r)
    \<and> stream_diagnostics s (lex_tokens r) (lex_diagnostics r)"
proof -
  have "stream_diagnostics s [] []" by (simp add: stream_diagnostics_def)
  with drain_loop_spec [of "token_source_new s" "[]" ua] assms show ?thesis
    by (fastforce simp: lex_source_unit_def drain_tokens_def token_source_new_def with_cache_policy_def)
qed

lemma lexed_tiles:
  assumes "snapshot_wf s"
  shows "boundary s i \<Longrightarrow> lexed ua s i ts
    \<Longrightarrow> tiles (snap_text s) i (concat (map token_ranges ts)) (text_length s)"
proof (induction ts arbitrary: i)
  case (Cons t ts)
  note good = token_at_good(1) [OF assms Cons.prems(1), of ua]
  from Cons.prems have t: "t = token_at ua s i" by simp
  from good have tl: "tiles (snap_text s) i (token_ranges t) (full_end t)"
    by (simp add: good_token_def t)
  show ?case
  proof (cases "is_end_of_file t")
    case True
    with Cons.prems tl good_token_end(3) [OF good] t show ?thesis by simp
  next
    case False
    with Cons good_token_end(1) [OF good] t tl show ?thesis by (auto simp: tiles_append)
  qed
qed simp

lemma lexed_eof: "lexed ua s i ts \<Longrightarrow> ts \<noteq> [] \<and> is_end_of_file (last ts)
    \<and> (\<forall>t \<in> set (butlast ts). \<not> is_end_of_file t)"
  by (induction ts arbitrary: i) (auto split: if_splits)

text \<open>
  C1. Lexing is total and lossless: on every well-formed snapshot it returns (it neither panics nor
  runs forever, whatever the text), the token ranges and trivia ranges tile the text without gap or
  overlap, the texts of the tokens with their trivia concatenate to the source, and the stream
  ends with its only end-of-file token.
\<close>

theorem lex_source_unit_lossless:
  assumes "snapshot_wf s"
  shows "\<exists>r. lex_source_unit ua s = Some r
    \<and> full_texts (snap_text s) (lex_tokens r) = Some (snap_text s)
    \<and> tiles (snap_text s) 0 (concat (map token_ranges (lex_tokens r))) (text_length s)
    \<and> lex_tokens r \<noteq> [] \<and> is_end_of_file (last (lex_tokens r))
    \<and> (\<forall>t \<in> set (butlast (lex_tokens r)). \<not> is_end_of_file t)"
proof -
  from lex_source_unit_spec [OF assms] obtain r
    where r: "lex_source_unit ua s = Some r" "lexed ua s 0 (lex_tokens r)" by blast
  have t: "tiles (snap_text s) 0 (concat (map token_ranges (lex_tokens r))) (text_length s)"
    by (rule lexed_tiles [OF assms _ r(2)]) simp
  from r t tiles_full_texts [OF t] lexed_eof [OF r(2)] show ?thesis by auto
qed

theorem lex_source_unit_lossless_witness:
  "\<exists>r. lex_source_unit (\<lambda>_. False) (text_snapshot ''let x = 1 // one'') = Some r
    \<and> full_texts ''let x = 1 // one'' (lex_tokens r) = Some ''let x = 1 // one''"
proof -
  have "snapshot_wf (text_snapshot ''let x = 1 // one'')"
    by (rule text_snapshot_wf) (simp_all add: u32_max_def)
  from lex_source_unit_lossless [OF this, of "\<lambda>_. False"] show ?thesis by auto
qed

text \<open>
  C2. Lexical errors are reported exactly: no diagnostic appears twice; every invalid token of the
  stream is reported by an error whose span is the token; and every diagnostic reports an invalid
  token of the stream or a block comment left open at the end of the text.
\<close>

theorem lex_source_unit_diagnostics:
  assumes "snapshot_wf s"
  shows "\<exists>r. lex_source_unit ua s = Some r
    \<and> distinct (map duplicate_key (lex_diagnostics r))
    \<and> (\<forall>t \<in> set (lex_tokens r). tok_kind t = InvalidToken
         \<longrightarrow> (\<exists>d \<in> set (lex_diagnostics r). reports s (tok_range t) d))
    \<and> (\<forall>d \<in> set (lex_diagnostics r).
         (\<exists>t \<in> set (lex_tokens r). tok_kind t = InvalidToken \<and> reports s (tok_range t) d)
         \<or> (\<exists>r. open_comment s r d))"
  using lex_source_unit_spec [OF assms, of ua] by (auto simp: stream_diagnostics_def)

theorem lex_source_unit_diagnostics_witness:
  "\<exists>r. lex_source_unit (\<lambda>_. False) (text_snapshot ''x = 1__0 /* a'') = Some r
    \<and> distinct (map duplicate_key (lex_diagnostics r))"
proof -
  have "snapshot_wf (text_snapshot ''x = 1__0 /* a'')"
    by (rule text_snapshot_wf) (simp_all add: u32_max_def)
  from lex_source_unit_diagnostics [OF this, of "\<lambda>_. False"] show ?thesis by blast
qed

subsection \<open>The upcoming tokens\<close>

text \<open>
  The reference for every lookahead: the token \<open>k\<close> positions after \<open>i\<close>, scanned without any state.
  Past the end it is the end-of-file token; implementations may return that token without the
  trivia in front of it, so they are compared after \<open>strip_eof\<close>.
\<close>

fun upcoming :: "unicode_alphanumeric \<Rightarrow> source_snapshot \<Rightarrow> text_size \<Rightarrow> nat \<Rightarrow> syntax_token" where
  "upcoming ua s i 0 = token_at ua s i"
| "upcoming ua s i (Suc k) =
     (if is_end_of_file (token_at ua s i) then token_at ua s i
      else upcoming ua s (full_end (token_at ua s i)) k)"

definition strip_eof :: "syntax_token \<Rightarrow> syntax_token" where
  "strip_eof t = (if is_end_of_file t then t\<lparr>leading_trivia := []\<rparr> else t)"

lemma strip_eof_eof [simp]: "is_end_of_file (strip_eof t) = is_end_of_file t"
  by (simp add: strip_eof_def is_end_of_file_def)

lemma strip_eof_range: "tok_range (strip_eof t) = tok_range t"
  by (simp add: strip_eof_def)

lemma strip_eof_cong:
  assumes "strip_eof t = strip_eof u"
  shows "is_end_of_file t = is_end_of_file u" "\<not> is_end_of_file u \<Longrightarrow> t = u" "tok_range t = tok_range u"
proof -
  show k: "is_end_of_file t = is_end_of_file u" by (metis assms strip_eof_eof)
  show "t = u" if "\<not> is_end_of_file u"
  proof -
    from that k have "strip_eof t = t" "strip_eof u = u" by (simp_all add: strip_eof_def)
    with assms show ?thesis by simp
  qed
  show "tok_range t = tok_range u" by (metis assms strip_eof_range)
qed

lemma good_token_eof: "good_token s i t \<Longrightarrow> is_end_of_file t \<Longrightarrow> strip_eof t = bare_eof (text_length s)"
  by (cases t) (auto simp: good_token_def strip_eof_def bare_eof_def is_end_of_file_def)

lemma strip_bare_eof [simp]: "strip_eof (bare_eof n) = bare_eof n" "is_end_of_file (bare_eof n)"
  by (simp_all add: strip_eof_def bare_eof_def is_end_of_file_def)

lemma upcoming_good:
  assumes "snapshot_wf s"
  shows "boundary s i \<Longrightarrow> \<exists>j. boundary s j \<and> upcoming ua s i k = token_at ua s j \<and> good_token s j (upcoming ua s i k)"
proof (induction k arbitrary: i)
  case (Suc k)
  note good = token_at_good(1) [OF assms Suc.prems, of ua]
  show ?case
  proof (cases "is_end_of_file (token_at ua s i)")
    case False
    with Suc.IH [OF good_token_end(1) [OF good]] show ?thesis by simp
  qed (use Suc.prems good in auto)
qed (use token_at_good(1) [OF assms] in auto)

lemma upcoming_eof: "is_end_of_file (upcoming ua s i k) \<Longrightarrow> k \<le> m \<Longrightarrow> upcoming ua s i m = upcoming ua s i k"
proof (induction k arbitrary: i m)
  case 0
  then show ?case by (cases m) auto
next
  case (Suc k)
  from Suc.prems(2) obtain m' where m: "m = Suc m'" "k \<le> m'" by (cases m) auto
  show ?case
  proof (cases "is_end_of_file (token_at ua s i)")
    case True
    with m(1) show ?thesis by simp
  next
    case False
    with Suc.prems(1) have "is_end_of_file (upcoming ua s (full_end (token_at ua s i)) k)" by simp
    from Suc.IH [OF this m(2)] False m(1) show ?thesis by simp
  qed
qed

lemma upcoming_Suc:
  "\<not> is_end_of_file (upcoming ua s i k)
   \<Longrightarrow> upcoming ua s i (Suc k) = token_at ua s (full_end (upcoming ua s i k))"
proof (induction k arbitrary: i)
  case (Suc k)
  then have "\<not> is_end_of_file (token_at ua s i)" by (auto split: if_splits)
  with Suc show ?case by simp
qed simp

lemma upcoming_end:
  assumes "snapshot_wf s"
  shows "strip_eof (upcoming ua s (text_length s) k) = bare_eof (text_length s)"
proof -
  have g: "good_token s (text_length s) (token_at ua s (text_length s))"
    by (rule token_at_good(1) [OF assms]) simp
  then have "is_end_of_file (token_at ua s (text_length s))"
    using good_token_end(2,4) [OF g] by force
  with good_token_eof [OF g] show ?thesis by (cases k) simp_all
qed

subsection \<open>The contract of a lookahead policy\<close>

datatype lexer_op = LookaheadOp nat | ConsumeOp

text \<open>A client's run over an implementation of \<open>lookahead\<close>, and what it should see.\<close>

fun run_ops ::
    "(lexer_token_source \<Rightarrow> nat \<Rightarrow> syntax_token lexing) \<Rightarrow> lexer_token_source \<Rightarrow> lexer_op list
     \<Rightarrow> syntax_token list lexing" where
  "run_ops look src [] = Some ([], src)"
| "run_ops look src (LookaheadOp k # ops) = do {
     (t, src') \<leftarrow> look src k;
     (ts, src'') \<leftarrow> run_ops look src' ops;
     Some (t # ts, src'')
   }"
| "run_ops look src (ConsumeOp # ops) = do {
     (t, src') \<leftarrow> look src 0;
     (ts, src'') \<leftarrow> run_ops look (advance_after_consuming t src') ops;
     Some (t # ts, src'')
   }"

fun expected_ops ::
    "unicode_alphanumeric \<Rightarrow> source_snapshot \<Rightarrow> text_size \<Rightarrow> lexer_op list \<Rightarrow> syntax_token list" where
  "expected_ops ua s i [] = []"
| "expected_ops ua s i (LookaheadOp k # ops) = upcoming ua s i k # expected_ops ua s i ops"
| "expected_ops ua s i (ConsumeOp # ops) =
     upcoming ua s i 0 # expected_ops ua s (full_end (upcoming ua s i 0)) ops"

locale lexer_lookahead =
  fixes look :: "unicode_alphanumeric \<Rightarrow> lexer_token_source \<Rightarrow> nat \<Rightarrow> syntax_token lexing"
    and sound :: "unicode_alphanumeric \<Rightarrow> lexer_token_source \<Rightarrow> bool"
  assumes look_upcoming: "sound ua src \<Longrightarrow> \<exists>t src'. look ua src k = Some (t, src') \<and> sound ua src'
      \<and> same_position src src'
      \<and> strip_eof t = strip_eof (upcoming ua (src_snapshot src) (src_cursor src) k)"
    and sound_wf: "sound ua src \<Longrightarrow>
      snapshot_wf (src_snapshot src) \<and> boundary (src_snapshot src) (src_cursor src)"
    and look_advance: "sound ua src \<Longrightarrow> look ua src 0 = Some (t, src')
      \<Longrightarrow> sound ua (advance_after_consuming t src')
        \<and> src_cursor (advance_after_consuming t src')
          = full_end (upcoming ua (src_snapshot src) (src_cursor src) 0)"
begin

text \<open>Any interleaving of lookaheads and consumes sees the upcoming tokens.\<close>

lemma run_ops_expected:
  assumes "sound ua src"
  shows "\<exists>ts src'. run_ops (look ua) src ops = Some (ts, src') \<and> sound ua src'
    \<and> map strip_eof ts = map strip_eof (expected_ops ua (src_snapshot src) (src_cursor src) ops)"
  using assms
proof (induction ops arbitrary: src)
  case (Cons op ops)
  show ?case
  proof (cases op)
    case (LookaheadOp k)
    from look_upcoming [OF Cons.prems, of k] obtain t src'
      where l: "look ua src k = Some (t, src')" "sound ua src'" "same_position src src'"
        "strip_eof t = strip_eof (upcoming ua (src_snapshot src) (src_cursor src) k)" by blast
    from Cons.IH [OF l(2)] l LookaheadOp show ?thesis by (auto simp: same_position_def)
  next
    case ConsumeOp
    from look_upcoming [OF Cons.prems, of 0] obtain t src'
      where l: "look ua src 0 = Some (t, src')" "same_position src src'"
        "strip_eof t = strip_eof (upcoming ua (src_snapshot src) (src_cursor src) 0)" by blast
    from look_advance [OF Cons.prems l(1)]
    have a: "sound ua (advance_after_consuming t src')" "src_cursor (advance_after_consuming t src')
          = full_end (upcoming ua (src_snapshot src) (src_cursor src) 0)" by auto
    have "src_snapshot (advance_after_consuming t src') = src_snapshot src"
      using l(2) by (simp add: same_position_def advance_after_consuming_def)
    with Cons.IH [OF a(1)] a(2) l ConsumeOp show ?thesis by auto
  qed
qed simp

end

subsection \<open>The cached policy\<close>

abbreviation next_token ::
    "unicode_alphanumeric \<Rightarrow> lexer_token_source \<Rightarrow> nat \<Rightarrow> syntax_token" where
  "next_token ua src k \<equiv> upcoming ua (src_snapshot src) (src_cursor src) k"

text \<open>The cache holds the upcoming tokens, in order, from the cursor on.\<close>

definition cache_sound :: "unicode_alphanumeric \<Rightarrow> lexer_token_source \<Rightarrow> bool" where
  "cache_sound ua src \<longleftrightarrow> src_cache_policy src = CacheTokens
     \<and> snapshot_wf (src_snapshot src) \<and> boundary (src_snapshot src) (src_cursor src)
     \<and> (\<forall>k < length (src_cached_tokens src).
          strip_eof (src_cached_tokens src ! k) = strip_eof (next_token ua src k)
          \<and> (is_end_of_file (src_cached_tokens src ! k)
               \<longrightarrow> full_end (src_cached_tokens src ! k) = text_length (src_snapshot src)))"

lemma full_end_bare [simp]: "full_end (bare_eof n) = n"
  by (simp add: bare_eof_def full_range_def text_range_empty_def)

lemma cache_sound_append:
  assumes "cache_sound ua src" "same_position src src'"
    "src_cached_tokens src' = src_cached_tokens src @ ts"
    "\<And>k. k < length ts \<Longrightarrow> strip_eof (ts ! k) = strip_eof (next_token ua src (length (src_cached_tokens src) + k))
      \<and> (is_end_of_file (ts ! k) \<longrightarrow> full_end (ts ! k) = text_length (src_snapshot src))"
  shows "cache_sound ua src'"
  using assms(1-3) assms(4) [of "k - length (src_cached_tokens src)" for k]
  by (auto simp: cache_sound_def same_position_def nth_append)

text \<open>
  Until the end-of-file token is consumed, the cached tokens up to it are exactly the upcoming ones,
  with the trivia in front of the end of the file.
\<close>

definition cache_exact :: "unicode_alphanumeric \<Rightarrow> lexer_token_source \<Rightarrow> bool" where
  "cache_exact ua src \<longleftrightarrow> (\<forall>k < length (src_cached_tokens src).
     (\<forall>j < k. \<not> is_end_of_file (src_cached_tokens src ! j))
       \<longrightarrow> src_cached_tokens src ! k = next_token ua src k)"

lemma cache_exact_after_eof:
  assumes "cache_exact ua src" "same_position src src'" "src_cached_tokens src' = src_cached_tokens src @ ts"
    "src_cached_tokens src \<noteq> []" "is_end_of_file (last (src_cached_tokens src))"
  shows "cache_exact ua src'"
  unfolding cache_exact_def
proof (intro allI impI)
  let ?n = "length (src_cached_tokens src)"
  fix k assume "k < length (src_cached_tokens src')" and k: "\<forall>j < k. \<not> is_end_of_file (src_cached_tokens src' ! j)"
  have "k < ?n"
  proof (rule ccontr)
    assume "\<not> k < ?n"
    with assms(4) have "?n - 1 < k" by (cases ?n) auto
    with k assms(3,4,5) show False by (auto simp: nth_append last_conv_nth)
  qed
  with k assms(1,2,3) show "src_cached_tokens src' ! k = next_token ua src' k"
    by (auto simp: cache_exact_def same_position_def nth_append)
qed

lemma cache_exact_snoc:
  assumes "cache_exact ua src" "same_position src src'" "src_cached_tokens src' = src_cached_tokens src @ [t]"
    "t = next_token ua src (length (src_cached_tokens src))"
  shows "cache_exact ua src'"
  using assms by (auto simp: cache_exact_def same_position_def nth_append less_Suc_eq)

lemma ensure_cached_spec:
  assumes "cache_sound ua src"
  shows "\<exists>src'. ensure_cached ua src d = Some src' \<and> cache_sound ua src' \<and> same_position src src'
    \<and> d < length (src_cached_tokens src') \<and> (cache_exact ua src \<longrightarrow> cache_exact ua src')"
  using assms
proof (induction "Suc d - length (src_cached_tokens src)" arbitrary: src rule: less_induct)
  case less
  let ?s = "src_snapshot src" and ?n = "length (src_cached_tokens src)"
  let ?last = "last (src_cached_tokens src)"
  note eq = ensure_cached.simps [of ua src d]
  from less.prems have wf: "snapshot_wf ?s" and b: "boundary ?s (src_cursor src)"
    by (auto simp: cache_sound_def)
  show ?case
  proof (cases "?n \<le> d")
    case False
    with less.prems show ?thesis by (simp add: eq same_position_def)
  next
    case True
    have lst: "strip_eof ?last = strip_eof (next_token ua src (?n - 1))" if "src_cached_tokens src \<noteq> []"
      using that less.prems by (simp add: cache_sound_def last_conv_nth)
    show ?thesis
    proof (cases "src_cached_tokens src \<noteq> [] \<and> is_end_of_file ?last")
      case eof: True
      with lst strip_eof_cong(1,3) have e: "is_end_of_file (next_token ua src (?n - 1))"
        and r: "tok_range ?last = tok_range (next_token ua src (?n - 1))" by blast+
      obtain j where j: "good_token ?s j (next_token ua src (?n - 1))"
        using upcoming_good [OF wf b, of ua "?n - 1"] by blast
      have st: "tok_start ?last = text_length ?s" using good_token_end(3) [OF j e] r by simp
      let ?src' = "src\<lparr>src_cached_tokens := src_cached_tokens src
        @ replicate (d + 1 - ?n) (bare_eof (text_length ?s))\<rparr>"
      have "strip_eof (next_token ua src (?n + k)) = bare_eof (text_length ?s)" for k
        using upcoming_eof [OF e, of "?n + k"] good_token_eof [OF j e] by simp
      then have "cache_sound ua ?src'"
        by (intro cache_sound_append [OF less.prems, where src' = ?src'
              and ts = "replicate (d + 1 - ?n) (bare_eof (text_length ?s))"])
          (simp_all add: same_position_def del: replicate.simps add_Suc_right)
      moreover have "ensure_cached ua src d = Some ?src'"
        using True eof st by (simp add: eq fill_with_eof_def)
      moreover have "cache_exact ua ?src'" if "cache_exact ua src"
        using eof by (intro cache_exact_after_eof [OF that, where src' = ?src'
              and ts = "replicate (d + 1 - ?n) (bare_eof (text_length ?s))"])
          (simp_all add: same_position_def del: replicate.simps add_Suc_right)
      ultimately show ?thesis using True by (simp add: same_position_def)
    next
      case noeof: False
      define at where "at = (if src_cached_tokens src = [] then src_cursor src else full_end ?last)"
      have at: "boundary ?s at \<and> next_token ua src ?n = token_at ua ?s at"
      proof (cases "src_cached_tokens src = []")
        case False
        with noeof lst strip_eof_cong(1,2) have l: "?last = next_token ua src (?n - 1)"
          "\<not> is_end_of_file (next_token ua src (?n - 1))" by blast+
        from upcoming_good [OF wf b, of ua "?n - 1"] obtain j
          where "good_token ?s j (next_token ua src (?n - 1))" by blast
        from good_token_end(1) [OF this] upcoming_Suc [OF l(2)] False l(1) show ?thesis
          by (simp add: at_def)
      qed (use b in \<open>simp add: at_def\<close>)
      let ?t = "token_at ua ?s at"
      let ?src' = "(record_diagnostics (diagnostics_at ua ?s at) src)
        \<lparr>src_cached_tokens := src_cached_tokens src @ [?t]\<rparr>"
      note good = token_at_good(1) [OF wf conjunct1 [OF at], of ua]
      have c: "cache_sound ua ?src'"
        using at good_token_end(3) [OF good]
        by (intro cache_sound_append [OF less.prems, where src' = ?src' and ts = "[?t]"])
          (simp_all add: same_position_def)
      have step: "ensure_cached ua src d = ensure_cached ua ?src' d"
        using True noeof source_scan_token [OF wf conjunct1 [OF at], of ua]
        by (subst eq) (auto simp: at_def)
      have x: "cache_exact ua ?src'" if "cache_exact ua src"
        using at by (intro cache_exact_snoc [OF that, where t = ?t]) (simp_all add: same_position_def)
      have "Suc d - length (src_cached_tokens ?src') < Suc d - ?n" using True by simp
      from less.hyps [OF this c] step x show ?thesis by (auto simp: same_position_def)
    qed
  qed
qed

lemma cached_look:
  assumes "cache_sound ua src"
  shows "\<exists>t src'. cached_lookahead ua src k = Some (t, src') \<and> cache_sound ua src' \<and> same_position src src'
    \<and> k < length (src_cached_tokens src') \<and> t = src_cached_tokens src' ! k
    \<and> strip_eof t = strip_eof (next_token ua src k) \<and> (cache_exact ua src \<longrightarrow> cache_exact ua src')"
proof -
  from ensure_cached_spec [OF assms, of k] obtain src' where e: "ensure_cached ua src k = Some src'"
    "cache_sound ua src'" "same_position src src'" "k < length (src_cached_tokens src')"
    "cache_exact ua src \<longrightarrow> cache_exact ua src'" by blast
  then show ?thesis
    by (intro exI [of _ "src_cached_tokens src' ! k"] exI [of _ src'])
      (simp add: cached_lookahead_def get_def cache_sound_def same_position_def)
qed

interpretation cached: lexer_lookahead cached_lookahead cache_sound
proof
  fix ua src k
  assume s: "cache_sound ua src"
  from cached_look [OF s] show "\<exists>t src'. cached_lookahead ua src k = Some (t, src') \<and> cache_sound ua src'
      \<and> same_position src src' \<and> strip_eof t = strip_eof (next_token ua src k)" by blast
  from s show "snapshot_wf (src_snapshot src) \<and> boundary (src_snapshot src) (src_cursor src)"
    by (simp add: cache_sound_def)
next
  fix ua src t src'
  assume s: "cache_sound ua src" and l: "cached_lookahead ua src 0 = Some (t, src')"
  let ?s = "src_snapshot src" and ?ts = "src_cached_tokens src'"
  from s have wf: "snapshot_wf ?s" and b: "boundary ?s (src_cursor src)" by (auto simp: cache_sound_def)
  from cached_look [OF s, of 0] l have l': "cache_sound ua src'" "same_position src src'" "?ts \<noteq> []"
    "t = ?ts ! 0" "strip_eof t = strip_eof (next_token ua src 0)" by auto
  note good = token_at_good(1) [OF wf b, of ua]
  show "cache_sound ua (advance_after_consuming t src')
      \<and> src_cursor (advance_after_consuming t src') = full_end (next_token ua src 0)"
  proof (cases "is_end_of_file t")
    case True
    with l'(5) strip_eof_cong(1) have e: "is_end_of_file (next_token ua src 0)" by blast
    have ft: "full_end t = text_length ?s"
      using l' True by (auto simp: cache_sound_def same_position_def)
    have all: "strip_eof (next_token ua src k) = bare_eof (text_length ?s)" for k
      using upcoming_eof [OF e, of k] good_token_eof [OF good] e by simp
    have "strip_eof (?ts ! k) = bare_eof (text_length ?s)" if "k < length ?ts" for k
      using that l'(1,2) all [of k] by (simp add: cache_sound_def same_position_def)
    then show ?thesis
      using True ft l'(1,2) upcoming_end [OF wf] good_token_end(3) [OF good] e wf
      by (simp add: advance_after_consuming_def cache_sound_def same_position_def)
  next
    case False
    with l'(5) strip_eof_cong(2) strip_eof_cong(1) have t: "t = token_at ua ?s (src_cursor src)"
      "\<not> is_end_of_file (token_at ua ?s (src_cursor src))" by (metis upcoming.simps(1))+
    have up: "upcoming ua ?s (full_end t) k = next_token ua src (Suc k)" for k
      using t by simp
    let ?a = "advance_after_consuming t src'"
    have a: "src_snapshot ?a = ?s" "src_cursor ?a = full_end t" "src_cached_tokens ?a = tl ?ts"
      "src_cache_policy ?a = CacheTokens"
      using False l'(1-3) by (simp_all add: advance_after_consuming_def cache_sound_def same_position_def)
    have tl: "strip_eof (tl ?ts ! k) = strip_eof (upcoming ua ?s (full_end t) k)
        \<and> (is_end_of_file (tl ?ts ! k) \<longrightarrow> full_end (tl ?ts ! k) = text_length ?s)"
      if "k < length (tl ?ts)" for k
      unfolding up using that l'(1,2) by (simp add: cache_sound_def same_position_def nth_tl)
    have bt: "boundary ?s (full_end t)" unfolding t(1) by (rule good_token_end(1) [OF good])
    show ?thesis
      unfolding cache_sound_def a using tl bt wf t(1) by simp
  qed
qed

subsection \<open>The policy that scans again\<close>

definition rescan_sound :: "unicode_alphanumeric \<Rightarrow> lexer_token_source \<Rightarrow> bool" where
  "rescan_sound ua src \<longleftrightarrow> src_cache_policy src = DoNotCacheTokens
     \<and> snapshot_wf (src_snapshot src) \<and> boundary (src_snapshot src) (src_cursor src)"

lemma uncached_loop_spec:
  assumes "snapshot_wf (src_snapshot src)" "boundary (src_snapshot src) i"
  shows "\<exists>src'. uncached_loop ua src (token_at ua (src_snapshot src) i) k
      = Some (upcoming ua (src_snapshot src) i k, src') \<and> same_position src src'"
  using assms
proof (induction k arbitrary: src i)
  case 0
  then show ?case by (simp add: same_position_def)
next
  case (Suc k)
  let ?t = "token_at ua (src_snapshot src) i"
  show ?case
  proof (cases "is_end_of_file ?t")
    case True
    then show ?thesis by (simp add: same_position_def)
  next
    case False
    have b: "boundary (src_snapshot src) (full_end ?t)"
      by (rule good_token_end(1) [OF token_at_good(1) [OF Suc.prems]])
    with Suc.IH [of "record_diagnostics ds src" "full_end ?t" for ds] Suc.prems(1) False
      source_scan_token [OF Suc.prems(1) b, of ua]
    show ?thesis by (fastforce simp: same_position_def)
  qed
qed

lemma uncached_look:
  assumes "rescan_sound ua src"
  shows "\<exists>src'. uncached_lookahead ua src k = Some (next_token ua src k, src') \<and> same_position src src'
    \<and> rescan_sound ua src'"
proof -
  from assms have wf: "snapshot_wf (src_snapshot src)" "boundary (src_snapshot src) (src_cursor src)"
    by (auto simp: rescan_sound_def)
  let ?src = "record_diagnostics (diagnostics_at ua (src_snapshot src) (src_cursor src)) src"
  from uncached_loop_spec [of ?src "src_cursor src" ua k] wf obtain src'
    where "uncached_loop ua ?src (token_at ua (src_snapshot src) (src_cursor src)) k
      = Some (next_token ua src k, src')" "same_position ?src src'" by auto
  with source_scan_token [OF wf, of ua] assms show ?thesis
    by (auto simp: uncached_lookahead_def same_position_def rescan_sound_def)
qed

interpretation rescanning: lexer_lookahead uncached_lookahead rescan_sound
proof
  fix ua src k
  assume s: "rescan_sound ua src"
  from uncached_look [OF s, of k] show "\<exists>t src'. uncached_lookahead ua src k = Some (t, src')
      \<and> rescan_sound ua src' \<and> same_position src src' \<and> strip_eof t = strip_eof (next_token ua src k)"
    by blast
  from s show "snapshot_wf (src_snapshot src) \<and> boundary (src_snapshot src) (src_cursor src)"
    by (simp add: rescan_sound_def)
next
  fix ua src t src'
  assume s: "rescan_sound ua src" and l: "uncached_lookahead ua src 0 = Some (t, src')"
  from uncached_look [OF s, of 0] l have l': "same_position src src'" "rescan_sound ua src'"
    "t = token_at ua (src_snapshot src) (src_cursor src)" by auto
  from s have "boundary (src_snapshot src) (full_end t)"
    unfolding l'(3) by (intro good_token_end(1) [OF token_at_good(1)]) (auto simp: rescan_sound_def)
  with l' show "rescan_sound ua (advance_after_consuming t src')
      \<and> src_cursor (advance_after_consuming t src') = full_end (next_token ua src 0)"
    by (simp add: advance_after_consuming_def rescan_sound_def same_position_def)
qed

text \<open>The dispatch on the policy meets the contract because both policies do.\<close>

definition source_sound :: "unicode_alphanumeric \<Rightarrow> lexer_token_source \<Rightarrow> bool" where
  "source_sound ua src \<longleftrightarrow> cache_sound ua src \<or> rescan_sound ua src"

lemma lookahead_by_policy:
  "cache_sound ua src \<Longrightarrow> lookahead ua src = cached_lookahead ua src"
  "rescan_sound ua src \<Longrightarrow> lookahead ua src = uncached_lookahead ua src"
  by (simp_all add: fun_eq_iff lookahead_def cache_sound_def rescan_sound_def)

interpretation policy: lexer_lookahead lookahead source_sound
proof
  fix ua src k
  assume "source_sound ua src"
  then show "\<exists>t src'. lookahead ua src k = Some (t, src') \<and> source_sound ua src'
      \<and> same_position src src' \<and> strip_eof t = strip_eof (next_token ua src k)"
    using cached.look_upcoming [of ua src k] rescanning.look_upcoming [of ua src k]
    unfolding source_sound_def by (metis lookahead_by_policy)
next
  fix ua src
  assume "source_sound ua src"
  then show "snapshot_wf (src_snapshot src) \<and> boundary (src_snapshot src) (src_cursor src)"
    using cached.sound_wf rescanning.sound_wf unfolding source_sound_def by blast
next
  fix ua src t src'
  assume "source_sound ua src" "lookahead ua src 0 = Some (t, src')"
  then show "source_sound ua (advance_after_consuming t src')
      \<and> src_cursor (advance_after_consuming t src') = full_end (next_token ua src 0)"
    using cached.look_advance [of ua src t src'] rescanning.look_advance [of ua src t src']
    unfolding source_sound_def by (metis lookahead_by_policy)
qed

text \<open>
  What a parser relies on before it has consumed the end of the file: the next token is the token at
  the cursor, its trivia included.
\<close>

definition source_exact :: "unicode_alphanumeric \<Rightarrow> lexer_token_source \<Rightarrow> bool" where
  "source_exact ua src \<longleftrightarrow> cache_sound ua src \<and> cache_exact ua src \<or> rescan_sound ua src"

lemma source_exact_sound: "source_exact ua src \<Longrightarrow> source_sound ua src"
  by (auto simp: source_exact_def source_sound_def)

lemma lookahead_exact:
  assumes "source_exact ua src"
  shows "\<exists>t src'. lookahead ua src k = Some (t, src') \<and> source_exact ua src' \<and> same_position src src'
    \<and> strip_eof t = strip_eof (next_token ua src k) \<and> (k = 0 \<longrightarrow> t = next_token ua src 0)"
proof (cases "cache_sound ua src \<and> cache_exact ua src")
  case True
  then have c: "cache_sound ua src" "cache_exact ua src" by auto
  from cached_look [OF c(1), of k] c(2) obtain t src' where l: "cached_lookahead ua src k = Some (t, src')"
    "cache_sound ua src'" "same_position src src'" "k < length (src_cached_tokens src')"
    "t = src_cached_tokens src' ! k" "strip_eof t = strip_eof (next_token ua src k)" "cache_exact ua src'" by blast
  moreover have "t = next_token ua src 0" if "k = 0"
    using l that by (auto simp: cache_exact_def same_position_def)
  ultimately show ?thesis
    using lookahead_by_policy(1) [OF c(1)] by (auto simp: source_exact_def)
next
  case False
  with assms have r: "rescan_sound ua src" by (auto simp: source_exact_def)
  from uncached_look [OF r, of k] lookahead_by_policy(2) [OF r] show ?thesis
    by (auto simp: source_exact_def)
qed

lemma lookahead_exact_advance:
  assumes "source_exact ua src" "lookahead ua src 0 = Some (t, src')" "\<not> is_end_of_file t"
  shows "source_exact ua (advance_after_consuming t src')"
proof (cases "cache_sound ua src \<and> cache_exact ua src")
  case True
  then have c: "cache_sound ua src" "cache_exact ua src" by auto
  with assms(2) lookahead_by_policy(1) [OF c(1)] have look: "cached_lookahead ua src 0 = Some (t, src')" by simp
  from cached_look [OF c(1), of 0] look c(2) have l: "cache_sound ua src'" "same_position src src'"
    "src_cached_tokens src' \<noteq> []" "t = hd (src_cached_tokens src')" "cache_exact ua src'"
    by (auto simp: hd_conv_nth)
  let ?ts = "src_cached_tokens src'" and ?a = "advance_after_consuming t src'"
  have sound: "cache_sound ua ?a"
    using cached.look_advance [OF c(1) look] by blast
  have head: "next_token ua src' 0 = t"
    using l(3,4,5) by (auto simp: cache_exact_def hd_conv_nth)
  have a: "src_snapshot ?a = src_snapshot src'" "src_cursor ?a = full_end t" "src_cached_tokens ?a = tl ?ts"
    using assms(3) l(1,3) by (simp_all add: advance_after_consuming_def cache_sound_def)
  have up: "next_token ua ?a k = next_token ua src' (Suc k)" for k
    using head assms(3) by (simp add: a)
  have "cache_exact ua ?a"
    unfolding cache_exact_def
  proof (intro allI impI)
    fix k assume k: "k < length (src_cached_tokens ?a)" "\<forall>j < k. \<not> is_end_of_file (src_cached_tokens ?a ! j)"
    have "\<not> is_end_of_file (?ts ! j)" if "j < Suc k" for j
    proof (cases j)
      case 0
      with assms(3) l(3,4) show ?thesis by (simp add: hd_conv_nth)
    next
      case (Suc i)
      with that k show ?thesis by (auto simp: a nth_tl)
    qed
    moreover have "Suc k < length ?ts" using k(1) by (simp add: a)
    ultimately have "?ts ! Suc k = next_token ua src' (Suc k)" using l(5) by (simp add: cache_exact_def)
    with k(1) show "src_cached_tokens ?a ! k = next_token ua ?a k" unfolding up by (simp add: a nth_tl)
  qed
  with sound show ?thesis by (simp add: source_exact_def)
next
  case False
  with assms have r: "rescan_sound ua src" by (auto simp: source_exact_def)
  from rescanning.look_advance [OF r] assms(2) lookahead_by_policy(2) [OF r] show ?thesis
    by (simp add: source_exact_def)
qed

lemma source_sound_new: "snapshot_wf s \<Longrightarrow> source_sound ua (with_cache_policy s policy)"
  by (cases policy) (auto simp: source_sound_def cache_sound_def rescan_sound_def with_cache_policy_def)

text \<open>
  C14. The cache is transparent: whatever sequence of lookaheads and consumes a parser makes, under
  either cache policy every one of them returns (none panics), and the tokens it sees are the
  upcoming tokens of the text from its position, computed by scanning from scratch; only the
  trivia in front of the end-of-file token may be missing.
\<close>

theorem lookahead_sees_upcoming_tokens:
  assumes "snapshot_wf s"
  shows "\<exists>ts src. run_ops (lookahead ua) (with_cache_policy s policy) ops = Some (ts, src)
    \<and> map strip_eof ts = map strip_eof (expected_ops ua s 0 ops)"
  using policy.run_ops_expected [OF source_sound_new [OF assms], of ua policy ops]
  by (auto simp: with_cache_policy_def)

theorem lookahead_sees_upcoming_tokens_witness:
  "\<exists>ts src. run_ops (lookahead (\<lambda>_. False)) (with_cache_policy (text_snapshot ''a+b'') CacheTokens)
      [LookaheadOp 2, ConsumeOp, ConsumeOp, LookaheadOp 7] = Some (ts, src) \<and> length ts = 4"
proof -
  have "snapshot_wf (text_snapshot ''a+b'')"
    by (rule text_snapshot_wf) (simp_all add: u32_max_def)
  from lookahead_sees_upcoming_tokens [OF this, of "\<lambda>_. False" CacheTokens
      "[LookaheadOp 2, ConsumeOp, ConsumeOp, LookaheadOp 7]"]
  obtain ts src where ts: "run_ops (lookahead (\<lambda>_. False)) (with_cache_policy (text_snapshot ''a+b'') CacheTokens)
      [LookaheadOp 2, ConsumeOp, ConsumeOp, LookaheadOp 7] = Some (ts, src)"
    "map strip_eof ts = map strip_eof (expected_ops (\<lambda>_. False) (text_snapshot ''a+b'') 0
      [LookaheadOp 2, ConsumeOp, ConsumeOp, LookaheadOp 7])" by blast
  from arg_cong [OF ts(2), of length] ts(1) show ?thesis by auto
qed

subsection \<open>Windows\<close>

lemma window_loop_spec:
  assumes "snapshot_wf (src_snapshot src)" "boundary (src_snapshot src) i" "length acc + n = len"
  shows "\<exists>ts src'. window_loop ua src len acc i = Some (acc @ ts, src') \<and> same_position src src'
    \<and> map strip_eof ts = map (\<lambda>k. strip_eof (upcoming ua (src_snapshot src) i k)) [0..<n]"
  using assms
proof (induction n arbitrary: src i acc)
  case 0
  then show ?case by (simp add: window_loop.simps same_position_def)
next
  case (Suc n)
  let ?s = "src_snapshot src"
  let ?t = "token_at ua ?s i"
  note good = token_at_good(1) [OF Suc.prems(1,2), of ua]
  note scan = source_scan_token [OF Suc.prems(1,2), of ua]
  note eq = window_loop.simps [of ua src len acc i]
  have up: "map (\<lambda>k. strip_eof (upcoming ua ?s i k)) [0..<Suc n]
      = strip_eof ?t # map (\<lambda>k. strip_eof (upcoming ua ?s i (Suc k))) [0..<n]"
    by (simp add: upt_conv_Cons map_Suc_upt [symmetric] del: upt_Suc)
  show ?case
  proof (cases "is_end_of_file ?t")
    case True
    let ?ts = "?t # replicate n (bare_eof (text_length ?s))"
    have "strip_eof (upcoming ua ?s i (Suc k)) = bare_eof (text_length ?s)" for k
      using True good_token_eof [OF good] by simp
    then have "map strip_eof ?ts = map (\<lambda>k. strip_eof (upcoming ua ?s i k)) [0..<Suc n]"
      unfolding up by (simp add: map_replicate_const)
    moreover have "window_loop ua src len acc i
        = Some (acc @ ?ts, record_diagnostics (diagnostics_at ua ?s i) src)"
      using True scan Suc.prems(3) good_token_end(3) [OF good True]
      by (auto simp: eq fill_with_eof_def)
    ultimately show ?thesis by (auto simp: same_position_def)
  next
    case False
    let ?src = "record_diagnostics (diagnostics_at ua ?s i) src"
    have b: "boundary ?s (full_end ?t)" by (rule good_token_end(1) [OF good])
    from Suc.IH [of ?src "full_end ?t" "acc @ [?t]"] Suc.prems b obtain ts src'
      where ih: "window_loop ua ?src len (acc @ [?t]) (full_end ?t) = Some ((acc @ [?t]) @ ts, src')"
        "same_position ?src src'"
        "map strip_eof ts = map (\<lambda>k. strip_eof (upcoming ua ?s (full_end ?t) k)) [0..<n]" by auto
    moreover have "window_loop ua src len acc i = window_loop ua ?src len (acc @ [?t]) (full_end ?t)"
      using False scan Suc.prems(3) by (simp add: eq)
    ultimately show ?thesis
      unfolding up using False by (intro exI [of _ "?t # ts"] exI [of _ src']) (simp add: same_position_def)
  qed
qed

lemma cached_window:
  assumes "cache_sound ua src" "0 < len"
  shows "\<exists>ts src'. cached_lookahead_window ua src len = Some (ts, src') \<and> same_position src src'
    \<and> map strip_eof ts = map (\<lambda>k. strip_eof (next_token ua src k)) [0..<len]"
proof -
  from ensure_cached_spec [OF assms(1), of "len - 1"] obtain src'
    where e: "ensure_cached ua src (len - 1) = Some src'" "cache_sound ua src'" "same_position src src'"
      "len - 1 < length (src_cached_tokens src')" by blast
  let ?ts = "take len (src_cached_tokens src')"
  have "map strip_eof ?ts = map (\<lambda>k. strip_eof (next_token ua src k)) [0..<len]"
    using e assms(2) by (intro nth_equalityI) (auto simp: cache_sound_def same_position_def)
  with e show ?thesis by (auto simp: cached_lookahead_window_def)
qed

text \<open>
  A lookahead window has exactly the requested length and holds the upcoming tokens in order,
  filled up with end-of-file tokens past the end, under either policy and in every state that a
  parser can reach; it does not move the position.
\<close>

theorem lookahead_window_correct:
  assumes "source_sound ua src"
  shows "\<exists>ts src'. lookahead_window ua src len = Some (ts, src') \<and> length ts = len
    \<and> same_position src src'
    \<and> map strip_eof ts = map (\<lambda>k. strip_eof (next_token ua src k)) [0..<len]"
proof (cases "len = 0")
  case True
  then show ?thesis by (simp add: lookahead_window_def same_position_def)
next
  case False
  have "\<exists>ts src'. lookahead_window ua src len = Some (ts, src') \<and> same_position src src'
    \<and> map strip_eof ts = map (\<lambda>k. strip_eof (next_token ua src k)) [0..<len]"
  proof (cases "cache_sound ua src")
    case True
    with False cached_window [OF True, of len] show ?thesis
      by (simp add: lookahead_window_def cache_sound_def)
  next
    case False
    with assms have r: "rescan_sound ua src" by (simp add: source_sound_def)
    with window_loop_spec [of src "src_cursor src" "[]" len len ua] \<open>len \<noteq> 0\<close> show ?thesis
      by (auto simp: lookahead_window_def rescan_sound_def uncached_lookahead_window_def)
  qed
  then show ?thesis by (metis length_map length_upt diff_zero)
qed

theorem lookahead_window_correct_witness:
  "\<exists>ts src'. lookahead_window (\<lambda>_. False) (with_cache_policy (text_snapshot ''a+b'') DoNotCacheTokens) 9
     = Some (ts, src') \<and> length ts = 9"
proof -
  have "snapshot_wf (text_snapshot ''a+b'')"
    by (rule text_snapshot_wf) (simp_all add: u32_max_def)
  from lookahead_window_correct [OF source_sound_new [OF this], of "\<lambda>_. False" DoNotCacheTokens 9]
  show ?thesis by blast
qed

subsection \<open>The end of the source\<close>


lemma blank_text_token:
  "token_at ua (text_snapshot '' '') 0 = \<lparr>tok_kind = EndOfFileToken, tok_range = text_range_empty 1,
     tok_presence = Present,
     leading_trivia = [\<lparr>trivia_kind = WhitespaceTrivia, trivia_range = \<lparr>tr_start = 0, tr_end = 1\<rparr>\<rparr>],
     trailing_trivia = []\<rparr>"
proof -
  let ?s = "text_snapshot '' ''"
  let ?w = "\<lparr>trivia_kind = WhitespaceTrivia, trivia_range = \<lparr>tr_start = 0, tr_end = 1\<rparr>\<rparr>"
  have w: "whitespace_loop '' '' Leading 0 False = (1, False)"
    by (simp add: whitespace_loop.simps get_def)
  have first: "scan_trivia_at ?s 0 Leading
      = Some (Some \<lparr>item_trivia = ?w, contains_line_break = False, item_diagnostics = []\<rparr>)"
    using w by (simp add: scan_trivia_at_def scan_whitespace_trivia_def make_trivia_item_def get_def
        text_size_from_usize_def text_size_try_from_def u32_max_def text_range_new_def trivia_new_def)
  have second: "scan_trivia_at ?s 1 Leading = Some None"
    by (simp add: scan_trivia_at_def get_def)
  have "leading_loop ?s 0 [] [] = leading_loop ?s 1 [?w] []"
    using first by (subst leading_loop.simps) (simp add: merged_def)
  also have "\<dots> = Some (trivia_scan_done ?s [?w] 1 [])"
    using second by (subst leading_loop.simps) simp
  finally show ?thesis
    by (simp add: token_at_def scan_token_at_def scan_leading_trivia_def trivia_scan_done_def
        text_snapshot_def bare_eof_def with_leading_trivia_def scan_with_diagnostics_def)
qed


end
