(* ===== verification/Syntax_Tree.thy ===== *)
theory Syntax_Tree
  imports Green_Tree Lexer_Stream
begin

text \<open>
  Trees over source snapshots (\<open>crates/bray-syntax/src\<close>): source units and compilation units with
  their builders (\<open>syntax/unit.rs\<close>), node views and the walker (\<open>walk.rs\<close>), and the tree with its
  index of nodes (\<open>tree.rs\<close>). A walk visitor is a function from the event and its own state to a
  control decision and the new state; it may panic. The walker's stack has its top at the head.

  The lemmas show that a tree over the lexed tokens of a text writes back that text however the
  tokens are nested, that the walker with its explicit stack does what the recursive traversal
  does, and that a lookup in the index finds the outermost first node with the key.
\<close>

subsection \<open>Source units\<close>

record source_unit_syntax =
  unit_source :: source_snapshot
  unit_node :: green_node

record source_unit_builder =
  unit_source_slot :: "source_snapshot required_syntax_slot"
  unit_builder_node :: green_node_builder

definition source_unit_builder_new :: "source_snapshot \<Rightarrow> source_unit_builder run" where
  "source_unit_builder_new source = do {
     slot \<leftarrow> slot_set source (slot_new ''source_unit.source'');
     Some \<lparr>unit_source_slot = slot, unit_builder_node = builder_new\<rparr>
   }"

definition unit_push_token :: "syntax_token \<Rightarrow> source_unit_builder \<Rightarrow> source_unit_builder run" where
  "unit_push_token t b = do {
     n \<leftarrow> push_token t (unit_builder_node b);
     Some (b\<lparr>unit_builder_node := n\<rparr>)
   }"

definition unit_push_skipped_tokens :: "syntax_token list \<Rightarrow> source_unit_builder \<Rightarrow> source_unit_builder run" where
  "unit_push_skipped_tokens ts b = do {
     n \<leftarrow> push_skipped_tokens ts (unit_builder_node b);
     Some (b\<lparr>unit_builder_node := n\<rparr>)
   }"

text \<open>Every \<open>push_..._declaration\<close> of the builder pushes the green node of its typed argument.\<close>

definition unit_push_declaration :: "green_node \<Rightarrow> source_unit_builder \<Rightarrow> source_unit_builder" where
  "unit_push_declaration n b = b\<lparr>unit_builder_node := push_node n (unit_builder_node b)\<rparr>"

definition unit_push_tokens :: "syntax_token list \<Rightarrow> source_unit_builder \<Rightarrow> source_unit_builder run" where
  "unit_push_tokens ts b = do {
     n \<leftarrow> push_tokens ts (unit_builder_node b);
     Some (b\<lparr>unit_builder_node := n\<rparr>)
   }"

definition source_unit_from_builder :: "source_unit_builder \<Rightarrow> source_unit_syntax run" where
  "source_unit_from_builder b = do {
     source \<leftarrow> slot_into_value (unit_source_slot b);
     (case builder_last_token (unit_builder_node b) of
        Some (kind, Present) \<Rightarrow>
          if kind = EndOfFileToken then require_token_kind kind EndOfFileToken else panic
      | _ \<Rightarrow> panic);
     node \<leftarrow> builder_build SourceUnit (unit_builder_node b);
     Some \<lparr>unit_source = source, unit_node = node\<rparr>
   }"

definition unit_tokens :: "source_unit_syntax \<Rightarrow> syntax_token list run" where
  "unit_tokens u = syntax_tokens (unit_node u) 0"

definition unit_is_recovered :: "source_unit_syntax \<Rightarrow> bool run" where
  "unit_is_recovered u = contains_recovery (unit_node u) 0"

definition full_range_from_width :: "text_size \<Rightarrow> text_size \<Rightarrow> text_range run" where
  "full_range_from_width start width = (case text_range_with_len start width of
     Some r \<Rightarrow> Some r
   | None \<Rightarrow> panic)"

definition unit_full_range :: "source_unit_syntax \<Rightarrow> text_range run" where
  "unit_full_range u = full_range_from_width 0 (node_full_width (unit_node u))"

definition unit_full_text :: "source_unit_syntax \<Rightarrow> string run" where
  "unit_full_text u = write_source_text (unit_node u) (snap_text (unit_source u)) 0"

record compilation_unit_syntax =
  source_units :: "source_unit_syntax list"

fun units_full_text :: "source_unit_syntax list \<Rightarrow> string run" where
  "units_full_text [] = Some []"
| "units_full_text (u # us) = do {
     x \<leftarrow> unit_full_text u;
     xs \<leftarrow> units_full_text us;
     Some (x @ xs)
   }"

definition compilation_unit_full_text :: "compilation_unit_syntax \<Rightarrow> string run" where
  "compilation_unit_full_text c = units_full_text (source_units c)"

subsection \<open>Views, events and control\<close>

record syntax_node_view =
  view_source :: source_snapshot
  view_node :: green_node
  view_start :: text_size

definition view_full_range :: "syntax_node_view \<Rightarrow> text_range run" where
  "view_full_range v = full_range_from_width (view_start v) (node_full_width (view_node v))"

definition view_is_recovered :: "syntax_node_view \<Rightarrow> bool run" where
  "view_is_recovered v =
     (if node_kind (view_node v) = SkippedSyntax then Some True
      else contains_recovery (view_node v) (view_start v))"

datatype syntax_walk_event =
    EnterNode syntax_node_view
  | TokenEvent syntax_token
  | ExitNode syntax_node_view

datatype syntax_walk_control = Continue | SkipChildren | Stop

type_synonym 's visitor = "syntax_walk_event \<Rightarrow> 's \<Rightarrow> (syntax_walk_control \<times> 's) run"

subsection \<open>The walker\<close>

record walk_cursor =
  walk_view :: syntax_node_view
  walk_children :: "green_element list"
  walk_offset :: text_size

definition walk_cursor_new :: "syntax_node_view \<Rightarrow> walk_cursor" where
  "walk_cursor_new v = \<lparr>walk_view = v, walk_children = node_children (view_node v), walk_offset = view_start v\<rparr>"

definition emit_exit :: "syntax_node_view \<Rightarrow> 's visitor \<Rightarrow> 's \<Rightarrow> (bool \<times> 's) run" where
  "emit_exit node visitor s = do {
     (control, s') \<leftarrow> visitor (ExitNode node) s;
     Some (control = Stop, s')
   }"

fun walk_child ::
    "green_element \<Rightarrow> text_size \<Rightarrow> source_snapshot \<Rightarrow> 's visitor \<Rightarrow> walk_cursor list \<Rightarrow> 's
     \<Rightarrow> (bool \<times> walk_cursor list \<times> 's) run" where
  "walk_child (TokenElement t) start source visitor stack s = do {
     token \<leftarrow> green_syntax_token t start;
     (control, s') \<leftarrow> visitor (TokenEvent token) s;
     Some (control = Stop, stack, s')
   }"
| "walk_child (NodeElement n) start source visitor stack s =
     (let view = \<lparr>view_source = source, view_node = n, view_start = start\<rparr> in do {
        (control, s') \<leftarrow> visitor (EnterNode view) s;
        (case control of
           Continue \<Rightarrow> Some (False, walk_cursor_new view # stack, s')
         | SkipChildren \<Rightarrow> do { (stop, s'') \<leftarrow> emit_exit view visitor s'; Some (stop, stack, s'') }
         | Stop \<Rightarrow> Some (True, stack, s'))
      })"

partial_function (option) walk_loop ::
    "'s visitor \<Rightarrow> walk_cursor list \<Rightarrow> 's \<Rightarrow> (bool \<times> 's) run" where
  "walk_loop visitor stack s = (case stack of
     [] \<Rightarrow> Some (False, s)
   | current # rest \<Rightarrow> (case walk_children current of
       child # children \<Rightarrow> do {
         offset \<leftarrow> green_checked_add (walk_offset current) (element_full_width child);
         (stop, stack', s') \<leftarrow> walk_child child (walk_offset current) (view_source (walk_view current)) visitor
            (current\<lparr>walk_children := children, walk_offset := offset\<rparr> # rest) s;
         (if stop then Some (True, s') else walk_loop visitor stack' s')
       }
     | [] \<Rightarrow> do {
         (stop, s') \<leftarrow> emit_exit (walk_view current) visitor s;
         (if stop then Some (True, s') else walk_loop visitor rest s')
       }))"

declare walk_loop.simps [code]

definition walk_node :: "syntax_node_view \<Rightarrow> 's visitor \<Rightarrow> 's \<Rightarrow> (bool \<times> 's) run" where
  "walk_node root visitor s = do {
     (control, s') \<leftarrow> visitor (EnterNode root) s;
     (case control of
        Continue \<Rightarrow> walk_loop visitor [walk_cursor_new root] s'
      | SkipChildren \<Rightarrow> emit_exit root visitor s'
      | Stop \<Rightarrow> Some (True, s'))
   }"

definition unit_view :: "source_unit_syntax \<Rightarrow> syntax_node_view" where
  "unit_view u = \<lparr>view_source = unit_source u, view_node = unit_node u, view_start = 0\<rparr>"

definition walk_source_unit :: "source_unit_syntax \<Rightarrow> 's visitor \<Rightarrow> 's \<Rightarrow> (bool \<times> 's) run" where
  "walk_source_unit u visitor s = walk_node (unit_view u) visitor s"

fun walk_units :: "source_unit_syntax list \<Rightarrow> 's visitor \<Rightarrow> 's \<Rightarrow> 's run" where
  "walk_units [] visitor s = Some s"
| "walk_units (u # us) visitor s = do {
     (stop, s') \<leftarrow> walk_source_unit u visitor s;
     (if stop then Some s' else walk_units us visitor s')
   }"

definition walk_syntax_tree :: "compilation_unit_syntax \<Rightarrow> 's visitor \<Rightarrow> 's \<Rightarrow> 's run" where
  "walk_syntax_tree c visitor s = walk_units (source_units c) visitor s"

text \<open>The direct children: a visitor that counts the depth and skips below the first level.\<close>

type_synonym 's node_visitor = "syntax_node_view \<Rightarrow> 's \<Rightarrow> (syntax_walk_control \<times> 's) run"

fun direct_child_visitor :: "'s node_visitor \<Rightarrow> (nat \<times> 's) visitor" where
  "direct_child_visitor visitor (EnterNode node) (depth, s) =
     (if depth \<noteq> 1 then Some (Continue, (depth + 1, s))
      else do {
        (control, s') \<leftarrow> visitor node s;
        (case control of
           Stop \<Rightarrow> Some (Stop, (depth + 1, s'))
         | _ \<Rightarrow> Some (SkipChildren, (depth + 1, s')))
      })"
| "direct_child_visitor visitor (ExitNode node) (depth, s) = Some (Continue, (depth - 1, s))"
| "direct_child_visitor visitor (TokenEvent t) (depth, s) = Some (Continue, (depth, s))"

definition walk_direct_child_nodes :: "syntax_node_view \<Rightarrow> 's node_visitor \<Rightarrow> 's \<Rightarrow> 's run" where
  "walk_direct_child_nodes node visitor s = do {
     (stop, depth, s') \<leftarrow> walk_node node (direct_child_visitor visitor) (0, s);
     Some s'
   }"

subsection \<open>The index of nodes\<close>

record syntax_node_key =
  key_source_id :: source_id
  key_kind :: syntax_kind
  key_full_range :: text_range
  key_is_recovered :: bool

record indexed_syntax_node =
  indexed_source_unit :: nat
  indexed_node :: green_node
  indexed_start :: text_size

type_synonym node_index = "syntax_node_key \<rightharpoonup> indexed_syntax_node"

definition node_key :: "syntax_node_view \<Rightarrow> syntax_node_key run" where
  "node_key v = do {
     r \<leftarrow> view_full_range v;
     recovered \<leftarrow> view_is_recovered v;
     Some \<lparr>key_source_id = snap_source_id (view_source v), key_kind = node_kind (view_node v),
       key_full_range = r, key_is_recovered = recovered\<rparr>
   }"

fun index_visitor :: "nat \<Rightarrow> node_index visitor" where
  "index_visitor source_index (EnterNode node) nodes = do {
     key \<leftarrow> node_key node;
     Some (Continue, if nodes key = None
       then nodes(key \<mapsto> \<lparr>indexed_source_unit = source_index, indexed_node = view_node node,
         indexed_start = view_start node\<rparr>)
       else nodes)
   }"
| "index_visitor source_index event nodes = Some (Continue, nodes)"

fun index_units :: "nat \<Rightarrow> source_unit_syntax list \<Rightarrow> node_index \<Rightarrow> node_index run" where
  "index_units source_index [] nodes = Some nodes"
| "index_units source_index (u # us) nodes = do {
     (_, nodes') \<leftarrow> walk_node (unit_view u) (index_visitor source_index) nodes;
     index_units (Suc source_index) us nodes'
   }"

definition indexed_nodes :: "compilation_unit_syntax \<Rightarrow> node_index run" where
  "indexed_nodes c = index_units 0 (source_units c) (\<lambda>_. None)"

definition indexed_view :: "source_unit_syntax list \<Rightarrow> indexed_syntax_node \<Rightarrow> syntax_node_view run" where
  "indexed_view us n = do {
     u \<leftarrow> get us (indexed_source_unit n);
     Some \<lparr>view_source = unit_source u, view_node = indexed_node n, view_start = indexed_start n\<rparr>
   }"

definition find_node ::
    "compilation_unit_syntax \<Rightarrow> source_id \<Rightarrow> syntax_kind \<Rightarrow> text_range \<Rightarrow> bool \<Rightarrow> syntax_node_view option run" where
  "find_node c source_id kind r is_recovered = do {
     nodes \<leftarrow> indexed_nodes c;
     (case nodes \<lparr>key_source_id = source_id, key_kind = kind, key_full_range = r,
         key_is_recovered = is_recovered\<rparr> of
        None \<Rightarrow> Some None
      | Some n \<Rightarrow> do { v \<leftarrow> indexed_view (source_units c) n; Some (Some v) })
   }"

subsection \<open>Trees over the tokens of a text\<close>

lemma sum_missing_widths:
  "\<forall>g \<in> set gs. green_token_wf g \<Longrightarrow>
   sum_list (map green_full_width (filter (\<lambda>g. green_presence g = Present) gs)) = sum_list (map green_full_width gs)"
proof (induction gs)
  case (Cons g gs)
  then show ?case by (cases "green_presence g") (auto simp: missing_width)
qed simp

text \<open>Missing tokens have no width, so they do not move the tokens that are there.\<close>

lemma place_tokens_present:
  "\<forall>g \<in> set gs. green_token_wf g \<Longrightarrow>
   filter (\<lambda>t. tok_presence t = Present) (place_tokens gs i)
     = place_tokens (filter (\<lambda>g. green_presence g = Present) gs) i"
proof (induction gs arbitrary: i)
  case (Cons g gs)
  then show ?case by (cases "green_presence g") (auto simp: missing_width)
qed simp

lemma place_tokens_tiles:
  assumes "tiles s i (concat (map token_ranges ts)) j" "j \<le> u32_max"
  shows "\<exists>gs. map from_syntax_token ts = map Some gs \<and> place_tokens gs i = ts
    \<and> i + sum_list (map green_full_width gs) = j"
  using assms(1)
proof (induction ts arbitrary: i)
  case (Cons t ts)
  then obtain k where k: "tiles s i (token_ranges t) k" "tiles s k (concat (map token_ranges ts)) j"
    by (auto simp: tiles_append)
  then have "k \<le> u32_max" using tiles_bounds [OF k(2)] assms(2) by simp
  from token_round_trip [OF k(1) this] obtain g
    where g: "from_syntax_token t = Some g" "place_token g i = t" "i + green_full_width g = k" .
  from Cons.IH [OF k(2)] obtain gs where "map from_syntax_token ts = map Some gs" "place_tokens gs k = ts"
    "k + sum_list (map green_full_width gs) = j" by blast
  with g show ?case by (intro exI [of _ "g # gs"]) auto
qed simp

lemma place_trivia_end: "tiles s i (map trivia_range (place_trivia gs i)) j \<Longrightarrow> j = i + trivia_width gs"
  by (induction gs arbitrary: i) force+

lemma place_token_tiles:
  "tiles s i (token_ranges (place_token g i)) j \<Longrightarrow> green_token_wf g \<Longrightarrow> j = i + green_full_width g"
  by (auto simp: token_ranges_def place_token_def Let_def tiles_append green_token_wf_def dest!: place_trivia_end)

lemma full_text_missing:
  assumes "green_presence g = Missing" "green_token_wf g" "is_char_boundary source i"
  shows "token_full_text (place_token g i) source = Some []"
  using assms by (simp add: token_full_text_def place_token_def green_token_wf_def Let_def
      required_text_def text_range_slice_str_def str_get_range_def)

lemma full_texts_present:
  assumes "\<forall>g \<in> set gs. green_token_wf g"
    and "tiles source i (concat (map token_ranges (place_tokens (filter (\<lambda>g. green_presence g = Present) gs) i))) j"
  shows "full_texts source (place_tokens gs i)
    = full_texts source (place_tokens (filter (\<lambda>g. green_presence g = Present) gs) i)"
  using assms
proof (induction gs arbitrary: i)
  case (Cons g gs)
  show ?case
  proof (cases "green_presence g")
    case Missing
    with Cons.prems have "is_char_boundary source i" by (auto dest: tiles_bounds)
    with Missing Cons show ?thesis by (simp add: full_text_missing missing_width)
  next
    case Present
    with Cons.prems obtain k where k: "tiles source i (token_ranges (place_token g i)) k"
      "tiles source k (concat (map token_ranges (place_tokens
         (filter (\<lambda>g. green_presence g = Present) gs) (i + green_full_width g)))) j"
      by (auto simp: tiles_append)
    moreover from k(1) Cons.prems have "k = i + green_full_width g" by (auto dest: place_token_tiles)
    ultimately show ?thesis using Present Cons by simp
  qed
qed simp

lemma tree_text_tiles:
  assumes "node_wf n" and "filter (\<lambda>g. green_presence g = Present) (leaves (node_children n)) = gs"
    and "tiles source i (concat (map token_ranges ts)) j" "j \<le> u32_max"
    and "map from_syntax_token ts = map Some gs"
  shows "\<exists>us. syntax_tokens n i = Some us \<and> filter (\<lambda>t. tok_presence t = Present) us = ts
    \<and> write_source_text n source i = Some (segment source i j) \<and> i + node_full_width n = j"
proof -
  let ?gs = "leaves (node_children n)"
  have wf: "\<forall>g \<in> set ?gs. green_token_wf g"
    using assms(1) by (auto dest: node_wfD leaves_wf)
  from place_tokens_tiles [OF assms(3,4)] assms(5) have
    gs: "place_tokens gs i = ts" "i + sum_list (map green_full_width gs) = j"
    by (auto dest: map_injective [unfolded inj_def])
  have w: "node_full_width n = sum_list (map green_full_width ?gs)"
    using assms(1) by (auto dest!: node_wfD simp: elements_width_leaves)
  with gs(2) assms(2) sum_missing_widths [OF wf] have width: "i + node_full_width n = j" by simp
  have toks: "syntax_tokens n i = Some (place_tokens ?gs i)"
    by (rule syntax_tokens_spec [OF assms(1)]) (use width assms(4) in simp)
  moreover have "filter (\<lambda>t. tok_presence t = Present) (place_tokens ?gs i) = ts"
    using place_tokens_present [OF wf] gs(1) assms(2) by simp
  moreover have "full_texts source (place_tokens ?gs i) = Some (segment source i j)"
    using full_texts_present [OF wf, of source i j] assms(2,3) gs(1) tiles_full_texts [OF assms(3)] by simp
  ultimately show ?thesis using width by (auto simp: write_source_text_def)
qed

lemma good_token_ok: "good_token s i t \<Longrightarrow> token_ok t \<and> tok_presence t = Present"
  by (simp add: good_token_def token_ok_def)

lemma lexed_tokens_ok:
  assumes "snapshot_wf s"
  shows "boundary s i \<Longrightarrow> lexed ua s i ts \<Longrightarrow> \<forall>t \<in> set ts. token_ok t \<and> tok_presence t = Present"
proof (induction ts arbitrary: i)
  case (Cons t ts)
  note good = token_at_good(1) [OF assms Cons.prems(1), of ua]
  from Cons good_token_ok [OF good] good_token_end(1) [OF good] show ?case by (auto split: if_splits)
qed simp

lemma lexed_greens:
  assumes "snapshot_wf s" "lex_source_unit ua s = Some r"
  shows "\<exists>gs. map from_syntax_token (lex_tokens r) = map Some gs \<and> sum_list (map green_full_width gs) = text_length s
    \<and> (\<forall>g \<in> set gs. green_token_wf g \<and> green_presence g = Present)"
proof -
  from lex_source_unit_spec [OF assms(1), of ua] assms(2) have l: "lexed ua s 0 (lex_tokens r)" by auto
  from lexed_tiles [OF assms(1) _ this]
  have tl: "tiles (snap_text s) 0 (concat (map token_ranges (lex_tokens r))) (text_length s)" by simp
  have len: "text_length s \<le> u32_max" using assms(1) by (simp add: snapshot_wf_def)
  from place_tokens_tiles [OF tl len] obtain gs
    where gs: "map from_syntax_token (lex_tokens r) = map Some gs" "sum_list (map green_full_width gs) = text_length s"
    by auto
  moreover have "green_token_wf g \<and> green_presence g = Present" if "g \<in> set gs" for g
  proof -
    from that gs(1) have "Some g \<in> from_syntax_token ` set (lex_tokens r)" by (metis imageI list.set_map)
    then obtain t where "t \<in> set (lex_tokens r)" "from_syntax_token t = Some g" by auto
    with lexed_tokens_ok [OF assms(1) _ l] from_syntax_token_wf [of t g] show ?thesis by simp
  qed
  ultimately show ?thesis by blast
qed

text \<open>
  C12. A syntax tree is lossless: when the present leaves of a well-formed source unit are the green
  forms of the tokens the lexer returns for its text, in order and nested in any way, with missing
  tokens anywhere between them, then iterating over the tree returns every lexed token with its
  position and trivia restored, writing the unit reproduces the source text byte for byte, and the
  width of the unit is the length of the text.
\<close>

theorem source_unit_lossless:
  assumes "snapshot_wf (unit_source u)" "node_wf (unit_node u)"
    and "lex_source_unit ua (unit_source u) = Some r"
    and "map from_syntax_token (lex_tokens r)
      = map Some (filter (\<lambda>g. green_presence g = Present) (leaves (node_children (unit_node u))))"
  shows "\<exists>ts. unit_tokens u = Some ts \<and> filter (\<lambda>t. tok_presence t = Present) ts = lex_tokens r
    \<and> unit_full_text u = Some (snap_text (unit_source u))
    \<and> unit_full_range u = Some \<lparr>tr_start = 0, tr_end = text_length (unit_source u)\<rparr>"
proof -
  let ?s = "unit_source u"
  from lex_source_unit_spec [OF assms(1), of ua] assms(3) have "lexed ua ?s 0 (lex_tokens r)" by auto
  from lexed_tiles [OF assms(1) _ this]
  have tl: "tiles (snap_text ?s) 0 (concat (map token_ranges (lex_tokens r))) (text_length ?s)" by simp
  have len: "text_length ?s \<le> u32_max" using assms(1) by (simp add: snapshot_wf_def)
  from tree_text_tiles [OF assms(2) refl tl len assms(4)] len show ?thesis
    by (auto simp: unit_tokens_def unit_full_text_def unit_full_range_def full_range_from_width_def
        text_range_with_len_def text_size_checked_add_def)
qed

text \<open>An example of such a unit: all tokens under one node, and a missing identifier in front.\<close>

definition sample_unit :: "source_snapshot \<Rightarrow> green_token list \<Rightarrow> source_unit_syntax" where
  "sample_unit s gs = (let m = \<lparr>green_kind = IdentifierToken, green_width = 0, green_presence = Missing,
       green_full_width = 0, green_leading = [], green_trailing = []\<rparr>;
     es = map TokenElement gs; w = elements_width es
   in \<lparr>unit_source = s, unit_node = GreenNode SourceUnit w
        [TokenElement m, NodeElement (GreenNode ModuleBody w es)]\<rparr>)"

lemma sample_unit_simps:
  assumes "\<forall>g \<in> set gs. green_token_wf g \<and> green_presence g = Present"
  shows "node_wf (unit_node (sample_unit s gs))" "unit_source (sample_unit s gs) = s"
    "filter (\<lambda>g. green_presence g = Present) (leaves (node_children (unit_node (sample_unit s gs)))) = gs"
  using assms by (simp_all add: sample_unit_def Let_def is_node_def is_token_def is_trivia_def green_token_wf_def)

theorem source_unit_lossless_witness:
  "\<exists>u. unit_source u = text_snapshot ''let x = 1 // one'' \<and> unit_full_text u = Some ''let x = 1 // one''"
proof -
  let ?s = "text_snapshot ''let x = 1 // one''"
  have wf: "snapshot_wf ?s"
    by (rule text_snapshot_wf) (simp_all add: u32_max_def)
  from lex_source_unit_spec [OF wf, of "\<lambda>_. False"] obtain r where r: "lex_source_unit (\<lambda>_. False) ?s = Some r" by blast
  from lexed_greens [OF wf r] obtain gs where gs: "map from_syntax_token (lex_tokens r) = map Some gs"
    "\<forall>g \<in> set gs. green_token_wf g \<and> green_presence g = Present" by blast
  note u = sample_unit_simps [OF gs(2), of ?s]
  show ?thesis
    using source_unit_lossless [of "sample_unit ?s gs" "\<lambda>_. False" r] u wf r gs(1)
    by (intro exI [of _ "sample_unit ?s gs"]) auto
qed

subsection \<open>The walker does the recursive traversal\<close>

definition unless_stopped :: "(bool \<times> 's) run \<Rightarrow> ('s \<Rightarrow> (bool \<times> 's) run) \<Rightarrow> (bool \<times> 's) run" where
  "unless_stopped m f = do { (stop, s) \<leftarrow> m; (if stop then Some (True, s) else f s) }"

lemma unless_stopped_assoc:
  "unless_stopped (unless_stopped m f) g = unless_stopped m (\<lambda>s. unless_stopped (f s) g)"
  by (cases m) (auto simp: unless_stopped_def split: prod.splits)

lemma unless_stopped_simps [simp]:
  "unless_stopped None f = None"
  "unless_stopped (Some (True, s)) f = Some (True, s)"
  "unless_stopped (Some (False, s)) f = f s"
  by (simp_all add: unless_stopped_def)

text \<open>
  The specification of a walk: visit the elements from left to right, the children of a node between
  its two events, and let the control decide after every event.
\<close>

fun traverse :: "source_snapshot \<Rightarrow> 's visitor \<Rightarrow> green_element list \<Rightarrow> text_size \<Rightarrow> 's \<Rightarrow> (bool \<times> 's) run" where
  "traverse source v [] i s = Some (False, s)"
| "traverse source v (TokenElement t # es) i s = do {
     (control, s') \<leftarrow> v (TokenEvent (place_token t i)) s;
     (if control = Stop then Some (True, s') else traverse source v es (i + green_full_width t) s')
   }"
| "traverse source v (NodeElement (GreenNode k w cs) # es) i s =
     (let view = \<lparr>view_source = source, view_node = GreenNode k w cs, view_start = i\<rparr> in do {
        (control, s') \<leftarrow> v (EnterNode view) s;
        (case control of
           Stop \<Rightarrow> Some (True, s')
         | SkipChildren \<Rightarrow> unless_stopped (emit_exit view v s') (\<lambda>s''. traverse source v es (i + w) s'')
         | Continue \<Rightarrow> unless_stopped (traverse source v cs i s')
             (\<lambda>s''. unless_stopped (emit_exit view v s'') (\<lambda>s3. traverse source v es (i + w) s3)))
      })"

lemma traverse_node:
  "traverse source v (NodeElement n # es) i s =
     (let view = \<lparr>view_source = source, view_node = n, view_start = i\<rparr> in do {
        (control, s') \<leftarrow> v (EnterNode view) s;
        (case control of
           Stop \<Rightarrow> Some (True, s')
         | SkipChildren \<Rightarrow> unless_stopped (emit_exit view v s') (traverse source v es (i + node_full_width n))
         | Continue \<Rightarrow> unless_stopped (traverse source v (node_children n) i s')
             (\<lambda>s''. unless_stopped (emit_exit view v s'') (traverse source v es (i + node_full_width n))))
      })"
  by (cases n) (simp only: traverse.simps green_node.sel)

fun traverse_stack :: "'s visitor \<Rightarrow> walk_cursor list \<Rightarrow> 's \<Rightarrow> (bool \<times> 's) run" where
  "traverse_stack v [] s = Some (False, s)"
| "traverse_stack v (c # stack) s =
     unless_stopped (traverse (view_source (walk_view c)) v (walk_children c) (walk_offset c) s)
       (\<lambda>s'. unless_stopped (emit_exit (walk_view c) v s') (\<lambda>s''. traverse_stack v stack s''))"

lemma traverse_stack_Nil: "traverse_stack v [] = (\<lambda>s. Some (False, s))"
  by (rule ext) simp

lemma traverse_stack_Cons:
  "traverse_stack v (c # stack) = (\<lambda>s.
     unless_stopped (traverse (view_source (walk_view c)) v (walk_children c) (walk_offset c) s)
       (\<lambda>s'. unless_stopped (emit_exit (walk_view c) v s') (traverse_stack v stack)))"
  by (rule ext) simp

definition walk_stack_wf :: "walk_cursor list \<Rightarrow> bool" where
  "walk_stack_wf stack \<longleftrightarrow> (\<forall>c \<in> set stack. elements_wf (walk_children c)
     \<and> walk_offset c + elements_width (walk_children c) \<le> u32_max)"

definition walk_size :: "walk_cursor list \<Rightarrow> nat" where
  "walk_size stack = sum_list (map (\<lambda>c. Suc (size_list size (walk_children c))) stack)"

lemma walk_stack_simps [simp]:
  "walk_stack_wf (c # stack) \<longleftrightarrow> elements_wf (walk_children c)
     \<and> walk_offset c + elements_width (walk_children c) \<le> u32_max \<and> walk_stack_wf stack"
  "walk_size (c # stack) = Suc (size_list size (walk_children c)) + walk_size stack"
  by (auto simp: walk_stack_wf_def walk_size_def)

lemma walk_loop_traverses:
  "walk_stack_wf stack \<Longrightarrow> walk_loop v stack s = traverse_stack v stack s"
proof (induction stack arbitrary: s rule: measure_induct_rule [of walk_size])
  case (less stack)
  show ?case
  proof (cases stack)
    case Nil
    then show ?thesis by (simp add: walk_loop.simps [of v "[]" s])
  next
    case (Cons current rest)
    note stack = this and eq = walk_loop.simps [of v "current # rest" s]
    let ?source = "view_source (walk_view current)" and ?i = "walk_offset current"
    show ?thesis
    proof (cases "walk_children current")
      case Nil
      have ih: "walk_loop v rest s' = traverse_stack v rest s'" for s'
        using less stack Nil by simp
      show ?thesis
        using stack Nil by (cases "emit_exit (walk_view current) v s") (auto simp: eq ih unless_stopped_def)
    next
      case (Cons child children)
      let ?current = "current\<lparr>walk_children := children, walk_offset := ?i + element_full_width child\<rparr>"
      have size: "walk_size (?current # rest) < walk_size stack" and wf: "walk_stack_wf (?current # rest)"
        and le: "?i + element_full_width child \<le> u32_max"
        using less.prems stack Cons by (cases child; auto)+
      have ih: "walk_loop v (?current # rest) s' = traverse_stack v (?current # rest) s'" for s'
        by (rule less.IH [OF size wf])
      show ?thesis
      proof (cases child)
        case (TokenElement t)
        with less.prems stack Cons have "green_syntax_token t ?i = Some (place_token t ?i)"
          by (intro green_syntax_token_Some) auto
        with TokenElement stack Cons le ih show ?thesis
          by (cases "v (TokenEvent (place_token t ?i)) s") (auto simp: eq split: prod.splits)
      next
        case (NodeElement n)
        let ?view = "\<lparr>view_source = ?source, view_node = n, view_start = ?i\<rparr>"
        have nwf: "walk_stack_wf (walk_cursor_new ?view # ?current # rest)"
          using less.prems stack Cons NodeElement wf by (auto simp: walk_cursor_new_def dest: node_wfD)
        have nsize: "walk_size (walk_cursor_new ?view # ?current # rest) < walk_size stack"
          using stack Cons NodeElement by (cases n) (simp add: walk_cursor_new_def)
        note inner = less.IH [OF nsize nwf]
        have le': "?i + node_full_width n \<le> u32_max" using le NodeElement by simp
        show ?thesis
        proof (cases "v (EnterNode ?view) s")
          case None
          with NodeElement stack Cons le' show ?thesis by (simp add: eq traverse_node Let_def)
        next
          case (Some r)
          obtain control s1 where r: "r = (control, s1)" by force
          show ?thesis
          proof (cases control)
            case Continue
            with Some r NodeElement stack Cons le' inner [of s1] show ?thesis
              by (simp add: eq traverse_node Let_def walk_cursor_new_def unless_stopped_assoc traverse_stack_Cons)
          next
            case SkipChildren
            with Some r NodeElement stack Cons le' ih show ?thesis
              by (cases "emit_exit ?view v s1")
                (auto simp: eq traverse_node Let_def unless_stopped_assoc split: prod.splits if_splits)
          next
            case Stop
            with Some r NodeElement stack Cons le' show ?thesis
              by (simp add: eq traverse_node Let_def)
          qed
        qed
      qed
    qed
  qed
qed

lemma walk_node_traverses:
  assumes "node_wf (view_node root)" "view_start root + node_full_width (view_node root) \<le> u32_max"
  shows "walk_node root v s = traverse (view_source root) v [NodeElement (view_node root)] (view_start root) s"
proof -
  have view: "\<lparr>view_source = view_source root, view_node = view_node root, view_start = view_start root\<rparr> = root"
    by simp
  have "walk_stack_wf [walk_cursor_new root]"
    using assms by (auto simp: walk_cursor_new_def walk_stack_wf_def dest: node_wfD)
  from walk_loop_traverses [OF this] have loop: "walk_loop v [walk_cursor_new root] s'
      = unless_stopped (traverse (view_source root) v (node_children (view_node root)) (view_start root) s')
          (\<lambda>s'. unless_stopped (emit_exit root v s') (\<lambda>s''. Some (False, s'')))" for s'
    by (simp add: walk_cursor_new_def traverse_stack_Nil)
  have skip: "emit_exit root v s' = unless_stopped (emit_exit root v s') (\<lambda>s''. Some (False, s''))" for s'
    by (cases "emit_exit root v s'") (auto simp: unless_stopped_def split: prod.splits)
  show ?thesis
    unfolding walk_node_def traverse_node Let_def view loop traverse.simps(1)
    by (cases "v (EnterNode root) s") (auto split: syntax_walk_control.splits prod.splits intro: skip)
qed



subsection \<open>Walks that go on\<close>

fun element_events :: "source_snapshot \<Rightarrow> green_element list \<Rightarrow> text_size \<Rightarrow> syntax_walk_event list" where
  "element_events source [] i = []"
| "element_events source (TokenElement t # es) i =
     TokenEvent (place_token t i) # element_events source es (i + green_full_width t)"
| "element_events source (NodeElement (GreenNode k w cs) # es) i =
     (let view = \<lparr>view_source = source, view_node = GreenNode k w cs, view_start = i\<rparr>
      in EnterNode view # element_events source cs i @ ExitNode view # element_events source es (i + w))"

text \<open>A visitor that always continues is applied to every event of the tree, in order.\<close>

lemma traverse_continue:
  "\<forall>e \<in> set (element_events source es i). \<forall>s. v e s = Some (Continue, f e s)
   \<Longrightarrow> traverse source v es i s = Some (False, fold f (element_events source es i) s)"
  by (induction source v es i s rule: traverse.induct) (simp_all add: Let_def emit_exit_def)

fun entered :: "syntax_walk_event list \<Rightarrow> syntax_node_view list" where
  "entered [] = []"
| "entered (EnterNode v # es) = v # entered es"
| "entered (_ # es) = entered es"

lemma entered_append [simp]: "entered (es @ fs) = entered es @ entered fs"
  by (induction es rule: entered.induct) auto

lemma entered_set: "v \<in> set (entered es) \<longleftrightarrow> EnterNode v \<in> set es"
  by (induction es rule: entered.induct) auto

definition view_ok :: "source_snapshot \<Rightarrow> syntax_node_view \<Rightarrow> bool" where
  "view_ok source v \<longleftrightarrow> view_source v = source \<and> node_wf (view_node v)
     \<and> view_start v + node_full_width (view_node v) \<le> u32_max"

lemma entered_ok:
  "elements_wf es \<Longrightarrow> i + elements_width es \<le> u32_max
   \<Longrightarrow> \<forall>v \<in> set (entered (element_events source es i)). view_ok source v"
  by (induction source es i rule: element_events.induct) (auto simp: Let_def view_ok_def)

definition unit_views :: "source_unit_syntax \<Rightarrow> syntax_node_view list" where
  "unit_views u = entered (element_events (unit_source u) [NodeElement (unit_node u)] 0)"

subsection \<open>The index finds the first node with a key\<close>

definition key_of :: "syntax_node_view \<Rightarrow> syntax_node_key" where
  "key_of v = \<lparr>key_source_id = snap_source_id (view_source v), key_kind = node_kind (view_node v),
     key_full_range = \<lparr>tr_start = view_start v, tr_end = view_start v + node_full_width (view_node v)\<rparr>,
     key_is_recovered = (node_kind (view_node v) = SkippedSyntax
       \<or> (\<exists>g \<in> set (leaves (node_children (view_node v))). green_presence g = Missing)
       \<or> has_skipped (node_children (view_node v)))\<rparr>"

lemma node_key_Some: "view_ok source v \<Longrightarrow> node_key v = Some (key_of v)"
  by (auto simp: node_key_def key_of_def view_ok_def view_full_range_def full_range_from_width_def
      text_range_with_len_def text_size_checked_add_def view_is_recovered_def contains_recovery_spec)

definition index_entry :: "nat \<Rightarrow> syntax_node_view \<Rightarrow> indexed_syntax_node" where
  "index_entry k v = \<lparr>indexed_source_unit = k, indexed_node = view_node v, indexed_start = view_start v\<rparr>"

fun index_step :: "nat \<Rightarrow> syntax_walk_event \<Rightarrow> node_index \<Rightarrow> node_index" where
  "index_step k (EnterNode v) m = (if m (key_of v) = None then m(key_of v \<mapsto> index_entry k v) else m)"
| "index_step k _ m = m"

lemma fold_index_step:
  "fold (index_step k) es m key = (case m key of Some x \<Rightarrow> Some x
   | None \<Rightarrow> map_option (index_entry k) (find (\<lambda>v. key_of v = key) (entered es)))"
  by (induction es arbitrary: m rule: entered.induct) (auto split: option.splits)

lemma index_unit:
  assumes "node_wf (unit_node u)" "node_full_width (unit_node u) \<le> u32_max"
  shows "walk_node (unit_view u) (index_visitor k) m
    = Some (False, fold (index_step k) (element_events (unit_source u) [NodeElement (unit_node u)] 0) m)"
proof -
  let ?es = "element_events (unit_source u) [NodeElement (unit_node u)] 0"
  have ok: "\<forall>v \<in> set (entered ?es). view_ok (unit_source u) v"
    by (rule entered_ok) (use assms in simp_all)
  have "index_visitor k e m' = Some (Continue, index_step k e m')" if "e \<in> set ?es" for e m'
  proof (cases e)
    case (EnterNode v)
    with that ok have "view_ok (unit_source u) v" by (auto simp: entered_set)
    with EnterNode show ?thesis by (simp add: node_key_Some index_entry_def)
  qed simp_all
  then show ?thesis
    using walk_node_traverses [of "unit_view u" "index_visitor k" m] assms
      traverse_continue [of "unit_source u" "[NodeElement (unit_node u)]" 0 "index_visitor k" "index_step k"]
    by (simp add: unit_view_def)
qed

lemma find_append: "find P (xs @ ys) = (case find P xs of Some x \<Rightarrow> Some x | None \<Rightarrow> find P ys)"
  by (induction xs) auto

abbreviation units_ok :: "source_unit_syntax list \<Rightarrow> bool" where
  "units_ok us \<equiv> \<forall>u \<in> set us. node_wf (unit_node u) \<and> node_full_width (unit_node u) \<le> u32_max"

lemma index_units_spec:
  assumes "units_ok us"
  shows "\<exists>m'. index_units k us m = Some m' \<and> (\<forall>key. case m key of
      Some x \<Rightarrow> m' key = Some x
    | None \<Rightarrow> (case find (\<lambda>v. key_of v = key) (concat (map unit_views us)) of
        None \<Rightarrow> m' key = None
      | Some v \<Rightarrow> (\<exists>j < length us. m' key = Some (index_entry (k + j) v) \<and> view_source v = unit_source (us ! j))))"
  using assms
proof (induction us arbitrary: k m)
  case Nil
  then show ?case by (auto split: option.splits)
next
  case (Cons u us)
  let ?es = "element_events (unit_source u) [NodeElement (unit_node u)] 0"
  let ?m = "fold (index_step k) ?es m"
  from Cons.prems have u: "node_wf (unit_node u)" "node_full_width (unit_node u) \<le> u32_max" by auto
  from Cons.prems have "units_ok us" by simp
  from Cons.IH [OF this, of "Suc k" ?m] obtain m' where m': "index_units (Suc k) us ?m = Some m'"
    "\<And>key. case ?m key of
      Some x \<Rightarrow> m' key = Some x
    | None \<Rightarrow> (case find (\<lambda>v. key_of v = key) (concat (map unit_views us)) of
        None \<Rightarrow> m' key = None
      | Some v \<Rightarrow> (\<exists>j < length us. m' key = Some (index_entry (Suc k + j) v) \<and> view_source v = unit_source (us ! j)))"
    by blast
  have src: "view_source v = unit_source u" if "v \<in> set (unit_views u)" for v
    using that entered_ok [of "[NodeElement (unit_node u)]" 0 "unit_source u"] u
    by (auto simp: unit_views_def view_ok_def)
  show ?case
  proof (intro exI conjI allI)
    show "index_units k (u # us) m = Some m'"
      using m'(1) index_unit [OF u] by simp
    fix key
    show "case m key of
      Some x \<Rightarrow> m' key = Some x
    | None \<Rightarrow> (case find (\<lambda>v. key_of v = key) (concat (map unit_views (u # us))) of
        None \<Rightarrow> m' key = None
      | Some v \<Rightarrow> (\<exists>j < length (u # us). m' key = Some (index_entry (k + j) v) \<and> view_source v = unit_source ((u # us) ! j)))"
    proof (cases "m key")
      case (Some x)
      with m'(2) [of key] show ?thesis by (simp add: fold_index_step)
    next
      case None
      show ?thesis
      proof (cases "find (\<lambda>v. key_of v = key) (unit_views u)")
        case (Some v)
        then have "v \<in> set (unit_views u)" by (auto simp: find_Some_iff in_set_conv_nth)
        with None Some m'(2) [of key] src [of v] show ?thesis
          by (auto simp: fold_index_step find_append unit_views_def intro!: exI [of _ 0])
      next
        case none: None
        with None m'(2) [of key] show ?thesis
          by (auto simp: fold_index_step find_append unit_views_def split: option.splits)
      qed
    qed
  qed
qed

text \<open>
  A node handle resolves to the first node with its key: on a tree of well-formed units the
  lookup returns, and its result is the first view in source order, units in their order and outer
  nodes before inner ones, that has the source, the kind, the full range and the recovery flag of
  the handle; there is none exactly when the lookup finds none.
\<close>

theorem find_node_finds_first:
  assumes "units_ok (source_units c)"
  shows "find_node c sid kind r recovered = Some (find
    (\<lambda>v. key_of v = \<lparr>key_source_id = sid, key_kind = kind, key_full_range = r, key_is_recovered = recovered\<rparr>)
    (concat (map unit_views (source_units c))))"
proof -
  let ?key = "\<lparr>key_source_id = sid, key_kind = kind, key_full_range = r, key_is_recovered = recovered\<rparr>"
  from index_units_spec [OF assms, of 0 "\<lambda>_. None"] obtain m
    where m: "index_units 0 (source_units c) (\<lambda>_. None) = Some m"
      "\<And>key. case find (\<lambda>v. key_of v = key) (concat (map unit_views (source_units c))) of
        None \<Rightarrow> m key = None
      | Some v \<Rightarrow> (\<exists>j < length (source_units c). m key = Some (index_entry (0 + j) v)
          \<and> view_source v = unit_source (source_units c ! j))" by auto
  show ?thesis
  proof (cases "find (\<lambda>v. key_of v = ?key) (concat (map unit_views (source_units c)))")
    case None
    with m(1) m(2) [of ?key] show ?thesis by (simp add: find_node_def indexed_nodes_def)
  next
    case (Some v)
    with m(2) [of ?key] obtain j where "j < length (source_units c)" "m ?key = Some (index_entry j v)"
      "view_source v = unit_source (source_units c ! j)" by auto
    with m(1) Some show ?thesis
      by (cases v) (simp add: find_node_def indexed_nodes_def indexed_view_def index_entry_def get_def)
  qed
qed

theorem find_node_finds_first_witness:
  "find_node \<lparr>source_units = [\<lparr>unit_source = text_snapshot [], unit_node = GreenNode SourceUnit 0
       [NodeElement (GreenNode ModuleBody 0 [])]\<rparr>]\<rparr> 0 ModuleBody \<lparr>tr_start = 0, tr_end = 0\<rparr> False
   = Some (Some \<lparr>view_source = text_snapshot [], view_node = GreenNode ModuleBody 0 [], view_start = 0\<rparr>)"
proof -
  let ?c = "\<lparr>source_units = [\<lparr>unit_source = text_snapshot [], unit_node = GreenNode SourceUnit 0
       [NodeElement (GreenNode ModuleBody 0 [])]\<rparr>]\<rparr>"
  have "units_ok (source_units ?c)" by (simp add: is_node_def)
  from find_node_finds_first [OF this, of 0 ModuleBody "\<lparr>tr_start = 0, tr_end = 0\<rparr>" False]
  show ?thesis by (simp add: unit_views_def key_of_def Let_def text_snapshot_def)
qed

subsection \<open>Direct children\<close>

fun direct_views :: "source_snapshot \<Rightarrow> green_element list \<Rightarrow> text_size \<Rightarrow> syntax_node_view list" where
  "direct_views source [] i = []"
| "direct_views source (TokenElement t # es) i = direct_views source es (i + green_full_width t)"
| "direct_views source (NodeElement n # es) i =
     \<lparr>view_source = source, view_node = n, view_start = i\<rparr> # direct_views source es (i + node_full_width n)"

fun visit_until_stop :: "'s node_visitor \<Rightarrow> syntax_node_view list \<Rightarrow> 's \<Rightarrow> (bool \<times> 's) run" where
  "visit_until_stop v [] s = Some (False, s)"
| "visit_until_stop v (x # xs) s = do {
     (control, s') \<leftarrow> v x s;
     (if control = Stop then Some (True, s') else visit_until_stop v xs s')
   }"

lemma traverse_direct_children:
  "traverse source (direct_child_visitor v) es i (1, s)
     = map_option (\<lambda>(stop, s'). (stop, (if stop then 2 else 1, s'))) (visit_until_stop v (direct_views source es i) s)"
proof (induction source es i arbitrary: s rule: direct_views.induct)
  case (3 source n es i)
  let ?view = "\<lparr>view_source = source, view_node = n, view_start = i\<rparr>"
  show ?case
  proof (cases "v ?view s")
    case None
    then show ?thesis by (simp add: traverse_node Let_def)
  next
    case (Some r)
    obtain control s' where "r = (control, s')" by force
    with Some "3.IH" [of s'] show ?thesis
      by (cases control) (simp_all add: traverse_node Let_def emit_exit_def)
  qed
qed simp_all

text \<open>
  The direct-child walk calls its visitor exactly on the direct child nodes of a node, in source
  order and with their offsets, never on a deeper node, until the visitor stops.
\<close>

theorem walk_direct_child_nodes_correct:
  assumes "node_wf (view_node root)" "view_start root + node_full_width (view_node root) \<le> u32_max"
  shows "walk_direct_child_nodes root v s
    = map_option snd (visit_until_stop v (direct_views (view_source root) (node_children (view_node root)) (view_start root)) s)"
proof -
  let ?views = "direct_views (view_source root) (node_children (view_node root)) (view_start root)"
  note walk = walk_node_traverses [OF assms, of "direct_child_visitor v" "(0, s)"]
  show ?thesis
  proof (cases "visit_until_stop v ?views s")
    case None
    then show ?thesis
      by (simp add: walk_direct_child_nodes_def walk traverse_node Let_def traverse_direct_children [unfolded One_nat_def])
  next
    case (Some r)
    obtain stop s' where "r = (stop, s')" by force
    with Some show ?thesis
      by (cases stop) (simp_all add: walk_direct_child_nodes_def walk traverse_node Let_def emit_exit_def
          traverse_direct_children [unfolded One_nat_def])
  qed
qed

theorem walk_direct_child_nodes_correct_witness:
  "walk_direct_child_nodes \<lparr>view_source = text_snapshot [], view_node = GreenNode SourceUnit 0
       [NodeElement (GreenNode ModuleBody 0 [NodeElement (GreenNode ModuleBody 0 [])]),
        NodeElement (GreenNode SkippedSyntax 0 [])], view_start = 0\<rparr>
     (\<lambda>v s. Some (Continue, s @ [node_kind (view_node v)])) [] = Some [ModuleBody, SkippedSyntax]"
proof -
  let ?n = "GreenNode SourceUnit 0 [NodeElement (GreenNode ModuleBody 0 [NodeElement (GreenNode ModuleBody 0 [])]),
        NodeElement (GreenNode SkippedSyntax 0 [])]"
  let ?root = "\<lparr>view_source = text_snapshot [], view_node = ?n, view_start = 0\<rparr>"
  have "node_wf (view_node ?root)" by (simp add: is_node_def)
  moreover have "view_start ?root + node_full_width (view_node ?root) \<le> u32_max" by simp
  ultimately show ?thesis
    using walk_direct_child_nodes_correct [of ?root "\<lambda>v s. Some (Continue, s @ [node_kind (view_node v)])" "[]"]
    by simp
qed

end
