(* ===== verification/Parser_Cursor.thy ===== *)
theory Parser_Cursor
  imports Syntax_Tree
begin

text \<open>
  The parser's view of the tokens (\<open>crates/bray-parser/src\<close>): the syntax diagnostics
  (\<open>diagnostic.rs\<close>), the cursor over the token source with expectation and recovery
  (\<open>cursor.rs\<close>), and the parser state with its nesting limit and its speculative scans
  (\<open>parser/state.rs\<close>, \<open>parser/delimiter.rs\<close>). A checkpoint is a copy of the cursor, so it is the
  cursor itself here. The parameter \<open>ua\<close> is the Unicode table of the lexer.

  The lemmas show that no operation panics, that every consumed token is the token of the text at
  the cursor, that expecting and peeking never move, and exactly where each recovery loop stops.
\<close>

subsection \<open>Syntax diagnostics\<close>

definition syntax_diagnostic :: "source_span \<Rightarrow> diagnostic_kind \<Rightarrow> diagnostic" where
  "syntax_diagnostic sp kind =
     with_primary_span sp (diagnostic_new (diagnostic_id (tr_start (span_range sp))) kind SeverityError)"

definition token_text_arg :: "source_snapshot \<Rightarrow> syntax_token \<Rightarrow> diagnostic_arg option" where
  "token_text_arg s token = (case token_source_text token (snap_text s) of
     None \<Rightarrow> None
   | Some text \<Rightarrow> if text = [] then None else Some (TokenTextArg text))"

definition insertion_suggestion :: "syntax_kind \<Rightarrow> source_span \<Rightarrow> diagnostic_suggestion option" where
  "insertion_suggestion expected sp = (case fixed_text expected of
     None \<Rightarrow> None
   | Some replacement \<Rightarrow> Some (suggestion_with_arg (ExpectedSyntaxKindArg expected)
       (maybe_edit InsertExpectedSyntax \<lparr>dedit_span = sp, dedit_replacement = replacement\<rparr>)))"

definition expected_token_at ::
    "source_snapshot \<Rightarrow> syntax_kind \<Rightarrow> syntax_token \<Rightarrow> source_span \<Rightarrow> diagnostic_label_kind \<Rightarrow> diagnostic" where
  "expected_token_at s expected actual sp label =
     with_label (label_with_arg (ExpectedSyntaxKindArg expected) (label_primary label sp))
       (with_optional_arg (token_text_arg s actual)
         (with_arg (ActualSyntaxKindArg (tok_kind actual))
           (with_arg (ExpectedSyntaxKindArg expected) (syntax_diagnostic sp SyntaxExpectedToken))))"

definition with_optional_suggestion :: "diagnostic_suggestion option \<Rightarrow> diagnostic \<Rightarrow> diagnostic" where
  "with_optional_suggestion s d = (case s of Some x \<Rightarrow> with_suggestion x d | None \<Rightarrow> d)"

definition expected_token :: "source_snapshot \<Rightarrow> syntax_kind \<Rightarrow> syntax_token \<Rightarrow> diagnostic" where
  "expected_token s expected actual =
     (let sp = diag_span s (text_range_empty (tok_start actual))
      in with_optional_suggestion (insertion_suggestion expected sp)
           (expected_token_at s expected actual sp LabelExpectedTokenInsertionPoint))"

definition expected_operator :: "source_snapshot \<Rightarrow> syntax_kind \<Rightarrow> syntax_token \<Rightarrow> diagnostic" where
  "expected_operator s expected actual =
     expected_token_at s expected actual (diag_span s (tok_range actual)) LabelInvalidOperatorOrPunctuation"

definition unexpected_eof :: "source_snapshot \<Rightarrow> syntax_kind \<Rightarrow> syntax_token \<Rightarrow> diagnostic" where
  "unexpected_eof s expected eof =
     (let sp = diag_span s (text_range_empty (tok_start eof))
      in with_optional_suggestion (insertion_suggestion expected sp)
           (with_label (label_primary LabelUnexpectedEof sp)
             (with_arg (ActualSyntaxKindArg (tok_kind eof))
               (with_arg (ExpectedSyntaxKindArg expected) (syntax_diagnostic sp SyntaxUnexpectedEof)))))"

definition expected_expression :: "source_snapshot \<Rightarrow> syntax_token \<Rightarrow> diagnostic" where
  "expected_expression s actual =
     (let sp = diag_span s (tok_range actual); arg = ExpectedSyntaxKindArg Expression
      in with_label (label_with_arg arg (label_primary LabelExpectedExpression sp))
           (with_optional_arg (token_text_arg s actual)
             (with_arg (ActualSyntaxKindArg (tok_kind actual))
               (with_arg arg (syntax_diagnostic sp SyntaxExpectedExpression)))))"

definition nesting_limit_exceeded :: "source_snapshot \<Rightarrow> syntax_token \<Rightarrow> nat \<Rightarrow> diagnostic" where
  "nesting_limit_exceeded s actual maximum_depth =
     (let sp = diag_span s (tok_range actual)
      in with_label (label_primary LabelNestingLimitExceeded sp)
           (with_arg (MaximumCountArg (if maximum_depth \<le> u64_max then maximum_depth else u64_max))
             (syntax_diagnostic sp SyntaxNestingLimitExceeded)))"

definition invalid_directive_target ::
    "source_snapshot \<Rightarrow> syntax_token \<Rightarrow> syntax_token \<Rightarrow> syntax_kind \<Rightarrow> diagnostic" where
  "invalid_directive_target s marker name kind =
     (let sp = diag_span s (text_range_cover (tok_range marker) (tok_range name))
      in with_label (label_primary LabelInvalidDeclaration sp)
           (with_arg (DirectiveKindArg kind) (syntax_diagnostic sp SyntaxInvalidDirectiveTarget)))"

subsection \<open>The cursor\<close>

record recovery_set =
  primary_stop_kinds :: "syntax_kind list"
  additional_stop_kinds :: "syntax_kind list"

definition recovery_set_new :: "syntax_kind list \<Rightarrow> recovery_set" where
  "recovery_set_new kinds = \<lparr>primary_stop_kinds = kinds, additional_stop_kinds = []\<rparr>"

definition with_additional :: "syntax_kind list \<Rightarrow> recovery_set \<Rightarrow> recovery_set" where
  "with_additional kinds rs = \<lparr>primary_stop_kinds = primary_stop_kinds rs, additional_stop_kinds = kinds\<rparr>"

definition recovery_contains :: "recovery_set \<Rightarrow> syntax_kind \<Rightarrow> bool" where
  "recovery_contains rs kind \<longleftrightarrow>
     kind \<in> set (primary_stop_kinds rs) \<or> kind \<in> set (additional_stop_kinds rs)"

record delimiter_pair =
  delimiter_open :: syntax_kind
  delimiter_close :: syntax_kind

record parser_cursor =
  cursor_source :: lexer_token_source
  cursor_diagnostics :: bag

type_synonym 'a cursing = "('a \<times> parser_cursor) run"

definition parser_cursor_new :: "lexer_token_source \<Rightarrow> parser_cursor" where
  "parser_cursor_new src = \<lparr>cursor_source = src, cursor_diagnostics = []\<rparr>"

definition on_source :: "(lexer_token_source \<Rightarrow> 'a lexing) \<Rightarrow> parser_cursor \<Rightarrow> 'a cursing" where
  "on_source f c = do { (x, src) \<leftarrow> f (cursor_source c); Some (x, c\<lparr>cursor_source := src\<rparr>) }"

definition cursor_lookahead :: "unicode_alphanumeric \<Rightarrow> nat \<Rightarrow> parser_cursor \<Rightarrow> syntax_token cursing" where
  "cursor_lookahead ua distance = on_source (\<lambda>src. lookahead ua src distance)"

definition cursor_peek :: "unicode_alphanumeric \<Rightarrow> parser_cursor \<Rightarrow> syntax_token cursing" where
  "cursor_peek ua c = cursor_lookahead ua 0 c"

definition cursor_at :: "unicode_alphanumeric \<Rightarrow> syntax_kind \<Rightarrow> parser_cursor \<Rightarrow> bool cursing" where
  "cursor_at ua kind c = do { (t, c') \<leftarrow> cursor_peek ua c; Some (tok_kind t = kind, c') }"

definition cursor_consume :: "unicode_alphanumeric \<Rightarrow> parser_cursor \<Rightarrow> syntax_token cursing" where
  "cursor_consume ua = on_source (consume ua)"

definition cursor_consume_tuple_element_index_after_dot ::
    "unicode_alphanumeric \<Rightarrow> parser_cursor \<Rightarrow> syntax_token cursing" where
  "cursor_consume_tuple_element_index_after_dot ua = on_source (consume_tuple_element_index_after_dot ua)"

definition cursor_consume_type_punctuation :: "unicode_alphanumeric \<Rightarrow> parser_cursor \<Rightarrow> syntax_token cursing" where
  "cursor_consume_type_punctuation ua = on_source (consume_type_punctuation ua)"

definition cursor_at_generic_close :: "parser_cursor \<Rightarrow> bool run" where
  "cursor_at_generic_close c = at_generic_close (cursor_source c)"

definition cursor_consume_if :: "unicode_alphanumeric \<Rightarrow> syntax_kind \<Rightarrow> parser_cursor \<Rightarrow> syntax_token option cursing" where
  "cursor_consume_if ua kind c = do {
     (b, c') \<leftarrow> cursor_at ua kind c;
     (if \<not> b then Some (None, c')
      else do { (t, c'') \<leftarrow> cursor_consume ua c'; Some (Some t, c'') })
   }"

definition cursor_record_syntax_diagnostic :: "diagnostic \<Rightarrow> parser_cursor \<Rightarrow> parser_cursor" where
  "cursor_record_syntax_diagnostic d c = c\<lparr>cursor_diagnostics := merged (cursor_diagnostics c) [d]\<rparr>"

definition cursor_expect :: "unicode_alphanumeric \<Rightarrow> syntax_kind \<Rightarrow> parser_cursor \<Rightarrow> syntax_token cursing" where
  "cursor_expect ua kind c = do {
     (token, c') \<leftarrow> cursor_peek ua c;
     (if tok_kind token = kind then cursor_consume ua c'
      else do {
        let s = src_snapshot (cursor_source c');
        let d = (if is_end_of_file token then unexpected_eof s kind token else expected_token s kind token);
        missing \<leftarrow> token_missing kind (tok_start token);
        Some (missing, cursor_record_syntax_diagnostic d c')
      })
   }"

definition consume_skipped_token :: "unicode_alphanumeric \<Rightarrow> parser_cursor \<Rightarrow> syntax_token option cursing" where
  "consume_skipped_token ua c = do {
     (token, c') \<leftarrow> cursor_peek ua c;
     (if is_end_of_file token then Some (None, c')
      else do {
        (ot, c'') \<leftarrow> cursor_consume_if ua (tok_kind token) c';
        (case ot of Some t \<Rightarrow> Some (Some t, c'') | None \<Rightarrow> panic)
      })
   }"

definition consume_skipped_token_into ::
    "unicode_alphanumeric \<Rightarrow> syntax_token list \<Rightarrow> parser_cursor \<Rightarrow> syntax_token list cursing" where
  "consume_skipped_token_into ua skipped c = do {
     (ot, c') \<leftarrow> consume_skipped_token ua c;
     (case ot of None \<Rightarrow> Some (skipped, c') | Some t \<Rightarrow> Some (skipped @ [t], c'))
   }"

partial_function (option) skip_until_loop ::
    "unicode_alphanumeric \<Rightarrow> recovery_set \<Rightarrow> syntax_token list \<Rightarrow> parser_cursor \<Rightarrow> syntax_token list cursing" where
  "skip_until_loop ua rs skipped c = do {
     (token, c') \<leftarrow> cursor_peek ua c;
     (if recovery_contains rs (tok_kind token) \<or> is_end_of_file token then Some (skipped, c')
      else do {
        (skipped', c'') \<leftarrow> consume_skipped_token_into ua skipped c';
        skip_until_loop ua rs skipped' c''
      })
   }"

declare skip_until_loop.simps [code]

definition skip_until_tokens :: "unicode_alphanumeric \<Rightarrow> recovery_set \<Rightarrow> parser_cursor \<Rightarrow> syntax_token list cursing" where
  "skip_until_tokens ua rs c = skip_until_loop ua rs [] c"

definition cursor_skip_until :: "unicode_alphanumeric \<Rightarrow> recovery_set \<Rightarrow> parser_cursor \<Rightarrow> syntax_token list cursing" where
  "cursor_skip_until ua rs c = skip_until_tokens ua rs c"

definition cursor_skip_current_and_until ::
    "unicode_alphanumeric \<Rightarrow> recovery_set \<Rightarrow> parser_cursor \<Rightarrow> syntax_token list cursing" where
  "cursor_skip_current_and_until ua rs c = do {
     (skipped, c') \<leftarrow> consume_skipped_token_into ua [] c;
     (more, c'') \<leftarrow> skip_until_tokens ua rs c';
     Some (skipped @ more, c'')
   }"

definition cursor_skip_one :: "unicode_alphanumeric \<Rightarrow> parser_cursor \<Rightarrow> syntax_token option cursing" where
  "cursor_skip_one ua c = do {
     (skipped, c') \<leftarrow> consume_skipped_token_into ua [] c;
     Some (case skipped of [] \<Rightarrow> None | t # _ \<Rightarrow> Some t, c')
   }"

partial_function (option) balanced_close_loop ::
    "unicode_alphanumeric \<Rightarrow> delimiter_pair \<Rightarrow> recovery_set \<Rightarrow> nat \<Rightarrow> syntax_token list \<Rightarrow> parser_cursor
     \<Rightarrow> syntax_token list cursing" where
  "balanced_close_loop ua ds rs depth skipped c = do {
     (token, c') \<leftarrow> cursor_peek ua c;
     (if is_end_of_file token \<or> tok_kind token = delimiter_close ds \<and> depth = 0
         \<or> depth = 0 \<and> recovery_contains rs (tok_kind token)
      then Some (skipped, c')
      else do {
        (ot, c'') \<leftarrow> consume_skipped_token ua c';
        (case ot of
           None \<Rightarrow> Some (skipped, c'')
         | Some t \<Rightarrow>
             balanced_close_loop ua ds rs
               (if tok_kind t = delimiter_open ds then depth + 1
                else if tok_kind t = delimiter_close ds then depth - 1 else depth)
               (skipped @ [t]) c'')
      })
   }"

declare balanced_close_loop.simps [code]

definition skip_until_balanced_close ::
    "unicode_alphanumeric \<Rightarrow> delimiter_pair \<Rightarrow> recovery_set \<Rightarrow> nat \<Rightarrow> parser_cursor \<Rightarrow> syntax_token list cursing" where
  "skip_until_balanced_close ua ds rs initial_depth c = balanced_close_loop ua ds rs initial_depth [] c"

definition braces :: delimiter_pair where
  "braces = \<lparr>delimiter_open = OpenBraceToken, delimiter_close = CloseBraceToken\<rparr>"

definition cursor_skip_until_balanced_close_brace_or_recovery ::
    "unicode_alphanumeric \<Rightarrow> recovery_set \<Rightarrow> parser_cursor \<Rightarrow> syntax_token list cursing" where
  "cursor_skip_until_balanced_close_brace_or_recovery ua rs c = skip_until_balanced_close ua braces rs 0 c"

definition cursor_skip_current_and_until_balanced_close_brace_or_recovery ::
    "unicode_alphanumeric \<Rightarrow> recovery_set \<Rightarrow> parser_cursor \<Rightarrow> syntax_token list cursing" where
  "cursor_skip_current_and_until_balanced_close_brace_or_recovery ua rs c = do {
     (ot, c') \<leftarrow> consume_skipped_token ua c;
     (more, c'') \<leftarrow> skip_until_balanced_close ua braces rs
       (case ot of Some t \<Rightarrow> if tok_kind t = delimiter_open braces then 1 else 0 | None \<Rightarrow> 0) c';
     Some ((case ot of Some t \<Rightarrow> [t] | None \<Rightarrow> []) @ more, c'')
   }"

definition cursor_finish :: "parser_cursor \<Rightarrow> bag" where
  "cursor_finish c = merged (src_diagnostics (cursor_source c)) (cursor_diagnostics c)"

definition absorb_lexical_diagnostics_from :: "parser_cursor \<Rightarrow> parser_cursor \<Rightarrow> parser_cursor" where
  "absorb_lexical_diagnostics_from other c =
     c\<lparr>cursor_source := record_diagnostics (src_diagnostics (cursor_source other)) (cursor_source c)\<rparr>"

subsection \<open>The parser state\<close>

definition max_syntax_nesting_depth :: nat where
  "max_syntax_nesting_depth = 128"

record parser =
  parser_snapshot :: source_snapshot
  parser_cursor :: parser_cursor
  syntax_nesting_depth :: nat
  syntax_nesting_limit_reported :: bool

type_synonym 'a parsing = "('a \<times> parser) run"

definition parser_new :: "source_snapshot \<Rightarrow> parser" where
  "parser_new s = \<lparr>parser_snapshot = s, parser_cursor = parser_cursor_new (token_source_new s),
     syntax_nesting_depth = 0, syntax_nesting_limit_reported = False\<rparr>"

definition parser_finish :: "parser \<Rightarrow> bag" where
  "parser_finish p = cursor_finish (parser_cursor p)"

definition on_cursor :: "(parser_cursor \<Rightarrow> 'a cursing) \<Rightarrow> parser \<Rightarrow> 'a parsing" where
  "on_cursor f p = do { (x, c) \<leftarrow> f (parser_cursor p); Some (x, p\<lparr>parser_cursor := c\<rparr>) }"

definition parser_lookahead :: "unicode_alphanumeric \<Rightarrow> nat \<Rightarrow> parser \<Rightarrow> syntax_token parsing" where
  "parser_lookahead ua distance = on_cursor (cursor_lookahead ua distance)"

definition parser_peek :: "unicode_alphanumeric \<Rightarrow> parser \<Rightarrow> syntax_token parsing" where
  "parser_peek ua p = parser_lookahead ua 0 p"

definition parser_at :: "unicode_alphanumeric \<Rightarrow> syntax_kind \<Rightarrow> parser \<Rightarrow> bool parsing" where
  "parser_at ua kind p = do { (t, p') \<leftarrow> parser_peek ua p; Some (tok_kind t = kind, p') }"

definition parser_at_any :: "unicode_alphanumeric \<Rightarrow> syntax_kind list \<Rightarrow> parser \<Rightarrow> bool parsing" where
  "parser_at_any ua kinds p = do { (t, p') \<leftarrow> parser_peek ua p; Some (tok_kind t \<in> set kinds, p') }"

definition parser_consume_if :: "unicode_alphanumeric \<Rightarrow> syntax_kind \<Rightarrow> parser \<Rightarrow> syntax_token option parsing" where
  "parser_consume_if ua kind = on_cursor (cursor_consume_if ua kind)"

definition parser_consume :: "unicode_alphanumeric \<Rightarrow> parser \<Rightarrow> syntax_token parsing" where
  "parser_consume ua = on_cursor (cursor_consume ua)"

definition parser_consume_tuple_element_index_after_dot ::
    "unicode_alphanumeric \<Rightarrow> parser \<Rightarrow> syntax_token parsing" where
  "parser_consume_tuple_element_index_after_dot ua = on_cursor (cursor_consume_tuple_element_index_after_dot ua)"

definition parser_consume_type_punctuation :: "unicode_alphanumeric \<Rightarrow> parser \<Rightarrow> syntax_token parsing" where
  "parser_consume_type_punctuation ua = on_cursor (cursor_consume_type_punctuation ua)"

definition parser_at_generic_close :: "parser \<Rightarrow> bool run" where
  "parser_at_generic_close p = cursor_at_generic_close (parser_cursor p)"

definition parser_expect :: "unicode_alphanumeric \<Rightarrow> syntax_kind \<Rightarrow> parser \<Rightarrow> syntax_token parsing" where
  "parser_expect ua kind = on_cursor (cursor_expect ua kind)"

definition parser_expect_generic_close :: "unicode_alphanumeric \<Rightarrow> parser \<Rightarrow> syntax_token parsing" where
  "parser_expect_generic_close ua p = do {
     b \<leftarrow> parser_at_generic_close p;
     (if b then parser_consume_type_punctuation ua p else parser_expect ua GreaterToken p)
   }"

definition parser_token_text :: "parser \<Rightarrow> syntax_token \<Rightarrow> string option" where
  "parser_token_text p token = token_source_text token (snap_text (parser_snapshot p))"

definition parser_skip_until :: "unicode_alphanumeric \<Rightarrow> recovery_set \<Rightarrow> parser \<Rightarrow> syntax_token list parsing" where
  "parser_skip_until ua rs = on_cursor (cursor_skip_until ua rs)"

definition parser_skip_current_and_until ::
    "unicode_alphanumeric \<Rightarrow> recovery_set \<Rightarrow> parser \<Rightarrow> syntax_token list parsing" where
  "parser_skip_current_and_until ua rs = on_cursor (cursor_skip_current_and_until ua rs)"

definition parser_skip_one :: "unicode_alphanumeric \<Rightarrow> parser \<Rightarrow> syntax_token option parsing" where
  "parser_skip_one ua = on_cursor (cursor_skip_one ua)"

definition parser_record_syntax_diagnostic :: "diagnostic \<Rightarrow> parser \<Rightarrow> parser" where
  "parser_record_syntax_diagnostic d p = p\<lparr>parser_cursor := cursor_record_syntax_diagnostic d (parser_cursor p)\<rparr>"

definition parser_skip_until_balanced_close_brace_or_recovery ::
    "unicode_alphanumeric \<Rightarrow> recovery_set \<Rightarrow> parser \<Rightarrow> syntax_token list parsing" where
  "parser_skip_until_balanced_close_brace_or_recovery ua rs
     = on_cursor (cursor_skip_until_balanced_close_brace_or_recovery ua rs)"

definition parser_skip_current_and_until_balanced_close_brace_or_recovery ::
    "unicode_alphanumeric \<Rightarrow> recovery_set \<Rightarrow> parser \<Rightarrow> syntax_token list parsing" where
  "parser_skip_current_and_until_balanced_close_brace_or_recovery ua rs
     = on_cursor (cursor_skip_current_and_until_balanced_close_brace_or_recovery ua rs)"

definition fork_from_checkpoint :: "parser_cursor \<Rightarrow> parser \<Rightarrow> parser" where
  "fork_from_checkpoint checkpoint p = \<lparr>parser_snapshot = parser_snapshot p, parser_cursor = checkpoint,
     syntax_nesting_depth = syntax_nesting_depth p,
     syntax_nesting_limit_reported = syntax_nesting_limit_reported p\<rparr>"

definition scan_ahead :: "(parser \<Rightarrow> bool parsing) \<Rightarrow> parser \<Rightarrow> bool parsing" where
  "scan_ahead scan p = do {
     (decision, fork) \<leftarrow> scan (fork_from_checkpoint (parser_cursor p) p);
     Some (decision, p\<lparr>parser_cursor := absorb_lexical_diagnostics_from (parser_cursor fork) (parser_cursor p)\<rparr>)
   }"

definition try_enter_syntax_nesting :: "unicode_alphanumeric \<Rightarrow> parser \<Rightarrow> bool parsing" where
  "try_enter_syntax_nesting ua p =
     (if syntax_nesting_depth p \<ge> max_syntax_nesting_depth then
        (if \<not> syntax_nesting_limit_reported p then do {
           (actual, p') \<leftarrow> parser_peek ua p;
           Some (False, (parser_record_syntax_diagnostic
             (nesting_limit_exceeded (parser_snapshot p') actual max_syntax_nesting_depth) p')
               \<lparr>syntax_nesting_limit_reported := True\<rparr>)
         }
         else Some (False, p))
      else Some (True, p\<lparr>syntax_nesting_depth := syntax_nesting_depth p + 1\<rparr>))"

definition leave_syntax_nesting :: "parser \<Rightarrow> parser run" where
  "leave_syntax_nesting p =
     (if syntax_nesting_depth p = 0 then panic
      else let p' = p\<lparr>syntax_nesting_depth := syntax_nesting_depth p - 1\<rparr>
           in Some (if syntax_nesting_depth p' = 0 then p'\<lparr>syntax_nesting_limit_reported := False\<rparr> else p'))"

subsection \<open>Delimiter depth\<close>

record delimiter_depth =
  paren_depth :: nat
  bracket_depth :: nat
  brace_depth :: nat
  angle_depth :: nat

definition delimiter_depth_default :: delimiter_depth where
  "delimiter_depth_default = \<lparr>paren_depth = 0, bracket_depth = 0, brace_depth = 0, angle_depth = 0\<rparr>"

definition is_at_root :: "delimiter_depth \<Rightarrow> bool" where
  "is_at_root d \<longleftrightarrow> paren_depth d = 0 \<and> bracket_depth d = 0 \<and> brace_depth d = 0 \<and> angle_depth d = 0"

definition observe_grouping :: "syntax_kind \<Rightarrow> delimiter_depth \<Rightarrow> delimiter_depth" where
  "observe_grouping kind d =
     (if kind = OpenParenToken then d\<lparr>paren_depth := paren_depth d + 1\<rparr>
      else if kind = CloseParenToken then d\<lparr>paren_depth := paren_depth d - 1\<rparr>
      else if kind = OpenBracketToken then d\<lparr>bracket_depth := bracket_depth d + 1\<rparr>
      else if kind = CloseBracketToken then d\<lparr>bracket_depth := bracket_depth d - 1\<rparr>
      else if kind = OpenBraceToken then d\<lparr>brace_depth := brace_depth d + 1\<rparr>
      else if kind = CloseBraceToken then d\<lparr>brace_depth := brace_depth d - 1\<rparr>
      else d)"

definition observe_grouping_or_angle :: "syntax_kind \<Rightarrow> delimiter_depth \<Rightarrow> delimiter_depth" where
  "observe_grouping_or_angle kind d =
     (if kind = LessToken then d\<lparr>angle_depth := angle_depth d + 1\<rparr>
      else if kind = GreaterToken then d\<lparr>angle_depth := angle_depth d - 1\<rparr>
      else observe_grouping kind d)"

subsection \<open>What the cursor sees\<close>

abbreviation cursor_snapshot :: "parser_cursor \<Rightarrow> source_snapshot" where
  "cursor_snapshot c \<equiv> src_snapshot (cursor_source c)"

abbreviation cursor_position :: "parser_cursor \<Rightarrow> text_size" where
  "cursor_position c \<equiv> src_cursor (cursor_source c)"

text \<open>The token at the cursor, and the state before the end of the file has been consumed.\<close>

definition here :: "unicode_alphanumeric \<Rightarrow> parser_cursor \<Rightarrow> syntax_token" where
  "here ua c = token_at ua (cursor_snapshot c) (cursor_position c)"

definition cursor_ok :: "unicode_alphanumeric \<Rightarrow> parser_cursor \<Rightarrow> bool" where
  "cursor_ok ua c \<longleftrightarrow> source_exact ua (cursor_source c)"

text \<open>Nothing but the token cache and the lexical diagnostics differs.\<close>

definition same_place :: "parser_cursor \<Rightarrow> parser_cursor \<Rightarrow> bool" where
  "same_place c c' \<longleftrightarrow> same_position (cursor_source c) (cursor_source c')
     \<and> cursor_diagnostics c' = cursor_diagnostics c"

lemma same_place_refl [simp]: "same_place c c"
  by (simp add: same_place_def same_position_def)

lemma same_place_trans: "same_place a b \<Longrightarrow> same_place b c \<Longrightarrow> same_place a c"
  by (simp add: same_place_def same_position_def)

lemma same_place_simps:
  assumes "same_place c c'"
  shows "cursor_snapshot c' = cursor_snapshot c" "cursor_position c' = cursor_position c"
    "cursor_diagnostics c' = cursor_diagnostics c" "here ua c' = here ua c"
  using assms by (simp_all add: same_place_def same_position_def here_def)

text \<open>The cursor moved over a token: the same source, at the token's end.\<close>

definition moved_over :: "syntax_token \<Rightarrow> parser_cursor \<Rightarrow> parser_cursor \<Rightarrow> bool" where
  "moved_over t c c' \<longleftrightarrow> cursor_snapshot c' = cursor_snapshot c \<and> cursor_position c' = full_end t
     \<and> cursor_diagnostics c' = cursor_diagnostics c"

lemma cursor_ok_wf:
  assumes "cursor_ok ua c"
  shows "snapshot_wf (cursor_snapshot c)" "boundary (cursor_snapshot c) (cursor_position c)"
    "good_token (cursor_snapshot c) (cursor_position c) (here ua c)"
proof -
  from assms have "source_sound ua (cursor_source c)" by (simp add: cursor_ok_def source_exact_sound)
  from policy.sound_wf [OF this] show *: "snapshot_wf (cursor_snapshot c)"
    "boundary (cursor_snapshot c) (cursor_position c)" by auto
  show "good_token (cursor_snapshot c) (cursor_position c) (here ua c)"
    unfolding here_def by (rule token_at_good(1) [OF *])
qed

lemma cursor_lookahead_spec:
  assumes "cursor_ok ua c"
  shows "\<exists>t c'. cursor_lookahead ua k c = Some (t, c') \<and> cursor_ok ua c' \<and> same_place c c'
    \<and> strip_eof t = strip_eof (upcoming ua (cursor_snapshot c) (cursor_position c) k)
    \<and> (k = 0 \<longrightarrow> t = here ua c)"
  using lookahead_exact [of ua "cursor_source c" k] assms
  by (auto simp: cursor_lookahead_def on_source_def cursor_ok_def same_place_def here_def)

lemma cursor_peek_spec:
  assumes "cursor_ok ua c"
  obtains c' where "cursor_peek ua c = Some (here ua c, c')" "cursor_ok ua c'" "same_place c c'"
  using cursor_lookahead_spec [OF assms, of 0] by (auto simp: cursor_peek_def)

lemma cursor_consume_spec:
  assumes "cursor_ok ua c"
  obtains c' where "cursor_consume ua c = Some (here ua c, c')" "moved_over (here ua c) c c'"
    "\<not> is_end_of_file (here ua c) \<longrightarrow> cursor_ok ua c'"
proof -
  let ?src = "cursor_source c"
  from assms have e: "source_exact ua ?src" by (simp add: cursor_ok_def)
  from lookahead_exact [OF e, of 0] obtain src' where l: "lookahead ua ?src 0 = Some (here ua c, src')"
    "same_position ?src src'" by (auto simp: here_def)
  let ?c = "c\<lparr>cursor_source := advance_after_consuming (here ua c) src'\<rparr>"
  show ?thesis
  proof (rule that)
    show "cursor_consume ua c = Some (here ua c, ?c)"
      using l by (simp add: cursor_consume_def on_source_def consume_def)
    show "moved_over (here ua c) c ?c"
      using policy.look_advance [OF source_exact_sound [OF e] l(1)] l(2)
      by (auto simp: moved_over_def here_def same_position_def advance_after_consuming_def)
    show "\<not> is_end_of_file (here ua c) \<longrightarrow> cursor_ok ua ?c"
      using lookahead_exact_advance [OF e l(1)] by (simp add: cursor_ok_def)
  qed
qed

text \<open>The other scan modes consume a well-formed token of the text as well.\<close>

lemma consume_with_mode_spec:
  assumes "source_exact ua src"
  shows "\<exists>t src'. consume_with_mode ua src mode = Some (t, src') \<and> source_exact ua src'
    \<and> good_token (src_snapshot src) (src_cursor src) t
    \<and> src_snapshot src' = src_snapshot src \<and> src_cursor src' = full_end t"
proof -
  from policy.sound_wf [OF source_exact_sound [OF assms]]
  have wf: "snapshot_wf (src_snapshot src)" "boundary (src_snapshot src) (src_cursor src)" by auto
  from scan_token_at_good [OF wf, of ua mode] obtain sc
    where sc: "scan_token_at ua (src_snapshot src) (src_cursor src) mode = Some sc"
      "good_token (src_snapshot src) (src_cursor src) (scan_token sc)" by blast
  have b: "boundary (src_snapshot src) (full_end (scan_token sc))" by (rule good_token_end(1) [OF sc(2)])
  let ?src = "(record_diagnostics (scan_diagnostics sc) (src\<lparr>src_cached_tokens := []\<rparr>))\<lparr>src_cursor := full_end (scan_token sc)\<rparr>"
  have run: "consume_with_mode ua src mode = Some (scan_token sc, ?src)"
    using sc(1) by (simp add: consume_with_mode_def source_scan_token_at_def)
  moreover have "source_exact ua ?src"
    using assms b wf(1)
    by (auto simp: source_exact_def cache_sound_def cache_exact_def rescan_sound_def record_diagnostics_def)
  ultimately show ?thesis
    using sc(2) by (intro exI [of _ "scan_token sc"] exI [of _ ?src]) (simp add: record_diagnostics_def)
qed

lemma cursor_at_spec:
  assumes "cursor_ok ua c"
  obtains c' where "cursor_at ua k c = Some (tok_kind (here ua c) = k, c')" "cursor_ok ua c'" "same_place c c'"
  by (rule cursor_peek_spec [OF assms]) (auto simp: cursor_at_def)

lemma moved_over_same_place: "same_place c c' \<Longrightarrow> moved_over t c' c'' \<Longrightarrow> moved_over t c c''"
  by (auto simp: moved_over_def dest: same_place_simps)

lemma cursor_consume_if_spec:
  assumes "cursor_ok ua c"
  obtains c' where "tok_kind (here ua c) \<noteq> k \<longrightarrow> cursor_consume_if ua k c = Some (None, c') \<and> cursor_ok ua c' \<and> same_place c c'"
    "tok_kind (here ua c) = k \<longrightarrow> cursor_consume_if ua k c = Some (Some (here ua c), c') \<and> moved_over (here ua c) c c'"
    "tok_kind (here ua c) = k \<longrightarrow> k \<noteq> EndOfFileToken \<longrightarrow> cursor_ok ua c'"
proof -
  from cursor_at_spec [OF assms, of k] obtain c1
    where a: "cursor_at ua k c = Some (tok_kind (here ua c) = k, c1)" "cursor_ok ua c1" "same_place c c1" .
  show ?thesis
  proof (cases "tok_kind (here ua c) = k")
    case False
    with a show ?thesis by (intro that [of c1]) (simp_all add: cursor_consume_if_def)
  next
    case True
    from cursor_consume_spec [OF a(2)] obtain c2 where c2: "cursor_consume ua c1 = Some (here ua c1, c2)"
      "moved_over (here ua c1) c1 c2" "\<not> is_end_of_file (here ua c1) \<longrightarrow> cursor_ok ua c2" .
    have h: "here ua c1 = here ua c" by (rule same_place_simps [OF a(3)])
    show ?thesis
      using True a c2 moved_over_same_place [OF a(3)]
      by (intro that [of c2]) (auto simp: cursor_consume_if_def h is_end_of_file_def)
  qed
qed

subsection \<open>Expecting a token\<close>

definition expect_diagnostic :: "source_snapshot \<Rightarrow> syntax_kind \<Rightarrow> syntax_token \<Rightarrow> diagnostic" where
  "expect_diagnostic s kind token =
     (if is_end_of_file token then unexpected_eof s kind token else expected_token s kind token)"

definition missing_at :: "syntax_kind \<Rightarrow> text_size \<Rightarrow> syntax_token" where
  "missing_at kind i = \<lparr>tok_kind = kind, tok_range = text_range_empty i, tok_presence = Missing,
     leading_trivia = [], trailing_trivia = []\<rparr>"

lemma token_missing_Some: "is_token k \<Longrightarrow> token_missing k i = Some (missing_at k i)"
  by (simp add: token_missing_def token_with_trivia_and_presence_def missing_at_def
      text_range_is_empty_def text_range_empty_def)

lemma cursor_expect_hit:
  assumes "cursor_ok ua c" "tok_kind (here ua c) = k"
  obtains c' where "cursor_expect ua k c = Some (here ua c, c')" "moved_over (here ua c) c c'"
    "k \<noteq> EndOfFileToken \<longrightarrow> cursor_ok ua c'"
proof -
  from cursor_peek_spec [OF assms(1)] obtain c1
    where a: "cursor_peek ua c = Some (here ua c, c1)" "cursor_ok ua c1" "same_place c c1" .
  from cursor_consume_spec [OF a(2)] obtain c2 where c2: "cursor_consume ua c1 = Some (here ua c1, c2)"
    "moved_over (here ua c1) c1 c2" "\<not> is_end_of_file (here ua c1) \<longrightarrow> cursor_ok ua c2" .
  have h: "here ua c1 = here ua c" by (rule same_place_simps [OF a(3)])
  show ?thesis
    using assms a c2 moved_over_same_place [OF a(3)]
    by (intro that [of c2]) (auto simp: cursor_expect_def h is_end_of_file_def)
qed

lemma cursor_expect_miss:
  assumes "cursor_ok ua c" "tok_kind (here ua c) \<noteq> k" "is_token k"
  obtains c' where "cursor_expect ua k c = Some (missing_at k (tok_start (here ua c)), c')" "cursor_ok ua c'"
    "same_position (cursor_source c) (cursor_source c')"
    "cursor_diagnostics c' = merged (cursor_diagnostics c) [expect_diagnostic (cursor_snapshot c) k (here ua c)]"
proof -
  from cursor_peek_spec [OF assms(1)] obtain c1
    where a: "cursor_peek ua c = Some (here ua c, c1)" "cursor_ok ua c1" "same_place c c1" .
  let ?d = "expect_diagnostic (cursor_snapshot c) k (here ua c)"
  show ?thesis
  proof (rule that [of "cursor_record_syntax_diagnostic ?d c1"])
    show "cursor_expect ua k c = Some (missing_at k (tok_start (here ua c)), cursor_record_syntax_diagnostic ?d c1)"
      using assms a(1) same_place_simps(1) [OF a(3)]
      by (simp add: cursor_expect_def token_missing_Some expect_diagnostic_def Let_def)
    show "cursor_ok ua (cursor_record_syntax_diagnostic ?d c1)"
      using a(2) by (simp add: cursor_ok_def cursor_record_syntax_diagnostic_def)
  qed (use a(3) in \<open>simp_all add: same_place_def cursor_record_syntax_diagnostic_def\<close>)
qed

text \<open>
  Expecting a token never panics and never loses one: when the token at the cursor has the kind,
  it is returned with its trivia and the cursor moves to its end; otherwise the cursor stays where
  it is, the result is a missing token of the kind, without width or trivia, at the start of the
  token that is there, and exactly the diagnostic for that token is recorded.
\<close>

theorem expect_correct:
  assumes "cursor_ok ua c" "is_token k"
  shows "\<exists>t c'. cursor_expect ua k c = Some (t, c') \<and> cursor_snapshot c' = cursor_snapshot c
    \<and> (if tok_kind (here ua c) = k
       then t = here ua c \<and> cursor_position c' = full_end (here ua c) \<and> cursor_diagnostics c' = cursor_diagnostics c
       else t = missing_at k (tok_start (here ua c)) \<and> cursor_position c' = cursor_position c
         \<and> cursor_diagnostics c'
           = merged (cursor_diagnostics c) [expect_diagnostic (cursor_snapshot c) k (here ua c)])"
proof (cases "tok_kind (here ua c) = k")
  case True
  from cursor_expect_hit [OF assms(1) True] obtain c' where "cursor_expect ua k c = Some (here ua c, c')"
    "moved_over (here ua c) c c'" by metis
  with True show ?thesis by (auto simp: moved_over_def)
next
  case False
  from cursor_expect_miss [OF assms(1) False assms(2)] obtain c'
    where "cursor_expect ua k c = Some (missing_at k (tok_start (here ua c)), c')"
      "same_position (cursor_source c) (cursor_source c')"
      "cursor_diagnostics c' = merged (cursor_diagnostics c) [expect_diagnostic (cursor_snapshot c) k (here ua c)]"
    by metis
  with False show ?thesis by (auto simp: same_position_def)
qed

lemma cursor_ok_new: "snapshot_wf s \<Longrightarrow> cursor_ok ua (parser_cursor_new (token_source_new s))"
  by (simp add: cursor_ok_def source_exact_def cache_sound_def cache_exact_def parser_cursor_new_def
      token_source_new_def with_cache_policy_def)

theorem expect_correct_witness:
  "\<exists>t c'. cursor_expect (\<lambda>_. False) FuncKeyword (parser_cursor_new (token_source_new (text_snapshot '' '')))
     = Some (t, c') \<and> t = missing_at FuncKeyword 1 \<and> cursor_position c' = 0"
proof -
  let ?s = "text_snapshot '' ''" let ?c = "parser_cursor_new (token_source_new ?s)"
  have "snapshot_wf ?s" by (rule text_snapshot_wf) (simp_all add: u32_max_def)
  then have ok: "cursor_ok (\<lambda>_. False) ?c" by (rule cursor_ok_new)
  have c: "cursor_snapshot ?c = ?s" "cursor_position ?c = 0"
    by (simp_all add: parser_cursor_new_def token_source_new_def with_cache_policy_def)
  then have h: "tok_kind (here (\<lambda>_. False) ?c) = EndOfFileToken" "tok_start (here (\<lambda>_. False) ?c) = 1"
    by (simp_all add: here_def blank_text_token text_range_empty_def)
  have "is_token FuncKeyword" by (simp add: is_token_def is_node_def is_trivia_def)
  from expect_correct [OF ok this] h c show ?thesis by auto
qed

subsection \<open>Runs of tokens\<close>

text \<open>
  \<open>stream ua s i ts j\<close>: scanning token after token from \<open>i\<close> gives \<open>ts\<close>, none of them the end of the
  file, and arrives at \<open>j\<close>. \<open>token_chain\<close> forgets the scan mode and keeps that the tokens are well
  formed and touch each other.
\<close>

fun stream :: "unicode_alphanumeric \<Rightarrow> source_snapshot \<Rightarrow> text_size \<Rightarrow> syntax_token list \<Rightarrow> text_size \<Rightarrow> bool" where
  "stream ua s i [] j \<longleftrightarrow> i = j"
| "stream ua s i (t # ts) j \<longleftrightarrow>
     t = token_at ua s i \<and> \<not> is_end_of_file t \<and> stream ua s (full_end t) ts j"

fun token_chain :: "source_snapshot \<Rightarrow> text_size \<Rightarrow> syntax_token list \<Rightarrow> text_size \<Rightarrow> bool" where
  "token_chain s i [] j \<longleftrightarrow> i = j"
| "token_chain s i (t # ts) j \<longleftrightarrow> good_token s i t \<and> token_chain s (full_end t) ts j"

lemma token_chain_append: "token_chain s i (ts @ us) k \<longleftrightarrow> (\<exists>j. token_chain s i ts j \<and> token_chain s j us k)"
  by (induction ts arbitrary: i) auto

lemma stream_append: "stream ua s i (ts @ us) k \<longleftrightarrow> (\<exists>j. stream ua s i ts j \<and> stream ua s j us k)"
  by (induction ts arbitrary: i) auto

lemma stream_chain: "snapshot_wf s \<Longrightarrow> boundary s i \<Longrightarrow> stream ua s i ts j \<Longrightarrow> token_chain s i ts j"
proof (induction ts arbitrary: i)
  case (Cons t ts)
  note good = token_at_good(1) [OF Cons.prems(1,2), of ua]
  from Cons good good_token_end(1) [OF good] show ?case by auto
qed simp

lemma token_chain_tiles:
  "boundary s i \<Longrightarrow> token_chain s i ts j \<Longrightarrow> tiles (snap_text s) i (concat (map token_ranges ts)) j"
proof (induction ts arbitrary: i)
  case (Cons t ts)
  then have g: "good_token s i t" "token_chain s (full_end t) ts j" by auto
  with Cons.IH [OF good_token_end(1) [OF g(1)] g(2)] show ?case by (auto simp: tiles_append good_token_def)
qed simp

subsection \<open>Skipping\<close>

lemma consume_skipped_token_spec:
  assumes "cursor_ok ua c"
  obtains c' where "is_end_of_file (here ua c) \<longrightarrow> consume_skipped_token ua c = Some (None, c') \<and> same_place c c'"
    "\<not> is_end_of_file (here ua c) \<longrightarrow>
       consume_skipped_token ua c = Some (Some (here ua c), c') \<and> moved_over (here ua c) c c'" "cursor_ok ua c'"
proof -
  from cursor_peek_spec [OF assms(1)] obtain c1
    where a: "cursor_peek ua c = Some (here ua c, c1)" "cursor_ok ua c1" "same_place c c1" .
  from cursor_consume_if_spec [OF a(2), of "tok_kind (here ua c)"] obtain c2
    where c2: "tok_kind (here ua c1) = tok_kind (here ua c) \<longrightarrow>
        cursor_consume_if ua (tok_kind (here ua c)) c1 = Some (Some (here ua c1), c2) \<and> moved_over (here ua c1) c1 c2"
      "tok_kind (here ua c1) = tok_kind (here ua c) \<longrightarrow> tok_kind (here ua c) \<noteq> EndOfFileToken \<longrightarrow> cursor_ok ua c2" .
  have h: "here ua c1 = here ua c" by (rule same_place_simps [OF a(3)])
  show ?thesis
  proof (cases "is_end_of_file (here ua c)")
    case True
    with a show ?thesis by (intro that [of c1]) (simp_all add: consume_skipped_token_def)
  next
    case False
    with a c2 h moved_over_same_place [OF a(3)] show ?thesis
      by (intro that [of c2]) (simp_all add: consume_skipped_token_def is_end_of_file_def)
  qed
qed

lemma moved_over_progress:
  assumes "cursor_ok ua c" "\<not> is_end_of_file (here ua c)" "moved_over (here ua c) c c'"
  shows "text_length (cursor_snapshot c') - cursor_position c' < text_length (cursor_snapshot c) - cursor_position c"
proof -
  note good = cursor_ok_wf(3) [OF assms(1)]
  from good_token_end(4) [OF good assms(2)] good_token_end(2) [OF good] assms(3)
  show ?thesis by (auto simp: moved_over_def)
qed

text \<open>The cursor went over \<open>ts\<close> and nothing else changed.\<close>

definition skipped_over :: "unicode_alphanumeric \<Rightarrow> syntax_token list \<Rightarrow> parser_cursor \<Rightarrow> parser_cursor \<Rightarrow> bool" where
  "skipped_over ua ts c c' \<longleftrightarrow> stream ua (cursor_snapshot c) (cursor_position c) ts (cursor_position c')
     \<and> cursor_snapshot c' = cursor_snapshot c \<and> cursor_diagnostics c' = cursor_diagnostics c \<and> cursor_ok ua c'"

lemma skipped_over_Nil: "same_place c c' \<Longrightarrow> cursor_ok ua c' \<Longrightarrow> skipped_over ua [] c c'"
  by (auto simp: skipped_over_def dest: same_place_simps)

lemma skipped_over_Cons:
  assumes "moved_over (here ua c) c c'" "\<not> is_end_of_file (here ua c)" "skipped_over ua ts c' c''"
  shows "skipped_over ua (here ua c # ts) c c''"
  using assms by (auto simp: skipped_over_def moved_over_def here_def)

lemma skipped_over_same_place: "same_place c c1 \<Longrightarrow> skipped_over ua ts c1 c' \<Longrightarrow> skipped_over ua ts c c'"
  by (simp add: skipped_over_def same_place_def same_position_def)

lemma skip_until_loop_spec:
  assumes "cursor_ok ua c"
  shows "\<exists>ts c'. skip_until_loop ua rs skipped c = Some (skipped @ ts, c') \<and> skipped_over ua ts c c'
    \<and> (\<forall>t \<in> set ts. \<not> recovery_contains rs (tok_kind t))
    \<and> (recovery_contains rs (tok_kind (here ua c')) \<or> is_end_of_file (here ua c'))"
  using assms
proof (induction "text_length (cursor_snapshot c) - cursor_position c" arbitrary: c skipped rule: less_induct)
  case less
  from cursor_peek_spec [OF less.prems] obtain c1
    where a: "cursor_peek ua c = Some (here ua c, c1)" "cursor_ok ua c1" "same_place c c1" .
  have h: "here ua c1 = here ua c" by (rule same_place_simps [OF a(3)])
  note eq = skip_until_loop.simps [of ua rs skipped c]
  show ?case
  proof (cases "recovery_contains rs (tok_kind (here ua c)) \<or> is_end_of_file (here ua c)")
    case True
    with a show ?thesis
      by (intro exI [of _ "[]"] exI [of _ c1]) (simp add: eq h skipped_over_Nil)
  next
    case False
    from consume_skipped_token_spec [OF a(2)] obtain c2
      where c2: "\<not> is_end_of_file (here ua c1) \<longrightarrow> consume_skipped_token ua c1 = Some (Some (here ua c1), c2)
          \<and> moved_over (here ua c1) c1 c2" "cursor_ok ua c2" .
    with False h have mv: "moved_over (here ua c) c c2"
      and run: "consume_skipped_token_into ua skipped c1 = Some (skipped @ [here ua c], c2)"
      using moved_over_same_place [OF a(3)] by (auto simp: consume_skipped_token_into_def)
    from moved_over_progress [OF less.prems _ mv] False
    have "text_length (cursor_snapshot c2) - cursor_position c2 < text_length (cursor_snapshot c) - cursor_position c"
      by simp
    from less.hyps [OF this c2(2), of "skipped @ [here ua c]"] obtain ts c'
      where ih: "skip_until_loop ua rs (skipped @ [here ua c]) c2 = Some ((skipped @ [here ua c]) @ ts, c')"
        "skipped_over ua ts c2 c'" "\<forall>t \<in> set ts. \<not> recovery_contains rs (tok_kind t)"
        "recovery_contains rs (tok_kind (here ua c')) \<or> is_end_of_file (here ua c')" by blast
    have "skip_until_loop ua rs skipped c = Some (skipped @ (here ua c # ts), c')"
      using a(1) False run ih(1) by (simp add: eq)
    with ih False skipped_over_Cons [OF mv _ ih(2)] show ?thesis
      by (intro exI [of _ "here ua c # ts"] exI [of _ c']) auto
  qed
qed

text \<open>
  Recovery stops at the right token: skipping until a recovery set returns (whatever the text),
  and the skipped tokens are exactly the tokens of the text from the cursor on, up to the first whose
  kind is in the set or the end of the file, which stays unconsumed; no syntax diagnostic is recorded.
\<close>

theorem skip_until_correct:
  assumes "cursor_ok ua c"
  shows "\<exists>ts c'. cursor_skip_until ua rs c = Some (ts, c') \<and> skipped_over ua ts c c'
    \<and> (\<forall>t \<in> set ts. \<not> recovery_contains rs (tok_kind t))
    \<and> (recovery_contains rs (tok_kind (here ua c')) \<or> is_end_of_file (here ua c'))"
  using skip_until_loop_spec [OF assms, of rs "[]"] by (simp add: cursor_skip_until_def skip_until_tokens_def)

theorem skip_until_correct_witness:
  "\<exists>ts c'. cursor_skip_until (\<lambda>_. False) (recovery_set_new [SemicolonToken])
     (parser_cursor_new (token_source_new (text_snapshot ''main }''))) = Some (ts, c')
   \<and> (\<forall>t \<in> set ts. tok_kind t \<noteq> SemicolonToken)"
proof -
  have "snapshot_wf (text_snapshot ''main }'')" by (rule text_snapshot_wf) (simp_all add: u32_max_def)
  from skip_until_correct [OF cursor_ok_new [OF this], of "\<lambda>_. False" "recovery_set_new [SemicolonToken]"]
  show ?thesis by (auto simp: recovery_contains_def recovery_set_new_def)
qed

subsection \<open>Skipping to the closing delimiter\<close>

abbreviation opens :: "delimiter_pair \<Rightarrow> syntax_token list \<Rightarrow> nat" where
  "opens ds ts \<equiv> length (filter (\<lambda>t. tok_kind t = delimiter_open ds) ts)"

abbreviation closes :: "delimiter_pair \<Rightarrow> syntax_token list \<Rightarrow> nat" where
  "closes ds ts \<equiv> length (filter (\<lambda>t. tok_kind t = delimiter_close ds) ts)"

text \<open>
  \<open>balanced_skip ds rs d ts\<close>: read from depth \<open>d\<close>, no delimiter in \<open>ts\<close> closes more than is open, and
  where nothing is open the next token is no stop token.
\<close>

definition balanced_skip :: "delimiter_pair \<Rightarrow> recovery_set \<Rightarrow> nat \<Rightarrow> syntax_token list \<Rightarrow> bool" where
  "balanced_skip ds rs d ts \<longleftrightarrow> (\<forall>k \<le> length ts. closes ds (take k ts) \<le> d + opens ds (take k ts))
     \<and> (\<forall>k < length ts. closes ds (take k ts) = d + opens ds (take k ts)
          \<longrightarrow> tok_kind (ts ! k) \<noteq> delimiter_close ds \<and> \<not> recovery_contains rs (tok_kind (ts ! k)))"

definition next_depth :: "delimiter_pair \<Rightarrow> nat \<Rightarrow> syntax_token \<Rightarrow> nat" where
  "next_depth ds depth t =
     (if tok_kind t = delimiter_open ds then depth + 1
      else if tok_kind t = delimiter_close ds then depth - 1 else depth)"

lemma balanced_skip_Nil [simp]: "balanced_skip ds rs d []"
  by (simp add: balanced_skip_def)

lemma balanced_skip_Cons:
  assumes ne: "delimiter_open ds \<noteq> delimiter_close ds"
    and t: "d = 0 \<Longrightarrow> tok_kind t \<noteq> delimiter_close ds \<and> \<not> recovery_contains rs (tok_kind t)"
    and ts: "balanced_skip ds rs (next_depth ds d t) ts"
  shows "balanced_skip ds rs d (t # ts)"
  unfolding balanced_skip_def
proof (intro conjI allI impI)
  fix k assume "k \<le> length (t # ts)"
  then show "closes ds (take k (t # ts)) \<le> d + opens ds (take k (t # ts))"
    using ts t ne by (cases k; cases "d = 0") (fastforce simp: balanced_skip_def next_depth_def split: if_splits)+
next
  fix k assume k: "k < length (t # ts)" "closes ds (take k (t # ts)) = d + opens ds (take k (t # ts))"
  have "tok_kind ((t # ts) ! k) \<noteq> delimiter_close ds \<and> \<not> recovery_contains rs (tok_kind ((t # ts) ! k))"
  proof (cases k)
    case 0
    with k t show ?thesis by simp
  next
    case (Suc m)
    with k have "closes ds (take m ts) = next_depth ds d t + opens ds (take m ts)"
      using t ne by (cases "d = 0") (auto simp: next_depth_def split: if_splits)
    with Suc k(1) ts show ?thesis by (simp add: balanced_skip_def)
  qed
  then show "tok_kind ((t # ts) ! k) \<noteq> delimiter_close ds" "\<not> recovery_contains rs (tok_kind ((t # ts) ! k))" by auto
qed

lemma balanced_close_loop_spec:
  assumes "cursor_ok ua c" and ne: "delimiter_open ds \<noteq> delimiter_close ds"
  shows "\<exists>ts c'. balanced_close_loop ua ds rs depth skipped c = Some (skipped @ ts, c') \<and> skipped_over ua ts c c'
    \<and> balanced_skip ds rs depth ts
    \<and> (is_end_of_file (here ua c') \<or> closes ds ts = depth + opens ds ts
        \<and> (tok_kind (here ua c') = delimiter_close ds \<or> recovery_contains rs (tok_kind (here ua c'))))"
  using assms(1)
proof (induction "text_length (cursor_snapshot c) - cursor_position c" arbitrary: c skipped depth rule: less_induct)
  case less
  from cursor_peek_spec [OF less.prems] obtain c1
    where a: "cursor_peek ua c = Some (here ua c, c1)" "cursor_ok ua c1" "same_place c c1" .
  have h: "here ua c1 = here ua c" by (rule same_place_simps [OF a(3)])
  note eq = balanced_close_loop.simps [of ua ds rs depth skipped c]
  let ?t = "here ua c"
  show ?case
  proof (cases "is_end_of_file ?t \<or> tok_kind ?t = delimiter_close ds \<and> depth = 0
      \<or> depth = 0 \<and> recovery_contains rs (tok_kind ?t)")
    case True
    with a show ?thesis
      by (intro exI [of _ "[]"] exI [of _ c1]) (auto simp: eq h skipped_over_Nil)
  next
    case False
    from consume_skipped_token_spec [OF a(2)] obtain c2
      where c2: "\<not> is_end_of_file (here ua c1) \<longrightarrow> consume_skipped_token ua c1 = Some (Some (here ua c1), c2)
          \<and> moved_over (here ua c1) c1 c2" "cursor_ok ua c2" .
    with False h have mv: "moved_over ?t c c2" and run: "consume_skipped_token ua c1 = Some (Some ?t, c2)"
      using moved_over_same_place [OF a(3)] by auto
    from moved_over_progress [OF less.prems _ mv] False
    have "text_length (cursor_snapshot c2) - cursor_position c2 < text_length (cursor_snapshot c) - cursor_position c"
      by simp
    from less.hyps [OF this c2(2), of "next_depth ds depth ?t" "skipped @ [?t]"] obtain ts c'
      where ih: "balanced_close_loop ua ds rs (next_depth ds depth ?t) (skipped @ [?t]) c2
          = Some ((skipped @ [?t]) @ ts, c')" "skipped_over ua ts c2 c'" "balanced_skip ds rs (next_depth ds depth ?t) ts"
        "is_end_of_file (here ua c') \<or> closes ds ts = next_depth ds depth ?t + opens ds ts
          \<and> (tok_kind (here ua c') = delimiter_close ds \<or> recovery_contains rs (tok_kind (here ua c')))" by blast
    have "balanced_close_loop ua ds rs depth skipped c = Some (skipped @ (?t # ts), c')"
      using a(1) False run ih(1) by (subst eq) (auto simp: next_depth_def)
    moreover have "balanced_skip ds rs depth (?t # ts)"
      by (rule balanced_skip_Cons [OF ne _ ih(3)]) (use False in auto)
    moreover have "is_end_of_file (here ua c') \<or> closes ds (?t # ts) = depth + opens ds (?t # ts)
        \<and> (tok_kind (here ua c') = delimiter_close ds \<or> recovery_contains rs (tok_kind (here ua c')))"
      using ih(4) ne False by (cases "depth = 0") (auto simp: next_depth_def split: if_splits)
    ultimately show ?thesis
      using skipped_over_Cons [OF mv _ ih(2)] False by blast
  qed
qed

text \<open>
  C34. Skipping a braced region respects nesting: the skipped tokens are the tokens of the text from
  the cursor on; no prefix of them closes a brace it did not open; a recovery token inside braces does
  not stop it, one outside does; and it stops exactly at the end of the file, or where every brace it
  opened is closed and the next token is a close brace or a recovery token, which stays unconsumed.
\<close>

theorem skip_balanced_correct:
  assumes "cursor_ok ua c"
  shows "\<exists>ts c'. cursor_skip_until_balanced_close_brace_or_recovery ua rs c = Some (ts, c')
    \<and> skipped_over ua ts c c' \<and> balanced_skip braces rs 0 ts
    \<and> (is_end_of_file (here ua c') \<or> closes braces ts = opens braces ts
        \<and> (tok_kind (here ua c') = CloseBraceToken \<or> recovery_contains rs (tok_kind (here ua c'))))"
  using balanced_close_loop_spec [OF assms, of braces rs 0 "[]"]
  by (simp add: cursor_skip_until_balanced_close_brace_or_recovery_def skip_until_balanced_close_def braces_def)

theorem skip_balanced_correct_witness:
  "\<exists>ts c'. cursor_skip_until_balanced_close_brace_or_recovery (\<lambda>_. False) (recovery_set_new [])
     (parser_cursor_new (token_source_new (text_snapshot ''func run() {} }''))) = Some (ts, c')
   \<and> balanced_skip braces (recovery_set_new []) 0 ts"
proof -
  have "snapshot_wf (text_snapshot ''func run() {} }'')" by (rule text_snapshot_wf) (simp_all add: u32_max_def)
  from skip_balanced_correct [OF cursor_ok_new [OF this], of "\<lambda>_. False" "recovery_set_new []"]
  show ?thesis by blast
qed

lemma skip_current_balanced:
  assumes "cursor_ok ua c"
  shows "\<exists>ts c'. cursor_skip_current_and_until_balanced_close_brace_or_recovery ua rs c = Some (ts, c')
    \<and> skipped_over ua ts c c'"
proof -
  from consume_skipped_token_spec [OF assms] obtain c1
    where a: "is_end_of_file (here ua c) \<longrightarrow> consume_skipped_token ua c = Some (None, c1) \<and> same_place c c1"
      "\<not> is_end_of_file (here ua c) \<longrightarrow> consume_skipped_token ua c = Some (Some (here ua c), c1) \<and> moved_over (here ua c) c c1"
      "cursor_ok ua c1" .
  have ne: "delimiter_open braces \<noteq> delimiter_close braces" by (simp add: braces_def)
  have loop: "\<exists>ts c'. skip_until_balanced_close ua braces rs d c1 = Some (ts, c') \<and> skipped_over ua ts c1 c'" for d
    using balanced_close_loop_spec [OF a(3) ne, of rs d "[]"] by (auto simp: skip_until_balanced_close_def)
  show ?thesis
  proof (cases "is_end_of_file (here ua c)")
    case True
    from loop [of 0] obtain ts c' where l: "skip_until_balanced_close ua braces rs 0 c1 = Some (ts, c')"
      "skipped_over ua ts c1 c'" by blast
    with True a(1) have "skipped_over ua ts c c'" by (blast intro: skipped_over_same_place)
    with True a(1) l show ?thesis
      by (simp add: cursor_skip_current_and_until_balanced_close_brace_or_recovery_def)
  next
    case False
    from loop [of "if tok_kind (here ua c) = delimiter_open braces then 1 else 0"] obtain ts c'
      where l: "skip_until_balanced_close ua braces rs (if tok_kind (here ua c) = delimiter_open braces then 1 else 0) c1
          = Some (ts, c')" "skipped_over ua ts c1 c'" by blast
    with False a(2) skipped_over_Cons [of ua c c1 ts c'] show ?thesis
      by (auto simp: cursor_skip_current_and_until_balanced_close_brace_or_recovery_def)
  qed
qed

lemma skip_current_until:
  assumes "cursor_ok ua c"
  shows "\<exists>ts c'. cursor_skip_current_and_until ua rs c = Some (ts, c') \<and> skipped_over ua ts c c'
    \<and> (recovery_contains rs (tok_kind (here ua c')) \<or> is_end_of_file (here ua c'))"
proof -
  from consume_skipped_token_spec [OF assms] obtain c1
    where a: "is_end_of_file (here ua c) \<longrightarrow> consume_skipped_token ua c = Some (None, c1) \<and> same_place c c1"
      "\<not> is_end_of_file (here ua c) \<longrightarrow> consume_skipped_token ua c = Some (Some (here ua c), c1) \<and> moved_over (here ua c) c c1"
      "cursor_ok ua c1" .
  from skip_until_loop_spec [OF a(3), of rs "[]"] obtain ts c'
    where l: "skip_until_loop ua rs [] c1 = Some (ts, c')" "skipped_over ua ts c1 c'"
      "recovery_contains rs (tok_kind (here ua c')) \<or> is_end_of_file (here ua c')" by auto
  show ?thesis
  proof (cases "is_end_of_file (here ua c)")
    case True
    with a(1) l(2) have "skipped_over ua ts c c'" by (blast intro: skipped_over_same_place)
    with True a(1) l show ?thesis
      by (simp add: cursor_skip_current_and_until_def consume_skipped_token_into_def skip_until_tokens_def)
  next
    case False
    with a(2) l skipped_over_Cons [of ua c c1 ts c'] show ?thesis
      by (auto simp: cursor_skip_current_and_until_def consume_skipped_token_into_def skip_until_tokens_def)
  qed
qed

lemma skip_one_spec:
  assumes "cursor_ok ua c"
  shows "\<exists>c'. cursor_skip_one ua c = Some (if is_end_of_file (here ua c) then None else Some (here ua c), c')
    \<and> skipped_over ua (if is_end_of_file (here ua c) then [] else [here ua c]) c c'"
proof -
  from consume_skipped_token_spec [OF assms] obtain c1
    where a: "is_end_of_file (here ua c) \<longrightarrow> consume_skipped_token ua c = Some (None, c1) \<and> same_place c c1"
      "\<not> is_end_of_file (here ua c) \<longrightarrow> consume_skipped_token ua c = Some (Some (here ua c), c1) \<and> moved_over (here ua c) c c1"
      "cursor_ok ua c1" .
  show ?thesis
  proof (cases "is_end_of_file (here ua c)")
    case True
    with a show ?thesis
      by (auto simp: cursor_skip_one_def consume_skipped_token_into_def skipped_over_Nil)
  next
    case False
    with a skipped_over_Cons [of ua c c1 "[]" c1] skipped_over_Nil [of c1 c1 ua] show ?thesis
      by (auto simp: cursor_skip_one_def consume_skipped_token_into_def)
  qed
qed

subsection \<open>The parser\<close>

definition parser_ok :: "unicode_alphanumeric \<Rightarrow> parser \<Rightarrow> bool" where
  "parser_ok ua p \<longleftrightarrow> cursor_ok ua (parser_cursor p) \<and> cursor_snapshot (parser_cursor p) = parser_snapshot p
     \<and> syntax_nesting_depth p \<le> max_syntax_nesting_depth"

abbreviation parser_position :: "parser \<Rightarrow> text_size" where
  "parser_position p \<equiv> cursor_position (parser_cursor p)"

abbreviation ahead :: "unicode_alphanumeric \<Rightarrow> parser \<Rightarrow> syntax_token" where
  "ahead ua p \<equiv> here ua (parser_cursor p)"

lemma parser_ok_new: "snapshot_wf s \<Longrightarrow> parser_ok ua (parser_new s)"
  using cursor_ok_new [of s ua]
  by (simp add: parser_ok_def parser_new_def) (simp add: parser_cursor_new_def token_source_new_def with_cache_policy_def)

lemma record_diagnostics_sound:
  "source_exact ua (record_diagnostics ds src) \<longleftrightarrow> source_exact ua src"
  by (auto simp: record_diagnostics_def source_exact_def cache_sound_def cache_exact_def rescan_sound_def)

text \<open>
  A speculative scan leaves no trace but its lexical diagnostics: whatever the scan does with the
  forked parser, if it returns, the parser it was forked from has the same position, token cache,
  syntax diagnostics and nesting state as before, and gains the lexical diagnostics of the fork.
\<close>

theorem scan_ahead_restores:
  assumes "scan (fork_from_checkpoint (parser_cursor p) p) = Some (decision, fork)" "parser_ok ua p"
  shows "\<exists>p'. scan_ahead scan p = Some (decision, p') \<and> parser_ok ua p'
    \<and> p' = p\<lparr>parser_cursor := (parser_cursor p)\<lparr>cursor_source :=
        (cursor_source (parser_cursor p))\<lparr>src_diagnostics :=
          merged (src_diagnostics (cursor_source (parser_cursor p)))
            (src_diagnostics (cursor_source (parser_cursor fork)))\<rparr>\<rparr>\<rparr>"
proof -
  let ?p = "p\<lparr>parser_cursor := absorb_lexical_diagnostics_from (parser_cursor fork) (parser_cursor p)\<rparr>"
  have "scan_ahead scan p = Some (decision, ?p)" using assms(1) by (simp add: scan_ahead_def)
  moreover have "parser_ok ua ?p"
    using assms(2) by (simp add: parser_ok_def absorb_lexical_diagnostics_from_def cursor_ok_def record_diagnostics_sound)
  moreover have "?p = p\<lparr>parser_cursor := (parser_cursor p)\<lparr>cursor_source :=
        (cursor_source (parser_cursor p))\<lparr>src_diagnostics :=
          merged (src_diagnostics (cursor_source (parser_cursor p)))
            (src_diagnostics (cursor_source (parser_cursor fork)))\<rparr>\<rparr>\<rparr>"
    by (simp add: absorb_lexical_diagnostics_from_def record_diagnostics_def merged_def)
  ultimately show ?thesis by blast
qed

theorem scan_ahead_restores_witness:
  "\<exists>b p'. scan_ahead (parser_at (\<lambda>_. False) FuncKeyword) (parser_new (text_snapshot ''func main'')) = Some (b, p')
     \<and> parser_position p' = 0"
proof -
  let ?p = "parser_new (text_snapshot ''func main'')" and ?ua = "\<lambda>_. False"
  have "snapshot_wf (text_snapshot ''func main'')" by (rule text_snapshot_wf) (simp_all add: u32_max_def)
  then have ok: "parser_ok ?ua ?p" by (rule parser_ok_new)
  have same: "fork_from_checkpoint (parser_cursor ?p) ?p = ?p" by (simp add: fork_from_checkpoint_def)
  have c: "cursor_ok ?ua (parser_cursor ?p)" using ok by (simp add: parser_ok_def)
  obtain c' where "cursor_peek ?ua (parser_cursor ?p) = Some (here ?ua (parser_cursor ?p), c')"
    by (rule cursor_peek_spec [OF c])
  then have "\<exists>b q. parser_at ?ua FuncKeyword (fork_from_checkpoint (parser_cursor ?p) ?p) = Some (b, q)"
    unfolding same by (simp add: parser_at_def parser_peek_def parser_lookahead_def on_cursor_def cursor_peek_def)
  then obtain b q where "parser_at ?ua FuncKeyword (fork_from_checkpoint (parser_cursor ?p) ?p) = Some (b, q)" by blast
  from scan_ahead_restores [of "parser_at ?ua FuncKeyword" ?p b q ?ua, OF this ok] show ?thesis
    by (auto simp: parser_new_def parser_cursor_new_def token_source_new_def with_cache_policy_def)
qed

subsection \<open>The nesting limit\<close>

lemma parser_peek_spec:
  assumes "parser_ok ua p"
  obtains p' where "parser_peek ua p = Some (ahead ua p, p')" "parser_ok ua p'"
    "same_place (parser_cursor p) (parser_cursor p')"
    "p' = p\<lparr>parser_cursor := parser_cursor p'\<rparr>"
proof -
  from assms have "cursor_ok ua (parser_cursor p)" by (simp add: parser_ok_def)
  from cursor_peek_spec [OF this] obtain c' where c: "cursor_peek ua (parser_cursor p) = Some (ahead ua p, c')"
    "cursor_ok ua c'" "same_place (parser_cursor p) c'" .
  show ?thesis
    using assms c same_place_simps(1) [OF c(3)]
    by (intro that [of "p\<lparr>parser_cursor := c'\<rparr>"])
      (auto simp: parser_peek_def parser_lookahead_def on_cursor_def cursor_peek_def parser_ok_def)
qed

text \<open>One step of a parser between its nested productions.\<close>

inductive nesting_step :: "unicode_alphanumeric \<Rightarrow> parser \<Rightarrow> parser \<Rightarrow> bool" for ua where
  enter: "try_enter_syntax_nesting ua p = Some (b, p') \<Longrightarrow> nesting_step ua p p'"
| leave: "leave_syntax_nesting p = Some p' \<Longrightarrow> nesting_step ua p p'"

definition nesting_ok :: "unicode_alphanumeric \<Rightarrow> parser \<Rightarrow> bool" where
  "nesting_ok ua p \<longleftrightarrow> parser_ok ua p \<and> (syntax_nesting_limit_reported p \<longrightarrow> syntax_nesting_depth p \<noteq> 0)"

lemma try_enter_spec:
  assumes "parser_ok ua p"
  shows "\<exists>p'. try_enter_syntax_nesting ua p = Some (syntax_nesting_depth p < max_syntax_nesting_depth, p')
    \<and> parser_ok ua p' \<and> parser_position p' = parser_position p
    \<and> syntax_nesting_depth p' = (if syntax_nesting_depth p < max_syntax_nesting_depth
        then syntax_nesting_depth p + 1 else syntax_nesting_depth p)
    \<and> syntax_nesting_limit_reported p' = (syntax_nesting_limit_reported p
        \<or> \<not> syntax_nesting_depth p < max_syntax_nesting_depth)
    \<and> cursor_diagnostics (parser_cursor p') =
        (if syntax_nesting_depth p < max_syntax_nesting_depth \<or> syntax_nesting_limit_reported p
         then cursor_diagnostics (parser_cursor p)
         else merged (cursor_diagnostics (parser_cursor p))
           [nesting_limit_exceeded (parser_snapshot p) (ahead ua p) max_syntax_nesting_depth])
    \<and> parser_snapshot p' = parser_snapshot p"
proof -
  from parser_peek_spec [OF assms] obtain p1 where p1: "parser_peek ua p = Some (ahead ua p, p1)" "parser_ok ua p1"
    "same_place (parser_cursor p) (parser_cursor p1)" "p1 = p\<lparr>parser_cursor := parser_cursor p1\<rparr>" .
  note same = same_place_simps [OF p1(3)]
  have f: "parser_snapshot p1 = parser_snapshot p" "syntax_nesting_depth p1 = syntax_nesting_depth p"
    by (subst p1(4), simp)+
  consider "syntax_nesting_depth p < max_syntax_nesting_depth"
    | "\<not> syntax_nesting_depth p < max_syntax_nesting_depth" "syntax_nesting_limit_reported p"
    | "\<not> syntax_nesting_depth p < max_syntax_nesting_depth" "\<not> syntax_nesting_limit_reported p" by blast
  then show ?thesis
  proof cases
    case 1
    with assms show ?thesis by (simp add: try_enter_syntax_nesting_def parser_ok_def)
  next
    case 2
    with assms show ?thesis by (simp add: try_enter_syntax_nesting_def)
  next
    case 3
    let ?d = "nesting_limit_exceeded (parser_snapshot p) (ahead ua p) max_syntax_nesting_depth"
    let ?q = "(parser_record_syntax_diagnostic ?d p1)\<lparr>syntax_nesting_limit_reported := True\<rparr>"
    have "try_enter_syntax_nesting ua p = Some (False, ?q)"
      using 3 p1(1) f by (simp add: try_enter_syntax_nesting_def)
    moreover have "parser_ok ua ?q"
      using p1(2) by (simp add: parser_ok_def parser_record_syntax_diagnostic_def
          cursor_record_syntax_diagnostic_def cursor_ok_def)
    ultimately show ?thesis
      using 3 f same by (simp add: parser_record_syntax_diagnostic_def cursor_record_syntax_diagnostic_def)
  qed
qed

lemma leave_spec:
  "leave_syntax_nesting p = (if syntax_nesting_depth p = 0 then None
    else Some (p\<lparr>syntax_nesting_depth := syntax_nesting_depth p - 1,
      syntax_nesting_limit_reported := (syntax_nesting_depth p \<noteq> 1 \<and> syntax_nesting_limit_reported p)\<rparr>))"
  by (cases p) (auto simp: leave_syntax_nesting_def Let_def)

interpretation nesting: transition_invariant
  "\<lambda>p. \<exists>s. snapshot_wf s \<and> p = parser_new s" "nesting_step ua" "nesting_ok ua" for ua
proof
  fix p assume "\<exists>s. snapshot_wf s \<and> p = parser_new s"
  then show "nesting_ok ua p" by (auto simp: nesting_ok_def parser_ok_new) (auto simp: parser_new_def)
next
  fix p q assume "nesting_ok ua p" "nesting_step ua p q"
  from this(2,1) show "nesting_ok ua q"
  proof cases
    case (enter b)
    with try_enter_spec [of ua p] \<open>nesting_ok ua p\<close> show ?thesis
      by (auto simp: nesting_ok_def max_syntax_nesting_depth_def split: if_splits)
  next
    case leave
    with \<open>nesting_ok ua p\<close> show ?thesis
      by (auto simp: leave_spec nesting_ok_def parser_ok_def split: if_splits)
  qed
qed

text \<open>
  The nesting limit holds in every reachable state: starting from a new parser, whatever order the
  productions enter and leave in, the depth never exceeds 128, entering at the limit is refused
  without moving, the limit is reported at most once until the outermost production is left, and
  leaving succeeds exactly when something was entered.
\<close>

theorem nesting_limit_invariant:
  assumes "snapshot_wf s" "(nesting_step ua)\<^sup>*\<^sup>* (parser_new s) p"
  shows "syntax_nesting_depth p \<le> 128 \<and> (syntax_nesting_depth p = 0 \<longrightarrow> \<not> syntax_nesting_limit_reported p)
    \<and> (leave_syntax_nesting p = None \<longleftrightarrow> syntax_nesting_depth p = 0)
    \<and> (\<exists>p'. try_enter_syntax_nesting ua p = Some (syntax_nesting_depth p < 128, p')
        \<and> parser_position p' = parser_position p
        \<and> (syntax_nesting_limit_reported p \<longrightarrow> cursor_diagnostics (parser_cursor p') = cursor_diagnostics (parser_cursor p)))"
proof -
  have "nesting_ok ua p"
    by (rule nesting.reachable_ok [OF _ assms(2)]) (use assms(1) in blast)
  then have ok: "parser_ok ua p" "syntax_nesting_limit_reported p \<longrightarrow> syntax_nesting_depth p \<noteq> 0"
    by (auto simp: nesting_ok_def)
  with try_enter_spec [OF ok(1)] show ?thesis
    by (auto simp: leave_spec parser_ok_def max_syntax_nesting_depth_def)
qed

theorem nesting_limit_invariant_witness:
  "leave_syntax_nesting (parser_new (text_snapshot ''x'')) = None"
proof -
  have "snapshot_wf (text_snapshot ''x'')" by (rule text_snapshot_wf) (simp_all add: u32_max_def)
  from nesting_limit_invariant [OF this rtranclp.rtrancl_refl, of "\<lambda>_. False"]
  show ?thesis by (simp add: parser_new_def)
qed

end
