(* ===== verification/Parser_Lists.thy ===== *)
theory Parser_Lists
  imports Parser_Cursor
begin

text \<open>
  Recovery into a syntax builder (\<open>crates/bray-parser/src/parser/recovery.rs\<close>), separated lists
  (\<open>parser/separated.rs\<close>) with the list builder they fill
  (\<open>crates/bray-syntax/src/list/storage.rs\<close>), and paths (\<open>parser/path.rs\<close>,
  \<open>crates/bray-syntax/src/syntax/path.rs\<close>). The closures a list parser receives, the item parser and
  the test for its end, are functions here; a sink is the function that takes skipped tokens into a
  builder.

  The lemmas establish one contract for all of them: what a production puts into its builder are
  exactly the tokens it moved over, and productions compose.
\<close>

subsection \<open>Recovery\<close>

type_synonym 'b recovery_sink = "syntax_token list \<Rightarrow> 'b \<Rightarrow> 'b run"

definition recover_until_set ::
    "unicode_alphanumeric \<Rightarrow> 'b recovery_sink \<Rightarrow> recovery_set \<Rightarrow> 'b \<Rightarrow> parser \<Rightarrow> (bool \<times> 'b) parsing" where
  "recover_until_set ua sink rs b p = do {
     (skipped, p') \<leftarrow> parser_skip_until ua rs p;
     b' \<leftarrow> sink skipped b;
     Some ((skipped \<noteq> [], b'), p')
   }"

definition recover_until ::
    "unicode_alphanumeric \<Rightarrow> 'b recovery_sink \<Rightarrow> syntax_kind list \<Rightarrow> 'b \<Rightarrow> parser \<Rightarrow> (bool \<times> 'b) parsing" where
  "recover_until ua sink stop_kinds b p = recover_until_set ua sink (recovery_set_new stop_kinds) b p"

definition recover_current_token ::
    "unicode_alphanumeric \<Rightarrow> 'b recovery_sink \<Rightarrow> 'b \<Rightarrow> parser \<Rightarrow> 'b parsing" where
  "recover_current_token ua sink b p = do {
     (ot, p') \<leftarrow> parser_skip_one ua p;
     (case ot of None \<Rightarrow> Some (b, p') | Some t \<Rightarrow> do { b' \<leftarrow> sink [t] b; Some (b', p') })
   }"

definition recover_current_and_until ::
    "unicode_alphanumeric \<Rightarrow> 'b recovery_sink \<Rightarrow> syntax_kind list \<Rightarrow> 'b \<Rightarrow> parser \<Rightarrow> (bool \<times> 'b) parsing" where
  "recover_current_and_until ua sink stop_kinds b p = do {
     (skipped, p') \<leftarrow> parser_skip_current_and_until ua (recovery_set_new stop_kinds) p;
     b' \<leftarrow> sink skipped b;
     Some ((skipped \<noteq> [], b'), p')
   }"

partial_function (option) until_predicate_loop ::
    "unicode_alphanumeric \<Rightarrow> (parser \<Rightarrow> bool parsing) \<Rightarrow> syntax_token list \<Rightarrow> parser \<Rightarrow> syntax_token list parsing" where
  "until_predicate_loop ua at_stop skipped p = do {
     (eof, p1) \<leftarrow> parser_at ua EndOfFileToken p;
     (if eof then Some (skipped, p1)
      else do {
        (stop, p2) \<leftarrow> at_stop p1;
        (if stop then Some (skipped, p2)
         else do {
           (t, p3) \<leftarrow> parser_consume ua p2;
           until_predicate_loop ua at_stop (skipped @ [t]) p3
         })
      })
   }"

declare until_predicate_loop.simps [code]

definition recover_until_predicate ::
    "unicode_alphanumeric \<Rightarrow> 'b recovery_sink \<Rightarrow> (parser \<Rightarrow> bool parsing) \<Rightarrow> 'b \<Rightarrow> parser \<Rightarrow> (bool \<times> 'b) parsing" where
  "recover_until_predicate ua sink at_stop b p = do {
     (skipped, p') \<leftarrow> until_predicate_loop ua at_stop [] p;
     b' \<leftarrow> sink skipped b;
     Some ((skipped \<noteq> [], b'), p')
   }"

definition recover_current_and_until_predicate ::
    "unicode_alphanumeric \<Rightarrow> 'b recovery_sink \<Rightarrow> (parser \<Rightarrow> bool parsing) \<Rightarrow> 'b \<Rightarrow> parser \<Rightarrow> (bool \<times> 'b) parsing" where
  "recover_current_and_until_predicate ua sink at_stop b p = do {
     (eof, p1) \<leftarrow> parser_at ua EndOfFileToken p;
     (first, p2) \<leftarrow> (if eof then Some ([], p1)
       else do { (t, q) \<leftarrow> parser_consume ua p1; Some ([t], q) });
     (skipped, p') \<leftarrow> until_predicate_loop ua at_stop first p2;
     b' \<leftarrow> sink skipped b;
     Some ((skipped \<noteq> [], b'), p')
   }"

definition recover_until_balanced_close_brace_or_recovery_set ::
    "unicode_alphanumeric \<Rightarrow> 'b recovery_sink \<Rightarrow> recovery_set \<Rightarrow> 'b \<Rightarrow> parser \<Rightarrow> (bool \<times> 'b) parsing" where
  "recover_until_balanced_close_brace_or_recovery_set ua sink rs b p = do {
     (skipped, p') \<leftarrow> parser_skip_until_balanced_close_brace_or_recovery ua rs p;
     b' \<leftarrow> sink skipped b;
     Some ((skipped \<noteq> [], b'), p')
   }"

definition recover_current_and_until_balanced_close_brace_or_recovery_set ::
    "unicode_alphanumeric \<Rightarrow> 'b recovery_sink \<Rightarrow> recovery_set \<Rightarrow> 'b \<Rightarrow> parser \<Rightarrow> (bool \<times> 'b) parsing" where
  "recover_current_and_until_balanced_close_brace_or_recovery_set ua sink rs b p = do {
     (skipped, p') \<leftarrow> parser_skip_current_and_until_balanced_close_brace_or_recovery ua rs p;
     b' \<leftarrow> sink skipped b;
     Some ((skipped \<noteq> [], b'), p')
   }"

record 'b braced_body_sink =
  push_open_brace_token :: "syntax_token \<Rightarrow> 'b \<Rightarrow> 'b run"
  push_close_brace_token :: "syntax_token \<Rightarrow> 'b \<Rightarrow> 'b run"

definition parse_braced_body_contents ::
    "unicode_alphanumeric \<Rightarrow> 'b braced_body_sink \<Rightarrow> (parser \<Rightarrow> bool parsing) \<Rightarrow> ('b \<Rightarrow> parser \<Rightarrow> 'b parsing)
     \<Rightarrow> 'b \<Rightarrow> parser \<Rightarrow> 'b parsing" where
  "parse_braced_body_contents ua sink at_missing_body_boundary parse_contents b p = do {
     (open_brace, p1) \<leftarrow> parser_expect ua OpenBraceToken p;
     b1 \<leftarrow> push_open_brace_token sink open_brace b;
     (bare, p2) \<leftarrow> (if tok_presence open_brace = Missing then at_missing_body_boundary p1 else Some (False, p1));
     (b2, p3) \<leftarrow> (if bare then Some (b1, p2) else parse_contents b1 p2);
     (close_brace, p4) \<leftarrow> parser_expect ua CloseBraceToken p3;
     b3 \<leftarrow> push_close_brace_token sink close_brace b2;
     Some (b3, p4)
   }"

subsection \<open>The list builder\<close>

record syntax_list_builder =
  list_node :: green_node_builder
  list_kind :: syntax_kind
  list_separator_kind :: "syntax_kind option"

definition list_builder_new :: "syntax_kind \<Rightarrow> syntax_list_builder run" where
  "list_builder_new kind = do {
     assert_run (is_node kind);
     Some \<lparr>list_node = builder_new, list_kind = kind, list_separator_kind = None\<rparr>
   }"

definition list_builder_with_separator :: "syntax_kind \<Rightarrow> syntax_kind \<Rightarrow> syntax_list_builder run" where
  "list_builder_with_separator kind separator = do {
     assert_run (is_token separator);
     b \<leftarrow> list_builder_new kind;
     Some (b\<lparr>list_separator_kind := Some separator\<rparr>)
   }"

definition push_item_node :: "green_node \<Rightarrow> syntax_list_builder \<Rightarrow> syntax_list_builder" where
  "push_item_node n b = b\<lparr>list_node := push_node n (list_node b)\<rparr>"

definition push_separator_token :: "syntax_token \<Rightarrow> syntax_list_builder \<Rightarrow> syntax_list_builder run" where
  "push_separator_token t b = (case list_separator_kind b of
     None \<Rightarrow> panic
   | Some kind \<Rightarrow> do {
       require_token_kind (tok_kind t) kind;
       n \<leftarrow> push_token t (list_node b);
       Some (b\<lparr>list_node := n\<rparr>)
     })"

definition list_push_skipped_tokens :: "syntax_token list \<Rightarrow> syntax_list_builder \<Rightarrow> syntax_list_builder run" where
  "list_push_skipped_tokens ts b = do {
     n \<leftarrow> push_skipped_tokens ts (list_node b);
     Some (b\<lparr>list_node := n\<rparr>)
   }"

definition list_build :: "syntax_list_builder \<Rightarrow> green_node run" where
  "list_build b = builder_build (list_kind b) (list_node b)"

subsection \<open>Separated lists\<close>

record separated_list_spec =
  separator_kind :: syntax_kind
  list_terminators :: "syntax_kind list"
  list_recovery_kinds :: "syntax_kind list"
  allow_trailing_separator :: bool

text \<open>The trait \<open>SeparatedListSyntaxSink\<close>: what a builder must accept to be filled by a list parser.\<close>

record 'b separated_list_sink =
  sink_skipped_tokens :: "'b recovery_sink"
  sink_item :: "green_node \<Rightarrow> 'b \<Rightarrow> 'b run"
  sink_separator :: "syntax_token \<Rightarrow> 'b \<Rightarrow> 'b run"

definition list_builder_sink :: "syntax_list_builder separated_list_sink" where
  "list_builder_sink = \<lparr>sink_skipped_tokens = list_push_skipped_tokens,
     sink_item = (\<lambda>n b. Some (push_item_node n b)), sink_separator = push_separator_token\<rparr>"

datatype separated_list_position = ItemPosition bool | SeparatorPosition

definition separated_list_recovery_kinds ::
    "syntax_kind list \<Rightarrow> syntax_kind \<Rightarrow> syntax_kind list \<Rightarrow> syntax_kind list" where
  "separated_list_recovery_kinds item_start_kinds separator terminators
     = item_start_kinds @ [separator] @ terminators"

definition at_list_end :: "unicode_alphanumeric \<Rightarrow> syntax_kind list \<Rightarrow> parser \<Rightarrow> bool parsing" where
  "at_list_end ua terminators p = do {
     (b, p1) \<leftarrow> parser_at_any ua terminators p;
     (if b then Some (True, p1) else parser_at ua EndOfFileToken p1)
   }"

definition at_list_boundary_until ::
    "unicode_alphanumeric \<Rightarrow> separated_list_spec \<Rightarrow> (parser \<Rightarrow> bool parsing) \<Rightarrow> parser \<Rightarrow> bool parsing" where
  "at_list_boundary_until ua spec at_end p = do {
     (b, p1) \<leftarrow> at_end p;
     (if b then Some (True, p1) else parser_at ua (separator_kind spec) p1)
   }"

definition parse_separated_list_item_until ::
    "unicode_alphanumeric \<Rightarrow> 'b separated_list_sink \<Rightarrow> separated_list_spec \<Rightarrow> (parser \<Rightarrow> bool parsing) \<Rightarrow> (parser \<Rightarrow> green_node parsing)
     \<Rightarrow> 'b \<Rightarrow> parser \<Rightarrow> 'b parsing" where
  "parse_separated_list_item_until ua sink spec at_end parse_item b p = do {
     (t, p1) \<leftarrow> parser_peek ua p;
     (item, p2) \<leftarrow> parse_item p1;
     b1 \<leftarrow> sink_item sink item b;
     (boundary, p3) \<leftarrow> at_list_boundary_until ua spec at_end p2;
     (moved, p4) \<leftarrow> (if boundary then Some (True, p3)
       else do { (t', q) \<leftarrow> parser_peek ua p3; Some (tok_start t' \<noteq> tok_start t, q) });
     (if boundary \<or> moved then Some (b1, p4)
      else do {
        ((skipped, b2), p5) \<leftarrow> recover_until ua (sink_skipped_tokens sink) (list_recovery_kinds spec) b1 p4;
        (stop, p6) \<leftarrow> (if skipped then Some (True, p5) else at_list_boundary_until ua spec at_end p5);
        (if stop then Some (b2, p6) else recover_current_token ua (sink_skipped_tokens sink) b2 p6)
      })
   }"

partial_function (option) separated_list_loop ::
    "unicode_alphanumeric \<Rightarrow> 'b separated_list_sink \<Rightarrow> separated_list_spec \<Rightarrow> (parser \<Rightarrow> bool parsing) \<Rightarrow> (parser \<Rightarrow> green_node parsing)
     \<Rightarrow> separated_list_position \<Rightarrow> 'b \<Rightarrow> parser \<Rightarrow> 'b parsing" where
  "separated_list_loop ua sink spec at_end parse_item pos b p = do {
     (at_end_now, p1) \<leftarrow> at_end p;
     (case pos of
        ItemPosition allow_end \<Rightarrow>
          if allow_end \<and> at_end_now then Some (b, p1)
          else do {
            (b', p2) \<leftarrow> parse_separated_list_item_until ua sink spec at_end parse_item b p1;
            separated_list_loop ua sink spec at_end parse_item SeparatorPosition b' p2
          }
      | SeparatorPosition \<Rightarrow>
          if at_end_now then Some (b, p1)
          else do {
            (os, p2) \<leftarrow> parser_consume_if ua (separator_kind spec) p1;
            (case os of
               Some t \<Rightarrow> do {
                 b' \<leftarrow> sink_separator sink t b;
                 separated_list_loop ua sink spec at_end parse_item (ItemPosition (allow_trailing_separator spec)) b' p2
               }
             | None \<Rightarrow> do {
                 (t, p3) \<leftarrow> parser_expect ua (separator_kind spec) p2;
                 b' \<leftarrow> sink_separator sink t b;
                 separated_list_loop ua sink spec at_end parse_item (ItemPosition False) b' p3
               })
          })
   }"

declare separated_list_loop.simps [code]

definition parse_separated_list_until ::
    "unicode_alphanumeric \<Rightarrow> 'b separated_list_sink \<Rightarrow> separated_list_spec \<Rightarrow> (parser \<Rightarrow> bool parsing) \<Rightarrow> (parser \<Rightarrow> green_node parsing)
     \<Rightarrow> 'b \<Rightarrow> parser \<Rightarrow> 'b parsing" where
  "parse_separated_list_until ua sink spec at_end parse_item b p
     = separated_list_loop ua sink spec at_end parse_item (ItemPosition True) b p"

definition parse_separated_list ::
    "unicode_alphanumeric \<Rightarrow> 'b separated_list_sink \<Rightarrow> separated_list_spec \<Rightarrow> (parser \<Rightarrow> green_node parsing)
     \<Rightarrow> 'b \<Rightarrow> parser \<Rightarrow> 'b parsing" where
  "parse_separated_list ua sink spec parse_item b p
     = parse_separated_list_until ua sink spec (at_list_end ua (list_terminators spec)) parse_item b p"

subsection \<open>Paths\<close>

record path_builder =
  path_source_slot :: "source_snapshot required_syntax_slot"
  path_builder_node :: green_node_builder
  path_builder_start :: "text_size option"

record path_syntax =
  path_source :: source_snapshot
  path_node :: green_node
  path_start :: text_size

definition path_builder_new :: "source_snapshot \<Rightarrow> path_builder run" where
  "path_builder_new source = do {
     slot \<leftarrow> slot_set source (slot_new ''path.source'');
     Some \<lparr>path_source_slot = slot, path_builder_node = builder_new, path_builder_start = None\<rparr>
   }"

definition set_start_if_empty :: "text_size \<Rightarrow> path_builder \<Rightarrow> path_builder" where
  "set_start_if_empty start b = (case path_builder_start b of
     Some _ \<Rightarrow> b
   | None \<Rightarrow> b\<lparr>path_builder_start := Some start\<rparr>)"

definition path_push_token :: "syntax_token \<Rightarrow> path_builder \<Rightarrow> path_builder run" where
  "path_push_token t b = (let b' = set_start_if_empty (tr_start (full_range t)) b in do {
     n \<leftarrow> push_token t (path_builder_node b');
     Some (b'\<lparr>path_builder_node := n\<rparr>)
   })"

definition path_push_identifier_token :: "syntax_token \<Rightarrow> path_builder \<Rightarrow> path_builder run" where
  "path_push_identifier_token t b = do {
     require_token_kind (tok_kind t) IdentifierToken;
     path_push_token t b
   }"

definition path_push_dot_token :: "syntax_token \<Rightarrow> path_builder \<Rightarrow> path_builder run" where
  "path_push_dot_token t b = do {
     require_token_kind (tok_kind t) DotToken;
     path_push_token t b
   }"

definition path_build :: "path_builder \<Rightarrow> path_syntax run" where
  "path_build b = do {
     source \<leftarrow> slot_into_value (path_source_slot b);
     node \<leftarrow> builder_build Path (path_builder_node b);
     (case path_builder_start b of
        Some start \<Rightarrow> Some \<lparr>path_source = source, path_node = node, path_start = start\<rparr>
      | None \<Rightarrow> panic)
   }"

definition parse_identifier :: "unicode_alphanumeric \<Rightarrow> parser \<Rightarrow> syntax_token parsing" where
  "parse_identifier ua p = parser_expect ua IdentifierToken p"

partial_function (option) path_segments_loop ::
    "unicode_alphanumeric \<Rightarrow> (parser \<Rightarrow> bool parsing) \<Rightarrow> path_builder \<Rightarrow> parser \<Rightarrow> path_builder parsing" where
  "path_segments_loop ua at_boundary b p = do {
     (stop, p1) \<leftarrow> at_boundary p;
     (if stop then Some (b, p1)
      else do {
        (dot, p2) \<leftarrow> parser_at ua DotToken p1;
        (if \<not> dot then Some (b, p2)
         else do {
           (d, p3) \<leftarrow> parser_expect ua DotToken p2;
           b1 \<leftarrow> path_push_dot_token d b;
           (t, p4) \<leftarrow> parse_identifier ua p3;
           b2 \<leftarrow> path_push_identifier_token t b1;
           path_segments_loop ua at_boundary b2 p4
         })
      })
   }"

declare path_segments_loop.simps [code]

definition parse_path_until ::
    "unicode_alphanumeric \<Rightarrow> (parser \<Rightarrow> bool parsing) \<Rightarrow> parser \<Rightarrow> path_syntax parsing" where
  "parse_path_until ua at_boundary p = do {
     b \<leftarrow> path_builder_new (parser_snapshot p);
     (t, p1) \<leftarrow> parse_identifier ua p;
     b1 \<leftarrow> path_push_identifier_token t b;
     (b2, p2) \<leftarrow> path_segments_loop ua at_boundary b1 p1;
     path \<leftarrow> path_build b2;
     Some (path, p2)
   }"

definition parse_path :: "unicode_alphanumeric \<Rightarrow> parser \<Rightarrow> path_syntax parsing" where
  "parse_path ua p = parse_path_until ua (\<lambda>q. Some (False, q)) p"

definition at_visibility_modifier :: "unicode_alphanumeric \<Rightarrow> parser \<Rightarrow> bool parsing" where
  "at_visibility_modifier ua p = do { (t, p') \<leftarrow> parser_peek ua p; Some (is_visibility_modifier (tok_kind t), p') }"

definition parse_visibility_modifier :: "unicode_alphanumeric \<Rightarrow> parser \<Rightarrow> syntax_token parsing" where
  "parse_visibility_modifier ua p = do {
     (b, p1) \<leftarrow> parser_at ua PublicKeyword p;
     (if b then parser_expect ua PublicKeyword p1 else parser_expect ua InternalKeyword p1)
   }"

subsection \<open>Leaves that account for a stretch of text\<close>

abbreviation is_present :: "green_token \<Rightarrow> bool" where
  "is_present g \<equiv> green_presence g = Present"

text \<open>
  \<open>accounts s i gs j\<close>: the present tokens among the leaves \<open>gs\<close> are the green forms of well-formed
  tokens that touch each other and lead from \<open>i\<close> to \<open>j\<close>; the other leaves are missing tokens.
\<close>

definition accounts :: "source_snapshot \<Rightarrow> text_size \<Rightarrow> green_token list \<Rightarrow> text_size \<Rightarrow> bool" where
  "accounts s i gs j \<longleftrightarrow> (\<forall>g \<in> set gs. green_token_wf g)
     \<and> (\<exists>ts. token_chain s i ts j \<and> (\<forall>t \<in> set ts. \<not> is_end_of_file t)
          \<and> map from_syntax_token ts = map Some (filter is_present gs))"

lemma accounts_Nil [simp]: "accounts s i [] j \<longleftrightarrow> i = j"
  by (auto simp: accounts_def)

lemma accounts_append: "accounts s i gs j \<Longrightarrow> accounts s j hs k \<Longrightarrow> accounts s i (gs @ hs) k"
proof -
  assume "accounts s i gs j" "accounts s j hs k"
  then obtain ts us where "token_chain s i ts j" "\<forall>t \<in> set ts. \<not> is_end_of_file t"
    "map from_syntax_token ts = map Some (filter is_present gs)" "token_chain s j us k"
    "\<forall>t \<in> set us. \<not> is_end_of_file t" "map from_syntax_token us = map Some (filter is_present hs)"
    "\<forall>g \<in> set gs. green_token_wf g" "\<forall>g \<in> set hs. green_token_wf g"
    unfolding accounts_def by blast
  then show ?thesis
    unfolding accounts_def by (auto simp: token_chain_append intro!: exI [of _ "ts @ us"])
qed

lemma token_chain_end:
  "boundary s i \<Longrightarrow> token_chain s i ts j \<Longrightarrow> boundary s j \<and> i \<le> j \<and> (i = j \<or> ts \<noteq> [])"
  using token_chain_tiles [of s i ts j] tiles_bounds by (cases ts) auto

lemma accounts_width:
  assumes "snapshot_wf s" "boundary s i" "accounts s i gs j"
  shows "i + sum_list (map green_full_width gs) = j" "boundary s j" "j \<le> text_length s"
proof -
  from assms(3) obtain ts where ts: "token_chain s i ts j" "map from_syntax_token ts = map Some (filter is_present gs)"
    and wf: "\<forall>g \<in> set gs. green_token_wf g" unfolding accounts_def by blast
  show b: "boundary s j" using token_chain_end [OF assms(2) ts(1)] by blast
  then show le: "j \<le> text_length s" by (rule boundary_le)
  with assms(1) have "j \<le> u32_max" by (simp add: snapshot_wf_def)
  from place_tokens_tiles [OF token_chain_tiles [OF assms(2) ts(1)] this] ts(2)
  have "i + sum_list (map green_full_width (filter is_present gs)) = j"
    by (auto dest: map_injective [unfolded inj_def])
  with sum_missing_widths [OF wf] show "i + sum_list (map green_full_width gs) = j" by simp
qed

lemma accounts_token:
  assumes "snapshot_wf s" "good_token s i t" "\<not> is_end_of_file t"
  obtains g where "from_syntax_token t = Some g" "accounts s i [g] (full_end t)" "is_present g"
proof -
  from assms(2) have tl: "tiles (snap_text s) i (token_ranges t) (full_end t)" by (simp add: good_token_def)
  have "full_end t \<le> u32_max"
    using good_token_end(2) [OF assms(2)] assms(1) by (simp add: snapshot_wf_def)
  from token_round_trip [OF tl this] obtain g where g: "from_syntax_token t = Some g" .
  from from_syntax_token_wf [OF g] good_token_ok [OF assms(2)]
  have "green_token_wf g" "is_present g" by auto
  with g assms show ?thesis
    by (intro that [of g]) (auto simp: accounts_def intro!: exI [of _ "[t]"])
qed

lemma accounts_missing:
  assumes "is_token k" "k \<noteq> EndOfFileToken"
  obtains g where "from_syntax_token (missing_at k i) = Some g" "accounts s j [g] j"
proof -
  let ?g = "\<lparr>green_kind = k, green_width = 0, green_presence = Missing, green_full_width = 0,
    green_leading = [], green_trailing = []\<rparr>"
  have "from_syntax_token (missing_at k i) = Some ?g"
    by (simp add: from_syntax_token_def missing_at_def text_range_empty_def text_range_len_def full_width_for_token_def)
  moreover have "green_token_wf ?g" using assms by (simp add: green_token_wf_def)
  ultimately show ?thesis by (intro that [of ?g]) (simp_all add: accounts_def)
qed

lemma accounts_chain:
  assumes "snapshot_wf s" "boundary s i" "token_chain s i ts j" "\<forall>t \<in> set ts. \<not> is_end_of_file t"
  obtains gs where "map from_syntax_token ts = map Some gs" "accounts s i gs j"
    "\<forall>t \<in> set ts. tok_presence t = Present \<and> token_ok t"
proof -
  have ok: "token_ok t \<and> tok_presence t = Present" if "t \<in> set ts" for t
  proof -
    from assms(3) that have "\<exists>k. good_token s k t"
      by (induction ts arbitrary: i) auto
    then show ?thesis using good_token_ok by blast
  qed
  have "j \<le> u32_max"
    using token_chain_end [OF assms(2,3)] assms(1) boundary_le [of s j] by (simp add: snapshot_wf_def)
  from place_tokens_tiles [OF token_chain_tiles [OF assms(2,3)] this] obtain gs
    where gs: "map from_syntax_token ts = map Some gs" by blast
  have g: "green_token_wf g \<and> is_present g" if "g \<in> set gs" for g
  proof -
    from that gs have "Some g \<in> from_syntax_token ` set ts" by (metis imageI list.set_map)
    then obtain t where "t \<in> set ts" "from_syntax_token t = Some g" by auto
    with ok [of t] from_syntax_token_wf [of t g] show ?thesis by simp
  qed
  then have "filter is_present gs = gs" by (simp add: filter_id_conv)
  with gs g assms(3,4) have "accounts s i gs j" by (auto simp: accounts_def)
  with gs ok show ?thesis by (intro that) auto
qed

subsection \<open>Parsers that keep every token\<close>

definition advanced :: "unicode_alphanumeric \<Rightarrow> parser \<Rightarrow> parser \<Rightarrow> green_token list \<Rightarrow> bool" where
  "advanced ua p p' gs \<longleftrightarrow> parser_ok ua p' \<and> parser_snapshot p' = parser_snapshot p
     \<and> syntax_nesting_depth p' = syntax_nesting_depth p
     \<and> accounts (parser_snapshot p) (parser_position p) gs (parser_position p')"

lemma advanced_refl: "parser_ok ua p \<Longrightarrow> advanced ua p p []"
  by (simp add: advanced_def)

lemma advanced_trans: "advanced ua p q gs \<Longrightarrow> advanced ua q r hs \<Longrightarrow> advanced ua p r (gs @ hs)"
  by (auto simp: advanced_def intro: accounts_append)

lemma advanced_same: "advanced ua p q [] \<Longrightarrow> advanced ua q r hs \<Longrightarrow> advanced ua p r hs"
  using advanced_trans [of ua p q "[]" r hs] by simp

lemma advanced_ahead: "advanced ua p q [] \<Longrightarrow> parser_ok ua p \<Longrightarrow> ahead ua q = ahead ua p \<and> parser_position q = parser_position p"
  by (auto simp: advanced_def here_def parser_ok_def)

lemma parser_ok_wf:
  assumes "parser_ok ua p"
  shows "snapshot_wf (parser_snapshot p)" "boundary (parser_snapshot p) (parser_position p)"
    "good_token (parser_snapshot p) (parser_position p) (ahead ua p)"
    "ahead ua p = token_at ua (parser_snapshot p) (parser_position p)"
  using assms cursor_ok_wf [of ua "parser_cursor p"] by (auto simp: parser_ok_def here_def)

lemma advanced_le: "parser_ok ua p \<Longrightarrow> advanced ua p q gs \<Longrightarrow> parser_position p \<le> parser_position q"
  using accounts_width [of "parser_snapshot p" "parser_position p" gs "parser_position q"] parser_ok_wf [of ua p]
  by (auto simp: advanced_def)

lemma from_syntax_token_presence: "from_syntax_token t = Some g \<Longrightarrow> green_presence g = tok_presence t"
  by (auto simp: from_syntax_token_def run_simps)

text \<open>A token that is there takes the parser forward.\<close>

lemma advanced_present_progress:
  assumes "parser_ok ua p" "advanced ua p q [g]" "is_present g"
  shows "parser_position p < parser_position q"
proof -
  from assms(2,3) obtain t where "good_token (parser_snapshot p) (parser_position p) t" "\<not> is_end_of_file t"
    "full_end t = parser_position q"
    unfolding advanced_def accounts_def by auto
  with good_token_end(4) show ?thesis by metis
qed

text \<open>The primitive operations in these terms.\<close>

lemma advanced_same_place:
  assumes "parser_ok ua p" "cursor_ok ua c'" "same_position (cursor_source (parser_cursor p)) (cursor_source c')"
  shows "advanced ua p (p\<lparr>parser_cursor := c'\<rparr>) []"
  using assms by (auto simp: advanced_def parser_ok_def same_position_def)

lemma advanced_moved:
  assumes "parser_ok ua p" "moved_over (ahead ua p) (parser_cursor p) c'" "cursor_ok ua c'"
    "\<not> is_end_of_file (ahead ua p)"
  obtains g where "from_syntax_token (ahead ua p) = Some g" "advanced ua p (p\<lparr>parser_cursor := c'\<rparr>) [g]"
proof -
  note wf = parser_ok_wf [OF assms(1)]
  from accounts_token [OF wf(1,3) assms(4)] obtain g where "from_syntax_token (ahead ua p) = Some g"
    "accounts (parser_snapshot p) (parser_position p) [g] (full_end (ahead ua p))" .
  with assms show ?thesis
    by (intro that [of g]) (auto simp: advanced_def parser_ok_def moved_over_def)
qed

lemma peek_adv:
  assumes "parser_ok ua p"
  obtains p' where "parser_peek ua p = Some (ahead ua p, p')" "advanced ua p p' []"
proof -
  from assms have "cursor_ok ua (parser_cursor p)" by (simp add: parser_ok_def)
  from cursor_peek_spec [OF this] obtain c where c: "cursor_peek ua (parser_cursor p) = Some (ahead ua p, c)"
    "cursor_ok ua c" "same_place (parser_cursor p) c" .
  show ?thesis
    using c advanced_same_place [OF assms c(2)]
    by (intro that [of "p\<lparr>parser_cursor := c\<rparr>"])
      (auto simp: parser_peek_def parser_lookahead_def on_cursor_def cursor_peek_def same_place_def)
qed

lemma at_adv:
  assumes "parser_ok ua p"
  obtains p' where "parser_at ua k p = Some (tok_kind (ahead ua p) = k, p')" "advanced ua p p' []"
  by (rule peek_adv [OF assms]) (auto simp: parser_at_def)

lemma at_any_adv:
  assumes "parser_ok ua p"
  obtains p' where "parser_at_any ua ks p = Some (tok_kind (ahead ua p) \<in> set ks, p')" "advanced ua p p' []"
  by (rule peek_adv [OF assms]) (auto simp: parser_at_any_def)

lemma expect_adv:
  assumes "parser_ok ua p" "is_token k" "k \<noteq> EndOfFileToken"
  obtains t p' g where "parser_expect ua k p = Some (t, p')" "tok_kind t = k"
    "from_syntax_token t = Some g" "advanced ua p p' [g]" "token_ok t"
    "tok_presence t = Missing \<longleftrightarrow> tok_kind (ahead ua p) \<noteq> k"
proof -
  from assms(1) have c: "cursor_ok ua (parser_cursor p)" by (simp add: parser_ok_def)
  show ?thesis
  proof (cases "tok_kind (ahead ua p) = k")
    case True
    from cursor_expect_hit [OF c True] obtain c' where c': "cursor_expect ua k (parser_cursor p) = Some (ahead ua p, c')"
      "moved_over (ahead ua p) (parser_cursor p) c'" "k \<noteq> EndOfFileToken \<longrightarrow> cursor_ok ua c'" .
    with assms(3) have ok: "cursor_ok ua c'" by simp
    have ne: "\<not> is_end_of_file (ahead ua p)" using True assms(3) by (simp add: is_end_of_file_def)
    from advanced_moved [OF assms(1) c'(2) ok ne] obtain g where
      "from_syntax_token (ahead ua p) = Some g" "advanced ua p (p\<lparr>parser_cursor := c'\<rparr>) [g]" .
    with True c' good_token_ok [OF parser_ok_wf(3) [OF assms(1)]] show ?thesis
      by (intro that [of "ahead ua p" "p\<lparr>parser_cursor := c'\<rparr>" g]) (auto simp: parser_expect_def on_cursor_def)
  next
    case False
    from cursor_expect_miss [OF c False assms(2)] obtain c'
      where c': "cursor_expect ua k (parser_cursor p) = Some (missing_at k (tok_start (ahead ua p)), c')"
        "cursor_ok ua c'" "same_position (cursor_source (parser_cursor p)) (cursor_source c')" .
    from accounts_missing [OF assms(2,3), of "tok_start (ahead ua p)" "parser_snapshot p" "parser_position p"]
    obtain g where g: "from_syntax_token (missing_at k (tok_start (ahead ua p))) = Some g"
      "accounts (parser_snapshot p) (parser_position p) [g] (parser_position p)" .
    have "token_ok (missing_at k (tok_start (ahead ua p)))"
      using assms(2) by (simp add: token_ok_def missing_at_def text_range_is_empty_def text_range_empty_def)
    moreover have "advanced ua p (p\<lparr>parser_cursor := c'\<rparr>) [g]"
      using assms(1) c' g(2) by (auto simp: advanced_def parser_ok_def same_position_def)
    ultimately show ?thesis
      using False c' g by (intro that [of "missing_at k (tok_start (ahead ua p))" "p\<lparr>parser_cursor := c'\<rparr>" g])
        (auto simp: parser_expect_def on_cursor_def missing_at_def)
  qed
qed

lemma consume_if_adv:
  assumes "parser_ok ua p" "k \<noteq> EndOfFileToken"
  obtains p' where "tok_kind (ahead ua p) \<noteq> k" "parser_consume_if ua k p = Some (None, p')" "advanced ua p p' []"
  | p' g where "tok_kind (ahead ua p) = k" "parser_consume_if ua k p = Some (Some (ahead ua p), p')"
      "from_syntax_token (ahead ua p) = Some g" "advanced ua p p' [g]" "parser_position p < parser_position p'"
proof -
  from assms(1) have c: "cursor_ok ua (parser_cursor p)" by (simp add: parser_ok_def)
  from cursor_consume_if_spec [OF c, of k] obtain c' where c':
    "tok_kind (ahead ua p) \<noteq> k \<longrightarrow> cursor_consume_if ua k (parser_cursor p) = Some (None, c') \<and> cursor_ok ua c'
       \<and> same_place (parser_cursor p) c'"
    "tok_kind (ahead ua p) = k \<longrightarrow> cursor_consume_if ua k (parser_cursor p) = Some (Some (ahead ua p), c')
       \<and> moved_over (ahead ua p) (parser_cursor p) c'"
    "tok_kind (ahead ua p) = k \<longrightarrow> k \<noteq> EndOfFileToken \<longrightarrow> cursor_ok ua c'" .
  show ?thesis
  proof (cases "tok_kind (ahead ua p) = k")
    case False
    with c' advanced_same_place [OF assms(1), of c'] show ?thesis
      by (intro that(1) [of "p\<lparr>parser_cursor := c'\<rparr>"]) (auto simp: parser_consume_if_def on_cursor_def same_place_def)
  next
    case True
    with assms(2) have ne: "\<not> is_end_of_file (ahead ua p)" by (simp add: is_end_of_file_def)
    from True c' assms(2) have "moved_over (ahead ua p) (parser_cursor p) c'" "cursor_ok ua c'" by auto
    from advanced_moved [OF assms(1) this ne] obtain g where
      "from_syntax_token (ahead ua p) = Some g" "advanced ua p (p\<lparr>parser_cursor := c'\<rparr>) [g]" .
    moreover have "parser_position p < cursor_position c'"
      using good_token_end(4) [OF parser_ok_wf(3) [OF assms(1)] ne] True c' by (simp add: moved_over_def)
    ultimately show ?thesis
      using True c' by (intro that(2) [of "p\<lparr>parser_cursor := c'\<rparr>" g]) (auto simp: parser_consume_if_def on_cursor_def)
  qed
qed

lemma consume_adv:
  assumes "parser_ok ua p" "\<not> is_end_of_file (ahead ua p)"
  obtains p' g where "parser_consume ua p = Some (ahead ua p, p')" "from_syntax_token (ahead ua p) = Some g"
    "advanced ua p p' [g]" "parser_position p < parser_position p'"
proof -
  from assms(1) have c: "cursor_ok ua (parser_cursor p)" by (simp add: parser_ok_def)
  from cursor_consume_spec [OF c] obtain c' where c': "cursor_consume ua (parser_cursor p) = Some (ahead ua p, c')"
    "moved_over (ahead ua p) (parser_cursor p) c'" "\<not> is_end_of_file (ahead ua p) \<longrightarrow> cursor_ok ua c'" .
  with assms(2) have ok: "cursor_ok ua c'" by simp
  from advanced_moved [OF assms(1) c'(2) ok assms(2)] obtain g where
    "from_syntax_token (ahead ua p) = Some g" "advanced ua p (p\<lparr>parser_cursor := c'\<rparr>) [g]" .
  moreover have "parser_position p < cursor_position c'"
    using good_token_end(4) [OF parser_ok_wf(3) [OF assms(1)] assms(2)] c'(2) by (simp add: moved_over_def)
  ultimately show ?thesis
    using c' by (intro that [of "p\<lparr>parser_cursor := c'\<rparr>" g]) (auto simp: parser_consume_def on_cursor_def)
qed

text \<open>What the skipping operations share: the tokens they return account for the way they went.\<close>

definition skips :: "unicode_alphanumeric \<Rightarrow> parser \<Rightarrow> parser \<Rightarrow> syntax_token list \<Rightarrow> bool" where
  "skips ua p p' ts \<longleftrightarrow> (\<forall>t \<in> set ts. tok_presence t = Present \<and> token_ok t)
     \<and> (\<exists>gs. map from_syntax_token ts = map Some gs \<and> advanced ua p p' gs)
     \<and> (ts \<noteq> [] \<longrightarrow> parser_position p < parser_position p')"

lemma stream_no_eof: "stream ua s i ts j \<Longrightarrow> \<forall>t \<in> set ts. \<not> is_end_of_file t"
  by (induction ts arbitrary: i) auto

lemma stream_progress:
  assumes "snapshot_wf s" "boundary s i" "stream ua s i ts j" "ts \<noteq> []"
  shows "i < j"
proof (cases ts)
  case (Cons t us)
  note good = token_at_good(1) [OF assms(1,2), of ua]
  from Cons assms(3) have "i < full_end t" "stream ua s (full_end t) us j" "boundary s (full_end t)"
    using good_token_end(1,4) [OF good] by auto
  with stream_chain [OF assms(1), of "full_end t" ua us j] token_chain_end [of s "full_end t" us j]
  show ?thesis by auto
qed (use assms in simp)

lemma skipped_over_skips:
  assumes "parser_ok ua p" "skipped_over ua ts (parser_cursor p) c'"
  shows "skips ua p (p\<lparr>parser_cursor := c'\<rparr>) ts"
proof -
  note wf = parser_ok_wf [OF assms(1)]
  from assms have st: "stream ua (parser_snapshot p) (parser_position p) ts (cursor_position c')"
    by (simp add: skipped_over_def parser_ok_def)
  from accounts_chain [OF wf(1,2) stream_chain [OF wf(1,2) st] stream_no_eof [OF st]] obtain gs
    where gs: "map from_syntax_token ts = map Some gs" "accounts (parser_snapshot p) (parser_position p) gs (cursor_position c')"
      "\<forall>t \<in> set ts. tok_presence t = Present \<and> token_ok t" .
  then have "advanced ua p (p\<lparr>parser_cursor := c'\<rparr>) gs"
    using assms by (auto simp: advanced_def parser_ok_def skipped_over_def)
  with gs stream_progress [OF wf(1,2) st] show ?thesis unfolding skips_def by auto
qed

lemma skip_until_adv:
  assumes "parser_ok ua p"
  obtains ts p' where "parser_skip_until ua rs p = Some (ts, p')" "skips ua p p' ts"
    "recovery_contains rs (tok_kind (ahead ua p')) \<or> is_end_of_file (ahead ua p')"
proof -
  from assms have "cursor_ok ua (parser_cursor p)" by (simp add: parser_ok_def)
  from skip_until_loop_spec [OF this, of rs "[]"] obtain ts c'
    where c': "skip_until_loop ua rs [] (parser_cursor p) = Some (ts, c')" "skipped_over ua ts (parser_cursor p) c'"
      "recovery_contains rs (tok_kind (here ua c')) \<or> is_end_of_file (here ua c')" by auto
  with skipped_over_skips [OF assms c'(2)] show ?thesis
    by (intro that [of ts "p\<lparr>parser_cursor := c'\<rparr>"])
      (auto simp: parser_skip_until_def on_cursor_def cursor_skip_until_def skip_until_tokens_def)
qed

lemma skip_one_adv:
  assumes "parser_ok ua p"
  obtains p' where "parser_skip_one ua p = Some (if is_end_of_file (ahead ua p) then None else Some (ahead ua p), p')"
    "skips ua p p' (if is_end_of_file (ahead ua p) then [] else [ahead ua p])"
proof -
  from assms have "cursor_ok ua (parser_cursor p)" by (simp add: parser_ok_def)
  from skip_one_spec [OF this] obtain c' where
    "cursor_skip_one ua (parser_cursor p) = Some (if is_end_of_file (ahead ua p) then None else Some (ahead ua p), c')"
    "skipped_over ua (if is_end_of_file (ahead ua p) then [] else [ahead ua p]) (parser_cursor p) c'" by blast
  with skipped_over_skips [OF assms] show ?thesis
    by (intro that [of "p\<lparr>parser_cursor := c'\<rparr>"]) (auto simp: parser_skip_one_def on_cursor_def)
qed

subsection \<open>Builders that hold every token\<close>

text \<open>
  \<open>filled ua i b p\<close>: the leaves of the builder account for the text from \<open>i\<close> to the parser's position.
\<close>

definition filled :: "unicode_alphanumeric \<Rightarrow> text_size \<Rightarrow> green_node_builder \<Rightarrow> parser \<Rightarrow> bool" where
  "filled ua i b p \<longleftrightarrow> parser_ok ua p \<and> boundary (parser_snapshot p) i \<and> builder_wf b
     \<and> accounts (parser_snapshot p) i (builder_leaves b) (parser_position p)"

lemma filled_new: "parser_ok ua p \<Longrightarrow> filled ua (parser_position p) builder_new p"
  using parser_ok_wf(2) [of ua p] by (simp add: filled_def)

lemma filled_ok: "filled ua i b p \<Longrightarrow> parser_ok ua p"
  by (simp add: filled_def)

lemma filled_advanced:
  assumes "filled ua i b p" "advanced ua p p' gs" "builder_wf b'" "builder_leaves b' = builder_leaves b @ gs"
  shows "filled ua i b' p'"
  using assms by (auto simp: filled_def advanced_def intro: accounts_append)

lemma filled_same: "filled ua i b p \<Longrightarrow> advanced ua p p' [] \<Longrightarrow> filled ua i b p'"
  by (rule filled_advanced [where gs = "[]"]) (auto simp: filled_def)

lemma advanced_token_wf: "advanced ua p p' gs \<Longrightarrow> g \<in> set gs \<Longrightarrow> green_token_wf g"
  by (simp add: advanced_def accounts_def)

lemma filled_push_token:
  assumes "filled ua i b p" "advanced ua p p' [g]" "from_syntax_token t = Some g"
  obtains b' where "push_token t b = Some b'" "filled ua i b' p'"
proof -
  have "filled ua i (push_element (TokenElement g) b) p'"
    by (rule filled_advanced [OF assms(1,2)])
      (use assms advanced_token_wf [OF assms(2)] in \<open>auto simp: filled_def\<close>)
  with assms(3) show ?thesis by (intro that) (auto simp: push_token_Some)
qed

lemma filled_push_node:
  assumes "filled ua i b p" "advanced ua p p' (leaves (node_children n))" "node_wf n"
  shows "filled ua i (push_node n b) p'"
  by (rule filled_advanced [OF assms(1,2)]) (use assms in \<open>auto simp: filled_def\<close>)

lemma filled_push_skipped:
  assumes "filled ua i b p" "skips ua p p' ts"
  obtains b' where "push_skipped_tokens ts b = Some b'" "filled ua i b' p'"
proof -
  from assms(2) obtain gs where gs: "map from_syntax_token ts = map Some gs" "advanced ua p p' gs"
    and ts: "\<forall>t \<in> set ts. tok_presence t = Present \<and> token_ok t" unfolding skips_def by blast
  note wf = parser_ok_wf [OF filled_ok [OF assms(1)]]
  from gs(2) have "accounts (parser_snapshot p) (parser_position p) gs (parser_position p')"
    by (simp add: advanced_def)
  from accounts_width [OF wf(1,2) this] wf(1)
  have "sum_list (map green_full_width gs) \<le> u32_max" by (simp add: snapshot_wf_def)
  moreover have "builder_wf b" using assms(1) by (simp add: filled_def)
  ultimately obtain b' where b': "push_skipped_tokens ts b = Some b'" "builder_wf b'"
    "builder_leaves b' = builder_leaves b @ gs"
    using push_skipped_tokens_ok [OF _ ts gs(1)] by metis
  from filled_advanced [OF assms(1) gs(2) b'(2,3)] b'(1) show ?thesis by (intro that)
qed

text \<open>The node that is built accounts for the whole stretch.\<close>

lemma filled_build:
  assumes "filled ua i b p" "is_node k"
  obtains n where "builder_build k b = Some n" "node_wf n" "leaves (node_children n) = builder_leaves b"
    "node_kind n = k"
proof -
  let ?es = "builder_children b"
  from assms(1) have wf: "elements_wf ?es" by (simp add: filled_def builder_wf_def)
  note pwf = parser_ok_wf [OF filled_ok [OF assms(1)]]
  from assms(1) have "boundary (parser_snapshot p) i" "accounts (parser_snapshot p) i (leaves ?es) (parser_position p)"
    by (auto simp: filled_def)
  from accounts_width [OF pwf(1) this] pwf(1) elements_width_leaves [OF wf]
  have "elements_width ?es \<le> u32_max" by (simp add: snapshot_wf_def)
  then have "builder_build k b = Some (GreenNode k (elements_width ?es) ?es)"
    using assms(2) by (simp add: builder_build_def green_node_new_Some)
  then show ?thesis
    using wf assms(2) by (intro that [of "GreenNode k (elements_width ?es) ?es"]) simp_all
qed

lemma filled_advanced_from:
  assumes "filled ua (parser_position p) b p'" "parser_snapshot p' = parser_snapshot p"
    "syntax_nesting_depth p' = syntax_nesting_depth p"
  shows "advanced ua p p' (builder_leaves b)"
  using assms by (simp add: filled_def advanced_def)

subsection \<open>Recovery sinks\<close>

text \<open>
  What recovery relies on: a sink takes every skipped token into the tree its builder is filling.
\<close>

locale recovery_syntax_sink =
  fixes sink :: "'b recovery_sink" and node_of :: "'b \<Rightarrow> green_node_builder" and inv :: "'b \<Rightarrow> bool"
  assumes sink_keeps: "filled ua i (node_of b) p \<Longrightarrow> inv b \<Longrightarrow> skips ua p p' ts
    \<Longrightarrow> \<exists>b'. sink ts b = Some b' \<and> filled ua i (node_of b') p' \<and> inv b'"
begin

lemma recover_until_set_keeps:
  assumes "filled ua i (node_of b) p" "inv b"
  shows "\<exists>skipped b' p'. recover_until_set ua sink rs b p = Some ((skipped, b'), p')
    \<and> filled ua i (node_of b') p' \<and> inv b'
    \<and> (skipped \<longrightarrow> parser_position p < parser_position p')
    \<and> (\<not> skipped \<longrightarrow> parser_position p' = parser_position p)
    \<and> parser_snapshot p' = parser_snapshot p \<and> syntax_nesting_depth p' = syntax_nesting_depth p"
proof -
  from skip_until_adv [OF filled_ok [OF assms(1)], of rs] obtain ts p'
    where s: "parser_skip_until ua rs p = Some (ts, p')" "skips ua p p' ts" by metis
  from sink_keeps [OF assms s(2)] obtain b' where b': "sink ts b = Some b'" "filled ua i (node_of b') p'" "inv b'"
    by blast
  have "parser_position p' = parser_position p" if "ts = []"
    using s(2) that by (auto simp: skips_def advanced_def)
  with s b' show ?thesis by (auto simp: recover_until_set_def skips_def advanced_def)
qed

lemma recover_current_token_keeps:
  assumes "filled ua i (node_of b) p" "inv b"
  shows "\<exists>b' p'. recover_current_token ua sink b p = Some (b', p') \<and> filled ua i (node_of b') p' \<and> inv b'
    \<and> (\<not> is_end_of_file (ahead ua p) \<longrightarrow> parser_position p < parser_position p')
    \<and> parser_snapshot p' = parser_snapshot p \<and> syntax_nesting_depth p' = syntax_nesting_depth p"
proof -
  from skip_one_adv [OF filled_ok [OF assms(1)]] obtain p' where s:
    "parser_skip_one ua p = Some (if is_end_of_file (ahead ua p) then None else Some (ahead ua p), p')"
    "skips ua p p' (if is_end_of_file (ahead ua p) then [] else [ahead ua p])" .
  show ?thesis
  proof (cases "is_end_of_file (ahead ua p)")
    case True
    with s have "advanced ua p p' []" by (simp add: skips_def)
    with True s filled_same [OF assms(1)] assms(2) show ?thesis by (auto simp: recover_current_token_def advanced_def)
  next
    case False
    with s have sk: "skips ua p p' [ahead ua p]" by simp
    from sink_keeps [OF assms sk] obtain b'
      where "sink [ahead ua p] b = Some b'" "filled ua i (node_of b') p'" "inv b'" by blast
    with False s sk show ?thesis by (auto simp: recover_current_token_def skips_def advanced_def)
  qed
qed

end

interpretation green_sink: recovery_syntax_sink push_skipped_tokens "\<lambda>b. b" "\<lambda>b. True"
  by unfold_locales (metis filled_push_skipped)

interpretation unit_sink: recovery_syntax_sink unit_push_skipped_tokens unit_builder_node "\<lambda>b. True"
proof
  fix ua i p p' ts and b :: source_unit_builder
  assume "filled ua i (unit_builder_node b) p" "skips ua p p' ts"
  from filled_push_skipped [OF this] obtain n where
    "push_skipped_tokens ts (unit_builder_node b) = Some n" "filled ua i n p'" .
  then show "\<exists>b'. unit_push_skipped_tokens ts b = Some b' \<and> filled ua i (unit_builder_node b') p' \<and> True"
    by (simp add: unit_push_skipped_tokens_def)
qed

subsection \<open>Separated lists keep every token\<close>

text \<open>
  A contract may be limited to some texts and nesting depths, its scope; neither changes while a
  production runs.
\<close>

type_synonym scope = "source_snapshot \<Rightarrow> nat \<Rightarrow> bool"

definition everywhere :: scope where
  "everywhere = (\<lambda>_ _. True)"

definition in_scope :: "scope \<Rightarrow> parser \<Rightarrow> bool" where
  [simp]: "in_scope S p \<longleftrightarrow> S (parser_snapshot p) (syntax_nesting_depth p)"

lemma everywhere [simp]: "everywhere s d"
  by (simp add: everywhere_def)

lemma in_everywhere: "in_scope everywhere p"
  by simp

text \<open>A boundary test may look as far ahead as it likes, but it stays where it is.\<close>

locale parser_observer =
  fixes ua :: unicode_alphanumeric and S :: scope and test :: "parser \<Rightarrow> bool parsing"
  assumes observed: "parser_ok ua p \<Longrightarrow> in_scope S p \<Longrightarrow> \<exists>r p'. test p = Some (r, p') \<and> advanced ua p p' []"

text \<open>The answer of a list's end test is moreover decided by the text and the position.\<close>

locale parser_test =
  fixes ua :: unicode_alphanumeric and S :: scope and test :: "parser \<Rightarrow> bool parsing"
    and decides :: "source_snapshot \<Rightarrow> text_size \<Rightarrow> bool"
  assumes test_spec: "parser_ok ua p \<Longrightarrow> in_scope S p
    \<Longrightarrow> \<exists>p'. test p = Some (decides (parser_snapshot p) (parser_position p), p') \<and> advanced ua p p' []"

sublocale parser_test \<subseteq> parser_observer
  by unfold_locales (use test_spec in blast)

text \<open>A production returns a well-formed node for the tokens it went over.\<close>

definition node_production :: "unicode_alphanumeric \<Rightarrow> scope \<Rightarrow> (parser \<Rightarrow> 'a parsing) \<Rightarrow> ('a \<Rightarrow> green_node) \<Rightarrow> bool" where
  "node_production ua S f node_of \<longleftrightarrow> (\<forall>p. parser_ok ua p \<longrightarrow> in_scope S p \<longrightarrow> (\<exists>x p'. f p = Some (x, p')
     \<and> node_wf (node_of x) \<and> advanced ua p p' (leaves (node_children (node_of x)))))"

text \<open>What a list parser relies on: its sink takes skipped tokens, items and separators into the tree.\<close>

locale separated_list_syntax_sink =
  recovery_syntax_sink "sink_skipped_tokens sink" node_of inv
  for sink :: "'b separated_list_sink" and node_of inv +
  fixes separator :: syntax_kind
  assumes item_keeps: "filled ua i (node_of b) p \<Longrightarrow> inv b \<Longrightarrow> node_wf n
      \<Longrightarrow> advanced ua p p' (leaves (node_children n))
      \<Longrightarrow> \<exists>b'. sink_item sink n b = Some b' \<and> filled ua i (node_of b') p' \<and> inv b'"
    and separator_keeps: "filled ua i (node_of b) p \<Longrightarrow> inv b \<Longrightarrow> tok_kind t = separator
      \<Longrightarrow> from_syntax_token t = Some g \<Longrightarrow> advanced ua p p' [g]
      \<Longrightarrow> \<exists>b'. sink_separator sink t b = Some b' \<and> filled ua i (node_of b') p' \<and> inv b'"

definition list_ok :: "syntax_kind \<Rightarrow> syntax_kind \<Rightarrow> syntax_list_builder \<Rightarrow> bool" where
  "list_ok kind separator b \<longleftrightarrow> list_separator_kind b = Some separator \<and> list_kind b = kind \<and> is_node kind"

interpretation list_sink: separated_list_syntax_sink list_builder_sink list_node "list_ok kind separator" separator
  for kind separator
proof
  fix ua i p p' ts and b :: syntax_list_builder
  assume "filled ua i (list_node b) p" "list_ok kind separator b" "skips ua p p' ts"
  note a = this
  from filled_push_skipped [OF a(1,3)] obtain n where
    "push_skipped_tokens ts (list_node b) = Some n" "filled ua i n p'" .
  with a(2) show
    "\<exists>b'. sink_skipped_tokens list_builder_sink ts b = Some b' \<and> filled ua i (list_node b') p' \<and> list_ok kind separator b'"
    by (simp add: list_builder_sink_def list_push_skipped_tokens_def list_ok_def)
next
  fix ua i p p' n and b :: syntax_list_builder
  assume "filled ua i (list_node b) p" "list_ok kind separator b" "node_wf n" "advanced ua p p' (leaves (node_children n))"
  then show "\<exists>b'. sink_item list_builder_sink n b = Some b' \<and> filled ua i (list_node b') p' \<and> list_ok kind separator b'"
    using filled_push_node [of ua i "list_node b" p p' n]
    by (simp add: list_builder_sink_def push_item_node_def list_ok_def)
next
  fix ua i p p' t g and b :: syntax_list_builder
  assume a: "filled ua i (list_node b) p" "list_ok kind separator b" "tok_kind t = separator"
    "from_syntax_token t = Some g" "advanced ua p p' [g]"
  from filled_push_token [OF a(1,5,4)] obtain n where "push_token t (list_node b) = Some n" "filled ua i n p'" .
  with a show "\<exists>b'. sink_separator list_builder_sink t b = Some b' \<and> filled ua i (list_node b') p' \<and> list_ok kind separator b'"
    by (auto simp: list_builder_sink_def push_separator_token_def list_ok_def require_token_kind_def)
qed

locale separated_list = ending: parser_test ua S at_end ends
  + filling: separated_list_syntax_sink sink node_of inv "separator_kind spec"
  for ua S at_end ends and sink :: "'b separated_list_sink" and node_of inv and spec :: separated_list_spec +
  fixes parse_item :: "parser \<Rightarrow> green_node parsing"
  assumes ends_at_eof: "is_end_of_file (token_at ua s i) \<Longrightarrow> ends s i"
    and item_kept: "node_production ua S parse_item (\<lambda>n. n)"
    and separator_token: "is_token (separator_kind spec)" "separator_kind spec \<noteq> EndOfFileToken"
begin

abbreviation bounds :: "parser \<Rightarrow> bool" where
  "bounds p \<equiv> ends (parser_snapshot p) (parser_position p)
     \<or> tok_kind (token_at ua (parser_snapshot p) (parser_position p)) = separator_kind spec"

lemma boundary_spec:
  assumes "parser_ok ua p" "in_scope S p"
  shows "\<exists>p'. at_list_boundary_until ua spec at_end p = Some (bounds p, p') \<and> advanced ua p p' []"
proof -
  from ending.test_spec [OF assms] obtain p1
    where p1: "at_end p = Some (ends (parser_snapshot p) (parser_position p), p1)" "advanced ua p p1 []" by blast
  then have ok: "parser_ok ua p1" by (simp add: advanced_def)
  from at_adv [OF ok, of "separator_kind spec"] obtain p2
    where p2: "parser_at ua (separator_kind spec) p1 = Some (tok_kind (ahead ua p1) = separator_kind spec, p2)"
      "advanced ua p1 p2 []" .
  have "ahead ua p1 = token_at ua (parser_snapshot p) (parser_position p)"
    using advanced_ahead [OF p1(2) assms(1)] parser_ok_wf(4) [OF assms(1)] by simp
  with p1 p2 advanced_same [OF p1(2) p2(2)] show ?thesis
    by (auto simp: at_list_boundary_until_def)
qed

text \<open>Recovery after an item that took nothing and stopped at no boundary takes at least a token.\<close>

lemma item_recovers:
  assumes "filled ua i (node_of b) p" "inv b" "in_scope S p" "\<not> bounds p"
  shows "\<exists>skipped b1 p1. recover_until ua (sink_skipped_tokens sink) (list_recovery_kinds spec) b p = Some ((skipped, b1), p1)
    \<and> (if skipped then filled ua i (node_of b1) p1 \<and> inv b1 \<and> parser_snapshot p1 = parser_snapshot p
        \<and> syntax_nesting_depth p1 = syntax_nesting_depth p \<and> parser_position p < parser_position p1
      else \<exists>p2 b3 p3. at_list_boundary_until ua spec at_end p1 = Some (False, p2)
        \<and> recover_current_token ua (sink_skipped_tokens sink) b1 p2 = Some (b3, p3)
        \<and> filled ua i (node_of b3) p3 \<and> inv b3 \<and> parser_snapshot p3 = parser_snapshot p
        \<and> syntax_nesting_depth p3 = syntax_nesting_depth p \<and> parser_position p < parser_position p3)"
proof -
  from filling.recover_until_set_keeps [OF assms(1,2), of "recovery_set_new (list_recovery_kinds spec)"]
  obtain skipped b1 p1 where p1: "recover_until ua (sink_skipped_tokens sink) (list_recovery_kinds spec) b p
      = Some ((skipped, b1), p1)" "filled ua i (node_of b1) p1" "inv b1"
    "skipped \<longrightarrow> parser_position p < parser_position p1" "\<not> skipped \<longrightarrow> parser_position p1 = parser_position p"
    "parser_snapshot p1 = parser_snapshot p" "syntax_nesting_depth p1 = syntax_nesting_depth p"
    unfolding recover_until_def by blast
  show ?thesis
  proof (cases skipped)
    case True
    with p1 show ?thesis by auto
  next
    case False
    have "in_scope S p1" using p1(6,7) assms(3) by simp
    from boundary_spec [OF filled_ok [OF p1(2)] this] obtain p2
      where p2: "at_list_boundary_until ua spec at_end p1 = Some (bounds p1, p2)" "advanced ua p1 p2 []" by blast
    have nb: "\<not> bounds p1" using assms(4) False p1 by simp
    note f2 = filled_same [OF p1(2) p2(2)]
    have pos: "parser_position p2 = parser_position p" "parser_snapshot p2 = parser_snapshot p"
      "syntax_nesting_depth p2 = syntax_nesting_depth p" using p2(2) p1 False by (auto simp: advanced_def)
    have ne: "\<not> is_end_of_file (ahead ua p2)"
      using assms(4) ends_at_eof parser_ok_wf(4) [OF filled_ok [OF f2]] pos by auto
    from filling.recover_current_token_keeps [OF f2 p1(3)] ne obtain b3 p3
      where "recover_current_token ua (sink_skipped_tokens sink) b1 p2 = Some (b3, p3)"
        "filled ua i (node_of b3) p3" "inv b3" "parser_position p2 < parser_position p3"
        "parser_snapshot p3 = parser_snapshot p2" "syntax_nesting_depth p3 = syntax_nesting_depth p2" by blast
    with p1(1) p2(1) nb False pos show ?thesis by auto
  qed
qed

text \<open>One item: every token is kept, and the parser moves on or stands at a boundary.\<close>

lemma item_step:
  assumes "filled ua i (node_of b) p" "inv b" "in_scope S p"
  shows "\<exists>b' p'. parse_separated_list_item_until ua sink spec at_end parse_item b p = Some (b', p')
    \<and> filled ua i (node_of b') p' \<and> inv b'
    \<and> parser_snapshot p' = parser_snapshot p \<and> syntax_nesting_depth p' = syntax_nesting_depth p
    \<and> (parser_position p < parser_position p' \<or> parser_position p' = parser_position p \<and> bounds p)"
proof -
  note ok = filled_ok [OF assms(1)]
  from peek_adv [OF ok] obtain p1 where p1: "parser_peek ua p = Some (ahead ua p, p1)" "advanced ua p p1 []" .
  note f1 = filled_same [OF assms(1) p1(2)] and ok1 = filled_ok [OF filled_same [OF assms(1) p1(2)]]
  have scope1: "in_scope S p1" using p1(2) assms(3) by (simp add: advanced_def)
  from item_kept ok1 scope1 obtain item p2 where p2: "parse_item p1 = Some (item, p2)" "node_wf item"
    "advanced ua p1 p2 (leaves (node_children item))" unfolding node_production_def by blast
  from filling.item_keeps [OF f1 assms(2) p2(2,3)] obtain b1 where b1: "sink_item sink item b = Some b1"
    and f2: "filled ua i (node_of b1) p2" and l1: "inv b1" by blast
  note ok2 = filled_ok [OF f2]
  have scope2: "in_scope S p2" using p2(3) scope1 by (simp add: advanced_def)
  from boundary_spec [OF ok2 scope2] obtain p3 where p3: "at_list_boundary_until ua spec at_end p2 = Some (bounds p2, p3)"
    "advanced ua p2 p3 []" by blast
  note f3 = filled_same [OF f2 p3(2)]
  have pos: "parser_position p \<le> parser_position p2" "parser_snapshot p2 = parser_snapshot p"
    "syntax_nesting_depth p2 = syntax_nesting_depth p" "parser_position p1 = parser_position p"
    using advanced_le [OF ok advanced_same [OF p1(2) p2(3)]] advanced_same [OF p1(2) p2(3)] advanced_ahead [OF p1(2) ok]
    by (auto simp: advanced_def)
  have pos3: "parser_position p3 = parser_position p2" "parser_snapshot p3 = parser_snapshot p2"
    "syntax_nesting_depth p3 = syntax_nesting_depth p2" "ahead ua p3 = ahead ua p2"
    using p3(2) advanced_ahead [OF p3(2) ok2] by (auto simp: advanced_def)
  note eq = parse_separated_list_item_until_def [of ua sink spec at_end parse_item b p]
  show ?thesis
  proof (cases "bounds p2")
    case True
    then have "parse_separated_list_item_until ua sink spec at_end parse_item b p = Some (b1, p3)"
      using p1(1) p2(1) b1 p3(1) by (simp add: eq)
    with True f3 l1 pos pos3 show ?thesis
      by (intro exI [of _ b1] exI [of _ p3]) (auto simp: le_less)
  next
    case False
    from peek_adv [OF filled_ok [OF f3]] obtain p4 where p4: "parser_peek ua p3 = Some (ahead ua p3, p4)"
      "advanced ua p3 p4 []" .
    note f4 = filled_same [OF f3 p4(2)] and ok4 = filled_ok [OF filled_same [OF f3 p4(2)]]
    have pos4: "parser_position p4 = parser_position p2" "parser_snapshot p4 = parser_snapshot p2"
      "syntax_nesting_depth p4 = syntax_nesting_depth p2"
      using p4(2) pos3 by (auto simp: advanced_def)
    show ?thesis
    proof (cases "tok_start (ahead ua p3) = tok_start (ahead ua p)")
      case moved: False
      then have "parser_position p2 \<noteq> parser_position p"
        using pos pos3 parser_ok_wf(4) [OF ok] parser_ok_wf(4) [OF ok2] by auto
      moreover have "parse_separated_list_item_until ua sink spec at_end parse_item b p = Some (b1, p4)"
        using False moved p1(1) p2(1) b1 p3(1) p4(1) by (simp add: eq)
      ultimately show ?thesis
        using f4 l1 pos pos4 by (intro exI [of _ b1] exI [of _ p4]) auto
    next
      case same: True
      have "in_scope S p4" "\<not> bounds p4" using pos4 scope2 False by simp_all
      from item_recovers [OF f4 l1 this] obtain skipped b2 p5 where
        p5: "recover_until ua (sink_skipped_tokens sink) (list_recovery_kinds spec) b1 p4 = Some ((skipped, b2), p5)"
        and rest: "if skipped then filled ua i (node_of b2) p5 \<and> inv b2 \<and> parser_snapshot p5 = parser_snapshot p4
            \<and> syntax_nesting_depth p5 = syntax_nesting_depth p4 \<and> parser_position p4 < parser_position p5
          else \<exists>p6 b3 p7. at_list_boundary_until ua spec at_end p5 = Some (False, p6)
            \<and> recover_current_token ua (sink_skipped_tokens sink) b2 p6 = Some (b3, p7)
            \<and> filled ua i (node_of b3) p7 \<and> inv b3 \<and> parser_snapshot p7 = parser_snapshot p4
            \<and> syntax_nesting_depth p7 = syntax_nesting_depth p4 \<and> parser_position p4 < parser_position p7" by blast
      show ?thesis
      proof (cases skipped)
        case True
        then have "parse_separated_list_item_until ua sink spec at_end parse_item b p = Some (b2, p5)"
          using False same p1(1) p2(1) b1 p3(1) p4(1) p5 by (simp add: eq)
        with True rest pos pos4 show ?thesis by (intro exI [of _ b2] exI [of _ p5]) auto
      next
        case noskip: False
        with rest obtain p6 b3 p7 where p7: "at_list_boundary_until ua spec at_end p5 = Some (False, p6)"
          "recover_current_token ua (sink_skipped_tokens sink) b2 p6 = Some (b3, p7)" "filled ua i (node_of b3) p7" "inv b3"
          "parser_snapshot p7 = parser_snapshot p4" "syntax_nesting_depth p7 = syntax_nesting_depth p4"
          "parser_position p4 < parser_position p7" by auto
        have "parse_separated_list_item_until ua sink spec at_end parse_item b p = Some (b3, p7)"
          using False same noskip p1(1) p2(1) b1 p3(1) p4(1) p5 p7(1,2) by (simp add: eq)
        with p7 pos pos4 show ?thesis by (intro exI [of _ b3] exI [of _ p7]) auto
      qed
    qed
  qed
qed

text \<open>
  The loop ends: each turn moves the parser forward, or it passes from a missing separator to an item
  that must move, or from an item at a boundary to the separator or the end.
\<close>

definition rank :: "separated_list_position \<Rightarrow> parser \<Rightarrow> nat" where
  "rank pos p = 3 * (text_length (parser_snapshot p) - parser_position p)
     + (case pos of ItemPosition _ \<Rightarrow> 1 | SeparatorPosition \<Rightarrow> if bounds p then 0 else 2)"

lemma rank_moved:
  assumes "parser_position p < parser_position q" "parser_snapshot q = parser_snapshot p" "parser_ok ua q"
  shows "rank pos q < rank pos' p"
proof -
  have "parser_position q \<le> text_length (parser_snapshot p)"
    using boundary_le [OF parser_ok_wf(2) [OF assms(3)]] assms(2) by simp
  with assms(1,2) show ?thesis
    by (auto simp: rank_def split: separated_list_position.splits)
qed

text \<open>One round at a separator that is there or missing.\<close>

lemma separator_step:
  assumes f: "filled ua i (node_of b) p" and inv: "inv b" and "in_scope S p" and ne: "\<not> ends (parser_snapshot p) (parser_position p)"
  obtains pos' b' p' where "separated_list_loop ua sink spec at_end parse_item SeparatorPosition b p
      = separated_list_loop ua sink spec at_end parse_item pos' b' p'"
    "rank pos' p' < rank SeparatorPosition p" "filled ua i (node_of b') p'" "inv b'"
    "parser_snapshot p' = parser_snapshot p" "syntax_nesting_depth p' = syntax_nesting_depth p" "parser_position p \<le> parser_position p'"
proof -
  note eq = separated_list_loop.simps [of ua sink spec at_end parse_item SeparatorPosition b p]
  from ending.test_spec [OF filled_ok [OF f] assms(3)] ne obtain p1 where p1: "at_end p = Some (False, p1)" "advanced ua p p1 []" by auto
  note f1 = filled_same [OF f p1(2)] and ok1 = filled_ok [OF filled_same [OF f p1(2)]]
  have pos1: "parser_position p1 = parser_position p" "parser_snapshot p1 = parser_snapshot p"
    "syntax_nesting_depth p1 = syntax_nesting_depth p" using p1(2) by (auto simp: advanced_def)
  show thesis
  proof (rule consume_if_adv [OF ok1 separator_token(2)])
    fix p2 g
    assume c: "tok_kind (ahead ua p1) = separator_kind spec"
      "parser_consume_if ua (separator_kind spec) p1 = Some (Some (ahead ua p1), p2)"
      "from_syntax_token (ahead ua p1) = Some g" "advanced ua p1 p2 [g]" "parser_position p1 < parser_position p2"
    from filling.separator_keeps [OF f1 inv c(1,3,4)] obtain b' where
      b': "sink_separator sink (ahead ua p1) b = Some b'" "filled ua i (node_of b') p2" "inv b'" by blast
    have moved: "parser_position p < parser_position p2" using c(5) pos1 by simp
    have same: "parser_snapshot p2 = parser_snapshot p" "syntax_nesting_depth p2 = syntax_nesting_depth p"
      using c(4) pos1 by (auto simp: advanced_def)
    from rank_moved [OF moved same(1) filled_ok [OF b'(2)]] show thesis
      using p1(1) c(2) b' same moved
      by (intro that [of "ItemPosition (allow_trailing_separator spec)" b' p2]) (simp_all add: eq)
  next
    fix p2
    assume c: "tok_kind (ahead ua p1) \<noteq> separator_kind spec"
      "parser_consume_if ua (separator_kind spec) p1 = Some (None, p2)" "advanced ua p1 p2 []"
    note f2 = filled_same [OF f1 c(3)] and ok2 = filled_ok [OF filled_same [OF f1 c(3)]]
    from expect_adv [OF ok2 separator_token] obtain t p3 g where e:
      "parser_expect ua (separator_kind spec) p2 = Some (t, p3)" "tok_kind t = separator_kind spec"
      "from_syntax_token t = Some g" "advanced ua p2 p3 [g]" by metis
    from filling.separator_keeps [OF f2 inv e(2,3,4)] obtain b' where
      b': "sink_separator sink t b = Some b'" "filled ua i (node_of b') p3" "inv b'" by blast
    have same: "parser_snapshot p3 = parser_snapshot p" "syntax_nesting_depth p3 = syntax_nesting_depth p"
      "parser_position p \<le> parser_position p3"
      using e(4) c(3) pos1 advanced_le [OF ok2 e(4)] by (auto simp: advanced_def)
    have "ahead ua p1 = token_at ua (parser_snapshot p) (parser_position p)" using parser_ok_wf(4) [OF ok1] pos1 by simp
    with c(1) ne have "rank (ItemPosition False) p3 < rank SeparatorPosition p" using same by (auto simp: rank_def)
    then show thesis
      using p1(1) c(2) e(1) b' same by (intro that [of "ItemPosition False" b' p3]) (simp_all add: eq)
  qed
qed

lemma loop_kept:
  assumes "filled ua i (node_of b) p" "inv b" "in_scope S p"
  shows "\<exists>b' p'. separated_list_loop ua sink spec at_end parse_item pos b p = Some (b', p')
    \<and> filled ua i (node_of b') p' \<and> inv b'
    \<and> parser_snapshot p' = parser_snapshot p \<and> syntax_nesting_depth p' = syntax_nesting_depth p
    \<and> ends (parser_snapshot p') (parser_position p') \<and> parser_position p \<le> parser_position p'"
  using assms
proof (induction "rank pos p" arbitrary: pos b p rule: less_induct)
  case less
  note ok = filled_ok [OF less.prems(1)]
    and item_eq = separated_list_loop.simps [of ua sink spec at_end parse_item "ItemPosition a" b p for a]
    and sep_eq = separated_list_loop.simps [of ua sink spec at_end parse_item SeparatorPosition b p]
  from ending.test_spec [OF ok less.prems(3)] obtain p1
    where p1: "at_end p = Some (ends (parser_snapshot p) (parser_position p), p1)" "advanced ua p p1 []" by blast
  note f1 = filled_same [OF less.prems(1) p1(2)] and ok1 = filled_ok [OF filled_same [OF less.prems(1) p1(2)]]
  have pos1: "parser_position p1 = parser_position p" "parser_snapshot p1 = parser_snapshot p"
    "syntax_nesting_depth p1 = syntax_nesting_depth p"
    using p1(2) by (auto simp: advanced_def)
  have done_here: ?case if "separated_list_loop ua sink spec at_end parse_item pos b p = Some (b, p1)"
      "ends (parser_snapshot p) (parser_position p)"
    using that f1 less.prems(2) pos1 by auto
  have continue: ?case if run: "separated_list_loop ua sink spec at_end parse_item pos b p
        = separated_list_loop ua sink spec at_end parse_item pos' b' p'"
      and step: "rank pos' p' < rank pos p" "filled ua i (node_of b') p'" "inv b'"
        "parser_snapshot p' = parser_snapshot p" "syntax_nesting_depth p' = syntax_nesting_depth p"
        "parser_position p \<le> parser_position p'" for pos' b' p'
    using less.hyps [OF step(1,2,3)] less.prems(3) step(4-6) unfolding run by fastforce
  show ?case
  proof (cases pos)
    case (ItemPosition allow_end)
    show ?thesis
    proof (cases "allow_end \<and> ends (parser_snapshot p) (parser_position p)")
      case True
      with p1(1) ItemPosition show ?thesis by (intro done_here) (simp_all add: item_eq)
    next
      case False
      have "in_scope S p1" using less.prems(3) pos1 by simp
      from item_step [OF f1 less.prems(2) this] obtain b' p'
        where i: "parse_separated_list_item_until ua sink spec at_end parse_item b p1 = Some (b', p')"
          "filled ua i (node_of b') p'" "inv b'" "parser_snapshot p' = parser_snapshot p1"
          "syntax_nesting_depth p' = syntax_nesting_depth p1"
          "parser_position p1 < parser_position p' \<or> parser_position p' = parser_position p1 \<and> bounds p1" by blast
      have "rank SeparatorPosition p' < rank pos p"
      proof (cases "parser_position p1 < parser_position p'")
        case True
        with rank_moved [of p p'] i pos1 filled_ok [OF i(2)] show ?thesis by auto
      next
        case False
        with i pos1 ItemPosition show ?thesis by (auto simp: rank_def)
      qed
      moreover have "separated_list_loop ua sink spec at_end parse_item pos b p
          = separated_list_loop ua sink spec at_end parse_item SeparatorPosition b' p'"
        using False ItemPosition p1(1) i(1) by (auto simp: item_eq)
      ultimately show ?thesis using i pos1 by (intro continue [of SeparatorPosition b' p']) auto
    qed
  next
    case SeparatorPosition
    show ?thesis
    proof (cases "ends (parser_snapshot p) (parser_position p)")
      case True
      with p1(1) SeparatorPosition show ?thesis by (intro done_here) (simp_all add: sep_eq)
    next
      case False
      show ?thesis unfolding SeparatorPosition
        by (rule separator_step [OF less.prems False]) (rule continue [unfolded SeparatorPosition])
    qed
  qed
qed

end

subsection \<open>Tests and productions of the parser\<close>

lemma at_list_end_test:
  "parser_test ua S (at_list_end ua ks)
     (\<lambda>s i. tok_kind (token_at ua s i) \<in> set ks \<or> is_end_of_file (token_at ua s i))"
proof
  fix p assume ok: "parser_ok ua p"
  from at_any_adv [OF ok, of ks] obtain p1
    where p1: "parser_at_any ua ks p = Some (tok_kind (ahead ua p) \<in> set ks, p1)" "advanced ua p p1 []" .
  then have ok1: "parser_ok ua p1" by (simp add: advanced_def)
  from at_adv [OF ok1, of EndOfFileToken] obtain p2
    where p2: "parser_at ua EndOfFileToken p1 = Some (tok_kind (ahead ua p1) = EndOfFileToken, p2)" "advanced ua p1 p2 []" .
  from p1 p2 advanced_same [OF p1(2) p2(2)] advanced_ahead [OF p1(2) ok] parser_ok_wf(4) [OF ok]
  show "\<exists>p'. at_list_end ua ks p = Some (tok_kind (token_at ua (parser_snapshot p) (parser_position p)) \<in> set ks
      \<or> is_end_of_file (token_at ua (parser_snapshot p) (parser_position p)), p') \<and> advanced ua p p' []"
    by (auto simp: at_list_end_def is_end_of_file_def)
qed

interpretation list_end: parser_test ua S "at_list_end ua ks"
  "\<lambda>s i. tok_kind (token_at ua s i) \<in> set ks \<or> is_end_of_file (token_at ua s i)" for ua S ks
  by (rule at_list_end_test)

interpretation never: parser_test ua S "\<lambda>q. Some (False, q)" "\<lambda>s i. False" for ua S
  by unfold_locales (simp add: advanced_refl)

lemma path_push_token_keeps:
  assumes "filled ua i (path_builder_node b) p" "advanced ua p p' [g]" "from_syntax_token t = Some g"
  obtains b' where "path_push_token t b = Some b'" "filled ua i (path_builder_node b') p'"
    "path_source_slot b' = path_source_slot b"
    "path_builder_start b' = Some (case path_builder_start b of Some x \<Rightarrow> x | None \<Rightarrow> tr_start (full_range t))"
proof -
  let ?b = "set_start_if_empty (tr_start (full_range t)) b"
  have n: "path_builder_node ?b = path_builder_node b" "path_source_slot ?b = path_source_slot b"
    by (simp_all add: set_start_if_empty_def split: option.splits)
  from filled_push_token [OF assms] obtain n' where
    "push_token t (path_builder_node b) = Some n'" "filled ua i n' p'" .
  with n show ?thesis
    by (intro that [of "?b\<lparr>path_builder_node := n'\<rparr>"])
      (auto simp: path_push_token_def Let_def set_start_if_empty_def split: option.splits)
qed

locale path_boundary = parser_observer ua S at_boundary for ua S at_boundary
begin

lemma path_segments_loop_keeps:
  assumes "filled ua i (path_builder_node b) p" "path_builder_start b = Some st" "in_scope S p"
  shows "\<exists>b' p'. path_segments_loop ua at_boundary b p = Some (b', p') \<and> filled ua i (path_builder_node b') p'
    \<and> path_source_slot b' = path_source_slot b \<and> path_builder_start b' = Some st
    \<and> parser_snapshot p' = parser_snapshot p \<and> syntax_nesting_depth p' = syntax_nesting_depth p
    \<and> parser_position p \<le> parser_position p'"
  using assms
proof (induction "text_length (parser_snapshot p) - parser_position p" arbitrary: b p rule: less_induct)
  case less
  note ok = filled_ok [OF less.prems(1)] and eq = path_segments_loop.simps [of ua at_boundary b p]
  from observed [OF ok less.prems(3)] obtain stop p1 where p1: "at_boundary p = Some (stop, p1)"
    "advanced ua p p1 []" by blast
  note f1 = filled_same [OF less.prems(1) p1(2)] and ok1 = filled_ok [OF filled_same [OF less.prems(1) p1(2)]]
  from at_adv [OF ok1, of DotToken] obtain p2
    where p2: "parser_at ua DotToken p1 = Some (tok_kind (ahead ua p1) = DotToken, p2)" "advanced ua p1 p2 []" .
  note f2 = filled_same [OF f1 p2(2)] and ok2 = filled_ok [OF filled_same [OF f1 p2(2)]]
  have same: "parser_snapshot p1 = parser_snapshot p" "syntax_nesting_depth p1 = syntax_nesting_depth p"
    "parser_position p1 = parser_position p" "parser_snapshot p2 = parser_snapshot p" "syntax_nesting_depth p2 = syntax_nesting_depth p"
    "parser_position p2 = parser_position p" "ahead ua p2 = ahead ua p1"
    using p1(2) p2(2) advanced_ahead [OF p2(2) ok1] by (auto simp: advanced_def)
  show ?case
  proof (cases stop)
    case True
    with p1 f1 same less.prems(2) show ?thesis by (auto simp: eq)
  next
    case False
    show ?thesis
    proof (cases "tok_kind (ahead ua p1) = DotToken")
      case nodot: False
      with False p1 p2 f2 same less.prems(2) show ?thesis by (auto simp: eq)
    next
      case dot: True
      have k: "is_token DotToken" "DotToken \<noteq> EndOfFileToken" "is_token IdentifierToken" "IdentifierToken \<noteq> EndOfFileToken"
        by (simp_all add: is_token_def is_node_def is_trivia_def)
      from expect_adv [OF ok2 k(1,2)] obtain d p3 g where e: "parser_expect ua DotToken p2 = Some (d, p3)" "tok_kind d = DotToken"
        "from_syntax_token d = Some g" "advanced ua p2 p3 [g]" "tok_presence d = Missing \<longleftrightarrow> tok_kind (ahead ua p2) \<noteq> DotToken"
        by metis
      from path_push_token_keeps [OF f2 e(4,3)] obtain b1 where b1: "path_push_token d b = Some b1"
        "filled ua i (path_builder_node b1) p3" "path_source_slot b1 = path_source_slot b"
        "path_builder_start b1 = Some (case path_builder_start b of Some x \<Rightarrow> x | None \<Rightarrow> tr_start (full_range d))" .
      note ok3 = filled_ok [OF b1(2)]
      from expect_adv [OF ok3 k(3,4)] obtain t p4 g' where e': "parser_expect ua IdentifierToken p3 = Some (t, p4)"
        "tok_kind t = IdentifierToken" "from_syntax_token t = Some g'" "advanced ua p3 p4 [g']" by metis
      from path_push_token_keeps [OF b1(2) e'(4,3)] obtain b2 where b2: "path_push_token t b1 = Some b2"
        "filled ua i (path_builder_node b2) p4" "path_source_slot b2 = path_source_slot b1"
        "path_builder_start b2 = Some (case path_builder_start b1 of Some x \<Rightarrow> x | None \<Rightarrow> tr_start (full_range t))" .
      have run: "path_segments_loop ua at_boundary b p = path_segments_loop ua at_boundary b2 p4"
        using False dot p1(1) p2(1) e(1,2) b1(1) e'(1,2) b2(1)
        by (simp add: eq path_push_dot_token_def path_push_identifier_token_def parse_identifier_def require_token_kind_def)
      have "is_present g"
        using e(5) dot same(7) from_syntax_token_presence [OF e(3)] by (cases "green_presence g") auto
      then have "parser_position p2 < parser_position p3" by (rule advanced_present_progress [OF ok2 e(4)])
      with advanced_le [OF ok3 e'(4)] same have lt: "parser_position p < parser_position p4" by simp
      have s4: "parser_snapshot p4 = parser_snapshot p" "syntax_nesting_depth p4 = syntax_nesting_depth p"
        using e(4) e'(4) same by (auto simp: advanced_def)
      have "parser_position p4 \<le> text_length (parser_snapshot p)"
        using boundary_le [OF parser_ok_wf(2) [OF filled_ok [OF b2(2)]]] s4 by simp
      with lt s4 have "text_length (parser_snapshot p4) - parser_position p4 < text_length (parser_snapshot p) - parser_position p"
        by simp
      from less.hyps [OF this b2(2)] b1 b2 less.prems(2,3) s4 lt show ?thesis by (fastforce simp: run)
    qed
  qed
qed

lemma parse_path_until_spec:
  assumes ok: "parser_ok ua p" and scope: "in_scope S p"
  shows "\<exists>x p'. parse_path_until ua at_boundary p = Some (x, p') \<and> node_wf (path_node x)
    \<and> advanced ua p p' (leaves (node_children (path_node x)))
    \<and> (tok_kind (ahead ua p) = IdentifierToken \<longrightarrow> parser_position p < parser_position p')"
proof -
  define b where "b = \<lparr>path_source_slot = \<lparr>slot_name = ''path.source'', slot_value = Some (parser_snapshot p)\<rparr>,
    path_builder_node = builder_new, path_builder_start = None\<rparr>"
  then have b: "path_builder_new (parser_snapshot p) = Some b" "path_builder_node b = builder_new"
    "path_builder_start b = None" "path_source_slot b = \<lparr>slot_name = ''path.source'', slot_value = Some (parser_snapshot p)\<rparr>"
    by (simp_all add: path_builder_new_def slot_set_def slot_new_def)
  have f: "filled ua (parser_position p) (path_builder_node b) p" unfolding b(2) by (rule filled_new [OF ok])
  have k: "is_token IdentifierToken" "IdentifierToken \<noteq> EndOfFileToken" "is_node Path"
    by (simp_all add: is_token_def is_node_def is_trivia_def)
  from expect_adv [OF ok k(1,2)] obtain t p1 g where e: "parser_expect ua IdentifierToken p = Some (t, p1)"
    "tok_kind t = IdentifierToken" "from_syntax_token t = Some g" "advanced ua p p1 [g]" "tok_presence t = Missing \<longleftrightarrow> tok_kind (ahead ua p) \<noteq> IdentifierToken"
    by metis
  from path_push_token_keeps [OF f e(4,3)] obtain b1 where b1: "path_push_token t b = Some b1"
    "filled ua (parser_position p) (path_builder_node b1) p1" "path_source_slot b1 = path_source_slot b"
    "path_builder_start b1 = Some (case path_builder_start b of Some x \<Rightarrow> x | None \<Rightarrow> tr_start (full_range t))" .
  have "in_scope S p1" using e(4) scope by (simp add: advanced_def)
  from path_segments_loop_keeps [OF b1(2,4) this] obtain b2 p2 where l: "path_segments_loop ua at_boundary b1 p1 = Some (b2, p2)"
    "filled ua (parser_position p) (path_builder_node b2) p2" "path_source_slot b2 = path_source_slot b1"
    "path_builder_start b2 = Some (case path_builder_start b of Some x \<Rightarrow> x | None \<Rightarrow> tr_start (full_range t))"
    "parser_snapshot p2 = parser_snapshot p1" "syntax_nesting_depth p2 = syntax_nesting_depth p1" "parser_position p1 \<le> parser_position p2" by blast
  from filled_build [OF l(2) k(3)] obtain n where n: "builder_build Path (path_builder_node b2) = Some n" "node_wf n"
    "leaves (node_children n) = builder_leaves (path_builder_node b2)" by metis
  have "parser_snapshot p2 = parser_snapshot p" "syntax_nesting_depth p2 = syntax_nesting_depth p"
    using l(5,6) e(4) by (auto simp: advanced_def)
  from filled_advanced_from [OF l(2) this] n(3)
  have adv: "advanced ua p p2 (leaves (node_children n))" by simp
  have "\<exists>path. parse_path_until ua at_boundary p = Some (path, p2) \<and> path_node path = n"
    using b e(1,2) b1(1,3) l(1,3,4) n(1)
    by (simp add: parse_path_until_def parse_identifier_def path_push_identifier_token_def require_token_kind_def
        path_build_def slot_into_value_def)
  moreover have "tok_kind (ahead ua p) = IdentifierToken \<Longrightarrow> parser_position p < parser_position p2"
    using advanced_present_progress [OF ok e(4)] e(5) from_syntax_token_presence [OF e(3)] l(7)
    by (cases "green_presence g") auto
  ultimately show ?thesis using n(2) adv by metis
qed

lemma parse_path_until_kept: "node_production ua S (parse_path_until ua at_boundary) path_node"
  unfolding node_production_def using parse_path_until_spec by blast

end

interpretation plain_path: path_boundary ua S "\<lambda>q. Some (False, q)" for ua S
  by (rule path_boundary.intro, rule never.parser_observer_axioms)

lemma parse_path_kept: "node_production ua S (parse_path ua) path_node"
  using plain_path.parse_path_until_kept [of ua S] by (simp add: node_production_def parse_path_def)

subsection \<open>The text of what a production returns\<close>

lemma advanced_text:
  assumes "parser_ok ua p" "advanced ua p p' (leaves (node_children n))" "node_wf n"
  shows "write_source_text n (snap_text (parser_snapshot p)) (parser_position p)
    = Some (segment (snap_text (parser_snapshot p)) (parser_position p) (parser_position p'))"
proof -
  let ?s = "parser_snapshot p" and ?i = "parser_position p" and ?j = "parser_position p'"
  note wf = parser_ok_wf [OF assms(1)]
  from assms(2) have acc: "accounts ?s ?i (leaves (node_children n)) ?j" by (simp add: advanced_def)
  then obtain ts where ts: "token_chain ?s ?i ts ?j"
    "map from_syntax_token ts = map Some (filter is_present (leaves (node_children n)))" unfolding accounts_def by blast
  from accounts_width(3) [OF wf(1,2) acc] wf(1) have "?j \<le> u32_max" by (simp add: snapshot_wf_def)
  from tree_text_tiles [OF assms(3) refl token_chain_tiles [OF wf(2) ts(1)] this ts(2)]
  show ?thesis by blast
qed

lemma node_production_text:
  assumes "node_production ua S f node_of" "parser_ok ua p" "in_scope S p"
  shows "\<exists>x p'. f p = Some (x, p') \<and> node_wf (node_of x) \<and> parser_ok ua p'
    \<and> parser_snapshot p' = parser_snapshot p \<and> parser_position p \<le> parser_position p'
    \<and> write_source_text (node_of x) (snap_text (parser_snapshot p)) (parser_position p)
        = Some (segment (snap_text (parser_snapshot p)) (parser_position p) (parser_position p'))"
proof -
  from assms obtain x p' where "f p = Some (x, p')" "node_wf (node_of x)"
    "advanced ua p p' (leaves (node_children (node_of x)))" unfolding node_production_def by blast
  with advanced_text [OF assms(2), of p' "node_of x"] advanced_le [OF assms(2), of p'] show ?thesis
    by (auto simp: advanced_def)
qed



definition parse_path_item :: "unicode_alphanumeric \<Rightarrow> parser \<Rightarrow> green_node parsing" where
  "parse_path_item ua p = do { (path, p') \<leftarrow> parse_path ua p; Some (path_node path, p') }"

lemma parse_path_item_kept: "node_production ua S (parse_path_item ua) (\<lambda>n. n)"
  using parse_path_kept [of ua S] unfolding node_production_def parse_path_item_def by fastforce

lemma list_builder_with_separator_Some:
  assumes "list_builder_with_separator kind separator = Some b"
  shows "list_ok kind separator b" "list_node b = builder_new"
  using assms by (auto simp: list_builder_with_separator_def list_builder_new_def assert_run_def list_ok_def run_simps
      split: if_splits)

text \<open>
  C3. A separated list is parsed from any position, whatever the items do with the text, as long as
  an item is a production: the parser always returns, at a terminator or at the end of the file; the
  list that is built is a well-formed node of its kind, and its items, separators, skipped tokens and
  missing tokens reproduce exactly the text between the two positions of the parser.
\<close>

theorem separated_list_lossless:
  assumes "parser_ok ua p" "node_production ua everywhere parse_item (\<lambda>n. n)" "separator_kind spec \<noteq> EndOfFileToken"
    and b: "list_builder_with_separator kind (separator_kind spec) = Some b"
  shows "\<exists>b' p' n. parse_separated_list ua list_builder_sink spec parse_item b p = Some (b', p')
    \<and> list_build b' = Some n \<and> node_wf n \<and> node_kind n = kind
    \<and> parser_ok ua p' \<and> parser_snapshot p' = parser_snapshot p \<and> parser_position p \<le> parser_position p'
    \<and> (tok_kind (ahead ua p') \<in> set (list_terminators spec) \<or> is_end_of_file (ahead ua p'))
    \<and> write_source_text n (snap_text (parser_snapshot p)) (parser_position p)
        = Some (segment (snap_text (parser_snapshot p)) (parser_position p) (parser_position p'))"
proof -
  note b' = list_builder_with_separator_Some [OF b]
  have "is_token (separator_kind spec)"
    using b by (auto simp: list_builder_with_separator_def assert_run_def run_simps split: if_splits)
  with assms(2,3) have "separated_list ua everywhere (at_list_end ua (list_terminators spec))
      (\<lambda>s i. tok_kind (token_at ua s i) \<in> set (list_terminators spec) \<or> is_end_of_file (token_at ua s i))
      list_builder_sink list_node (list_ok kind (separator_kind spec)) spec parse_item"
    by unfold_locales simp_all
  from separated_list.loop_kept [OF this, where i = "parser_position p" and b = b and p = p and pos = "ItemPosition True"]
    filled_new [OF assms(1)] b' in_everywhere
  obtain b1 p1 where run: "parse_separated_list ua list_builder_sink spec parse_item b p = Some (b1, p1)"
    and f: "filled ua (parser_position p) (list_node b1) p1" "list_ok kind (separator_kind spec) b1"
    and same: "parser_snapshot p1 = parser_snapshot p" "syntax_nesting_depth p1 = syntax_nesting_depth p"
    and stop: "tok_kind (token_at ua (parser_snapshot p1) (parser_position p1)) \<in> set (list_terminators spec)
      \<or> is_end_of_file (token_at ua (parser_snapshot p1) (parser_position p1))"
    unfolding parse_separated_list_def parse_separated_list_until_def by auto
  from f(2) have k: "is_node kind" "list_kind b1 = kind" by (simp_all add: list_ok_def)
  from filled_build [OF f(1) k(1)] obtain n where n: "builder_build kind (list_node b1) = Some n" "node_wf n"
    "leaves (node_children n) = builder_leaves (list_node b1)" "node_kind n = kind" .
  from filled_advanced_from [OF f(1) same] n(3) have adv: "advanced ua p p1 (leaves (node_children n))" by simp
  from run n k(2) same(1) advanced_text [OF assms(1) adv n(2)] advanced_le [OF assms(1) adv] stop
    parser_ok_wf(4) [OF filled_ok [OF f(1)]] filled_ok [OF f(1)]
  show ?thesis
    by (intro exI [of _ b1] exI [of _ p1] exI [of _ n]) (simp add: list_build_def)
qed

theorem separated_list_lossless_witness:
  "\<exists>b b' p' n. list_builder_with_separator OverloadArmList CommaToken = Some b
     \<and> parse_separated_list (\<lambda>_. False) list_builder_sink
         \<lparr>separator_kind = CommaToken, list_terminators = [CloseBraceToken],
          list_recovery_kinds = separated_list_recovery_kinds [IdentifierToken] CommaToken [CloseBraceToken],
          allow_trailing_separator = True\<rparr>
         (parse_path_item (\<lambda>_. False)) b (parser_new (text_snapshot ''a.b 1, , c} d'')) = Some (b', p')
     \<and> list_build b' = Some n
     \<and> write_source_text n ''a.b 1, , c} d'' 0 = Some (segment ''a.b 1, , c} d'' 0 (parser_position p'))"
proof -
  let ?p = "parser_new (text_snapshot ''a.b 1, , c} d'')"
  have "snapshot_wf (text_snapshot ''a.b 1, , c} d'')" by (rule text_snapshot_wf) (simp_all add: u32_max_def)
  then have ok: "parser_ok (\<lambda>_. False) ?p" by (rule parser_ok_new)
  have start: "parser_position ?p = 0" "snap_text (parser_snapshot ?p) = ''a.b 1, , c} d''"
    by (simp_all add: parser_new_def parser_cursor_new_def token_source_new_def with_cache_policy_def text_snapshot_def)
  obtain b where b: "list_builder_with_separator OverloadArmList CommaToken = Some b"
    by (simp add: list_builder_with_separator_def list_builder_new_def assert_run_def is_token_def is_node_def is_trivia_def)
  let ?spec = "\<lparr>separator_kind = CommaToken, list_terminators = [CloseBraceToken],
    list_recovery_kinds = separated_list_recovery_kinds [IdentifierToken] CommaToken [CloseBraceToken],
    allow_trailing_separator = True\<rparr>"
  from separated_list_lossless [OF ok parse_path_item_kept, of ?spec OverloadArmList b] b
  show ?thesis unfolding start by auto
qed

end
