(* ===== verification/Parser_Nodes.thy ===== *)
theory Parser_Nodes
  imports Parser_Lists
begin

text \<open>
  Typed syntax nodes and the shape of the productions that build them. The macro
  \<open>define_source_syntax_node!\<close> (\<open>crates/bray-syntax/src/node/definition.rs\<close>) declares every typed node
  and its builder in the same way: a source, a green builder and a start, with one push method per
  token or child. They are one pair of records here; the kind of the node and the name of its source
  slot are arguments. A production (\<open>crates/bray-parser/src/parser/*.rs\<close>) reads the start of the token
  ahead, fills a builder step by step and builds the node; a step is a function on the builder and the
  parser, so a production is the list of its statements.

  The lemmas give one rule per kind of statement: a step that keeps every token it moves over, and a
  production made of such steps, whatever they are.
\<close>

subsection \<open>Typed nodes and their builders\<close>

record node_syntax =
  syn_source :: source_snapshot
  syn_node :: green_node
  syn_start :: text_size

record node_builder =
  nb_source :: "source_snapshot required_syntax_slot"
  nb_node :: green_node_builder
  nb_start :: text_size

definition node_builder_new :: "string \<Rightarrow> source_snapshot \<Rightarrow> text_size \<Rightarrow> node_builder run" where
  "node_builder_new source_slot source start = do {
     slot \<leftarrow> slot_set source (slot_new source_slot);
     Some \<lparr>nb_source = slot, nb_node = builder_new, nb_start = start\<rparr>
   }"

definition push_required_token :: "syntax_kind \<Rightarrow> syntax_token \<Rightarrow> node_builder \<Rightarrow> node_builder run" where
  "push_required_token kind t b = do {
     require_token_kind (tok_kind t) kind;
     n \<leftarrow> push_token t (nb_node b);
     Some (b\<lparr>nb_node := n\<rparr>)
   }"

text \<open>Builders with a method of their own that asserts a class of kinds instead of one kind.\<close>

definition push_token_of :: "(syntax_kind \<Rightarrow> bool) \<Rightarrow> syntax_token \<Rightarrow> node_builder \<Rightarrow> node_builder run" where
  "push_token_of allowed t b = do {
     assert_run (allowed (tok_kind t));
     n \<leftarrow> push_token t (nb_node b);
     Some (b\<lparr>nb_node := n\<rparr>)
   }"

definition push_child :: "node_syntax \<Rightarrow> node_builder \<Rightarrow> node_builder" where
  "push_child child b = b\<lparr>nb_node := push_node (syn_node child) (nb_node b)\<rparr>"

definition push_path_child :: "path_syntax \<Rightarrow> node_builder \<Rightarrow> node_builder" where
  "push_path_child path b = b\<lparr>nb_node := push_node (path_node path) (nb_node b)\<rparr>"

definition node_push_skipped_tokens :: "syntax_token list \<Rightarrow> node_builder \<Rightarrow> node_builder run" where
  "node_push_skipped_tokens ts b = do {
     n \<leftarrow> push_skipped_tokens ts (nb_node b);
     Some (b\<lparr>nb_node := n\<rparr>)
   }"

definition node_build :: "syntax_kind \<Rightarrow> node_builder \<Rightarrow> node_syntax run" where
  "node_build kind b = do {
     source \<leftarrow> slot_into_value (nb_source b);
     n \<leftarrow> builder_build kind (nb_node b);
     Some \<lparr>syn_source = source, syn_node = n, syn_start = nb_start b\<rparr>
   }"

definition syn_full_range :: "node_syntax \<Rightarrow> text_range run" where
  "syn_full_range n = full_range_from_width (syn_start n) (node_full_width (syn_node n))"

definition node_list_sink :: "syntax_kind \<Rightarrow> node_builder separated_list_sink" where
  "node_list_sink separator = \<lparr>sink_skipped_tokens = node_push_skipped_tokens,
     sink_item = (\<lambda>n b. Some (b\<lparr>nb_node := push_node n (nb_node b)\<rparr>)),
     sink_separator = push_required_token separator\<rparr>"

subsection \<open>Productions as lists of steps\<close>

type_synonym step = "node_builder \<Rightarrow> parser \<Rightarrow> node_builder parsing"

primrec run_steps :: "step list \<Rightarrow> step" where
  "run_steps [] b p = Some (b, p)"
| "run_steps (s # ss) b p = do { (b', p') \<leftarrow> s b p; run_steps ss b' p' }"

definition expect_into :: "unicode_alphanumeric \<Rightarrow> syntax_kind \<Rightarrow> step" where
  "expect_into ua kind b p = do {
     (t, p') \<leftarrow> parser_expect ua kind p;
     b' \<leftarrow> push_required_token kind t b;
     Some (b', p')
   }"

definition child_into :: "(parser \<Rightarrow> node_syntax parsing) \<Rightarrow> step" where
  "child_into f b p = do { (child, p') \<leftarrow> f p; Some (push_child child b, p') }"

definition path_into :: "(parser \<Rightarrow> path_syntax parsing) \<Rightarrow> step" where
  "path_into f b p = do { (path, p') \<leftarrow> f p; Some (push_path_child path b, p') }"

definition token_of_into :: "(syntax_kind \<Rightarrow> bool) \<Rightarrow> (parser \<Rightarrow> syntax_token parsing) \<Rightarrow> step" where
  "token_of_into allowed f b p = do { (t, p') \<leftarrow> f p; b' \<leftarrow> push_token_of allowed t b; Some (b', p') }"

definition when_step :: "(parser \<Rightarrow> bool parsing) \<Rightarrow> step list \<Rightarrow> step" where
  "when_step test ss b p = do { (t, p') \<leftarrow> test p; (if t then run_steps ss b p' else Some (b, p')) }"

definition if_step :: "(parser \<Rightarrow> bool parsing) \<Rightarrow> step list \<Rightarrow> step list \<Rightarrow> step" where
  "if_step test ss ss' b p = do { (t, p') \<leftarrow> test p; (if t then run_steps ss b p' else run_steps ss' b p') }"

definition recover_step :: "(node_builder \<Rightarrow> parser \<Rightarrow> (bool \<times> node_builder) parsing) \<Rightarrow> step" where
  "recover_step r b p = do { ((_, b'), p') \<leftarrow> r b p; Some (b', p') }"

definition start_node :: "unicode_alphanumeric \<Rightarrow> string \<Rightarrow> parser \<Rightarrow> node_builder parsing" where
  "start_node ua source_slot p = do {
     (t, p') \<leftarrow> parser_peek ua p;
     b \<leftarrow> node_builder_new source_slot (parser_snapshot p') (tr_start (full_range t));
     Some (b, p')
   }"

definition parse_node :: "unicode_alphanumeric \<Rightarrow> string \<Rightarrow> syntax_kind \<Rightarrow> step list \<Rightarrow> parser \<Rightarrow> node_syntax parsing" where
  "parse_node ua source_slot kind ss p = do {
     (b, p1) \<leftarrow> start_node ua source_slot p;
     (b', p2) \<leftarrow> run_steps ss b p1;
     n \<leftarrow> node_build kind b';
     Some (n, p2)
   }"

definition item_of :: "(parser \<Rightarrow> node_syntax parsing) \<Rightarrow> parser \<Rightarrow> green_node parsing" where
  "item_of f p = do { (n, p') \<leftarrow> f p; Some (syn_node n, p') }"

subsection \<open>Steps that keep every token\<close>

definition nb_ok :: "node_builder \<Rightarrow> bool" where
  "nb_ok b \<longleftrightarrow> slot_value (nb_source b) \<noteq> None"

definition frame :: "parser \<Rightarrow> parser \<Rightarrow> bool" where
  "frame p p' \<longleftrightarrow> parser_snapshot p' = parser_snapshot p \<and> syntax_nesting_depth p' = syntax_nesting_depth p
     \<and> parser_position p \<le> parser_position p'"

lemma frame_trans [trans]: "frame p q \<Longrightarrow> frame q r \<Longrightarrow> frame p r"
  by (simp add: frame_def)

lemma frame_refl [simp]: "frame p p"
  by (simp add: frame_def)

lemma frame_scope: "in_scope S p \<Longrightarrow> frame p q \<Longrightarrow> in_scope S q"
  by (simp add: frame_def)

lemma advanced_frame: "advanced ua p q gs \<Longrightarrow> parser_ok ua p \<Longrightarrow> frame p q"
  using advanced_le by (auto simp: frame_def advanced_def)

text \<open>
  \<open>holds ua i b p\<close>: a typed builder that can be built, holding the tokens from \<open>i\<close> to the parser.
\<close>

definition holds :: "unicode_alphanumeric \<Rightarrow> text_size \<Rightarrow> node_builder \<Rightarrow> parser \<Rightarrow> bool" where
  "holds ua i b p \<longleftrightarrow> filled ua i (nb_node b) p \<and> nb_ok b \<and> nb_start b = i"

definition spans :: "unicode_alphanumeric \<Rightarrow> text_size \<Rightarrow> node_syntax \<Rightarrow> parser \<Rightarrow> bool" where
  "spans ua i n p \<longleftrightarrow> parser_ok ua p \<and> boundary (parser_snapshot p) i \<and> node_wf (syn_node n) \<and> syn_start n = i
     \<and> accounts (parser_snapshot p) i (leaves (node_children (syn_node n))) (parser_position p)"

definition keeps :: "unicode_alphanumeric \<Rightarrow> scope \<Rightarrow> step \<Rightarrow> bool" where
  "keeps ua S s \<longleftrightarrow> (\<forall>i b p. holds ua i b p \<longrightarrow> in_scope S p \<longrightarrow>
     (\<exists>b' p'. s b p = Some (b', p') \<and> holds ua i b' p' \<and> frame p p'))"

definition production :: "unicode_alphanumeric \<Rightarrow> scope \<Rightarrow> (parser \<Rightarrow> node_syntax parsing) \<Rightarrow> bool" where
  "production ua S f \<longleftrightarrow> (\<forall>p. parser_ok ua p \<longrightarrow> in_scope S p \<longrightarrow>
     (\<exists>n p'. f p = Some (n, p') \<and> spans ua (parser_position p) n p' \<and> frame p p'))"

lemma holds_ok: "holds ua i b p \<Longrightarrow> parser_ok ua p"
  by (simp add: holds_def filled_def)

lemma spans_ok: "spans ua i n p \<Longrightarrow> parser_ok ua p"
  by (simp add: spans_def)

lemma keepsI:
  assumes "\<And>i b p. holds ua i b p \<Longrightarrow> in_scope S p \<Longrightarrow> \<exists>b' p'. s b p = Some (b', p') \<and> holds ua i b' p' \<and> frame p p'"
  shows "keeps ua S s"
  using assms unfolding keeps_def by blast

lemma keepsE:
  assumes "keeps ua S s" "holds ua i b p" "in_scope S p"
  obtains b' p' where "s b p = Some (b', p')" "holds ua i b' p'" "frame p p'"
  using assms unfolding keeps_def by blast

lemma productionI:
  assumes "\<And>p. parser_ok ua p \<Longrightarrow> in_scope S p
    \<Longrightarrow> \<exists>n p'. f p = Some (n, p') \<and> spans ua (parser_position p) n p' \<and> frame p p'"
  shows "production ua S f"
  using assms unfolding production_def by blast

lemma productionE:
  assumes "production ua S f" "parser_ok ua p" "in_scope S p"
  obtains n p' where "f p = Some (n, p')" "spans ua (parser_position p) n p'" "frame p p'"
  using assms unfolding production_def by blast

lemma observerE:
  assumes "parser_observer ua S test" "parser_ok ua p" "in_scope S p"
  obtains r p' where "test p = Some (r, p')" "advanced ua p p' []"
  using parser_observer.observed [OF assms] by blast

lemma production_node: "production ua S f \<Longrightarrow> node_production ua S f syn_node"
  unfolding production_def node_production_def spans_def frame_def advanced_def by fastforce

lemma holds_advanced:
  assumes "holds ua i b p" "advanced ua p p' gs" "builder_wf (nb_node b')"
    "builder_leaves (nb_node b') = builder_leaves (nb_node b) @ gs" "nb_source b' = nb_source b" "nb_start b' = nb_start b"
  shows "holds ua i b' p'"
  using assms filled_advanced [of ua i "nb_node b" p p' gs "nb_node b'"] by (simp add: holds_def nb_ok_def)

lemma holds_same: "holds ua i b p \<Longrightarrow> advanced ua p p' [] \<Longrightarrow> holds ua i b p'"
  using filled_same by (auto simp: holds_def)

lemma holds_node:
  assumes "filled ua i n p" "nb_ok b" "nb_start b = i"
  shows "holds ua i (b\<lparr>nb_node := n\<rparr>) p"
  using assms by (simp add: holds_def nb_ok_def)

subsection \<open>One rule for each kind of statement\<close>

lemma ahead_full_start: "parser_ok ua p \<Longrightarrow> tr_start (full_range (ahead ua p)) = parser_position p"
proof -
  assume "parser_ok ua p"
  from parser_ok_wf(3) [OF this] obtain j
    where "tiles (snap_text (parser_snapshot p)) (parser_position p) (token_ranges (ahead ua p)) j" by (auto simp: good_token_def)
  from full_range_tiles [OF this] show ?thesis by simp
qed

lemma start_node_holds:
  assumes "parser_ok ua p"
  obtains b p' where "start_node ua slot p = Some (b, p')" "holds ua (parser_position p) b p'" "frame p p'"
proof -
  from peek_adv [OF assms] obtain p' where p': "parser_peek ua p = Some (ahead ua p, p')" "advanced ua p p' []" .
  have "parser_ok ua p'" "parser_position p' = parser_position p" using p'(2) by (auto simp: advanced_def)
  with filled_new [of ua p'] have "filled ua (parser_position p) builder_new p'" by simp
  then show ?thesis
    using p' advanced_frame [OF p'(2) assms] ahead_full_start [OF assms]
    by (intro that [of "\<lparr>nb_source = \<lparr>slot_name = slot, slot_value = Some (parser_snapshot p')\<rparr>,
          nb_node = builder_new, nb_start = parser_position p\<rparr>" p'])
      (auto simp: start_node_def node_builder_new_def slot_set_def slot_new_def holds_def nb_ok_def)
qed

lemma node_build_spans:
  assumes "holds ua i b p" "is_node k"
  obtains n where "node_build k b = Some n" "spans ua i n p" "node_kind (syn_node n) = k"
proof -
  from assms(1) have f: "filled ua i (nb_node b) p" and b: "nb_ok b" "nb_start b = i" by (simp_all add: holds_def)
  from filled_build [OF f assms(2)] obtain n where n: "builder_build k (nb_node b) = Some n" "node_wf n"
    "leaves (node_children n) = builder_leaves (nb_node b)" "node_kind n = k" .
  from b(1) obtain s where s: "slot_value (nb_source b) = Some s" by (auto simp: nb_ok_def)
  with n f b(2) show ?thesis
    by (intro that [of "\<lparr>syn_source = s, syn_node = n, syn_start = i\<rparr>"])
      (auto simp: node_build_def slot_into_value_def spans_def filled_def)
qed

lemma keeps_run_steps: "list_all (keeps ua S) ss \<Longrightarrow> keeps ua S (run_steps ss)"
proof (induction ss)
  case Nil
  then show ?case by (simp add: keeps_def)
next
  case (Cons s ss)
  then have s: "keeps ua S s" and ss: "keeps ua S (run_steps ss)" by simp_all
  show ?case
  proof (rule keepsI)
    fix i b p assume "holds ua i b p" and scope: "in_scope S p"
    from keepsE [OF s this] obtain b1 p1 where s1: "s b p = Some (b1, p1)" "holds ua i b1 p1" "frame p p1" .
    from keepsE [OF ss s1(2) frame_scope [OF scope s1(3)]] obtain b2 p2 where "run_steps ss b1 p1 = Some (b2, p2)" "holds ua i b2 p2" "frame p1 p2" .
    with s1 frame_trans [OF s1(3)] show "\<exists>b' p'. run_steps (s # ss) b p = Some (b', p') \<and> holds ua i b' p' \<and> frame p p'"
      by auto
  qed
qed

lemma production_parse_node:
  assumes "is_node k" "list_all (keeps ua S) ss"
  shows "production ua S (parse_node ua slot k ss)"
proof (rule productionI)
  fix p assume ok: "parser_ok ua p" and scope: "in_scope S p"
  from start_node_holds [OF ok] obtain b p1 where 1: "start_node ua slot p = Some (b, p1)"
    "holds ua (parser_position p) b p1" "frame p p1" .
  from keepsE [OF keeps_run_steps [OF assms(2)] 1(2) frame_scope [OF scope 1(3)]] obtain b' p2
    where 2: "run_steps ss b p1 = Some (b', p2)" "holds ua (parser_position p) b' p2" "frame p1 p2" .
  from node_build_spans [OF 2(2) assms(1)] obtain n where "node_build k b' = Some n" "spans ua (parser_position p) n p2" .
  with 1 2 frame_trans [OF 1(3) 2(3)] show "\<exists>n p'. parse_node ua slot k ss p = Some (n, p')
      \<and> spans ua (parser_position p) n p' \<and> frame p p'"
    by (auto simp: parse_node_def)
qed

lemma push_required_token_holds:
  assumes "holds ua i b p" "advanced ua p p' [g]" "from_syntax_token t = Some g" "tok_kind t = k"
  obtains b' where "push_required_token k t b = Some b'" "holds ua i b' p'"
proof -
  from assms(1) have f: "filled ua i (nb_node b) p" by (simp add: holds_def)
  from filled_push_token [OF f assms(2,3)] obtain n where "push_token t (nb_node b) = Some n" "filled ua i n p'" .
  with assms show ?thesis
    by (intro that [of "b\<lparr>nb_node := n\<rparr>"])
      (auto simp: push_required_token_def require_token_kind_def holds_def nb_ok_def)
qed

lemma push_token_of_holds:
  assumes "holds ua i b p" "advanced ua p p' [g]" "from_syntax_token t = Some g" "allowed (tok_kind t)"
  obtains b' where "push_token_of allowed t b = Some b'" "holds ua i b' p'"
proof -
  from assms(1) have f: "filled ua i (nb_node b) p" by (simp add: holds_def)
  from filled_push_token [OF f assms(2,3)] obtain n where "push_token t (nb_node b) = Some n" "filled ua i n p'" .
  with assms show ?thesis
    by (intro that [of "b\<lparr>nb_node := n\<rparr>"])
      (auto simp: push_token_of_def assert_run_def holds_def nb_ok_def)
qed

lemma keeps_expect:
  assumes "is_token k" "k \<noteq> EndOfFileToken"
  shows "keeps ua S (expect_into ua k)"
proof (rule keepsI)
  fix i b p assume h: "holds ua i b p"
  from expect_adv [OF holds_ok [OF h] assms] obtain t p' g where e: "parser_expect ua k p = Some (t, p')" "tok_kind t = k"
    "from_syntax_token t = Some g" "advanced ua p p' [g]" by metis
  from push_required_token_holds [OF h e(4,3,2)] obtain b' where "push_required_token k t b = Some b'" "holds ua i b' p'" .
  with e advanced_frame [OF e(4) holds_ok [OF h]] show "\<exists>b' p'. expect_into ua k b p = Some (b', p') \<and> holds ua i b' p' \<and> frame p p'"
    by (auto simp: expect_into_def)
qed

lemma holds_push_node:
  assumes "holds ua i b p" "advanced ua p p' (leaves (node_children n))" "node_wf n"
  shows "holds ua i (b\<lparr>nb_node := push_node n (nb_node b)\<rparr>) p'"
  using assms filled_push_node [of ua i "nb_node b" p p' n] by (simp add: holds_def nb_ok_def)

lemma spans_advanced:
  "spans ua (parser_position p) n p' \<Longrightarrow> frame p p' \<Longrightarrow> advanced ua p p' (leaves (node_children (syn_node n)))"
  by (simp add: spans_def frame_def advanced_def)

lemma keeps_child:
  assumes "production ua S f"
  shows "keeps ua S (child_into f)"
proof (rule keepsI)
  fix i b p assume h: "holds ua i b p" and scope: "in_scope S p"
  from productionE [OF assms holds_ok [OF h] scope] obtain n p' where f: "f p = Some (n, p')"
    "spans ua (parser_position p) n p'" "frame p p'" .
  from holds_push_node [OF h spans_advanced [OF f(2,3)]] f
  show "\<exists>b' p'. child_into f b p = Some (b', p') \<and> holds ua i b' p' \<and> frame p p'"
    by (auto simp: child_into_def push_child_def spans_def)
qed

lemma keeps_path:
  assumes "node_production ua S f path_node"
  shows "keeps ua S (path_into f)"
proof (rule keepsI)
  fix i b p assume h: "holds ua i b p" and scope: "in_scope S p"
  from assms holds_ok [OF h] scope obtain x p' where f: "f p = Some (x, p')" "node_wf (path_node x)"
    "advanced ua p p' (leaves (node_children (path_node x)))" unfolding node_production_def by blast
  from holds_push_node [OF h f(3,2)] f(1) advanced_frame [OF f(3) holds_ok [OF h]]
  show "\<exists>b' p'. path_into f b p = Some (b', p') \<and> holds ua i b' p' \<and> frame p p'"
    by (auto simp: path_into_def push_path_child_def)
qed

lemma keeps_when:
  assumes "parser_observer ua S test" "list_all (keeps ua S) ss"
  shows "keeps ua S (when_step test ss)"
proof (rule keepsI)
  fix i b p assume h: "holds ua i b p" and scope: "in_scope S p"
  from observerE [OF assms(1) holds_ok [OF h] scope] obtain r p1 where t: "test p = Some (r, p1)" "advanced ua p p1 []" .
  note fr = advanced_frame [OF t(2) holds_ok [OF h]]
  from keepsE [OF keeps_run_steps [OF assms(2)] holds_same [OF h t(2)] frame_scope [OF scope fr]] obtain b' p'
    where "run_steps ss b p1 = Some (b', p')" "holds ua i b' p'" "frame p1 p'" .
  with t holds_same [OF h t(2)] fr frame_trans [OF fr]
  show "\<exists>b' p'. when_step test ss b p = Some (b', p') \<and> holds ua i b' p' \<and> frame p p'"
    by (cases r) (auto simp: when_step_def)
qed

lemma keeps_if:
  assumes "parser_observer ua S test" "list_all (keeps ua S) ss" "list_all (keeps ua S) ss'"
  shows "keeps ua S (if_step test ss ss')"
proof (rule keepsI)
  fix i b p assume h: "holds ua i b p" and scope: "in_scope S p"
  from observerE [OF assms(1) holds_ok [OF h] scope] obtain r p1 where t: "test p = Some (r, p1)" "advanced ua p p1 []" .
  note fr = advanced_frame [OF t(2) holds_ok [OF h]]
  have "list_all (keeps ua S) (if r then ss else ss')" using assms by simp
  from keepsE [OF keeps_run_steps [OF this] holds_same [OF h t(2)] frame_scope [OF scope fr]] obtain b' p'
    where "run_steps (if r then ss else ss') b p1 = Some (b', p')" "holds ua i b' p'" "frame p1 p'" .
  with t frame_trans [OF fr]
  show "\<exists>b' p'. if_step test ss ss' b p = Some (b', p') \<and> holds ua i b' p' \<and> frame p p'"
    by (cases r) (auto simp: if_step_def)
qed

text \<open>Tests by the token ahead.\<close>

lemma observes_at: "parser_observer ua S (parser_at ua k)"
proof
  fix p assume "parser_ok ua p"
  from at_adv [OF this, of k] show "\<exists>r p'. parser_at ua k p = Some (r, p') \<and> advanced ua p p' []" by metis
qed

lemma observes_at_any: "parser_observer ua S (parser_at_any ua ks)"
proof
  fix p assume "parser_ok ua p"
  from at_any_adv [OF this, of ks] show "\<exists>r p'. parser_at_any ua ks p = Some (r, p') \<and> advanced ua p p' []" by metis
qed

lemma observes_visibility: "parser_observer ua S (at_visibility_modifier ua)"
proof
  fix p assume "parser_ok ua p"
  from peek_adv [OF this] show "\<exists>r p'. at_visibility_modifier ua p = Some (r, p') \<and> advanced ua p p' []"
    by (metis (no_types, lifting) at_visibility_modifier_def bind.bind_lunit case_prod_conv)
qed

subsection \<open>Recovery into typed builders\<close>

context recovery_syntax_sink
begin

lemma recover_skips:
  assumes "filled ua i (node_of b) p" "inv b" "skips ua p p' ts"
  shows "\<exists>b'. sink ts b = Some b' \<and> filled ua i (node_of b') p' \<and> inv b' \<and> frame p p'"
  using sink_keeps [OF assms] assms(3) advanced_frame [OF _ filled_ok [OF assms(1)]] by (auto simp: skips_def)

end

lemma skips_trans:
  assumes "skips ua p q ts" "skips ua q r us" "parser_ok ua p"
  shows "skips ua p r (ts @ us)"
proof -
  from assms(1,2) obtain gs hs where gs: "map from_syntax_token ts = map Some gs" "advanced ua p q gs"
    "map from_syntax_token us = map Some hs" "advanced ua q r hs" unfolding skips_def by blast
  have ok: "parser_ok ua q" using gs(2) by (simp add: advanced_def)
  from gs advanced_trans [OF gs(2,4)] have "\<exists>xs. map from_syntax_token (ts @ us) = map Some xs \<and> advanced ua p r xs"
    by (intro exI [of _ "gs @ hs"]) simp
  moreover have "ts @ us \<noteq> [] \<longrightarrow> parser_position p < parser_position r"
    using assms(1,2) advanced_le [OF assms(3) gs(2)] advanced_le [OF ok gs(4)] by (cases "us = []") (auto simp: skips_def)
  ultimately show ?thesis using assms(1,2) unfolding skips_def by auto
qed

lemma skips_refl: "advanced ua p q [] \<Longrightarrow> skips ua p q []"
  by (simp add: skips_def)

lemma skips_one:
  assumes "parser_ok ua p" "\<not> is_end_of_file (ahead ua p)"
  obtains p' where "parser_consume ua p = Some (ahead ua p, p')" "skips ua p p' [ahead ua p]"
proof -
  from consume_adv [OF assms] obtain p' g where "parser_consume ua p = Some (ahead ua p, p')"
    "from_syntax_token (ahead ua p) = Some g" "advanced ua p p' [g]" "parser_position p < parser_position p'" .
  with good_token_ok [OF parser_ok_wf(3) [OF assms(1)]] show ?thesis
    by (intro that [of p']) (auto simp: skips_def intro!: exI [of _ "[g]"])
qed

lemma until_predicate_loop_skips:
  assumes "parser_observer ua S at_stop" "parser_ok ua p" "in_scope S p"
  shows "\<exists>ts p'. until_predicate_loop ua at_stop skipped p = Some (skipped @ ts, p') \<and> skips ua p p' ts"
  using assms(2,3)
proof (induction "text_length (parser_snapshot p) - parser_position p" arbitrary: skipped p rule: less_induct)
  case less
  note eq = until_predicate_loop.simps [of ua at_stop skipped p]
  from at_adv [OF less.prems(1), of EndOfFileToken] obtain p1 where p1:
    "parser_at ua EndOfFileToken p = Some (tok_kind (ahead ua p) = EndOfFileToken, p1)" "advanced ua p p1 []" .
  have ok1: "parser_ok ua p1" using p1(2) by (simp add: advanced_def)
  have scope1: "in_scope S p1" by (rule frame_scope [OF less.prems(2) advanced_frame [OF p1(2) less.prems(1)]])
  from observerE [OF assms(1) ok1 scope1] obtain stop p2 where p2: "at_stop p1 = Some (stop, p2)" "advanced ua p1 p2 []" .
  have ok2: "parser_ok ua p2" using p2(2) by (simp add: advanced_def)
  note adv = advanced_same [OF p1(2) p2(2)]
  have scope2: "in_scope S p2" by (rule frame_scope [OF less.prems(2) advanced_frame [OF adv less.prems(1)]])
  have same: "ahead ua p2 = ahead ua p" "parser_position p2 = parser_position p" "parser_snapshot p2 = parser_snapshot p"
    using advanced_ahead [OF adv less.prems(1)] adv by (auto simp: advanced_def)
  show ?case
  proof (cases "is_end_of_file (ahead ua p)")
    case True
    then show ?thesis using p1 skips_refl by (auto simp: eq is_end_of_file_def)
  next
    case False
    show ?thesis
    proof (cases stop)
      case True
      with False p1(1) p2(1) skips_refl [OF adv] show ?thesis by (auto simp: eq is_end_of_file_def)
    next
      case go: False
      from False same have ne: "\<not> is_end_of_file (ahead ua p2)" by simp
      from skips_one [OF ok2 ne] obtain p3 where p3: "parser_consume ua p2 = Some (ahead ua p2, p3)"
        "skips ua p2 p3 [ahead ua p2]" .
      then have ok3: "parser_ok ua p3" and snap3: "parser_snapshot p3 = parser_snapshot p" and
        fr: "frame p2 p3" and lt: "parser_position p < parser_position p3"
        using same by (auto simp: skips_def advanced_def frame_def)
      have "parser_position p3 \<le> text_length (parser_snapshot p)"
        using boundary_le [OF parser_ok_wf(2) [OF ok3]] snap3 by simp
      with lt snap3 have m: "text_length (parser_snapshot p3) - parser_position p3
        < text_length (parser_snapshot p) - parser_position p" by simp
      from less.hyps [OF m ok3 frame_scope [OF scope2 fr], of "skipped @ [ahead ua p2]"] obtain ts p'
        where r: "until_predicate_loop ua at_stop (skipped @ [ahead ua p2]) p3 = Some ((skipped @ [ahead ua p2]) @ ts, p')"
          "skips ua p3 p' ts" by blast
      have "skips ua p p' ([ahead ua p2] @ ts)"
        using skips_trans [OF skips_refl [OF adv] skips_trans [OF p3(2) r(2) ok2] less.prems(1)] by simp
      moreover have "until_predicate_loop ua at_stop skipped p = Some (skipped @ ([ahead ua p2] @ ts), p')"
        using False go p1(1) p2(1) p3(1) r(1) by (simp add: eq is_end_of_file_def)
      ultimately show ?thesis by blast
    qed
  qed
qed

interpretation node_sink: separated_list_syntax_sink "node_list_sink separator" nb_node "\<lambda>b. nb_ok b \<and> nb_start b = st" separator
  for separator st
proof
  fix ua i p p' ts and b :: node_builder
  assume a: "filled ua i (nb_node b) p" "nb_ok b \<and> nb_start b = st" "skips ua p p' ts"
  from filled_push_skipped [OF a(1,3)] obtain n where "push_skipped_tokens ts (nb_node b) = Some n" "filled ua i n p'" .
  with a(2) show "\<exists>b'. sink_skipped_tokens (node_list_sink separator) ts b = Some b' \<and> filled ua i (nb_node b') p'
      \<and> nb_ok b' \<and> nb_start b' = st"
    by (simp add: node_list_sink_def node_push_skipped_tokens_def nb_ok_def)
next
  fix ua i p p' n and b :: node_builder
  assume "filled ua i (nb_node b) p" "nb_ok b \<and> nb_start b = st" "node_wf n" "advanced ua p p' (leaves (node_children n))"
  then show "\<exists>b'. sink_item (node_list_sink separator) n b = Some b' \<and> filled ua i (nb_node b') p'
      \<and> nb_ok b' \<and> nb_start b' = st"
    using filled_push_node [of ua i "nb_node b" p p' n] by (simp add: node_list_sink_def nb_ok_def)
next
  fix ua i p p' t g and b :: node_builder
  assume a: "filled ua i (nb_node b) p" "nb_ok b \<and> nb_start b = st" "tok_kind t = separator"
    "from_syntax_token t = Some g" "advanced ua p p' [g]"
  from filled_push_token [OF a(1,5,4)] obtain n where "push_token t (nb_node b) = Some n" "filled ua i n p'" .
  with a show "\<exists>b'. sink_separator (node_list_sink separator) t b = Some b' \<and> filled ua i (nb_node b') p'
      \<and> nb_ok b' \<and> nb_start b' = st"
    by (simp add: node_list_sink_def push_required_token_def require_token_kind_def nb_ok_def)
qed

lemma node_skip:
  assumes "holds ua i b p" "skips ua p p' ts"
  obtains b' where "node_push_skipped_tokens ts b = Some b'" "holds ua i b' p'" "frame p p'"
proof -
  from assms(1) have "filled ua i (nb_node b) p" "nb_ok b \<and> nb_start b = i" by (simp_all add: holds_def)
  from node_sink.recover_skips [where separator = CommaToken, OF this assms(2)] obtain b'
    where "node_push_skipped_tokens ts b = Some b'" "filled ua i (nb_node b') p'" "nb_ok b' \<and> nb_start b' = i" "frame p p'"
    by (auto simp: node_list_sink_def)
  then show ?thesis by (intro that) (simp_all add: holds_def)
qed

text \<open>
  Every recovery function skips tokens into its builder; what differs is where it stops.
\<close>

lemma keeps_recovery:
  assumes "\<And>p. parser_ok ua p \<Longrightarrow> in_scope S p \<Longrightarrow> \<exists>ts p'. skip p = Some (ts, p') \<and> skips ua p p' ts"
    and "\<And>b p. s b p = do { (skipped, p') \<leftarrow> skip p; b' \<leftarrow> node_push_skipped_tokens skipped b; Some ((skipped \<noteq> [], b'), p') }"
  shows "keeps ua S (recover_step s)"
proof (rule keepsI)
  fix i b p assume h: "holds ua i b p" and scope: "in_scope S p"
  from assms(1) [OF holds_ok [OF h] scope] obtain ts p' where sk: "skip p = Some (ts, p')" "skips ua p p' ts" by blast
  from node_skip [OF h sk(2)] obtain b' where "node_push_skipped_tokens ts b = Some b'" "holds ua i b' p'" "frame p p'" .
  with sk(1) show "\<exists>b' p'. recover_step s b p = Some (b', p') \<and> holds ua i b' p' \<and> frame p p'"
    by (auto simp: recover_step_def assms(2))
qed

lemma keeps_recover_until_set: "keeps ua S (recover_step (recover_until_set ua node_push_skipped_tokens rs))"
  by (rule keeps_recovery [where skip = "parser_skip_until ua rs"])
    (metis skip_until_adv, simp add: recover_until_set_def)

lemma keeps_recover_until: "keeps ua S (recover_step (recover_until ua node_push_skipped_tokens ks))"
  using keeps_recover_until_set [of ua S "recovery_set_new ks"] by (simp add: recover_until_def [abs_def])

lemma keeps_recover_until_predicate:
  assumes "parser_observer ua S at_stop"
  shows "keeps ua S (recover_step (recover_until_predicate ua node_push_skipped_tokens at_stop))"
  by (rule keeps_recovery [where skip = "until_predicate_loop ua at_stop []"])
    (use until_predicate_loop_skips [OF assms, of _ "[]"] in simp, simp add: recover_until_predicate_def)

lemma current_and_until_predicate_skips:
  assumes "parser_observer ua S at_stop" "parser_ok ua p" "in_scope S p"
  obtains first p2 ts p' where "do {
       (eof, p1) \<leftarrow> parser_at ua EndOfFileToken p;
       (if eof then Some ([], p1) else do { (t, q) \<leftarrow> parser_consume ua p1; Some ([t], q) })
     } = Some (first, p2)" "until_predicate_loop ua at_stop first p2 = Some (ts, p')" "skips ua p p' ts"
    "\<not> is_end_of_file (ahead ua p) \<longrightarrow> ts \<noteq> []"
proof -
  from at_adv [OF assms(2), of EndOfFileToken] obtain p1 where p1:
    "parser_at ua EndOfFileToken p = Some (tok_kind (ahead ua p) = EndOfFileToken, p1)" "advanced ua p p1 []" .
  have ok1: "parser_ok ua p1" using p1(2) by (simp add: advanced_def)
  note fr1 = advanced_frame [OF p1(2) assms(2)]
  show ?thesis
  proof (cases "is_end_of_file (ahead ua p)")
    case True
    from until_predicate_loop_skips [OF assms(1) ok1 frame_scope [OF assms(3) fr1], of "[]"] obtain ts p'
      where "until_predicate_loop ua at_stop [] p1 = Some (ts, p')" "skips ua p1 p' ts" by auto
    with True p1 skips_trans [OF skips_refl [OF p1(2)] _ assms(2)] show ?thesis
      by (intro that [of "[]" p1 ts p']) (auto simp: is_end_of_file_def)
  next
    case False
    then have "\<not> is_end_of_file (ahead ua p1)" using advanced_ahead [OF p1(2) assms(2)] by simp
    from skips_one [OF ok1 this] obtain p2 where p2: "parser_consume ua p1 = Some (ahead ua p1, p2)" "skips ua p1 p2 [ahead ua p1]" .
    then have ok2: "parser_ok ua p2" and fr2: "frame p1 p2" by (auto simp: skips_def advanced_def frame_def)
    from until_predicate_loop_skips [OF assms(1) ok2 frame_scope [OF assms(3) frame_trans [OF fr1 fr2]], of "[ahead ua p1]"]
    obtain ts p' where r: "until_predicate_loop ua at_stop [ahead ua p1] p2 = Some ([ahead ua p1] @ ts, p')" "skips ua p2 p' ts" by blast
    have "skips ua p p' ([ahead ua p1] @ ts)"
      using skips_trans [OF skips_refl [OF p1(2)] skips_trans [OF p2(2) r(2) ok1] assms(2)] by simp
    with False p1 p2 r show ?thesis
      by (intro that [of "[ahead ua p1]" p2 "[ahead ua p1] @ ts" p']) (auto simp: is_end_of_file_def)
  qed
qed

lemma keeps_recover_current_and_until_predicate:
  assumes "parser_observer ua S at_stop"
  shows "keeps ua S (recover_step (recover_current_and_until_predicate ua node_push_skipped_tokens at_stop))"
proof (rule keeps_recovery [where skip = "\<lambda>p. do {
     (first, p2) \<leftarrow> do {
       (eof, p1) \<leftarrow> parser_at ua EndOfFileToken p;
       (if eof then Some ([], p1) else do { (t, q) \<leftarrow> parser_consume ua p1; Some ([t], q) })
     };
     until_predicate_loop ua at_stop first p2 }"])
  fix p assume "parser_ok ua p" "in_scope S p"
  from current_and_until_predicate_skips [OF assms this] obtain first p2 ts p' where "do {
       (eof, p1) \<leftarrow> parser_at ua EndOfFileToken p;
       (if eof then Some ([], p1) else do { (t, q) \<leftarrow> parser_consume ua p1; Some ([t], q) })
     } = Some (first, p2)" "until_predicate_loop ua at_stop first p2 = Some (ts, p')" "skips ua p p' ts" .
  then show "\<exists>ts p'. do {
     (first, p2) \<leftarrow> do {
       (eof, p1) \<leftarrow> parser_at ua EndOfFileToken p;
       (if eof then Some ([], p1) else do { (t, q) \<leftarrow> parser_consume ua p1; Some ([t], q) })
     };
     until_predicate_loop ua at_stop first p2 } = Some (ts, p') \<and> skips ua p p' ts"
    by simp
next
  fix b p
  show "recover_current_and_until_predicate ua node_push_skipped_tokens at_stop b p = do {
     (skipped, p') \<leftarrow> do {
       (first, p2) \<leftarrow> do {
         (eof, p1) \<leftarrow> parser_at ua EndOfFileToken p;
         (if eof then Some ([], p1) else do { (t, q) \<leftarrow> parser_consume ua p1; Some ([t], q) })
       };
       until_predicate_loop ua at_stop first p2 };
     b' \<leftarrow> node_push_skipped_tokens skipped b;
     Some ((skipped \<noteq> [], b'), p') }"
    by (simp add: recover_current_and_until_predicate_def bind_assoc split_def)
qed

subsection \<open>Lists in typed builders\<close>

definition list_step ::
    "unicode_alphanumeric \<Rightarrow> separated_list_spec \<Rightarrow> (parser \<Rightarrow> bool parsing) \<Rightarrow> (parser \<Rightarrow> green_node parsing) \<Rightarrow> step" where
  "list_step ua spec at_end parse_item =
     parse_separated_list_until ua (node_list_sink (separator_kind spec)) spec at_end parse_item"

lemma keeps_list:
  assumes "parser_test ua S at_end ends" "\<And>s i. is_end_of_file (token_at ua s i) \<Longrightarrow> ends s i"
    and "node_production ua S parse_item (\<lambda>n. n)" "is_token (separator_kind spec)" "separator_kind spec \<noteq> EndOfFileToken"
  shows "keeps ua S (list_step ua spec at_end parse_item)"
proof (rule keepsI)
  fix i b p assume h: "holds ua i b p" and scope: "in_scope S p"
  have l: "separated_list ua S at_end ends (node_list_sink (separator_kind spec)) nb_node
    (\<lambda>b. nb_ok b \<and> nb_start b = i) spec parse_item"
    using assms node_sink.separated_list_syntax_sink_axioms
    by (simp add: separated_list_def separated_list_axioms_def separated_list_syntax_sink_def node_sink.recovery_syntax_sink_axioms)
  from h have "filled ua i (nb_node b) p" "nb_ok b \<and> nb_start b = i" by (simp_all add: holds_def)
  from separated_list.loop_kept [OF l this scope, of "ItemPosition True"]
  show "\<exists>b' p'. list_step ua spec at_end parse_item b p = Some (b', p') \<and> holds ua i b' p' \<and> frame p p'"
    by (auto simp: list_step_def parse_separated_list_until_def holds_def frame_def)
qed

lemma item_of_production: "production ua S f \<Longrightarrow> node_production ua S (item_of f) (\<lambda>n. n)"
  using production_node [of ua S f] unfolding node_production_def item_of_def by fastforce

lemma keeps_plain_list:
  assumes "production ua S f" "is_token (separator_kind spec)" "separator_kind spec \<noteq> EndOfFileToken"
  shows "keeps ua S (list_step ua spec (at_list_end ua (list_terminators spec)) (item_of f))"
  by (rule keeps_list [OF list_end.parser_test_axioms _ item_of_production [OF assms(1)] assms(2,3)]) simp

subsection \<open>Speculative scans\<close>

text \<open>
  A scan moves a fork of the parser as it likes; it has to return. \<open>consume_when\<close> is the statement
  \<open>if test { consume }\<close>, with the answer of the test as its value.
\<close>

definition consume_when :: "unicode_alphanumeric \<Rightarrow> (parser \<Rightarrow> bool parsing) \<Rightarrow> parser \<Rightarrow> bool parsing" where
  "consume_when ua test p = do {
     (b, p1) \<leftarrow> test p;
     (if b then do { (t, p2) \<leftarrow> parser_consume ua p1; Some (True, p2) } else Some (False, p1))
   }"

definition moves :: "unicode_alphanumeric \<Rightarrow> scope \<Rightarrow> (parser \<Rightarrow> 'a parsing) \<Rightarrow> bool" where
  "moves ua S f \<longleftrightarrow> (\<forall>p. parser_ok ua p \<longrightarrow> in_scope S p \<longrightarrow>
     (\<exists>x p'. f p = Some (x, p') \<and> parser_ok ua p' \<and> frame p p' \<and> parser_position p \<le> parser_position p'))"

definition guards :: "unicode_alphanumeric \<Rightarrow> (parser \<Rightarrow> bool parsing) \<Rightarrow> bool" where
  "guards ua test \<longleftrightarrow> (\<forall>p. parser_ok ua p \<longrightarrow>
     (\<exists>r p'. test p = Some (r, p') \<and> advanced ua p p' [] \<and> (r \<longrightarrow> \<not> is_end_of_file (ahead ua p))))"

lemma movesI:
  assumes "\<And>p. parser_ok ua p \<Longrightarrow> in_scope S p
    \<Longrightarrow> \<exists>x p'. f p = Some (x, p') \<and> parser_ok ua p' \<and> frame p p' \<and> parser_position p \<le> parser_position p'"
  shows "moves ua S f"
  using assms unfolding moves_def by blast

lemma movesE:
  assumes "moves ua S f" "parser_ok ua p" "in_scope S p"
  obtains x p' where "f p = Some (x, p')" "parser_ok ua p'" "frame p p'" "parser_position p \<le> parser_position p'"
  using assms unfolding moves_def by blast

lemma moves_return: "moves ua S (\<lambda>p. Some (x, p))"
  by (rule movesI) simp

lemma moves_bind:
  assumes "moves ua S f" "\<And>x. moves ua S (g x)"
  shows "moves ua S (\<lambda>p. Option.bind (f p) (case_prod g))"
proof (rule movesI)
  fix p assume "parser_ok ua p" and scope: "in_scope S p"
  from movesE [OF assms(1) this] obtain x p1 where 1: "f p = Some (x, p1)" "parser_ok ua p1" "frame p p1"
    "parser_position p \<le> parser_position p1" .
  from movesE [OF assms(2) 1(2) frame_scope [OF scope 1(3)]] obtain y p2 where "g x p1 = Some (y, p2)" "parser_ok ua p2"
    "frame p1 p2" "parser_position p1 \<le> parser_position p2" .
  with 1 frame_trans [OF 1(3)] show "\<exists>x p'. Option.bind (f p) (case_prod g) = Some (x, p') \<and> parser_ok ua p' \<and> frame p p'
      \<and> parser_position p \<le> parser_position p'"
    by (auto intro: order_trans)
qed

lemma moves_if: "moves ua S f \<Longrightarrow> moves ua S g \<Longrightarrow> moves ua S (\<lambda>p. if c then f p else g p)"
  by (simp add: moves_def)

lemma moves_observer: "parser_observer ua S test \<Longrightarrow> moves ua S test"
  by (rule movesI) (metis advanced_frame advanced_le observerE advanced_def)

lemma guards_observer: "guards ua test \<Longrightarrow> parser_observer ua S test"
  by unfold_locales (meson guards_def)

lemma guards_at:
  assumes "k \<noteq> EndOfFileToken"
  shows "guards ua (parser_at ua k)"
  unfolding guards_def
proof (intro allI impI)
  fix p assume "parser_ok ua p"
  from at_adv [OF this, of k] obtain p' where "parser_at ua k p = Some (tok_kind (ahead ua p) = k, p')" "advanced ua p p' []" .
  with assms show "\<exists>r p'. parser_at ua k p = Some (r, p') \<and> advanced ua p p' [] \<and> (r \<longrightarrow> \<not> is_end_of_file (ahead ua p))"
    by (auto simp: is_end_of_file_def)
qed

lemma guards_visibility: "guards ua (at_visibility_modifier ua)"
  unfolding guards_def
proof (intro allI impI)
  fix p assume "parser_ok ua p"
  from peek_adv [OF this] obtain p' where "parser_peek ua p = Some (ahead ua p, p')" "advanced ua p p' []" .
  then show "\<exists>r p'. at_visibility_modifier ua p = Some (r, p') \<and> advanced ua p p' [] \<and> (r \<longrightarrow> \<not> is_end_of_file (ahead ua p))"
    by (auto simp: at_visibility_modifier_def is_end_of_file_def is_visibility_modifier_def)
qed

lemma consume_when_spec:
  assumes "guards ua test" "parser_ok ua p"
  obtains r p' where "consume_when ua test p = Some (r, p')" "parser_ok ua p'" "frame p p'"
    "r \<longrightarrow> parser_position p < parser_position p'" "\<not> r \<longrightarrow> parser_position p' = parser_position p"
proof -
  from assms obtain r p1 where t: "test p = Some (r, p1)" "advanced ua p p1 []" "r \<longrightarrow> \<not> is_end_of_file (ahead ua p)"
    unfolding guards_def by blast
  have ok1: "parser_ok ua p1" using t(2) by (simp add: advanced_def)
  note same = advanced_ahead [OF t(2) assms(2)] and fr = advanced_frame [OF t(2) assms(2)]
  show ?thesis
  proof (cases r)
    case True
    with t(3) same have "\<not> is_end_of_file (ahead ua p1)" by simp
    from consume_adv [OF ok1 this] obtain p2 g where "parser_consume ua p1 = Some (ahead ua p1, p2)" "advanced ua p1 p2 [g]"
      "parser_position p1 < parser_position p2" by metis
    with True t(1) same fr frame_trans [OF fr advanced_frame [OF _ ok1]] show ?thesis
      by (intro that [of True p2]) (auto simp: consume_when_def advanced_def)
  next
    case False
    with t same ok1 fr show ?thesis by (intro that [of False p1]) (auto simp: consume_when_def)
  qed
qed

lemma moves_consume_when: "guards ua test \<Longrightarrow> moves ua S (consume_when ua test)"
  by (rule movesI) (metis consume_when_spec less_imp_le order_refl)

lemma observes_scan_ahead:
  assumes "moves ua S scan"
  shows "parser_observer ua S (scan_ahead scan)"
proof
  fix p assume ok: "parser_ok ua p" and scope: "in_scope S p"
  let ?q = "fork_from_checkpoint (parser_cursor p) p"
  have q: "parser_ok ua ?q" "in_scope S ?q"
    using ok scope by (simp_all add: parser_ok_def fork_from_checkpoint_def)
  from movesE [OF assms q] obtain r q' where r: "scan ?q = Some (r, q')" .
  let ?p = "p\<lparr>parser_cursor := absorb_lexical_diagnostics_from (parser_cursor q') (parser_cursor p)\<rparr>"
  have "parser_ok ua ?p"
    using ok by (simp add: parser_ok_def absorb_lexical_diagnostics_from_def cursor_ok_def record_diagnostics_sound)
  moreover have "parser_position ?p = parser_position p"
    by (simp add: absorb_lexical_diagnostics_from_def record_diagnostics_def)
  ultimately have "advanced ua p ?p []" by (simp add: advanced_def)
  moreover have "scan_ahead scan p = Some (r, ?p)" using r by (simp add: scan_ahead_def)
  ultimately show "\<exists>r p'. scan_ahead scan p = Some (r, p') \<and> advanced ua p p' []" by blast
qed

lemma lookahead_adv:
  assumes "parser_ok ua p"
  obtains t p' where "parser_lookahead ua k p = Some (t, p')" "advanced ua p p' []"
    "strip_eof t = strip_eof (upcoming ua (parser_snapshot p) (parser_position p) k)"
proof -
  from assms have "cursor_ok ua (parser_cursor p)" by (simp add: parser_ok_def)
  from cursor_lookahead_spec [OF this, of k] obtain t c where c: "cursor_lookahead ua k (parser_cursor p) = Some (t, c)"
    "cursor_ok ua c" "same_place (parser_cursor p) c"
    "strip_eof t = strip_eof (upcoming ua (cursor_snapshot (parser_cursor p)) (parser_position p) k)" by blast
  with assms advanced_same_place [OF assms c(2)] show ?thesis
    by (intro that [of t "p\<lparr>parser_cursor := c\<rparr>"]) (auto simp: parser_lookahead_def on_cursor_def same_place_def parser_ok_def)
qed

definition parser_next_is :: "unicode_alphanumeric \<Rightarrow> nat \<Rightarrow> syntax_kind \<Rightarrow> parser \<Rightarrow> bool parsing" where
  "parser_next_is ua distance kind p = do { (t, p') \<leftarrow> parser_lookahead ua distance p; Some (tok_kind t = kind, p') }"

lemma observes_next_is: "parser_observer ua S (parser_next_is ua k kind)"
proof
  fix p assume "parser_ok ua p"
  from lookahead_adv [OF this, of k] obtain t p' where "parser_lookahead ua k p = Some (t, p')" "advanced ua p p' []" .
  then show "\<exists>r p'. parser_next_is ua k kind p = Some (r, p') \<and> advanced ua p p' []" by (simp add: parser_next_is_def)
qed

lemma observer_bind:
  assumes "parser_observer ua S f" "\<And>x. parser_observer ua S (g x)"
  shows "parser_observer ua S (\<lambda>p. Option.bind (f p) (case_prod g))"
proof
  fix p assume ok: "parser_ok ua p" and scope: "in_scope S p"
  from observerE [OF assms(1) this] obtain r p1 where 1: "f p = Some (r, p1)" "advanced ua p p1 []" .
  have "parser_ok ua p1" using 1(2) by (simp add: advanced_def)
  from observerE [OF assms(2) this frame_scope [OF scope advanced_frame [OF 1(2) ok]]] obtain r' p2
    where "g r p1 = Some (r', p2)" "advanced ua p1 p2 []" .
  with 1 advanced_same [OF 1(2)] show "\<exists>r p'. Option.bind (f p) (case_prod g) = Some (r, p') \<and> advanced ua p p' []" by auto
qed

lemma observer_if:
  "parser_observer ua S f \<Longrightarrow> parser_observer ua S g \<Longrightarrow> parser_observer ua S (\<lambda>p. if c then f p else g p)"
  by (cases c) simp_all

lemma observer_return: "parser_observer ua S (\<lambda>p. Some (r, p))"
  by unfold_locales (use advanced_refl in auto)

lemmas scan_rules = moves_bind moves_if moves_return moves_consume_when
lemmas test_rules = observer_bind observer_if observer_return observes_at observes_at_any observes_visibility observes_next_is
  observes_scan_ahead

lemma keeps_visibility: "keeps ua S (token_of_into is_visibility_modifier (parse_visibility_modifier ua))"
proof (rule keepsI)
  fix i b p assume h: "holds ua i b p"
  have k: "is_token PublicKeyword" "is_token InternalKeyword"
    by (simp_all add: is_token_def is_node_def is_trivia_def)
  from at_adv [OF holds_ok [OF h], of PublicKeyword] obtain p1
    where p1: "parser_at ua PublicKeyword p = Some (tok_kind (ahead ua p) = PublicKeyword, p1)" "advanced ua p p1 []" .
  define k' where "k' = (if tok_kind (ahead ua p) = PublicKeyword then PublicKeyword else InternalKeyword)"
  have k': "is_token k'" "k' \<noteq> EndOfFileToken" "is_visibility_modifier k'"
    using k by (simp_all add: k'_def is_visibility_modifier_def)
  note h1 = holds_same [OF h p1(2)]
  from expect_adv [OF holds_ok [OF h1] k'(1,2)] obtain t p' g where e: "parser_expect ua k' p1 = Some (t, p')" "tok_kind t = k'"
    "from_syntax_token t = Some g" "advanced ua p1 p' [g]" by metis
  have "is_visibility_modifier (tok_kind t)" using e(2) k'(3) by simp
  from push_token_of_holds [where allowed = is_visibility_modifier, OF h1 e(4,3) this] obtain b'
    where "push_token_of is_visibility_modifier t b = Some b'" "holds ua i b' p'" .
  with p1(1) e(1) frame_trans [OF advanced_frame [OF p1(2) holds_ok [OF h]] advanced_frame [OF e(4) holds_ok [OF h1]]]
  show "\<exists>b' p'. token_of_into is_visibility_modifier (parse_visibility_modifier ua) b p = Some (b', p')
      \<and> holds ua i b' p' \<and> frame p p'"
    by (auto simp: token_of_into_def parse_visibility_modifier_def k'_def split: if_splits)
qed

lemmas step_rules = production_parse_node keeps_expect keeps_child keeps_path keeps_when keeps_if keeps_visibility
  keeps_recover_until_set keeps_recover_until keeps_plain_list observes_at observes_at_any observes_visibility

lemmas kind_simps = is_token_def is_node_def is_trivia_def

lemma parse_node_kind:
  "parse_node ua slot k ss p = Some (n, p') \<Longrightarrow> node_kind (syn_node n) = k"
  by (auto simp: parse_node_def node_build_def builder_build_def green_node_new_def assert_run_def run_simps
      split: if_splits)

text \<open>What a production returns, written out.\<close>

lemma production_text:
  assumes "production ua everywhere f" "parser_ok ua p"
  shows "\<exists>n p'. f p = Some (n, p') \<and> node_wf (syn_node n) \<and> syn_start n = parser_position p \<and> parser_ok ua p'
    \<and> parser_snapshot p' = parser_snapshot p \<and> syntax_nesting_depth p' = syntax_nesting_depth p
    \<and> parser_position p \<le> parser_position p'
    \<and> write_source_text (syn_node n) (snap_text (parser_snapshot p)) (parser_position p)
        = Some (segment (snap_text (parser_snapshot p)) (parser_position p) (parser_position p'))"
proof -
  from productionE [OF assms in_everywhere] obtain n p' where f: "f p = Some (n, p')"
    "spans ua (parser_position p) n p'" "frame p p'" .
  note adv = spans_advanced [OF f(2,3)]
  from f advanced_text [OF assms(2) adv] advanced_le [OF assms(2) adv] show ?thesis
    by (auto simp: spans_def frame_def)
qed

end
