(* ===== verification/Parser_Declarations.thy ===== *)
theory Parser_Declarations
  imports Parser_Nodes
begin

text \<open>
  Declarations without types or expressions: overload declarations
  (\<open>crates/bray-parser/src/parser/overload.rs\<close>) and the using and export declarations, modifiers and scans
  of \<open>crates/bray-parser/src/parser/module.rs\<close>. Each production is the list of its statements; the lemmas
  show that every one of them returns on every text and loses no token, and that the scans deciding
  between declarations return.
\<close>

subsection \<open>Kinds that start or end an item\<close>

definition module_item_declaration_terminator_kinds :: "syntax_kind list" where
  "module_item_declaration_terminator_kinds = [SemicolonToken, CloseBraceToken, EndOfFileToken]"

definition module_item_start_kinds :: "syntax_kind list" where
  "module_item_start_kinds = [UsingKeyword, ExportKeyword, AtToken, PublicKeyword, InternalKeyword, TrustedKeyword,
     ExternKeyword, AsyncKeyword, ConstKeyword, StaticKeyword, CallableKeyword, FuncKeyword, StructKeyword,
     UnionKeyword, TraitKeyword, ImplKeyword, OverloadKeyword, PredicateKeyword, ModuleKeyword]"

definition member_keyword_recovery_kinds :: "syntax_kind list" where
  "member_keyword_recovery_kinds = [AtToken, PublicKeyword, InternalKeyword, AsyncKeyword, TrustedKeyword,
     StaticKeyword, ConsumeKeyword, MutKeyword, ConstKeyword, FuncKeyword, ConstructKeyword, FinalizeKeyword,
     DestructKeyword, EnterKeyword, ExitKeyword, TypeKeyword, PredicateKeyword, OverloadKeyword, EndOfFileToken]"

definition overload_arm_start_kinds :: "syntax_kind list" where
  "overload_arm_start_kinds = [IdentifierToken]"

definition overload_arm_list_terminators :: "syntax_kind list" where
  "overload_arm_list_terminators =
     [CloseBraceToken, EndOfFileToken] @ module_item_start_kinds @ member_keyword_recovery_kinds"

subsection \<open>Overload declarations\<close>

definition parse_overload_modifiers :: "unicode_alphanumeric \<Rightarrow> parser \<Rightarrow> node_syntax parsing" where
  "parse_overload_modifiers ua = parse_node ua ''overload_modifiers.source'' OverloadModifiers [
     when_step (at_visibility_modifier ua) [token_of_into is_visibility_modifier (parse_visibility_modifier ua)]]"

definition parse_implementation_overload_subject :: "unicode_alphanumeric \<Rightarrow> parser \<Rightarrow> node_syntax parsing" where
  "parse_implementation_overload_subject ua =
     parse_node ua ''implementation_overload_subject.source'' ImplementationOverloadSubject [
       if_step (parser_at ua OpenParenToken) [
         expect_into ua OpenParenToken,
         expect_into ua AmpersandToken,
         when_step (parser_at ua MutKeyword) [expect_into ua MutKeyword],
         path_into (parse_path ua),
         expect_into ua CloseParenToken]
       [path_into (parse_path ua)]]"

definition parse_overload_arm :: "unicode_alphanumeric \<Rightarrow> parser \<Rightarrow> node_syntax parsing" where
  "parse_overload_arm ua = parse_node ua ''overload_arm.source'' OverloadArm [path_into (parse_path ua)]"

definition overload_arm_list_spec :: separated_list_spec where
  "overload_arm_list_spec = \<lparr>separator_kind = CommaToken, list_terminators = overload_arm_list_terminators,
     list_recovery_kinds = separated_list_recovery_kinds overload_arm_start_kinds CommaToken overload_arm_list_terminators,
     allow_trailing_separator = True\<rparr>"

definition parse_overload_arm_list :: "unicode_alphanumeric \<Rightarrow> parser \<Rightarrow> node_syntax parsing" where
  "parse_overload_arm_list ua = parse_node ua ''overload_arm_list.source'' OverloadArmList [
     expect_into ua OpenBraceToken,
     if_step (parser_at_any ua overload_arm_list_terminators)
       [child_into (parse_overload_arm ua)]
       [list_step ua overload_arm_list_spec (at_list_end ua overload_arm_list_terminators)
         (item_of (parse_overload_arm ua))],
     expect_into ua CloseBraceToken]"

definition parse_callable_overload_declaration :: "unicode_alphanumeric \<Rightarrow> parser \<Rightarrow> node_syntax parsing" where
  "parse_callable_overload_declaration ua =
     parse_node ua ''callable_overload_declaration.source'' CallableOverloadDeclaration [
       child_into (parse_overload_modifiers ua),
       expect_into ua OverloadKeyword,
       expect_into ua IdentifierToken,
       expect_into ua EqualsToken,
       child_into (parse_overload_arm_list ua)]"

definition parse_implementation_overload_declaration :: "unicode_alphanumeric \<Rightarrow> parser \<Rightarrow> node_syntax parsing" where
  "parse_implementation_overload_declaration ua =
     parse_node ua ''implementation_overload_declaration.source'' ImplementationOverloadDeclaration [
       child_into (parse_overload_modifiers ua),
       expect_into ua OverloadKeyword,
       child_into (parse_implementation_overload_subject ua),
       expect_into ua OpenParenToken,
       path_into (parse_path ua),
       expect_into ua CloseParenToken,
       expect_into ua EqualsToken,
       child_into (parse_overload_arm_list ua)]"

subsection \<open>Scans that decide between declarations\<close>

partial_function (option) path_scan_loop :: "unicode_alphanumeric \<Rightarrow> parser \<Rightarrow> unit parsing" where
  "path_scan_loop ua p = do {
     (dot, p1) \<leftarrow> consume_when ua (parser_at ua DotToken) p;
     (if \<not> dot then Some ((), p1)
      else do {
        (name, p2) \<leftarrow> consume_when ua (parser_at ua IdentifierToken) p1;
        (if \<not> name then Some ((), p2) else path_scan_loop ua p2)
      })
   }"

declare path_scan_loop.simps [code]

definition consume_path_for_scan :: "unicode_alphanumeric \<Rightarrow> parser \<Rightarrow> bool parsing" where
  "consume_path_for_scan ua p = do {
     (first, p1) \<leftarrow> consume_when ua (parser_at ua IdentifierToken) p;
     (if \<not> first then Some (False, p1)
      else do { (_, p2) \<leftarrow> path_scan_loop ua p1; Some (True, p2) })
   }"

definition at_overload_declaration_start :: "unicode_alphanumeric \<Rightarrow> parser \<Rightarrow> bool parsing" where
  "at_overload_declaration_start ua p = do {
     (b, p1) \<leftarrow> parser_at ua OverloadKeyword p;
     (if b then Some (True, p1) else at_visibility_modifier ua p1)
   }"

definition consume_overload_header_for_scan :: "unicode_alphanumeric \<Rightarrow> parser \<Rightarrow> bool parsing" where
  "consume_overload_header_for_scan ua p = do {
     (_, p1) \<leftarrow> consume_when ua (at_visibility_modifier ua) p;
     consume_when ua (parser_at ua OverloadKeyword) p1
   }"

definition consume_implementation_overload_subject_for_scan :: "unicode_alphanumeric \<Rightarrow> parser \<Rightarrow> bool parsing" where
  "consume_implementation_overload_subject_for_scan ua p = do {
     (paren, p1) \<leftarrow> consume_when ua (parser_at ua OpenParenToken) p;
     (if \<not> paren then consume_path_for_scan ua p1
      else do {
        (amp, p2) \<leftarrow> consume_when ua (parser_at ua AmpersandToken) p1;
        (if \<not> amp then Some (False, p2)
         else do {
           (_, p3) \<leftarrow> consume_when ua (parser_at ua MutKeyword) p2;
           (path, p4) \<leftarrow> consume_path_for_scan ua p3;
           (if \<not> path then Some (False, p4) else consume_when ua (parser_at ua CloseParenToken) p4)
         })
      })
   }"

definition should_parse_callable_overload_declaration :: "unicode_alphanumeric \<Rightarrow> parser \<Rightarrow> bool parsing" where
  "should_parse_callable_overload_declaration ua p = do {
     (start, p1) \<leftarrow> at_overload_declaration_start ua p;
     (if \<not> start then Some (False, p1)
      else scan_ahead (\<lambda>q. do {
        (header, q1) \<leftarrow> consume_overload_header_for_scan ua q;
        (if \<not> header then Some (False, q1)
         else do {
           (name, q2) \<leftarrow> parser_at ua IdentifierToken q1;
           (if \<not> name then Some (False, q2) else parser_next_is ua 1 EqualsToken q2)
         })
      }) p1)
   }"

definition should_parse_implementation_overload_declaration :: "unicode_alphanumeric \<Rightarrow> parser \<Rightarrow> bool parsing" where
  "should_parse_implementation_overload_declaration ua p = do {
     (start, p1) \<leftarrow> at_overload_declaration_start ua p;
     (if \<not> start then Some (False, p1)
      else scan_ahead (\<lambda>q. do {
        (header, q1) \<leftarrow> consume_overload_header_for_scan ua q;
        (if \<not> header then Some (False, q1)
         else do {
           (subject, q2) \<leftarrow> consume_implementation_overload_subject_for_scan ua q1;
           (if \<not> subject then Some (False, q2) else parser_at ua OpenParenToken q2)
         })
      }) p1)
   }"

subsection \<open>Using and export declarations, module modifiers\<close>

definition recover_until_module_item_declaration_end ::
    "unicode_alphanumeric \<Rightarrow> 'b recovery_sink \<Rightarrow> 'b \<Rightarrow> parser \<Rightarrow> (bool \<times> 'b) parsing" where
  "recover_until_module_item_declaration_end ua sink =
     recover_until_set ua sink
       (with_additional module_item_start_kinds (recovery_set_new module_item_declaration_terminator_kinds))"

definition parse_using_declaration :: "unicode_alphanumeric \<Rightarrow> parser \<Rightarrow> node_syntax parsing" where
  "parse_using_declaration ua = parse_node ua ''using_declaration.source'' UsingDeclaration [
     expect_into ua UsingKeyword,
     when_step (parser_at ua InternalKeyword) [expect_into ua InternalKeyword],
     path_into (parse_path ua),
     recover_step (recover_until_module_item_declaration_end ua node_push_skipped_tokens),
     expect_into ua SemicolonToken]"

definition parse_export_declaration :: "unicode_alphanumeric \<Rightarrow> parser \<Rightarrow> node_syntax parsing" where
  "parse_export_declaration ua = parse_node ua ''export_declaration.source'' ExportDeclaration [
     expect_into ua ExportKeyword,
     path_into (parse_path ua),
     recover_step (recover_until_module_item_declaration_end ua node_push_skipped_tokens),
     expect_into ua SemicolonToken]"

definition parse_module_modifiers :: "unicode_alphanumeric \<Rightarrow> parser \<Rightarrow> node_syntax parsing" where
  "parse_module_modifiers ua = parse_node ua ''module_modifiers.source'' ModuleModifiers [
     when_step (parser_at ua TrustedKeyword) [expect_into ua TrustedKeyword],
     when_step (at_visibility_modifier ua) [token_of_into is_visibility_modifier (parse_visibility_modifier ua)]]"

definition consume_module_modifiers_for_scan :: "unicode_alphanumeric \<Rightarrow> parser \<Rightarrow> unit parsing" where
  "consume_module_modifiers_for_scan ua p = do {
     (_, p1) \<leftarrow> consume_when ua (parser_at ua TrustedKeyword) p;
     (_, p2) \<leftarrow> consume_when ua (at_visibility_modifier ua) p1;
     Some ((), p2)
   }"

subsection \<open>Every declaration keeps its tokens\<close>

lemma path_child: "keeps ua S (path_into (parse_path ua))"
  by (rule keeps_path, rule parse_path_kept)

lemma overload_modifiers: "production ua S (parse_overload_modifiers ua)"
  by (simp add: parse_overload_modifiers_def step_rules kind_simps)

lemma implementation_overload_subject: "production ua S (parse_implementation_overload_subject ua)"
  by (simp add: parse_implementation_overload_subject_def step_rules path_child kind_simps)

lemma overload_arm: "production ua S (parse_overload_arm ua)"
  by (simp add: parse_overload_arm_def step_rules path_child kind_simps)

lemma overload_arm_list_step:
  "keeps ua S (list_step ua overload_arm_list_spec (at_list_end ua overload_arm_list_terminators) (item_of (parse_overload_arm ua)))"
  using keeps_plain_list [OF overload_arm, of overload_arm_list_spec ua S]
  by (simp add: overload_arm_list_spec_def kind_simps)

lemma overload_arm_list: "production ua S (parse_overload_arm_list ua)"
  by (simp add: parse_overload_arm_list_def step_rules overload_arm overload_arm_list_step kind_simps)

lemma callable_overload_declaration: "production ua S (parse_callable_overload_declaration ua)"
  by (simp add: parse_callable_overload_declaration_def step_rules overload_modifiers overload_arm_list kind_simps)

lemma implementation_overload_declaration: "production ua S (parse_implementation_overload_declaration ua)"
  by (simp add: parse_implementation_overload_declaration_def step_rules overload_modifiers implementation_overload_subject
      path_child overload_arm_list kind_simps)

lemma declaration_end: "keeps ua S (recover_step (recover_until_module_item_declaration_end ua node_push_skipped_tokens))"
  by (simp add: recover_until_module_item_declaration_end_def step_rules)

lemma using_declaration: "production ua S (parse_using_declaration ua)"
  by (simp add: parse_using_declaration_def step_rules path_child declaration_end kind_simps)

lemma export_declaration: "production ua S (parse_export_declaration ua)"
  by (simp add: parse_export_declaration_def step_rules path_child declaration_end kind_simps)

lemma module_modifiers: "production ua S (parse_module_modifiers ua)"
  by (simp add: parse_module_modifiers_def step_rules kind_simps)

subsection \<open>Every scan returns\<close>

lemma path_scan_loop_moves: "moves ua S (path_scan_loop ua)"
proof (rule movesI)
  fix p assume "parser_ok ua p" "in_scope S p"
  then show "\<exists>x p'. path_scan_loop ua p = Some (x, p') \<and> parser_ok ua p' \<and> frame p p' \<and> parser_position p \<le> parser_position p'"
  proof (induction "text_length (parser_snapshot p) - parser_position p" arbitrary: p rule: less_induct)
    case less
    note eq = path_scan_loop.simps [of ua p]
    have g: "guards ua (parser_at ua DotToken)" "guards ua (parser_at ua IdentifierToken)" by (simp_all add: guards_at)
    from consume_when_spec [OF g(1) less.prems(1)] obtain dot p1
      where 1: "consume_when ua (parser_at ua DotToken) p = Some (dot, p1)" "parser_ok ua p1" "frame p p1"
        "dot \<longrightarrow> parser_position p < parser_position p1" "\<not> dot \<longrightarrow> parser_position p1 = parser_position p" .
    from consume_when_spec [OF g(2) 1(2)] obtain name p2
      where 2: "consume_when ua (parser_at ua IdentifierToken) p1 = Some (name, p2)" "parser_ok ua p2" "frame p1 p2"
        "name \<longrightarrow> parser_position p1 < parser_position p2" "\<not> name \<longrightarrow> parser_position p2 = parser_position p1" .
    show ?case
    proof (cases "dot \<and> name")
      case False
      with 1 2 frame_trans [OF 1(3) 2(3)] show ?thesis by (cases dot) (auto simp: eq)
    next
      case True
      have fr: "frame p p2" by (rule frame_trans [OF 1(3) 2(3)])
      have "parser_position p2 \<le> text_length (parser_snapshot p)"
        using boundary_le [OF parser_ok_wf(2) [OF 2(2)]] fr by (simp add: frame_def)
      with True 1 2 fr have "text_length (parser_snapshot p2) - parser_position p2
          < text_length (parser_snapshot p) - parser_position p" by (simp add: frame_def)
      from less.hyps [OF this 2(2) frame_scope [OF less.prems(2) fr]] obtain x p'
        where "path_scan_loop ua p2 = Some (x, p')" "parser_ok ua p'" "frame p2 p'" "parser_position p2 \<le> parser_position p'" by blast
      with True 1 2 frame_trans [OF fr] show ?thesis by (auto simp: eq intro: exI [of _ p'])
    qed
  qed
qed

lemma consume_path_moves: "moves ua S (consume_path_for_scan ua)"
  unfolding consume_path_for_scan_def [abs_def] by (intro scan_rules path_scan_loop_moves guards_at) simp

lemma overload_header_moves: "moves ua S (consume_overload_header_for_scan ua)"
  unfolding consume_overload_header_for_scan_def [abs_def] by (intro scan_rules guards_at guards_visibility) simp

lemma overload_subject_moves: "moves ua S (consume_implementation_overload_subject_for_scan ua)"
  unfolding consume_implementation_overload_subject_for_scan_def [abs_def]
  by (intro scan_rules consume_path_moves guards_at) simp_all

lemma observes_overload_start: "parser_observer ua S (at_overload_declaration_start ua)"
  unfolding at_overload_declaration_start_def [abs_def] by (intro test_rules)

lemma observes_should_parse_callable_overload: "parser_observer ua S (should_parse_callable_overload_declaration ua)"
  unfolding should_parse_callable_overload_declaration_def [abs_def]
  by (intro test_rules observes_overload_start scan_rules overload_header_moves moves_observer)

lemma observes_should_parse_implementation_overload:
  "parser_observer ua S (should_parse_implementation_overload_declaration ua)"
  unfolding should_parse_implementation_overload_declaration_def [abs_def]
  by (intro test_rules observes_overload_start scan_rules overload_header_moves overload_subject_moves moves_observer)

text \<open>
  C4. The declarations without types and expressions are parsed from any position of any text: the
  production returns a well-formed node of its kind that starts at the parser's position, with missing
  tokens where something is missing and skipped ones where recovery had to skip, and the text of the
  node is exactly what the parser went over; the nesting depth is as before.
\<close>

theorem declarations_lossless:
  assumes "parser_ok ua p"
    and "(f, k) \<in> {(parse_callable_overload_declaration ua, CallableOverloadDeclaration),
      (parse_implementation_overload_declaration ua, ImplementationOverloadDeclaration),
      (parse_using_declaration ua, UsingDeclaration), (parse_export_declaration ua, ExportDeclaration),
      (parse_module_modifiers ua, ModuleModifiers)}"
  shows "\<exists>n p'. f p = Some (n, p') \<and> node_kind (syn_node n) = k \<and> node_wf (syn_node n)
    \<and> syn_start n = parser_position p \<and> parser_ok ua p' \<and> parser_snapshot p' = parser_snapshot p
    \<and> syntax_nesting_depth p' = syntax_nesting_depth p
    \<and> write_source_text (syn_node n) (snap_text (parser_snapshot p)) (parser_position p)
        = Some (segment (snap_text (parser_snapshot p)) (parser_position p) (parser_position p'))"
proof -
  have "production ua everywhere f"
    using assms(2) callable_overload_declaration implementation_overload_declaration using_declaration export_declaration
      module_modifiers by auto
  from production_text [OF this assms(1)] obtain n p' where n: "f p = Some (n, p')" "node_wf (syn_node n)"
    "syn_start n = parser_position p" "parser_ok ua p'" "parser_snapshot p' = parser_snapshot p"
    "syntax_nesting_depth p' = syntax_nesting_depth p"
    "write_source_text (syn_node n) (snap_text (parser_snapshot p)) (parser_position p)
        = Some (segment (snap_text (parser_snapshot p)) (parser_position p) (parser_position p'))" by blast
  have "node_kind (syn_node n) = k"
    using n(1) assms(2) parse_node_kind
    by (auto simp: parse_callable_overload_declaration_def parse_implementation_overload_declaration_def
        parse_using_declaration_def parse_export_declaration_def parse_module_modifiers_def)
  with n show ?thesis by blast
qed

theorem declarations_lossless_witness:
  "\<exists>n p'. parse_using_declaration (\<lambda>_. False) (parser_new (text_snapshot ''using a.b 1; x'')) = Some (n, p')
     \<and> node_kind (syn_node n) = UsingDeclaration
     \<and> write_source_text (syn_node n) ''using a.b 1; x'' 0 = Some (segment ''using a.b 1; x'' 0 (parser_position p'))"
proof -
  let ?p = "parser_new (text_snapshot ''using a.b 1; x'')"
  have "snapshot_wf (text_snapshot ''using a.b 1; x'')" by (rule text_snapshot_wf) (simp_all add: u32_max_def)
  then have ok: "parser_ok (\<lambda>_. False) ?p" by (rule parser_ok_new)
  have start: "parser_position ?p = 0" "snap_text (parser_snapshot ?p) = ''using a.b 1; x''"
    by (simp_all add: parser_new_def parser_cursor_new_def token_source_new_def with_cache_policy_def text_snapshot_def)
  from declarations_lossless [OF ok, of "parse_using_declaration (\<lambda>_. False)" UsingDeclaration] show ?thesis
    unfolding start by auto
qed

end
