(* ===== verification/Parser_Progress.thy ===== *)
theory Parser_Progress
  imports Parser_Nodes
begin

text \<open>
  Loops and nesting of productions. Boundary closures of the parser are combined with \<open>||\<close>, \<open>&&\<close> and
  \<open>!\<close>; a loop runs its body until the body says stop; a recursive production enters one nesting level
  and leaves it again. A loop ends when each of its rounds takes a token, so the rules here say which
  steps do.
\<close>

subsection \<open>Boundary tests\<close>

type_synonym boundary_test = "parser \<Rightarrow> bool parsing"

definition or_test :: "boundary_test \<Rightarrow> boundary_test \<Rightarrow> boundary_test" where
  "or_test f g p = do { (b, p1) \<leftarrow> f p; (if b then Some (True, p1) else g p1) }"

definition and_test :: "boundary_test \<Rightarrow> boundary_test \<Rightarrow> boundary_test" where
  "and_test f g p = do { (b, p1) \<leftarrow> f p; (if b then g p1 else Some (False, p1)) }"

definition not_test :: "boundary_test \<Rightarrow> boundary_test" where
  "not_test f p = do { (b, p1) \<leftarrow> f p; Some (\<not> b, p1) }"

definition peek_is :: "unicode_alphanumeric \<Rightarrow> (syntax_kind \<Rightarrow> bool) \<Rightarrow> boundary_test" where
  "peek_is ua allowed p = do { (t, p1) \<leftarrow> parser_peek ua p; Some (allowed (tok_kind t), p1) }"

abbreviation kind_at :: "unicode_alphanumeric \<Rightarrow> source_snapshot \<Rightarrow> text_size \<Rightarrow> syntax_kind" where
  "kind_at ua s i \<equiv> tok_kind (token_at ua s i)"

lemma testE:
  assumes "parser_test ua S test D" "parser_ok ua p" "in_scope S p"
  obtains p' where "test p = Some (D (parser_snapshot p) (parser_position p), p')" "advanced ua p p' []"
  using parser_test.test_spec [OF assms] by blast

lemma test_observes: "parser_test ua S test D \<Longrightarrow> parser_observer ua S test"
  by unfold_locales (use parser_test.test_spec in blast)

lemma test_weaken: "parser_test ua everywhere test D \<Longrightarrow> parser_test ua S test D"
  by (simp add: parser_test_def)

lemma test_at: "parser_test ua S (parser_at ua k) (\<lambda>s i. kind_at ua s i = k)"
proof
  fix p assume ok: "parser_ok ua p"
  from at_adv [OF ok, of k] parser_ok_wf(4) [OF ok]
  show "\<exists>p'. parser_at ua k p = Some (kind_at ua (parser_snapshot p) (parser_position p) = k, p') \<and> advanced ua p p' []"
    by metis
qed

lemma test_at_any: "parser_test ua S (parser_at_any ua ks) (\<lambda>s i. kind_at ua s i \<in> set ks)"
proof
  fix p assume ok: "parser_ok ua p"
  from at_any_adv [OF ok, of ks] parser_ok_wf(4) [OF ok]
  show "\<exists>p'. parser_at_any ua ks p = Some (kind_at ua (parser_snapshot p) (parser_position p) \<in> set ks, p') \<and> advanced ua p p' []"
    by metis
qed

lemma test_peek_is: "parser_test ua S (peek_is ua c) (\<lambda>s i. c (kind_at ua s i))"
proof
  fix p assume ok: "parser_ok ua p"
  from peek_adv [OF ok] obtain p' where "parser_peek ua p = Some (ahead ua p, p')" "advanced ua p p' []" .
  with parser_ok_wf(4) [OF ok]
  show "\<exists>p'. peek_is ua c p = Some (c (kind_at ua (parser_snapshot p) (parser_position p)), p') \<and> advanced ua p p' []"
    by (simp add: peek_is_def)
qed

lemma strip_eof_kind: "tok_kind (strip_eof t) = tok_kind t"
  by (simp add: strip_eof_def)

lemma test_next_is:
  "parser_test ua S (parser_next_is ua k kind) (\<lambda>s i. tok_kind (strip_eof (upcoming ua s i k)) = kind)"
proof
  fix p assume "parser_ok ua p"
  from lookahead_adv [OF this, of k] obtain t p' where "parser_lookahead ua k p = Some (t, p')" "advanced ua p p' []"
    "strip_eof t = strip_eof (upcoming ua (parser_snapshot p) (parser_position p) k)" .
  moreover from this(3) have "tok_kind t = tok_kind (strip_eof (upcoming ua (parser_snapshot p) (parser_position p) k))"
    by (metis strip_eof_kind)
  ultimately show "\<exists>p'. parser_next_is ua k kind p
      = Some (tok_kind (strip_eof (upcoming ua (parser_snapshot p) (parser_position p) k)) = kind, p') \<and> advanced ua p p' []"
    by (simp add: parser_next_is_def)
qed

lemma test_never: "parser_test ua S (\<lambda>q. Some (False, q)) (\<lambda>s i. False)"
  by unfold_locales (simp add: advanced_refl)

text \<open>Two tests one after the other: the second sees the same place.\<close>

lemma test_pair:
  assumes "parser_test ua S f D" "parser_test ua S g E" "parser_ok ua p" "in_scope S p"
  obtains p1 p2 where "f p = Some (D (parser_snapshot p) (parser_position p), p1)" "advanced ua p p1 []"
    "g p1 = Some (E (parser_snapshot p) (parser_position p), p2)" "advanced ua p p2 []"
proof -
  from testE [OF assms(1,3,4)] obtain p1 where 1: "f p = Some (D (parser_snapshot p) (parser_position p), p1)" "advanced ua p p1 []" .
  then have p1: "parser_ok ua p1" "parser_snapshot p1 = parser_snapshot p" "parser_position p1 = parser_position p"
    "in_scope S p1" using assms(4) by (auto simp: advanced_def)
  from testE [OF assms(2) p1(1,4)] obtain p2 where "g p1 = Some (E (parser_snapshot p1) (parser_position p1), p2)" "advanced ua p1 p2 []" .
  with 1 p1 advanced_same [OF 1(2)] show ?thesis by (intro that [of p1 p2]) auto
qed

lemma test_or:
  assumes "parser_test ua S f D" "parser_test ua S g E"
  shows "parser_test ua S (or_test f g) (\<lambda>s i. D s i \<or> E s i)"
proof
  fix p assume p: "parser_ok ua p" "in_scope S p"
  show "\<exists>p'. or_test f g p = Some (D (parser_snapshot p) (parser_position p) \<or> E (parser_snapshot p) (parser_position p), p')
      \<and> advanced ua p p' []"
    by (rule test_pair [OF assms p]) (auto simp: or_test_def)
qed

lemma test_and:
  assumes "parser_test ua S f D" "parser_test ua S g E"
  shows "parser_test ua S (and_test f g) (\<lambda>s i. D s i \<and> E s i)"
proof
  fix p assume p: "parser_ok ua p" "in_scope S p"
  show "\<exists>p'. and_test f g p = Some (D (parser_snapshot p) (parser_position p) \<and> E (parser_snapshot p) (parser_position p), p')
      \<and> advanced ua p p' []"
    by (rule test_pair [OF assms p]) (auto simp: and_test_def)
qed

lemma test_not:
  assumes "parser_test ua S f D"
  shows "parser_test ua S (not_test f) (\<lambda>s i. \<not> D s i)"
proof
  fix p assume "parser_ok ua p" "in_scope S p"
  from testE [OF assms this] obtain p1 where "f p = Some (D (parser_snapshot p) (parser_position p), p1)" "advanced ua p p1 []" .
  then show "\<exists>p'. not_test f p = Some (\<not> D (parser_snapshot p) (parser_position p), p') \<and> advanced ua p p' []"
    by (simp add: not_test_def)
qed

lemma observes_or: "parser_observer ua S f \<Longrightarrow> parser_observer ua S g \<Longrightarrow> parser_observer ua S (or_test f g)"
  unfolding or_test_def [abs_def] by (intro test_rules)

lemma observes_and: "parser_observer ua S f \<Longrightarrow> parser_observer ua S g \<Longrightarrow> parser_observer ua S (and_test f g)"
  unfolding and_test_def [abs_def] by (intro test_rules)

lemma observes_not: "parser_observer ua S f \<Longrightarrow> parser_observer ua S (not_test f)"
  unfolding not_test_def [abs_def] by (intro test_rules)

lemmas deciding_rules = test_at test_peek_is test_never test_or test_and test_not

subsection \<open>Steps that take a token\<close>

text \<open>
  \<open>takes ua S C s\<close>: at a place where \<open>C\<close> holds the step moves the parser forward; \<open>takes_node\<close> says the
  same of a production.
\<close>

type_synonym place = "source_snapshot \<Rightarrow> text_size \<Rightarrow> bool"

abbreviation at_place :: "place \<Rightarrow> parser \<Rightarrow> bool" where
  "at_place C p \<equiv> C (parser_snapshot p) (parser_position p)"

definition takes :: "unicode_alphanumeric \<Rightarrow> scope \<Rightarrow> place \<Rightarrow> step \<Rightarrow> bool" where
  "takes ua S C s \<longleftrightarrow> (\<forall>i b p b' p'. holds ua i b p \<longrightarrow> in_scope S p \<longrightarrow> at_place C p \<longrightarrow> s b p = Some (b', p')
     \<longrightarrow> parser_position p < parser_position p')"

definition takes_node :: "unicode_alphanumeric \<Rightarrow> scope \<Rightarrow> place \<Rightarrow> (parser \<Rightarrow> 'a parsing) \<Rightarrow> bool" where
  "takes_node ua S C f \<longleftrightarrow> (\<forall>p x p'. parser_ok ua p \<longrightarrow> in_scope S p \<longrightarrow> at_place C p \<longrightarrow> f p = Some (x, p')
     \<longrightarrow> parser_position p < parser_position p')"

lemma takesI:
  assumes "\<And>i b p b' p'. holds ua i b p \<Longrightarrow> in_scope S p \<Longrightarrow> at_place C p \<Longrightarrow> s b p = Some (b', p')
    \<Longrightarrow> parser_position p < parser_position p'"
  shows "takes ua S C s"
  using assms unfolding takes_def by blast

lemma takesD:
  "takes ua S C s \<Longrightarrow> holds ua i b p \<Longrightarrow> in_scope S p \<Longrightarrow> at_place C p \<Longrightarrow> s b p = Some (b', p')
    \<Longrightarrow> parser_position p < parser_position p'"
  unfolding takes_def by blast

lemma takes_nodeI:
  assumes "\<And>p x p'. parser_ok ua p \<Longrightarrow> in_scope S p \<Longrightarrow> at_place C p \<Longrightarrow> f p = Some (x, p')
    \<Longrightarrow> parser_position p < parser_position p'"
  shows "takes_node ua S C f"
  using assms unfolding takes_node_def by blast

lemma takes_nodeD:
  "takes_node ua S C f \<Longrightarrow> parser_ok ua p \<Longrightarrow> in_scope S p \<Longrightarrow> at_place C p \<Longrightarrow> f p = Some (x, p')
    \<Longrightarrow> parser_position p < parser_position p'"
  unfolding takes_node_def by blast

lemma takes_sub: "takes ua S C s \<Longrightarrow> (\<And>s i. C' s i \<Longrightarrow> C s i) \<Longrightarrow> takes ua S C' s"
  unfolding takes_def by blast

lemma takes_node_sub: "takes_node ua S C f \<Longrightarrow> (\<And>s i. C' s i \<Longrightarrow> C s i) \<Longrightarrow> takes_node ua S C' f"
  unfolding takes_node_def by blast

lemma expect_takes:
  assumes "parser_ok ua p" "is_token k" "k \<noteq> EndOfFileToken" "tok_kind (ahead ua p) = k"
    "parser_expect ua k p = Some (t, p')"
  shows "parser_position p < parser_position p'"
proof -
  from expect_adv [OF assms(1-3)] obtain g where "from_syntax_token t = Some g" "advanced ua p p' [g]"
    "tok_presence t = Missing \<longleftrightarrow> tok_kind (ahead ua p) \<noteq> k"
    using assms(5) by (metis option.inject prod.inject)
  moreover from this assms(4) have "is_present g"
    using from_syntax_token_presence [of t g] by (cases "green_presence g") auto
  ultimately show ?thesis using advanced_present_progress [OF assms(1)] by blast
qed

lemma takes_expect:
  assumes "is_token k" "k \<noteq> EndOfFileToken" "\<And>s i. C s i \<Longrightarrow> kind_at ua s i = k"
  shows "takes ua S C (expect_into ua k)"
proof (rule takesI)
  fix i b p b' p' assume h: "holds ua i b p" and c: "at_place C p" and run: "expect_into ua k b p = Some (b', p')"
  from run obtain t where "parser_expect ua k p = Some (t, p')" by (auto simp: expect_into_def run_simps)
  moreover have "tok_kind (ahead ua p) = k" using assms(3) [OF c] parser_ok_wf(4) [OF holds_ok [OF h]] by simp
  ultimately show "parser_position p < parser_position p'" using expect_takes [OF holds_ok [OF h] assms(1,2)] by blast
qed

lemma takes_child: "takes_node ua S C f \<Longrightarrow> takes ua S C (child_into f)"
  by (rule takesI) (auto simp: child_into_def run_simps dest: takes_nodeD [OF _ holds_ok])

lemma takes_path: "takes_node ua S C f \<Longrightarrow> takes ua S C (path_into f)"
  by (rule takesI) (auto simp: path_into_def run_simps dest: takes_nodeD [OF _ holds_ok])

lemma takes_parse_path: "takes_node ua S (\<lambda>s i. kind_at ua s i = IdentifierToken) (parse_path ua)"
proof (rule takes_nodeI)
  fix p x p' assume ok: "parser_ok ua p" and c: "kind_at ua (parser_snapshot p) (parser_position p) = IdentifierToken"
    and run: "parse_path ua p = Some (x, p')"
  from plain_path.parse_path_until_spec [OF ok in_everywhere] run c parser_ok_wf(4) [OF ok]
  show "parser_position p < parser_position p'" by (auto simp: parse_path_def)
qed

lemma takes_steps:
  assumes "takes ua S C s" "keeps ua S s" "list_all (keeps ua S) ss"
  shows "takes ua S C (run_steps (s # ss))"
proof (rule takesI)
  fix i b p b' p' assume h: "holds ua i b p" and sc: "in_scope S p" and c: "at_place C p"
    and run: "run_steps (s # ss) b p = Some (b', p')"
  from keepsE [OF assms(2) h sc] obtain b1 p1 where 1: "s b p = Some (b1, p1)" "holds ua i b1 p1" "frame p p1" .
  from keepsE [OF keeps_run_steps [OF assms(3)] 1(2) frame_scope [OF sc 1(3)]] obtain b2 p2
    where "run_steps ss b1 p1 = Some (b2, p2)" "frame p1 p2" by blast
  moreover have "parser_position p < parser_position p1" by (rule takesD [OF assms(1) h sc c 1(1)])
  ultimately show "parser_position p < parser_position p'" using run 1(1) by (auto simp: frame_def)
qed

lemma takes_if:
  assumes "parser_test ua S test D" "takes ua S (\<lambda>s i. C s i \<and> D s i) (run_steps ss)"
    "takes ua S (\<lambda>s i. C s i \<and> \<not> D s i) (run_steps ss')"
  shows "takes ua S C (if_step test ss ss')"
proof (rule takesI)
  fix i b p b' p' assume h: "holds ua i b p" and sc: "in_scope S p" and c: "at_place C p"
    and run: "if_step test ss ss' b p = Some (b', p')"
  from testE [OF assms(1) holds_ok [OF h] sc] obtain p1 where t: "test p = Some (at_place D p, p1)" "advanced ua p p1 []" .
  then have p1: "in_scope S p1" "parser_snapshot p1 = parser_snapshot p" "parser_position p1 = parser_position p"
    using sc by (auto simp: advanced_def)
  note h1 = holds_same [OF h t(2)]
  show "parser_position p < parser_position p'"
    using takesD [OF assms(2) h1 p1(1)] takesD [OF assms(3) h1 p1(1)] run t(1) c p1
    by (auto simp: if_step_def split: if_splits)
qed

lemma takes_parse_node:
  assumes "takes ua S C (run_steps ss)" "list_all (keeps ua S) ss"
  shows "takes_node ua S C (parse_node ua slot k ss)"
proof (rule takes_nodeI)
  fix p x p' assume ok: "parser_ok ua p" and sc: "in_scope S p" and c: "at_place C p"
    and run: "parse_node ua slot k ss p = Some (x, p')"
  from peek_adv [OF ok] obtain q where q: "parser_peek ua p = Some (ahead ua p, q)" "advanced ua p q []" .
  from start_node_holds [OF ok] obtain b p1 where 1: "start_node ua slot p = Some (b, p1)" "holds ua (parser_position p) b p1" "frame p p1" .
  from q(1) 1(1) have "p1 = q" by (auto simp: start_node_def run_simps)
  with q(2) have "parser_snapshot p1 = parser_snapshot p" "parser_position p1 = parser_position p" "in_scope S p1"
    using sc by (auto simp: advanced_def)
  moreover from run 1(1) obtain b' where "run_steps ss b p1 = Some (b', p')" by (auto simp: parse_node_def run_simps)
  ultimately show "parser_position p < parser_position p'" using takesD [OF assms(1) 1(2), of b' p'] c by simp
qed

subsection \<open>Recovery takes a token\<close>

lemma skips_moves: "skips ua p p' ts \<Longrightarrow> ts \<noteq> [] \<Longrightarrow> parser_position p < parser_position p'"
  by (simp add: skips_def)

lemma takes_recover_current_and_until_predicate:
  assumes "parser_observer ua S at_stop" "\<And>s i. C s i \<Longrightarrow> kind_at ua s i \<noteq> EndOfFileToken"
  shows "takes ua S C (recover_step (recover_current_and_until_predicate ua node_push_skipped_tokens at_stop))"
proof (rule takesI)
  fix i b p b' p' assume h: "holds ua i b p" and sc: "in_scope S p" and c: "at_place C p"
    and run: "recover_step (recover_current_and_until_predicate ua node_push_skipped_tokens at_stop) b p = Some (b', p')"
  from assms(2) [OF c] parser_ok_wf(4) [OF holds_ok [OF h]] have ne: "\<not> is_end_of_file (ahead ua p)"
    by (simp add: is_end_of_file_def)
  from current_and_until_predicate_skips [OF assms(1) holds_ok [OF h] sc] obtain first p2 ts q where "do {
       (eof, p1) \<leftarrow> parser_at ua EndOfFileToken p;
       (if eof then Some ([], p1) else do { (t, q) \<leftarrow> parser_consume ua p1; Some ([t], q) })
     } = Some (first, p2)" "until_predicate_loop ua at_stop first p2 = Some (ts, q)" "skips ua p q ts"
    "\<not> is_end_of_file (ahead ua p) \<longrightarrow> ts \<noteq> []" .
  with run ne skips_moves show "parser_position p < parser_position p'"
    by (auto simp: recover_step_def recover_current_and_until_predicate_def run_simps)
qed

lemma takes_recover_until_predicate:
  assumes "parser_test ua S at_stop D" "\<And>s i. C s i \<Longrightarrow> kind_at ua s i \<noteq> EndOfFileToken \<and> \<not> D s i"
  shows "takes ua S C (recover_step (recover_until_predicate ua node_push_skipped_tokens at_stop))"
proof (rule takesI)
  fix i b p b' p' assume h: "holds ua i b p" and sc: "in_scope S p" and c: "at_place C p"
    and run: "recover_step (recover_until_predicate ua node_push_skipped_tokens at_stop) b p = Some (b', p')"
  note ok = holds_ok [OF h]
  from assms(2) [OF c] have ne: "kind_at ua (parser_snapshot p) (parser_position p) \<noteq> EndOfFileToken" "\<not> at_place D p" by simp_all
  from test_pair [OF test_at assms(1) ok sc, of EndOfFileToken] obtain p1 p2
    where t: "parser_at ua EndOfFileToken p = Some (False, p1)" "at_stop p1 = Some (False, p2)" "advanced ua p p2 []"
    unfolding eq_False [THEN iffD2, OF ne(1)] eq_False [THEN iffD2, OF ne(2)] by blast
  have ok2: "parser_ok ua p2" using t(3) by (simp add: advanced_def)
  have p2: "in_scope S p2" "parser_position p2 = parser_position p" "\<not> is_end_of_file (ahead ua p2)"
    using t(3) sc ne(1) advanced_ahead [OF t(3) ok] parser_ok_wf(4) [OF ok] by (auto simp: advanced_def is_end_of_file_def)
  from skips_one [OF ok2 p2(3)] obtain p3 where p3: "parser_consume ua p2 = Some (ahead ua p2, p3)" "skips ua p2 p3 [ahead ua p2]" .
  then have ok3: "parser_ok ua p3" "in_scope S p3" using p2(1) by (auto simp: skips_def advanced_def)
  from until_predicate_loop_skips [OF test_observes [OF assms(1)] ok3, of "[ahead ua p2]"] obtain ts q
    where l: "until_predicate_loop ua at_stop [ahead ua p2] p3 = Some ([ahead ua p2] @ ts, q)" "skips ua p3 q ts" by blast
  have "until_predicate_loop ua at_stop [] p = Some ([ahead ua p2] @ ts, q)"
    using t(1,2) p3(1) l(1) by (simp add: until_predicate_loop.simps [of ua at_stop "[]" p])
  with run have "q = p'" by (auto simp: recover_step_def recover_until_predicate_def run_simps)
  with skips_moves [OF skips_trans [OF p3(2) l(2) ok2]] p2(2) show "parser_position p < parser_position p'" by simp
qed

subsection \<open>Loops\<close>

text \<open>
  A \<open>while\<close> or \<open>loop\<close> statement over a builder: the body answers whether to go on.
\<close>

partial_function (option) loop_step :: "(node_builder \<Rightarrow> parser \<Rightarrow> (bool \<times> node_builder) parsing) \<Rightarrow> step" where
  "loop_step body b p = do {
     ((again, b'), p') \<leftarrow> body b p;
     (if again then loop_step body b' p' else Some (b', p'))
   }"

declare loop_step.simps [code]

definition rounds :: "unicode_alphanumeric \<Rightarrow> scope \<Rightarrow> (node_builder \<Rightarrow> parser \<Rightarrow> (bool \<times> node_builder) parsing) \<Rightarrow> bool" where
  "rounds ua S body \<longleftrightarrow> (\<forall>i b p. holds ua i b p \<longrightarrow> in_scope S p \<longrightarrow>
     (\<exists>again b' p'. body b p = Some ((again, b'), p') \<and> holds ua i b' p' \<and> frame p p'
        \<and> (again \<longrightarrow> parser_position p < parser_position p')))"

lemma roundsI:
  assumes "\<And>i b p. holds ua i b p \<Longrightarrow> in_scope S p \<Longrightarrow> \<exists>again b' p'. body b p = Some ((again, b'), p') \<and> holds ua i b' p'
    \<and> frame p p' \<and> (again \<longrightarrow> parser_position p < parser_position p')"
  shows "rounds ua S body"
  using assms unfolding rounds_def by blast

lemma remaining_less:
  assumes "frame p q" "parser_position p < parser_position q" "parser_ok ua q"
  shows "text_length (parser_snapshot q) - parser_position q < text_length (parser_snapshot p) - parser_position p"
proof -
  have "parser_position q \<le> text_length (parser_snapshot p)"
    using boundary_le [OF parser_ok_wf(2) [OF assms(3)]] assms(1) by (simp add: frame_def)
  with assms(1,2) show ?thesis by (simp add: frame_def)
qed

lemma keeps_loop:
  assumes "rounds ua S body"
  shows "keeps ua S (loop_step body)"
proof (rule keepsI)
  fix i b p assume "holds ua i b p" "in_scope S p"
  then show "\<exists>b' p'. loop_step body b p = Some (b', p') \<and> holds ua i b' p' \<and> frame p p'"
  proof (induction "text_length (parser_snapshot p) - parser_position p" arbitrary: b p rule: less_induct)
    case less
    from assms less.prems obtain again b1 p1 where 1: "body b p = Some ((again, b1), p1)" "holds ua i b1 p1" "frame p p1"
      "again \<longrightarrow> parser_position p < parser_position p1" unfolding rounds_def by blast
    note eq = loop_step.simps [of body b p]
    show ?case
    proof (cases again)
      case False
      with 1 show ?thesis by (auto simp: eq)
    next
      case True
      with 1 have "text_length (parser_snapshot p1) - parser_position p1 < text_length (parser_snapshot p) - parser_position p"
        by (intro remaining_less [OF 1(3) _ holds_ok [OF 1(2)]]) simp
      from less.hyps [OF this 1(2) frame_scope [OF less.prems(2) 1(3)]] obtain b' p'
        where "loop_step body b1 p1 = Some (b', p')" "holds ua i b' p'" "frame p1 p'" by blast
      with True 1 frame_trans [OF 1(3)] show ?thesis by (auto simp: eq)
    qed
  qed
qed

text \<open>
  A loop whose body keeps an invariant and always asks for one more round does not return; \<open>loop_rounds\<close>
  are its first rounds, which do.
\<close>

primrec loop_rounds :: "(node_builder \<Rightarrow> parser \<Rightarrow> (bool \<times> node_builder) parsing) \<Rightarrow> nat \<Rightarrow> node_builder \<Rightarrow> parser
    \<Rightarrow> (bool \<times> node_builder) parsing" where
  "loop_rounds body 0 b p = Some ((True, b), p)"
| "loop_rounds body (Suc k) b p = do {
     ((again, b'), p') \<leftarrow> body b p;
     (if again then loop_rounds body k b' p' else Some ((False, b'), p'))
   }"

lemma loop_diverges:
  assumes "\<And>b p. I b p \<Longrightarrow> \<exists>b' p'. body b p = Some ((True, b'), p') \<and> I b' p'" "I b p"
  shows "loop_step body b p = None"
proof (rule ccontr)
  assume "loop_step body b p \<noteq> None"
  then obtain x where "loop_step body b p = Some x" by blast
  then have "body = body \<longrightarrow> \<not> I b p"
  proof (rule loop_step.raw_induct [where P = "\<lambda>f b p _. f = body \<longrightarrow> \<not> I b p", rotated])
    fix loop f b p x
    assume IH: "\<And>f b p y. loop f b p = Some y \<Longrightarrow> f = body \<longrightarrow> \<not> I b p"
      and run: "f b p \<bind> (\<lambda>((again, b'), p'). if again then loop f b' p' else Some (b', p')) = Some x"
    show "f = body \<longrightarrow> \<not> I b p"
    proof (intro impI notI)
      assume "f = body" "I b p"
      with assms(1) [of b p] obtain b' p' where "f b p = Some ((True, b'), p')" "I b' p'" by blast
      with run IH [of f b' p' x] \<open>f = body\<close> show False by simp
    qed
  qed
  then have "\<not> I b p" by simp
  with assms(2) show False by blast
qed

lemma loop_rounds_continue:
  assumes "\<And>b p. I b p \<Longrightarrow> \<exists>b' p'. body b p = Some ((True, b'), p') \<and> I b' p'" "I b p"
  shows "\<exists>b' p'. loop_rounds body k b p = Some ((True, b'), p') \<and> I b' p'"
  using assms(2)
proof (induction k arbitrary: b p)
  case (Suc k)
  from assms(1) [OF Suc.prems] obtain b' p' where "body b p = Some ((True, b'), p')" "I b' p'" by blast
  with Suc.IH show ?case by fastforce
qed simp

definition while_round :: "boundary_test \<Rightarrow> step list \<Rightarrow> node_builder \<Rightarrow> parser \<Rightarrow> (bool \<times> node_builder) parsing" where
  "while_round test ss b p = do {
     (t, p1) \<leftarrow> test p;
     (if \<not> t then Some ((False, b), p1)
      else do { (b', p2) \<leftarrow> run_steps ss b p1; Some ((True, b'), p2) })
   }"

lemma rounds_while:
  assumes "parser_test ua S test D" "list_all (keeps ua S) ss" "takes ua S D (run_steps ss)"
  shows "rounds ua S (while_round test ss)"
proof (rule roundsI)
  fix i b p assume h: "holds ua i b p" and sc: "in_scope S p"
  from testE [OF assms(1) holds_ok [OF h] sc] obtain p1 where 1: "test p = Some (at_place D p, p1)" "advanced ua p p1 []" .
  note h1 = holds_same [OF h 1(2)] and fr = advanced_frame [OF 1(2) holds_ok [OF h]]
  have same: "parser_position p1 = parser_position p" "parser_snapshot p1 = parser_snapshot p" using 1(2) by (auto simp: advanced_def)
  from keepsE [OF keeps_run_steps [OF assms(2)] h1 frame_scope [OF sc fr]] obtain b' p2
    where 2: "run_steps ss b p1 = Some (b', p2)" "holds ua i b' p2" "frame p1 p2" .
  show "\<exists>again b' p'. while_round test ss b p = Some ((again, b'), p') \<and> holds ua i b' p'
      \<and> frame p p' \<and> (again \<longrightarrow> parser_position p < parser_position p')"
  proof (cases "at_place D p")
    case False
    with 1 h1 fr show ?thesis by (auto simp: while_round_def)
  next
    case True
    with takesD [OF assms(3) h1 frame_scope [OF sc fr] _ 2(1)] same 1 2 frame_trans [OF fr 2(3)] show ?thesis
      by (auto simp: while_round_def)
  qed
qed

subsection \<open>Nesting\<close>

definition nested :: "unicode_alphanumeric \<Rightarrow> (parser \<Rightarrow> 'a parsing) \<Rightarrow> (parser \<Rightarrow> 'a parsing) \<Rightarrow> parser \<Rightarrow> 'a parsing" where
  "nested ua inner limit p = do {
     (entered, p1) \<leftarrow> try_enter_syntax_nesting ua p;
     (if \<not> entered then limit p1
      else do {
        (x, p2) \<leftarrow> inner p1;
        p3 \<leftarrow> leave_syntax_nesting p2;
        Some (x, p3)
      })
   }"

text \<open>The scope inside a production that has entered one more level.\<close>

definition within :: "scope \<Rightarrow> scope" where
  "within S = (\<lambda>s d. d < max_syntax_nesting_depth \<longrightarrow> S s (Suc d))"

lemma nested_cases:
  assumes "parser_ok ua p"
  obtains p1 where "syntax_nesting_depth p < max_syntax_nesting_depth" "parser_ok ua p1" "parser_position p1 = parser_position p"
      "parser_snapshot p1 = parser_snapshot p" "syntax_nesting_depth p1 = Suc (syntax_nesting_depth p)"
      "nested ua inner limit p = do { (x, p2) \<leftarrow> inner p1; p3 \<leftarrow> leave_syntax_nesting p2; Some (x, p3) }"
  | p1 where "\<not> syntax_nesting_depth p < max_syntax_nesting_depth" "advanced ua p p1 []" "nested ua inner limit p = limit p1"
proof -
  from try_enter_spec [OF assms] obtain p1 where e: "try_enter_syntax_nesting ua p
      = Some (syntax_nesting_depth p < max_syntax_nesting_depth, p1)" "parser_ok ua p1" "parser_position p1 = parser_position p"
    "syntax_nesting_depth p1 = (if syntax_nesting_depth p < max_syntax_nesting_depth
        then syntax_nesting_depth p + 1 else syntax_nesting_depth p)" "parser_snapshot p1 = parser_snapshot p" by blast
  show ?thesis
  proof (cases "syntax_nesting_depth p < max_syntax_nesting_depth")
    case True
    with e show ?thesis by (intro that(1) [of p1]) (simp_all add: nested_def)
  next
    case False
    with e show ?thesis by (intro that(2) [of p1]) (simp_all add: nested_def advanced_def)
  qed
qed

lemma leave_entered:
  assumes "parser_ok ua p" "syntax_nesting_depth p = Suc d"
  obtains p' where "leave_syntax_nesting p = Some p'" "parser_ok ua p'" "parser_snapshot p' = parser_snapshot p"
    "parser_position p' = parser_position p" "syntax_nesting_depth p' = d"
  using assms by (auto simp: leave_spec parser_ok_def)

lemma production_nested:
  assumes "production ua S inner" "production ua everywhere limit"
  shows "production ua (within S) (nested ua inner limit)"
proof (rule productionI)
  fix p assume ok: "parser_ok ua p" and sc: "in_scope (within S) p"
  show "\<exists>n p'. nested ua inner limit p = Some (n, p') \<and> spans ua (parser_position p) n p' \<and> frame p p'"
  proof (rule nested_cases [OF ok, of inner limit])
    fix p1 assume 1: "syntax_nesting_depth p < max_syntax_nesting_depth" "parser_ok ua p1" "parser_position p1 = parser_position p"
      "parser_snapshot p1 = parser_snapshot p" "syntax_nesting_depth p1 = Suc (syntax_nesting_depth p)"
      "nested ua inner limit p = do { (x, p2) \<leftarrow> inner p1; p3 \<leftarrow> leave_syntax_nesting p2; Some (x, p3) }"
    then have "in_scope S p1" using sc by (simp add: within_def)
    from productionE [OF assms(1) 1(2) this] obtain n p2 where 2: "inner p1 = Some (n, p2)" "spans ua (parser_position p1) n p2" "frame p1 p2" .
    then have "syntax_nesting_depth p2 = Suc (syntax_nesting_depth p)" using 1(5) by (simp add: frame_def)
    from leave_entered [OF spans_ok [OF 2(2)] this] obtain p3 where 3: "leave_syntax_nesting p2 = Some p3" "parser_ok ua p3"
      "parser_snapshot p3 = parser_snapshot p2" "parser_position p3 = parser_position p2" "syntax_nesting_depth p3 = syntax_nesting_depth p" .
    have "spans ua (parser_position p) n p3" "frame p p3" using 1 2 3 by (auto simp: spans_def frame_def)
    with 1(6) 2(1) 3(1) show ?thesis by auto
  next
    fix p1 assume 1: "advanced ua p p1 []" "nested ua inner limit p = limit p1"
    then have p1: "parser_ok ua p1" "parser_position p1 = parser_position p" by (auto simp: advanced_def)
    from productionE [OF assms(2) p1(1) in_everywhere] obtain n p' where "limit p1 = Some (n, p')"
      "spans ua (parser_position p1) n p'" "frame p1 p'" .
    with 1 p1 frame_trans [OF advanced_frame [OF 1(1) ok]] show ?thesis by auto
  qed
qed

lemma takes_nested:
  assumes "takes_node ua S C inner" "takes_node ua everywhere C limit" "production ua S inner"
  shows "takes_node ua (within S) C (nested ua inner limit)"
proof (rule takes_nodeI)
  fix p x p' assume ok: "parser_ok ua p" and sc: "in_scope (within S) p" and c: "at_place C p"
    and run: "nested ua inner limit p = Some (x, p')"
  show "parser_position p < parser_position p'"
  proof (rule nested_cases [OF ok, of inner limit])
    fix p1 assume 1: "syntax_nesting_depth p < max_syntax_nesting_depth" "parser_ok ua p1" "parser_position p1 = parser_position p"
      "parser_snapshot p1 = parser_snapshot p" "syntax_nesting_depth p1 = Suc (syntax_nesting_depth p)"
      "nested ua inner limit p = do { (x, p2) \<leftarrow> inner p1; p3 \<leftarrow> leave_syntax_nesting p2; Some (x, p3) }"
    with run obtain p2 where 2: "inner p1 = Some (x, p2)" "leave_syntax_nesting p2 = Some p'" by (auto simp: run_simps)
    from 1 sc have "in_scope S p1" by (simp add: within_def)
    from takes_nodeD [OF assms(1) 1(2) this _ 2(1)] 1 c have "parser_position p < parser_position p2" by simp
    moreover have "parser_position p' = parser_position p2" using 2(2) by (auto simp: leave_spec split: if_splits)
    ultimately show ?thesis by simp
  next
    fix p1 assume 1: "advanced ua p p1 []" "nested ua inner limit p = limit p1"
    then have "parser_ok ua p1" "parser_position p1 = parser_position p" "parser_snapshot p1 = parser_snapshot p"
      by (auto simp: advanced_def)
    with takes_nodeD [OF assms(2) _ in_everywhere, of p1 x p'] c run 1(2) show ?thesis by simp
  qed
qed

end
