(* ===== verification/Parser_Patterns.thy ===== *)
theory Parser_Patterns
  imports Parser_Progress
begin

text \<open>
  Patterns (\<open>crates/bray-parser/src/parser/pattern.rs\<close>, nodes in \<open>crates/bray-syntax/src/syntax/pattern.rs\<close>):
  bindings, literals, nullable, box, path, payload, product, parenthesized and array patterns and the
  alternatives of case patterns. The grammar is recursive through \<open>parse_pattern_primary_until\<close>, which
  enters one nesting level per pattern; here that function is a parameter \<open>primary\<close> of the others, and
  the recursion is closed at the end with a number of levels. The parser stops at 128 levels, so 129
  are always enough.

  The lemmas show that every pattern parser returns on every text and for every boundary test and loses
  no token, and that the loops over alternatives, parenthesized patterns and entries end because every
  round takes a token.
\<close>

subsection \<open>Contexts and nodes\<close>

datatype pattern_context = Irrefutable | Case

datatype pattern_entry_context = Array | Payload | Product

text \<open>
  The enums \<open>PatternNode\<close> and \<open>PatternBuilder\<close> wrap the two typed nodes; the variant is the kind of the
  node. A match on the other variant is \<open>unreachable!()\<close>, a panic.
\<close>

fun pattern_kind :: "pattern_context \<Rightarrow> syntax_kind" where
  "pattern_kind Irrefutable = IrrefutablePattern"
| "pattern_kind Case = CasePattern"

fun pattern_source_slot :: "pattern_context \<Rightarrow> string" where
  "pattern_source_slot Irrefutable = ''irrefutable_pattern.source''"
| "pattern_source_slot Case = ''case_pattern.source''"

fun pattern_entry_kind :: "pattern_context \<Rightarrow> syntax_kind" where
  "pattern_entry_kind Irrefutable = IrrefutablePatternEntry"
| "pattern_entry_kind Case = CasePatternEntry"

fun pattern_entry_source_slot :: "pattern_context \<Rightarrow> string" where
  "pattern_entry_source_slot Irrefutable = ''irrefutable_pattern_entry.source''"
| "pattern_entry_source_slot Case = ''case_pattern_entry.source''"

type_synonym pattern_parser = "pattern_context \<Rightarrow> boundary_test \<Rightarrow> parser \<Rightarrow> node_syntax parsing"

definition pattern_node :: "unicode_alphanumeric \<Rightarrow> pattern_context \<Rightarrow> step list \<Rightarrow> parser \<Rightarrow> node_syntax parsing" where
  "pattern_node ua context = parse_node ua (pattern_source_slot context) (pattern_kind context)"

definition pattern_entry_node :: "unicode_alphanumeric \<Rightarrow> pattern_context \<Rightarrow> step list \<Rightarrow> parser \<Rightarrow> node_syntax parsing" where
  "pattern_entry_node ua context = parse_node ua (pattern_entry_source_slot context) (pattern_entry_kind context)"

definition as_variant :: "syntax_kind \<Rightarrow> (parser \<Rightarrow> node_syntax parsing) \<Rightarrow> parser \<Rightarrow> node_syntax parsing" where
  "as_variant kind f p = do {
     (n, p') \<leftarrow> f p;
     assert_run (node_kind (syn_node n) = kind);
     Some (n, p')
   }"

definition push_pattern :: "pattern_context \<Rightarrow> (parser \<Rightarrow> node_syntax parsing) \<Rightarrow> step" where
  "push_pattern context f = child_into (as_variant (pattern_kind context) f)"

definition push_entry :: "pattern_context \<Rightarrow> (parser \<Rightarrow> node_syntax parsing) \<Rightarrow> step" where
  "push_entry context f = child_into (as_variant (pattern_entry_kind context) f)"

subsection \<open>Boundaries\<close>

definition at_pattern_entry_sequence_hard_boundary :: "syntax_kind \<Rightarrow> bool" where
  "at_pattern_entry_sequence_hard_boundary kind \<longleftrightarrow> kind \<in> {PipeToken, CloseParenToken, CloseBracketToken, CloseBraceToken,
     ColonToken, EqualsToken, SemicolonToken}"

definition at_pattern_hard_boundary :: "syntax_kind \<Rightarrow> bool" where
  "at_pattern_hard_boundary kind \<longleftrightarrow> kind = CommaToken \<or> kind = EndOfFileToken
     \<or> at_pattern_entry_sequence_hard_boundary kind"

definition at_parenthesized_pattern_boundary :: "unicode_alphanumeric \<Rightarrow> boundary_test \<Rightarrow> boundary_test" where
  "at_parenthesized_pattern_boundary ua at_boundary =
     or_test (parser_at ua CommaToken) (or_test (parser_at ua CloseParenToken) at_boundary)"

definition at_pattern_entry_sequence_boundary ::
    "unicode_alphanumeric \<Rightarrow> syntax_kind \<Rightarrow> boundary_test \<Rightarrow> boundary_test" where
  "at_pattern_entry_sequence_boundary ua close_kind at_boundary =
     or_test (parser_at ua close_kind) (or_test (parser_at ua EndOfFileToken)
       (or_test at_boundary (peek_is ua at_pattern_entry_sequence_hard_boundary)))"

definition at_pattern_recovery_stop :: "unicode_alphanumeric \<Rightarrow> boundary_test \<Rightarrow> boundary_test" where
  "at_pattern_recovery_stop ua at_boundary = or_test at_boundary (peek_is ua at_pattern_hard_boundary)"

subsection \<open>Patterns without nested patterns\<close>

definition missing_pattern :: "unicode_alphanumeric \<Rightarrow> pattern_context \<Rightarrow> parser \<Rightarrow> node_syntax parsing" where
  "missing_pattern ua context = pattern_node ua context [expect_into ua IdentifierToken]"

definition parse_discard_pattern :: "unicode_alphanumeric \<Rightarrow> pattern_context \<Rightarrow> parser \<Rightarrow> node_syntax parsing" where
  "parse_discard_pattern ua context = pattern_node ua context [expect_into ua UnderscoreToken]"

definition parse_mutable_binding_pattern :: "unicode_alphanumeric \<Rightarrow> pattern_context \<Rightarrow> parser \<Rightarrow> node_syntax parsing" where
  "parse_mutable_binding_pattern ua context =
     pattern_node ua context [expect_into ua MutKeyword, expect_into ua IdentifierToken]"

definition parse_literal_pattern :: "unicode_alphanumeric \<Rightarrow> pattern_context \<Rightarrow> parser \<Rightarrow> node_syntax parsing" where
  "parse_literal_pattern ua context = pattern_node ua context [token_of_into is_pattern_literal (parser_consume ua)]"

definition parse_nullable_absent_pattern :: "unicode_alphanumeric \<Rightarrow> pattern_context \<Rightarrow> parser \<Rightarrow> node_syntax parsing" where
  "parse_nullable_absent_pattern ua context = pattern_node ua context [expect_into ua NoneKeyword]"

definition parse_remaining_pattern :: "unicode_alphanumeric \<Rightarrow> pattern_context \<Rightarrow> parser \<Rightarrow> node_syntax parsing" where
  "parse_remaining_pattern ua context = pattern_node ua context [expect_into ua DotDotToken]"

definition parse_unknown_pattern ::
    "unicode_alphanumeric \<Rightarrow> pattern_context \<Rightarrow> boundary_test \<Rightarrow> parser \<Rightarrow> node_syntax parsing" where
  "parse_unknown_pattern ua context at_boundary = pattern_node ua context [
     recover_step (recover_current_and_until_predicate ua node_push_skipped_tokens (at_pattern_recovery_stop ua at_boundary))]"

definition recover_pattern_nesting_limit ::
    "unicode_alphanumeric \<Rightarrow> pattern_context \<Rightarrow> boundary_test \<Rightarrow> parser \<Rightarrow> node_syntax parsing" where
  "recover_pattern_nesting_limit ua context at_boundary = pattern_node ua context [
     recover_step (recover_until_predicate ua node_push_skipped_tokens (at_pattern_recovery_stop ua at_boundary))]"

subsection \<open>Whole patterns\<close>

definition parse_irrefutable_pattern_until :: "pattern_parser \<Rightarrow> boundary_test \<Rightarrow> parser \<Rightarrow> node_syntax parsing" where
  "parse_irrefutable_pattern_until primary at_boundary = as_variant IrrefutablePattern (primary Irrefutable at_boundary)"

definition parse_case_pattern_primary_until ::
    "unicode_alphanumeric \<Rightarrow> pattern_parser \<Rightarrow> boundary_test \<Rightarrow> parser \<Rightarrow> node_syntax parsing" where
  "parse_case_pattern_primary_until ua primary at_boundary =
     as_variant CasePattern (primary Case (or_test (parser_at ua PipeToken) at_boundary))"

definition case_alternative_round ::
    "unicode_alphanumeric \<Rightarrow> pattern_parser \<Rightarrow> boundary_test \<Rightarrow> node_builder \<Rightarrow> parser \<Rightarrow> (bool \<times> node_builder) parsing" where
  "case_alternative_round ua primary at_boundary = while_round (parser_at ua PipeToken) [
     expect_into ua PipeToken,
     child_into (parse_case_pattern_primary_until ua primary at_boundary)]"

definition parse_case_pattern_until ::
    "unicode_alphanumeric \<Rightarrow> pattern_parser \<Rightarrow> boundary_test \<Rightarrow> parser \<Rightarrow> node_syntax parsing" where
  "parse_case_pattern_until ua primary at_boundary p = do {
     (first, p1) \<leftarrow> parse_case_pattern_primary_until ua primary at_boundary p;
     (pipe, p2) \<leftarrow> parser_at ua PipeToken p1;
     (if \<not> pipe then Some (first, p2)
      else do {
        r \<leftarrow> syn_full_range first;
        b \<leftarrow> node_builder_new ''case_pattern.source'' (parser_snapshot p2) (tr_start r);
        (b', p3) \<leftarrow> loop_step (case_alternative_round ua primary at_boundary) (push_child first b) p2;
        n \<leftarrow> node_build CasePattern b';
        Some (n, p3)
      })
   }"

definition parse_pattern_until ::
    "unicode_alphanumeric \<Rightarrow> pattern_parser \<Rightarrow> pattern_context \<Rightarrow> boundary_test \<Rightarrow> parser \<Rightarrow> node_syntax parsing" where
  "parse_pattern_until ua primary context at_boundary = (case context of
     Irrefutable \<Rightarrow> parse_irrefutable_pattern_until primary at_boundary
   | Case \<Rightarrow> parse_case_pattern_until ua primary at_boundary)"

subsection \<open>Entries\<close>

definition named_pattern_entry_steps ::
    "unicode_alphanumeric \<Rightarrow> pattern_parser \<Rightarrow> pattern_context \<Rightarrow> boundary_test \<Rightarrow> step list" where
  "named_pattern_entry_steps ua primary context at_boundary = [
     expect_into ua IdentifierToken,
     expect_into ua EqualsToken,
     push_pattern context (parse_pattern_until ua primary context at_boundary)]"

definition product_pattern_entry_steps ::
    "unicode_alphanumeric \<Rightarrow> pattern_parser \<Rightarrow> pattern_context \<Rightarrow> boundary_test \<Rightarrow> step list" where
  "product_pattern_entry_steps ua primary context at_boundary = [
     if_step (not_test (parser_at ua IdentifierToken))
       [recover_step (recover_current_and_until_predicate ua node_push_skipped_tokens at_boundary)]
       [expect_into ua IdentifierToken,
        when_step (parser_at ua EqualsToken) [
          expect_into ua EqualsToken,
          push_pattern context (parse_pattern_until ua primary context at_boundary)]]]"

definition pattern_entry_steps ::
    "unicode_alphanumeric \<Rightarrow> pattern_parser \<Rightarrow> pattern_context \<Rightarrow> pattern_entry_context \<Rightarrow> boundary_test \<Rightarrow> step list" where
  "pattern_entry_steps ua primary context entry_context at_boundary = (case entry_context of
     Product \<Rightarrow> product_pattern_entry_steps ua primary context at_boundary
   | Payload \<Rightarrow> [if_step (and_test (parser_at ua IdentifierToken) (parser_next_is ua 1 EqualsToken))
       (named_pattern_entry_steps ua primary context at_boundary)
       [push_pattern context (parse_pattern_until ua primary context at_boundary)]]
   | Array \<Rightarrow> [push_pattern context (parse_pattern_until ua primary context at_boundary)])"

definition parse_pattern_entry ::
    "unicode_alphanumeric \<Rightarrow> pattern_parser \<Rightarrow> pattern_context \<Rightarrow> pattern_entry_context \<Rightarrow> boundary_test
     \<Rightarrow> parser \<Rightarrow> node_syntax parsing" where
  "parse_pattern_entry ua primary context entry_context at_boundary = pattern_entry_node ua context [
     if_step (parser_at ua DotDotToken) [expect_into ua DotDotToken]
       (pattern_entry_steps ua primary context entry_context at_boundary)]"

definition pattern_entry_round ::
    "unicode_alphanumeric \<Rightarrow> pattern_parser \<Rightarrow> pattern_context \<Rightarrow> pattern_entry_context \<Rightarrow> syntax_kind \<Rightarrow> boundary_test
     \<Rightarrow> node_builder \<Rightarrow> parser \<Rightarrow> (bool \<times> node_builder) parsing" where
  "pattern_entry_round ua primary context entry_context close_kind at_boundary b p = do {
     (stop, p1) \<leftarrow> at_pattern_entry_sequence_boundary ua close_kind at_boundary p;
     (if stop then Some ((False, b), p1)
      else do {
        (b1, p2) \<leftarrow> push_entry context (parse_pattern_entry ua primary context entry_context
          (or_test (parser_at ua close_kind) (or_test (parser_at ua CommaToken) at_boundary))) b p1;
        (comma, p3) \<leftarrow> parser_at ua CommaToken p2;
        (if comma then do { (b2, p4) \<leftarrow> expect_into ua CommaToken b1 p3; Some ((True, b2), p4) }
         else do {
           (stop, p4) \<leftarrow> at_pattern_entry_sequence_boundary ua close_kind at_boundary p3;
           (if stop then Some ((False, b1), p4)
            else do { (b2, p5) \<leftarrow> expect_into ua CommaToken b1 p4; Some ((True, b2), p5) })
         })
      })
   }"

definition parse_pattern_entries ::
    "unicode_alphanumeric \<Rightarrow> pattern_parser \<Rightarrow> pattern_context \<Rightarrow> pattern_entry_context \<Rightarrow> syntax_kind \<Rightarrow> boundary_test
     \<Rightarrow> step" where
  "parse_pattern_entries ua primary context entry_context close_kind at_boundary =
     loop_step (pattern_entry_round ua primary context entry_context close_kind at_boundary)"

definition payload_pattern_body ::
    "unicode_alphanumeric \<Rightarrow> pattern_parser \<Rightarrow> pattern_context \<Rightarrow> boundary_test \<Rightarrow> step list" where
  "payload_pattern_body ua primary context at_boundary = [
     expect_into ua OpenParenToken,
     parse_pattern_entries ua primary context Payload CloseParenToken at_boundary,
     expect_into ua CloseParenToken]"

definition product_pattern_body ::
    "unicode_alphanumeric \<Rightarrow> pattern_parser \<Rightarrow> pattern_context \<Rightarrow> boundary_test \<Rightarrow> step list" where
  "product_pattern_body ua primary context at_boundary = [
     expect_into ua OpenBraceToken,
     parse_pattern_entries ua primary context Product CloseBraceToken at_boundary,
     expect_into ua CloseBraceToken]"

subsection \<open>Patterns with nested patterns\<close>

definition parse_nullable_present_pattern ::
    "unicode_alphanumeric \<Rightarrow> pattern_parser \<Rightarrow> pattern_context \<Rightarrow> boundary_test \<Rightarrow> parser \<Rightarrow> node_syntax parsing" where
  "parse_nullable_present_pattern ua primary context at_boundary = pattern_node ua context [
     expect_into ua QuestionToken,
     push_pattern context (primary context at_boundary)]"

definition parse_box_pattern ::
    "unicode_alphanumeric \<Rightarrow> pattern_parser \<Rightarrow> pattern_context \<Rightarrow> boundary_test \<Rightarrow> parser \<Rightarrow> node_syntax parsing" where
  "parse_box_pattern ua primary context at_boundary = pattern_node ua context [
     expect_into ua BoxKeyword,
     expect_into ua OpenParenToken,
     push_pattern context (parse_pattern_until ua primary context (or_test (parser_at ua CloseParenToken) at_boundary)),
     expect_into ua CloseParenToken]"

definition parse_leading_dot_pattern ::
    "unicode_alphanumeric \<Rightarrow> pattern_parser \<Rightarrow> pattern_context \<Rightarrow> boundary_test \<Rightarrow> parser \<Rightarrow> node_syntax parsing" where
  "parse_leading_dot_pattern ua primary context at_boundary = pattern_node ua context [
     expect_into ua DotToken,
     expect_into ua IdentifierToken,
     when_step (parser_at ua OpenParenToken) (payload_pattern_body ua primary context at_boundary)]"

definition parse_expected_type_product_pattern ::
    "unicode_alphanumeric \<Rightarrow> pattern_parser \<Rightarrow> pattern_context \<Rightarrow> boundary_test \<Rightarrow> parser \<Rightarrow> node_syntax parsing" where
  "parse_expected_type_product_pattern ua primary context at_boundary =
     pattern_node ua context (product_pattern_body ua primary context at_boundary)"

definition product_pattern_continuation :: "syntax_kind \<Rightarrow> bool" where
  "product_pattern_continuation kind \<longleftrightarrow> kind \<in> {OpenBraceToken, WhenKeyword, PipeToken, AmpersandAmpersandToken,
     PipePipeToken, CloseParenToken, CloseBracketToken, CommaToken}"

definition product_pattern_precedes_continuation ::
    "unicode_alphanumeric \<Rightarrow> pattern_parser \<Rightarrow> pattern_context \<Rightarrow> boundary_test" where
  "product_pattern_precedes_continuation ua primary context = scan_ahead (\<lambda>q. do {
     (n, q1) \<leftarrow> parse_expected_type_product_pattern ua primary context (\<lambda>q. Some (False, q)) q;
     recovered \<leftarrow> contains_recovery (syn_node n) (syn_start n);
     (if recovered then Some (False, q1) else peek_is ua product_pattern_continuation q1)
   })"

definition parse_path_pattern ::
    "unicode_alphanumeric \<Rightarrow> pattern_parser \<Rightarrow> pattern_context \<Rightarrow> boundary_test \<Rightarrow> parser \<Rightarrow> node_syntax parsing" where
  "parse_path_pattern ua primary context at_boundary = pattern_node ua context [
     path_into (parse_path ua),
     if_step (and_test (not_test at_boundary) (parser_at ua OpenParenToken))
       (payload_pattern_body ua primary context at_boundary)
       [when_step (and_test (parser_at ua OpenBraceToken)
          (or_test (not_test at_boundary) (product_pattern_precedes_continuation ua primary context)))
          (product_pattern_body ua primary context at_boundary)]]"

definition parenthesized_pattern_round ::
    "unicode_alphanumeric \<Rightarrow> pattern_parser \<Rightarrow> pattern_context \<Rightarrow> boundary_test
     \<Rightarrow> node_builder \<Rightarrow> parser \<Rightarrow> (bool \<times> node_builder) parsing" where
  "parenthesized_pattern_round ua primary context at_boundary b p = do {
     (comma, p1) \<leftarrow> parser_at ua CommaToken p;
     (if \<not> comma then Some ((False, b), p1)
      else do {
        (b1, p2) \<leftarrow> expect_into ua CommaToken b p1;
        (close, p3) \<leftarrow> parser_at ua CloseParenToken p2;
        (if close then Some ((False, b1), p3)
         else do {
           (b2, p4) \<leftarrow> push_pattern context
             (parse_pattern_until ua primary context (at_parenthesized_pattern_boundary ua at_boundary)) b1 p3;
           Some ((True, b2), p4)
         })
      })
   }"

definition parse_parenthesized_pattern ::
    "unicode_alphanumeric \<Rightarrow> pattern_parser \<Rightarrow> pattern_context \<Rightarrow> boundary_test \<Rightarrow> parser \<Rightarrow> node_syntax parsing" where
  "parse_parenthesized_pattern ua primary context at_boundary = pattern_node ua context [
     expect_into ua OpenParenToken,
     push_pattern context (parse_pattern_until ua primary context (at_parenthesized_pattern_boundary ua at_boundary)),
     loop_step (parenthesized_pattern_round ua primary context at_boundary),
     expect_into ua CloseParenToken]"

definition parse_array_pattern ::
    "unicode_alphanumeric \<Rightarrow> pattern_parser \<Rightarrow> pattern_context \<Rightarrow> boundary_test \<Rightarrow> parser \<Rightarrow> node_syntax parsing" where
  "parse_array_pattern ua primary context at_boundary = pattern_node ua context [
     expect_into ua OpenBracketToken,
     parse_pattern_entries ua primary context Array CloseBracketToken at_boundary,
     expect_into ua CloseBracketToken]"

subsection \<open>The recursion\<close>

definition pattern_of_kind ::
    "unicode_alphanumeric \<Rightarrow> pattern_parser \<Rightarrow> pattern_context \<Rightarrow> boundary_test \<Rightarrow> syntax_kind \<Rightarrow> parser \<Rightarrow> node_syntax parsing" where
  "pattern_of_kind ua primary context at_boundary kind =
     (if kind = UnderscoreToken then parse_discard_pattern ua context
      else if kind = MutKeyword then parse_mutable_binding_pattern ua context
      else if is_pattern_literal kind then parse_literal_pattern ua context
      else if kind = NoneKeyword then parse_nullable_absent_pattern ua context
      else if kind = QuestionToken then parse_nullable_present_pattern ua primary context at_boundary
      else if kind = BoxKeyword then parse_box_pattern ua primary context at_boundary
      else if kind = DotToken then parse_leading_dot_pattern ua primary context at_boundary
      else if kind = IdentifierToken then parse_path_pattern ua primary context at_boundary
      else if kind = OpenBraceToken then parse_expected_type_product_pattern ua primary context at_boundary
      else if kind = OpenParenToken then parse_parenthesized_pattern ua primary context at_boundary
      else if kind = OpenBracketToken then parse_array_pattern ua primary context at_boundary
      else if kind = DotDotToken then parse_remaining_pattern ua context
      else parse_unknown_pattern ua context at_boundary)"

definition parse_entered_pattern ::
    "unicode_alphanumeric \<Rightarrow> pattern_parser \<Rightarrow> pattern_context \<Rightarrow> boundary_test \<Rightarrow> parser \<Rightarrow> node_syntax parsing" where
  "parse_entered_pattern ua primary context at_boundary p = do {
     (t, p1) \<leftarrow> parser_peek ua p;
     pattern_of_kind ua primary context at_boundary (tok_kind t) p1
   }"

definition pattern_primary :: "unicode_alphanumeric \<Rightarrow> pattern_parser \<Rightarrow> pattern_parser" where
  "pattern_primary ua primary context at_boundary p = do {
     (stop, p1) \<leftarrow> or_test (and_test (not_test (parser_at ua OpenBraceToken)) at_boundary)
       (peek_is ua at_pattern_hard_boundary) p;
     (if stop then missing_pattern ua context p1
      else nested ua (parse_entered_pattern ua primary context at_boundary)
        (recover_pattern_nesting_limit ua context at_boundary) p1)
   }"

primrec parse_pattern_primary_until :: "unicode_alphanumeric \<Rightarrow> nat \<Rightarrow> pattern_parser" where
  "parse_pattern_primary_until ua 0 = (\<lambda>context at_boundary p. None)"
| "parse_pattern_primary_until ua (Suc levels) = pattern_primary ua (parse_pattern_primary_until ua levels)"

subsection \<open>Variants of a node\<close>

definition of_kind :: "syntax_kind \<Rightarrow> (parser \<Rightarrow> node_syntax parsing) \<Rightarrow> bool" where
  "of_kind k f \<longleftrightarrow> (\<forall>p n p'. f p = Some (n, p') \<longrightarrow> node_kind (syn_node n) = k)"

lemma as_variant_same: "of_kind k f \<Longrightarrow> as_variant k f = f"
proof
  fix p assume "of_kind k f"
  then show "as_variant k f p = f p"
    by (cases "f p") (fastforce simp: as_variant_def of_kind_def assert_run_def)+
qed

lemma of_kind_parse_node: "of_kind k (parse_node ua slot k ss)"
  using parse_node_kind by (auto simp: of_kind_def)

lemma of_kind_pattern_node: "of_kind (pattern_kind context) (pattern_node ua context ss)"
  by (simp add: pattern_node_def of_kind_parse_node)

lemma pattern_kinds: "is_node (pattern_kind context)" "is_node (pattern_entry_kind context)"
  by (cases "context"; simp add: kind_simps)+

lemma production_pattern_node: "list_all (keeps ua S) ss \<Longrightarrow> production ua S (pattern_node ua context ss)"
  by (simp add: pattern_node_def production_parse_node pattern_kinds)

lemma takes_pattern_node:
  "takes ua S C s \<Longrightarrow> list_all (keeps ua S) (s # ss) \<Longrightarrow> takes_node ua S C (pattern_node ua context (s # ss))"
  unfolding pattern_node_def by (rule takes_parse_node [OF takes_steps]) simp_all

lemma spans_range:
  assumes "spans ua i n p"
  shows "i + node_full_width (syn_node n) = parser_position p" "parser_position p \<le> u32_max"
proof -
  from assms have s: "parser_ok ua p" "boundary (parser_snapshot p) i" "node_wf (syn_node n)"
    "accounts (parser_snapshot p) i (leaves (node_children (syn_node n))) (parser_position p)" by (auto simp: spans_def)
  note wf = parser_ok_wf [OF s(1)]
  from accounts_width [OF wf(1) s(2,4)] node_wfD [OF s(3)] wf(1)
  show "i + node_full_width (syn_node n) = parser_position p" "parser_position p \<le> u32_max"
    by (auto simp: elements_width_leaves snapshot_wf_def)
qed

lemma syn_full_range_spans:
  assumes "spans ua i n p"
  obtains r where "syn_full_range n = Some r" "tr_start r = i"
  using spans_range [OF assms] assms
  by (auto simp: syn_full_range_def full_range_from_width_def text_range_with_len_def text_size_checked_add_def spans_def)

subsection \<open>What the rest of the grammar relies on\<close>

text \<open>Where a pattern must take a token: at no hard boundary and at no boundary of the caller.\<close>

definition pattern_place :: "unicode_alphanumeric \<Rightarrow> place \<Rightarrow> place" where
  "pattern_place ua D = (\<lambda>s i. \<not> at_pattern_hard_boundary (kind_at ua s i) \<and> \<not> D s i)"

locale pattern_grammar =
  fixes ua :: unicode_alphanumeric and S :: scope and primary :: pattern_parser
  assumes primary_production: "parser_test ua everywhere at_boundary D \<Longrightarrow> production ua S (primary context at_boundary)"
    and primary_kind: "of_kind (pattern_kind context) (primary context at_boundary)"
    and primary_takes: "parser_test ua everywhere at_boundary D
      \<Longrightarrow> takes_node ua S (pattern_place ua D) (primary context at_boundary)"
begin

lemma case_primary: "parse_case_pattern_primary_until ua primary at_boundary = primary Case (or_test (parser_at ua PipeToken) at_boundary)"
  unfolding parse_case_pattern_primary_until_def using as_variant_same [OF primary_kind [of Case]] by simp

lemma irrefutable: "parse_irrefutable_pattern_until primary at_boundary = primary Irrefutable at_boundary"
  unfolding parse_irrefutable_pattern_until_def using as_variant_same [OF primary_kind [of Irrefutable]] by simp

lemma case_primary_production:
  assumes "parser_test ua everywhere at_boundary D"
  shows "production ua S (parse_case_pattern_primary_until ua primary at_boundary)"
  unfolding case_primary by (rule primary_production [OF test_or [OF test_at assms]])

lemma case_alternatives:
  assumes "parser_test ua everywhere at_boundary D"
  shows "rounds ua S (case_alternative_round ua primary at_boundary)"
  unfolding case_alternative_round_def
  by (rule rounds_while [OF test_at])
    (simp_all add: keeps_expect keeps_child case_primary_production [OF assms] takes_expect takes_steps kind_simps
      del: run_steps.simps)

lemma case_pattern_spec:
  assumes "parser_test ua everywhere at_boundary D" and ok: "parser_ok ua p" and sc: "in_scope S p"
  obtains n p1 m p' where "parse_case_pattern_primary_until ua primary at_boundary p = Some (n, p1)"
    "parse_case_pattern_until ua primary at_boundary p = Some (m, p')" "spans ua (parser_position p) m p'"
    "frame p p'" "parser_position p1 \<le> parser_position p'"
proof -
  from productionE [OF case_primary_production [OF assms(1)] ok sc] obtain n p1
    where 1: "parse_case_pattern_primary_until ua primary at_boundary p = Some (n, p1)"
      "spans ua (parser_position p) n p1" "frame p p1" .
  from at_adv [OF spans_ok [OF 1(2)], of PipeToken] obtain p2
    where 2: "parser_at ua PipeToken p1 = Some (tok_kind (ahead ua p1) = PipeToken, p2)" "advanced ua p1 p2 []" .
  have sp: "spans ua (parser_position p) n p2" using 1(2) 2(2) by (auto simp: spans_def advanced_def)
  note fr = frame_trans [OF 1(3) advanced_frame [OF 2(2) spans_ok [OF 1(2)]]]
  from syn_full_range_spans [OF sp] obtain r where r: "syn_full_range n = Some r" "tr_start r = parser_position p" .
  obtain b where b: "node_builder_new ''case_pattern.source'' (parser_snapshot p2) (parser_position p) = Some b"
    "nb_node b = builder_new" "nb_ok b" "nb_start b = parser_position p"
    by (auto simp: node_builder_new_def slot_set_def slot_new_def nb_ok_def)
  have "filled ua (parser_position p) (push_node (syn_node n) builder_new) p2"
    using filled_push_node [OF filled_new [OF ok] spans_advanced [OF sp fr]] sp by (simp add: spans_def)
  with b have h: "holds ua (parser_position p) (push_child n b) p2" by (simp add: holds_def push_child_def nb_ok_def)
  from keepsE [OF keeps_loop [OF case_alternatives [OF assms(1)]] h frame_scope [OF sc fr]] obtain b' p3
    where 3: "loop_step (case_alternative_round ua primary at_boundary) (push_child n b) p2 = Some (b', p3)"
      "holds ua (parser_position p) b' p3" "frame p2 p3" .
  have "is_node CasePattern" by (simp add: kind_simps)
  from node_build_spans [OF 3(2) this] obtain m where m: "node_build CasePattern b' = Some m" "spans ua (parser_position p) m p3" .
  show ?thesis
  proof (cases "tok_kind (ahead ua p1) = PipeToken")
    case True
    with 1 2 r b(1) 3 m frame_trans [OF fr 3(3)] show ?thesis
      by (intro that [OF 1(1), of m p3]) (auto simp: parse_case_pattern_until_def advanced_def frame_def)
  next
    case False
    with 1 2 sp fr show ?thesis
      by (intro that [OF 1(1), of n p2]) (auto simp: parse_case_pattern_until_def advanced_def)
  qed
qed

lemma case_pattern_production:
  assumes "parser_test ua everywhere at_boundary D"
  shows "production ua S (parse_case_pattern_until ua primary at_boundary)"
  by (rule productionI) (metis case_pattern_spec [OF assms])

lemma case_pattern_kind: "of_kind CasePattern (parse_case_pattern_until ua primary at_boundary)"
  using primary_kind [of Case] unfolding of_kind_def parse_case_pattern_until_def case_primary
  by (auto simp: run_simps node_build_def builder_build_def green_node_new_def assert_run_def split: if_splits)

lemma case_pattern_takes:
  assumes "parser_test ua everywhere at_boundary D"
  shows "takes_node ua S (pattern_place ua D) (parse_case_pattern_until ua primary at_boundary)"
proof (rule takes_nodeI)
  fix p x p' assume ok: "parser_ok ua p" and sc: "in_scope S p" and c: "at_place (pattern_place ua D) p"
    and run: "parse_case_pattern_until ua primary at_boundary p = Some (x, p')"
  note t = test_or [OF test_at assms, of PipeToken]
  have "at_place (pattern_place ua (\<lambda>s i. kind_at ua s i = PipeToken \<or> D s i)) p"
    using c by (auto simp: pattern_place_def at_pattern_hard_boundary_def at_pattern_entry_sequence_hard_boundary_def)
  moreover from case_pattern_spec [OF assms ok sc] obtain n p1 m q
    where 1: "parse_case_pattern_primary_until ua primary at_boundary p = Some (n, p1)"
      "parse_case_pattern_until ua primary at_boundary p = Some (m, q)" "parser_position p1 \<le> parser_position q" .
  ultimately have "parser_position p < parser_position p1"
    using takes_nodeD [OF primary_takes [OF t, of Case] ok sc, of n p1] by (simp add: case_primary)
  with 1 run show "parser_position p < parser_position p'" by simp
qed

lemma pattern_production:
  assumes "parser_test ua everywhere at_boundary D"
  shows "production ua S (parse_pattern_until ua primary context at_boundary)"
  using case_pattern_production [OF assms] primary_production [OF assms]
  by (cases "context") (simp_all add: parse_pattern_until_def irrefutable)

lemma pattern_variant: "of_kind (pattern_kind context) (parse_pattern_until ua primary context at_boundary)"
  using case_pattern_kind primary_kind [of Irrefutable]
  by (cases "context") (simp_all add: parse_pattern_until_def irrefutable)

lemma pattern_takes:
  assumes "parser_test ua everywhere at_boundary D"
  shows "takes_node ua S (pattern_place ua D) (parse_pattern_until ua primary context at_boundary)"
  using case_pattern_takes [OF assms] primary_takes [OF assms]
  by (cases "context") (simp_all add: parse_pattern_until_def irrefutable)

lemma pattern_child:
  assumes "parser_test ua everywhere at_boundary D"
  shows "keeps ua S (push_pattern context (parse_pattern_until ua primary context at_boundary))"
    "takes ua S (pattern_place ua D) (push_pattern context (parse_pattern_until ua primary context at_boundary))"
    "keeps ua S (push_pattern context (primary context at_boundary))"
  unfolding push_pattern_def as_variant_same [OF pattern_variant] as_variant_same [OF primary_kind]
  using pattern_production [OF assms] pattern_takes [OF assms] primary_production [OF assms]
  by (simp_all add: keeps_child takes_child)

text \<open>An entry takes a token unless a comma is ahead.\<close>

definition entry_place :: "syntax_kind \<Rightarrow> place \<Rightarrow> place" where
  "entry_place close_kind D = (\<lambda>s i. kind_at ua s i \<notin> {close_kind, EndOfFileToken} \<and> \<not> D s i
     \<and> \<not> at_pattern_entry_sequence_hard_boundary (kind_at ua s i))"

abbreviation entry_test :: "syntax_kind \<Rightarrow> boundary_test \<Rightarrow> boundary_test" where
  "entry_test close_kind at_boundary \<equiv> or_test (parser_at ua close_kind) (or_test (parser_at ua CommaToken) at_boundary)"

lemma test_entry:
  assumes "parser_test ua everywhere at_boundary D"
  shows "parser_test ua everywhere (entry_test close_kind at_boundary)
    (\<lambda>s i. kind_at ua s i = close_kind \<or> kind_at ua s i = CommaToken \<or> D s i)"
  by (rule test_or [OF test_at test_or [OF test_at assms]])

lemma entry_steps:
  assumes "parser_test ua everywhere at_boundary D"
  shows "list_all (keeps ua S) (pattern_entry_steps ua primary context entry_context at_boundary)"
  using test_observes [OF test_weaken [OF assms]] pattern_child [OF assms]
  by (cases entry_context)
    (simp_all add: pattern_entry_steps_def product_pattern_entry_steps_def named_pattern_entry_steps_def keeps_if keeps_when
      keeps_expect keeps_recover_current_and_until_predicate observes_at observes_not observes_and observes_next_is kind_simps)

lemma entry_production:
  assumes "parser_test ua everywhere at_boundary D"
  shows "production ua S (parse_pattern_entry ua primary context entry_context at_boundary)"
  unfolding parse_pattern_entry_def pattern_entry_node_def
  by (rule production_parse_node [OF pattern_kinds(2)])
    (use entry_steps [OF assms] in \<open>simp add: keeps_if keeps_expect observes_at kind_simps\<close>)

lemma entry_child:
  assumes "parser_test ua everywhere at_boundary D"
  shows "keeps ua S (push_entry context (parse_pattern_entry ua primary context entry_context at_boundary))"
proof -
  have "of_kind (pattern_entry_kind context) (parse_pattern_entry ua primary context entry_context at_boundary)"
    by (simp add: parse_pattern_entry_def pattern_entry_node_def of_kind_parse_node)
  from as_variant_same [OF this] show ?thesis
    by (simp add: push_entry_def keeps_child entry_production [OF assms])
qed

lemma entry_steps_take:
  assumes "parser_test ua everywhere at_boundary D"
    and C: "\<And>s i. C s i \<Longrightarrow> kind_at ua s i \<noteq> EndOfFileToken
      \<and> (entry_context = Product \<or> pattern_place ua D s i)"
  shows "takes ua S C (run_steps (pattern_entry_steps ua primary context entry_context at_boundary))"
proof -
  note obs = test_observes [OF test_weaken [OF assms(1)]]
  have p: "takes ua S C (push_pattern context (parse_pattern_until ua primary context at_boundary))"
    if "entry_context \<noteq> Product"
    using C that by (intro takes_sub [OF pattern_child(2) [OF assms(1)]]) blast
  show ?thesis
  proof (cases entry_context)
    case Array
    then show ?thesis
      using p pattern_child(1) [OF assms(1)] by (simp add: pattern_entry_steps_def takes_steps del: run_steps.simps)
  next
    case Payload
    have "takes ua S C (if_step (and_test (parser_at ua IdentifierToken) (parser_next_is ua 1 EqualsToken))
        (named_pattern_entry_steps ua primary context at_boundary)
        [push_pattern context (parse_pattern_until ua primary context at_boundary)])"
    proof (rule takes_if [OF test_and [OF test_at test_next_is]])
      show "takes ua S (\<lambda>s i. C s i \<and> kind_at ua s i = IdentifierToken \<and> tok_kind (strip_eof (upcoming ua s i 1)) = EqualsToken)
          (run_steps (named_pattern_entry_steps ua primary context at_boundary))"
        unfolding named_pattern_entry_steps_def
        by (rule takes_steps [OF takes_expect])
          (use pattern_child(1) [OF assms(1)] in \<open>simp_all add: keeps_expect kind_simps\<close>)
      show "takes ua S (\<lambda>s i. C s i \<and> \<not> (kind_at ua s i = IdentifierToken \<and> tok_kind (strip_eof (upcoming ua s i 1)) = EqualsToken))
          (run_steps [push_pattern context (parse_pattern_until ua primary context at_boundary)])"
        by (rule takes_steps [OF takes_sub [OF p]]) (use Payload pattern_child(1) [OF assms(1)] in simp_all)
    qed
    then show ?thesis
      using entry_steps [OF assms(1), of "context" entry_context] Payload
      by (simp add: pattern_entry_steps_def takes_steps del: run_steps.simps One_nat_def)
  next
    case Product
    have "takes ua S C (if_step (not_test (parser_at ua IdentifierToken))
       [recover_step (recover_current_and_until_predicate ua node_push_skipped_tokens at_boundary)]
       [expect_into ua IdentifierToken,
        when_step (parser_at ua EqualsToken) [
          expect_into ua EqualsToken,
          push_pattern context (parse_pattern_until ua primary context at_boundary)]])"
    proof (rule takes_if [OF test_not [OF test_at]])
      show "takes ua S (\<lambda>s i. C s i \<and> kind_at ua s i \<noteq> IdentifierToken)
          (run_steps [recover_step (recover_current_and_until_predicate ua node_push_skipped_tokens at_boundary)])"
        by (rule takes_steps [OF takes_recover_current_and_until_predicate [OF obs]])
          (use C in \<open>simp_all add: keeps_recover_current_and_until_predicate [OF obs]\<close>)
      show "takes ua S (\<lambda>s i. C s i \<and> \<not> kind_at ua s i \<noteq> IdentifierToken) (run_steps [expect_into ua IdentifierToken,
        when_step (parser_at ua EqualsToken) [
          expect_into ua EqualsToken,
          push_pattern context (parse_pattern_until ua primary context at_boundary)]])"
        by (rule takes_steps [OF takes_expect])
          (use pattern_child(1) [OF assms(1)] in \<open>simp_all add: keeps_expect keeps_when observes_at kind_simps\<close>)
    qed
    then show ?thesis
      using entry_steps [OF assms(1), of "context" entry_context] Product
      by (simp add: pattern_entry_steps_def product_pattern_entry_steps_def takes_steps del: run_steps.simps)
  qed
qed

lemma test_sequence:
  assumes "parser_test ua everywhere at_boundary D"
  shows "parser_test ua S (at_pattern_entry_sequence_boundary ua close_kind at_boundary) (\<lambda>s i. \<not> entry_place close_kind D s i)"
proof -
  have "(\<lambda>s i. \<not> entry_place close_kind D s i) = (\<lambda>s i. kind_at ua s i = close_kind \<or> kind_at ua s i = EndOfFileToken
      \<or> D s i \<or> at_pattern_entry_sequence_hard_boundary (kind_at ua s i))"
    by (auto simp: entry_place_def fun_eq_iff)
  then show ?thesis
    using test_or [OF test_at test_or [OF test_at test_or [OF test_weaken [OF assms] test_peek_is]]]
    by (simp add: at_pattern_entry_sequence_boundary_def)
qed

lemma entry_takes:
  assumes "parser_test ua everywhere at_boundary D"
  shows "takes ua S (\<lambda>s i. entry_place close_kind D s i \<and> kind_at ua s i \<noteq> CommaToken)
    (push_entry context (parse_pattern_entry ua primary context entry_context (entry_test close_kind at_boundary)))"
proof -
  let ?at = "entry_test close_kind at_boundary"
  let ?ss = "pattern_entry_steps ua primary context entry_context ?at"
  let ?C = "\<lambda>s i. entry_place close_kind D s i \<and> kind_at ua s i \<noteq> CommaToken"
  note t = test_entry [OF assms, of close_kind]
  have steps: "takes ua S ?C (run_steps ?ss)"
    by (rule entry_steps_take [OF t])
      (auto simp: entry_place_def pattern_place_def at_pattern_hard_boundary_def)
  have "takes ua S ?C (if_step (parser_at ua DotDotToken) [expect_into ua DotDotToken] ?ss)"
  proof (rule takes_if [OF test_at])
    show "takes ua S (\<lambda>s i. ?C s i \<and> kind_at ua s i = DotDotToken) (run_steps [expect_into ua DotDotToken])"
      by (rule takes_steps [OF takes_expect]) (simp_all add: keeps_expect kind_simps)
  qed (rule takes_sub [OF steps], simp)
  then have "takes ua S ?C (run_steps [if_step (parser_at ua DotDotToken) [expect_into ua DotDotToken] ?ss])"
    by (rule takes_steps) (use entry_steps [OF t] in \<open>simp_all add: keeps_if keeps_expect observes_at kind_simps\<close>)
  then have "takes_node ua S ?C (parse_pattern_entry ua primary context entry_context ?at)"
    unfolding parse_pattern_entry_def pattern_entry_node_def
    by (rule takes_parse_node) (use entry_steps [OF t] in \<open>simp add: keeps_if keeps_expect observes_at kind_simps\<close>)
  moreover have "as_variant (pattern_entry_kind context) (parse_pattern_entry ua primary context entry_context ?at)
      = parse_pattern_entry ua primary context entry_context ?at"
    by (rule as_variant_same) (simp add: parse_pattern_entry_def pattern_entry_node_def of_kind_parse_node)
  ultimately show ?thesis by (simp add: push_entry_def takes_child)
qed

lemma entry_rounds:
  assumes "parser_test ua everywhere at_boundary D"
  shows "rounds ua S (pattern_entry_round ua primary context entry_context close_kind at_boundary)"
proof (rule roundsI)
  fix i b p assume h: "holds ua i b p" and sc: "in_scope S p"
  let ?E = "push_entry context (parse_pattern_entry ua primary context entry_context (entry_test close_kind at_boundary))"
  let ?go = "entry_place close_kind D"
  let ?comma = "\<lambda>s i. kind_at ua s i = CommaToken"
  note seq = test_sequence [OF assms, of close_kind] and comma = test_at [of ua S CommaToken]
  have k: "keeps ua S (expect_into ua CommaToken)" "takes ua S ?comma (expect_into ua CommaToken)"
    by (simp_all add: keeps_expect takes_expect kind_simps)
  from testE [OF seq holds_ok [OF h] sc] obtain p1 where 1: "at_pattern_entry_sequence_boundary ua close_kind at_boundary p
      = Some (\<not> at_place ?go p, p1)" "advanced ua p p1 []" .
  note h1 = holds_same [OF h 1(2)] and fr1 = advanced_frame [OF 1(2) holds_ok [OF h]]
  note sc1 = frame_scope [OF sc fr1]
  have same1: "parser_position p1 = parser_position p" "parser_snapshot p1 = parser_snapshot p" using 1(2) by (auto simp: advanced_def)
  from keepsE [OF entry_child [OF test_entry [OF assms]] h1 sc1] obtain b2 p2
    where 2: "?E b p1 = Some (b2, p2)" "holds ua i b2 p2" "frame p1 p2" by blast
  note fr2 = frame_trans [OF fr1 2(3)]
  from testE [OF comma holds_ok [OF 2(2)] frame_scope [OF sc fr2]] obtain p3
    where 3: "parser_at ua CommaToken p2 = Some (at_place ?comma p2, p3)" "advanced ua p2 p3 []" .
  note h3 = holds_same [OF 2(2) 3(2)] and fr3 = frame_trans [OF fr2 advanced_frame [OF 3(2) holds_ok [OF 2(2)]]]
  from testE [OF seq holds_ok [OF h3] frame_scope [OF sc fr3]] obtain p4 where 4: "at_pattern_entry_sequence_boundary ua close_kind at_boundary p3
      = Some (\<not> at_place ?go p3, p4)" "advanced ua p3 p4 []" .
  note h4 = holds_same [OF h3 4(2)] and fr4 = frame_trans [OF fr3 advanced_frame [OF 4(2) holds_ok [OF h3]]]
  have same3: "parser_position p3 = parser_position p2" "parser_snapshot p3 = parser_snapshot p2"
    and same4: "parser_position p4 = parser_position p2" using 3(2) 4(2) by (auto simp: advanced_def)
  have same2: "parser_snapshot p2 = parser_snapshot p" "parser_position p \<le> parser_position p2" using fr2 by (auto simp: frame_def)
  from keepsE [OF k(1) h3 frame_scope [OF sc fr3]] obtain b5 p5
    where 5: "expect_into ua CommaToken b2 p3 = Some (b5, p5)" "holds ua i b5 p5" "frame p3 p5" .
  from keepsE [OF k(1) h4 frame_scope [OF sc fr4]] obtain b6 p6
    where 6: "expect_into ua CommaToken b2 p4 = Some (b6, p6)" "holds ua i b6 p6" "frame p4 p6" .
  note eq = pattern_entry_round_def [of ua primary "context" entry_context close_kind at_boundary b p]
  consider (stop) "\<not> at_place ?go p" | (comma) "at_place ?go p" "at_place ?comma p2"
    | (last) "at_place ?go p" "\<not> at_place ?comma p2" "\<not> at_place ?go p3"
    | (missing) "at_place ?go p" "\<not> at_place ?comma p2" "at_place ?go p3" by blast
  then show "\<exists>again b' p'. pattern_entry_round ua primary context entry_context close_kind at_boundary b p
      = Some ((again, b'), p') \<and> holds ua i b' p' \<and> frame p p' \<and> (again \<longrightarrow> parser_position p < parser_position p')"
  proof cases
    case stop
    with 1 h1 fr1 show ?thesis by (intro exI [of _ False] exI [of _ b] exI [of _ p1]) (simp add: eq)
  next
    case comma
    with takesD [OF k(2) h3 frame_scope [OF sc fr3] _ 5(1)] same3 same2 have "parser_position p < parser_position p5" by simp
    with comma 1(1) 2(1) 3(1) 5 frame_trans [OF fr3 5(3)] show ?thesis
      by (intro exI [of _ True] exI [of _ b5] exI [of _ p5]) (simp add: eq)
  next
    case last
    with 1(1) 2(1) 3(1) 4(1) h4 fr4 show ?thesis
      by (intro exI [of _ False] exI [of _ b2] exI [of _ p4]) (simp add: eq)
  next
    case missing
    have "parser_position p < parser_position p2"
    proof (cases "at_place ?comma p")
      case True
      with missing(2) same2 show ?thesis by (cases "parser_position p = parser_position p2") auto
    next
      case False
      with takesD [OF entry_takes [OF assms] h1 sc1 _ 2(1)] missing(1) same1 show ?thesis by simp
    qed
    with 6(3) same4 have "parser_position p < parser_position p6" by (simp add: frame_def)
    with missing 1(1) 2(1) 3(1) 4(1) 6 frame_trans [OF fr4 6(3)] show ?thesis
      by (intro exI [of _ True] exI [of _ b6] exI [of _ p6]) (simp add: eq)
  qed
qed

lemma entries:
  assumes "parser_test ua everywhere at_boundary D"
  shows "keeps ua S (parse_pattern_entries ua primary context entry_context close_kind at_boundary)"
  unfolding parse_pattern_entries_def by (rule keeps_loop [OF entry_rounds [OF assms]])

lemma bodies:
  assumes "parser_test ua everywhere at_boundary D"
  shows "list_all (keeps ua S) (payload_pattern_body ua primary context at_boundary)"
    "list_all (keeps ua S) (product_pattern_body ua primary context at_boundary)"
  by (simp_all add: payload_pattern_body_def product_pattern_body_def keeps_expect entries [OF assms] kind_simps)

lemma product_pattern:
  assumes "parser_test ua everywhere at_boundary D"
  shows "production ua S (parse_expected_type_product_pattern ua primary context at_boundary)"
  by (simp add: parse_expected_type_product_pattern_def production_pattern_node bodies [OF assms])

lemma continuation_scan: "parser_observer ua S (product_pattern_precedes_continuation ua primary context)"
  unfolding product_pattern_precedes_continuation_def
proof (rule observes_scan_ahead, rule movesI)
  fix q assume ok: "parser_ok ua q" and sc: "in_scope S q"
  from productionE [OF product_pattern [OF test_never] ok sc] obtain n q1
    where 1: "parse_expected_type_product_pattern ua primary context (\<lambda>q. Some (False, q)) q = Some (n, q1)"
      "spans ua (parser_position q) n q1" "frame q q1" by blast
  have "\<exists>r. contains_recovery (syn_node n) (syn_start n) = Some r"
    using contains_recovery_spec [of "syn_node n" "syn_start n"] spans_range [OF 1(2)] 1(2) by (auto simp: spans_def)
  then obtain r where r: "contains_recovery (syn_node n) (syn_start n) = Some r" ..
  from testE [OF test_peek_is [of ua everywhere product_pattern_continuation] spans_ok [OF 1(2)] in_everywhere] obtain q2
    where 2: "peek_is ua product_pattern_continuation q1
        = Some (product_pattern_continuation (kind_at ua (parser_snapshot q1) (parser_position q1)), q2)" "advanced ua q1 q2 []" .
  note fr = frame_trans [OF 1(3) advanced_frame [OF 2(2) spans_ok [OF 1(2)]]]
  show "\<exists>x p'. do {
       (n, q1) \<leftarrow> parse_expected_type_product_pattern ua primary context (\<lambda>q. Some (False, q)) q;
       recovered \<leftarrow> contains_recovery (syn_node n) (syn_start n);
       (if recovered then Some (False, q1) else peek_is ua product_pattern_continuation q1)
     } = Some (x, p') \<and> parser_ok ua p' \<and> frame q p' \<and> parser_position q \<le> parser_position p'"
    using 1 2 r fr spans_ok [OF 1(2)] by (cases r) (auto simp: advanced_def frame_def)
qed

lemma parenthesized_rounds:
  assumes "parser_test ua everywhere at_boundary D"
  shows "rounds ua S (parenthesized_pattern_round ua primary context at_boundary)"
proof (rule roundsI)
  fix i b p assume h: "holds ua i b p" and sc: "in_scope S p"
  let ?comma = "\<lambda>s i. kind_at ua s i = CommaToken" and ?close = "\<lambda>s i. kind_at ua s i = CloseParenToken"
  let ?P = "push_pattern context (parse_pattern_until ua primary context (at_parenthesized_pattern_boundary ua at_boundary))"
  have k: "keeps ua S (expect_into ua CommaToken)" "takes ua S ?comma (expect_into ua CommaToken)"
    by (simp_all add: keeps_expect takes_expect kind_simps)
  have kp: "keeps ua S ?P"
    unfolding at_parenthesized_pattern_boundary_def
    by (rule pattern_child(1) [OF test_or [OF test_at test_or [OF test_at assms]]])
  from testE [OF test_at holds_ok [OF h] sc, of CommaToken] obtain p1
    where 1: "parser_at ua CommaToken p = Some (at_place ?comma p, p1)" "advanced ua p p1 []" .
  note h1 = holds_same [OF h 1(2)] and fr1 = advanced_frame [OF 1(2) holds_ok [OF h]]
  have same1: "parser_position p1 = parser_position p" "parser_snapshot p1 = parser_snapshot p" using 1(2) by (auto simp: advanced_def)
  from keepsE [OF k(1) h1 frame_scope [OF sc fr1]] obtain b2 p2
    where 2: "expect_into ua CommaToken b p1 = Some (b2, p2)" "holds ua i b2 p2" "frame p1 p2" .
  note fr2 = frame_trans [OF fr1 2(3)]
  from testE [OF test_at holds_ok [OF 2(2)] frame_scope [OF sc fr2], of CloseParenToken] obtain p3
    where 3: "parser_at ua CloseParenToken p2 = Some (at_place ?close p2, p3)" "advanced ua p2 p3 []" .
  note h3 = holds_same [OF 2(2) 3(2)] and fr3 = frame_trans [OF fr2 advanced_frame [OF 3(2) holds_ok [OF 2(2)]]]
  have same3: "parser_position p3 = parser_position p2" using 3(2) by (auto simp: advanced_def)
  from keepsE [OF kp h3 frame_scope [OF sc fr3]] obtain b4 p4 where 4: "?P b2 p3 = Some (b4, p4)" "holds ua i b4 p4" "frame p3 p4" .
  note eq = parenthesized_pattern_round_def [of ua primary "context" at_boundary b p]
  consider (none) "\<not> at_place ?comma p" | (closed) "at_place ?comma p" "at_place ?close p2"
    | (more) "at_place ?comma p" "\<not> at_place ?close p2" by blast
  then show "\<exists>again b' p'. parenthesized_pattern_round ua primary context at_boundary b p = Some ((again, b'), p')
      \<and> holds ua i b' p' \<and> frame p p' \<and> (again \<longrightarrow> parser_position p < parser_position p')"
  proof cases
    case none
    with 1 h1 fr1 show ?thesis by (intro exI [of _ False] exI [of _ b] exI [of _ p1]) (simp add: eq)
  next
    case closed
    with 1(1) 2(1) 3(1) h3 fr3 show ?thesis by (intro exI [of _ False] exI [of _ b2] exI [of _ p3]) (simp add: eq)
  next
    case more
    with takesD [OF k(2) h1 frame_scope [OF sc fr1] _ 2(1)] same1 same3 4(3) have "parser_position p < parser_position p4"
      by (auto simp: frame_def)
    with more 1(1) 2(1) 3(1) 4 frame_trans [OF fr3 4(3)] show ?thesis
      by (intro exI [of _ True] exI [of _ b4] exI [of _ p4]) (simp add: eq)
  qed
qed

lemma obs: "parser_test ua everywhere at_boundary D \<Longrightarrow> parser_observer ua S at_boundary"
  by (rule test_observes [OF test_weaken])

lemma path_child_kept: "keeps ua S (path_into (parse_path ua))"
  by (rule keeps_path, rule parse_path_kept)

text \<open>Every arm of the match on the token ahead, with the token that selects it.\<close>

lemma arms:
  assumes "parser_test ua everywhere at_boundary D"
  shows "production ua S (parse_nullable_present_pattern ua primary context at_boundary)"
    "production ua S (parse_box_pattern ua primary context at_boundary)"
    "production ua S (parse_leading_dot_pattern ua primary context at_boundary)"
    "production ua S (parse_path_pattern ua primary context at_boundary)"
    "production ua S (parse_parenthesized_pattern ua primary context at_boundary)"
    "production ua S (parse_array_pattern ua primary context at_boundary)"
  using pattern_child [OF assms] bodies [OF assms] entries [OF assms]
    pattern_child(1) [OF test_or [OF test_at assms]] pattern_child(1) [OF test_or [OF test_at test_or [OF test_at assms]]]
    keeps_loop [OF parenthesized_rounds [OF assms]] obs [OF assms] continuation_scan path_child_kept
  by (simp_all add: parse_nullable_present_pattern_def parse_box_pattern_def parse_leading_dot_pattern_def
      parse_path_pattern_def parse_parenthesized_pattern_def parse_array_pattern_def at_parenthesized_pattern_boundary_def
      production_pattern_node keeps_expect keeps_when keeps_if observes_at observes_and observes_or observes_not kind_simps)

lemma arms_take:
  assumes "parser_test ua everywhere at_boundary D"
  shows "takes_node ua S (\<lambda>s i. kind_at ua s i = QuestionToken) (parse_nullable_present_pattern ua primary context at_boundary)"
    "takes_node ua S (\<lambda>s i. kind_at ua s i = BoxKeyword) (parse_box_pattern ua primary context at_boundary)"
    "takes_node ua S (\<lambda>s i. kind_at ua s i = DotToken) (parse_leading_dot_pattern ua primary context at_boundary)"
    "takes_node ua S (\<lambda>s i. kind_at ua s i = IdentifierToken) (parse_path_pattern ua primary context at_boundary)"
    "takes_node ua S (\<lambda>s i. kind_at ua s i = OpenBraceToken) (parse_expected_type_product_pattern ua primary context at_boundary)"
    "takes_node ua S (\<lambda>s i. kind_at ua s i = OpenParenToken) (parse_parenthesized_pattern ua primary context at_boundary)"
    "takes_node ua S (\<lambda>s i. kind_at ua s i = OpenBracketToken) (parse_array_pattern ua primary context at_boundary)"
  unfolding parse_nullable_present_pattern_def parse_box_pattern_def parse_leading_dot_pattern_def parse_path_pattern_def
    parse_expected_type_product_pattern_def parse_parenthesized_pattern_def parse_array_pattern_def
    product_pattern_body_def at_parenthesized_pattern_boundary_def
  using pattern_child [OF assms] bodies [OF assms] entries [OF assms]
    pattern_child(1) [OF test_or [OF test_at assms]] pattern_child(1) [OF test_or [OF test_at test_or [OF test_at assms]]]
    keeps_loop [OF parenthesized_rounds [OF assms]] obs [OF assms] continuation_scan path_child_kept
  by (intro takes_pattern_node;
      simp add: takes_expect takes_path takes_parse_path keeps_expect keeps_when keeps_if observes_at observes_and observes_or
        observes_not kind_simps product_pattern_body_def [symmetric])+

end

lemma small_arms:
  assumes "parser_observer ua S at_boundary"
  shows "production ua S (missing_pattern ua context)" "production ua S (parse_discard_pattern ua context)"
    "production ua S (parse_mutable_binding_pattern ua context)" "production ua S (parse_nullable_absent_pattern ua context)"
    "production ua S (parse_remaining_pattern ua context)" "production ua S (parse_unknown_pattern ua context at_boundary)"
    "production ua S (recover_pattern_nesting_limit ua context at_boundary)"
  using assms test_observes [OF test_peek_is]
  by (simp_all add: missing_pattern_def parse_discard_pattern_def parse_mutable_binding_pattern_def parse_nullable_absent_pattern_def
      parse_remaining_pattern_def parse_unknown_pattern_def recover_pattern_nesting_limit_def at_pattern_recovery_stop_def
      production_pattern_node keeps_expect keeps_recover_current_and_until_predicate keeps_recover_until_predicate
      observes_or kind_simps)

lemma small_arms_take:
  shows "takes_node ua S (\<lambda>s i. kind_at ua s i = UnderscoreToken) (parse_discard_pattern ua context)"
    "takes_node ua S (\<lambda>s i. kind_at ua s i = MutKeyword) (parse_mutable_binding_pattern ua context)"
    "takes_node ua S (\<lambda>s i. kind_at ua s i = NoneKeyword) (parse_nullable_absent_pattern ua context)"
    "takes_node ua S (\<lambda>s i. kind_at ua s i = DotDotToken) (parse_remaining_pattern ua context)"
  unfolding parse_discard_pattern_def parse_mutable_binding_pattern_def parse_nullable_absent_pattern_def parse_remaining_pattern_def
  by (intro takes_pattern_node; simp add: takes_expect keeps_expect kind_simps)+

lemma recoveries_take:
  assumes "parser_test ua S at_boundary D"
  shows "takes_node ua S (\<lambda>s i. kind_at ua s i \<noteq> EndOfFileToken) (parse_unknown_pattern ua context at_boundary)"
    "takes_node ua S (\<lambda>s i. \<not> D s i \<and> \<not> at_pattern_hard_boundary (kind_at ua s i))
      (recover_pattern_nesting_limit ua context at_boundary)"
proof -
  note t = test_or [OF assms test_peek_is [of ua S at_pattern_hard_boundary]]
  show "takes_node ua S (\<lambda>s i. kind_at ua s i \<noteq> EndOfFileToken) (parse_unknown_pattern ua context at_boundary)"
    unfolding parse_unknown_pattern_def at_pattern_recovery_stop_def
    by (rule takes_pattern_node [OF takes_recover_current_and_until_predicate [OF test_observes [OF t]]])
      (simp_all add: keeps_recover_current_and_until_predicate [OF test_observes [OF t]])
  show "takes_node ua S (\<lambda>s i. \<not> D s i \<and> \<not> at_pattern_hard_boundary (kind_at ua s i))
      (recover_pattern_nesting_limit ua context at_boundary)"
    unfolding recover_pattern_nesting_limit_def at_pattern_recovery_stop_def
    by (rule takes_pattern_node [OF takes_recover_until_predicate [OF t]])
      (auto simp: keeps_recover_until_predicate [OF test_observes [OF t]] at_pattern_hard_boundary_def)
qed

lemma literal_pattern:
  assumes ok: "parser_ok ua p" and k: "is_pattern_literal (tok_kind (ahead ua p))"
  shows "\<exists>n p'. parse_literal_pattern ua context p = Some (n, p') \<and> spans ua (parser_position p) n p' \<and> frame p p'
    \<and> parser_position p < parser_position p'"
proof -
  from k have ne: "\<not> is_end_of_file (ahead ua p)"
    by (auto simp: is_end_of_file_def is_pattern_literal_def is_literal_def)
  from peek_adv [OF ok] obtain q where q: "parser_peek ua p = Some (ahead ua p, q)" "advanced ua p q []" .
  from start_node_holds [OF ok] obtain b p1 where 1: "start_node ua (pattern_source_slot context) p = Some (b, p1)"
    "holds ua (parser_position p) b p1" "frame p p1" by blast
  from q(1) 1(1) have "p1 = q" by (auto simp: start_node_def run_simps)
  with advanced_ahead [OF q(2) ok] have same: "ahead ua p1 = ahead ua p" "parser_position p1 = parser_position p" by auto
  with ne have "\<not> is_end_of_file (ahead ua p1)" by simp
  from consume_adv [OF holds_ok [OF 1(2)] this] obtain p2 g where 2: "parser_consume ua p1 = Some (ahead ua p1, p2)"
    "from_syntax_token (ahead ua p1) = Some g" "advanced ua p1 p2 [g]" "parser_position p1 < parser_position p2" .
  from push_token_of_holds [where allowed = is_pattern_literal, OF 1(2) 2(3,2)] k same obtain b'
    where b': "push_token_of is_pattern_literal (ahead ua p1) b = Some b'" "holds ua (parser_position p) b' p2" by auto
  from node_build_spans [OF b'(2) pattern_kinds(1)] obtain n
    where "node_build (pattern_kind context) b' = Some n" "spans ua (parser_position p) n p2" by blast
  with 1 2 b' same frame_trans [OF 1(3) advanced_frame [OF 2(3) holds_ok [OF 1(2)]]] show ?thesis
    by (auto simp: parse_literal_pattern_def pattern_node_def parse_node_def token_of_into_def)
qed

lemma of_kind_pattern_of_kind: "of_kind (pattern_kind context) (pattern_of_kind ua primary context at_boundary k)"
  by (simp add: pattern_of_kind_def parse_discard_pattern_def parse_mutable_binding_pattern_def parse_literal_pattern_def
      parse_nullable_absent_pattern_def parse_nullable_present_pattern_def parse_box_pattern_def parse_leading_dot_pattern_def
      parse_path_pattern_def parse_expected_type_product_pattern_def parse_parenthesized_pattern_def parse_array_pattern_def
      parse_remaining_pattern_def parse_unknown_pattern_def of_kind_pattern_node)

lemma of_kind_nested: "of_kind k inner \<Longrightarrow> of_kind k limit \<Longrightarrow> of_kind k (nested ua inner limit)"
  unfolding of_kind_def nested_def by (fastforce simp: run_simps split: if_splits)

context pattern_grammar
begin

lemma pattern_of_kind_spec:
  assumes "parser_test ua everywhere at_boundary D" "parser_ok ua p" "in_scope S p"
  shows "\<exists>n p'. pattern_of_kind ua primary context at_boundary (tok_kind (ahead ua p)) p = Some (n, p')
    \<and> spans ua (parser_position p) n p' \<and> frame p p'
    \<and> (tok_kind (ahead ua p) \<noteq> EndOfFileToken \<longrightarrow> parser_position p < parser_position p')"
proof (cases "is_pattern_literal (tok_kind (ahead ua p))")
  case True
  then have "tok_kind (ahead ua p) \<noteq> UnderscoreToken" "tok_kind (ahead ua p) \<noteq> MutKeyword"
    by (auto simp: is_pattern_literal_def is_literal_def)
  with literal_pattern [OF assms(2) True, of "context"] True show ?thesis by (auto simp: pattern_of_kind_def)
next
  case False
  let ?k = "tok_kind (ahead ua p)"
  let ?f = "pattern_of_kind ua primary context at_boundary ?k"
  have "production ua S ?f \<and> takes_node ua S (\<lambda>s i. kind_at ua s i = ?k \<and> ?k \<noteq> EndOfFileToken) ?f"
    using False arms [OF assms(1), of "context"] product_pattern [OF assms(1), of "context"] arms_take [OF assms(1), of "context"]
      small_arms [OF obs [OF assms(1)], of "context"] small_arms_take [of ua S "context"]
      recoveries_take(1) [OF test_weaken [OF assms(1)], of S "context"]
    by (auto simp: pattern_of_kind_def elim!: takes_node_sub)
  then have f: "production ua S ?f" "takes_node ua S (\<lambda>s i. kind_at ua s i = ?k \<and> ?k \<noteq> EndOfFileToken) ?f" by blast+
  from productionE [OF f(1) assms(2,3)] obtain n p' where "?f p = Some (n, p')" "spans ua (parser_position p) n p'" "frame p p'" .
  with takes_nodeD [OF f(2) assms(2,3), of n p'] parser_ok_wf(4) [OF assms(2)] show ?thesis by auto
qed

lemma entered_pattern:
  assumes "parser_test ua everywhere at_boundary D"
  shows "production ua S (parse_entered_pattern ua primary context at_boundary)"
    "takes_node ua S (\<lambda>s i. kind_at ua s i \<noteq> EndOfFileToken) (parse_entered_pattern ua primary context at_boundary)"
proof -
  have *: "\<exists>n p'. parse_entered_pattern ua primary context at_boundary p = Some (n, p')
      \<and> spans ua (parser_position p) n p' \<and> frame p p' \<and> (tok_kind (ahead ua p) \<noteq> EndOfFileToken \<longrightarrow> parser_position p < parser_position p')"
    if ok: "parser_ok ua p" and sc: "in_scope S p" for p
  proof -
    from peek_adv [OF ok] obtain p1 where 1: "parser_peek ua p = Some (ahead ua p, p1)" "advanced ua p p1 []" .
    note fr = advanced_frame [OF 1(2) ok] and same = advanced_ahead [OF 1(2) ok]
    have ok1: "parser_ok ua p1" using 1(2) by (simp add: advanced_def)
    from pattern_of_kind_spec [OF assms ok1 frame_scope [OF sc fr], of "context"] 1(1) same frame_trans [OF fr] show ?thesis
      by (auto simp: parse_entered_pattern_def)
  qed
  from * show "production ua S (parse_entered_pattern ua primary context at_boundary)"
    by (intro productionI) blast
  from * show "takes_node ua S (\<lambda>s i. kind_at ua s i \<noteq> EndOfFileToken) (parse_entered_pattern ua primary context at_boundary)"
    by (intro takes_nodeI) (metis option.inject prod.inject parser_ok_wf(4))
qed

abbreviation primary_test :: "boundary_test \<Rightarrow> boundary_test" where
  "primary_test at_boundary \<equiv> or_test (and_test (not_test (parser_at ua OpenBraceToken)) at_boundary)
     (peek_is ua at_pattern_hard_boundary)"

lemma test_primary:
  assumes "parser_test ua everywhere at_boundary D"
  shows "parser_test ua everywhere (primary_test at_boundary)
    (\<lambda>s i. kind_at ua s i \<noteq> OpenBraceToken \<and> D s i \<or> at_pattern_hard_boundary (kind_at ua s i))"
  by (rule test_or [OF test_and [OF test_not [OF test_at] assms] test_peek_is])

lemma nested_pattern:
  assumes "parser_test ua everywhere at_boundary D"
  shows "production ua (within S) (nested ua (parse_entered_pattern ua primary context at_boundary)
      (recover_pattern_nesting_limit ua context at_boundary))"
    "takes_node ua (within S) (pattern_place ua D) (nested ua (parse_entered_pattern ua primary context at_boundary)
      (recover_pattern_nesting_limit ua context at_boundary))"
proof -
  note e = entered_pattern [OF assms, of "context"]
  show "production ua (within S) (nested ua (parse_entered_pattern ua primary context at_boundary)
      (recover_pattern_nesting_limit ua context at_boundary))"
    by (rule production_nested [OF e(1) small_arms(7) [OF test_observes [OF assms]]])
  show "takes_node ua (within S) (pattern_place ua D) (nested ua (parse_entered_pattern ua primary context at_boundary)
      (recover_pattern_nesting_limit ua context at_boundary))"
    by (rule takes_nested [OF takes_node_sub [OF e(2)] takes_node_sub [OF recoveries_take(2) [OF assms]] e(1)])
      (auto simp: pattern_place_def at_pattern_hard_boundary_def)
qed

lemma pattern_primary_production:
  assumes "parser_test ua everywhere at_boundary D"
  shows "production ua (within S) (pattern_primary ua primary context at_boundary)"
proof (rule productionI)
  fix p assume ok: "parser_ok ua p" and sc: "in_scope (within S) p"
  let ?stop = "\<lambda>s i. kind_at ua s i \<noteq> OpenBraceToken \<and> D s i \<or> at_pattern_hard_boundary (kind_at ua s i)"
  let ?f = "if at_place ?stop p then missing_pattern ua context else nested ua (parse_entered_pattern ua primary context at_boundary)
    (recover_pattern_nesting_limit ua context at_boundary)"
  from testE [OF test_primary [OF assms] ok in_everywhere] obtain p1
    where 1: "primary_test at_boundary p = Some (at_place ?stop p, p1)" "advanced ua p p1 []" .
  note fr = advanced_frame [OF 1(2) ok]
  have p1: "parser_ok ua p1" "parser_position p1 = parser_position p" using 1(2) by (auto simp: advanced_def)
  have "production ua (within S) ?f"
    using small_arms(1) [OF test_observes [OF test_weaken [OF assms]]] nested_pattern(1) [OF assms] by simp
  from productionE [OF this p1(1) frame_scope [OF sc fr]] obtain n p' where "?f p1 = Some (n, p')" "spans ua (parser_position p1) n p'" "frame p1 p'" .
  with 1(1) p1(2) frame_trans [OF fr] show "\<exists>n p'. pattern_primary ua primary context at_boundary p = Some (n, p')
      \<and> spans ua (parser_position p) n p' \<and> frame p p'"
    by (cases "at_place ?stop p") (auto simp: pattern_primary_def)
qed

lemma pattern_primary_takes:
  assumes "parser_test ua everywhere at_boundary D"
  shows "takes_node ua (within S) (pattern_place ua D) (pattern_primary ua primary context at_boundary)"
proof (rule takes_nodeI)
  fix p x p' assume ok: "parser_ok ua p" and sc: "in_scope (within S) p" and c: "at_place (pattern_place ua D) p"
    and run: "pattern_primary ua primary context at_boundary p = Some (x, p')"
  from testE [OF test_primary [OF assms] ok in_everywhere] c obtain p1
    where 1: "primary_test at_boundary p = Some (False, p1)" "advanced ua p p1 []"
    by (auto simp: pattern_place_def)
  note fr = advanced_frame [OF 1(2) ok]
  have p1: "parser_ok ua p1" "parser_position p1 = parser_position p" "parser_snapshot p1 = parser_snapshot p"
    using 1(2) by (auto simp: advanced_def)
  from run 1(1) have "nested ua (parse_entered_pattern ua primary context at_boundary)
      (recover_pattern_nesting_limit ua context at_boundary) p1 = Some (x, p')" by (simp add: pattern_primary_def)
  from takes_nodeD [OF nested_pattern(2) [OF assms] p1(1) frame_scope [OF sc fr] _ this] c p1
  show "parser_position p < parser_position p'" by simp
qed

lemma pattern_primary_kind: "of_kind (pattern_kind context) (pattern_primary ua primary context at_boundary)"
proof -
  have "of_kind (pattern_kind context) (parse_entered_pattern ua primary context at_boundary)"
    using of_kind_pattern_of_kind unfolding of_kind_def parse_entered_pattern_def by (fastforce simp: run_simps)
  moreover have "of_kind (pattern_kind context) (missing_pattern ua context)"
    "of_kind (pattern_kind context) (recover_pattern_nesting_limit ua context at_boundary)"
    by (simp_all add: missing_pattern_def recover_pattern_nesting_limit_def of_kind_pattern_node)
  ultimately have "of_kind (pattern_kind context) (nested ua (parse_entered_pattern ua primary context at_boundary)
      (recover_pattern_nesting_limit ua context at_boundary))" "of_kind (pattern_kind context) (missing_pattern ua context)"
    by (simp_all add: of_kind_nested)
  then show ?thesis unfolding of_kind_def pattern_primary_def by (fastforce simp: run_simps split: if_splits)
qed

end

subsection \<open>Enough levels\<close>

definition enough_levels :: "nat \<Rightarrow> scope" where
  "enough_levels n = (\<lambda>s d. max_syntax_nesting_depth < n + d)"

lemma production_within: "production ua (within (enough_levels n)) f \<Longrightarrow> production ua (enough_levels (Suc n)) f"
  by (auto simp: production_def within_def enough_levels_def)

lemma takes_within: "takes_node ua (within (enough_levels n)) C f \<Longrightarrow> takes_node ua (enough_levels (Suc n)) C f"
  by (auto simp: takes_node_def within_def enough_levels_def)

interpretation pattern: pattern_grammar ua "enough_levels n" "parse_pattern_primary_until ua n" for ua n
proof (induction n)
  case 0
  show ?case
  proof
    fix at_boundary D "context"
    show "production ua (enough_levels 0) (parse_pattern_primary_until ua 0 context at_boundary)"
      by (auto simp: production_def enough_levels_def parser_ok_def)
    show "of_kind (pattern_kind context) (parse_pattern_primary_until ua 0 context at_boundary)"
      "takes_node ua (enough_levels 0) (pattern_place ua D) (parse_pattern_primary_until ua 0 context at_boundary)"
      by (simp_all add: of_kind_def takes_node_def)
  qed
next
  case (Suc n)
  show ?case
    by unfold_locales
      (simp_all add: production_within takes_within pattern_grammar.pattern_primary_production [OF Suc]
        pattern_grammar.pattern_primary_takes [OF Suc] pattern_grammar.pattern_primary_kind [OF Suc])
qed

text \<open>
  C5. Patterns are parsed from any position of any text, for every boundary test that is decided by the
  place it looks at and for any nesting depth: with more than 128 levels of recursion both entry points
  return a well-formed node of their kind that starts at the parser's position; the text of the node is
  exactly what the parser went over, and the nesting depth is as before.
\<close>

theorem patterns_lossless:
  assumes "parser_ok ua p" "max_syntax_nesting_depth < levels" "parser_test ua everywhere at_boundary stops"
    and "(f, k) \<in> {(parse_irrefutable_pattern_until (parse_pattern_primary_until ua levels) at_boundary, IrrefutablePattern),
      (parse_case_pattern_until ua (parse_pattern_primary_until ua levels) at_boundary, CasePattern)}"
  shows "\<exists>n p'. f p = Some (n, p') \<and> node_kind (syn_node n) = k \<and> node_wf (syn_node n)
    \<and> syn_start n = parser_position p \<and> parser_ok ua p' \<and> parser_snapshot p' = parser_snapshot p
    \<and> syntax_nesting_depth p' = syntax_nesting_depth p
    \<and> write_source_text (syn_node n) (snap_text (parser_snapshot p)) (parser_position p)
        = Some (segment (snap_text (parser_snapshot p)) (parser_position p) (parser_position p'))"
proof -
  have "enough_levels levels = everywhere" using assms(2) by (simp add: enough_levels_def everywhere_def fun_eq_iff)
  then have "production ua everywhere f"
    using assms(4) pattern.primary_production [OF assms(3), of levels Irrefutable] pattern.case_pattern_production [OF assms(3), of levels]
    by (auto simp: pattern.irrefutable)
  from production_text [OF this assms(1)] obtain n p' where n: "f p = Some (n, p')" "node_wf (syn_node n)"
    "syn_start n = parser_position p" "parser_ok ua p'" "parser_snapshot p' = parser_snapshot p"
    "syntax_nesting_depth p' = syntax_nesting_depth p"
    "write_source_text (syn_node n) (snap_text (parser_snapshot p)) (parser_position p)
        = Some (segment (snap_text (parser_snapshot p)) (parser_position p) (parser_position p'))" by blast
  have "of_kind k f"
    using assms(4) pattern.primary_kind [of Irrefutable] pattern.case_pattern_kind by (auto simp: pattern.irrefutable)
  with n(1) have "node_kind (syn_node n) = k" by (auto simp: of_kind_def)
  with n show ?thesis by blast
qed

theorem patterns_lossless_witness:
  "\<exists>n p'. parse_case_pattern_until (\<lambda>_. False) (parse_pattern_primary_until (\<lambda>_. False) 129) (parser_at (\<lambda>_. False) OpenBraceToken)
       (parser_new (text_snapshot ''a.b(x = [1, ..]) | {'')) = Some (n, p')
     \<and> node_kind (syn_node n) = CasePattern
     \<and> write_source_text (syn_node n) ''a.b(x = [1, ..]) | {'' 0 = Some (segment ''a.b(x = [1, ..]) | {'' 0 (parser_position p'))"
proof -
  let ?p = "parser_new (text_snapshot ''a.b(x = [1, ..]) | {'')"
  have "snapshot_wf (text_snapshot ''a.b(x = [1, ..]) | {'')" by (rule text_snapshot_wf) (simp_all add: u32_max_def)
  then have ok: "parser_ok (\<lambda>_. False) ?p" by (rule parser_ok_new)
  have start: "parser_position ?p = 0" "snap_text (parser_snapshot ?p) = ''a.b(x = [1, ..]) | {''"
    by (simp_all add: parser_new_def parser_cursor_new_def token_source_new_def with_cache_policy_def text_snapshot_def)
  have "max_syntax_nesting_depth < 129" by (simp add: max_syntax_nesting_depth_def)
  from patterns_lossless [OF ok this test_at, of "parse_case_pattern_until (\<lambda>_. False) (parse_pattern_primary_until (\<lambda>_. False) 129)
      (parser_at (\<lambda>_. False) OpenBraceToken)" CasePattern OpenBraceToken]
  show ?thesis unfolding start by auto
qed

end
