(* ===== verification/Parser_Expressions.thy ===== *)
theory Parser_Expressions
  imports Parser_Patterns
begin

text \<open>
  The operator layer of expressions (\<open>crates/bray-parser/src/parser/expression/operator.rs\<close>), the kinds and
  boundaries it is built on (\<open>grammar.rs\<close>, \<open>boundary.rs\<close>), parenthesized expressions, tuples and the recovery
  at the nesting limit (\<open>primary.rs\<close>) and the elements of array expressions (\<open>list.rs\<close>). Functions of the
  grammar that recurse into one another take the callee as an argument; the results here hold whatever the
  callee does.

  The lemmas show that the loops over tuple and array elements do not end when an expression at the nesting
  limit starts with an infix operator: the recovery there takes no token, and the operator counts as the start
  of one more element.
\<close>

subsection \<open>Kinds\<close>

definition expression_start_kinds :: "syntax_kind list" where
  "expression_start_kinds = [AllKeyword, AmpersandToken, AnyKeyword, AssertKeyword, AsyncKeyword, AtToken, AwaitKeyword,
     BangToken, BinaryIntegerLiteralToken, ByteStringLiteralToken, BoxKeyword, BreakKeyword, CatchKeyword,
     CharacterLiteralToken, ConstKeyword, ContinueKeyword, DecimalIntegerLiteralToken, DotToken, FalseKeyword, ForKeyword,
     HexadecimalIntegerLiteralToken, IdentifierToken, IfKeyword, ImaginaryLiteralToken, InternalKeyword, LambdaKeyword,
     LoopKeyword, MatchKeyword, MinusToken, NoneKeyword, OpenBraceToken, OpenBracketToken, OpenParenToken, PanicKeyword,
     RealLiteralToken, ReturnKeyword, SelfValueKeyword, StringLiteralToken, TildeToken, TrueKeyword, TrustedKeyword,
     TryKeyword, TupleElementIndexToken, UnitKeyword, WhileKeyword, WithKeyword, YieldKeyword]"

definition array_expression_terminators :: "syntax_kind list" where
  "array_expression_terminators = [CloseBracketToken, CloseParenToken, CloseBraceToken, EndOfFileToken]"

definition at_primary_hard_boundary :: "syntax_kind \<Rightarrow> bool" where
  "at_primary_hard_boundary kind \<longleftrightarrow> kind \<in> {CommaToken, CloseParenToken, CloseBracketToken, CloseBraceToken,
     SemicolonToken, EndOfFileToken}"

definition array_element_recovery_kinds :: "syntax_kind list" where
  "array_element_recovery_kinds = expression_start_kinds @ [CommaToken, SemicolonToken] @ array_expression_terminators"

subsection \<open>Operators\<close>

datatype operator_associativity = LeftAssociative | RightAssociative | NonAssociative

record infix_operator_entry =
  left_binding_power :: nat
  right_binding_power :: nat
  associativity :: operator_associativity

definition prefix_right_binding_power :: nat where
  "prefix_right_binding_power = 20"

definition infix_operator :: "syntax_kind \<Rightarrow> infix_operator_entry option" where
  "infix_operator kind = map_option (\<lambda>(l, r, a). \<lparr>left_binding_power = l, right_binding_power = r, associativity = a\<rparr>)
     (if kind = DotDotToken then Some (0, 1, NonAssociative)
      else if kind = PipePipeToken then Some (1, 2, LeftAssociative)
      else if kind = AmpersandAmpersandToken then Some (3, 4, LeftAssociative)
      else if kind \<in> {MatchesKeyword, EqualsEqualsToken, BangEqualsToken, LessToken, LessEqualsToken, GreaterToken,
        GreaterEqualsToken} then Some (5, 6, NonAssociative)
      else if kind = PipeToken then Some (7, 8, LeftAssociative)
      else if kind = CaretToken then Some (9, 10, LeftAssociative)
      else if kind = AmpersandToken then Some (11, 12, LeftAssociative)
      else if kind \<in> {LessLessToken, GreaterGreaterToken} then Some (13, 14, LeftAssociative)
      else if kind \<in> {PlusToken, MinusToken} then Some (15, 16, LeftAssociative)
      else if kind \<in> {StarToken, SlashToken, PercentToken, AtToken} then Some (17, 18, LeftAssociative)
      else if kind = StarStarToken then Some (21, 20, RightAssociative)
      else None)"

definition at_infix_operator :: "syntax_kind \<Rightarrow> bool" where
  "at_infix_operator kind \<longleftrightarrow> infix_operator kind \<noteq> None"

definition at_assignment_operator :: "syntax_kind \<Rightarrow> bool" where
  "at_assignment_operator kind \<longleftrightarrow> kind \<in> {EqualsToken, PlusEqualsToken, MinusEqualsToken, StarEqualsToken,
     SlashEqualsToken, PercentEqualsToken, AtEqualsToken, AmpersandEqualsToken, PipeEqualsToken, CaretEqualsToken,
     LessLessEqualsToken, GreaterGreaterEqualsToken, StarStarEqualsToken}"

definition at_unary_operator :: "syntax_kind \<Rightarrow> bool" where
  "at_unary_operator kind \<longleftrightarrow> kind \<in> {MinusToken, TildeToken, BangToken}"

subsection \<open>Boundaries\<close>

definition at_expression_start :: "unicode_alphanumeric \<Rightarrow> boundary_test" where
  "at_expression_start ua = peek_is ua (\<lambda>kind. kind \<in> set expression_start_kinds)"

definition at_tuple_expression_element_boundary :: "unicode_alphanumeric \<Rightarrow> boundary_test" where
  "at_tuple_expression_element_boundary ua =
     or_test (parser_at ua CommaToken) (or_test (parser_at ua CloseParenToken) (parser_at ua EndOfFileToken))"

definition at_array_expression_element_boundary :: "unicode_alphanumeric \<Rightarrow> boundary_test \<Rightarrow> boundary_test" where
  "at_array_expression_element_boundary ua at_boundary =
     or_test (parser_at ua CommaToken) (or_test (parser_at ua SemicolonToken)
       (or_test (parser_at_any ua array_expression_terminators) at_boundary))"

definition at_repeated_array_count_boundary :: "unicode_alphanumeric \<Rightarrow> boundary_test" where
  "at_repeated_array_count_boundary ua = or_test (parser_at ua CloseBracketToken) (parser_at ua EndOfFileToken)"

definition at_primary_tail_boundary :: "unicode_alphanumeric \<Rightarrow> boundary_test \<Rightarrow> boundary_test" where
  "at_primary_tail_boundary ua at_boundary p = do {
     (t, p1) \<leftarrow> parser_peek ua p;
     (b, p2) \<leftarrow> at_boundary p1;
     Some (b \<or> at_primary_hard_boundary (tok_kind t) \<or> tok_kind t = EqualsToken \<or> at_infix_operator (tok_kind t), p2)
   }"

subsection \<open>Nodes from a given start\<close>

type_synonym expression_parser = "boundary_test \<Rightarrow> parser \<Rightarrow> node_syntax parsing"

definition node_from :: "string \<Rightarrow> syntax_kind \<Rightarrow> text_size \<Rightarrow> step list \<Rightarrow> parser \<Rightarrow> node_syntax parsing" where
  "node_from source_slot kind start ss p = do {
     b \<leftarrow> node_builder_new source_slot (parser_snapshot p) start;
     (b', p') \<leftarrow> run_steps ss b p;
     n \<leftarrow> node_build kind b';
     Some (n, p')
   }"

definition push_given_token :: "syntax_kind \<Rightarrow> syntax_token \<Rightarrow> step" where
  "push_given_token kind t b p = do { b' \<leftarrow> push_required_token kind t b; Some (b', p) }"

definition push_given_child :: "node_syntax \<Rightarrow> step" where
  "push_given_child n b p = Some (push_child n b, p)"

definition expression_around :: "node_syntax \<Rightarrow> step list \<Rightarrow> parser \<Rightarrow> node_syntax parsing" where
  "expression_around inner ss p = do {
     r \<leftarrow> syn_full_range inner;
     node_from ''expression.source'' Expression (tr_start r) (push_given_child inner # ss) p
   }"

definition primary_to_expression :: "node_syntax \<Rightarrow> parser \<Rightarrow> node_syntax parsing" where
  "primary_to_expression primary = expression_around primary []"

definition missing_primary_expression :: "unicode_alphanumeric \<Rightarrow> parser \<Rightarrow> node_syntax parsing" where
  "missing_primary_expression ua = parse_node ua ''primary_expression.source'' PrimaryExpression [
     token_of_into is_token (parser_expect ua IdentifierToken)]"

definition missing_expression :: "unicode_alphanumeric \<Rightarrow> parser \<Rightarrow> node_syntax parsing" where
  "missing_expression ua p = do {
     (primary, p1) \<leftarrow> missing_primary_expression ua p;
     primary_to_expression primary p1
   }"

definition recover_expression_nesting_limit :: "unicode_alphanumeric \<Rightarrow> expression_parser" where
  "recover_expression_nesting_limit ua at_boundary p = do {
     (primary, p1) \<leftarrow> parse_node ua ''primary_expression.source'' PrimaryExpression [
       recover_step (recover_until_predicate ua node_push_skipped_tokens (at_primary_tail_boundary ua at_boundary))] p;
     primary_to_expression primary p1
   }"

subsection \<open>Operator expressions\<close>

definition parse_prefix_expression_until ::
    "unicode_alphanumeric \<Rightarrow> (boundary_test \<Rightarrow> nat \<Rightarrow> parser \<Rightarrow> node_syntax parsing) \<Rightarrow> expression_parser \<Rightarrow> expression_parser" where
  "parse_prefix_expression_until ua operand postfix at_boundary p = do {
     (stop, p1) \<leftarrow> at_boundary p;
     (if stop then missing_expression ua p1
      else do {
        (unary, p2) \<leftarrow> peek_is ua at_unary_operator p1;
        (if \<not> unary then postfix at_boundary p2
         else parse_node ua ''expression.source'' Expression [
           token_of_into is_expression_operator (parser_consume ua),
           child_into (operand at_boundary prefix_right_binding_power)] p2)
      })
   }"

partial_function (option) infix_loop ::
    "unicode_alphanumeric \<Rightarrow> (boundary_test \<Rightarrow> nat \<Rightarrow> parser \<Rightarrow> node_syntax parsing) \<Rightarrow> expression_parser \<Rightarrow> boundary_test
     \<Rightarrow> nat \<Rightarrow> node_syntax \<Rightarrow> nat option \<Rightarrow> parser \<Rightarrow> node_syntax parsing" where
  "infix_loop ua operand case_pattern at_boundary min_binding_power expression non_associative_binding_power p = do {
     (stop, p1) \<leftarrow> at_boundary p;
     (if stop then Some (expression, p1)
      else do {
        (t, p2) \<leftarrow> parser_peek ua p1;
        (case infix_operator (tok_kind t) of
           None \<Rightarrow> Some (expression, p2)
         | Some operator \<Rightarrow>
             if non_associative_binding_power = Some (left_binding_power operator)
               \<or> left_binding_power operator < min_binding_power
             then Some (expression, p2)
             else do {
               (expression', p3) \<leftarrow> expression_around expression [
                 token_of_into is_expression_operator (parser_consume ua),
                 child_into (if tok_kind t = MatchesKeyword then case_pattern at_boundary
                   else operand at_boundary (right_binding_power operator))] p2;
               infix_loop ua operand case_pattern at_boundary min_binding_power expression'
                 (if associativity operator = NonAssociative then Some (left_binding_power operator)
                  else non_associative_binding_power) p3
             })
      })
   }"

declare infix_loop.simps [code]

definition parse_operator_expression ::
    "unicode_alphanumeric \<Rightarrow> (boundary_test \<Rightarrow> nat \<Rightarrow> parser \<Rightarrow> node_syntax parsing) \<Rightarrow> expression_parser \<Rightarrow> expression_parser
     \<Rightarrow> boundary_test \<Rightarrow> nat \<Rightarrow> parser \<Rightarrow> node_syntax parsing" where
  "parse_operator_expression ua operand postfix case_pattern at_boundary min_binding_power p = do {
     (expression, p1) \<leftarrow> parse_prefix_expression_until ua operand postfix at_boundary p;
     infix_loop ua operand case_pattern at_boundary min_binding_power expression None p1
   }"

definition parse_expression_with_min_binding_power_until ::
    "unicode_alphanumeric \<Rightarrow> (boundary_test \<Rightarrow> nat \<Rightarrow> parser \<Rightarrow> node_syntax parsing) \<Rightarrow> expression_parser \<Rightarrow> expression_parser
     \<Rightarrow> boundary_test \<Rightarrow> nat \<Rightarrow> parser \<Rightarrow> node_syntax parsing" where
  "parse_expression_with_min_binding_power_until ua operand postfix case_pattern at_boundary min_binding_power =
     nested ua (parse_operator_expression ua operand postfix case_pattern at_boundary min_binding_power)
       (recover_expression_nesting_limit ua at_boundary)"

definition parse_non_assignment_expression_until ::
    "unicode_alphanumeric \<Rightarrow> (boundary_test \<Rightarrow> nat \<Rightarrow> parser \<Rightarrow> node_syntax parsing) \<Rightarrow> expression_parser \<Rightarrow> expression_parser
     \<Rightarrow> expression_parser" where
  "parse_non_assignment_expression_until ua operand postfix case_pattern at_boundary =
     parse_expression_with_min_binding_power_until ua operand postfix case_pattern at_boundary 0"

definition parse_assignment_expression_until ::
    "unicode_alphanumeric \<Rightarrow> expression_parser \<Rightarrow> expression_parser \<Rightarrow> expression_parser" where
  "parse_assignment_expression_until ua non_assignment expression at_boundary p = do {
     (left, p1) \<leftarrow> non_assignment at_boundary p;
     (stop, p2) \<leftarrow> or_test at_boundary (not_test (peek_is ua at_assignment_operator)) p1;
     (if stop then Some (left, p2)
      else expression_around left [
        token_of_into is_expression_operator (parser_consume ua),
        child_into (expression at_boundary)] p2)
   }"

definition parse_expression_until :: "unicode_alphanumeric \<Rightarrow> expression_parser \<Rightarrow> expression_parser" where
  "parse_expression_until ua assignment at_boundary =
     nested ua (assignment at_boundary) (recover_expression_nesting_limit ua at_boundary)"

subsection \<open>Parenthesized expressions, tuples and arrays\<close>

definition parse_grouped_expression_tail ::
    "unicode_alphanumeric \<Rightarrow> syntax_token \<Rightarrow> node_syntax \<Rightarrow> parser \<Rightarrow> node_syntax parsing" where
  "parse_grouped_expression_tail ua open_paren expression =
     node_from ''grouped_expression.source'' GroupedExpression (tr_start (full_range open_paren)) [
       push_given_token OpenParenToken open_paren,
       push_given_child expression,
       expect_into ua CloseParenToken]"

definition tuple_item_round ::
    "unicode_alphanumeric \<Rightarrow> expression_parser \<Rightarrow> boundary_test \<Rightarrow> node_builder \<Rightarrow> parser \<Rightarrow> (bool \<times> node_builder) parsing" where
  "tuple_item_round ua expression at_boundary b p = do {
     (hard, p1) \<leftarrow> and_test (peek_is ua at_primary_hard_boundary) (not_test (parser_at ua CommaToken)) p;
     (if hard then Some ((False, b), p1)
      else do {
        (stop, p2) \<leftarrow> and_test (not_test (parser_at ua CommaToken))
          (and_test (not_test (at_expression_start ua)) at_boundary) p1;
        (if stop then Some ((False, b), p2)
         else do {
           (b1, p3) \<leftarrow> expect_into ua CommaToken b p2;
           (closed, p4) \<leftarrow> or_test (parser_at ua CloseParenToken) (parser_at ua EndOfFileToken) p3;
           (if closed then Some ((False, b1), p4)
            else do {
              (b2, p5) \<leftarrow> child_into (expression (at_tuple_expression_element_boundary ua)) b1 p4;
              Some ((True, b2), p5)
            })
         })
      })
   }"

definition parse_tuple_expression_tail_items :: "unicode_alphanumeric \<Rightarrow> expression_parser \<Rightarrow> boundary_test \<Rightarrow> step" where
  "parse_tuple_expression_tail_items ua expression at_boundary = loop_step (tuple_item_round ua expression at_boundary)"

definition parse_tuple_expression_tail ::
    "unicode_alphanumeric \<Rightarrow> expression_parser \<Rightarrow> syntax_token \<Rightarrow> node_syntax \<Rightarrow> expression_parser" where
  "parse_tuple_expression_tail ua expression open_paren first at_boundary =
     node_from ''tuple_expression.source'' TupleExpression (tr_start (full_range open_paren)) [
       push_given_token OpenParenToken open_paren,
       push_given_child first,
       parse_tuple_expression_tail_items ua expression at_boundary,
       expect_into ua CloseParenToken]"

definition parse_parenthesized_primary_expression :: "unicode_alphanumeric \<Rightarrow> expression_parser \<Rightarrow> expression_parser" where
  "parse_parenthesized_primary_expression ua expression at_boundary p = do {
     (t, p1) \<leftarrow> parser_peek ua p;
     (open_paren, p2) \<leftarrow> parser_expect ua OpenParenToken p1;
     (first, p3) \<leftarrow> expression (at_tuple_expression_element_boundary ua) p2;
     b \<leftarrow> node_builder_new ''primary_expression.source'' (parser_snapshot p3) (tr_start (full_range t));
     (tuple, p4) \<leftarrow> or_test (parser_at ua CommaToken) (at_expression_start ua) p3;
     (n, p5) \<leftarrow> (if tuple then parse_tuple_expression_tail ua expression open_paren first at_boundary p4
       else parse_grouped_expression_tail ua open_paren first p4);
     primary \<leftarrow> node_build PrimaryExpression (push_child n b);
     Some (primary, p5)
   }"

definition array_element_round ::
    "unicode_alphanumeric \<Rightarrow> expression_parser \<Rightarrow> boundary_test \<Rightarrow> node_builder \<Rightarrow> parser \<Rightarrow> (bool \<times> node_builder) parsing" where
  "array_element_round ua expression at_boundary b p = do {
     (closed, p1) \<leftarrow> or_test (parser_at ua CloseBracketToken) (parser_at ua EndOfFileToken) p;
     (if closed then Some ((False, b), p1)
      else do {
        (element, p2) \<leftarrow> or_test (parser_at ua CommaToken) (at_expression_start ua) p1;
        (if element then do {
           (b1, p3) \<leftarrow> expect_into ua CommaToken b p2;
           (closed, p4) \<leftarrow> or_test (parser_at ua CloseBracketToken) (parser_at ua EndOfFileToken) p3;
           (if closed then Some ((False, b1), p4)
            else do {
              (b2, p5) \<leftarrow> child_into (expression (at_array_expression_element_boundary ua at_boundary)) b1 p4;
              Some ((True, b2), p5)
            })
         }
         else do {
           (stop, p3) \<leftarrow> at_boundary p2;
           (if stop then Some ((False, b), p3)
            else do {
              ((skipped, b1), p4) \<leftarrow> recover_until ua node_push_skipped_tokens array_element_recovery_kinds b p3;
              (if skipped then Some ((True, b1), p4)
               else do {
                 (b2, p5) \<leftarrow> recover_current_token ua node_push_skipped_tokens b1 p4;
                 Some ((True, b2), p5)
               })
            })
         })
      })
   }"

definition parse_array_element_tail :: "unicode_alphanumeric \<Rightarrow> expression_parser \<Rightarrow> boundary_test \<Rightarrow> step" where
  "parse_array_element_tail ua expression at_boundary = loop_step (array_element_round ua expression at_boundary)"

definition array_expression_items ::
    "unicode_alphanumeric \<Rightarrow> expression_parser \<Rightarrow> expression_parser \<Rightarrow> boundary_test \<Rightarrow> step list" where
  "array_expression_items ua expression non_assignment at_boundary = [
     child_into (expression (at_array_expression_element_boundary ua at_boundary)),
     if_step (parser_at ua SemicolonToken)
       [expect_into ua SemicolonToken,
        child_into (non_assignment (at_repeated_array_count_boundary ua))]
       [parse_array_element_tail ua expression at_boundary]]"

definition parse_array_expression ::
    "unicode_alphanumeric \<Rightarrow> expression_parser \<Rightarrow> expression_parser \<Rightarrow> (parser \<Rightarrow> node_syntax parsing) \<Rightarrow> expression_parser" where
  "parse_array_expression ua expression non_assignment generator at_boundary =
     parse_node ua ''array_expression.source'' ArrayExpression [
       expect_into ua OpenBracketToken,
       if_step (parser_at ua CloseBracketToken)
         [child_into (missing_expression ua)]
         [if_step (parser_at ua EachKeyword)
            [child_into generator,
             recover_step (recover_until_predicate ua node_push_skipped_tokens
               (or_test (parser_at ua CloseBracketToken) (or_test (parser_at ua SemicolonToken)
                 (or_test (parser_at ua EndOfFileToken) at_boundary))))]
            (array_expression_items ua expression non_assignment at_boundary)],
       expect_into ua CloseBracketToken]"

subsection \<open>Nodes built from a given start keep their tokens\<close>

lemma expression_around_kept:
  assumes "spans ua i inner p" "in_scope S p" "list_all (keeps ua S) ss"
  shows "\<exists>n p' b. expression_around inner ss p = Some (n, p') \<and> spans ua i n p' \<and> frame p p'
    \<and> node_kind (syn_node n) = Expression \<and> holds ua i b p \<and> (\<exists>b'. run_steps ss b p = Some (b', p'))"
proof -
  from syn_full_range_spans [OF assms(1)] obtain r where r: "syn_full_range inner = Some r" "tr_start r = i" .
  obtain b where b: "node_builder_new ''expression.source'' (parser_snapshot p) i = Some b"
    "nb_node b = builder_new" "nb_ok b" "nb_start b = i"
    by (auto simp: node_builder_new_def slot_set_def slot_new_def nb_ok_def)
  have h: "holds ua i (push_child inner b) p"
    using assms(1) b by (auto simp: spans_def holds_def push_child_def nb_ok_def filled_def)
  from keepsE [OF keeps_run_steps [OF assms(3)] h assms(2)] obtain b' p'
    where s: "run_steps ss (push_child inner b) p = Some (b', p')" "holds ua i b' p'" "frame p p'" .
  have "is_node Expression" by (simp add: kind_simps)
  from node_build_spans [OF s(2) this] obtain n where "node_build Expression b' = Some n" "spans ua i n p'"
    "node_kind (syn_node n) = Expression" .
  with r b(1) s h show ?thesis
    by (auto simp: expression_around_def node_from_def push_given_child_def)
qed

lemma test_tail:
  assumes "parser_test ua S at_boundary D"
  shows "parser_test ua S (at_primary_tail_boundary ua at_boundary) (\<lambda>s i. D s i \<or> at_primary_hard_boundary (kind_at ua s i)
    \<or> kind_at ua s i = EqualsToken \<or> at_infix_operator (kind_at ua s i))"
proof
  fix p assume ok: "parser_ok ua p" and sc: "in_scope S p"
  from peek_adv [OF ok] obtain p1 where 1: "parser_peek ua p = Some (ahead ua p, p1)" "advanced ua p p1 []" .
  then have p1: "parser_ok ua p1" "in_scope S p1" "parser_snapshot p1 = parser_snapshot p" "parser_position p1 = parser_position p"
    using sc by (auto simp: advanced_def)
  from testE [OF assms p1(1,2)] obtain p2 where "at_boundary p1 = Some (at_place D p1, p2)" "advanced ua p1 p2 []" .
  with 1 p1 advanced_same [OF 1(2)] parser_ok_wf(4) [OF ok]
  show "\<exists>p'. at_primary_tail_boundary ua at_boundary p = Some (D (parser_snapshot p) (parser_position p)
      \<or> at_primary_hard_boundary (kind_at ua (parser_snapshot p) (parser_position p))
      \<or> kind_at ua (parser_snapshot p) (parser_position p) = EqualsToken
      \<or> at_infix_operator (kind_at ua (parser_snapshot p) (parser_position p)), p') \<and> advanced ua p p' []"
    by (simp add: at_primary_tail_boundary_def)
qed

subsection \<open>Recovery at the nesting limit takes nothing at an operator\<close>

lemma recover_until_predicate_stays:
  assumes "parser_test ua S at_stop D" "holds ua i b p" "in_scope S p" "at_place D p"
  shows "\<exists>b' p'. recover_step (recover_until_predicate ua node_push_skipped_tokens at_stop) b p = Some (b', p')
    \<and> holds ua i b' p' \<and> frame p p' \<and> parser_position p' = parser_position p"
proof -
  note ok = holds_ok [OF assms(2)]
  obtain p' where l: "until_predicate_loop ua at_stop [] p = Some ([], p')" "advanced ua p p' []"
    by (rule test_pair [OF test_at assms(1) ok assms(3), of EndOfFileToken])
      (cases "kind_at ua (parser_snapshot p) (parser_position p) = EndOfFileToken";
        use assms(4) in \<open>auto simp: until_predicate_loop.simps [of ua at_stop "[]" p]\<close>)
  from node_skip [OF assms(2) skips_refl [OF l(2)]] obtain b' where "node_push_skipped_tokens [] b = Some b'"
    "holds ua i b' p'" "frame p p'" .
  moreover have "parser_position p' = parser_position p" using l(2) by (simp add: advanced_def)
  ultimately show ?thesis using l(1) by (auto simp: recover_step_def recover_until_predicate_def)
qed

text \<open>\<open>stays ua f p\<close>: the production returns a node for no token at all.\<close>

definition stays :: "unicode_alphanumeric \<Rightarrow> (parser \<Rightarrow> node_syntax parsing) \<Rightarrow> parser \<Rightarrow> bool" where
  "stays ua f p \<longleftrightarrow> (\<exists>n p'. f p = Some (n, p') \<and> spans ua (parser_position p) n p' \<and> frame p p'
     \<and> parser_position p' = parser_position p)"

lemma limit_stays:
  assumes "parser_test ua everywhere at_boundary D" "parser_ok ua p"
    "at_infix_operator (kind_at ua (parser_snapshot p) (parser_position p))"
  shows "stays ua (recover_expression_nesting_limit ua at_boundary) p"
proof -
  from peek_adv [OF assms(2)] obtain q where q: "parser_peek ua p = Some (ahead ua p, q)" "advanced ua p q []" .
  from start_node_holds [OF assms(2), of "''primary_expression.source''"] obtain b p1
    where 1: "start_node ua ''primary_expression.source'' p = Some (b, p1)" "holds ua (parser_position p) b p1" "frame p p1" .
  from q(1) 1(1) have "p1 = q" by (auto simp: start_node_def run_simps)
  with q(2) have same: "parser_position p1 = parser_position p" "parser_snapshot p1 = parser_snapshot p" by (auto simp: advanced_def)
  from recover_until_predicate_stays [OF test_tail [OF assms(1)] 1(2) in_everywhere] assms(3) same obtain b' p2
    where 2: "recover_step (recover_until_predicate ua node_push_skipped_tokens (at_primary_tail_boundary ua at_boundary)) b p1 = Some (b', p2)"
      "holds ua (parser_position p) b' p2" "frame p1 p2" "parser_position p2 = parser_position p1" by auto
  have "is_node PrimaryExpression" by (simp add: kind_simps)
  from node_build_spans [OF 2(2) this] obtain n where n: "node_build PrimaryExpression b' = Some n" "spans ua (parser_position p) n p2" .
  from expression_around_kept [OF n(2) in_everywhere, of "[]"] obtain m where "expression_around n [] p2 = Some (m, p2)"
    "spans ua (parser_position p) m p2" by auto
  with 1 2 n same frame_trans [OF 1(3) 2(3)] show ?thesis
    by (auto simp: stays_def recover_expression_nesting_limit_def parse_node_def primary_to_expression_def)
qed

lemma nested_stays:
  assumes ok: "parser_ok ua p"
    and inner: "\<And>q. syntax_nesting_depth p < max_syntax_nesting_depth \<Longrightarrow> parser_ok ua q \<Longrightarrow> parser_snapshot q = parser_snapshot p
      \<Longrightarrow> parser_position q = parser_position p \<Longrightarrow> syntax_nesting_depth q = Suc (syntax_nesting_depth p) \<Longrightarrow> stays ua inner q"
    and limit: "\<And>q. parser_ok ua q \<Longrightarrow> parser_snapshot q = parser_snapshot p \<Longrightarrow> parser_position q = parser_position p
      \<Longrightarrow> stays ua limit q"
  shows "stays ua (nested ua inner limit) p"
proof (rule nested_cases [OF ok, of inner limit])
  fix p1 assume 1: "syntax_nesting_depth p < max_syntax_nesting_depth" "parser_ok ua p1" "parser_position p1 = parser_position p"
    "parser_snapshot p1 = parser_snapshot p" "syntax_nesting_depth p1 = Suc (syntax_nesting_depth p)"
    "nested ua inner limit p = do { (x, p2) \<leftarrow> inner p1; p3 \<leftarrow> leave_syntax_nesting p2; Some (x, p3) }"
  from inner [OF 1(1,2,4,3,5)] obtain n p2 where 2: "inner p1 = Some (n, p2)" "spans ua (parser_position p1) n p2" "frame p1 p2"
    "parser_position p2 = parser_position p1" unfolding stays_def by blast
  then have "syntax_nesting_depth p2 = Suc (syntax_nesting_depth p)" using 1(5) by (simp add: frame_def)
  from leave_entered [OF spans_ok [OF 2(2)] this] obtain p3 where 3: "leave_syntax_nesting p2 = Some p3" "parser_ok ua p3"
    "parser_snapshot p3 = parser_snapshot p2" "parser_position p3 = parser_position p2" "syntax_nesting_depth p3 = syntax_nesting_depth p" .
  have "spans ua (parser_position p) n p3" "frame p p3" using 1 2 3 by (auto simp: spans_def frame_def)
  with 1 2 3 show ?thesis by (auto simp: stays_def)
next
  fix p1 assume 1: "advanced ua p p1 []" "nested ua inner limit p = limit p1"
  then have "parser_ok ua p1" "parser_position p1 = parser_position p" "parser_snapshot p1 = parser_snapshot p"
    by (auto simp: advanced_def)
  with limit [of p1] 1 frame_trans [OF advanced_frame [OF 1(1) ok]] show ?thesis by (auto simp: stays_def)
qed

text \<open>The operators that also start an expression.\<close>

definition ambiguous_operators :: "syntax_kind set" where
  "ambiguous_operators = {MinusToken, AmpersandToken, AtToken}"

lemma ambiguous_operators_are: "filter at_infix_operator expression_start_kinds = [AmpersandToken, AtToken, MinusToken]"
  by (simp add: expression_start_kinds_def at_infix_operator_def infix_operator_def)

lemma ambiguous_kinds:
  "k \<in> ambiguous_operators \<Longrightarrow> at_infix_operator k \<and> k \<in> set expression_start_kinds \<and> \<not> at_primary_hard_boundary k
     \<and> \<not> at_assignment_operator k \<and> k \<notin> {CommaToken, CloseParenToken, CloseBracketToken, EndOfFileToken}"
  by (auto simp: ambiguous_operators_def at_infix_operator_def infix_operator_def expression_start_kinds_def
      at_primary_hard_boundary_def at_assignment_operator_def)

text \<open>An expression is refused at the last two levels: the expression or its first operand cannot be entered.\<close>

definition last_levels :: "parser \<Rightarrow> bool" where
  "last_levels p \<longleftrightarrow> max_syntax_nesting_depth \<le> Suc (syntax_nesting_depth p)"

abbreviation whole_expression ::
    "unicode_alphanumeric \<Rightarrow> (boundary_test \<Rightarrow> nat \<Rightarrow> parser \<Rightarrow> node_syntax parsing) \<Rightarrow> expression_parser \<Rightarrow> expression_parser
     \<Rightarrow> expression_parser \<Rightarrow> expression_parser" where
  "whole_expression ua operand postfix case_pattern expression \<equiv> parse_expression_until ua
     (parse_assignment_expression_until ua (parse_non_assignment_expression_until ua operand postfix case_pattern) expression)"

lemma expression_stays:
  assumes t: "parser_test ua everywhere at_boundary D" and ok: "parser_ok ua p" and l: "last_levels p"
    and k: "kind_at ua (parser_snapshot p) (parser_position p) \<in> ambiguous_operators"
  shows "stays ua (whole_expression ua operand postfix case_pattern expression at_boundary) p"
  unfolding parse_expression_until_def
proof (rule nested_stays [OF ok])
  fix q assume q: "parser_ok ua q" "parser_snapshot q = parser_snapshot p" "parser_position q = parser_position p"
  with k ambiguous_kinds show "stays ua (recover_expression_nesting_limit ua at_boundary) q"
    by (intro limit_stays [OF t]) auto
next
  fix q assume d: "syntax_nesting_depth p < max_syntax_nesting_depth" "syntax_nesting_depth q = Suc (syntax_nesting_depth p)"
    and q: "parser_ok ua q" "parser_snapshot q = parser_snapshot p" "parser_position q = parser_position p"
  let ?left = "parse_non_assignment_expression_until ua operand postfix case_pattern"
  have "stays ua (?left at_boundary) q"
    unfolding parse_non_assignment_expression_until_def parse_expression_with_min_binding_power_until_def
  proof (rule nested_stays [OF q(1)])
    fix r assume "syntax_nesting_depth q < max_syntax_nesting_depth"
    with d l show "stays ua (parse_operator_expression ua operand postfix case_pattern at_boundary 0) r"
      by (simp add: last_levels_def)
  next
    fix r assume "parser_ok ua r" "parser_snapshot r = parser_snapshot q" "parser_position r = parser_position q"
    with k q ambiguous_kinds show "stays ua (recover_expression_nesting_limit ua at_boundary) r"
      by (intro limit_stays [OF t]) auto
  qed
  then obtain n q1 where 1: "?left at_boundary q = Some (n, q1)" "spans ua (parser_position q) n q1" "frame q q1"
    "parser_position q1 = parser_position q" unfolding stays_def by blast
  have "kind_at ua (parser_snapshot q1) (parser_position q1) \<in> ambiguous_operators"
    using k q 1(3,4) by (simp add: frame_def)
  then have a: "\<not> at_assignment_operator (kind_at ua (parser_snapshot q1) (parser_position q1))" by (simp add: ambiguous_kinds)
  from testE [OF test_or [OF t test_not [OF test_peek_is [of ua everywhere at_assignment_operator]]] spans_ok [OF 1(2)] in_everywhere] a
  obtain q2 where 2: "or_test at_boundary (not_test (peek_is ua at_assignment_operator)) q1 = Some (True, q2)" "advanced ua q1 q2 []"
    by auto
  have "spans ua (parser_position q) n q2" "parser_position q2 = parser_position q" "frame q q2"
    using 1 2(2) frame_trans [OF 1(3) advanced_frame [OF 2(2) spans_ok [OF 1(2)]]] by (auto simp: spans_def advanced_def)
  with 1(1) 2(1) show "stays ua (parse_assignment_expression_until ua ?left expression at_boundary) q"
    by (simp add: stays_def parse_assignment_expression_until_def)
qed

subsection \<open>The loops that never end\<close>

definition stuck :: "unicode_alphanumeric \<Rightarrow> text_size \<Rightarrow> text_size \<Rightarrow> node_builder \<Rightarrow> parser \<Rightarrow> bool" where
  "stuck ua i j b p \<longleftrightarrow> holds ua i b p \<and> last_levels p \<and> parser_position p = j
     \<and> kind_at ua (parser_snapshot p) j \<in> ambiguous_operators"

lemma stuck_moves:
  assumes "stuck ua i j b p" "holds ua i b' p'" "frame p p'" "parser_position p' = parser_position p"
  shows "stuck ua i j b' p'"
  using assms by (simp add: stuck_def frame_def last_levels_def)

lemma stuck_test:
  assumes "stuck ua i j b p" "parser_test ua everywhere test D"
  obtains p' where "test p = Some (at_place D p, p')" "stuck ua i j b p'" "parser_snapshot p' = parser_snapshot p"
proof -
  from assms(1) have h: "holds ua i b p" by (simp add: stuck_def)
  from testE [OF assms(2) holds_ok [OF h] in_everywhere] obtain p' where t: "test p = Some (at_place D p, p')" "advanced ua p p' []" .
  with stuck_moves [OF assms(1) holds_same [OF h t(2)] advanced_frame [OF t(2) holds_ok [OF h]]] show ?thesis
    by (intro that [of p']) (auto simp: advanced_def)
qed

text \<open>The separator is missing, so it takes nothing either; then the element takes nothing.\<close>

lemma stuck_separator:
  assumes "stuck ua i j b p"
  obtains b' p' where "expect_into ua CommaToken b p = Some (b', p')" "stuck ua i j b' p'"
proof -
  from assms have h: "holds ua i b p" and k: "kind_at ua (parser_snapshot p) (parser_position p) \<in> ambiguous_operators"
    by (simp_all add: stuck_def)
  note ok = holds_ok [OF h]
  have c: "is_token CommaToken" "CommaToken \<noteq> EndOfFileToken" by (simp_all add: kind_simps)
  from expect_adv [OF ok c] obtain t p' g where e: "parser_expect ua CommaToken p = Some (t, p')" "tok_kind t = CommaToken"
    "from_syntax_token t = Some g" "advanced ua p p' [g]" "tok_presence t = Missing \<longleftrightarrow> tok_kind (ahead ua p) \<noteq> CommaToken" by metis
  from push_required_token_holds [OF h e(4,3,2)] obtain b' where b': "push_required_token CommaToken t b = Some b'" "holds ua i b' p'" .
  have "green_presence g = Missing"
    using e(5) k ambiguous_kinds [OF k] parser_ok_wf(4) [OF ok] from_syntax_token_presence [OF e(3)] by auto
  then have "parser_position p' = parser_position p" using e(4) by (auto simp: advanced_def accounts_def)
  with stuck_moves [OF assms b'(2) advanced_frame [OF e(4) ok]] e(1) b'(1) show ?thesis
    by (intro that [of b' p']) (simp_all add: expect_into_def)
qed

lemma stuck_element:
  assumes "stuck ua i j b p" "parser_test ua everywhere at_boundary D"
  obtains b' p' where "child_into (whole_expression ua operand postfix case_pattern expression at_boundary) b p = Some (b', p')"
    "stuck ua i j b' p'"
proof -
  from assms(1) have h: "holds ua i b p" and l: "last_levels p"
    and k: "kind_at ua (parser_snapshot p) (parser_position p) \<in> ambiguous_operators" by (simp_all add: stuck_def)
  let ?f = "whole_expression ua operand postfix case_pattern expression at_boundary"
  from expression_stays [OF assms(2) holds_ok [OF h] l k] obtain n p' where f: "?f p = Some (n, p')"
    "spans ua (parser_position p) n p'" "frame p p'" "parser_position p' = parser_position p" unfolding stays_def by blast
  from holds_push_node [OF h spans_advanced [OF f(2,3)]] f(2) have "holds ua i (push_child n b) p'"
    by (simp add: push_child_def spans_def)
  with stuck_moves [OF assms(1) _ f(3,4)] f(1) show ?thesis
    by (intro that [of "push_child n b" p']) (simp_all add: child_into_def)
qed

lemma tuple_round_stuck:
  assumes "stuck ua i j b p"
  shows "\<exists>b' p'. tuple_item_round ua (whole_expression ua operand postfix case_pattern expression) at_boundary b p
    = Some ((True, b'), p') \<and> stuck ua i j b' p'"
proof -
  let ?f = "whole_expression ua operand postfix case_pattern expression"
  have k: "kind_at ua (parser_snapshot q) (parser_position q) \<in> ambiguous_operators" if "stuck ua i j b q" for b q
    using that by (simp add: stuck_def)
  obtain p1 where 1: "and_test (peek_is ua at_primary_hard_boundary) (not_test (parser_at ua CommaToken)) p = Some (False, p1)"
    "stuck ua i j b p1"
    using stuck_test [OF assms test_and [OF test_peek_is [of ua everywhere at_primary_hard_boundary]
      test_not [OF test_at [of ua everywhere CommaToken]]]] ambiguous_kinds [OF k [OF assms]] by auto
  obtain p2 where 2: "and_test (not_test (parser_at ua CommaToken)) (and_test (not_test (at_expression_start ua)) at_boundary) p1
      = Some (False, p2)" "stuck ua i j b p2"
  proof -
    obtain q where q: "not_test (parser_at ua CommaToken) p1 = Some (True, q)" "stuck ua i j b q"
      using stuck_test [OF 1(2) test_not [OF test_at [of ua everywhere CommaToken]]] ambiguous_kinds [OF k [OF 1(2)]] by auto
    obtain r where "not_test (at_expression_start ua) q = Some (False, r)" "stuck ua i j b r"
      unfolding at_expression_start_def
      using stuck_test [OF q(2) test_not [OF test_peek_is [of ua everywhere "\<lambda>kind. kind \<in> set expression_start_kinds"]]]
        ambiguous_kinds [OF k [OF q(2)]] by auto
    with q show ?thesis by (intro that [of r]) (simp_all add: and_test_def)
  qed
  from stuck_separator [OF 2(2)] obtain b3 p3 where 3: "expect_into ua CommaToken b p2 = Some (b3, p3)" "stuck ua i j b3 p3" .
  obtain p4 where 4: "or_test (parser_at ua CloseParenToken) (parser_at ua EndOfFileToken) p3 = Some (False, p4)" "stuck ua i j b3 p4"
    using stuck_test [OF 3(2) test_or [OF test_at [of ua everywhere CloseParenToken] test_at [of ua everywhere EndOfFileToken]]]
      ambiguous_kinds [OF k [OF 3(2)]] by auto
  have "parser_test ua everywhere (at_tuple_expression_element_boundary ua)
      (\<lambda>s i. kind_at ua s i = CommaToken \<or> kind_at ua s i = CloseParenToken \<or> kind_at ua s i = EndOfFileToken)"
    unfolding at_tuple_expression_element_boundary_def by (rule test_or [OF test_at test_or [OF test_at test_at]])
  from stuck_element [OF 4(2) this] obtain b5 p5 where
    "child_into (?f (at_tuple_expression_element_boundary ua)) b3 p4 = Some (b5, p5)" "stuck ua i j b5 p5" .
  with 1 2 3 4 show ?thesis by (auto simp: tuple_item_round_def)
qed

lemma array_round_stuck:
  assumes "stuck ua i j b p" "parser_test ua everywhere at_boundary D"
  shows "\<exists>b' p'. array_element_round ua (whole_expression ua operand postfix case_pattern expression) at_boundary b p
    = Some ((True, b'), p') \<and> stuck ua i j b' p'"
proof -
  let ?f = "whole_expression ua operand postfix case_pattern expression"
  have k: "kind_at ua (parser_snapshot q) (parser_position q) \<in> ambiguous_operators" if "stuck ua i j b q" for b q
    using that by (simp add: stuck_def)
  obtain p1 where 1: "or_test (parser_at ua CloseBracketToken) (parser_at ua EndOfFileToken) p = Some (False, p1)" "stuck ua i j b p1"
    using stuck_test [OF assms(1) test_or [OF test_at [of ua everywhere CloseBracketToken] test_at [of ua everywhere EndOfFileToken]]]
      ambiguous_kinds [OF k [OF assms(1)]] by auto
  obtain p2 where 2: "or_test (parser_at ua CommaToken) (at_expression_start ua) p1 = Some (True, p2)" "stuck ua i j b p2"
    unfolding at_expression_start_def
    using stuck_test [OF 1(2) test_or [OF test_at [of ua everywhere CommaToken]
        test_peek_is [of ua everywhere "\<lambda>kind. kind \<in> set expression_start_kinds"]]]
      ambiguous_kinds [OF k [OF 1(2)]] by auto
  from stuck_separator [OF 2(2)] obtain b3 p3 where 3: "expect_into ua CommaToken b p2 = Some (b3, p3)" "stuck ua i j b3 p3" .
  obtain p4 where 4: "or_test (parser_at ua CloseBracketToken) (parser_at ua EndOfFileToken) p3 = Some (False, p4)" "stuck ua i j b3 p4"
    using stuck_test [OF 3(2) test_or [OF test_at [of ua everywhere CloseBracketToken] test_at [of ua everywhere EndOfFileToken]]]
      ambiguous_kinds [OF k [OF 3(2)]] by auto
  have "\<exists>E. parser_test ua everywhere (at_array_expression_element_boundary ua at_boundary) E" 
    unfolding at_array_expression_element_boundary_def
    by (rule exI, rule test_or [OF test_at test_or [OF test_at test_or [OF test_at_any assms(2)]]])
  then obtain E where "parser_test ua everywhere (at_array_expression_element_boundary ua at_boundary) E" ..
  from stuck_element [OF 4(2) this] obtain b5 p5 where
    "child_into (?f (at_array_expression_element_boundary ua at_boundary)) b3 p4 = Some (b5, p5)" "stuck ua i j b5 p5" .
  with 1 2 3 4 show ?thesis by (auto simp: array_element_round_def)
qed

lemma stuck_loops:
  assumes "stuck ua i j b p"
    and "\<And>b p. stuck ua i j b p \<Longrightarrow> \<exists>b' p'. turn b p = Some ((True, b'), p') \<and> stuck ua i j b' p'"
  shows "loop_step turn b p = None"
    "\<exists>b' p'. loop_rounds turn k b p = Some ((True, b'), p') \<and> parser_position p' = j"
  using loop_diverges [of "stuck ua i j" turn, OF assms(2,1)] loop_rounds_continue [of "stuck ua i j" turn, OF assms(2,1), of k]
  by (auto simp: stuck_def)

lemma expect_hit:
  assumes "parser_ok ua p" "tok_kind (ahead ua p) = k" "k \<noteq> EndOfFileToken"
  obtains p' g where "parser_expect ua k p = Some (ahead ua p, p')" "parser_position p' = full_end (ahead ua p)"
    "from_syntax_token (ahead ua p) = Some g" "advanced ua p p' [g]"
proof -
  have c: "cursor_ok ua (parser_cursor p)" using assms(1) by (simp add: parser_ok_def)
  from cursor_expect_hit [OF c assms(2)] obtain c' where c': "cursor_expect ua k (parser_cursor p) = Some (ahead ua p, c')"
    "moved_over (ahead ua p) (parser_cursor p) c'" "k \<noteq> EndOfFileToken \<longrightarrow> cursor_ok ua c'" .
  have ne: "\<not> is_end_of_file (ahead ua p)" using assms(2,3) by (simp add: is_end_of_file_def)
  from c'(3) assms(3) have "cursor_ok ua c'" by simp
  from advanced_moved [OF assms(1) c'(2) this ne] obtain g where "from_syntax_token (ahead ua p) = Some g"
    "advanced ua p (p\<lparr>parser_cursor := c'\<rparr>) [g]" .
  with c' show ?thesis
    by (intro that [of "p\<lparr>parser_cursor := c'\<rparr>" g]) (auto simp: parser_expect_def on_cursor_def moved_over_def)
qed

subsection \<open>The text \<open>(-\<close>\<close>

definition paren_minus :: source_snapshot where
  "paren_minus = text_snapshot ''(-''"

abbreviation bare_token :: "syntax_kind \<Rightarrow> text_size \<Rightarrow> text_size \<Rightarrow> syntax_token" where
  "bare_token kind i j \<equiv> \<lparr>tok_kind = kind, tok_range = \<lparr>tr_start = i, tr_end = j\<rparr>, tok_presence = Present,
     leading_trivia = [], trailing_trivia = []\<rparr>"

lemma paren_minus_text [simp]: "snap_text paren_minus = ''(-''" "snap_text_len paren_minus = 2"
  by (simp_all add: paren_minus_def text_snapshot_def)

lemma paren_minus_wf: "snapshot_wf paren_minus"
  unfolding paren_minus_def by (rule text_snapshot_wf) (simp_all add: u32_max_def)

lemma paren_minus_kinds: "from_fixed_text ''('' = Some OpenParenToken" "from_fixed_text ''-'' = Some MinusToken"
    "encode_utf8 40 = ''(''" "encode_utf8 45 = ''-''"
  by code_simp+

lemma paren_minus_characters: "first_character paren_minus 0 = Some (Some 40)" "first_character paren_minus 1 = Some (Some 45)"
  by (simp_all add: first_character_def str_get_from_def is_char_boundary_def next_char_def is_continuation_def)

lemma paren_minus_tokens: "make_token OpenParenToken 0 1 = Some (bare_token OpenParenToken 0 1)"
  "make_token MinusToken 1 2 = Some (bare_token MinusToken 1 2)"
  by (simp_all add: make_token_def text_range_new_def token_new_def token_with_trivia_def token_with_trivia_and_presence_def
      kind_simps assert_run_def text_range_is_empty_def run_simps)

lemma paren_minus_trivia:
  "scan_leading_trivia paren_minus 0 = Some (trivia_scan_done paren_minus [] 0 [])"
  "scan_leading_trivia paren_minus 1 = Some (trivia_scan_done paren_minus [] 1 [])"
  "scan_trailing_trivia paren_minus 1 = Some (trivia_scan_done paren_minus [] 1 [])"
  "scan_trailing_trivia paren_minus 2 = Some (trivia_scan_done paren_minus [] 2 [])"
  by (simp_all add: scan_leading_trivia_def scan_trailing_trivia_def leading_loop.simps trailing_loop.simps
      scan_trivia_at_def get_def)

lemmas paren_minus_simps = paren_minus_characters paren_minus_kinds paren_minus_tokens is_ascii_alphabetic_def is_ascii_digit_def
  delimiter_or_separator_kind_def from_fixed_character_def

lemma paren_minus_open: "scan_normal_token ua paren_minus 0 = Some (scan_clean (bare_token OpenParenToken 0 1))"
proof -
  have "offset_after_character 0 40 = Some 1"
    by (simp add: offset_after_character_def text_size_checked_add_def u32_max_def len_utf8_def text_size_from_usize_def
        text_size_try_from_def)
  then show ?thesis
    by (simp add: scan_normal_token_def paren_minus_simps clean_scalar_token_def make_scalar_token_def del: One_nat_def)
qed

lemma paren_minus_operator: "scan_normal_token ua paren_minus 1 = Some (scan_clean (bare_token MinusToken 1 2))"
proof -
  have e: "operator_cluster_end paren_minus 1 = Some 2"
    by (simp add: operator_cluster_end_def operator_loop.simps get_def is_operator_cluster_character_def
        text_size_from_usize_def text_size_try_from_def u32_max_def)
  have t: "token_text paren_minus \<lparr>tr_start = 1, tr_end = 2\<rparr> = Some ''-''"
    by (simp add: token_text_def snapshot_text_slice_def text_range_slice_str_def str_get_range_def is_char_boundary_def
        segment_def is_continuation_def)
  have d: "drop 1 ''(-'' = ''-''" by simp
  have "scan_operator_or_punctuation_token paren_minus 1 = clean_token MinusToken 1 2"
    by (simp add: scan_operator_or_punctuation_token_def e t d Let_def text_range_new_def operator_or_punctuation_kind_def
        paren_minus_kinds del: One_nat_def drop_Suc_Cons)
  then show ?thesis
    by (simp add: scan_normal_token_def paren_minus_simps is_operator_cluster_character_def clean_token_def del: One_nat_def)
qed

lemma paren_minus_token_at:
  "token_at ua paren_minus 0 = bare_token OpenParenToken 0 1" "kind_at ua paren_minus 1 = MinusToken"
  by (simp_all add: token_at_def scan_token_at_def scan_token_core_def paren_minus_trivia paren_minus_open paren_minus_operator
      trivia_scan_done_def with_leading_trivia_def with_trailing_trivia_def assert_run_def scan_clean_def
      scan_with_diagnostics_def Let_def del: One_nat_def)

definition parser_at_level :: "nat \<Rightarrow> parser" where
  "parser_at_level depth = (parser_new paren_minus)\<lparr>syntax_nesting_depth := depth\<rparr>"

lemma parser_at_level_ok: "depth \<le> 128 \<Longrightarrow> parser_ok ua (parser_at_level depth)"
  using parser_ok_new [OF paren_minus_wf] by (simp add: parser_at_level_def parser_ok_def max_syntax_nesting_depth_def)

lemma parser_at_level_simps [simp]: "parser_position (parser_at_level depth) = 0" "parser_snapshot (parser_at_level depth) = paren_minus"
    "syntax_nesting_depth (parser_at_level depth) = depth"
  by (simp_all add: parser_at_level_def parser_new_def parser_cursor_new_def token_source_new_def with_cache_policy_def)

text \<open>
  C6. The loops over tuple elements and array elements do not end when the parser stands at the last two
  nesting levels before an operator that can also start an expression (\<open>-\<close>, \<open>&\<close> or \<open>@\<close>): every round pushes a
  missing comma and an empty expression, takes no token, and asks for one more. This is so whatever the
  rest of the expression grammar does, for every number of rounds and every builder, and no round panics.
\<close>

theorem element_loops_diverge:
  assumes "holds ua i b p" "127 \<le> syntax_nesting_depth p" "parser_test ua everywhere at_boundary stops"
    "kind_at ua (parser_snapshot p) (parser_position p) \<in> {MinusToken, AmpersandToken, AtToken}"
    and "expression = parse_expression_until ua (parse_assignment_expression_until ua
      (parse_non_assignment_expression_until ua operand postfix case_pattern) nested_expression)"
    and "turn \<in> {tuple_item_round ua expression at_boundary, array_element_round ua expression at_boundary}"
  shows "loop_step turn b p = None
    \<and> (\<exists>b' p'. loop_rounds turn k b p = Some ((True, b'), p') \<and> parser_position p' = parser_position p)"
proof -
  have s: "stuck ua i (parser_position p) b p"
    using assms(1,2,4) by (simp add: stuck_def last_levels_def max_syntax_nesting_depth_def ambiguous_operators_def)
  have "\<exists>b' p'. turn b p = Some ((True, b'), p') \<and> stuck ua i j b' p'" if "stuck ua i j b p" for j b p
    using that assms(6) tuple_round_stuck [OF that] array_round_stuck [OF that assms(3)] unfolding assms(5) by auto
  with stuck_loops [OF s, of turn] show ?thesis by blast
qed

theorem element_loops_diverge_witness:
  "\<exists>b p. loop_step (tuple_item_round (\<lambda>_. False)
      (parse_expression_until (\<lambda>_. False) (parse_assignment_expression_until (\<lambda>_. False)
        (parse_non_assignment_expression_until (\<lambda>_. False) (\<lambda>_ _ _. None) (\<lambda>_ _. None) (\<lambda>_ _. None)) (\<lambda>_ _. None)))
      (\<lambda>q. Some (False, q))) b p = None \<and> parser_position p = 1 \<and> syntax_nesting_depth p = 128"
proof -
  let ?ua = "\<lambda>_. False" and ?p = "parser_at_level 128"
  have ok: "parser_ok ?ua ?p" by (rule parser_at_level_ok) simp
  have k: "tok_kind (ahead ?ua ?p) = OpenParenToken" "OpenParenToken \<noteq> EndOfFileToken"
    using parser_ok_wf(4) [OF ok] by (simp_all add: paren_minus_token_at)
  from expect_hit [OF ok k] obtain p' g where p': "parser_position p' = full_end (ahead ?ua ?p)" "advanced ?ua ?p p' [g]" by blast
  have pos: "parser_position p' = 1" "parser_snapshot p' = paren_minus" "syntax_nesting_depth p' = 128"
    using p' parser_ok_wf(4) [OF ok] by (auto simp: advanced_def paren_minus_token_at full_range_def)
  have "parser_ok ?ua p'" using p'(2) by (simp add: advanced_def)
  from filled_new [OF this] pos(1) have "holds ?ua 1 \<lparr>nb_source = \<lparr>slot_name = ''s'', slot_value = Some paren_minus\<rparr>,
      nb_node = builder_new, nb_start = 1\<rparr> p'"
    by (simp add: holds_def nb_ok_def)
  from element_loops_diverge [OF this _ test_never _ refl insertI1, where operand = "\<lambda>_ _ _. None" and postfix = "\<lambda>_ _. None"
      and case_pattern = "\<lambda>_ _. None" and nested_expression = "\<lambda>_ _. None"] pos
  show ?thesis by (intro exI conjI) (auto simp: paren_minus_token_at simp del: One_nat_def)
qed

text \<open>
  C7. So a parenthesized expression never returns at the last two nesting levels when it starts with such an
  operator: the parser gets to the loop over the elements of a tuple, with a builder that holds the open
  parenthesis, and every round of the loop asks for one more. Every pair of parentheses takes two levels, so 64 pairs around \<open>-1\<close> keep the parser busy forever.
\<close>

theorem parenthesized_operator_diverges:
  assumes "parser_ok ua p" "127 \<le> syntax_nesting_depth p"
    "kind_at ua (parser_snapshot p) (parser_position p) = OpenParenToken"
    "kind_at ua (parser_snapshot p) (full_end (token_at ua (parser_snapshot p) (parser_position p)))
      \<in> {MinusToken, AmpersandToken, AtToken}"
    and "expression = parse_expression_until ua (parse_assignment_expression_until ua
      (parse_non_assignment_expression_until ua operand postfix case_pattern) nested_expression)"
  shows "parse_parenthesized_primary_expression ua expression at_boundary p = None
    \<and> (\<exists>b q. holds ua (parser_position p) b q
        \<and> parser_position q = full_end (token_at ua (parser_snapshot p) (parser_position p))
        \<and> (\<forall>k. \<exists>b' q'. loop_rounds (tuple_item_round ua expression at_boundary) k b q = Some ((True, b'), q')
            \<and> parser_position q' = parser_position q))"
proof -
  let ?i = "parser_position p" and ?j = "full_end (token_at ua (parser_snapshot p) (parser_position p))"
  from peek_adv [OF assms(1)] obtain p1 where 1: "parser_peek ua p = Some (ahead ua p, p1)" "advanced ua p p1 []" .
  have ok1: "parser_ok ua p1" using 1(2) by (simp add: advanced_def)
  have a1: "ahead ua p1 = ahead ua p" "parser_position p1 = ?i" using advanced_ahead [OF 1(2) assms(1)] by auto
  have "tok_kind (ahead ua p1) = OpenParenToken" using a1 parser_ok_wf(4) [OF assms(1)] assms(3) by simp
  from expect_hit [OF ok1 this] obtain p2 g where 2: "parser_expect ua OpenParenToken p1 = Some (ahead ua p1, p2)"
    "parser_position p2 = full_end (ahead ua p1)" "from_syntax_token (ahead ua p1) = Some g" "advanced ua p1 p2 [g]" by auto
  have ok2: "parser_ok ua p2" using 2(4) by (simp add: advanced_def)
  have a2: "parser_position p2 = ?j" "parser_snapshot p2 = parser_snapshot p" "syntax_nesting_depth p2 = syntax_nesting_depth p"
    using 1(2) 2 a1 parser_ok_wf(4) [OF assms(1)] by (auto simp: advanced_def)
  let ?T = "tuple_item_round ua expression at_boundary"
  let ?at = "at_tuple_expression_element_boundary ua"
  have t: "parser_test ua everywhere ?at
      (\<lambda>s i. kind_at ua s i = CommaToken \<or> kind_at ua s i = CloseParenToken \<or> kind_at ua s i = EndOfFileToken)"
    unfolding at_tuple_expression_element_boundary_def by (rule test_or [OF test_at test_or [OF test_at test_at]])
  have k: "kind_at ua (parser_snapshot p) ?j \<in> ambiguous_operators" using assms(4) by (simp add: ambiguous_operators_def)
  have l: "last_levels p2" using assms(2) a2 by (simp add: last_levels_def max_syntax_nesting_depth_def)
  have "stays ua (expression ?at) p2" unfolding assms(5) by (rule expression_stays [OF t ok2 l]) (use k a2 in simp)
  then obtain first p3 where 3: "expression ?at p2 = Some (first, p3)" "spans ua (parser_position p2) first p3" "frame p2 p3"
    "parser_position p3 = parser_position p2" unfolding stays_def by blast
  have a3: "kind_at ua (parser_snapshot p3) (parser_position p3) \<in> set expression_start_kinds"
    using 3(3,4) a2 ambiguous_kinds [OF k] by (simp add: frame_def)
  from testE [OF test_or [OF test_at [of ua everywhere CommaToken] test_peek_is [of ua everywhere
      "\<lambda>kind. kind \<in> set expression_start_kinds"]] spans_ok [OF 3(2)] in_everywhere] a3
  obtain p4 where 4: "or_test (parser_at ua CommaToken) (at_expression_start ua) p3 = Some (True, p4)" "advanced ua p3 p4 []"
    by (auto simp: at_expression_start_def)
  obtain b0 where b0: "node_builder_new ''tuple_expression.source'' (parser_snapshot p4) ?i = Some b0"
    "nb_node b0 = builder_new" "nb_ok b0" "nb_start b0 = ?i"
    by (auto simp: node_builder_new_def slot_set_def slot_new_def nb_ok_def)
  have "holds ua ?i b0 p1" using b0 filled_new [OF ok1] a1 by (simp add: holds_def)
  from push_required_token_holds [OF this 2(4,3)] \<open>tok_kind (ahead ua p1) = OpenParenToken\<close> obtain b1
    where b1: "push_required_token OpenParenToken (ahead ua p1) b0 = Some b1" "holds ua ?i b1 p2" by blast
  from holds_push_node [OF b1(2) spans_advanced [OF 3(2,3)]] 3(2) have "holds ua ?i (push_child first b1) p3"
    by (simp add: push_child_def spans_def)
  from holds_same [OF this 4(2)] have h: "holds ua ?i (push_child first b1) p4" .
  have s: "stuck ua ?i ?j (push_child first b1) p4"
    using h k l 3(3,4) 4(2) a2 by (auto simp: stuck_def last_levels_def frame_def advanced_def)
  have "\<exists>b' p'. ?T b p = Some ((True, b'), p') \<and> stuck ua ?i ?j b' p'" if "stuck ua ?i ?j b p" for b p
    unfolding assms(5) by (rule tuple_round_stuck [OF that])
  note loops = stuck_loops [OF s, of ?T, OF this]
  obtain primary where pb: "node_builder_new ''primary_expression.source'' (parser_snapshot p3) ?i = Some primary"
    by (auto simp: node_builder_new_def slot_set_def slot_new_def)
  have start: "tr_start (full_range (ahead ua p)) = ?i" by (rule ahead_full_start [OF assms(1)])
  have "parser_position p4 = ?j" using s by (simp add: stuck_def)
  moreover have "parse_parenthesized_primary_expression ua expression at_boundary p = None"
    using 1(1) 2(1) 3(1) 4(1) b0(1) b1(1) pb start a1(1) loops(1)
    by (simp add: parse_parenthesized_primary_expression_def parse_tuple_expression_tail_def node_from_def
        push_given_token_def push_given_child_def parse_tuple_expression_tail_items_def)
  ultimately show ?thesis using loops(2) h by (intro conjI exI [of _ "push_child first b1"] exI [of _ p4]) auto
qed

theorem parenthesized_operator_diverges_witness:
  "parse_parenthesized_primary_expression (\<lambda>_. False)
      (parse_expression_until (\<lambda>_. False) (parse_assignment_expression_until (\<lambda>_. False)
        (parse_non_assignment_expression_until (\<lambda>_. False) (\<lambda>_ _ _. None) (\<lambda>_ _. None) (\<lambda>_ _. None)) (\<lambda>_ _. None)))
      (\<lambda>q. Some (False, q)) (parser_at_level 128) = None"
proof -
  have "parser_ok (\<lambda>_. False) (parser_at_level 128)" by (rule parser_at_level_ok) simp
  from parenthesized_operator_diverges [OF this _ _ _ refl, of "\<lambda>_ _ _. None" "\<lambda>_ _. None" "\<lambda>_ _. None" "\<lambda>_ _. None"
      "\<lambda>q. Some (False, q)"]
  show ?thesis by (simp add: paren_minus_token_at full_range_def del: One_nat_def)
qed

end
