(* ===== verification/Ordered_Map.thy ===== *)
theory Ordered_Map
  imports Main
begin

text \<open>
  The ordered maps of the Rust standard library as the components use them: an association list
  strictly ascending in its keys, which is the order of iteration. A map is determined by its
  bindings, so that removing a binding and inserting it again gives the same map.
\<close>

type_synonym ('k, 'v) ordered_map = "('k \<times> 'v) list"

abbreviation map_ok :: "('k::linorder, 'v) ordered_map \<Rightarrow> bool" where
  "map_ok m \<equiv> sorted_wrt (<) (map fst m)"

definition map_remove :: "'k \<Rightarrow> ('k::linorder, 'v) ordered_map \<Rightarrow> ('k, 'v) ordered_map" where
  "map_remove k m = filter (\<lambda>b. fst b \<noteq> k) m"

definition map_insert :: "'k \<Rightarrow> 'v \<Rightarrow> ('k::linorder, 'v) ordered_map \<Rightarrow> ('k, 'v) ordered_map" where
  "map_insert k v m = insort_key fst (k, v) (map_remove k m)"

text \<open>\<open>iter.collect::<BTreeMap<_, _>>()\<close>: a later binding of a key replaces an earlier one.\<close>

definition map_collect :: "('k::linorder \<times> 'v) list \<Rightarrow> ('k, 'v) ordered_map" where
  "map_collect bs = foldl (\<lambda>m b. map_insert (fst b) (snd b) m) [] bs"

lemma set_map_remove [simp]: "set (map_remove k m) = {b \<in> set m. fst b \<noteq> k}"
  by (simp add: map_remove_def)

lemma set_map_insert [simp]: "set (map_insert k v m) = insert (k, v) {b \<in> set m. fst b \<noteq> k}"
  by (simp add: map_insert_def set_insort_key)

lemma map_remove_ok [simp]: "map_ok m \<Longrightarrow> map_ok (map_remove k m)"
  unfolding map_remove_def by (induction m) auto

lemma map_insert_ok [simp]: "map_ok m \<Longrightarrow> map_ok (map_insert k v m)"
proof -
  assume m: "map_ok m"
  then have r: "map_ok (map_remove k m)" by simp
  have "distinct (map fst (insort_key fst (k, v) (map_remove k m)))"
    using r by (subst distinct_insort_key) (auto simp: strict_sorted_iff)
  moreover have "sorted (map fst (insort_key fst (k, v) (map_remove k m)))"
    using r by (simp add: sorted_insort_key strict_sorted_iff)
  ultimately show ?thesis by (simp add: map_insert_def strict_sorted_iff)
qed

lemma map_unique:
  assumes "map_ok m" "map_ok m'" "set m = set m'"
  shows "m = m'"
proof (rule map_sorted_distinct_set_unique [where f = fst])
  show "inj_on fst (set m \<union> set m')"
    using assms by (simp add: strict_sorted_iff distinct_map)
qed (use assms in \<open>simp_all add: strict_sorted_iff\<close>)

lemma map_of_ok_iff: "map_ok m \<Longrightarrow> map_of m k = Some v \<longleftrightarrow> (k, v) \<in> set m"
  by (simp add: strict_sorted_iff)

lemma map_remove_insert:
  assumes "map_ok m" "map_of m k = Some v"
  shows "map_insert k v (map_remove k m) = m"
proof (rule map_unique)
  have only: "(k, w) \<in> set m \<longleftrightarrow> w = v" for w
    using assms(2) map_of_ok_iff [OF assms(1), of k w] by auto
  show "set (map_insert k v (map_remove k m)) = set m"
  proof (rule set_eqI)
    fix b
    show "b \<in> set (map_insert k v (map_remove k m)) \<longleftrightarrow> b \<in> set m"
      using only [of "snd b"] by (cases "fst b = k"; cases b) auto
  qed
qed (use assms in simp_all)

lemma map_collect_ok [simp]: "map_ok (map_collect bs)"
proof -
  have "map_ok m \<Longrightarrow> map_ok (foldl (\<lambda>m b. map_insert (fst b) (snd b) m) m bs)" for m
    by (induction bs arbitrary: m) simp_all
  then show ?thesis by (simp add: map_collect_def)
qed

lemma set_map_collect:
  assumes "distinct (map fst bs)"
  shows "set (map_collect bs) = set bs"
proof -
  have "set (foldl (\<lambda>m b. map_insert (fst b) (snd b) m) m bs) = set m \<union> set bs"
    if "distinct (map fst bs)" "fst ` set m \<inter> fst ` set bs = {}" for m
    using that
  proof (induction bs arbitrary: m)
    case (Cons b bs)
    have "set (map_insert (fst b) (snd b) m) = insert b (set m)"
      using Cons.prems(2) by (cases b) force
    moreover from this have "fst ` set (map_insert (fst b) (snd b) m) \<inter> fst ` set bs = {}"
      using Cons.prems by auto
    ultimately show ?case using Cons.IH [of "map_insert (fst b) (snd b) m"] Cons.prems by simp
  qed simp
  from this [OF assms, of "[]"] show ?thesis by (simp add: map_collect_def)
qed

lemma map_collect_eq:
  assumes "distinct (map fst bs)"
  shows "map_collect bs = sort_key fst bs"
proof (rule map_unique [OF map_collect_ok])
  show "map_ok (sort_key fst bs)"
    using assms by (simp add: strict_sorted_iff distinct_map)
qed (simp add: set_map_collect [OF assms])

subsection \<open>Keys and lookup after an insertion\<close>

lemma keys_map_insert: "fst ` set (map_insert k v m) = insert k (fst ` set m)"
  by (auto simp: image_iff)

lemma keys_replaced: "insert k (fst ` {b \<in> set m. fst b \<noteq> k}) = insert k (fst ` set m)"
    "insert k (fst ` {b \<in> set m. fst b \<noteq> k} \<union> X) = insert k (fst ` set m \<union> X)"
  by (auto simp: image_iff)

lemma map_of_map_insert:
  assumes "map_ok m"
  shows "map_of (map_insert k v m) x = (if x = k then Some v else map_of m x)"
proof -
  have "map_of (map_insert k v m) x = Some w \<longleftrightarrow> (if x = k then Some v else map_of m x) = Some w" for w
    using assms by (auto simp: map_of_ok_iff)
  then show ?thesis by (metis not_None_eq)
qed

lemma map_of_keys: "map_of m x \<noteq> None \<longleftrightarrow> x \<in> fst ` set m"
  by (simp add: map_of_eq_None_iff)

lemmas map_insert_simps = keys_replaced map_of_map_insert

subsection \<open>Maps to lists\<close>

text \<open>\<open>entry(key).or_default()\<close>, or the iteration over what \<open>get(key)\<close> finds.\<close>

definition listed :: "('a, 'b list) ordered_map \<Rightarrow> 'a \<Rightarrow> 'b list" where
  "listed m k = (case map_of m k of None \<Rightarrow> [] | Some xs \<Rightarrow> xs)"

lemma listed_map_insert: "map_ok m \<Longrightarrow> listed (map_insert k xs m) x = (if x = k then xs else listed m x)"
  by (simp add: listed_def map_of_map_insert)

lemma listed_iff: "map_ok m \<Longrightarrow> y \<in> set (listed m x) \<longleftrightarrow> (\<exists>ys. (x, ys) \<in> set m \<and> y \<in> set ys)"
  by (cases "map_of m x") (auto simp: listed_def map_of_ok_iff [symmetric])

end
