(* ===== verification/Test_Schedule.thy ===== *)
theory Test_Schedule
  imports Bray_Prelude Ordered_Map "HOL-Library.Multiset"
begin

text \<open>
  The admission schedule of the test runner (\<open>crates/bray-test-protocol/src/scheduling.rs\<close>): the
  validated execution plan and the state machine that admits, completes and stops invocations. Test
  identities are any linearly ordered type, because the schedule only compares them; the metadata of
  an entry, the timeout of an invocation and the outcome of a result, which it passes through, are
  type parameters. The lemmas show the invariant of every reachable state and that the schedule
  cannot get stuck.
\<close>

subsection \<open>Plans\<close>

datatype test_execution_mode = Sequential | Parallel nat

definition maximum_concurrency :: "test_execution_mode \<Rightarrow> nat" where
  "maximum_concurrency mode = (case mode of Sequential \<Rightarrow> 1 | Parallel n \<Rightarrow> n)"

datatype test_execution_constraint = ParallelConstraint | SerialConstraint

record test_capture_limits =
  per_stream_byte_limit :: nat
  invocation_byte_limit :: nat

datatype test_capture_policy = Captured test_capture_limits | Inherited | Discarded

definition capture_reservation :: "test_capture_policy \<Rightarrow> nat" where
  "capture_reservation policy = (case policy of
     Captured limits \<Rightarrow> invocation_byte_limit limits
   | Inherited \<Rightarrow> 0
   | Discarded \<Rightarrow> 0)"

record ('i, 'm) test_entry_metadata =
  entry_identity :: 'i
  entry_constraint :: test_execution_constraint
  entry_details :: 'm

record ('i, 't) test_invocation_plan =
  invocation_identity :: 'i
  invocation_timeout :: 't
  invocation_capture :: test_capture_policy

record ('i, 'o) test_invocation_result =
  result_identity :: 'i
  result_outcome :: 'o

datatype 'i test_execution_plan_build_error =
    InvocationCountMismatch nat nat
  | InvocationIdentityMismatch 'i
  | DuplicateIdentity 'i
  | CaptureBudgetExceeded 'i nat nat

record ('i, 'm, 't) test_execution_plan =
  plan_entries :: "('i, 'm) test_entry_metadata list"
  plan_invocations :: "('i, 't) test_invocation_plan list"
  plan_mode :: test_execution_mode
  capture_byte_budget :: nat

fun find_window :: "('a \<Rightarrow> 'a \<Rightarrow> bool) \<Rightarrow> 'a list \<Rightarrow> ('a \<times> 'a) option" where
  "find_window p (x # y # zs) = (if p x y then Some (x, y) else find_window p (y # zs))"
| "find_window p _ = None"

fun check_invocations ::
    "nat \<Rightarrow> (('i, 'm) test_entry_metadata \<times> ('i, 't) test_invocation_plan) list
     \<Rightarrow> 'i test_execution_plan_build_error option" where
  "check_invocations budget [] = None"
| "check_invocations budget ((entry, invocation) # rest) =
     (if entry_identity entry \<noteq> invocation_identity invocation
        then Some (InvocationIdentityMismatch (invocation_identity invocation))
      else (let required = capture_reservation (invocation_capture invocation) in
        if budget < required
          then Some (CaptureBudgetExceeded (invocation_identity invocation) required budget)
        else check_invocations budget rest))"

definition plan_try_new ::
    "('i::linorder, 'm) test_entry_metadata list list \<Rightarrow> ('i, 't) test_invocation_plan list
     \<Rightarrow> test_execution_mode \<Rightarrow> nat
     \<Rightarrow> 'i test_execution_plan_build_error + ('i, 'm, 't) test_execution_plan" where
  "plan_try_new selections invocations mode budget =
     (let entries = sort_key entry_identity (concat selections) in
      case find_window (\<lambda>x y. entry_identity x = entry_identity y) entries of
        Some (_, duplicate) \<Rightarrow> Inl (DuplicateIdentity (entry_identity duplicate))
      | None \<Rightarrow>
          (let invocations = sort_key invocation_identity invocations in
           if length entries \<noteq> length invocations
             then Inl (InvocationCountMismatch (length entries) (length invocations))
           else case check_invocations budget (zip entries invocations) of
             Some err \<Rightarrow> Inl err
           | None \<Rightarrow> Inr \<lparr>plan_entries = entries, plan_invocations = invocations,
               plan_mode = mode, capture_byte_budget = budget\<rparr>))"

subsection \<open>The schedule\<close>

record ('i, 'm, 't) test_admission =
  admission_index :: nat
  admission_entry :: "('i, 'm) test_entry_metadata"
  admission_invocation :: "('i, 't) test_invocation_plan"

datatype 'f test_stop_reason = Cancelled | InfrastructureFailure 'f

datatype 'i test_scheduling_error = InvocationNotActive 'i | ResultIdentityMismatch 'i

record active_admission =
  active_index :: nat
  active_bytes :: nat
  active_is_serial :: bool

record ('i, 'm, 't, 'o, 'f) test_admission_schedule =
  sch_plan :: "('i, 'm, 't) test_execution_plan"
  sch_next_index :: nat
  sch_active :: "('i, active_admission) ordered_map"
  sch_completed :: "('i, 'o) test_invocation_result option list"
  sch_active_capture_bytes :: nat
  sch_active_serial :: bool
  sch_stop_reason :: "'f test_stop_reason option"

definition schedule_new ::
    "('i, 'm, 't) test_execution_plan \<Rightarrow> ('i, 'm, 't, 'o, 'f) test_admission_schedule" where
  "schedule_new plan = \<lparr>sch_plan = plan, sch_next_index = 0, sch_active = [],
     sch_completed = replicate (length (plan_entries plan)) None, sch_active_capture_bytes = 0,
     sch_active_serial = False, sch_stop_reason = None\<rparr>"

text \<open>
  \<open>admit_next\<close>; the sum of the reserved bytes is a \<open>u64\<close> and the index into the invocations is
  checked, so both can panic.
\<close>

definition admit_next ::
    "('i::linorder, 'm, 't, 'o, 'f) test_admission_schedule
     \<Rightarrow> (('i, 'm, 't) test_admission option \<times> ('i, 'm, 't, 'o, 'f) test_admission_schedule) run" where
  "admit_next sch =
     (if sch_stop_reason sch \<noteq> None \<or> sch_active_serial sch
         \<or> maximum_concurrency (plan_mode (sch_plan sch)) \<le> length (sch_active sch)
      then Some (None, sch)
      else case get (plan_entries (sch_plan sch)) (sch_next_index sch) of
        None \<Rightarrow> Some (None, sch)
      | Some entry \<Rightarrow> do {
          invocation \<leftarrow> get (plan_invocations (sch_plan sch)) (sch_next_index sch);
          let serial = (entry_constraint entry = SerialConstraint);
              bytes = capture_reservation (invocation_capture invocation);
              available = capture_byte_budget (sch_plan sch) - sch_active_capture_bytes sch in
          (if serial \<and> sch_active sch \<noteq> [] then Some (None, sch)
           else if available < bytes then Some (None, sch)
           else do {
             assert_run (sch_active_capture_bytes sch + bytes \<le> u64_max);
             Some (Some \<lparr>admission_index = sch_next_index sch, admission_entry = entry,
                     admission_invocation = invocation\<rparr>,
               sch\<lparr>sch_next_index := sch_next_index sch + 1,
                 sch_active_capture_bytes := sch_active_capture_bytes sch + bytes,
                 sch_active_serial := serial,
                 sch_active := map_insert (invocation_identity invocation)
                   \<lparr>active_index = sch_next_index sch, active_bytes = bytes, active_is_serial = serial\<rparr>
                   (sch_active sch)\<rparr>)
           })
        })"

definition complete ::
    "('i::linorder, 'm, 't, 'o, 'f) test_admission_schedule \<Rightarrow> ('i, 'm, 't) test_admission
     \<Rightarrow> ('i, 'o) test_invocation_result
     \<Rightarrow> ('i test_scheduling_error option \<times> ('i, 'm, 't, 'o, 'f) test_admission_schedule) run" where
  "complete sch admission result =
     (let i = result_identity result in
      if i \<noteq> invocation_identity (admission_invocation admission)
        then Some (Some (ResultIdentityMismatch i), sch)
      else case map_of (sch_active sch) i of
        None \<Rightarrow> Some (Some (InvocationNotActive i), sch)
      | Some active \<Rightarrow>
          (let removed = map_remove i (sch_active sch) in
           if active_index active \<noteq> admission_index admission
             then Some (Some (InvocationNotActive i),
               sch\<lparr>sch_active := map_insert i active removed\<rparr>)
           else do {
             assert_run (active_index active < length (sch_completed sch));
             Some (None, sch\<lparr>sch_active := removed,
               sch_active_capture_bytes := sch_active_capture_bytes sch - active_bytes active,
               sch_active_serial := (if active_is_serial active then False else sch_active_serial sch),
               sch_completed := (sch_completed sch)[active_index active := Some result]\<rparr>)
           }))"

definition stop ::
    "('i, 'm, 't, 'o, 'f) test_admission_schedule \<Rightarrow> 'f test_stop_reason
     \<Rightarrow> 'i list \<times> ('i, 'm, 't, 'o, 'f) test_admission_schedule" where
  "stop sch reason =
     (map snd (map_collect (map (\<lambda>(i, a). (active_index a, i)) (sch_active sch))),
      sch\<lparr>sch_stop_reason := Some (case sch_stop_reason sch of Some r \<Rightarrow> r | None \<Rightarrow> reason)\<rparr>)"

definition settled :: "('i, 'm, 't, 'o, 'f) test_admission_schedule \<Rightarrow> bool" where
  "settled sch \<longleftrightarrow> sch_active sch = []"

definition completed_all :: "('i, 'm, 't, 'o, 'f) test_admission_schedule \<Rightarrow> bool" where
  "completed_all sch \<longleftrightarrow> sch_next_index sch = length (plan_entries (sch_plan sch))
     \<and> sch_active sch = [] \<and> list_all (\<lambda>r. r \<noteq> None) (sch_completed sch)"

definition completed_results ::
    "('i, 'm, 't, 'o, 'f) test_admission_schedule \<Rightarrow> ('i, 'o) test_invocation_result list" where
  "completed_results sch = List.map_filter id (sch_completed sch)"

subsection \<open>Well-formed plans\<close>

definition plan_wf :: "('i::linorder, 'm, 't) test_execution_plan \<Rightarrow> bool" where
  "plan_wf plan \<longleftrightarrow>
     sorted_wrt (<) (map entry_identity (plan_entries plan))
     \<and> map invocation_identity (plan_invocations plan) = map entry_identity (plan_entries plan)
     \<and> (\<forall>v \<in> set (plan_invocations plan).
          capture_reservation (invocation_capture v) \<le> capture_byte_budget plan)
     \<and> capture_byte_budget plan \<le> u64_max
     \<and> 1 \<le> maximum_concurrency (plan_mode plan)"

lemma find_window_None: "find_window p xs = None \<longleftrightarrow> successively (\<lambda>x y. \<not> p x y) xs"
  by (induction p xs rule: find_window.induct) auto

lemma sorted_no_duplicate_window:
  assumes "sorted (map f xs)"
  shows "find_window (\<lambda>x y. f x = f y) xs = None \<longleftrightarrow> sorted_wrt (<) (map f xs)"
proof -
  have "successively (\<lambda>x y. f x \<noteq> f y) xs \<longleftrightarrow> successively (\<lambda>x y. f x < f y) xs"
    using assms by (induction xs rule: induct_list012) (auto simp: order_le_less)
  moreover have "successively (\<lambda>x y. f x < f y) xs \<longleftrightarrow> sorted_wrt (<) (map f xs)"
    by (simp add: successively_map [symmetric] successively_conv_sorted_wrt)
  ultimately show ?thesis by (simp add: find_window_None)
qed

lemma check_invocations_None:
  assumes "length es = length vs"
  shows "check_invocations budget (zip es vs) = None \<longleftrightarrow>
    map invocation_identity vs = map entry_identity es
    \<and> (\<forall>v \<in> set vs. capture_reservation (invocation_capture v) \<le> budget)"
  using assms by (induction es vs rule: list_induct2) (auto simp: Let_def not_less)

lemma sorted_lists_eq_iff:
  assumes "sorted xs" "sorted ys"
  shows "xs = ys \<longleftrightarrow> mset xs = mset ys"
  using assms by (metis properties_for_sort)

text \<open>
  C36. A plan is built exactly when the selected entries have distinct identities, the invocation
  policies are for exactly those identities, and every single capture reservation fits in the
  budget; the plan then lists entries and invocations position by position in identity order.
\<close>

theorem plan_try_new_correct:
  assumes "budget \<le> u64_max" "1 \<le> maximum_concurrency mode"
  shows "((\<exists>plan. plan_try_new selections invocations mode budget = Inr plan) \<longleftrightarrow>
      distinct (map entry_identity (concat selections))
      \<and> mset (map invocation_identity invocations) = mset (map entry_identity (concat selections))
      \<and> (\<forall>v \<in> set invocations. capture_reservation (invocation_capture v) \<le> budget))
    \<and> (\<forall>plan. plan_try_new selections invocations mode budget = Inr plan \<longrightarrow> plan_wf plan
      \<and> mset (plan_entries plan) = mset (concat selections)
      \<and> mset (plan_invocations plan) = mset invocations)"
proof -
  let ?es = "sort_key entry_identity (concat selections)"
  let ?vs = "sort_key invocation_identity invocations"
  have srt: "sorted (map entry_identity ?es)" "sorted (map invocation_identity ?vs)"
    by (rule sorted_sort_key)+
  have ms: "mset (map entry_identity ?es) = mset (map entry_identity (concat selections))"
    "mset (map invocation_identity ?vs) = mset (map invocation_identity invocations)"
    by (simp_all only: mset_map mset_sort)
  have dup: "find_window (\<lambda>x y. entry_identity x = entry_identity y) ?es = None
      \<longleftrightarrow> distinct (map entry_identity (concat selections))"
    using sorted_no_duplicate_window [OF srt(1)] srt(1) mset_eq_imp_distinct_iff [OF ms(1)]
    by (simp add: strict_sorted_iff)
  have same: "map invocation_identity ?vs = map entry_identity ?es
      \<longleftrightarrow> mset (map invocation_identity invocations) = mset (map entry_identity (concat selections))"
    unfolding sorted_lists_eq_iff [OF srt(2,1)] ms ..
  have len: "length ?es = length ?vs"
    if "mset (map invocation_identity invocations) = mset (map entry_identity (concat selections))"
    using arg_cong [OF that, of size] by (simp add: size_mset)
  have ok: "plan_try_new selections invocations mode budget = Inr plan \<longleftrightarrow>
      find_window (\<lambda>x y. entry_identity x = entry_identity y) ?es = None \<and> length ?es = length ?vs
      \<and> check_invocations budget (zip ?es ?vs) = None
      \<and> plan = \<lparr>plan_entries = ?es, plan_invocations = ?vs, plan_mode = mode, capture_byte_budget = budget\<rparr>"
    for plan
    by (auto simp: plan_try_new_def Let_def split: option.splits prod.splits)
  have strict: "sorted_wrt (<) (map entry_identity ?es)"
    if "find_window (\<lambda>x y. entry_identity x = entry_identity y) ?es = None"
    using that sorted_no_duplicate_window [OF srt(1)] by simp
  show ?thesis
    using dup same len strict assms check_invocations_None [of ?es ?vs budget]
    by (auto simp: ok plan_wf_def)
qed

theorem plan_try_new_correct_witness:
  "\<exists>plan. plan_try_new
     [[\<lparr>entry_identity = 2::nat, entry_constraint = SerialConstraint, entry_details = ()\<rparr>],
      [\<lparr>entry_identity = 1, entry_constraint = ParallelConstraint, entry_details = ()\<rparr>]]
     [\<lparr>invocation_identity = 1, invocation_timeout = (), invocation_capture = Inherited\<rparr>,
      \<lparr>invocation_identity = 2, invocation_timeout = (), invocation_capture = Discarded\<rparr>]
     (Parallel 2) 100 = Inr plan"
proof -
  have "(100::nat) \<le> u64_max" "1 \<le> maximum_concurrency (Parallel 2)"
    by (simp_all add: u64_max_def maximum_concurrency_def)
  from plan_try_new_correct [OF this, where
      selections = "[[\<lparr>entry_identity = 2::nat, entry_constraint = SerialConstraint, entry_details = ()\<rparr>],
        [\<lparr>entry_identity = 1, entry_constraint = ParallelConstraint, entry_details = ()\<rparr>]]" and
      invocations = "[\<lparr>invocation_identity = 1, invocation_timeout = (), invocation_capture = Inherited\<rparr>,
        \<lparr>invocation_identity = 2, invocation_timeout = (), invocation_capture = Discarded\<rparr>]"]
  show ?thesis by (simp add: capture_reservation_def add_mset_commute)
qed

subsection \<open>The invariant of the schedule\<close>

abbreviation identity_at :: "('i, 'm, 't) test_execution_plan \<Rightarrow> nat \<Rightarrow> 'i" where
  "identity_at plan k \<equiv> invocation_identity (plan_invocations plan ! k)"

abbreviation bytes_at :: "('i, 'm, 't) test_execution_plan \<Rightarrow> nat \<Rightarrow> nat" where
  "bytes_at plan k \<equiv> capture_reservation (invocation_capture (plan_invocations plan ! k))"

abbreviation serial_at :: "('i, 'm, 't) test_execution_plan \<Rightarrow> nat \<Rightarrow> bool" where
  "serial_at plan k \<equiv> entry_constraint (plan_entries plan ! k) = SerialConstraint"

abbreviation plan_size :: "('i, 'm, 't) test_execution_plan \<Rightarrow> nat" where
  "plan_size plan \<equiv> length (plan_entries plan)"

text \<open>The admission state that position \<open>k\<close> of the plan has while it is active.\<close>

definition active_at :: "('i, 'm, 't) test_execution_plan \<Rightarrow> nat \<Rightarrow> 'i \<times> active_admission" where
  "active_at plan k = (identity_at plan k,
     \<lparr>active_index = k, active_bytes = bytes_at plan k, active_is_serial = serial_at plan k\<rparr>)"

text \<open>What the completion slot of position \<open>k\<close> holds.\<close>

definition slot_holds ::
    "('i, 'm, 't) test_execution_plan \<Rightarrow> nat \<Rightarrow> nat set \<Rightarrow> nat \<Rightarrow> ('i, 'o) test_invocation_result option
     \<Rightarrow> bool" where
  "slot_holds plan n A k slot \<longleftrightarrow> (case slot of
     None \<Rightarrow> k \<in> A \<or> n \<le> k
   | Some r \<Rightarrow> k < n \<and> k \<notin> A \<and> result_identity r = identity_at plan k)"

text \<open>
  \<open>schedule_holds sch A\<close>: the positions in \<open>A\<close> are the active ones; every admitted position is
  either active or completed, no other is; the counters agree with the active positions, and the
  limits hold.
\<close>

definition schedule_holds ::
    "('i::linorder, 'm, 't, 'o, 'f) test_admission_schedule \<Rightarrow> nat set \<Rightarrow> bool" where
  "schedule_holds sch A \<longleftrightarrow>
     plan_wf (sch_plan sch) \<and> sch_next_index sch \<le> plan_size (sch_plan sch)
     \<and> A \<subseteq> {..<sch_next_index sch}
     \<and> map_ok (sch_active sch) \<and> set (sch_active sch) = active_at (sch_plan sch) ` A
     \<and> sch_active_capture_bytes sch = (\<Sum>k \<in> A. bytes_at (sch_plan sch) k)
     \<and> sch_active_capture_bytes sch \<le> capture_byte_budget (sch_plan sch)
     \<and> card A \<le> maximum_concurrency (plan_mode (sch_plan sch))
     \<and> (sch_active_serial sch \<longleftrightarrow> (\<exists>k \<in> A. serial_at (sch_plan sch) k))
     \<and> ((\<exists>k \<in> A. serial_at (sch_plan sch) k) \<longrightarrow> card A = 1)
     \<and> length (sch_completed sch) = plan_size (sch_plan sch)
     \<and> (\<forall>k < plan_size (sch_plan sch).
          slot_holds (sch_plan sch) (sch_next_index sch) A k (sch_completed sch ! k))"

lemma plan_wf_lengths: "plan_wf plan \<Longrightarrow> length (plan_invocations plan) = plan_size plan"
  unfolding plan_wf_def by (metis length_map)

lemma plan_wf_identity:
  assumes "plan_wf plan" "j < plan_size plan" "k < plan_size plan" "identity_at plan j = identity_at plan k"
  shows "j = k"
proof -
  have "distinct (map invocation_identity (plan_invocations plan))"
    using assms(1) by (auto simp: plan_wf_def strict_sorted_iff)
  with assms plan_wf_lengths [OF assms(1)] show ?thesis
    by (metis (no_types, lifting) distinct_conv_nth length_map nth_map)
qed

lemma active_at_inj: "plan_wf plan \<Longrightarrow> A \<subseteq> {..<plan_size plan} \<Longrightarrow> inj_on (active_at plan) A"
  by (rule inj_onI) (simp add: active_at_def)

lemma holds_facts:
  assumes "schedule_holds sch A"
  shows "A \<subseteq> {..<plan_size (sch_plan sch)}" "finite A" "length (sch_active sch) = card A"
    "sch_active sch = [] \<longleftrightarrow> A = {}"
proof -
  show A: "A \<subseteq> {..<plan_size (sch_plan sch)}" using assms by (auto simp: schedule_holds_def)
  then show fin: "finite A" by (rule finite_subset) simp
  have "distinct (sch_active sch)" using assms by (auto simp: schedule_holds_def strict_sorted_iff distinct_map)
  then have "length (sch_active sch) = card (set (sch_active sch))" by (simp add: distinct_card)
  also have "\<dots> = card A"
    using assms active_at_inj [OF _ A] by (simp add: schedule_holds_def card_image)
  finally show "length (sch_active sch) = card A" .
  then show "sch_active sch = [] \<longleftrightarrow> A = {}" using fin by (metis card_eq_0_iff length_0_conv)
qed

lemma holds_wf: "schedule_holds sch A \<Longrightarrow> plan_wf (sch_plan sch)"
  by (simp add: schedule_holds_def)

lemma holds_identity:
  assumes "schedule_holds sch A" "j \<in> A" "k \<in> A"
  shows "identity_at (sch_plan sch) j = identity_at (sch_plan sch) k \<longleftrightarrow> j = k"
  using plan_wf_identity [OF holds_wf [OF assms(1)], of j k] holds_facts(1) [OF assms(1)] assms(2,3)
  by auto

lemma schedule_new_holds: "plan_wf plan \<Longrightarrow> schedule_holds (schedule_new plan) {}"
  by (simp add: schedule_holds_def schedule_new_def slot_holds_def)

subsection \<open>Admission\<close>

text \<open>When the next invocation is admitted, and what the admission is.\<close>

definition may_admit :: "('i, 'm, 't, 'o, 'f) test_admission_schedule \<Rightarrow> bool" where
  "may_admit sch \<longleftrightarrow>
     (let plan = sch_plan sch; k = sch_next_index sch in
      sch_stop_reason sch = None \<and> \<not> sch_active_serial sch
      \<and> length (sch_active sch) < maximum_concurrency (plan_mode plan)
      \<and> k < plan_size plan \<and> (serial_at plan k \<longrightarrow> sch_active sch = [])
      \<and> sch_active_capture_bytes sch + bytes_at plan k \<le> capture_byte_budget plan)"

lemma admit_next_cases:
  assumes "schedule_holds sch A"
  shows "admit_next sch = Some (if may_admit sch
      then (Some \<lparr>admission_index = sch_next_index sch,
              admission_entry = plan_entries (sch_plan sch) ! sch_next_index sch,
              admission_invocation = plan_invocations (sch_plan sch) ! sch_next_index sch\<rparr>,
            sch\<lparr>sch_next_index := sch_next_index sch + 1,
              sch_active_capture_bytes := sch_active_capture_bytes sch + bytes_at (sch_plan sch) (sch_next_index sch),
              sch_active_serial := serial_at (sch_plan sch) (sch_next_index sch),
              sch_active := map_insert (identity_at (sch_plan sch) (sch_next_index sch))
                (snd (active_at (sch_plan sch) (sch_next_index sch))) (sch_active sch)\<rparr>)
      else (None, sch))"
proof -
  have wf: "plan_wf (sch_plan sch)" and b: "sch_active_capture_bytes sch \<le> capture_byte_budget (sch_plan sch)"
    using assms by (auto simp: schedule_holds_def)
  then have u: "capture_byte_budget (sch_plan sch) \<le> u64_max"
    and len: "length (plan_invocations (sch_plan sch)) = plan_size (sch_plan sch)"
    by (auto simp: plan_wf_def plan_wf_lengths)
  show ?thesis
    using b u len
    by (auto simp: admit_next_def may_admit_def get_def active_at_def Let_def)
qed

lemma admit_next_holds:
  assumes "schedule_holds sch A" "may_admit sch" "admit_next sch = Some (adm, sch')"
  shows "schedule_holds sch' (insert (sch_next_index sch) A)"
proof -
  let ?p = "sch_plan sch" and ?k = "sch_next_index sch"
  note facts = holds_facts [OF assms(1)]
  note holds = assms(1) [unfolded schedule_holds_def]
  note may = assms(2) [unfolded may_admit_def Let_def]
  from holds have wf: "plan_wf ?p" by simp
  have kA: "?k \<notin> A" using holds by auto
  have fresh: "fst b \<noteq> identity_at ?p ?k" if "b \<in> set (sch_active sch)" for b
  proof -
    from that holds obtain x where "x \<in> A" "b = active_at ?p x" by auto
    then show ?thesis
      using plan_wf_identity [OF wf, of x ?k] facts(1) may kA by (auto simp: active_at_def)
  qed
  have sch': "sch' = sch\<lparr>sch_next_index := ?k + 1,
      sch_active_capture_bytes := sch_active_capture_bytes sch + bytes_at ?p ?k,
      sch_active_serial := serial_at ?p ?k,
      sch_active := map_insert (identity_at ?p ?k) (snd (active_at ?p ?k)) (sch_active sch)\<rparr>"
    using assms(2,3) admit_next_cases [OF assms(1)] by simp
  have act: "set (map_insert (identity_at ?p ?k) (snd (active_at ?p ?k)) (sch_active sch))
      = active_at ?p ` insert ?k A"
    using fresh holds by (auto simp: active_at_def)
  have noser: "\<forall>j \<in> A. \<not> serial_at ?p j" using holds may by auto
  have ser: "serial_at ?p ?k \<Longrightarrow> A = {}" using may facts(4) by simp
  have comp: "slot_holds ?p (?k + 1) (insert ?k A) j (sch_completed sch ! j)" if "j < plan_size ?p" for j
    using that holds by (auto simp: slot_holds_def less_Suc_eq split: option.splits)
  show ?thesis
    using holds may facts(2,3) kA noser ser comp act
    unfolding schedule_holds_def sch'
    by (auto simp del: set_map_insert simp: card_insert_if)
qed

subsection \<open>Completion\<close>

text \<open>An admission whose result the schedule accepts: it is active and the result is its own.\<close>

definition may_complete ::
    "('i, 'm, 't, 'o, 'f) test_admission_schedule \<Rightarrow> nat set \<Rightarrow> ('i, 'm, 't) test_admission
     \<Rightarrow> ('i, 'o) test_invocation_result \<Rightarrow> bool" where
  "may_complete sch A adm r \<longleftrightarrow> result_identity r = invocation_identity (admission_invocation adm)
     \<and> admission_index adm \<in> A \<and> identity_at (sch_plan sch) (admission_index adm) = result_identity r"

lemma holds_lookup:
  assumes "schedule_holds sch A"
  shows "map_of (sch_active sch) i = Some a \<longleftrightarrow>
    active_index a \<in> A \<and> active_at (sch_plan sch) (active_index a) = (i, a)"
  using assms map_of_ok_iff [of "sch_active sch" i a]
  by (auto simp: schedule_holds_def active_at_def)

lemma may_complete_iff:
  assumes "schedule_holds sch A"
  shows "may_complete sch A adm r \<longleftrightarrow>
    result_identity r = invocation_identity (admission_invocation adm)
    \<and> (\<exists>a. map_of (sch_active sch) (result_identity r) = Some a \<and> active_index a = admission_index adm)"
    (is "_ \<longleftrightarrow> ?same \<and> ?active")
proof
  assume may: "may_complete sch A adm r"
  let ?a = "snd (active_at (sch_plan sch) (admission_index adm))"
  have "map_of (sch_active sch) (result_identity r) = Some ?a" "active_index ?a = admission_index adm"
    using may holds_lookup [OF assms, of "result_identity r" ?a]
    by (auto simp: may_complete_def active_at_def)
  with may show "?same \<and> ?active" by (auto simp: may_complete_def)
next
  assume "?same \<and> ?active"
  then show "may_complete sch A adm r"
    using holds_lookup [OF assms, of "result_identity r"] by (auto simp: may_complete_def active_at_def)
qed

lemma complete_cases:
  assumes "schedule_holds sch A"
  shows "complete sch adm r = Some
    (if result_identity r \<noteq> invocation_identity (admission_invocation adm)
       then (Some (ResultIdentityMismatch (result_identity r)), sch)
     else if \<not> may_complete sch A adm r then (Some (InvocationNotActive (result_identity r)), sch)
     else (None, sch\<lparr>sch_active := map_remove (result_identity r) (sch_active sch),
       sch_active_capture_bytes := sch_active_capture_bytes sch - bytes_at (sch_plan sch) (admission_index adm),
       sch_active_serial := (if serial_at (sch_plan sch) (admission_index adm) then False else sch_active_serial sch),
       sch_completed := (sch_completed sch)[admission_index adm := Some r]\<rparr>))"
proof (cases "map_of (sch_active sch) (result_identity r)")
  case None
  have "\<not> may_complete sch A adm r"
    using None holds_lookup [OF assms, of "result_identity r"
        "snd (active_at (sch_plan sch) (admission_index adm))"]
    by (auto simp: may_complete_def active_at_def)
  then show ?thesis using None by (auto simp: complete_def Let_def)
next
  case (Some a)
  have ok: "map_ok (sch_active sch)" and len: "length (sch_completed sch) = plan_size (sch_plan sch)"
    and sub: "A \<subseteq> {..<plan_size (sch_plan sch)}"
    using assms holds_facts(1) [OF assms] by (auto simp: schedule_holds_def)
  note a = Some [unfolded holds_lookup [OF assms]]
  show ?thesis
  proof (cases "active_index a = admission_index adm")
    case False
    then have "\<not> may_complete sch A adm r"
      using a holds_identity [OF assms, of "active_index a" "admission_index adm"]
      by (auto simp: may_complete_def active_at_def)
    with False Some show ?thesis
      using map_remove_insert [OF ok Some] by (auto simp: complete_def Let_def)
  next
    case True
    with a sub len have "active_index a < length (sch_completed sch)" by auto
    with True a Some show ?thesis
      by (cases a) (auto simp: complete_def may_complete_def active_at_def Let_def)
  qed
qed

lemma complete_holds:
  assumes "schedule_holds sch A" "may_complete sch A adm r" "complete sch adm r = Some (e, sch')"
  shows "e = None \<and> schedule_holds sch' (A - {admission_index adm})"
proof -
  let ?p = "sch_plan sch" and ?k = "admission_index adm"
  note facts = holds_facts [OF assms(1)]
  note holds = assms(1) [unfolded schedule_holds_def]
  from assms(2) have k: "?k \<in> A" "identity_at ?p ?k = result_identity r"
    and same: "result_identity r = invocation_identity (admission_invocation adm)"
    by (simp_all add: may_complete_def)
  with facts(1) have kn: "?k < plan_size ?p" by auto
  have e: "e = None" and sch': "sch' = sch\<lparr>sch_active := map_remove (result_identity r) (sch_active sch),
       sch_active_capture_bytes := sch_active_capture_bytes sch - bytes_at ?p ?k,
       sch_active_serial := (if serial_at ?p ?k then False else sch_active_serial sch),
       sch_completed := (sch_completed sch)[?k := Some r]\<rparr>"
    using assms(2,3) complete_cases [OF assms(1), of adm r] same by simp_all
  have only: "identity_at ?p j = result_identity r \<longleftrightarrow> j = ?k" if "j \<in> A" for j
    using holds_identity [OF assms(1) that k(1)] k(2) by simp
  have act: "set (map_remove (result_identity r) (sch_active sch)) = active_at ?p ` (A - {?k})"
    using holds only by (auto simp: active_at_def)
  have bytes: "(\<Sum>j \<in> A. bytes_at ?p j) = bytes_at ?p ?k + (\<Sum>j \<in> A - {?k}. bytes_at ?p j)"
    using sum.remove [OF facts(2) k(1)] by simp
  have ser: "A = {?k}" if "serial_at ?p j" "j \<in> A" for j
    using that holds k(1) by (auto simp: card_1_singleton_iff)
  have serial: "(if serial_at ?p ?k then False else sch_active_serial sch)
      \<longleftrightarrow> (\<exists>j \<in> A - {?k}. serial_at ?p j)"
    using holds ser k(1) by auto
  have none: "\<not> (\<exists>j \<in> A - {?k}. serial_at ?p j)" using ser by auto
  have comp: "slot_holds ?p (sch_next_index sch) (A - {?k}) j ((sch_completed sch)[?k := Some r] ! j)"
    if "j < plan_size ?p" for j
  proof (cases "j = ?k")
    case False
    with that holds show ?thesis by (auto simp: slot_holds_def split: option.splits)
  qed (use holds k kn in \<open>auto simp: slot_holds_def\<close>)
  have sub: "A - {?k} \<subseteq> {..<sch_next_index sch}"
    and freed: "sch_active_capture_bytes sch - bytes_at ?p ?k = (\<Sum>j \<in> A - {?k}. bytes_at ?p j)"
      "(\<Sum>j \<in> A - {?k}. bytes_at ?p j) \<le> capture_byte_budget ?p"
    and few: "card (A - {?k}) \<le> maximum_concurrency (plan_mode ?p)"
    using holds bytes card_Diff1_le [of A ?k] by auto
  have "schedule_holds sch' (A - {?k})"
    unfolding schedule_holds_def sch'
    using conjunct1 [OF holds] conjunct1 [OF conjunct2 [OF holds]] sub freed few act serial none comp
      map_remove_ok [of "sch_active sch"] holds
    by (simp del: set_map_remove split del: if_split)
  with e show ?thesis by simp
qed

subsection \<open>Reachable states\<close>

inductive schedule_step ::
    "('i::linorder, 'm, 't, 'o, 'f) test_admission_schedule
     \<Rightarrow> ('i, 'm, 't, 'o, 'f) test_admission_schedule \<Rightarrow> bool" where
  admit: "admit_next sch = Some (adm, sch') \<Longrightarrow> schedule_step sch sch'"
| completion: "complete sch adm r = Some (e, sch') \<Longrightarrow> schedule_step sch sch'"
| stopping: "stop sch reason = (ids, sch') \<Longrightarrow> schedule_step sch sch'"

text \<open>The steps that admit an invocation or record its result.\<close>

inductive schedule_progress ::
    "('i::linorder, 'm, 't, 'o, 'f) test_admission_schedule
     \<Rightarrow> ('i, 'm, 't, 'o, 'f) test_admission_schedule \<Rightarrow> bool" where
  admit: "admit_next sch = Some (Some adm, sch') \<Longrightarrow> schedule_progress sch sch'"
| completion: "complete sch adm r = Some (None, sch') \<Longrightarrow> schedule_progress sch sch'"

inductive_cases schedule_progressE: "schedule_progress sch sch'"

definition schedule_ok ::
    "('i::linorder, 'm, 't) test_execution_plan \<Rightarrow> ('i, 'm, 't, 'o, 'f) test_admission_schedule \<Rightarrow> bool" where
  "schedule_ok plan sch \<longleftrightarrow> sch_plan sch = plan \<and> (\<exists>A. schedule_holds sch A)"

lemma admit_next_ok:
  assumes "schedule_ok plan sch" "admit_next sch = Some (adm, sch')"
  shows "schedule_ok plan sch'"
proof -
  from assms(1) obtain A where A: "schedule_holds sch A" "sch_plan sch = plan"
    by (auto simp: schedule_ok_def)
  show ?thesis
    using A admit_next_holds [OF A(1) _ assms(2)] assms(2) admit_next_cases [OF A(1)]
    by (cases "may_admit sch") (auto simp: schedule_ok_def)
qed

lemma complete_ok:
  assumes "schedule_ok plan sch" "complete sch adm r = Some (e, sch')"
  shows "schedule_ok plan sch'"
proof -
  from assms(1) obtain A where A: "schedule_holds sch A" "sch_plan sch = plan"
    by (auto simp: schedule_ok_def)
  show ?thesis
    using A complete_holds [OF A(1) _ assms(2)] assms(2) complete_cases [OF A(1), of adm r]
    by (cases "may_complete sch A adm r") (auto simp: schedule_ok_def may_complete_def split: if_splits)
qed

lemma stop_holds: "schedule_holds (snd (stop sch reason)) A \<longleftrightarrow> schedule_holds sch A"
  by (simp add: schedule_holds_def stop_def)

interpretation schedule: transition_invariant
  "\<lambda>sch. plan_wf plan \<and> sch = schedule_new plan" schedule_step "schedule_ok plan" for plan
proof unfold_locales
  fix s :: "('a, 'b, 'c, 'd, 'e) test_admission_schedule"
  assume "plan_wf plan \<and> s = schedule_new plan"
  then show "schedule_ok plan s"
    using schedule_new_holds [of plan] by (auto simp: schedule_ok_def schedule_new_def)
next
  fix s t :: "('a, 'b, 'c, 'd, 'e) test_admission_schedule"
  assume s: "schedule_ok plan s" and "schedule_step s t"
  from this(2) show "schedule_ok plan t"
  proof cases
    case (stopping reason ids)
    then have "t = snd (stop s reason)" "sch_plan t = sch_plan s" by (auto simp: stop_def)
    with s show ?thesis by (auto simp: schedule_ok_def stop_holds)
  qed (use s admit_next_ok complete_ok in blast)+
qed

lemma reachable_holds:
  assumes "plan_wf plan" "schedule_step\<^sup>*\<^sup>* (schedule_new plan) sch"
  obtains A where "schedule_holds sch A" "sch_plan sch = plan"
  using schedule.reachable_ok [of plan "schedule_new plan" sch] assms that
  by (auto simp: schedule_ok_def)

subsection \<open>Properties of every run\<close>

lemma holds_active_sum:
  assumes "schedule_holds sch A"
  shows "sum_list (map (\<lambda>b. active_bytes (snd b)) (sch_active sch)) = sch_active_capture_bytes sch"
proof -
  have "distinct (sch_active sch)"
    using assms by (auto simp: schedule_holds_def strict_sorted_iff distinct_map)
  then have "sum_list (map (\<lambda>b. active_bytes (snd b)) (sch_active sch))
      = (\<Sum>b \<in> set (sch_active sch). active_bytes (snd b))"
    by (rule sum_list_distinct_conv_sum_set)
  also have "\<dots> = (\<Sum>k \<in> A. active_bytes (snd (active_at (sch_plan sch) k)))"
    using assms sum.reindex [OF active_at_inj [OF holds_wf [OF assms] holds_facts(1) [OF assms]]]
    by (simp add: schedule_holds_def)
  also have "\<dots> = sch_active_capture_bytes sch"
    using assms by (simp add: schedule_holds_def active_at_def)
  finally show ?thesis .
qed

text \<open>
  C16. In every reachable state the limits of the command hold: no more invocations are active than
  the mode allows, the bytes the active invocations reserve together fit in the capture budget, and
  an active serial invocation is the only active one.
\<close>

theorem schedule_respects_limits:
  assumes "plan_wf plan" "schedule_step\<^sup>*\<^sup>* (schedule_new plan) sch"
  shows "length (sch_active sch) \<le> maximum_concurrency (plan_mode plan)
    \<and> sum_list (map (\<lambda>b. active_bytes (snd b)) (sch_active sch)) \<le> capture_byte_budget plan
    \<and> (\<forall>b \<in> set (sch_active sch). active_is_serial (snd b) \<longrightarrow> length (sch_active sch) = 1)"
proof -
  from assms obtain A where A: "schedule_holds sch A" "sch_plan sch = plan" by (rule reachable_holds)
  have "length (sch_active sch) = 1" if b: "b \<in> set (sch_active sch)" "active_is_serial (snd b)" for b
  proof -
    from A b obtain k where "k \<in> A" "serial_at plan k" by (auto simp: schedule_holds_def active_at_def)
    with A holds_facts(3) [OF A(1)] show ?thesis by (auto simp: schedule_holds_def)
  qed
  then show ?thesis
    using A holds_facts(3) [OF A(1)] holds_active_sum [OF A(1)] by (simp add: schedule_holds_def)
qed

text \<open>
  A position of the plan is in exactly one of three phases: waiting, active under its own identity
  and constraints, or completed with a result for its own identity.
\<close>

lemma holds_slot:
  assumes "schedule_holds sch A" "k < plan_size (sch_plan sch)"
  shows "(sch_completed sch ! k = None \<longleftrightarrow> k \<in> A \<or> sch_next_index sch \<le> k)
    \<and> (k \<in> A \<longleftrightarrow> map_of (sch_active sch) (identity_at (sch_plan sch) k) = Some (snd (active_at (sch_plan sch) k)))
    \<and> (\<forall>r. sch_completed sch ! k = Some r \<longrightarrow> result_identity r = identity_at (sch_plan sch) k)"
proof -
  have "slot_holds (sch_plan sch) (sch_next_index sch) A k (sch_completed sch ! k)"
    using assms by (simp add: schedule_holds_def)
  moreover have "A \<subseteq> {..<sch_next_index sch}" using assms(1) by (simp add: schedule_holds_def)
  moreover have "k \<in> A \<longleftrightarrow>
      map_of (sch_active sch) (identity_at (sch_plan sch) k) = Some (snd (active_at (sch_plan sch) k))"
    using holds_lookup [OF assms(1)] by (auto simp: active_at_def)
  ultimately show ?thesis by (auto simp: slot_holds_def split: option.splits)
qed

lemma sorted_map_filter_slots:
  assumes "sorted_wrt (<) xs" "length slots = length xs"
    and "\<And>k r. k < length xs \<Longrightarrow> slots ! k = Some r \<Longrightarrow> f r = xs ! k"
  shows "sorted_wrt (<) (map f (List.map_filter id slots))
    \<and> set (map f (List.map_filter id slots)) \<subseteq> set xs"
  using assms(2,1,3)
proof (induction slots xs rule: list_induct2)
  case (Cons slot slots x xs)
  have IH: "sorted_wrt (<) (map f (List.map_filter id slots))
      \<and> set (map f (List.map_filter id slots)) \<subseteq> set xs"
    using Cons.prems(2) [of "Suc _"] Cons.prems(1) by (intro Cons.IH) auto
  have "f r = x" if "slot = Some r" for r using that Cons.prems(2) [of 0 r] by simp
  with IH Cons.prems(1) show ?case
    by (cases slot) (auto simp: List.map_filter_simps id_def)
qed (simp add: List.map_filter_simps)

text \<open>
  C17. In every reachable state exactly the positions below the next index were admitted, and each
  of them is either active or has its result, never both; a result always belongs to the identity at
  its position, and the completed results are in catalog order whatever the order of completion.
\<close>

theorem schedule_accounts_for_every_invocation:
  assumes "plan_wf plan" "schedule_step\<^sup>*\<^sup>* (schedule_new plan) sch" "k < plan_size plan"
  shows "(k < sch_next_index sch \<longleftrightarrow>
        map_of (sch_active sch) (identity_at plan k) \<noteq> None \<or> sch_completed sch ! k \<noteq> None)
    \<and> \<not> (map_of (sch_active sch) (identity_at plan k) \<noteq> None \<and> sch_completed sch ! k \<noteq> None)
    \<and> (\<forall>r. sch_completed sch ! k = Some r \<longrightarrow> result_identity r = identity_at plan k)
    \<and> sorted_wrt (<) (map result_identity (completed_results sch))"
proof -
  from assms(1,2) obtain A where A: "schedule_holds sch A" "sch_plan sch = plan" by (rule reachable_holds)
  have sub: "A \<subseteq> {..<sch_next_index sch}" and len: "length (sch_completed sch) = plan_size plan"
    using A by (simp_all add: schedule_holds_def)
  have act: "map_of (sch_active sch) (identity_at plan k) \<noteq> None \<longleftrightarrow> k \<in> A"
  proof
    assume "map_of (sch_active sch) (identity_at plan k) \<noteq> None"
    then obtain a where "map_of (sch_active sch) (identity_at plan k) = Some a" by auto
    with A holds_lookup [OF A(1)] have "active_index a \<in> A" "identity_at plan (active_index a) = identity_at plan k"
      by (auto simp: active_at_def)
    with holds_facts(1) [OF A(1)] A(2) assms(1,3) plan_wf_identity [of plan "active_index a" k]
    show "k \<in> A" by auto
  qed (use holds_slot [OF A(1)] A(2) assms(3) in auto)
  have srt: "sorted_wrt (<) (map invocation_identity (plan_invocations plan))"
    using assms(1) by (simp add: plan_wf_def)
  have "sorted_wrt (<) (map result_identity (completed_results sch))"
    unfolding completed_results_def
    using sorted_map_filter_slots [OF srt, of "sch_completed sch" result_identity]
      holds_slot [OF A(1)] A(2) len plan_wf_lengths [OF assms(1)] by auto
  with act sub holds_slot [OF A(1)] A(2) assms(3) show ?thesis by auto
qed

text \<open>
  C33. The operations never panic in a reachable state, and recording a result is exact: it succeeds
  precisely for the result of an admission that is active, and a stale, repeated or mismatched
  result is rejected with the schedule left as it was.
\<close>

theorem complete_rejects_foreign_results:
  assumes "plan_wf plan" "schedule_step\<^sup>*\<^sup>* (schedule_new plan) sch"
  shows "admit_next sch \<noteq> panic
    \<and> (\<exists>e sch'. complete sch adm r = Some (e, sch')
        \<and> (e \<noteq> None \<longrightarrow> sch' = sch)
        \<and> (e = None \<longleftrightarrow> result_identity r = invocation_identity (admission_invocation adm)
            \<and> (\<exists>a. map_of (sch_active sch) (result_identity r) = Some a
                \<and> active_index a = admission_index adm))
        \<and> (e = None \<longrightarrow> sch_completed sch' = (sch_completed sch)[admission_index adm := Some r]
            \<and> map_of (sch_active sch') (result_identity r) = None))"
proof -
  from assms obtain A where A: "schedule_holds sch A" "sch_plan sch = plan" by (rule reachable_holds)
  note may = may_complete_iff [OF A(1), of adm r]
  have gone: "map_of (map_remove i (sch_active sch)) i = None" for i
    by (simp add: map_of_eq_None_iff image_iff)
  have "admit_next sch \<noteq> panic" using admit_next_cases [OF A(1)] by simp
  moreover have "complete sch adm r = Some (the (complete sch adm r))"
    using complete_cases [OF A(1), of adm r] by simp
  ultimately show ?thesis
    using complete_cases [OF A(1), of adm r] may gone by (auto split: if_splits)
qed

lemma progress_counts:
  assumes "plan_wf plan" "(schedule_progress ^^ m) (schedule_new plan) sch"
  shows "\<exists>A. schedule_holds sch A \<and> sch_plan sch = plan \<and> sch_stop_reason sch = None
    \<and> m + card A = 2 * sch_next_index sch"
  using assms(2)
proof (induction m arbitrary: sch)
  case 0
  then show ?case
    using schedule_new_holds [OF assms(1)] by (auto simp: schedule_new_def intro!: exI [of _ "{}"])
next
  case (Suc m)
  from Suc.prems obtain s where s: "(schedule_progress ^^ m) (schedule_new plan) s" "schedule_progress s sch"
    by (auto elim: relpowp_Suc_E)
  from Suc.IH [OF s(1)] obtain A where A: "schedule_holds s A" "sch_plan s = plan"
    "sch_stop_reason s = None" "m + card A = 2 * sch_next_index s" by auto
  have fin: "finite A" by (rule holds_facts(2) [OF A(1)])
  from s(2) show ?case
  proof cases
    case (admit adm)
    then have may: "may_admit s" using admit_next_cases [OF A(1)] by (auto split: if_splits)
    have "sch_next_index s \<notin> A" using A(1) by (auto simp: schedule_holds_def)
    with admit may admit_next_cases [OF A(1)] A admit_next_holds [OF A(1) may admit] fin
    show ?thesis by (intro exI [of _ "insert (sch_next_index s) A"]) auto
  next
    case (completion adm r)
    then have may: "may_complete s A adm r"
      using complete_cases [OF A(1), of adm r] by (auto split: if_splits)
    then have k: "admission_index adm \<in> A" and "card A > 0"
      using fin by (auto simp: may_complete_def card_gt_0_iff)
    moreover have "sch_plan sch = plan \<and> sch_stop_reason sch = None \<and> sch_next_index sch = sch_next_index s"
      using completion may complete_cases [OF A(1), of adm r] A by (auto simp: may_complete_def)
    ultimately show ?thesis
      using A(4) complete_holds [OF A(1) may completion] fin
      by (intro exI [of _ "A - {admission_index adm}"]) (auto simp: card_Diff_singleton)
  qed
qed

lemma progress_stuck:
  assumes "schedule_holds sch A" "sch_stop_reason sch = None" "\<forall>sch'. \<not> schedule_progress sch sch'"
  shows "A = {} \<and> sch_next_index sch = plan_size (sch_plan sch)"
proof -
  let ?p = "sch_plan sch" and ?k = "sch_next_index sch"
  have "A = {}"
  proof (rule ccontr)
    assume "A \<noteq> {}"
    then obtain k where k: "k \<in> A" by auto
    define adm where "adm = \<lparr>admission_index = k, admission_entry = plan_entries ?p ! k,
      admission_invocation = plan_invocations ?p ! k\<rparr>"
    define r :: "('a, 'd) test_invocation_result"
      where "r = \<lparr>result_identity = identity_at ?p k, result_outcome = undefined\<rparr>"
    have may: "may_complete sch A adm r" using k by (simp add: may_complete_def adm_def r_def)
    then obtain sch' where "complete sch adm r = Some (None, sch')"
      using complete_cases [OF assms(1), of adm r] by (auto simp: may_complete_def)
    then show False using assms(3) by (blast intro: schedule_progress.completion)
  qed
  moreover have "\<not> may_admit sch"
  proof
    assume "may_admit sch"
    then obtain adm sch' where "admit_next sch = Some (Some adm, sch')"
      using admit_next_cases [OF assms(1)] by simp
    then show False using assms(3) by (blast intro: schedule_progress.admit)
  qed
  moreover have "?k \<le> plan_size ?p" "plan_wf ?p" using assms(1) by (auto simp: schedule_holds_def)
  moreover have "bytes_at ?p ?k \<le> capture_byte_budget ?p" if "?k < plan_size ?p"
    using that \<open>plan_wf ?p\<close> plan_wf_lengths [of ?p] by (simp add: plan_wf_def)
  moreover have "sch_active_capture_bytes sch = 0" "\<not> sch_active_serial sch" "sch_active sch = []"
    using assms(1) \<open>A = {}\<close> holds_facts(4) [OF assms(1)] by (auto simp: schedule_holds_def)
  moreover have "1 \<le> maximum_concurrency (plan_mode ?p)" using \<open>plan_wf ?p\<close> by (simp add: plan_wf_def)
  ultimately show ?thesis
    using assms(2) by (cases "?k < plan_size ?p") (auto simp: may_admit_def Let_def)
qed

text \<open>
  C15. The schedule never gets stuck and never spins: starting from a fresh schedule, a run of
  admissions and completions has at most two steps per planned invocation, and when no further
  step is possible every invocation has completed.
\<close>

theorem schedule_runs_to_completion:
  assumes "plan_wf plan" "(schedule_progress ^^ m) (schedule_new plan) sch"
  shows "m \<le> 2 * plan_size plan
    \<and> ((\<forall>sch'. \<not> schedule_progress sch sch') \<longleftrightarrow> m = 2 * plan_size plan)
    \<and> (m = 2 * plan_size plan \<longleftrightarrow> completed_all sch)"
proof -
  from progress_counts [OF assms] obtain A where A: "schedule_holds sch A" "sch_plan sch = plan"
    "sch_stop_reason sch = None" "m + card A = 2 * sch_next_index sch" by auto
  have n: "sch_next_index sch \<le> plan_size plan" using A by (auto simp: schedule_holds_def)
  have stuck: "m = 2 * plan_size plan" if "\<forall>sch'. \<not> schedule_progress sch sch'"
    using progress_stuck [OF A(1,3) that] A(2,4) by simp
  have step: "Suc m \<le> 2 * plan_size plan" if "schedule_progress sch sch'" for sch'
    using that progress_counts [OF assms(1) relpowp_Suc_I [OF assms(2) that]]
    by (auto simp: schedule_holds_def)
  have all: "completed_all sch \<longleftrightarrow> m = 2 * plan_size plan"
  proof
    assume "m = 2 * plan_size plan"
    with A n have "sch_next_index sch = plan_size plan" "card A = 0" by auto
    with A holds_facts(2,4) [OF A(1)] have "A = {}" "sch_active sch = []" "sch_next_index sch = plan_size plan"
      by auto
    moreover have "list_all (\<lambda>r. r \<noteq> None) (sch_completed sch)"
      using holds_slot [OF A(1)] A(1,2) calculation
      by (auto simp: list_all_length schedule_holds_def)
    ultimately show "completed_all sch" using A by (simp add: completed_all_def)
  next
    assume "completed_all sch"
    then show "m = 2 * plan_size plan"
      using A holds_facts(4) [OF A(1)] by (auto simp: completed_all_def)
  qed
  from stuck step all A(4) n show ?thesis by fastforce
qed

lemma holds_active_order:
  assumes "schedule_holds sch A"
  shows "sorted_wrt (<) (map (active_index \<circ> snd) (sch_active sch))"
proof -
  let ?ids = "map invocation_identity (plan_invocations (sch_plan sch))"
  have wf: "plan_wf (sch_plan sch)" by (rule holds_wf [OF assms])
  then have ids: "sorted_wrt (<) ?ids" by (simp add: plan_wf_def)
  have before: "active_index (snd b) < active_index (snd c)"
    if "b \<in> set (sch_active sch)" "c \<in> set (sch_active sch)" "fst b < fst c" for b c
  proof -
    from that assms obtain j k where jk: "j \<in> A" "k \<in> A" "b = active_at (sch_plan sch) j"
      "c = active_at (sch_plan sch) k" by (auto simp: schedule_holds_def)
    have "j < length ?ids" "k < length ?ids"
      using jk holds_facts(1) [OF assms] plan_wf_lengths [OF wf] by auto
    moreover have "?ids ! j < ?ids ! k" using that(3) jk calculation by (simp add: active_at_def)
    ultimately have "j < k"
      using sorted_wrt_nth_less [OF ids, of k j] by (cases "j < k"; cases "j = k") auto
    with jk show ?thesis by (simp add: active_at_def)
  qed
  have "sorted_wrt (\<lambda>b c. fst b < fst c) (sch_active sch)"
    using assms by (simp add: schedule_holds_def sorted_wrt_map)
  then have "sorted_wrt (\<lambda>b c. active_index (snd b) < active_index (snd c)) (sch_active sch)"
    by (rule sorted_wrt_mono_rel [rotated]) (rule before)
  then show ?thesis by (simp add: sorted_wrt_map)
qed

text \<open>
  Stopping returns exactly the identities that are still active, in catalog order; the reason
  of the first stop is the one that is kept; and from then on, whatever happens, nothing is admitted
  and no more invocations are ever started.
\<close>

theorem stop_is_final:
  assumes "plan_wf plan" "schedule_step\<^sup>*\<^sup>* (schedule_new plan) sch"
    and "stop sch reason = (ids, sch')" "schedule_step\<^sup>*\<^sup>* sch' sch''"
  shows "ids = map fst (sch_active sch)
    \<and> sch_stop_reason sch'' = (if sch_stop_reason sch = None then Some reason else sch_stop_reason sch)
    \<and> sch_next_index sch'' = sch_next_index sch \<and> admit_next sch'' = Some (None, sch'')"
proof -
  from assms(1,2) obtain A where A: "schedule_holds sch A" by (rule reachable_holds)
  let ?bs = "map (\<lambda>(i, a). (active_index a, i)) (sch_active sch)"
  have key: "map fst ?bs = map (active_index \<circ> snd) (sch_active sch)" by (simp add: comp_def split_def)
  have ok: "map_ok ?bs" unfolding key by (rule holds_active_order [OF A])
  then have "distinct (map fst ?bs)" by (simp add: strict_sorted_iff)
  then have "map_collect ?bs = ?bs"
    by (intro map_unique [OF map_collect_ok ok] set_map_collect)
  then have ids: "ids = map fst (sch_active sch)"
    using assms(3) by (simp add: stop_def comp_def split_def)
  define st where "st = (if sch_stop_reason sch = None then Some reason else sch_stop_reason sch)"
  have st: "st \<noteq> None" "sch_stop_reason sch' = st" "sch_next_index sch' = sch_next_index sch"
    using assms(3) by (auto simp: stop_def st_def split: option.splits)
  have "sch_stop_reason sch'' = st \<and> sch_next_index sch'' = sch_next_index sch"
    using assms(4)
  proof (induction rule: rtranclp_induct)
    case (step s t)
    from step.hyps(2) step.IH st(1) show ?case
      by cases (auto simp: admit_next_def complete_def stop_def Let_def run_simps
          split: if_splits option.splits)
  qed (use st in auto)
  with ids st(1) show ?thesis by (simp add: admit_next_def st_def)
qed

subsection \<open>A run of a small plan\<close>

definition small_plan :: "(nat, unit, unit) test_execution_plan" where
  "small_plan = \<lparr>
     plan_entries = [\<lparr>entry_identity = 3, entry_constraint = ParallelConstraint, entry_details = ()\<rparr>,
       \<lparr>entry_identity = 5, entry_constraint = SerialConstraint, entry_details = ()\<rparr>],
     plan_invocations = [\<lparr>invocation_identity = 3, invocation_timeout = (), invocation_capture =
         Captured \<lparr>per_stream_byte_limit = 8, invocation_byte_limit = 16\<rparr>\<rparr>,
       \<lparr>invocation_identity = 5, invocation_timeout = (), invocation_capture = Inherited\<rparr>],
     plan_mode = Parallel 2, capture_byte_budget = 20\<rparr>"

definition small_running :: "(nat, unit, unit, bool, unit) test_admission_schedule" where
  "small_running = (schedule_new small_plan)\<lparr>sch_next_index := 1, sch_active_capture_bytes := 16,
     sch_active := [(3, \<lparr>active_index = 0, active_bytes = 16, active_is_serial = False\<rparr>)]\<rparr>"

lemma small_plan_wf: "plan_wf small_plan"
  by (simp add: plan_wf_def small_plan_def capture_reservation_def maximum_concurrency_def u64_max_def)

lemma small_admit: "admit_next (schedule_new small_plan) = Some (Some
    \<lparr>admission_index = 0, admission_entry = plan_entries small_plan ! 0,
     admission_invocation = plan_invocations small_plan ! 0\<rparr>, small_running)"
  by (simp add: admit_next_def small_running_def small_plan_def schedule_new_def get_def
      maximum_concurrency_def capture_reservation_def u64_max_def map_insert_def map_remove_def)

lemma small_reachable: "schedule_step\<^sup>*\<^sup>* (schedule_new small_plan) small_running"
  using schedule_step.admit [OF small_admit] by (rule r_into_rtranclp)

theorem schedule_respects_limits_witness:
  "schedule_step\<^sup>*\<^sup>* (schedule_new small_plan) small_running
   \<and> sum_list (map (\<lambda>b. active_bytes (snd b)) (sch_active small_running)) \<le> 20"
  using schedule_respects_limits [OF small_plan_wf small_reachable] small_reachable
  by (simp add: small_plan_def)

theorem schedule_accounts_for_every_invocation_witness:
  "map_of (sch_active small_running) 3 \<noteq> None \<and> sch_completed small_running ! 0 = None"
proof -
  have "0 < plan_size small_plan" "identity_at small_plan 0 = 3" "sch_next_index small_running = 1"
    "sch_completed small_running ! 0 = None"
    by (simp_all add: small_plan_def small_running_def schedule_new_def)
  with schedule_accounts_for_every_invocation [OF small_plan_wf small_reachable this(1)]
  show ?thesis by simp
qed

theorem complete_rejects_foreign_results_witness:
  "\<exists>sch'. complete small_running
       \<lparr>admission_index = 0, admission_entry = plan_entries small_plan ! 0,
        admission_invocation = plan_invocations small_plan ! 0\<rparr>
       \<lparr>result_identity = 3, result_outcome = True\<rparr> = Some (None, sch')"
  using complete_rejects_foreign_results [OF small_plan_wf small_reachable, of
      "\<lparr>admission_index = 0, admission_entry = plan_entries small_plan ! 0,
        admission_invocation = plan_invocations small_plan ! 0\<rparr>"
      "\<lparr>result_identity = 3, result_outcome = True\<rparr>"]
  by (auto simp: small_running_def small_plan_def)

theorem schedule_runs_to_completion_witness:
  "\<not> completed_all small_running \<and> (\<exists>sch'. schedule_progress small_running sch')"
proof -
  have "(schedule_progress ^^ 1) (schedule_new small_plan) small_running"
    using schedule_progress.admit [OF small_admit] by (simp add: eq_OO)
  from schedule_runs_to_completion [OF small_plan_wf this]
  show ?thesis by (auto simp: small_plan_def)
qed

theorem stop_is_final_witness:
  "fst (stop small_running Cancelled) = [3]
   \<and> admit_next (snd (stop small_running Cancelled)) = Some (None, snd (stop small_running Cancelled))"
  using stop_is_final [OF small_plan_wf small_reachable, of Cancelled
      "fst (stop small_running Cancelled)" "snd (stop small_running Cancelled)"
      "snd (stop small_running Cancelled)"]
  by (simp add: small_running_def)

end
