(* ===== verification/Constant_Integers.thy ===== *)
theory Constant_Integers
  imports Bray_Prelude "HOL-Library.Word"
begin

text \<open>
  The arbitrary-width integer constants of the compiler (\<open>IntegerConstant\<close> in
  \<open>crates/bray-symbols/src/value/constant.rs\<close>) and their conversions and range checks
  (\<open>crates/bray-checker/src/constant/integer.rs\<close>). A constant is a sign and a big-endian magnitude.
  The big integers of the \<open>num_bigint\<close> library are the integers; the bytes it writes for a magnitude
  are a parameter \<open>to_bytes\<close>, of which only \<open>be_bytes_ok\<close> is used: they are the magnitude in base 256.
\<close>

subsection \<open>Bits of a number\<close>

text \<open>\<open>bits\<close>, the position after the highest set bit, and \<open>count_ones\<close>.\<close>

fun bit_len :: "nat \<Rightarrow> nat" where
  "bit_len n = (if n = 0 then 0 else Suc (bit_len (n div 2)))"

fun ones :: "nat \<Rightarrow> nat" where
  "ones n = (if n = 0 then 0 else n mod 2 + ones (n div 2))"

declare bit_len.simps [simp del] ones.simps [simp del]

lemma bit_len_0 [simp]: "bit_len 0 = 0" and ones_0 [simp]: "ones 0 = 0"
  by (simp_all add: bit_len.simps ones.simps)

lemma bit_len_le_iff: "bit_len n \<le> k \<longleftrightarrow> n < 2 ^ k"
proof (induction k arbitrary: n)
  case 0
  then show ?case by (simp add: bit_len.simps [of n])
next
  case (Suc k)
  have "n div 2 < 2 ^ k \<longleftrightarrow> n < 2 ^ Suc k" by (simp add: less_mult_imp_div_less) linarith
  then show ?case using Suc [of "n div 2"] by (simp add: bit_len.simps [of n])
qed

lemma less_bit_len_iff: "k < bit_len n \<longleftrightarrow> 2 ^ k \<le> n"
  using bit_len_le_iff [of n k] by linarith

lemma bit_len_eqI: "2 ^ k \<le> n \<Longrightarrow> n < 2 ^ Suc k \<Longrightarrow> bit_len n = Suc k"
  using bit_len_le_iff [of n "Suc k"] less_bit_len_iff [of k n] by simp

lemma bit_len_mono: "m \<le> n \<Longrightarrow> bit_len m \<le> bit_len n"
  using bit_len_le_iff [of m "bit_len n"] bit_len_le_iff [of n "bit_len n"] by simp

lemma bit_len_shift:
  assumes "0 < v" "b < 2 ^ k"
  shows "bit_len (v * 2 ^ k + b) = bit_len v + k"
proof -
  from assms(1) obtain m where m: "bit_len v = Suc m" by (simp add: bit_len.simps [of v])
  then have v: "2 ^ m \<le> v" "v < 2 ^ Suc m"
    using less_bit_len_iff [of m v] bit_len_le_iff [of v "Suc m"] by simp_all
  have "2 ^ m * 2 ^ k \<le> v * 2 ^ k" using v(1) by (rule mult_right_mono) simp
  moreover have "Suc v * 2 ^ k \<le> 2 ^ Suc m * 2 ^ k" using v(2) by (intro mult_right_mono) simp_all
  ultimately have "2 ^ (m + k) \<le> v * 2 ^ k + b" "v * 2 ^ k + b < 2 ^ Suc (m + k)"
    using assms(2) by (simp_all add: power_add trans_le_add1)
  then have "bit_len (v * 2 ^ k + b) = Suc (m + k)" by (rule bit_len_eqI)
  with m show ?thesis by simp
qed

lemma ones_step: "ones (v * 2 + b) = ones v + b" if "b < 2"
proof -
  from that have "(v * 2 + b) div 2 = v" "(v * 2 + b) mod 2 = b" by (auto simp: mod_mult_self3)
  then show ?thesis by (simp add: ones.simps [of "v * 2 + b"])
qed

lemma ones_shift: "b < 2 ^ k \<Longrightarrow> ones (v * 2 ^ k + b) = ones v + ones b"
proof (induction k arbitrary: b)
  case (Suc k)
  have "ones (v * 2 ^ Suc k + b) = ones ((v * 2 ^ k + b div 2) * 2 + b mod 2)"
    by (simp add: algebra_simps)
  also have "\<dots> = ones v + (ones (b div 2) + b mod 2)"
    using Suc.IH [of "b div 2"] Suc.prems
    by (subst ones_step) (simp_all add: less_mult_imp_div_less)
  also have "ones (b div 2) + b mod 2 = ones b" by (simp add: ones.simps [of b])
  finally show ?case by simp
qed simp

lemma ones_eq_0_iff: "ones n = 0 \<longleftrightarrow> n = 0"
proof (induction n rule: less_induct)
  case (less n)
  then show ?case by (cases "n = 0") (auto simp: ones.simps [of n])
qed

lemma ones_eq_1_iff: "ones n = 1 \<longleftrightarrow> (\<exists>k. n = 2 ^ k)"
proof (induction n rule: less_induct)
  case (less n)
  show ?case
  proof (cases "n = 0")
    case False
    consider (odd) "n mod 2 = 1" | (even) "n mod 2 = 0" by linarith
    then show ?thesis
    proof cases
      case odd
      then have "ones n = 1 \<longleftrightarrow> n div 2 = 0"
        using False by (simp add: ones.simps [of n] ones_eq_0_iff)
      moreover have "n div 2 = 0 \<longleftrightarrow> n = 1" using odd by linarith
      moreover have "n = 1" if "n = 2 ^ k" for k using that odd by (cases k) auto
      ultimately show ?thesis by (metis power_0)
    next
      case even
      then have n: "2 * (n div 2) = n" using div_mult_mod_eq [of n 2] by simp
      have "ones n = 1 \<longleftrightarrow> (\<exists>k. n div 2 = 2 ^ k)"
        using False even less [of "n div 2"] by (simp add: ones.simps [of n])
      also have "\<dots> \<longleftrightarrow> (\<exists>k. n = 2 ^ Suc k)" using n by (metis mult_cancel1 power_Suc zero_neq_numeral)
      also have "\<dots> \<longleftrightarrow> (\<exists>k. n = 2 ^ k)" using even by (metis one_mod_two_eq_one power_0 not0_implies_Suc zero_neq_one)
      finally show ?thesis .
    qed
  qed simp
qed

subsection \<open>Integer constants\<close>

datatype integer_sign = NonNegative | Negative

record integer_constant =
  ic_sign :: integer_sign
  ic_magnitude :: "8 word list"

definition integer_new :: "integer_sign \<Rightarrow> 8 word list \<Rightarrow> integer_constant" where
  "integer_new sign bytes =
     (let magnitude = dropWhile (\<lambda>b. b = 0) bytes in
      \<lparr>ic_sign = (if magnitude = [] then NonNegative else sign), ic_magnitude = magnitude\<rparr>)"

definition is_zero :: "integer_constant \<Rightarrow> bool" where
  "is_zero c \<longleftrightarrow> ic_magnitude c = []"

definition is_positive :: "integer_constant \<Rightarrow> bool" where
  "is_positive c \<longleftrightarrow> ic_sign c = NonNegative \<and> \<not> is_zero c"

definition negated :: "integer_constant \<Rightarrow> integer_constant" where
  "negated c = \<lparr>ic_sign = (if is_zero c \<or> ic_sign c = Negative then NonNegative else Negative),
     ic_magnitude = ic_magnitude c\<rparr>"

definition leading_zeros8 :: "8 word \<Rightarrow> nat" where
  "leading_zeros8 b = 8 - bit_len (unat b)"

definition magnitude_bits :: "integer_constant \<Rightarrow> nat" where
  "magnitude_bits c = (case ic_magnitude c of
     [] \<Rightarrow> 0
   | first # _ \<Rightarrow> length (ic_magnitude c) * 8 - leading_zeros8 first)"

text \<open>\<open>try_fold\<close> with \<open>checked_mul(256)\<close> and \<open>checked_add\<close> in an unsigned type with maximum \<open>limit\<close>.\<close>

fun checked_bytes :: "nat \<Rightarrow> nat \<Rightarrow> 8 word list \<Rightarrow> nat option" where
  "checked_bytes limit v [] = Some v"
| "checked_bytes limit v (b # bs) =
     (if limit < v * 256 then None
      else if limit < v * 256 + unat b then None
      else checked_bytes limit (v * 256 + unat b) bs)"

definition u128_max :: nat where
  "u128_max = 2 ^ 128 - 1"

definition to_u128 :: "integer_constant \<Rightarrow> nat option" where
  "to_u128 c = (if ic_sign c \<noteq> NonNegative then None else checked_bytes u128_max 0 (ic_magnitude c))"

definition to_u64 :: "integer_constant \<Rightarrow> nat option" where
  "to_u64 c = (case to_u128 c of None \<Rightarrow> None | Some v \<Rightarrow> if v \<le> u64_max then Some v else None)"

text \<open>\<open>usize\<close> has 64 bits.\<close>

definition integer_to_usize :: "integer_constant \<Rightarrow> nat option" where
  "integer_to_usize c = (if ic_sign c \<noteq> NonNegative then None else checked_bytes u64_max 0 (ic_magnitude c))"

subsection \<open>Big integers\<close>

definition be_value :: "8 word list \<Rightarrow> nat" where
  "be_value bytes = foldl (\<lambda>v b. v * 256 + unat b) 0 bytes"

definition be_bytes_ok :: "(nat \<Rightarrow> 8 word list) \<Rightarrow> bool" where
  "be_bytes_ok to_bytes \<longleftrightarrow> (\<forall>n. be_value (to_bytes n) = n)"

definition to_big_integer :: "integer_constant \<Rightarrow> int" where
  "to_big_integer c = (case ic_sign c of
     NonNegative \<Rightarrow> int (be_value (ic_magnitude c))
   | Negative \<Rightarrow> - int (be_value (ic_magnitude c)))"

definition from_big_integer :: "(nat \<Rightarrow> 8 word list) \<Rightarrow> int \<Rightarrow> integer_constant" where
  "from_big_integer to_bytes v =
     integer_new (if v < 0 then Negative else NonNegative) (to_bytes (nat \<bar>v\<bar>))"

subsection \<open>Representations\<close>

datatype integer_representation = Signed nat | Unsigned nat | TargetSigned | TargetUnsigned

definition is_power_of_two :: "8 word list \<Rightarrow> bool" where
  "is_power_of_two magnitude \<longleftrightarrow> sum_list (map (\<lambda>b. ones (unat b)) magnitude) = 1"

definition fits_signed :: "integer_constant \<Rightarrow> nat \<Rightarrow> bool" where
  "fits_signed c width = (case ic_sign c of
     NonNegative \<Rightarrow> magnitude_bits c < width
   | Negative \<Rightarrow> magnitude_bits c < width
       \<or> magnitude_bits c = width \<and> is_power_of_two (ic_magnitude c))"

definition fits_integer_representation :: "integer_constant \<Rightarrow> integer_representation \<Rightarrow> nat \<Rightarrow> bool" where
  "fits_integer_representation c representation target_width =
     (let width = (case representation of
         Signed w \<Rightarrow> w | Unsigned w \<Rightarrow> w
       | TargetSigned \<Rightarrow> target_width | TargetUnsigned \<Rightarrow> target_width) in
      case representation of
        Signed _ \<Rightarrow> fits_signed c width
      | TargetSigned \<Rightarrow> fits_signed c width
      | Unsigned _ \<Rightarrow> ic_sign c = NonNegative \<and> magnitude_bits c \<le> width
      | TargetUnsigned \<Rightarrow> ic_sign c = NonNegative \<and> magnitude_bits c \<le> width)"

subsection \<open>Canonical constants\<close>

text \<open>What \<open>integer_new\<close> establishes: no leading zero byte, and zero is not negative.\<close>

definition canonical :: "integer_constant \<Rightarrow> bool" where
  "canonical c \<longleftrightarrow> (ic_magnitude c \<noteq> [] \<longrightarrow> hd (ic_magnitude c) \<noteq> 0)
     \<and> (ic_magnitude c = [] \<longrightarrow> ic_sign c = NonNegative)"

lemma integer_new_canonical: "canonical (integer_new sign bytes)"
  using hd_dropWhile [of "\<lambda>b. b = 0" bytes] by (auto simp: canonical_def integer_new_def Let_def)

lemma negated_canonical: "canonical c \<Longrightarrow> canonical (negated c)"
  by (auto simp: canonical_def negated_def is_zero_def)

lemma be_value_Nil [simp]: "be_value [] = 0"
  by (simp add: be_value_def)

lemma be_value_snoc: "be_value (bs @ [b]) = be_value bs * 256 + unat b"
  by (simp add: be_value_def)

lemma unat_byte: "unat (b :: 8 word) < 256"
  by (rule order_less_le_trans [OF unsigned_less]) simp

lemma be_value_Cons: "be_value (b # bs) = unat b * 256 ^ length bs + be_value bs"
proof (induction bs rule: rev_induct)
  case (snoc c bs)
  have "be_value (b # bs @ [c]) = be_value (b # bs) * 256 + unat c"
    using be_value_snoc [of "b # bs" c] by simp
  then show ?case using snoc by (simp add: be_value_snoc algebra_simps)
qed (simp add: be_value_def)

lemma be_value_bound: "be_value bs < 256 ^ length bs"
proof (induction bs rule: rev_induct)
  case (snoc b bs)
  then show ?case using unat_byte [of b] by (simp add: be_value_snoc)
qed simp

lemma be_value_dropWhile: "be_value (dropWhile (\<lambda>b. b = 0) bs) = be_value bs"
  by (induction bs) (simp_all add: be_value_Cons)

lemma be_value_eq_0_iff: "(bs \<noteq> [] \<longrightarrow> hd bs \<noteq> 0) \<Longrightarrow> be_value bs = 0 \<longleftrightarrow> bs = []"
  by (cases bs) (simp_all add: be_value_Cons unat_eq_0)

lemma be_value_inject_length:
  assumes "length bs = length cs" "be_value bs = be_value cs"
  shows "bs = cs"
  using assms
proof (induction bs arbitrary: cs rule: rev_induct)
  case (snoc b bs)
  from snoc.prems(1) obtain d ds where cs: "cs = ds @ [d]" by (metis length_Suc_conv_rev length_append_singleton)
  have eq: "be_value bs * 256 + unat b = be_value ds * 256 + unat d"
    using snoc.prems(2) by (simp add: cs be_value_snoc)
  then have "be_value bs = be_value ds" using unat_byte [of b] unat_byte [of d] by linarith
  moreover from this eq have "unat b = unat d" by simp
  ultimately show ?case using snoc by (auto simp: cs word_eq_iff_unsigned [where 'a = nat])
qed simp

text \<open>The bit length of a canonical magnitude is the bit length of its value.\<close>

lemma magnitude_bits_value:
  assumes "canonical c"
  shows "magnitude_bits c = bit_len (be_value (ic_magnitude c))"
proof (cases "ic_magnitude c")
  case (Cons b bs)
  with assms have b: "unat b > 0" by (simp add: canonical_def unat_gt_0)
  have "bit_len (unat b) \<le> 8" using unat_byte [of b] by (simp add: bit_len_le_iff)
  moreover have "bit_len (be_value (b # bs)) = bit_len (unat b) + 8 * length bs"
    using bit_len_shift [OF b, of "be_value bs" "8 * length bs"] be_value_bound [of bs]
    by (simp add: be_value_Cons power_mult)
  ultimately show ?thesis by (simp add: magnitude_bits_def Cons leading_zeros8_def)
qed (simp add: magnitude_bits_def)

lemma ones_value: "sum_list (map (\<lambda>b. ones (unat b)) bs) = ones (be_value bs)"
proof (induction bs rule: rev_induct)
  case (snoc b bs)
  then show ?case using ones_shift [of "unat b" 8 "be_value bs"] unat_byte [of b]
    by (simp add: be_value_snoc)
qed simp

lemma canonical_length:
  assumes "bs \<noteq> [] \<longrightarrow> hd bs \<noteq> 0" "cs \<noteq> [] \<longrightarrow> hd cs \<noteq> 0" "be_value bs = be_value cs"
  shows "length bs \<le> length cs"
proof (cases bs)
  case (Cons b bs')
  with assms(1) have "1 \<le> unat b" by (simp add: unat_gt_0 Suc_le_eq)
  then have "256 ^ length bs' \<le> be_value bs"
    using mult_right_mono [of 1 "unat b" "256 ^ length bs'"] by (simp add: Cons be_value_Cons trans_le_add1)
  also have "be_value bs < 256 ^ length cs" using be_value_bound [of cs] assms(3) by simp
  finally have "length bs' < length cs" by simp
  then show ?thesis by (simp add: Cons)
qed simp

lemma canonical_unique:
  assumes "canonical c" "canonical d" "to_big_integer c = to_big_integer d"
  shows "c = d"
proof -
  have v: "be_value (ic_magnitude c) = be_value (ic_magnitude d)"
    using assms(3) by (auto simp: to_big_integer_def split: integer_sign.splits)
  have hds: "ic_magnitude c \<noteq> [] \<longrightarrow> hd (ic_magnitude c) \<noteq> 0" "ic_magnitude d \<noteq> [] \<longrightarrow> hd (ic_magnitude d) \<noteq> 0"
    using assms(1,2) by (simp_all add: canonical_def)
  have "length (ic_magnitude c) = length (ic_magnitude d)"
    using canonical_length [OF hds v] canonical_length [OF hds(2,1) v [symmetric]] by simp
  then have m: "ic_magnitude c = ic_magnitude d" using v by (rule be_value_inject_length)
  have "ic_sign c = ic_sign d"
    using assms m be_value_eq_0_iff [OF hds(2)]
    by (cases "ic_magnitude d = []")
      (auto simp: canonical_def to_big_integer_def split: integer_sign.splits)
  with m show ?thesis by simp
qed

lemma to_big_integer_new:
  "to_big_integer (integer_new sign bytes) =
     (case sign of NonNegative \<Rightarrow> int (be_value bytes) | Negative \<Rightarrow> - int (be_value bytes))"
  using be_value_dropWhile [of bytes]
  by (cases sign; cases "dropWhile (\<lambda>b. b = 0) bytes = []")
    (simp_all add: to_big_integer_def integer_new_def Let_def del: dropWhile_eq_Nil_conv)

lemma to_big_integer_from:
  assumes "be_bytes_ok to_bytes"
  shows "to_big_integer (from_big_integer to_bytes v) = v"
  using assms by (simp add: from_big_integer_def to_big_integer_new be_bytes_ok_def)

lemma to_big_integer_negated: "to_big_integer (negated c) = - to_big_integer c"
  by (cases "ic_sign c") (auto simp: to_big_integer_def negated_def is_zero_def)

text \<open>
  Integer constants are exactly the integers: converting an integer to a constant gives a
  canonical one that converts back to it, every canonical constant is the constant of its integer, so
  that the derived equality of constants is the equality of their integers, and negation is negation.
\<close>

theorem integer_constant_roundtrip:
  assumes "be_bytes_ok to_bytes" "canonical c"
  shows "canonical (from_big_integer to_bytes v)
    \<and> to_big_integer (from_big_integer to_bytes v) = v
    \<and> from_big_integer to_bytes (to_big_integer c) = c
    \<and> canonical (negated c) \<and> to_big_integer (negated c) = - to_big_integer c"
proof -
  have "canonical (from_big_integer to_bytes w)" for w
    by (simp add: from_big_integer_def integer_new_canonical)
  then show ?thesis
    using canonical_unique [OF _ assms(2)] to_big_integer_from [OF assms(1)] negated_canonical [OF assms(2)]
      to_big_integer_negated by blast
qed

lemma checked_bytes_iff:
  "v \<le> limit \<Longrightarrow> checked_bytes limit v bs =
     (let n = foldl (\<lambda>v b. v * 256 + unat b) v bs in if n \<le> limit then Some n else None)"
proof (induction bs arbitrary: v)
  case (Cons b bs)
  let ?w = "v * 256 + unat b"
  have ge: "w \<le> foldl (\<lambda>v b. v * 256 + unat b) w bs" for w
  proof (induction bs arbitrary: w)
    case (Cons c cs)
    have "w \<le> w * 256 + unat c" by simp
    also have "\<dots> \<le> foldl (\<lambda>v b. v * 256 + unat b) (w * 256 + unat c) cs" by (rule Cons)
    finally show ?case by simp
  qed simp
  show ?case using Cons.IH [of ?w] ge [of ?w] by (auto simp: Let_def)
qed (simp add: Let_def)

text \<open>
  Reading a constant as a machine number is exact: it succeeds precisely for the values that the
  type can hold, although the overflow is checked byte by byte.
\<close>

theorem integer_to_machine_exact:
  assumes "canonical c"
  shows "integer_to_usize c = (if 0 \<le> to_big_integer c \<and> to_big_integer c \<le> int u64_max
      then Some (nat (to_big_integer c)) else None)
    \<and> to_u64 c = integer_to_usize c
    \<and> to_u128 c = (if 0 \<le> to_big_integer c \<and> to_big_integer c \<le> int u128_max
      then Some (nat (to_big_integer c)) else None)"
proof -
  have z: "be_value (ic_magnitude c) = 0 \<longleftrightarrow> ic_magnitude c = []"
    using assms by (intro be_value_eq_0_iff) (simp add: canonical_def)
  have "u64_max \<le> u128_max" by (simp add: u64_max_def u128_max_def)
  then show ?thesis
    using z assms checked_bytes_iff [of 0 u64_max "ic_magnitude c"] checked_bytes_iff [of 0 u128_max "ic_magnitude c"]
    by (cases "ic_sign c")
      (auto simp: integer_to_usize_def to_u64_def to_u128_def to_big_integer_def be_value_def [symmetric]
        canonical_def Let_def)
qed

lemma fits_signed_iff:
  assumes "canonical c" "0 < w"
  shows "fits_signed c w \<longleftrightarrow> - (2 ^ (w - 1)) \<le> to_big_integer c \<and> to_big_integer c < 2 ^ (w - 1)"
proof -
  let ?n = "be_value (ic_magnitude c)"
  have bits: "magnitude_bits c < w \<longleftrightarrow> ?n < 2 ^ (w - 1)"
    using bit_len_le_iff [of ?n "w - 1"] assms by (auto simp: magnitude_bits_value)
  have eq: "magnitude_bits c = w \<and> is_power_of_two (ic_magnitude c) \<longleftrightarrow> ?n = 2 ^ (w - 1)"
  proof
    assume l: "magnitude_bits c = w \<and> is_power_of_two (ic_magnitude c)"
    then obtain k where k: "?n = 2 ^ k"
      using ones_eq_1_iff [of ?n] by (auto simp: is_power_of_two_def ones_value)
    then have "bit_len ?n = Suc k" by (intro bit_len_eqI) simp_all
    with l k assms(1) show "?n = 2 ^ (w - 1)" by (auto simp: magnitude_bits_value)
  next
    assume n: "?n = 2 ^ (w - 1)"
    then have "bit_len ?n = Suc (w - 1)" by (intro bit_len_eqI) simp_all
    with n assms show "magnitude_bits c = w \<and> is_power_of_two (ic_magnitude c)"
      using ones_eq_1_iff [of ?n] by (auto simp: magnitude_bits_value is_power_of_two_def ones_value)
  qed
  show ?thesis
  proof (cases "ic_sign c")
    case NonNegative
    have "- (2 ^ (w - 1)) \<le> (0 :: int)" by simp
    also have "(0 :: int) \<le> int ?n" by simp
    finally show ?thesis using NonNegative bits by (simp add: fits_signed_def to_big_integer_def)
  next
    case Negative
    have pos: "- int ?n < 2 ^ (w - 1)" by (rule order_le_less_trans [of _ 0]) simp_all
    have "fits_signed c w \<longleftrightarrow> ?n \<le> 2 ^ (w - 1)"
      using Negative bits eq by (auto simp: fits_signed_def)
    also have "\<dots> \<longleftrightarrow> int ?n \<le> 2 ^ (w - 1)" by (metis of_nat_le_iff of_nat_numeral of_nat_power)
    finally show ?thesis using Negative pos by (simp add: to_big_integer_def)
  qed
qed

lemma fits_integer_representation_char:
  assumes "canonical c" "0 < target_width" "\<forall>w. representation \<in> {Signed w, Unsigned w} \<longrightarrow> 0 < w"
  shows "fits_integer_representation c representation target_width \<longleftrightarrow>
    (case representation of
       Signed w \<Rightarrow> - (2 ^ (w - 1)) \<le> to_big_integer c \<and> to_big_integer c < 2 ^ (w - 1)
     | TargetSigned \<Rightarrow> - (2 ^ (target_width - 1)) \<le> to_big_integer c \<and> to_big_integer c < 2 ^ (target_width - 1)
     | Unsigned w \<Rightarrow> 0 \<le> to_big_integer c \<and> to_big_integer c < 2 ^ w
     | TargetUnsigned \<Rightarrow> 0 \<le> to_big_integer c \<and> to_big_integer c < 2 ^ target_width)"
proof -
  let ?n = "be_value (ic_magnitude c)"
  have unsigned: "ic_sign c = NonNegative \<and> magnitude_bits c \<le> w
      \<longleftrightarrow> 0 \<le> to_big_integer c \<and> to_big_integer c < 2 ^ w" for w
  proof (cases "ic_sign c")
    case NonNegative
    have "?n < 2 ^ w \<longleftrightarrow> int ?n < 2 ^ w" by (metis of_nat_less_iff of_nat_numeral of_nat_power)
    with NonNegative show ?thesis
      by (simp add: to_big_integer_def magnitude_bits_value [OF assms(1)] bit_len_le_iff)
  next
    case Negative
    with assms(1) have "0 < ?n" using be_value_eq_0_iff [of "ic_magnitude c"] by (auto simp: canonical_def)
    with Negative show ?thesis by (simp add: to_big_integer_def)
  qed
  show ?thesis
    using assms(2,3) unsigned fits_signed_iff [OF assms(1)]
    by (cases representation) (simp_all add: fits_integer_representation_def)
qed

text \<open>
  C37. A constant is accepted for an integer type exactly when its value lies in the range of the
  type: two's complement for the signed types, with the most negative value included.
\<close>

theorem fits_integer_representation_iff:
  assumes "canonical c" "0 < target_width" "\<forall>w. representation \<in> {Signed w, Unsigned w} \<longrightarrow> 0 < w"
  shows "fits_integer_representation c representation target_width \<longleftrightarrow>
    (case representation of
       Signed w \<Rightarrow> - (2 ^ (w - 1)) \<le> to_big_integer c \<and> to_big_integer c < 2 ^ (w - 1)
     | TargetSigned \<Rightarrow> - (2 ^ (target_width - 1)) \<le> to_big_integer c \<and> to_big_integer c < 2 ^ (target_width - 1)
     | Unsigned w \<Rightarrow> 0 \<le> to_big_integer c \<and> to_big_integer c < 2 ^ w
     | TargetUnsigned \<Rightarrow> 0 \<le> to_big_integer c \<and> to_big_integer c < 2 ^ target_width)"
  by (rule fits_integer_representation_char [OF assms])

subsection \<open>Concrete constants\<close>

text \<open>A writer of big-endian bytes, to show that the assumption on \<open>to_bytes\<close> can be met.\<close>

fun be_bytes :: "nat \<Rightarrow> 8 word list" where
  "be_bytes n = (if n = 0 then [] else be_bytes (n div 256) @ [of_nat (n mod 256)])"

declare be_bytes.simps [simp del]

lemma be_bytes_0 [simp]: "be_bytes 0 = []"
  by (simp add: be_bytes.simps)

lemma be_bytes_correct: "be_bytes_ok be_bytes"
proof -
  have "be_value (be_bytes n) = n" for n
  proof (induction n rule: less_induct)
    case (less n)
    have "unat (of_nat (n mod 256) :: 8 word) = n mod 256" by (simp add: unat_of_nat)
    with less [of "n div 256"] show ?case
      by (cases "n = 0") (simp_all add: be_bytes.simps [of n] be_value_snoc)
  qed
  then show ?thesis by (simp add: be_bytes_ok_def)
qed

lemma minus_128_canonical: "canonical \<lparr>ic_sign = Negative, ic_magnitude = [128]\<rparr>"
  by (simp add: canonical_def)

theorem integer_constant_roundtrip_witness:
  "from_big_integer be_bytes (to_big_integer \<lparr>ic_sign = Negative, ic_magnitude = [128]\<rparr>)
   = \<lparr>ic_sign = Negative, ic_magnitude = [128]\<rparr>"
  using integer_constant_roundtrip [OF be_bytes_correct minus_128_canonical] by blast

theorem integer_to_machine_exact_witness:
  "integer_to_usize \<lparr>ic_sign = NonNegative, ic_magnitude = [1, 0]\<rparr> = Some 256"
  using integer_to_machine_exact [of "\<lparr>ic_sign = NonNegative, ic_magnitude = [1, 0]\<rparr>"]
  by (simp add: canonical_def to_big_integer_def be_value_def u64_max_def)

theorem fits_integer_representation_iff_witness:
  "fits_integer_representation \<lparr>ic_sign = Negative, ic_magnitude = [128]\<rparr> (Signed 8) 64"
  using fits_integer_representation_iff [OF minus_128_canonical, of 64 "Signed 8"]
  by (simp add: to_big_integer_def be_value_def)

end
