(* ===== verification/Constant_Folding.thy ===== *)
theory Constant_Folding
  imports Constant_Integers "HOL-Library.Signed_Division" "HOL-Library.List_Lexorder" "HOL-Library.Char_ord"
begin

unbundle bit_operations_syntax

text \<open>
  Folding of constant operations (\<open>crates/bray-checker/src/constant/operation.rs\<close>): the operators of
  the bound tree, the constant values, and the folding of unary and binary operations on them with
  every error branch. Arithmetic on \<open>BigInt\<close> is arithmetic on the integers: division truncates,
  a right shift rounds down and the bitwise operators work on two's complement. Folding of real and
  complex values, which is done by the floating-point library, is a parameter \<open>fold_real\<close>,
  \<open>fold_complex\<close>. The lemmas show that folding computes the mathematical operation and stays within
  the limit on the size of integers.
\<close>

subsection \<open>Operators and values\<close>

datatype bound_operator =
    LogicalOr | LogicalAnd | Equal | NotEqual | Less | LessEqual | Greater | GreaterEqual
  | BitwiseOr | BitwiseXor | BitwiseAnd | ShiftLeft | ShiftRight | Add | Subtract | Multiply
  | Divide | Remainder | MatrixMultiply | Exponentiate | BitwiseNot | LogicalNot

text \<open>The sixteen bytes of a \<open>Binary128\<close>, most significant first, are the word they spell.\<close>

datatype real_constant_bits =
    Binary16 "16 word" | Binary32 "32 word" | Binary64 "64 word" | Binary128 "128 word"

text \<open>Identities are numbers; the selection of a static is a type parameter.\<close>

datatype 's constant_value_kind =
    ErrorValue
  | BooleanValue bool
  | CharacterValue nat
  | IntegerValue integer_constant
  | RealValue real_constant_bits
  | ComplexValue real_constant_bits real_constant_bits
  | StringValue string
  | StaticAddress 's
  | BorrowedValue nat
  | UnitConstant
  | NullableAbsent
  | NullablePresent nat
  | TupleValue "nat list"
  | ArrayValue "nat list"
  | ProductValue "(nat \<times> nat) list"
  | UnionValue nat "(nat \<times> nat) list"

datatype constant_operation_error =
    Invalid | DivisionByZero | NotRepresentable | ResourceLimitExceeded nat nat

type_synonym 's folding = "constant_operation_error + 's constant_value_kind"

datatype representation_role =
    ScalarBool | ScalarChar
  | ScalarI8 | ScalarI16 | ScalarI32 | ScalarI64 | ScalarI128
  | ScalarU8 | ScalarU16 | ScalarU32 | ScalarU64 | ScalarU128
  | ScalarIsize | ScalarUsize
  | ScalarR16 | ScalarR32 | ScalarR64 | ScalarR128
  | ScalarC32 | ScalarC64 | ScalarC128 | ScalarC256
  | UnitRole | NeverRole | StringRole | RangeRole | RawPointer | FunctionPointer | DevicePointer
  | AtomicRole | Uninit | ResultRole | RunResult | PanicReport | ConversionError | FutureRole
  | TaskRole | BooleanTrue | BooleanFalse | UnitValueRole | NoneValue

definition integer_representation_of :: "representation_role \<Rightarrow> integer_representation option" where
  "integer_representation_of role = (case role of
     ScalarI8 \<Rightarrow> Some (Signed 8) | ScalarI16 \<Rightarrow> Some (Signed 16) | ScalarI32 \<Rightarrow> Some (Signed 32)
   | ScalarI64 \<Rightarrow> Some (Signed 64) | ScalarI128 \<Rightarrow> Some (Signed 128)
   | ScalarU8 \<Rightarrow> Some (Unsigned 8) | ScalarU16 \<Rightarrow> Some (Unsigned 16) | ScalarU32 \<Rightarrow> Some (Unsigned 32)
   | ScalarU64 \<Rightarrow> Some (Unsigned 64) | ScalarU128 \<Rightarrow> Some (Unsigned 128)
   | ScalarIsize \<Rightarrow> Some TargetSigned | ScalarUsize \<Rightarrow> Some TargetUnsigned
   | _ \<Rightarrow> None)"

subsection \<open>Unary operations\<close>

definition negate_real :: "real_constant_bits \<Rightarrow> real_constant_bits" where
  "negate_real v = (case v of
     Binary16 bits \<Rightarrow> Binary16 (bits XOR push_bit 15 1)
   | Binary32 bits \<Rightarrow> Binary32 (bits XOR push_bit 31 1)
   | Binary64 bits \<Rightarrow> Binary64 (bits XOR push_bit 63 1)
   | Binary128 bits \<Rightarrow> Binary128 (bits XOR push_bit 127 1))"

definition fold_numeric_sign ::
    "bound_operator \<Rightarrow> 's constant_value_kind \<Rightarrow> 's constant_value_kind option" where
  "fold_numeric_sign operator operand = (case (operator, operand) of
     (Add, IntegerValue v) \<Rightarrow> Some (IntegerValue v)
   | (Subtract, IntegerValue v) \<Rightarrow> Some (IntegerValue (negated v))
   | (Subtract, RealValue v) \<Rightarrow> Some (RealValue (negate_real v))
   | (Add, RealValue v) \<Rightarrow> Some (RealValue v)
   | (Subtract, ComplexValue re im) \<Rightarrow> Some (ComplexValue (negate_real re) (negate_real im))
   | (Add, ComplexValue re im) \<Rightarrow> Some (ComplexValue re im)
   | _ \<Rightarrow> None)"

definition unsigned_not :: "int \<Rightarrow> nat \<Rightarrow> int" where
  "unsigned_not value width = (let mask = push_bit width 1 - 1 in (NOT value) AND mask)"

definition bitwise_not :: "integer_constant \<Rightarrow> integer_representation \<Rightarrow> nat \<Rightarrow> int" where
  "bitwise_not value representation target_width =
     (let v = to_big_integer value in
      case representation of
        Unsigned width \<Rightarrow> unsigned_not v width
      | TargetUnsigned \<Rightarrow> unsigned_not v target_width
      | Signed _ \<Rightarrow> NOT v
      | TargetSigned \<Rightarrow> NOT v)"

definition fold_unary ::
    "(nat \<Rightarrow> 8 word list) \<Rightarrow> bound_operator \<Rightarrow> 's constant_value_kind \<Rightarrow> representation_role option
     \<Rightarrow> nat \<Rightarrow> 's folding" where
  "fold_unary to_bytes operator operand representation target_width =
     (case fold_numeric_sign operator operand of
        Some v \<Rightarrow> Inr v
      | None \<Rightarrow> (case (operator, operand) of
          (LogicalNot, BooleanValue v) \<Rightarrow> Inr (BooleanValue (\<not> v))
        | (BitwiseNot, IntegerValue v) \<Rightarrow>
            (case Option.bind representation integer_representation_of of
               None \<Rightarrow> Inl Invalid
             | Some r \<Rightarrow> Inr (IntegerValue (from_big_integer to_bytes (bitwise_not v r target_width))))
        | _ \<Rightarrow> Inl Invalid))"

subsection \<open>Binary operations\<close>

definition big_bits :: "int \<Rightarrow> nat" where
  "big_bits v = bit_len (nat \<bar>v\<bar>)"

definition as_u64 :: "int \<Rightarrow> nat option" where
  "as_u64 v = (if 0 \<le> v \<and> v \<le> int u64_max then Some (nat v) else None)"

definition as_u32 :: "int \<Rightarrow> nat option" where
  "as_u32 v = (if 0 \<le> v \<and> v \<le> int u32_max then Some (nat v) else None)"

abbreviation u64_or_max :: "int \<Rightarrow> nat" where
  "u64_or_max v \<equiv> (case as_u64 v of Some n \<Rightarrow> n | None \<Rightarrow> u64_max)"

definition shift_count :: "int \<Rightarrow> nat \<Rightarrow> constant_operation_error + nat" where
  "shift_count v maximum = (case as_u64 v of
     Some n \<Rightarrow> Inr n
   | None \<Rightarrow> Inl (ResourceLimitExceeded (u64_or_max v) maximum))"

definition shift_left :: "int \<Rightarrow> int \<Rightarrow> nat \<Rightarrow> constant_operation_error + int" where
  "shift_left value count maximum =
     (if count < 0 then Inl Invalid
      else if value = 0 then Inr value
      else (let value_bits = big_bits value; available_bits = maximum - value_bits in
        if maximum < value_bits \<or> int available_bits < count
          then Inl (ResourceLimitExceeded (min (value_bits + u64_or_max count) u64_max) maximum)
        else (case shift_count count maximum of
          Inl e \<Rightarrow> Inl e
        | Inr n \<Rightarrow> Inr (push_bit n value))))"

definition shift_right :: "int \<Rightarrow> int \<Rightarrow> constant_operation_error + int" where
  "shift_right value count =
     (if count < 0 then Inl Invalid
      else if int (big_bits value) \<le> count then Inr (if value < 0 then -1 else 0)
      else (case shift_count count u64_max of
        Inl e \<Rightarrow> Inl e
      | Inr n \<Rightarrow> Inr (drop_bit n value)))"

definition exponentiate :: "int \<Rightarrow> int \<Rightarrow> nat \<Rightarrow> constant_operation_error + int" where
  "exponentiate value exponent maximum =
     (if exponent < 0 then Inl Invalid
      else if value = 0 then Inr (if exponent = 0 then 1 else value)
      else if value = 1 then Inr value
      else if value = -1 then Inr (if exponent smod 2 = 0 then 1 else value)
      else (let minimum_result_bits = int (big_bits value - 1) * exponent + 1 in
        if int maximum < minimum_result_bits
          then Inl (ResourceLimitExceeded (u64_or_max minimum_result_bits) maximum)
        else (case as_u32 exponent of
          None \<Rightarrow> Inl (ResourceLimitExceeded u64_max maximum)
        | Some n \<Rightarrow> Inr (value ^ n))))"

definition fold_integer_binary ::
    "(nat \<Rightarrow> 8 word list) \<Rightarrow> bound_operator \<Rightarrow> integer_constant \<Rightarrow> integer_constant \<Rightarrow> nat \<Rightarrow> 's folding" where
  "fold_integer_binary to_bytes operator l r maximum =
     (let left = to_big_integer l; right = to_big_integer r;
          number = (\<lambda>v. Inr (IntegerValue (from_big_integer to_bytes v)));
          fallible = (\<lambda>f. case f of Inl e \<Rightarrow> Inl e | Inr v \<Rightarrow> number v);
          truth = (\<lambda>b. Inr (BooleanValue b));
          result = (case operator of
              Add \<Rightarrow> number (left + right)
            | Subtract \<Rightarrow> number (left - right)
            | Multiply \<Rightarrow> number (left * right)
            | Divide \<Rightarrow> if right = 0 then Inl DivisionByZero else number (left sdiv right)
            | Remainder \<Rightarrow> if right = 0 then Inl DivisionByZero else number (left smod right)
            | BitwiseAnd \<Rightarrow> number (left AND right)
            | BitwiseOr \<Rightarrow> number (left OR right)
            | BitwiseXor \<Rightarrow> number (left XOR right)
            | ShiftLeft \<Rightarrow> fallible (shift_left left right maximum)
            | ShiftRight \<Rightarrow> fallible (shift_right left right)
            | Equal \<Rightarrow> truth (left = right)
            | NotEqual \<Rightarrow> truth (left \<noteq> right)
            | Less \<Rightarrow> truth (left < right)
            | LessEqual \<Rightarrow> truth (left \<le> right)
            | Greater \<Rightarrow> truth (left > right)
            | GreaterEqual \<Rightarrow> truth (left \<ge> right)
            | Exponentiate \<Rightarrow> fallible (exponentiate left right maximum)
            | _ \<Rightarrow> Inl Invalid) in
      case result of
        Inl e \<Rightarrow> Inl e
      | Inr (IntegerValue v) \<Rightarrow>
          (let result_bits = min (magnitude_bits v) u64_max in
           if maximum < result_bits then Inl (ResourceLimitExceeded result_bits maximum) else result)
      | Inr _ \<Rightarrow> result)"

definition fold_boolean_binary :: "bound_operator \<Rightarrow> bool \<Rightarrow> bool \<Rightarrow> 's folding" where
  "fold_boolean_binary operator left right = (case operator of
     LogicalAnd \<Rightarrow> Inr (BooleanValue (left \<and> right))
   | LogicalOr \<Rightarrow> Inr (BooleanValue (left \<or> right))
   | Equal \<Rightarrow> Inr (BooleanValue (left = right))
   | NotEqual \<Rightarrow> Inr (BooleanValue (left \<noteq> right))
   | _ \<Rightarrow> Inl Invalid)"

definition fold_ordered :: "bound_operator \<Rightarrow> 'a::linorder \<Rightarrow> 'a \<Rightarrow> 's folding" where
  "fold_ordered operator left right = (case operator of
     Equal \<Rightarrow> Inr (BooleanValue (left = right))
   | NotEqual \<Rightarrow> Inr (BooleanValue (left \<noteq> right))
   | Less \<Rightarrow> Inr (BooleanValue (left < right))
   | LessEqual \<Rightarrow> Inr (BooleanValue (left \<le> right))
   | Greater \<Rightarrow> Inr (BooleanValue (left > right))
   | GreaterEqual \<Rightarrow> Inr (BooleanValue (left \<ge> right))
   | _ \<Rightarrow> Inl Invalid)"

type_synonym 's real_folder = "bound_operator \<Rightarrow> real_constant_bits \<Rightarrow> real_constant_bits \<Rightarrow> 's folding"

type_synonym 's complex_folder =
  "bound_operator \<Rightarrow> real_constant_bits \<times> real_constant_bits
   \<Rightarrow> real_constant_bits \<times> real_constant_bits \<Rightarrow> 's folding"

definition fold_binary ::
    "(nat \<Rightarrow> 8 word list) \<Rightarrow> 's real_folder \<Rightarrow> 's complex_folder \<Rightarrow> bound_operator
     \<Rightarrow> 's constant_value_kind \<Rightarrow> 's constant_value_kind \<Rightarrow> nat \<Rightarrow> 's folding" where
  "fold_binary to_bytes fold_real fold_complex operator left right maximum = (case (left, right) of
     (IntegerValue l, IntegerValue r) \<Rightarrow> fold_integer_binary to_bytes operator l r maximum
   | (BooleanValue l, BooleanValue r) \<Rightarrow> fold_boolean_binary operator l r
   | (CharacterValue l, CharacterValue r) \<Rightarrow> fold_ordered operator l r
   | (StringValue l, StringValue r) \<Rightarrow> fold_ordered operator l r
   | (RealValue l, RealValue r) \<Rightarrow> fold_real operator l r
   | (ComplexValue lr li, ComplexValue rr ri) \<Rightarrow> fold_complex operator (lr, li) (rr, ri)
   | _ \<Rightarrow> (if operator = Equal then Inr (BooleanValue (left = right))
           else if operator = NotEqual then Inr (BooleanValue (left \<noteq> right))
           else Inl Invalid))"

subsection \<open>The mathematical operations\<close>

text \<open>What an arithmetic operator means on integers, where it means something.\<close>

definition integer_operation :: "bound_operator \<Rightarrow> int \<Rightarrow> int \<Rightarrow> int option" where
  "integer_operation operator x y = (case operator of
     Add \<Rightarrow> Some (x + y)
   | Subtract \<Rightarrow> Some (x - y)
   | Multiply \<Rightarrow> Some (x * y)
   | Divide \<Rightarrow> if y = 0 then None else Some (x sdiv y)
   | Remainder \<Rightarrow> if y = 0 then None else Some (x smod y)
   | BitwiseAnd \<Rightarrow> Some (x AND y)
   | BitwiseOr \<Rightarrow> Some (x OR y)
   | BitwiseXor \<Rightarrow> Some (x XOR y)
   | ShiftLeft \<Rightarrow> if y < 0 then None else Some (x * 2 ^ nat y)
   | ShiftRight \<Rightarrow> if y < 0 then None else Some (x div 2 ^ nat y)
   | Exponentiate \<Rightarrow> if y < 0 then None else Some (x ^ nat y)
   | _ \<Rightarrow> None)"

definition integer_comparison :: "bound_operator \<Rightarrow> int \<Rightarrow> int \<Rightarrow> bool option" where
  "integer_comparison operator x y = (case operator of
     Equal \<Rightarrow> Some (x = y)
   | NotEqual \<Rightarrow> Some (x \<noteq> y)
   | Less \<Rightarrow> Some (x < y)
   | LessEqual \<Rightarrow> Some (x \<le> y)
   | Greater \<Rightarrow> Some (x > y)
   | GreaterEqual \<Rightarrow> Some (x \<ge> y)
   | _ \<Rightarrow> None)"

lemma big_bits_le_iff: "big_bits v \<le> k \<longleftrightarrow> \<bar>v\<bar> < 2 ^ k"
proof -
  have "nat \<bar>v\<bar> < 2 ^ k \<longleftrightarrow> \<bar>v\<bar> < 2 ^ k" by (simp add: nat_less_iff)
  then show ?thesis by (simp add: big_bits_def bit_len_le_iff)
qed

lemma less_big_bits_iff: "k < big_bits v \<longleftrightarrow> 2 ^ k \<le> \<bar>v\<bar>"
  using big_bits_le_iff [of v k] by linarith

lemma big_bits_0 [simp]: "big_bits 0 = 0"
  by (simp add: big_bits_def)

lemma big_bits_shift:
  assumes "v \<noteq> 0"
  shows "big_bits (v * 2 ^ n) = big_bits v + n"
proof -
  have "nat \<bar>v * 2 ^ n\<bar> = nat \<bar>v\<bar> * 2 ^ n + 0" by (simp add: abs_mult nat_mult_distrib nat_power_eq)
  then show ?thesis using bit_len_shift [of "nat \<bar>v\<bar>" 0 n] assms by (simp add: big_bits_def)
qed

lemma shift_left_spec:
  assumes "maximum \<le> u32_max" "0 \<le> y"
  shows "if big_bits (x * 2 ^ nat y) \<le> maximum then shift_left x y maximum = Inr (x * 2 ^ nat y)
    else \<exists>n. maximum < n \<and> shift_left x y maximum = Inl (ResourceLimitExceeded n maximum)"
proof (cases "x = 0")
  case False
  have bits: "big_bits (x * 2 ^ nat y) = big_bits x + nat y" by (rule big_bits_shift [OF False])
  have u: "u32_max < u64_max" by (simp add: u32_max_def u64_max_def)
  show ?thesis
  proof (cases "big_bits (x * 2 ^ nat y) \<le> maximum")
    case True
    then have le: "\<not> maximum < big_bits x" "\<not> int (maximum - big_bits x) < y" using bits assms(2) by auto
    from True bits assms u have "as_u64 y = Some (nat y)" by (simp add: as_u64_def nat_le_iff)
    with le True False assms(2) show ?thesis
      by (simp add: shift_left_def Let_def shift_count_def push_bit_eq_mult)
  next
    case False': False
    have over: "maximum < big_bits x \<or> int (maximum - big_bits x) < y" using False' bits assms(2) by auto
    let ?n = "min (big_bits x + u64_or_max y) u64_max"
    have "maximum < ?n"
      using False' bits assms u by (auto simp: as_u64_def split: if_splits)
    with over False False' assms(2) show ?thesis by (auto simp: shift_left_def Let_def)
  qed
qed (use assms in \<open>simp add: shift_left_def\<close>)

lemma shift_right_spec:
  assumes "big_bits x \<le> u64_max" "0 \<le> y"
  shows "shift_right x y = Inr (x div 2 ^ nat y)"
proof (cases "int (big_bits x) \<le> y")
  case True
  then have "\<bar>x\<bar> < 2 ^ nat y"
    using big_bits_le_iff [of x "nat y"] assms(2) by (simp add: nat_le_iff le_nat_iff)
  moreover have "x div 2 ^ nat y = - 1" if "\<bar>x\<bar> < 2 ^ nat y" "x < 0"
  proof -
    have "(x + 2 ^ nat y) div 2 ^ nat y = 0" using that by (intro div_pos_pos_trivial) auto
    then show ?thesis by (subst (asm) div_add_self2) simp_all
  qed
  ultimately have "x div 2 ^ nat y = (if x < 0 then -1 else 0)" by (simp add: div_pos_pos_trivial)
  with True assms(2) show ?thesis by (simp add: shift_right_def)
next
  case False
  then have "as_u64 y = Some (nat y)" using assms by (simp add: as_u64_def)
  with False assms(2) show ?thesis by (simp add: shift_right_def shift_count_def drop_bit_eq_div)
qed

lemma power_bits:
  assumes "x \<noteq> 0"
  shows "(big_bits x - 1) * e + 1 \<le> big_bits (x ^ e)"
proof -
  have "0 < big_bits x" using assms less_big_bits_iff [of 0 x] by simp
  then have "2 ^ (big_bits x - 1) \<le> \<bar>x\<bar>" using less_big_bits_iff [of "big_bits x - 1" x] by simp
  then have "(2 ^ (big_bits x - 1)) ^ e \<le> \<bar>x\<bar> ^ e" by (rule power_mono) simp
  then have "2 ^ ((big_bits x - 1) * e) \<le> \<bar>x ^ e\<bar>" by (simp add: power_mult power_abs)
  then show ?thesis using less_big_bits_iff [of "(big_bits x - 1) * e" "x ^ e"] by simp
qed

lemma exponentiate_spec:
  assumes "maximum \<le> u32_max" "0 \<le> y"
  shows "(exponentiate x y maximum = Inr (x ^ nat y))
    \<or> (maximum < big_bits (x ^ nat y) \<and> (\<exists>n. maximum < n \<and> exponentiate x y maximum = Inl (ResourceLimitExceeded n maximum)))"
proof -
  consider (zero) "x = 0" | (one) "x = 1" | (minus) "x = -1" | (big) "x \<noteq> 0" "x \<noteq> 1" "x \<noteq> -1" by blast
  then show ?thesis
  proof cases
    case zero
    then show ?thesis using assms by (simp add: exponentiate_def power_0_left)
  next
    case one
    then show ?thesis using assms by (simp add: exponentiate_def)
  next
    case minus
    have "y smod 2 = y mod 2" using assms(2) by (cases "y = 0") (simp_all add: smod_int_alt_def)
    moreover have "(-1 :: int) ^ nat y = (if y mod 2 = 0 then 1 else -1)"
      using assms(2) by (auto simp: even_iff_mod_2_eq_zero [symmetric] even_nat_iff)
    ultimately show ?thesis using minus assms by (simp add: exponentiate_def)
  next
    case big
    then have two: "1 < big_bits x" using less_big_bits_iff [of 1 x] by simp
    let ?m = "int (big_bits x - 1) * y + 1"
    have m: "?m = int ((big_bits x - 1) * nat y + 1)" using assms(2) by simp
    have le: "?m \<le> int (big_bits (x ^ nat y))" unfolding m using power_bits [OF big(1), of "nat y"] by (simp only: of_nat_le_iff)
    have u: "int u32_max < int u64_max" by (simp add: u32_max_def u64_max_def)
    show ?thesis
    proof (cases "int maximum < ?m")
      case True
      have "maximum < u64_or_max ?m" using True assms(1) u by (auto simp: as_u64_def split: if_splits)
      with True le big assms(2) show ?thesis by (auto simp: exponentiate_def Let_def)
    next
      case False
      have "1 * y \<le> int (big_bits x - 1) * y" using two assms(2) by (intro mult_right_mono) auto
      with False assms have "as_u32 y = Some (nat y)" by (simp add: as_u32_def)
      with False big assms(2) show ?thesis by (simp add: exponentiate_def Let_def)
    qed
  qed
qed

lemma magnitude_bits_from:
  assumes "be_bytes_ok to_bytes"
  shows "magnitude_bits (from_big_integer to_bytes v) = big_bits v"
proof -
  let ?c = "from_big_integer to_bytes v"
  have c: "canonical ?c" by (simp add: from_big_integer_def integer_new_canonical)
  have "be_value (ic_magnitude ?c) = nat \<bar>to_big_integer ?c\<bar>"
    by (cases "ic_sign ?c") (simp_all add: to_big_integer_def)
  then show ?thesis
    by (simp add: magnitude_bits_value [OF c] big_bits_def to_big_integer_from [OF assms])
qed

lemma fold_integer_binary_cases:
  assumes "be_bytes_ok to_bytes" "maximum \<le> u32_max" "big_bits (to_big_integer l) \<le> u64_max"
  shows "(case integer_comparison operator (to_big_integer l) (to_big_integer r) of
      Some b \<Rightarrow> (fold_integer_binary to_bytes operator l r maximum :: 's folding) = Inr (BooleanValue b)
    | None \<Rightarrow> (case integer_operation operator (to_big_integer l) (to_big_integer r) of
        Some v \<Rightarrow> if big_bits v \<le> maximum
          then (fold_integer_binary to_bytes operator l r maximum :: 's folding) = Inr (IntegerValue (from_big_integer to_bytes v))
          else \<exists>n > maximum. (fold_integer_binary to_bytes operator l r maximum :: 's folding) = Inl (ResourceLimitExceeded n maximum)
      | None \<Rightarrow> (fold_integer_binary to_bytes operator l r maximum :: 's folding) = Inl (if operator \<in> {Divide, Remainder} then DivisionByZero else Invalid)))"
proof -
  let ?x = "to_big_integer l" and ?y = "to_big_integer r"
  have u: "maximum < u64_max" using assms(2) by (simp add: u32_max_def u64_max_def)
  note defs = fold_integer_binary_def integer_comparison_def integer_operation_def Let_def
    magnitude_bits_from [OF assms(1)]
  show ?thesis
  proof (cases operator)
    case ShiftLeft
    show ?thesis
    proof (cases "?y < 0")
      case False
      with ShiftLeft show ?thesis
        using u shift_left_spec [OF assms(2), of ?y ?x]
        by (cases "big_bits (?x * 2 ^ nat ?y) \<le> maximum") (auto simp: defs)
    qed (use ShiftLeft in \<open>simp add: defs shift_left_def\<close>)
  next
    case ShiftRight
    then show ?thesis
      using u shift_right_spec [OF assms(3), of ?y]
      by (cases "?y < 0") (auto simp: defs shift_right_def)
  next
    case Exponentiate
    show ?thesis
    proof (cases "?y < 0")
      case False
      with Exponentiate show ?thesis
        using u exponentiate_spec [OF assms(2), of ?y ?x] by (auto simp: defs)
    qed (use Exponentiate in \<open>simp add: defs exponentiate_def\<close>)
  qed (use u in \<open>auto simp: defs\<close>)
qed

lemma fold_integer_binary_value:
  assumes "be_bytes_ok to_bytes" "maximum \<le> u32_max" "big_bits (to_big_integer l) \<le> u64_max"
    and "fold_integer_binary to_bytes operator l r maximum = (Inr (IntegerValue w) :: 's folding)"
  shows "integer_operation operator (to_big_integer l) (to_big_integer r) = Some (to_big_integer w)"
  using fold_integer_binary_cases [OF assms(1-3), where 's = 's, of operator r] assms(4)
  by (auto simp: to_big_integer_from [OF assms(1)] split: option.splits if_splits)

text \<open>
  C21. Folding a binary operation on integers computes the mathematical operation, or reports why not:
  division by zero, a negative shift or exponent, an operator without a meaning on integers; and a
  result is rejected for its size exactly when it has more bits than the limit, although shifts and
  powers are rejected before they are computed.
\<close>

theorem fold_integer_binary_correct:
  assumes "be_bytes_ok to_bytes" "maximum \<le> u32_max" "big_bits (to_big_integer l) \<le> u64_max"
  shows "(case integer_comparison operator (to_big_integer l) (to_big_integer r) of
      Some b \<Rightarrow> (fold_integer_binary to_bytes operator l r maximum :: 's folding) = Inr (BooleanValue b)
    | None \<Rightarrow> (case integer_operation operator (to_big_integer l) (to_big_integer r) of
        Some v \<Rightarrow> if big_bits v \<le> maximum
          then (fold_integer_binary to_bytes operator l r maximum :: 's folding) = Inr (IntegerValue (from_big_integer to_bytes v))
          else \<exists>n > maximum. (fold_integer_binary to_bytes operator l r maximum :: 's folding) = Inl (ResourceLimitExceeded n maximum)
      | None \<Rightarrow> (fold_integer_binary to_bytes operator l r maximum :: 's folding) = Inl (if operator \<in> {Divide, Remainder} then DivisionByZero else Invalid)))"
  by (rule fold_integer_binary_cases [OF assms])

text \<open>
  The bitwise complement of a constant of an integer type is again a value of the type, its
  complement is the constant, and it is the two's complement or the complement within the width.
\<close>

theorem bitwise_not_correct:
  assumes "canonical c" "0 < target_width" "\<forall>w. representation \<in> {Signed w, Unsigned w} \<longrightarrow> 0 < w"
    "be_bytes_ok to_bytes" "fits_integer_representation c representation target_width"
  shows "let v = bitwise_not c representation target_width; d = from_big_integer to_bytes v in
    v = (case representation of
        Unsigned w \<Rightarrow> 2 ^ w - 1 - to_big_integer c
      | TargetUnsigned \<Rightarrow> 2 ^ target_width - 1 - to_big_integer c
      | _ \<Rightarrow> - 1 - to_big_integer c)
    \<and> fits_integer_representation d representation target_width
    \<and> bitwise_not d representation target_width = to_big_integer c"
proof -
  have un: "unsigned_not v w = 2 ^ w - 1 - v" if "0 \<le> v" "v < 2 ^ w" for v w
  proof -
    have "unsigned_not v w = take_bit w (NOT v)"
      by (simp add: unsigned_not_def take_bit_eq_mask mask_eq_exp_minus_1 push_bit_eq_mult)
    also have "NOT v = - 1 - v" by (simp add: not_int_def)
    also have "take_bit w (- 1 - v) = (- 1 - v + 2 ^ w) mod 2 ^ w"
      unfolding take_bit_eq_mod by (rule mod_add_self2 [symmetric])
    also have "- 1 - v + 2 ^ w = 2 ^ w - 1 - v" by simp
    also have "(2 ^ w - 1 - v) mod 2 ^ w = 2 ^ w - 1 - v" using that by simp
    finally show ?thesis .
  qed
  have c: "canonical (from_big_integer to_bytes v)" for v
    by (simp add: from_big_integer_def integer_new_canonical)
  note fits = fits_integer_representation_char [OF _ assms(2,3)]
  show ?thesis
    using assms(5) unfolding fits [OF assms(1)] Let_def fits [OF c] to_big_integer_from [OF assms(4)]
    by (cases representation)
      (auto simp: bitwise_not_def un not_int_def to_big_integer_from [OF assms(4)] Let_def)
qed

lemma flip_bit:
  fixes w :: "'a::len word"
  assumes "k < LENGTH('a)"
  shows "w XOR push_bit k 1 \<noteq> w" "(w XOR push_bit k 1) XOR push_bit k 1 = w"
    "i < LENGTH('a) \<Longrightarrow> bit (w XOR push_bit k 1) i \<longleftrightarrow> (if i = k then \<not> bit w i else bit w i)"
proof -
  show "bit (w XOR push_bit k 1) i \<longleftrightarrow> (if i = k then \<not> bit w i else bit w i)" if "i < LENGTH('a)"
    using that assms by (auto simp: bit_simps)
  show "(w XOR push_bit k 1) XOR push_bit k 1 = w" by (simp add: xor.assoc)
  have "bit (w XOR push_bit k 1) k \<noteq> bit w k" using assms by (simp add: bit_simps)
  then show "w XOR push_bit k 1 \<noteq> w" by metis
qed

text \<open>
  Negating a real constant twice gives it back, and negation changes exactly its sign bit, the
  highest one.
\<close>

theorem negate_real_involution:
  "negate_real v \<noteq> v \<and> negate_real (negate_real v) = v
    \<and> (\<forall>bits. v = Binary64 bits \<longrightarrow> (\<exists>bits'. negate_real v = Binary64 bits'
        \<and> (\<forall>i < 64. bit bits' i \<longleftrightarrow> (if i = 63 then \<not> bit bits i else bit bits i))))"
proof (cases v)
  case (Binary64 b)
  then show ?thesis using flip_bit [where k = 63 and w = b] by (auto simp: negate_real_def)
next
  case (Binary128 b)
  then show ?thesis using flip_bit [where k = 127 and w = b] by (auto simp: negate_real_def)
next
  case (Binary16 b)
  then show ?thesis using flip_bit [where k = 15 and w = b] by (auto simp: negate_real_def)
next
  case (Binary32 b)
  then show ?thesis using flip_bit [where k = 31 and w = b] by (auto simp: negate_real_def)
qed

subsection \<open>Folding concrete constants\<close>

theorem fold_integer_binary_correct_witness:
  "fold_integer_binary be_bytes ShiftRight \<lparr>ic_sign = Negative, ic_magnitude = [3]\<rparr>
     \<lparr>ic_sign = NonNegative, ic_magnitude = [1]\<rparr> 64
   = (Inr (IntegerValue (from_big_integer be_bytes (- 2))) :: unit folding)"
proof -
  have l: "to_big_integer \<lparr>ic_sign = Negative, ic_magnitude = [3]\<rparr> = - 3"
    and r: "to_big_integer \<lparr>ic_sign = NonNegative, ic_magnitude = [1]\<rparr> = 1"
    by (simp_all add: to_big_integer_def be_value_def)
  have "64 \<le> u32_max" "big_bits (- 3) \<le> u64_max" "big_bits (- 2) \<le> 64"
    by (simp_all add: u32_max_def u64_max_def big_bits_def bit_len.simps)
  with fold_integer_binary_correct [OF be_bytes_correct, of 64 "\<lparr>ic_sign = Negative, ic_magnitude = [3]\<rparr>"
      ShiftRight "\<lparr>ic_sign = NonNegative, ic_magnitude = [1]\<rparr>"]
  show ?thesis by (simp add: l r integer_comparison_def integer_operation_def)
qed

theorem bitwise_not_correct_witness:
  "bitwise_not \<lparr>ic_sign = NonNegative, ic_magnitude = [5]\<rparr> (Unsigned 8) 64 = 250"
proof -
  have c: "canonical \<lparr>ic_sign = NonNegative, ic_magnitude = [5]\<rparr>" by (simp add: canonical_def)
  have "to_big_integer \<lparr>ic_sign = NonNegative, ic_magnitude = [5]\<rparr> = 5"
    by (simp add: to_big_integer_def be_value_def)
  moreover from this
  have "fits_integer_representation \<lparr>ic_sign = NonNegative, ic_magnitude = [5]\<rparr> (Unsigned 8) 64"
    using fits_integer_representation_char [OF c, of 64 "Unsigned 8"] by simp
  ultimately show ?thesis
    using bitwise_not_correct [OF c, of 64 "Unsigned 8" be_bytes] be_bytes_correct by (simp add: Let_def)
qed

theorem negate_real_involution_witness:
  "negate_real (Binary64 5) \<noteq> Binary64 5"
  using negate_real_involution [of "Binary64 5"] by blast

end
