(* ===== verification/Integer_Ranges.thy ===== *)
theory Integer_Ranges
  imports Constant_Folding
begin

unbundle bit_operations_syntax

text \<open>
  The interval arithmetic of the execution-guarantee analysis
  (\<open>crates/bray-checker/src/analysis/guarantee/integer/arithmetic.rs\<close>): the range of the result of an
  operator from the ranges of its operands, with the budget on the size of the bounds. The lemmas
  show that the ranges are sound for the operations that constant folding computes, and that the
  bounds stay within the budget.
\<close>

subsection \<open>The ranges\<close>

definition integer_bits_limit :: nat where
  "integer_bits_limit = 16 * 1024 * 1024"

definition checked_u64 :: "nat \<Rightarrow> nat option" where
  "checked_u64 n = (if n \<le> u64_max then Some n else None)"

definition result_fits_analysis_budget :: "bound_operator \<Rightarrow> int \<Rightarrow> int \<Rightarrow> int \<Rightarrow> int \<Rightarrow> bool" where
  "result_fits_analysis_budget operator left_min left_max right_min right_max =
     (let left_bits = max (big_bits left_min) (big_bits left_max);
          right_bits = max (big_bits right_min) (big_bits right_max);
          bits = (case operator of
              Add \<Rightarrow> checked_u64 (max left_bits right_bits + 1)
            | Subtract \<Rightarrow> checked_u64 (max left_bits right_bits + 1)
            | Multiply \<Rightarrow> checked_u64 (left_bits + right_bits)
            | ShiftLeft \<Rightarrow> Option.bind (as_u64 right_max) (\<lambda>shift. checked_u64 (left_bits + shift))
            | Exponentiate \<Rightarrow> Option.bind (as_u64 right_max) (\<lambda>exponent. checked_u64 (left_bits * exponent))
            | _ \<Rightarrow> Some (max left_bits right_bits)) in
      case bits of None \<Rightarrow> False | Some n \<Rightarrow> n \<le> integer_bits_limit)"

text \<open>The first and the last of a sorted nonempty list.\<close>

definition sorted_ends :: "int list \<Rightarrow> (int \<times> int) option" where
  "sorted_ends xs = (case sort xs of [] \<Rightarrow> None | [_] \<Rightarrow> None | ys \<Rightarrow> Some (hd ys, last ys))"

definition candidate_powers :: "int \<Rightarrow> int \<Rightarrow> nat \<Rightarrow> nat \<Rightarrow> int list" where
  "candidate_powers left_min left_max minimum maximum =
     (let exponents = sort [minimum, maximum, min (minimum + 1) u32_max, maximum - 1];
          powers = concat (map (\<lambda>e. [left_min ^ e, left_max ^ e])
            (filter (\<lambda>e. minimum \<le> e \<and> e \<le> maximum) exponents)) in
      powers @ (if left_min \<le> 0 \<and> left_max \<ge> 0 \<and> maximum > 0 then [0] else []))"

definition arithmetic_range :: "bound_operator \<Rightarrow> int \<times> int \<Rightarrow> int \<times> int \<Rightarrow> (int \<times> int) option" where
  "arithmetic_range operator left right = (case (left, right) of ((left_min, left_max), (right_min, right_max)) \<Rightarrow>
     if \<not> result_fits_analysis_budget operator left_min left_max right_min right_max then None
     else (case operator of
       Add \<Rightarrow> Some (left_min + right_min, left_max + right_max)
     | Subtract \<Rightarrow> Some (left_min - right_max, left_max - right_min)
     | Multiply \<Rightarrow> sorted_ends [left_min * right_min, left_min * right_max, left_max * right_min, left_max * right_max]
     | Divide \<Rightarrow>
         (if right_min > 0 \<or> right_max < 0
            then sorted_ends [left_min sdiv right_min, left_min sdiv right_max,
              left_max sdiv right_min, left_max sdiv right_max]
          else if right_min = 0 \<and> right_max = 0 then None
          else (let magnitude = max (- left_min) left_max in Some (- magnitude, magnitude)))
     | Remainder \<Rightarrow>
         (if right_min = 0 \<and> right_max = 0 then None
          else (let magnitude = max (- right_min) right_max - 1 in
            Some (if left_min < 0 then - magnitude else 0, if left_max > 0 then magnitude else 0)))
     | ShiftLeft \<Rightarrow> do {
         minimum \<leftarrow> as_u64 right_min;
         maximum \<leftarrow> as_u64 right_max;
         sorted_ends [push_bit minimum left_min, push_bit maximum left_min,
           push_bit minimum left_max, push_bit maximum left_max]
       }
     | ShiftRight \<Rightarrow> do {
         minimum \<leftarrow> as_u64 right_min;
         maximum \<leftarrow> as_u64 right_max;
         sorted_ends [drop_bit minimum left_min, drop_bit maximum left_min,
           drop_bit minimum left_max, drop_bit maximum left_max]
       }
     | Exponentiate \<Rightarrow> do {
         minimum \<leftarrow> as_u32 right_min;
         maximum \<leftarrow> as_u32 right_max;
         sorted_ends (candidate_powers left_min left_max minimum maximum)
       }
     | BitwiseAnd \<Rightarrow>
         (if left_min \<ge> 0 \<and> right_min \<ge> 0 then Some (0, min left_max right_max) else None)
     | BitwiseOr \<Rightarrow>
         (if left_min \<ge> 0 \<and> right_min \<ge> 0
            then do {
              width \<leftarrow> checked_u64 (max (big_bits left_max) (big_bits right_max));
              Some (0, push_bit width 1 - 1)
            } else None)
     | BitwiseXor \<Rightarrow>
         (if left_min \<ge> 0 \<and> right_min \<ge> 0
            then do {
              width \<leftarrow> checked_u64 (max (big_bits left_max) (big_bits right_max));
              Some (0, push_bit width 1 - 1)
            } else None)
     | _ \<Rightarrow> None))"

subsection \<open>Corners of a box\<close>

lemma sorted_ends_bounds:
  assumes "sorted_ends xs = Some (lo, hi)"
  shows "p \<in> set xs \<Longrightarrow> lo \<le> p \<and> p \<le> hi" "lo \<in> set xs" "hi \<in> set xs"
proof -
  from assms obtain y ys where ys: "sort xs = y # ys" "ys \<noteq> []" "lo = y" "hi = last (y # ys)"
    by (auto simp: sorted_ends_def split: list.splits)
  have srt: "sorted (y # ys)" using sorted_sort [of xs] ys(1) by simp
  have set: "set xs = set (y # ys)" using ys(1) by (metis set_sort)
  show "lo \<in> set xs" "hi \<in> set xs" unfolding set using ys by auto
  have "p \<le> last zs" if "sorted zs" "p \<in> set zs" for zs :: "int list" and p
    using that by (induction zs) auto
  then show "lo \<le> p \<and> p \<le> hi" if "p \<in> set xs" using that srt ys unfolding set by auto
qed

text \<open>\<open>between p v q\<close>: \<open>v\<close> lies between \<open>p\<close> and \<open>q\<close>, in either order.\<close>

definition between :: "int \<Rightarrow> int \<Rightarrow> int \<Rightarrow> bool" where
  "between p v q \<longleftrightarrow> p \<le> v \<and> v \<le> q \<or> q \<le> v \<and> v \<le> p"

lemma corner_bounds:
  assumes "sorted_ends [f a c, f a d, f b c, f b d] = Some (lo, hi)"
    and "between (f a y) (f x y) (f b y)" "between (f a c) (f a y) (f a d)" "between (f b c) (f b y) (f b d)"
  shows "lo \<le> f x y \<and> f x y \<le> hi"
proof -
  note ends = sorted_ends_bounds(1) [OF assms(1)]
  have "lo \<le> f a c \<and> f a c \<le> hi" "lo \<le> f a d \<and> f a d \<le> hi" "lo \<le> f b c \<and> f b c \<le> hi" "lo \<le> f b d \<and> f b d \<le> hi"
    by (rule ends; simp)+
  with assms(2-4) show ?thesis unfolding between_def by linarith
qed

lemma between_mult: "a \<le> x \<Longrightarrow> x \<le> b \<Longrightarrow> between (a * y) (x * y) (b * y)"
  by (cases "0 \<le> y") (auto simp: between_def mult_right_mono mult_right_mono_neg)

lemma between_mult2: "c \<le> y \<Longrightarrow> y \<le> d \<Longrightarrow> between (x * c) (x * y) (x * d)"
  using between_mult [of c y d x] by (simp add: mult.commute)

lemma sdiv_pos: "0 < y \<Longrightarrow> x sdiv y = (if x < 0 then - ((- x) div y) else x div y)" for x y :: int
  by (auto simp: signed_divide_int_def sgn_if)

lemma sdiv_minus: "x sdiv (- y) = - (x sdiv y)" for x y :: int
  by (simp add: signed_divide_int_def)

lemma between_minus: "between (- p) (- v) (- q) \<longleftrightarrow> between p v q"
  by (auto simp: between_def)

lemma sdiv_mono: "0 < y \<Longrightarrow> x \<le> z \<Longrightarrow> x sdiv y \<le> z sdiv y" for x y z :: int
  using zdiv_mono1 [of x z y] zdiv_mono1 [of "- z" "- x" y] div_int_pos_iff [of "- x" y]
    div_int_pos_iff [of z y]
  by (auto simp: sdiv_pos)

lemma sdiv_between_left:
  assumes "a \<le> x" "x \<le> b" "y \<noteq> 0"
  shows "between (a sdiv y) (x sdiv y) (b sdiv y)"
proof (cases "0 < y")
  case True
  then show ?thesis using assms sdiv_mono [of y a x] sdiv_mono [of y x b] by (simp add: between_def)
next
  case False
  with assms have "0 < - y" by simp
  then have "between (a sdiv - y) (x sdiv - y) (b sdiv - y)"
    using assms sdiv_mono [of "- y" a x] sdiv_mono [of "- y" x b] by (simp add: between_def)
  then show ?thesis by (simp add: sdiv_minus between_minus)
qed

lemma sdiv_between_right:
  assumes "c \<le> y" "y \<le> d" "0 < c \<or> d < 0"
  shows "between (x sdiv c) (x sdiv y) (x sdiv d)"
proof -
  have pos: "between (x sdiv c) (x sdiv y) (x sdiv d)" if "0 < c" "c \<le> y" "y \<le> d" for c y d
    using that zdiv_mono2 [of x c y] zdiv_mono2 [of x y d] zdiv_mono2 [of "- x" c y] zdiv_mono2 [of "- x" y d]
    by (auto simp: sdiv_pos between_def)
  show ?thesis
  proof (cases "0 < c")
    case True
    with assms show ?thesis by (intro pos)
  next
    case False
    with assms have "between (x sdiv - d) (x sdiv - y) (x sdiv - c)" by (intro pos) auto
    then show ?thesis by (simp add: sdiv_minus between_minus) (auto simp: between_def)
  qed
qed

lemma sdiv_abs_le: "\<bar>x sdiv y\<bar> \<le> \<bar>x\<bar>" for x y :: int
proof (cases "y = 0")
  case False
  then have "\<bar>x\<bar> div \<bar>y\<bar> \<le> \<bar>x\<bar> div 1" by (intro zdiv_mono2) auto
  moreover have "0 \<le> \<bar>x\<bar> div \<bar>y\<bar>" using False by (simp add: pos_imp_zdiv_nonneg_iff)
  ultimately show ?thesis
    by (simp only: signed_divide_int_def abs_mult abs_sgn_eq) simp
qed (simp add: signed_divide_int_def)

lemma smod_range:
  fixes x y :: int
  assumes "y \<noteq> 0"
  shows "\<bar>x smod y\<bar> \<le> \<bar>y\<bar> - 1" "0 \<le> x \<Longrightarrow> 0 \<le> x smod y" "x \<le> 0 \<Longrightarrow> x smod y \<le> 0"
  using assms pos_mod_bound [of "\<bar>y\<bar>" "\<bar>x\<bar>"] pos_mod_sign [of "\<bar>y\<bar>" "\<bar>x\<bar>"]
  by (auto simp: smod_int_alt_def sgn_if abs_mult)

lemma shift_left_between: "m \<le> n \<Longrightarrow> n \<le> k \<Longrightarrow> between (x * 2 ^ m) (x * 2 ^ n) (x * 2 ^ k)" for x :: int
  by (rule between_mult2) (simp_all add: power_increasing)

lemma shift_right_step: "between (x div 2 ^ m) (x div 2 ^ (m + i)) (if x < 0 then -1 else 0)" for x :: int
proof -
  have "x div 2 ^ (m + i) = (x div 2 ^ m) div 2 ^ i" by (simp add: power_add zdiv_zmult2_eq)
  moreover have step: "between w (w div 2 ^ i) (if w < 0 then -1 else 0)" for w :: int
  proof (cases "w < 0")
    case True
    have "w * 2 ^ i \<le> w * 1" using True by (intro mult_left_mono_neg) auto
    then have "w \<le> w div 2 ^ i" using zdiv_mono1 [of "w * 2 ^ i" w "2 ^ i"] by simp
    moreover have "w div 2 ^ i < 0" using True by (simp add: div_neg_pos_less0)
    ultimately show ?thesis using True by (simp add: between_def)
  next
    case False
    then have "w div 2 ^ i \<le> w div 1" by (intro zdiv_mono2) auto
    with False show ?thesis by (simp add: between_def pos_imp_zdiv_nonneg_iff)
  qed
  moreover have "x div 2 ^ m < 0 \<longleftrightarrow> x < 0" by (simp add: pos_imp_zdiv_neg_iff)
  ultimately show ?thesis using step [of "x div 2 ^ m"] by (simp split del: if_split)
qed

lemma shift_right_between:
  fixes x :: int
  assumes "m \<le> n" "n \<le> k"
  shows "between (x div 2 ^ m) (x div 2 ^ n) (x div 2 ^ k)"
proof -
  have "between (x div 2 ^ m) (x div 2 ^ n) (if x < 0 then -1 else 0)"
    using shift_right_step [of x m "n - m"] assms by simp
  moreover have "between (x div 2 ^ n) (x div 2 ^ k) (if x < 0 then -1 else 0)"
    using shift_right_step [of x n "k - n"] assms by simp
  ultimately show ?thesis unfolding between_def by (auto split: if_splits)
qed

lemma shift_right_between_left: "a \<le> x \<Longrightarrow> x \<le> b \<Longrightarrow> between (a div 2 ^ n) (x div 2 ^ n) (b div 2 ^ n)" for x :: int
  by (simp add: between_def zdiv_mono1)

subsection \<open>Powers\<close>

lemma abs_power_mono:
  fixes a x :: int
  assumes "\<bar>x\<bar> \<le> \<bar>a\<bar>" "e \<le> f" "1 \<le> \<bar>a\<bar>"
  shows "\<bar>x ^ e\<bar> \<le> \<bar>a ^ f\<bar>"
proof -
  have "\<bar>x\<bar> ^ e \<le> \<bar>a\<bar> ^ e" using assms(1) by (rule power_mono) simp
  also have "\<dots> \<le> \<bar>a\<bar> ^ f" using assms(2,3) by (rule power_increasing)
  finally show ?thesis by (simp add: power_abs)
qed

text \<open>The exponents the code tries: the ends of the range and their neighbours inside it.\<close>

definition tried :: "nat \<Rightarrow> nat \<Rightarrow> nat set" where
  "tried m M = {e \<in> {m, M, m + 1, M - 1}. m \<le> e \<and> e \<le> M}"

lemma tried_parity:
  assumes "m \<le> e" "e \<le> M"
  shows "\<exists>f \<in> tried m M. e \<le> f \<and> (even f \<longleftrightarrow> even e)"
proof (cases "even M \<longleftrightarrow> even e")
  case True
  then show ?thesis using assms by (intro bexI [of _ M]) (auto simp: tried_def)
next
  case False
  moreover from this have "e \<noteq> M" by blast
  ultimately have "e \<le> M - 1" "even (M - 1) \<longleftrightarrow> even e" using assms by (auto simp: even_diff_nat)
  then show ?thesis using assms by (intro bexI [of _ "M - 1"]) (auto simp: tried_def)
qed

lemma tried_other:
  assumes "m < M"
  shows "\<exists>f \<in> tried m M. even f \<longleftrightarrow> b"
proof (cases "even M \<longleftrightarrow> b")
  case True
  then show ?thesis using assms by (intro bexI [of _ M]) (auto simp: tried_def)
next
  case False
  then show ?thesis using assms by (intro bexI [of _ "M - 1"]) (auto simp: tried_def)
qed

lemma power_upper:
  fixes a x b :: int
  assumes "a \<le> x" "x \<le> b" "m \<le> e" "e \<le> M"
  shows "\<exists>f \<in> tried m M. x ^ e \<le> a ^ f \<or> x ^ e \<le> b ^ f"
proof -
  have M: "M \<in> tried m M" and m: "m \<in> tried m M" using assms(3,4) by (auto simp: tried_def)
  show ?thesis
  proof (cases "0 \<le> x")
    case True
    show ?thesis
    proof (cases "b = 0")
      case b: False
      have "\<bar>x ^ e\<bar> \<le> \<bar>b ^ M\<bar>" using True b assms by (intro abs_power_mono) auto
      with True assms have "x ^ e \<le> b ^ M" by (simp add: zero_le_power)
      with M show ?thesis by blast
    next
      case b: True
      with True assms have "x = 0" by simp
      then show ?thesis using b M m assms by (cases "e = 0") (auto simp: power_0_left)
    qed
  next
    case False
    have abs: "\<bar>x\<bar> \<le> \<bar>a\<bar>" "1 \<le> \<bar>a\<bar>" using False assms by auto
    show ?thesis
    proof (cases "even e")
      case True
      from tried_parity [OF assms(3,4)] obtain f where f: "f \<in> tried m M" "e \<le> f" "even f" using True by auto
      have "\<bar>x ^ e\<bar> \<le> \<bar>a ^ f\<bar>" using abs f by (intro abs_power_mono) auto
      with True f have "x ^ e \<le> a ^ f" by (simp add: zero_le_even_power)
      with f show ?thesis by blast
    next
      case odd: False
      show ?thesis
      proof (cases "m < M")
        case True
        from tried_other [OF this, of True] obtain f where f: "f \<in> tried m M" "even f" by auto
        have "x ^ e \<le> 0" using False odd by (simp add: power_le_zero_eq odd_pos)
        also have "0 \<le> a ^ f" using f(2) by (rule zero_le_even_power)
        finally show ?thesis using f by blast
      next
        case False
        with assms have "e = M" by simp
        moreover have "x ^ e \<le> b ^ e" using assms(2) odd by (rule power_mono_odd [rotated])
        ultimately show ?thesis using M by blast
      qed
    qed
  qed
qed

lemma power_lower:
  fixes a x b :: int
  assumes "a \<le> x" "x \<le> b" "m \<le> e" "e \<le> M"
  shows "(a \<le> 0 \<and> 0 \<le> b \<and> 0 < M \<and> 0 \<le> x ^ e) \<or> (\<exists>f \<in> tried m M. a ^ f \<le> x ^ e \<or> b ^ f \<le> x ^ e)"
proof -
  have M: "M \<in> tried m M" and m: "m \<in> tried m M" using assms(3,4) by (auto simp: tried_def)
  show ?thesis
  proof (cases "0 < a \<or> M = 0")
    case True
    have "a ^ m \<le> x ^ e"
    proof (cases "M = 0")
      case False
      with True have a: "0 < a" by simp
      have "\<bar>a ^ m\<bar> \<le> \<bar>x ^ e\<bar>" using a assms by (intro abs_power_mono) auto
      with a assms show ?thesis by (simp add: zero_le_power)
    qed (use assms in simp)
    with m show ?thesis by blast
  next
    case False
    then have a0: "a \<le> 0" "0 < M" by auto
    consider (pos) "0 \<le> x ^ e" "0 \<le> b" | (neg) "x ^ e < 0" | (even) "0 \<le> x ^ e" "b < 0" by linarith
    then show ?thesis
    proof cases
      case pos
      with a0 show ?thesis by blast
    next
      case neg
      then have x: "x < 0" "odd e" by (auto simp: power_less_zero_eq)
      from tried_parity [OF assms(3,4)] x obtain f where f: "f \<in> tried m M" "e \<le> f" "odd f" by auto
      have "\<bar>x ^ e\<bar> \<le> \<bar>a ^ f\<bar>" using x assms f by (intro abs_power_mono) auto
      moreover have "a ^ f \<le> 0" using f(3) a0 by (simp add: power_le_zero_eq odd_pos)
      ultimately have "a ^ f \<le> x ^ e" using neg by simp
      with f show ?thesis by blast
    next
      case even
      show ?thesis
      proof (cases "m < M")
        case True
        from tried_other [OF this, of False] obtain f where f: "f \<in> tried m M" "odd f" by auto
        have "a ^ f \<le> 0" using f(2) a0 by (simp add: power_le_zero_eq odd_pos)
        with even(1) f show ?thesis by fastforce
      next
        case False
        with assms have e: "e = M" by simp
        have "\<bar>b ^ e\<bar> \<le> \<bar>x ^ e\<bar>" using assms even(2) by (intro abs_power_mono) auto
        then have "b ^ e \<le> x ^ e" using even(1) by simp
        with e M show ?thesis by blast
      qed
    qed
  qed
qed

lemma candidate_powers_set:
  assumes "M \<le> u32_max"
  shows "set (candidate_powers a b m M) = (\<Union>f \<in> tried m M. {a ^ f, b ^ f})
    \<union> (if a \<le> 0 \<and> 0 \<le> b \<and> 0 < M then {0} else {})"
proof -
  have "set (filter (\<lambda>e. m \<le> e \<and> e \<le> M) (sort [m, M, min (m + 1) u32_max, M - 1])) = tried m M"
    using assms by (auto simp: tried_def min_def simp del: sort_key_simps)
  then show ?thesis by (auto simp: candidate_powers_def Let_def simp del: sort_key_simps set_filter)
qed

lemma power_range:
  fixes a b x :: int
  assumes "sorted_ends (candidate_powers a b m M) = Some (lo, hi)"
    and "a \<le> x" "x \<le> b" "m \<le> e" "e \<le> M" "M \<le> u32_max"
  shows "lo \<le> x ^ e \<and> x ^ e \<le> hi"
proof -
  note ends = sorted_ends_bounds(1) [OF assms(1), unfolded candidate_powers_set [OF assms(6)]]
  have in_list: "lo \<le> a ^ f" "a ^ f \<le> hi" "lo \<le> b ^ f" "b ^ f \<le> hi" if "f \<in> tried m M" for f
    using ends [of "a ^ f"] ends [of "b ^ f"] that by auto
  have zero: "lo \<le> 0" if "a \<le> 0 \<and> 0 \<le> b \<and> 0 < M"
    using ends [of 0] that by simp
  have "x ^ e \<le> hi" using power_upper [OF assms(2-5)] in_list(2,4) order_trans by blast
  moreover have "lo \<le> x ^ e"
    using power_lower [OF assms(2-5)] in_list(1,3) zero order_trans by blast
  ultimately show ?thesis by simp
qed

subsection \<open>Soundness\<close>

lemma as_u64_Some: "as_u64 v = Some n \<longleftrightarrow> 0 \<le> v \<and> v \<le> int u64_max \<and> n = nat v"
  by (auto simp: as_u64_def)

lemma as_u32_Some: "as_u32 v = Some n \<longleftrightarrow> 0 \<le> v \<and> v \<le> int u32_max \<and> n = nat v"
  by (auto simp: as_u32_def)

lemma divide_range:
  assumes "arithmetic_range Divide (a, b) (c, d) = Some (lo, hi)" "a \<le> x" "x \<le> b" "c \<le> y" "y \<le> d" "y \<noteq> 0"
  shows "lo \<le> x sdiv y \<and> x sdiv y \<le> hi"
proof (cases "c > 0 \<or> d < 0")
  case True
  with assms(1) have "sorted_ends [a sdiv c, a sdiv d, b sdiv c, b sdiv d] = Some (lo, hi)"
    by (auto simp: arithmetic_range_def split: if_splits)
  then show ?thesis
    using True assms by (intro corner_bounds sdiv_between_left sdiv_between_right) auto
next
  case False
  with assms have "lo = - max (- a) b" "hi = max (- a) b"
    by (auto simp: arithmetic_range_def Let_def split: if_splits)
  with sdiv_abs_le [of x y] assms(2,3) show ?thesis by auto
qed

lemma remainder_range:
  assumes "arithmetic_range Remainder (a, b) (c, d) = Some (lo, hi)" "a \<le> x" "x \<le> b" "c \<le> y" "y \<le> d" "y \<noteq> 0"
  shows "lo \<le> x smod y \<and> x smod y \<le> hi"
proof -
  from assms(1) have r: "lo = (if a < 0 then - (max (- c) d - 1) else 0)" "hi = (if b > 0 then max (- c) d - 1 else 0)"
    by (auto simp: arithmetic_range_def Let_def split: if_splits)
  have "\<bar>y\<bar> \<le> max (- c) d" using assms(4,5) by auto
  with smod_range [OF assms(6), of x] assms(2,3) show ?thesis unfolding r by auto
qed

lemma shift_range:
  assumes "0 \<le> c" "c \<le> y" "y \<le> d" "a \<le> x" "x \<le> b"
  shows "sorted_ends [push_bit (nat c) a, push_bit (nat d) a, push_bit (nat c) b, push_bit (nat d) b] = Some (lo, hi)
      \<Longrightarrow> lo \<le> x * 2 ^ nat y \<and> x * 2 ^ nat y \<le> hi"
    and "sorted_ends [drop_bit (nat c) a, drop_bit (nat d) a, drop_bit (nat c) b, drop_bit (nat d) b] = Some (lo, hi)
      \<Longrightarrow> lo \<le> x div 2 ^ nat y \<and> x div 2 ^ nat y \<le> hi"
proof -
  have n: "nat c \<le> nat y" "nat y \<le> nat d" using assms by auto
  show "lo \<le> x * 2 ^ nat y \<and> x * 2 ^ nat y \<le> hi"
    if "sorted_ends [push_bit (nat c) a, push_bit (nat d) a, push_bit (nat c) b, push_bit (nat d) b] = Some (lo, hi)"
    using that n assms
    by (intro corner_bounds [where f = "\<lambda>v n. v * 2 ^ n"] between_mult shift_left_between) (auto simp: push_bit_eq_mult)
  show "lo \<le> x div 2 ^ nat y \<and> x div 2 ^ nat y \<le> hi"
    if "sorted_ends [drop_bit (nat c) a, drop_bit (nat d) a, drop_bit (nat c) b, drop_bit (nat d) b] = Some (lo, hi)"
    using that n assms
    by (intro corner_bounds [where f = "\<lambda>v n. v div 2 ^ n"] shift_right_between_left shift_right_between)
      (auto simp: drop_bit_eq_div)
qed

lemma bitwise_range:
  assumes "0 \<le> x" "x \<le> b" "0 \<le> y" "y \<le> d"
  shows "x OR y \<le> push_bit (max (big_bits b) (big_bits d)) 1 - 1"
    and "x XOR y \<le> push_bit (max (big_bits b) (big_bits d)) 1 - 1"
proof -
  let ?w = "max (big_bits b) (big_bits d)"
  have "b < 2 ^ ?w" "d < 2 ^ ?w"
    using big_bits_le_iff [of b ?w] big_bits_le_iff [of d ?w] by auto
  then have "x < 2 ^ ?w" "y < 2 ^ ?w" using assms by auto
  then show "x OR y \<le> push_bit ?w 1 - 1" "x XOR y \<le> push_bit ?w 1 - 1"
    using OR_upper [of x ?w y] XOR_upper [of x ?w y] assms by (auto simp: push_bit_eq_mult)
qed

lemma arithmetic_range_contains:
  assumes "arithmetic_range operator (a, b) (c, d) = Some (lo, hi)"
    and "a \<le> x" "x \<le> b" "c \<le> y" "y \<le> d" "integer_operation operator x y = Some v"
  shows "lo \<le> v \<and> v \<le> hi"
proof (cases operator)
  case Multiply
  with assms have v: "v = x * y" and "sorted_ends [a * c, a * d, b * c, b * d] = Some (lo, hi)"
    by (auto simp: arithmetic_range_def integer_operation_def split: if_splits)
  with assms(2-5) show ?thesis unfolding v by (intro corner_bounds between_mult between_mult2) auto
next
  case Divide
  with assms divide_range [of a b c d lo hi x y] show ?thesis
    by (auto simp: integer_operation_def split: if_splits)
next
  case Remainder
  with assms remainder_range [of a b c d lo hi x y] show ?thesis
    by (auto simp: integer_operation_def split: if_splits)
next
  case ShiftLeft
  with assms(1) have c: "0 \<le> c"
    and s: "sorted_ends [push_bit (nat c) a, push_bit (nat d) a, push_bit (nat c) b, push_bit (nat d) b] = Some (lo, hi)"
    by (auto simp: arithmetic_range_def run_simps as_u64_Some split: if_splits)
  with ShiftLeft assms shift_range(1) [OF c assms(4,5,2,3) s] show ?thesis
    by (auto simp: integer_operation_def split: if_splits)
next
  case ShiftRight
  with assms(1) have c: "0 \<le> c"
    and s: "sorted_ends [drop_bit (nat c) a, drop_bit (nat d) a, drop_bit (nat c) b, drop_bit (nat d) b] = Some (lo, hi)"
    by (auto simp: arithmetic_range_def run_simps as_u64_Some split: if_splits)
  with ShiftRight assms shift_range(2) [OF c assms(4,5,2,3) s] show ?thesis
    by (auto simp: integer_operation_def split: if_splits)
next
  case Exponentiate
  with assms have y: "0 \<le> y" and v: "v = x ^ nat y" by (auto simp: integer_operation_def split: if_splits)
  from Exponentiate assms(1) have "0 \<le> c" "d \<le> int u32_max" and
    s: "sorted_ends (candidate_powers a b (nat c) (nat d)) = Some (lo, hi)"
    by (auto simp: arithmetic_range_def run_simps as_u32_Some split: if_splits)
  with assms(2-5) y show ?thesis unfolding v by (intro power_range [OF s]) auto
next
  case BitwiseAnd
  with assms show ?thesis
    using AND_lower [of x y] AND_upper1 [of x y] AND_upper2 [of y x]
    by (auto simp: arithmetic_range_def integer_operation_def split: if_splits)
next
  case BitwiseOr
  with assms show ?thesis
    using bitwise_range(1) [of x b y d]
    by (auto simp: arithmetic_range_def integer_operation_def run_simps checked_u64_def split: if_splits)
next
  case BitwiseXor
  with assms show ?thesis
    using bitwise_range(2) [of x b y d] XOR_lower [of x y]
    by (auto simp: arithmetic_range_def integer_operation_def run_simps checked_u64_def split: if_splits)
qed (use assms in \<open>auto simp: arithmetic_range_def integer_operation_def split: if_splits\<close>)

text \<open>
  C20. The range the analysis computes for an operator is sound: it holds the result of the operation
  on any two values from the operand ranges, and with it every result that constant folding can give
  for the operation.
\<close>

theorem arithmetic_range_sound:
  assumes "arithmetic_range operator (a, b) (c, d) = Some (lo, hi)"
    and "a \<le> to_big_integer l" "to_big_integer l \<le> b" "c \<le> to_big_integer r" "to_big_integer r \<le> d"
    and "be_bytes_ok to_bytes" "maximum \<le> u32_max" "big_bits (to_big_integer l) \<le> u64_max"
  shows "(\<forall>v. integer_operation operator (to_big_integer l) (to_big_integer r) = Some v \<longrightarrow> lo \<le> v \<and> v \<le> hi)
    \<and> (\<forall>w. fold_integer_binary to_bytes operator l r maximum = (Inr (IntegerValue w) :: 's folding)
        \<longrightarrow> lo \<le> to_big_integer w \<and> to_big_integer w \<le> hi)"
proof -
  have "integer_operation operator (to_big_integer l) (to_big_integer r) = Some (to_big_integer w)"
    if "fold_integer_binary to_bytes operator l r maximum = (Inr (IntegerValue w) :: 's folding)" for w
    using that fold_integer_binary_value [OF assms(6-8)] by metis
  then show ?thesis using arithmetic_range_contains [OF assms(1-5)] by blast
qed

subsection \<open>The size of the bounds\<close>

abbreviation within_budget :: "int \<Rightarrow> bool" where
  "within_budget v \<equiv> big_bits v \<le> integer_bits_limit"

lemma big_bits_abs_mono: "\<bar>v\<bar> \<le> \<bar>w\<bar> \<Longrightarrow> big_bits v \<le> big_bits w"
  by (simp add: big_bits_def bit_len_mono nat_mono)

lemma big_bits_add: "big_bits v \<le> n \<Longrightarrow> big_bits w \<le> n \<Longrightarrow> big_bits (v + w) \<le> n + 1 \<and> big_bits (v - w) \<le> n + 1"
  using abs_triangle_ineq [of v w] abs_triangle_ineq4 [of v w]
  by (simp add: big_bits_le_iff)

lemma big_bits_mult:
  assumes "big_bits v \<le> m" "big_bits w \<le> n"
  shows "big_bits (v * w) \<le> m + n"
proof -
  have "\<bar>v\<bar> * \<bar>w\<bar> < 2 ^ m * 2 ^ n"
    using assms by (intro mult_strict_mono) (auto simp: big_bits_le_iff)
  then show ?thesis by (simp add: big_bits_le_iff abs_mult power_add)
qed

lemma big_bits_power: "big_bits v \<le> m \<Longrightarrow> big_bits (v ^ n) \<le> max 1 (m * n)"
proof (induction n)
  case (Suc n)
  show ?case
  proof (cases n)
    case 0
    with Suc show ?thesis by simp
  next
    case (Suc k)
    show ?thesis
    proof (cases "m = 0")
      case True
      with Suc.prems have "v = 0" using big_bits_le_iff [of v 0] by simp
      then show ?thesis by simp
    next
      case False
      then have "max 1 (m * n) = m * n" using Suc by simp
      then show ?thesis using big_bits_mult [OF Suc.prems Suc.IH [OF Suc.prems]] by simp
    qed
  qed
qed (simp add: big_bits_le_iff)

lemma shift_bits:
  assumes "n \<le> k"
  shows "big_bits (push_bit n v) \<le> big_bits v + k" "big_bits (drop_bit n v) \<le> max 1 (big_bits v)"
proof -
  show "big_bits (push_bit n v) \<le> big_bits v + k"
    using assms big_bits_shift [of v n] by (cases "v = 0") (simp_all add: push_bit_eq_mult)
  have "between v (v div 2 ^ n) (if v < 0 then -1 else 0)" using shift_right_step [of v 0 n] by simp
  then have "\<bar>v div 2 ^ n\<bar> \<le> \<bar>v\<bar> \<or> \<bar>v div 2 ^ n\<bar> \<le> \<bar>1\<bar>" by (auto simp: between_def split: if_splits)
  then have "big_bits (v div 2 ^ n) \<le> big_bits v \<or> big_bits (v div 2 ^ n) \<le> big_bits 1"
    using big_bits_abs_mono by blast
  moreover have "big_bits 1 = 1" by (simp add: big_bits_def bit_len.simps)
  ultimately show "big_bits (drop_bit n v) \<le> max 1 (big_bits v)" by (auto simp: drop_bit_eq_div)
qed

lemma checked_u64_Some [simp]: "checked_u64 n = Some k \<longleftrightarrow> n \<le> u64_max \<and> k = n"
  by (auto simp: checked_u64_def)

lemma budget_cases:
  assumes "result_fits_analysis_budget operator a b c d"
    and "m = max (big_bits a) (big_bits b)" "n = max (big_bits c) (big_bits d)"
  shows "case operator of
      Add \<Rightarrow> max m n + 1 \<le> integer_bits_limit
    | Subtract \<Rightarrow> max m n + 1 \<le> integer_bits_limit
    | Multiply \<Rightarrow> m + n \<le> integer_bits_limit
    | ShiftLeft \<Rightarrow> m + nat d \<le> integer_bits_limit
    | Exponentiate \<Rightarrow> m * nat d \<le> integer_bits_limit
    | _ \<Rightarrow> max m n \<le> integer_bits_limit"
proof -
  obtain k where k: "k \<le> integer_bits_limit" "(case operator of
              Add \<Rightarrow> checked_u64 (max m n + 1)
            | Subtract \<Rightarrow> checked_u64 (max m n + 1)
            | Multiply \<Rightarrow> checked_u64 (m + n)
            | ShiftLeft \<Rightarrow> Option.bind (as_u64 d) (\<lambda>shift. checked_u64 (m + shift))
            | Exponentiate \<Rightarrow> Option.bind (as_u64 d) (\<lambda>exponent. checked_u64 (m * exponent))
            | _ \<Rightarrow> Some (max m n)) = Some k"
    using assms(1) unfolding result_fits_analysis_budget_def Let_def assms(2,3) [symmetric]
    by (simp split: option.splits)
  from k(2) have "case operator of
      Add \<Rightarrow> k = max m n + 1 | Subtract \<Rightarrow> k = max m n + 1 | Multiply \<Rightarrow> k = m + n
    | ShiftLeft \<Rightarrow> k = m + nat d | Exponentiate \<Rightarrow> k = m * nat d | _ \<Rightarrow> k = max m n"
    by (cases operator) (simp_all only: bound_operator.case checked_u64_Some bind_Some_conv as_u64_Some, auto)
  with k(1) show ?thesis by (cases operator) (simp_all only: bound_operator.case)
qed

lemma range_bits_step:
  assumes "result_fits_analysis_budget operator a b c d"
    and "x \<in> {a, b}" "y \<in> {c, d} \<or> operator = Exponentiate \<and> y \<le> d" "c \<le> d"
    and "integer_operation operator x y = Some v"
    and "operator \<in> {Add, Subtract, Multiply, Divide, ShiftLeft, ShiftRight, Exponentiate}"
  shows "within_budget v"
proof -
  define m n where "m = max (big_bits a) (big_bits b)" and "n = max (big_bits c) (big_bits d)"
  note fits = budget_cases [OF assms(1) m_def n_def]
  have x: "big_bits x \<le> m" using assms(2) by (auto simp: m_def)
  have yd: "y \<le> d" using assms(3,4) by auto
  have y: "big_bits y \<le> n" if "operator \<noteq> Exponentiate" using that assms(3) by (auto simp: n_def)
  have lim: "1 \<le> integer_bits_limit" by (simp add: integer_bits_limit_def)
  from assms(6) consider "operator = Add" | "operator = Subtract" | "operator = Multiply" | "operator = Divide"
    | "operator = ShiftLeft" | "operator = ShiftRight" | "operator = Exponentiate" by auto
  then show ?thesis
  proof cases
    case 1
    with x y have "big_bits x \<le> max m n" "big_bits y \<le> max m n" by auto
    from big_bits_add [OF this] show ?thesis using 1 assms(5) fits by (simp add: integer_operation_def)
  next
    case 2
    with x y have "big_bits x \<le> max m n" "big_bits y \<le> max m n" by auto
    from big_bits_add [OF this] show ?thesis using 2 assms(5) fits by (simp add: integer_operation_def)
  next
    case 3
    with x y have "big_bits (x * y) \<le> m + n" by (intro big_bits_mult) auto
    then show ?thesis using 3 assms(5) fits by (simp add: integer_operation_def)
  next
    case 4
    with big_bits_abs_mono [OF sdiv_abs_le [of x y]] x fits assms(5) show ?thesis
      by (simp add: integer_operation_def split: if_splits)
  next
    case 5
    then have "0 \<le> y" and v: "v = push_bit (nat y) x" using assms(5)
      by (simp_all add: integer_operation_def push_bit_eq_mult split: if_splits)
    with yd have "nat y \<le> nat d" by simp
    from shift_bits(1) [OF this, of x] x fits 5 show ?thesis unfolding v by simp
  next
    case 6
    then have v: "v = drop_bit (nat y) x" using assms(5)
      by (simp add: integer_operation_def drop_bit_eq_div split: if_splits)
    from shift_bits(2) [of "nat y" "nat y" x] x fits 6 lim show ?thesis unfolding v
      by (simp add: max_def split: if_splits)
  next
    case 7
    then have v: "v = x ^ nat y" using assms(5) by (simp add: integer_operation_def split: if_splits)
    have "m * nat y \<le> m * nat d" using yd by (intro mult_left_mono) auto
    also have "m * nat d \<le> integer_bits_limit" using fits 7 by simp
    finally show ?thesis using big_bits_power [OF x, of "nat y"] lim unfolding v
      by (simp add: max_def split: if_splits)
  qed
qed

lemma corner_budget:
  assumes "sorted_ends xs = Some (lo, hi)" "\<And>v. v \<in> set xs \<Longrightarrow> within_budget v"
  shows "within_budget lo \<and> within_budget hi"
  using assms sorted_ends_bounds(2,3) [OF assms(1)] by blast

lemma corner_operation_budget:
  assumes "result_fits_analysis_budget operator a b c d" "c \<le> d"
    and "operator \<in> {Add, Subtract, Multiply, Divide, ShiftLeft, ShiftRight, Exponentiate}"
    and "sorted_ends [f a c, f a d, f b c, f b d] = Some (lo, hi)"
    and "\<And>x y. y \<in> {c, d} \<Longrightarrow> integer_operation operator x y = Some (f x y)"
  shows "within_budget lo \<and> within_budget hi"
proof (rule corner_budget [OF assms(4)])
  fix v
  assume "v \<in> set [f a c, f a d, f b c, f b d]"
  then obtain x y where "x \<in> {a, b}" "y \<in> {c, d}" "v = f x y" by auto
  then show "within_budget v" using range_bits_step [OF assms(1) _ _ assms(2) assms(5) assms(3)] by blast
qed

lemma max_abs_budget:
  assumes "within_budget c" "within_budget d" "c \<le> d" "\<bar>v\<bar> \<le> max (- c) d"
  shows "within_budget v"
proof -
  have "\<bar>v\<bar> \<le> \<bar>c\<bar> \<or> \<bar>v\<bar> \<le> \<bar>d\<bar>" using assms(3,4) by auto
  then show ?thesis using assms(1,2) big_bits_abs_mono [of v c] big_bits_abs_mono [of v d] by auto
qed

text \<open>
  The analysis never keeps a bound larger than its budget: both ends of a computed range have at
  most as many bits as the limit on integer constants, although the budget is checked before the
  range is computed.
\<close>

theorem arithmetic_range_bounded:
  assumes "arithmetic_range operator (a, b) (c, d) = Some (lo, hi)" "a \<le> b" "c \<le> d"
  shows "big_bits lo \<le> integer_bits_limit \<and> big_bits hi \<le> integer_bits_limit"
proof -
  from assms(1) have fits: "result_fits_analysis_budget operator a b c d"
    by (simp add: arithmetic_range_def split: if_splits)
  note step = range_bits_step [OF fits _ _ assms(3)]
  note budget = budget_cases [OF fits refl refl]
  have operands: "within_budget a \<and> within_budget b \<and> within_budget c \<and> within_budget d"
    if "operator \<in> {Divide, Remainder, BitwiseAnd, BitwiseOr, BitwiseXor}"
    using budget that by auto
  show ?thesis
  proof (cases operator)
    case Add
    then show ?thesis using assms(1) step [of a c lo] step [of b d hi]
      by (simp add: arithmetic_range_def integer_operation_def split: if_splits)
  next
    case Subtract
    then show ?thesis using assms(1) step [of a d lo] step [of b c hi]
      by (simp add: arithmetic_range_def integer_operation_def split: if_splits)
  next
    case Multiply
    with assms(1) have "sorted_ends [a * c, a * d, b * c, b * d] = Some (lo, hi)"
      by (simp add: arithmetic_range_def split: if_splits)
    then show ?thesis
      by (rule corner_operation_budget [OF fits assms(3), rotated])
        (simp_all add: Multiply integer_operation_def)
  next
    case Divide
    show ?thesis
    proof (cases "c > 0 \<or> d < 0")
      case True
      with Divide assms(1) have "sorted_ends [a sdiv c, a sdiv d, b sdiv c, b sdiv d] = Some (lo, hi)"
        by (simp add: arithmetic_range_def split: if_splits)
      then show ?thesis
        by (rule corner_operation_budget [OF fits assms(3), rotated])
          (use True assms(3) in \<open>auto simp: Divide integer_operation_def\<close>)
    next
      case False
      with Divide assms(1) have "lo = - max (- a) b" "hi = max (- a) b"
        by (auto simp: arithmetic_range_def Let_def split: if_splits)
      moreover have "\<bar>max (- a) b\<bar> \<le> max (- a) b" using assms(2) by auto
      ultimately show ?thesis
        using operands Divide max_abs_budget [of a b lo] max_abs_budget [of a b hi] assms(2) by auto
    qed
  next
    case Remainder
    with assms(1) have r: "lo = (if a < 0 then - (max (- c) d - 1) else 0)" "hi = (if b > 0 then max (- c) d - 1 else 0)"
      "\<not> (c = 0 \<and> d = 0)"
      by (auto simp: arithmetic_range_def Let_def split: if_splits)
    then have "\<bar>lo\<bar> \<le> max (- c) d" "\<bar>hi\<bar> \<le> max (- c) d" using assms(3) by (auto simp: abs_if)
    then show ?thesis using operands Remainder max_abs_budget [of c d] assms(3) by auto
  next
    case ShiftLeft
    with assms(1) have c: "0 \<le> c"
      and s: "sorted_ends [push_bit (nat c) a, push_bit (nat d) a, push_bit (nat c) b, push_bit (nat d) b] = Some (lo, hi)"
      by (auto simp: arithmetic_range_def run_simps as_u64_Some split: if_splits)
    show ?thesis
      by (rule corner_operation_budget [where f = "\<lambda>x y. push_bit (nat y) x", OF fits assms(3) _ s])
        (use c assms(3) in \<open>auto simp: ShiftLeft integer_operation_def push_bit_eq_mult\<close>)
  next
    case ShiftRight
    with assms(1) have c: "0 \<le> c"
      and s: "sorted_ends [drop_bit (nat c) a, drop_bit (nat d) a, drop_bit (nat c) b, drop_bit (nat d) b] = Some (lo, hi)"
      by (auto simp: arithmetic_range_def run_simps as_u64_Some split: if_splits)
    show ?thesis
      by (rule corner_operation_budget [where f = "\<lambda>x y. drop_bit (nat y) x", OF fits assms(3) _ s])
        (use c assms(3) in \<open>auto simp: ShiftRight integer_operation_def drop_bit_eq_div\<close>)
  next
    case Exponentiate
    with assms(1) have M: "nat d \<le> u32_max" and d: "0 \<le> d" and s: "sorted_ends (candidate_powers a b (nat c) (nat d)) = Some (lo, hi)"
      by (auto simp: arithmetic_range_def run_simps as_u32_Some split: if_splits)
    have "within_budget (x ^ f)" if "x \<in> {a, b}" "f \<in> tried (nat c) (nat d)" for x f
    proof (rule step)
      show "int f \<in> {c, d} \<or> operator = Exponentiate \<and> int f \<le> d"
        using that(2) Exponentiate d by (simp add: tried_def le_nat_iff)
    qed (use that Exponentiate in \<open>auto simp: integer_operation_def\<close>)
    then show ?thesis
      by (intro corner_budget [OF s]) (auto simp: candidate_powers_set [OF M] split: if_splits)
  next
    case BitwiseAnd
    with assms operands show ?thesis
      by (auto simp: arithmetic_range_def min_def split: if_splits)
  next
    case BitwiseOr
    with assms(1) have "lo = 0" "hi = 2 ^ max (big_bits b) (big_bits d) - 1"
      by (auto simp: arithmetic_range_def run_simps push_bit_eq_mult split: if_splits)
    moreover have "max (big_bits b) (big_bits d) \<le> integer_bits_limit" using operands BitwiseOr by simp
    ultimately show ?thesis
      using big_bits_le_iff [of hi "max (big_bits b) (big_bits d)"] by (simp del: max.bounded_iff)
  next
    case BitwiseXor
    with assms(1) have "lo = 0" "hi = 2 ^ max (big_bits b) (big_bits d) - 1"
      by (auto simp: arithmetic_range_def run_simps push_bit_eq_mult split: if_splits)
    moreover have "max (big_bits b) (big_bits d) \<le> integer_bits_limit" using operands BitwiseXor by simp
    ultimately show ?thesis
      using big_bits_le_iff [of hi "max (big_bits b) (big_bits d)"] by (simp del: max.bounded_iff)
  qed (use assms(1) in \<open>auto simp: arithmetic_range_def split: if_splits\<close>)
qed

subsection \<open>A concrete range\<close>

lemma sample_range: "arithmetic_range Exponentiate (- 3, 2) (1, 2) = Some (- 3, 9)"
proof -
  have bits: "big_bits (- 3) = 2" "big_bits 2 = 2" "big_bits 1 = 1"
    by (simp_all add: big_bits_def bit_len.simps)
  show ?thesis
    by (simp add: arithmetic_range_def result_fits_analysis_budget_def candidate_powers_def sorted_ends_def
        bits as_u64_def as_u32_def checked_u64_def integer_bits_limit_def u64_max_def u32_max_def Let_def)
qed

theorem arithmetic_range_sound_witness:
  "integer_operation Exponentiate (- 3) 2 = Some 9 \<and> (- 3 :: int) \<le> 9"
proof -
  let ?l = "\<lparr>ic_sign = Negative, ic_magnitude = [3]\<rparr>" and ?r = "\<lparr>ic_sign = NonNegative, ic_magnitude = [2]\<rparr>"
  have v: "to_big_integer ?l = - 3" "to_big_integer ?r = 2"
    by (simp_all add: to_big_integer_def be_value_def)
  have "integer_operation Exponentiate (- 3) 2 = Some 9" by (simp add: integer_operation_def)
  moreover have "big_bits (- 3) \<le> u64_max" "0 \<le> u32_max" by (simp_all add: big_bits_def bit_len.simps u64_max_def)
  ultimately show ?thesis
    using arithmetic_range_sound [OF sample_range, of ?l ?r be_bytes 0] be_bytes_correct
    by (simp add: v)
qed

theorem arithmetic_range_bounded_witness:
  "arithmetic_range Exponentiate (- 3, 2) (1, 2) = Some (- 3, 9) \<and> big_bits 9 \<le> integer_bits_limit"
  using arithmetic_range_bounded [OF sample_range] sample_range by simp

end
