(* ===== verification/Constant_Floating.thy ===== *)
theory Constant_Floating
  imports Constant_Folding
begin

unbundle bit_operations_syntax

text \<open>
  Real and complex constants: their folding and conversion
  (\<open>crates/bray-checker/src/constant/floating.rs\<close>, \<open>conversion.rs\<close>), the numeric roles
  (\<open>crates/bray-compiler-known/src/representation.rs\<close>, \<open>numeric.rs\<close>) and the domains of numeric
  truncation (\<open>crates/bray-symbols/src/value/numeric.rs\<close>). The arithmetic itself is a parameter: a
  \<open>float_library\<close> holds the operations of \<open>rustc_apfloat\<close> on the bits of a format, and the powers and
  complex operations of \<open>bray_numeric\<close>.
\<close>

subsection \<open>Numeric roles\<close>

datatype numeric_representation_kind = IntegerNumeric | RealNumeric | ComplexNumeric

definition numeric_kind :: "representation_role \<Rightarrow> numeric_representation_kind option" where
  "numeric_kind role =
     (if role \<in> {ScalarI8, ScalarI16, ScalarI32, ScalarI64, ScalarI128, ScalarU8, ScalarU16, ScalarU32,
          ScalarU64, ScalarU128, ScalarIsize, ScalarUsize} then Some IntegerNumeric
      else if role \<in> {ScalarR16, ScalarR32, ScalarR64, ScalarR128} then Some RealNumeric
      else if role \<in> {ScalarC32, ScalarC64, ScalarC128, ScalarC256} then Some ComplexNumeric
      else None)"

text \<open>Storage width and significand precision.\<close>

definition real_format :: "representation_role \<Rightarrow> (nat \<times> nat) option" where
  "real_format role = (case role of
     ScalarR16 \<Rightarrow> Some (16, 11)
   | ScalarR32 \<Rightarrow> Some (32, 24)
   | ScalarR64 \<Rightarrow> Some (64, 53)
   | ScalarR128 \<Rightarrow> Some (128, 113)
   | _ \<Rightarrow> None)"

definition complex_component :: "representation_role \<Rightarrow> representation_role option" where
  "complex_component role = (case role of
     ScalarC32 \<Rightarrow> Some ScalarR16
   | ScalarC64 \<Rightarrow> Some ScalarR32
   | ScalarC128 \<Rightarrow> Some ScalarR64
   | ScalarC256 \<Rightarrow> Some ScalarR128
   | _ \<Rightarrow> None)"

datatype scalar_shape = SignedShape nat | UnsignedShape nat | RealShape nat | ComplexShape nat

text \<open>The subtraction \<open>source - 1\<close> is on \<open>u16\<close>: no width is zero.\<close>

definition converts_losslessly_to :: "scalar_shape \<Rightarrow> scalar_shape \<Rightarrow> bool" where
  "converts_losslessly_to source target = (case (source, target) of
     (SignedShape s, SignedShape t) \<Rightarrow> s \<le> t
   | (UnsignedShape s, UnsignedShape t) \<Rightarrow> s \<le> t
   | (UnsignedShape s, SignedShape t) \<Rightarrow> s < t
   | (SignedShape s, RealShape mantissa) \<Rightarrow> s - 1 \<le> mantissa
   | (UnsignedShape s, RealShape mantissa) \<Rightarrow> s \<le> mantissa
   | (RealShape s, RealShape t) \<Rightarrow> s \<le> t
   | (ComplexShape s, ComplexShape t) \<Rightarrow> s \<le> t
   | _ \<Rightarrow> False)"

definition for_role :: "representation_role \<Rightarrow> nat \<Rightarrow> scalar_shape option" where
  "for_role role target_width = (case integer_representation_of role of
     Some integer \<Rightarrow> Some (case integer of
         Signed width \<Rightarrow> SignedShape width
       | Unsigned width \<Rightarrow> UnsignedShape width
       | TargetSigned \<Rightarrow> SignedShape target_width
       | TargetUnsigned \<Rightarrow> UnsignedShape target_width)
   | None \<Rightarrow> (case real_format role of
       Some (_, precision) \<Rightarrow> Some (RealShape precision)
     | None \<Rightarrow> (case complex_component role of
         None \<Rightarrow> None
       | Some component \<Rightarrow> (case real_format component of
           Some (_, precision) \<Rightarrow> Some (ComplexShape precision)
         | None \<Rightarrow> None))))"

subsection \<open>Bits of a format\<close>

text \<open>A \<open>u128\<close> is a word; the conversions to narrower unsigned integers fail when bits are lost.\<close>

definition from_bits :: "representation_role \<Rightarrow> 128 word \<Rightarrow> real_constant_bits option" where
  "from_bits role bits = (case role of
     ScalarR16 \<Rightarrow> if bits < push_bit 16 1 then Some (Binary16 (ucast bits)) else None
   | ScalarR32 \<Rightarrow> if bits < push_bit 32 1 then Some (Binary32 (ucast bits)) else None
   | ScalarR64 \<Rightarrow> if bits < push_bit 64 1 then Some (Binary64 (ucast bits)) else None
   | ScalarR128 \<Rightarrow> Some (Binary128 bits)
   | _ \<Rightarrow> None)"

definition real_bits :: "real_constant_bits \<Rightarrow> 128 word" where
  "real_bits v = (case v of
     Binary16 bits \<Rightarrow> ucast bits
   | Binary32 bits \<Rightarrow> ucast bits
   | Binary64 bits \<Rightarrow> ucast bits
   | Binary128 bits \<Rightarrow> bits)"

definition encode_real :: "representation_role \<Rightarrow> 128 word \<Rightarrow> constant_operation_error + real_constant_bits" where
  "encode_real role bits = (case from_bits role bits of None \<Rightarrow> Inl Invalid | Some v \<Rightarrow> Inr v)"

text \<open>The formats of \<open>rustc_apfloat\<close>, and of \<open>bray_numeric\<close>.\<close>

datatype float_format = Half | Single | Double | Quad

definition format_role :: "float_format \<Rightarrow> representation_role" where
  "format_role format = (case format of
     Half \<Rightarrow> ScalarR16 | Single \<Rightarrow> ScalarR32 | Double \<Rightarrow> ScalarR64 | Quad \<Rightarrow> ScalarR128)"

definition format_of :: "real_constant_bits \<Rightarrow> float_format" where
  "format_of v = (case v of
     Binary16 _ \<Rightarrow> Half | Binary32 _ \<Rightarrow> Single | Binary64 _ \<Rightarrow> Double | Binary128 _ \<Rightarrow> Quad)"

definition complex_format :: "real_constant_bits \<Rightarrow> float_format \<times> representation_role" where
  "complex_format bits = (format_of bits, format_role (format_of bits))"

datatype float_order = FloatLess | FloatEqual | FloatGreater

record float_library =
  float_add :: "float_format \<Rightarrow> 128 word \<Rightarrow> 128 word \<Rightarrow> 128 word"
  float_subtract :: "float_format \<Rightarrow> 128 word \<Rightarrow> 128 word \<Rightarrow> 128 word"
  float_multiply :: "float_format \<Rightarrow> 128 word \<Rightarrow> 128 word \<Rightarrow> 128 word"
  float_divide :: "float_format \<Rightarrow> 128 word \<Rightarrow> 128 word \<Rightarrow> 128 word"
  float_remainder :: "float_format \<Rightarrow> 128 word \<Rightarrow> 128 word \<Rightarrow> 128 word"
  float_is_zero :: "float_format \<Rightarrow> 128 word \<Rightarrow> bool"
  float_partial_cmp :: "float_format \<Rightarrow> 128 word \<Rightarrow> 128 word \<Rightarrow> float_order option"
  float_convert :: "float_format \<Rightarrow> float_format \<Rightarrow> 128 word \<Rightarrow> 128 word \<times> bool"
  float_from_i128 :: "float_format \<Rightarrow> int \<Rightarrow> 128 word \<times> bool"
  float_from_u128 :: "float_format \<Rightarrow> int \<Rightarrow> 128 word \<times> bool"
  float_to_i128 :: "float_format \<Rightarrow> 128 word \<Rightarrow> nat \<Rightarrow> int \<times> bool"
  float_to_u128 :: "float_format \<Rightarrow> 128 word \<Rightarrow> nat \<Rightarrow> int \<times> bool"
  numeric_real_power :: "float_format \<Rightarrow> 128 word \<Rightarrow> 128 word \<Rightarrow> 128 word"
  numeric_complex :: "bound_operator \<Rightarrow> float_format \<Rightarrow> 128 word \<times> 128 word \<Rightarrow> 128 word \<times> 128 word
    \<Rightarrow> 128 word \<times> 128 word"

subsection \<open>Folding\<close>

definition bind_result :: "'e + 'a \<Rightarrow> ('a \<Rightarrow> 'e + 'b) \<Rightarrow> 'e + 'b" where
  "bind_result x f = (case x of Inl e \<Rightarrow> Inl e | Inr v \<Rightarrow> f v)"

definition real_result :: "constant_operation_error + real_constant_bits \<Rightarrow> 's folding" where
  "real_result x = bind_result x (\<lambda>v. Inr (RealValue v))"

definition fold_float :: "float_library \<Rightarrow> float_format \<Rightarrow> bound_operator \<Rightarrow> 128 word \<Rightarrow> 128 word \<Rightarrow> 's folding" where
  "fold_float lib format operator left right =
     (let encoded = (\<lambda>bits. real_result (encode_real (format_role format) bits));
          order = float_partial_cmp lib format left right in
      case operator of
        Add \<Rightarrow> encoded (float_add lib format left right)
      | Subtract \<Rightarrow> encoded (float_subtract lib format left right)
      | Multiply \<Rightarrow> encoded (float_multiply lib format left right)
      | Exponentiate \<Rightarrow> encoded (numeric_real_power lib format left right)
      | Divide \<Rightarrow> (if float_is_zero lib format right then Inl DivisionByZero
          else encoded (float_divide lib format left right))
      | Remainder \<Rightarrow> (if float_is_zero lib format right then Inl DivisionByZero
          else encoded (float_remainder lib format left right))
      | Equal \<Rightarrow> Inr (BooleanValue (order = Some FloatEqual))
      | NotEqual \<Rightarrow> Inr (BooleanValue (order \<noteq> Some FloatEqual))
      | Less \<Rightarrow> Inr (BooleanValue (order = Some FloatLess))
      | LessEqual \<Rightarrow> Inr (BooleanValue (order = Some FloatLess \<or> order = Some FloatEqual))
      | Greater \<Rightarrow> Inr (BooleanValue (order = Some FloatGreater))
      | GreaterEqual \<Rightarrow> Inr (BooleanValue (order = Some FloatGreater \<or> order = Some FloatEqual))
      | _ \<Rightarrow> Inl Invalid)"

definition fold_real_binary :: "float_library \<Rightarrow> 's real_folder" where
  "fold_real_binary lib operator left right = (case (left, right) of
     (Binary16 l, Binary16 r) \<Rightarrow> fold_float lib Half operator (ucast l) (ucast r)
   | (Binary32 l, Binary32 r) \<Rightarrow> fold_float lib Single operator (ucast l) (ucast r)
   | (Binary64 l, Binary64 r) \<Rightarrow> fold_float lib Double operator (ucast l) (ucast r)
   | (Binary128 l, Binary128 r) \<Rightarrow> fold_float lib Quad operator l r
   | _ \<Rightarrow> Inl Invalid)"

definition arithmetic ::
    "float_library \<Rightarrow> bound_operator \<Rightarrow> real_constant_bits \<Rightarrow> real_constant_bits
     \<Rightarrow> constant_operation_error + real_constant_bits" where
  "arithmetic lib operator left right =
     bind_result (fold_real_binary lib operator left right :: unit folding) (\<lambda>v. case v of
       RealValue result \<Rightarrow> Inr result | _ \<Rightarrow> Inl Invalid)"

definition compare_real ::
    "float_library \<Rightarrow> bound_operator \<Rightarrow> real_constant_bits \<Rightarrow> real_constant_bits
     \<Rightarrow> constant_operation_error + bool" where
  "compare_real lib operator left right =
     bind_result (fold_real_binary lib operator left right :: unit folding) (\<lambda>v. case v of
       BooleanValue result \<Rightarrow> Inr result | _ \<Rightarrow> Inl Invalid)"

definition fold_complex_binary :: "float_library \<Rightarrow> 's complex_folder" where
  "fold_complex_binary lib operator left right =
     (case (left, right) of ((left_real, left_imaginary), (right_real, right_imaginary)) \<Rightarrow>
      if operator \<in> {Add, Subtract} then
        bind_result (arithmetic lib operator left_real right_real) (\<lambda>re.
        bind_result (arithmetic lib operator left_imaginary right_imaginary) (\<lambda>im.
        Inr (ComplexValue re im)))
      else if operator \<in> {Multiply, Divide, Exponentiate} then
        (case complex_format left_real of (format, role) \<Rightarrow>
         case numeric_complex lib operator format (real_bits left_real, real_bits left_imaginary)
             (real_bits right_real, real_bits right_imaginary) of (re, im) \<Rightarrow>
         bind_result (encode_real role re) (\<lambda>re.
         bind_result (encode_real role im) (\<lambda>im.
         Inr (ComplexValue re im))))
      else if operator \<in> {Equal, NotEqual} then
        bind_result (compare_real lib Equal left_real right_real) (\<lambda>equal_real.
        bind_result (if equal_real then compare_real lib Equal left_imaginary right_imaginary else Inr False) (\<lambda>equal.
        Inr (BooleanValue (if operator = Equal then equal else \<not> equal))))
      else Inl Invalid)"

subsection \<open>Conversion\<close>

definition convert_float ::
    "float_library \<Rightarrow> float_format \<Rightarrow> float_format \<Rightarrow> 128 word \<Rightarrow> constant_operation_error + real_constant_bits" where
  "convert_float lib source target bits =
     (case float_convert lib source target bits of (converted, loses_information) \<Rightarrow>
      if loses_information then Inl NotRepresentable
      else encode_real (format_role target) converted)"

definition convert_real ::
    "float_library \<Rightarrow> real_constant_bits \<Rightarrow> representation_role \<Rightarrow> constant_operation_error + real_constant_bits" where
  "convert_real lib v target = (case (v, target) of
     (Binary16 bits, ScalarR16) \<Rightarrow> Inr (Binary16 bits)
   | (Binary16 bits, ScalarR32) \<Rightarrow> convert_float lib Half Single (ucast bits)
   | (Binary16 bits, ScalarR64) \<Rightarrow> convert_float lib Half Double (ucast bits)
   | (Binary16 bits, ScalarR128) \<Rightarrow> convert_float lib Half Quad (ucast bits)
   | (Binary32 bits, ScalarR32) \<Rightarrow> Inr (Binary32 bits)
   | (Binary32 bits, ScalarR64) \<Rightarrow> convert_float lib Single Double (ucast bits)
   | (Binary32 bits, ScalarR128) \<Rightarrow> convert_float lib Single Quad (ucast bits)
   | (Binary64 bits, ScalarR64) \<Rightarrow> Inr (Binary64 bits)
   | (Binary64 bits, ScalarR128) \<Rightarrow> convert_float lib Double Quad (ucast bits)
   | (Binary128 bits, ScalarR128) \<Rightarrow> Inr (Binary128 bits)
   | _ \<Rightarrow> Inl Invalid)"

text \<open>\<open>i128::try_from\<close> and \<open>u128::try_from\<close> of a big integer fail out of range.\<close>

definition integer_to_float ::
    "float_library \<Rightarrow> float_format \<Rightarrow> integer_constant \<Rightarrow> constant_operation_error + real_constant_bits" where
  "integer_to_float lib format v =
     (let n = to_big_integer v;
          encoded = (\<lambda>(bits, status_ok). if status_ok then encode_real (format_role format) bits else Inl NotRepresentable) in
      if n < 0 then (if n < - (2 ^ 127) then Inl NotRepresentable else encoded (float_from_i128 lib format n))
      else (if 2 ^ 128 \<le> n then Inl NotRepresentable else encoded (float_from_u128 lib format n)))"

definition integer_to_real ::
    "float_library \<Rightarrow> integer_constant \<Rightarrow> representation_role \<Rightarrow> constant_operation_error + real_constant_bits" where
  "integer_to_real lib v target = (case target of
     ScalarR16 \<Rightarrow> integer_to_float lib Half v
   | ScalarR32 \<Rightarrow> integer_to_float lib Single v
   | ScalarR64 \<Rightarrow> integer_to_float lib Double v
   | ScalarR128 \<Rightarrow> integer_to_float lib Quad v
   | _ \<Rightarrow> Inl Invalid)"

text \<open>The width and signedness of an integer representation on a target.\<close>

definition integer_shape :: "integer_representation \<Rightarrow> nat \<Rightarrow> nat \<times> bool" where
  "integer_shape integer pointer_width = (case integer of
     Signed bits \<Rightarrow> (bits, True)
   | Unsigned bits \<Rightarrow> (bits, False)
   | TargetSigned \<Rightarrow> (pointer_width, True)
   | TargetUnsigned \<Rightarrow> (pointer_width, False))"

definition truncate_float ::
    "(nat \<Rightarrow> 8 word list) \<Rightarrow> float_library \<Rightarrow> float_format \<Rightarrow> 128 word \<Rightarrow> integer_representation \<Rightarrow> nat \<Rightarrow> 's folding" where
  "truncate_float to_bytes lib format bits target pointer_width =
     (case integer_shape target pointer_width of (width, is_signed) \<Rightarrow>
      case (if is_signed then float_to_i128 lib format bits width else float_to_u128 lib format bits width) of
        (integer, invalid) \<Rightarrow>
          if invalid then Inl NotRepresentable
          else Inr (IntegerValue (from_big_integer to_bytes integer)))"

definition truncate_real ::
    "(nat \<Rightarrow> 8 word list) \<Rightarrow> float_library \<Rightarrow> real_constant_bits \<Rightarrow> integer_representation \<Rightarrow> nat \<Rightarrow> 's folding" where
  "truncate_real to_bytes lib v target pointer_width = (case v of
     Binary16 bits \<Rightarrow> truncate_float to_bytes lib Half (ucast bits) target pointer_width
   | Binary32 bits \<Rightarrow> truncate_float to_bytes lib Single (ucast bits) target pointer_width
   | Binary64 bits \<Rightarrow> truncate_float to_bytes lib Double (ucast bits) target pointer_width
   | Binary128 bits \<Rightarrow> truncate_float to_bytes lib Quad bits target pointer_width)"

definition convert_scalar ::
    "float_library \<Rightarrow> 's constant_value_kind \<Rightarrow> representation_role \<Rightarrow> nat \<Rightarrow> 's folding" where
  "convert_scalar lib v target target_width = (case v of
     IntegerValue n \<Rightarrow> (case integer_representation_of target of
         Some representation \<Rightarrow>
           (if fits_integer_representation n representation target_width then Inr (IntegerValue n)
            else Inl NotRepresentable)
       | None \<Rightarrow> real_result (integer_to_real lib n target))
   | RealValue r \<Rightarrow> (if numeric_kind target = Some RealNumeric then real_result (convert_real lib r target)
       else Inl Invalid)
   | ComplexValue re im \<Rightarrow>
       (if numeric_kind target = Some ComplexNumeric then (case complex_component target of
          None \<Rightarrow> Inl Invalid
        | Some component \<Rightarrow>
            bind_result (convert_real lib re component) (\<lambda>re.
            bind_result (convert_real lib im component) (\<lambda>im.
            Inr (ComplexValue re im))))
        else Inl Invalid)
   | _ \<Rightarrow> Inl Invalid)"

subsection \<open>The domains of truncation\<close>

datatype numeric_truncation =
    IntegerTruncation integer_representation integer_representation
  | Lossless
  | RealToInteger integer_representation real_constant_bits bool real_constant_bits

text \<open>The bits of a power of two in a format, or infinity when it is out of range.\<close>

definition bias :: "nat \<times> nat \<Rightarrow> nat" where
  "bias format = (case format of (width, precision) \<Rightarrow> 2 ^ (width - precision - 1) - 1)"

definition infinity :: "nat \<times> nat \<Rightarrow> 128 word" where
  "infinity format = (case format of (width, precision) \<Rightarrow>
     push_bit (precision - 1) (push_bit (width - precision) 1 - 1))"

definition power_bits :: "nat \<times> nat \<Rightarrow> nat \<Rightarrow> 128 word" where
  "power_bits format exponent = (case format of (width, precision) \<Rightarrow>
     if exponent > bias format then infinity format
     else push_bit (precision - 1) (of_nat (exponent + bias format)))"

definition maximum_bits :: "nat \<times> nat \<Rightarrow> nat \<times> bool \<Rightarrow> 128 word" where
  "maximum_bits format shape = (case shape of (bits, is_signed) \<Rightarrow>
     power_bits format (bits - (if is_signed then 1 else 0)))"

definition minimum_bits :: "nat \<times> nat \<Rightarrow> nat \<times> bool \<Rightarrow> 128 word \<times> bool" where
  "minimum_bits format shape = (case (format, shape) of ((width, precision), (bits, is_signed)) \<Rightarrow>
     let (minimum, inclusive) =
       (if is_signed then
          (let exponent = bits - 1; minimum = power_bits format exponent in
           if minimum = infinity format then (minimum, False)
           else if exponent < precision then (minimum OR push_bit (precision - 1 - exponent) 1, False)
           else (minimum, True))
        else (power_bits format 0, False)) in
     (minimum OR push_bit (width - 1) 1, inclusive))"

text \<open>Encoding a derived bound panics when it does not fit its format, here the outer \<open>None\<close>.\<close>

definition for_roles :: "representation_role \<Rightarrow> representation_role \<Rightarrow> nat \<Rightarrow> numeric_truncation option run" where
  "for_roles source target pointer_width =
     (case (integer_representation_of source, integer_representation_of target) of
        (Some s, Some t) \<Rightarrow> Some (Some (IntegerTruncation s t))
      | _ \<Rightarrow>
     (case (real_format source, integer_representation_of target) of
        (Some format, Some integer) \<Rightarrow>
          (let shape = integer_shape integer pointer_width;
               (minimum, inclusive) = minimum_bits format shape in
           Option.bind (from_bits source minimum) (\<lambda>lower.
           Option.bind (from_bits source (maximum_bits format shape)) (\<lambda>upper.
           Some (Some (RealToInteger integer lower inclusive upper)))))
      | _ \<Rightarrow>
          (if numeric_kind target \<noteq> Some RealNumeric then Some None
           else (case (for_role source pointer_width, for_role target pointer_width) of
               (Some s, Some t) \<Rightarrow> Some (if converts_losslessly_to s t then Some Lossless else None)
             | _ \<Rightarrow> Some None))))"

subsection \<open>IEEE values\<close>

text \<open>
  What the bits of a format stand for. A value is a sign and a magnitude, an exponent over a
  fraction; magnitudes above the one of infinity are not numbers, and the others are ordered like the
  values they encode.
\<close>

definition format_shape :: "float_format \<Rightarrow> nat \<times> nat" where
  "format_shape format = the (real_format (format_role format))"

definition magnitude :: "nat \<times> nat \<Rightarrow> 128 word \<Rightarrow> nat" where
  "magnitude shape bits = unat bits mod 2 ^ (fst shape - 1)"

definition is_negative :: "nat \<times> nat \<Rightarrow> 128 word \<Rightarrow> bool" where
  "is_negative shape bits \<longleftrightarrow> 2 ^ (fst shape - 1) \<le> unat bits"

definition float_rank :: "nat \<times> nat \<Rightarrow> 128 word \<Rightarrow> int option" where
  "float_rank shape bits =
     (if magnitude shape bits > unat (infinity shape) then None
      else Some (if is_negative shape bits then - int (magnitude shape bits) else int (magnitude shape bits)))"

definition rank_order :: "int option \<Rightarrow> int option \<Rightarrow> float_order option" where
  "rank_order x y = (case (x, y) of
     (Some a, Some b) \<Rightarrow> Some (if a < b then FloatLess else if a = b then FloatEqual else FloatGreater)
   | _ \<Rightarrow> None)"

text \<open>The documented order of \<open>rustc_apfloat\<close>: the IEEE one.\<close>

definition ieee_ordering :: "float_library \<Rightarrow> bool" where
  "ieee_ordering lib \<longleftrightarrow> (\<forall>format l r.
     unat l < 2 ^ fst (format_shape format) \<longrightarrow> unat r < 2 ^ fst (format_shape format) \<longrightarrow>
     float_partial_cmp lib format l r = rank_order (float_rank (format_shape format) l) (float_rank (format_shape format) r))"

definition real_rank :: "real_constant_bits \<Rightarrow> int option" where
  "real_rank v = float_rank (format_shape (format_of v)) (real_bits v)"

text \<open>What a comparison says of two ranks: every comparison but inequality fails for a value that is not a number.\<close>

definition ranks_compare :: "bound_operator \<Rightarrow> int option \<Rightarrow> int option \<Rightarrow> bool" where
  "ranks_compare operator x y = (case (x, y) of
     (Some a, Some b) \<Rightarrow> (case operator of
         Equal \<Rightarrow> a = b | NotEqual \<Rightarrow> a \<noteq> b | Less \<Rightarrow> a < b | LessEqual \<Rightarrow> a \<le> b
       | Greater \<Rightarrow> a > b | GreaterEqual \<Rightarrow> a \<ge> b | _ \<Rightarrow> False)
   | _ \<Rightarrow> operator = NotEqual)"

lemma unat_ucast_wide:
  assumes "LENGTH('a::len) \<le> LENGTH('b::len)"
  shows "unat (ucast (w :: 'a word) :: 'b word) = unat w"
proof -
  have "unat w < 2 ^ LENGTH('b)"
    using unsigned_less [of w, where 'a = nat] power_increasing [OF assms, of "2 :: nat"] by linarith
  then show ?thesis by (simp add: unsigned_ucast_eq take_bit_nat_eq_self)
qed

lemmas format_defs = real_bits_def format_of_def format_shape_def format_role_def real_format_def

lemma real_bits_width: "unat (real_bits v) < 2 ^ fst (format_shape (format_of v))"
proof (cases v)
  case (Binary16 w)
  then show ?thesis using unsigned_less [of w, where 'a = nat] by (simp add: format_defs unat_ucast_wide)
next
  case (Binary32 w)
  then show ?thesis using unsigned_less [of w, where 'a = nat] by (simp add: format_defs unat_ucast_wide)
next
  case (Binary64 w)
  then show ?thesis using unsigned_less [of w, where 'a = nat] by (simp add: format_defs unat_ucast_wide)
next
  case (Binary128 w)
  then show ?thesis using unsigned_less [of w, where 'a = nat] by (simp add: format_defs)
qed

text \<open>Comparing two reals of one format compares their ranks.\<close>

lemma fold_float_comparison:
  assumes "ieee_ordering lib" "operator \<in> {Equal, NotEqual, Less, LessEqual, Greater, GreaterEqual}"
    "unat l < 2 ^ fst (format_shape format)" "unat r < 2 ^ fst (format_shape format)"
  shows "fold_float lib format operator l r =
    Inr (BooleanValue (ranks_compare operator (float_rank (format_shape format) l) (float_rank (format_shape format) r)))"
proof -
  have "float_partial_cmp lib format l r =
      rank_order (float_rank (format_shape format) l) (float_rank (format_shape format) r)"
    using assms(1,3,4) by (simp add: ieee_ordering_def)
  then show ?thesis
    using assms(2) by (auto simp: fold_float_def ranks_compare_def rank_order_def split: option.splits)
qed

lemma fold_real_comparison:
  assumes "ieee_ordering lib" "operator \<in> {Equal, NotEqual, Less, LessEqual, Greater, GreaterEqual}"
  shows "(fold_real_binary lib operator l r :: 's folding) =
    (if format_of l = format_of r then Inr (BooleanValue (ranks_compare operator (real_rank l) (real_rank r)))
     else Inl Invalid)"
proof -
  have "(fold_real_binary lib operator l r :: 's folding) =
      (if format_of l = format_of r then fold_float lib (format_of l) operator (real_bits l) (real_bits r) else Inl Invalid)"
    by (cases l; cases r) (simp_all add: fold_real_binary_def format_of_def real_bits_def)
  then show ?thesis
    using fold_float_comparison [OF assms real_bits_width, of "real_bits r" l] real_bits_width [of r]
    by (auto simp: real_rank_def)
qed

lemma compare_real_ranks:
  assumes "ieee_ordering lib" "operator \<in> {Equal, NotEqual, Less, LessEqual, Greater, GreaterEqual}"
    "format_of l = format_of r"
  shows "compare_real lib operator l r = Inr (ranks_compare operator (real_rank l) (real_rank r))"
  using fold_real_comparison [OF assms(1,2), where 's = unit] assms(3)
  by (simp add: compare_real_def bind_result_def)

lemma fold_complex_equality:
  assumes "ieee_ordering lib" "operator \<in> {Equal, NotEqual}"
  shows "fold_complex_binary lib operator (lr, li) (rr, ri) =
    (if format_of lr = format_of rr \<and> (ranks_compare Equal (real_rank lr) (real_rank rr) \<longrightarrow> format_of li = format_of ri)
     then Inr (BooleanValue ((operator = Equal) =
       (ranks_compare Equal (real_rank lr) (real_rank rr) \<and> ranks_compare Equal (real_rank li) (real_rank ri))))
     else Inl Invalid)"
  using fold_real_comparison [OF assms(1), of Equal, where 's = unit] assms(2)
  by (auto simp: fold_complex_binary_def compare_real_def bind_result_def)

text \<open>The library that compares as IEEE does, and is otherwise constant.\<close>

definition comparing_floats :: float_library where
  "comparing_floats = \<lparr>float_add = (\<lambda>_ l _. l), float_subtract = (\<lambda>_ l _. l),
     float_multiply = (\<lambda>_ l _. l), float_divide = (\<lambda>_ l _. l), float_remainder = (\<lambda>_ l _. l),
     float_is_zero = (\<lambda>_ l. l = 0),
     float_partial_cmp = (\<lambda>format l r. rank_order (float_rank (format_shape format) l) (float_rank (format_shape format) r)),
     float_convert = (\<lambda>_ _ l. (l, True)),
     float_from_i128 = (\<lambda>_ _. (0, False)), float_from_u128 = (\<lambda>_ _. (0, False)),
     float_to_i128 = (\<lambda>_ _ _. (0, True)), float_to_u128 = (\<lambda>_ _ _. (0, True)),
     numeric_real_power = (\<lambda>_ l _. l), numeric_complex = (\<lambda>_ _ l _. l)\<rparr>"

lemma comparing_floats_ordering: "ieee_ordering comparing_floats"
  by (simp add: ieee_ordering_def comparing_floats_def)

end
