(* ===== verification/Numeric_Truncation.thy ===== *)
theory Numeric_Truncation
  imports Complex_Main Constant_Floating
begin

unbundle bit_operations_syntax

text \<open>
  The domains that \<open>NumericTruncation::for_roles\<close> derives for truncating a real to an integer
  (\<open>crates/bray-symbols/src/value/numeric.rs\<close>) are exact: a value lies between the derived bounds, by the
  comparisons of constant folding, exactly when it is finite and its integral part fits the target.
\<close>

subsection \<open>Magnitudes as multiples of the smallest one\<close>

text \<open>
  The value that a magnitude encodes, in units of the smallest positive value, \<open>2 ^ (2 - bias - precision)\<close>.
\<close>

definition scaled_magnitude :: "nat \<Rightarrow> nat \<Rightarrow> nat" where
  "scaled_magnitude precision m =
     (let unit = 2 ^ (precision - 1); exponent = m div unit; fraction = m mod unit in
      if exponent = 0 then fraction else (unit + fraction) * 2 ^ (exponent - 1))"

text \<open>The integral part of the encoded value, rounded toward zero.\<close>

definition truncated :: "nat \<times> nat \<Rightarrow> 128 word \<Rightarrow> int" where
  "truncated shape bits =
     (let integral = scaled_magnitude (snd shape) (magnitude shape bits) div 2 ^ (bias shape + snd shape - 2) in
      if is_negative shape bits then - int integral else int integral)"

definition is_finite :: "nat \<times> nat \<Rightarrow> 128 word \<Rightarrow> bool" where
  "is_finite shape bits \<longleftrightarrow> magnitude shape bits < unat (infinity shape)"

definition in_integer_range :: "nat \<times> bool \<Rightarrow> int \<Rightarrow> bool" where
  "in_integer_range shape n = (case shape of (bits, is_signed) \<Rightarrow>
     if is_signed then - (2 ^ (bits - 1)) \<le> n \<and> n < 2 ^ (bits - 1) else 0 \<le> n \<and> n < 2 ^ bits)"

lemma scaled_magnitude_split:
  assumes "fraction < 2 ^ (precision - 1)"
  shows "scaled_magnitude precision (exponent * 2 ^ (precision - 1) + fraction) =
    (if exponent = 0 then fraction else (2 ^ (precision - 1) + fraction) * 2 ^ (exponent - 1))"
  using assms by (simp add: scaled_magnitude_def Let_def)

lemma scaled_magnitude_step: "scaled_magnitude precision m < scaled_magnitude precision (Suc m)"
proof -
  let ?u = "2 ^ (precision - 1) :: nat"
  obtain e f where ef: "m = e * ?u + f" "f < ?u"
    using div_mult_mod_eq [of m ?u] by (metis mod_less_divisor zero_less_numeral zero_less_power)
  show ?thesis
  proof (cases "Suc f < ?u")
    case True
    have "Suc m = e * ?u + Suc f" using ef(1) by simp
    then show ?thesis
      using scaled_magnitude_split [OF True, of e] scaled_magnitude_split [OF ef(2), of e] ef(1)
      by (simp split: if_splits)
  next
    case False
    with ef have f: "Suc f = ?u" by simp
    then have "Suc m = Suc e * ?u + 0" using ef(1) by simp
    then have next_value: "scaled_magnitude precision (Suc m) = ?u * 2 ^ e"
      using scaled_magnitude_split [of 0 precision "Suc e"] by simp
    have "(?u + f) * 2 ^ (e - 1) < ?u * 2 ^ e" if "e \<noteq> 0"
    proof -
      have "?u + f < ?u * 2" using ef(2) by simp
      then have "(?u + f) * 2 ^ (e - 1) < ?u * 2 * 2 ^ (e - 1)" by simp
      also have "\<dots> = ?u * 2 ^ e" using that by (cases e) simp_all
      finally show ?thesis .
    qed
    then show ?thesis
      using next_value scaled_magnitude_split [OF ef(2), of e] ef by (simp split: if_splits)
  qed
qed

lemma scaled_magnitude_mono: "strict_mono (scaled_magnitude precision)"
  by (simp add: strict_mono_Suc_iff scaled_magnitude_step)

lemma scaled_less: "scaled_magnitude precision m < scaled_magnitude precision n \<longleftrightarrow> m < n"
  using scaled_magnitude_mono by (rule strict_mono_less)

lemma scaled_le: "scaled_magnitude precision m \<le> scaled_magnitude precision n \<longleftrightarrow> m \<le> n"
  using scaled_magnitude_mono by (rule strict_mono_less_eq)

text \<open>The magnitudes of powers of two, and of the value one above a power of two.\<close>

lemma scaled_power:
  assumes "2 \<le> precision" "0 < b"
  shows "scaled_magnitude precision ((k + b) * 2 ^ (precision - 1)) = 2 ^ (b + precision - 2 + k)"
  using assms scaled_magnitude_split [of 0 precision "k + b"] by (simp add: power_add [symmetric])

lemma scaled_power_plus:
  assumes "2 \<le> precision" "0 < b" "0 < k" "k < precision"
  shows "scaled_magnitude precision ((k + b) * 2 ^ (precision - 1) + 2 ^ (precision - 1 - k)) =
    2 ^ (b + precision - 2 + k) + 2 ^ (b + precision - 2)"
proof -
  have "(2 :: nat) ^ (precision - 1 - k) < 2 ^ (precision - 1)" using assms by simp
  moreover have "precision - 1 + (k + b - 1) = b + precision - 2 + k" "precision - 1 - k + (k + b - 1) = b + precision - 2"
    using assms by auto
  ultimately show ?thesis
    using assms(2) scaled_magnitude_split [of "2 ^ (precision - 1 - k)" precision "k + b"]
    by (simp only: distrib_right power_add [symmetric]) simp
qed

text \<open>
  Above \<open>2 ^ precision\<close> neighbouring values are at least two apart.
\<close>

lemma scaled_gap:
  assumes "2 \<le> precision" "0 < b" "precision \<le> k" "(k + b) * 2 ^ (precision - 1) < m"
  shows "2 ^ (b + precision - 2 + k) + 2 ^ (b + precision - 2) \<le> scaled_magnitude precision m"
proof -
  have one: "(1 :: nat) < 2 ^ (precision - 1)" using assms(1) one_less_power [of "2 :: nat" "precision - 1"] by simp
  have "scaled_magnitude precision ((k + b) * 2 ^ (precision - 1) + 1) = (2 ^ (precision - 1) + 1) * 2 ^ (k + b - 1)"
    using scaled_magnitude_split [OF one, of "k + b"] assms(2) by simp
  also have "\<dots> = 2 ^ (b + precision - 2 + k) + 2 ^ (k + b - 1)"
    using assms(1,2) by (simp add: distrib_right power_add [symmetric])
  also have "\<dots> \<ge> 2 ^ (b + precision - 2 + k) + 2 ^ (b + precision - 2)"
    using assms by (intro add_left_mono power_increasing) auto
  finally show ?thesis using assms(4) scaled_le [of precision "(k + b) * 2 ^ (precision - 1) + 1" m] by simp
qed

lemma below_power:
  assumes "2 \<le> precision" "0 < b"
  shows "m < (k + b) * 2 ^ (precision - 1) \<longleftrightarrow> scaled_magnitude precision m div 2 ^ (b + precision - 2) < 2 ^ k"
proof -
  have "m < (k + b) * 2 ^ (precision - 1) \<longleftrightarrow> scaled_magnitude precision m < 2 ^ k * 2 ^ (b + precision - 2)"
    using scaled_less [of precision m "(k + b) * 2 ^ (precision - 1)"] scaled_power [OF assms, of k]
    by (simp add: power_add mult.commute)
  then show ?thesis by (simp add: div_less_iff_less_mult)
qed

lemma below_power_plus:
  assumes "2 \<le> precision" "0 < b" "0 < k" "k < precision"
  shows "m < (k + b) * 2 ^ (precision - 1) + 2 ^ (precision - 1 - k)
    \<longleftrightarrow> scaled_magnitude precision m div 2 ^ (b + precision - 2) \<le> 2 ^ k"
proof -
  have "m < (k + b) * 2 ^ (precision - 1) + 2 ^ (precision - 1 - k)
      \<longleftrightarrow> scaled_magnitude precision m < (2 ^ k + 1) * 2 ^ (b + precision - 2)"
    using scaled_less [of precision m "(k + b) * 2 ^ (precision - 1) + 2 ^ (precision - 1 - k)"]
      scaled_power_plus [OF assms] by (simp add: power_add algebra_simps)
  also have "\<dots> \<longleftrightarrow> scaled_magnitude precision m div 2 ^ (b + precision - 2) < 2 ^ k + 1"
    by (rule div_less_iff_less_mult [symmetric]) simp
  finally show ?thesis by auto
qed

lemma up_to_power:
  assumes "2 \<le> precision" "0 < b" "precision \<le> k"
  shows "m \<le> (k + b) * 2 ^ (precision - 1) \<longleftrightarrow> scaled_magnitude precision m div 2 ^ (b + precision - 2) \<le> 2 ^ k"
proof
  assume "m \<le> (k + b) * 2 ^ (precision - 1)"
  then have "scaled_magnitude precision m \<le> 2 ^ k * 2 ^ (b + precision - 2)"
    using scaled_le [of precision m "(k + b) * 2 ^ (precision - 1)"] scaled_power [OF assms(1,2), of k]
    by (simp add: power_add mult.commute)
  then show "scaled_magnitude precision m div 2 ^ (b + precision - 2) \<le> 2 ^ k"
    using div_le_mono [of "scaled_magnitude precision m" "2 ^ k * 2 ^ (b + precision - 2)" "2 ^ (b + precision - 2)"] by simp
next
  assume small: "scaled_magnitude precision m div 2 ^ (b + precision - 2) \<le> 2 ^ k"
  show "m \<le> (k + b) * 2 ^ (precision - 1)"
  proof (rule ccontr)
    assume "\<not> m \<le> (k + b) * 2 ^ (precision - 1)"
    then have "(2 ^ k + 1) * 2 ^ (b + precision - 2) \<le> scaled_magnitude precision m"
      using scaled_gap [OF assms, of m] by (simp add: power_add mult.commute)
    then have "2 ^ k + 1 \<le> scaled_magnitude precision m div 2 ^ (b + precision - 2)"
      by (simp add: less_eq_div_iff_mult_less_eq)
    with small show False by simp
  qed
qed

subsection \<open>The bits of the bounds\<close>

lemma not_bit_small:
  assumes "unat (a :: 128 word) < 2 ^ n"
  shows "\<not> bit a n"
proof -
  have "\<not> bit (unat a) n" using assms by (simp add: bit_iff_odd)
  moreover have "bit (unat a) n \<longleftrightarrow> bit a n" by (simp add: bit_unsigned_iff)
  ultimately show ?thesis by blast
qed

lemma unat_of_nat_small: "x < 2 ^ 128 \<Longrightarrow> unat (of_nat x :: 128 word) = x"
  by (simp add: unsigned_of_nat take_bit_nat_eq_self)

lemma unat_push_of_nat:
  assumes "x * 2 ^ n < 2 ^ 128"
  shows "unat (push_bit n (of_nat x) :: 128 word) = x * 2 ^ n"
proof -
  have "push_bit n (of_nat x) = (of_nat (x * 2 ^ n) :: 128 word)" by (simp add: push_bit_eq_mult)
  then show ?thesis using unat_of_nat_small [OF assms] by (simp only:)
qed

lemma unat_push_one: "n < 128 \<Longrightarrow> unat (push_bit n (1 :: 128 word)) = 2 ^ n"
  using unat_push_of_nat [of 1 n] power_strict_increasing [of n 128 "2 :: nat"] by simp

lemma unat_or_bit:
  assumes "\<not> bit (a :: 128 word) n" "n < 128"
  shows "unat (a OR push_bit n 1) = unat a + 2 ^ n"
proof -
  have "unat a AND 2 ^ n = 0"
    using assms(1) by (simp add: and_exp_eq_0_iff_not_bit bit_unsigned_iff)
  then show ?thesis using unat_push_one [OF assms(2)] by (simp only: unsigned_or_eq disjunctive_add_eq_or)
qed

text \<open>The shapes of the formats: width and precision.\<close>

definition valid_shape :: "nat \<times> nat \<Rightarrow> bool" where
  "valid_shape shape \<longleftrightarrow> 2 \<le> snd shape \<and> snd shape + 2 \<le> fst shape \<and> fst shape \<le> 128"

lemma real_format_valid: "real_format role = Some shape \<Longrightarrow> valid_shape shape"
  by (auto simp: real_format_def valid_shape_def split: representation_role.splits)

lemma bias_positive: "valid_shape (w, p) \<Longrightarrow> 0 < bias (w, p)"
proof -
  assume "valid_shape (w, p)"
  then have "(2 :: nat) ^ 1 \<le> 2 ^ (w - p - 1)" by (intro power_increasing) (auto simp: valid_shape_def)
  then show ?thesis by (simp add: bias_def)
qed

lemma double_bias: "valid_shape (w, p) \<Longrightarrow> 2 * bias (w, p) + 2 = 2 ^ (w - p)"
proof -
  assume v: "valid_shape (w, p)"
  then have "w - p = Suc (w - p - 1)" by (auto simp: valid_shape_def)
  then have "(2 :: nat) ^ (w - p) = 2 * 2 ^ (w - p - 1)" by (metis power_Suc)
  moreover have "(1 :: nat) \<le> 2 ^ (w - p - 1)" by simp
  ultimately show ?thesis unfolding bias_def prod.case by linarith
qed

lemma exponent_fits:
  fixes e f :: nat
  assumes "valid_shape (w, p)" "e < 2 ^ (w - p)" "f < 2 ^ (p - 1)"
  shows "e * 2 ^ (p - 1) + f < 2 ^ (w - 1)"
proof -
  have "e * 2 ^ (p - 1) + f < Suc e * 2 ^ (p - 1)" using assms(3) by simp
  also have "\<dots> \<le> 2 ^ (w - p) * 2 ^ (p - 1)" using assms(2) by (intro mult_right_mono) auto
  also have "\<dots> = 2 ^ (w - 1)" using assms(1) by (simp add: valid_shape_def power_add [symmetric])
  finally show ?thesis .
qed

lemma unat_infinity: "valid_shape (w, p) \<Longrightarrow> unat (infinity (w, p)) = (2 * bias (w, p) + 1) * 2 ^ (p - 1)"
proof -
  assume v: "valid_shape (w, p)"
  then have "w - p < 128" "w - 1 \<le> 128" by (auto simp: valid_shape_def)
  have "push_bit (w - p) 1 - 1 = (of_nat (2 ^ (w - p) - 1) :: 128 word)"
    by (simp add: push_bit_eq_mult of_nat_diff)
  moreover have "2 ^ (w - p) - 1 = 2 * bias (w, p) + 1" using double_bias [OF v] by simp
  ultimately have inf: "infinity (w, p) = push_bit (p - 1) (of_nat (2 * bias (w, p) + 1))"
    by (simp only: infinity_def prod.case)
  have "(2 * bias (w, p) + 1) * 2 ^ (p - 1) < 2 ^ (w - 1)"
    using exponent_fits [OF v, of "2 * bias (w, p) + 1" 0] double_bias [OF v] by simp
  also have "\<dots> \<le> 2 ^ 128" using \<open>w - 1 \<le> 128\<close> by (intro power_increasing) auto
  finally show ?thesis unfolding inf by (rule unat_push_of_nat)
qed

lemma unat_power_bits:
  assumes "valid_shape (w, p)" "k \<le> bias (w, p)"
  shows "unat (power_bits (w, p) k) = (k + bias (w, p)) * 2 ^ (p - 1)"
    "power_bits (w, p) k = push_bit (p - 1) (of_nat (k + bias (w, p)))"
proof -
  show pb: "power_bits (w, p) k = push_bit (p - 1) (of_nat (k + bias (w, p)))"
    using assms(2) by (simp add: power_bits_def)
  have "(k + bias (w, p)) * 2 ^ (p - 1) < 2 ^ (w - 1)"
    using exponent_fits [OF assms(1), of "k + bias (w, p)" 0] double_bias [OF assms(1)] assms(2) by simp
  also have "\<dots> \<le> 2 ^ 128" using assms(1) by (intro power_increasing) (auto simp: valid_shape_def)
  finally show "unat (power_bits (w, p) k) = (k + bias (w, p)) * 2 ^ (p - 1)"
    unfolding pb by (rule unat_push_of_nat)
qed

lemma infinity_fits: "valid_shape (w, p) \<Longrightarrow> unat (infinity (w, p)) < 2 ^ (w - 1)"
  using exponent_fits [of w p "2 * bias (w, p) + 1" 0] double_bias [of w p] unat_infinity [of w p] by simp

lemma power_below_infinity:
  "valid_shape (w, p) \<Longrightarrow> k \<le> bias (w, p) \<Longrightarrow> unat (power_bits (w, p) k) < unat (infinity (w, p))"
  unfolding unat_power_bits(1) unat_infinity by (rule mult_strict_right_mono) auto

text \<open>The magnitude of the upper bound.\<close>

abbreviation integral :: "nat \<times> nat \<Rightarrow> nat \<Rightarrow> nat" where
  "integral shape m \<equiv> scaled_magnitude (snd shape) m div 2 ^ (bias shape + snd shape - 2)"

lemma finite_integral:
  assumes "valid_shape (w, p)"
  shows "m < unat (infinity (w, p)) \<longleftrightarrow> integral (w, p) m < 2 ^ (bias (w, p) + 1)"
  using below_power [of p "bias (w, p)" m "bias (w, p) + 1"] bias_positive [OF assms] unat_infinity [OF assms] assms
  by (simp add: valid_shape_def mult_2)

lemma power_bits_integral:
  assumes "valid_shape (w, p)"
  shows "m < unat (power_bits (w, p) k) \<longleftrightarrow> m < unat (infinity (w, p)) \<and> integral (w, p) m < 2 ^ k"
proof (cases "k \<le> bias (w, p)")
  case True
  then show ?thesis
    using below_power [of p "bias (w, p)" m k] bias_positive [OF assms] unat_power_bits(1) [OF assms True]
      power_below_infinity [OF assms True] assms
    by (auto simp: valid_shape_def)
next
  case False
  then have "(2 :: nat) ^ (bias (w, p) + 1) \<le> 2 ^ k" by (intro power_increasing) auto
  moreover have "power_bits (w, p) k = infinity (w, p)" using False by (simp add: power_bits_def)
  ultimately show ?thesis using finite_integral [OF assms, of m] by auto
qed

lemma power_bits_fits: "valid_shape (w, p) \<Longrightarrow> unat (power_bits (w, p) k) < 2 ^ (w - 1)"
  using infinity_fits [of w p] power_below_infinity [of w p k]
  by (cases "k \<le> bias (w, p)") (auto simp: power_bits_def)

lemma power_bits_infinity_iff:
  "valid_shape (w, p) \<Longrightarrow> power_bits (w, p) k = infinity (w, p) \<longleftrightarrow> bias (w, p) < k"
  using power_below_infinity [of w p k] by (cases "k \<le> bias (w, p)") (auto simp: power_bits_def)

text \<open>The magnitude of the lower bound, and the bound itself.\<close>

lemma minimum_bits_magnitude:
  assumes "valid_shape (w, p)" "is_signed \<Longrightarrow> 2 \<le> bits" "minimum_bits (w, p) (bits, is_signed) = (minimum, inclusive)"
  obtains m where "unat minimum = m + 2 ^ (w - 1)" "m < 2 ^ (w - 1)" "m \<le> unat (infinity (w, p))"
    "inclusive \<Longrightarrow> m < unat (infinity (w, p))"
    "\<And>n. (if inclusive then n \<le> m else n < m) \<longleftrightarrow> n < unat (infinity (w, p))
      \<and> (if is_signed then integral (w, p) n \<le> 2 ^ (bits - 1) else integral (w, p) n = 0)"
proof -
  let ?inf = "unat (infinity (w, p))" and ?k = "bits - 1"
  define b where "b = (if is_signed then
      (if power_bits (w, p) ?k = infinity (w, p) then infinity (w, p)
       else if ?k < p then power_bits (w, p) ?k OR push_bit (p - 1 - ?k) 1 else power_bits (w, p) ?k)
     else power_bits (w, p) 0)"
  have minimum: "minimum = b OR push_bit (w - 1) 1"
    and inclusive: "inclusive \<longleftrightarrow> is_signed \<and> power_bits (w, p) ?k \<noteq> infinity (w, p) \<and> p \<le> ?k"
    using assms(3) by (auto simp: minimum_bits_def Let_def b_def split: if_splits)
  have v: "2 \<le> p" "w - 1 < 128" using assms(1) by (auto simp: valid_shape_def)
  note pos = bias_positive [OF assms(1)]
  have bound: "unat minimum = unat b + 2 ^ (w - 1)" if "unat b < 2 ^ (w - 1)"
    using unat_or_bit [OF not_bit_small [OF that] v(2)] minimum by simp
  consider (unsigned) "\<not> is_signed" | (infinite) "is_signed" "bias (w, p) < ?k"
    | (narrow) "is_signed" "?k \<le> bias (w, p)" "?k < p" | (wide) "is_signed" "?k \<le> bias (w, p)" "p \<le> ?k"
    by linarith
  then show thesis
  proof cases
    case unsigned
    then have b: "b = power_bits (w, p) 0" "\<not> inclusive" by (simp_all add: b_def inclusive)
    show thesis
      by (rule that [of "unat b"])
        (use unsigned b bound power_bits_fits [OF assms(1), of 0] power_below_infinity [OF assms(1), of 0]
          power_bits_integral [OF assms(1), of _ 0] in auto)
  next
    case infinite
    then have b: "b = infinity (w, p)" "\<not> inclusive" by (simp_all add: b_def inclusive power_bits_infinity_iff [OF assms(1)])
    have "(2 :: nat) ^ (bias (w, p) + 1) \<le> 2 ^ ?k" using infinite(2) by (intro power_increasing) auto
    then have "n < ?inf \<Longrightarrow> integral (w, p) n \<le> 2 ^ ?k" for n using finite_integral [OF assms(1), of n] by linarith
    then show thesis
      by (intro that [of "unat b"]) (use infinite b bound infinity_fits [OF assms(1)] in auto)
  next
    case narrow
    then have b: "b = power_bits (w, p) ?k OR push_bit (p - 1 - ?k) 1" "\<not> inclusive"
      by (simp_all add: b_def inclusive power_bits_infinity_iff [OF assms(1)])
    have k: "0 < ?k" using assms(2) narrow(1) by simp
    have "\<not> bit (power_bits (w, p) ?k) (p - 1 - ?k)"
    proof -
      have "\<not> p - 1 \<le> p - 1 - ?k" using narrow(3) k by simp
      then show ?thesis unfolding unat_power_bits(2) [OF assms(1) narrow(2)] by (metis bit_push_bit_iff)
    qed
    moreover have index: "p - 1 - ?k < 128" using assms(1) by (auto simp: valid_shape_def)
    ultimately have m: "unat b = (?k + bias (w, p)) * 2 ^ (p - 1) + 2 ^ (p - 1 - ?k)"
      using unat_or_bit [of "power_bits (w, p) ?k" "p - 1 - ?k"] unat_power_bits(1) [OF assms(1) narrow(2)] b index
      by simp
    have small: "(2 :: nat) ^ (p - 1 - ?k) < 2 ^ (p - 1)" using k narrow(3) by simp
    have fits: "unat b < 2 ^ (w - 1)"
      unfolding m using exponent_fits [OF assms(1) _ small] double_bias [OF assms(1)] narrow(2) by simp
    have finite: "unat b \<le> ?inf"
    proof -
      have "x * u + s \<le> (x + 1) * u" if "s < u" for x u s :: nat using that by simp
      from this [OF small] have "unat b \<le> (?k + bias (w, p) + 1) * 2 ^ (p - 1)" unfolding m .
      also have "\<dots> \<le> (2 * bias (w, p) + 1) * 2 ^ (p - 1)" using narrow(2) by (intro mult_right_mono) auto
      finally show ?thesis by (simp only: unat_infinity [OF assms(1)])
    qed
    have iff: "n < unat b \<longleftrightarrow> integral (w, p) n \<le> 2 ^ ?k" for n
      unfolding m snd_conv by (rule below_power_plus [OF v(1) pos k narrow(3)])
    show thesis
    proof (rule that [of "unat b", OF bound [OF fits] fits finite])
      show "inclusive \<Longrightarrow> unat b < ?inf" using b(2) by simp
      show "(if inclusive then n \<le> unat b else n < unat b) \<longleftrightarrow> n < ?inf
          \<and> (if is_signed then integral (w, p) n \<le> 2 ^ ?k else integral (w, p) n = 0)" for n
        using iff [of n] b(2) narrow(1) finite by (simp only: if_True if_False) linarith
    qed
  next
    case wide
    then have b: "b = power_bits (w, p) ?k" "inclusive" by (simp_all add: b_def inclusive power_bits_infinity_iff [OF assms(1)])
    have iff: "n \<le> unat b \<longleftrightarrow> integral (w, p) n \<le> 2 ^ ?k" for n
      using up_to_power [OF v(1) pos wide(3), of n] unat_power_bits(1) [OF assms(1) wide(2)] b by simp
    have fits: "unat b < 2 ^ (w - 1)" unfolding b by (rule power_bits_fits [OF assms(1)])
    have finite: "unat b < ?inf" unfolding b by (rule power_below_infinity [OF assms(1) wide(2)])
    show thesis
    proof (rule that [of "unat b", OF bound [OF fits] fits less_imp_le [OF finite] finite])
      show "(if inclusive then n \<le> unat b else n < unat b) \<longleftrightarrow> n < ?inf
          \<and> (if is_signed then integral (w, p) n \<le> 2 ^ ?k else integral (w, p) n = 0)" for n
        using iff [of n] b(2) wide(1) finite by (simp only: if_True if_False) linarith
    qed
  qed
qed

subsection \<open>The derived domain is exact\<close>

text \<open>Encoding the bits of a format, and reading them back.\<close>

lemma ucast_narrow:
  assumes "unat (bits :: 128 word) < 2 ^ LENGTH('a::len)" "LENGTH('a) \<le> 128"
  shows "ucast (ucast bits :: 'a word) = bits"
proof (rule word_unat_eq_iff [THEN iffD2])
  have "unat (ucast bits :: 'a word) = unat bits" using assms(1) by (simp add: unsigned_ucast_eq take_bit_nat_eq_self)
  moreover have "unat (ucast (ucast bits :: 'a word) :: 128 word) = unat (ucast bits :: 'a word)"
    using assms(2) by (intro unat_ucast_wide) simp
  ultimately show "unat (ucast (ucast bits :: 'a word) :: 128 word) = unat bits" by simp
qed

lemma ucast_wide:
  assumes "LENGTH('a::len) \<le> 128"
  shows "ucast (ucast (b :: 'a word) :: 128 word) = b"
proof (rule word_unat_eq_iff [THEN iffD2])
  have "unat (ucast b :: 128 word) = unat b" using assms by (intro unat_ucast_wide) simp
  moreover have "unat (ucast (ucast b :: 128 word) :: 'a word) = take_bit LENGTH('a) (unat (ucast b :: 128 word))"
    by (rule unsigned_ucast_eq)
  moreover have "take_bit LENGTH('a) (unat b) = unat b" by (rule take_bit_nat_eq_self) (rule unsigned_less)
  ultimately show "unat (ucast (ucast b :: 128 word) :: 'a word) = unat b" by (simp only:)
qed

lemma from_bits_real_bits: "from_bits (format_role (format_of v)) (real_bits v) = Some v"
  by (cases v) (use real_bits_width [of v] in
    \<open>simp_all add: from_bits_def format_defs word_less_nat_alt ucast_wide\<close>)

lemma from_bits_cases:
  assumes "real_format role = Some shape" "unat bits < 2 ^ fst shape"
  obtains v where "from_bits role bits = Some v" "real_bits v = bits" "format_role (format_of v) = role"
  using assms ucast_narrow [of bits, where 'a = 16] ucast_narrow [of bits, where 'a = 32]
    ucast_narrow [of bits, where 'a = 64]
  by (cases role) (auto simp: from_bits_def real_bits_def format_of_def format_role_def real_format_def word_less_nat_alt)

text \<open>The rank of a value in terms of its sign and magnitude.\<close>

lemma real_rank_shape:
  assumes "real_format (format_role (format_of v)) = Some shape"
  shows "real_rank v = float_rank shape (real_bits v)"
  using assms by (simp add: real_rank_def format_shape_def)

lemma bound_rank:
  assumes "valid_shape (w, p)" "m < 2 ^ (w - 1)" "m \<le> unat (infinity (w, p))"
  shows "unat bits = m \<Longrightarrow> float_rank (w, p) bits = Some (int m)"
    "unat bits = m + 2 ^ (w - 1) \<Longrightarrow> float_rank (w, p) bits = Some (- int m)"
  using assms(2,3) by (simp_all add: float_rank_def magnitude_def is_negative_def)

lemma within_bounds_iff:
  assumes "valid_shape (w, p)" "is_signed \<Longrightarrow> 2 \<le> bits"
    "minimum_bits (w, p) (bits, is_signed) = (minimum, inclusive)"
    "maximum = maximum_bits (w, p) (bits, is_signed)"
  shows "ranks_compare (if inclusive then GreaterEqual else Greater) (float_rank (w, p) v) (float_rank (w, p) minimum)
      \<and> ranks_compare Less (float_rank (w, p) v) (float_rank (w, p) maximum)
    \<longleftrightarrow> is_finite (w, p) v \<and> in_integer_range (bits, is_signed) (truncated (w, p) v)"
proof -
  let ?inf = "unat (infinity (w, p))" and ?k = "bits - (if is_signed then 1 else 0)"
  obtain m where m: "unat minimum = m + 2 ^ (w - 1)" "m < 2 ^ (w - 1)" "m \<le> ?inf" "inclusive \<Longrightarrow> m < ?inf"
    "\<And>n. (if inclusive then n \<le> m else n < m) \<longleftrightarrow> n < ?inf
      \<and> (if is_signed then integral (w, p) n \<le> 2 ^ (bits - 1) else integral (w, p) n = 0)"
    using minimum_bits_magnitude [OF assms(1-3)] by metis
  have rmin: "float_rank (w, p) minimum = Some (- int m)" using bound_rank(2) [OF assms(1) m(2,3,1)] .
  have maximum: "maximum = power_bits (w, p) ?k" by (simp add: assms(4) maximum_bits_def)
  have "unat maximum \<le> ?inf"
    using power_below_infinity [OF assms(1), of ?k] by (cases "?k \<le> bias (w, p)") (auto simp: maximum power_bits_def)
  then have rmax: "float_rank (w, p) maximum = Some (int (unat maximum))"
    using bound_rank(1) [OF assms(1)] power_bits_fits [OF assms(1), of ?k] by (simp add: maximum)
  have positive: "0 < unat maximum"
    using power_bits_integral [OF assms(1), of 0 ?k] finite_integral [OF assms(1), of 0] by (simp add: maximum scaled_magnitude_def)
  note below = power_bits_integral [OF assms(1), of _ ?k, folded maximum]
  let ?n = "magnitude (w, p) v"
  have zero: "scaled_magnitude p 0 = 0" by (simp add: scaled_magnitude_def)
  have "0 < ?inf" using finite_integral [OF assms(1), of 0] by (simp add: zero)
  then have lower_positive: "inclusive \<or> 0 < m" using m(5) [of 0] by (auto simp: zero split: if_splits)
  consider (nan) "?inf < ?n" | (negative) "?n \<le> ?inf" "is_negative (w, p) v" | (positive) "?n \<le> ?inf" "\<not> is_negative (w, p) v"
    by linarith
  then show ?thesis
  proof cases
    case nan
    then show ?thesis by (simp add: float_rank_def ranks_compare_def is_finite_def)
  next
    case negative
    then have rank: "float_rank (w, p) v = Some (- int ?n)" by (simp add: float_rank_def)
    have "ranks_compare (if inclusive then GreaterEqual else Greater) (Some (- int ?n)) (Some (- int m))
        \<longleftrightarrow> (if inclusive then ?n \<le> m else ?n < m)" by (auto simp: ranks_compare_def)
    moreover have "ranks_compare Less (Some (- int ?n)) (Some (int (unat maximum)))" using positive
      by (simp only: ranks_compare_def prod.case option.case bound_operator.case)
    moreover have "in_integer_range (bits, is_signed) (- int q) \<longleftrightarrow> (if is_signed then q \<le> 2 ^ (bits - 1) else q = 0)" for q
    proof -
      have "- int q < 2 ^ j" for j by (rule le_less_trans [of _ 0]) auto
      moreover have "int q \<le> 2 ^ j \<longleftrightarrow> q \<le> 2 ^ j" for j by (metis of_nat_le_iff of_nat_numeral of_nat_power)
      ultimately show ?thesis by (auto simp: in_integer_range_def)
    qed
    ultimately show ?thesis
      using m(5) [of ?n] negative by (simp only: rank rmin rmax is_finite_def truncated_def Let_def snd_conv if_True simp_thms)
  next
    case positive: positive
    then have rank: "float_rank (w, p) v = Some (int ?n)" by (simp add: float_rank_def)
    have "ranks_compare (if inclusive then GreaterEqual else Greater) (Some (int ?n)) (Some (- int m))"
      using lower_positive by (auto simp: ranks_compare_def)
    moreover have "ranks_compare Less (Some (int ?n)) (Some (int (unat maximum))) \<longleftrightarrow> ?n < unat maximum"
      by (simp only: ranks_compare_def prod.case option.case bound_operator.case of_nat_less_iff)
    moreover have "in_integer_range (bits, is_signed) (int q) \<longleftrightarrow> q < 2 ^ ?k" for q
    proof -
      have "int q < 2 ^ j \<longleftrightarrow> q < 2 ^ j" for j by (metis of_nat_less_iff of_nat_numeral of_nat_power)
      moreover have "- (2 ^ j) \<le> int q" for j by (rule order_trans [of _ 0]) auto
      ultimately show ?thesis by (auto simp: in_integer_range_def)
    qed
    ultimately show ?thesis
      using below [of ?n] positive by (simp only: rank rmin rmax is_finite_def truncated_def Let_def snd_conv if_False simp_thms)
  qed
qed

subsection \<open>Values that a format can hold\<close>

text \<open>A number of at most \<open>precision\<close> significant bits, times a power of two, has a magnitude.\<close>

lemma scaled_representable:
  assumes "0 < precision" "x < 2 ^ precision"
  shows "\<exists>m. scaled_magnitude precision m = x * 2 ^ d"
proof (cases "x * 2 ^ d < 2 ^ (precision - 1)")
  case True
  then show ?thesis using scaled_magnitude_split [of "x * 2 ^ d" precision 0] by auto
next
  case False
  then have "0 < x" by (cases x) auto
  then obtain j where j: "2 ^ j \<le> x" "x < 2 ^ Suc j" using ex_power_ivl1 [of 2 x] by auto
  have "j < precision"
    using le_less_trans [OF j(1) assms(2)] power_less_imp_less_exp [of "2 :: nat" j precision] by simp
  let ?u = "2 ^ (precision - 1) :: nat" and ?s = "2 ^ (precision - 1 - j) :: nat" and ?e = "j + d - (precision - 1)"
  have normal: "precision - 1 \<le> j + d"
  proof (rule ccontr)
    assume "\<not> precision - 1 \<le> j + d"
    then have "(2 :: nat) ^ (Suc j + d) \<le> ?u" by (intro power_increasing) auto
    moreover have "x * 2 ^ d < 2 ^ (Suc j + d)" unfolding power_add using j(2) by (rule mult_strict_right_mono) simp
    ultimately show False using False by linarith
  qed
  have u: "?u = 2 ^ j * ?s" using \<open>j < precision\<close> by (simp add: power_add [symmetric])
  then have lower: "?u \<le> x * ?s" using j(1) by simp
  have "x * ?s < 2 ^ Suc j * ?s" using j(2) by simp
  moreover have "2 ^ Suc j * ?s = 2 * ?u" unfolding u by simp
  ultimately have fraction: "x * ?s - ?u < ?u" using lower by linarith
  have "scaled_magnitude precision (Suc ?e * ?u + (x * ?s - ?u)) = x * ?s * 2 ^ ?e"
    using scaled_magnitude_split [OF fraction, of "Suc ?e"] lower by simp
  also have "\<dots> = x * 2 ^ d"
    using normal \<open>j < precision\<close> by (simp add: mult.assoc power_add [symmetric])
  finally show ?thesis by blast
qed

definition magnitude_value :: "nat \<times> nat \<Rightarrow> nat \<Rightarrow> rat" where
  "magnitude_value shape m = of_nat (scaled_magnitude (snd shape) m) / 2 ^ (bias shape + snd shape - 2)"

text \<open>The absolute values that a type can hold.\<close>

definition has_magnitude :: "representation_role \<Rightarrow> nat \<Rightarrow> rat \<Rightarrow> bool" where
  "has_magnitude role pointer_width x = (case integer_representation_of role of
     Some integer \<Rightarrow> \<exists>n. in_integer_range (integer_shape integer pointer_width) n \<and> x = of_int \<bar>n\<bar>
   | None \<Rightarrow> (case real_format role of
       Some shape \<Rightarrow> \<exists>m < unat (infinity shape). x = magnitude_value shape m
     | None \<Rightarrow> False))"

lemma representable_value:
  assumes "valid_shape (w, p)" "x < 2 ^ p" "x * 2 ^ d < 2 ^ (bias (w, p) + p - 2) * 2 ^ (bias (w, p) + 1)"
  shows "\<exists>m < unat (infinity (w, p)). magnitude_value (w, p) m = of_nat (x * 2 ^ d) / 2 ^ (bias (w, p) + p - 2)"
proof -
  have "0 < p" using assms(1) by (simp add: valid_shape_def)
  then obtain m where m: "scaled_magnitude p m = x * 2 ^ d" using scaled_representable assms(2) by blast
  then have "integral (w, p) m < 2 ^ (bias (w, p) + 1)"
    using assms(3) by (simp add: div_less_iff_less_mult mult.commute)
  then have "m < unat (infinity (w, p))" using finite_integral [OF assms(1)] by simp
  then show ?thesis using m by (intro exI [of _ m]) (simp add: magnitude_value_def)
qed

lemma integer_representable:
  assumes "valid_shape (w, p)" "p \<le> bias (w, p)" "n \<le> 2 ^ p"
  shows "\<exists>m < unat (infinity (w, p)). magnitude_value (w, p) m = of_nat n"
proof -
  let ?S = "bias (w, p) + p - 2"
  have bounded: "n * 2 ^ ?S < 2 ^ ?S * 2 ^ (bias (w, p) + 1)"
  proof -
    have "n < 2 ^ (bias (w, p) + 1)"
      by (rule le_less_trans [OF assms(3)]) (rule power_strict_increasing, use assms(2) in auto)
    then show ?thesis by (simp add: mult.commute)
  qed
  show ?thesis
  proof (cases "n = 2 ^ p")
    case True
    have "(1 :: nat) < 2 ^ p" using assms(1) one_less_power [of "2 :: nat" p] by (simp add: valid_shape_def)
    moreover have "1 * 2 ^ (p + ?S) = n * 2 ^ ?S" by (simp add: True power_add)
    ultimately show ?thesis using representable_value [OF assms(1), of 1 "p + ?S"] bounded by (metis nonzero_mult_div_cancel_right
          of_nat_mult of_nat_numeral of_nat_power power_not_zero zero_neq_numeral)
  next
    case False
    with assms(3) have "n < 2 ^ p" by simp
    then show ?thesis using representable_value [OF assms(1) _ bounded] by simp
  qed
qed

lemma real_representable:
  assumes "valid_shape (w, p)" "valid_shape (w', p')" "p \<le> p'" "bias (w, p) \<le> bias (w', p')"
    "m < unat (infinity (w, p))"
  shows "\<exists>m' < unat (infinity (w', p')). magnitude_value (w', p') m' = magnitude_value (w, p) m"
proof -
  let ?S = "bias (w, p) + p - 2" and ?S' = "bias (w', p') + p' - 2" and ?u = "2 ^ (p - 1) :: nat"
  have le: "?S \<le> ?S'" using assms by (auto simp: valid_shape_def)
  obtain x d where x: "x < 2 ^ p" "scaled_magnitude p m = x * 2 ^ d"
  proof (cases "m div ?u = 0")
    case True
    have "m mod ?u < 2 ^ p" by (rule less_le_trans [OF mod_less_divisor]) (auto intro: power_increasing)
    then show thesis using that [of "m mod ?u" 0] True by (simp add: scaled_magnitude_def Let_def)
  next
    case False
    have "?u + m mod ?u < ?u + ?u" by simp
    also have "\<dots> = 2 ^ p" using assms(1) power_Suc [of "2 :: nat" "p - 1"] by (auto simp: valid_shape_def)
    finally show thesis using that [of "?u + m mod ?u" "m div ?u - 1"] False by (simp add: scaled_magnitude_def Let_def)
  qed
  have "scaled_magnitude p m < 2 ^ ?S * 2 ^ (bias (w, p) + 1)"
    using finite_integral [OF assms(1), of m] assms(5) by (simp add: div_less_iff_less_mult mult.commute)
  also have "\<dots> \<le> 2 ^ ?S * 2 ^ (bias (w', p') + 1)" using assms(4) by simp
  finally have "scaled_magnitude p m * 2 ^ (?S' - ?S) < 2 ^ ?S * 2 ^ (bias (w', p') + 1) * 2 ^ (?S' - ?S)" by simp
  also have "\<dots> = 2 ^ ?S' * 2 ^ (bias (w', p') + 1)"
    unfolding power_add [of "2 :: nat" ?S "?S' - ?S", unfolded le_add_diff_inverse [OF le]] by (simp only: ac_simps)
  finally have "x * 2 ^ (d + (?S' - ?S)) < 2 ^ ?S' * 2 ^ (bias (w', p') + 1)"
    by (simp only: x(2) power_add [of _ d] mult.assoc)
  moreover have "x < 2 ^ p'" by (rule less_le_trans [OF x(1)]) (rule power_increasing [OF assms(3)], simp)
  ultimately obtain m' where m': "m' < unat (infinity (w', p'))"
      "magnitude_value (w', p') m' = of_nat (x * 2 ^ (d + (?S' - ?S))) / 2 ^ ?S'"
    using representable_value [OF assms(2)] by blast
  have "(of_nat (x * 2 ^ (d + (?S' - ?S))) :: rat) / 2 ^ ?S' = of_nat (x * 2 ^ d) / 2 ^ ?S"
  proof -
    have "(2 :: rat) ^ ?S' = 2 ^ (?S' - ?S) * 2 ^ ?S" using le by (simp add: power_add [symmetric])
    then show ?thesis by (simp add: power_add)
  qed
  then show ?thesis using m' x(2) by (auto simp: magnitude_value_def)
qed

subsection \<open>Properties\<close>

lemma minimum_bits_fits:
  assumes "valid_shape (w, p)" "is_signed \<Longrightarrow> 2 \<le> bits" "minimum_bits (w, p) (bits, is_signed) = (minimum, inclusive)"
  shows "unat minimum < 2 ^ w"
proof -
  obtain m where "unat minimum = m + 2 ^ (w - 1)" "m < 2 ^ (w - 1)"
    using minimum_bits_magnitude [OF assms] by metis
  moreover have "(2 :: nat) ^ w = 2 ^ (w - 1) + 2 ^ (w - 1)"
    using assms(1) power_Suc [of "2 :: nat" "w - 1"] by (auto simp: valid_shape_def)
  ultimately show ?thesis by simp
qed

lemma maximum_bits_fits:
  assumes "valid_shape (w, p)"
  shows "unat (maximum_bits (w, p) shape) < 2 ^ w"
proof -
  have "(2 :: nat) ^ (w - 1) \<le> 2 ^ w" by (rule power_increasing) auto
  then have "unat (power_bits (w, p) k) < 2 ^ w" for k using power_bits_fits [OF assms, of k] by (rule less_le_trans [rotated])
  then show ?thesis by (cases shape) (simp add: maximum_bits_def)
qed

text \<open>
  C19. The domain derived for truncating reals to integers is exact. For every real source format and
  integer target a domain is derived, without a panic, and a value of the source format passes the two
  comparisons with its bounds exactly when it is finite and its integral part, rounded toward zero, is in
  the range of the target; pointer-sized targets take the selected pointer width.
\<close>

theorem numeric_truncation_domain_exact:
  assumes "ieee_ordering lib" "real_format source = Some shape" "integer_representation_of target = Some integer"
    "2 \<le> pointer_width"
  shows "\<exists>lower inclusive upper.
    for_roles source target pointer_width = Some (Some (RealToInteger integer lower inclusive upper))
    \<and> (\<forall>v. format_role (format_of v) = source \<longrightarrow>
        (compare_real lib (if inclusive then GreaterEqual else Greater) v lower = Inr True
         \<and> compare_real lib Less v upper = Inr True
         \<longleftrightarrow> is_finite shape (real_bits v)
           \<and> in_integer_range (integer_shape integer pointer_width) (truncated shape (real_bits v))))"
proof -
  obtain w p where shape: "shape = (w, p)" by (cases shape)
  obtain bits is_signed where integer: "integer_shape integer pointer_width = (bits, is_signed)" by fastforce
  obtain minimum inclusive where minimum: "minimum_bits (w, p) (bits, is_signed) = (minimum, inclusive)" by fastforce
  let ?maximum = "maximum_bits (w, p) (bits, is_signed)"
  have valid: "valid_shape (w, p)" using real_format_valid [OF assms(2)] by (simp add: shape)
  have wide: "is_signed \<Longrightarrow> 2 \<le> bits"
    using assms(3,4) integer
    by (auto simp: integer_shape_def integer_representation_of_def split: representation_role.splits integer_representation.splits)
  obtain lower where lower: "from_bits source minimum = Some lower" "real_bits lower = minimum"
      "format_role (format_of lower) = source"
    using from_bits_cases [OF assms(2)] minimum_bits_fits [OF valid wide minimum] by (metis shape fst_conv)
  obtain upper where upper: "from_bits source ?maximum = Some upper" "real_bits upper = ?maximum"
      "format_role (format_of upper) = source"
    using from_bits_cases [OF assms(2)] maximum_bits_fits [OF valid] by (metis shape fst_conv)
  have "integer_representation_of source = None"
    using assms(2) by (auto simp: real_format_def integer_representation_of_def split: representation_role.splits)
  then have roles: "for_roles source target pointer_width = Some (Some (RealToInteger integer lower inclusive upper))"
    using assms(2,3) integer minimum lower(1) upper(1) by (simp add: for_roles_def shape)
  have same: "format_of v = format_of u" if "format_role (format_of v) = source" "format_role (format_of u) = source" for u v
    using that by (auto simp: format_role_def split: float_format.splits)
  have "compare_real lib (if inclusive then GreaterEqual else Greater) v lower = Inr True
      \<and> compare_real lib Less v upper = Inr True
    \<longleftrightarrow> is_finite shape (real_bits v) \<and> in_integer_range (bits, is_signed) (truncated shape (real_bits v))"
    if v: "format_role (format_of v) = source" for v
  proof -
    have rank: "real_rank u = float_rank (w, p) (real_bits u)" if "format_role (format_of u) = source" for u
      using real_rank_shape [of u shape] that assms(2) by (simp add: shape)
    show ?thesis
      using within_bounds_iff [OF valid wide minimum refl, of "real_bits v"]
        compare_real_ranks [OF assms(1) _ same [OF v lower(3)]] compare_real_ranks [OF assms(1) _ same [OF v upper(3)]]
      by (auto simp: rank [OF v] rank [OF lower(3)] rank [OF upper(3)] lower(2) upper(2) shape)
  qed
  then show ?thesis using roles integer by auto
qed

text \<open>
  The conversions classified as lossless are: when \<open>for_roles\<close> answers \<open>Lossless\<close>, every absolute value
  that the source type can hold, an integer or a finite real, is one that the target format holds
  exactly (the sign is a bit of its own in every format).
\<close>

theorem lossless_truncation_exact:
  assumes "for_roles source target pointer_width = Some (Some Lossless)" "0 < pointer_width"
    "has_magnitude source pointer_width x"
  shows "has_magnitude target pointer_width x"
proof -
  have kind: "numeric_kind target = Some RealNumeric"
    using assms(1) by (auto simp: for_roles_def Let_def split: option.splits if_splits prod.splits bind_splits)
  then have target: "numeric_kind target = Some RealNumeric" "integer_representation_of target = None"
    by (auto simp: numeric_kind_def integer_representation_of_def split: if_splits)
  then obtain w' p' where t: "real_format target = Some (w', p')"
    by (cases target) (auto simp: numeric_kind_def real_format_def)
  obtain s where s: "for_role source pointer_width = Some s" "converts_losslessly_to s (RealShape p')"
    using assms(1) t target
    by (auto simp: for_roles_def for_role_def Let_def split: option.splits if_splits prod.splits)
  have valid': "valid_shape (w', p')" "p' \<le> bias (w', p')"
    using real_format_valid [OF t] t by (auto simp: real_format_def bias_def split: representation_role.splits)
  show ?thesis
  proof (cases "integer_representation_of source")
    case (Some integer)
    with assms(3) obtain n where n: "in_integer_range (integer_shape integer pointer_width) n" "x = of_int \<bar>n\<bar>"
      by (auto simp: has_magnitude_def)
    obtain bits is_signed where shape: "integer_shape integer pointer_width = (bits, is_signed)" by fastforce
    have "s = (if is_signed then SignedShape bits else UnsignedShape bits)"
      using s(1) Some shape by (auto simp: for_role_def integer_shape_def split: integer_representation.splits)
    then have "bits - (if is_signed then 1 else 0) \<le> p'" using s(2) by (auto simp: converts_losslessly_to_def)
    then have "(2 :: int) ^ (bits - (if is_signed then 1 else 0)) \<le> 2 ^ p'" by (rule power_increasing) simp
    moreover have "\<bar>n\<bar> \<le> 2 ^ (bits - (if is_signed then 1 else 0))"
      using n(1) shape by (auto simp: in_integer_range_def split: if_splits)
    ultimately have "\<bar>n\<bar> \<le> 2 ^ p'" by linarith
    then have "nat \<bar>n\<bar> \<le> 2 ^ p'" by (simp add: nat_le_iff)
    then have "\<exists>m < unat (infinity (w', p')). magnitude_value (w', p') m = of_nat (nat \<bar>n\<bar>)"
      by (rule integer_representable [OF valid'])
    then show ?thesis using t target(2) n(2) by (auto simp: has_magnitude_def)
  next
    case None
    with assms(3) obtain w p m where m: "real_format source = Some (w, p)" "m < unat (infinity (w, p))" "x = magnitude_value (w, p) m"
      by (auto simp: has_magnitude_def split: option.splits)
    then have "p \<le> p'" using s None by (auto simp: for_role_def converts_losslessly_to_def)
    moreover then have "bias (w, p) \<le> bias (w', p')"
      using m(1) t by (auto simp: real_format_def bias_def split: representation_role.splits)
    ultimately have "\<exists>m' < unat (infinity (w', p')). magnitude_value (w', p') m' = magnitude_value (w, p) m"
      using real_representable [OF real_format_valid [OF m(1)] valid'(1)] m(2) by blast
    then show ?thesis using t target(2) m(3) by (auto simp: has_magnitude_def)
  qed
qed

text \<open>
  The bits of a real constant survive encoding and reading back: \<open>from_bits\<close> accepts the bits of every
  constant under the role of its format and yields the constant again, and it accepts other bits exactly
  when they fit the width of the format.
\<close>

theorem real_bits_roundtrip:
  "from_bits (format_role (format_of v)) (real_bits v) = Some v
   \<and> (real_format role = Some shape \<longrightarrow> (from_bits role bits \<noteq> None \<longleftrightarrow> unat bits < 2 ^ fst shape))"
proof
  show "from_bits (format_role (format_of v)) (real_bits v) = Some v" by (rule from_bits_real_bits)
  have "unat bits < 2 ^ 128" by (rule order_less_le_trans [OF unsigned_less]) simp
  then show "real_format role = Some shape \<longrightarrow> (from_bits role bits \<noteq> None \<longleftrightarrow> unat bits < 2 ^ fst shape)"
    by (auto simp: from_bits_def real_format_def word_less_nat_alt split: representation_role.splits)
qed

theorem numeric_truncation_domain_exact_witness:
  "\<exists>lower inclusive upper.
    for_roles ScalarR16 ScalarI8 64 = Some (Some (RealToInteger (Signed 8) lower inclusive upper))"
proof -
  show ?thesis
    using numeric_truncation_domain_exact [OF comparing_floats_ordering, of ScalarR16 "(16, 11)" ScalarI8 "Signed 8" 64]
    by (auto simp: real_format_def integer_representation_of_def)
qed

theorem real_bits_roundtrip_witness: "from_bits ScalarR16 0x3C00 \<noteq> None \<and> from_bits ScalarR16 0x10000 = None"
  using real_bits_roundtrip [of _ ScalarR16 "(16, 11)" "0x3C00"] real_bits_roundtrip [of _ ScalarR16 "(16, 11)" "0x10000"]
  by (simp add: real_format_def)

theorem lossless_truncation_exact_witness: "has_magnitude ScalarR64 64 5"
proof (rule lossless_truncation_exact)
  show "for_roles ScalarI32 ScalarR64 64 = Some (Some Lossless)"
    by (simp add: for_roles_def for_role_def integer_representation_of_def real_format_def numeric_kind_def
        converts_losslessly_to_def)
  show "has_magnitude ScalarI32 64 5"
    by (simp add: has_magnitude_def integer_representation_of_def integer_shape_def in_integer_range_def exI [of _ 5])
qed simp

end
