(* ===== verification/Execution_Conditions.thy ===== *)
theory Execution_Conditions
  imports Constant_Floating
begin

text \<open>
  The conditions that the execution-guarantee analysis reasons about, and its bounded prover
  (\<open>crates/bray-checker/src/execution_guarantees/condition/\<close> and \<open>implication.rs\<close>). A condition is a
  term over literals, inputs, storage snapshots and operations; \<open>operation\<close> builds one in normal form.
  \<open>prove\<close> decides a condition from a set of known truth values, within a budget of work that it
  counts down. The set, ordered in the program, is the list of its elements in the order of
  iteration; symbols, expressions and other identities are numbers.
\<close>

subsection \<open>Conditions\<close>

datatype constant_projection_kind =
    TupleElement nat
  | ArrayElement nat
  | ArrayElementOrdinal nat
  | ArraySlice "nat option" "nat option"
  | ProductField nat
  | UnionPayloadField nat
  | NullableValue

datatype storage_projection =
    StorageProductField nat
  | StorageTupleElement nat
  | ElementFromStart nat
  | ElementFromEnd nat
  | ActiveUnionPayloadField nat nat
  | Element nat
  | SliceRange "nat option" "nat option"
  | StorageNullableValue
  | OwnedTarget
  | UninitPayload

record execution_place =
  place_root :: nat
  place_projections :: "constant_projection_kind list"

record constant_value_data =
  value_type :: nat
  value_kind :: "nat constant_value_kind"

datatype execution_condition =
    Boolean bool
  | Variant nat
  | Tagged nat execution_condition
  | VariantTest nat execution_condition
  | Literal constant_value_data
  | Input execution_place
  | ResultValue
  | Expression nat
  | ScopedCapability nat
  | PresentValue execution_condition
  | Constructed execution_condition "(storage_projection \<times> execution_condition) list"
  | PostState nat execution_place
  | Joined nat nat execution_place
  | Operation bound_operator "execution_condition list"
  | Predicate nat nat "execution_condition list"
  | CallResult nat "nat option" "nat list" "execution_condition list"
  | Projection constant_projection_kind execution_condition
  | Trusted execution_condition
  | Borrowed execution_condition
  | Entry execution_condition bool
  | Unknown

definition work_limit :: nat where
  "work_limit = 128"

fun is_unknown :: "execution_condition \<Rightarrow> bool" where
  "is_unknown Unknown = True"
| "is_unknown (Trusted c) = is_unknown c"
| "is_unknown (Borrowed c) = is_unknown c"
| "is_unknown (PresentValue c) = is_unknown c"
| "is_unknown (Projection _ c) = is_unknown c"
| "is_unknown (VariantTest _ c) = is_unknown c"
| "is_unknown (Entry c _) = is_unknown c"
| "is_unknown _ = False"

fun contains_trusted :: "execution_condition \<Rightarrow> bool" where
  "contains_trusted (Trusted _) = True"
| "contains_trusted (Operation _ cs) = list_ex contains_trusted cs"
| "contains_trusted (Predicate _ _ cs) = list_ex contains_trusted cs"
| "contains_trusted (CallResult _ _ _ cs) = list_ex contains_trusted cs"
| "contains_trusted (Tagged _ c) = contains_trusted c"
| "contains_trusted (VariantTest _ c) = contains_trusted c"
| "contains_trusted (PresentValue c) = contains_trusted c"
| "contains_trusted (Projection _ c) = contains_trusted c"
| "contains_trusted (Borrowed c) = contains_trusted c"
| "contains_trusted (Entry c _) = contains_trusted c"
| "contains_trusted (Constructed base parts) =
     (contains_trusted base \<or> list_ex (\<lambda>f. contains_trusted (snd f)) parts)"
| "contains_trusted _ = False"

fun contains_unknown :: "execution_condition \<Rightarrow> bool" where
  "contains_unknown (Operation _ cs) = list_ex contains_unknown cs"
| "contains_unknown (Trusted c) = contains_unknown c"
| "contains_unknown (Borrowed c) = contains_unknown c"
| "contains_unknown (PresentValue c) = contains_unknown c"
| "contains_unknown (Projection _ c) = contains_unknown c"
| "contains_unknown (VariantTest _ c) = contains_unknown c"
| "contains_unknown (Entry c _) = contains_unknown c"
| "contains_unknown c = is_unknown c"

text \<open>\<open>observes_borrowed(None)\<close>.\<close>

fun observes_borrowed :: "execution_condition \<Rightarrow> bool" where
  "observes_borrowed (Borrowed _) = True"
| "observes_borrowed (Operation _ cs) = list_ex observes_borrowed cs"
| "observes_borrowed (Predicate _ _ cs) = list_ex observes_borrowed cs"
| "observes_borrowed (CallResult _ _ _ cs) = list_ex observes_borrowed cs"
| "observes_borrowed (Tagged _ c) = observes_borrowed c"
| "observes_borrowed (VariantTest _ c) = observes_borrowed c"
| "observes_borrowed (Trusted c) = observes_borrowed c"
| "observes_borrowed (Projection _ c) = observes_borrowed c"
| "observes_borrowed (PresentValue c) = observes_borrowed c"
| "observes_borrowed (Entry c captured) = (\<not> captured \<and> observes_borrowed c)"
| "observes_borrowed _ = False"

subsection \<open>Constructors in normal form\<close>

definition call :: "nat \<Rightarrow> nat option \<Rightarrow> nat list \<Rightarrow> execution_condition list \<Rightarrow> execution_condition" where
  "call callable implementation witnesses arguments =
     (if list_ex contains_unknown arguments then Unknown
      else CallResult callable implementation witnesses arguments)"

definition predicate :: "nat \<Rightarrow> nat \<Rightarrow> execution_condition list \<Rightarrow> execution_condition" where
  "predicate definition_id substitution arguments =
     (if list_ex contains_unknown arguments then Unknown
      else Predicate definition_id substitution arguments)"

definition borrowed :: "execution_condition \<Rightarrow> execution_condition" where
  "borrowed c = (if c = Unknown then c else Borrowed c)"

fun present :: "execution_condition \<Rightarrow> execution_condition" where
  "present Unknown = Unknown"
| "present (Projection NullableValue c) = c"
| "present (Input place) =
     (if place_projections place \<noteq> [] \<and> last (place_projections place) = NullableValue
      then Input (place\<lparr>place_projections := butlast (place_projections place)\<rparr>)
      else PresentValue (Input place))"
| "present c = PresentValue c"

definition component_base ::
    "execution_condition \<Rightarrow> (storage_projection \<times> execution_condition) list \<Rightarrow> execution_condition" where
  "component_base base parts =
     (case List.find (\<lambda>f. fst f = OwnedTarget) parts of Some (_, contents) \<Rightarrow> contents | None \<Rightarrow> base)"

lemma find_Some_set: "List.find p xs = Some x \<Longrightarrow> x \<in> set xs \<and> p x"
  by (induction xs) (auto split: if_splits)

lemma part_size: "f \<in> set parts \<Longrightarrow> size (snd f) < Suc (size_list (size_prod (\<lambda>_. 0) size) parts)"
  by (induction parts) (auto simp: size_prod_def split: prod.splits)

lemma component_base_size:
  "size (component_base base parts) < size (Constructed base parts)"
proof (cases "List.find (\<lambda>f. fst f = OwnedTarget) parts")
  case (Some f)
  then have "f \<in> set parts" by (simp add: find_Some_set)
  with Some show ?thesis using part_size [of f parts] by (cases f) (simp add: component_base_def)
qed (simp add: component_base_def)

function matches_variant :: "execution_condition \<Rightarrow> nat \<Rightarrow> execution_condition" where
  "matches_variant c variant = (case c of
     Unknown \<Rightarrow> Unknown
   | Borrowed inner \<Rightarrow> matches_variant inner variant
   | Literal data \<Rightarrow> (case value_kind data of
       UnionValue active _ \<Rightarrow> Boolean (active = variant)
     | _ \<Rightarrow> VariantTest variant c)
   | Tagged active _ \<Rightarrow> Boolean (active = variant)
   | Constructed base parts \<Rightarrow> matches_variant (component_base base parts) variant
   | _ \<Rightarrow> VariantTest variant c)"
  by pat_completeness auto
termination
  by (relation "measure (\<lambda>(c, _). size c)") (use component_base_size in auto)

declare matches_variant.simps [simp del]

text \<open>The contents of an owned literal replace its snapshot as an operand.\<close>

definition literal_contents :: "execution_condition \<Rightarrow> execution_condition" where
  "literal_contents c = (case c of
     Constructed base parts \<Rightarrow> (case component_base base parts of
         Literal d \<Rightarrow> Literal d
       | Boolean b \<Rightarrow> Boolean b
       | _ \<Rightarrow> c)
   | _ \<Rightarrow> c)"

definition is_logical :: "bound_operator \<Rightarrow> bool" where
  "is_logical operator \<longleftrightarrow> operator \<in> {LogicalNot, LogicalAnd, LogicalOr}"

definition is_comparison :: "bound_operator \<Rightarrow> bool" where
  "is_comparison operator \<longleftrightarrow> operator \<in> {Equal, NotEqual, Less, LessEqual, Greater, GreaterEqual}"

text \<open>Folding needs the writer of bytes and the arithmetic of floating-point numbers.\<close>

record folders =
  folder_bytes :: "nat \<Rightarrow> 8 word list"
  folder_floats :: float_library

definition integer_bits_default :: nat where
  "integer_bits_default = 16 * 1024 * 1024"

definition fold_values ::
    "folders \<Rightarrow> bound_operator \<Rightarrow> constant_value_data \<Rightarrow> constant_value_data \<Rightarrow> nat folding" where
  "fold_values fs operator l r =
     fold_binary (folder_bytes fs) (fold_real_binary (folder_floats fs)) (fold_complex_binary (folder_floats fs)) operator
       (value_kind l) (value_kind r) integer_bits_default"

definition fold_literals ::
    "folders \<Rightarrow> bound_operator \<Rightarrow> execution_condition list \<Rightarrow> execution_condition option" where
  "fold_literals fs operator operands = (case operands of
     [Literal d] \<Rightarrow> (case fold_numeric_sign operator (value_kind d) of
         Some kind \<Rightarrow> Some (Literal \<lparr>value_type = value_type d, value_kind = kind\<rparr>)
       | None \<Rightarrow> None)
   | [Literal l, Literal r] \<Rightarrow>
       (if is_comparison operator
        then (case fold_values fs operator l r of Inr (BooleanValue b) \<Rightarrow> Some (Boolean b) | _ \<Rightarrow> None)
        else None)
   | _ \<Rightarrow> None)"

text \<open>
  A comparison with the absent value observes the reached value, and not the payload of a present one.
\<close>

definition nullable_subject :: "execution_condition list \<Rightarrow> (execution_condition \<times> execution_condition) option" where
  "nullable_subject operands =
     (let absent = (\<lambda>d. value_kind d = NullableAbsent);
          payload = (\<lambda>parts. list_all (\<lambda>f. fst f = StorageNullableValue) parts) in
      case operands of
        [Borrowed subject, Literal d] \<Rightarrow> if absent d then Some (subject, Literal d) else None
      | [Literal d, Borrowed subject] \<Rightarrow> if absent d then Some (subject, Literal d) else None
      | [Constructed base parts, Literal d] \<Rightarrow> if absent d \<and> payload parts then Some (base, Literal d) else None
      | [Literal d, Constructed base parts] \<Rightarrow> if absent d \<and> payload parts then Some (base, Literal d) else None
      | _ \<Rightarrow> None)"

text \<open>The simplifications that end the construction and do not start another one.\<close>

definition simplify_operation ::
    "bound_operator \<Rightarrow> execution_condition list \<Rightarrow> execution_condition option" where
  "simplify_operation operator operands =
     (let absent = (\<lambda>d. value_kind d = NullableAbsent) in
      case (operator, operands) of
        (Equal, [PresentValue _, Literal d]) \<Rightarrow> if absent d then Some (Boolean False) else None
      | (Equal, [Literal d, PresentValue _]) \<Rightarrow> if absent d then Some (Boolean False) else None
      | (NotEqual, [PresentValue _, Literal d]) \<Rightarrow> if absent d then Some (Boolean True) else None
      | (NotEqual, [Literal d, PresentValue _]) \<Rightarrow> if absent d then Some (Boolean True) else None
      | (Less, [l, r]) \<Rightarrow> if l = r then Some (Boolean False) else None
      | (Greater, [l, r]) \<Rightarrow> if l = r then Some (Boolean False) else None
      | (LogicalNot, [Boolean b]) \<Rightarrow> Some (Boolean (\<not> b))
      | (LogicalNot, [Operation LogicalNot inner]) \<Rightarrow>
          Some (case inner of [] \<Rightarrow> Unknown | c # _ \<Rightarrow> c)
      | (LogicalAnd, [l, r]) \<Rightarrow>
          (if l = Boolean False \<or> r = Boolean False then Some (Boolean False)
           else if l = Boolean True then Some r
           else if r = Boolean True then Some l
           else None)
      | (LogicalOr, [l, r]) \<Rightarrow>
          (if l = Boolean True \<or> r = Boolean True then Some (Boolean True)
           else if l = Boolean False then Some r
           else if r = Boolean False then Some l
           else None)
      | _ \<Rightarrow> None)"

text \<open>An equality with a truth value: the other operand and the truth value.\<close>

definition boolean_equality :: "execution_condition list \<Rightarrow> (execution_condition \<times> bool) option" where
  "boolean_equality operands = (case operands of
     [c, Boolean b] \<Rightarrow> Some (c, b)
   | [Boolean b, c] \<Rightarrow> Some (c, b)
   | _ \<Rightarrow> None)"

lemma literal_contents_size: "size (literal_contents c) \<le> size c"
proof (cases c)
  case (Constructed base parts)
  then show ?thesis
    using component_base_size [of base parts]
    by (auto simp: literal_contents_def split: execution_condition.splits)
qed (simp_all add: literal_contents_def)

lemma literal_contents_sizes: "size_list size (map literal_contents cs) \<le> size_list size cs"
  by (induction cs) (use literal_contents_size in \<open>auto simp: add_le_mono\<close>)

lemma nullable_subject_size:
  assumes "nullable_subject (map literal_contents cs) = Some (subject, absent)"
  shows "size_list size [subject, absent] < size_list size cs"
proof -
  have "size_list size [subject, absent] < size_list size (map literal_contents cs)"
    using assms by (auto simp: nullable_subject_def Let_def split: list.splits execution_condition.splits if_splits)
  then show ?thesis using literal_contents_sizes [of cs] by linarith
qed

lemma boolean_equality_size:
  assumes "boolean_equality (map literal_contents cs) = Some (c, b)"
  shows "size_list size [c] < size_list size cs"
proof -
  have "size_list size [c] < size_list size (map literal_contents cs)"
    using assms by (auto simp: boolean_equality_def split: list.splits execution_condition.splits)
  then show ?thesis using literal_contents_sizes [of cs] by linarith
qed

function operation :: "folders \<Rightarrow> bound_operator \<Rightarrow> execution_condition list \<Rightarrow> execution_condition" where
  "operation fs operator operands =
     (let cs = map literal_contents operands; equality = (operator \<in> {Equal, NotEqual}) in
      if \<not> is_logical operator \<and> list_ex contains_unknown cs then Unknown
      else (case fold_literals fs operator cs of
        Some c \<Rightarrow> c
      | None \<Rightarrow> (case (if equality then nullable_subject cs else None) of
          Some (subject, absent) \<Rightarrow> operation fs operator [subject, absent]
        | None \<Rightarrow> (case (if equality then boolean_equality cs else None) of
            Some (c, b) \<Rightarrow> if b = (operator = Equal) then c else operation fs LogicalNot [c]
          | None \<Rightarrow> (case simplify_operation operator cs of
              Some c \<Rightarrow> c
            | None \<Rightarrow> Operation operator cs)))))"
  by pat_completeness auto
termination
  by (relation "measure (\<lambda>(_, _, cs). size_list size cs)")
    (auto split: if_splits dest: nullable_subject_size boolean_equality_size)

declare operation.simps [simp del]

fun requiring_trusted_predicates :: "folders \<Rightarrow> execution_condition \<Rightarrow> execution_condition" where
  "requiring_trusted_predicates fs (Predicate d s cs) = Trusted (Predicate d s cs)"
| "requiring_trusted_predicates fs (Operation operator cs) =
     operation fs operator (map (requiring_trusted_predicates fs) cs)"
| "requiring_trusted_predicates fs c = c"

definition pattern_test ::
    "folders \<Rightarrow> execution_condition \<Rightarrow> bound_operator \<Rightarrow> execution_condition \<Rightarrow> execution_condition" where
  "pattern_test fs subject operator expected = (case expected of
     Variant variant \<Rightarrow> matches_variant subject variant
   | _ \<Rightarrow> operation fs operator [subject, expected])"

subsection \<open>Implied comparisons\<close>

type_synonym assumptions = "(execution_condition \<times> bool) list"

text \<open>A computation that counts down a budget returns what is left of it.\<close>

type_synonym 'a bounded = "nat \<Rightarrow> 'a \<times> nat"

text \<open>A held ordering or equality excludes a value that is not equal to itself.\<close>

definition orders_value :: "execution_condition \<Rightarrow> execution_condition \<times> bool \<Rightarrow> bool" where
  "orders_value c assumption = (case assumption of
     (Operation operator operands, holds) \<Rightarrow>
       (holds \<and> operator \<in> {Equal, Less, LessEqual, Greater, GreaterEqual} \<or> \<not> holds \<and> operator = NotEqual)
       \<and> c \<in> set operands
   | _ \<Rightarrow> False)"

fun positively_ordered :: "execution_condition \<Rightarrow> assumptions \<Rightarrow> bool bounded" where
  "positively_ordered c [] budget = (False, budget)"
| "positively_ordered c (a # as) 0 = (False, 0)"
| "positively_ordered c (a # as) (Suc budget) =
     (if orders_value c a then (True, budget) else positively_ordered c as budget)"

text \<open>The edge an assumption gives from \<open>current\<close>: its target, and whether it is strict.\<close>

definition order_edge ::
    "execution_condition \<Rightarrow> execution_condition \<times> bool \<Rightarrow> (execution_condition \<times> bool) option" where
  "order_edge current assumption = (case assumption of
     (Operation operator [l, r], True) \<Rightarrow>
       (let from_to = (case operator of
            Less \<Rightarrow> Some (l, r, True)
          | LessEqual \<Rightarrow> Some (l, r, False)
          | Greater \<Rightarrow> Some (r, l, True)
          | GreaterEqual \<Rightarrow> Some (r, l, False)
          | Equal \<Rightarrow> if r = current then Some (r, l, False) else Some (l, r, False)
          | _ \<Rightarrow> None) in
        case from_to of
          Some (from, to, strict) \<Rightarrow> if from = current then Some (to, strict) else None
        | None \<Rightarrow> None)
   | _ \<Rightarrow> None)"

datatype path_scan = PathFound | PathExhausted | PathPending "(execution_condition \<times> bool) list"

fun scan_edges ::
    "execution_condition \<Rightarrow> bool \<Rightarrow> execution_condition \<Rightarrow> bool \<Rightarrow> assumptions
     \<Rightarrow> (execution_condition \<times> bool) list \<Rightarrow> path_scan bounded" where
  "scan_edges upper requires_strict current strict [] pending budget = (PathPending pending, budget)"
| "scan_edges upper requires_strict current strict (a # as) pending 0 = (PathExhausted, 0)"
| "scan_edges upper requires_strict current strict (a # as) pending (Suc budget) =
     (case order_edge current a of
        None \<Rightarrow> scan_edges upper requires_strict current strict as pending budget
      | Some (to, edge_strict) \<Rightarrow>
          (let strict' = (strict \<or> edge_strict) in
           if to = upper \<and> (strict' \<or> \<not> requires_strict) then (PathFound, budget)
           else scan_edges upper requires_strict current strict as ((to, strict') # pending) budget))"

lemma scan_edges_budget:
  assumes "scan_edges upper rs current strict as pending budget = (PathPending pending', budget')"
  shows "budget' \<le> budget \<and> (as \<noteq> [] \<longrightarrow> budget' < budget) \<and> (as = [] \<longrightarrow> pending' = pending)"
  using assms
proof (induction upper rs current strict as pending budget rule: scan_edges.induct)
  case (3 upper rs current strict a as pending budget)
  then show ?case
    by (cases "order_edge current a") (force simp: Let_def split: prod.splits if_splits)+
qed auto

text \<open>Both conditions are integer literals whose values are in order.\<close>

definition literals_ordered :: "folders \<Rightarrow> bool \<Rightarrow> execution_condition \<Rightarrow> execution_condition \<Rightarrow> bool" where
  "literals_ordered fs strictly current upper = (case (current, upper) of
     (Literal c, Literal u) \<Rightarrow> (case (value_kind c, value_kind u) of
         (IntegerValue _, IntegerValue _) \<Rightarrow>
           fold_values fs (if strictly then Less else LessEqual) c u = Inr (BooleanValue True)
       | _ \<Rightarrow> False)
   | _ \<Rightarrow> False)"

function path_loop ::
    "folders \<Rightarrow> execution_condition \<Rightarrow> bool \<Rightarrow> assumptions \<Rightarrow> (execution_condition \<times> bool) list
     \<Rightarrow> (execution_condition \<times> bool) set \<Rightarrow> bool bounded" where
  "path_loop fs upper requires_strict as [] visited budget = (False, budget)"
| "path_loop fs upper requires_strict as ((current, strict) # pending) visited budget =
     (if literals_ordered fs (requires_strict \<and> \<not> strict) current upper then (True, budget)
      else if (current, strict) \<in> visited then path_loop fs upper requires_strict as pending visited budget
      else (case scan_edges upper requires_strict current strict as pending budget of
        (PathFound, budget') \<Rightarrow> (True, budget')
      | (PathExhausted, budget') \<Rightarrow> (False, budget')
      | (PathPending pending', budget') \<Rightarrow>
          path_loop fs upper requires_strict as pending' (insert (current, strict) visited) budget'))"
  by pat_completeness auto
termination
proof (relation "measures [\<lambda>(_, _, _, _, _, _, budget). budget, \<lambda>(_, _, _, _, pending, _, _). length pending]",
    goal_cases)
  case (3 fs upper rs as current strict pending visited budget)
  then show ?case by (cases as) (auto dest!: sym [of _ "scan_edges _ _ _ _ _ _ _"] scan_edges_budget)
qed auto

definition ordered_path ::
    "folders \<Rightarrow> execution_condition \<Rightarrow> execution_condition \<Rightarrow> bool \<Rightarrow> assumptions \<Rightarrow> bool bounded" where
  "ordered_path fs lower upper requires_strict as budget =
     (if length as < 2 then (False, budget)
      else path_loop fs upper requires_strict as [(lower, False)] {} budget)"

definition known ::
    "folders \<Rightarrow> assumptions \<Rightarrow> bound_operator \<Rightarrow> execution_condition \<Rightarrow> execution_condition \<Rightarrow> bool" where
  "known fs as operator l r \<longleftrightarrow> (operation fs operator [l, r], True) \<in> set as"

definition known_unequal :: "folders \<Rightarrow> assumptions \<Rightarrow> execution_condition \<Rightarrow> execution_condition \<Rightarrow> bool" where
  "known_unequal fs as l r \<longleftrightarrow> known fs as NotEqual l r \<or> known fs as NotEqual r l
     \<or> (operation fs Equal [l, r], False) \<in> set as \<or> (operation fs Equal [r, l], False) \<in> set as"

definition known_equal :: "folders \<Rightarrow> assumptions \<Rightarrow> execution_condition \<Rightarrow> execution_condition \<Rightarrow> bool" where
  "known_equal fs as l r \<longleftrightarrow> known fs as Equal l r \<or> known fs as Equal r l"

text \<open>The strict operator of a comparison, the reversed one, and whether equal values satisfy it.\<close>

definition ordering_of :: "bound_operator \<Rightarrow> (bound_operator \<times> bound_operator \<times> bool) option" where
  "ordering_of operator = (case operator of
     Less \<Rightarrow> Some (Less, Greater, False)
   | LessEqual \<Rightarrow> Some (Less, Greater, True)
   | Greater \<Rightarrow> Some (Greater, Less, False)
   | GreaterEqual \<Rightarrow> Some (Greater, Less, True)
   | _ \<Rightarrow> None)"

definition weak_of :: "bound_operator \<Rightarrow> bound_operator" where
  "weak_of strict = (if strict = Less then LessEqual else GreaterEqual)"

definition equality_is_implied ::
    "folders \<Rightarrow> bound_operator \<Rightarrow> execution_condition \<Rightarrow> execution_condition \<Rightarrow> assumptions \<Rightarrow> bool option bounded" where
  "equality_is_implied fs operator l r as budget =
     (let strictly_ordered = list_ex (\<lambda>o'. known fs as o' l r \<or> known fs as o' r l) [Less, Greater];
          (found, budget') = (if strictly_ordered then (True, budget)
            else (case ordered_path fs l r True as budget of
              (True, b) \<Rightarrow> (True, b)
            | (False, b) \<Rightarrow> ordered_path fs r l True as b)) in
      (if found then Some (operator = NotEqual) else None, budget'))"

definition ordering_is_implied ::
    "folders \<Rightarrow> bound_operator \<times> bound_operator \<times> bool \<Rightarrow> execution_condition \<Rightarrow> execution_condition
     \<Rightarrow> assumptions \<Rightarrow> bool option bounded" where
  "ordering_is_implied fs order3 l r as budget = (case order3 of (strict, reversed, allows_equal) \<Rightarrow>
     (let unequal = known_unequal fs as l r in
      if known fs as strict l r \<or> known fs as reversed r l
         \<or> unequal \<and> (known fs as (weak_of strict) l r \<or> known fs as (weak_of reversed) r l)
         \<or> allows_equal \<and> known_equal fs as l r
        then (Some True, budget)
      else if known fs as reversed l r \<or> known fs as strict r l then (Some False, budget)
      else if \<not> allows_equal \<and> (known fs as (weak_of reversed) l r \<or> known fs as (weak_of strict) r l
          \<or> known_equal fs as l r)
        then (Some False, budget)
      else (let (lower, upper) = (if strict = Less then (l, r) else (r, l)) in
        case ordered_path fs lower upper (\<not> allows_equal \<and> \<not> unequal) as budget of
          (True, b) \<Rightarrow> (Some True, b)
        | (False, b) \<Rightarrow> (case ordered_path fs upper lower allows_equal as b of
            (found, b') \<Rightarrow> (if found then Some False else None, b')))))"

definition reflexive_comparison :: "bound_operator \<Rightarrow> bool option" where
  "reflexive_comparison operator =
     (if operator \<in> {Equal, LessEqual, GreaterEqual} then Some True
      else if operator \<in> {NotEqual, Less, Greater} then Some False
      else None)"

definition comparison_is_implied ::
    "folders \<Rightarrow> bound_operator \<Rightarrow> execution_condition list \<Rightarrow> assumptions \<Rightarrow> bool option bounded" where
  "comparison_is_implied fs operator operands as budget = (case operands of
     [l, r] \<Rightarrow>
       (let (reflexive, budget') = (if l = r then positively_ordered l as budget else (False, budget)) in
        if reflexive then (reflexive_comparison operator, budget')
        else if operator \<in> {Equal, NotEqual} then equality_is_implied fs operator l r as budget'
        else (case ordering_of operator of
          None \<Rightarrow> (None, budget')
        | Some order3 \<Rightarrow> ordering_is_implied fs order3 l r as budget'))
   | _ \<Rightarrow> (None, budget))"

subsection \<open>The prover\<close>

definition inverse_known ::
    "bound_operator \<Rightarrow> execution_condition list \<Rightarrow> assumptions \<Rightarrow> bool option" where
  "inverse_known operator operands as =
     (let inverse = (if operator = Equal then Some NotEqual else if operator = NotEqual then Some Equal else None) in
      case inverse of
        None \<Rightarrow> None
      | Some o' \<Rightarrow>
          (if (Operation o' operands, True) \<in> set as then Some False
           else if (Operation o' operands, False) \<in> set as then Some True
           else None))"

definition other_variant_known :: "nat \<Rightarrow> execution_condition \<Rightarrow> assumptions \<Rightarrow> bool" where
  "other_variant_known variant subject as = list_ex (\<lambda>a. case a of
     (VariantTest active other, True) \<Rightarrow> active \<noteq> variant \<and> other = subject
   | _ \<Rightarrow> False) as"

definition both :: "bool option \<Rightarrow> bool option \<Rightarrow> bool option" where
  "both l r = (if l = Some False \<or> r = Some False then Some False
     else if l = Some True \<and> r = Some True then Some True else None)"

definition either :: "bool option \<Rightarrow> bool option \<Rightarrow> bool option" where
  "either l r = (if l = Some True \<or> r = Some True then Some True
     else if l = Some False \<and> r = Some False then Some False else None)"

function (sequential) prove :: "folders \<Rightarrow> assumptions \<Rightarrow> execution_condition \<Rightarrow> bool option bounded" where
  "prove fs as c 0 = (None, 0)"
| "prove fs as (Entry c _) (Suc budget) = prove fs as c budget"
| "prove fs as c (Suc budget) =
     (if is_unknown c then (None, budget)
      else if c = Boolean True \<or> c = Boolean False then (Some (c = Boolean True), budget)
      else if (c, True) \<in> set as \<and> \<not> contains_unknown c then (Some True, budget)
      else if (c, False) \<in> set as \<and> \<not> contains_unknown c then (Some False, budget)
      else (case c of
        VariantTest variant subject \<Rightarrow> (if other_variant_known variant subject as then Some False else None, budget)
      | Operation operator operands \<Rightarrow>
          (case comparison_is_implied fs operator operands as budget of
             (Some b, budget1) \<Rightarrow> (Some b, budget1)
           | (None, budget1) \<Rightarrow> (case inverse_known operator operands as of
               Some b \<Rightarrow> (Some b, budget1)
             | None \<Rightarrow> (case operands of
                 [x] \<Rightarrow> (if operator = LogicalNot
                   then (case prove fs as x budget1 of (p, budget2) \<Rightarrow> (map_option Not p, budget2))
                   else (None, budget1))
               | [l, r] \<Rightarrow> (if operator = LogicalAnd \<or> operator = LogicalOr
                   then (case prove fs as l budget1 of (p, budget2) \<Rightarrow>
                     (case prove fs as r budget2 of (q, budget3) \<Rightarrow>
                       (if operator = LogicalAnd then both p q else either p q, budget3)))
                   else (None, budget1))
               | _ \<Rightarrow> (None, budget1))))
      | _ \<Rightarrow> (None, budget)))"
  by pat_completeness auto
termination
  by (relation "measure (\<lambda>(_, _, c, _). size c)") auto

function (sequential) prove_mixed ::
    "folders \<Rightarrow> assumptions \<Rightarrow> assumptions \<Rightarrow> execution_condition \<Rightarrow> bool option bounded" where
  "prove_mixed fs trusted ordinary c 0 = (None, 0)"
| "prove_mixed fs trusted ordinary c (Suc budget) =
     (let evidence = (\<lambda>b. ((c, b) \<in> set trusted \<or> (c, b) \<in> set ordinary \<and> \<not> contains_trusted c) \<and> \<not> contains_unknown c);
          fallback = (case prove fs trusted c budget of
              (Some b, budget') \<Rightarrow> (Some b, budget')
            | (None, budget') \<Rightarrow> prove fs ordinary c budget') in
      if is_unknown c then (None, budget)
      else (case c of
        Boolean b \<Rightarrow> (Some b, budget)
      | Entry inner _ \<Rightarrow> prove_mixed fs trusted ordinary inner budget
      | _ \<Rightarrow>
        if evidence True then (Some True, budget)
        else if evidence False then (Some False, budget)
        else (case c of
          Trusted _ \<Rightarrow> (None, budget)
        | Operation operator operands \<Rightarrow> (case operands of
            [x] \<Rightarrow> (if operator = LogicalNot
              then (case prove_mixed fs trusted ordinary x budget of (p, budget1) \<Rightarrow> (map_option Not p, budget1))
              else fallback)
          | [l, r] \<Rightarrow> (if operator = LogicalAnd \<or> operator = LogicalOr
              then (case prove_mixed fs trusted ordinary l budget of (p, budget1) \<Rightarrow>
                (case prove_mixed fs trusted ordinary r budget1 of (q, budget2) \<Rightarrow>
                  (if operator = LogicalAnd then both p q else either p q, budget2)))
              else fallback)
          | _ \<Rightarrow> fallback)
        | _ \<Rightarrow> fallback)))"
  by pat_completeness auto
termination
  by (relation "measure (\<lambda>(_, _, _, c, _). size c)") auto

text \<open>\<open>assume_with\<close>: what it inserts, in order.\<close>

function (sequential) assume_with :: "execution_condition \<Rightarrow> bool \<Rightarrow> assumptions" where
  "assume_with c b =
     (if is_unknown c then []
      else (case c of
        Entry inner True \<Rightarrow>
          (if \<not> contains_trusted inner \<and> \<not> observes_borrowed inner then assume_with inner b
           else if \<not> contains_unknown c then [(c, b)] else [])
      | Trusted inner \<Rightarrow> (if \<not> contains_unknown inner then [(Trusted inner, b)] else []) @ assume_with inner b
      | Operation operator operands \<Rightarrow>
          (if operator = LogicalNot \<and> length operands = 1 then assume_with (hd operands) (\<not> b)
           else if operator = LogicalAnd \<and> b \<or> operator = LogicalOr \<and> \<not> b
             then concat (map (\<lambda>x. assume_with x b) operands)
           else if \<not> contains_unknown c then [(c, b)] else [])
      | _ \<Rightarrow> if \<not> contains_unknown c then [(c, b)] else []))"
  by pat_completeness auto
termination
  by (relation "measure (\<lambda>(c, _). size c)")
    (auto simp: length_Suc_conv size_list_estimation' dest: size_list_estimation' [OF _ order_refl, of _ _ size])

declare prove_mixed.simps(2) [simp del] assume_with.simps [simp del]

end
