(* ===== verification/Condition_Semantics.thy ===== *)
theory Condition_Semantics
  imports Execution_Conditions
begin

text \<open>
  What conditions mean, and that the prover is right. The locale \<open>condition_semantics\<close> states the
  laws that the prover relies on: a condition has a truth value or none, the logical operators work
  from left to right, and comparisons are a partial order in which a value need not equal itself (a
  floating-point value that is not a number does not). In it, normalising an operation keeps its
  truth, and whatever is proved from known truths is true. The locale is interpreted on an evaluator
  of conditions that computes operations by constant folding.
\<close>

subsection \<open>How the prover reaches a result\<close>

lemma prove_unfold:
  "\<nexists>c' k. c = Entry c' k \<Longrightarrow> prove fs as c (Suc budget) =
     (if is_unknown c then (None, budget)
      else if c = Boolean True \<or> c = Boolean False then (Some (c = Boolean True), budget)
      else if (c, True) \<in> set as \<and> \<not> contains_unknown c then (Some True, budget)
      else if (c, False) \<in> set as \<and> \<not> contains_unknown c then (Some False, budget)
      else (case c of
        VariantTest variant subject \<Rightarrow> (if other_variant_known variant subject as then Some False else None, budget)
      | Operation operator operands \<Rightarrow>
          (case comparison_is_implied fs operator operands as budget of
             (Some b, budget1) \<Rightarrow> (Some b, budget1)
           | (None, budget1) \<Rightarrow> (case inverse_known operator operands as of
               Some b \<Rightarrow> (Some b, budget1)
             | None \<Rightarrow> (case operands of
                 [x] \<Rightarrow> (if operator = LogicalNot
                   then (case prove fs as x budget1 of (p, budget2) \<Rightarrow> (map_option Not p, budget2))
                   else (None, budget1))
               | [l, r] \<Rightarrow> (if operator = LogicalAnd \<or> operator = LogicalOr
                   then (case prove fs as l budget1 of (p, budget2) \<Rightarrow>
                     (case prove fs as r budget2 of (q, budget3) \<Rightarrow>
                       (if operator = LogicalAnd then both p q else either p q, budget3)))
                   else (None, budget1))
               | _ \<Rightarrow> (None, budget1))))
      | _ \<Rightarrow> (None, budget)))"
  by (cases c) (simp_all only: prove.simps execution_condition.simps, simp_all)

lemma prove_operation_cases:
  assumes "(case operands of
        [x] \<Rightarrow> (if operator = LogicalNot
           then (case prover x budget1 of (p, budget2) \<Rightarrow> (map_option Not p, budget2))
           else fallback)
      | [l, r] \<Rightarrow> (if operator = LogicalAnd \<or> operator = LogicalOr
           then (case prover l budget1 of (p, budget2) \<Rightarrow>
             (case prover r budget2 of (q, budget3) \<Rightarrow>
               (if operator = LogicalAnd then both p q else either p q, budget3)))
           else fallback)
      | _ \<Rightarrow> fallback) = (Some b, budget')"
  obtains (fallback) "fallback = (Some b, budget')"
  | (negation) x n n' where "operator = LogicalNot" "operands = [x]" "prover x n = (Some (\<not> b), n')"
  | (conjunction) l r p q n n' m m' where "operator = LogicalAnd" "operands = [l, r]"
      "prover l n = (p, n')" "prover r m = (q, m')" "both p q = Some b"
  | (disjunction) l r p q n n' m m' where "operator = LogicalOr" "operands = [l, r]"
      "prover l n = (p, n')" "prover r m = (q, m')" "either p q = Some b"
  using assms by (auto split: list.splits if_splits prod.splits)

lemma prove_result_cases:
  assumes "prove fs as c budget = (Some b, budget')"
  obtains (entry) c' k n n' where "c = Entry c' k" "prove fs as c' n = (Some b, n')"
  | (boolean) "c = Boolean b"
  | (known) "(c, b) \<in> set as"
  | (variant) v subject where "c = VariantTest v subject" "\<not> b" "other_variant_known v subject as"
  | (comparison) operator cs n n' where "c = Operation operator cs"
      "comparison_is_implied fs operator cs as n = (Some b, n')"
  | (inverse) operator cs where "c = Operation operator cs" "inverse_known operator cs as = Some b"
  | (negation) x n n' where "c = Operation LogicalNot [x]" "prove fs as x n = (Some (\<not> b), n')"
  | (conjunction) l r p q n n' m m' where "c = Operation LogicalAnd [l, r]"
      "prove fs as l n = (p, n')" "prove fs as r m = (q, m')" "both p q = Some b"
  | (disjunction) l r p q n n' m m' where "c = Operation LogicalOr [l, r]"
      "prove fs as l n = (p, n')" "prove fs as r m = (q, m')" "either p q = Some b"
proof (cases budget)
  case 0
  then show thesis using assms by simp
next
  case (Suc n)
  show thesis
  proof (cases "\<exists>c' k. c = Entry c' k")
    case True
    then show thesis using assms entry Suc by auto
  next
    case not_entry: False
    note unfolded = assms [unfolded Suc prove_unfold [OF not_entry]]
    show thesis
    proof (cases "\<exists>operator cs. c = Operation operator cs
        \<and> \<not> ((c, True) \<in> set as \<and> \<not> contains_unknown c) \<and> \<not> ((c, False) \<in> set as \<and> \<not> contains_unknown c)")
      case False
      then show thesis using unfolded boolean known variant
        by (cases c) (auto split: if_splits)
    next
      case True
      then obtain operator cs where c: "c = Operation operator cs"
          "\<not> ((c, True) \<in> set as \<and> \<not> contains_unknown c)" "\<not> ((c, False) \<in> set as \<and> \<not> contains_unknown c)" by blast
      note unfolded = unfolded [unfolded if_not_P [OF c(2)] if_not_P [OF c(3)], unfolded c(1), simplified]
      obtain result n' where r: "comparison_is_implied fs operator cs as n = (result, n')" by fastforce
      show thesis
      proof (cases "result = None \<and> inverse_known operator cs as = None")
        case False
        then show thesis using unfolded c(1) r comparison inverse by (auto split: option.splits)
      next
        case True
        with unfolded r have "(case cs of
              [x] \<Rightarrow> (if operator = LogicalNot
                 then (case prove fs as x n' of (p, budget2) \<Rightarrow> (map_option Not p, budget2))
                 else (None, n'))
            | [l, r] \<Rightarrow> (if operator = LogicalAnd \<or> operator = LogicalOr
                 then (case prove fs as l n' of (p, budget2) \<Rightarrow>
                   (case prove fs as r budget2 of (q, budget3) \<Rightarrow>
                     (if operator = LogicalAnd then both p q else either p q, budget3)))
                 else (None, n'))
            | _ \<Rightarrow> (None, n')) = (Some b, budget')" by simp
        then show thesis
          by (rule prove_operation_cases) (use c negation conjunction disjunction in auto)
      qed
    qed
  qed
qed

lemma prove_mixed_result_cases:
  assumes "prove_mixed fs trusted ordinary c budget = (Some b, budget')"
  obtains (entry) c' k n n' where "c = Entry c' k" "prove_mixed fs trusted ordinary c' n = (Some b, n')"
  | (boolean) "c = Boolean b"
  | (evidence) "(c, b) \<in> set trusted \<or> (c, b) \<in> set ordinary \<and> \<not> contains_trusted c"
  | (trusted) n n' where "prove fs trusted c n = (Some b, n')"
  | (ordinary) n n' where "prove fs ordinary c n = (Some b, n')" "\<nexists>x. c = Trusted x"
  | (negation) x n n' where "c = Operation LogicalNot [x]" "prove_mixed fs trusted ordinary x n = (Some (\<not> b), n')"
  | (conjunction) l r p q n n' m m' where "c = Operation LogicalAnd [l, r]"
      "prove_mixed fs trusted ordinary l n = (p, n')" "prove_mixed fs trusted ordinary r m = (q, m')" "both p q = Some b"
  | (disjunction) l r p q n n' m m' where "c = Operation LogicalOr [l, r]"
      "prove_mixed fs trusted ordinary l n = (p, n')" "prove_mixed fs trusted ordinary r m = (q, m')" "either p q = Some b"
proof (cases budget)
  case 0
  then show thesis using assms by simp
next
  case (Suc n)
  let ?evidence = "\<lambda>d. ((c, d) \<in> set trusted \<or> (c, d) \<in> set ordinary \<and> \<not> contains_trusted c) \<and> \<not> contains_unknown c"
  let ?fallback = "case prove fs trusted c n of
      (Some b, budget') \<Rightarrow> (Some b, budget') | (None, budget') \<Rightarrow> prove fs ordinary c budget'"
  note unfolded = assms [unfolded Suc prove_mixed.simps(2) Let_def]
  have known: "\<not> is_unknown c" using unfolded by (auto split: if_splits)
  note unfolded = unfolded [unfolded if_not_P [OF known]]
  have fallback: "?fallback = (Some b, budget') \<Longrightarrow> \<nexists>x. c = Trusted x \<Longrightarrow> thesis"
    using trusted ordinary by (auto split: prod.splits option.splits)
  consider (special) "(\<exists>e. c = Boolean e) \<or> (\<exists>c' k. c = Entry c' k)"
    | (found) "(\<nexists>e. c = Boolean e) \<and> (\<nexists>c' k. c = Entry c' k)" "?evidence True \<or> ?evidence False"
    | (search) "(\<nexists>e. c = Boolean e) \<and> (\<nexists>c' k. c = Entry c' k)" "\<not> ?evidence True" "\<not> ?evidence False"
    by blast
  then show thesis
  proof cases
    case special
    then show thesis using unfolded boolean entry by auto
  next
    case found
    then show thesis using unfolded evidence by (cases c) (auto split: if_splits)
  next
    case search
    show thesis
    proof (cases "\<exists>operator cs. c = Operation operator cs")
      case False
      then show thesis
        using search unfolded [unfolded if_not_P [OF search(2)] if_not_P [OF search(3)]] fallback
        by (cases c) simp_all
    next
      case True
      then obtain operator cs where c: "c = Operation operator cs" by blast
      note unfolded = unfolded [unfolded if_not_P [OF search(2)] if_not_P [OF search(3)],
          unfolded c execution_condition.case, folded c]
      then show thesis
        by (rule prove_operation_cases) (use c fallback negation conjunction disjunction in auto)
    qed
  qed
qed

subsection \<open>The laws of the meaning of conditions\<close>

abbreviation holding :: "(execution_condition \<Rightarrow> bool option) \<Rightarrow> bound_operator
    \<Rightarrow> execution_condition \<Rightarrow> execution_condition \<Rightarrow> bool" where
  "holding truth operator l r \<equiv> truth (Operation operator [l, r]) = Some True"

locale condition_semantics =
  fixes fs :: folders
    and truth :: "execution_condition \<Rightarrow> bool option"
  assumes truth_boolean: "truth (Boolean b) = Some b"
    and truth_unknown: "truth Unknown = None"
    and truth_entry: "truth (Entry c k) = truth c"
    and truth_trusted: "truth (Trusted c) = truth c"
    and truth_operation: "truth (Operation operator cs) \<noteq> None \<Longrightarrow>
      (operator = LogicalNot \<and> length cs = 1)
      \<or> (length cs = 2 \<and> (operator = LogicalAnd \<or> operator = LogicalOr \<or> is_comparison operator))"
    and truth_not: "truth (Operation LogicalNot [c]) = map_option Not (truth c)"
    and truth_and: "truth (Operation LogicalAnd [l, r]) = Some b \<Longrightarrow>
      truth l = Some False \<and> \<not> b \<or> truth l = Some True \<and> truth r = Some b"
    and truth_or: "truth (Operation LogicalOr [l, r]) = Some b \<Longrightarrow>
      truth l = Some True \<and> b \<or> truth l = Some False \<and> truth r = Some b"
    and truth_contents: "truth (Operation operator (map literal_contents cs)) = truth (Operation operator cs)"
    and truth_literals: "is_comparison operator \<Longrightarrow> fold_values fs operator x y = Inr (BooleanValue b) \<Longrightarrow>
      truth (Operation operator [Literal x, Literal y]) = Some b' \<Longrightarrow> b' = b"
    and truth_ordered_literals: "operator \<in> {Less, LessEqual, Greater, GreaterEqual} \<Longrightarrow>
      fold_values fs operator x y = Inr (BooleanValue b) \<Longrightarrow>
      truth (Operation operator [Literal x, Literal y]) \<noteq> None"
    and truth_nullable: "operator \<in> {Equal, NotEqual} \<Longrightarrow> nullable_subject cs = Some (subject, absent) \<Longrightarrow>
      truth (Operation operator cs) = truth (Operation operator [subject, absent])"
    and truth_absent: "value_kind d = NullableAbsent \<Longrightarrow>
      truth (Operation Equal [PresentValue c, Literal d]) = Some b \<Longrightarrow> \<not> b"
    and truth_equal_boolean: "truth (Operation Equal [c, Boolean e]) = Some b \<Longrightarrow> truth c = Some (b = e)"
    and truth_variant: "truth (VariantTest v c) = Some True \<Longrightarrow> truth (VariantTest w c) = Some b \<Longrightarrow> v \<noteq> w \<Longrightarrow> \<not> b"
    and not_equal: "truth (Operation NotEqual cs) = map_option Not (truth (Operation Equal cs))"
    and greater: "truth (Operation Greater [l, r]) = truth (Operation Less [r, l])"
    and greater_equal: "truth (Operation GreaterEqual [l, r]) = truth (Operation LessEqual [r, l])"
    and equal_sym: "truth (Operation Equal [l, r]) = truth (Operation Equal [r, l])"
    and comparable: "truth (Operation Less [l, r]) \<noteq> None \<Longrightarrow>
      truth (Operation Less [r, l]) \<noteq> None \<and> truth (Operation LessEqual [l, r]) \<noteq> None
      \<and> truth (Operation Equal [l, r]) \<noteq> None"
    and comparable_weak: "truth (Operation LessEqual [l, r]) \<noteq> None \<Longrightarrow> truth (Operation Less [l, r]) \<noteq> None"
    and less_equal: "truth (Operation LessEqual [l, r]) = Some b \<Longrightarrow>
      b \<longleftrightarrow> holding truth Less l r \<or> holding truth Equal l r"
    and equal_trans: "holding truth Equal l m \<Longrightarrow> holding truth Equal m r \<Longrightarrow> holding truth Equal l r"
    and less_trans: "holding truth Less l m \<Longrightarrow> holding truth Less m r \<Longrightarrow> holding truth Less l r"
    and less_equal_trans: "holding truth Less l m \<Longrightarrow> holding truth Equal m r \<Longrightarrow> holding truth Less l r"
    and equal_less_trans: "holding truth Equal l m \<Longrightarrow> holding truth Less m r \<Longrightarrow> holding truth Less l r"
    and less_irrefl: "\<not> holding truth Less l l"
    and less_self: "holding truth Less l r \<Longrightarrow> holding truth Equal l l \<and> holding truth Equal r r"
begin

abbreviation lt where "lt \<equiv> holding truth Less"
abbreviation eq where "eq \<equiv> holding truth Equal"
abbreviation le where "le l r \<equiv> lt l r \<or> eq l r"

lemma le_trans: "le l m \<Longrightarrow> le m r \<Longrightarrow> le l r"
  using equal_trans less_trans less_equal_trans equal_less_trans by blast

lemma lt_le_trans: "lt l m \<Longrightarrow> le m r \<Longrightarrow> lt l r" "le l m \<Longrightarrow> lt m r \<Longrightarrow> lt l r"
  using less_trans less_equal_trans equal_less_trans by blast+

lemma lt_not_le: "lt l r \<Longrightarrow> \<not> le r l"
  using lt_le_trans(1) less_irrefl by blast

lemma eq_commute: "eq l r \<longleftrightarrow> eq r l"
  using equal_sym by metis

lemma le_self: "le l r \<Longrightarrow> eq l l \<and> eq r r"
  using less_self equal_trans eq_commute by blast

text \<open>The truth of each comparison.\<close>

lemma comparison_truth:
  assumes "truth (Operation operator [l, r]) = Some b"
  shows "operator = Less \<Longrightarrow> b \<longleftrightarrow> lt l r" "operator = LessEqual \<Longrightarrow> b \<longleftrightarrow> le l r"
    "operator = Greater \<Longrightarrow> b \<longleftrightarrow> lt r l" "operator = GreaterEqual \<Longrightarrow> b \<longleftrightarrow> le r l"
    "operator = Equal \<Longrightarrow> b \<longleftrightarrow> eq l r" "operator = NotEqual \<Longrightarrow> b \<longleftrightarrow> \<not> eq l r"
  using assms less_equal [of l r b] less_equal [of r l b]
  by (auto simp: greater greater_equal not_equal)

subsection \<open>Normal forms\<close>

lemma negation_truth: "truth (Operation LogicalNot (c # cs)) = Some b \<Longrightarrow> cs = [] \<and> truth c = Some (\<not> b)"
  using truth_operation [of LogicalNot "c # cs"] by (auto simp: truth_not is_comparison_def)

lemma simplify_operation_truth:
  assumes "simplify_operation operator cs = Some c" "c \<noteq> Unknown" "truth (Operation operator cs) = Some b"
  shows "truth c = Some b"
proof -
  have absent: "value_kind d = NullableAbsent \<Longrightarrow> truth (Operation Equal [Literal d, PresentValue x]) = Some b \<Longrightarrow> \<not> b"
    for d x b using truth_absent equal_sym by metis
  show ?thesis
    using assms
    by (cases operator)
      (auto simp: simplify_operation_def Let_def truth_boolean not_equal greater truth_not less_irrefl
        split: list.splits execution_condition.splits if_splits bound_operator.splits
        dest!: truth_and truth_or negation_truth dest: truth_absent absent)
qed

lemma fold_literals_truth:
  assumes "fold_literals fs operator cs = Some c" "truth (Operation operator cs) = Some b"
  shows "truth c = Some b"
  using assms truth_operation [of operator cs]
  by (auto simp: fold_literals_def truth_boolean fold_numeric_sign_def dest: truth_literals
      split: list.splits execution_condition.splits sum.splits constant_value_kind.splits if_splits
        bound_operator.splits)

lemma boolean_equality_truth:
  assumes "boolean_equality cs = Some (c, e)" "truth (Operation Equal cs) = Some b"
  shows "truth c = Some (b = e)"
proof -
  from assms(1) have "cs = [c, Boolean e] \<or> cs = [Boolean e, c]"
    by (auto simp: boolean_equality_def split: list.splits execution_condition.splits)
  with assms(2) show ?thesis using truth_equal_boolean [of c e b] equal_sym [of "Boolean e" c] by auto
qed

text \<open>Normalising keeps the truth of an operation.\<close>

lemma operation_truth:
  "truth (Operation operator cs) = Some b \<Longrightarrow> operation fs operator cs \<noteq> Unknown \<Longrightarrow>
   truth (operation fs operator cs) = Some b"
proof (induction "size_list size cs" arbitrary: operator cs b rule: less_induct)
  case less
  let ?cs = "map literal_contents cs"
  have t: "truth (Operation operator ?cs) = Some b" using less.prems(1) by (simp add: truth_contents)
  have known: "\<not> (\<not> is_logical operator \<and> list_ex contains_unknown ?cs)"
    using less.prems(2) by (subst (asm) operation.simps) (auto simp: Let_def)
  note unfolded = operation.simps [of fs operator cs, unfolded Let_def if_not_P [OF known]]
  let ?equality = "operator \<in> {Equal, NotEqual}"
  consider (literals) c where "fold_literals fs operator ?cs = Some c"
    | (nullable) subject absent where "fold_literals fs operator ?cs = None" "?equality"
        "nullable_subject ?cs = Some (subject, absent)"
    | (boolean) c e where "fold_literals fs operator ?cs = None" "?equality"
        "nullable_subject ?cs = None" "boolean_equality ?cs = Some (c, e)"
    | (rest) "fold_literals fs operator ?cs = None" "?equality \<longrightarrow> nullable_subject ?cs = None"
        "?equality \<longrightarrow> boolean_equality ?cs = None"
    by (metis not_Some_eq surj_pair)
  then show ?case
  proof cases
    case literals
    then have "operation fs operator cs = c" by (simp add: unfolded)
    with literals t show ?thesis by (auto intro: fold_literals_truth)
  next
    case nullable
    then have "operation fs operator cs = operation fs operator [subject, absent]" by (simp add: unfolded)
    moreover have "truth (Operation operator [subject, absent]) = Some b"
      using t truth_nullable [OF nullable(2,3)] by simp
    ultimately show ?thesis
      using less.hyps [OF nullable_subject_size [OF nullable(3)]] less.prems(2) by simp
  next
    case boolean
    then have op: "operation fs operator cs = (if e = (operator = Equal) then c else operation fs LogicalNot [c])"
      by (simp add: unfolded)
    have c: "truth c = Some (if operator = Equal then b = e else b \<noteq> e)"
      using boolean t boolean_equality_truth [OF boolean(4)] by (auto simp: not_equal)
    show ?thesis
    proof (cases "e = (operator = Equal)")
      case True
      then show ?thesis using c boolean(2) by (auto simp: op)
    next
      case False
      have "truth (Operation LogicalNot [c]) = Some b"
        using c False boolean(2) by (auto simp: truth_not)
      then show ?thesis
        using less.hyps [OF boolean_equality_size [OF boolean(4)], of LogicalNot] less.prems(2) False
        by (simp add: op)
    qed
  next
    case rest
    then have op: "operation fs operator cs =
        (case simplify_operation operator ?cs of Some c \<Rightarrow> c | None \<Rightarrow> Operation operator ?cs)"
      by (auto simp: unfolded)
    show ?thesis
    proof (cases "simplify_operation operator ?cs")
      case None
      then show ?thesis using t by (simp add: op)
    next
      case (Some c)
      then show ?thesis using simplify_operation_truth [OF Some _ t] less.prems(2) by (simp add: op)
    qed
  qed
qed

text \<open>For the orderings the converse holds as well.\<close>

lemma ordering_operation_truth:
  assumes "operator \<in> {Less, LessEqual, Greater, GreaterEqual}" "truth (operation fs operator [l, r]) = Some b"
  shows "truth (Operation operator [l, r]) \<noteq> None \<or> \<not> b"
proof -
  let ?cs = "map literal_contents [l, r]"
  from assms(2) have known: "\<not> (\<not> is_logical operator \<and> list_ex contains_unknown ?cs)"
    by (subst (asm) operation.simps) (auto simp: Let_def truth_unknown)
  note unfolded = operation.simps [of fs operator "[l, r]", unfolded Let_def if_not_P [OF known]]
  have t: "truth (Operation operator [l, r]) = truth (Operation operator ?cs)" by (rule truth_contents [symmetric])
  show ?thesis
  proof (cases "fold_literals fs operator ?cs")
    case (Some c)
    then obtain x y e where "?cs = [Literal x, Literal y]" "fold_values fs operator x y = Inr (BooleanValue e)"
      using assms(1)
      by (auto simp: fold_literals_def split: execution_condition.splits sum.splits constant_value_kind.splits if_splits)
    then show ?thesis using truth_ordered_literals [OF assms(1)] t by auto
  next
    case None
    then have "operation fs operator [l, r] = (case simplify_operation operator ?cs of Some c \<Rightarrow> c | None \<Rightarrow> Operation operator ?cs)"
      using assms(1) by (auto simp: unfolded split: option.splits)
    then show ?thesis
      using assms t by (auto simp: simplify_operation_def truth_boolean split: if_splits)
  qed
qed

subsection \<open>Known facts and paths\<close>

abbreviation satisfied where "satisfied as \<equiv> \<forall>a \<in> set as. truth (fst a) = Some (snd a)"

lemma satisfiedD: "satisfied as \<Longrightarrow> (c, b) \<in> set as \<Longrightarrow> truth c = Some b"
  by fastforce

lemma known_ordering:
  assumes "satisfied as" "known fs as operator l r" "operator \<in> {Less, LessEqual, Greater, GreaterEqual}"
  shows "truth (Operation operator [l, r]) = Some True"
proof -
  have t: "truth (operation fs operator [l, r]) = Some True"
    using assms(1,2) by (auto simp: known_def)
  then obtain b where b: "truth (Operation operator [l, r]) = Some b"
    using ordering_operation_truth [OF assms(3) t] by auto
  moreover have "operation fs operator [l, r] \<noteq> Unknown" using t by (auto simp: truth_unknown)
  ultimately show ?thesis using operation_truth t by auto
qed

lemma known_order:
  assumes "satisfied as"
  shows "known fs as Less l r \<Longrightarrow> lt l r" "known fs as Greater l r \<Longrightarrow> lt r l"
    "known fs as LessEqual l r \<Longrightarrow> le l r" "known fs as GreaterEqual l r \<Longrightarrow> le r l"
  using known_ordering [OF assms] comparison_truth [of _ l r True] by blast+

lemma normalised_truth:
  assumes "truth (operation fs operator cs) = Some b" "truth (Operation operator cs) = Some b'"
  shows "b' = b"
  using operation_truth [OF assms(2)] assms(1) truth_unknown by fastforce

lemma known_unequal_truth:
  assumes "satisfied as" "known_unequal fs as l r"
  shows "\<not> eq l r"
proof
  assume "eq l r"
  then have e: "eq l r" "eq r l" "truth (Operation NotEqual [l, r]) = Some False"
      "truth (Operation NotEqual [r, l]) = Some False"
    using equal_sym [of l r] by (auto simp: not_equal)
  from assms(2) show False
    unfolding known_unequal_def known_def
    using normalised_truth [OF _ e(1)] normalised_truth [OF _ e(2)] normalised_truth [OF _ e(3)]
      normalised_truth [OF _ e(4)] satisfiedD [OF assms(1)] by blast
qed

lemma known_equal_truth:
  assumes "satisfied as" "known_equal fs as l r" "truth (Operation Equal [l, r]) \<noteq> None"
  shows "eq l r"
proof -
  from assms(3) obtain b where b: "truth (Operation Equal [l, r]) = Some b" by auto
  then have b': "truth (Operation Equal [r, l]) = Some b" by (simp add: equal_sym)
  from assms(2) have b
    unfolding known_equal_def known_def
    using normalised_truth [OF _ b] normalised_truth [OF _ b'] satisfiedD [OF assms(1)] by blast
  with b show ?thesis by simp
qed

lemma orders_value_truth:
  assumes "truth (fst a) = Some (snd a)" "orders_value c a"
  shows "eq c c"
proof -
  from assms(2) obtain operator cs where a: "fst a = Operation operator cs" "c \<in> set cs"
      "snd a \<and> operator \<in> {Equal, Less, LessEqual, Greater, GreaterEqual} \<or> \<not> snd a \<and> operator = NotEqual"
    by (auto simp: orders_value_def split: prod.splits execution_condition.splits)
  then have "length cs = 2" using assms(1) truth_operation [of operator cs] by auto
  then obtain l r where cs: "cs = [l, r]" by (auto simp: length_Suc_conv numeral_2_eq_2)
  have "le l r \<or> le r l" using assms(1) a(1,3) comparison_truth [of operator l r "snd a"] by (auto simp: cs)
  with a(2) le_self [of l r] le_self [of r l] show ?thesis by (auto simp: cs)
qed

lemma positively_ordered_truth:
  "satisfied as \<Longrightarrow> positively_ordered c as budget = (True, budget') \<Longrightarrow> eq c c"
  by (induction c as budget rule: positively_ordered.induct)
    (auto split: if_splits intro: orders_value_truth)

lemma order_edge_truth:
  assumes "truth (fst a) = Some (snd a)" "order_edge c a = Some (to, strict)"
  shows "le c to" "strict \<Longrightarrow> lt c to"
proof -
  have "le c to \<and> (strict \<longrightarrow> lt c to)"
    using assms comparison_truth [of _ _ _ True]
    by (fastforce simp: order_edge_def Let_def eq_commute
        split: prod.splits execution_condition.splits list.splits bool.splits bound_operator.splits if_splits option.splits)
  then show "le c to" "strict \<Longrightarrow> lt c to" by auto
qed

text \<open>A value reached from \<open>lower\<close>, by a path with a strict edge or without.\<close>

definition reached :: "execution_condition \<Rightarrow> execution_condition \<times> bool \<Rightarrow> bool" where
  "reached lower p \<longleftrightarrow> p = (lower, False) \<or> le lower (fst p) \<and> (snd p \<longrightarrow> lt lower (fst p))"

lemma reached_step:
  assumes "reached lower (c, strict)" "le c to" "edge_strict \<Longrightarrow> lt c to"
  shows "le lower to" "strict \<or> edge_strict \<Longrightarrow> lt lower to"
  using assms le_trans [of lower c to] lt_le_trans [of lower c to] by (auto simp: reached_def)

lemma scan_edges_truth:
  assumes "satisfied as" "reached lower (c, strict)" "\<forall>p \<in> set pending. reached lower p"
    "scan_edges upper rs c strict as pending budget = (result, budget')"
  shows "result = PathFound \<Longrightarrow> le lower upper \<and> (rs \<longrightarrow> lt lower upper)"
    "result = PathPending pending' \<Longrightarrow> \<forall>p \<in> set pending'. reached lower p"
proof -
  have "(result = PathFound \<longrightarrow> le lower upper \<and> (rs \<longrightarrow> lt lower upper))
      \<and> (\<forall>pending'. result = PathPending pending' \<longrightarrow> (\<forall>p \<in> set pending'. reached lower p))"
    using assms
  proof (induction upper rs c strict as pending budget rule: scan_edges.induct)
    case (3 upper rs c strict a as pending budget)
    show ?case
    proof (cases "order_edge c a")
      case None
      then show ?thesis using 3 by simp
    next
      case (Some e)
      obtain to edge where e: "e = (to, edge)" by fastforce
      have truth_a: "truth (fst a) = Some (snd a)" using "3.prems"(1) by simp
      note edge = order_edge_truth [OF truth_a Some [unfolded e]]
      note step = reached_step [OF "3.prems"(2) edge]
      then have to: "reached lower (to, strict \<or> edge)" by (auto simp: reached_def)
      show ?thesis
      proof (cases "to = upper \<and> ((strict \<or> edge) \<or> \<not> rs)")
        case True
        then show ?thesis using "3.prems"(4) Some e step by (auto simp: Let_def)
      next
        case False
        have scanned: "scan_edges upper rs c strict as ((to, strict \<or> edge) # pending) budget = (result, budget')"
          using "3.prems"(4) Some False by (simp add: e Let_def split: if_splits)
        have "\<forall>p \<in> set ((to, strict \<or> edge) # pending). reached lower p" using "3.prems"(3) to by simp
        moreover have "satisfied as" using "3.prems"(1) by simp
        ultimately show ?thesis
          using "3.IH"(2) [OF Some e [symmetric] refl False _ "3.prems"(2) _ scanned] by blast
      qed
    qed
  qed auto
  then show "result = PathFound \<Longrightarrow> le lower upper \<and> (rs \<longrightarrow> lt lower upper)"
    "result = PathPending pending' \<Longrightarrow> \<forall>p \<in> set pending'. reached lower p" by auto
qed

lemma literals_ordered_truth:
  assumes "literals_ordered fs strictly c u"
  shows "le c u" "strictly \<Longrightarrow> lt c u"
proof -
  let ?o = "if strictly then Less else LessEqual"
  from assms obtain x y where xy: "c = Literal x" "u = Literal y"
      "fold_values fs ?o x y = Inr (BooleanValue True)"
    by (auto simp: literals_ordered_def split: execution_condition.splits constant_value_kind.splits)
  obtain b where b: "truth (Operation ?o [c, u]) = Some b"
    using truth_ordered_literals [OF _ xy(3)] xy(1,2) by (cases strictly) auto
  then have b using truth_literals [OF _ xy(3), of b] by (simp add: xy is_comparison_def)
  with b have "if strictly then lt c u else le c u"
    using comparison_truth(1,2) [of ?o c u True] by auto
  then show "le c u" "strictly \<Longrightarrow> lt c u" by (auto split: if_splits)
qed

lemma path_loop_truth:
  assumes "fs' = fs" "satisfied as" "\<forall>p \<in> set pending. reached lower p"
    "path_loop fs' upper rs as pending visited budget = (True, budget')"
  shows "le lower upper \<and> (rs \<longrightarrow> lt lower upper)"
  using assms
proof (induction fs' upper rs as pending visited budget rule: path_loop.induct)
  case (2 fs' upper rs as c strict pending visited budget)
  have c: "reached lower (c, strict)" "\<forall>p \<in> set pending. reached lower p" using "2.prems"(3) by auto
  consider (literals) "literals_ordered fs (rs \<and> \<not> strict) c upper"
    | (visited) "\<not> literals_ordered fs (rs \<and> \<not> strict) c upper" "(c, strict) \<in> visited"
    | (scan) "\<not> literals_ordered fs (rs \<and> \<not> strict) c upper" "(c, strict) \<notin> visited" by blast
  then show ?case
  proof cases
    case literals
    then show ?thesis using reached_step [OF c(1), of upper "rs \<and> \<not> strict"] literals_ordered_truth by blast
  next
    case visited
    then show ?thesis using 2 by simp
  next
    case scan
    obtain result budget1 where r: "scan_edges upper rs c strict as pending budget = (result, budget1)" by fastforce
    note scanned = scan_edges_truth [OF "2.prems"(2) c r]
    show ?thesis
    proof (cases result)
      case PathFound
      then show ?thesis using scanned(1) by simp
    next
      case PathExhausted
      then show ?thesis using "2.prems"(1,4) scan r by simp
    next
      case (PathPending pending')
      then have "path_loop fs upper rs as pending' (insert (c, strict) visited) budget1 = (True, budget')"
        using "2.prems"(1,4) scan r by simp
      then show ?thesis
        using "2.IH"(2) [OF _ scan(2) r [symmetric] PathPending] "2.prems"(1,2) scan(1) scanned(2) PathPending
        by blast
    qed
  qed
qed simp

lemma ordered_path_truth:
  assumes "satisfied as" "ordered_path fs lower upper rs as budget = (True, budget')"
  shows "le lower upper" "rs \<Longrightarrow> lt lower upper"
proof -
  from assms(2) have "path_loop fs upper rs as [(lower, False)] {} budget = (True, budget')"
    by (simp only: ordered_path_def split: if_splits) simp
  from path_loop_truth [OF refl assms(1) _ this]
  show "le lower upper" "rs \<Longrightarrow> lt lower upper" by (auto simp: reached_def)
qed

subsection \<open>The prover is right\<close>

lemma equality_is_implied_truth:
  assumes "satisfied as" "equality_is_implied fs operator l r as budget = (Some b, budget')"
    "operator \<in> {Equal, NotEqual}" "truth (Operation operator [l, r]) = Some b'"
  shows "b' = b"
proof -
  have "lt l r \<or> lt r l"
    using assms(1,2) known_order [OF assms(1)] ordered_path_truth [OF assms(1), of _ _ True]
    by (auto simp: equality_is_implied_def Let_def split: if_splits prod.splits bool.splits)
  then have "\<not> eq l r" using lt_not_le eq_commute by blast
  moreover have "b = (operator = NotEqual)"
    using assms(2) by (auto simp: equality_is_implied_def Let_def split: if_splits prod.splits)
  ultimately show ?thesis using assms(3,4) comparison_truth(5,6) [OF assms(4)] by auto
qed

text \<open>One direction of the orderings: from the lower to the upper value.\<close>

lemma ordering_is_implied_cases:
  assumes "ordering_is_implied fs (strict, reversed, allows) l r as budget = (Some b, budget')"
  obtains
    (held) "b" "known fs as strict l r \<or> known fs as reversed r l
        \<or> known_unequal fs as l r \<and> (known fs as (weak_of strict) l r \<or> known fs as (weak_of reversed) r l)
        \<or> allows \<and> known_equal fs as l r"
  | (opposite) "\<not> b" "known fs as reversed l r \<or> known fs as strict r l"
  | (excluded) "\<not> b" "\<not> allows" "known fs as (weak_of reversed) l r \<or> known fs as (weak_of strict) r l
        \<or> known_equal fs as l r"
  | (path) budget1 budget2 where "b" "ordered_path fs (if strict = Less then l else r) (if strict = Less then r else l)
        (\<not> allows \<and> \<not> known_unequal fs as l r) as budget1 = (True, budget2)"
  | (reverse_path) budget1 budget2 where "\<not> b" "ordered_path fs (if strict = Less then r else l)
        (if strict = Less then l else r) allows as budget1 = (True, budget2)"
proof -
  note assms = assms [unfolded ordering_is_implied_def prod.case Let_def]
  let ?held = "known fs as strict l r \<or> known fs as reversed r l
        \<or> known_unequal fs as l r \<and> (known fs as (weak_of strict) l r \<or> known fs as (weak_of reversed) r l)
        \<or> allows \<and> known_equal fs as l r"
  let ?opposite = "known fs as reversed l r \<or> known fs as strict r l"
  let ?excluded = "\<not> allows \<and> (known fs as (weak_of reversed) l r \<or> known fs as (weak_of strict) r l
        \<or> known_equal fs as l r)"
  consider "?held" | "\<not> ?held" "?opposite" | "\<not> ?held" "\<not> ?opposite" "?excluded"
    | "\<not> ?held" "\<not> ?opposite" "\<not> ?excluded" by argo
  then show thesis
  proof cases
    case 1
    then show thesis using assms held by simp
  next
    case 2
    then show thesis using assms opposite unfolding if_not_P [OF 2(1)] if_P [OF 2(2)] by simp
  next
    case 3
    then show thesis using assms excluded unfolding if_not_P [OF 3(1)] if_not_P [OF 3(2)] if_P [OF 3(3)] by simp
  next
    case 4
    then show thesis using assms path reverse_path
      unfolding if_not_P [OF 4(1)] if_not_P [OF 4(2)] if_not_P [OF 4(3)]
      by (auto split: if_splits prod.splits bool.splits)
  qed
qed

lemma ordering_truth_equal:
  assumes "truth (Operation operator [l, r]) \<noteq> None" "operator \<in> {Less, LessEqual, Greater, GreaterEqual}"
  shows "truth (Operation Equal [l, r]) \<noteq> None"
proof -
  have "truth (Operation Less [l, r]) \<noteq> None \<or> truth (Operation Less [r, l]) \<noteq> None"
    using assms comparable_weak [of l r] comparable_weak [of r l] by (auto simp: greater greater_equal)
  then show ?thesis using comparable [of l r] comparable [of r l] equal_sym [of l r] by auto
qed

lemma ordering_is_implied_truth:
  assumes "satisfied as" "ordering_of operator = Some order3"
    "ordering_is_implied fs order3 l r as budget = (Some b, budget')"
    "truth (Operation operator [l, r]) = Some b'"
  shows "b' = b"
proof -
  obtain strict reversed allows where o3: "order3 = (strict, reversed, allows)" by (cases order3)
  let ?lower = "if strict = Less then l else r" and ?upper = "if strict = Less then r else l"
  have o: "strict = Less \<and> reversed = Greater \<or> strict = Greater \<and> reversed = Less"
      "operator \<in> {Less, LessEqual, Greater, GreaterEqual}"
    using assms(2) by (auto simp: ordering_of_def o3 split: bound_operator.splits)
  have b': "b' \<longleftrightarrow> (if allows then le ?lower ?upper else lt ?lower ?upper)"
    using assms(2) comparison_truth(1-4) [OF assms(4)]
    by (auto simp: ordering_of_def o3 eq_commute split: bound_operator.splits)
  have strictly: "known fs as strict l r \<or> known fs as reversed r l \<Longrightarrow> lt ?lower ?upper"
      "known fs as reversed l r \<or> known fs as strict r l \<Longrightarrow> lt ?upper ?lower"
    using o(1) known_order(1,2) [OF assms(1)] by auto
  have weakly: "known fs as (weak_of strict) l r \<or> known fs as (weak_of reversed) r l \<Longrightarrow> le ?lower ?upper"
      "known fs as (weak_of reversed) l r \<or> known fs as (weak_of strict) r l \<Longrightarrow> le ?upper ?lower"
    using o(1) known_order(3,4) [OF assms(1), of l r] known_order(3,4) [OF assms(1), of r l]
    by (elim disjE; simp add: weak_of_def)+
  have equal: "known_equal fs as l r \<Longrightarrow> eq ?lower ?upper"
    using known_equal_truth [OF assms(1)] ordering_truth_equal [OF _ o(2), of l r] assms(4) eq_commute by auto
  have unequal: "known_unequal fs as l r \<Longrightarrow> \<not> eq ?lower ?upper"
    using known_unequal_truth [OF assms(1)] eq_commute by auto
  from assms(3) [unfolded o3] show ?thesis
  proof (cases rule: ordering_is_implied_cases)
    case held
    then show ?thesis using b' strictly(1) weakly(1) equal unequal by auto
  next
    case opposite
    then show ?thesis using b' strictly(2) lt_not_le [of ?upper ?lower] by auto
  next
    case excluded
    then have "le ?upper ?lower" using weakly(2) equal eq_commute by blast
    then show ?thesis using b' excluded(1,2) lt_not_le [of ?lower ?upper] by auto
  next
    case (path budget1 budget2)
    then show ?thesis
      using b' unequal ordered_path_truth [OF assms(1) path(2)]
      by (cases allows; cases "known_unequal fs as l r") auto
  next
    case (reverse_path budget1 budget2)
    then show ?thesis
      using b' lt_not_le [of ?lower ?upper] lt_not_le [of ?upper ?lower] ordered_path_truth [OF assms(1) reverse_path(2)]
      by auto
  qed
qed

lemma reflexive_comparison_truth:
  assumes "eq l l" "reflexive_comparison operator = Some b" "truth (Operation operator [l, l]) = Some b'"
  shows "b' = b"
  using assms comparison_truth [OF assms(3)] less_irrefl
  by (auto simp: reflexive_comparison_def split: if_splits)

lemma comparison_is_implied_truth:
  assumes "satisfied as" "comparison_is_implied fs operator cs as budget = (Some b, budget')"
    "truth (Operation operator cs) = Some b'"
  shows "b' = b"
proof -
  from assms(2) obtain l r where cs: "cs = [l, r]"
    by (auto simp: comparison_is_implied_def split: list.splits)
  obtain reflexive budget1 where p:
    "(if l = r then positively_ordered l as budget else (False, budget)) = (reflexive, budget1)" by fastforce
  have implied: "(if reflexive then (reflexive_comparison operator, budget1)
      else if operator \<in> {Equal, NotEqual} then equality_is_implied fs operator l r as budget1
      else (case ordering_of operator of None \<Rightarrow> (None, budget1)
        | Some order3 \<Rightarrow> ordering_is_implied fs order3 l r as budget1)) = (Some b, budget')"
    using assms(2) by (simp add: comparison_is_implied_def cs p)
  show ?thesis
  proof (cases reflexive)
    case True
    then have "l = r" "eq l l"
      using p positively_ordered_truth [OF assms(1), of l budget budget1] by (auto split: if_splits)
    then show ?thesis using implied True reflexive_comparison_truth [of r operator b b'] assms(3) by (simp add: cs)
  next
    case False
    then show ?thesis
      using implied assms(3) equality_is_implied_truth [OF assms(1)] ordering_is_implied_truth [OF assms(1)]
      by (auto simp: cs split: if_splits option.splits)
  qed
qed

lemma inverse_known_truth:
  assumes "satisfied as" "inverse_known operator cs as = Some b" "truth (Operation operator cs) = Some b'"
  shows "b' = b"
  using assms satisfiedD [OF assms(1)] not_equal
  by (fastforce simp: inverse_known_def Let_def split: if_splits)

lemma other_variant_known_truth:
  assumes "satisfied as" "other_variant_known v c as" "truth (VariantTest v c) = Some b"
  shows "\<not> b"
proof -
  from assms(2) obtain x where x: "x \<in> set as"
      "case x of (VariantTest w d, True) \<Rightarrow> w \<noteq> v \<and> d = c | _ \<Rightarrow> False"
    by (auto simp: other_variant_known_def list_ex_iff)
  obtain d h where "x = (d, h)" by (cases x)
  with x(2) obtain w where "x = (VariantTest w c, True)" "w \<noteq> v"
    by (cases d; cases h) auto
  with x(1) show ?thesis using satisfiedD [OF assms(1)] truth_variant assms(3) by metis
qed

lemma both_Some: "both p q = Some b \<longleftrightarrow>
    (if b then p = Some True \<and> q = Some True else p = Some False \<or> q = Some False)"
  by (auto simp: both_def)

lemma either_Some: "either p q = Some b \<longleftrightarrow>
    (if b then p = Some True \<or> q = Some True else p = Some False \<and> q = Some False)"
  by (auto simp: either_def)

lemma both_truth:
  assumes "truth (Operation LogicalAnd [l, r]) = Some b'" "both p q = Some b"
    "\<And>c d. truth l = Some c \<Longrightarrow> p = Some d \<Longrightarrow> c = d" "\<And>c d. truth r = Some c \<Longrightarrow> q = Some d \<Longrightarrow> c = d"
  shows "b' = b"
  using truth_and [OF assms(1)] assms(2-4) unfolding both_Some by metis

lemma either_truth:
  assumes "truth (Operation LogicalOr [l, r]) = Some b'" "either p q = Some b"
    "\<And>c d. truth l = Some c \<Longrightarrow> p = Some d \<Longrightarrow> c = d" "\<And>c d. truth r = Some c \<Longrightarrow> q = Some d \<Longrightarrow> c = d"
  shows "b' = b"
  using truth_or [OF assms(1)] assms(2-4) unfolding either_Some by metis

text \<open>Whatever the prover decides from known truths is the truth.\<close>

lemma prove_truth:
  assumes "satisfied as"
  shows "prove fs as c budget = (Some b, budget') \<Longrightarrow> truth c = Some b' \<Longrightarrow> b' = b"
proof (induction "size c" arbitrary: c budget budget' b b' rule: less_induct)
  case less
  have smaller: "prove fs as x n = (Some d, n') \<Longrightarrow> truth x = Some d' \<Longrightarrow> size x < size c \<Longrightarrow> d' = d"
    for x n d n' d' using less.hyps by blast
  from less.prems(1) show ?case
  proof (cases rule: prove_result_cases)
    case entry
    then show ?thesis using smaller less.prems(2) by (auto simp: truth_entry)
  next
    case boolean
    then show ?thesis using less.prems(2) by (simp add: truth_boolean)
  next
    case known
    then show ?thesis using satisfiedD [OF assms known] less.prems(2) by simp
  next
    case variant
    then show ?thesis using other_variant_known_truth [OF assms] less.prems(2) by blast
  next
    case comparison
    then show ?thesis using comparison_is_implied_truth [OF assms] less.prems(2) by blast
  next
    case inverse
    then show ?thesis using inverse_known_truth [OF assms] less.prems(2) by blast
  next
    case (negation x n n')
    then have "truth x = Some (\<not> b')" using less.prems(2) negation_truth [of x "[]" b'] by simp
    then show ?thesis using smaller [OF negation(2)] negation(1) by auto
  next
    case (conjunction l r p q n n' m m')
    have "\<And>c' d. truth l = Some c' \<Longrightarrow> p = Some d \<Longrightarrow> c' = d" "\<And>c' d. truth r = Some c' \<Longrightarrow> q = Some d \<Longrightarrow> c' = d"
      using smaller conjunction(1-3) by auto
    then show ?thesis using both_truth [OF _ conjunction(4)] less.prems(2) conjunction(1) by blast
  next
    case (disjunction l r p q n n' m m')
    have "\<And>c' d. truth l = Some c' \<Longrightarrow> p = Some d \<Longrightarrow> c' = d" "\<And>c' d. truth r = Some c' \<Longrightarrow> q = Some d \<Longrightarrow> c' = d"
      using smaller disjunction(1-3) by auto
    then show ?thesis using either_truth [OF _ disjunction(4)] less.prems(2) disjunction(1) by blast
  qed
qed

lemma prove_mixed_truth:
  assumes "satisfied trusted" "satisfied ordinary"
  shows "prove_mixed fs trusted ordinary c budget = (Some b, budget') \<Longrightarrow> truth c = Some b' \<Longrightarrow> b' = b"
proof (induction "size c" arbitrary: c budget budget' b b' rule: less_induct)
  case less
  have smaller: "prove_mixed fs trusted ordinary x n = (Some d, n') \<Longrightarrow> truth x = Some d' \<Longrightarrow> size x < size c \<Longrightarrow> d' = d"
    for x n d n' d' using less.hyps by blast
  from less.prems(1) show ?case
  proof (cases rule: prove_mixed_result_cases)
    case entry
    then show ?thesis using smaller less.prems(2) by (auto simp: truth_entry)
  next
    case boolean
    then show ?thesis using less.prems(2) by (simp add: truth_boolean)
  next
    case evidence
    then show ?thesis using satisfiedD [OF assms(1)] satisfiedD [OF assms(2)] less.prems(2) by fastforce
  next
    case trusted
    then show ?thesis using prove_truth [OF assms(1)] less.prems(2) by blast
  next
    case ordinary
    then show ?thesis using prove_truth [OF assms(2)] less.prems(2) by blast
  next
    case (negation x n n')
    then have "truth x = Some (\<not> b')" using less.prems(2) negation_truth [of x "[]" b'] by simp
    then show ?thesis using smaller [OF negation(2)] negation(1) by auto
  next
    case (conjunction l r p q n n' m m')
    have "\<And>c' d. truth l = Some c' \<Longrightarrow> p = Some d \<Longrightarrow> c' = d" "\<And>c' d. truth r = Some c' \<Longrightarrow> q = Some d \<Longrightarrow> c' = d"
      using smaller conjunction(1-3) by auto
    then show ?thesis using both_truth [OF _ conjunction(4)] less.prems(2) conjunction(1) by blast
  next
    case (disjunction l r p q n n' m m')
    have "\<And>c' d. truth l = Some c' \<Longrightarrow> p = Some d \<Longrightarrow> c' = d" "\<And>c' d. truth r = Some c' \<Longrightarrow> q = Some d \<Longrightarrow> c' = d"
      using smaller disjunction(1-3) by auto
    then show ?thesis using either_truth [OF _ disjunction(4)] less.prems(2) disjunction(1) by blast
  qed
qed

text \<open>Assuming a condition that is true inserts only what is true.\<close>

lemma assumed_operands:
  assumes "truth (Operation operator cs) = Some b" "operator = LogicalAnd \<and> b \<or> operator = LogicalOr \<and> \<not> b"
  shows "\<forall>x \<in> set cs. truth x = Some b"
proof -
  have "length cs = 2" using assms truth_operation [of operator cs] by (auto simp: is_comparison_def)
  then obtain l r where "cs = [l, r]" by (auto simp: length_Suc_conv numeral_2_eq_2)
  then show ?thesis using assms truth_and [of l r b] truth_or [of l r b] by auto
qed

lemma assume_with_truth: "truth c = Some b \<Longrightarrow> satisfied (assume_with c b)"
proof (induction c b rule: assume_with.induct)
  case (1 c b)
  show ?case
  proof (cases "is_unknown c")
    case True
    then show ?thesis by (simp add: assume_with.simps)
  next
    case known: False
    show ?thesis
    proof (cases c)
      case (Operation operator cs)
      consider (negation) "operator = LogicalNot \<and> length cs = 1"
        | (split) "\<not> (operator = LogicalNot \<and> length cs = 1)" "operator = LogicalAnd \<and> b \<or> operator = LogicalOr \<and> \<not> b"
        | (other) "\<not> (operator = LogicalNot \<and> length cs = 1)"
            "\<not> (operator = LogicalAnd \<and> b \<or> operator = LogicalOr \<and> \<not> b)" by blast
      then show ?thesis
      proof cases
        case negation
        then obtain x where "cs = [x]" by (auto simp: length_Suc_conv)
        then show ?thesis
          using "1.IH"(1) [OF known Operation negation] "1.prems" negation_truth [of x "[]" b]
          by (subst assume_with.simps) (use known Operation negation in simp)
      next
        case split
        have "satisfied (assume_with x b)" if "x \<in> set cs" for x
          using "1.IH"(2) [OF known Operation split that] assumed_operands [of operator cs b] "1.prems" Operation split(2) that
          by simp
        moreover have "assume_with c b = concat (map (\<lambda>x. assume_with x b) cs)"
          using split known Operation by (subst assume_with.simps) auto
        ultimately show ?thesis by auto
      next
        case other
        then have "assume_with c b = (if \<not> contains_unknown c then [(c, b)] else [])"
          using known Operation by (subst assume_with.simps) auto
        then show ?thesis using "1.prems" by simp
      qed
    next
      case (Trusted x)
      then show ?thesis
        using "1.IH"(3) [OF known Trusted] "1.prems" known by (subst assume_with.simps) (auto simp: truth_trusted)
    next
      case (Entry x captured)
      show ?thesis
      proof (cases "captured \<and> \<not> contains_trusted x \<and> \<not> observes_borrowed x")
        case True
        then have "assume_with c b = assume_with x b" using known Entry by (subst assume_with.simps) simp
        moreover have "satisfied (assume_with x b)"
          using "1.IH"(4) [OF known Entry _ conjunct2 [OF True]] True "1.prems" Entry by (simp add: truth_entry)
        ultimately show ?thesis by metis
      next
        case False
        then have "assume_with c b = (if \<not> contains_unknown c then [(c, b)] else [])"
          using known Entry by (subst assume_with.simps) (auto split: bool.splits)
        then show ?thesis using "1.prems" by simp
      qed
    qed (use known "1.prems" in \<open>subst assume_with.simps, simp\<close>)+
  qed
qed

end

end
