(* ===== verification/Condition_Evaluation.thy ===== *)
theory Condition_Evaluation
  imports Condition_Semantics
begin

text \<open>
  An evaluator of conditions, on which the laws of \<open>condition_semantics\<close> hold: an environment gives the
  values of inputs, calls and other terms that the prover does not look into, and operations on values
  are computed by constant folding. What the prover decides about a condition is therefore what
  evaluating it yields, in every environment in which the known facts evaluate to what is known of them.
\<close>

subsection \<open>Evaluation\<close>

type_synonym kind = "nat constant_value_kind"

definition fold_kinds :: "folders \<Rightarrow> bound_operator \<Rightarrow> kind \<Rightarrow> kind \<Rightarrow> nat folding" where
  "fold_kinds fs operator x y =
     fold_binary (folder_bytes fs) (fold_real_binary (folder_floats fs)) (fold_complex_binary (folder_floats fs))
       operator x y integer_bits_default"

text \<open>A truth value is compared with truth values only.\<close>

definition is_boolean :: "kind \<Rightarrow> bool" where
  "is_boolean x = (case x of BooleanValue _ \<Rightarrow> True | _ \<Rightarrow> False)"

definition apply_binary :: "folders \<Rightarrow> bound_operator \<Rightarrow> kind option \<Rightarrow> kind option \<Rightarrow> kind option" where
  "apply_binary fs operator l r = (case operator of
     LogicalAnd \<Rightarrow> (case l of
         Some (BooleanValue b) \<Rightarrow> (if b then (case r of Some (BooleanValue c) \<Rightarrow> Some (BooleanValue c) | _ \<Rightarrow> None)
           else Some (BooleanValue False))
       | _ \<Rightarrow> None)
   | LogicalOr \<Rightarrow> (case l of
         Some (BooleanValue b) \<Rightarrow> (if b then Some (BooleanValue True)
           else (case r of Some (BooleanValue c) \<Rightarrow> Some (BooleanValue c) | _ \<Rightarrow> None))
       | _ \<Rightarrow> None)
   | _ \<Rightarrow> (case (l, r) of
       (Some x, Some y) \<Rightarrow> (if is_boolean x = is_boolean y
         then (case fold_kinds fs operator x y of Inr v \<Rightarrow> Some v | Inl _ \<Rightarrow> None) else None)
     | _ \<Rightarrow> None))"

definition apply_unary :: "bound_operator \<Rightarrow> kind option \<Rightarrow> kind option" where
  "apply_unary operator x = Option.bind x (\<lambda>v. case (operator, v) of
     (LogicalNot, BooleanValue b) \<Rightarrow> Some (BooleanValue (\<not> b))
   | _ \<Rightarrow> fold_numeric_sign operator v)"

type_synonym environment = "execution_condition \<Rightarrow> kind option"

fun eval_condition :: "folders \<Rightarrow> environment \<Rightarrow> execution_condition \<Rightarrow> kind option" where
  "eval_condition fs env (Boolean b) = Some (BooleanValue b)"
| "eval_condition fs env (Literal d) = Some (value_kind d)"
| "eval_condition fs env Unknown = None"
| "eval_condition fs env (Entry c _) = eval_condition fs env c"
| "eval_condition fs env (Trusted c) = eval_condition fs env c"
| "eval_condition fs env (Borrowed c) = eval_condition fs env c"
| "eval_condition fs env (VariantTest variant c) = (case eval_condition fs env c of
     Some (UnionValue active _) \<Rightarrow> Some (BooleanValue (active = variant)) | _ \<Rightarrow> None)"
| "eval_condition fs env (PresentValue c) = (case env (PresentValue c) of
     Some NullableAbsent \<Rightarrow> None | v \<Rightarrow> v)"
| "eval_condition fs env (Constructed base parts) = (case component_base base parts of
     Literal d \<Rightarrow> Some (value_kind d)
   | Boolean b \<Rightarrow> Some (BooleanValue b)
   | _ \<Rightarrow> if list_all (\<lambda>f. fst f = StorageNullableValue) parts then eval_condition fs env base
          else env (Constructed base parts))"
| "eval_condition fs env (Operation operator cs) = (case map (eval_condition fs env) cs of
     [x] \<Rightarrow> apply_unary operator x
   | [l, r] \<Rightarrow> apply_binary fs operator l r
   | _ \<Rightarrow> None)"
| "eval_condition fs env c = env c"

definition truth_value :: "kind option \<Rightarrow> bool option" where
  "truth_value v = (case v of Some (BooleanValue b) \<Rightarrow> Some b | _ \<Rightarrow> None)"

definition condition_truth :: "folders \<Rightarrow> environment \<Rightarrow> execution_condition \<Rightarrow> bool option" where
  "condition_truth fs env c = truth_value (eval_condition fs env c)"

subsection \<open>Comparing values by their keys\<close>

datatype comparison_key =
    IntegerKey int
  | CharacterKey nat
  | StringKey string
  | RealKey float_format int
  | ComplexKey float_format int float_format int
  | OtherKey kind

definition key :: "kind \<Rightarrow> comparison_key option" where
  "key x = (case x of
     IntegerValue n \<Rightarrow> Some (IntegerKey (to_big_integer n))
   | CharacterValue c \<Rightarrow> Some (CharacterKey c)
   | StringValue s \<Rightarrow> Some (StringKey s)
   | RealValue r \<Rightarrow> map_option (RealKey (format_of r)) (real_rank r)
   | ComplexValue re im \<Rightarrow> (case (real_rank re, real_rank im) of
       (Some a, Some b) \<Rightarrow> Some (ComplexKey (format_of re) a (format_of im) b) | _ \<Rightarrow> None)
   | _ \<Rightarrow> Some (OtherKey x))"

definition key_less :: "comparison_key \<Rightarrow> comparison_key \<Rightarrow> bool" where
  "key_less k l = (case (k, l) of
     (IntegerKey a, IntegerKey b) \<Rightarrow> a < b
   | (CharacterKey a, CharacterKey b) \<Rightarrow> a < b
   | (StringKey a, StringKey b) \<Rightarrow> a < b
   | (RealKey f a, RealKey g b) \<Rightarrow> f = g \<and> a < b
   | _ \<Rightarrow> False)"

lemma key_less_trans: "key_less k l \<Longrightarrow> key_less l m \<Longrightarrow> key_less k m"
  by (cases k; cases l; cases m) (auto simp: key_less_def)

lemma key_less_irrefl: "\<not> key_less k k"
  by (cases k) (auto simp: key_less_def)

text \<open>When two values can be compared for equality, and when they can be ordered.\<close>

definition equality_defined :: "kind \<Rightarrow> kind \<Rightarrow> bool" where
  "equality_defined x y = (case (x, y) of
     (RealValue l, RealValue r) \<Rightarrow> format_of l = format_of r
   | (ComplexValue lr li, ComplexValue rr ri) \<Rightarrow>
       format_of lr = format_of rr \<and> (ranks_compare Equal (real_rank lr) (real_rank rr) \<longrightarrow> format_of li = format_of ri)
   | _ \<Rightarrow> is_boolean x = is_boolean y)"

definition ordering_defined :: "kind \<Rightarrow> kind \<Rightarrow> bool" where
  "ordering_defined x y = (case (x, y) of
     (IntegerValue _, IntegerValue _) \<Rightarrow> True
   | (CharacterValue _, CharacterValue _) \<Rightarrow> True
   | (StringValue _, StringValue _) \<Rightarrow> True
   | (RealValue l, RealValue r) \<Rightarrow> format_of l = format_of r
   | _ \<Rightarrow> False)"

definition keys_equal :: "kind \<Rightarrow> kind \<Rightarrow> bool" where
  "keys_equal x y \<longleftrightarrow> key x \<noteq> None \<and> key x = key y"

definition keys_less :: "kind \<Rightarrow> kind \<Rightarrow> bool" where
  "keys_less x y = (case (key x, key y) of (Some k, Some l) \<Rightarrow> key_less k l | _ \<Rightarrow> False)"

text \<open>What each comparison of two values yields, when it yields anything.\<close>

definition keys_compare :: "bound_operator \<Rightarrow> kind \<Rightarrow> kind \<Rightarrow> bool option" where
  "keys_compare operator x y = (case operator of
     Equal \<Rightarrow> if equality_defined x y then Some (keys_equal x y) else None
   | NotEqual \<Rightarrow> if equality_defined x y then Some (\<not> keys_equal x y) else None
   | Less \<Rightarrow> if ordering_defined x y then Some (keys_less x y) else None
   | LessEqual \<Rightarrow> if ordering_defined x y then Some (keys_less x y \<or> keys_equal x y) else None
   | Greater \<Rightarrow> if ordering_defined x y then Some (keys_less y x) else None
   | GreaterEqual \<Rightarrow> if ordering_defined x y then Some (keys_less y x \<or> keys_equal x y) else None
   | _ \<Rightarrow> None)"

lemma integer_comparison_key:
  assumes "is_comparison operator"
  shows "fold_integer_binary to_bytes operator l r maximum =
    (case keys_compare operator (IntegerValue l) (IntegerValue r) of Some b \<Rightarrow> Inr (BooleanValue b) | None \<Rightarrow> Inl Invalid)"
  using assms
  by (auto simp: is_comparison_def fold_integer_binary_def Let_def keys_compare_def keys_less_def keys_equal_def
      key_def key_less_def ordering_defined_def equality_defined_def is_boolean_def)

lemma character_comparison_key:
  assumes "is_comparison operator"
  shows "fold_ordered operator l r =
    (case keys_compare operator (CharacterValue l) (CharacterValue r) of Some b \<Rightarrow> Inr (BooleanValue b) | None \<Rightarrow> Inl Invalid)"
  using assms
  by (auto simp: is_comparison_def fold_ordered_def keys_compare_def keys_less_def keys_equal_def
      key_def key_less_def ordering_defined_def equality_defined_def is_boolean_def)

lemma string_comparison_key:
  assumes "is_comparison operator"
  shows "fold_ordered operator l r =
    (case keys_compare operator (StringValue l) (StringValue r) of Some b \<Rightarrow> Inr (BooleanValue b) | None \<Rightarrow> Inl Invalid)"
  using assms
  by (auto simp: is_comparison_def fold_ordered_def keys_compare_def keys_less_def keys_equal_def
      key_def key_less_def ordering_defined_def equality_defined_def is_boolean_def)

lemma real_comparison_key:
  assumes "ieee_ordering lib" "is_comparison operator"
  shows "fold_real_binary lib operator l r = (case keys_compare operator (RealValue l) (RealValue r) of
    Some b \<Rightarrow> Inr (BooleanValue b) | None \<Rightarrow> Inl Invalid)"
  using assms(2) fold_real_comparison [OF assms(1), of operator l r]
  by (cases "real_rank l"; cases "real_rank r")
    (auto simp: is_comparison_def ranks_compare_def keys_compare_def keys_less_def keys_equal_def
      key_def key_less_def ordering_defined_def equality_defined_def)

lemma complex_comparison_key:
  assumes "ieee_ordering lib" "is_comparison operator"
  shows "fold_complex_binary lib operator (lr, li) (rr, ri) =
    (case keys_compare operator (ComplexValue lr li) (ComplexValue rr ri) of
      Some b \<Rightarrow> Inr (BooleanValue b) | None \<Rightarrow> Inl Invalid)"
proof (cases "operator \<in> {Equal, NotEqual}")
  case True
  then show ?thesis
    using fold_complex_equality [OF assms(1) True, of lr li rr ri]
    by (cases "real_rank lr"; cases "real_rank rr"; cases "real_rank li"; cases "real_rank ri")
      (auto simp: ranks_compare_def keys_compare_def keys_equal_def key_def equality_defined_def)
next
  case False
  with assms(2) show ?thesis
    by (auto simp: is_comparison_def fold_complex_binary_def keys_compare_def ordering_defined_def)
qed

text \<open>Values without an order of their own are compared as they are.\<close>

definition scalar :: "kind \<Rightarrow> bool" where
  "scalar x = (case x of IntegerValue _ \<Rightarrow> True | CharacterValue _ \<Rightarrow> True | StringValue _ \<Rightarrow> True
     | RealValue _ \<Rightarrow> True | ComplexValue _ _ \<Rightarrow> True | _ \<Rightarrow> False)"

lemma keys_equal_other:
  "\<not> scalar x \<Longrightarrow> keys_equal x y \<longleftrightarrow> x = y" "\<not> scalar y \<Longrightarrow> keys_equal x y \<longleftrightarrow> x = y"
proof -
  have other: "\<not> scalar v \<Longrightarrow> key v = Some (OtherKey v)" for v
    by (cases v) (auto simp: scalar_def key_def)
  have scalar_key: "scalar v \<Longrightarrow> key v \<noteq> Some (OtherKey w)" for v w
    by (cases v) (auto simp: scalar_def key_def split: option.splits)
  show "\<not> scalar x \<Longrightarrow> keys_equal x y \<longleftrightarrow> x = y" "\<not> scalar y \<Longrightarrow> keys_equal x y \<longleftrightarrow> x = y"
    using other [of x] other [of y] scalar_key [of x y] scalar_key [of y x]
    by (cases "scalar x"; cases "scalar y"; auto simp: keys_equal_def)+
qed

definition same_scalar :: "kind \<Rightarrow> kind \<Rightarrow> bool" where
  "same_scalar x y = (case (x, y) of
     (IntegerValue _, IntegerValue _) \<Rightarrow> True | (CharacterValue _, CharacterValue _) \<Rightarrow> True
   | (StringValue _, StringValue _) \<Rightarrow> True | (RealValue _, RealValue _) \<Rightarrow> True
   | (ComplexValue _ _, ComplexValue _ _) \<Rightarrow> True | _ \<Rightarrow> False)"

lemma keys_equal_different:
  assumes "\<not> same_scalar x y"
  shows "keys_equal x y \<longleftrightarrow> x = y"
proof (cases "scalar x \<and> scalar y")
  case True
  with assms show ?thesis
    by (cases x; cases y) (auto simp: scalar_def same_scalar_def keys_equal_def key_def dest!: sym [of "Some _"]
        split: option.splits)
qed (use keys_equal_other in blast)

lemma fold_kinds_comparison:
  assumes "ieee_ordering (folder_floats fs)" "is_comparison operator" "is_boolean x = is_boolean y"
  shows "(case fold_kinds fs operator x y of Inr v \<Rightarrow> Some v | Inl _ \<Rightarrow> None) =
    map_option BooleanValue (keys_compare operator x y)"
proof (cases "same_scalar x y")
  case True
  note folds = integer_comparison_key [OF assms(2)] character_comparison_key [OF assms(2)]
    string_comparison_key [OF assms(2)] real_comparison_key [OF assms(1,2)] complex_comparison_key [OF assms(1,2)]
  show ?thesis
    using True
    by (cases x; cases y) (auto simp: same_scalar_def fold_kinds_def fold_binary_def folds split: option.split)
next
  case False
  then have unordered: "\<not> ordering_defined x y"
    by (cases x; cases y) (auto simp: same_scalar_def ordering_defined_def)
  have equality: "equality_defined x y"
    using False assms(3) by (cases x; cases y) (auto simp: same_scalar_def equality_defined_def is_boolean_def)
  have "fold_kinds fs operator x y =
      (if operator = Equal then Inr (BooleanValue (x = y))
       else if operator = NotEqual then Inr (BooleanValue (x \<noteq> y)) else Inl Invalid)"
    using False assms(2,3)
    by (cases x; cases y) (auto simp: fold_kinds_def fold_binary_def same_scalar_def is_boolean_def is_comparison_def
        fold_boolean_binary_def)
  then show ?thesis
    using assms(2) unordered equality keys_equal_different [OF False]
    by (auto simp: keys_compare_def is_comparison_def)
qed

lemma apply_comparison:
  assumes "ieee_ordering (folder_floats fs)" "is_comparison operator"
  shows "apply_binary fs operator (Some x) (Some y) = map_option BooleanValue (keys_compare operator x y)"
proof (cases "is_boolean x = is_boolean y")
  case True
  then show ?thesis
    using fold_kinds_comparison [OF assms True] assms(2) by (auto simp: apply_binary_def is_comparison_def)
next
  case False
  then have "\<not> equality_defined x y" "\<not> ordering_defined x y"
    by (cases x; cases y; auto simp: equality_defined_def ordering_defined_def is_boolean_def)+
  then show ?thesis using False assms(2) by (auto simp: apply_binary_def is_comparison_def keys_compare_def)
qed

text \<open>Only comparisons and the logical operators yield truth values.\<close>

lemma fold_kinds_boolean:
  assumes "fold_kinds fs operator x y = Inr (BooleanValue b)" "operator \<noteq> LogicalAnd" "operator \<noteq> LogicalOr"
  shows "is_comparison operator"
proof -
  have real: "fold_real_binary lib operator l r = Inr (BooleanValue b) \<Longrightarrow> is_comparison operator" for lib l r
    by (auto simp: fold_real_binary_def fold_float_def Let_def real_result_def bind_result_def is_comparison_def
        split: real_constant_bits.splits bound_operator.splits sum.splits if_splits)
  have complex: "fold_complex_binary lib operator l r = Inr (BooleanValue b) \<Longrightarrow> is_comparison operator" for lib l r
    by (auto simp: fold_complex_binary_def bind_result_def is_comparison_def
        split: prod.splits sum.splits if_splits)
  have integer: "fold_integer_binary to_bytes operator l r maximum = Inr (BooleanValue b) \<Longrightarrow> is_comparison operator"
    for to_bytes l r maximum
    by (cases operator) (auto simp: fold_integer_binary_def Let_def is_comparison_def split: sum.splits if_splits)
  have ordered: "fold_ordered operator (l :: nat) r = Inr (BooleanValue b) \<Longrightarrow> is_comparison operator" for l r
    by (cases operator) (simp_all add: fold_ordered_def is_comparison_def)
  have ordered_string: "fold_ordered operator (l :: string) r = Inr (BooleanValue b) \<Longrightarrow> is_comparison operator" for l r
    by (cases operator) (simp_all add: fold_ordered_def is_comparison_def)
  have boolean: "fold_boolean_binary operator l r = Inr (BooleanValue b) \<Longrightarrow> is_comparison operator" for l r
    using assms(2,3) by (cases operator) (simp_all add: fold_boolean_binary_def is_comparison_def)
  have equality: "is_comparison Equal" "is_comparison NotEqual" by (simp_all add: is_comparison_def)
  show ?thesis
    using assms(1) unfolding fold_kinds_def fold_binary_def
    by (cases x; cases y)
      (simp_all add: equality real complex integer ordered ordered_string boolean split: if_splits)
qed

subsection \<open>The evaluator obeys the laws\<close>

lemma comparison_condition_truth:
  assumes "ieee_ordering (folder_floats fs)" "is_comparison operator"
  shows "condition_truth fs env (Operation operator [l, r]) =
    (case (eval_condition fs env l, eval_condition fs env r) of
       (Some x, Some y) \<Rightarrow> keys_compare operator x y | _ \<Rightarrow> None)"
proof (cases "eval_condition fs env l = None \<or> eval_condition fs env r = None")
  case True
  then show ?thesis
    using assms(2) by (auto simp: condition_truth_def truth_value_def apply_binary_def is_comparison_def split: option.splits)
next
  case False
  then obtain x y where "eval_condition fs env l = Some x" "eval_condition fs env r = Some y" by auto
  then show ?thesis
    using apply_comparison [OF assms, of x y]
    by (cases "keys_compare operator x y") (simp_all add: condition_truth_def truth_value_def)
qed

lemma eval_literal_contents: "eval_condition fs env (literal_contents c) = eval_condition fs env c"
  by (cases c) (auto simp: literal_contents_def split: execution_condition.splits)

lemma operation_condition_truth:
  assumes "condition_truth fs env (Operation operator cs) \<noteq> None"
  shows "(operator = LogicalNot \<and> length cs = 1)
    \<or> (length cs = 2 \<and> (operator = LogicalAnd \<or> operator = LogicalOr \<or> is_comparison operator))"
proof -
  consider x where "cs = [x]" | l r where "cs = [l, r]"
    using assms by (cases cs rule: remdups_adj.cases) (auto simp: condition_truth_def truth_value_def split: list.splits)
  then show ?thesis
  proof cases
    case (1 x)
    then show ?thesis
      using assms
      by (auto simp: condition_truth_def truth_value_def apply_unary_def fold_numeric_sign_def
          split: option.splits constant_value_kind.splits bound_operator.splits bind_splits)
  next
    case (2 l r)
    show ?thesis
    proof (cases "operator = LogicalAnd \<or> operator = LogicalOr")
      case False
      with assms 2 obtain x y b where "fold_kinds fs operator x y = Inr (BooleanValue b)"
        by (cases operator)
          (auto simp: condition_truth_def truth_value_def apply_binary_def
            split: option.splits constant_value_kind.splits if_splits sum.splits)
      then show ?thesis using fold_kinds_boolean False 2 by auto
    qed (use 2 in auto)
  qed
qed

lemma equality_defined_sym: "equality_defined x y = equality_defined y x"
  by (cases x; cases y) (auto simp: equality_defined_def is_boolean_def ranks_compare_def split: option.splits)

lemma ordering_defined_sym: "ordering_defined x y = ordering_defined y x"
  by (cases x; cases y) (auto simp: ordering_defined_def)

lemma ordering_equality_defined: "ordering_defined x y \<Longrightarrow> equality_defined x y"
  by (cases x; cases y) (auto simp: ordering_defined_def equality_defined_def is_boolean_def)

lemma keys_equal_sym: "keys_equal x y = keys_equal y x"
  unfolding keys_equal_def by metis

lemma keys_equal_trans: "keys_equal x y \<Longrightarrow> keys_equal y z \<Longrightarrow> keys_equal x z"
  unfolding keys_equal_def by metis

lemma keys_less_trans: "keys_less x y \<Longrightarrow> keys_less y z \<Longrightarrow> keys_less x z"
  by (auto simp: keys_less_def split: option.splits intro: key_less_trans)

lemma keys_less_equal_trans: "keys_less x y \<Longrightarrow> keys_equal y z \<Longrightarrow> keys_less x z"
  "keys_equal x y \<Longrightarrow> keys_less y z \<Longrightarrow> keys_less x z"
  by (auto simp: keys_less_def keys_equal_def split: option.splits)

lemma keys_less_irrefl: "\<not> keys_less x x"
  by (auto simp: keys_less_def key_less_irrefl split: option.splits)

lemma keys_less_self: "keys_less x y \<Longrightarrow> keys_equal x x \<and> keys_equal y y"
  by (auto simp: keys_less_def keys_equal_def split: option.splits)

text \<open>What is equal or less can be compared.\<close>

lemma keys_equal_defined: "keys_equal x y \<Longrightarrow> equality_defined x y"
proof (cases "same_scalar x y")
  case True
  assume "keys_equal x y"
  with True show ?thesis
    by (cases x; cases y)
      (auto simp: same_scalar_def keys_equal_def key_def equality_defined_def is_boolean_def split: option.splits)
next
  case False
  assume "keys_equal x y"
  with False have "x = y" using keys_equal_different by blast
  then show ?thesis by (cases x) (auto simp: equality_defined_def is_boolean_def)
qed

lemma keys_less_defined: "keys_less x y \<Longrightarrow> ordering_defined x y"
proof -
  assume less: "keys_less x y"
  then obtain k l where k: "key x = Some k" "key y = Some l" "key_less k l"
    by (auto simp: keys_less_def split: option.splits)
  have "same_scalar x y"
  proof (rule ccontr)
    assume different: "\<not> same_scalar x y"
    show False
      using k different
      by (cases k; cases l)
        (auto simp: key_less_def key_def same_scalar_def split: constant_value_kind.splits option.splits)
  qed
  with less show ?thesis
    by (cases x; cases y)
      (auto simp: same_scalar_def ordering_defined_def keys_less_def key_def key_less_def split: option.splits)
qed

lemma condition_truth_negation:
  "condition_truth fs env (Operation LogicalNot [c]) = map_option Not (condition_truth fs env c)"
  by (auto simp: condition_truth_def truth_value_def apply_unary_def fold_numeric_sign_def bind_eq_None_conv
      split: option.splits constant_value_kind.splits)

lemma condition_truth_connectives:
  "condition_truth fs env (Operation LogicalAnd [l, r]) = Some b \<Longrightarrow>
     condition_truth fs env l = Some False \<and> \<not> b \<or> condition_truth fs env l = Some True \<and> condition_truth fs env r = Some b"
  "condition_truth fs env (Operation LogicalOr [l, r]) = Some b \<Longrightarrow>
     condition_truth fs env l = Some True \<and> b \<or> condition_truth fs env l = Some False \<and> condition_truth fs env r = Some b"
  by (auto simp: condition_truth_def truth_value_def apply_binary_def
      split: option.splits constant_value_kind.splits if_splits)

lemma fold_values_kinds: "fold_values fs operator l r = fold_kinds fs operator (value_kind l) (value_kind r)"
  by (simp add: fold_values_def fold_kinds_def)

lemma eval_nullable_subject:
  assumes "nullable_subject cs = Some (subject, absent)"
  shows "\<exists>d. absent = Literal d \<and> (\<exists>c. eval_condition fs env c = eval_condition fs env subject
    \<and> (cs = [c, absent] \<or> cs = [absent, c]))"
proof -
  have payload: "list_all (\<lambda>f. fst f = StorageNullableValue) parts \<Longrightarrow>
      eval_condition fs env (Constructed base parts) = eval_condition fs env base" for base parts
  proof -
    assume all: "list_all (\<lambda>f. fst f = StorageNullableValue) parts"
    then have "List.find (\<lambda>f. fst f = OwnedTarget) parts = None"
      by (auto simp: find_None_iff list_all_iff)
    then have "component_base base parts = base" by (simp add: component_base_def)
    with all show ?thesis by (auto split: execution_condition.splits)
  qed
  show ?thesis
    using assms unfolding nullable_subject_def Let_def
    by (auto split: list.splits execution_condition.splits if_splits
        simp: payload eval_condition.simps(6) simp del: eval_condition.simps(9))
qed

lemma ordered_kinds:
  assumes "fold_kinds fs operator x y = Inr (BooleanValue b)" "operator \<in> {Less, LessEqual, Greater, GreaterEqual}"
  shows "\<not> is_boolean x" "\<not> is_boolean y"
  using assms by (cases x; cases y; auto simp: fold_kinds_def fold_binary_def fold_boolean_binary_def is_boolean_def)+

lemma literal_condition_truth:
  assumes "ieee_ordering (folder_floats fs)" "is_comparison operator" "fold_values fs operator l r = Inr (BooleanValue b)"
  shows "condition_truth fs env (Operation operator [Literal l, Literal r]) =
    (if is_boolean (value_kind l) = is_boolean (value_kind r) then Some b else None)"
proof (cases "is_boolean (value_kind l) = is_boolean (value_kind r)")
  case True
  then show ?thesis
    using fold_kinds_comparison [OF assms(1,2) True] assms(3)
    by (auto simp: comparison_condition_truth [OF assms(1,2)] fold_values_kinds dest!: sym [of "Some _"])
next
  case False
  then show ?thesis
    using apply_binary_def assms(2) by (auto simp: condition_truth_def truth_value_def apply_binary_def is_comparison_def)
qed

lemma nullable_condition_truth:
  assumes "ieee_ordering (folder_floats fs)" "operator \<in> {Equal, NotEqual}" "nullable_subject cs = Some (subject, absent)"
  shows "condition_truth fs env (Operation operator cs) = condition_truth fs env (Operation operator [subject, absent])"
proof -
  have "is_comparison operator" using assms(2) by (auto simp: is_comparison_def)
  note truth = comparison_condition_truth [OF assms(1) this]
  from eval_nullable_subject [OF assms(3), of fs env] obtain c where
    "eval_condition fs env c = eval_condition fs env subject" "cs = [c, absent] \<or> cs = [absent, c]" by blast
  moreover have "keys_compare operator x y = keys_compare operator y x" for x y
    using assms(2) by (auto simp: keys_compare_def equality_defined_sym keys_equal_sym)
  ultimately show ?thesis by (auto simp: truth split: option.split)
qed

lemma boolean_equality_condition_truth:
  assumes "ieee_ordering (folder_floats fs)" "condition_truth fs env (Operation Equal [c, Boolean e]) = Some b"
  shows "condition_truth fs env c = Some (b = e)"
proof -
  from assms(2) obtain v where v: "eval_condition fs env c = Some v" "keys_compare Equal v (BooleanValue e) = Some b"
    by (auto simp: comparison_condition_truth [OF assms(1)] is_comparison_def split: option.splits)
  from v(2) have "is_boolean v"
    by (cases v) (auto simp: keys_compare_def equality_defined_def is_boolean_def split: if_splits)
  with v show ?thesis
    by (cases v)
      (auto simp: is_boolean_def keys_compare_def keys_equal_def key_def condition_truth_def truth_value_def split: if_splits)
qed

text \<open>The laws, for every library of floating-point arithmetic that orders values as IEEE does.\<close>

lemma evaluation_semantics:
  assumes "ieee_ordering (folder_floats fs)"
  shows "condition_semantics fs (condition_truth fs env)"
proof
  note compared = comparison_condition_truth [OF assms]
  note comparisons = compared [of Equal env] compared [of NotEqual env] compared [of Less env] compared [of LessEqual env]
    compared [of Greater env] compared [of GreaterEqual env]
  note comparisons = comparisons [simplified is_comparison_def, simplified]
  let ?truth = "condition_truth fs env"
  show "?truth (Boolean b) = Some b" for b by (simp add: condition_truth_def truth_value_def)
  show "?truth Unknown = None" by (simp add: condition_truth_def truth_value_def)
  show "?truth (Entry c k) = ?truth c" for c k by (simp add: condition_truth_def)
  show "?truth (Trusted c) = ?truth c" for c by (simp add: condition_truth_def)
  show "?truth (Operation LogicalNot [c]) = map_option Not (?truth c)" for c by (rule condition_truth_negation)
  show "?truth (Operation operator (map literal_contents cs)) = ?truth (Operation operator cs)" for operator cs
    by (simp add: condition_truth_def comp_def eval_literal_contents)
  show "?truth (Operation NotEqual cs) = map_option Not (?truth (Operation Equal cs))" for cs
  proof (cases "length cs = 2")
    case True
    then obtain l r where "cs = [l, r]" by (auto simp: length_Suc_conv numeral_2_eq_2)
    then show ?thesis by (simp add: comparisons keys_compare_def split: option.split)
  next
    case False
    then have "?truth (Operation NotEqual cs) = None" "?truth (Operation Equal cs) = None"
      using operation_condition_truth by fastforce+
    then show ?thesis by simp
  qed
  show "?truth (Operation Greater [l, r]) = ?truth (Operation Less [r, l])" for l r
    by (auto simp: comparisons keys_compare_def ordering_defined_sym split: option.split)
  show "?truth (Operation GreaterEqual [l, r]) = ?truth (Operation LessEqual [r, l])" for l r
    by (auto simp: comparisons keys_compare_def ordering_defined_sym keys_equal_sym split: option.split)
  show "?truth (Operation Equal [l, r]) = ?truth (Operation Equal [r, l])" for l r
    by (auto simp: comparisons keys_compare_def equality_defined_sym keys_equal_sym split: option.split)
  show "b' = b" if "is_comparison operator" "fold_values fs operator x y = Inr (BooleanValue b)"
    "?truth (Operation operator [Literal x, Literal y]) = Some b'" for operator x y b b'
    using that literal_condition_truth [OF assms that(1,2), of env] by (auto split: if_splits)
  show "?truth (Operation operator [Literal x, Literal y]) \<noteq> None"
    if "operator \<in> {Less, LessEqual, Greater, GreaterEqual}" "fold_values fs operator x y = Inr (BooleanValue b)"
    for operator x y b
    using literal_condition_truth [OF assms _ that(2), of env] ordered_kinds [OF _ that(1)] that
    by (auto simp: is_comparison_def fold_values_kinds)
  show "\<not> b" if "value_kind d = NullableAbsent" "?truth (Operation Equal [PresentValue c, Literal d]) = Some b" for d c b
    using that keys_equal_other(2) [of NullableAbsent]
    by (auto simp: comparisons keys_compare_def scalar_def split: option.splits constant_value_kind.splits if_splits)
  show "\<not> b" if "?truth (VariantTest v c) = Some True" "?truth (VariantTest w c) = Some b" "v \<noteq> w" for v c w b
    using that by (auto simp: condition_truth_def truth_value_def split: option.splits constant_value_kind.splits)
  show "?truth (Operation Less [r, l]) \<noteq> None \<and> ?truth (Operation LessEqual [l, r]) \<noteq> None
      \<and> ?truth (Operation Equal [l, r]) \<noteq> None" if "?truth (Operation Less [l, r]) \<noteq> None" for l r
    using that ordering_defined_sym ordering_equality_defined
    by (auto simp: comparisons keys_compare_def split: option.splits if_splits)
  show "?truth (Operation Less [l, r]) \<noteq> None" if "?truth (Operation LessEqual [l, r]) \<noteq> None" for l r
    using that by (auto simp: comparisons keys_compare_def split: option.splits if_splits)
  show "b \<longleftrightarrow> holding ?truth Less l r \<or> holding ?truth Equal l r" if "?truth (Operation LessEqual [l, r]) = Some b" for l r b
    using that ordering_equality_defined
    by (auto simp: comparisons keys_compare_def split: option.splits if_splits)
  have less: "holding ?truth Less l r \<longleftrightarrow> (\<exists>x y. eval_condition fs env l = Some x \<and> eval_condition fs env r = Some y \<and> keys_less x y)"
    for l r by (auto simp: comparisons keys_compare_def dest: keys_less_defined split: option.splits if_splits)
  have equal: "holding ?truth Equal l r \<longleftrightarrow> (\<exists>x y. eval_condition fs env l = Some x \<and> eval_condition fs env r = Some y \<and> keys_equal x y)"
    for l r by (auto simp: comparisons keys_compare_def dest: keys_equal_defined split: option.splits if_splits)
  show "holding ?truth Equal l r" if "holding ?truth Equal l m" "holding ?truth Equal m r" for l m r
    using that keys_equal_trans unfolding equal by force
  show "holding ?truth Less l r" if "holding ?truth Less l m" "holding ?truth Less m r" for l m r
    using that keys_less_trans unfolding less by force
  show "holding ?truth Less l r" if "holding ?truth Less l m" "holding ?truth Equal m r" for l m r
    using that keys_less_equal_trans unfolding less equal by force
  show "holding ?truth Less l r" if "holding ?truth Equal l m" "holding ?truth Less m r" for l m r
    using that keys_less_equal_trans unfolding less equal by force
  show "\<not> holding ?truth Less l l" for l using keys_less_irrefl unfolding less by force
  show "holding ?truth Equal l l \<and> holding ?truth Equal r r" if "holding ?truth Less l r" for l r
    using that keys_less_self unfolding less equal by blast
qed (rule operation_condition_truth condition_truth_connectives nullable_condition_truth [OF assms]
    boolean_equality_condition_truth [OF assms]; assumption)+

text \<open>
  Any library whose comparison is replaced by the IEEE one orders values as IEEE does, so the prover's
  laws hold of the evaluator over it.
\<close>

definition ranked_floats :: "float_library \<Rightarrow> float_library" where
  "ranked_floats lib = lib\<lparr>float_partial_cmp :=
     (\<lambda>format l r. rank_order (float_rank (format_shape format) l) (float_rank (format_shape format) r))\<rparr>"

lemma ranked_floats_ordering: "ieee_ordering (ranked_floats lib)"
  by (simp add: ieee_ordering_def ranked_floats_def)

definition ranked_folders :: "(nat \<Rightarrow> 8 word list) \<Rightarrow> float_library \<Rightarrow> folders" where
  "ranked_folders to_bytes lib = \<lparr>folder_bytes = to_bytes, folder_floats = ranked_floats lib\<rparr>"

interpretation evaluated: condition_semantics "ranked_folders to_bytes lib"
    "condition_truth (ranked_folders to_bytes lib) env" for to_bytes lib env
  by (rule evaluation_semantics) (simp add: ranked_folders_def ranked_floats_ordering)

subsection \<open>The prover spends its budget\<close>

lemma scan_edges_spends: "snd (scan_edges upper rs c strict as pending n) \<le> n"
  by (induction upper rs c strict as pending n rule: scan_edges.induct)
    (auto simp: Let_def split: option.split prod.split if_splits intro: le_SucI)

lemma path_loop_spends: "snd (path_loop fs upper rs as pending visited n) \<le> n"
proof (induction fs upper rs as pending visited n rule: path_loop.induct)
  case (2 fs upper rs as c strict pending visited n)
  have "snd (scan_edges upper rs c strict as pending n) \<le> n" by (rule scan_edges_spends)
  then show ?case
    using 2 by (auto split: prod.split path_scan.split intro: order_trans)
qed simp

lemma ordered_path_spends: "snd (ordered_path fs lower upper rs as n) \<le> n"
  using path_loop_spends by (simp add: ordered_path_def del: path_loop.simps)

lemma positively_ordered_spends: "snd (positively_ordered c as n) \<le> n"
  by (induction c as n rule: positively_ordered.induct) (auto intro: le_SucI)

lemma two_paths_spend:
  "snd (ordered_path fs l r rs as n) \<le> n"
  "snd (case ordered_path fs l r rs as n of (True, m) \<Rightarrow> (x, m)
      | (False, m) \<Rightarrow> (case ordered_path fs l' r' rs' as m of (found, m') \<Rightarrow> (if found then y else z, m'))) \<le> n"
  using ordered_path_spends [of fs l r rs as n] ordered_path_spends [of fs l' r' rs' as "snd (ordered_path fs l r rs as n)"]
  by (auto split: prod.split bool.split intro: order_trans)

lemma equality_is_implied_spends: "snd (equality_is_implied fs operator l r as n) \<le> n"
  using ordered_path_spends [of fs l r True as n] ordered_path_spends [of fs r l True as "snd (ordered_path fs l r True as n)"]
  by (auto simp: equality_is_implied_def Let_def split: prod.split bool.split if_splits)

lemma ordering_is_implied_spends: "snd (ordering_is_implied fs order3 l r as n) \<le> n"
proof -
  obtain strict reversed allows where order3: "order3 = (strict, reversed, allows)" by (cases order3)
  show ?thesis
    unfolding ordering_is_implied_def Let_def order3 prod.case
    by (cases "strict = Less") (simp_all add: two_paths_spend(2))
qed

lemma comparison_is_implied_spends: "snd (comparison_is_implied fs operator cs as n) \<le> n"
proof (cases "\<exists>l r. cs = [l, r]")
  case False
  then show ?thesis by (auto simp: comparison_is_implied_def split: list.splits)
next
  case True
  then obtain l r where cs: "cs = [l, r]" by blast
  obtain reflexive m where p: "(if l = r then positively_ordered l as n else (False, n)) = (reflexive, m)" by fastforce
  then have "m \<le> n" using positively_ordered_spends [of l as n] by (auto split: if_splits)
  then show ?thesis
    using equality_is_implied_spends [of fs operator l r as m] ordering_is_implied_spends [of fs _ l r as m]
    by (auto simp: comparison_is_implied_def cs p split: option.split intro: order_trans)
qed

lemma prove_spends: "prove fs as c n = (result, m) \<Longrightarrow> m \<le> n - 1"
proof (induction "size c" arbitrary: c n result m rule: less_induct)
  case less
  show ?case
  proof (cases n)
    case 0
    then show ?thesis using less.prems by simp
  next
    case (Suc k)
    have smaller: "prove fs as x k' = (r, m') \<Longrightarrow> size x < size c \<Longrightarrow> m' \<le> k' - 1" for x k' r m' using less.hyps by blast
    show ?thesis
    proof (cases "\<exists>c' e. c = Entry c' e")
      case True
      then obtain c' e where c: "c = Entry c' e" by blast
      with less.prems Suc have "prove fs as c' k = (result, m)" by simp
      from smaller [OF this] show ?thesis using c Suc by simp
    next
      case False
      note unfolded = less.prems [unfolded Suc prove_unfold [OF False]]
      show ?thesis
      proof (cases "\<exists>operator cs. c = Operation operator cs")
        case False
        with unfolded show ?thesis using Suc by (cases c) (auto split: if_splits)
      next
        case True
        then obtain operator cs where c: "c = Operation operator cs" by blast
        obtain implied k1 where i: "comparison_is_implied fs operator cs as k = (implied, k1)" by fastforce
        then have k1: "k1 \<le> k" using comparison_is_implied_spends [of fs operator cs as k] by simp
        from unfolded c i consider "m \<le> k"
          | x p where "cs = [x]" "prove fs as x k1 = (p, m)"
          | l r p q k2 where "cs = [l, r]" "prove fs as l k1 = (p, k2)" "prove fs as r k2 = (q, m)"
          using k1 by (auto split: if_splits option.splits list.splits prod.splits)
        then show ?thesis
        proof cases
          case 1
          then show ?thesis using Suc by simp
        next
          case (2 x p)
          then show ?thesis using smaller [OF 2(2)] k1 c Suc by simp
        next
          case (3 l r p q k2)
          then show ?thesis using smaller [OF 3(2)] smaller [OF 3(3)] k1 c Suc by simp
        qed
      qed
    qed
  qed
qed

lemma prove_mixed_spends: "prove_mixed fs trusted ordinary c n = (result, m) \<Longrightarrow> m \<le> n - 1"
proof (induction "size c" arbitrary: c n result m rule: less_induct)
  case less
  show ?case
  proof (cases n)
    case 0
    then show ?thesis using less.prems by simp
  next
    case (Suc k)
    have smaller: "prove_mixed fs trusted ordinary x k' = (r, m') \<Longrightarrow> size x < size c \<Longrightarrow> m' \<le> k' - 1" for x k' r m'
      using less.hyps by blast
    have fallback: "m \<le> k" if "(case prove fs trusted c k of (Some b, k') \<Rightarrow> (Some b, k')
        | (None, k') \<Rightarrow> prove fs ordinary c k') = (result, m)"
    proof -
      obtain p k1 where "prove fs trusted c k = (p, k1)" by fastforce
      with that prove_spends [OF this] prove_spends [of fs ordinary c k1 result m] show ?thesis
        by (auto split: option.splits)
    qed
    note unfolded = less.prems [unfolded Suc prove_mixed.simps(2) Let_def]
    from unfolded fallback consider "m \<le> k"
      | x e where "c = Entry x e" "prove_mixed fs trusted ordinary x k = (result, m)"
      | x p operator where "c = Operation operator [x]" "prove_mixed fs trusted ordinary x k = (p, m)"
      | l r p q k2 operator where "c = Operation operator [l, r]" "prove_mixed fs trusted ordinary l k = (p, k2)"
          "prove_mixed fs trusted ordinary r k2 = (q, m)"
      by (cases c) (auto split: if_splits list.splits prod.splits)
    then show ?thesis
    proof cases
      case 1
      then show ?thesis using Suc by simp
    next
      case (2 x e)
      then show ?thesis using smaller [OF 2(2)] Suc by simp
    next
      case (3 x p)
      then show ?thesis using smaller [OF 3(2)] Suc by simp
    next
      case (4 l r p q k2)
      then show ?thesis using smaller [OF 4(2)] smaller [OF 4(3)] Suc by simp
    qed
  qed
qed

subsection \<open>Properties\<close>

text \<open>
  C18. What the prover decides is what evaluation yields: in every environment in which the known facts
  evaluate to their recorded truth values, a condition that \<open>prove\<close> decides and that has a truth value
  has the decided one, whatever the budget.
\<close>

theorem prove_sound:
  assumes "ieee_ordering (folder_floats fs)"
    and "\<forall>a \<in> set as. condition_truth fs env (fst a) = Some (snd a)"
    and "prove fs as c budget = (Some b, budget')"
    and "condition_truth fs env c = Some b'"
  shows "b' = b"
  using condition_semantics.prove_truth [OF evaluation_semantics [OF assms(1)] assms(2,3,4)] .




text \<open>
  Proof work is bounded: each call of \<open>prove\<close> and \<open>prove_mixed\<close> spends at least one unit of the
  shared budget and never gives any back, and with no budget left nothing is decided.
\<close>

theorem prove_spends_budget:
  "snd (prove fs as c budget) \<le> budget - 1 \<and> snd (prove_mixed fs trusted ordinary c budget) \<le> budget - 1
   \<and> prove fs as c 0 = (None, 0) \<and> prove_mixed fs trusted ordinary c 0 = (None, 0)"
  using prove_spends [of fs as c budget] prove_mixed_spends [of fs trusted ordinary c budget] by (simp add: prod_eq_iff)

definition sample_folders :: folders where
  "sample_folders = \<lparr>folder_bytes = be_bytes, folder_floats = comparing_floats\<rparr>"

lemma sample_ordering: "ieee_ordering (folder_floats sample_folders)"
  by (simp add: sample_folders_def comparing_floats_ordering)

text \<open>Two inputs, with the values two and three.\<close>

definition sample_place :: "nat \<Rightarrow> execution_condition" where
  "sample_place n = Input \<lparr>place_root = n, place_projections = []\<rparr>"

definition sample_env :: environment where
  "sample_env c = (if c = sample_place 0 then Some (IntegerValue (from_big_integer be_bytes 2))
     else if c = sample_place 2 then Some (IntegerValue (from_big_integer be_bytes 3)) else None)"

lemma sample_number: "to_big_integer (from_big_integer be_bytes n) = n"
  by (rule to_big_integer_from [OF be_bytes_correct])

lemma sample_place_facts:
  "literal_contents (sample_place n) = sample_place n" "contains_unknown (sample_place n) = False"
  "sample_place m = sample_place n \<longleftrightarrow> m = n" "eval_condition fs env (sample_place n) = env (sample_place n)"
  by (simp_all add: literal_contents_def sample_place_def)

lemma sample_operation:
  "m \<noteq> n \<Longrightarrow> operation fs operator [sample_place m, sample_place n] = Operation operator [sample_place m, sample_place n]"
  by (subst operation.simps, cases operator)
    (simp_all add: fold_literals_def nullable_subject_def boolean_equality_def simplify_operation_def Let_def
      sample_place_def literal_contents_def)

lemma sample_truths:
  "is_comparison operator \<Longrightarrow> condition_truth sample_folders sample_env (Operation operator [sample_place 0, sample_place 2]) =
    keys_compare operator (IntegerValue (from_big_integer be_bytes 2)) (IntegerValue (from_big_integer be_bytes 3))"
  using comparison_condition_truth [OF sample_ordering, of operator sample_env "sample_place 0" "sample_place 2"]
  by (simp add: sample_place_facts sample_env_def)

lemma sample_less: "condition_truth sample_folders sample_env (Operation Less [sample_place 0, sample_place 2]) = Some True"
  "condition_truth sample_folders sample_env (Operation LessEqual [sample_place 0, sample_place 2]) = Some True"
  by (simp_all add: sample_truths is_comparison_def keys_compare_def ordering_defined_def keys_less_def key_def key_less_def sample_number)

lemma sample_proof: "prove sample_folders [(Operation Less [sample_place 0, sample_place 2], True)]
     (Operation LessEqual [sample_place 0, sample_place 2]) 3 = (Some True, 2)"
  by (simp add: eval_nat_numeral comparison_is_implied_def ordering_of_def ordering_is_implied_def known_def sample_operation
     sample_place_facts Let_def)
theorem prove_sound_witness:
  "\<exists>b. condition_truth sample_folders sample_env (Operation LessEqual [sample_place 0, sample_place 2]) = Some b \<and> b = True"
proof (intro exI conjI)
  show "condition_truth sample_folders sample_env (Operation LessEqual [sample_place 0, sample_place 2]) = Some True"
    by (rule sample_less)
  show "True = True" by (rule prove_sound [OF sample_ordering _ sample_proof sample_less(2)]) (simp add: sample_less)
qed

lemma sample_mixed_proof: "prove_mixed sample_folders [] [(Operation Less [sample_place 0, sample_place 2], True)]
     (Operation LogicalNot [Operation LessEqual [sample_place 0, sample_place 2]]) 6 = (Some False, 2)"
  by (simp add: eval_nat_numeral prove_mixed.simps comparison_is_implied_def ordering_of_def ordering_is_implied_def
     known_def known_unequal_def known_equal_def ordered_path_def inverse_known_def sample_operation sample_place_facts Let_def)




text \<open>
  A snapshot of a literal aggregate with a changed component still compares as the literal it started
  from: \<open>operation\<close> takes the literal for the operand and drops the listed components.
\<close>

lemma changed_snapshot_compares_as_base:
  assumes "value_kind d = TupleValue xs"
  shows "operation fs Equal [Constructed (Literal d) [(StorageTupleElement i, changed)], Literal d] = Boolean True"
  using assms
  by (simp add: operation.simps Let_def literal_contents_def component_base_def is_logical_def fold_literals_def
      is_comparison_def fold_values_def fold_binary_def)

end
