(* ===== verification/Dependency_Graph.thy ===== *)
theory Dependency_Graph
  imports Bray_Prelude
begin

text \<open>
  The graph algorithms that the later stages of the compiler share (\<open>crates/bray-base/src/graph.rs\<close>): the closure
  of a set of roots under dependencies, and the strongly connected components in dependency order, both
  with explicit stacks. A \<open>Vec\<close> used as a stack is a list with its top first; of a \<open>BTreeSet\<close> only insertion and
  membership are used, so it is a set; of the reversed edges only the vector of a key.

  The lemmas show that the closure is what is reachable, that a walk returns exactly when that is finite, and
  that the two passes over the graph give its components in an order that no edge goes against.
\<close>

subsection \<open>Transitive dependencies\<close>

partial_function (option) dependencies_loop :: "('n \<Rightarrow> 'n list) \<Rightarrow> 'n list \<Rightarrow> 'n set \<Rightarrow> 'n set run" where
  "dependencies_loop dependencies pending retained = (case pending of
     [] \<Rightarrow> Some retained
   | key # rest \<Rightarrow>
       (if key \<in> retained then dependencies_loop dependencies rest retained
        else dependencies_loop dependencies (rev (dependencies key) @ rest) (insert key retained)))"

declare dependencies_loop.simps [code]

definition transitive_dependencies :: "'n list \<Rightarrow> ('n \<Rightarrow> 'n list) \<Rightarrow> 'n set run" where
  "transitive_dependencies roots dependencies = dependencies_loop dependencies (rev roots) {}"

subsection \<open>Strongly connected components\<close>

type_synonym 'n reversed = "'n \<rightharpoonup> 'n list"

definition push_predecessor :: "'n \<Rightarrow> 'n \<Rightarrow> 'n reversed \<Rightarrow> 'n reversed" where
  "push_predecessor successor node reverse = reverse(successor \<mapsto>
     (case reverse successor of None \<Rightarrow> [node] | Some nodes \<Rightarrow> nodes @ [node]))"

definition predecessors :: "'n reversed \<Rightarrow> 'n \<Rightarrow> 'n list" where
  "predecessors reverse node = (case reverse node of None \<Rightarrow> [] | Some nodes \<Rightarrow> nodes)"

text \<open>The first pass: a stack of nodes with the successors still to be looked at.\<close>

record 'n first_pass =
  pass_visited :: "'n set"
  pass_reverse :: "'n reversed"
  pass_order :: "'n list"

partial_function (option) finish_loop :: "('n \<Rightarrow> 'n list) \<Rightarrow> ('n \<times> 'n list) list \<Rightarrow> 'n first_pass \<Rightarrow> 'n first_pass run" where
  "finish_loop successors stack s = (case stack of
     [] \<Rightarrow> Some s
   | (node, children) # rest \<Rightarrow> (case children of
       [] \<Rightarrow> finish_loop successors rest (s\<lparr>pass_order := pass_order s @ [node]\<rparr>)
     | successor # others \<Rightarrow>
         (let s' = s\<lparr>pass_reverse := push_predecessor successor node (pass_reverse s)\<rparr> in
          if successor \<in> pass_visited s then finish_loop successors ((node, others) # rest) s'
          else finish_loop successors ((successor, successors successor) # (node, others) # rest)
            (s'\<lparr>pass_visited := insert successor (pass_visited s)\<rparr>))))"

declare finish_loop.simps [code]

primrec finish_roots :: "('n \<Rightarrow> 'n list) \<Rightarrow> 'n list \<Rightarrow> 'n first_pass \<Rightarrow> 'n first_pass run" where
  "finish_roots successors [] s = Some s"
| "finish_roots successors (root # roots) s =
     (if root \<in> pass_visited s then finish_roots successors roots s
      else do {
        s' \<leftarrow> finish_loop successors [(root, successors root)] (s\<lparr>pass_visited := insert root (pass_visited s)\<rparr>);
        finish_roots successors roots s'
      })"

text \<open>The second pass: the members of one component, against the edges.\<close>

primrec push_unvisited :: "'n list \<Rightarrow> 'n set \<Rightarrow> 'n list \<Rightarrow> 'n set \<times> 'n list" where
  "push_unvisited [] visited stack = (visited, stack)"
| "push_unvisited (predecessor # others) visited stack =
     (if predecessor \<in> visited then push_unvisited others visited stack
      else push_unvisited others (insert predecessor visited) (predecessor # stack))"

partial_function (option) component_loop ::
    "'n reversed \<Rightarrow> 'n list \<Rightarrow> 'n set \<Rightarrow> 'n list \<Rightarrow> ('n set \<times> 'n list) run" where
  "component_loop reverse stack visited component = (case stack of
     [] \<Rightarrow> Some (visited, component)
   | node # rest \<Rightarrow>
       (case push_unvisited (predecessors reverse node) visited rest of
          (visited', stack') \<Rightarrow> component_loop reverse stack' visited' (component @ [node])))"

declare component_loop.simps [code]

primrec components_loop :: "'n reversed \<Rightarrow> 'n list \<Rightarrow> 'n set \<Rightarrow> 'n list list \<Rightarrow> 'n list list run" where
  "components_loop reverse [] visited components = Some components"
| "components_loop reverse (root # roots) visited components =
     (if root \<in> visited then components_loop reverse roots visited components
      else do {
        (visited', component) \<leftarrow> component_loop reverse [root] (insert root visited) [];
        components_loop reverse roots visited' (components @ [component])
      })"

definition first_pass_new :: "'n first_pass" where
  "first_pass_new = \<lparr>pass_visited = {}, pass_reverse = Map.empty, pass_order = []\<rparr>"

definition strongly_connected_components :: "'n list \<Rightarrow> ('n \<Rightarrow> 'n list) \<Rightarrow> 'n list list run" where
  "strongly_connected_components roots successors = do {
     s \<leftarrow> finish_roots successors roots first_pass_new;
     components_loop (pass_reverse s) (rev (pass_order s)) {} []
   }"

subsection \<open>The graph\<close>

definition edges :: "('n \<Rightarrow> 'n list) \<Rightarrow> ('n \<times> 'n) set" where
  "edges successors = {(x, y). y \<in> set (successors x)}"

definition reachable_from :: "('n \<Rightarrow> 'n list) \<Rightarrow> 'n set \<Rightarrow> 'n set" where
  "reachable_from successors roots = (edges successors)\<^sup>* `` roots"

lemma edges_iff [simp]: "(x, y) \<in> edges successors \<longleftrightarrow> y \<in> set (successors x)"
  by (simp add: edges_def)

lemma reachable_edge: "x \<in> reachable_from f R \<Longrightarrow> y \<in> set (f x) \<Longrightarrow> y \<in> reachable_from f R"
  unfolding reachable_from_def by (blast intro: rtrancl_into_rtrancl edges_iff [THEN iffD2])

lemma reachable_root: "x \<in> R \<Longrightarrow> x \<in> reachable_from f R"
  unfolding reachable_from_def by auto

lemma reachable_least:
  assumes "R \<subseteq> V" "\<And>x. x \<in> V \<Longrightarrow> set (f x) \<subseteq> V"
  shows "reachable_from f R \<subseteq> V"
proof
  fix y assume "y \<in> reachable_from f R"
  then obtain x where "(x, y) \<in> (edges f)\<^sup>*" "x \<in> R" by (auto simp: reachable_from_def)
  then show "y \<in> V" by (induction rule: rtrancl_induct) (use assms in auto)
qed

lemma card_insert_less: "finite U \<Longrightarrow> x \<in> U \<Longrightarrow> x \<notin> V \<Longrightarrow> card (U - insert x V) < card (U - V)"
  by (rule psubset_card_mono) auto

subsection \<open>The closure\<close>

text \<open>
  What has been retained and what is pending are reachable, roots are retained or pending, and so is
  everything a retained key depends on.
\<close>

definition closing :: "('n \<Rightarrow> 'n list) \<Rightarrow> 'n set \<Rightarrow> 'n list \<Rightarrow> 'n set \<Rightarrow> bool" where
  "closing f R pending retained \<longleftrightarrow> set pending \<union> retained \<subseteq> reachable_from f R \<and> R \<subseteq> set pending \<union> retained
     \<and> (\<forall>x \<in> retained. set (f x) \<subseteq> set pending \<union> retained)"

lemma closing_skip: "closing f R (key # rest) retained \<Longrightarrow> key \<in> retained \<Longrightarrow> closing f R rest retained"
  by (auto simp: closing_def)

lemma closing_keep: "closing f R (key # rest) retained \<Longrightarrow> closing f R (rev (f key) @ rest) (insert key retained)"
  unfolding closing_def using reachable_edge [of key f R] by auto

lemma closing_end: "closing f R [] retained \<Longrightarrow> retained = reachable_from f R"
  unfolding closing_def using reachable_least [of R retained f] by auto

lemma dependencies_loop_returns:
  assumes "finite (reachable_from f R)" "closing f R pending retained"
  shows "dependencies_loop f pending retained = Some (reachable_from f R)"
  using assms(2)
proof (induction "(pending, retained)" arbitrary: pending retained
    rule: wf_induct_rule [OF wf_measures [of "[\<lambda>(p, r). card (reachable_from f R - r), \<lambda>(p, r). length p]"]])
  case (1 pending retained)
  show ?case
  proof (cases pending)
    case Nil
    with 1(2) closing_end show ?thesis by (auto simp: dependencies_loop.simps)
  next
    case (Cons key rest)
    show ?thesis
    proof (cases "key \<in> retained")
      case True
      with 1 Cons closing_skip [of f R key rest retained] show ?thesis by (subst dependencies_loop.simps) auto
    next
      case False
      have "key \<in> reachable_from f R" using 1(2) Cons by (auto simp: closing_def)
      with 1 Cons False closing_keep [of f R key rest retained] card_insert_less [OF assms(1) _ False]
      show ?thesis by (subst dependencies_loop.simps) auto
    qed
  qed
qed

lemma dependencies_loop_result:
  assumes "dependencies_loop f pending retained = Some V" "finite retained" "closing f R pending retained"
  shows "V = reachable_from f R \<and> finite V"
proof -
  have "finite retained \<longrightarrow> closing f R pending retained \<longrightarrow> V = reachable_from f R \<and> finite V"
  proof (rule dependencies_loop.raw_induct [OF _ assms(1), where P = "\<lambda>f pending retained V.
      finite retained \<longrightarrow> closing f R pending retained \<longrightarrow> V = reachable_from f R \<and> finite V"])
    fix loop f pending retained V
    assume IH: "\<And>f pending retained V. loop f pending retained = Some V \<Longrightarrow>
        finite retained \<longrightarrow> closing f R pending retained \<longrightarrow> V = reachable_from f R \<and> finite V"
      and run: "(case pending of [] \<Rightarrow> Some retained
        | key # rest \<Rightarrow> if key \<in> retained then loop f rest retained
            else loop f (rev (f key) @ rest) (insert key retained)) = Some V"
    show "finite retained \<longrightarrow> closing f R pending retained \<longrightarrow> V = reachable_from f R \<and> finite V"
    proof (cases pending)
      case Nil
      with run closing_end [of f R retained] show ?thesis by auto
    next
      case (Cons key rest)
      with run IH [of f rest retained V] IH [of f "rev (f key) @ rest" "insert key retained" V]
        closing_skip [of f R key rest retained] closing_keep [of f R key rest retained]
      show ?thesis by (auto split: if_splits)
    qed
  qed
  with assms show ?thesis by blast
qed

text \<open>
  C30. Transitive dependencies are what the roots reach, and the search returns exactly when that is a finite
  set, however often dependencies go round in a cycle.
\<close>

theorem transitive_dependencies_correct:
  "transitive_dependencies roots dependencies
    = (if finite (reachable_from dependencies (set roots)) then Some (reachable_from dependencies (set roots)) else None)"
proof -
  have c: "closing dependencies (set roots) (rev roots) {}"
    unfolding closing_def using reachable_root [of _ "set roots"] by auto
  show ?thesis
  proof (cases "finite (reachable_from dependencies (set roots))")
    case True
    with dependencies_loop_returns [OF _ c] show ?thesis by (simp add: transitive_dependencies_def)
  next
    case False
    with dependencies_loop_result [OF _ _ c] show ?thesis
      by (cases "dependencies_loop dependencies (rev roots) {}") (auto simp: transitive_dependencies_def)
  qed
qed

subsection \<open>The first pass\<close>

text \<open>
  A node covers a list of finished nodes when an edge from one of them to it means that it reaches this one and
  all that were finished later. Nodes cover what was finished before them: that is what the second pass
  needs of the order.
\<close>

abbreviation reaches :: "('n \<Rightarrow> 'n list) \<Rightarrow> 'n \<Rightarrow> 'n \<Rightarrow> bool" where
  "reaches f x y \<equiv> (x, y) \<in> (edges f)\<^sup>*"

definition covers :: "('n \<Rightarrow> 'n list) \<Rightarrow> 'n list \<Rightarrow> 'n \<Rightarrow> bool" where
  "covers f order y \<longleftrightarrow> (\<forall>a x b. order = a @ x # b \<longrightarrow> y \<in> set (f x) \<longrightarrow> (\<forall>z \<in> set (x # b). reaches f y z))"

definition covering :: "('n \<Rightarrow> 'n list) \<Rightarrow> 'n list \<Rightarrow> bool" where
  "covering f order \<longleftrightarrow> (\<forall>a y c. order = a @ y # c \<longrightarrow> covers f a y)"

lemma covers_no_edge: "(\<And>x. x \<in> set order \<Longrightarrow> y \<notin> set (f x)) \<Longrightarrow> covers f order y"
  by (auto simp: covers_def)

lemma append_eq_snoc:
  assumes "xs @ [n] = a @ x # b"
  obtains "a = xs" "x = n" "b = []" | b' where "b = b' @ [n]" "xs = a @ x # b'"
  using assms by (cases b rule: rev_cases) auto

lemma covers_snoc: "covers f order y \<Longrightarrow> reaches f y n \<Longrightarrow> covers f (order @ [n]) y"
  unfolding covers_def by (auto elim!: append_eq_snoc)

lemma covering_snoc: "covering f order \<Longrightarrow> covers f order n \<Longrightarrow> covering f (order @ [n])"
  unfolding covering_def by (auto elim!: append_eq_snoc)

lemma covering_Nil [simp]: "covering f []" "covers f [] y"
  by (simp_all add: covering_def covers_def)

definition on_stack :: "('n \<times> 'n list) list \<Rightarrow> 'n list" where
  "on_stack stack = map fst stack"

lemma on_stack_simps [simp]: "on_stack [] = []" "on_stack (e # stack) = fst e # on_stack stack"
  by (simp_all add: on_stack_def)

definition looked_at :: "('n \<Rightarrow> 'n list) \<Rightarrow> 'n \<Rightarrow> 'n list \<Rightarrow> 'n set \<Rightarrow> bool" where
  "looked_at f node children seen \<longleftrightarrow> (\<exists>before. f node = before @ children \<and> set before = seen)"

definition stack_ok :: "('n \<Rightarrow> 'n list) \<Rightarrow> ('n \<times> 'n list) list \<Rightarrow> 'n first_pass \<Rightarrow> bool" where
  "stack_ok f stack s \<longleftrightarrow> distinct (on_stack stack @ pass_order s) \<and> pass_visited s = set (on_stack stack) \<union> set (pass_order s)
     \<and> (\<forall>x \<in> set (pass_order s). \<forall>y \<in> set (f x). y \<in> pass_visited s)
     \<and> sorted_wrt (\<lambda>x y. reaches f y x) (on_stack stack)
     \<and> covering f (pass_order s) \<and> (\<forall>y \<in> set (on_stack stack). covers f (pass_order s) y)"

definition taken :: "('n \<Rightarrow> 'n list) \<Rightarrow> ('n \<times> 'n list) list \<Rightarrow> 'n \<Rightarrow> 'n \<Rightarrow> bool" where
  "taken f stack x y \<longleftrightarrow> (\<exists>(n, c) \<in> set stack. n = x \<and> (\<exists>seen. looked_at f n c seen \<and> y \<in> seen))"

definition entries_ok :: "('n \<Rightarrow> 'n list) \<Rightarrow> ('n \<times> 'n list) list \<Rightarrow> 'n first_pass \<Rightarrow> bool" where
  "entries_ok f stack s \<longleftrightarrow> (\<forall>(n, c) \<in> set stack. \<exists>seen. looked_at f n c seen \<and> seen \<subseteq> pass_visited s)
     \<and> (\<forall>x y. x \<in> set (predecessors (pass_reverse s) y) \<longleftrightarrow>
          x \<in> set (pass_order s) \<and> y \<in> set (f x) \<or> taken f stack x y)"

definition pass_ok :: "('n \<Rightarrow> 'n list) \<Rightarrow> 'n set \<Rightarrow> ('n \<times> 'n list) list \<Rightarrow> 'n first_pass \<Rightarrow> bool" where
  "pass_ok f R stack s \<longleftrightarrow> stack_ok f stack s \<and> entries_ok f stack s \<and> pass_visited s \<subseteq> reachable_from f R"

lemma predecessors_push [simp]:
  "predecessors (push_predecessor y n reverse) z = predecessors reverse z @ (if z = y then [n] else [])"
  by (simp add: predecessors_def push_predecessor_def split: option.split)

lemma looked_at_all: "looked_at f n [] seen \<longleftrightarrow> seen = set (f n)"
  by (auto simp: looked_at_def)

lemma looked_at_none: "looked_at f n (f n) seen \<longleftrightarrow> seen = {}"
  by (auto simp: looked_at_def)

lemma looked_at_next: "looked_at f n (y # ys) seen \<Longrightarrow> looked_at f n ys (insert y seen)"
  unfolding looked_at_def by (elim exE, rule_tac x = "before @ [y]" in exI) auto

lemma looked_at_unique: "looked_at f n c seen \<Longrightarrow> looked_at f n c seen' \<Longrightarrow> seen' = seen"
  by (auto simp: looked_at_def)

lemma looked_at_member: "looked_at f n (y # ys) seen \<Longrightarrow> y \<in> set (f n)"
  by (auto simp: looked_at_def)

lemma stack_ok_finish:
  assumes "stack_ok f ((n, c) # rest) s" "set (f n) \<subseteq> pass_visited s"
  shows "stack_ok f rest (s\<lparr>pass_order := pass_order s @ [n]\<rparr>)"
  using assms unfolding stack_ok_def by (auto intro: covers_snoc covering_snoc)

lemma stack_ok_next: "stack_ok f ((n, c) # rest) s \<Longrightarrow> stack_ok f ((n, c') # rest) (s\<lparr>pass_reverse := r\<rparr>)"
  by (auto simp: stack_ok_def)

lemma stack_ok_push:
  assumes "stack_ok f stack s" "y \<notin> pass_visited s" "\<And>z. z \<in> set (on_stack stack) \<Longrightarrow> reaches f z y"
  shows "stack_ok f ((y, c) # stack) (s\<lparr>pass_visited := insert y (pass_visited s)\<rparr>)"
proof -
  have "covers f (pass_order s) y" using assms(1,2) by (intro covers_no_edge) (auto simp: stack_ok_def)
  with assms show ?thesis unfolding stack_ok_def by auto
qed

lemma taken_simps [simp]: "\<not> taken f [] x y"
    "taken f ((n, c) # stack) x y \<longleftrightarrow> n = x \<and> (\<exists>seen. looked_at f n c seen \<and> y \<in> seen) \<or> taken f stack x y"
  by (simp_all add: taken_def)

lemma entries_ok_finish:
  assumes "entries_ok f ((n, []) # rest) s"
  shows "entries_ok f rest (s\<lparr>pass_order := pass_order s @ [n]\<rparr>)"
  using assms unfolding entries_ok_def by (auto simp: looked_at_all)

lemma entries_ok_next:
  assumes "entries_ok f ((n, y # ys) # rest) s" "y \<in> V" "pass_visited s \<subseteq> V"
  shows "entries_ok f ((n, ys) # rest)
    (s\<lparr>pass_reverse := push_predecessor y n (pass_reverse s), pass_visited := V\<rparr>)"
proof -
  obtain seen where seen: "looked_at f n (y # ys) seen" "seen \<subseteq> pass_visited s" using assms(1) by (auto simp: entries_ok_def)
  have next_iff: "looked_at f n (y # ys) S \<longleftrightarrow> S = seen" "looked_at f n ys S \<longleftrightarrow> S = insert y seen" for S
    using seen(1) looked_at_next [OF seen(1)] looked_at_unique [of f n] by blast+
  have "\<exists>seen. looked_at f m c seen \<and> seen \<subseteq> V" if "(m, c) \<in> set rest" for m c
    using assms(1,3) that unfolding entries_ok_def by fastforce
  moreover have "x \<in> set (predecessors (pass_reverse s) z) \<longleftrightarrow>
      x \<in> set (pass_order s) \<and> z \<in> set (f x) \<or> n = x \<and> z \<in> seen \<or> taken f rest x z" for x z
    using assms(1) by (simp add: entries_ok_def next_iff)
  ultimately show ?thesis using assms(2,3) seen(2) unfolding entries_ok_def by (auto simp: next_iff)
qed

lemma entries_ok_push: "entries_ok f stack s \<Longrightarrow> entries_ok f ((y, f y) # stack) s"
  unfolding entries_ok_def by (simp add: looked_at_none)

lemma pass_ok_finish:
  assumes "pass_ok f R ((n, []) # rest) s"
  shows "pass_ok f R rest (s\<lparr>pass_order := pass_order s @ [n]\<rparr>)"
proof -
  have "set (f n) \<subseteq> pass_visited s" using assms by (auto simp: pass_ok_def entries_ok_def looked_at_all)
  with assms stack_ok_finish [of f n "[]" rest s] show ?thesis by (simp add: pass_ok_def entries_ok_finish)
qed

lemma pass_ok_known:
  assumes "pass_ok f R ((n, y # ys) # rest) s" "y \<in> pass_visited s"
  shows "pass_ok f R ((n, ys) # rest) (s\<lparr>pass_reverse := push_predecessor y n (pass_reverse s)\<rparr>)"
  using assms stack_ok_next [of f n "y # ys" rest s ys] entries_ok_next [of f n y ys rest s "pass_visited s"]
  by (simp add: pass_ok_def)

lemma pass_ok_new:
  assumes "pass_ok f R ((n, y # ys) # rest) s" "y \<notin> pass_visited s"
  shows "pass_ok f R ((y, f y) # (n, ys) # rest)
    (s\<lparr>pass_reverse := push_predecessor y n (pass_reverse s), pass_visited := insert y (pass_visited s)\<rparr>)"
proof -
  let ?s = "s\<lparr>pass_reverse := push_predecessor y n (pass_reverse s)\<rparr>"
  have edge: "y \<in> set (f n)" using assms(1) by (auto simp: pass_ok_def entries_ok_def dest: looked_at_member)
  have n: "n \<in> pass_visited s" "\<And>z. z \<in> set (on_stack rest) \<Longrightarrow> reaches f z n" using assms(1) by (auto simp: pass_ok_def stack_ok_def)
  have "reaches f z y" if "z \<in> set (on_stack ((n, ys) # rest))" for z
    using that n(2) edge by (auto intro: rtrancl_into_rtrancl edges_iff [THEN iffD2])
  moreover have "stack_ok f ((n, ys) # rest) ?s" using assms(1) stack_ok_next by (auto simp: pass_ok_def)
  ultimately have "stack_ok f ((y, f y) # (n, ys) # rest) (?s\<lparr>pass_visited := insert y (pass_visited s)\<rparr>)"
    using stack_ok_push [of f "(n, ys) # rest" ?s y "f y"] assms(2) by simp
  moreover have "y \<in> reachable_from f R" using assms(1) n(1) edge by (auto simp: pass_ok_def intro: reachable_edge)
  ultimately show ?thesis
    using assms entries_ok_push [OF entries_ok_next [of f n y ys rest s "insert y (pass_visited s)"]] by (auto simp: pass_ok_def)
qed

lemma finish_loop_returns:
  assumes "finite (reachable_from f R)" "pass_ok f R stack s"
  shows "\<exists>s'. finish_loop f stack s = Some s' \<and> pass_ok f R [] s' \<and> pass_visited s \<subseteq> pass_visited s'"
  using assms(2)
proof (induction "(stack, s)" arbitrary: stack s rule: wf_induct_rule [OF wf_measures [of
      "[\<lambda>(st, s). card (reachable_from f R - pass_visited s), \<lambda>(st, s). sum_list (map (\<lambda>e. Suc (length (snd e))) st)]"]])
  case (1 stack s)
  consider "stack = []" | n rest where "stack = (n, []) # rest" | n y ys rest where "stack = (n, y # ys) # rest"
    by (metis list.exhaust surj_pair)
  then show ?case
  proof cases
    case 1
    with \<open>pass_ok f R stack s\<close> show ?thesis by (simp add: finish_loop.simps)
  next
    case (2 n rest)
    with 1(1) [OF _ pass_ok_finish] 1(2) show ?thesis by (subst finish_loop.simps) force
  next
    case (3 n y ys rest)
    show ?thesis
    proof (cases "y \<in> pass_visited s")
      case True
      with 3 1(1) [OF _ pass_ok_known] 1(2) show ?thesis by (subst finish_loop.simps) force
    next
      case False
      have "y \<in> reachable_from f R" using pass_ok_new [of f R n y ys rest s] 1(2) 3 False by (auto simp: pass_ok_def)
      from card_insert_less [OF assms(1) this False] 3 1(1) [OF _ pass_ok_new] 1(2) False
      show ?thesis by (subst finish_loop.simps) force
    qed
  qed
qed

lemma pass_ok_root:
  assumes "pass_ok f R [] s" "r \<notin> pass_visited s" "r \<in> R"
  shows "pass_ok f R [(r, f r)] (s\<lparr>pass_visited := insert r (pass_visited s)\<rparr>)"
  using assms stack_ok_push [of f "[]" s r "f r"] reachable_root [OF assms(3), of f]
  by (auto simp: pass_ok_def entries_ok_def looked_at_none)

lemma finish_roots_returns:
  assumes "finite (reachable_from f R)" "pass_ok f R [] s" "set roots \<subseteq> R"
  shows "\<exists>s'. finish_roots f roots s = Some s' \<and> pass_ok f R [] s' \<and> set roots \<union> pass_visited s \<subseteq> pass_visited s'"
  using assms(2,3)
proof (induction roots arbitrary: s)
  case (Cons r roots)
  show ?case
  proof (cases "r \<in> pass_visited s")
    case True
    with Cons.IH [OF Cons.prems(1)] Cons.prems(2) show ?thesis by auto
  next
    case False
    with Cons.prems finish_loop_returns [OF assms(1) pass_ok_root, of s r]
    obtain s1 where 1: "finish_loop f [(r, f r)] (s\<lparr>pass_visited := insert r (pass_visited s)\<rparr>) = Some s1"
      "pass_ok f R [] s1" "insert r (pass_visited s) \<subseteq> pass_visited s1" by auto
    from Cons.IH [OF 1(2)] Cons.prems(2) obtain s2 where 2: "finish_roots f roots s1 = Some s2"
      "pass_ok f R [] s2" "set roots \<union> pass_visited s1 \<subseteq> pass_visited s2" by auto
    with 1 False show ?thesis by auto
  qed
qed simp

text \<open>What the first pass leaves behind.\<close>

definition finished :: "('n \<Rightarrow> 'n list) \<Rightarrow> 'n list \<Rightarrow> 'n reversed \<Rightarrow> bool" where
  "finished f order reverse \<longleftrightarrow> distinct order \<and> covering f order \<and> (\<forall>x \<in> set order. set (f x) \<subseteq> set order)
     \<and> (\<forall>x y. x \<in> set (predecessors reverse y) \<longleftrightarrow> x \<in> set order \<and> y \<in> set (f x))"

lemma first_pass_finished:
  assumes "finite (reachable_from f (set roots))"
  obtains s where "finish_roots f roots first_pass_new = Some s" "finished f (pass_order s) (pass_reverse s)"
    "set (pass_order s) = reachable_from f (set roots)"
proof -
  have "pass_ok f (set roots) [] first_pass_new"
    by (simp add: pass_ok_def stack_ok_def entries_ok_def first_pass_new_def predecessors_def)
  from finish_roots_returns [OF assms this order_refl] obtain s where s: "finish_roots f roots first_pass_new = Some s"
    "pass_ok f (set roots) [] s" "set roots \<subseteq> pass_visited s" by auto
  from s(2) have f: "finished f (pass_order s) (pass_reverse s)" "pass_visited s = set (pass_order s)"
    "set (pass_order s) \<subseteq> reachable_from f (set roots)"
    by (auto simp: pass_ok_def stack_ok_def entries_ok_def finished_def)
  with s(3) reachable_least [of "set roots" "set (pass_order s)" f] have "set (pass_order s) = reachable_from f (set roots)"
    by (auto simp: finished_def)
  with s(1) f(1) show ?thesis by (rule that)
qed

subsection \<open>The second pass\<close>

lemma push_unvisited_spec:
  assumes "push_unvisited ps V st = (V', st')"
  obtains new where "st' = new @ st" "distinct new" "set new = set ps - V" "V' = V \<union> set ps"
  using assms
proof (induction ps arbitrary: V st thesis)
  case (Cons q ps)
  show ?case
  proof (cases "q \<in> V")
    case True
    with Cons.prems(2) have run: "push_unvisited ps V st = (V', st')" by simp
    obtain new where "st' = new @ st" "distinct new" "set new = set ps - V" "V' = V \<union> set ps"
      by (rule Cons.IH [OF _ run]) auto
    with True show ?thesis by (intro Cons.prems(1) [of new]) auto
  next
    case False
    from False Cons.prems(2) have run: "push_unvisited ps (insert q V) (q # st) = (V', st')" by simp
    obtain new where "st' = new @ q # st" "distinct new" "set new = set ps - insert q V" "V' = insert q V \<union> set ps"
      by (rule Cons.IH [OF _ run]) auto
    with False show ?thesis by (intro Cons.prems(1) [of "new @ [q]"]) auto
  qed
qed simp

definition backward_closed :: "'n reversed \<Rightarrow> 'n set \<Rightarrow> bool" where
  "backward_closed reverse V \<longleftrightarrow> (\<forall>y \<in> V. set (predecessors reverse y) \<subseteq> V)"

definition members_ok :: "('n \<Rightarrow> 'n list) \<Rightarrow> 'n reversed \<Rightarrow> 'n set \<Rightarrow> 'n set \<Rightarrow> 'n \<Rightarrow> 'n list \<Rightarrow> 'n set \<Rightarrow> 'n list \<Rightarrow> bool" where
  "members_ok f reverse U V r stack visited component \<longleftrightarrow> visited = V \<union> set (component @ stack)
     \<and> distinct (component @ stack) \<and> set (component @ stack) \<inter> V = {} \<and> r \<in> set (component @ stack)
     \<and> (\<forall>x \<in> set (component @ stack). x \<in> U \<and> reaches f x r)
     \<and> (\<forall>y \<in> set component. set (predecessors reverse y) \<subseteq> visited)"

lemma members_ok_step:
  assumes "finished f order reverse" "members_ok f reverse (set order) V r (node # rest) visited component"
    "push_unvisited (predecessors reverse node) visited rest = (visited', stack')"
  shows "members_ok f reverse (set order) V r stack' visited' (component @ [node])
    \<and> card (set order - visited') + length stack' < card (set order - visited) + length (node # rest)"
proof -
  obtain new where new: "stack' = new @ rest" "distinct new" "set new = set (predecessors reverse node) - visited"
    "visited' = visited \<union> set (predecessors reverse node)" by (rule push_unvisited_spec [OF assms(3)])
  have pred: "x \<in> set order \<and> reaches f x r" if "x \<in> set (predecessors reverse node)" for x
    using that assms(1,2) by (auto simp: finished_def members_ok_def intro: converse_rtrancl_into_rtrancl edges_iff [THEN iffD2])
  have "set order - visited = set new \<union> (set order - visited')" using new pred by auto
  moreover have "set new \<inter> (set order - visited') = {}" using new by auto
  ultimately have "card (set order - visited) = length new + card (set order - visited')"
    using new(2) by (metis List.finite_set card_Un_disjoint distinct_card finite_Diff)
  moreover have "members_ok f reverse (set order) V r stack' visited' (component @ [node])"
    using assms(2) new pred unfolding members_ok_def by auto
  ultimately show ?thesis using new(1) by simp
qed

lemma component_loop_returns:
  assumes "finished f order reverse" "members_ok f reverse (set order) V r stack visited component"
  shows "\<exists>visited' component'. component_loop reverse stack visited component = Some (visited', component')
    \<and> members_ok f reverse (set order) V r [] visited' component'"
  using assms(2)
proof (induction "card (set order - visited) + length stack" arbitrary: stack visited component rule: less_induct)
  case less
  show ?case
  proof (cases stack)
    case Nil
    with less.prems show ?thesis by (simp add: component_loop.simps)
  next
    case (Cons node rest)
    obtain visited' stack' where p: "push_unvisited (predecessors reverse node) visited rest = (visited', stack')" by fastforce
    from members_ok_step [OF assms(1) _ p] less.prems Cons less.hyps [of visited' stack' "component @ [node]"] p
    show ?thesis by (subst component_loop.simps) auto
  qed
qed

text \<open>
  The latest finished node that is left reaches every node left that reaches it. The argument goes back along the
  path: an edge to a node finished earlier stays among those already reached, and one to a node finished later
  is covered.
\<close>

lemma two_splits:
  assumes "p1 @ w # p2 = q1 @ v # q2"
  shows "(\<exists>b. p2 = b @ v # q2) \<or> set (w # p2) \<subseteq> set (v # q2)"
  using assms by (auto simp: append_eq_append_conv2 Cons_eq_append_conv append_eq_Cons_conv)

lemma backward_edge:
  "finished f order reverse \<Longrightarrow> backward_closed reverse V \<Longrightarrow> x \<in> set order \<Longrightarrow> y \<in> set (f x) \<Longrightarrow> y \<in> V \<Longrightarrow> x \<in> V"
  unfolding finished_def backward_closed_def by blast

lemma reached_back:
  assumes "finished f (a @ r # c) reverse" "backward_closed reverse V" "set c \<subseteq> V" "reaches f w r"
    and "w \<in> set (a @ r # c)" "w \<notin> V" "a @ [r] = p1 @ w # p2"
  shows "\<forall>z \<in> set (w # p2). reaches f r z"
  using assms(4-7)
proof (induction arbitrary: p1 p2 rule: converse_rtrancl_induct)
  case base
  have "distinct (a @ [r])" using assms(1) by (simp add: finished_def)
  with base(3) have "p2 = []" by (cases p2 rule: rev_cases) auto
  then show ?case by simp
next
  case (step w v)
  have v: "v \<in> set (a @ r # c)" "v \<notin> V"
    using step.hyps(1) step.prems backward_edge [OF assms(1,2), of w v] assms(1) by (auto simp: finished_def)
  with assms(3) have "v \<in> set (a @ [r])" by auto
  then obtain q1 q2 where q: "a @ [r] = q1 @ v # q2" by (meson split_list)
  from step.IH [OF v q] have IH: "\<forall>z \<in> set (v # q2). reaches f r z" .
  from step.prems(3) q have "p1 @ w # p2 = q1 @ v # q2" by simp
  from two_splits [OF this] show ?case
  proof
    assume "\<exists>b. p2 = b @ v # q2"
    then obtain b where 1: "p2 = b @ v # q2" ..
    with step.prems(3) have "a @ r # c = (p1 @ w # b) @ v # (q2 @ c)"
      by (metis append.assoc append_Cons append_Nil)
    with assms(1) have "covers f (p1 @ w # b) v" unfolding finished_def covering_def by metis
    with step.hyps(1) have "\<forall>z \<in> set (w # b). reaches f v z" by (simp add: covers_def)
    with IH 1 show ?thesis by (auto intro: rtrancl_trans)
  next
    assume "set (w # p2) \<subseteq> set (v # q2)"
    with IH show ?thesis by blast
  qed
qed

definition component_of :: "('n \<Rightarrow> 'n list) \<Rightarrow> 'n \<Rightarrow> 'n set" where
  "component_of f r = {w. reaches f r w \<and> reaches f w r}"

lemma reaches_in_order: "reaches f x y \<Longrightarrow> x \<in> set order \<Longrightarrow> finished f order reverse \<Longrightarrow> y \<in> set order"
  by (induction rule: rtrancl_induct) (auto simp: finished_def)

lemma reaches_backward:
  assumes "finished f order reverse" "backward_closed reverse V" "reaches f x y" "x \<in> set order" "y \<in> V"
  shows "x \<in> V"
  using assms(3-5)
proof (induction rule: converse_rtrancl_induct)
  case (step x z)
  then have "z \<in> V" using assms(1) by (auto simp: finished_def)
  with step.hyps(1) step.prems(1) show ?case using backward_edge [OF assms(1,2), of x z] by simp
qed

lemma members_are_component:
  assumes "finished f (a @ r # c) reverse" "backward_closed reverse V" "set c \<subseteq> V"
    and "members_ok f reverse (set (a @ r # c)) V r [] visited component"
  shows "set component = component_of f r" "visited = V \<union> set component" "backward_closed reverse visited"
proof -
  show v: "visited = V \<union> set component" using assms(4) by (simp add: members_ok_def)
  show b: "backward_closed reverse visited" using assms(2,4) by (auto simp: members_ok_def backward_closed_def)
  have "reaches f r w" if "w \<in> set component" for w
  proof -
    from that assms(3,4) have w: "reaches f w r" "w \<in> set (a @ r # c)" "w \<notin> V" "w \<in> set (a @ [r])"
      by (auto simp: members_ok_def)
    then obtain p1 p2 where "a @ [r] = p1 @ w # p2" by (meson split_list)
    from reached_back [OF assms(1-3) w(1-3) this] show ?thesis by simp
  qed
  moreover have "w \<in> set component" if "reaches f r w" "reaches f w r" for w
  proof -
    have r: "r \<in> set component" "r \<notin> V" using assms(4) by (auto simp: members_ok_def)
    have "w \<in> set (a @ r # c)" using reaches_in_order [OF that(1) _ assms(1)] by simp
    from reaches_backward [OF assms(1) b that(2) this] r v have "w \<in> V \<union> set component" by simp
    moreover have "w \<notin> V" using reaches_backward [OF assms(1,2) that(1)] r by auto
    ultimately show ?thesis by simp
  qed
  ultimately show "set component = component_of f r" using assms(4) by (auto simp: component_of_def members_ok_def)
qed

text \<open>The components found so far: whole, disjoint, closed against the edges and in order.\<close>

definition components_ok :: "('n \<Rightarrow> 'n list) \<Rightarrow> 'n reversed \<Rightarrow> 'n set \<Rightarrow> 'n set \<Rightarrow> 'n list list \<Rightarrow> bool" where
  "components_ok f reverse U visited cs \<longleftrightarrow> visited = set (concat cs) \<and> visited \<subseteq> U \<and> distinct (concat cs)
     \<and> backward_closed reverse visited \<and> (\<forall>c \<in> set cs. \<exists>x \<in> set c. set c = component_of f x)
     \<and> sorted_wrt (\<lambda>c d. \<forall>x \<in> set d. \<forall>y \<in> set c. y \<notin> set (f x)) cs"

lemma components_ok_snoc:
  assumes "finished f (a @ r # c) reverse" "components_ok f reverse (set (a @ r # c)) V cs" "set c \<subseteq> V"
    and m: "members_ok f reverse (set (a @ r # c)) V r [] visited component"
  shows "components_ok f reverse (set (a @ r # c)) visited (cs @ [component]) \<and> r \<in> visited"
proof -
  have b: "backward_closed reverse V" using assms(2) unfolding components_ok_def by blast
  note M = members_are_component [OF assms(1) b assms(3) m]
  have r: "r \<in> set component" "distinct component" "set component \<inter> V = {}" "set component \<subseteq> set (a @ r # c)"
    using m by (auto simp: members_ok_def)
  have "y \<notin> set (f x)" if "x \<in> set component" "y \<in> V" for x y
    using that r(3,4) backward_edge [OF assms(1) b, of x y] by blast
  moreover have V: "V = set (concat cs)" using assms(2) by (simp add: components_ok_def)
  ultimately have "\<forall>d \<in> set cs. \<forall>x \<in> set component. \<forall>y \<in> set d. y \<notin> set (f x)" by auto
  with assms(2) M r show ?thesis unfolding components_ok_def by (auto simp: sorted_wrt_append)
qed

lemma components_loop_returns:
  assumes "finished f order reverse" "rev order = done @ roots" "components_ok f reverse (set order) visited cs"
    "set done \<subseteq> visited"
  shows "\<exists>cs'. components_loop reverse roots visited cs = Some cs' \<and> components_ok f reverse (set order) (set order) cs'"
  using assms(2-4)
proof (induction roots arbitrary: "done" visited cs)
  case Nil
  then have "visited = set order" by (metis append_Nil2 components_ok_def set_rev subset_antisym)
  with Nil show ?case by simp
next
  case (Cons r roots)
  from Cons.prems(1) have order: "order = rev roots @ r # rev done" by (metis append.assoc rev.simps(2) rev_append rev_rev_ident append_Cons append_Nil)
  show ?case
  proof (cases "r \<in> visited")
    case True
    with Cons.IH [of "done @ [r]" visited cs] Cons.prems show ?thesis by simp
  next
    case False
    have "members_ok f reverse (set order) visited r [r] (insert r visited) []"
      using False order by (simp add: members_ok_def)
    from component_loop_returns [OF assms(1) this] obtain visited' component where
      run: "component_loop reverse [r] (insert r visited) [] = Some (visited', component)"
      and m: "members_ok f reverse (set order) visited r [] visited' component" by blast
    from m have sub: "visited \<subseteq> visited'" by (auto simp: members_ok_def)
    from components_ok_snoc [of f "rev roots" r "rev done" reverse visited cs visited' component] m assms(1) Cons.prems order
    have "components_ok f reverse (set order) visited' (cs @ [component])" "r \<in> visited'" by simp_all
    with Cons.IH [of "done @ [r]" visited' "cs @ [component]"] Cons.prems sub run False show ?thesis by auto
  qed
qed

lemma strongly_connected_components_return:
  assumes "finite (reachable_from successors (set roots))"
  obtains cs where "strongly_connected_components roots successors = Some cs"
    "distinct (concat cs)" "set (concat cs) = reachable_from successors (set roots)"
    "\<And>c x y. c \<in> set cs \<Longrightarrow> x \<in> set c \<Longrightarrow> y \<in> set c \<longleftrightarrow> reaches successors x y \<and> reaches successors y x"
    "\<And>i j x y. i < length cs \<Longrightarrow> j < length cs \<Longrightarrow> x \<in> set (cs ! i) \<Longrightarrow> y \<in> set (cs ! j) \<Longrightarrow> y \<in> set (successors x) \<Longrightarrow> i \<le> j"
proof -
  obtain s where s: "finish_roots successors roots first_pass_new = Some s" "finished successors (pass_order s) (pass_reverse s)"
    "set (pass_order s) = reachable_from successors (set roots)" by (rule first_pass_finished [OF assms])
  have "components_ok successors (pass_reverse s) (set (pass_order s)) {} []" by (simp add: components_ok_def backward_closed_def)
  from components_loop_returns [OF s(2) _ this, of "[]"] obtain cs where
    cs: "components_loop (pass_reverse s) (rev (pass_order s)) {} [] = Some cs"
    "components_ok successors (pass_reverse s) (set (pass_order s)) (set (pass_order s)) cs" by auto
  have run: "strongly_connected_components roots successors = Some cs" using s(1) cs(1) by (simp add: strongly_connected_components_def)
  have whole: "y \<in> set c \<longleftrightarrow> reaches successors x y \<and> reaches successors y x" if "c \<in> set cs" "x \<in> set c" for c x y
  proof -
    have "\<forall>c \<in> set cs. \<exists>x \<in> set c. set c = component_of successors x" using cs(2) unfolding components_ok_def by (elim conjE)
    from bspec [OF this that(1)] obtain r where r: "r \<in> set c" "set c = component_of successors r" by (elim bexE) simp
    with that show ?thesis by (auto simp: component_of_def intro: rtrancl_trans)
  qed
  have ordered: "i \<le> j" if "i < length cs" "j < length cs" "x \<in> set (cs ! i)" "y \<in> set (cs ! j)" "y \<in> set (successors x)" for i j x y
  proof (rule ccontr)
    assume "\<not> i \<le> j"
    moreover have "sorted_wrt (\<lambda>c d. \<forall>x \<in> set d. \<forall>y \<in> set c. y \<notin> set (successors x)) cs"
      using cs(2) unfolding components_ok_def by (elim conjE)
    ultimately show False using that sorted_wrt_nth_less [of _ cs j i] by fastforce
  qed
  show ?thesis using run cs(2) s(3) whole ordered by (intro that [of cs]) (auto simp: components_ok_def)
qed

text \<open>Among roots that no edge joins, the component of a later root comes first.\<close>

lemma components_of_unrelated_roots: "strongly_connected_components [0 :: nat, 1] (\<lambda>n. []) = Some [[1], [0]]"
  by code_simp

text \<open>
  C9. The strongly connected components of a finite graph: the search returns, every vertex the roots reach is in
  exactly one component, a component is a whole class of vertices that reach each other, and between distinct
  components edges go from earlier ones to later ones only.
\<close>

theorem strongly_connected_components_correct:
  assumes "finite (reachable_from successors (set roots))"
  shows "\<exists>cs. strongly_connected_components roots successors = Some cs
    \<and> distinct (concat cs) \<and> set (concat cs) = reachable_from successors (set roots)
    \<and> (\<forall>c \<in> set cs. \<forall>x \<in> set c. \<forall>y. y \<in> set c \<longleftrightarrow> (x, y) \<in> (edges successors)\<^sup>* \<and> (y, x) \<in> (edges successors)\<^sup>*)
    \<and> (\<forall>i j x y. i < length cs \<and> j < length cs \<and> x \<in> set (cs ! i) \<and> y \<in> set (cs ! j) \<and> y \<in> set (successors x) \<longrightarrow> i \<le> j)"
  by (rule strongly_connected_components_return [OF assms]) blast

theorem strongly_connected_components_correct_witness:
  "(let successors = (\<lambda>n. if n = 0 then [1 :: nat] else if n = 1 then [0, 2] else if n = 2 then [3] else if n = 3 then [2] else [])
    in finite (reachable_from successors (set [2, 0, 4])) \<and> strongly_connected_components [2, 0, 4] successors = Some [[4], [0, 1], [2, 3]])"
proof -
  let ?f = "\<lambda>n. if n = 0 then [1 :: nat] else if n = 1 then [0, 2] else if n = 2 then [3] else if n = 3 then [2] else []"
  have "reachable_from ?f (set [2, 0, 4]) \<subseteq> {0, 1, 2, 3, 4}" by (rule reachable_least) (auto split: if_splits)
  then have f: "finite (reachable_from ?f (set [2, 0, 4]))" by (rule finite_subset) simp
  have "strongly_connected_components [2, 0, 4] ?f = Some [[4], [0, 1], [2, 3]]"
    by (simp add: strongly_connected_components_def first_pass_new_def finish_loop.simps component_loop.simps
        push_predecessor_def predecessors_def)
  with f strongly_connected_components_correct [OF f] show ?thesis by (auto simp: Let_def)
qed

end
