(* ===== verification/Execution_Proof.thy ===== *)
theory Execution_Proof
  imports Dependency_Graph Ordered_Map "HOL-Library.Product_Lexorder" "HOL-Library.Option_ord"
begin

text \<open>
  Dependencies between execution proofs (\<open>crates/bray-symbols/src/semantic/execution/proof.rs\<close>, the obligations in
  \<open>contract.rs\<close> and \<open>property.rs\<close>). An implementation may rely on other callables; the check over the strongly
  connected components rejects evidence that is missing or that assumes its own completion, and everything
  that relies on rejected evidence.

  The lemmas show that the check returns and which keys it rejects, and for which reason.
\<close>

subsection \<open>Obligations\<close>

datatype execution_property = Pure | Total

datatype 'c callable_execution_obligation =
    Property execution_property "'c option"
  | Observation
  | Termination
  | FiniteIteration
  | Postcondition 'c

fun is_internal :: "'c callable_execution_obligation \<Rightarrow> bool" where
  "is_internal Observation = True"
| "is_internal Termination = True"
| "is_internal FiniteIteration = True"
| "is_internal _ = False"

fun requires_acyclic_proof :: "'c callable_execution_obligation \<Rightarrow> bool" where
  "requires_acyclic_proof (Property Pure _) = False"
| "requires_acyclic_proof Observation = False"
| "requires_acyclic_proof _ = True"

text \<open>The derived order: constructors in the order of their declaration, then their fields.\<close>

fun property_rank :: "execution_property \<Rightarrow> nat" where
  "property_rank Pure = 0"
| "property_rank Total = 1"

fun obligation_rank :: "'c callable_execution_obligation \<Rightarrow> nat \<times> nat \<times> 'c option" where
  "obligation_rank (Property p c) = (0, property_rank p, c)"
| "obligation_rank Observation = (1, 0, None)"
| "obligation_rank Termination = (2, 0, None)"
| "obligation_rank FiniteIteration = (3, 0, None)"
| "obligation_rank (Postcondition c) = (4, 0, Some c)"

lemma obligation_rank_inj: "obligation_rank x = obligation_rank y \<longleftrightarrow> x = y"
proof -
  have "property_rank p = property_rank q \<longleftrightarrow> p = q" for p q by (cases p; cases q) simp_all
  then show ?thesis by (cases x; cases y) auto
qed

instantiation callable_execution_obligation :: (linorder) linorder
begin

definition less_eq_callable_execution_obligation where
  "(x :: 'a callable_execution_obligation) \<le> y \<longleftrightarrow> obligation_rank x \<le> obligation_rank y"

definition less_callable_execution_obligation where
  "(x :: 'a callable_execution_obligation) < y \<longleftrightarrow> obligation_rank x < obligation_rank y"

instance
  by standard (auto simp: less_eq_callable_execution_obligation_def less_callable_execution_obligation_def obligation_rank_inj
      less_le_not_le intro: order_trans antisym dest: antisym)

end

type_synonym ('k, 'c) proof_key = "'k \<times> 'c callable_execution_obligation"

datatype 'k execution_proof_failure = MissingCandidate 'k | CircularCompletion 'k

type_synonym ('k, 'c) proof_graph = "(('k, 'c) proof_key, ('k, 'c) proof_key list) ordered_map"

type_synonym ('k, 'c) proof_failures = "(('k, 'c) proof_key, 'k execution_proof_failure) ordered_map"

subsection \<open>The check\<close>

definition add_consumer :: "'a \<Rightarrow> 'a \<Rightarrow> ('a :: linorder, 'a list) ordered_map \<Rightarrow> ('a, 'a list) ordered_map" where
  "add_consumer dependency key reverse = map_insert dependency (insort_insert key (listed reverse dependency)) reverse"

primrec scan_dependencies ::
    "('k :: linorder, 'c :: linorder) proof_graph \<Rightarrow> ('k, 'c) proof_key \<Rightarrow> ('k, 'c) proof_key list
     \<Rightarrow> ('k, 'c) proof_graph \<times> ('k, 'c) proof_failures \<Rightarrow> ('k, 'c) proof_graph \<times> ('k, 'c) proof_failures" where
  "scan_dependencies graph key [] s = s"
| "scan_dependencies graph key (dependency # others) s = (case s of (reverse, failures) \<Rightarrow>
     scan_dependencies graph key others (add_consumer dependency key reverse,
       if map_of graph dependency = None then map_insert dependency (MissingCandidate (fst dependency)) failures else failures))"

primrec scan_graph ::
    "('k :: linorder, 'c :: linorder) proof_graph \<Rightarrow> ('k, 'c) proof_graph \<Rightarrow> ('k, 'c) proof_graph \<times> ('k, 'c) proof_failures
     \<Rightarrow> ('k, 'c) proof_graph \<times> ('k, 'c) proof_failures" where
  "scan_graph graph [] s = s"
| "scan_graph graph (entry # entries) s = scan_graph graph entries (scan_dependencies graph (fst entry) (snd entry) s)"

definition circular_completion ::
    "('k, 'c) proof_graph \<Rightarrow> ('k, 'c) proof_key list \<Rightarrow> ('k, 'c) proof_key option" where
  "circular_completion graph component = (case find (\<lambda>key. requires_acyclic_proof (snd key)) component of
     None \<Rightarrow> None
   | Some key \<Rightarrow> if 1 < length component \<or> key \<in> set (listed graph key) then Some key else None)"

definition fail_component ::
    "('k :: linorder, 'c :: linorder) proof_graph \<Rightarrow> ('k, 'c) proof_key list \<Rightarrow> ('k, 'c) proof_failures \<Rightarrow> ('k, 'c) proof_failures" where
  "fail_component graph component failures = (case circular_completion graph component of
     None \<Rightarrow> failures
   | Some cause \<Rightarrow> foldl (\<lambda>m key. map_insert key (CircularCompletion (fst cause)) m) failures component)"

primrec fail_consumers ::
    "'k execution_proof_failure \<Rightarrow> ('k :: linorder, 'c :: linorder) proof_key list \<Rightarrow> ('k, 'c) proof_failures
     \<Rightarrow> ('k, 'c) proof_key list \<Rightarrow> ('k, 'c) proof_failures \<times> ('k, 'c) proof_key list" where
  "fail_consumers failure [] failures pending = (failures, pending)"
| "fail_consumers failure (consumer # others) failures pending =
     (if map_of failures consumer = None
      then fail_consumers failure others (map_insert consumer failure failures) (pending @ [consumer])
      else fail_consumers failure others failures pending)"

partial_function (option) propagate_loop ::
    "('k :: linorder, 'c :: linorder) proof_graph \<Rightarrow> ('k, 'c) proof_key list \<Rightarrow> ('k, 'c) proof_failures \<Rightarrow> ('k, 'c) proof_failures run" where
  "propagate_loop reverse pending failures = (case pending of
     [] \<Rightarrow> Some failures
   | key # rest \<Rightarrow> (case map_of failures key of
       None \<Rightarrow> propagate_loop reverse rest failures
     | Some failure \<Rightarrow> (case fail_consumers failure (listed reverse key) failures rest of
         (failures', pending') \<Rightarrow> propagate_loop reverse pending' failures')))"

declare propagate_loop.simps [code]

definition check_execution_proof_dependencies ::
    "('k :: linorder, 'c :: linorder) proof_graph \<Rightarrow> ('k, 'c) proof_failures run" where
  "check_execution_proof_dependencies graph = (case scan_graph graph graph ([], []) of
     (reverse, failures) \<Rightarrow> do {
       components \<leftarrow> strongly_connected_components (map fst graph) (listed graph);
       let failures' = foldl (\<lambda>m component. fail_component graph component m) failures components;
       propagate_loop reverse (map fst failures') failures'
     })"

subsection \<open>Keys and reasons\<close>

declare map_insert_simps [simp]

definition proof_keys :: "('a, 'a list) ordered_map \<Rightarrow> 'a set" where
  "proof_keys graph = fst ` set graph \<union> (\<Union>ds \<in> snd ` set graph. set ds)"

text \<open>What a recorded reason says of a key.\<close>

fun justified :: "('k, 'c) proof_graph \<Rightarrow> ('k, 'c) proof_key \<Rightarrow> 'k execution_proof_failure \<Rightarrow> bool" where
  "justified graph x (MissingCandidate owner) \<longleftrightarrow>
     (\<exists>m. (x, m) \<in> (edges (listed graph))\<^sup>* \<and> m \<notin> fst ` set graph \<and> fst m = owner)"
| "justified graph x (CircularCompletion owner) \<longleftrightarrow>
     (\<exists>m. (x, m) \<in> (edges (listed graph))\<^sup>* \<and> requires_acyclic_proof (snd m) \<and> (m, m) \<in> (edges (listed graph))\<^sup>+ \<and> fst m = owner)"

definition all_justified :: "('k, 'c) proof_graph \<Rightarrow> ('k, 'c) proof_failures \<Rightarrow> bool" where
  "all_justified graph failures \<longleftrightarrow> (\<forall>x failure. map_of failures x = Some failure \<longrightarrow> justified graph x failure)"

lemma justified_back: "y \<in> set (listed graph x) \<Longrightarrow> justified graph y failure \<Longrightarrow> justified graph x failure"
  by (cases failure) (auto intro: converse_rtrancl_into_rtrancl edges_iff [THEN iffD2])

lemma all_justified_insert:
  "map_ok failures \<Longrightarrow> all_justified graph failures \<Longrightarrow> justified graph x failure \<Longrightarrow> all_justified graph (map_insert x failure failures)"
  by (simp add: all_justified_def)

subsection \<open>The first scan\<close>

lemma scan_dependencies_spec:
  assumes "map_ok reverse" "map_ok failures" "scan_dependencies graph key ds (reverse, failures) = (reverse', failures')"
  shows "map_ok reverse' \<and> map_ok failures'
    \<and> (\<forall>y. set (listed reverse' y) = set (listed reverse y) \<union> (if y \<in> set ds then {key} else {}))
    \<and> (\<forall>x. map_of failures' x = (if x \<in> set ds \<and> map_of graph x = None then Some (MissingCandidate (fst x)) else map_of failures x))"
  using assms
proof (induction ds arbitrary: reverse failures)
  case (Cons d ds)
  let ?r = "add_consumer d key reverse"
  let ?f = "if map_of graph d = None then map_insert d (MissingCandidate (fst d)) failures else failures"
  have ok: "map_ok ?r" "map_ok ?f" using Cons.prems by (auto simp: add_consumer_def)
  have "set (listed ?r y) = set (listed reverse y) \<union> (if y = d then {key} else {})" for y
    using Cons.prems(1) by (simp add: add_consumer_def listed_map_insert set_insort_insert)
  moreover have "map_of ?f x = (if x = d \<and> map_of graph x = None then Some (MissingCandidate (fst x)) else map_of failures x)" for x
    using Cons.prems(2) by auto
  ultimately show ?case using Cons.IH [OF ok] Cons.prems(3) by auto
qed simp

lemma scan_graph_spec:
  assumes "map_ok reverse" "map_ok failures" "scan_graph graph entries (reverse, failures) = (reverse', failures')"
  shows "map_ok reverse' \<and> map_ok failures'
    \<and> (\<forall>y. set (listed reverse' y) = set (listed reverse y) \<union> {x. \<exists>ds. (x, ds) \<in> set entries \<and> y \<in> set ds})
    \<and> (\<forall>x. map_of failures' x = (if (\<exists>ds \<in> snd ` set entries. x \<in> set ds) \<and> map_of graph x = None
          then Some (MissingCandidate (fst x)) else map_of failures x))"
  using assms
proof (induction entries arbitrary: reverse failures)
  case (Cons e entries)
  obtain r f where s: "scan_dependencies graph (fst e) (snd e) (reverse, failures) = (r, f)" by fastforce
  note S = scan_dependencies_spec [OF Cons.prems(1,2) s]
  have "scan_graph graph entries (r, f) = (reverse', failures')" using Cons.prems(3) s by simp
  from Cons.IH [OF _ _ this] S show ?case by (cases e) auto
qed simp

lemma scan_graph_graph:
  assumes "map_ok graph" "scan_graph graph graph ([], []) = (reverse, failures)"
  shows "map_ok failures" "x \<in> set (listed reverse y) \<longleftrightarrow> y \<in> set (listed graph x)"
    "map_of failures x = (if x \<in> proof_keys graph - fst ` set graph then Some (MissingCandidate (fst x)) else None)"
proof -
  note S = scan_graph_spec [OF _ _ assms(2)]
  show "map_ok failures" using S by simp
  show "x \<in> set (listed reverse y) \<longleftrightarrow> y \<in> set (listed graph x)" 
    using S by (simp add: listed_iff [OF assms(1)] listed_def [of "[]"] del: split_paired_All)
  have "map_of failures x = (if (\<exists>ds \<in> snd ` set graph. x \<in> set ds) \<and> map_of graph x = None
      then Some (MissingCandidate (fst x)) else None)" using S by (simp del: split_paired_All)
  then show "map_of failures x = (if x \<in> proof_keys graph - fst ` set graph then Some (MissingCandidate (fst x)) else None)"
    by (simp add: proof_keys_def map_of_eq_None_iff)
qed

subsection \<open>Circular components\<close>

lemma listed_known: "y \<in> set (listed graph x) \<Longrightarrow> y \<in> proof_keys graph"
  by (cases "map_of graph x") (auto simp: listed_def proof_keys_def image_iff dest!: map_of_SomeD intro!: bexI)

lemma listed_key: "y \<in> set (listed graph x) \<Longrightarrow> x \<in> proof_keys graph"
  by (cases "map_of graph x") (auto simp: listed_def proof_keys_def image_iff dest!: map_of_SomeD intro!: bexI)

lemma reachable_known: "reachable_from (listed graph) (fst ` set graph) \<subseteq> proof_keys graph"
proof (rule reachable_least)
  show "fst ` set graph \<subseteq> proof_keys graph" by (auto simp: proof_keys_def)
  show "set (listed graph x) \<subseteq> proof_keys graph" if "x \<in> proof_keys graph" for x by (auto intro: listed_known)
qed

lemma known_reachable: "map_ok graph \<Longrightarrow> x \<in> proof_keys graph \<Longrightarrow> x \<in> reachable_from (listed graph) (fst ` set graph)"
proof -
  assume m: "map_ok graph" and "x \<in> proof_keys graph"
  then consider "x \<in> fst ` set graph" | k ds where "(k, ds) \<in> set graph" "x \<in> set ds" by (auto simp: proof_keys_def)
  then show ?thesis
  proof cases
    case (2 k ds)
    with m have "x \<in> set (listed graph k)" "k \<in> fst ` set graph" by (auto simp: listed_iff intro: rev_image_eqI)
    then show ?thesis by (blast intro: reachable_edge reachable_root)
  qed (rule reachable_root)
qed

lemma fail_component_spec:
  assumes "map_ok failures" "all_justified graph failures"
    and whole: "\<And>x y. x \<in> set component \<Longrightarrow> y \<in> set component \<Longrightarrow> (x, y) \<in> (edges (listed graph))\<^sup>*"
    and "distinct component"
  shows "map_ok (fail_component graph component failures)" "all_justified graph (fail_component graph component failures)"
    "fst ` set (fail_component graph component failures) = fst ` set failures
      \<union> (if circular_completion graph component = None then {} else set component)"
proof -
  have "map_ok (fail_component graph component failures) \<and> all_justified graph (fail_component graph component failures)
    \<and> fst ` set (fail_component graph component failures) = fst ` set failures
      \<union> (if circular_completion graph component = None then {} else set component)"
  proof (cases "circular_completion graph component")
    case None
    with assms show ?thesis by (simp add: fail_component_def)
  next
    case (Some cause)
    then have cause: "cause \<in> set component" "requires_acyclic_proof (snd cause)" "1 < length component \<or> cause \<in> set (listed graph cause)"
      by (auto simp: circular_completion_def find_Some_iff split: option.splits if_splits dest: nth_mem)
    have "(cause, cause) \<in> (edges (listed graph))\<^sup>+"
    proof (cases "cause \<in> set (listed graph cause)")
      case False
      with cause(3) assms(4) have "set component \<noteq> {cause}" by (auto simp: distinct_card [symmetric])
      with cause(1) obtain other where o: "other \<in> set component" "other \<noteq> cause" by blast
      from whole [OF cause(1) o(1)] o(2) have "(cause, other) \<in> (edges (listed graph))\<^sup>+" by (auto simp: rtrancl_eq_or_trancl)
      then show ?thesis using whole [OF o(1) cause(1)] by (rule trancl_rtrancl_trancl)
    qed auto
    then have j: "justified graph x (CircularCompletion (fst cause))" if "x \<in> set component" for x
      using whole [OF that cause(1)] cause(2) unfolding justified.simps by blast
    have "map_ok (foldl (\<lambda>m key. map_insert key (CircularCompletion (fst cause)) m) failures xs)
      \<and> all_justified graph (foldl (\<lambda>m key. map_insert key (CircularCompletion (fst cause)) m) failures xs)
      \<and> fst ` set (foldl (\<lambda>m key. map_insert key (CircularCompletion (fst cause)) m) failures xs) = fst ` set failures \<union> set xs"
      if "set xs \<subseteq> set component" for xs
      using assms(1,2) that
      by (induction xs arbitrary: failures) (simp_all add: all_justified_insert j del: justified.simps)
    with Some show ?thesis by (simp add: fail_component_def)
  qed
  then show "map_ok (fail_component graph component failures)" "all_justified graph (fail_component graph component failures)"
    "fst ` set (fail_component graph component failures) = fst ` set failures
      \<union> (if circular_completion graph component = None then {} else set component)" by blast+
qed

lemma fail_components_spec:
  assumes "map_ok failures" "all_justified graph failures" "distinct (concat cs)"
    and "\<forall>c \<in> set cs. \<forall>x \<in> set c. \<forall>y \<in> set c. (x, y) \<in> (edges (listed graph))\<^sup>*"
  shows "map_ok (foldl (\<lambda>m c. fail_component graph c m) failures cs) \<and> all_justified graph (foldl (\<lambda>m c. fail_component graph c m) failures cs)
    \<and> fst ` set (foldl (\<lambda>m c. fail_component graph c m) failures cs) = fst ` set failures
      \<union> {x. \<exists>c \<in> set cs. circular_completion graph c \<noteq> None \<and> x \<in> set c}"
  using assms
proof (induction cs arbitrary: failures)
  case (Cons c cs)
  from Cons.prems have w: "\<And>x y. x \<in> set c \<Longrightarrow> y \<in> set c \<Longrightarrow> (x, y) \<in> (edges (listed graph))\<^sup>*" "distinct c" by auto
  note F = fail_component_spec [OF Cons.prems(1,2) w]
  from Cons.IH [OF F(1,2)] Cons.prems(3,4) show ?case by (auto simp: F(3))
qed simp

subsection \<open>Propagation\<close>

lemma fail_consumers_spec:
  assumes "map_ok failures" "all_justified graph failures" "fail_consumers failure cs failures pending = (failures', pending')"
    and "\<forall>c \<in> set cs. justified graph c failure"
  shows "map_ok failures' \<and> all_justified graph failures' \<and> fst ` set failures' = fst ` set failures \<union> set cs
    \<and> (\<exists>new. pending' = pending @ new \<and> distinct new \<and> set new = set cs - fst ` set failures)"
  using assms
proof (induction cs arbitrary: failures pending)
  case (Cons c cs)
  show ?case
  proof (cases "map_of failures c = None")
    case True
    from Cons.prems have ok: "map_ok (map_insert c failure failures)" "all_justified graph (map_insert c failure failures)"
      by (simp_all add: all_justified_insert)
    from Cons.IH [OF ok, of "pending @ [c]"] Cons.prems True obtain new where "map_ok failures'" "all_justified graph failures'"
      "fst ` set failures' = insert c (fst ` set failures \<union> set cs)" "pending' = pending @ [c] @ new" "distinct new"
      "set new = set cs - insert c (fst ` set failures)" by auto
    moreover have "c \<notin> fst ` set failures" using True by (simp add: map_of_eq_None_iff)
    ultimately show ?thesis by (intro conjI exI [of _ "c # new"]) auto
  next
    case False
    then have "c \<in> fst ` set failures" by (simp add: map_of_eq_None_iff)
    with Cons.IH [OF Cons.prems(1,2), of pending] Cons.prems(3,4) False show ?thesis by (auto simp: insert_absorb)
  qed
qed simp

definition propagating :: "('k :: linorder, 'c :: linorder) proof_graph \<Rightarrow> ('k, 'c) proof_key list \<Rightarrow> ('k, 'c) proof_failures \<Rightarrow> bool" where
  "propagating graph pending failures \<longleftrightarrow> map_ok failures \<and> all_justified graph failures \<and> fst ` set failures \<subseteq> proof_keys graph
     \<and> set pending \<subseteq> fst ` set failures
     \<and> (\<forall>y \<in> fst ` set failures - set pending. \<forall>x. y \<in> set (listed graph x) \<longrightarrow> x \<in> fst ` set failures)"

lemma finite_known: "finite (proof_keys graph)"
  by (simp add: proof_keys_def)

lemma propagating_step:
  assumes "propagating graph (key # rest) failures" "map_of failures key = Some failure"
    "fail_consumers failure (listed reverse key) failures rest = (failures', pending')"
    and reverse: "\<And>x. x \<in> set (listed reverse key) \<longleftrightarrow> key \<in> set (listed graph x)"
  shows "propagating graph pending' failures' \<and> fst ` set failures \<subseteq> fst ` set failures'
    \<and> card (proof_keys graph - fst ` set failures') + length pending' < card (proof_keys graph - fst ` set failures) + length (key # rest)"
proof -
  have ok: "map_ok failures" "all_justified graph failures" using assms(1) by (auto simp: propagating_def)
  have "justified graph key failure" using ok(2) assms(2) unfolding all_justified_def by blast
  then have "\<forall>c \<in> set (listed reverse key). justified graph c failure" using reverse justified_back by blast
  from fail_consumers_spec [OF ok assms(3) this] obtain new where S: "map_ok failures'" "all_justified graph failures'"
    "fst ` set failures' = fst ` set failures \<union> set (listed reverse key)" "pending' = rest @ new" "distinct new"
    "set new = set (listed reverse key) - fst ` set failures" by blast
  have k: "x \<in> proof_keys graph" if "x \<in> set (listed reverse key)" for x
    using that reverse by (auto intro: listed_key)
  have "proof_keys graph - fst ` set failures = set new \<union> (proof_keys graph - fst ` set failures')" using S k by auto
  moreover have "set new \<inter> (proof_keys graph - fst ` set failures') = {}" using S by auto
  ultimately have "card (proof_keys graph - fst ` set failures) = length new + card (proof_keys graph - fst ` set failures')"
    using S(5) finite_known by (metis List.finite_set card_Un_disjoint distinct_card finite_Diff)
  moreover have "x \<in> fst ` set failures'" if y: "y \<in> fst ` set failures' - set pending'" "y \<in> set (listed graph x)" for x y
  proof (cases "y = key")
    case False
    with y(1) S have "y \<in> fst ` set failures - set (key # rest)" by auto
    with assms(1) y(2) have "x \<in> fst ` set failures" unfolding propagating_def by blast
    with S(3) show ?thesis by simp
  qed (use y(2) reverse S(3) in simp)
  moreover have "fst ` set failures' \<subseteq> proof_keys graph" "set pending' \<subseteq> fst ` set failures'"
    using assms(1) S k unfolding propagating_def by auto
  ultimately have "propagating graph pending' failures'" "card (proof_keys graph - fst ` set failures) = length new + card (proof_keys graph - fst ` set failures')"
    using S(1,2) unfolding propagating_def by blast+
  with S show ?thesis by auto
qed

lemma propagate_loop_returns:
  assumes "\<And>x y. x \<in> set (listed reverse y) \<longleftrightarrow> y \<in> set (listed graph x)" "propagating graph pending failures"
  shows "\<exists>failures'. propagate_loop reverse pending failures = Some failures' \<and> propagating graph [] failures'
    \<and> fst ` set failures \<subseteq> fst ` set failures'"
  using assms(2)
proof (induction "card (proof_keys graph - fst ` set failures) + length pending" arbitrary: pending failures rule: less_induct)
  case less
  show ?case
  proof (cases pending)
    case Nil
    with less.prems show ?thesis by (simp add: propagate_loop.simps)
  next
    case (Cons key rest)
    have "key \<in> fst ` set failures" using less.prems Cons by (auto simp: propagating_def)
    then obtain failure where f: "map_of failures key = Some failure" by (metis map_of_keys not_None_eq)
    obtain failures' pending' where s: "fail_consumers failure (listed reverse key) failures rest = (failures', pending')" by fastforce
    note S = propagating_step [OF _ f s assms(1)]
    from S less.prems Cons less.hyps [of failures' pending'] f s show ?thesis by (subst propagate_loop.simps) auto
  qed
qed

lemma circular_component_found:
  assumes "distinct c" "x \<in> set c" "requires_acyclic_proof (snd x)" "(x, x) \<in> (edges (listed graph))\<^sup>+"
    and whole: "\<And>y. (x, y) \<in> (edges (listed graph))\<^sup>* \<and> (y, x) \<in> (edges (listed graph))\<^sup>* \<Longrightarrow> y \<in> set c"
  shows "circular_completion graph c \<noteq> None"
proof -
  obtain found where found: "find (\<lambda>key. requires_acyclic_proof (snd key)) c = Some found"
    using assms(2,3) by (metis find_None_iff option.exhaust)
  show ?thesis
  proof (cases "1 < length c")
    case False
    with assms(2) have c: "c = [x]" by (cases c) auto
    from assms(4) obtain y where y: "y \<in> set (listed graph x)" "(y, x) \<in> (edges (listed graph))\<^sup>*"
      by (auto dest: tranclD)
    then have "y \<in> set c" using whole [of y] by (simp add: r_into_rtrancl)
    with y(1) c have "x \<in> set (listed graph x)" by simp
    with c assms(3) show ?thesis by (simp add: circular_completion_def)
  qed (simp add: circular_completion_def found)
qed

lemma propagated_back:
  assumes "propagating graph [] failures" "(x, m) \<in> (edges (listed graph))\<^sup>*" "m \<in> fst ` set failures"
  shows "x \<in> fst ` set failures"
  using assms(2,3)
proof (induction rule: converse_rtrancl_induct)
  case (step x y)
  have "y \<in> fst ` set failures - set []" using step.IH [OF step.prems] by simp
  moreover have "y \<in> set (listed graph x)" using step.hyps(1) by simp
  ultimately show ?case using assms(1) unfolding propagating_def by blast
qed

lemma reaches_known: "(x, m) \<in> (edges (listed graph))\<^sup>* \<Longrightarrow> x \<in> proof_keys graph \<Longrightarrow> m \<in> proof_keys graph"
  by (induction rule: rtrancl_induct) (auto intro: listed_known)

text \<open>What the first scan and the components record, and that it accounts for every reason.\<close>

lemma scan_failures_keys:
  assumes "map_ok graph" "scan_graph graph graph ([], []) = (reverse, failures)"
  shows "fst ` set failures = proof_keys graph - fst ` set graph"
proof (rule set_eqI)
  fix x
  have "map_of failures x \<noteq> None \<longleftrightarrow> x \<in> proof_keys graph - fst ` set graph"
    unfolding scan_graph_graph(3) [OF assms, of x] by simp
  with map_of_keys [of failures x] show "x \<in> fst ` set failures \<longleftrightarrow> x \<in> proof_keys graph - fst ` set graph" by blast
qed

lemma justified_cause:
  assumes "map_ok graph" "x \<in> proof_keys graph" "justified graph x failure"
    and cs: "distinct (concat cs)" "set (concat cs) = reachable_from (listed graph) (set (map fst graph))"
      "\<And>c x y. c \<in> set cs \<Longrightarrow> x \<in> set c \<Longrightarrow> y \<in> set c \<longleftrightarrow> reaches (listed graph) x y \<and> reaches (listed graph) y x"
  obtains m where "reaches (listed graph) x m"
    "m \<in> proof_keys graph - fst ` set graph \<or> (\<exists>c \<in> set cs. circular_completion graph c \<noteq> None \<and> m \<in> set c)"
proof (cases failure)
  case (MissingCandidate owner)
  from assms(3) obtain m where m: "reaches (listed graph) x m" "m \<notin> fst ` set graph"
    unfolding MissingCandidate justified.simps by blast
  with reaches_known [OF m(1) assms(2)] that show ?thesis by blast
next
  case (CircularCompletion owner)
  from assms(3) obtain m where m: "reaches (listed graph) x m" "requires_acyclic_proof (snd m)" "(m, m) \<in> (edges (listed graph))\<^sup>+"
    unfolding CircularCompletion justified.simps by blast
  have "m \<in> set (concat cs)" unfolding cs(2) set_map by (rule known_reachable [OF assms(1) reaches_known [OF m(1) assms(2)]])
  then obtain c where c: "c \<in> set cs" "m \<in> set c" by auto
  have "distinct c" using cs(1) c(1) by (simp add: distinct_concat_iff)
  from circular_component_found [OF this c(2) m(2,3)] c cs(3) have "circular_completion graph c \<noteq> None" by blast
  with m(1) c that show ?thesis by blast
qed

lemma propagated_result:
  assumes "propagating graph [] failures" "\<And>x failure. x \<in> proof_keys graph \<Longrightarrow> justified graph x failure \<Longrightarrow> x \<in> fst ` set failures"
  shows "map_of failures x \<noteq> None \<longleftrightarrow> x \<in> proof_keys graph \<and> (\<exists>failure. justified graph x failure)"
proof
  assume n: "map_of failures x \<noteq> None"
  then obtain failure where "map_of failures x = Some failure" by blast
  with assms(1) have "\<exists>failure. justified graph x failure" unfolding propagating_def all_justified_def by blast
  moreover have "x \<in> proof_keys graph" using n assms(1) unfolding map_of_keys propagating_def by blast
  ultimately show "x \<in> proof_keys graph \<and> (\<exists>failure. justified graph x failure)" by blast
next
  assume "x \<in> proof_keys graph \<and> (\<exists>failure. justified graph x failure)"
  with assms(2) show "map_of failures x \<noteq> None" unfolding map_of_keys by blast
qed

text \<open>
  C10. The check of proof dependencies returns, and it rejects exactly the keys whose dependencies lead to a
  missing candidate or to an obligation that must not assume its own completion and yet depends on
  itself; the recorded reason names such a candidate or obligation. Recursion among pure obligations
  alone is never a reason.
\<close>

theorem check_execution_proof_dependencies_correct:
  assumes "map_ok graph"
  shows "\<exists>failures. check_execution_proof_dependencies graph = Some failures
    \<and> (\<forall>x. map_of failures x \<noteq> None \<longleftrightarrow> x \<in> proof_keys graph \<and> (\<exists>failure. justified graph x failure))
    \<and> (\<forall>x failure. map_of failures x = Some failure \<longrightarrow> justified graph x failure)"
proof -
  obtain reverse failures where scan: "scan_graph graph graph ([], []) = (reverse, failures)" by fastforce
  note S = scan_graph_graph [OF assms scan] and initial = scan_failures_keys [OF assms scan]
  have "finite (reachable_from (listed graph) (set (map fst graph)))"
    using finite_subset [OF reachable_known finite_known] by simp
  then obtain cs where cs: "strongly_connected_components (map fst graph) (listed graph) = Some cs" "distinct (concat cs)"
      "set (concat cs) = reachable_from (listed graph) (set (map fst graph))"
      "\<And>c x y. c \<in> set cs \<Longrightarrow> x \<in> set c \<Longrightarrow> y \<in> set c \<longleftrightarrow> reaches (listed graph) x y \<and> reaches (listed graph) y x"
    by (rule strongly_connected_components_return) blast
  let ?f = "foldl (\<lambda>m c. fail_component graph c m) failures cs"
  have "all_justified graph failures" using S(3) by (force simp: all_justified_def split: if_splits simp del: split_paired_All)
  moreover have "\<forall>c \<in> set cs. \<forall>x \<in> set c. \<forall>y \<in> set c. (x, y) \<in> (edges (listed graph))\<^sup>*" using cs(4) by blast
  ultimately have F: "map_ok ?f" "all_justified graph ?f"
    "fst ` set ?f = fst ` set failures \<union> {x. \<exists>c \<in> set cs. circular_completion graph c \<noteq> None \<and> x \<in> set c}"
    using fail_components_spec [OF S(1) _ cs(2)] by blast+
  have "set (concat cs) \<subseteq> proof_keys graph" unfolding cs(3) set_map by (rule reachable_known)
  then have "fst ` set ?f \<subseteq> proof_keys graph" unfolding F(3) initial by auto
  with F(1,2) have "propagating graph (map fst ?f) ?f" unfolding propagating_def set_map Diff_cancel by blast
  from propagate_loop_returns [OF S(2) this] obtain failures' where
    run: "propagate_loop reverse (map fst ?f) ?f = Some failures'" "propagating graph [] failures'"
      "fst ` set ?f \<subseteq> fst ` set failures'" by blast
  have "x \<in> fst ` set failures'" if "x \<in> proof_keys graph" "justified graph x failure" for x failure
  proof (rule justified_cause [OF assms that cs(2-4)])
    fix m
    assume "reaches (listed graph) x m"
      "m \<in> proof_keys graph - fst ` set graph \<or> (\<exists>c \<in> set cs. circular_completion graph c \<noteq> None \<and> m \<in> set c)"
    moreover from this(2) have "m \<in> fst ` set failures'" using run(3) unfolding F(3) initial by blast
    ultimately show ?thesis by (blast intro: propagated_back [OF run(2)])
  qed
  note R = propagated_result [OF run(2) this]
  show ?thesis
  proof (intro exI conjI allI impI)
    show "check_execution_proof_dependencies graph = Some failures'"
      using scan cs(1) run(1) by (simp add: check_execution_proof_dependencies_def Let_def)
    show "map_of failures' x \<noteq> None \<longleftrightarrow> x \<in> proof_keys graph \<and> (\<exists>failure. justified graph x failure)" for x by (rule R)
    show "justified graph x failure" if "map_of failures' x = Some failure" for x failure
      using run(2) that unfolding propagating_def all_justified_def by blast
  qed
qed

theorem check_execution_proof_dependencies_correct_witness:
  "(let pure = (\<lambda>n. (n :: nat, Property Pure None :: nat callable_execution_obligation));
        completes = (\<lambda>n. (n, Property Total None));
        graph = [(pure 0, [pure 1]), (completes 0, [completes 1]), (pure 1, [pure 0]), (completes 1, [completes 0]), (completes 2, [completes 1])]
    in map_ok graph \<and> (\<forall>x. \<not> justified graph (pure 0) x)
      \<and> (\<exists>failures. check_execution_proof_dependencies graph = Some failures \<and> map_of failures (pure 0) = None
          \<and> map_of failures (completes 2) \<noteq> None))"
proof -
  let ?p = "\<lambda>n. (n :: nat, Property Pure None :: nat callable_execution_obligation)"
  let ?t = "\<lambda>n. (n :: nat, Property Total None :: nat callable_execution_obligation)"
  let ?g = "[(?p 0, [?p 1]), (?t 0, [?t 1]), (?p 1, [?p 0]), (?t 1, [?t 0]), (?t 2, [?t 1])]"
  have ok: "map_ok ?g" by (simp add: less_callable_execution_obligation_def)
  let ?E = "edges (listed ?g)"
  have "m \<in> {?p 0, ?p 1}" if "(?p 0, m) \<in> ?E\<^sup>*" for m
    using that by (induction rule: rtrancl_induct) (auto simp: listed_def)
  then have no: "\<not> justified ?g (?p 0) x" for x
    by (cases x) (force simp del: edges_iff)+
  have "(?t 2, ?t 1) \<in> ?E" "(?t 1, ?t 0) \<in> ?E" "(?t 0, ?t 1) \<in> ?E" by (simp_all add: listed_def)
  then have "(?t 2, ?t 1) \<in> ?E\<^sup>*" "(?t 1, ?t 1) \<in> ?E\<^sup>+" by (blast intro: trancl_into_trancl2)+
  then have yes: "justified ?g (?t 2) (CircularCompletion 1)" unfolding justified.simps by (intro exI [of _ "?t 1"]) simp
  have k: "?p 0 \<in> proof_keys ?g" "?t 2 \<in> proof_keys ?g" by (simp_all add: proof_keys_def)
  from check_execution_proof_dependencies_correct [OF ok] obtain failures where
    f: "check_execution_proof_dependencies ?g = Some failures"
      "\<forall>x. map_of failures x \<noteq> None \<longleftrightarrow> x \<in> proof_keys ?g \<and> (\<exists>failure. justified ?g x failure)" by blast
  from f(2) k no yes have "map_of failures (?p 0) = None" "map_of failures (?t 2) \<noteq> None" by blast+
  with f(1) ok no show ?thesis unfolding Let_def by blast
qed

end
