(* ===== verification/Codegen_Instances.thy ===== *)
theory Codegen_Instances
  imports Bray_Prelude "HOL-Library.Multiset" "HOL-Library.Product_Lexorder" "HOL-Library.List_Lexorder" "HOL-Library.Option_ord"
begin

text \<open>
  Concrete definitions to generate code for (\<open>crates/bray-codegen/src/unit/instance.rs\<close>) and the policy that says how much
  work goes into one unit (\<open>policy.rs\<close>). Template, symbol and target identities and structural digests are
  numbers, in the order of the identities; of a MIR unit there is what the two files read of it.

  The derived orders are instances of the class of linear orders, by an embedding into tuples. The lemmas show
  what a constructed instance satisfies and that adding up work with saturation does not depend on the order.
\<close>

subsection \<open>Identities\<close>

datatype codegen_generic_argument = TypeArgument nat | ConstantArgument nat

datatype codegen_specialization = NonGeneric | Generic "codegen_generic_argument list"

fun specialization_arguments :: "codegen_specialization \<Rightarrow> codegen_generic_argument list" where
  "specialization_arguments NonGeneric = []"
| "specialization_arguments (Generic arguments) = arguments"

datatype codegen_implementation_witness = Witness (witness_definition: nat) (witness_specialization: codegen_specialization)

datatype codegen_instance_key = InstanceKey
  (key_template: nat)
  (key_specialization: codegen_specialization)
  (key_witnesses: "codegen_implementation_witness list")
  (key_self_witness: "codegen_implementation_witness option")
  (key_target: nat)

datatype codegen_instance_dependency_kind = Definition | DirectAwaitedFrame | StartedTask

datatype codegen_instance_dependency = Dependency
  (dependency_kind: codegen_instance_dependency_kind)
  (dependency_instance: codegen_instance_key)

subsection \<open>The derived orders\<close>

named_theorems rank_order "embeddings into linear orders"

declare less_le_not_le [rank_order]

fun argument_rank :: "codegen_generic_argument \<Rightarrow> nat \<times> nat" where
  "argument_rank (TypeArgument v) = (0, v)"
| "argument_rank (ConstantArgument v) = (1, v)"

lemma argument_rank_inj [rank_order]: "argument_rank x = argument_rank y \<longleftrightarrow> x = y"
  by (cases x; cases y) auto

instantiation codegen_generic_argument :: linorder
begin

definition less_eq_codegen_generic_argument where
  "(x :: codegen_generic_argument) \<le> y \<longleftrightarrow> argument_rank x \<le> argument_rank y"

definition less_codegen_generic_argument where
  "(x :: codegen_generic_argument) < y \<longleftrightarrow> argument_rank x < argument_rank y"

instance
  by standard (auto simp: rank_order less_eq_codegen_generic_argument_def less_codegen_generic_argument_def intro: order_trans dest: antisym)

end

fun specialization_rank :: "codegen_specialization \<Rightarrow> codegen_generic_argument list option" where
  "specialization_rank NonGeneric = None"
| "specialization_rank (Generic arguments) = Some arguments"

lemma specialization_rank_inj [rank_order]: "specialization_rank x = specialization_rank y \<longleftrightarrow> x = y"
  by (cases x; cases y) auto

instantiation codegen_specialization :: linorder
begin

definition less_eq_codegen_specialization where
  "(x :: codegen_specialization) \<le> y \<longleftrightarrow> specialization_rank x \<le> specialization_rank y"

definition less_codegen_specialization where
  "(x :: codegen_specialization) < y \<longleftrightarrow> specialization_rank x < specialization_rank y"

instance
  by standard (auto simp: rank_order less_eq_codegen_specialization_def less_codegen_specialization_def intro: order_trans dest: antisym)

end

definition witness_rank :: "codegen_implementation_witness \<Rightarrow> nat \<times> codegen_specialization" where
  "witness_rank w = (witness_definition w, witness_specialization w)"

lemma witness_rank_inj [rank_order]: "witness_rank x = witness_rank y \<longleftrightarrow> x = y"
  by (cases x; cases y) (auto simp: witness_rank_def)

instantiation codegen_implementation_witness :: linorder
begin

definition less_eq_codegen_implementation_witness where
  "(x :: codegen_implementation_witness) \<le> y \<longleftrightarrow> witness_rank x \<le> witness_rank y"

definition less_codegen_implementation_witness where
  "(x :: codegen_implementation_witness) < y \<longleftrightarrow> witness_rank x < witness_rank y"

instance
  by standard (auto simp: rank_order less_eq_codegen_implementation_witness_def less_codegen_implementation_witness_def intro: order_trans dest: antisym)

end

definition key_rank ::
    "codegen_instance_key \<Rightarrow> nat \<times> codegen_specialization \<times> codegen_implementation_witness list \<times> codegen_implementation_witness option \<times> nat" where
  "key_rank k = (key_template k, key_specialization k, key_witnesses k, key_self_witness k, key_target k)"

lemma key_rank_inj [rank_order]: "key_rank x = key_rank y \<longleftrightarrow> x = y"
  by (cases x; cases y) (auto simp: key_rank_def)

instantiation codegen_instance_key :: linorder
begin

definition less_eq_codegen_instance_key where
  "(x :: codegen_instance_key) \<le> y \<longleftrightarrow> key_rank x \<le> key_rank y"

definition less_codegen_instance_key where
  "(x :: codegen_instance_key) < y \<longleftrightarrow> key_rank x < key_rank y"

instance
  by standard (auto simp: rank_order less_eq_codegen_instance_key_def less_codegen_instance_key_def intro: order_trans dest: antisym)

end

fun dependency_kind_rank :: "codegen_instance_dependency_kind \<Rightarrow> nat" where
  "dependency_kind_rank Definition = 0"
| "dependency_kind_rank DirectAwaitedFrame = 1"
| "dependency_kind_rank StartedTask = 2"

definition dependency_rank :: "codegen_instance_dependency \<Rightarrow> nat \<times> codegen_instance_key" where
  "dependency_rank d = (dependency_kind_rank (dependency_kind d), dependency_instance d)"

lemma dependency_rank_inj [rank_order]: "dependency_rank x = dependency_rank y \<longleftrightarrow> x = y"
proof -
  have "dependency_kind_rank k = dependency_kind_rank l \<longleftrightarrow> k = l" for k l by (cases k; cases l) simp_all
  then show ?thesis by (cases x; cases y) (auto simp: dependency_rank_def)
qed

instantiation codegen_instance_dependency :: linorder
begin

definition less_eq_codegen_instance_dependency where
  "(x :: codegen_instance_dependency) \<le> y \<longleftrightarrow> dependency_rank x \<le> dependency_rank y"

definition less_codegen_instance_dependency where
  "(x :: codegen_instance_dependency) < y \<longleftrightarrow> dependency_rank x < dependency_rank y"

instance
  by standard (auto simp: rank_order less_eq_codegen_instance_dependency_def less_codegen_instance_dependency_def intro: order_trans dest: antisym)

end

subsection \<open>Instances\<close>

datatype mir_operation_kind =
    AdmitOutgoing | TakeIncomingReport | AnonymousCallable | DeclaredCallable | Store | Borrow | TraitView | TraitViewMethod
  | Unary | Binary | Aggregate | Construct | Convert | NumericConversion | NullableQuery | PatternProjection | Call | Memory | Text
  | PanicReport | DischargeOutgoing | Quiesce | ReleaseBuffer | Destroy | Cleanup | Async | Host

text \<open>A block is the number of successors of its terminator.\<close>

record mir_unit =
  mir_key :: nat
  mir_target :: nat
  mir_id :: nat
  mir_blocks :: "nat list"
  mir_storages :: nat
  mir_values :: nat
  mir_operations :: "mir_operation_kind list"
  mir_has_frame :: bool

record codegen_instance =
  inst_key :: codegen_instance_key
  inst_mir :: mir_unit
  inst_dependencies :: "codegen_instance_dependency list"

datatype codegen_instance_build_error = TemplateMismatch | InstanceTargetMismatch | DependencyTargetMismatch

definition sorted_unique_shared_slice :: "'a :: linorder list \<Rightarrow> 'a list" where
  "sorted_unique_shared_slice items = remdups_adj (sort items)"

definition witness_try_new ::
    "(nat \<Rightarrow> bool) \<Rightarrow> nat \<Rightarrow> codegen_specialization \<Rightarrow> codegen_implementation_witness option" where
  "witness_try_new is_implementation symbol specialization =
     (if \<not> is_implementation symbol then None else Some (Witness symbol specialization))"

definition instance_key_new ::
    "nat \<Rightarrow> codegen_specialization \<Rightarrow> codegen_implementation_witness list \<Rightarrow> nat \<Rightarrow> codegen_instance_key" where
  "instance_key_new template specialization witnesses target =
     InstanceKey template specialization (sorted_unique_shared_slice witnesses) None target"

definition try_with_contextual_self_witness ::
    "codegen_implementation_witness \<Rightarrow> codegen_instance_key \<Rightarrow> codegen_instance_key option" where
  "try_with_contextual_self_witness witness k =
     (if witness \<notin> set (key_witnesses k) then None
      else Some (InstanceKey (key_template k) (key_specialization k) (key_witnesses k) (Some witness) (key_target k)))"

definition key_non_generic :: "mir_unit \<Rightarrow> codegen_instance_key" where
  "key_non_generic unit = instance_key_new (mir_key unit) NonGeneric [] (mir_target unit)"

definition instance_try_new ::
    "codegen_instance_key \<Rightarrow> mir_unit \<Rightarrow> codegen_instance_dependency list \<Rightarrow> codegen_instance_build_error + codegen_instance" where
  "instance_try_new k mir ds =
     (if key_template k \<noteq> mir_key mir then Inl TemplateMismatch
      else if key_target k \<noteq> mir_target mir then Inl InstanceTargetMismatch
      else let deps = sorted_unique_shared_slice ds in
        if \<exists>d \<in> set deps. key_target (dependency_instance d) \<noteq> key_target k then Inl DependencyTargetMismatch
        else Inr \<lparr>inst_key = k, inst_mir = mir, inst_dependencies = deps\<rparr>)"

definition instance_non_generic :: "mir_unit \<Rightarrow> codegen_instance" where
  "instance_non_generic mir = \<lparr>inst_key = key_non_generic mir, inst_mir = mir, inst_dependencies = []\<rparr>"

text \<open>What both constructors establish.\<close>

definition instance_ok :: "codegen_instance \<Rightarrow> bool" where
  "instance_ok i \<longleftrightarrow> key_template (inst_key i) = mir_key (inst_mir i) \<and> key_target (inst_key i) = mir_target (inst_mir i)
     \<and> sorted (inst_dependencies i) \<and> distinct (inst_dependencies i)
     \<and> (\<forall>d \<in> set (inst_dependencies i). key_target (dependency_instance d) = key_target (inst_key i))"

lemma sorted_remdups_adj_distinct: "sorted (xs :: 'a :: linorder list) \<Longrightarrow> sorted (remdups_adj xs) \<and> distinct (remdups_adj xs)"
  by (induction xs rule: remdups_adj.induct) auto

lemma sorted_unique_shared_slice [simp]:
  "sorted (sorted_unique_shared_slice xs)" "distinct (sorted_unique_shared_slice xs)" "set (sorted_unique_shared_slice xs) = set xs"
  by (simp_all add: sorted_unique_shared_slice_def sorted_remdups_adj_distinct)

lemma instance_try_new_ok:
  "instance_try_new k mir ds = Inr i \<Longrightarrow> instance_ok i \<and> inst_key i = k \<and> inst_mir i = mir \<and> set (inst_dependencies i) = set ds"
  by (auto simp: instance_try_new_def instance_ok_def Let_def split: if_splits)

lemma instance_non_generic_ok: "instance_ok (instance_non_generic mir)"
  by (simp add: instance_ok_def instance_non_generic_def key_non_generic_def instance_key_new_def)

subsection \<open>Work\<close>

definition work_saturating_add :: "nat \<Rightarrow> nat \<Rightarrow> nat" where
  "work_saturating_add a b = min u64_max (a + b)"

definition add_count :: "nat \<Rightarrow> nat \<Rightarrow> nat \<Rightarrow> nat" where
  "add_count work n weight = work_saturating_add work (min u64_max (min u64_max n * weight))"

definition operation_weight :: "mir_operation_kind \<Rightarrow> nat" where
  "operation_weight kind = (if kind \<in> {AnonymousCallable, DeclaredCallable, Borrow, TraitView, TraitViewMethod, Unary} then 1
     else if kind \<in> {Store, Binary, Aggregate, Construct, Convert, NumericConversion, NullableQuery, PatternProjection, ReleaseBuffer,
       Quiesce, Destroy} then 2
     else if kind \<in> {AdmitOutgoing, TakeIncomingReport, DischargeOutgoing, Call, Memory, Text, PanicReport, Cleanup} then 4
     else 8)"

definition estimate_mir_work :: "mir_unit \<Rightarrow> nat" where
  "estimate_mir_work mir = (
     let work = add_count (add_count (add_count 16 (length (mir_blocks mir)) 8) (mir_storages mir) 2) (mir_values mir) 1;
         work = foldl (\<lambda>w kind. work_saturating_add w (operation_weight kind)) work (mir_operations mir);
         work = foldl (\<lambda>w successors. work_saturating_add w (min u64_max (2 + min u64_max successors))) work (mir_blocks mir)
     in if mir_has_frame mir then work_saturating_add work 32 else work)"

record codegen_partition_policy =
  policy_identity :: nat
  policy_revision :: nat
  policy_cost_model_revision :: nat
  policy_lower_bound :: nat
  policy_target_work :: nat
  policy_upper_bound :: nat

definition mir_structure_cost_model_revision :: nat where
  "mir_structure_cost_model_revision = 1"

definition native_balanced :: codegen_partition_policy where
  "native_balanced = \<lparr>policy_identity = 1, policy_revision = 2, policy_cost_model_revision = mir_structure_cost_model_revision,
     policy_lower_bound = 1024, policy_target_work = 2048, policy_upper_bound = 4096\<rparr>"

definition native_library_publication :: codegen_partition_policy where
  "native_library_publication = \<lparr>policy_identity = 2, policy_revision = 4, policy_cost_model_revision = mir_structure_cost_model_revision,
     policy_lower_bound = 64, policy_target_work = 128, policy_upper_bound = 256\<rparr>"

datatype codegen_partition_policy_build_error = ZeroIdentity | UnsupportedCostModelRevision | InvalidWorkBounds

definition policy_try_new ::
    "nat \<Rightarrow> nat \<Rightarrow> nat \<Rightarrow> nat \<Rightarrow> nat \<Rightarrow> nat \<Rightarrow> codegen_partition_policy_build_error + codegen_partition_policy" where
  "policy_try_new identity revision cost_model_revision lower_bound target_work upper_bound =
     (if identity = 0 \<or> revision = 0 then Inl ZeroIdentity
      else if cost_model_revision \<noteq> mir_structure_cost_model_revision then Inl UnsupportedCostModelRevision
      else if lower_bound = 0 \<or> lower_bound > target_work \<or> target_work > upper_bound then Inl InvalidWorkBounds
      else Inr \<lparr>policy_identity = identity, policy_revision = revision, policy_cost_model_revision = cost_model_revision,
        policy_lower_bound = lower_bound, policy_target_work = target_work, policy_upper_bound = upper_bound\<rparr>)"

definition policy_estimate :: "codegen_instance \<Rightarrow> nat" where
  "policy_estimate i = estimate_mir_work (inst_mir i)"

datatype codegen_oversized_unit_reason = IndivisibleDefinition | IndivisibleDependencyGroup

record codegen_oversized_unit =
  oversized_reason :: codegen_oversized_unit_reason
  oversized_work :: nat
  oversized_upper_bound :: nat

definition oversized_indivisible :: "nat \<Rightarrow> nat \<Rightarrow> nat \<Rightarrow> codegen_oversized_unit" where
  "oversized_indivisible definitions work upper_bound = \<lparr>
     oversized_reason = (if definitions = 1 then IndivisibleDefinition else IndivisibleDependencyGroup),
     oversized_work = work, oversized_upper_bound = upper_bound\<rparr>"

definition policy_ok :: "codegen_partition_policy \<Rightarrow> bool" where
  "policy_ok p \<longleftrightarrow> 0 < policy_lower_bound p \<and> policy_lower_bound p \<le> policy_target_work p \<and> policy_target_work p \<le> policy_upper_bound p"

lemma policy_try_new_ok: "policy_try_new a b c d e f = Inr p \<Longrightarrow> policy_ok p"
  by (auto simp: policy_try_new_def policy_ok_def split: if_splits)

lemma policy_constants_ok: "policy_ok native_balanced" "policy_ok native_library_publication"
  by (simp_all add: policy_ok_def native_balanced_def native_library_publication_def)

text \<open>The sum of some work, with saturation.\<close>

definition total_work :: "codegen_instance list \<Rightarrow> nat" where
  "total_work is = foldl (\<lambda>w i. work_saturating_add w (policy_estimate i)) 0 is"

lemma foldl_saturating:
  "w \<le> u64_max \<Longrightarrow> foldl (\<lambda>w x. work_saturating_add w (f x)) w xs = min u64_max (w + sum_list (map f xs))"
  by (induction xs arbitrary: w) (auto simp: work_saturating_add_def)

lemma total_work_sum: "total_work is = min u64_max (sum_list (map policy_estimate is))"
  by (simp add: total_work_def foldl_saturating)

lemma total_work_append: "total_work (is @ js) = work_saturating_add (total_work is) (total_work js)"
  by (simp add: total_work_sum work_saturating_add_def)

lemma total_work_mset: "mset is = mset js \<Longrightarrow> total_work is = total_work js"
  by (simp add: total_work_sum) (metis mset_map sum_mset_sum_list)

end
