(* ===== verification/Codegen_Reachability.thy ===== *)
theory Codegen_Reachability
  imports Codegen_Instances Dependency_Graph Ordered_Map
begin

text \<open>
  The demand-driven graph of concrete definitions (\<open>crates/bray-codegen/src/unit/graph.rs\<close>): a builder hands out frontiers of
  unresolved keys, takes resolved instances and external leaves in whatever order they are completed, and
  publishes the graph when nothing is left. Ordered sets are sets, which list their elements in ascending order.

  The builder is a state machine of events. The lemmas show that a published graph is closed and holds exactly what
  the roots reach, and that it does not depend on the order of completion.
\<close>

subsection \<open>The graph and its builder\<close>

record codegen_reachability =
  graph_roots :: "codegen_instance_key list"
  graph_instances :: "codegen_instance list"
  graph_external :: "codegen_instance_key list"

record reachability_builder =
  builder_roots :: "codegen_instance_key set"
  builder_pending :: "codegen_instance_key set"
  builder_demanded :: "codegen_instance_key set"
  builder_instances :: "(codegen_instance_key, codegen_instance) ordered_map"
  builder_external :: "codegen_instance_key set"

datatype codegen_reachability_build_error = EmptyRoots | DuplicateInstance | InstanceWasNotDemanded | Incomplete

definition builder_try_new :: "codegen_instance_key list \<Rightarrow> codegen_reachability_build_error + reachability_builder" where
  "builder_try_new roots = (if roots = [] then Inl EmptyRoots
     else Inr \<lparr>builder_roots = set roots, builder_pending = set roots, builder_demanded = {}, builder_instances = [], builder_external = {}\<rparr>)"

definition builder_try_extend ::
    "codegen_reachability \<Rightarrow> codegen_instance_key list \<Rightarrow> codegen_reachability_build_error + reachability_builder" where
  "builder_try_extend existing roots = (if roots = [] then Inl EmptyRoots
     else let instances = map_collect (map (\<lambda>i. (inst_key i, i)) (graph_instances existing)); external = set (graph_external existing) in
       Inr \<lparr>builder_roots = set roots,
         builder_pending = {k \<in> set roots. map_of instances k = None \<and> k \<notin> external},
         builder_demanded = {}, builder_instances = instances, builder_external = external\<rparr>)"

definition take_frontier :: "reachability_builder \<Rightarrow> codegen_instance_key list \<times> reachability_builder" where
  "take_frontier b = (sorted_list_of_set (builder_pending b),
     b\<lparr>builder_pending := {}, builder_demanded := builder_demanded b \<union> builder_pending b\<rparr>)"

definition discovered :: "reachability_builder \<Rightarrow> codegen_instance \<Rightarrow> codegen_instance_key set" where
  "discovered b i = {k \<in> set (map dependency_instance (inst_dependencies i)).
     k \<noteq> inst_key i \<and> map_of (builder_instances b) k = None \<and> k \<notin> builder_external b \<and> k \<notin> builder_demanded b}"

definition push_instance :: "codegen_instance \<Rightarrow> reachability_builder \<Rightarrow> codegen_reachability_build_error + reachability_builder" where
  "push_instance i b = (let key = inst_key i in
     if map_of (builder_instances b) key \<noteq> None then Inl DuplicateInstance
     else if key \<notin> builder_demanded b then Inl InstanceWasNotDemanded
     else let b' = b\<lparr>builder_demanded := builder_demanded b - {key}\<rparr> in
       Inr (b'\<lparr>builder_pending := builder_pending b' \<union> discovered b' i, builder_instances := map_insert key i (builder_instances b')\<rparr>))"

definition push_external :: "codegen_instance_key \<Rightarrow> reachability_builder \<Rightarrow> codegen_reachability_build_error + reachability_builder" where
  "push_external key b = (
     if map_of (builder_instances b) key \<noteq> None \<or> key \<in> builder_external b then Inl DuplicateInstance
     else if key \<notin> builder_demanded b then Inl InstanceWasNotDemanded
     else Inr (b\<lparr>builder_external := insert key (builder_external b), builder_demanded := builder_demanded b - {key}\<rparr>))"

definition builder_finish :: "reachability_builder \<Rightarrow> codegen_reachability_build_error + codegen_reachability" where
  "builder_finish b = (if builder_pending b \<noteq> {} \<or> builder_demanded b \<noteq> {} then Inl Incomplete
     else Inr \<lparr>graph_roots = sorted_list_of_set (builder_roots b), graph_instances = map snd (builder_instances b),
       graph_external = sorted_list_of_set (builder_external b)\<rparr>)"

text \<open>Binary search in a slice that is strictly sorted by its keys finds the element with the key.\<close>

definition reachability_instance :: "codegen_reachability \<Rightarrow> codegen_instance_key \<Rightarrow> codegen_instance option" where
  "reachability_instance g key = List.find (\<lambda>i. inst_key i = key) (graph_instances g)"

definition is_external :: "codegen_reachability \<Rightarrow> codegen_instance_key \<Rightarrow> bool" where
  "is_external g key \<longleftrightarrow> key \<in> set (graph_external g)"

subsection \<open>Runs\<close>

text \<open>
  What a caller does with a builder. A resolver tells the instance of a key, or that it is external; every
  answer the caller pushes comes from it, in any order.
\<close>

type_synonym resolver = "codegen_instance_key \<Rightarrow> codegen_instance option"

inductive builds :: "resolver \<Rightarrow> reachability_builder \<Rightarrow> reachability_builder \<Rightarrow> bool" for f where
  takes: "take_frontier b = (frontier, b') \<Longrightarrow> builds f b b'"
| resolves: "f key = Some i \<Longrightarrow> inst_key i = key \<Longrightarrow> push_instance i b = Inr b' \<Longrightarrow> builds f b b'"
| leaves: "f key = None \<Longrightarrow> push_external key b = Inr b' \<Longrightarrow> builds f b b'"

definition resolved_dependencies :: "resolver \<Rightarrow> codegen_instance_key \<Rightarrow> codegen_instance_key list" where
  "resolved_dependencies f k = (case f k of None \<Rightarrow> [] | Some i \<Rightarrow> map dependency_instance (inst_dependencies i))"

definition resolved :: "reachability_builder \<Rightarrow> codegen_instance_key set" where
  "resolved b = fst ` set (builder_instances b)"

lemma map_of_resolved: "map_of (builder_instances b) k = None \<longleftrightarrow> k \<notin> resolved b"
  by (simp add: resolved_def map_of_eq_None_iff)

definition covered :: "reachability_builder \<Rightarrow> codegen_instance_key set" where
  "covered b = resolved b \<union> builder_external b \<union> builder_pending b \<union> builder_demanded b"

definition answers_ok :: "resolver \<Rightarrow> reachability_builder \<Rightarrow> bool" where
  "answers_ok f b \<longleftrightarrow> map_ok (builder_instances b)
     \<and> (\<forall>k i. (k, i) \<in> set (builder_instances b) \<longrightarrow> f k = Some i \<and> inst_key i = k) \<and> (\<forall>k \<in> builder_external b. f k = None)"

definition builder_ok :: "resolver \<Rightarrow> codegen_instance_key set \<Rightarrow> reachability_builder \<Rightarrow> bool" where
  "builder_ok f R b \<longleftrightarrow> answers_ok f b \<and> builder_roots b = R \<and> finite (covered b) \<and> R \<subseteq> covered b
     \<and> covered b \<subseteq> reachable_from (resolved_dependencies f) R
     \<and> (\<forall>k \<in> resolved b. set (resolved_dependencies f k) \<subseteq> covered b)"

lemma builder_ok_new: "builder_try_new roots = Inr b \<Longrightarrow> builder_ok f (set roots) b"
  using reachable_root [of _ "set roots" "resolved_dependencies f"]
  by (auto simp: builder_try_new_def builder_ok_def answers_ok_def covered_def resolved_def split: if_splits)

lemma builder_ok_takes: "builder_ok f R b \<Longrightarrow> take_frontier b = (frontier, b') \<Longrightarrow> builder_ok f R b'"
proof -
  assume "builder_ok f R b" and "take_frontier b = (frontier, b')"
  moreover from this have "covered b' = covered b" "builder_instances b' = builder_instances b" "builder_external b' = builder_external b"
      "builder_roots b' = builder_roots b"
    by (auto simp: covered_def resolved_def take_frontier_def)
  ultimately show ?thesis unfolding builder_ok_def answers_ok_def resolved_def by simp
qed

lemma push_instance_spec:
  assumes "push_instance i b = Inr b'"
  shows "inst_key i \<in> builder_demanded b" "inst_key i \<notin> resolved b"
    "builder_instances b' = map_insert (inst_key i) i (builder_instances b)"
    "builder_external b' = builder_external b" "builder_roots b' = builder_roots b"
    "covered b' = covered b \<union> set (map dependency_instance (inst_dependencies i))"
proof -
  show k: "inst_key i \<in> builder_demanded b" "inst_key i \<notin> resolved b"
    and i: "builder_instances b' = map_insert (inst_key i) i (builder_instances b)"
    and e: "builder_external b' = builder_external b" and "builder_roots b' = builder_roots b"
    using assms by (auto simp: push_instance_def Let_def map_of_resolved split: if_splits)
  have p: "builder_demanded b' = builder_demanded b - {inst_key i}"
    "builder_pending b' = builder_pending b \<union> {k \<in> set (map dependency_instance (inst_dependencies i)).
       k \<noteq> inst_key i \<and> k \<notin> resolved b \<and> k \<notin> builder_external b \<and> k \<notin> builder_demanded b}"
    using assms by (auto simp: push_instance_def discovered_def Let_def map_of_resolved resolved_def [of "b\<lparr>builder_demanded := _\<rparr>"]
        simp flip: resolved_def split: if_splits)
  have r: "resolved b' = insert (inst_key i) (resolved b)" by (simp only: i keys_map_insert resolved_def)
  show "covered b' = covered b \<union> set (map dependency_instance (inst_dependencies i))"
    unfolding covered_def r e p using k(1) by blast
qed

lemma push_external_spec:
  assumes "push_external k b = Inr b'"
  shows "k \<in> builder_demanded b" "builder_instances b' = builder_instances b"
    "builder_external b' = insert k (builder_external b)" "builder_roots b' = builder_roots b" "covered b' = covered b"
  using assms by (auto simp: push_external_def covered_def resolved_def split: if_splits)

lemma builder_ok_resolves:
  assumes "builder_ok f R b" "f (inst_key i) = Some i" "push_instance i b = Inr b'"
  shows "builder_ok f R b'"
proof -
  note P = push_instance_spec [OF assms(3)]
  let ?deps = "set (map dependency_instance (inst_dependencies i))"
  have d: "set (resolved_dependencies f (inst_key i)) = ?deps" using assms(2) by (simp add: resolved_dependencies_def)
  have k: "inst_key i \<in> reachable_from (resolved_dependencies f) R"
    using assms(1) P(1) unfolding builder_ok_def covered_def by blast
  have "?deps \<subseteq> reachable_from (resolved_dependencies f) R"
    using reachable_edge [OF k] unfolding d [symmetric] by blast
  moreover have "resolved b' = insert (inst_key i) (resolved b)" by (simp only: P(3) keys_map_insert resolved_def)
  moreover have "answers_ok f b'" using assms(1,2) P(3,4) unfolding builder_ok_def answers_ok_def by auto
  ultimately show ?thesis using assms(1) P(5,6) d unfolding builder_ok_def by auto
qed

lemma builder_ok_leaves:
  assumes "builder_ok f R b" "f k = None" "push_external k b = Inr b'"
  shows "builder_ok f R b'"
  using assms push_external_spec [OF assms(3)] unfolding builder_ok_def answers_ok_def resolved_def by simp

lemma builds_ok: "builds f b b' \<Longrightarrow> builder_ok f R b \<Longrightarrow> builder_ok f R b'"
  by (induction rule: builds.induct) (auto intro: builder_ok_takes builder_ok_resolves builder_ok_leaves)

lemma runs_ok: "(builds f)\<^sup>*\<^sup>* b b' \<Longrightarrow> builder_ok f R b \<Longrightarrow> builder_ok f R b'"
  by (induction rule: rtranclp_induct) (auto intro: builds_ok)

subsection \<open>The published graph\<close>

lemma finished_covers:
  assumes "builder_ok f R b" "builder_pending b = {}" "builder_demanded b = {}"
  shows "resolved b \<union> builder_external b = reachable_from (resolved_dependencies f) R"
    "resolved b = {k \<in> reachable_from (resolved_dependencies f) R. f k \<noteq> None}"
proof -
  have c: "covered b = resolved b \<union> builder_external b" using assms(2,3) by (simp add: covered_def)
  have r: "k \<in> resolved b \<Longrightarrow> f k \<noteq> None" "k \<in> builder_external b \<Longrightarrow> f k = None" for k
    using assms(1) by (auto simp: builder_ok_def answers_ok_def resolved_def)
  have "reachable_from (resolved_dependencies f) R \<subseteq> covered b"
  proof (rule reachable_least)
    show "R \<subseteq> covered b" using assms(1) by (simp add: builder_ok_def)
    show "set (resolved_dependencies f k) \<subseteq> covered b" if "k \<in> covered b" for k
    proof (cases "k \<in> resolved b")
      case False
      with that c r(2) have "f k = None" by auto
      then show ?thesis by (simp add: resolved_dependencies_def)
    qed (use assms(1) in \<open>unfold builder_ok_def, blast\<close>)
  qed
  with assms(1) c show all: "resolved b \<union> builder_external b = reachable_from (resolved_dependencies f) R"
    by (auto simp: builder_ok_def)
  show "resolved b = {k \<in> reachable_from (resolved_dependencies f) R. f k \<noteq> None}"
    unfolding all [symmetric] using r by auto
qed

lemma builder_finish_graph:
  assumes "builder_ok f R b" "builder_finish b = Inr g"
  shows "graph_roots g = sorted_list_of_set R"
    "graph_external g = sorted_list_of_set {k \<in> reachable_from (resolved_dependencies f) R. f k = None}"
    "graph_instances g = map (\<lambda>k. the (f k)) (sorted_list_of_set {k \<in> reachable_from (resolved_dependencies f) R. f k \<noteq> None})"
    "finite (reachable_from (resolved_dependencies f) R)"
proof -
  have e: "builder_pending b = {}" "builder_demanded b = {}" and g: "g = \<lparr>graph_roots = sorted_list_of_set (builder_roots b),
      graph_instances = map snd (builder_instances b), graph_external = sorted_list_of_set (builder_external b)\<rparr>"
    using assms(2) by (auto simp: builder_finish_def split: if_splits)
  note F = finished_covers [OF assms(1) e]
  have ok: "map_ok (builder_instances b)" "\<And>k i. (k, i) \<in> set (builder_instances b) \<Longrightarrow> f k = Some i"
    and x: "\<And>k. k \<in> builder_external b \<Longrightarrow> f k = None" using assms(1) by (auto simp: builder_ok_def answers_ok_def)
  show "graph_roots g = sorted_list_of_set R" using g assms(1) by (simp add: builder_ok_def)
  have "builder_external b = {k \<in> reachable_from (resolved_dependencies f) R. f k = None}"
    using F x by (intro set_eqI iffI) blast+
  with g show "graph_external g = sorted_list_of_set {k \<in> reachable_from (resolved_dependencies f) R. f k = None}" by simp
  have keys: "map fst (builder_instances b) = sorted_list_of_set (resolved b)"
    unfolding resolved_def using ok(1) by (simp add: strict_sorted_iff sorted_list_of_set.idem_if_sorted_distinct flip: set_map)
  have "map snd (builder_instances b) = map (\<lambda>k. the (f k)) (map fst (builder_instances b))" using ok(2) by force
  with g F(2) keys show "graph_instances g = map (\<lambda>k. the (f k)) (sorted_list_of_set {k \<in> reachable_from (resolved_dependencies f) R. f k \<noteq> None})"
    by simp
  show "finite (reachable_from (resolved_dependencies f) R)"
    unfolding F(1) [symmetric] using assms(1) by (simp add: builder_ok_def covered_def)
qed

text \<open>The graph of the roots, as a specification.\<close>

definition graph_of :: "resolver \<Rightarrow> codegen_instance_key set \<Rightarrow> codegen_reachability \<Rightarrow> bool" where
  "graph_of f R g \<longleftrightarrow> (let keys = reachable_from (resolved_dependencies f) R in
     finite keys \<and> graph_roots g = sorted_list_of_set R
     \<and> graph_instances g = map (\<lambda>k. the (f k)) (sorted_list_of_set {k \<in> keys. f k \<noteq> None})
     \<and> graph_external g = sorted_list_of_set {k \<in> keys. f k = None})"

lemma graph_of_lookup:
  assumes "graph_of f R g" "\<And>k i. f k = Some i \<Longrightarrow> inst_key i = k"
  shows "reachability_instance g k = (if k \<in> reachable_from (resolved_dependencies f) R then f k else None)"
    "is_external g k \<longleftrightarrow> k \<in> reachable_from (resolved_dependencies f) R \<and> f k = None"
proof -
  let ?keys = "{k \<in> reachable_from (resolved_dependencies f) R. f k \<noteq> None}"
  have fin: "finite ?keys" and inst: "graph_instances g = map (\<lambda>k. the (f k)) (sorted_list_of_set ?keys)"
    and ext: "set (graph_external g) = {k \<in> reachable_from (resolved_dependencies f) R. f k = None}"
    using assms(1) by (auto simp: graph_of_def Let_def)
  show "is_external g k \<longleftrightarrow> k \<in> reachable_from (resolved_dependencies f) R \<and> f k = None" by (simp add: is_external_def ext)
  have set: "set (graph_instances g) = {i. \<exists>k \<in> ?keys. f k = Some i}" unfolding inst using fin by force
  show "reachability_instance g k = (if k \<in> reachable_from (resolved_dependencies f) R then f k else None)"
  proof (cases "reachability_instance g k")
    case None
    then have n: "\<forall>i \<in> set (graph_instances g). inst_key i \<noteq> k" by (auto simp: reachability_instance_def find_None_iff)
    have "f k = None" if "k \<in> reachable_from (resolved_dependencies f) R"
    proof (rule ccontr)
      assume "f k \<noteq> None"
      then obtain i where i: "f k = Some i" by blast
      with that set have "i \<in> set (graph_instances g)" by blast
      with n assms(2) [OF i] show False by blast
    qed
    with None show ?thesis by simp
  next
    case (Some i)
    then have "i \<in> set (graph_instances g)" "inst_key i = k" by (auto simp: reachability_instance_def find_Some_iff)
    with Some set assms(2) show ?thesis by auto
  qed
qed

text \<open>Extending a graph whose roots the new roots reach.\<close>

lemma reachable_closed: "reachable_from f (reachable_from f R) = reachable_from f R"
  by (auto simp: reachable_from_def intro: rtrancl_trans)

lemma reachable_mono: "R \<subseteq> R' \<Longrightarrow> reachable_from f R \<subseteq> reachable_from f R'"
  by (auto simp: reachable_from_def)

lemma builder_ok_extend:
  assumes "builder_try_extend old roots = Inr b" "graph_of f R old" "\<And>k i. f k = Some i \<Longrightarrow> inst_key i = k"
    and "R \<subseteq> reachable_from (resolved_dependencies f) (set roots)"
  shows "builder_ok f (set roots) b"
proof -
  let ?reach = "reachable_from (resolved_dependencies f)"
  have fin: "finite (?reach R)" and inst: "graph_instances old = map (\<lambda>k. the (f k)) (sorted_list_of_set {k \<in> ?reach R. f k \<noteq> None})"
    and ext: "set (graph_external old) = {k \<in> ?reach R. f k = None}"
    using assms(2) by (auto simp: graph_of_def Let_def)
  define keys where "keys = {k \<in> ?reach R. f k \<noteq> None}"
  have fk: "finite keys" using fin by (simp add: keys_def)
  let ?pairs = "map (\<lambda>i. (inst_key i, i)) (graph_instances old)"
  have pairs: "?pairs = map (\<lambda>k. (k, the (f k))) (sorted_list_of_set keys)"
    unfolding inst keys_def [symmetric] using assms(3) fk by (auto simp: keys_def)
  have m: "set (map_collect ?pairs) = (\<lambda>k. (k, the (f k))) ` keys"
    using set_map_collect [of ?pairs] fk by (simp add: pairs o_def)
  have b: "builder_instances b = map_collect ?pairs" "builder_external b = {k \<in> ?reach R. f k = None}" "builder_roots b = set roots"
    "builder_demanded b = {}" "builder_pending b = {k \<in> set roots. map_of (builder_instances b) k = None \<and> k \<notin> builder_external b}"
    using assms(1) unfolding ext [symmetric] by (auto simp: builder_try_extend_def Let_def split: if_splits)
  have r: "resolved b = keys" unfolding resolved_def b(1) m by (auto simp: image_image)
  have c: "covered b = ?reach R \<union> set roots"
    unfolding covered_def b(4,5) map_of_resolved r b(2) by (auto simp: keys_def)
  have "?reach R \<subseteq> ?reach (set roots)" using reachable_mono [OF assms(4), of "resolved_dependencies f"] by (simp add: reachable_closed)
  moreover have "set (resolved_dependencies f k) \<subseteq> ?reach R" if "k \<in> keys" for k
    using that by (auto simp: keys_def intro: reachable_edge)
  moreover have "answers_ok f b" unfolding answers_ok_def b(1) m b(2) using assms(3) by (auto simp: keys_def)
  ultimately show ?thesis
    unfolding builder_ok_def c r b(3) using fin reachable_root [of _ "set roots" "resolved_dependencies f"] by auto
qed

subsection \<open>A run\<close>

text \<open>A caller of one external definition.\<close>

definition sample_mir :: "nat \<Rightarrow> mir_unit" where
  "sample_mir n = \<lparr>mir_key = n, mir_target = 0, mir_id = n, mir_blocks = [0], mir_storages = 0, mir_values = 0, mir_operations = [],
     mir_has_frame = False\<rparr>"

definition sample_key :: "nat \<Rightarrow> codegen_instance_key" where
  "sample_key n = InstanceKey n NonGeneric [] None 0"

definition sample_caller :: codegen_instance where
  "sample_caller = \<lparr>inst_key = sample_key 0, inst_mir = sample_mir 0, inst_dependencies = [Dependency Definition (sample_key 1)]\<rparr>"

definition sample_resolver :: resolver where
  "sample_resolver k = (if k = sample_key 0 then Some sample_caller else None)"

lemma sample_run:
  obtains b0 b g where "builder_try_new [sample_key 0] = Inr b0" "(builds sample_resolver)\<^sup>*\<^sup>* b0 b" "builder_finish b = Inr g"
    "graph_instances g = [sample_caller]" "graph_external g = [sample_key 1]"
proof -
  let ?b = "\<lambda>P D I X. \<lparr>builder_roots = {sample_key 0}, builder_pending = P, builder_demanded = D, builder_instances = I, builder_external = X\<rparr>"
  let ?f = sample_resolver
  have ne: "sample_key 1 \<noteq> sample_key 0" by (simp add: sample_key_def)
  have c: "inst_key sample_caller = sample_key 0" "inst_dependencies sample_caller = [Dependency Definition (sample_key 1)]"
    by (simp_all add: sample_caller_def)
  have s1: "builds ?f (?b {sample_key 0} {} [] {}) (?b {} {sample_key 0} [] {})"
    by (rule builds.takes [of _ "[sample_key 0]"]) (simp add: take_frontier_def)
  have s2: "builds ?f (?b {} {sample_key 0} [] {}) (?b {sample_key 1} {} [(sample_key 0, sample_caller)] {})"
    using ne by (intro builds.resolves [of ?f "sample_key 0" sample_caller])
      (auto simp: sample_resolver_def c push_instance_def discovered_def map_insert_def map_remove_def Let_def)
  have s3: "builds ?f (?b {sample_key 1} {} [(sample_key 0, sample_caller)] {}) (?b {} {sample_key 1} [(sample_key 0, sample_caller)] {})"
    by (rule builds.takes [of _ "[sample_key 1]"]) (simp add: take_frontier_def)
  have s4: "builds ?f (?b {} {sample_key 1} [(sample_key 0, sample_caller)] {}) (?b {} {} [(sample_key 0, sample_caller)] {sample_key 1})"
    using ne by (intro builds.leaves [of ?f "sample_key 1"]) (auto simp: sample_resolver_def push_external_def)
  have "(builds ?f)\<^sup>*\<^sup>* (?b {sample_key 0} {} [] {}) (?b {} {} [(sample_key 0, sample_caller)] {sample_key 1})"
    using s1 s2 s3 s4 by (meson rtranclp.rtrancl_into_rtrancl rtranclp.rtrancl_refl)
  then show ?thesis
    by (intro that [of "?b {sample_key 0} {} [] {}" "?b {} {} [(sample_key 0, sample_caller)] {sample_key 1}"
          "\<lparr>graph_roots = [sample_key 0], graph_instances = [sample_caller], graph_external = [sample_key 1]\<rparr>"])
      (simp_all add: builder_try_new_def builder_finish_def)
qed

lemma sample_resolver_key: "sample_resolver k = Some i \<Longrightarrow> inst_key i = k"
  by (auto simp: sample_resolver_def sample_caller_def split: if_splits)

text \<open>
  C11. A published graph depends on the roots and on what keys resolve to alone: whatever frontiers were taken and
  in whatever order answers came in, it lists the roots, the instances and the external leaves that the
  roots reach, each in ascending order. Extending a graph whose roots are reached from the new ones gives
  the same graph as starting anew.
\<close>

theorem reachability_is_canonical:
  assumes "\<And>k i. f k = Some i \<Longrightarrow> inst_key i = k"
    and "builder_try_new roots = Inr b
      \<or> builder_try_extend old roots = Inr b \<and> graph_of f R old \<and> R \<subseteq> reachable_from (resolved_dependencies f) (set roots)"
    and "(builds f)\<^sup>*\<^sup>* b b'" "builder_finish b' = Inr g"
  shows "graph_of f (set roots) g"
proof -
  have "builder_ok f (set roots) b" using assms(1,2) builder_ok_new builder_ok_extend by blast
  from builder_finish_graph [OF runs_ok [OF assms(3) this] assms(4)] show ?thesis by (simp add: graph_of_def Let_def)
qed

theorem reachability_is_canonical_witness:
  "\<exists>b0 b g. builder_try_new [sample_key 0] = Inr b0 \<and> (builds sample_resolver)\<^sup>*\<^sup>* b0 b \<and> builder_finish b = Inr g
    \<and> graph_of sample_resolver {sample_key 0} g \<and> graph_instances g = [sample_caller] \<and> graph_external g = [sample_key 1]"
proof -
  obtain b0 b g where r: "builder_try_new [sample_key 0] = Inr b0" "(builds sample_resolver)\<^sup>*\<^sup>* b0 b" "builder_finish b = Inr g"
    "graph_instances g = [sample_caller]" "graph_external g = [sample_key 1]" by (rule sample_run)
  from reachability_is_canonical [OF sample_resolver_key disjI1 [OF r(1)] r(2,3)] r show ?thesis by auto
qed

subsection \<open>Completing a builder\<close>

text \<open>Resolved, external, pending and demanded keys are apart, so an answer to a demanded key is never refused.\<close>

definition apart :: "reachability_builder \<Rightarrow> bool" where
  "apart b \<longleftrightarrow> resolved b \<inter> builder_external b = {} \<and> (resolved b \<union> builder_external b) \<inter> (builder_pending b \<union> builder_demanded b) = {}
     \<and> builder_pending b \<inter> builder_demanded b = {}"

lemma apart_push:
  assumes "apart b" "k \<in> builder_demanded b"
  shows "inst_key i = k \<Longrightarrow> \<exists>b'. push_instance i b = Inr b' \<and> apart b'
      \<and> resolved b' \<union> builder_external b' = insert k (resolved b \<union> builder_external b)"
    and "\<exists>b'. push_external k b = Inr b' \<and> apart b' \<and> resolved b' \<union> builder_external b' = insert k (resolved b \<union> builder_external b)"
proof -
  have k: "k \<notin> resolved b" "k \<notin> builder_external b" "k \<notin> builder_pending b" using assms by (auto simp: apart_def)
  show "\<exists>b'. push_external k b = Inr b' \<and> apart b' \<and> resolved b' \<union> builder_external b' = insert k (resolved b \<union> builder_external b)"
    using assms k by (auto simp: push_external_def map_of_resolved apart_def resolved_def)
  assume i: "inst_key i = k"
  then obtain b' where b': "push_instance i b = Inr b'" using assms(2) k by (auto simp: push_instance_def map_of_resolved Let_def)
  note P = push_instance_spec [OF this]
  have r: "resolved b' = insert k (resolved b)" by (simp only: P(3) keys_map_insert resolved_def i)
  have p: "builder_demanded b' = builder_demanded b - {k}"
    "builder_pending b' \<subseteq> builder_pending b \<union> (- (insert k (resolved b \<union> builder_external b \<union> builder_demanded b)))"
    using b' i by (auto simp: push_instance_def discovered_def Let_def map_of_resolved resolved_def [of "b\<lparr>builder_demanded := _\<rparr>"]
        simp flip: resolved_def split: if_splits)
  have "apart b'" using assms k p unfolding apart_def r P(4) by blast
  with b' r P(4) show "\<exists>b'. push_instance i b = Inr b' \<and> apart b' \<and> resolved b' \<union> builder_external b' = insert k (resolved b \<union> builder_external b)"
    by auto
qed

lemma apart_demanded_step:
  assumes "apart b" "k \<in> builder_demanded b" "\<And>k i. f k = Some i \<Longrightarrow> inst_key i = k"
  obtains b' where "builds f b b'" "apart b'" "resolved b' \<union> builder_external b' = insert k (resolved b \<union> builder_external b)"
proof (cases "f k")
  case None
  with apart_push(2) [OF assms(1,2)] that show ?thesis by (blast intro: builds.leaves)
next
  case (Some i)
  with apart_push(1) [OF assms(1,2) assms(3) [OF Some]] that assms(3) [OF Some] show ?thesis by (blast intro: builds.resolves)
qed

lemma apart_frontier: "apart b \<Longrightarrow> take_frontier b = (frontier, b') \<Longrightarrow> apart b' \<and> builder_demanded b' = builder_demanded b \<union> builder_pending b
    \<and> resolved b' \<union> builder_external b' = resolved b \<union> builder_external b"
proof -
  assume a: "apart b" and t: "take_frontier b = (frontier, b')"
  from t have b': "resolved b' = resolved b" "builder_external b' = builder_external b" "builder_pending b' = {}"
    "builder_demanded b' = builder_demanded b \<union> builder_pending b" by (auto simp: take_frontier_def resolved_def)
  from a show ?thesis unfolding apart_def b' by blast
qed

lemma builder_completes:
  assumes "\<And>k i. f k = Some i \<Longrightarrow> inst_key i = k" "finite (reachable_from (resolved_dependencies f) R)" "builder_ok f R b" "apart b"
  shows "\<exists>b' g. (builds f)\<^sup>*\<^sup>* b b' \<and> builder_finish b' = Inr g"
  using assms(3,4)
proof (induction "card (reachable_from (resolved_dependencies f) R - (resolved b \<union> builder_external b))" arbitrary: b rule: less_induct)
  case less
  let ?U = "reachable_from (resolved_dependencies f) R"
  have step: ?case if d: "k \<in> builder_demanded b1" and b1: "(builds f)\<^sup>*\<^sup>* b b1" "apart b1" "builder_ok f R b1"
      "resolved b1 \<union> builder_external b1 = resolved b \<union> builder_external b" for k b1
  proof -
    obtain b2 where b2: "builds f b1 b2" "apart b2" "resolved b2 \<union> builder_external b2 = insert k (resolved b \<union> builder_external b)"
      using apart_demanded_step [OF b1(2) d assms(1)] unfolding b1(4) by blast
    have "k \<in> ?U" using b1(3) d unfolding builder_ok_def covered_def by blast
    moreover have "k \<notin> resolved b \<union> builder_external b" using b1(2) d unfolding b1(4) [symmetric] apart_def by blast
    ultimately have "card (?U - (resolved b2 \<union> builder_external b2)) < card (?U - (resolved b \<union> builder_external b))"
      unfolding b2(3) by (rule card_insert_less [OF assms(2)])
    from less.hyps [OF this builds_ok [OF b2(1) b1(3)] b2(2)] b1(1) b2(1) show ?thesis
      by (meson rtranclp.rtrancl_into_rtrancl rtranclp_trans)
  qed
  consider "builder_demanded b \<noteq> {}" | "builder_demanded b = {}" "builder_pending b \<noteq> {}" | "builder_demanded b = {}" "builder_pending b = {}" by blast
  then show ?case
  proof cases
    case 1
    then obtain k where "k \<in> builder_demanded b" by blast
    from step [OF this _ less.prems(2,1)] show ?thesis by blast
  next
    case 2
    obtain frontier b1 where t: "take_frontier b = (frontier, b1)" by fastforce
    from 2 apart_frontier [OF less.prems(2) t] obtain k where "k \<in> builder_demanded b1" by blast
    from step [OF this _ _ builder_ok_takes [OF less.prems(1) t]] apart_frontier [OF less.prems(2) t] builds.takes [of b frontier b1 f] t
    show ?thesis by blast
  next
    case 3
    then have "builder_finish b = Inr \<lparr>graph_roots = sorted_list_of_set (builder_roots b), graph_instances = map snd (builder_instances b),
       graph_external = sorted_list_of_set (builder_external b)\<rparr>" by (simp add: builder_finish_def)
    then show ?thesis by blast
  qed
qed

text \<open>
  C28. A builder never gets stuck: from every state that a run reaches, answering what is demanded and taking the
  next frontier leads to a published graph, if the roots reach finitely many keys.
\<close>

theorem reachability_completes:
  assumes "\<And>k i. f k = Some i \<Longrightarrow> inst_key i = k" "finite (reachable_from (resolved_dependencies f) (set roots))"
    and "builder_try_new roots = Inr b0" "(builds f)\<^sup>*\<^sup>* b0 b"
  shows "\<exists>b' g. (builds f)\<^sup>*\<^sup>* b b' \<and> builder_finish b' = Inr g"
proof (rule builder_completes [OF assms(1,2)])
  show "builder_ok f (set roots) b" by (rule runs_ok [OF assms(4) builder_ok_new [OF assms(3)]])
  have "apart b0" using assms(3) by (auto simp: builder_try_new_def apart_def resolved_def split: if_splits)
  with assms(4) show "apart b"
  proof (induction rule: rtranclp_induct)
    case (step b1 b2)
    from step.hyps(2) step.IH [OF step.prems] show ?case
    proof (cases rule: builds.cases)
      case (resolves key i)
      with push_instance_spec(1) [OF resolves(3)] apart_push(1) [OF step.IH [OF step.prems], of key i] show ?thesis by auto
    next
      case (leaves key)
      with push_external_spec(1) [OF leaves(2)] apart_push(2) [OF step.IH [OF step.prems], of key] show ?thesis by auto
    qed (use apart_frontier in blast)
  qed simp
qed

theorem reachability_completes_witness:
  "\<exists>b0 b g. builder_try_new [sample_key 0] = Inr b0 \<and> (builds sample_resolver)\<^sup>*\<^sup>* b0 b \<and> builder_finish b = Inr g"
proof -
  have "reachable_from (resolved_dependencies sample_resolver) (set [sample_key 0]) \<subseteq> {sample_key 0, sample_key 1}"
    by (rule reachable_least) (auto simp: resolved_dependencies_def sample_resolver_def sample_caller_def split: if_splits)
  then have fin: "finite (reachable_from (resolved_dependencies sample_resolver) (set [sample_key 0]))" by (rule finite_subset) simp
  obtain b0 where b0: "builder_try_new [sample_key 0] = Inr b0" by (simp add: builder_try_new_def)
  from reachability_completes [OF sample_resolver_key fin b0 rtranclp.rtrancl_refl] b0 show ?thesis by blast
qed

end
