(* ===== verification/Codegen_Units.thy ===== *)
theory Codegen_Units
  imports Codegen_Reachability
begin

text \<open>
  Units of code generation (\<open>crates/bray-codegen/src/unit/model.rs\<close>, classes in \<open>policy.rs\<close> and \<open>target/symbol.rs\<close>): what is
  generated together, with the key that is its recipe.

  Digests, the runtime references of a MIR unit and the object format of a target come from an environment. The
  lemmas say when a unit is built and what it holds, and that it is built again from its key.
\<close>

subsection \<open>Classes\<close>

datatype codegen_linkage = Private | Internal | External | Weak | Fallback | LinkOnce | Common | Import | Export

datatype codegen_definition_visibility = Unit | Product | Public

datatype object_format = Coff | Elf | MachO | WebAssembly | Xcoff

record codegen_partition_compatibility =
  compat_package :: nat
  compat_source_namespace :: nat
  compat_linkage :: codegen_linkage
  compat_visibility :: codegen_definition_visibility
  compat_native_selection_boundary :: bool
  compat_native_storage_dependencies_identity :: nat

record codegen_environment =
  env_anchor :: "codegen_partition_policy \<Rightarrow> codegen_instance_key list \<Rightarrow> nat list"
  env_runtime_references :: "mir_unit \<Rightarrow> nat list"
  env_object_format :: "nat \<Rightarrow> object_format"
  env_content_identity :: "codegen_partition_policy \<Rightarrow> codegen_partition_compatibility list \<Rightarrow> nat
    \<Rightarrow> codegen_oversized_unit option \<Rightarrow> codegen_instance list \<Rightarrow> nat"

type_synonym ('e, 'a) outcome = "('e + 'a) run"

definition and_then :: "('e, 'a) outcome \<Rightarrow> ('a \<Rightarrow> ('e, 'b) outcome) \<Rightarrow> ('e, 'b) outcome" where
  "and_then r f = (case r of None \<Rightarrow> None | Some (Inl e) \<Rightarrow> Some (Inl e) | Some (Inr x) \<Rightarrow> f x)"

lemma and_then_simps [simp]: "and_then None f = None" "and_then (Some (Inl e)) f = Some (Inl e)" "and_then (Some (Inr x)) f = f x"
  by (simp_all add: and_then_def)

subsection \<open>Units\<close>

record codegen_unit_recipe =
  recipe_instances :: "codegen_instance_key list"
  recipe_compatibilities :: "codegen_partition_compatibility list"
  recipe_mir_units :: "nat list"
  recipe_dependencies :: "codegen_instance_dependency list list"

record codegen_unit_key =
  ukey_partition_policy :: codegen_partition_policy
  ukey_estimated_work :: nat
  ukey_oversized :: "codegen_oversized_unit option"
  ukey_target :: nat
  ukey_recipe :: codegen_unit_recipe
  ukey_content_identity :: nat

record codegen_unit =
  unit_key :: codegen_unit_key
  unit_target :: nat
  unit_estimated_work :: nat
  unit_oversized :: "codegen_oversized_unit option"
  unit_instances :: "codegen_instance list"
  unit_external_instances :: "codegen_instance_key list"

datatype codegen_unit_build_error =
  Empty | UnitDuplicateInstance | UnitMissingCompatibility | UnitTargetMismatch | WorkBoundExceeded | RecipeMismatch

type_synonym compatibility = "codegen_instance \<Rightarrow> codegen_partition_compatibility option run"

primrec collect_compatibilities :: "compatibility \<Rightarrow> codegen_instance list \<Rightarrow> codegen_partition_compatibility list option run" where
  "collect_compatibilities compatibility [] = Some (Some [])"
| "collect_compatibilities compatibility (i # is) = do {
     c \<leftarrow> compatibility i;
     (case c of
        None \<Rightarrow> Some None
      | Some class \<Rightarrow> do {
          rest \<leftarrow> collect_compatibilities compatibility is;
          Some (map_option (\<lambda>cs. class # cs) rest)
        })
   }"

definition external_of :: "codegen_instance list \<Rightarrow> codegen_instance_key list" where
  "external_of is = sorted_unique_shared_slice (filter (\<lambda>k. k \<notin> inst_key ` set is)
     (concat (map (\<lambda>i. map dependency_instance (inst_dependencies i)) is)))"

definition unit_of ::
    "codegen_environment \<Rightarrow> codegen_partition_policy \<Rightarrow> codegen_partition_compatibility list \<Rightarrow> codegen_oversized_unit option
     \<Rightarrow> codegen_instance list \<Rightarrow> codegen_unit" where
  "unit_of env policy classes oversized is = (
     let target = key_target (inst_key (hd is)); work = total_work is in
     \<lparr>unit_key = \<lparr>ukey_partition_policy = policy, ukey_estimated_work = work, ukey_oversized = oversized, ukey_target = target,
        ukey_recipe = \<lparr>recipe_instances = map inst_key is, recipe_compatibilities = classes,
          recipe_mir_units = map (\<lambda>i. mir_id (inst_mir i)) is, recipe_dependencies = map inst_dependencies is\<rparr>,
        ukey_content_identity = env_content_identity env policy classes work oversized is\<rparr>,
      unit_target = target, unit_estimated_work = work, unit_oversized = oversized, unit_instances = is,
      unit_external_instances = external_of is\<rparr>)"

definition try_from_partition ::
    "codegen_environment \<Rightarrow> codegen_partition_policy \<Rightarrow> codegen_instance list \<Rightarrow> compatibility \<Rightarrow> bool
     \<Rightarrow> (codegen_unit_build_error, codegen_unit) outcome" where
  "try_from_partition env policy given compatibility indivisible = (
     let is = sort_key inst_key given in
     if is = [] then Some (Inl Empty)
     else if \<not> distinct_adj (map inst_key is) then Some (Inl UnitDuplicateInstance)
     else do {
       found \<leftarrow> collect_compatibilities compatibility is;
       (case found of
          None \<Rightarrow> Some (Inl UnitMissingCompatibility)
        | Some classes \<Rightarrow>
            if \<exists>i \<in> set is. key_target (inst_key i) \<noteq> key_target (inst_key (hd is)) then Some (Inl UnitTargetMismatch)
            else let work = total_work is; upper = policy_upper_bound policy in
              if upper < work then
                (if \<not> indivisible then Some (Inl WorkBoundExceeded)
                 else Some (Inr (unit_of env policy classes (Some (oversized_indivisible (length is) work upper)) is)))
              else Some (Inr (unit_of env policy classes None is)))
     })"

definition recipe_eq :: "codegen_unit_recipe \<Rightarrow> codegen_unit_recipe \<Rightarrow> bool" where
  "recipe_eq r s \<longleftrightarrow> recipe_instances r = recipe_instances s \<and> recipe_compatibilities r = recipe_compatibilities s
     \<and> recipe_dependencies r = recipe_dependencies s"

definition unit_key_eq :: "codegen_unit_key \<Rightarrow> codegen_unit_key \<Rightarrow> bool" where
  "unit_key_eq k l \<longleftrightarrow> ukey_partition_policy k = ukey_partition_policy l \<and> ukey_estimated_work k = ukey_estimated_work l
     \<and> ukey_oversized k = ukey_oversized l \<and> ukey_target k = ukey_target l \<and> recipe_eq (ukey_recipe k) (ukey_recipe l)
     \<and> ukey_content_identity k = ukey_content_identity l"

text \<open>Binary search in a strictly sorted slice finds the position of the key.\<close>

definition unit_key_compatibility :: "codegen_unit_key \<Rightarrow> codegen_instance_key \<Rightarrow> codegen_partition_compatibility option" where
  "unit_key_compatibility k key = map_of (zip (recipe_instances (ukey_recipe k)) (recipe_compatibilities (ukey_recipe k))) key"

definition try_from_key ::
    "codegen_environment \<Rightarrow> codegen_unit_key \<Rightarrow> codegen_instance list \<Rightarrow> (codegen_unit_build_error, codegen_unit) outcome" where
  "try_from_key env key is = and_then
     (try_from_partition env (ukey_partition_policy key) is (\<lambda>i. Some (unit_key_compatibility key (inst_key i))) (ukey_oversized key \<noteq> None))
     (\<lambda>u. if \<not> unit_key_eq (unit_key u) key then Some (Inl RecipeMismatch) else Some (Inr u))"

definition unit_key_dependencies :: "codegen_unit_key \<Rightarrow> codegen_instance_key \<Rightarrow> codegen_instance_dependency list option" where
  "unit_key_dependencies k key = map_of (zip (recipe_instances (ukey_recipe k)) (recipe_dependencies (ukey_recipe k))) key"

definition unit_key_mir_unit :: "codegen_unit_key \<Rightarrow> codegen_instance_key \<Rightarrow> nat option" where
  "unit_key_mir_unit k key = map_of (zip (recipe_instances (ukey_recipe k)) (recipe_mir_units (ukey_recipe k))) key"

definition try_from_instances ::
    "codegen_environment \<Rightarrow> codegen_partition_policy \<Rightarrow> codegen_partition_compatibility \<Rightarrow> codegen_instance list
     \<Rightarrow> (codegen_unit_build_error, codegen_unit) outcome" where
  "try_from_instances env policy class is = try_from_partition env policy is (\<lambda>i. Some (Some class)) False"

definition unit_try_new ::
    "codegen_environment \<Rightarrow> codegen_partition_policy \<Rightarrow> codegen_partition_compatibility \<Rightarrow> mir_unit list
     \<Rightarrow> (codegen_unit_build_error, codegen_unit) outcome" where
  "unit_try_new env policy class mirs = try_from_instances env policy class (map instance_non_generic mirs)"

subsection \<open>Building a unit\<close>

lemma collect_compatibilities_run:
  assumes "\<And>i. i \<in> set is \<Longrightarrow> compatibility i = Some (Some (f i))"
  shows "collect_compatibilities compatibility is = Some (Some (map f is))"
  using assms by (induction "is") simp_all

lemma collect_compatibilities_inv:
  "collect_compatibilities compatibility is = Some (Some classes) \<Longrightarrow>
    list_all2 (\<lambda>i class. compatibility i = Some (Some class)) is classes"
  by (induction "is" arbitrary: classes) (auto simp: run_simps split: option.splits)

lemma distinct_adj_sorted: "sorted (xs :: 'a :: linorder list) \<Longrightarrow> distinct_adj xs \<longleftrightarrow> distinct xs"
proof
  assume "sorted xs" "distinct_adj xs"
  then show "distinct xs"
  proof (induction xs rule: induct_list012)
    case (3 x y zs)
    then have "x < y" by (simp add: less_le)
    moreover have "y \<le> z" if "z \<in> set zs" for z using 3 that by simp
    ultimately show ?case using 3 by (auto dest: leD)
  qed simp_all
qed (simp add: distinct_adj_conv_nth nth_eq_iff_index_eq)

text \<open>What a unit of some instances is.\<close>

definition unit_holds :: "codegen_partition_policy \<Rightarrow> codegen_instance list \<Rightarrow> codegen_unit \<Rightarrow> bool" where
  "unit_holds policy is u \<longleftrightarrow> unit_instances u = sort_key inst_key is \<and> unit_estimated_work u = total_work is
     \<and> (\<forall>i \<in> set is. key_target (inst_key i) = unit_target u) \<and> unit_external_instances u = external_of (sort_key inst_key is)
     \<and> unit_oversized u = (if policy_upper_bound policy < total_work is
         then Some (oversized_indivisible (length is) (total_work is) (policy_upper_bound policy)) else None)"

lemma try_from_partition_run:
  assumes "is \<noteq> []" "distinct (map inst_key is)" "\<And>i. i \<in> set is \<Longrightarrow> compatibility i = Some (Some (f i))"
    and "\<And>i. i \<in> set is \<Longrightarrow> key_target (inst_key i) = target"
    and "total_work is \<le> policy_upper_bound policy \<or> indivisible"
  obtains u where "try_from_partition env policy is compatibility indivisible = Some (Inr u)" "unit_holds policy is u"
proof -
  let ?is = "sort_key inst_key is"
  have ne: "?is \<noteq> []" using assms(1) by (metis mset_sort mset_zero_iff)
  have d: "distinct_adj (map inst_key ?is)" using assms(2) by (simp add: distinct_adj_sorted distinct_map)
  have c: "collect_compatibilities compatibility ?is = Some (Some (map f ?is))"
    by (rule collect_compatibilities_run) (simp add: assms(3))
  have t: "\<not> (\<exists>i \<in> set ?is. key_target (inst_key i) \<noteq> key_target (inst_key (hd ?is)))"
    using assms(4) hd_in_set [OF ne] by simp
  have w: "total_work ?is = total_work is" by (rule total_work_mset) simp
  have "hd ?is \<in> set is" using hd_in_set [OF ne] by simp
  with assms(4) have h: "key_target (inst_key (hd ?is)) = target" by simp
  show ?thesis
    using assms(4,5) ne d c t w h that unfolding try_from_partition_def unit_of_def unit_holds_def Let_def
    by (cases "policy_upper_bound policy < total_work is") auto
qed

text \<open>A unit that was built, and the inputs that build it.\<close>

lemma try_from_partition_inv:
  assumes "try_from_partition env policy given compatibility indivisible = Some (Inr u)"
  obtains classes oversized where "given \<noteq> []" "distinct (map inst_key given)"
    "u = unit_of env policy classes oversized (sort_key inst_key given)" "length classes = length given"
    "\<And>i j. i \<in> set given \<Longrightarrow> j \<in> set given \<Longrightarrow> key_target (inst_key i) = key_target (inst_key j)"
    "oversized = (if policy_upper_bound policy < total_work given
       then Some (oversized_indivisible (length given) (total_work given) (policy_upper_bound policy)) else None)"
proof -
  let ?is = "sort_key inst_key given"
  from assms obtain classes where c: "collect_compatibilities compatibility ?is = Some (Some classes)"
    by (auto simp: try_from_partition_def Let_def run_simps split: if_splits option.splits)
  have len: "length classes = length given"
    using collect_compatibilities_inv [OF c] by (auto dest: list_all2_lengthD)
  have w: "total_work ?is = total_work given" by (rule total_work_mset) simp
  have same: "\<forall>i \<in> set given. key_target (inst_key i) = key_target (inst_key (hd ?is))"
    using assms by (auto simp: try_from_partition_def Let_def run_simps split: if_splits option.splits)
  have ok: "given \<noteq> []" "distinct (map inst_key given)"
    using assms by (auto simp: try_from_partition_def Let_def distinct_adj_sorted distinct_map split: if_splits)
  have "u = unit_of env policy classes (if policy_upper_bound policy < total_work given
       then Some (oversized_indivisible (length given) (total_work given) (policy_upper_bound policy)) else None) ?is"
    using assms c w by (auto simp: try_from_partition_def Let_def split: if_splits)
  from that [OF ok this len _ refl] same show ?thesis by metis
qed

lemma sort_key_unique:
  assumes "distinct (map f xs)" "mset xs = mset ys"
  shows "sort_key f xs = sort_key f ys"
proof (rule map_sorted_distinct_set_unique [where f = f])
  have "set xs = set ys" by (rule mset_eq_setD [OF assms(2)])
  then show "inj_on f (set (sort_key f xs) \<union> set (sort_key f ys))" "set (sort_key f xs) = set (sort_key f ys)"
    using assms(1) by (simp_all add: distinct_map)
  have "distinct (map f ys)" using assms by (metis mset_eq_imp_distinct_iff mset_map)
  then show "distinct (map f (sort_key f xs))" "distinct (map f (sort_key f ys))" using assms(1) by (simp_all add: distinct_map)
qed simp_all

lemma unit_key_compatibility_run:
  assumes "distinct (map inst_key is)" "length classes = length is" "i < length is"
  shows "unit_key_compatibility (unit_key (unit_of env policy classes oversized is)) (inst_key (is ! i)) = Some (classes ! i)"
proof -
  have "(inst_key (is ! i), classes ! i) \<in> set (zip (map inst_key is) classes)"
    using assms by (auto simp: set_zip intro!: exI [of _ i])
  with assms show ?thesis by (simp add: unit_key_compatibility_def unit_of_def Let_def)
qed

lemma collect_of_key:
  assumes "distinct (map inst_key is)" "length classes = length is"
  shows "collect_compatibilities (\<lambda>i. Some (unit_key_compatibility (unit_key (unit_of env policy classes oversized is)) (inst_key i))) is
    = Some (Some classes)"
proof -
  let ?c = "\<lambda>i. unit_key_compatibility (unit_key (unit_of env policy classes oversized is)) (inst_key i)"
  have c: "?c (is ! j) = Some (classes ! j)" if "j < length is" for j using unit_key_compatibility_run [OF assms that] .
  have "collect_compatibilities (\<lambda>i. Some (?c i)) is = Some (Some (map (\<lambda>i. the (?c i)) is))"
  proof (rule collect_compatibilities_run)
    fix i assume "i \<in> set is"
    then show "Some (?c i) = Some (Some (the (?c i)))" using c by (auto simp: in_set_conv_nth)
  qed
  moreover have "map (\<lambda>i. the (?c i)) is = classes" using c assms(2) by (intro nth_equalityI) auto
  ultimately show ?thesis by simp
qed

text \<open>What a key says of an instance of its unit.\<close>

lemma map_of_zip_map: "distinct (map f xs) \<Longrightarrow> x \<in> set xs \<Longrightarrow> map_of (zip (map f xs) (map h xs)) (f x) = Some (h x)"
  by (induction xs) (auto simp: rev_image_eqI)

lemma unit_key_lookups:
  assumes "try_from_partition env policy given compatibility indivisible = Some (Inr u)" "i \<in> set given"
  shows "unit_key_dependencies (unit_key u) (inst_key i) = Some (inst_dependencies i)"
    "unit_key_mir_unit (unit_key u) (inst_key i) = Some (mir_id (inst_mir i))"
proof -
  obtain classes oversized where d: "distinct (map inst_key given)" and u: "u = unit_of env policy classes oversized (sort_key inst_key given)"
    by (rule try_from_partition_inv [OF assms(1)])
  have "distinct (map inst_key (sort_key inst_key given))" using d by (simp add: distinct_map)
  from map_of_zip_map [OF this, of i] assms(2)
  show "unit_key_dependencies (unit_key u) (inst_key i) = Some (inst_dependencies i)"
    "unit_key_mir_unit (unit_key u) (inst_key i) = Some (mir_id (inst_mir i))"
    by (simp_all add: u unit_of_def Let_def unit_key_dependencies_def unit_key_mir_unit_def)
qed

text \<open>
  C29. The key of a unit is a recipe of it: the unit is built again, equal in every field, from the key and the
  same instances in any order.
\<close>

theorem unit_key_round_trip:
  assumes "try_from_partition env policy given compatibility indivisible = Some (Inr u)" "mset again = mset given"
  shows "try_from_key env (unit_key u) again = Some (Inr u)"
proof (rule try_from_partition_inv [OF assms(1)])
  fix classes oversized
  let ?is = "sort_key inst_key given"
  assume ne: "given \<noteq> []" and d: "distinct (map inst_key given)" and u: "u = unit_of env policy classes oversized ?is"
    and len: "length classes = length given"
    and t: "\<And>i j. i \<in> set given \<Longrightarrow> j \<in> set given \<Longrightarrow> key_target (inst_key i) = key_target (inst_key j)"
    and o: "oversized = (if policy_upper_bound policy < total_work given
       then Some (oversized_indivisible (length given) (total_work given) (policy_upper_bound policy)) else None)"
  have s: "sort_key inst_key again = ?is" using sort_key_unique [OF d assms(2) [symmetric]] by simp
  have d': "distinct (map inst_key ?is)" using d by (simp add: distinct_map)
  have ne': "?is \<noteq> []" using ne by (metis mset_sort mset_zero_iff)
  have w: "total_work ?is = total_work given" by (rule total_work_mset) simp
  have t': "key_target (inst_key i) = key_target (inst_key (hd ?is))" if "i \<in> set given" for i
    using t [OF that, of "hd ?is"] hd_in_set [OF ne'] by simp
  have key: "ukey_partition_policy (unit_key u) = policy" "ukey_oversized (unit_key u) = oversized" by (simp_all add: u unit_of_def Let_def)
  have "try_from_partition env policy again (\<lambda>i. Some (unit_key_compatibility (unit_key u) (inst_key i))) (oversized \<noteq> None) = Some (Inr u)"
    using collect_of_key [OF d', of classes env policy oversized] len d' ne' w t' o
    unfolding try_from_partition_def s u Let_def by (simp add: distinct_adj_sorted)
  then show ?thesis by (simp add: try_from_key_def key unit_key_eq_def recipe_eq_def)
qed

text \<open>A class to partition by, and an environment.\<close>

definition sample_class :: codegen_partition_compatibility where
  "sample_class = \<lparr>compat_package = 0, compat_source_namespace = 0, compat_linkage = Internal, compat_visibility = Product,
     compat_native_selection_boundary = False, compat_native_storage_dependencies_identity = 0\<rparr>"

definition sample_environment :: codegen_environment where
  "sample_environment = \<lparr>env_anchor = (\<lambda>policy keys. replicate 32 (length keys)), env_runtime_references = (\<lambda>mir. []),
     env_object_format = (\<lambda>target. Elf), env_content_identity = (\<lambda>policy classes work oversized is. 0)\<rparr>"

theorem unit_key_round_trip_witness:
  "\<exists>u. try_from_partition sample_environment native_balanced [sample_caller, instance_non_generic (sample_mir 1)]
      (\<lambda>i. Some (Some sample_class)) False = Some (Inr u)
    \<and> try_from_key sample_environment (unit_key u) [instance_non_generic (sample_mir 1), sample_caller] = Some (Inr u)"
proof -
  let ?is = "[sample_caller, instance_non_generic (sample_mir 1)]"
  have k: "inst_key sample_caller = sample_key 0" "inst_key (instance_non_generic (sample_mir 1)) = sample_key 1"
    by (simp_all add: sample_caller_def instance_non_generic_def key_non_generic_def instance_key_new_def sample_mir_def sample_key_def
        sorted_unique_shared_slice_def)
  have w: "total_work ?is \<le> policy_upper_bound native_balanced"
    by (simp add: total_work_sum policy_estimate_def estimate_mir_work_def add_count_def work_saturating_add_def u64_max_def
        sample_caller_def instance_non_generic_def sample_mir_def native_balanced_def)
  obtain u where u: "try_from_partition sample_environment native_balanced ?is (\<lambda>i. Some (Some sample_class)) False = Some (Inr u)"
  proof (rule try_from_partition_run)
    show "key_target (inst_key i) = 0" if "i \<in> set ?is" for i using that k by (auto simp: sample_key_def)
  qed (use k w in \<open>auto simp: sample_key_def\<close>)
  from unit_key_round_trip [OF u, of "[instance_non_generic (sample_mir 1), sample_caller]"] u show ?thesis by auto
qed

end
