(* ===== verification/Union_Find.thy ===== *)
theory Union_Find
  imports Bray_Prelude
begin

text \<open>
  The disjoint sets of the partitioner (\<open>DisjointSet\<close> in \<open>crates/bray-codegen/src/unit/partition.rs\<close>): a forest of parents
  with ranks; finding a member compresses its path, joining hangs the root of lower rank below the other.
  Indexing out of range and a loop that never ends are both the absence of a result.

  The locale states what a client needs: representatives that decide which members are together. The lemmas inside
  it say what is together after a sequence of unions; the interpretation shows that the forest obeys the laws,
  whatever the ranks are.
\<close>

subsection \<open>The forest\<close>

record disjoint_set =
  parents :: "nat list"
  ranks :: "nat list"

definition disjoint_set_new :: "nat \<Rightarrow> disjoint_set" where
  "disjoint_set_new len = \<lparr>parents = [0..<len], ranks = replicate len 0\<rparr>"

partial_function (option) root_loop :: "nat list \<Rightarrow> nat \<Rightarrow> nat run" where
  "root_loop ps root = do {
     parent \<leftarrow> get ps root;
     (if parent = root then Some root else root_loop ps parent)
   }"

declare root_loop.simps [code]

partial_function (option) compress_loop :: "nat list \<Rightarrow> nat \<Rightarrow> nat \<Rightarrow> nat list run" where
  "compress_loop ps member root = do {
     parent \<leftarrow> get ps member;
     (if parent = member then Some ps else compress_loop (ps[member := root]) parent root)
   }"

declare compress_loop.simps [code]

definition find_root :: "nat \<Rightarrow> disjoint_set \<Rightarrow> (nat \<times> disjoint_set) run" where
  "find_root member s = do {
     root \<leftarrow> root_loop (parents s) member;
     ps \<leftarrow> compress_loop (parents s) member root;
     Some (root, s\<lparr>parents := ps\<rparr>)
   }"

text \<open>Ranks are bytes: adding one saturates at 255.\<close>

definition union_roots :: "nat \<Rightarrow> nat \<Rightarrow> disjoint_set \<Rightarrow> disjoint_set run" where
  "union_roots l r s = do {
     left_rank \<leftarrow> get (ranks s) l;
     right_rank \<leftarrow> get (ranks s) r;
     let (left, right) = (if left_rank < right_rank then (r, l) else (l, r));
     Some (s\<lparr>parents := (parents s)[right := left],
       ranks := (if left_rank = right_rank then (ranks s)[left := min 255 (left_rank + 1)] else ranks s)\<rparr>)
   }"

definition union_sets :: "nat \<Rightarrow> nat \<Rightarrow> disjoint_set \<Rightarrow> disjoint_set run" where
  "union_sets l r s = do {
     (left, s1) \<leftarrow> find_root l s;
     (right, s2) \<leftarrow> find_root r s1;
     (if left = right then Some s2 else union_roots left right s2)
   }"

subsection \<open>What a client relies on\<close>

definition together :: "(nat \<times> nat) list \<Rightarrow> (nat \<times> nat) set" where
  "together pairs = (set pairs \<union> (set pairs)\<inverse>)\<^sup>*"

lemma together_Nil [simp]: "together [] = Id"
  by (simp add: together_def)

lemma together_refl [simp]: "(a, a) \<in> together pairs"
  by (simp add: together_def)

lemma together_sym: "(a, b) \<in> together pairs \<Longrightarrow> (b, a) \<in> together pairs"
  unfolding together_def by (metis converse_Un converse_converse converse_iff rtrancl_converse sup_commute)

lemma together_trans: "(a, b) \<in> together pairs \<Longrightarrow> (b, c) \<in> together pairs \<Longrightarrow> (a, c) \<in> together pairs"
  unfolding together_def by (rule rtrancl_trans)

lemma together_mono: "set pairs \<subseteq> set pairs' \<Longrightarrow> (a, b) \<in> together pairs \<Longrightarrow> (a, b) \<in> together pairs'"
  unfolding together_def by (erule rtrancl_mono [THEN subsetD, rotated]) auto

lemma together_pair: "(a, b) \<in> set pairs \<Longrightarrow> (a, b) \<in> together pairs"
  unfolding together_def by auto

lemma together_snoc:
  "(a, b) \<in> together (pairs @ [(i, j)]) \<longleftrightarrow>
    (a, b) \<in> together pairs \<or> (a, i) \<in> together pairs \<and> (j, b) \<in> together pairs \<or> (a, j) \<in> together pairs \<and> (i, b) \<in> together pairs"
proof
  assume "(a, b) \<in> together (pairs @ [(i, j)])"
  then show "(a, b) \<in> together pairs \<or> (a, i) \<in> together pairs \<and> (j, b) \<in> together pairs \<or> (a, j) \<in> together pairs \<and> (i, b) \<in> together pairs"
    unfolding together_def
  proof (induction rule: rtrancl_induct)
    case (step b c)
    have base: "(b, c) \<in> together pairs \<or> (b, c) = (i, j) \<or> (b, c) = (j, i)" using step.hyps(2) by (auto simp: together_def)
    show ?case using step.IH base unfolding together_def [symmetric]
      by (elim disjE) (auto intro: together_trans together_sym simp: together_def [of "[]"])
  qed (simp add: together_def [symmetric])
next
  have m: "(x, y) \<in> together pairs \<Longrightarrow> (x, y) \<in> together (pairs @ [(i, j)])" for x y by (rule together_mono [rotated]) auto
  have p: "(i, j) \<in> together (pairs @ [(i, j)])" by (rule together_pair) simp
  assume "(a, b) \<in> together pairs \<or> (a, i) \<in> together pairs \<and> (j, b) \<in> together pairs \<or> (a, j) \<in> together pairs \<and> (i, b) \<in> together pairs"
  then show "(a, b) \<in> together (pairs @ [(i, j)])"
    using m p together_sym [OF p] by (blast intro: together_trans)
qed

locale union_find =
  fixes new :: "nat \<Rightarrow> 's"
    and find :: "nat \<Rightarrow> 's \<Rightarrow> (nat \<times> 's) run"
    and union :: "nat \<Rightarrow> nat \<Rightarrow> 's \<Rightarrow> 's run"
    and ok :: "nat \<Rightarrow> 's \<Rightarrow> bool"
    and representative :: "'s \<Rightarrow> nat \<Rightarrow> nat"
  assumes new_ok: "ok n (new n)" "i < n \<Longrightarrow> representative (new n) i = i"
    and find_ok: "ok n s \<Longrightarrow> i < n \<Longrightarrow>
      \<exists>s'. find i s = Some (representative s i, s') \<and> ok n s' \<and> (\<forall>j < n. representative s' j = representative s j)"
    and union_ok: "ok n s \<Longrightarrow> i < n \<Longrightarrow> j < n \<Longrightarrow>
      \<exists>s'. union i j s = Some s' \<and> ok n s' \<and> (\<forall>a < n. \<forall>b < n. representative s' a = representative s' b \<longleftrightarrow>
        representative s a = representative s b
        \<or> representative s a = representative s i \<and> representative s j = representative s b
        \<or> representative s a = representative s j \<and> representative s i = representative s b)"
begin

definition separates :: "nat \<Rightarrow> (nat \<times> nat) list \<Rightarrow> 's \<Rightarrow> bool" where
  "separates n pairs s \<longleftrightarrow> ok n s \<and> (\<forall>a < n. \<forall>b < n. representative s a = representative s b \<longleftrightarrow> (a, b) \<in> together pairs)"

lemma separates_new: "separates n [] (new n)"
  by (simp add: separates_def new_ok)

lemma separates_union:
  assumes "separates n pairs s" "i < n" "j < n"
  obtains s' where "union i j s = Some s'" "separates n (pairs @ [(i, j)]) s'"
  using union_ok [of n s i j] assms by (auto simp: separates_def together_snoc)

lemma separates_find:
  assumes "separates n pairs s" "i < n"
  obtains s' where "find i s = Some (representative s i, s')" "separates n pairs s'"
    "\<And>j. j < n \<Longrightarrow> representative s' j = representative s j"
  using find_ok [of n s i] assms by (auto simp: separates_def)

end

subsection \<open>Trees\<close>

definition descending :: "nat list \<Rightarrow> (nat \<Rightarrow> nat) \<Rightarrow> bool" where
  "descending ps d \<longleftrightarrow> (\<forall>i < length ps. ps ! i < length ps \<and> (ps ! i \<noteq> i \<longrightarrow> d (ps ! i) < d i))"

definition root_of :: "nat list \<Rightarrow> nat \<Rightarrow> nat" where
  "root_of ps i = the (root_loop ps i)"

lemma root_loop_step: "i < length ps \<Longrightarrow> root_loop ps i = (if ps ! i = i then Some i else root_loop ps (ps ! i))"
  by (subst root_loop.simps) (simp add: get_def)

lemma descending_root:
  assumes "descending ps d" "i < length ps"
  shows "root_loop ps i = Some (root_of ps i) \<and> root_of ps i < length ps \<and> ps ! root_of ps i = root_of ps i
    \<and> (root_of ps i \<noteq> i \<longrightarrow> d (root_of ps i) < d i)"
  using assms(2)
proof (induction "d i" arbitrary: i rule: less_induct)
  case less
  show ?case
  proof (cases "ps ! i = i")
    case True
    with less.prems show ?thesis by (simp add: root_of_def root_loop_step)
  next
    case False
    with assms(1) less.prems have "d (ps ! i) < d i" "ps ! i < length ps" by (auto simp: descending_def)
    moreover have "root_of ps i = root_of ps (ps ! i)" using False less.prems by (simp add: root_of_def root_loop_step)
    ultimately show ?thesis using less.hyps [of "ps ! i"] False less.prems by (auto simp: root_loop_step [of i])
  qed
qed

lemma root_of_parent: "i < length ps \<Longrightarrow> root_of ps (ps ! i) = root_of ps i"
  by (cases "ps ! i = i") (simp_all add: root_of_def root_loop_step [of i ps])

lemma root_of_root: "i < length ps \<Longrightarrow> ps ! i = i \<Longrightarrow> root_of ps i = i"
  by (simp add: root_of_def root_loop_step)

text \<open>Hanging a root, or a member and with it what hangs below, under the root of a tree.\<close>

lemma root_of_update:
  assumes "descending ps d" "descending (ps[x := y]) d'" "x < length ps" "y < length ps" "ps ! y = y" "x \<noteq> y"
    and "ps ! x = x \<or> root_of ps x = y" "j < length ps"
  shows "root_of (ps[x := y]) j = (if ps ! x = x \<and> root_of ps j = x then y else root_of ps j)"
  using assms(8)
proof (induction "d' j" arbitrary: j rule: less_induct)
  case less
  let ?ps = "ps[x := y]"
  have y: "root_of ?ps y = y" "root_of ps y = y" using assms(4-6) by (simp_all add: root_of_root)
  show ?case
  proof (cases "?ps ! j = j")
    case True
    with assms(3,6) less.prems have "j \<noteq> x" "ps ! j = j" by (cases "j = x"; auto)+
    with True less.prems show ?thesis by (simp add: root_of_root)
  next
    case False
    have step: "d' (?ps ! j) < d' j" "?ps ! j < length ps" using assms(2) less.prems False by (auto simp: descending_def)
    have eq: "root_of ?ps j = root_of ?ps (?ps ! j)" using root_of_parent [of j ?ps] less.prems by simp
    show ?thesis
    proof (cases "j = x")
      case True
      then show ?thesis using eq y assms(3,7) by (auto simp: root_of_root)
    next
      case False
      then have "?ps ! j = ps ! j" by simp
      with less.hyps [OF step] eq root_of_parent [OF less.prems] show ?thesis by simp
    qed
  qed
qed

lemma compress_loop_returns:
  assumes "descending ps d" "member < length ps" "root_of ps member = root"
  shows "\<exists>ps'. compress_loop ps member root = Some ps' \<and> descending ps' d \<and> length ps' = length ps
    \<and> (\<forall>j < length ps. root_of ps' j = root_of ps j)"
  using assms
proof (induction "d member" arbitrary: member ps rule: less_induct)
  case less
  let ?parent = "ps ! member" and ?ps = "ps[member := root]"
  note R = descending_root [OF less.prems(1,2), unfolded less.prems(3)]
  have p: "get ps member = Some ?parent" using less.prems(2) by (simp add: get_def)
  show ?case
  proof (cases "?parent = member")
    case True
    with p less.prems(1) show ?thesis by (subst compress_loop.simps) simp
  next
    case False
    have pd: "d ?parent < d member" "?parent < length ps" using False less.prems(1,2) by (auto simp: descending_def)
    have rm: "root \<noteq> member" using R False by auto
    have rl: "root < length ps" "d root < d member" using R rm by auto
    have dn: "descending ?ps d" using less.prems(1,2) rl unfolding descending_def by (simp add: nth_list_update)
    have same: "root_of ?ps j = root_of ps j" if "j < length ps" for j
      using root_of_update [OF less.prems(1) dn less.prems(2) _ _ _ _ that] R rm False less.prems(3) by auto
    have "root_of ?ps ?parent = root" using same [OF pd(2)] root_of_parent [OF less.prems(2)] less.prems(3) by simp
    from less.hyps [OF pd(1) dn _ this] pd(2) obtain ps' where "compress_loop ?ps ?parent root = Some ps'"
      "descending ps' d" "length ps' = length ps" "\<forall>j < length ps. root_of ps' j = root_of ?ps j" by auto
    with p False same show ?thesis by (subst compress_loop.simps) simp
  qed
qed

lemma descending_hang:
  assumes "descending ps d" "x < length ps" "y < length ps" "ps ! x = x" "ps ! y = y" "x \<noteq> y"
  shows "descending (ps[x := y]) (\<lambda>i. d i + (if root_of ps i = x then d y + 1 else 0))"
proof -
  have "root_of ps y = y" "root_of ps x = x" using assms(2-5) by (simp_all add: root_of_root)
  moreover have "root_of ps (ps ! i) = root_of ps i" if "i < length ps" for i using that by (rule root_of_parent)
  ultimately show ?thesis using assms unfolding descending_def by (simp add: nth_list_update)
qed

subsection \<open>The forest obeys the laws\<close>

definition forest_ok :: "nat \<Rightarrow> disjoint_set \<Rightarrow> bool" where
  "forest_ok n s \<longleftrightarrow> length (parents s) = n \<and> length (ranks s) = n \<and> (\<exists>d. descending (parents s) d)"

lemma find_root_spec:
  assumes "forest_ok n s" "i < n"
  obtains s' where "find_root i s = Some (root_of (parents s) i, s')" "forest_ok n s'"
    "\<And>j. j < n \<Longrightarrow> root_of (parents s') j = root_of (parents s) j" "ranks s' = ranks s"
proof -
  obtain d where d: "descending (parents s) d" "i < length (parents s)" using assms by (auto simp: forest_ok_def)
  from compress_loop_returns [OF d refl] obtain ps where
    ps: "compress_loop (parents s) i (root_of (parents s) i) = Some ps" "descending ps d" "length ps = length (parents s)"
      "\<forall>j < length (parents s). root_of ps j = root_of (parents s) j" by blast
  with assms descending_root [OF d] show ?thesis
    by (intro that [of "s\<lparr>parents := ps\<rparr>"]) (auto simp: find_root_def forest_ok_def)
qed

lemma union_roots_spec:
  assumes "forest_ok n s" "l < n" "r < n" "parents s ! l = l" "parents s ! r = r" "l \<noteq> r"
  obtains s' x y where "union_roots l r s = Some s'" "forest_ok n s'" "{x, y} = {l, r}" "x \<noteq> y"
    "\<And>j. j < n \<Longrightarrow> root_of (parents s') j = (if root_of (parents s) j = x then y else root_of (parents s) j)"
proof -
  define x y where "x = (if ranks s ! l < ranks s ! r then l else r)" and "y = (if ranks s ! l < ranks s ! r then r else l)"
  have xy: "{x, y} = {l, r}" "x \<noteq> y" "x < n" "y < n" "parents s ! x = x" "parents s ! y = y"
    using assms(2-6) by (auto simp: x_def y_def)
  obtain d where d: "descending (parents s) d" and len: "length (parents s) = n" "length (ranks s) = n"
    using assms(1) by (auto simp: forest_ok_def)
  have hang: "descending ((parents s)[x := y]) (\<lambda>i. d i + (if root_of (parents s) i = x then d y + 1 else 0))"
    using descending_hang [OF d] xy len by simp
  have "root_of ((parents s)[x := y]) j = (if root_of (parents s) j = x then y else root_of (parents s) j)" if "j < n" for j
    using root_of_update [OF d hang _ _ _ _ _] that xy len by simp
  moreover define rs where "rs = (if ranks s ! l = ranks s ! r then (ranks s)[y := min 255 (ranks s ! l + 1)] else ranks s)"
  moreover have "union_roots l r s = Some (s\<lparr>parents := (parents s)[x := y], ranks := rs\<rparr>)" "length rs = n"
    using assms(2,3) len by (simp_all add: union_roots_def get_def x_def y_def rs_def)
  ultimately show ?thesis using xy hang len
    by (intro that [of "s\<lparr>parents := (parents s)[x := y], ranks := rs\<rparr>" x y]) (auto simp: forest_ok_def)
qed

lemma union_sets_spec:
  assumes "forest_ok n s" "i < n" "j < n"
  shows "\<exists>s'. union_sets i j s = Some s' \<and> forest_ok n s' \<and> (\<forall>a < n. \<forall>b < n.
    root_of (parents s') a = root_of (parents s') b \<longleftrightarrow> root_of (parents s) a = root_of (parents s) b
      \<or> root_of (parents s) a = root_of (parents s) i \<and> root_of (parents s) j = root_of (parents s) b
      \<or> root_of (parents s) a = root_of (parents s) j \<and> root_of (parents s) i = root_of (parents s) b)"
proof -
  let ?r = "root_of (parents s)"
  obtain s1 where 1: "find_root i s = Some (?r i, s1)" "forest_ok n s1" "\<And>k. k < n \<Longrightarrow> root_of (parents s1) k = ?r k"
    by (rule find_root_spec [OF assms(1,2)]) blast
  obtain s2 where 2: "find_root j s1 = Some (root_of (parents s1) j, s2)" "forest_ok n s2"
    "\<And>k. k < n \<Longrightarrow> root_of (parents s2) k = root_of (parents s1) k" by (rule find_root_spec [OF 1(2) assms(3)]) blast
  have same: "root_of (parents s2) k = ?r k" if "k < n" for k using 1(3) 2(3) that by simp
  show ?thesis
  proof (cases "?r i = ?r j")
    case True
    with 1 2 same assms show ?thesis by (intro exI [of _ s2]) (auto simp: union_sets_def)
  next
    case False
    obtain d where d: "descending (parents s2) d" "length (parents s2) = n" using 2(2) by (auto simp: forest_ok_def)
    have i: "?r i < n" "parents s2 ! ?r i = ?r i" using descending_root [OF d(1), of i] d(2) assms(2) same [OF assms(2)] by auto
    have j: "?r j < n" "parents s2 ! ?r j = ?r j" using descending_root [OF d(1), of j] d(2) assms(3) same [OF assms(3)] by auto
    from union_roots_spec [OF 2(2) i(1) j(1) i(2) j(2) False] obtain s' x y where
      u: "union_roots (?r i) (?r j) s2 = Some s'" "forest_ok n s'" "{x, y} = {?r i, ?r j}" "x \<noteq> y"
        "\<And>k. k < n \<Longrightarrow> root_of (parents s') k = (if root_of (parents s2) k = x then y else root_of (parents s2) k)" by blast
    have "union_sets i j s = Some s'" using 1(1,3) 2(1) u(1) False assms(3) by (simp add: union_sets_def)
    moreover have "root_of (parents s') k = (if ?r k = x then y else ?r k)" if "k < n" for k using u(5) same that by simp
    ultimately show ?thesis using u(2-4) False by (intro exI [of _ s']) (auto simp: doubleton_eq_iff)
  qed
qed

interpretation forest: union_find disjoint_set_new find_root union_sets forest_ok "\<lambda>s. root_of (parents s)"
proof
  have d: "descending [0..<n] id" for n by (simp add: descending_def)
  show "forest_ok n (disjoint_set_new n)" for n using d by (auto simp: forest_ok_def disjoint_set_new_def)
  show "i < n \<Longrightarrow> root_of (parents (disjoint_set_new n)) i = i" for i n by (simp add: disjoint_set_new_def root_of_root)
  show "\<exists>s'. find_root i s = Some (root_of (parents s) i, s') \<and> forest_ok n s' \<and> (\<forall>j < n. root_of (parents s') j = root_of (parents s) j)"
    if "forest_ok n s" "i < n" for n s i
    by (rule find_root_spec [OF that]) blast
qed (rule union_sets_spec)

end
