(* ===== verification/Codegen_Groups.thy ===== *)
theory Codegen_Groups
  imports Codegen_Units Union_Find
begin

text \<open>
  The groups of definitions that one unit must hold (\<open>required_groups\<close> in \<open>crates/bray-codegen/src/unit/partition.rs\<close>): ties
  and strongly connected components join the disjoint sets of the instances. The lemmas show that the groups are the
  classes of the least equivalence that holds for tied and for mutually dependent instances.
\<close>

subsection \<open>Groups that stay together\<close>

type_synonym index_map = "(codegen_instance_key, nat) ordered_map"

definition instance_indices :: "codegen_instance list \<Rightarrow> index_map" where
  "instance_indices is = map_collect (zip (map inst_key is) [0..<length is])"

primrec tie_dependencies ::
    "index_map \<Rightarrow> codegen_partition_compatibility list \<Rightarrow> nat \<Rightarrow> codegen_instance_dependency list
     \<Rightarrow> nat list \<times> disjoint_set \<Rightarrow> (nat list \<times> disjoint_set) run" where
  "tie_dependencies indices classes source [] s = Some s"
| "tie_dependencies indices classes source (d # ds) s = (case map_of indices (dependency_instance d) of
     None \<Rightarrow> tie_dependencies indices classes source ds s
   | Some target \<Rightarrow> do {
       tied \<leftarrow> (if dependency_kind d = DirectAwaitedFrame then Some True
         else map_option (\<lambda>c. compat_visibility c = Unit) (get classes target));
       sets \<leftarrow> (if tied then union_sets source target (snd s) else Some (snd s));
       tie_dependencies indices classes source ds (fst s @ [target], sets)
     })"

primrec tie_instances ::
    "index_map \<Rightarrow> codegen_partition_compatibility list \<Rightarrow> nat \<Rightarrow> codegen_instance list
     \<Rightarrow> nat list list \<times> disjoint_set \<Rightarrow> (nat list list \<times> disjoint_set) run" where
  "tie_instances indices classes source [] s = Some s"
| "tie_instances indices classes source (i # is) s = do {
     (targets, sets) \<leftarrow> tie_dependencies indices classes source (inst_dependencies i) ([], snd s);
     tie_instances indices classes (source + 1) is (fst s @ [targets], sets)
   }"

primrec join_members :: "nat \<Rightarrow> nat list \<Rightarrow> disjoint_set \<Rightarrow> disjoint_set run" where
  "join_members first [] s = Some s"
| "join_members first (member # rest) s = do { s' \<leftarrow> union_sets first member s; join_members first rest s' }"

primrec join_components :: "nat list list \<Rightarrow> disjoint_set \<Rightarrow> disjoint_set run" where
  "join_components [] s = Some s"
| "join_components (component # components) s = (case component of
     [] \<Rightarrow> join_components components s
   | first # rest \<Rightarrow> do { s' \<leftarrow> join_members first rest s; join_components components s' })"

primrec group_members :: "nat list \<Rightarrow> (nat, nat list) ordered_map \<times> disjoint_set \<Rightarrow> (nat, nat list) ordered_map run" where
  "group_members [] s = Some (fst s)"
| "group_members (index # indices) s = do {
     (root, sets) \<leftarrow> find_root index (snd s);
     group_members indices (map_insert root (listed (fst s) root @ [index]) (fst s), sets)
   }"

definition required_groups ::
    "codegen_instance list \<Rightarrow> index_map \<Rightarrow> codegen_partition_compatibility list \<Rightarrow> (nat, nat list) ordered_map run" where
  "required_groups is indices classes = do {
     (edges, sets) \<leftarrow> tie_instances indices classes 0 is ([], disjoint_set_new (length is));
     components \<leftarrow> strongly_connected_components [0..<length edges] (\<lambda>node. edges ! node);
     sets' \<leftarrow> join_components components sets;
     group_members [0..<length is] ([], sets')
   }"

subsection \<open>What the groups are\<close>

lemma in_map_filter: "y \<in> set (List.map_filter f xs) \<longleftrightarrow> (\<exists>x \<in> set xs. f x = Some y)"
  by (induction xs) (auto simp: map_filter_simps split: option.splits)

definition dependency_targets :: "index_map \<Rightarrow> codegen_instance_dependency list \<Rightarrow> nat list" where
  "dependency_targets indices ds = List.map_filter (\<lambda>d. map_of indices (dependency_instance d)) ds"

definition tied_targets :: "index_map \<Rightarrow> codegen_partition_compatibility list \<Rightarrow> codegen_instance_dependency list \<Rightarrow> nat list" where
  "tied_targets indices classes ds = List.map_filter (\<lambda>d. case map_of indices (dependency_instance d) of
       None \<Rightarrow> None
     | Some t \<Rightarrow> if dependency_kind d = DirectAwaitedFrame \<or> compat_visibility (classes ! t) = Unit then Some t else None) ds"

lemma tie_dependencies_run:
  assumes "\<forall>k t. map_of indices k = Some t \<longrightarrow> t < n" "length classes = n" "source < n" "forest.separates n pairs sets"
  shows "\<exists>sets'. tie_dependencies indices classes source ds (ts, sets) = Some (ts @ dependency_targets indices ds, sets')
    \<and> forest.separates n (pairs @ map (Pair source) (tied_targets indices classes ds)) sets'"
  using assms(4)
proof (induction ds arbitrary: ts pairs sets)
  case Nil
  then show ?case by (simp add: dependency_targets_def tied_targets_def map_filter_simps)
next
  case (Cons d ds)
  show ?case
  proof (cases "map_of indices (dependency_instance d)")
    case None
    with Cons.IH [OF Cons.prems] show ?thesis by (simp add: dependency_targets_def tied_targets_def map_filter_simps)
  next
    case (Some t)
    then have t: "t < n" "get classes t = Some (classes ! t)" using assms(1,2) by (simp_all add: get_def)
    show ?thesis
    proof (cases "dependency_kind d = DirectAwaitedFrame \<or> compat_visibility (classes ! t) = Unit")
      case True
      obtain sets1 where "union_sets source t sets = Some sets1" "forest.separates n (pairs @ [(source, t)]) sets1"
        by (rule forest.separates_union [OF Cons.prems assms(3) t(1)])
      with Cons.IH [OF this(2), of "ts @ [t]"] Some True t show ?thesis
        by (auto simp: dependency_targets_def tied_targets_def map_filter_simps)
    next
      case False
      with Cons.IH [OF Cons.prems, of "ts @ [t]"] Some t show ?thesis
        by (simp add: dependency_targets_def tied_targets_def map_filter_simps)
    qed
  qed
qed

definition ties :: "index_map \<Rightarrow> codegen_partition_compatibility list \<Rightarrow> nat \<Rightarrow> codegen_instance list \<Rightarrow> (nat \<times> nat) list" where
  "ties indices classes source is =
     concat (map (\<lambda>(s, i). map (Pair s) (tied_targets indices classes (inst_dependencies i))) (enumerate source is))"

lemma tie_instances_run:
  assumes "\<forall>k t. map_of indices k = Some t \<longrightarrow> t < n" "length classes = n" "source + length is \<le> n" "forest.separates n pairs sets"
  shows "\<exists>sets'. tie_instances indices classes source is (es, sets)
      = Some (es @ map (\<lambda>i. dependency_targets indices (inst_dependencies i)) is, sets')
    \<and> forest.separates n (pairs @ ties indices classes source is) sets'"
  using assms(3,4)
proof (induction "is" arbitrary: source es pairs sets)
  case Nil
  then show ?case by (simp add: ties_def)
next
  case (Cons i "is")
  from tie_dependencies_run [of indices n classes source pairs sets "inst_dependencies i" "[]", OF assms(1,2) _ Cons.prems(2)] Cons.prems(1)
  obtain sets1 where
    one: "tie_dependencies indices classes source (inst_dependencies i) ([], sets) = Some (dependency_targets indices (inst_dependencies i), sets1)"
      "forest.separates n (pairs @ map (Pair source) (tied_targets indices classes (inst_dependencies i))) sets1" by auto
  from Cons.IH [OF _ one(2), of "Suc source" "es @ [dependency_targets indices (inst_dependencies i)]"] Cons.prems(1) one(1)
  show ?case by (auto simp: ties_def)
qed

lemma join_members_run:
  assumes "first < n" "set rest \<subseteq> {..<n}" "forest.separates n pairs sets"
  shows "\<exists>sets'. join_members first rest sets = Some sets' \<and> forest.separates n (pairs @ map (Pair first) rest) sets'"
  using assms(2,3)
proof (induction rest arbitrary: pairs sets)
  case (Cons m rest)
  then have "m < n" by simp
  then obtain sets1 where "union_sets first m sets = Some sets1" "forest.separates n (pairs @ [(first, m)]) sets1"
    by (rule forest.separates_union [OF Cons.prems(2) assms(1)])
  with Cons.IH [OF _ this(2)] Cons.prems(1) show ?case by auto
qed simp

definition component_pairs :: "nat list \<Rightarrow> (nat \<times> nat) list" where
  "component_pairs c = map (Pair (hd c)) (tl c)"

lemma join_components_run:
  assumes "set (concat cs) \<subseteq> {..<n}" "forest.separates n pairs sets"
  shows "\<exists>sets'. join_components cs sets = Some sets' \<and> forest.separates n (pairs @ concat (map component_pairs cs)) sets'"
  using assms
proof (induction cs arbitrary: pairs sets)
  case (Cons c cs)
  show ?case
  proof (cases c)
    case Nil
    with Cons show ?thesis by (simp add: component_pairs_def)
  next
    case [simp]: (Cons first rest)
    obtain sets1 where "join_members first rest sets = Some sets1" "forest.separates n (pairs @ map (Pair first) rest) sets1"
      using join_members_run [OF _ _ Cons.prems(2), of first rest] Cons.prems(1) by auto
    with Cons.IH [OF _ this(2)] Cons.prems(1) show ?thesis by (auto simp: component_pairs_def)
  qed
qed simp

text \<open>After grouping, the indices seen so far are listed under their representatives.\<close>

definition grouped :: "(nat \<Rightarrow> nat) \<Rightarrow> nat \<Rightarrow> (nat, nat list) ordered_map \<Rightarrow> bool" where
  "grouped r m groups \<longleftrightarrow> map_ok groups \<and> fst ` set groups = r ` {..<m} \<and> (\<forall>root. listed groups root = filter (\<lambda>i. r i = root) [0..<m])"

lemma grouped_next:
  "grouped r m groups \<Longrightarrow> grouped r (Suc m) (map_insert (r m) (listed groups (r m) @ [m]) groups)"
  by (simp add: grouped_def listed_map_insert keys_map_insert lessThan_Suc del: set_map_insert)

lemma group_members_run:
  assumes "k + m = n" "forest.separates n pairs sets" "\<And>i. i < n \<Longrightarrow> root_of (parents sets) i = r i" "grouped r m groups"
  shows "\<exists>groups'. group_members [m..<n] (groups, sets) = Some groups' \<and> grouped r n groups'"
  using assms
proof (induction k arbitrary: m groups sets)
  case 0
  then show ?case by auto
next
  case (Suc k)
  then have m: "m < n" by simp
  obtain sets1 where f: "find_root m sets = Some (root_of (parents sets) m, sets1)" "forest.separates n pairs sets1"
    "\<And>j. j < n \<Longrightarrow> root_of (parents sets1) j = root_of (parents sets) j" by (rule forest.separates_find [OF Suc.prems(2) m]) blast
  have "k + Suc m = n" using Suc.prems(1) by simp
  from Suc.IH [OF this f(2) _ grouped_next [OF Suc.prems(4)]] f(1,3) Suc.prems(3) m show ?case
    by (auto simp: upt_conv_Cons)
qed

text \<open>The pairs that are joined, and the groups they give.\<close>

definition index_edges :: "index_map \<Rightarrow> codegen_instance list \<Rightarrow> nat \<Rightarrow> nat list" where
  "index_edges indices is s = map (\<lambda>i. dependency_targets indices (inst_dependencies i)) is ! s"

lemma index_edges_nth: "index_edges indices is = (\<lambda>s. map (\<lambda>i. dependency_targets indices (inst_dependencies i)) is ! s)"
  by (simp add: index_edges_def fun_eq_iff)

lemma dependency_targets_range: "\<forall>k t. map_of indices k = Some t \<longrightarrow> t < n \<Longrightarrow> set (dependency_targets indices ds) \<subseteq> {..<n}"
  by (auto simp: dependency_targets_def in_map_filter)

lemma required_groups_run:
  assumes "\<forall>k t. map_of indices k = Some t \<longrightarrow> t < length is" "length classes = length is"
  obtains groups r pairs cs where "required_groups is indices classes = Some groups" "grouped r (length is) groups"
    "\<And>a b. a < length is \<Longrightarrow> b < length is \<Longrightarrow> r a = r b \<longleftrightarrow> (a, b) \<in> together pairs"
    "set pairs = set (ties indices classes 0 is) \<union> {(hd c, m) | c m. c \<in> set cs \<and> m \<in> set (tl c)}"
    "set (concat cs) = {..<length is}"
    "\<And>c x y. c \<in> set cs \<Longrightarrow> x \<in> set c \<Longrightarrow>
      y \<in> set c \<longleftrightarrow> reaches (index_edges indices is) x y \<and> reaches (index_edges indices is) y x"
proof -
  let ?n = "length is" and ?es = "map (\<lambda>i. dependency_targets indices (inst_dependencies i)) is" and ?f = "index_edges indices is"
  from tie_instances_run [OF assms, of 0 "is" "[]" "disjoint_set_new ?n" "[]"] forest.separates_new obtain sets1 where
    1: "tie_instances indices classes 0 is ([], disjoint_set_new ?n) = Some (?es, sets1)" "forest.separates ?n (ties indices classes 0 is) sets1"
    by auto
  have "reachable_from ?f (set [0..<?n]) \<subseteq> {..<?n}"
    by (rule reachable_least) (auto simp: index_edges_def dest: dependency_targets_range [OF assms(1), THEN subsetD])
  moreover have "{..<?n} \<subseteq> reachable_from ?f (set [0..<?n])" by (auto intro: reachable_root)
  ultimately have all: "reachable_from ?f (set [0..<?n]) = {..<?n}" by simp
  then have "finite (reachable_from ?f (set [0..<?n]))" by simp
  then obtain cs where cs: "strongly_connected_components [0..<?n] ?f = Some cs" "set (concat cs) = {..<?n}"
    "\<And>c x y. c \<in> set cs \<Longrightarrow> x \<in> set c \<Longrightarrow> y \<in> set c \<longleftrightarrow> reaches ?f x y \<and> reaches ?f y x"
    unfolding all [symmetric] by (rule strongly_connected_components_return) blast
  from join_components_run [OF _ 1(2), of cs] cs(2) obtain sets2 where
    2: "join_components cs sets1 = Some sets2" "forest.separates ?n (ties indices classes 0 is @ concat (map component_pairs cs)) sets2" by auto
  let ?r = "root_of (parents sets2)"
  have "grouped ?r 0 []" by (simp add: grouped_def listed_def)
  from group_members_run [OF _ 2(2) refl this] obtain groups where g: "group_members [0..<?n] ([], sets2) = Some groups" "grouped ?r ?n groups" by auto
  have run: "required_groups is indices classes = Some groups"
    using 1(1) 2(1) cs(1) g(1) index_edges_nth [of indices "is"] by (simp add: required_groups_def)
  show ?thesis
  proof (rule that [OF run g(2) _ _ cs(2,3)])
    show "?r a = ?r b \<longleftrightarrow> (a, b) \<in> together (ties indices classes 0 is @ concat (map component_pairs cs))" if "a < ?n" "b < ?n" for a b
      using 2(2) that by (simp add: forest.separates_def)
  qed (auto simp: component_pairs_def)
qed

subsection \<open>What must stay together\<close>

definition depends_on :: "codegen_instance list \<Rightarrow> (codegen_instance \<times> codegen_instance) set" where
  "depends_on is = {(i, j). i \<in> set is \<and> j \<in> set is \<and> inst_key j \<in> dependency_instance ` set (inst_dependencies i)}"

definition tied_to ::
    "(codegen_instance \<Rightarrow> codegen_partition_compatibility option) \<Rightarrow> codegen_instance list \<Rightarrow> (codegen_instance \<times> codegen_instance) set" where
  "tied_to compatibility is = {(i, j). i \<in> set is \<and> j \<in> set is \<and> (\<exists>d \<in> set (inst_dependencies i). dependency_instance d = inst_key j
     \<and> (dependency_kind d = DirectAwaitedFrame \<or> map_option compat_visibility (compatibility j) = Some Unit))}"

definition mutual :: "codegen_instance list \<Rightarrow> (codegen_instance \<times> codegen_instance) set" where
  "mutual is = (depends_on is)\<^sup>* \<inter> ((depends_on is)\<^sup>*)\<inverse>"

text \<open>The least equivalence that holds for tied and for mutually dependent instances.\<close>

definition indivisible ::
    "(codegen_instance \<Rightarrow> codegen_partition_compatibility option) \<Rightarrow> codegen_instance list \<Rightarrow> (codegen_instance \<times> codegen_instance) set" where
  "indivisible compatibility is =
     (tied_to compatibility is \<union> (tied_to compatibility is)\<inverse> \<union> mutual is)\<^sup>*"

lemma map_of_instance_indices:
  assumes "distinct (map inst_key is)"
  shows "map_of (instance_indices is) k = Some t \<longleftrightarrow> t < length is \<and> inst_key (is ! t) = k"
proof -
  have "set (instance_indices is) = set (zip (map inst_key is) [0..<length is])"
    unfolding instance_indices_def by (rule set_map_collect) (simp add: assms)
  moreover have "map_ok (instance_indices is)" by (simp add: instance_indices_def)
  ultimately show ?thesis by (auto simp: map_of_ok_iff set_zip intro!: exI [of _ t])
qed

lemma index_edge_iff:
  assumes "distinct (map inst_key is)" "x < length is"
  shows "y \<in> set (index_edges (instance_indices is) is x) \<longleftrightarrow> y < length is \<and> (is ! x, is ! y) \<in> depends_on is"
  using assms(2)
  by (auto simp: index_edges_def dependency_targets_def in_map_filter depends_on_def map_of_instance_indices [OF assms(1)] image_iff)

lemma tie_iff:
  assumes "distinct (map inst_key is)" "list_all2 (\<lambda>i c. compatibility i = Some c) is classes"
  shows "(x, y) \<in> set (ties (instance_indices is) classes 0 is)
    \<longleftrightarrow> x < length is \<and> y < length is \<and> (is ! x, is ! y) \<in> tied_to compatibility is"
proof -
  have c: "compatibility (is ! t) = Some (classes ! t)" if "t < length is" for t using assms(2) that by (auto simp: list_all2_conv_all_nth)
  have t: "t \<in> set (tied_targets (instance_indices is) classes ds) \<longleftrightarrow> t < length is \<and> (\<exists>d \<in> set ds. dependency_instance d = inst_key (is ! t)
      \<and> (dependency_kind d = DirectAwaitedFrame \<or> map_option compat_visibility (compatibility (is ! t)) = Some Unit))" for t ds
  proof -
    have "(case map_of (instance_indices is) (dependency_instance d) of None \<Rightarrow> None
        | Some t \<Rightarrow> if dependency_kind d = DirectAwaitedFrame \<or> compat_visibility (classes ! t) = Unit then Some t else None) = Some t
      \<longleftrightarrow> map_of (instance_indices is) (dependency_instance d) = Some t
        \<and> (dependency_kind d = DirectAwaitedFrame \<or> compat_visibility (classes ! t) = Unit)" for d
      by (auto split: option.splits)
    then show ?thesis using c [of t] unfolding tied_targets_def in_map_filter
      by (cases "t < length is") (simp_all add: map_of_instance_indices [OF assms(1)] eq_commute [of "inst_key (is ! t)"])
  qed
  have "(x, y) \<in> set (ties (instance_indices is) classes 0 is) \<longleftrightarrow>
      x < length is \<and> y \<in> set (tied_targets (instance_indices is) classes (inst_dependencies (is ! x)))"
    by (force simp: ties_def in_set_enumerate_eq)
  then show ?thesis by (auto simp: t tied_to_def)
qed

lemma index_reaches_iff:
  assumes "distinct (map inst_key is)" "x < length is"
  shows "reaches (index_edges (instance_indices is) is) x y \<longleftrightarrow> y < length is \<and> (is ! x, is ! y) \<in> (depends_on is)\<^sup>*"
proof
  assume "reaches (index_edges (instance_indices is) is) x y"
  then show "y < length is \<and> (is ! x, is ! y) \<in> (depends_on is)\<^sup>*"
    by (induction rule: rtrancl_induct) (auto simp: assms index_edge_iff intro: rtrancl_into_rtrancl)
next
  assume "y < length is \<and> (is ! x, is ! y) \<in> (depends_on is)\<^sup>*"
  moreover have "(is ! x, j) \<in> (depends_on is)\<^sup>* \<Longrightarrow>
      \<exists>y < length is. is ! y = j \<and> reaches (index_edges (instance_indices is) is) x y" for j
  proof (induction rule: rtrancl_induct)
    case (step j k)
    then obtain y where y: "y < length is" "is ! y = j" "reaches (index_edges (instance_indices is) is) x y" by blast
    from step.hyps(2) obtain z where z: "z < length is" "is ! z = k" by (auto simp: depends_on_def in_set_conv_nth)
    with step.hyps(2) y have "(y, z) \<in> edges (index_edges (instance_indices is) is)" by (simp add: assms index_edge_iff)
    with y(3) z show ?case by (blast intro: rtrancl_into_rtrancl)
  qed (use assms(2) in blast)
  ultimately show "reaches (index_edges (instance_indices is) is) x y"
    using assms(1) by (metis distinct_map nth_eq_iff_index_eq)
qed

lemma indivisible_sym: "(i, j) \<in> indivisible compatibility is \<Longrightarrow> (j, i) \<in> indivisible compatibility is"
proof -
  have "sym (tied_to compatibility is \<union> (tied_to compatibility is)\<inverse> \<union> mutual is)" by (auto simp: sym_def mutual_def)
  then show "(i, j) \<in> indivisible compatibility is \<Longrightarrow> (j, i) \<in> indivisible compatibility is"
    unfolding indivisible_def by (blast dest: symD sym_rtrancl)
qed

text \<open>The pairs that the ties and the components give.\<close>

definition joins ::
    "codegen_instance list \<Rightarrow> codegen_partition_compatibility list \<Rightarrow> nat list list \<Rightarrow> (nat \<times> nat) list \<Rightarrow> bool" where
  "joins is classes cs pairs \<longleftrightarrow>
     set pairs = set (ties (instance_indices is) classes 0 is) \<union> {(hd c, m) | c m. c \<in> set cs \<and> m \<in> set (tl c)}
     \<and> set (concat cs) = {..<length is}
     \<and> (\<forall>c \<in> set cs. \<forall>x \<in> set c. \<forall>y. y \<in> set c \<longleftrightarrow>
          reaches (index_edges (instance_indices is) is) x y \<and> reaches (index_edges (instance_indices is) is) y x)"

lemma joins_all: "joins is classes cs pairs \<Longrightarrow> set (concat cs) = {..<length is}"
  unfolding joins_def by (elim conjE)

lemma joins_members:
  assumes "distinct (map inst_key is)" "joins is classes cs pairs" "c \<in> set cs" "x \<in> set c" "y < length is"
  shows "x < length is" "y \<in> set c \<longleftrightarrow> (is ! x, is ! y) \<in> mutual is"
proof -
  show x: "x < length is" using assms(3,4) joins_all [OF assms(2)] by auto
  have "y \<in> set c \<longleftrightarrow> reaches (index_edges (instance_indices is) is) x y \<and> reaches (index_edges (instance_indices is) is) y x"
    using assms(2-4) unfolding joins_def by blast
  then show "y \<in> set c \<longleftrightarrow> (is ! x, is ! y) \<in> mutual is"
    using x assms(5) by (simp add: index_reaches_iff [OF assms(1)] mutual_def)
qed

lemma pair_indivisible:
  assumes d: "distinct (map inst_key is)" and c: "list_all2 (\<lambda>i c. compatibility i = Some c) is classes" and j: "joins is classes cs pairs"
    and p: "(x, y) \<in> set pairs"
  shows "(is ! x, is ! y) \<in> indivisible compatibility is"
proof -
  from p j consider "(x, y) \<in> set (ties (instance_indices is) classes 0 is)" | c where "c \<in> set cs" "x = hd c" "y \<in> set (tl c)"
    unfolding joins_def by blast
  then show ?thesis
  proof cases
    case 1
    then show ?thesis by (auto simp: tie_iff [OF d c] indivisible_def)
  next
    case 2
    have "c \<noteq> []" using 2(3) by auto
    then have m: "x \<in> set c" "y \<in> set c" using 2(2,3) list.set_sel(2) [of c y] by simp_all
    with 2(1) joins_all [OF j] have "y < length is" by auto
    with joins_members(2) [OF d j 2(1) m(1)] m(2) have "(is ! x, is ! y) \<in> mutual is" by simp
    then show ?thesis unfolding indivisible_def by blast
  qed
qed

lemma component_together:
  assumes "joins is classes cs pairs" "c \<in> set cs" "x \<in> set c" "y \<in> set c"
  shows "(x, y) \<in> together pairs"
proof -
  have "(hd c, z) \<in> together pairs" if "z \<in> set c" for z
  proof (cases "z = hd c")
    case False
    with that have "z \<in> set (tl c)" by (cases c) auto
    with assms(1,2) show ?thesis unfolding joins_def by (blast intro: together_pair)
  qed simp
  with assms(3,4) show ?thesis by (blast intro: together_sym together_trans)
qed

lemma kept_together:
  assumes d: "distinct (map inst_key is)" and c: "list_all2 (\<lambda>i c. compatibility i = Some c) is classes" and j: "joins is classes cs pairs"
    and x: "x < length is" and k: "(is ! x, k) \<in> tied_to compatibility is \<union> (tied_to compatibility is)\<inverse> \<union> mutual is"
  obtains y where "y < length is" "is ! y = k" "(x, y) \<in> together pairs"
proof -
  have "k \<in> set is" using k x by (auto simp: mutual_def tied_to_def depends_on_def elim: rtranclE)
  then obtain y where y: "y < length is" "is ! y = k" by (auto simp: in_set_conv_nth)
  have "(x, y) \<in> together pairs"
  proof (cases "(is ! x, k) \<in> mutual is")
    case True
    from joins_all [OF j] x obtain c where c: "c \<in> set cs" "x \<in> set c" by auto
    with joins_members(2) [OF d j c y(1)] True y(2) have "y \<in> set c" by simp
    with component_together [OF j c] show ?thesis .
  next
    case False
    then have "(x, y) \<in> set pairs \<or> (y, x) \<in> set pairs"
      using k x y(1) j tie_iff [OF d c] unfolding y(2) [symmetric] joins_def by blast
    then show ?thesis by (blast intro: together_pair together_sym)
  qed
  with y that show ?thesis by blast
qed

lemma together_iff_indivisible:
  assumes d: "distinct (map inst_key is)" and c: "list_all2 (\<lambda>i c. compatibility i = Some c) is classes" and j: "joins is classes cs pairs"
    and ab: "a < length is" "b < length is"
  shows "(a, b) \<in> together pairs \<longleftrightarrow> (is ! a, is ! b) \<in> indivisible compatibility is"
proof
  assume "(a, b) \<in> together pairs"
  then show "(is ! a, is ! b) \<in> indivisible compatibility is"
    unfolding together_def
  proof (induction rule: rtrancl_induct)
    case (step y z)
    then have "(is ! y, is ! z) \<in> indivisible compatibility is" using pair_indivisible [OF d c j] by (blast intro: indivisible_sym)
    with step.IH show ?case unfolding indivisible_def by (rule rtrancl_trans)
  qed (simp add: indivisible_def)
next
  have "(is ! a, k) \<in> indivisible compatibility is \<Longrightarrow> \<exists>b < length is. is ! b = k \<and> (a, b) \<in> together pairs" for k
    unfolding indivisible_def
  proof (induction rule: rtrancl_induct)
    case (step i k)
    then obtain x where x: "x < length is" "is ! x = i" "(a, x) \<in> together pairs" by blast
    from step.hyps(2) obtain y where "y < length is" "is ! y = k" "(x, y) \<in> together pairs"
      unfolding x(2) [symmetric] by (rule kept_together [OF d c j x(1)])
    with x(3) show ?case by (blast intro: together_trans)
  qed (use ab in \<open>auto intro!: exI [of _ a]\<close>)
  moreover assume "(is ! a, is ! b) \<in> indivisible compatibility is"
  ultimately show "(a, b) \<in> together pairs" using d ab(2) by (metis distinct_map nth_eq_iff_index_eq)
qed

end
