(* ===== verification/Codegen_Partition.thy ===== *)
theory Codegen_Partition
  imports Codegen_Groups
begin

text \<open>
  The partition of a reachable graph into units (\<open>crates/bray-codegen/src/unit/partition.rs\<close>): the groups that stay together
  are sorted by target, dependencies and a digest, and packed into units of bounded work, cut where the digest says so.

  The lemmas show that the partition of a published graph succeeds, that it loses and doubles nothing, that what must be
  together is, and that only an indivisible unit exceeds the bound.
\<close>

subsection \<open>Packing\<close>

type_synonym publication_dependencies = "codegen_instance_key list \<times> nat list \<times> nat list"

record partition_group =
  group_target :: nat
  group_instances :: "codegen_instance list"
  group_work :: nat
  group_anchor :: "nat list"
  group_independent_publication :: bool
  group_dependencies :: publication_dependencies

definition selection_boundary :: "codegen_environment \<Rightarrow> codegen_partition_compatibility \<Rightarrow> codegen_instance \<Rightarrow> bool" where
  "selection_boundary env class i \<longleftrightarrow> compat_native_selection_boundary class \<or> compat_linkage class \<in> {Weak, Fallback}
     \<or> compat_linkage class = LinkOnce \<and> env_object_format env (key_target (inst_key i)) \<noteq> Coff"

definition group_publication_dependencies ::
    "codegen_environment \<Rightarrow> codegen_instance list \<Rightarrow> codegen_partition_compatibility list \<Rightarrow> publication_dependencies" where
  "group_publication_dependencies env is classes = (
     external_of is,
     sorted_unique_shared_slice (filter (\<lambda>identity. identity \<noteq> 0) (map compat_native_storage_dependencies_identity classes)),
     sorted_unique_shared_slice (concat (map (\<lambda>i. env_runtime_references env (inst_mir i)) is)))"

definition partition_group_new ::
    "codegen_environment \<Rightarrow> codegen_partition_policy \<Rightarrow> codegen_instance list \<Rightarrow> nat list \<Rightarrow> codegen_partition_compatibility list
     \<Rightarrow> partition_group run" where
  "partition_group_new env policy instances members classes = do {
     assert_run (members \<noteq> []);
     is \<leftarrow> those (map (get instances) members);
     cs \<leftarrow> those (map (get classes) members);
     let library = (policy_identity policy = policy_identity native_library_publication);
     Some \<lparr>group_target = key_target (inst_key (hd is)), group_instances = is, group_work = total_work is,
       group_anchor = env_anchor env policy (map inst_key is),
       group_independent_publication = (library \<and> (\<exists>(c, i) \<in> set (zip cs is). selection_boundary env c i)),
       group_dependencies = (if library then group_publication_dependencies env is cs else ([], [], []))\<rparr>
   }"

definition group_order :: "partition_group \<Rightarrow> nat \<times> publication_dependencies \<times> nat list \<times> codegen_instance_key" where
  "group_order g = (group_target g, group_dependencies g, group_anchor g, inst_key (hd (group_instances g)))"

fun le_value :: "nat list \<Rightarrow> nat" where
  "le_value [] = 0"
| "le_value (b # bs) = b + 256 * le_value bs"

definition is_content_boundary :: "codegen_partition_policy \<Rightarrow> nat list \<Rightarrow> nat \<Rightarrow> bool run" where
  "is_content_boundary policy anchor work = (
     let target = policy_target_work policy in
     if target = 0 then panic else Some (le_value (take 8 (drop 24 anchor)) mod target < min work target))"

record packing =
  pack_units :: "codegen_unit list"
  pack_current :: "codegen_instance list"
  pack_work :: nat
  pack_dependencies :: publication_dependencies

definition finish_unit ::
    "codegen_environment \<Rightarrow> codegen_partition_policy \<Rightarrow> compatibility \<Rightarrow> packing \<Rightarrow> (codegen_unit_build_error, packing) outcome" where
  "finish_unit env policy compatibility s = (if pack_current s = [] then Some (Inr s)
     else and_then (try_from_partition env policy (pack_current s) compatibility False)
       (\<lambda>u. Some (Inr (s\<lparr>pack_units := pack_units s @ [u], pack_current := [], pack_work := 0\<rparr>))))"

definition must_finish :: "codegen_partition_policy \<Rightarrow> partition_group \<Rightarrow> packing \<Rightarrow> bool" where
  "must_finish policy g s \<longleftrightarrow> pack_current s \<noteq> [] \<and> key_target (inst_key (hd (pack_current s))) \<noteq> group_target g
     \<or> pack_current s \<noteq> [] \<and> pack_dependencies s \<noteq> group_dependencies g
     \<or> group_independent_publication g
     \<or> policy_upper_bound policy < work_saturating_add (pack_work s) (group_work g)"

definition pack_group ::
    "codegen_environment \<Rightarrow> codegen_partition_policy \<Rightarrow> compatibility \<Rightarrow> partition_group \<Rightarrow> packing
     \<Rightarrow> (codegen_unit_build_error, packing) outcome" where
  "pack_group env policy compatibility g s = and_then
     (if must_finish policy g s then finish_unit env policy compatibility s else Some (Inr s))
     (\<lambda>s1. if group_independent_publication g \<or> policy_upper_bound policy < group_work g
       then and_then (try_from_partition env policy (group_instances g) compatibility True)
         (\<lambda>u. Some (Inr (s1\<lparr>pack_units := pack_units s1 @ [u]\<rparr>)))
       else let s2 = s1\<lparr>pack_dependencies := group_dependencies g, pack_work := work_saturating_add (pack_work s1) (group_work g),
              pack_current := pack_current s1 @ group_instances g\<rparr> in
         if pack_work s2 < policy_lower_bound policy then Some (Inr s2)
         else do {
           boundary \<leftarrow> is_content_boundary policy (group_anchor g) (group_work g);
           (if boundary then finish_unit env policy compatibility s2 else Some (Inr s2))
         })"

primrec pack_groups ::
    "codegen_environment \<Rightarrow> codegen_partition_policy \<Rightarrow> compatibility \<Rightarrow> partition_group list \<Rightarrow> packing
     \<Rightarrow> (codegen_unit_build_error, packing) outcome" where
  "pack_groups env policy compatibility [] s = finish_unit env policy compatibility s"
| "pack_groups env policy compatibility (g # gs) s = and_then (pack_group env policy compatibility g s)
     (pack_groups env policy compatibility gs)"

datatype codegen_partition_error = MissingCompatibility codegen_instance_key | InvalidUnit codegen_unit_build_error

primrec collect_classes ::
    "(codegen_instance \<Rightarrow> codegen_partition_compatibility option) \<Rightarrow> codegen_instance list
     \<Rightarrow> codegen_partition_error + codegen_partition_compatibility list" where
  "collect_classes compatibility [] = Inr []"
| "collect_classes compatibility (i # is) = (case compatibility i of
     None \<Rightarrow> Inl (MissingCompatibility (inst_key i))
   | Some class \<Rightarrow> (case collect_classes compatibility is of Inl e \<Rightarrow> Inl e | Inr classes \<Rightarrow> Inr (class # classes)))"

definition indexed_class :: "index_map \<Rightarrow> codegen_partition_compatibility list \<Rightarrow> compatibility" where
  "indexed_class indices classes i = do {
     index \<leftarrow> map_of indices (inst_key i);
     class \<leftarrow> get classes index;
     Some (Some class)
   }"

definition packing_new :: packing where
  "packing_new = \<lparr>pack_units = [], pack_current = [], pack_work = 0, pack_dependencies = ([], [], [])\<rparr>"

definition partition_codegen_units ::
    "codegen_environment \<Rightarrow> codegen_partition_policy \<Rightarrow> codegen_reachability
     \<Rightarrow> (codegen_instance \<Rightarrow> codegen_partition_compatibility option) \<Rightarrow> (codegen_partition_error, codegen_unit list) outcome" where
  "partition_codegen_units env policy reachability compatibility = (
     let instances = graph_instances reachability; indices = instance_indices instances in
     case collect_classes compatibility instances of
       Inl e \<Rightarrow> Some (Inl e)
     | Inr classes \<Rightarrow> do {
         groups \<leftarrow> required_groups instances indices classes;
         gs \<leftarrow> those (map (\<lambda>(root, members). partition_group_new env policy instances members classes) groups);
         packed \<leftarrow> pack_groups env policy (indexed_class indices classes) (sort_key group_order gs) packing_new;
         Some (case packed of Inl e \<Rightarrow> Inl (InvalidUnit e) | Inr s \<Rightarrow> Inr (pack_units s))
       })"

subsection \<open>The groups as instances\<close>

lemma those_map_run:
  assumes "\<And>x. x \<in> set xs \<Longrightarrow> \<exists>y. f x = Some y \<and> P x y"
  shows "\<exists>ys. those (map f xs) = Some ys \<and> list_all2 P xs ys"
  using assms by (induction xs) fastforce+

lemma those_get: "set members \<subseteq> {..<length xs} \<Longrightarrow> those (map (get xs) members) = Some (map (nth xs) members)"
  by (induction members) (simp_all add: get_def)

definition group_holds :: "codegen_instance list \<Rightarrow> partition_group \<Rightarrow> bool" where
  "group_holds is g \<longleftrightarrow> group_instances g = is \<and> group_work g = total_work is \<and> group_target g = key_target (inst_key (hd is))"

lemma partition_group_new_run:
  assumes "members \<noteq> []" "set members \<subseteq> {..<length is}" "length classes = length is"
  shows "\<exists>g. partition_group_new env policy is members classes = Some g \<and> group_holds (map (nth is) members) g"
  using assms by (simp add: partition_group_new_def those_get group_holds_def Let_def)

lemma grouped_members:
  assumes "grouped r n groups" "(root, members) \<in> set groups"
  shows "members = filter (\<lambda>i. r i = root) [0..<n]" "members \<noteq> []"
proof -
  have "map_of groups root = Some members" using assms by (simp add: grouped_def map_of_ok_iff)
  with assms(1) show m: "members = filter (\<lambda>i. r i = root) [0..<n]" by (auto simp: grouped_def listed_def split: option.splits)
  have "root \<in> r ` {..<n}" using assms unfolding grouped_def by (metis fst_conv image_eqI)
  then show "members \<noteq> []" by (auto simp: m filter_empty_conv)
qed

lemma grouped_partition:
  assumes "grouped r n groups"
  shows "mset (concat (map snd groups)) = mset [0..<n]"
proof -
  have root: "r i = fst b" if "b \<in> set groups" "i \<in> set (snd b)" for b i
    using grouped_members(1) [OF assms, of "fst b" "snd b"] that by auto
  have fst: "distinct (map fst groups)" using assms by (simp add: grouped_def strict_sorted_iff)
  have apart: "fst b = fst b'" if "b \<in> set groups" "b' \<in> set groups" "set (snd b) \<inter> set (snd b') \<noteq> {}" for b b'
  proof -
    from that(3) obtain i where "i \<in> set (snd b)" "i \<in> set (snd b')" by blast
    with root [OF that(1), of i] root [OF that(2), of i] show ?thesis by simp
  qed
  have inj: "b = b'" if "b \<in> set groups" "b' \<in> set groups" "set (snd b) \<inter> set (snd b') \<noteq> {}" for b b'
    using eq_key_imp_eq_value [OF fst] apart [OF that] that(1,2) by (cases b; cases b') auto
  have ne: "b \<in> set groups \<Longrightarrow> snd b \<noteq> []" for b using grouped_members(2) [OF assms] by (cases b) simp
  have dg: "distinct groups" using fst by (simp add: distinct_map)
  have "distinct (concat (map snd groups))"
  proof (rule distinct_concat)
    show "distinct (map snd groups)"
      unfolding distinct_map by (rule conjI [OF dg inj_onI]) (use inj ne in force)
    show "distinct ys" if "ys \<in> set (map snd groups)" for ys
      using that grouped_members(1) [OF assms] by force
    show "set ys \<inter> set zs = {}" if "ys \<in> set (map snd groups)" "zs \<in> set (map snd groups)" "ys \<noteq> zs" for ys zs
    proof -
      from that(1,2) obtain b b' where "b \<in> set groups" "b' \<in> set groups" "ys = snd b" "zs = snd b'" by auto
      with inj [of b b'] that(3) show ?thesis by auto
    qed
  qed
  moreover have "i \<in> set (concat (map snd groups)) \<longleftrightarrow> i \<in> set [0..<n]" for i
  proof
    assume "i \<in> set [0..<n]"
    then have "i < n" by simp
    then have "r i \<in> fst ` set groups" using assms by (simp add: grouped_def)
    then obtain members where "(r i, members) \<in> set groups" by force
    with grouped_members(1) [OF assms this] \<open>i < n\<close> show "i \<in> set (concat (map snd groups))" by force
  qed (use grouped_members(1) [OF assms] in force)
  then have "set (concat (map snd groups)) = set [0..<n]" by (rule set_eqI)
  ultimately show ?thesis by (metis distinct_upt set_eq_iff_mset_eq_distinct)
qed

lemma required_groups_indivisible:
  assumes d: "distinct (map inst_key is)" and c: "list_all2 (\<lambda>i c. compatibility i = Some c) is classes"
  obtains groups r where "required_groups is (instance_indices is) classes = Some groups" "grouped r (length is) groups"
    "\<And>a b. a < length is \<Longrightarrow> b < length is \<Longrightarrow> r a = r b \<longleftrightarrow> (is ! a, is ! b) \<in> indivisible compatibility is"
proof -
  have len: "length classes = length is" using list_all2_lengthD [OF c] by simp
  have bound: "\<forall>k t. map_of (instance_indices is) k = Some t \<longrightarrow> t < length is" by (simp add: map_of_instance_indices [OF d])
  obtain groups r pairs cs where run: "required_groups is (instance_indices is) classes = Some groups" "grouped r (length is) groups"
    and r: "\<And>a b. a < length is \<Longrightarrow> b < length is \<Longrightarrow> r a = r b \<longleftrightarrow> (a, b) \<in> together pairs"
    and p: "set pairs = set (ties (instance_indices is) classes 0 is) \<union> {(hd c, m) | c m. c \<in> set cs \<and> m \<in> set (tl c)}"
    and cs: "set (concat cs) = {..<length is}" "\<And>c x y. c \<in> set cs \<Longrightarrow> x \<in> set c \<Longrightarrow>
      y \<in> set c \<longleftrightarrow> reaches (index_edges (instance_indices is) is) x y \<and> reaches (index_edges (instance_indices is) is) y x"
    by (rule required_groups_run [OF bound len]) blast
  have "joins is classes cs pairs" unfolding joins_def using p cs by blast
  with r that [OF run] together_iff_indivisible [OF d c] show ?thesis by simp
qed

text \<open>The members of a group are one class of indices.\<close>

lemma grouped_class:
  assumes g: "grouped r (length is) groups" "(root, members) \<in> set groups" and d: "distinct (map inst_key is)"
    and r: "\<And>a b. a < length is \<Longrightarrow> b < length is \<Longrightarrow> r a = r b \<longleftrightarrow> (is ! a, is ! b) \<in> R"
    and i: "i \<in> set (map (nth is) members)" "j \<in> set is"
  shows "j \<in> set (map (nth is) members) \<longleftrightarrow> (i, j) \<in> R"
proof -
  note m = grouped_members(1) [OF g]
  from i(1) m obtain a where a: "a < length is" "r a = root" "i = is ! a" by auto
  from i(2) obtain e where e: "e < length is" "j = is ! e" by (auto simp: in_set_conv_nth)
  have "j \<in> set (map (nth is) members) \<longleftrightarrow> r e = root"
  proof
    assume "j \<in> set (map (nth is) members)"
    then obtain e' where "e' < length is" "r e' = root" "is ! e' = j" using m by auto
    with e d show "r e = root" by (metis distinct_map nth_eq_iff_index_eq)
  qed (use e m in auto)
  with r [OF a(1) e(1)] a e show ?thesis by auto
qed

lemma partition_groups_run:
  assumes d: "distinct (map inst_key is)" and c: "list_all2 (\<lambda>i c. compatibility i = Some c) is classes"
  obtains groups gs where "required_groups is (instance_indices is) classes = Some groups"
    "those (map (\<lambda>(root, members). partition_group_new env policy is members classes) groups) = Some gs"
    "mset (concat (map group_instances gs)) = mset is"
    "\<And>g. g \<in> set gs \<Longrightarrow> group_instances g \<noteq> [] \<and> group_holds (group_instances g) g"
    "\<And>g i j. g \<in> set gs \<Longrightarrow> i \<in> set (group_instances g) \<Longrightarrow> j \<in> set is \<Longrightarrow>
      j \<in> set (group_instances g) \<longleftrightarrow> (i, j) \<in> indivisible compatibility is"
proof -
  have len: "length classes = length is" using list_all2_lengthD [OF c] by simp
  obtain groups r where run: "required_groups is (instance_indices is) classes = Some groups" and g: "grouped r (length is) groups"
    and r: "\<And>a b. a < length is \<Longrightarrow> b < length is \<Longrightarrow> r a = r b \<longleftrightarrow> (is ! a, is ! b) \<in> indivisible compatibility is"
    by (rule required_groups_indivisible [OF d c]) blast
  let ?new = "\<lambda>(root, members). partition_group_new env policy is members classes"
  let ?P = "\<lambda>b g. group_holds (map (nth is) (snd b)) g"
  have "\<exists>g. ?new b = Some g \<and> ?P b g" if "b \<in> set groups" for b
  proof (cases b)
    case (Pair root members)
    with that grouped_members [OF g, of root members] have m: "members \<noteq> []" "set members \<subseteq> {..<length is}" by auto
    from partition_group_new_run [OF m len] Pair show ?thesis by simp
  qed
  from those_map_run [of groups ?new ?P, OF this] obtain gs where gs: "those (map ?new groups) = Some gs" "list_all2 ?P groups gs" by blast
  have insts: "map group_instances gs = map (\<lambda>b. map (nth is) (snd b)) groups"
    using gs(2) by (intro nth_equalityI) (auto simp: list_all2_conv_all_nth group_holds_def)
  have member: "\<exists>b \<in> set groups. ?P b x" if "x \<in> set gs" for x
    using gs(2) that by (metis in_set_conv_nth list_all2_conv_all_nth)
  show ?thesis
  proof (rule that [OF run gs(1)])
    have "concat (map group_instances gs) = map (nth is) (concat (map snd groups))" by (simp add: insts map_concat o_def)
    then have "mset (concat (map group_instances gs)) = mset (map (nth is) [0..<length is])" using grouped_partition [OF g] by simp
    then show "mset (concat (map group_instances gs)) = mset is" by (simp add: map_nth)
    show "group_instances x \<noteq> [] \<and> group_holds (group_instances x) x" if "x \<in> set gs" for x
      using member [OF that] grouped_members(2) [OF g] by (auto simp: group_holds_def)
    show "j \<in> set (group_instances x) \<longleftrightarrow> (i, j) \<in> indivisible compatibility is"
      if "x \<in> set gs" "i \<in> set (group_instances x)" "j \<in> set is" for x i j
      using member [OF that(1)] grouped_class [OF g _ d r, of _ _ i j] that(2,3) by (auto simp: group_holds_def)
  qed
qed

subsection \<open>Packing keeps every group whole\<close>

abbreviation instances_of :: "partition_group list \<Rightarrow> codegen_instance list" where
  "instances_of gs \<equiv> concat (map group_instances gs)"

definition group_ok :: "partition_group \<Rightarrow> bool" where
  "group_ok g \<longleftrightarrow> group_instances g \<noteq> [] \<and> group_holds (group_instances g) g
     \<and> (\<forall>i \<in> set (group_instances g). key_target (inst_key i) = group_target g)"

text \<open>A unit holds whole groups, and only one if it exceeds the bound.\<close>

definition unit_packs :: "codegen_partition_policy \<Rightarrow> partition_group list \<Rightarrow> codegen_unit \<Rightarrow> bool" where
  "unit_packs policy gs u \<longleftrightarrow> (\<exists>packed. packed \<noteq> [] \<and> set packed \<subseteq> set gs \<and> unit_holds policy (instances_of packed) u
     \<and> (policy_upper_bound policy < unit_estimated_work u \<longrightarrow> length packed = 1))"

definition packing_ok :: "codegen_partition_policy \<Rightarrow> partition_group list \<Rightarrow> packing \<Rightarrow> bool" where
  "packing_ok policy gs s \<longleftrightarrow> (\<exists>packed. set packed \<subseteq> set gs \<and> pack_current s = instances_of packed)
     \<and> pack_work s = total_work (pack_current s) \<and> pack_work s \<le> policy_upper_bound policy
     \<and> (\<exists>target. \<forall>i \<in> set (pack_current s). key_target (inst_key i) = target)
     \<and> mset (concat (map unit_instances (pack_units s)) @ pack_current s) = mset (instances_of gs)
     \<and> (\<forall>u \<in> set (pack_units s). unit_packs policy gs u)"

lemma unit_packs_mono: "unit_packs policy gs u \<Longrightarrow> set gs \<subseteq> set gs' \<Longrightarrow> unit_packs policy gs' u"
  unfolding unit_packs_def by blast

lemma finish_unit_run:
  assumes "packing_ok policy gs s" "distinct (map inst_key (instances_of gs))"
    and "\<And>i. i \<in> set (instances_of gs) \<Longrightarrow> compatibility i = Some (Some (f i))"
  obtains s' where "finish_unit env policy compatibility s = Some (Inr s')" "packing_ok policy gs s'" "pack_current s' = []"
proof (cases "pack_current s = []")
  case True
  with assms(1) that [of s] show ?thesis by (simp add: finish_unit_def)
next
  case False
  from assms(1) obtain packed target where packed: "set packed \<subseteq> set gs" "pack_current s = instances_of packed"
    and work: "total_work (pack_current s) \<le> policy_upper_bound policy"
    and target: "\<And>i. i \<in> set (pack_current s) \<Longrightarrow> key_target (inst_key i) = target"
    and all: "mset (concat (map unit_instances (pack_units s)) @ pack_current s) = mset (instances_of gs)"
    and us: "\<And>u. u \<in> set (pack_units s) \<Longrightarrow> unit_packs policy gs u"
    unfolding packing_ok_def by auto
  have sub: "set (pack_current s) \<subseteq> set (instances_of gs)" using packed by auto
  have "mset (map inst_key (concat (map unit_instances (pack_units s)) @ pack_current s)) = mset (map inst_key (instances_of gs))"
    using all by (metis mset_map)
  from mset_eq_imp_distinct_iff [OF this] assms(2) have d: "distinct (map inst_key (pack_current s))" by simp
  obtain u where u: "try_from_partition env policy (pack_current s) compatibility False = Some (Inr u)" "unit_holds policy (pack_current s) u"
  proof (rule try_from_partition_run [OF False d _ target])
    show "\<And>i. i \<in> set (pack_current s) \<Longrightarrow> compatibility i = Some (Some (f i))" using assms(3) sub by blast
  qed (use work in auto)
  let ?s = "s\<lparr>pack_units := pack_units s @ [u], pack_current := [], pack_work := 0\<rparr>"
  have "unit_packs policy gs u"
    using packed False u(2) work unfolding unit_packs_def by (intro exI [of _ packed]) (auto simp: unit_holds_def)
  moreover have "unit_instances u = sort_key inst_key (pack_current s)" using u(2) by (simp add: unit_holds_def)
  ultimately have "packing_ok policy gs ?s"
    using all us unfolding packing_ok_def by (auto simp: total_work_sum intro!: exI [of _ "[]"])
  with u(1) False show ?thesis by (intro that [of ?s]) (simp_all add: finish_unit_def)
qed

text \<open>A group that goes into a unit of its own, and one that is added to the current unit.\<close>

lemma packing_alone:
  assumes "packing_ok policy gs s" "group_ok g" "unit_holds policy (group_instances g) u"
  shows "packing_ok policy (gs @ [g]) (s\<lparr>pack_units := pack_units s @ [u]\<rparr>)"
proof -
  have "unit_packs policy (gs @ [g]) u"
    using assms(2,3) unfolding unit_packs_def by (intro exI [of _ "[g]"]) (auto simp: group_ok_def)
  moreover have "unit_packs policy (gs @ [g]) v" if "v \<in> set (pack_units s)" for v
    using assms(1) that by (auto simp: packing_ok_def intro: unit_packs_mono)
  moreover have "mset (unit_instances u) = mset (group_instances g)" using assms(3) by (simp add: unit_holds_def)
  ultimately show ?thesis using assms(1) unfolding packing_ok_def by auto
qed

lemma packing_added:
  assumes "packing_ok policy gs s" "group_ok g" "work_saturating_add (pack_work s) (group_work g) \<le> policy_upper_bound policy"
    and "pack_current s = [] \<or> key_target (inst_key (hd (pack_current s))) = group_target g"
  shows "packing_ok policy (gs @ [g]) (s\<lparr>pack_dependencies := ds, pack_work := work_saturating_add (pack_work s) (group_work g),
    pack_current := pack_current s @ group_instances g\<rparr>)"
proof -
  from assms(1) obtain packed target where packed: "set packed \<subseteq> set gs" "pack_current s = instances_of packed"
    and target: "\<forall>i \<in> set (pack_current s). key_target (inst_key i) = target"
    unfolding packing_ok_def by blast
  have "\<forall>i \<in> set (pack_current s). key_target (inst_key i) = group_target g"
    using target assms(4) by (cases "pack_current s") auto
  then have "\<forall>i \<in> set (pack_current s @ group_instances g). key_target (inst_key i) = group_target g"
    using assms(2) by (auto simp: group_ok_def)
  moreover have "\<exists>packed. set packed \<subseteq> set (gs @ [g]) \<and> pack_current s @ group_instances g = instances_of packed"
    using packed by (intro exI [of _ "packed @ [g]"]) auto
  moreover have "work_saturating_add (pack_work s) (group_work g) = total_work (pack_current s @ group_instances g)"
    using assms(1,2) by (simp add: total_work_append packing_ok_def group_ok_def group_holds_def)
  moreover have "unit_packs policy (gs @ [g]) v" if "v \<in> set (pack_units s)" for v
    using assms(1) that by (auto simp: packing_ok_def intro: unit_packs_mono)
  moreover have "mset (concat (map unit_instances (pack_units s)) @ pack_current s) = mset (instances_of gs)"
    using assms(1) by (simp add: packing_ok_def)
  ultimately show ?thesis unfolding packing_ok_def using assms(3) by (intro conjI) auto
qed

lemma pack_group_run:
  assumes "policy_ok policy" "packing_ok policy gs s" "group_ok g" "distinct (map inst_key (instances_of (gs @ [g])))"
    and compat: "\<And>i. i \<in> set (instances_of (gs @ [g])) \<Longrightarrow> compatibility i = Some (Some (f i))"
  obtains s' where "pack_group env policy compatibility g s = Some (Inr s')" "packing_ok policy (gs @ [g]) s'"
proof -
  obtain s1 where s1: "(if must_finish policy g s then finish_unit env policy compatibility s else Some (Inr s)) = Some (Inr s1)"
    "packing_ok policy gs s1" "pack_current s1 = [] \<or> \<not> must_finish policy g s1"
  proof (cases "must_finish policy g s")
    case True
    have "distinct (map inst_key (instances_of gs))" using assms(4) by simp
    with assms(2) obtain s' where "finish_unit env policy compatibility s = Some (Inr s')" "packing_ok policy gs s'" "pack_current s' = []"
      by (rule finish_unit_run [where compatibility = compatibility and f = f]) (use compat in auto)
    with True that show ?thesis by simp
  next
    case False
    with assms(2) that [of s] show ?thesis by simp
  qed
  have w: "pack_work s1 = total_work (pack_current s1)" using s1(2) by (simp add: packing_ok_def)
  have g: "group_work g = total_work (group_instances g)" using assms(3) by (simp add: group_ok_def group_holds_def)
  show ?thesis
  proof (cases "group_independent_publication g \<or> policy_upper_bound policy < group_work g")
    case True
    obtain u where "try_from_partition env policy (group_instances g) compatibility True = Some (Inr u)" "unit_holds policy (group_instances g) u"
    proof (rule try_from_partition_run)
      show "group_instances g \<noteq> []" "\<And>i. i \<in> set (group_instances g) \<Longrightarrow> key_target (inst_key i) = group_target g"
        using assms(3) by (simp_all add: group_ok_def)
      show "distinct (map inst_key (group_instances g))" using assms(4) by simp
      show "\<And>i. i \<in> set (group_instances g) \<Longrightarrow> compatibility i = Some (Some (f i))" by (rule compat) simp
    qed auto
    with True s1 packing_alone [OF s1(2) assms(3)] that show ?thesis by (auto simp: pack_group_def)
  next
    case False
    have "work_saturating_add (pack_work s1) (group_work g) \<le> policy_upper_bound policy"
      using s1(3) False w g by (auto simp: must_finish_def total_work_sum work_saturating_add_def)
    moreover have "pack_current s1 = [] \<or> key_target (inst_key (hd (pack_current s1))) = group_target g"
      using s1(3) by (auto simp: must_finish_def)
    ultimately have ok: "packing_ok policy (gs @ [g]) (s1\<lparr>pack_dependencies := group_dependencies g,
        pack_work := work_saturating_add (pack_work s1) (group_work g), pack_current := pack_current s1 @ group_instances g\<rparr>)" (is "packing_ok _ _ ?s2")
      by (rule packing_added [OF s1(2) assms(3)])
    obtain s3 where s3: "finish_unit env policy compatibility ?s2 = Some (Inr s3)" "packing_ok policy (gs @ [g]) s3"
      by (rule finish_unit_run [OF ok assms(4) compat])
    have "0 < policy_target_work policy" using assms(1) by (simp add: policy_ok_def)
    then obtain b where "is_content_boundary policy (group_anchor g) (group_work g) = Some b" by (auto simp: is_content_boundary_def Let_def)
    with False ok s3 have "\<exists>s'. pack_group env policy compatibility g s = Some (Inr s') \<and> packing_ok policy (gs @ [g]) s'"
      unfolding pack_group_def s1(1) and_then_simps by (cases b) (simp_all add: Let_def)
    with that show ?thesis by blast
  qed
qed

lemma pack_groups_run:
  assumes "policy_ok policy" "\<And>g. g \<in> set gs \<Longrightarrow> group_ok g" "distinct (map inst_key (instances_of (before @ gs)))" "packing_ok policy before s"
    and compat: "\<And>i. i \<in> set (instances_of (before @ gs)) \<Longrightarrow> compatibility i = Some (Some (f i))"
  shows "\<exists>s'. pack_groups env policy compatibility gs s = Some (Inr s') \<and> packing_ok policy (before @ gs) s' \<and> pack_current s' = []"
  using assms(2-)
proof (induction gs arbitrary: before s)
  case Nil
  then have d: "distinct (map inst_key (instances_of before))" and c: "\<And>i. i \<in> set (instances_of before) \<Longrightarrow> compatibility i = Some (Some (f i))"
    by auto
  show ?case by (rule finish_unit_run [OF Nil.prems(3) d c]) auto
next
  case (Cons g gs)
  have "instances_of (before @ g # gs) = instances_of (before @ [g]) @ instances_of gs" by simp
  with Cons.prems(2) have d: "distinct (map inst_key (instances_of (before @ [g])))" by (metis distinct_append map_append)
  have c: "\<And>i. i \<in> set (instances_of (before @ [g])) \<Longrightarrow> compatibility i = Some (Some (f i))" by (rule Cons.prems(4)) auto
  obtain s1 where s1: "pack_group env policy compatibility g s = Some (Inr s1)" "packing_ok policy (before @ [g]) s1"
    by (rule pack_group_run [OF assms(1) Cons.prems(3) _ d c]) (use Cons.prems(1) in auto)
  have "\<exists>s'. pack_groups env policy compatibility gs s1 = Some (Inr s') \<and> packing_ok policy ((before @ [g]) @ gs) s' \<and> pack_current s' = []"
    by (rule Cons.IH [OF _ _ s1(2)]) (use Cons.prems in auto)
  with s1(1) show ?case by simp
qed

subsection \<open>The partition\<close>

lemma indivisible_target:
  assumes "\<And>i. i \<in> set is \<Longrightarrow> instance_ok i" "(i, j) \<in> indivisible compatibility is"
  shows "key_target (inst_key i) = key_target (inst_key j)"
proof -
  have dep: "key_target (inst_key i) = key_target (inst_key j)" if "(i, j) \<in> depends_on is" for i j
    using that assms(1) [of i] by (auto simp: depends_on_def instance_ok_def)
  have deps: "key_target (inst_key i) = key_target (inst_key j)" if "(i, j) \<in> (depends_on is)\<^sup>*" for i j
    using that by (induction rule: rtrancl_induct) (auto dest: dep)
  have tie: "(i, j) \<in> tied_to compatibility is \<Longrightarrow> (i, j) \<in> depends_on is" for i j by (force simp: tied_to_def depends_on_def)
  show ?thesis using assms(2) unfolding indivisible_def
    by (induction rule: rtrancl_induct) (auto simp: mutual_def dest!: tie dep deps)
qed

lemma collect_classes_run:
  assumes "\<And>i. i \<in> set is \<Longrightarrow> compatibility i \<noteq> None"
  obtains classes where "collect_classes compatibility is = Inr classes" "list_all2 (\<lambda>i c. compatibility i = Some c) is classes"
proof -
  have "\<exists>classes. collect_classes compatibility is = Inr classes \<and> list_all2 (\<lambda>i c. compatibility i = Some c) is classes"
    using assms by (induction "is") (auto split: option.splits)
  with that show ?thesis by blast
qed

lemma indexed_class_run:
  assumes "distinct (map inst_key is)" "list_all2 (\<lambda>i c. compatibility i = Some c) is classes" "i \<in> set is"
  shows "indexed_class (instance_indices is) classes i = Some (Some (the (compatibility i)))"
proof -
  from assms(3) obtain t where t: "t < length is" "is ! t = i" by (auto simp: in_set_conv_nth)
  then have "map_of (instance_indices is) (inst_key i) = Some t" by (simp add: map_of_instance_indices [OF assms(1)])
  moreover have "compatibility i = Some (classes ! t)" "t < length classes" using assms(2) t by (auto simp: list_all2_conv_all_nth)
  ultimately show ?thesis by (simp add: indexed_class_def get_def)
qed

text \<open>What a unit of a partition is.\<close>

definition partition_unit_ok ::
    "codegen_partition_policy \<Rightarrow> (codegen_instance \<Rightarrow> codegen_partition_compatibility option) \<Rightarrow> codegen_instance list \<Rightarrow> codegen_unit \<Rightarrow> bool" where
  "partition_unit_ok policy compatibility is u \<longleftrightarrow> unit_instances u \<noteq> [] \<and> sorted_wrt (<) (map inst_key (unit_instances u))
     \<and> unit_estimated_work u = total_work (unit_instances u)
     \<and> (\<forall>i \<in> set (unit_instances u). key_target (inst_key i) = unit_target u
         \<and> (\<forall>j. (i, j) \<in> indivisible compatibility is \<longrightarrow> j \<in> set (unit_instances u)))
     \<and> (if unit_estimated_work u \<le> policy_upper_bound policy then unit_oversized u = None
        else unit_oversized u \<noteq> None \<and> (\<forall>i \<in> set (unit_instances u). \<forall>j \<in> set (unit_instances u). (i, j) \<in> indivisible compatibility is))"

lemma unit_packs_ok:
  assumes "unit_packs policy gs u" "\<And>g. g \<in> set gs \<Longrightarrow> group_ok g" "distinct (map inst_key (unit_instances u))"
    and whole: "\<And>g i j. g \<in> set gs \<Longrightarrow> i \<in> set (group_instances g) \<Longrightarrow> j \<in> set (group_instances g) \<longleftrightarrow> (i, j) \<in> indivisible compatibility is"
  shows "partition_unit_ok policy compatibility is u"
proof -
  from assms(1) obtain packed where packed: "packed \<noteq> []" "set packed \<subseteq> set gs" and u: "unit_holds policy (instances_of packed) u"
    and one: "policy_upper_bound policy < unit_estimated_work u \<longrightarrow> length packed = 1" unfolding unit_packs_def by blast
  have m: "mset (unit_instances u) = mset (instances_of packed)" and s: "set (unit_instances u) = set (instances_of packed)"
    using u by (simp_all add: unit_holds_def)
  have ne: "unit_instances u \<noteq> []"
    using packed assms(2) [of "hd packed"] s by (cases packed) (auto simp: group_ok_def)
  have sorted: "sorted_wrt (<) (map inst_key (unit_instances u))"
    using assms(3) u by (simp add: strict_sorted_iff unit_holds_def)
  have closed: "j \<in> set (unit_instances u)" if "i \<in> set (unit_instances u)" "(i, j) \<in> indivisible compatibility is" for i j
    using that packed(2) whole unfolding s by (auto dest!: subsetD)
  have single: "(i, j) \<in> indivisible compatibility is" if "policy_upper_bound policy < unit_estimated_work u"
      "i \<in> set (unit_instances u)" "j \<in> set (unit_instances u)" for i j
  proof -
    from one that(1) obtain g where "packed = [g]" by (auto simp: length_Suc_conv)
    with that(2,3) packed(2) whole [of g i j] s show ?thesis by simp
  qed
  have w: "unit_estimated_work u = total_work (unit_instances u)" using u total_work_mset [OF m] by (simp add: unit_holds_def)
  have t: "\<forall>i \<in> set (unit_instances u). key_target (inst_key i) = unit_target u" using u s by (simp add: unit_holds_def)
  have o: "unit_oversized u = None \<longleftrightarrow> unit_estimated_work u \<le> policy_upper_bound policy" using u by (auto simp: unit_holds_def)
  show ?thesis unfolding partition_unit_ok_def
  proof (intro conjI ballI allI impI ne sorted w)
    show "key_target (inst_key i) = unit_target u" if "i \<in> set (unit_instances u)" for i by (rule bspec [OF t that])
    show "if unit_estimated_work u \<le> policy_upper_bound policy then unit_oversized u = None else unit_oversized u \<noteq> None
      \<and> (\<forall>i \<in> set (unit_instances u). \<forall>j \<in> set (unit_instances u). (i, j) \<in> indivisible compatibility is)"
      unfolding o by (simp add: not_le) (blast intro: single)
  qed (rule closed)
qed

lemma mset_concat_map: "mset xs = mset ys \<Longrightarrow> mset (concat (map f xs)) = mset (concat (map f ys))"
  by (simp add: mset_concat flip: sum_mset_sum_list)

lemma indivisible_member: "(i, j) \<in> indivisible compatibility is \<Longrightarrow> i \<in> set is \<Longrightarrow> j \<in> set is"
  unfolding indivisible_def
proof (induction rule: rtrancl_induct)
  case (step j k)
  have "(j, k) \<in> (depends_on is)\<^sup>* \<Longrightarrow> j \<in> set is \<Longrightarrow> k \<in> set is" by (induction rule: rtrancl_induct) (auto simp: depends_on_def)
  with step show ?case by (auto simp: mutual_def tied_to_def)
qed

lemma partition_groups_ok:
  assumes d: "distinct (map inst_key is)" and c: "list_all2 (\<lambda>i c. compatibility i = Some c) is classes"
    and i: "\<forall>i \<in> set is. instance_ok i"
  obtains groups gs where "required_groups is (instance_indices is) classes = Some groups"
    "those (map (\<lambda>(root, members). partition_group_new env policy is members classes) groups) = Some gs"
    "mset (instances_of gs) = mset is" "\<And>g. g \<in> set gs \<Longrightarrow> group_ok g"
    "\<forall>g \<in> set gs. \<forall>i \<in> set (group_instances g). \<forall>j. j \<in> set (group_instances g) \<longleftrightarrow> (i, j) \<in> indivisible compatibility is"
proof -
  obtain groups gs where run: "required_groups is (instance_indices is) classes = Some groups"
      "those (map (\<lambda>(root, members). partition_group_new env policy is members classes) groups) = Some gs"
    and gs: "mset (instances_of gs) = mset is" "\<And>x. x \<in> set gs \<Longrightarrow> group_instances x \<noteq> [] \<and> group_holds (group_instances x) x"
    and whole: "\<And>x i j. x \<in> set gs \<Longrightarrow> i \<in> set (group_instances x) \<Longrightarrow> j \<in> set is \<Longrightarrow>
      j \<in> set (group_instances x) \<longleftrightarrow> (i, j) \<in> indivisible compatibility is"
    by (rule partition_groups_run [OF d c, of env policy]) blast
  have mem: "set (group_instances x) \<subseteq> set is" if "x \<in> set gs" for x using that mset_eq_setD [OF gs(1)] by auto
  have whole': "j \<in> set (group_instances x) \<longleftrightarrow> (i, j) \<in> indivisible compatibility is" if "x \<in> set gs" "i \<in> set (group_instances x)" for x i j
  proof (cases "j \<in> set is")
    case False
    then have "(i, j) \<notin> indivisible compatibility is" using mem [OF that(1)] that(2) indivisible_member [of i j compatibility "is"] by blast
    with False mem [OF that(1)] show ?thesis by blast
  qed (rule whole [OF that])
  have "group_ok x" if x: "x \<in> set gs" for x
  proof -
    let ?h = "hd (group_instances x)"
    have h: "?h \<in> set (group_instances x)" "group_target x = key_target (inst_key ?h)" using gs(2) [OF x] by (auto simp: group_holds_def)
    have "key_target (inst_key j) = group_target x" if "j \<in> set (group_instances x)" for j
      using indivisible_target [of "is" ?h j compatibility] i whole' [OF x h(1), of j] that h(2) by simp
    with gs(2) [OF x] show ?thesis by (simp add: group_ok_def)
  qed
  with that [OF run gs(1)] whole' show ?thesis by blast
qed

lemma partition_run:
  assumes "policy_ok policy" and d: "distinct (map inst_key (graph_instances g))"
    and i: "\<And>i. i \<in> set (graph_instances g) \<Longrightarrow> instance_ok i \<and> compatibility i \<noteq> None"
  obtains units where "partition_codegen_units env policy g compatibility = Some (Inr units)"
    "mset (concat (map unit_instances units)) = mset (graph_instances g)"
    "\<And>u. u \<in> set units \<Longrightarrow> partition_unit_ok policy compatibility (graph_instances g) u"
proof -
  let ?is = "graph_instances g"
  obtain classes where classes: "collect_classes compatibility ?is = Inr classes" "list_all2 (\<lambda>i c. compatibility i = Some c) ?is classes"
    by (rule collect_classes_run [of ?is compatibility]) (use i in auto)
  have io: "\<forall>i \<in> set ?is. instance_ok i" using i by simp
  obtain groups gs where run: "required_groups ?is (instance_indices ?is) classes = Some groups"
      "those (map (\<lambda>(root, members). partition_group_new env policy ?is members classes) groups) = Some gs"
    and gs: "mset (instances_of gs) = mset ?is" and ok: "\<And>x. x \<in> set gs \<Longrightarrow> group_ok x"
    and whole: "\<forall>x \<in> set gs. \<forall>i \<in> set (group_instances x). \<forall>j. j \<in> set (group_instances x) \<longleftrightarrow> (i, j) \<in> indivisible compatibility ?is"
    by (rule partition_groups_ok [OF d classes(2) io, of env policy]) blast
  let ?gs = "sort_key group_order gs"
  have perm: "mset (instances_of ?gs) = mset ?is" using gs mset_concat_map [of ?gs gs group_instances] by simp
  have d': "distinct (map inst_key (instances_of ?gs))" using d perm by (metis mset_eq_imp_distinct_iff mset_map)
  have c: "indexed_class (instance_indices ?is) classes i = Some (Some (the (compatibility i)))" if "i \<in> set (instances_of ?gs)" for i
    using indexed_class_run [OF d classes(2)] that mset_eq_setD [OF perm] by blast
  have new: "packing_ok policy [] packing_new" by (auto simp: packing_ok_def packing_new_def total_work_sum)
  have "\<exists>s. pack_groups env policy (indexed_class (instance_indices ?is) classes) ?gs packing_new = Some (Inr s)
      \<and> packing_ok policy ([] @ ?gs) s \<and> pack_current s = []"
    by (rule pack_groups_run [OF assms(1) _ _ new, where f = "\<lambda>i. the (compatibility i)"]) (use ok d' c in auto)
  then obtain s where s: "pack_groups env policy (indexed_class (instance_indices ?is) classes) ?gs packing_new = Some (Inr s)"
    "packing_ok policy ?gs s" "pack_current s = []" by auto
  have all: "mset (concat (map unit_instances (pack_units s))) = mset ?is" using s(2,3) perm by (simp add: packing_ok_def)
  show ?thesis
  proof (rule that [OF _ all])
    show "partition_codegen_units env policy g compatibility = Some (Inr (pack_units s))"
      using classes(1) run s(1) by (simp add: partition_codegen_units_def Let_def)
    show "partition_unit_ok policy compatibility ?is u" if u: "u \<in> set (pack_units s)" for u
    proof (rule unit_packs_ok)
      show "unit_packs policy ?gs u" using s(2) u by (simp add: packing_ok_def)
      have "distinct (map inst_key (concat (map unit_instances (pack_units s))))" using d all by (metis mset_eq_imp_distinct_iff mset_map)
      with u show "distinct (map inst_key (unit_instances u))" by (auto simp: distinct_map dest: distinct_concat_iff [THEN iffD1] inj_on_subset)
    qed (use ok whole in auto)
  qed
qed

text \<open>
  C8. The partition of a published graph succeeds. Its units hold every instance of the graph once and nothing else; a unit
  holds instances of one target, sorted; definitions that are tied or depend on each other stay in one unit; and a unit
  exceeds the bound only when it cannot be divided, which it then says.
\<close>

theorem partition_codegen_units_correct:
  assumes "policy_ok policy" "\<And>k i. f k = Some i \<Longrightarrow> inst_key i = k \<and> instance_ok i \<and> compatibility i \<noteq> None"
    and "builder_try_new roots = Inr b0" "(builds f)\<^sup>*\<^sup>* b0 b" "builder_finish b = Inr g"
  shows "\<exists>units. partition_codegen_units env policy g compatibility = Some (Inr units)
    \<and> mset (concat (map unit_instances units)) = mset (graph_instances g)
    \<and> (\<forall>u \<in> set units. partition_unit_ok policy compatibility (graph_instances g) u)"
proof -
  note G = builder_finish_graph [OF runs_ok [OF assms(4) builder_ok_new [OF assms(3)]] assms(5)]
  let ?keys = "{k \<in> reachable_from (resolved_dependencies f) (set roots). f k \<noteq> None}"
  have fin: "finite ?keys" using G(4) by simp
  have key: "inst_key (the (f k)) = k" "instance_ok (the (f k))" "compatibility (the (f k)) \<noteq> None" if "k \<in> ?keys" for k
    using assms(2) that by auto
  have "map inst_key (graph_instances g) = sorted_list_of_set ?keys" unfolding G(3) map_map using key(1) fin by (intro map_idI) simp
  then have "distinct (map inst_key (graph_instances g))" by simp
  then show ?thesis
  proof (rule partition_run [OF assms(1), where env = env and compatibility = compatibility])
    show "instance_ok i \<and> compatibility i \<noteq> None" if "i \<in> set (graph_instances g)" for i
      using that key(2,3) fin unfolding G(3) by auto
  qed auto
qed

theorem partition_codegen_units_correct_witness:
  "\<exists>b0 b g units. builder_try_new [sample_key 0] = Inr b0 \<and> (builds sample_resolver)\<^sup>*\<^sup>* b0 b \<and> builder_finish b = Inr g
    \<and> partition_codegen_units sample_environment native_balanced g (\<lambda>i. Some sample_class) = Some (Inr units)
    \<and> concat (map unit_instances units) = [sample_caller]"
proof -
  obtain b0 b g where run: "builder_try_new [sample_key 0] = Inr b0" "(builds sample_resolver)\<^sup>*\<^sup>* b0 b" "builder_finish b = Inr g"
    "graph_instances g = [sample_caller]" by (rule sample_run)
  have "inst_key i = k \<and> instance_ok i \<and> Some sample_class \<noteq> None" if "sample_resolver k = Some i" for k i
    using that by (auto simp: sample_resolver_def sample_caller_def instance_ok_def sample_key_def sample_mir_def split: if_splits)
  from partition_codegen_units_correct [OF policy_constants_ok(1) this run(1-3), of sample_environment] obtain units where
    "partition_codegen_units sample_environment native_balanced g (\<lambda>i. Some sample_class) = Some (Inr units)"
    "mset (concat (map unit_instances units)) = mset (graph_instances g)" by blast
  with run show ?thesis by (intro exI conjI) (assumption | simp)+
qed

end
