(* ===== verification/Spec2Isabelle.thy ===== *)
theory Spec2Isabelle
  imports Line_Index Parser_Declarations Parser_Expressions Test_Schedule Integer_Ranges Numeric_Truncation Condition_Evaluation
    Execution_Proof Codegen_Partition
begin

text \<open>
  A verification development for the Bray compiler. Paths below are under \<open>src/crates/\<close>.

  \<^bold>\<open>The program\<close>. Bray source is read into immutable snapshots (\<open>bray-source\<close>), turned into tokens
  with their trivia (\<open>bray-syntax\<close>, \<open>bray-parser/src/lexer\<close>) with diagnostics on the side
  (\<open>bray-diagnostics\<close>), parsed, bound and checked. The checker (\<open>bray-checker\<close>) folds constants, keeps
  ranges of integers, and reasons about the conditions under which a callable may be entered and what
  holds when it completes. Checked code is lowered; the code generator (\<open>bray-codegen\<close>) finds the concrete
  definitions a program reaches and divides them into units that are generated apart. Compiled test programs
  are driven by a scheduler (\<open>bray-test-protocol\<close>) that decides which test may start next. The development
  covers the pipeline up to the token stream, the syntax tree, the parser below its grammar and part of the
  grammar, the constants, ranges and conditions of the checker with the check of its proofs, the planning of
  code generation, and the scheduler.

  \<^bold>\<open>Texts, positions and edits\<close>. \<open>Utf8_Text\<close> is the part of Rust's strings that the source uses: texts are
  byte lists, with character boundaries and decoding. \<open>Source_Text\<close> models \<open>text.rs\<close>, \<open>snapshot.rs\<close> and
  \<open>edit.rs\<close> (offsets below \<open>2 ^ 32\<close>, ranges, checksums on 64-bit words, snapshots, edits), \<open>Line_Index\<close>
  models \<open>newline.rs\<close> and \<open>line_index.rs\<close>. Shown: what an edit does on every branch, the cover of two
  ranges is their least upper bound, offsets and LSP positions are inverse to each other, one changed
  byte changes the checksum.

  \<^bold>\<open>Tokens and diagnostics\<close>. \<open>Syntax_Kinds\<close> holds the kinds, their classes and the tables of fixed
  spellings (\<open>kind.rs\<close>, \<open>fixed_text.rs\<close>), \<open>Syntax_Tokens\<close> tokens and trivia (\<open>token.rs\<close>, \<open>trivia.rs\<close>),
  \<open>Diagnostics\<close> the records and suggestions. Shown: the kinds are partitioned, spelling and kind
  determine each other, and which edits a suggestion accepts.

  \<^bold>\<open>The lexer\<close>. \<open>Lexer_Text\<close>, \<open>Lexer_Numeric\<close>, \<open>Lexer_Quoted\<close>, \<open>Lexer_Trivia\<close>, \<open>Lexer_Scanner\<close> and
  \<open>Lexer_Stream\<close> follow the files of \<open>bray-parser/src/lexer\<close> one by one. The scanners share a contract,
  a locale of \<open>Lexer_Text\<close> interpreted on each of them: a scan returns, consumes at least a byte, ends on
  a character boundary and reports its own range only. The token source (\<open>token_source.rs\<close>) is a state
  record with its cache; its two cache policies are related to a stateless scan of the text. Shown:
  lexing is lossless and returns on every well-formed snapshot, diagnostics and invalid tokens match,
  and lookahead sees the tokens that consuming yields, under either policy.

  \<^bold>\<open>The syntax tree\<close>. \<open>Green_Tree\<close> (\<open>bray-syntax/src/green.rs\<close>, \<open>builder.rs\<close>) stores tokens and nodes by
  their widths; its iterators keep an explicit stack and are shown to do the recursion over the children.
  \<open>Syntax_Tree\<close> (\<open>syntax/unit.rs\<close>, \<open>walk.rs\<close>, \<open>tree.rs\<close>, \<open>node/traits.rs\<close>) holds source units, the walker
  and the index of nodes. Shown: a tree over the lexed tokens gives the source back byte for byte, the
  walker does the recursive traversal with its early exits, a node handle finds the first node it fits,
  and a node is recovered exactly when it holds a missing or skipped token.

  \<^bold>\<open>The parser below its grammar\<close>. \<open>Parser_Cursor\<close> (\<open>bray-parser/src/diagnostic.rs\<close>, \<open>cursor.rs\<close>,
  \<open>parser/state.rs\<close>, \<open>parser/delimiter.rs\<close>) expects, consumes and skips tokens, scans ahead and limits
  nesting; every operation is specified against the stateless scan of the text. \<open>Parser_Lists\<close>
  (\<open>parser/recovery.rs\<close>, \<open>separated.rs\<close>, \<open>path.rs\<close>, \<open>list/storage.rs\<close>, \<open>syntax/path.rs\<close>) fills builders.
  Its contract is that what a production puts into its node accounts for exactly the tokens it moved
  over: sinks and tests are locales interpreted on the builders and tests of the code, and the list
  parser is proved inside one for every item production. Shown: paths and separated lists return on
  every text, with recovery, and their nodes reproduce the text they went over.

  \<^bold>\<open>The grammar\<close>. \<open>Parser_Nodes\<close> holds the typed nodes and builders that \<open>node/definition.rs\<close> generates, and
  productions as lists of steps on a builder, so that a production is correct when its steps are.
  \<open>Parser_Declarations\<close> (\<open>parser/overload.rs\<close>, parts of \<open>module.rs\<close>) holds overload, using and export
  declarations. \<open>Parser_Progress\<close> adds what recursive productions need: boundary tests as arguments, places at
  which a step is sure to take a token, loops that repeat a step, and the nesting limit. \<open>Parser_Patterns\<close> is
  all of \<open>parser/pattern.rs\<close>; its locale states what the recursive call promises, every production is
  proved inside it, and the interpretation closes the recursion over the number of levels.
  \<open>Parser_Expressions\<close> is the operator layer \<open>parser/expression/operator.rs\<close> with parenthesized expressions,
  tuples and arrays. Shown: the declarations and the patterns return on every text, for every boundary test,
  and lose nothing; the loops over tuple and array elements do not return at the nesting limit before an
  operator that can also start an expression, which is recorded as a finding.

  \<^bold>\<open>Dependency graphs and proof dependencies\<close>. \<open>Dependency_Graph\<close> (\<open>bray-base/src/graph.rs\<close>) holds the closure
  of a dependency function and the strongly connected components, two searches with explicit stacks over sets
  of visited nodes. \<open>Execution_Proof\<close> (\<open>bray-symbols/src/semantic/execution/proof.rs\<close>, obligations from
  \<open>contract.rs\<close>) checks which proofs may rest on each other. Shown: the closure returns exactly on finite
  graphs; components are the classes of nodes that reach each other, in the order of the edges; the check
  returns and rejects exactly what leads to a missing candidate or to a circular completion.

  \<^bold>\<open>Planning code generation\<close>. \<open>Codegen_Instances\<close> (\<open>bray-codegen/src/unit/instance.rs\<close>, \<open>policy.rs\<close>) holds keys,
  instances and the cost model, with the derived orders as instances of the class of linear orders.
  \<open>Codegen_Reachability\<close> (\<open>unit/graph.rs\<close>) is the builder of the reachable graph, a state machine whose caller
  may answer in any order. \<open>Union_Find\<close> is the forest of disjoint sets in \<open>partition.rs\<close>: its locale states what a
  client needs, and the interpretation shows it of the forest with path compression. \<open>Codegen_Units\<close>
  (\<open>unit/model.rs\<close>) builds units and rebuilds them from their keys, \<open>Codegen_Groups\<close> and \<open>Codegen_Partition\<close>
  (\<open>unit/partition.rs\<close>) group what must stay together and pack the groups. Shown: a published graph depends on
  the roots only and the builder never gets stuck; the partition of a published graph succeeds, keeps every
  instance once, keeps tied and mutually dependent definitions together, and exceeds its bound only where it
  must; a key is a recipe of its unit.

  \<^bold>\<open>The test scheduler\<close>. \<open>Ordered_Map\<close> is the sorted map the schedule keeps; \<open>Test_Schedule\<close> models
  \<open>scheduling.rs\<close> as a state machine of admissions, completions and stops. Shown by rule induction, over
  the invariant that every operation keeps: limits and budgets hold, each planned test is pending, active
  or completed with its own result, runs end, and stopping is final.

  \<^bold>\<open>Constants\<close>. \<open>Constant_Integers\<close> (\<open>bray-symbols/src/value/constant.rs\<close>, \<open>constant/integer.rs\<close>) and
  \<open>Constant_Folding\<close> (\<open>constant/operation.rs\<close>) model integer constants as canonical byte strings and the
  folding of operations; \<open>Constant_Floating\<close> (\<open>constant/floating.rs\<close>, \<open>conversion.rs\<close>, \<open>representation.rs\<close>,
  \<open>bray-symbols/src/value/numeric.rs\<close>) models real and complex constants by their bits. Shown: folding
  integers computes the mathematical operation within the limit on bits, constants survive their
  conversions, an integer fits a type exactly when it is in range. \<open>Numeric_Truncation\<close> gives the bits of
  a format their IEEE values and shows that the derived bounds for truncating a real to an integer are
  exact and that conversions called lossless lose nothing. \<open>Integer_Ranges\<close>
  (\<open>analysis/guarantee/integer/arithmetic.rs\<close>) computes ranges of results; they contain every folded
  result and stay within the limit.

  \<^bold>\<open>Execution conditions\<close>. \<open>Execution_Conditions\<close> models the terms, their normal forms, the search for
  implied comparisons and the prover of \<open>execution_guarantees/condition/\<close> and \<open>implication.rs\<close>. The locale
  of \<open>Condition_Semantics\<close> states what the prover relies on: truth values that may be missing, connectives
  from left to right, and comparisons that form a partial order in which a value need not equal itself.
  \<open>Condition_Evaluation\<close> evaluates conditions by constant folding, shows that every such evaluation obeys
  the laws, and draws the conclusions: the prover, the recording of assumptions and the normal forms
  are right in every environment. A snapshot over a literal evaluates to the literal, as the code takes
  it to; that drops its changed components, which is recorded as a finding.

  \<^bold>\<open>How the code is modelled\<close>. Structures are records and enumerations datatypes with the source's
  constructors. Machine integers are words where they wrap and are otherwise natural numbers or integers
  with their bounds written out. A panic is the value \<open>None\<close> of the type of runs; a \<open>Result\<close> is a sum.
  Loops over the text are \<open>partial_function (option)\<close>, so that returning is something to prove, and it is
  proved for each; other loops are functions with a measure. The bounded prover threads its budget: a
  computation takes the work left and returns what remains. Patterns are recursive through one function
  that enters a nesting level per call; the model counts those calls. The parser itself stops at 128 levels,
  so 129 are enough from any state, which is part of what is proved; no other bound is the development's own.
  Productions of the grammar that are not modelled are arguments of those that call them. Ordered sets of assumptions are lists in the order of iteration; identities of symbols, types and
  expressions are numbers.

  \<^bold>\<open>Parameters\<close>. The table of Unicode alphanumeric characters; the writer of big-endian bytes of
  \<open>num_bigint\<close>, of which only that the bytes spell the number is used; the operations of \<open>rustc_apfloat\<close> on
  bits, with the powers and complex operations of \<open>bray-numeric\<close>, of which only the IEEE order of
  comparisons is used; the digests of the code generator, the runtime references of a MIR unit and the object
  format of a target, of which nothing is used.

  \<^bold>\<open>Not modelled\<close>. Machine keys of enumerations and localised messages (tables without behaviour); types,
  statements, most primary expressions and the larger declarations of the grammar, for which returning on
  every text does not hold in general; substitution, snapshots and observation sets of conditions, and the
  refinement of integer ranges by conditions, which rest on the bound tree; the formatter, the binder, symbol
  tables and type checking (relations over the whole language); lowering, translation and linking (dependent
  on LLVM and a linker); package interfaces, the runtime, the command line and the language server
  (serialisation, threads, memory and protocols).
\<close>

end
